(* ===== verification/KPrelude.thy ===== *)
theory KPrelude
  imports Main "HOL-Library.Word"
begin

text \<open>
  What every theory of the development shares.

  \<^item> The machine types of the target (RV32: \<open>char\<close> is unsigned and eight bits wide, \<open>int\<close>,
    \<open>long\<close> and pointers are 32 bits wide, little-endian) as words.
  \<^item> The idiom \<open>err = f(...); if (err) return err; ...\<close> as the combinators \<open>chk\<close> (for code
    that always returns) and \<open>chko\<close> (for code that contains an unbounded loop and therefore
    yields \<^term>\<open>None\<close> when its fuel runs out).
  \<^item> Packed little-endian fields inside byte buffers (\<open>ld16\<close>, \<open>ld32\<close>, \<open>st16\<close>, \<open>st32\<close>),
    which is how the code overlays a \<open>struct\<close> or a \<open>uint32_t*\<close> on a sector buffer.
\<close>

unbundle bit_operations_syntax

section \<open>Machine types\<close>

type_synonym u8 = "8 word"
type_synonym u16 = "16 word"
type_synonym u32 = "32 word"

named_theorems chk_simps \<open>how the error-checking combinators compute\<close>
named_theorems buf_simps \<open>loads from updated buffers\<close>

lemma unat_of_nat_small: "n < 2 ^ LENGTH('a) \<Longrightarrow> unat (of_nat n :: 'a::len word) = n"
  by (simp add: unsigned_of_nat take_bit_nat_eq_self)

section \<open>Early return on error\<close>

text \<open>
  A C function that reports success or failure returns an \<open>int\<close>, zero for success, and
  updates the state: it is modelled by a value of type \<open>int \<times> 's\<close>.
\<close>

definition chk :: "int \<times> 's \<Rightarrow> ('s \<Rightarrow> int \<times> 't) \<Rightarrow> (int \<Rightarrow> 's \<Rightarrow> int \<times> 't) \<Rightarrow> int \<times> 't" where
  "chk r k h = (case r of (err, s) \<Rightarrow> if err \<noteq> 0 then h err s else k s)"

definition chko :: "(int \<times> 's) option \<Rightarrow> ('s \<Rightarrow> (int \<times> 't) option) \<Rightarrow>
    (int \<Rightarrow> 's \<Rightarrow> (int \<times> 't) option) \<Rightarrow> (int \<times> 't) option" where
  "chko r k h = (case r of None \<Rightarrow> None
     | Some (err, s) \<Rightarrow> if err \<noteq> 0 then h err s else k s)"

lemma chk_Pair [simp, chk_simps]:
  "chk (err, s) k h = (if err \<noteq> 0 then h err s else k s)"
  by (simp add: chk_def)

lemma chko_simps [simp, chk_simps]:
  "chko None k h = None"
  "chko (Some (err, s)) k h = (if err \<noteq> 0 then h err s else k s)"
  by (simp_all add: chko_def)

lemma chk_split:
  "P (chk r k h) \<longleftrightarrow> (\<forall>err s. r = (err, s) \<longrightarrow> (err \<noteq> 0 \<longrightarrow> P (h err s)) \<and> (err = 0 \<longrightarrow> P (k s)))"
  by (cases r) auto

lemma chko_split:
  "P (chko r k h) \<longleftrightarrow> (r = None \<longrightarrow> P None) \<and>
     (\<forall>err s. r = Some (err, s) \<longrightarrow> (err \<noteq> 0 \<longrightarrow> P (h err s)) \<and> (err = 0 \<longrightarrow> P (k s)))"
  by (cases r) auto

lemma chk_cong [fundef_cong]:
  assumes "r = r'" "\<And>s. r' = (0, s) \<Longrightarrow> k s = k' s"
    and "\<And>e s. r' = (e, s) \<Longrightarrow> e \<noteq> 0 \<Longrightarrow> h e s = h' e s"
  shows "chk r k h = chk r' k' h'"
  using assms by (cases r') auto

section \<open>Little-endian fields of a byte buffer\<close>

definition ld16 :: "u8 list \<Rightarrow> nat \<Rightarrow> u16" where
  "ld16 b i = (ucast (b ! i) :: u16) OR push_bit 8 (ucast (b ! (i + 1)))"

definition ld32 :: "u8 list \<Rightarrow> nat \<Rightarrow> u32" where
  "ld32 b i = (ucast (b ! i) :: u32) OR push_bit 8 (ucast (b ! (i + 1)))
     OR push_bit 16 (ucast (b ! (i + 2))) OR push_bit 24 (ucast (b ! (i + 3)))"

definition st16 :: "u8 list \<Rightarrow> nat \<Rightarrow> u16 \<Rightarrow> u8 list" where
  "st16 b i v = b[i := ucast v, i + 1 := ucast (drop_bit 8 v)]"

definition st32 :: "u8 list \<Rightarrow> nat \<Rightarrow> u32 \<Rightarrow> u8 list" where
  "st32 b i v = b[i := ucast v, i + 1 := ucast (drop_bit 8 v),
     i + 2 := ucast (drop_bit 16 v), i + 3 := ucast (drop_bit 24 v)]"

text \<open>\<open>memcpy\<close> and \<open>memset\<close> of a buffer range.\<close>

definition blit :: "u8 list \<Rightarrow> nat \<Rightarrow> u8 list \<Rightarrow> u8 list" where
  "blit b i src = take i b @ take (length b - i) src @ drop (i + length src) b"

lemma length_st16 [simp]: "length (st16 b i v) = length b"
  by (simp add: st16_def)

lemma length_st32 [simp]: "length (st32 b i v) = length b"
  by (simp add: st32_def)

lemma length_blit [simp]: "i \<le> length b \<Longrightarrow> length (blit b i src) = length b"
  by (simp add: blit_def)

lemma bytes16_join:
  "(ucast (ucast (v :: u16) :: u8) :: u16) OR push_bit 8 (ucast (ucast (drop_bit 8 v) :: u8)) = v"
  by (rule bit_word_eqI) (auto simp: bit_simps)

lemma bytes32_join:
  "(ucast (ucast (v :: u32) :: u8) :: u32) OR push_bit 8 (ucast (ucast (drop_bit 8 v) :: u8))
    OR push_bit 16 (ucast (ucast (drop_bit 16 v) :: u8))
    OR push_bit 24 (ucast (ucast (drop_bit 24 v) :: u8)) = v" (is "?l = v")
proof (rule bit_word_eqI)
  fix n :: nat
  assume "n < LENGTH(32)"
  then consider "n < 8" | "8 \<le> n" "n < 16" | "16 \<le> n" "n < 24" | "24 \<le> n" "n < 32"
    by fastforce
  then show "bit ?l n = bit v n"
    by cases (auto simp: bit_simps)
qed

lemma ld16_st16_same [simp, buf_simps]: "i + 1 < length b \<Longrightarrow> ld16 (st16 b i v) i = v"
  by (simp add: ld16_def st16_def nth_list_update bytes16_join)

lemma ld32_st32_same [simp, buf_simps]: "i + 3 < length b \<Longrightarrow> ld32 (st32 b i v) i = v"
  by (simp add: ld32_def st32_def nth_list_update bytes32_join)

lemma nth_st32_other [simp, buf_simps]:
  "j < i \<or> i + 3 < j \<Longrightarrow> st32 b i v ! j = b ! j"
  by (auto simp: st32_def nth_list_update)

lemma nth_st16_other [simp, buf_simps]:
  "j < i \<or> i + 1 < j \<Longrightarrow> st16 b i v ! j = b ! j"
  by (auto simp: st16_def nth_list_update)

lemma ld32_st32_other [simp, buf_simps]:
  "j + 3 < i \<or> i + 3 < j \<Longrightarrow> ld32 (st32 b i v) j = ld32 b j"
  by (auto simp: ld32_def)

lemma ld32_cong:
  assumes "\<And>k. k < 4 \<Longrightarrow> b ! (i + k) = c ! (i + k)"
  shows "ld32 b i = ld32 c i"
  using assms [of 0] assms [of 1] assms [of 2] assms [of 3] by (simp add: ld32_def)

lemma nth_blit_in: "i \<le> j \<Longrightarrow> j < i + length src \<Longrightarrow> i + length src \<le> length b \<Longrightarrow>
    blit b i src ! j = src ! (j - i)"
  by (auto simp: blit_def nth_append min_def)

lemma nth_blit_out: "j < length b \<Longrightarrow> j < i \<or> i + length src \<le> j \<Longrightarrow> i + length src \<le> length b \<Longrightarrow>
    blit b i src ! j = b ! j"
  by (auto simp: blit_def nth_append min_def)

end
