(* ===== verification/Tetris.thy ===== *)
theory Tetris
  imports KPrelude "HOL-Library.Signed_Division" "HOL-Library.Monad_Syntax"
begin

text \<open>
  The game engine of \<open>karnix_tetriscv/src/tetris.c\<close> and the part of \<open>main.c\<close> that drives it.

  The globals of \<open>tetris.c\<close> are the record \<open>game\<close>; each C function is a definition of the same
  name that takes and returns the state. Array accesses are explicit: reading \<open>arena\<close> or
  \<open>tetrominoes\<close> outside its bounds is undefined behaviour in C and the value \<^term>\<open>None\<close> here, so
  that a result \<^term>\<open>Some g\<close> also says that the code stayed inside its arrays. \<open>rand()\<close> belongs to
  the C library: its (non-negative) result is the parameter \<open>rnd\<close>.
\<close>

section \<open>Data\<close>

definition A_WIDTH :: int where "A_WIDTH = 10"
definition A_HEIGHT :: int where "A_HEIGHT = 20"
definition T_WIDTH :: int where "T_WIDTH = 4"
definition T_HEIGHT :: int where "T_HEIGHT = 4"

lemmas dims = A_WIDTH_def A_HEIGHT_def T_WIDTH_def T_HEIGHT_def

datatype tetris_event = TETRIS_EVENT_RIGHT | TETRIS_EVENT_LEFT | TETRIS_EVENT_UP | TETRIS_EVENT_DOWN

definition tetrominoes :: "int list list" where
  "tetrominoes =
    [[0, 0, 0, 0, 1, 1, 1, 1, 0, 0, 0, 0, 0, 0, 0, 0],
     [0, 0, 0, 0, 0, 1, 1, 0, 0, 1, 1, 0, 0, 0, 0, 0],
     [0, 0, 0, 0, 0, 0, 1, 1, 0, 1, 1, 0, 0, 0, 0, 0],
     [0, 0, 0, 0, 1, 1, 0, 0, 0, 1, 1, 0, 0, 0, 0, 0],
     [0, 0, 0, 0, 0, 1, 0, 0, 1, 1, 1, 0, 0, 0, 0, 0],
     [0, 0, 0, 0, 1, 0, 0, 0, 1, 1, 1, 0, 0, 0, 0, 0],
     [0, 0, 0, 0, 0, 0, 0, 1, 0, 1, 1, 1, 0, 0, 0, 0]]"

record game =
  arena :: "u8 list list"
  score :: int
  gameOver :: int
  currTetrominoIdx :: int
  currRotation :: int
  currX :: int
  currY :: int

text \<open>Array reads with the bounds C leaves to the programmer.\<close>

definition rd :: "'a list \<Rightarrow> int \<Rightarrow> 'a option" where
  "rd xs i = (if 0 \<le> i \<and> i < int (length xs) then Some (xs ! nat i) else None)"

definition rd2 :: "'a list list \<Rightarrow> int \<Rightarrow> int \<Rightarrow> 'a option" where
  "rd2 xss i j = (case rd xss i of None \<Rightarrow> None | Some xs \<Rightarrow> rd xs j)"

definition wr2 :: "'a list list \<Rightarrow> int \<Rightarrow> int \<Rightarrow> 'a \<Rightarrow> 'a list list option" where
  "wr2 xss i j v = (case rd2 xss i j of None \<Rightarrow> None
     | Some _ \<Rightarrow> Some (xss[nat i := (xss ! nat i)[nat j := v]]))"

section \<open>Operations\<close>

text \<open>The remainder of C truncates towards zero, hence \<open>smod\<close>.\<close>

definition rotate :: "int \<Rightarrow> int \<Rightarrow> int \<Rightarrow> int" where
  "rotate x y rotation =
    (if rotation smod 4 = 0 then x + y * T_WIDTH
     else if rotation smod 4 = 1 then 12 + y - (x * T_WIDTH)
     else if rotation smod 4 = 2 then 15 - (y * T_WIDTH) - x
     else if rotation smod 4 = 3 then 3 - y + (x * T_WIDTH)
     else 0)"

text \<open>The pairs \<open>(x, y)\<close> in the order of the nested loops (\<open>x\<close> outside).\<close>

definition xy_loop :: "(int \<times> int) list" where
  "xy_loop = concat (map (\<lambda>x. map (\<lambda>y. (x, y)) [0..T_HEIGHT - 1]) [0..T_WIDTH - 1])"

text \<open>One turn of the loop of \<open>validPos\<close>: \<^term>\<open>Some False\<close> is \<open>return 0\<close>, \<^term>\<open>Some True\<close> goes on.\<close>

definition validCell :: "game \<Rightarrow> int \<Rightarrow> int \<Rightarrow> int \<Rightarrow> int \<Rightarrow> int \<times> int \<Rightarrow> bool option" where
  "validCell g tetromino rotation posX posY = (\<lambda>(x, y). do {
     let index = rotate x y rotation;
     t \<leftarrow> rd2 tetrominoes tetromino index;
     if 1 \<noteq> t then Some True
     else (let arenaX = x + posX; arenaY = y + posY in
       if 0 > arenaX \<or> A_WIDTH \<le> arenaX \<or> A_HEIGHT \<le> arenaY then Some False
       else do {
         arenaXY \<leftarrow> rd2 (arena g) arenaY arenaX;
         if 0 \<le> arenaY \<and> 1 = arenaXY then Some False else Some True
       })
   })"

fun validLoop :: "(int \<times> int \<Rightarrow> bool option) \<Rightarrow> (int \<times> int) list \<Rightarrow> bool option" where
  "validLoop f [] = Some True"
| "validLoop f (c # cs) = (case f c of None \<Rightarrow> None | Some False \<Rightarrow> Some False
     | Some True \<Rightarrow> validLoop f cs)"

definition validPos :: "game \<Rightarrow> int \<Rightarrow> int \<Rightarrow> int \<Rightarrow> int \<Rightarrow> bool option" where
  "validPos g tetromino rotation posX posY =
     validLoop (validCell g tetromino rotation posX posY) xy_loop"

definition newTetromino :: "int \<Rightarrow> game \<Rightarrow> game option" where
  "newTetromino rnd g = do {
     let g = g\<lparr>currTetrominoIdx := rnd smod 7, currRotation := 0,
               currX := (A_WIDTH sdiv 2) - (T_WIDTH sdiv 2), currY := 0\<rparr>;
     v \<leftarrow> validPos g (currTetrominoIdx g) (currRotation g) (currX g) (currY g);
     Some (g\<lparr>gameOver := (if v then 0 else 1)\<rparr>)
   }"

definition newGame :: "int \<Rightarrow> game \<Rightarrow> game option" where
  "newGame rnd g = newTetromino rnd (g\<lparr>score := 0, gameOver := 0, currRotation := 0\<rparr>)"

fun processInputs :: "tetris_event \<Rightarrow> game \<Rightarrow> game option" where
  "processInputs TETRIS_EVENT_UP g = do {
     let nextRotation = (currRotation g + 1) smod 4;
     v \<leftarrow> validPos g (currTetrominoIdx g) nextRotation (currX g) (currY g);
     Some (if v then g\<lparr>currRotation := nextRotation\<rparr> else g)
   }"
| "processInputs TETRIS_EVENT_LEFT g = do {
     v \<leftarrow> validPos g (currTetrominoIdx g) (currRotation g) (currX g - 1) (currY g);
     Some (if v then g\<lparr>currX := currX g - 1\<rparr> else g)
   }"
| "processInputs TETRIS_EVENT_RIGHT g = do {
     v \<leftarrow> validPos g (currTetrominoIdx g) (currRotation g) (currX g + 1) (currY g);
     Some (if v then g\<lparr>currX := currX g + 1\<rparr> else g)
   }"
| "processInputs TETRIS_EVENT_DOWN g = do {
     v \<leftarrow> validPos g (currTetrominoIdx g) (currRotation g) (currX g) (currY g + 1);
     Some (if v then g\<lparr>currY := currY g + 1\<rparr> else g)
   }"

definition moveDown :: "game \<Rightarrow> (bool \<times> game) option" where
  "moveDown g = do {
     v \<leftarrow> validPos g (currTetrominoIdx g) (currRotation g) (currX g) (currY g + 1);
     Some (if v then (True, g\<lparr>currY := currY g + 1\<rparr>) else (False, g))
   }"

text \<open>\<open>addToArena\<close>: the loops run with \<open>y\<close> outside.\<close>

definition yx_loop :: "(int \<times> int) list" where
  "yx_loop = concat (map (\<lambda>y. map (\<lambda>x. (x, y)) [0..T_WIDTH - 1]) [0..T_HEIGHT - 1])"

definition addCell :: "game \<Rightarrow> u8 list list \<Rightarrow> int \<times> int \<Rightarrow> u8 list list option" where
  "addCell g a = (\<lambda>(x, y). do {
     let index = rotate x y (currRotation g);
     t \<leftarrow> rd2 tetrominoes (currTetrominoIdx g) index;
     if 1 \<noteq> t then Some a
     else (let arenaX = currX g + x; arenaY = currY g + y;
               xInRange = (0 \<le> arenaX \<and> arenaX < A_WIDTH);
               yInRange = (0 \<le> arenaY \<and> arenaY < A_HEIGHT) in
       if xInRange \<and> yInRange then wr2 a arenaY arenaX 1 else Some a)
   })"

fun addLoop :: "game \<Rightarrow> (int \<times> int) list \<Rightarrow> u8 list list \<Rightarrow> u8 list list option" where
  "addLoop g [] a = Some a"
| "addLoop g (c # cs) a = do { a' \<leftarrow> addCell g a c; addLoop g cs a' }"

definition addToArena :: "game \<Rightarrow> game option" where
  "addToArena g = do { a \<leftarrow> addLoop g yx_loop (arena g); Some (g\<lparr>arena := a\<rparr>) }"

text \<open>
  \<open>checkLines\<close>: row \<open>y\<close> is full when none of its cells is zero. A full row is removed by copying
  every row above it one down (\<open>shiftDown\<close>, the loop over \<open>yy\<close>) and clearing row 0; \<open>y++\<close> then makes
  the outer loop look at the same row again. The outer loop's \<open>y\<close> is \<open>n - 1\<close> here; a row index
  beyond the arena is \<^term>\<open>None\<close>, as for every array access.
\<close>

definition lineFull :: "u8 list \<Rightarrow> bool" where
  "lineFull row \<longleftrightarrow> (\<forall>x < nat A_WIDTH. row ! x \<noteq> 0)"

fun shiftDown :: "nat \<Rightarrow> 'a list \<Rightarrow> 'a list" where
  "shiftDown 0 a = a"
| "shiftDown (Suc yy) a = shiftDown yy (a[Suc yy := a ! yy])"

definition clearLine :: "nat \<Rightarrow> u8 list list \<Rightarrow> u8 list list" where
  "clearLine y a = (shiftDown y a)[0 := replicate (nat A_WIDTH) 0]"

lemma length_shiftDown [simp]: "length (shiftDown n a) = length a"
  by (induction n arbitrary: a) auto

lemma shiftDown_eq: "y < length a \<Longrightarrow> shiftDown y a = a ! 0 # take y a @ drop (Suc y) a"
proof (induction y arbitrary: a)
  case 0
  then show ?case by (cases a) auto
next
  case (Suc y)
  have "shiftDown (Suc y) a = shiftDown y (a[Suc y := a ! y])" by simp
  also have "\<dots> = a ! 0 # take y a @ a ! y # drop (Suc (Suc y)) a"
    using Suc by (simp add: Cons_nth_drop_Suc [symmetric] del: shiftDown.simps)
  also have "\<dots> = a ! 0 # take (Suc y) a @ drop (Suc (Suc y)) a"
    using Suc.prems by (simp add: take_Suc_conv_app_nth)
  finally show ?case .
qed

lemma clearLine_eq:
  "y < length a \<Longrightarrow> clearLine y a = replicate (nat A_WIDTH) 0 # take y a @ drop (Suc y) a"
  by (simp add: clearLine_def shiftDown_eq)

lemma not_full_blank [simp]: "\<not> lineFull (replicate (nat A_WIDTH) 0)"
  by (auto simp: lineFull_def dims intro!: exI [of _ 0])

function checkLoop :: "nat \<Rightarrow> u8 list list \<Rightarrow> int \<Rightarrow> (u8 list list \<times> int) option" where
  "checkLoop 0 a clearedLines = Some (a, clearedLines)"
| "checkLoop (Suc y) a clearedLines =
    (if length a \<le> y then None
     else if \<not> lineFull (a ! y) then checkLoop y a clearedLines
     else checkLoop (Suc y) (clearLine y a) (clearedLines + 1))"
  by pat_completeness auto

termination
proof (relation "measure (\<lambda>(n, a, c). n + length (filter lineFull (take n a)))", goal_cases)
  case 1
  then show ?case by simp
next
  case (2 y a c)
  then have "take (Suc y) a = take y a @ [a ! y]" by (simp add: take_Suc_conv_app_nth)
  with 2 show ?case by simp
next
  case (3 y a c)
  then have "take (Suc y) a = take y a @ [a ! y]"
    and "take (Suc y) (clearLine y a) = replicate (nat A_WIDTH) 0 # take y a"
    by (simp_all add: take_Suc_conv_app_nth clearLine_eq)
  with 3 show ?case by simp
qed

definition checkLines :: "game \<Rightarrow> game option" where
  "checkLines g = do {
     (a, clearedLines) \<leftarrow> checkLoop (nat A_HEIGHT) (arena g) 0;
     Some (g\<lparr>arena := a,
       score := (if 0 < clearedLines then score g + 100 * clearedLines else score g)\<rparr>)
   }"

section \<open>Well-formed states and the meaning of the position check\<close>

text \<open>
  The arena has its declared shape, its cells are 0 or 1, and the indices of the current piece are
  those the code can produce.
\<close>

definition wf_arena :: "u8 list list \<Rightarrow> bool" where
  "wf_arena a \<longleftrightarrow> length a = nat A_HEIGHT \<and>
     (\<forall>row \<in> set a. length row = nat A_WIDTH \<and> set row \<subseteq> {0, 1})"

definition wf :: "game \<Rightarrow> bool" where
  "wf g \<longleftrightarrow> wf_arena (arena g) \<and> 0 \<le> currTetrominoIdx g \<and> currTetrominoIdx g < 7 \<and>
     0 \<le> currRotation g \<and> currRotation g < 4 \<and> 0 \<le> currY g"

text \<open>The cells of a piece, and the abstract position check.\<close>

definition piece :: "int \<Rightarrow> int \<Rightarrow> (int \<times> int) set" where
  "piece t r = {(x, y). 0 \<le> x \<and> x < 4 \<and> 0 \<le> y \<and> y < 4 \<and>
     tetrominoes ! nat t ! nat (rotate x y r) = 1}"

definition fits :: "u8 list list \<Rightarrow> int \<Rightarrow> int \<Rightarrow> int \<Rightarrow> int \<Rightarrow> bool" where
  "fits a t r px py \<longleftrightarrow> (\<forall>(x, y) \<in> piece t r.
     0 \<le> x + px \<and> x + px < A_WIDTH \<and> y + py < A_HEIGHT \<and> a ! nat (y + py) ! nat (x + px) \<noteq> 1)"

lemma rotate_bounds:
  "0 \<le> x \<Longrightarrow> x < 4 \<Longrightarrow> 0 \<le> y \<Longrightarrow> y < 4 \<Longrightarrow> 0 \<le> rotate x y r \<and> rotate x y r < 16"
  by (simp add: rotate_def dims)

lemma tetrominoes_shape: "length tetrominoes = 7" "\<And>t. t < 7 \<Longrightarrow> length (tetrominoes ! t) = 16"
proof -
  show "length tetrominoes = 7" by (simp add: tetrominoes_def)
  have "\<forall>row \<in> set tetrominoes. length row = 16" by (simp add: tetrominoes_def)
  then show "length (tetrominoes ! t) = 16" if "t < 7" for t
  proof -
    from that have "t < length tetrominoes" by (simp add: tetrominoes_def)
    then show ?thesis using \<open>\<forall>row \<in> set tetrominoes. length row = 16\<close> by simp
  qed
qed

lemma rd2_tetrominoes:
  assumes "0 \<le> t" "t < 7" "0 \<le> x" "x < 4" "0 \<le> y" "y < 4"
  shows "rd2 tetrominoes t (rotate x y r) = Some (tetrominoes ! nat t ! nat (rotate x y r))"
  using assms rotate_bounds [of x y r] by (simp add: rd2_def rd_def tetrominoes_shape)

lemma rd2_arena:
  assumes "wf_arena a" "0 \<le> i" "i < A_HEIGHT" "0 \<le> j" "j < A_WIDTH"
  shows "rd2 a i j = Some (a ! nat i ! nat j)"
proof -
  have "nat i < length a" using assms by (simp add: wf_arena_def dims)
  then have "a ! nat i \<in> set a" by simp
  then have "length (a ! nat i) = nat A_WIDTH" using assms(1) by (simp add: wf_arena_def)
  with assms show ?thesis by (auto simp: rd2_def rd_def wf_arena_def dims)
qed

lemma set_xy_loop: "set xy_loop = {(x, y). 0 \<le> x \<and> x < 4 \<and> 0 \<le> y \<and> y < 4}"
  by (auto simp: xy_loop_def dims image_iff)

lemma set_yx_loop: "set yx_loop = {(x, y). 0 \<le> x \<and> x < 4 \<and> 0 \<le> y \<and> y < 4}"
  by (auto simp: yx_loop_def dims image_iff)

lemma validLoop_Some:
  "(\<And>c. c \<in> set cs \<Longrightarrow> f c = Some (p c)) \<Longrightarrow> validLoop f cs = Some (\<forall>c \<in> set cs. p c)"
  by (induction cs) (auto split: bool.splits)

lemma validPos_fits:
  assumes "wf_arena (arena g)" "0 \<le> t" "t < 7" "0 \<le> py"
  shows "validPos g t r px py = Some (fits (arena g) t r px py)"
proof -
  define p where "p = (\<lambda>(x, y). (x, y) \<in> piece t r \<longrightarrow>
    0 \<le> x + px \<and> x + px < A_WIDTH \<and> y + py < A_HEIGHT \<and> arena g ! nat (y + py) ! nat (x + px) \<noteq> 1)"
  have "validCell g t r px py c = Some (p c)" if c: "c \<in> set xy_loop" for c
  proof -
    obtain x y where xy: "c = (x, y)" "0 \<le> x" "x < 4" "0 \<le> y" "y < 4"
      using c by (auto simp: set_xy_loop)
    show ?thesis
      using assms xy rd2_tetrominoes [of t x y r] rd2_arena [OF assms(1), of "y + py" "x + px"]
      by (auto simp: validCell_def p_def piece_def Let_def)
  qed
  then have "validPos g t r px py = Some (\<forall>c \<in> set xy_loop. p c)"
    unfolding validPos_def by (rule validLoop_Some)
  moreover have "(\<forall>c \<in> set xy_loop. p c) \<longleftrightarrow> fits (arena g) t r px py"
    by (auto simp: p_def fits_def set_xy_loop piece_def)
  ultimately show ?thesis by simp
qed

section \<open>Every operation keeps the state well-formed\<close>

lemma smod_range: "0 \<le> n \<Longrightarrow> 0 < k \<Longrightarrow> 0 \<le> n smod k \<and> n smod k < (k :: int)"
  by (simp add: smod_mod_positive)

definition playing :: "game \<Rightarrow> bool" where
  "playing g \<longleftrightarrow> wf g \<and>
     fits (arena g) (currTetrominoIdx g) (currRotation g) (currX g) (currY g)"

lemma wf_simps [simp]:
  "wf_arena (arena g) \<Longrightarrow> wf (g\<lparr>score := n, gameOver := m\<rparr>) = wf g"
  by (simp add: wf_def)

lemma newTetromino_spec:
  assumes "wf_arena (arena g)" and "0 \<le> rnd"
  obtains g' where "newTetromino rnd g = Some g'" and "wf g'" and "arena g' = arena g"
    and "score g' = score g" and "gameOver g' = (if playing g' then 0 else 1)"
proof -
  let ?g = "g\<lparr>currTetrominoIdx := rnd smod 7, currRotation := 0, currX := (A_WIDTH sdiv 2) - (T_WIDTH sdiv 2),
    currY := 0\<rparr>"
  let ?v = "fits (arena g) (rnd smod 7) 0 (currX ?g) 0"
  have r: "0 \<le> rnd smod 7" "rnd smod 7 < 7" using smod_range [OF assms(2), of 7] by auto
  have "newTetromino rnd g = Some (?g\<lparr>gameOver := (if ?v then 0 else 1)\<rparr>)"
    using assms r by (simp add: newTetromino_def Let_def validPos_fits)
  moreover have "wf (?g\<lparr>gameOver := (if ?v then 0 else 1)\<rparr>)"
    using assms r by (simp add: wf_def)
  ultimately show thesis
    by (intro that [of "?g\<lparr>gameOver := (if ?v then 0 else 1)\<rparr>"]) (auto simp: playing_def)
qed

lemma playing_facts:
  assumes "playing g"
  shows "wf_arena (arena g)" "0 \<le> currTetrominoIdx g" "currTetrominoIdx g < 7" "0 \<le> currY g"
    "0 \<le> currRotation g" "currRotation g < 4"
    "0 \<le> (currRotation g + 1) smod 4" "(currRotation g + 1) smod 4 < 4"
  using assms smod_range [of "currRotation g + 1" 4] by (auto simp: playing_def wf_def)

lemma processInputs_spec:
  assumes "playing g"
  shows "\<exists>g'. processInputs e g = Some g' \<and> playing g' \<and> arena g' = arena g \<and>
    gameOver g' = gameOver g \<and> score g' = score g"
proof (cases e)
  case TETRIS_EVENT_RIGHT
  show ?thesis
    using assms playing_facts [OF assms]
    by (cases "fits (arena g) (currTetrominoIdx g) (currRotation g) (currX g + 1) (currY g)")
      (auto simp: TETRIS_EVENT_RIGHT validPos_fits playing_def wf_def)
next
  case TETRIS_EVENT_LEFT
  show ?thesis
    using assms playing_facts [OF assms]
    by (cases "fits (arena g) (currTetrominoIdx g) (currRotation g) (currX g - 1) (currY g)")
      (auto simp: TETRIS_EVENT_LEFT validPos_fits playing_def wf_def)
next
  case TETRIS_EVENT_UP
  show ?thesis
    using assms playing_facts [OF assms]
    by (cases "fits (arena g) (currTetrominoIdx g) ((currRotation g + 1) smod 4) (currX g) (currY g)")
      (auto simp: TETRIS_EVENT_UP validPos_fits playing_def wf_def Let_def)
next
  case TETRIS_EVENT_DOWN
  show ?thesis
    using assms playing_facts [OF assms]
    by (cases "fits (arena g) (currTetrominoIdx g) (currRotation g) (currX g) (currY g + 1)")
      (auto simp: TETRIS_EVENT_DOWN validPos_fits playing_def wf_def)
qed

lemma moveDown_spec:
  assumes "playing g"
  shows "\<exists>b g'. moveDown g = Some (b, g') \<and> playing g' \<and> arena g' = arena g \<and>
    gameOver g' = gameOver g \<and> score g' = score g \<and> (b \<longleftrightarrow> currY g' = currY g + 1) \<and>
    (\<not> b \<longrightarrow> g' = g)"
  using assms playing_facts [OF assms]
  by (cases "fits (arena g) (currTetrominoIdx g) (currRotation g) (currX g) (currY g + 1)")
    (auto simp: moveDown_def validPos_fits playing_def wf_def)

subsection \<open>Clearing lines\<close>

theorem checkLoop_spec:
  "n \<le> length a \<Longrightarrow> checkLoop n a c =
    (let k = length (filter lineFull (take n a)) in
     Some (replicate k (replicate (nat A_WIDTH) 0) @ filter (\<lambda>r. \<not> lineFull r) (take n a) @ drop n a,
       c + int k))"
proof (induction n a c rule: checkLoop.induct)
  case (1 a c)
  then show ?case by simp
next
  case (2 y a c)
  then have y: "y < length a" by simp
  then have t: "take (Suc y) a = take y a @ [a ! y]" by (simp add: take_Suc_conv_app_nth)
  show ?case
  proof (cases "lineFull (a ! y)")
    case False
    with 2 y show ?thesis
      by (simp add: t Let_def Cons_nth_drop_Suc)
  next
    case True
    have "take (Suc y) (clearLine y a) = replicate (nat A_WIDTH) 0 # take y a"
      and "drop (Suc y) (clearLine y a) = drop (Suc y) a" and "length (clearLine y a) = length a"
      using y by (simp_all add: clearLine_eq)
    with True 2 y show ?thesis
      by (simp add: t Let_def replicate_append_same)
  qed
qed

definition cells :: "u8 list list \<Rightarrow> int" where
  "cells a = sum_list (map (\<lambda>row. sum_list (map (\<lambda>c. of_bool (c = 1)) row)) a)"

definition rows_full :: "u8 list list \<Rightarrow> nat" where
  "rows_full a = length (filter lineFull a)"

lemma cells_simps [simp]:
  "cells [] = 0" "cells (row # a) = sum_list (map (\<lambda>c. of_bool (c = 1)) row) + cells a"
  "cells (a @ b) = cells a + cells b"
  by (simp_all add: cells_def)

lemma cells_blank [simp]: "cells (replicate k (replicate n 0)) = 0"
  by (induction k) (auto simp: cells_def sum_list_replicate)

lemma full_row_cells:
  assumes "length row = nat A_WIDTH" "set row \<subseteq> {0, 1}" "lineFull row"
  shows "sum_list (map (\<lambda>c. of_bool (c = 1)) row) = (10 :: int)"
proof -
  have "c = 1" if "c \<in> set row" for c
    using that assms by (fastforce simp: lineFull_def in_set_conv_nth)
  then have "map (\<lambda>c. of_bool (c = 1)) row = map (\<lambda>_. 1 :: int) row" by simp
  then show ?thesis using assms(1) by (simp add: map_replicate_const sum_list_replicate dims)
qed

lemma cells_filter:
  "\<forall>row \<in> set a. length row = nat A_WIDTH \<and> set row \<subseteq> {0, 1} \<Longrightarrow>
    cells (filter (\<lambda>r. \<not> lineFull r) a) = cells a - 10 * int (rows_full a)"
  by (induction a) (auto simp: rows_full_def full_row_cells)

lemma checkLines_eq:
  assumes "wf_arena (arena g)"
  shows "checkLines g = Some (g\<lparr>
      arena := replicate (rows_full (arena g)) (replicate (nat A_WIDTH) 0)
        @ filter (\<lambda>r. \<not> lineFull r) (arena g),
      score := score g + 100 * int (rows_full (arena g))\<rparr>)"
proof -
  have l: "length (arena g) = nat A_HEIGHT" using assms by (simp add: wf_arena_def)
  then have t: "take (nat A_HEIGHT) (arena g) = arena g" by simp
  show ?thesis
    using checkLoop_spec [of "nat A_HEIGHT" "arena g" 0] l
    by (simp add: checkLines_def t Let_def rows_full_def)
qed

lemma wf_arena_cleared:
  assumes "wf_arena a"
  shows "wf_arena (replicate (rows_full a) (replicate (nat A_WIDTH) 0) @ filter (\<lambda>r. \<not> lineFull r) a)"
proof -
  have "length (filter (\<lambda>r. \<not> lineFull r) a) + rows_full a = nat A_HEIGHT"
    using assms sum_length_filter_compl [of lineFull a] by (simp add: rows_full_def wf_arena_def)
  then show ?thesis using assms by (auto simp: wf_arena_def)
qed

subsection \<open>Adding the piece\<close>

lemma piece_four:
  assumes "0 \<le> t" "t < 7" "0 \<le> r" "r < 4"
  shows "length (filter (\<lambda>c. c \<in> piece t r) yx_loop) = 4"
proof -
  have "t \<in> {0, 1, 2, 3, 4, 5, 6}" "r \<in> {0, 1, 2, 3}" using assms by auto
  moreover have "\<forall>t \<in> {0, 1, 2, 3, 4, 5, 6}. \<forall>r \<in> {0, 1, 2, 3}.
      length (filter (\<lambda>(x, y). tetrominoes ! nat t ! nat (rotate x y r) = 1) yx_loop) = 4"
    by (simp add: yx_loop_def rotate_def dims upto.simps smod_mod_positive tetrominoes_def)
  ultimately have "length (filter (\<lambda>(x, y). tetrominoes ! nat t ! nat (rotate x y r) = 1) yx_loop) = 4"
    by blast
  moreover have "filter (\<lambda>c. c \<in> piece t r) yx_loop =
      filter (\<lambda>(x, y). tetrominoes ! nat t ! nat (rotate x y r) = 1) yx_loop"
    by (rule filter_cong) (auto simp: piece_def set_yx_loop)
  ultimately show ?thesis by simp
qed

lemma distinct_yx_loop: "distinct yx_loop"
  by (simp add: yx_loop_def dims upto.simps)

lemma sum_list_upd_int: "i < length xs \<Longrightarrow> sum_list (xs[i := v]) = sum_list xs - xs ! i + (v :: int)"
  by (induction xs arbitrary: i) (auto split: nat.splits)

lemma cells_update:
  assumes "i < length a" "j < length (a ! i)"
  shows "cells (a[i := (a ! i)[j := v]]) = cells a + of_bool (v = 1) - of_bool (a ! i ! j = 1)"
  using assms by (simp add: cells_def map_update sum_list_upd_int)

lemma wr2_cell:
  assumes "wf_arena a" "0 \<le> i" "i < A_HEIGHT" "0 \<le> j" "j < A_WIDTH" "a ! nat i ! nat j \<noteq> 1"
  shows "\<exists>a'. wr2 a i j 1 = Some a' \<and> wf_arena a' \<and> cells a' = cells a + 1 \<and>
    (\<forall>k l. a' ! k ! l = (if k = nat i \<and> l = nat j then 1 else a ! k ! l))"
proof -
  have i: "nat i < length a" and j: "nat j < length (a ! nat i)" and w: "wf_arena a"
    using assms by (auto simp: wf_arena_def dims)
  have "wr2 a i j 1 = Some (a[nat i := (a ! nat i)[nat j := 1]])"
    using assms by (simp add: wr2_def rd2_arena)
  moreover have "wf_arena (a[nat i := (a ! nat i)[nat j := 1]])"
  proof -
    have "length (a ! nat i) = nat A_WIDTH \<and> set (a ! nat i) \<subseteq> {0, 1}"
      using w i by (auto simp: wf_arena_def)
    then have "length ((a ! nat i)[nat j := 1]) = nat A_WIDTH \<and> set ((a ! nat i)[nat j := 1]) \<subseteq> {0, 1}"
      using set_update_subset_insert [of "a ! nat i" "nat j" 1] by auto
    then show ?thesis
      using w set_update_subset_insert [of a "nat i" "(a ! nat i)[nat j := 1]"]
      by (auto simp: wf_arena_def)
  qed
  moreover have "cells (a[nat i := (a ! nat i)[nat j := 1]]) = cells a + 1"
    using cells_update [OF i j, of 1] assms(6) by simp
  moreover have "\<forall>k l. a[nat i := (a ! nat i)[nat j := 1]] ! k ! l =
      (if k = nat i \<and> l = nat j then 1 else a ! k ! l)"
    using i j by (auto simp: nth_list_update)
  ultimately show ?thesis by blast
qed

lemma addLoop_spec:
  assumes "0 \<le> currTetrominoIdx g" "currTetrominoIdx g < 7" "0 \<le> currRotation g" "currRotation g < 4"
    and "0 \<le> currY g"
  shows "wf_arena a \<Longrightarrow> distinct cs \<Longrightarrow> set cs \<subseteq> set yx_loop \<Longrightarrow>
    (\<forall>(x, y) \<in> piece (currTetrominoIdx g) (currRotation g) \<inter> set cs.
       0 \<le> x + currX g \<and> x + currX g < A_WIDTH \<and> y + currY g < A_HEIGHT \<and>
       a ! nat (y + currY g) ! nat (x + currX g) \<noteq> 1) \<Longrightarrow>
    \<exists>a'. addLoop g cs a = Some a' \<and> wf_arena a' \<and>
      cells a' = cells a + int (length (filter (\<lambda>c. c \<in> piece (currTetrominoIdx g) (currRotation g)) cs))"
proof (induction cs arbitrary: a)
  case Nil
  then show ?case by simp
next
  case (Cons c cs)
  let ?P = "piece (currTetrominoIdx g) (currRotation g)"
  obtain x y where c: "c = (x, y)" "0 \<le> x" "x < 4" "0 \<le> y" "y < 4"
    using Cons.prems(3) by (auto simp: set_yx_loop)
  have r: "rd2 tetrominoes (currTetrominoIdx g) (rotate x y (currRotation g)) =
      Some (tetrominoes ! nat (currTetrominoIdx g) ! nat (rotate x y (currRotation g)))"
    using assms c by (simp add: rd2_tetrominoes)
  show ?case
  proof (cases "c \<in> ?P")
    case False
    then have "addCell g a c = Some a"
      using c r by (auto simp: addCell_def piece_def)
    with Cons False show ?thesis by auto
  next
    case True
    let ?i = "y + currY g" and ?j = "x + currX g"
    have ij: "0 \<le> ?i" "?i < A_HEIGHT" "0 \<le> ?j" "?j < A_WIDTH" "a ! nat ?i ! nat ?j \<noteq> 1"
      using Cons.prems(4) True c assms(5) by auto
    obtain a' where a': "wr2 a ?i ?j 1 = Some a'" "wf_arena a'" "cells a' = cells a + 1"
      "\<And>k l. a' ! k ! l = (if k = nat ?i \<and> l = nat ?j then 1 else a ! k ! l)"
      using wr2_cell [OF Cons.prems(1) ij] by blast
    have "addCell g a c = Some a'"
      using True c r ij a'(1) by (auto simp: addCell_def piece_def Let_def add.commute)
    moreover have "\<exists>a''. addLoop g cs a' = Some a'' \<and> wf_arena a'' \<and>
        cells a'' = cells a' + int (length (filter (\<lambda>c. c \<in> ?P) cs))"
    proof (rule Cons.IH [OF a'(2)])
      show "distinct cs" "set cs \<subseteq> set yx_loop" using Cons.prems by auto
      show "\<forall>(u, v) \<in> ?P \<inter> set cs. 0 \<le> u + currX g \<and> u + currX g < A_WIDTH \<and>
          v + currY g < A_HEIGHT \<and> a' ! nat (v + currY g) ! nat (u + currX g) \<noteq> 1"
      proof (intro ballI, clarify)
        fix u v
        assume uv: "(u, v) \<in> ?P" "(u, v) \<in> set cs"
        then have "(u, v) \<noteq> (x, y)" and "0 \<le> v" using Cons.prems(2) c by (auto simp: piece_def)
        moreover have b: "0 \<le> u + currX g \<and> u + currX g < A_WIDTH \<and> v + currY g < A_HEIGHT \<and>
            a ! nat (v + currY g) ! nat (u + currX g) \<noteq> 1"
          using Cons.prems(4) uv by auto
        ultimately have "\<not> (nat (v + currY g) = nat ?i \<and> nat (u + currX g) = nat ?j)"
          using ij assms(5) by auto
        then show "0 \<le> u + currX g \<and> u + currX g < A_WIDTH \<and> v + currY g < A_HEIGHT \<and>
            a' ! nat (v + currY g) ! nat (u + currX g) \<noteq> 1"
          using b a'(4) by simp
      qed
    qed
    ultimately show ?thesis using True a'(3) by auto
  qed
qed

lemma addToArena_spec:
  assumes "playing g"
  shows "\<exists>a. addToArena g = Some (g\<lparr>arena := a\<rparr>) \<and> wf_arena a \<and> cells a = cells (arena g) + 4"
proof -
  have "\<exists>a'. addLoop g yx_loop (arena g) = Some a' \<and> wf_arena a' \<and> cells a' = cells (arena g) +
      int (length (filter (\<lambda>c. c \<in> piece (currTetrominoIdx g) (currRotation g)) yx_loop))"
    using assms playing_facts [OF assms]
    by (intro addLoop_spec) (auto simp: distinct_yx_loop playing_def fits_def)
  then show ?thesis
    using playing_facts [OF assms] by (auto simp: addToArena_def piece_four)
qed


section \<open>The main loop of \<open>main.c\<close>\<close>

text \<open>
  \<open>keys\<close> holds the four GPIO bits in the order the loop tests them; \<open>tick\<close> says that
  \<open>targetFrameTime\<close> has elapsed. The video and printing calls of the loop do not touch the game.
\<close>

record key_state =
  KEY0 :: bool
  KEY3 :: bool
  KEY1 :: bool
  KEY2 :: bool

definition any_key :: "key_state \<Rightarrow> bool" where
  "any_key k \<longleftrightarrow> KEY0 k \<or> KEY3 k \<or> KEY1 k \<or> KEY2 k"

definition main_inputs :: "key_state \<Rightarrow> game \<Rightarrow> game option" where
  "main_inputs k g = do {
     g \<leftarrow> (if KEY0 k then processInputs TETRIS_EVENT_RIGHT g else Some g);
     g \<leftarrow> (if KEY3 k then processInputs TETRIS_EVENT_LEFT g else Some g);
     g \<leftarrow> (if KEY1 k then processInputs TETRIS_EVENT_UP g else Some g);
     (if KEY2 k then processInputs TETRIS_EVENT_DOWN g else Some g)
   }"

definition main_frame :: "int \<Rightarrow> game \<Rightarrow> game option" where
  "main_frame rnd g = do {
     (moved, g) \<leftarrow> moveDown g;
     (if \<not> moved then do { g \<leftarrow> addToArena g; g \<leftarrow> checkLines g; newTetromino rnd g } else Some g)
   }"

text \<open>
  One turn of \<open>while(1)\<close>: the game screen, then the game-over screen, then the greetings screen,
  each guarded by the \<open>gameOver\<close> the previous one left behind.
\<close>

definition main_game_over :: "key_state \<Rightarrow> game \<Rightarrow> game" where
  "main_game_over keys g = (if any_key keys then g\<lparr>gameOver := 2\<rparr> else g)"

definition main_greetings :: "key_state \<Rightarrow> int \<Rightarrow> game \<Rightarrow> game option" where
  "main_greetings keys rnd g =
    (if any_key keys then
       newGame rnd (g\<lparr>arena := replicate (nat A_HEIGHT) (replicate (nat A_WIDTH) 0)\<rparr>)
     else Some g)"

definition main_turn :: "key_state \<Rightarrow> bool \<Rightarrow> int \<Rightarrow> game \<Rightarrow> game option" where
  "main_turn keys tick rnd g = do {
     g \<leftarrow> (if gameOver g = 0 then do {
              g \<leftarrow> (if any_key keys then main_inputs keys g else Some g);
              (if tick then main_frame rnd g else Some g)
            } else Some g);
     (if gameOver g = 1 then Some (main_game_over keys g)
      else if gameOver g = 2 then main_greetings keys rnd g
      else Some g)
   }"

text \<open>The state at the head of the loop: static data is zero, \<open>main\<close> sets \<open>gameOver = 2\<close>.\<close>

definition boot :: game where
  "boot = \<lparr>arena = replicate (nat A_HEIGHT) (replicate (nat A_WIDTH) 0), score = 0, gameOver = 2,
     currTetrominoIdx = 0, currRotation = 0, currX = A_WIDTH sdiv 2, currY = 0\<rparr>"

inductive played :: "game \<Rightarrow> bool" where
  boot: "played boot"
| turn: "played g \<Longrightarrow> 0 \<le> rnd \<Longrightarrow> main_turn keys tick rnd g = Some g' \<Longrightarrow> played g'"

inductive_cases played_cases: "played g"

definition game_inv :: "game \<Rightarrow> bool" where
  "game_inv g \<longleftrightarrow> wf g \<and> gameOver g \<in> {0, 1, 2} \<and> (gameOver g = 0 \<longrightarrow> playing g) \<and>
     0 \<le> score g \<and> 100 dvd score g"

lemma wf_arena_blank: "wf_arena (replicate (nat A_HEIGHT) (replicate (nat A_WIDTH) 0))"
  by (auto simp: wf_arena_def)

lemma main_inputs_spec:
  assumes "playing g"
  shows "\<exists>g'. main_inputs k g = Some g' \<and> playing g' \<and> arena g' = arena g \<and>
    gameOver g' = gameOver g \<and> score g' = score g"
proof -
  define ev where "ev b e h = (if b then processInputs e h else Some h)" for b :: bool and e h
  have s: "\<exists>h'. ev b e h = Some h' \<and> playing h' \<and> arena h' = arena g \<and> gameOver h' = gameOver g \<and>
      score h' = score g"
    if "playing h" "arena h = arena g" "gameOver h = gameOver g" "score h = score g" for b e h
    using processInputs_spec [OF that(1), of e] that by (auto simp: ev_def)
  obtain h1 where 1: "ev (KEY0 k) TETRIS_EVENT_RIGHT g = Some h1" "playing h1" "arena h1 = arena g"
      "gameOver h1 = gameOver g" "score h1 = score g"
    using s [OF assms] by metis
  obtain h2 where 2: "ev (KEY3 k) TETRIS_EVENT_LEFT h1 = Some h2" "playing h2" "arena h2 = arena g"
      "gameOver h2 = gameOver g" "score h2 = score g"
    using s [OF 1(2-)] by metis
  obtain h3 where 3: "ev (KEY1 k) TETRIS_EVENT_UP h2 = Some h3" "playing h3" "arena h3 = arena g"
      "gameOver h3 = gameOver g" "score h3 = score g"
    using s [OF 2(2-)] by metis
  have "main_inputs k g = ev (KEY2 k) TETRIS_EVENT_DOWN h3"
    using 1(1) 2(1) 3(1) by (simp add: main_inputs_def ev_def)
  then show ?thesis using s [OF 3(2-)] by metis
qed

lemma main_frame_spec:
  assumes "playing g" and "0 \<le> rnd"
  shows "\<exists>g'. main_frame rnd g = Some g' \<and> wf g' \<and> gameOver g' \<in> {0, 1, gameOver g} \<and>
    (gameOver g' = 0 \<and> gameOver g = 0 \<longrightarrow> playing g') \<and>
    (arena g' = arena g \<and> score g' = score g \<and> currY g' = currY g + 1 \<and> gameOver g' = gameOver g \<or>
     (\<exists>lines \<ge> 0. cells (arena g') + 10 * lines = cells (arena g) + 4 \<and> score g' = score g + 100 * lines
       \<and> rows_full (arena g') = 0))"
proof -
  obtain b h where md: "moveDown g = Some (b, h)" "playing h" "arena h = arena g"
      "gameOver h = gameOver g" "score h = score g" "b \<longleftrightarrow> currY h = currY g + 1" "\<not> b \<longrightarrow> h = g"
    using moveDown_spec [OF assms(1)] by blast
  show ?thesis
  proof (cases b)
    case True
    then show ?thesis using md by (auto simp: main_frame_def playing_def)
  next
    case False
    obtain a where a: "addToArena h = Some (h\<lparr>arena := a\<rparr>)" "wf_arena a" "cells a = cells (arena h) + 4"
      using addToArena_spec [OF md(2)] by blast
    define c where "c = replicate (rows_full a) (replicate (nat A_WIDTH) 0) @ filter (\<lambda>r. \<not> lineFull r) a"
    have c: "checkLines (h\<lparr>arena := a\<rparr>) = Some (h\<lparr>arena := c, score := score h + 100 * int (rows_full a)\<rparr>)"
      using checkLines_eq [of "h\<lparr>arena := a\<rparr>"] a(2) by (simp add: c_def)
    have w: "wf_arena c" using wf_arena_cleared [OF a(2)] by (simp add: c_def)
    have n: "cells c = cells a - 10 * int (rows_full a)"
      using cells_filter [of a] a(2) by (simp add: c_def wf_arena_def)
    have f: "rows_full c = 0" by (simp add: c_def rows_full_def filter_empty_conv)
    obtain g' where g': "newTetromino rnd (h\<lparr>arena := c, score := score h + 100 * int (rows_full a)\<rparr>) = Some g'"
        "wf g'" "arena g' = c" "score g' = score h + 100 * int (rows_full a)"
        "gameOver g' = (if playing g' then 0 else 1)"
      using newTetromino_spec [of "h\<lparr>arena := c, score := score h + 100 * int (rows_full a)\<rparr>" rnd] w assms(2)
      by auto
    have "main_frame rnd g = Some g'" using md(1) False a(1) c g'(1) by (simp add: main_frame_def)
    moreover have "cells (arena g') + 10 * int (rows_full a) = cells (arena g) + 4 \<and>
        score g' = score g + 100 * int (rows_full a) \<and> rows_full (arena g') = 0"
      using a(3) n f g' md by simp
    moreover have "(0 :: int) \<le> int (rows_full a)" by simp
    ultimately show ?thesis
      using g'(2,5) by (smt (verit, best) insertCI)
  qed
qed

lemma newGame_inv:
  assumes "wf_arena (arena g)" and "0 \<le> rnd"
  shows "\<exists>g'. newGame rnd g = Some g' \<and> game_inv g'"
proof -
  obtain g' where "newGame rnd g = Some g'" "wf g'" "score g' = 0" "gameOver g' = (if playing g' then 0 else 1)"
    using newTetromino_spec [of "g\<lparr>score := 0, gameOver := 0, currRotation := 0\<rparr>" rnd] assms
    by (auto simp: newGame_def)
  then show ?thesis by (auto simp: game_inv_def)
qed

lemma main_turn_inv:
  assumes "game_inv g" and "0 \<le> rnd"
  shows "\<exists>g'. main_turn keys tick rnd g = Some g' \<and> game_inv g'"
proof -
  define game where "game = (if gameOver g = 0 then do {
              g \<leftarrow> (if any_key keys then main_inputs keys g else Some g);
              (if tick then main_frame rnd g else Some g) } else Some g)"
  have "\<exists>h. game = Some h \<and> game_inv h"
  proof (cases "gameOver g = 0")
    case True
    then have p: "playing g" using assms by (simp add: game_inv_def)
    obtain h where h: "(if any_key keys then main_inputs keys g else Some g) = Some h" "playing h"
        "gameOver h = gameOver g" "score h = score g"
      using main_inputs_spec [OF p, of keys] p by (cases "any_key keys") auto
    have i: "game_inv h" using assms(1) h by (simp add: game_inv_def playing_def)
    show ?thesis
    proof (cases tick)
      case True
      then show ?thesis
        using main_frame_spec [OF h(2) assms(2)] h i \<open>gameOver g = 0\<close>
        by (auto simp: game_def game_inv_def)
    qed (use h i True in \<open>auto simp: game_def\<close>)
  qed (use assms in \<open>auto simp: game_def\<close>)
  then obtain h where h: "game = Some h" "game_inv h" by blast
  have t: "main_turn keys tick rnd g = (if gameOver h = 1 then Some (if any_key keys then h\<lparr>gameOver := 2\<rparr> else h)
      else if gameOver h = 2 \<and> any_key keys then
        newGame rnd (h\<lparr>arena := replicate (nat A_HEIGHT) (replicate (nat A_WIDTH) 0)\<rparr>)
      else Some h)"
    using h(1) by (simp add: main_turn_def game_def main_game_over_def main_greetings_def)
  show ?thesis
    using h(2) t newGame_inv [of "h\<lparr>arena := replicate (nat A_HEIGHT) (replicate (nat A_WIDTH) 0)\<rparr>" rnd]
      assms(2) wf_arena_blank
    by (auto simp: game_inv_def wf_def)
qed

lemma boot_inv: "game_inv boot"
  by (simp add: boot_def game_inv_def wf_def wf_arena_blank)

lemma played_inv: "played g \<Longrightarrow> game_inv g"
proof (induction rule: played.induct)
  case boot
  show ?case by (rule boot_inv)
next
  case (turn g rnd keys tick g')
  then show ?case using main_turn_inv [of g rnd keys tick] by auto
qed

section \<open>Drawing\<close>

text \<open>
  \<open>drawArena\<close> reads \<open>tetrominoes[currTetrominoIdx][rotatedPos]\<close> before it looks at \<open>validX\<close> and
  \<open>validY\<close>, so \<open>rotatedPos\<close> may lie outside the row and even outside the whole array. Inside the
  array the flat index decides what is read; what lies around it is the parameter \<open>junk\<close>.
\<close>

definition tet_read :: "(int \<Rightarrow> int) \<Rightarrow> int \<Rightarrow> int \<Rightarrow> int" where
  "tet_read junk t i = (let k = 16 * t + i in
     if 0 \<le> k \<and> k < 112 then concat tetrominoes ! nat k else junk k)"

definition draw_cell :: "(int \<Rightarrow> int) \<Rightarrow> game \<Rightarrow> int \<Rightarrow> int \<Rightarrow> u8 list option" where
  "draw_cell junk g y x =
    (if y = A_HEIGHT then Some [0x1b, 0x46, 0x35, 0x3b, 0x92]
     else (let rotatedPos = rotate (x - currX g) (y - currY g) (currRotation g);
               validX = (currX g \<le> x \<and> x < currX g + T_WIDTH);
               validY = (currY g \<le> y \<and> y < currY g + T_HEIGHT);
               xyFilled = (1 = tet_read junk (currTetrominoIdx g) rotatedPos) in
       do { a \<leftarrow> rd2 (arena g) y x;
            Some (if 1 = a \<or> (validX \<and> validY \<and> xyFilled) then [0x91] else [0x20]) }))"

fun cat_opt :: "'a list option list \<Rightarrow> 'a list option" where
  "cat_opt [] = Some []"
| "cat_opt (x # xs) = do { a \<leftarrow> x; b \<leftarrow> cat_opt xs; Some (a @ b) }"

definition draw_row :: "(int \<Rightarrow> int) \<Rightarrow> game \<Rightarrow> int \<Rightarrow> u8 list option" where
  "draw_row junk g y = do {
     row \<leftarrow> cat_opt (map (draw_cell junk g y) [0..A_WIDTH - 1]);
     Some ([9, 9, 9, 0x1b, 0x46, 0x35, 0x3b, 0x92, 0x1b, 0x46, 0x31, 0x35, 0x3b] @ row @
       [0x1b, 0x46, 0x35, 0x3b, 0x92, 13, 10])
   }"

text \<open>The text put into \<open>buffer[1024]\<close> after the score line, with its terminator.\<close>

definition drawArena :: "(int \<Rightarrow> int) \<Rightarrow> game \<Rightarrow> u8 list option" where
  "drawArena junk g = do {
     txt \<leftarrow> cat_opt (map (draw_row junk g) [0..A_HEIGHT]);
     Some (txt @ [0])
   }"

definition glyph :: "game \<Rightarrow> int \<Rightarrow> int \<Rightarrow> u8" where
  "glyph g y x = (if arena g ! nat y ! nat x = 1 \<or>
     (x - currX g, y - currY g) \<in> piece (currTetrominoIdx g) (currRotation g) then 0x91 else 0x20)"

lemma concat_nth:
  "(\<And>xs. xs \<in> set xss \<Longrightarrow> length xs = n) \<Longrightarrow> k < length xss \<Longrightarrow> i < n \<Longrightarrow>
    concat xss ! (n * k + i) = xss ! k ! i"
proof (induction xss arbitrary: k)
  case (Cons xs xss)
  then show ?case by (cases k) (auto simp: nth_append)
qed simp

lemma length_concat_same:
  "(\<And>xs. xs \<in> set xss \<Longrightarrow> length xs = n) \<Longrightarrow> length (concat xss) = n * length xss"
  by (induction xss) auto

lemma tet_read_inside:
  assumes "0 \<le> t" "t < 7" "0 \<le> i" "i < 16"
  shows "tet_read junk t i = tetrominoes ! nat t ! nat i"
proof -
  have "length xs = 16" if "xs \<in> set tetrominoes" for xs
    using that by (auto simp: in_set_conv_nth tetrominoes_shape)
  then have "concat tetrominoes ! (16 * nat t + nat i) = tetrominoes ! nat t ! nat i"
    using assms by (intro concat_nth) (auto simp: tetrominoes_shape)
  moreover have "nat (16 * t + i) = 16 * nat t + nat i"
    using assms by (simp add: nat_add_distrib nat_mult_distrib)
  ultimately show ?thesis using assms by (simp add: tet_read_def Let_def)
qed

lemma draw_cell_spec:
  assumes "wf g" "0 \<le> y" "y < A_HEIGHT" "0 \<le> x" "x < A_WIDTH"
  shows "draw_cell junk g y x = Some [glyph g y x]"
proof -
  let ?p = "rotate (x - currX g) (y - currY g) (currRotation g)"
  have r: "rd2 (arena g) y x = Some (arena g ! nat y ! nat x)"
    using assms by (simp add: rd2_arena wf_def)
  have "currX g \<le> x \<and> x < currX g + T_WIDTH \<and> currY g \<le> y \<and> y < currY g + T_HEIGHT \<and>
      1 = tet_read junk (currTetrominoIdx g) ?p \<longleftrightarrow>
      (x - currX g, y - currY g) \<in> piece (currTetrominoIdx g) (currRotation g)"
    using tet_read_inside [of "currTetrominoIdx g" ?p junk] assms(1)
      rotate_bounds [of "x - currX g" "y - currY g" "currRotation g"]
    by (auto simp: piece_def dims wf_def)
  then show ?thesis
    using r assms(3) by (auto simp: draw_cell_def Let_def glyph_def)
qed

lemma cat_opt_Some:
  "(\<And>x. x \<in> set xs \<Longrightarrow> f x = Some (h x)) \<Longrightarrow> cat_opt (map f xs) = Some (concat (map h xs))"
  by (induction xs) auto

definition row_text :: "game \<Rightarrow> int \<Rightarrow> u8 list" where
  "row_text g y = [9, 9, 9, 0x1b, 0x46, 0x35, 0x3b, 0x92, 0x1b, 0x46, 0x31, 0x35, 0x3b] @
     map (glyph g y) [0..A_WIDTH - 1] @ [0x1b, 0x46, 0x35, 0x3b, 0x92, 13, 10]"

definition floor_text :: "u8 list" where
  "floor_text = [9, 9, 9, 0x1b, 0x46, 0x35, 0x3b, 0x92, 0x1b, 0x46, 0x31, 0x35, 0x3b] @
     concat (replicate (nat A_WIDTH) [0x1b, 0x46, 0x35, 0x3b, 0x92]) @
     [0x1b, 0x46, 0x35, 0x3b, 0x92, 13, 10]"

lemma concat_singletons: "concat (map (\<lambda>x. [f x]) xs) = map f xs"
  by (induction xs) auto

lemma draw_row_spec:
  assumes "wf g" "0 \<le> y" "y < A_HEIGHT"
  shows "draw_row junk g y = Some (row_text g y)"
proof -
  have "cat_opt (map (draw_cell junk g y) [0..A_WIDTH - 1]) =
      Some (concat (map (\<lambda>x. [glyph g y x]) [0..A_WIDTH - 1]))"
    by (rule cat_opt_Some) (use assms in \<open>auto simp: draw_cell_spec\<close>)
  then show ?thesis by (simp add: draw_row_def row_text_def concat_singletons)
qed

lemma draw_row_floor: "draw_row junk g A_HEIGHT = Some floor_text"
  by (simp add: draw_row_def floor_text_def draw_cell_def dims upto.simps numeral_eq_Suc)

lemma drawArena_text:
  assumes "wf g"
  shows "drawArena junk g = Some (concat (map (row_text g) [0..A_HEIGHT - 1]) @ floor_text @ [0])"
proof -
  have e: "[0..A_HEIGHT] = [0..A_HEIGHT - 1] @ [A_HEIGHT]" by (simp add: dims upto.simps)
  have "cat_opt (map (draw_row junk g) [0..A_HEIGHT]) =
      Some (concat (map (\<lambda>y. if y = A_HEIGHT then floor_text else row_text g y) [0..A_HEIGHT]))"
    by (rule cat_opt_Some) (use assms in \<open>auto simp: draw_row_spec draw_row_floor\<close>)
  moreover have "map (\<lambda>y. if y = A_HEIGHT then floor_text else row_text g y) [0..A_HEIGHT] =
      map (row_text g) [0..A_HEIGHT - 1] @ [floor_text]" unfolding e by auto
  ultimately show ?thesis by (simp add: drawArena_def)
qed

section \<open>Properties\<close>

text \<open>C36. From power-up, whatever the keys, the timing and the random numbers are, every turn of
  the main loop completes without reading or writing outside \<open>arena\<close> and \<open>tetrominoes\<close>, and
  the state stays sane: \<open>gameOver\<close> is 0, 1 or 2, the score is a non-negative multiple of 100, and as
  long as the game runs the current piece lies inside the arena on free cells.\<close>

theorem tetris_reachable_safe:
  assumes "played g" and "0 \<le> rnd"
  shows "(\<exists>g'. main_turn keys tick rnd g = Some g') \<and> gameOver g \<in> {0, 1, 2} \<and> 0 \<le> score g \<and>
    100 dvd score g \<and> wf_arena (arena g) \<and>
    (gameOver g = 0 \<longrightarrow> validPos g (currTetrominoIdx g) (currRotation g) (currX g) (currY g) = Some True)"
  using played_inv [OF assms(1)] main_turn_inv [OF played_inv [OF assms(1)] assms(2), of keys tick]
  by (auto simp: game_inv_def playing_def wf_def validPos_fits)

text \<open>C37. Conservation over one timer tick of a running game: either the piece has moved down one
  row and nothing else has changed, or the piece has been locked (four cells more), every full row
  has been removed (ten cells and a hundred points each), and no full row is left.\<close>

theorem tetris_tick_conserves:
  assumes "played g" and "gameOver g = 0" and "0 \<le> rnd"
  shows "\<exists>g'. main_frame rnd g = Some g' \<and>
    (arena g' = arena g \<and> score g' = score g \<and> currY g' = currY g + 1 \<or>
     (\<exists>lines \<ge> 0. cells (arena g') + 10 * lines = cells (arena g) + 4 \<and> score g' = score g + 100 * lines
       \<and> rows_full (arena g') = 0))"
proof -
  have "playing g" using played_inv [OF assms(1)] assms(2) by (simp add: game_inv_def)
  from main_frame_spec [OF this assms(3)] show ?thesis by blast
qed

text \<open>C38. \<open>checkLines\<close>, with its in-place row shifting and re-examined row, always ends, and is
  the reference specification: drop every full row, pad with blank rows at the top, and add 100 per
  row dropped; on a well-shaped arena no access is out of bounds.\<close>

theorem checkLines_refines_filter:
  assumes "wf_arena (arena g)"
  shows "checkLines g = Some (g\<lparr>
      arena := (let kept = filter (\<lambda>row. \<exists>x < nat A_WIDTH. row ! x = 0) (arena g) in
        replicate (nat A_HEIGHT - length kept) (replicate (nat A_WIDTH) 0) @ kept),
      score := score g + 100 * int (length (filter (\<lambda>row. \<forall>x < nat A_WIDTH. row ! x \<noteq> 0) (arena g)))\<rparr>)"
proof -
  have f: "lineFull = (\<lambda>row. \<forall>x < nat A_WIDTH. row ! x \<noteq> 0)" by (auto simp: lineFull_def)
  have "length (filter (\<lambda>r. \<not> lineFull r) (arena g)) + rows_full (arena g) = nat A_HEIGHT"
    using assms sum_length_filter_compl [of lineFull "arena g"] by (simp add: rows_full_def wf_arena_def)
  then have "rows_full (arena g) = nat A_HEIGHT - length (filter (\<lambda>r. \<not> lineFull r) (arena g))" by simp
  then show ?thesis
    using checkLines_eq [OF assms] by (simp add: Let_def f rows_full_def)
qed

text \<open>Although \<open>drawArena\<close> reads the piece table at positions that may lie outside it, the
  text it draws never depends on what is read there: it is the arena with the current piece on it,
  671 bytes with its terminator, well inside the 1024-byte buffer.\<close>

theorem drawArena_junk_free:
  assumes "wf g"
  shows "\<exists>txt. drawArena junk g = Some txt \<and> length txt = 671 \<and> drawArena junk' g = Some txt \<and>
    (\<forall>y x. 0 \<le> y \<and> y < A_HEIGHT \<and> 0 \<le> x \<and> x < A_WIDTH \<longrightarrow>
      txt ! nat (30 * y + 13 + x) = glyph g y x)"
proof -
  have l: "length (row_text g y) = 30" for y by (simp add: row_text_def dims)
  have fl: "length floor_text = 70" by (simp add: floor_text_def dims numeral_eq_Suc)
  have nth: "concat (map (row_text g) xs) ! (30 * k + j) = row_text g (xs ! k) ! j"
    if "k < length xs" "j < 30" for xs :: "int list" and k j
    using concat_nth [of "map (row_text g) xs" 30 k j] that l by auto
  have len: "length (concat (map (row_text g) xs)) = 30 * length xs" for xs :: "int list"
    using length_concat_same [of "map (row_text g) xs" 30] l by auto
  let ?t = "concat (map (row_text g) [0..A_HEIGHT - 1]) @ floor_text @ [0]"
  have "?t ! nat (30 * y + 13 + x) = glyph g y x"
    if b: "0 \<le> y" "y < A_HEIGHT" "0 \<le> x" "x < A_WIDTH" for y x
  proof -
    have e: "nat (30 * y + 13 + x) = 30 * nat y + (13 + nat x)" using b by (simp add: nat_add_distrib nat_mult_distrib)
    have "30 * nat y + (13 + nat x) < 600" using b by (simp add: dims)
    then have "?t ! (30 * nat y + (13 + nat x)) = row_text g ([0..A_HEIGHT - 1] ! nat y) ! (13 + nat x)"
      using b by (simp add: nth_append len dims nth [of "nat y" "[0..19]" "13 + nat x"])
    also have "\<dots> = glyph g y x"
      using b nat_less_iff [of x 10] by (simp add: row_text_def nth_append dims nth_upto)
    finally show ?thesis using e by simp
  qed
  then show ?thesis
    using drawArena_text [OF assms] by (intro exI [of _ ?t]) (simp add: len fl dims)
qed

text \<open>The first game after power-up, with the \<open>I\<close> piece.\<close>

definition first_game :: game where
  "first_game = boot\<lparr>gameOver := 0, currX := 3\<rparr>"

definition pressed :: key_state where
  "pressed = \<lparr>KEY0 = True, KEY3 = False, KEY1 = False, KEY2 = False\<rparr>"

lemma fits_blank:
  assumes "\<And>x y. (x, y) \<in> piece t r \<Longrightarrow> 0 \<le> x + px \<and> x + px < A_WIDTH \<and> 0 \<le> y + py \<and> y + py < A_HEIGHT"
  shows "fits (replicate (nat A_HEIGHT) (replicate (nat A_WIDTH) 0)) t r px py"
proof -
  have "replicate (nat A_HEIGHT) (replicate (nat A_WIDTH) 0) ! nat (y + py) ! nat (x + px) \<noteq> (1 :: u8)"
    if "(x, y) \<in> piece t r" for x y
    using assms [OF that] by (simp add: dims nat_less_iff)
  then show ?thesis using assms by (auto simp: fits_def)
qed

lemma main_turn_boot: "main_turn pressed False 0 boot = Some first_game"
proof -
  have "fits (replicate (nat A_HEIGHT) (replicate (nat A_WIDTH) 0)) 0 0 3 0"
    by (rule fits_blank) (auto simp: piece_def dims)
  then have "validPos (first_game\<lparr>currX := 3\<rparr>) 0 0 3 0 = Some True"
    by (subst validPos_fits) (simp_all add: first_game_def boot_def wf_arena_blank)
  then show ?thesis
    by (simp add: main_turn_def main_greetings_def boot_def any_key_def pressed_def newGame_def newTetromino_def Let_def
        first_game_def A_WIDTH_def T_WIDTH_def)
qed

lemma played_first: "played first_game"
  by (rule played.turn [OF played.boot _ main_turn_boot]) simp

text \<open>Witnesses.\<close>

theorem tetris_reachable_safe_witness:
  "(\<exists>g'. main_turn pressed True 5 first_game = Some g') \<and> gameOver first_game \<in> {0, 1, 2}"
  using tetris_reachable_safe [OF played_first, of 5 pressed True] by simp

theorem tetris_tick_conserves_witness:
  "\<exists>g'. main_frame 5 first_game = Some g' \<and>
    (arena g' = arena first_game \<and> score g' = score first_game \<and> currY g' = currY first_game + 1 \<or>
     (\<exists>lines \<ge> 0. cells (arena g') + 10 * lines = cells (arena first_game) + 4 \<and>
       score g' = score first_game + 100 * lines \<and> rows_full (arena g') = 0))"
  by (rule tetris_tick_conserves [OF played_first]) (simp_all add: first_game_def)

definition full_game :: game where
  "full_game = boot\<lparr>arena := replicate 18 (replicate 10 0) @ [replicate 9 1 @ [0], replicate 10 1]\<rparr>"

lemma full_game_rows:
  "\<exists>x < nat A_WIDTH. replicate 10 (0 :: u8) ! x = 0" "\<exists>x < nat A_WIDTH. (replicate 9 1 @ [0 :: u8]) ! x = 0"
  "\<not> (\<exists>x < nat A_WIDTH. replicate 10 (1 :: u8) ! x = 0)"
proof -
  show "\<exists>x < nat A_WIDTH. replicate 10 (0 :: u8) ! x = 0"
    by (rule exI [of _ 0]) (simp add: A_WIDTH_def)
  show "\<exists>x < nat A_WIDTH. (replicate 9 1 @ [0 :: u8]) ! x = 0"
    by (rule exI [of _ 9]) (simp add: A_WIDTH_def nth_append)
  show "\<not> (\<exists>x < nat A_WIDTH. replicate 10 (1 :: u8) ! x = 0)"
    by (simp add: A_WIDTH_def)
qed

lemma full_game_filter:
  "filter (\<lambda>row. \<exists>x < nat A_WIDTH. row ! x = 0) (arena full_game) =
    replicate 18 (replicate 10 0) @ [replicate 9 1 @ [0]]"
  "filter (\<lambda>row. \<forall>x < nat A_WIDTH. row ! x \<noteq> 0) (arena full_game) = [replicate 10 1]"
  using full_game_rows by (simp_all add: full_game_def filter_replicate)

lemma score_full: "score full_game = 0"
  by (simp add: full_game_def boot_def)

theorem checkLines_refines_filter_witness:
  "checkLines full_game = Some (full_game\<lparr>
    arena := replicate 10 0 # replicate 18 (replicate 10 0) @ [replicate 9 1 @ [0]], score := 100\<rparr>)"
proof -
  have "wf_arena (arena full_game)" by (simp add: full_game_def wf_arena_def dims)
  from checkLines_refines_filter [OF this] have "checkLines full_game = Some (full_game\<lparr>
      arena := replicate (nat A_HEIGHT - 19) (replicate (nat A_WIDTH) 0) @
        replicate 18 (replicate 10 0) @ [replicate 9 1 @ [0]], score := 100\<rparr>)"
    unfolding full_game_filter Let_def by (simp add: score_full)
  then show ?thesis by (simp add: dims)
qed

theorem drawArena_junk_free_witness:
  "\<exists>txt. drawArena (\<lambda>_. 0) first_game = Some txt \<and> length txt = 671 \<and>
    drawArena (\<lambda>_. 1) first_game = Some txt \<and>
    (\<forall>y x. 0 \<le> y \<and> y < A_HEIGHT \<and> 0 \<le> x \<and> x < A_WIDTH \<longrightarrow>
      txt ! nat (30 * y + 13 + x) = glyph first_game y x)"
  by (rule drawArena_junk_free) (use played_inv [OF played_first] in \<open>simp add: game_inv_def\<close>)

text \<open>
  \<open>drawArena\<close> really does read outside the piece table: on the first frame of a game with the
  \<open>I\<close> piece, cell (0, 0) of the screen asks for the entry at index -3 of row 0.
\<close>

theorem drawArena_reads_outside:
  "\<exists>g. played g \<and> gameOver g = 0 \<and>
    (let rotatedPos = rotate (0 - currX g) (0 - currY g) (currRotation g) in
      16 * currTetrominoIdx g + rotatedPos < 0)"
  by (rule exI [of _ first_game])
    (simp add: played_first, simp add: first_game_def boot_def rotate_def dims)

end
