(* ===== verification/FatBase.thy ===== *)
theory FatBase
  imports KPrelude
begin

text \<open>
  The data and the state-free helpers of the FAT32 library \<open>karnix_monitor/src/fat.c\<close>: error codes,
  flags, on-disk layouts, 8.3 names, long-name fragments, checksums and timestamps.

  A C string is the list of its bytes before the terminator; a packed on-disk structure is a byte
  buffer together with the offset at which the code overlays it, and a field is read with \<open>!\<close>,
  \<open>ld16\<close> or \<open>ld32\<close> at the field's offset.
\<close>

section \<open>Error codes and flags\<close>

definition FAT_ERR_NONE :: int where "FAT_ERR_NONE = 0"
definition FAT_ERR_NOFAT :: int where "FAT_ERR_NOFAT = -1"
definition FAT_ERR_BROKEN :: int where "FAT_ERR_BROKEN = -2"
definition FAT_ERR_IO :: int where "FAT_ERR_IO = -3"
definition FAT_ERR_PARAM :: int where "FAT_ERR_PARAM = -4"
definition FAT_ERR_PATH :: int where "FAT_ERR_PATH = -5"
definition FAT_ERR_EOF :: int where "FAT_ERR_EOF = -6"
definition FAT_ERR_DENIED :: int where "FAT_ERR_DENIED = -7"
definition FAT_ERR_FULL :: int where "FAT_ERR_FULL = -8"

lemmas fat_err_defs = FAT_ERR_NONE_def FAT_ERR_NOFAT_def FAT_ERR_BROKEN_def FAT_ERR_IO_def
  FAT_ERR_PARAM_def FAT_ERR_PATH_def FAT_ERR_EOF_def FAT_ERR_DENIED_def FAT_ERR_FULL_def

definition FAT_ATTR_RO :: u8 where "FAT_ATTR_RO = 0x01"
definition FAT_ATTR_SYS :: u8 where "FAT_ATTR_SYS = 0x04"
definition FAT_ATTR_LABEL :: u8 where "FAT_ATTR_LABEL = 0x08"
definition FAT_ATTR_DIR :: u8 where "FAT_ATTR_DIR = 0x10"
definition FAT_ATTR_ARCHIVE :: u8 where "FAT_ATTR_ARCHIVE = 0x20"
definition FAT_ATTR_LFN :: u8 where "FAT_ATTR_LFN = 0x0f"

definition FAT_WRITE :: u8 where "FAT_WRITE = 0x01"
definition FAT_READ :: u8 where "FAT_READ = 0x02"
definition FAT_APPEND :: u8 where "FAT_APPEND = 0x04"
definition FAT_TRUNC :: u8 where "FAT_TRUNC = 0x08"
definition FAT_CREATE :: u8 where "FAT_CREATE = 0x10"
definition FAT_ACCESSED :: u8 where "FAT_ACCESSED = 0x20"
definition FAT_MODIFIED :: u8 where "FAT_MODIFIED = 0x40"
definition FAT_FILE_DIRTY :: u8 where "FAT_FILE_DIRTY = 0x80"

datatype fat_seek = FAT_SEEK_START | FAT_SEEK_CURR | FAT_SEEK_END

definition FAT_BUF_DIRTY :: u8 where "FAT_BUF_DIRTY = 0x01"
definition FAT_INFO_DIRTY :: u8 where "FAT_INFO_DIRTY = 0x02"

definition CLUST_FREE :: u8 where "CLUST_FREE = 0x01"
definition CLUST_USED :: u8 where "CLUST_USED = 0x02"
definition CLUST_LAST :: u8 where "CLUST_LAST = 0x04"
definition CLUST_BAD :: u8 where "CLUST_BAD = 0x08"

lemmas clust_defs = CLUST_FREE_def CLUST_USED_def CLUST_LAST_def CLUST_BAD_def

definition FSINFO_HEAD_SIG :: u32 where "FSINFO_HEAD_SIG = 0x41615252"
definition FSINFO_STRUCT_SIG :: u32 where "FSINFO_STRUCT_SIG = 0x61417272"
definition FSINFO_TAIL_SIG :: u32 where "FSINFO_TAIL_SIG = 0xaa550000"

definition LFN_HEAD_MSK :: u8 where "LFN_HEAD_MSK = 0x40"
definition LFN_SEQ_MSK :: u8 where "LFN_SEQ_MSK = 0x1f"

definition SFN_FREE :: u8 where "SFN_FREE = 0xe5"
definition SFN_LAST :: u8 where "SFN_LAST = 0x00"
definition SFN_PAD :: u8 where "SFN_PAD = 0x20"

text \<open>\<open>f & m\<close> used as a condition, and \<open>f &= ~m\<close>.\<close>

definition has :: "u8 \<Rightarrow> u8 \<Rightarrow> bool" where
  "has f m \<longleftrightarrow> f AND m \<noteq> 0"

definition clr :: "u8 \<Rightarrow> u8 \<Rightarrow> u8" where
  "clr f m = f AND NOT m"

section \<open>Strings and paths\<close>

definition SLASH :: u8 where "SLASH = 0x2f"
definition DOT :: u8 where "DOT = 0x2e"

definition to_upper :: "u8 \<Rightarrow> u8" where
  "to_upper c = (if 0x61 \<le> c \<and> c \<le> 0x7a then c AND NOT 0x20 else c)"

fun subpath_len :: "u8 list \<Rightarrow> nat" where
  "subpath_len [] = 0"
| "subpath_len (c # path) = (if c \<noteq> 0 \<and> c \<noteq> SLASH then Suc (subpath_len path) else 0)"

fun skip_slashes :: "u8 list \<Rightarrow> u8 list" where
  "skip_slashes [] = []"
| "skip_slashes (c # path) = (if c = SLASH then skip_slashes path else c # path)"

definition last_subpath_len :: "u8 list \<Rightarrow> nat" where
  "last_subpath_len path = (let n = subpath_len path in
     if n = 0 then 0
     else (let path = skip_slashes (drop n path) in
       if path \<noteq> [] \<and> hd path \<noteq> 0 then 0 else n))"

section \<open>8.3 names\<close>

definition sfn_special :: "u8 list" where
  "sfn_special = [0x21, 0x23, 0x24, 0x25, 0x26, 0x27, 0x28, 0x29, 0x2d, 0x40, 0x5e, 0x5f,
     0x60, 0x7b, 0x7d, 0x7e, 0x20]"

definition sfn_char :: "u8 \<Rightarrow> u8" where
  "sfn_char c = (let c = to_upper c in
     if 0x41 \<le> c \<and> c \<le> 0x5a then c
     else if c \<in> set sfn_special then c else 0x5f)"

text \<open>\<open>while (i < len && name[i++] != '.');\<close> on what is left of the name.\<close>

fun skip_dot :: "u8 list \<Rightarrow> u8 list" where
  "skip_dot [] = []"
| "skip_dot (c # cs) = (if c \<noteq> DOT then skip_dot cs else cs)"

definition put_sfn_name :: "u8 list \<Rightarrow> nat \<Rightarrow> u8 list" where
  "put_sfn_name name len = (let
     name = take len name;
     base = takeWhile (\<lambda>c. c \<noteq> DOT) (take 8 name);
     ext = take 3 (skip_dot (drop (length base) name)) in
     map sfn_char base @ replicate (8 - length base) SFN_PAD @
     map sfn_char ext @ replicate (3 - length ext) SFN_PAD)"

text \<open>\<open>parse_sfn_name\<close>: the text it leaves in \<open>g_buf\<close>; its length becomes \<open>g_len\<close>.\<close>

definition sfn_text :: "u8 list \<Rightarrow> u8 list" where
  "sfn_text sfn_name =
     takeWhile (\<lambda>c. c \<noteq> SFN_PAD) (take 8 sfn_name) @
     (if sfn_name ! 8 \<noteq> SFN_PAD then [DOT] else []) @
     takeWhile (\<lambda>c. c \<noteq> SFN_PAD) (take 3 (drop 8 sfn_name))"

definition get_crc :: "u8 list \<Rightarrow> u8" where
  "get_crc name = foldl (\<lambda>sum i. push_bit 7 (sum AND 1) + drop_bit 1 sum + name ! i) 0 [0..<11]"

section \<open>Long-name fragments\<close>

definition g_lfn_indices :: "nat list" where
  "g_lfn_indices = [1, 3, 5, 7, 9, 14, 16, 18, 20, 22, 24, 28, 30]"

definition lfn_put :: "nat \<Rightarrow> nat \<Rightarrow> u8 \<Rightarrow> u8 \<Rightarrow> u8 list \<Rightarrow> u8 list" where
  "lfn_put off i lo hi b = b[off + g_lfn_indices ! i := lo, off + g_lfn_indices ! i + 1 := hi]"

definition put_lfn_name_frag :: "nat \<Rightarrow> u8 list \<Rightarrow> nat \<Rightarrow> u8 list \<Rightarrow> u8 list" where
  "put_lfn_name_frag off name len b =
    (let b = fold (\<lambda>i. lfn_put off i (name ! i) 0) [0..<len] b in
     if len < 13 then
       fold (\<lambda>i. lfn_put off i 0xff 0xff) [Suc len..<13] (lfn_put off len 0 0 b)
     else b)"

text \<open>
  The inner loop of \<open>parse_lfn_name\<close>: false when it meets \<open>0xff\<close>; with it \<open>g_buf\<close>, whose characters
  are stored from index \<open>13 * cnt\<close> on, and \<open>g_len\<close>.
\<close>

fun lfn_chars :: "u8 list \<Rightarrow> nat \<Rightarrow> nat \<Rightarrow> nat list \<Rightarrow> u8 list \<Rightarrow> u16 \<Rightarrow> bool \<times> u8 list \<times> u16" where
  "lfn_chars b off pos [] g n = (True, g, n)"
| "lfn_chars b off pos (ix # ixs) g n = (let c = b ! (off + ix) in
     if c = 0xff then (False, g, n)
     else if c = 0 then (True, g, n)
     else lfn_chars b off (Suc pos) ixs (g[pos := c]) (n + 1))"

section \<open>Timestamps\<close>

record Timestamp =
  ts_hour :: u8
  ts_min :: u8
  ts_sec :: u8
  ts_day :: u8
  ts_month :: u8
  ts_year :: u16

definition decode_timestamp :: "u16 \<Rightarrow> u16 \<Rightarrow> Timestamp" where
  "decode_timestamp date time = \<lparr>
     ts_hour = ucast (drop_bit 11 time AND 0x1f), ts_min = ucast (drop_bit 5 time AND 0x3f),
     ts_sec = 2 * ucast (time AND 0x1f), ts_day = ucast (date AND 0x1f),
     ts_month = ucast (drop_bit 5 date AND 0xf), ts_year = (drop_bit 9 date AND 0x3f) + 1980\<rparr>"

definition encode_timestamp :: "Timestamp \<Rightarrow> u16 \<times> u16" where
  "encode_timestamp ts =
    (push_bit 9 ((ts_year ts - 1980) AND 0x3f) OR push_bit 5 (ucast (ts_month ts) AND 0xf)
       OR (ucast (ts_day ts) AND 0x1f),
     (ucast (ts_sec ts div 2) AND 0x1f) OR push_bit 5 (ucast (ts_min ts) AND 0x3f)
       OR push_bit 11 (ucast (ts_hour ts) AND 0x1f))"

definition fat_get_timestamp :: Timestamp where
  "fat_get_timestamp = \<lparr>ts_hour = 0, ts_min = 0, ts_sec = 0, ts_day = 1, ts_month = 1, ts_year = 1980\<rparr>"

section \<open>Error texts\<close>

definition fat_error_strs :: "string list" where
  "fat_error_strs = [''FAT_ERR_NONE'', ''FAT_ERR_NOFAT'', ''FAT_ERR_BROKEN'', ''FAT_ERR_IO'',
     ''FAT_ERR_PARAM'', ''FAT_ERR_PATH'', ''FAT_ERR_EOF'', ''FAT_ERR_DENIED'', ''FAT_ERR_FULL'']"

definition fat_get_error :: "int \<Rightarrow> string" where
  "fat_get_error err = (let err = - err in
     if err < 0 \<or> int (length fat_error_strs) \<le> err then ''NULL''
     else fat_error_strs ! nat err)"

section \<open>The volume, the directory cursor and the open file\<close>

type_synonym ptr = nat

text \<open>
  The disk behind a volume is not part of this code: its state is a type parameter \<open>'d\<close> and the two
  function pointers of \<open>DiskOps\<close> are functions on it. \<open>read\<close> returns its verdict, the buffer it
  was given with whatever it has put there, and the new disk state.
\<close>

record 'd DiskOps =
  op_read :: "u32 \<Rightarrow> u8 list \<Rightarrow> u32 \<Rightarrow> 'd \<Rightarrow> bool \<times> u8 list \<times> 'd"
  op_write :: "u32 \<Rightarrow> u8 list \<Rightarrow> u32 \<Rightarrow> 'd \<Rightarrow> bool \<times> 'd"

record 'd Fat =
  fat_next :: "ptr option"
  ops :: "'d DiskOps"
  clust_msk :: u32
  clust_cnt :: u32
  info_sect :: u32
  fat_sect0 :: u32
  fat_sect1 :: u32
  data_sect :: u32
  root_clust :: u32
  last_used :: u32
  free_cnt :: u32
  fat_sect :: u32
  fat_buf :: "u8 list"
  fat_flags :: u8
  clust_shift :: u8
  name_len :: u8
  fat_name :: "u8 list"
  dev :: u32

text \<open>
  The state of the functions that work on one volume: the volume they are given, the disk and the
  static scratch variables \<open>g_buf\<close>, \<open>g_len\<close> and \<open>g_crc\<close>.
\<close>

record 'd fs = "'d Fat" +
  dsk :: 'd
  g_buf :: "u8 list"
  g_len :: u16
  g_crc :: u8

record Dir =
  dir_fat :: "ptr option"
  dir_sclust :: u32
  dir_clust :: u32
  dir_sect :: u32
  dir_idx :: u16

record Loc =
  loc_sect :: u32
  loc_idx :: u16

record DirInfo =
  created :: Timestamp
  modified :: Timestamp
  info_size :: u32
  info_attr :: u8
  info_name :: "u8 list"
  info_name_len :: u8

record File =
  file_fat :: "ptr option"
  file_dir_sect :: u32
  file_sclust :: u32
  file_clust :: u32
  file_sect :: u32
  file_size :: u32
  file_offset :: u32
  file_dir_idx :: u16
  file_attr :: u8
  file_flags :: u8
  file_buf :: "u8 list"

section \<open>Sector and cluster numbers\<close>

definition sect_to_clust :: "('d, 'z) Fat_scheme \<Rightarrow> u32 \<Rightarrow> u32" where
  "sect_to_clust f sect = drop_bit (unat (clust_shift f)) (sect - data_sect f) + 2"

definition clust_to_sect :: "('d, 'z) Fat_scheme \<Rightarrow> u32 \<Rightarrow> u32" where
  "clust_to_sect f clust = push_bit (unat (clust_shift f)) (clust - 2) + data_sect f"


section \<open>Lemmas on names\<close>

lemma sfn_char_range:
  "sfn_char c \<in> set sfn_special \<or> sfn_char c = 0x5f \<or> (0x41 \<le> sfn_char c \<and> sfn_char c \<le> 0x5a)"
  by (auto simp: sfn_char_def Let_def)

lemma sfn_char_not_marker: "sfn_char c \<noteq> SFN_FREE" "sfn_char c \<noteq> SFN_LAST" "sfn_char c \<noteq> DOT"
proof -
  have "SFN_FREE \<notin> set sfn_special" "SFN_LAST \<notin> set sfn_special" "DOT \<notin> set sfn_special"
    by (simp_all add: sfn_special_def SFN_FREE_def SFN_LAST_def DOT_def)
  then show "sfn_char c \<noteq> SFN_FREE" "sfn_char c \<noteq> SFN_LAST" "sfn_char c \<noteq> DOT"
    using sfn_char_range [of c]
    by (auto simp: SFN_FREE_def SFN_LAST_def DOT_def word_le_nat_alt)
qed

lemma length_put_sfn_name: "length (put_sfn_name name len) = 11"
proof -
  have "length (takeWhile (\<lambda>c. c \<noteq> DOT) (take 8 (take len name))) \<le> 8"
    using length_takeWhile_le [of _ "take 8 (take len name)"] by (rule order_trans) simp
  then show ?thesis by (simp add: put_sfn_name_def Let_def)
qed

lemma put_sfn_name_set: "c \<in> set (put_sfn_name name len) \<Longrightarrow> c \<noteq> SFN_FREE \<and> c \<noteq> SFN_LAST"
  using sfn_char_not_marker by (auto simp: put_sfn_name_def Let_def SFN_PAD_def SFN_FREE_def SFN_LAST_def
      in_set_replicate dest: )

section \<open>Lemmas on long-name fragments\<close>

lemma lfn_indices_facts:
  "length g_lfn_indices = 13" "distinct g_lfn_indices" "\<And>i. i < 13 \<Longrightarrow> g_lfn_indices ! i + 1 < 32"
  "\<And>i j. i < 13 \<Longrightarrow> j < 13 \<Longrightarrow> g_lfn_indices ! i \<noteq> g_lfn_indices ! j + 1"
proof -
  show l: "length g_lfn_indices = 13" and "distinct g_lfn_indices" by (simp_all add: g_lfn_indices_def)
  have "\<forall>x \<in> set g_lfn_indices. x + 1 < 32" by (simp add: g_lfn_indices_def)
  then show "g_lfn_indices ! i + 1 < 32" if "i < 13" for i
    using that nth_mem [of i g_lfn_indices] l by auto
  have "\<forall>x \<in> set g_lfn_indices. \<forall>y \<in> set g_lfn_indices. x \<noteq> y + 1" by (simp add: g_lfn_indices_def)
  then show "g_lfn_indices ! i \<noteq> g_lfn_indices ! j + 1" if "i < 13" "j < 13" for i j
    using that nth_mem [of i g_lfn_indices] nth_mem [of j g_lfn_indices]
    by (simp add: l)
qed

lemma length_lfn_put [simp]: "length (lfn_put off i lo hi b) = length b"
  by (simp add: lfn_put_def)

lemma lfn_put_nth:
  assumes "i < 13" "j < 13" "off + 32 \<le> length b"
  shows "lfn_put off i lo hi b ! (off + g_lfn_indices ! j) = (if j = i then lo else b ! (off + g_lfn_indices ! j))"
proof -
  have "g_lfn_indices ! i + 1 < 32" "g_lfn_indices ! j + 1 < 32" "g_lfn_indices ! j \<noteq> g_lfn_indices ! i + 1"
    using lfn_indices_facts assms by blast+
  moreover have "g_lfn_indices ! i = g_lfn_indices ! j \<longleftrightarrow> i = j"
    using lfn_indices_facts(1,2) assms by (simp add: nth_eq_iff_index_eq)
  ultimately show ?thesis using assms by (auto simp: lfn_put_def nth_list_update)
qed

lemma fold_lfn_put:
  assumes "\<forall>i \<in> set is. i < 13" "j < 13" "off + 32 \<le> length b" "distinct is"
  shows "length (fold (\<lambda>i. lfn_put off i (f i) (g i)) is b) = length b"
    and "fold (\<lambda>i. lfn_put off i (f i) (g i)) is b ! (off + g_lfn_indices ! j) =
      (if j \<in> set is then f j else b ! (off + g_lfn_indices ! j))"
  using assms(1,3,4)
  by (induction "is" arbitrary: b) (auto simp: lfn_put_nth assms(2))

lemma put_lfn_name_frag_nth:
  assumes "len \<le> 13" "j < 13" "off + 32 \<le> length b"
  shows "put_lfn_name_frag off name len b ! (off + g_lfn_indices ! j) =
      (if j < len then name ! j else if j = len then 0 else 0xff)"
proof -
  let ?b = "fold (\<lambda>i. lfn_put off i (name ! i) 0) [0..<len] b"
  have 1: "length ?b = length b"
      "?b ! (off + g_lfn_indices ! j) = (if j < len then name ! j else b ! (off + g_lfn_indices ! j))"
    using fold_lfn_put [of "[0..<len]" j off b "\<lambda>i. name ! i" "\<lambda>i. 0"] assms by auto
  show ?thesis
  proof (cases "len < 13")
    case False
    then show ?thesis using 1 assms by (simp add: put_lfn_name_frag_def Let_def)
  next
    case True
    let ?c = "lfn_put off len 0 0 ?b"
    have "fold (\<lambda>i. lfn_put off i 0xff 0xff) [Suc len..<13] ?c ! (off + g_lfn_indices ! j) =
        (if j \<in> set [Suc len..<13] then 0xff else ?c ! (off + g_lfn_indices ! j))"
      using fold_lfn_put(2) [of "[Suc len..<13]" j off ?c "\<lambda>i. 0xff" "\<lambda>i. 0xff"] assms 1 by auto
    moreover have "?c ! (off + g_lfn_indices ! j) = (if j = len then 0 else ?b ! (off + g_lfn_indices ! j))"
      using lfn_put_nth [of len j off ?b] True assms 1 by simp
    ultimately show ?thesis using 1 True assms by (auto simp: put_lfn_name_frag_def Let_def)
  qed
qed

lemma blit_Cons: "pos < length g \<Longrightarrow> blit (g[pos := c]) (Suc pos) xs = blit g pos (c # xs)"
proof -
  assume p: "pos < length g"
  then have "take (Suc pos) (g[pos := c]) = take pos g @ [c]" by (simp add: take_Suc_conv_app_nth)
  moreover have "take (length g - pos) (c # xs) = c # take (length g - Suc pos) xs"
    using p by (simp add: take_Cons')
  ultimately show ?thesis by (simp add: blit_def)
qed

lemma lfn_chars_spec:
  "(\<And>i. i < length ixs \<Longrightarrow> b ! (off + ixs ! i) = (if i < len then name ! i else if i = len then 0 else 0xff)) \<Longrightarrow>
    (\<And>i. i < len \<Longrightarrow> name ! i \<noteq> 0 \<and> name ! i \<noteq> 0xff) \<Longrightarrow> len \<le> length ixs \<Longrightarrow> len \<le> length name \<Longrightarrow>
    pos + len \<le> length g \<Longrightarrow>
    lfn_chars b off pos ixs g n = (True, blit g pos (take len name), n + of_nat len)"
proof (induction ixs arbitrary: pos g n len name)
  case Nil
  then show ?case by (simp add: blit_def)
next
  case (Cons ix ixs)
  show ?case
  proof (cases len)
    case 0
    then show ?thesis using Cons.prems(1) [of 0] by (simp add: blit_def Let_def)
  next
    case (Suc m)
    obtain c cs where name: "name = c # cs" using Cons.prems(4) Suc by (cases name) auto
    have c: "b ! (off + ix) = c" "c \<noteq> 0" "c \<noteq> 0xff"
      using Cons.prems(1) [of 0] Cons.prems(2) [of 0] Suc name by auto
    have "lfn_chars b off (Suc pos) ixs (g[pos := c]) (n + 1) =
        (True, blit (g[pos := c]) (Suc pos) (take m cs), n + 1 + of_nat m)"
    proof (rule Cons.IH)
      show "b ! (off + ixs ! i) = (if i < m then cs ! i else if i = m then 0 else 0xff)" if "i < length ixs" for i
        using Cons.prems(1) [of "Suc i"] that Suc name by simp
      show "cs ! i \<noteq> 0 \<and> cs ! i \<noteq> 0xff" if "i < m" for i
        using Cons.prems(2) [of "Suc i"] that Suc name by simp
    qed (use Cons.prems Suc name in auto)
    moreover have "blit (g[pos := c]) (Suc pos) (take m cs) = blit g pos (take len name)"
      using Cons.prems(4,5) Suc name by (simp add: blit_Cons)
    ultimately show ?thesis using c Suc name by (simp add: Let_def add.assoc add.commute)
  qed
qed

section \<open>Properties\<close>

text \<open>A long-name fragment written by \<open>put_lfn_name_frag\<close> is read back by the inner loop of
  \<open>parse_lfn_name\<close> exactly: the characters land at their position in \<open>g_buf\<close>, their number is added to
  \<open>g_len\<close>, and the terminator and padding are accepted, for every fragment of up to 13 characters other
  than 0 and 0xff, at any entry of a sector.\<close>

theorem lfn_fragment_roundtrip:
  assumes "len \<le> 13" and "len \<le> length name" and "off + 32 \<le> length b" and "pos + len \<le> length g"
    and "\<forall>c \<in> set (take len name). c \<noteq> 0 \<and> c \<noteq> 0xff"
  shows "lfn_chars (put_lfn_name_frag off name len b) off pos g_lfn_indices g n =
    (True, blit g pos (take len name), n + of_nat len)"
proof (rule lfn_chars_spec)
  show "name ! i \<noteq> 0 \<and> name ! i \<noteq> 0xff" if "i < len" for i
    using assms(2,5) that nth_mem [of i "take len name"] by simp
qed (use assms lfn_indices_facts(1) put_lfn_name_frag_nth in auto)

theorem lfn_fragment_roundtrip_witness:
  "lfn_chars (put_lfn_name_frag 32 [0x61, 0x62] 2 (replicate 512 7)) 32 1 g_lfn_indices [9, 9, 9, 9] 0 =
    (True, [9, 0x61, 0x62, 9], 2)"
  using lfn_fragment_roundtrip [of 2 "[0x61, 0x62]" 32 "replicate 512 7" 1 "[9, 9, 9, 9]" 0]
  by (simp add: blit_def)

text \<open>Whatever name it is given, \<open>put_sfn_name\<close> produces 11 bytes none of which is the end-of-directory
  or the deleted-entry marker, so that a created entry is never mistaken for a free one.\<close>

theorem sfn_name_never_free:
  "length (put_sfn_name name len) = 11 \<and> SFN_FREE \<notin> set (put_sfn_name name len) \<and>
    SFN_LAST \<notin> set (put_sfn_name name len)"
  using length_put_sfn_name put_sfn_name_set by blast

text \<open>Timestamps survive encoding and decoding, at the two-second resolution of the format, for the
  years 1980 to 2043.\<close>

theorem timestamp_roundtrip:
  assumes "1980 \<le> ts_year ts" "ts_year ts < 2044" "ts_month ts < 16" "ts_day ts < 32" "ts_hour ts < 32"
    "ts_min ts < 64" "ts_sec ts < 64" "even (ts_sec ts)"
  shows "(case encode_timestamp ts of (date, time) \<Rightarrow> decode_timestamp date time) = ts"
proof -
  have small: "bit x n \<Longrightarrow> n < k" if "x < 2 ^ k" "k < LENGTH('a)" for x :: "'a::len word" and k n
  proof -
    have e: "x AND mask k = x" using that by (intro less_mask_eq) auto
    have "bit (x AND mask k) n \<Longrightarrow> n < k" by (simp add: bit_and_iff bit_mask_iff)
    then show "bit x n \<Longrightarrow> n < k" unfolding e .
  qed
  define y where "y = ts_year ts - 1980"
  have "unat y < 64" using assms(1,2) by (simp add: y_def word_less_nat_alt word_le_nat_alt unat_sub)
  then have "y < 2 ^ 6" by (simp add: word_less_nat_alt)
  then have y: "bit y n \<Longrightarrow> n < 6" for n by (rule small) simp
  have m: "bit (ts_month ts) n \<Longrightarrow> n < 4" for n using assms(3) by (intro small [of "ts_month ts" 4 n]) auto
  have d: "bit (ts_day ts) n \<Longrightarrow> n < 5" for n using assms(4) by (intro small [of "ts_day ts" 5 n]) auto
  have h: "bit (ts_hour ts) n \<Longrightarrow> n < 5" for n using assms(5) by (intro small [of "ts_hour ts" 5 n]) auto
  have i: "bit (ts_min ts) n \<Longrightarrow> n < 6" for n using assms(6) by (intro small [of "ts_min ts" 6 n]) auto
  have s: "bit (ts_sec ts) n \<Longrightarrow> n < 6" for n using assms(7) by (intro small [of "ts_sec ts" 6 n]) auto
  have s0: "\<not> bit (ts_sec ts) 0" using assms(8) by (simp add: bit_0)
  have e16: "(0x1f :: u16) = mask 5" "(0x3f :: u16) = mask 6" "(0xf :: u16) = mask 4"
    by (simp_all add: mask_eq_exp_minus_1)
  have half: "ts_sec ts div 2 = drop_bit 1 (ts_sec ts)" by (simp add: drop_bit_eq_div)
  define date where "date = push_bit 9 (y AND mask 6) OR push_bit 5 (ucast (ts_month ts) AND mask 4)
    OR (ucast (ts_day ts) AND mask 5)"
  define time where "time = (ucast (drop_bit 1 (ts_sec ts)) AND mask 5) OR push_bit 5 (ucast (ts_min ts) AND mask 6)
    OR push_bit 11 (ucast (ts_hour ts) AND (mask 5 :: u16))"
  have enc: "encode_timestamp ts = (date, time)"
    by (simp add: encode_timestamp_def date_def time_def e16 y_def half del: drop_bit_Suc push_bit_Suc)
  have bl: "n < 8" if "bit (x :: u8) n" for x n using bit_imp_le_length [OF that] by simp
  have "drop_bit 9 date AND mask 6 = y"
    by (rule bit_word_eqI) (auto simp: date_def bit_simps dest: y m d)
  moreover have "ucast (date AND mask 5) = ts_day ts"
    by (rule bit_word_eqI) (auto simp: date_def bit_simps dest: y m d)
  moreover have "ucast (drop_bit 5 date AND mask 4) = ts_month ts"
    by (rule bit_word_eqI) (auto simp: date_def bit_simps dest: y m d)
  moreover have "ucast (drop_bit 11 time AND mask 5) = ts_hour ts"
    by (rule bit_word_eqI) (auto simp: time_def bit_simps dest: h i s)
  moreover have "ucast (drop_bit 5 time AND mask 6) = ts_min ts"
    by (rule bit_word_eqI) (auto simp: time_def bit_simps dest: h i s)
  moreover have "2 * ucast (time AND mask 5) = ts_sec ts"
  proof -
    have u: "ucast (time AND mask 5) = (drop_bit 1 (ts_sec ts) :: u8)"
      by (rule bit_word_eqI) (auto simp: time_def bit_simps dest: h i s)
    have "2 * ucast (time AND mask 5) = push_bit 1 (drop_bit 1 (ts_sec ts))" unfolding u by simp
    also have "\<dots> = ts_sec ts"
    proof (rule bit_word_eqI)
      fix n assume "n < LENGTH(8)"
      then show "bit (push_bit 1 (drop_bit 1 (ts_sec ts))) n = bit (ts_sec ts) n"
        using s0 by (cases n) (auto simp: bit_push_bit_iff bit_drop_bit_eq simp del: push_bit_Suc drop_bit_Suc)
    qed
    finally show ?thesis .
  qed
  ultimately show ?thesis
    unfolding enc by (simp add: decode_timestamp_def e16 y_def)
qed

definition some_time :: Timestamp where
  "some_time = \<lparr>ts_hour = 23, ts_min = 59, ts_sec = 58, ts_day = 31, ts_month = 12, ts_year = 2043\<rparr>"

theorem timestamp_roundtrip_witness:
  "(case encode_timestamp some_time of (date, time) \<Rightarrow> decode_timestamp date time) = some_time"
  by (rule timestamp_roundtrip) (simp_all add: some_time_def)

text \<open>The mask 0x3f keeps six of the seven bits of the year: 2044 comes back as 1980.\<close>

theorem timestamp_year_2044:
  "(case encode_timestamp (some_time\<lparr>ts_year := 2044\<rparr>) of (date, time) \<Rightarrow> ts_year (decode_timestamp date time)) = 1980"
  by (simp add: some_time_def encode_timestamp_def decode_timestamp_def)

end
