(* ===== verification/FatCache.thy ===== *)
theory FatCache
  imports FatBase
begin

text \<open>
  The one-sector write-back cache every \<open>Fat\<close> has (\<open>sync_buf\<close>, \<open>update_buf\<close>) and the write-back of
  the FsInfo sector (\<open>sync_fs\<close>), with the abstract disk they implement: \<open>vsec\<close> is what a caller
  sees in a sector, whether it is still in the buffer or already on the disk.
\<close>

section \<open>Operations\<close>

definition sync_buf :: "'d fs \<Rightarrow> int \<times> 'd fs" where
  "sync_buf s =
    (if has (fat_flags s) FAT_BUF_DIRTY then
       case op_write (ops s) (dev s) (fat_buf s) (fat_sect s) (dsk s) of (ok, d) \<Rightarrow>
         (let s = s\<lparr>dsk := d\<rparr> in
          if \<not> ok then (FAT_ERR_IO, s)
          else (FAT_ERR_NONE, s\<lparr>fat_flags := clr (fat_flags s) FAT_BUF_DIRTY\<rparr>))
     else (FAT_ERR_NONE, s))"

definition update_buf :: "u32 \<Rightarrow> 'd fs \<Rightarrow> int \<times> 'd fs" where
  "update_buf sect s =
    (if fat_sect s \<noteq> sect then
       chk (sync_buf s)
         (\<lambda>s. case op_read (ops s) (dev s) (fat_buf s) sect (dsk s) of (ok, b, d) \<Rightarrow>
           (let s = s\<lparr>fat_buf := b, dsk := d\<rparr> in
            if \<not> ok then (FAT_ERR_IO, s) else (FAT_ERR_NONE, s\<lparr>fat_sect := sect\<rparr>)))
         Pair
     else (FAT_ERR_NONE, s))"

definition sync_fs :: "'d fs \<Rightarrow> int \<times> 'd fs" where
  "sync_fs s =
    chk (sync_buf s)
      (\<lambda>s. if has (fat_flags s) FAT_INFO_DIRTY then
         chk (update_buf (info_sect s) s)
           (\<lambda>s. let s = s\<lparr>fat_flags := fat_flags s OR FAT_BUF_DIRTY\<rparr>;
                    s = s\<lparr>fat_buf := st32 (fat_buf s) 492 (last_used s)\<rparr>;
                    s = s\<lparr>fat_buf := st32 (fat_buf s) 488 (free_cnt s)\<rparr> in
              chk (sync_buf s)
                (\<lambda>s. (FAT_ERR_NONE, s\<lparr>fat_flags := clr (fat_flags s) FAT_INFO_DIRTY\<rparr>))
                Pair)
           Pair
       else (FAT_ERR_NONE, s))
      Pair"

section \<open>The contract of a disk\<close>

text \<open>
  What the library relies on: \<open>sectors d n\<close> are the 512 bytes of sector \<open>n\<close>. A successful read
  delivers them, a successful write replaces them, and nothing else changes; a read that fails may
  leave anything in the buffer, a write that fails anything in the sector. Buffers are 514
  bytes because the SD driver stores the two CRC bytes behind the data.
\<close>

definition good_disk :: "'d DiskOps \<Rightarrow> ('d \<Rightarrow> u32 \<Rightarrow> u8 list) \<Rightarrow> bool" where
  "good_disk D sectors \<longleftrightarrow>
    (\<forall>d n. length (sectors d n) = 512) \<and>
    (\<forall>dv b n d ok b' d'. length b = 514 \<and> op_read D dv b n d = (ok, b', d') \<longrightarrow>
       length b' = 514 \<and> sectors d' = sectors d \<and> (ok \<longrightarrow> take 512 b' = sectors d n)) \<and>
    (\<forall>dv b n d ok d'. length b = 514 \<and> op_write D dv b n d = (ok, d') \<longrightarrow>
       (ok \<longrightarrow> sectors d' n = take 512 b) \<and> (\<forall>m. m \<noteq> n \<longrightarrow> sectors d' m = sectors d m))"

lemma good_disk_length: "good_disk D sectors \<Longrightarrow> length (sectors d n) = 512"
  by (simp add: good_disk_def)

lemma good_disk_read:
  assumes "good_disk D sectors" "length b = 514" "op_read D dv b n d = (ok, b', d')"
  shows "length b' = 514" "sectors d' = sectors d" "ok \<Longrightarrow> take 512 b' = sectors d n"
  using assms unfolding good_disk_def by blast+

lemma good_disk_write:
  assumes "good_disk D sectors" "length b = 514" "op_write D dv b n d = (ok, d')"
  shows "ok \<Longrightarrow> sectors d' n = take 512 b" "m \<noteq> n \<Longrightarrow> sectors d' m = sectors d m"
  using assms unfolding good_disk_def by blast+

section \<open>Flags\<close>

lemma has_BUF [simp]: "has f FAT_BUF_DIRTY \<longleftrightarrow> bit f 0"
  by (simp add: has_def FAT_BUF_DIRTY_def and_one_eq odd_iff_mod_2_eq_one [symmetric] bit_0)

lemma has_INFO [simp]: "has f FAT_INFO_DIRTY \<longleftrightarrow> bit f 1"
proof -
  have "f AND 2 \<noteq> 0 \<longleftrightarrow> bit f 1"
    using and_exp_eq_0_iff_not_bit [of f 1] by simp
  then show ?thesis by (simp add: has_def FAT_INFO_DIRTY_def)
qed

lemma bit_clr: "bit (clr f m) n \<longleftrightarrow> bit f n \<and> \<not> bit m n"
  by (auto simp: clr_def bit_simps dest: bit_imp_le_length)

lemma bit_u8_masks [simp]:
  "bit FAT_BUF_DIRTY n \<longleftrightarrow> n = 0" "bit FAT_INFO_DIRTY n \<longleftrightarrow> n = 1"
proof -
  have "bit (2 :: u8) n \<longleftrightarrow> n = 1" by (cases n) (simp_all add: bit_Suc bit_1_iff)
  then show "bit FAT_INFO_DIRTY n \<longleftrightarrow> n = 1" by (simp add: FAT_INFO_DIRTY_def)
qed (simp add: FAT_BUF_DIRTY_def bit_1_iff)

lemma dirty_bits [simp]:
  "bit (clr f FAT_BUF_DIRTY) 0 \<longleftrightarrow> False" "bit (clr f FAT_BUF_DIRTY) 1 \<longleftrightarrow> bit f 1"
  "bit (clr f FAT_INFO_DIRTY) 0 \<longleftrightarrow> bit f 0" "bit (clr f FAT_INFO_DIRTY) 1 \<longleftrightarrow> False"
  "bit (f OR FAT_BUF_DIRTY) 0 \<longleftrightarrow> True" "bit (f OR FAT_BUF_DIRTY) 1 \<longleftrightarrow> bit f 1"
  "bit (f OR FAT_INFO_DIRTY) 0 \<longleftrightarrow> bit f 0" "bit (f OR FAT_INFO_DIRTY) 1 \<longleftrightarrow> True"
  by (simp_all add: bit_clr bit_or_iff)

lemmas dirty_bits_Suc [simp] = dirty_bits [unfolded One_nat_def]

section \<open>The abstract disk behind the cache\<close>

definition vsec :: "('d \<Rightarrow> u32 \<Rightarrow> u8 list) \<Rightarrow> 'd fs \<Rightarrow> u32 \<Rightarrow> u8 list" where
  "vsec sectors s n = (if n = fat_sect s then take 512 (fat_buf s) else sectors (dsk s) n)"

text \<open>Sector 0 is excepted: \<open>fat_mount\<close> starts with tag 0 and nothing in the buffer.\<close>

definition cache_inv :: "('d \<Rightarrow> u32 \<Rightarrow> u8 list) \<Rightarrow> 'd fs \<Rightarrow> bool" where
  "cache_inv sectors s \<longleftrightarrow> good_disk (ops s) sectors \<and> length (fat_buf s) = 514 \<and>
    (\<not> bit (fat_flags s) 0 \<and> fat_sect s \<noteq> 0 \<longrightarrow> take 512 (fat_buf s) = sectors (dsk s) (fat_sect s))"

text \<open>What the cache operations leave alone: every other field of the volume, and the scratch data.\<close>

definition meta :: "'d fs \<Rightarrow> 'd fs \<Rightarrow> bool" where
  "meta s s' \<longleftrightarrow> s'\<lparr>fat_sect := 0, fat_buf := [], fat_flags := 0, dsk := undefined\<rparr> =
     s\<lparr>fat_sect := 0, fat_buf := [], fat_flags := 0, dsk := undefined\<rparr>"

lemma meta_refl [simp, intro]: "meta s s"
  by (simp add: meta_def)

lemma meta_trans [trans]: "meta s t \<Longrightarrow> meta t u \<Longrightarrow> meta s u"
  by (simp add: meta_def)

lemma meta_simps:
  assumes "meta s s'"
  shows "ops s' = ops s" "clust_msk s' = clust_msk s" "clust_cnt s' = clust_cnt s"
    "info_sect s' = info_sect s" "fat_sect0 s' = fat_sect0 s" "fat_sect1 s' = fat_sect1 s"
    "data_sect s' = data_sect s" "root_clust s' = root_clust s" "last_used s' = last_used s"
    "free_cnt s' = free_cnt s" "clust_shift s' = clust_shift s" "dev s' = dev s"
    "g_buf s' = g_buf s" "g_len s' = g_len s" "g_crc s' = g_crc s"
  using arg_cong [OF assms [unfolded meta_def], of ops] arg_cong [OF assms [unfolded meta_def], of clust_msk]
    arg_cong [OF assms [unfolded meta_def], of clust_cnt] arg_cong [OF assms [unfolded meta_def], of info_sect]
    arg_cong [OF assms [unfolded meta_def], of fat_sect0] arg_cong [OF assms [unfolded meta_def], of fat_sect1]
    arg_cong [OF assms [unfolded meta_def], of data_sect] arg_cong [OF assms [unfolded meta_def], of root_clust]
    arg_cong [OF assms [unfolded meta_def], of last_used] arg_cong [OF assms [unfolded meta_def], of free_cnt]
    arg_cong [OF assms [unfolded meta_def], of clust_shift] arg_cong [OF assms [unfolded meta_def], of dev]
    arg_cong [OF assms [unfolded meta_def], of g_buf] arg_cong [OF assms [unfolded meta_def], of g_len]
    arg_cong [OF assms [unfolded meta_def], of g_crc]
  by simp_all

lemma meta_upd [simp]:
  "meta s (s'\<lparr>fat_sect := n\<rparr>) = meta s s'" "meta s (s'\<lparr>fat_buf := b\<rparr>) = meta s s'"
  "meta s (s'\<lparr>fat_flags := f\<rparr>) = meta s s'" "meta s (s'\<lparr>dsk := d\<rparr>) = meta s s'"
  by (simp_all add: meta_def)

lemma vsec_meta: "fat_sect s' = fat_sect s \<Longrightarrow> fat_buf s' = fat_buf s \<Longrightarrow> dsk s' = dsk s \<Longrightarrow>
    vsec sectors s' n = vsec sectors s n"
  by (simp add: vsec_def)

lemma length_vsec: "cache_inv sectors s \<Longrightarrow> length (vsec sectors s n) = 512"
  using good_disk_length [of "ops s" sectors "dsk s" n] by (auto simp: vsec_def cache_inv_def)

lemma sync_buf_spec:
  assumes "cache_inv sectors s" and "sync_buf s = (e, s')"
  shows "e \<in> {0, FAT_ERR_IO} \<and> meta s s' \<and> cache_inv sectors s' \<and> fat_sect s' = fat_sect s \<and>
    fat_buf s' = fat_buf s \<and> (bit (fat_flags s') 1 \<longleftrightarrow> bit (fat_flags s) 1) \<and>
    (\<forall>n. vsec sectors s' n = vsec sectors s n) \<and>
    (e = 0 \<longrightarrow> \<not> bit (fat_flags s') 0 \<and> (\<forall>n. n \<noteq> 0 \<longrightarrow> sectors (dsk s') n = vsec sectors s n))"
proof (cases "bit (fat_flags s) 0")
  case False
  then show ?thesis
    using assms by (auto simp: sync_buf_def FAT_ERR_NONE_def vsec_def cache_inv_def)
next
  case True
  obtain ok d where w: "op_write (ops s) (dev s) (fat_buf s) (fat_sect s) (dsk s) = (ok, d)"
    by (cases "op_write (ops s) (dev s) (fat_buf s) (fat_sect s) (dsk s)")
  have g: "good_disk (ops s) sectors" "length (fat_buf s) = 514"
    using assms(1) by (auto simp: cache_inv_def)
  note d = good_disk_write [OF g w]
  show ?thesis
  proof (cases ok)
    case False
    then have "e = FAT_ERR_IO" "s' = s\<lparr>dsk := d\<rparr>"
      using True assms(2) by (simp_all add: sync_buf_def w)
    then show ?thesis
      using True g d(2) by (simp add: cache_inv_def vsec_def FAT_ERR_IO_def)
  next
    case ok: True
    then have "e = 0" "s' = s\<lparr>dsk := d, fat_flags := clr (fat_flags s) FAT_BUF_DIRTY\<rparr>"
      using True assms(2) by (simp_all add: sync_buf_def w Let_def FAT_ERR_NONE_def)
    then show ?thesis
      using True g d ok by (simp add: cache_inv_def vsec_def)
  qed
qed

lemma update_buf_spec:
  assumes "cache_inv sectors s" and "n \<noteq> 0" and "update_buf n s = (e, s')"
  shows "e \<in> {0, FAT_ERR_IO} \<and> meta s s' \<and> length (fat_buf s') = 514 \<and>
    (bit (fat_flags s') 1 \<longleftrightarrow> bit (fat_flags s) 1) \<and>
    (e = 0 \<longrightarrow> cache_inv sectors s' \<and> fat_sect s' = n \<and> take 512 (fat_buf s') = vsec sectors s n \<and>
      (\<forall>m. m \<noteq> 0 \<longrightarrow> vsec sectors s' m = vsec sectors s m))"
proof (cases "fat_sect s = n")
  case True
  then show ?thesis
    using assms by (auto simp: update_buf_def FAT_ERR_NONE_def vsec_def cache_inv_def)
next
  case False
  obtain e1 s1 where 1: "sync_buf s = (e1, s1)" by (cases "sync_buf s")
  note s1 = sync_buf_spec [OF assms(1) 1]
  obtain ok b d where r: "op_read (ops s1) (dev s1) (fat_buf s1) n (dsk s1) = (ok, b, d)"
    by (cases "op_read (ops s1) (dev s1) (fat_buf s1) n (dsk s1)") auto
  have g: "good_disk (ops s1) sectors" "length (fat_buf s1) = 514"
    using s1 by (auto simp: cache_inv_def)
  note rd = good_disk_read [OF g r]
  show ?thesis
  proof (cases "e1 = 0")
    case False
    then show ?thesis
      using assms(3) \<open>fat_sect s \<noteq> n\<close> 1 s1 by (auto simp: update_buf_def cache_inv_def)
  next
    case True
    have v: "vsec sectors s n = sectors (dsk s1) n" using True s1 assms(2) by auto
    have u: "update_buf n s = (if \<not> ok then (FAT_ERR_IO, s1\<lparr>fat_buf := b, dsk := d\<rparr>)
        else (FAT_ERR_NONE, s1\<lparr>fat_buf := b, dsk := d, fat_sect := n\<rparr>))"
      using \<open>fat_sect s \<noteq> n\<close> by (simp add: update_buf_def 1 True r Let_def)
    show ?thesis
    proof (cases ok)
      case False
      then show ?thesis
        using u assms(3) s1 rd by (auto simp: FAT_ERR_IO_def)
    next
      case ok: True
      then have s': "e = 0" "s' = s1\<lparr>fat_buf := b, dsk := d, fat_sect := n\<rparr>"
        using u assms(3) by (auto simp: FAT_ERR_NONE_def)
      have "vsec sectors s' m = vsec sectors s m" if "m \<noteq> 0" for m
        using that s1 True rd ok by (auto simp: vsec_def s'(2))
      then show ?thesis
        using s' s1 rd ok g v by (auto simp: cache_inv_def)
    qed
  qed
qed

text \<open>Modifying the buffered sector in place and marking it dirty.\<close>

lemma dirty_spec:
  assumes "cache_inv sectors s" "length (fat_buf s') = 514" "bit (fat_flags s') 0"
    and "ops s' = ops s" "fat_sect s' = fat_sect s" "dsk s' = dsk s"
  shows "cache_inv sectors s'"
    and "vsec sectors s' n = (if n = fat_sect s then take 512 (fat_buf s') else vsec sectors s n)"
  using assms by (auto simp: cache_inv_def vsec_def)

text \<open>Fields the cache does not look at.\<close>

lemma cache_inv_upd [simp]:
  "bit f 0 = bit (fat_flags s) 0 \<Longrightarrow> cache_inv sectors (s\<lparr>fat_flags := f\<rparr>) = cache_inv sectors s"
  "cache_inv sectors (s\<lparr>free_cnt := n\<rparr>) = cache_inv sectors s"
  "cache_inv sectors (s\<lparr>last_used := n\<rparr>) = cache_inv sectors s"
  "cache_inv sectors (s\<lparr>g_buf := b\<rparr>) = cache_inv sectors s"
  "cache_inv sectors (s\<lparr>g_len := l\<rparr>) = cache_inv sectors s"
  "cache_inv sectors (s\<lparr>g_crc := c\<rparr>) = cache_inv sectors s"
  by (simp_all add: cache_inv_def)

lemma vsec_upd [simp]:
  "vsec sectors (s\<lparr>fat_flags := f\<rparr>) = vsec sectors s"
  "vsec sectors (s\<lparr>free_cnt := n\<rparr>) = vsec sectors s"
  "vsec sectors (s\<lparr>last_used := n\<rparr>) = vsec sectors s"
  "vsec sectors (s\<lparr>g_buf := b\<rparr>) = vsec sectors s"
  "vsec sectors (s\<lparr>g_len := l\<rparr>) = vsec sectors s"
  "vsec sectors (s\<lparr>g_crc := c\<rparr>) = vsec sectors s"
  by (simp_all add: vsec_def fun_eq_iff)

lemma take_st32: "take m (st32 b i v) = st32 (take m b) i v"
  by (simp add: st32_def take_update_swap)

lemma sync_fs_spec:
  assumes inv: "cache_inv sectors s" and "info_sect s \<noteq> 0" and r: "sync_fs s = (e, s')"
  shows "e \<in> {0, FAT_ERR_IO} \<and> meta s s' \<and> (e = 0 \<longrightarrow>
    cache_inv sectors s' \<and> \<not> bit (fat_flags s') 0 \<and> \<not> bit (fat_flags s') 1 \<and>
    (\<forall>n. n \<noteq> 0 \<longrightarrow> sectors (dsk s') n = vsec sectors s' n) \<and>
    (\<forall>n. n \<noteq> 0 \<longrightarrow> vsec sectors s' n =
      (if n = info_sect s \<and> bit (fat_flags s) 1
       then st32 (st32 (vsec sectors s n) 492 (last_used s)) 488 (free_cnt s)
       else vsec sectors s n)))"
proof -
  obtain e1 s1 where 1: "sync_buf s = (e1, s1)" by (cases "sync_buf s")
  note s1 = sync_buf_spec [OF inv 1]
  obtain e2 s2 where 2: "update_buf (info_sect s) s1 = (e2, s2)" by (cases "update_buf (info_sect s) s1")
  have i1: "info_sect s1 = info_sect s" using s1 meta_simps by blast
  note s2 = update_buf_spec [OF _ assms(2) 2, of sectors]
  consider "e1 \<noteq> 0" | "e1 = 0" "\<not> bit (fat_flags s) 1" | "e1 = 0" "bit (fat_flags s) 1" "e2 \<noteq> 0"
    | "e1 = 0" "bit (fat_flags s) 1" "e2 = 0" by blast
  then show ?thesis
  proof cases
    case 1
    then show ?thesis using r s1 by (simp add: sync_fs_def \<open>sync_buf s = (e1, s1)\<close>)
  next
    case 2
    have f: "\<not> bit (fat_flags s1) 1" using 2 s1 by blast
    then have "e = 0" "s' = s1"
      using r 2 by (simp_all add: sync_fs_def \<open>sync_buf s = (e1, s1)\<close> FAT_ERR_NONE_def)
    then show ?thesis using 2 s1 f by simp
  next
    case 3
    have f: "bit (fat_flags s1) 1" using 3 s1 by blast
    then have "e = e2" "s' = s2"
      using r 3 by (simp_all add: sync_fs_def \<open>sync_buf s = (e1, s1)\<close> i1 2)
    moreover have "meta s s2 \<and> e2 \<in> {0, FAT_ERR_IO}" using s1 s2 meta_trans by blast
    ultimately show ?thesis using 3 by simp
  next
    case 4
    have f: "bit (fat_flags s1) 1" using 4 s1 by blast
    have m: "meta s s2" using s1 s2 meta_trans by blast
    define b where "b = st32 (st32 (fat_buf s2) 492 (last_used s)) 488 (free_cnt s)"
    define s3 where "s3 = s2\<lparr>fat_flags := fat_flags s2 OR FAT_BUF_DIRTY, fat_buf := b\<rparr>"
    have inv2: "cache_inv sectors s2" and l2: "length (fat_buf s2) = 514" and t2: "fat_sect s2 = info_sect s"
      using s1 s2 4 by auto
    have d3: "cache_inv sectors s3" "vsec sectors s3 n = (if n = info_sect s then take 512 b else vsec sectors s2 n)" for n
      using dirty_spec [OF inv2, of s3] l2 t2 by (simp_all add: s3_def b_def)
    obtain e4 s4 where 5: "sync_buf s3 = (e4, s4)" by (cases "sync_buf s3")
    note s4 = sync_buf_spec [OF d3(1) 5]
    have h: "s2\<lparr>fat_flags := fat_flags s2 OR FAT_BUF_DIRTY,
        fat_buf := st32 (st32 (fat_buf s2) 492 (last_used s2)) 488 (free_cnt s2)\<rparr> = s3"
      by (simp add: s3_def b_def meta_simps(9,10) [OF m])
    have e: "sync_fs s = (if e4 \<noteq> 0 then (e4, s4) else (0, s4\<lparr>fat_flags := clr (fat_flags s4) FAT_INFO_DIRTY\<rparr>))"
      unfolding sync_fs_def \<open>sync_buf s = (e1, s1)\<close>
      using f 4 by (simp add: i1 2 Let_def h 5 FAT_ERR_NONE_def)
    have "meta s s3" using m by (simp add: s3_def)
    then have m3: "meta s s4" using s4 meta_trans by blast
    show ?thesis
    proof (cases "e4 = 0")
      case False
      then show ?thesis using e r s4 m3 by simp
    next
      case True
      then have s': "e = 0" "s' = s4\<lparr>fat_flags := clr (fat_flags s4) FAT_INFO_DIRTY\<rparr>" using e r by auto
      have v': "vsec sectors s' n = vsec sectors s3 n" for n
        using s4 vsec_meta [of s' s4 sectors n] by (simp add: s'(2))
      have "vsec sectors s' n = (if n = info_sect s \<and> bit (fat_flags s) 1
          then st32 (st32 (vsec sectors s n) 492 (last_used s)) 488 (free_cnt s) else vsec sectors s n)"
        if "n \<noteq> 0" for n
        using that v' d3(2) s1 s2 4 inv2 by (simp add: b_def take_st32)
      moreover have "cache_inv sectors s' \<and> \<not> bit (fat_flags s') 0 \<and> \<not> bit (fat_flags s') 1"
        using s4 True by (simp add: s'(2))
      moreover have "sectors (dsk s') n = vsec sectors s' n" if "n \<noteq> 0" for n
        using that s4 True v' by (simp add: s'(2))
      ultimately show ?thesis using s'(1) m3 s'(2) by simp
    qed
  qed
qed

section \<open>Disks that never fail\<close>

definition never_fails :: "'d DiskOps \<Rightarrow> bool" where
  "never_fails D \<longleftrightarrow> (\<forall>dv b n d. fst (op_read D dv b n d) \<and> fst (op_write D dv b n d))"

lemma sync_buf_ok: "never_fails (ops s) \<Longrightarrow> fst (sync_buf s) = 0"
proof -
  assume "never_fails (ops s)"
  then have "fst (op_write (ops s) (dev s) (fat_buf s) (fat_sect s) (dsk s))" by (simp add: never_fails_def)
  then show ?thesis
    by (cases "op_write (ops s) (dev s) (fat_buf s) (fat_sect s) (dsk s)")
      (simp add: sync_buf_def Let_def FAT_ERR_NONE_def)
qed

lemma sync_buf_ops: "ops (snd (sync_buf s)) = ops s"
  by (simp add: sync_buf_def Let_def split: prod.splits)

lemma update_buf_ok: "never_fails (ops s) \<Longrightarrow> fst (update_buf n s) = 0"
proof -
  assume nf: "never_fails (ops s)"
  obtain e1 s1 where 1: "sync_buf s = (e1, s1)" by (cases "sync_buf s")
  have "e1 = 0" "ops s1 = ops s" using sync_buf_ok [OF nf] sync_buf_ops [of s] 1 by auto
  moreover from this have "fst (op_read (ops s1) (dev s1) (fat_buf s1) n (dsk s1))"
    using nf by (simp add: never_fails_def)
  ultimately show ?thesis
    by (cases "op_read (ops s1) (dev s1) (fat_buf s1) n (dsk s1)")
      (simp add: update_buf_def 1 Let_def FAT_ERR_NONE_def)
qed

lemma update_buf_ops: "ops (snd (update_buf n s)) = ops s"
proof -
  obtain e1 s1 where 1: "sync_buf s = (e1, s1)" by (cases "sync_buf s")
  have "ops s1 = ops s" using sync_buf_ops [of s] 1 by simp
  then show ?thesis by (simp add: update_buf_def 1 Let_def split: prod.splits)
qed

lemma sync_fs_ok: "never_fails (ops s) \<Longrightarrow> fst (sync_fs s) = 0"
proof -
  assume nf: "never_fails (ops s)"
  obtain e1 s1 where 1: "sync_buf s = (e1, s1)" by (cases "sync_buf s")
  have e1: "e1 = 0" "ops s1 = ops s" using sync_buf_ok [OF nf] sync_buf_ops [of s] 1 by auto
  obtain e2 s2 where 2: "update_buf (info_sect s1) s1 = (e2, s2)" by (cases "update_buf (info_sect s1) s1")
  have e2: "e2 = 0" "ops s2 = ops s"
    using update_buf_ok [of s1 "info_sect s1"] update_buf_ops [of "info_sect s1" s1] 2 nf e1 by auto
  define s3 where "s3 = s2\<lparr>fat_flags := fat_flags s2 OR FAT_BUF_DIRTY,
        fat_buf := st32 (st32 (fat_buf s2) 492 (last_used s2)) 488 (free_cnt s2)\<rparr>"
  obtain e4 s4 where 4: "sync_buf s3 = (e4, s4)" by (cases "sync_buf s3")
  have "e4 = 0" using sync_buf_ok [of s3] nf e2 4 by (simp add: s3_def)
  then show ?thesis
    using 4 by (simp add: sync_fs_def 1 2 e1 e2 Let_def s3_def FAT_ERR_NONE_def)
qed

section \<open>A disk in memory\<close>

text \<open>The simplest disk that meets the contract; the concrete examples run on it.\<close>

definition ram_sec :: "(u32 \<Rightarrow> u8 list) \<Rightarrow> u32 \<Rightarrow> u8 list" where
  "ram_sec d n = take 512 (d n @ replicate 512 0)"

definition ram_ops :: "(u32 \<Rightarrow> u8 list) DiskOps" where
  "ram_ops = \<lparr>op_read = (\<lambda>dv b n d. (True, ram_sec d n @ drop 512 b, d)),
     op_write = (\<lambda>dv b n d. (True, d(n := take 512 b)))\<rparr>"

lemma good_ram: "good_disk ram_ops ram_sec"
  by (auto simp: good_disk_def ram_ops_def ram_sec_def)

lemma ram_never_fails: "never_fails ram_ops"
  by (simp add: never_fails_def ram_ops_def)

section \<open>Properties\<close>

text \<open>The cache is transparent: after a successful \<open>update_buf\<close> the buffer holds the current
  contents of the sector asked for, wherever they were (in the buffer, modified or not, or on the
  disk), and no sector has changed as seen through the cache; eviction never loses a modification.\<close>

theorem update_buf_coherent:
  assumes "cache_inv sectors s" and "n \<noteq> 0" and "update_buf n s = (0, s')"
  shows "fat_sect s' = n \<and> take 512 (fat_buf s') = vsec sectors s n \<and> cache_inv sectors s' \<and>
    (\<forall>m. m \<noteq> 0 \<longrightarrow> vsec sectors s' m = vsec sectors s m)"
  using update_buf_spec [OF assms] by simp

definition ram_fs :: "(u32 \<Rightarrow> u8 list) \<Rightarrow> (u32 \<Rightarrow> u8 list) fs" where
  "ram_fs d = \<lparr>fat_next = None, ops = ram_ops, clust_msk = 0, clust_cnt = 128, info_sect = 1,
     fat_sect0 = 32, fat_sect1 = 33, data_sect = 34, root_clust = 2, last_used = 3, free_cnt = 124,
     fat_sect = 0, fat_buf = replicate 514 0, fat_flags = 0, clust_shift = 0, name_len = 0,
     fat_name = [], dev = 1, dsk = d, g_buf = replicate 514 0, g_len = 0, g_crc = 0\<rparr>"

lemma cache_inv_ram: "cache_inv ram_sec (ram_fs d)"
  by (simp add: cache_inv_def ram_fs_def good_ram)

theorem update_buf_coherent_witness:
  "fat_sect (snd (update_buf 7 (ram_fs (\<lambda>n. [5, 6])))) = 7 \<and>
   take 2 (fat_buf (snd (update_buf 7 (ram_fs (\<lambda>n. [5, 6]))))) = [5, 6]"
proof -
  let ?s = "ram_fs (\<lambda>n. [5, 6])"
  have r: "update_buf 7 ?s = (0, snd (update_buf 7 ?s))"
    by (simp add: update_buf_def sync_buf_def ram_fs_def ram_ops_def Let_def FAT_ERR_NONE_def)
  from update_buf_coherent [OF cache_inv_ram _ r]
  have "fat_sect (snd (update_buf 7 ?s)) = 7"
    and b: "take 512 (fat_buf (snd (update_buf 7 ?s))) = vsec ram_sec ?s 7" by auto
  moreover have "take 2 (fat_buf (snd (update_buf 7 ?s))) = take 2 (vsec ram_sec ?s 7)"
    unfolding b [symmetric] by simp
  ultimately show ?thesis by (simp add: vsec_def ram_fs_def ram_sec_def)
qed

text \<open>C39. \<open>sync_fs\<close> makes everything durable: after success the disk itself holds, in every sector,
  what the cache showed, except that a volume with a changed free count or hint has them in its
  FsInfo sector, at the offsets of \<open>free_cnt\<close> and \<open>next_free\<close>; nothing stays dirty.\<close>

theorem sync_fs_durable:
  assumes "cache_inv sectors s" and "info_sect s \<noteq> 0" and "sync_fs s = (0, s')"
  shows "(\<forall>n. n \<noteq> 0 \<and> n \<noteq> info_sect s \<longrightarrow> sectors (dsk s') n = vsec sectors s n) \<and>
    (has (fat_flags s) FAT_INFO_DIRTY \<longrightarrow>
       ld32 (sectors (dsk s') (info_sect s)) 488 = free_cnt s \<and>
       ld32 (sectors (dsk s') (info_sect s)) 492 = last_used s) \<and>
    \<not> has (fat_flags s') FAT_BUF_DIRTY \<and> \<not> has (fat_flags s') FAT_INFO_DIRTY"
  using sync_fs_spec [OF assms] length_vsec [OF assms(1)] assms(2) by auto

theorem sync_fs_durable_witness:
  "\<exists>s'. sync_fs (ram_fs (\<lambda>n. [])\<lparr>fat_flags := 2\<rparr>) = (0, s') \<and>
    ld32 (ram_sec (dsk s') 1) 488 = 124 \<and> ld32 (ram_sec (dsk s') 1) 492 = 3"
proof -
  let ?s = "ram_fs (\<lambda>n. [])\<lparr>fat_flags := 2\<rparr>"
  have two: "(2 :: u8) = 0 OR FAT_INFO_DIRTY" by (simp add: FAT_INFO_DIRTY_def)
  have c: "cache_inv ram_sec ?s" by (simp add: cache_inv_def ram_fs_def good_ram)
  have i: "info_sect ?s \<noteq> 0" by (simp add: ram_fs_def)
  have "fst (sync_fs ?s) = 0" by (rule sync_fs_ok) (simp add: ram_fs_def ram_never_fails)
  then obtain s' where r: "sync_fs ?s = (0, s')" by (cases "sync_fs ?s") auto
  have h: "has (fat_flags ?s) FAT_INFO_DIRTY" unfolding two by (simp add: has_def FAT_INFO_DIRTY_def)
  show ?thesis
    using sync_fs_durable [OF c i r] h r by (simp add: ram_fs_def)
qed

definition bad_ops :: "(u32 \<Rightarrow> u8 list) DiskOps" where
  "bad_ops = ram_ops\<lparr>op_read := (\<lambda>dv b n d. (n = 7, if n = 7 then ram_sec d n @ drop 512 b else replicate 514 0xff, d))\<rparr>"

lemma good_bad_ops: "good_disk bad_ops ram_sec"
  using good_ram by (auto simp: good_disk_def bad_ops_def ram_ops_def)

text \<open>The other side of the cache contract: a read that fails leaves the tag of the old sector on a buffer the disk has
  overwritten, and the next \<open>update_buf\<close> of the old sector succeeds without touching the disk.
\<close>

theorem failed_read_poisons_cache:
  "\<exists>s1 s2 s3. update_buf 7 (ram_fs (\<lambda>n. [5])\<lparr>ops := bad_ops\<rparr>) = (0, s1) \<and> fat_buf s1 ! 0 = 5 \<and>
    update_buf 8 s1 = (FAT_ERR_IO, s2) \<and>
    update_buf 7 s2 = (0, s3) \<and> fat_buf s3 ! 0 = 0xff \<and> ram_sec (dsk s3) 7 ! 0 = 5"
  by (simp add: update_buf_def sync_buf_def ram_fs_def bad_ops_def ram_ops_def Let_def FAT_ERR_NONE_def
      FAT_ERR_IO_def ram_sec_def)

end
