(* ===== verification/FatTable.thy ===== *)
theory FatTable
  imports FatCache
begin

text \<open>
  The file allocation table: \<open>get_fat\<close>, \<open>put_fat\<close>, and the operations on cluster chains
  (\<open>remove_chain\<close>, \<open>stretch_chain\<close>, \<open>create_chain\<close>, \<open>clust_clear\<close>).

  The two loops over chains are written over the functions that read and write a table entry; the
  locale \<open>chain_table\<close> states what they need from them, and the theory interprets it with the
  cached, mirrored table of the code. The uninitialised locals \<open>next\<close> and \<open>flags\<close> of the
  C functions are the parameter \<open>out\<close>.
\<close>

section \<open>Table entries\<close>

definition get_fat :: "u32 \<Rightarrow> u32 \<times> u8 \<Rightarrow> 'd fs \<Rightarrow> int \<times> (u32 \<times> u8) \<times> 'd fs" where
  "get_fat clust out s =
    (let sect = fat_sect0 s + clust div 128; idx = clust mod 128 in
     chk (update_buf sect s)
       (\<lambda>s. let val = ld32 (fat_buf s) (4 * unat idx) AND 0x0fffffff in
         if val = 0 then (FAT_ERR_NONE, (val, CLUST_FREE), s)
         else if val = 0x0ffffff7 then (FAT_ERR_NONE, (val, CLUST_BAD), s)
         else if 0x0ffffff8 \<le> val then (FAT_ERR_NONE, (val, CLUST_USED OR CLUST_LAST), s)
         else if 2 \<le> val \<and> val < clust_cnt s then (FAT_ERR_NONE, (val, CLUST_USED), s)
         else (FAT_ERR_BROKEN, out, s))
       (\<lambda>err s. (err, out, s)))"

definition put_fat2 :: "u32 \<Rightarrow> u32 \<Rightarrow> u32 \<Rightarrow> 'd fs \<Rightarrow> int \<times> 'd fs" where
  "put_fat2 fsect clust val s =
    (let sect = fsect + clust div 128; idx = (ucast (clust mod 128) :: u16) in
     chk (update_buf sect s)
       (\<lambda>s. let s = s\<lparr>fat_buf := st32 (fat_buf s) (4 * unat idx)
                  ((ld32 (fat_buf s) (4 * unat idx) AND 0xf0000000) OR (val AND 0x0fffffff))\<rparr> in
         (FAT_ERR_NONE, s\<lparr>fat_flags := fat_flags s OR FAT_BUF_DIRTY\<rparr>))
       Pair)"

definition put_fat :: "u32 \<Rightarrow> u32 \<Rightarrow> 'd fs \<Rightarrow> int \<times> 'd fs" where
  "put_fat clust val s =
    (if fat_sect1 s \<noteq> 0 then
       chk (put_fat2 (fat_sect1 s) clust val s) (\<lambda>s. put_fat2 (fat_sect0 s) clust val s) Pair
     else put_fat2 (fat_sect0 s) clust val s)"

section \<open>Chains\<close>

text \<open>The loop of \<open>remove_chain\<close>; \<open>bump\<close> is \<open>fat->free_cnt++\<close>.\<close>

fun remove_loop :: "(u32 \<Rightarrow> u32 \<times> u8 \<Rightarrow> 's \<Rightarrow> int \<times> (u32 \<times> u8) \<times> 's) \<Rightarrow>
    (u32 \<Rightarrow> u32 \<Rightarrow> 's \<Rightarrow> int \<times> 's) \<Rightarrow> ('s \<Rightarrow> 's) \<Rightarrow> nat \<Rightarrow> u32 \<Rightarrow> u32 \<times> u8 \<Rightarrow> 's \<Rightarrow>
    (int \<times> 's) option" where
  "remove_loop get put bump 0 clust out s = None"
| "remove_loop get put bump (Suc fuel) clust out s =
    (case get clust out s of (err, (nxt, flags), s) \<Rightarrow>
      if err \<noteq> 0 then Some (err, s)
      else if has flags (CLUST_BAD OR CLUST_FREE) then Some (FAT_ERR_BROKEN, s)
      else (case put clust 0 s of (err, s) \<Rightarrow>
        if err \<noteq> 0 then Some (err, s)
        else (let s = bump s in
          if has flags CLUST_LAST then Some (FAT_ERR_NONE, s)
          else remove_loop get put bump fuel nxt (nxt, flags) s)))"

definition free_bump :: "'d fs \<Rightarrow> 'd fs" where
  "free_bump s = s\<lparr>free_cnt := free_cnt s + 1\<rparr>"

definition remove_chain :: "nat \<Rightarrow> u32 \<Rightarrow> u32 \<times> u8 \<Rightarrow> 'd fs \<Rightarrow> (int \<times> 'd fs) option" where
  "remove_chain fuel clust out s =
    (let s = s\<lparr>fat_flags := fat_flags s OR FAT_INFO_DIRTY\<rparr> in
     chko (remove_loop get_fat put_fat free_bump fuel clust out s)
       (\<lambda>s. Some (sync_fs s)) (\<lambda>err s. Some (err, s)))"

text \<open>
  The scan of \<open>stretch_chain\<close> for a free cluster. When \<open>get_fat\<close> fails the code returns
  \<open>flags\<close>, not \<open>err\<close>.
\<close>

fun scan_loop :: "(u32 \<Rightarrow> u32 \<times> u8 \<Rightarrow> 's \<Rightarrow> int \<times> (u32 \<times> u8) \<times> 's) \<Rightarrow> ('s \<Rightarrow> u32) \<Rightarrow> ('s \<Rightarrow> u32) \<Rightarrow>
    nat \<Rightarrow> u32 \<Rightarrow> u32 \<times> u8 \<Rightarrow> 's \<Rightarrow> (int \<times> bool \<times> u32 \<times> 's) option" where
  "scan_loop get limit stop 0 clust out s = None"
| "scan_loop get limit stop (Suc fuel) clust out s =
    (let clust = (if limit s \<le> clust + 1 then 2 else clust + 1) in
     if clust = stop s then Some (FAT_ERR_FULL, False, clust, s)
     else (case get clust out s of (err, (nxt, flags), s) \<Rightarrow>
       if err \<noteq> 0 then Some (uint flags, False, clust, s)
       else if has flags CLUST_FREE then Some (FAT_ERR_NONE, True, clust, s)
       else scan_loop get limit stop fuel clust (nxt, flags) s))"

text \<open>
  The part of \<open>stretch_chain\<close> after a free cluster has been found. The out-parameter is
  written only on the way to the final \<open>sync_fs\<close>.
\<close>

definition link_clust :: "u32 \<Rightarrow> u32 \<Rightarrow> u32 \<Rightarrow> 'd fs \<Rightarrow> int \<times> u32 \<times> 'd fs" where
  "link_clust prev clust out_clust s =
    chk (put_fat clust 0x0fffffff s)
      (\<lambda>s. chk (if prev \<noteq> 0 then put_fat prev clust s else (FAT_ERR_NONE, s))
        (\<lambda>s. let s = s\<lparr>last_used := clust\<rparr>; s = s\<lparr>free_cnt := free_cnt s - 1\<rparr> in
           case sync_fs s of (err, s) \<Rightarrow> (err, clust, s))
        (\<lambda>err s. (err, out_clust, s)))
      (\<lambda>err s. (err, out_clust, s))"

definition stretch_chain :: "nat \<Rightarrow> u32 \<Rightarrow> u32 \<times> u8 \<Rightarrow> u32 \<Rightarrow> 'd fs \<Rightarrow> (int \<times> u32 \<times> 'd fs) option" where
  "stretch_chain fuel prev out out_clust s =
    (let s = s\<lparr>fat_flags := fat_flags s OR FAT_INFO_DIRTY\<rparr>;
         scan = (\<lambda>out s. case scan_loop get_fat clust_cnt last_used fuel (last_used s) out s of
            None \<Rightarrow> None
          | Some (err, found, clust, s) \<Rightarrow>
              Some (if found then link_clust prev clust out_clust s else (err, out_clust, s))) in
     if prev \<noteq> 0 then
       (let clust = (if clust_cnt s \<le> prev + 1 then 2 else prev + 1) in
        case get_fat clust out s of (err, (nxt, flags), s) \<Rightarrow>
          if err \<noteq> 0 then Some (err, out_clust, s)
          else if has flags CLUST_FREE then Some (link_clust prev clust out_clust s)
          else scan (nxt, flags) s)
     else scan out s)"

definition create_chain :: "nat \<Rightarrow> u32 \<times> u8 \<Rightarrow> u32 \<Rightarrow> 'd fs \<Rightarrow> (int \<times> u32 \<times> 'd fs) option" where
  "create_chain fuel out out_clust s = stretch_chain fuel 0 out out_clust s"

text \<open>\<open>clust_clear\<close>: \<open>n\<close> sectors are left to write.\<close>

fun clear_loop :: "nat \<Rightarrow> u32 \<Rightarrow> 'd fs \<Rightarrow> int \<times> 'd fs" where
  "clear_loop 0 sect s = (FAT_ERR_NONE, s)"
| "clear_loop (Suc n) sect s =
    (let s = s\<lparr>fat_flags := fat_flags s OR FAT_BUF_DIRTY\<rparr>; s = s\<lparr>fat_sect := sect\<rparr> in
     chk (sync_buf s) (\<lambda>s. clear_loop n (sect + 1) s) Pair)"

definition clust_clear :: "u32 \<Rightarrow> 'd fs \<Rightarrow> int \<times> 'd fs" where
  "clust_clear clust s =
    chk (sync_buf s)
      (\<lambda>s. let sect = clust_to_sect s clust;
               s = s\<lparr>fat_buf := blit (fat_buf s) 0 (replicate 512 0)\<rparr> in
         clear_loop (2 ^ unat (clust_shift s)) sect s)
      Pair"

section \<open>The abstract table\<close>

text \<open>How \<open>get_fat\<close> classifies an entry; \<^term>\<open>None\<close> is a broken table.\<close>

definition clust_class :: "u32 \<Rightarrow> u32 \<Rightarrow> u8 option" where
  "clust_class limit val =
    (if val = 0 then Some CLUST_FREE
     else if val = 0x0ffffff7 then Some CLUST_BAD
     else if 0x0ffffff8 \<le> val then Some (CLUST_USED OR CLUST_LAST)
     else if 2 \<le> val \<and> val < limit then Some CLUST_USED
     else None)"

lemma class_flags [simp]:
  "has CLUST_FREE (CLUST_BAD OR CLUST_FREE)" "has CLUST_BAD (CLUST_BAD OR CLUST_FREE)"
  "\<not> has CLUST_USED (CLUST_BAD OR CLUST_FREE)" "\<not> has (CLUST_USED OR CLUST_LAST) (CLUST_BAD OR CLUST_FREE)"
  "has (CLUST_USED OR CLUST_LAST) CLUST_LAST" "\<not> has CLUST_USED CLUST_LAST"
  "has CLUST_FREE CLUST_FREE" "\<not> has CLUST_USED CLUST_FREE" "\<not> has CLUST_BAD CLUST_FREE"
  "\<not> has (CLUST_USED OR CLUST_LAST) CLUST_FREE"
  by (simp_all add: has_def clust_defs)

text \<open>\<open>is_chain e limit cs\<close>: the clusters \<open>cs\<close> are linked by the table \<open>e\<close> and end in an EOC mark.\<close>

fun is_chain :: "(u32 \<Rightarrow> u32) \<Rightarrow> u32 \<Rightarrow> u32 list \<Rightarrow> bool" where
  "is_chain e limit [] = False"
| "is_chain e limit [c] = (c < limit \<and> 0x0ffffff8 \<le> e c)"
| "is_chain e limit (c # d # cs) =
    (c < limit \<and> e c = d \<and> clust_class limit d = Some CLUST_USED \<and> is_chain e limit (d # cs))"

lemma class_used: "clust_class limit val = Some CLUST_USED \<longleftrightarrow> 2 \<le> val \<and> val < limit \<and> val < 0x0ffffff7"
proof -
  have "val < 0x0ffffff7 \<longleftrightarrow> \<not> (val = 0x0ffffff7 \<or> 0x0ffffff8 \<le> val)"
    by (auto simp: word_less_nat_alt word_le_nat_alt word_unat_eq_iff)
  then show ?thesis
    by (auto simp: clust_class_def clust_defs)
qed

lemma is_chain_bounds: "is_chain e limit cs \<Longrightarrow> c \<in> set cs \<Longrightarrow> c < limit \<and> e c \<noteq> 0"
  by (induction e limit cs rule: is_chain.induct) (auto simp: class_used)


lemma is_chain_cong:
  "(\<And>c. c \<in> set cs \<Longrightarrow> e c = e' c) \<Longrightarrow> is_chain e limit cs = is_chain e' limit cs"
  by (induction e limit cs rule: is_chain.induct) auto

lemma is_chain_suffix: "is_chain e limit (xs @ ys) \<Longrightarrow> ys \<noteq> [] \<Longrightarrow> is_chain e limit ys"
proof (induction xs)
  case (Cons x xs)
  then show ?case by (cases "xs @ ys") auto
qed simp

lemma is_chain_unique: "is_chain e limit (c # xs) \<Longrightarrow> is_chain e limit (c # ys) \<Longrightarrow> xs = ys"
proof (induction xs arbitrary: c ys)
  case Nil
  then show ?case by (cases ys) (auto simp: class_used word_less_nat_alt word_le_nat_alt)
next
  case (Cons x xs)
  then show ?case by (cases ys) (auto simp: class_used word_less_nat_alt word_le_nat_alt)
qed

lemma is_chain_distinct: "is_chain e limit cs \<Longrightarrow> distinct cs"
proof (induction cs)
  case (Cons c cs)
  have "c \<notin> set cs"
  proof
    assume "c \<in> set cs"
    then obtain xs ys where cs: "cs = xs @ c # ys" by (auto simp: in_set_conv_decomp)
    then have "is_chain e limit (c # ys)"
      using Cons.prems is_chain_suffix [of e limit "c # xs" "c # ys"] by simp
    then have "ys = cs" using Cons.prems is_chain_unique by blast
    then show False using cs by simp
  qed
  moreover have "distinct cs"
    using Cons is_chain_suffix [of e limit "[c]" cs] by (cases cs) auto
  ultimately show ?case by simp
qed simp

section \<open>What the chain operations need from a table\<close>

locale chain_table =
  fixes get :: "u32 \<Rightarrow> u32 \<times> u8 \<Rightarrow> 's \<Rightarrow> int \<times> (u32 \<times> u8) \<times> 's"
    and put :: "u32 \<Rightarrow> u32 \<Rightarrow> 's \<Rightarrow> int \<times> 's"
    and bump :: "'s \<Rightarrow> 's"
    and entry :: "'s \<Rightarrow> u32 \<Rightarrow> u32"
    and limit :: "'s \<Rightarrow> u32"
    and stop :: "'s \<Rightarrow> u32"
    and free :: "'s \<Rightarrow> u32"
    and inv :: "'s \<Rightarrow> bool"
  assumes get_ok: "inv s \<Longrightarrow> c < limit s \<Longrightarrow> get c out s = (0, (n, f), s') \<Longrightarrow>
      inv s' \<and> limit s' = limit s \<and> stop s' = stop s \<and> free s' = free s \<and> n = entry s c \<and>
      clust_class (limit s) n = Some f \<and> (\<forall>d. d < limit s \<longrightarrow> entry s' d = entry s d)"
    and put_ok: "inv s \<Longrightarrow> c < limit s \<Longrightarrow> put c v s = (0, s') \<Longrightarrow>
      inv s' \<and> limit s' = limit s \<and> stop s' = stop s \<and> free s' = free s \<and>
      (\<forall>d. d < limit s \<longrightarrow> entry s' d = (if d = c then v AND 0x0fffffff else entry s d))"
    and bump_ok: "inv s \<Longrightarrow> inv (bump s) \<and> limit (bump s) = limit s \<and> stop (bump s) = stop s \<and>
      free (bump s) = free s + 1 \<and> entry (bump s) = entry s"
begin

text \<open>Whatever the table holds, the loop of \<open>remove_chain\<close> ends: each turn frees a used entry.\<close>

lemma remove_loop_total:
  "inv s \<Longrightarrow> c < limit s \<Longrightarrow> card {d. d < limit s \<and> entry s d \<noteq> 0} < fuel \<Longrightarrow>
    \<exists>e s'. remove_loop get put bump fuel c out s = Some (e, s')"
proof (induction fuel arbitrary: c out s)
  case 0
  then show ?case by simp
next
  case (Suc fuel)
  obtain e n f s1 where 1: "get c out s = (e, (n, f), s1)" by (metis surj_pair)
  obtain e2 s2 where 2: "put c 0 s1 = (e2, s2)" by (metis surj_pair)
  show ?case
  proof (cases "e = 0 \<and> \<not> has f (CLUST_BAD OR CLUST_FREE) \<and> e2 = 0 \<and> \<not> has f CLUST_LAST")
    case False
    then show ?thesis by (auto simp: 1 2 Let_def)
  next
    case True
    note g = get_ok [OF Suc.prems(1,2), of out n f s1]
    have g': "inv s1" "limit s1 = limit s" "n = entry s c" "clust_class (limit s) n = Some f"
      "\<And>d. d < limit s \<Longrightarrow> entry s1 d = entry s d" using g 1 True by auto
    note p = put_ok [OF g'(1), of c 0 s2]
    have p': "inv s2" "limit s2 = limit s"
      "\<And>d. d < limit s \<Longrightarrow> entry s2 d = (if d = c then 0 else entry s d)"
      using p 2 True g' Suc.prems(2) by auto
    have n: "n < limit s" and nz: "n \<noteq> 0"
      using g'(4) True by (auto simp: clust_class_def split: if_splits)
    have "{d. d < limit s \<and> entry s2 d \<noteq> 0} \<subset> {d. d < limit s \<and> entry s d \<noteq> 0}"
    proof
      show "{d. d < limit s \<and> entry s2 d \<noteq> 0} \<subseteq> {d. d < limit s \<and> entry s d \<noteq> 0}"
        by (auto simp: p'(3) split: if_splits)
      have "c \<in> {d. d < limit s \<and> entry s d \<noteq> 0}" using Suc.prems(2) g'(3) nz by simp
      moreover have "c \<notin> {d. d < limit s \<and> entry s2 d \<noteq> 0}" using p'(3) [of c] by auto
      ultimately show "{d. d < limit s \<and> entry s2 d \<noteq> 0} \<noteq> {d. d < limit s \<and> entry s d \<noteq> 0}" by blast
    qed
    then have "card {d. d < limit s \<and> entry s2 d \<noteq> 0} < card {d. d < limit s \<and> entry s d \<noteq> 0}"
      by (intro psubset_card_mono) auto
    moreover have b: "inv (bump s2)" "limit (bump s2) = limit s" "entry (bump s2) = entry s2"
      using bump_ok [OF p'(1)] p'(2) by simp_all
    ultimately have "card {d. d < limit (bump s2) \<and> entry (bump s2) d \<noteq> 0} < fuel"
      using Suc.prems(3) by simp
    from Suc.IH [OF b(1) _ this, of n "(n, f)"] n b(2)
    have "\<exists>e s'. remove_loop get put bump fuel n (n, f) (bump s2) = Some (e, s')" by simp
    then show ?thesis using True by (simp add: 1 2 Let_def)
  qed
qed

lemma remove_loop_chain:
  "inv s \<Longrightarrow> is_chain (entry s) (limit s) (c # cs) \<Longrightarrow>
    remove_loop get put bump fuel c out s = Some (0, s') \<Longrightarrow>
    inv s' \<and> limit s' = limit s \<and> stop s' = stop s \<and> free s' = free s + of_nat (length (c # cs)) \<and>
    (\<forall>d. d < limit s \<longrightarrow> entry s' d = (if d \<in> set (c # cs) then 0 else entry s d))"
proof (induction fuel arbitrary: c cs out s)
  case 0
  then show ?case by simp
next
  case (Suc fuel)
  obtain e n f s1 where 1: "get c out s = (e, (n, f), s1)" by (metis surj_pair)
  obtain e2 s2 where 2: "put c 0 s1 = (e2, s2)" by (metis surj_pair)
  have c: "c < limit s" using is_chain_bounds [OF Suc.prems(2)] by simp
  have e: "e = 0" using Suc.prems(3) 1 by (auto split: if_splits)
  have g: "inv s1" "limit s1 = limit s" "stop s1 = stop s" "free s1 = free s" "n = entry s c"
      "clust_class (limit s) n = Some f" "\<And>d. d < limit s \<Longrightarrow> entry s1 d = entry s d"
    using get_ok [OF Suc.prems(1) c 1 [unfolded e]] by auto
  have f: "\<not> has f (CLUST_BAD OR CLUST_FREE)" and e2: "e2 = 0"
    using Suc.prems(3) by (auto simp: 1 2 e FAT_ERR_BROKEN_def split: if_splits)
  have p: "inv s2" "limit s2 = limit s" "stop s2 = stop s" "free s2 = free s"
      "\<And>d. d < limit s \<Longrightarrow> entry s2 d = (if d = c then 0 else entry s d)"
    using put_ok [OF g(1) _ 2 [unfolded e2]] g c by auto
  note b = bump_ok [OF p(1)]
  show ?case
  proof (cases cs)
    case Nil
    then have "has f CLUST_LAST"
      using Suc.prems(2) g(5,6) by (auto simp: clust_class_def word_le_nat_alt split: if_splits)
    then have "s' = bump s2" using Suc.prems(3) f by (simp add: 1 2 e e2 Let_def)
    then show ?thesis using b p Nil by auto
  next
    case (Cons d ds)
    then have nd: "n = d" and "f = CLUST_USED" and ch: "is_chain (entry s) (limit s) (d # ds)"
      using Suc.prems(2) g(5,6) by auto
    then have r: "remove_loop get put bump fuel d (n, f) (bump s2) = Some (0, s')"
      using Suc.prems(3) f by (simp add: 1 2 e e2 Let_def)
    have "is_chain (entry (bump s2)) (limit (bump s2)) (d # ds)"
    proof -
      have "is_chain (entry s2) (limit s) (d # ds)"
        using ch is_chain_distinct [OF Suc.prems(2)] p(5) is_chain_bounds [OF ch] Cons
        by (subst is_chain_cong [of _ _ "entry s"]) auto
      then show ?thesis using b p by simp
    qed
    from Suc.IH [OF _ this r] b p Cons show ?thesis by auto
  qed
qed

text \<open>
  The scan visits the clusters cyclically and stops at \<open>stop\<close>; \<open>ahead\<close> is the number of steps
  left, so that it ends whatever the table holds, provided \<open>stop\<close> is a data cluster.
\<close>

definition ahead :: "'s \<Rightarrow> u32 \<Rightarrow> nat" where
  "ahead s c = (if c < stop s then unat (stop s) - unat c
     else (unat (limit s) - unat c) + (unat (stop s) - 2))"

definition nxt_clust :: "'s \<Rightarrow> u32 \<Rightarrow> u32" where
  "nxt_clust s c = (if limit s \<le> c + 1 then 2 else c + 1)"

lemma nxt_clust_unat:
  assumes "c < limit s" "2 \<le> stop s" "stop s < limit s"
  shows "unat (nxt_clust s c) = (if unat (limit s) \<le> unat c + 1 then 2 else unat c + 1)"
    "2 \<le> unat c \<or> c \<noteq> 0 \<Longrightarrow> 2 \<le> nxt_clust s c" "nxt_clust s c < limit s"
proof -
  have "unat (c + 1) = unat c + 1"
  proof -
    have "unat c + 1 < 2 ^ 32"
    proof -
      have "unat (limit s) < 2 ^ LENGTH(32)" by (rule unsigned_less)
      then show ?thesis using assms(1) by (simp add: word_less_nat_alt)
    qed
    then show ?thesis by (simp add: unat_word_ariths)
  qed
  then show u: "unat (nxt_clust s c) = (if unat (limit s) \<le> unat c + 1 then 2 else unat c + 1)"
    by (simp add: nxt_clust_def word_le_nat_alt)
  show "2 \<le> unat c \<or> c \<noteq> 0 \<Longrightarrow> 2 \<le> nxt_clust s c"
    using u by (auto simp: word_le_nat_alt unat_eq_zero [symmetric] simp del: unat_eq_zero split: if_splits)
  show "nxt_clust s c < limit s"
    using u assms by (auto simp: word_less_nat_alt word_le_nat_alt split: if_splits)
qed

lemma scan_loop_Suc:
  "scan_loop get limit stop (Suc fuel) c out s =
    (if nxt_clust s c = stop s then Some (FAT_ERR_FULL, False, nxt_clust s c, s)
     else (case get (nxt_clust s c) out s of (err, (n, f), s') \<Rightarrow>
       if err \<noteq> 0 then Some (uint f, False, nxt_clust s c, s')
       else if has f CLUST_FREE then Some (0, True, nxt_clust s c, s')
       else scan_loop get limit stop fuel (nxt_clust s c) (n, f) s'))"
  by (simp only: scan_loop.simps nxt_clust_def Let_def FAT_ERR_NONE_def)

lemma ahead_nxt:
  assumes "c < limit s" "2 \<le> stop s" "stop s < limit s" "nxt_clust s c \<noteq> stop s"
  shows "Suc (ahead s (nxt_clust s c)) = ahead s c"
proof -
  have "unat (nxt_clust s c) \<noteq> unat (stop s)" using assms(4) by (simp add: word_unat_eq_iff)
  then show ?thesis
    using assms(1-3) nxt_clust_unat(1) [OF assms(1-3)]
    by (auto simp: ahead_def word_less_nat_alt word_le_nat_alt split: if_splits)
qed

lemma scan_loop_total:
  "inv s \<Longrightarrow> c < limit s \<Longrightarrow> 2 \<le> stop s \<Longrightarrow> stop s < limit s \<Longrightarrow> ahead s c \<le> fuel \<Longrightarrow> 0 < fuel \<Longrightarrow>
    \<exists>r. scan_loop get limit stop fuel c out s = Some r"
proof (induction fuel arbitrary: c out s)
  case (Suc fuel)
  let ?c = "nxt_clust s c"
  obtain e n f s1 where 1: "get ?c out s = (e, (n, f), s1)" by (metis surj_pair)
  show ?case
  proof (cases "?c \<noteq> stop s \<and> e = 0 \<and> \<not> has f CLUST_FREE")
    case False
    then show ?thesis by (auto simp: scan_loop_Suc 1 simp del: scan_loop.simps)
  next
    case True
    have c: "?c < limit s" using nxt_clust_unat(3) Suc.prems by blast
    have g: "inv s1" "limit s1 = limit s" "stop s1 = stop s"
      using get_ok [OF Suc.prems(1) c, of out n f s1] 1 True by auto
    have a: "ahead s1 ?c \<le> fuel"
    proof -
      have "ahead s1 ?c = ahead s ?c" by (simp add: ahead_def g)
      then show ?thesis using ahead_nxt [OF Suc.prems(2-4)] True Suc.prems(5) by simp
    qed
    have "0 < ahead s1 ?c" using c g by (auto simp: ahead_def word_less_nat_alt)
    with a have "0 < fuel" by simp
    then obtain r where "scan_loop get limit stop fuel ?c (n, f) s1 = Some r"
      using Suc.IH [of s1 ?c "(n, f)"] g c a Suc.prems by auto
    then show ?thesis using True by (cases r) (simp add: scan_loop_Suc 1 del: scan_loop.simps)
  qed
qed simp

text \<open>What the scan finds: a free data cluster, or, with \<open>FAT_ERR_FULL\<close>, none but \<open>stop\<close>.\<close>

definition between :: "'s \<Rightarrow> u32 \<Rightarrow> u32 \<Rightarrow> bool" where
  "between s c d \<longleftrightarrow> (if c < stop s then c < d \<and> d < stop s else (c < d \<and> d < limit s) \<or> (2 \<le> d \<and> d < stop s))"

lemma between_nxt:
  assumes "c < limit s" "2 \<le> stop s" "stop s < limit s" "nxt_clust s c \<noteq> stop s" "between s c d"
  shows "d = nxt_clust s c \<or> between s (nxt_clust s c) d"
proof -
  have "unat (nxt_clust s c) \<noteq> unat (stop s)" using assms(4) by (simp add: word_unat_eq_iff)
  then show ?thesis
    using assms(1-3,5) nxt_clust_unat(1) [OF assms(1-3)]
    by (auto simp: between_def word_less_nat_alt word_le_nat_alt word_unat_eq_iff split: if_splits)
qed

lemma between_stop:
  assumes "c < limit s" "2 \<le> stop s" "stop s < limit s" "nxt_clust s c = stop s"
  shows "\<not> between s c d"
proof -
  have "unat (nxt_clust s c) = unat (stop s)" using assms(4) by simp
  then show ?thesis
    using assms(1-3) nxt_clust_unat(1) [OF assms(1-3)]
    by (auto simp: between_def word_less_nat_alt word_le_nat_alt word_unat_eq_iff split: if_splits)
qed

lemma scan_loop_result:
  "inv s \<Longrightarrow> c < limit s \<Longrightarrow> 2 \<le> stop s \<Longrightarrow> stop s < limit s \<Longrightarrow> c \<noteq> 0 \<Longrightarrow>
    scan_loop get limit stop fuel c out s = Some (e, found, n, s') \<Longrightarrow>
    (found \<longrightarrow> e = 0 \<and> inv s' \<and> limit s' = limit s \<and> stop s' = stop s \<and> free s' = free s \<and>
      2 \<le> n \<and> n < limit s \<and> n \<noteq> stop s \<and> entry s n = 0 \<and> (\<forall>d. d < limit s \<longrightarrow> entry s' d = entry s d)) \<and>
    (e = FAT_ERR_FULL \<longrightarrow> \<not> found \<and> (\<forall>d. between s c d \<longrightarrow> entry s d \<noteq> 0))"
proof (induction fuel arbitrary: c out s)
  case (Suc fuel)
  let ?c = "nxt_clust s c"
  obtain e1 n1 f s1 where 1: "get ?c out s = (e1, (n1, f), s1)" by (metis surj_pair)
  have c: "?c < limit s" "2 \<le> ?c" using nxt_clust_unat(2,3) Suc.prems by blast+
  show ?case
  proof (cases "?c = stop s")
    case True
    then show ?thesis
      using Suc.prems(6) between_stop [OF Suc.prems(2-4) True]
      by (auto simp: scan_loop_Suc FAT_ERR_FULL_def simp del: scan_loop.simps)
  next
    case ne: False
    show ?thesis
    proof (cases "e1 = 0")
      case False
      have "uint f \<noteq> FAT_ERR_FULL" proof -
        have "0 \<le> uint f" by simp
        then show ?thesis unfolding FAT_ERR_FULL_def by linarith
      qed
      then show ?thesis
        using Suc.prems(6) ne False by (auto simp: scan_loop_Suc 1 simp del: scan_loop.simps)
    next
      case True
      have g: "inv s1" "limit s1 = limit s" "stop s1 = stop s" "free s1 = free s" "n1 = entry s ?c"
          "clust_class (limit s) n1 = Some f" "\<And>d. d < limit s \<Longrightarrow> entry s1 d = entry s d"
        using get_ok [OF Suc.prems(1) c(1) 1 [unfolded True]] by auto
      show ?thesis
      proof (cases "has f CLUST_FREE")
        case free: True
        then have "entry s ?c = 0"
          using g(5,6) by (auto simp: clust_class_def split: if_splits)
        then show ?thesis
          using Suc.prems(6) ne True free g c
          by (auto simp: scan_loop_Suc 1 FAT_ERR_FULL_def simp del: scan_loop.simps)
      next
        case nofree: False
        then have nz: "entry s ?c \<noteq> 0"
          using g(5,6) by (auto simp: clust_class_def)
        have r: "scan_loop get limit stop fuel ?c (n1, f) s1 = Some (e, found, n, s')"
          using Suc.prems(6) ne True nofree by (simp add: scan_loop_Suc 1 del: scan_loop.simps)
        have "?c \<noteq> 0" using c(2) by auto
        note IH = Suc.IH [OF g(1) _ _ _ this r]
        have b: "between s1 ?c d = between s ?c d" for d by (simp add: between_def g)
        have "entry s d \<noteq> 0" if "e = FAT_ERR_FULL" "between s c d" for d
        proof (cases "d = ?c")
          case False
          then have bd: "between s ?c d" using between_nxt [OF Suc.prems(2-4) ne that(2)] by simp
          then have "d < limit s" using Suc.prems(4) by (auto simp: between_def split: if_splits)
          then show ?thesis using IH that(1) bd b g c Suc.prems(3,4) by auto
        qed (use nz in simp)
        then show ?thesis using IH g c Suc.prems(3,4) by auto
      qed
    qed
  qed
qed simp

end


section \<open>The cached, mirrored table of the code\<close>

definition fat_len :: "'d fs \<Rightarrow> nat" where
  "fat_len s = (unat (clust_cnt s) + 127) div 128"

text \<open>
  A sane geometry: no sector number of a table wraps around, sector 0 belongs to none, the two
  copies do not overlap each other or the FsInfo sector.
\<close>

definition in_area :: "u32 \<Rightarrow> nat \<Rightarrow> u32 \<Rightarrow> bool" where
  "in_area base n sect \<longleftrightarrow> unat base \<le> unat sect \<and> unat sect < unat base + n"

definition geom :: "'d fs \<Rightarrow> bool" where
  "geom s \<longleftrightarrow> fat_sect0 s \<noteq> 0 \<and> unat (fat_sect0 s) + fat_len s \<le> 2 ^ 32 \<and>
     info_sect s \<noteq> 0 \<and> \<not> in_area (fat_sect0 s) (fat_len s) (info_sect s) \<and>
     (fat_sect1 s \<noteq> 0 \<longrightarrow> unat (fat_sect1 s) + fat_len s \<le> 2 ^ 32 \<and>
       \<not> in_area (fat_sect1 s) (fat_len s) (info_sect s) \<and>
       (unat (fat_sect0 s) + fat_len s \<le> unat (fat_sect1 s) \<or>
        unat (fat_sect1 s) + fat_len s \<le> unat (fat_sect0 s)))"

definition table_inv :: "('d \<Rightarrow> u32 \<Rightarrow> u8 list) \<Rightarrow> 'd fs \<Rightarrow> bool" where
  "table_inv sectors s \<longleftrightarrow> cache_inv sectors s \<and> geom s"

text \<open>The raw entry of a cluster in the copy that starts at sector \<open>base\<close>, and its 28 bits in use.\<close>

definition entry_at :: "('d \<Rightarrow> u32 \<Rightarrow> u8 list) \<Rightarrow> 'd fs \<Rightarrow> u32 \<Rightarrow> u32 \<Rightarrow> u32" where
  "entry_at sectors s base c = ld32 (vsec sectors s (base + c div 128)) (4 * unat (c mod 128))"

definition fat_entry :: "('d \<Rightarrow> u32 \<Rightarrow> u8 list) \<Rightarrow> 'd fs \<Rightarrow> u32 \<Rightarrow> u32" where
  "fat_entry sectors s c = entry_at sectors s (fat_sect0 s) c AND 0x0fffffff"

lemma geom_meta: "meta s s' \<Longrightarrow> geom s' = geom s"
  by (simp add: geom_def fat_len_def meta_simps)

lemma fat_sector:
  assumes "c < clust_cnt s" "unat base + fat_len s \<le> 2 ^ 32"
  shows "unat (base + c div 128) = unat base + unat c div 128"
    "in_area base (fat_len s) (base + c div 128)" "base \<noteq> 0 \<Longrightarrow> base + c div 128 \<noteq> 0"
proof -
  have d: "unat (c div 128) = unat c div 128" by (simp add: unat_div)
  have l: "unat c div 128 < fat_len s" using assms(1) by (simp add: fat_len_def word_less_nat_alt)
  have "unat base + unat (c div 128) < 2 ^ LENGTH(32)" using l d assms(2) by simp
  then have "unat (base + c div 128) = unat base + unat (c div 128)" by (simp only: unat_add_lem)
  then show u: "unat (base + c div 128) = unat base + unat c div 128" using d by simp
  show "in_area base (fat_len s) (base + c div 128)" using u l by (simp add: in_area_def)
  show "base + c div 128 \<noteq> 0" if "base \<noteq> 0"
  proof
    assume "base + c div 128 = 0"
    then have "unat base + unat c div 128 = 0" using u by simp
    then show False using that word_unat_eq_iff [of base 0] by simp
  qed
qed

lemma entry_index: "4 * unat ((c :: u32) mod 128) + 3 < 512"
proof -
  have "unat (c mod 128) = unat c mod 128" by (simp add: unat_mod)
  then show ?thesis using mod_less_divisor [of 128 "unat c"] by linarith
qed

lemma entry_index16: "unat (ucast ((c :: u32) mod 128) :: u16) = unat (c mod 128)"
proof -
  have "unat (c mod 128) = unat c mod 128" by (simp add: unat_mod)
  then show ?thesis by (simp add: unsigned_ucast_eq take_bit_nat_eq_self)
qed

lemma ld32_take: "i + 3 < n \<Longrightarrow> ld32 (take n b) i = ld32 b i"
  by (simp add: ld32_def)

lemma get_fat_spec:
  assumes inv: "table_inv sectors s" and c: "c < clust_cnt s" and r: "get_fat c out s = (e, (n, f), s')"
  shows "meta s s' \<and> (bit (fat_flags s') 1 \<longleftrightarrow> bit (fat_flags s) 1) \<and> e \<in> {0, FAT_ERR_IO, FAT_ERR_BROKEN} \<and>
    (e \<noteq> 0 \<longrightarrow> (n, f) = out) \<and>
    (e \<noteq> FAT_ERR_IO \<longrightarrow> table_inv sectors s' \<and> (\<forall>m. m \<noteq> 0 \<longrightarrow> vsec sectors s' m = vsec sectors s m)) \<and>
    (e = 0 \<longrightarrow> n = fat_entry sectors s c \<and> clust_class (clust_cnt s) n = Some f) \<and>
    (e = FAT_ERR_BROKEN \<longrightarrow> clust_class (clust_cnt s) (fat_entry sectors s c) = None)"
proof -
  let ?sect = "fat_sect0 s + c div 128"
  have g: "cache_inv sectors s" "geom s" using inv by (auto simp: table_inv_def)
  have nz: "?sect \<noteq> 0" using fat_sector(3) [OF c] g(2) by (simp add: geom_def)
  obtain e1 s1 where 1: "update_buf ?sect s = (e1, s1)" by (cases "update_buf ?sect s")
  have s1: "e1 \<in> {0, FAT_ERR_IO}" "meta s s1" "bit (fat_flags s1) 1 \<longleftrightarrow> bit (fat_flags s) 1"
    "e1 = 0 \<Longrightarrow> cache_inv sectors s1 \<and> take 512 (fat_buf s1) = vsec sectors s ?sect \<and>
      (\<forall>m. m \<noteq> 0 \<longrightarrow> vsec sectors s1 m = vsec sectors s m)"
    using update_buf_spec [OF g(1) nz 1] by auto
  show ?thesis
  proof (cases "e1 = 0")
    case False
    then show ?thesis
      using r s1 by (auto simp: get_fat_def 1 FAT_ERR_IO_def FAT_ERR_BROKEN_def)
  next
    case True
    have v: "ld32 (fat_buf s1) (4 * unat (c mod 128)) AND 0x0fffffff = fat_entry sectors s c"
      using s1(4) [OF True] ld32_take [OF entry_index, of "fat_buf s1" c]
      by (simp add: fat_entry_def entry_at_def)
    have cc: "clust_cnt s1 = clust_cnt s" using meta_simps(3) [OF s1(2)] .
    have "get_fat c out s = (case clust_class (clust_cnt s) (fat_entry sectors s c) of
        None \<Rightarrow> (FAT_ERR_BROKEN, out, s1) | Some f \<Rightarrow> (0, (fat_entry sectors s c, f), s1))"
      by (simp add: get_fat_def 1 True v cc Let_def clust_class_def FAT_ERR_NONE_def)
    then show ?thesis
      using r s1 True g(2) geom_meta [OF s1(2)]
      by (auto simp: table_inv_def FAT_ERR_BROKEN_def FAT_ERR_IO_def split: option.splits)
  qed
qed

lemma put_fat2_spec:
  assumes inv: "cache_inv sectors s" and nz: "base + c div 128 \<noteq> 0" and r: "put_fat2 base c v s = (e, s')"
  shows "meta s s' \<and> (bit (fat_flags s') 1 \<longleftrightarrow> bit (fat_flags s) 1) \<and> e \<in> {0, FAT_ERR_IO} \<and>
    (e = 0 \<longrightarrow> cache_inv sectors s' \<and> (\<forall>m. m \<noteq> 0 \<longrightarrow> vsec sectors s' m =
      (if m = base + c div 128
       then st32 (vsec sectors s m) (4 * unat (c mod 128))
         ((entry_at sectors s base c AND 0xf0000000) OR (v AND 0x0fffffff))
       else vsec sectors s m)))"
proof -
  let ?sect = "base + c div 128" and ?i = "4 * unat (c mod 128)"
  obtain e1 s1 where 1: "update_buf ?sect s = (e1, s1)" by (cases "update_buf ?sect s")
  have s1: "e1 \<in> {0, FAT_ERR_IO}" "meta s s1" "bit (fat_flags s1) 1 \<longleftrightarrow> bit (fat_flags s) 1"
    "e1 = 0 \<Longrightarrow> cache_inv sectors s1 \<and> take 512 (fat_buf s1) = vsec sectors s ?sect \<and>
      fat_sect s1 = ?sect \<and> length (fat_buf s1) = 514 \<and>
      (\<forall>m. m \<noteq> 0 \<longrightarrow> vsec sectors s1 m = vsec sectors s m)"
    using update_buf_spec [OF inv nz 1] by auto
  show ?thesis
  proof (cases "e1 = 0")
    case False
    then show ?thesis using r s1 by (auto simp: put_fat2_def 1)
  next
    case True
    note t = s1(4) [OF True]
    define w where "w = (entry_at sectors s base c AND 0xf0000000) OR (v AND 0x0fffffff)"
    have v: "ld32 (fat_buf s1) ?i = entry_at sectors s base c"
      using t ld32_take [OF entry_index, of "fat_buf s1" c] by (simp add: entry_at_def)
    have s': "e = 0" "s' = s1\<lparr>fat_buf := st32 (fat_buf s1) ?i w, fat_flags := fat_flags s1 OR FAT_BUF_DIRTY\<rparr>"
      using r by (simp_all add: put_fat2_def 1 True Let_def entry_index16 v w_def FAT_ERR_NONE_def)
    have d: "cache_inv sectors s'" "vsec sectors s' m = (if m = ?sect then take 512 (fat_buf s') else vsec sectors s1 m)" for m
      using dirty_spec [of sectors s1 s'] t by (simp_all add: s'(2))
    have "vsec sectors s' m = (if m = ?sect then st32 (vsec sectors s m) ?i w else vsec sectors s m)"
      if "m \<noteq> 0" for m
      using that d(2) t by (simp add: s'(2) take_st32)
    then show ?thesis using s'(1) s1 d(1) by (simp add: s'(2) w_def)
  qed
qed


definition in_fats :: "'d fs \<Rightarrow> u32 \<Rightarrow> bool" where
  "in_fats s m \<longleftrightarrow> in_area (fat_sect0 s) (fat_len s) m \<or>
     (fat_sect1 s \<noteq> 0 \<and> in_area (fat_sect1 s) (fat_len s) m)"

definition merge28 :: "u32 \<Rightarrow> u32 \<Rightarrow> u32" where
  "merge28 old val = (old AND 0xf0000000) OR (val AND 0x0fffffff)"

lemma merge28_low [simp]: "merge28 old val AND 0x0fffffff = val AND 0x0fffffff"
  by (simp add: merge28_def bit.conj_disj_distrib2 and.assoc)

lemma merge28_high [simp]: "merge28 old val AND 0xf0000000 = old AND 0xf0000000"
  by (simp add: merge28_def bit.conj_disj_distrib2 and.assoc)

lemma cluster_split: "c div 128 = d div 128 \<Longrightarrow> c mod 128 = d mod 128 \<Longrightarrow> c = (d :: u32)"
  by (metis div_mult_mod_eq)

lemma entry_at_put:
  assumes len: "length (vsec sectors s (base + c div 128)) = 512"
    and v: "vsec sectors s' (base + d div 128) = (if base + d div 128 = base + c div 128
       then st32 (vsec sectors s (base + d div 128)) (4 * unat (c mod 128)) w
       else vsec sectors s (base + d div 128))"
  shows "entry_at sectors s' base d = (if d = c then w else entry_at sectors s base d)"
proof -
  consider "d = c" | "d div 128 \<noteq> c div 128" | "d div 128 = c div 128" "d mod 128 \<noteq> c mod 128"
    using cluster_split by blast
  then show ?thesis
  proof cases
    case 1
    then show ?thesis using v len entry_index [of c] by (simp add: entry_at_def)
  next
    case 2
    then show ?thesis using v by (auto simp: entry_at_def)
  next
    case 3
    then have "unat (d mod 128) \<noteq> unat (c mod 128)" by (simp add: word_unat_eq_iff)
    then have "4 * unat (d mod 128) + 3 < 4 * unat (c mod 128) \<or> 4 * unat (c mod 128) + 3 < 4 * unat (d mod 128)"
      by linarith
    then show ?thesis using 3 v by (auto simp: entry_at_def)
  qed
qed

lemma put_fat_spec:
  assumes inv: "table_inv sectors s" and c: "c < clust_cnt s" and r: "put_fat c v s = (e, s')"
  shows "meta s s' \<and> (bit (fat_flags s') 1 \<longleftrightarrow> bit (fat_flags s) 1) \<and> e \<in> {0, FAT_ERR_IO} \<and>
    (e = 0 \<longrightarrow> table_inv sectors s' \<and>
      (\<forall>m. m \<noteq> 0 \<and> \<not> in_fats s m \<longrightarrow> vsec sectors s' m = vsec sectors s m) \<and>
      (\<forall>base d. d < clust_cnt s \<and> (base = fat_sect0 s \<or> fat_sect1 s \<noteq> 0 \<and> base = fat_sect1 s) \<longrightarrow>
        entry_at sectors s' base d =
          (if d = c then merge28 (entry_at sectors s base c) v else entry_at sectors s base d)))"
proof -
  have ci: "cache_inv sectors s" and g: "geom s" using inv by (auto simp: table_inv_def)
  have l: "length (vsec sectors t m) = 512" if "cache_inv sectors t" for t m
    using length_vsec [OF that] .
  have b0: "fat_sect0 s \<noteq> 0" "unat (fat_sect0 s) + fat_len s \<le> 2 ^ 32" using g by (auto simp: geom_def)
  note f0 = fat_sector [OF _ b0(2)]
  show ?thesis
  proof (cases "fat_sect1 s = 0")
    case True
    then have r0: "put_fat2 (fat_sect0 s) c v s = (e, s')" using r by (simp add: put_fat_def)
    note p = put_fat2_spec [OF ci f0(3) [OF c b0(1)] r0]
    have "entry_at sectors s' (fat_sect0 s) d = (if d = c then merge28 (entry_at sectors s (fat_sect0 s) c) v
        else entry_at sectors s (fat_sect0 s) d)" if "e = 0" "d < clust_cnt s" for d
      using p that f0(3) [OF that(2) b0(1)] l [OF ci] by (intro entry_at_put) (auto simp: merge28_def)
    moreover have "vsec sectors s' m = vsec sectors s m" if "e = 0" "m \<noteq> 0" "\<not> in_fats s m" for m
      using p that f0(2) [OF c] by (auto simp: in_fats_def)
    ultimately show ?thesis
      using p True g geom_meta [of s s'] by (auto simp: table_inv_def)
  next
    case False
    have b1: "fat_sect1 s \<noteq> 0" "unat (fat_sect1 s) + fat_len s \<le> 2 ^ 32" using g False by (auto simp: geom_def)
    note f1 = fat_sector [OF _ b1(2)]
    have dj: "fat_sect0 s + d div 128 \<noteq> fat_sect1 s + d' div 128"
      if "d < clust_cnt s" "d' < clust_cnt s" for d d'
      using f0(2) [OF that(1)] f1(2) [OF that(2)] g b1 by (auto simp: in_area_def geom_def)
    obtain e1 s1 where 1: "put_fat2 (fat_sect1 s) c v s = (e1, s1)" by (metis surj_pair)
    note p1 = put_fat2_spec [OF ci f1(3) [OF c b1(1)] 1]
    show ?thesis
    proof (cases "e1 = 0")
      case False
      then show ?thesis using r p1 b1 by (auto simp: put_fat_def 1)
    next
      case True
      then have m1: "meta s s1" and ci1: "cache_inv sectors s1" using p1 by auto
      have r0: "put_fat2 (fat_sect0 s) c v s1 = (e, s')"
        using r b1 True meta_simps(5) [OF m1] by (simp add: put_fat_def 1)
      note p0 = put_fat2_spec [OF ci1 f0(3) [OF c b0(1)] r0]
      have m: "meta s s'" using m1 p0 meta_trans by blast
      have e10: "entry_at sectors s1 (fat_sect0 s) d = entry_at sectors s (fat_sect0 s) d" if "d < clust_cnt s" for d
        using p1 True f0(3) [OF that b0(1)] dj [OF that c] by (auto simp: entry_at_def)
      have e11: "entry_at sectors s1 (fat_sect1 s) d = (if d = c then merge28 (entry_at sectors s (fat_sect1 s) c) v
          else entry_at sectors s (fat_sect1 s) d)" if "d < clust_cnt s" for d
        using p1 True that f1(3) [OF that b1(1)] l [OF ci] by (intro entry_at_put) (auto simp: merge28_def)
      have "entry_at sectors s' (fat_sect0 s) d = (if d = c then merge28 (entry_at sectors s (fat_sect0 s) c) v
          else entry_at sectors s (fat_sect0 s) d)" if "e = 0" "d < clust_cnt s" for d
      proof -
        have "entry_at sectors s' (fat_sect0 s) d = (if d = c then merge28 (entry_at sectors s1 (fat_sect0 s) c) v
            else entry_at sectors s1 (fat_sect0 s) d)"
          using p0 that f0(3) [OF that(2) b0(1)] l [OF ci1] by (intro entry_at_put) (auto simp: merge28_def)
        then show ?thesis using e10 that c by simp
      qed
      moreover have "entry_at sectors s' (fat_sect1 s) d = (if d = c then merge28 (entry_at sectors s (fat_sect1 s) c) v
          else entry_at sectors s (fat_sect1 s) d)" if "e = 0" "d < clust_cnt s" for d
      proof -
        have "entry_at sectors s' (fat_sect1 s) d = entry_at sectors s1 (fat_sect1 s) d"
          using p0 that f1(3) [OF that(2) b1(1)] dj [OF c that(2)] by (auto simp: entry_at_def)
        then show ?thesis using e11 [OF that(2)] by simp
      qed
      moreover have "vsec sectors s' k = vsec sectors s k" if "e = 0" "k \<noteq> 0" "\<not> in_fats s k" for k
        using p0 p1 True that f0(2) [OF c] f1(2) [OF c] b1 by (auto simp: in_fats_def)
      moreover have "table_inv sectors s'" if "e = 0"
        using p0 that g geom_meta [OF m] by (simp add: table_inv_def)
      ultimately show ?thesis using m p0 p1 by auto
    qed
  qed
qed

lemma fat_entry_28: "fat_entry sectors s c AND 0x0fffffff = fat_entry sectors s c"
  by (simp add: fat_entry_def and.assoc)

lemma fat_entry_upd [simp]:
  "fat_entry sectors (s\<lparr>fat_flags := f\<rparr>) = fat_entry sectors s"
  "fat_entry sectors (s\<lparr>free_cnt := n\<rparr>) = fat_entry sectors s"
  "fat_entry sectors (s\<lparr>last_used := n\<rparr>) = fat_entry sectors s"
  by (simp_all add: fat_entry_def entry_at_def fun_eq_iff)

lemma geom_upd [simp]:
  "geom (s\<lparr>fat_flags := f\<rparr>) = geom s" "geom (s\<lparr>free_cnt := n\<rparr>) = geom s"
  "geom (s\<lparr>last_used := n\<rparr>) = geom s"
  by (simp_all add: geom_def fat_len_def)

text \<open>The FsInfo-dirty bit is part of the contract: the loops never clear it.\<close>

definition chain_inv :: "('d \<Rightarrow> u32 \<Rightarrow> u8 list) \<Rightarrow> 'd fs \<Rightarrow> bool" where
  "chain_inv sectors s \<longleftrightarrow> table_inv sectors s \<and> bit (fat_flags s) 1"

interpretation fat: chain_table get_fat put_fat free_bump "fat_entry sectors" clust_cnt last_used free_cnt
  "chain_inv sectors" for sectors
proof
  fix s s' :: "'a fs" and c n out f
  assume a: "chain_inv sectors s" "c < clust_cnt s" "get_fat c out s = (0, (n, f), s')"
  have "fat_entry sectors s' d = fat_entry sectors s d" if "d < clust_cnt s"
    "\<forall>m. m \<noteq> 0 \<longrightarrow> vsec sectors s' m = vsec sectors s m" "meta s s'" for d
    using that fat_sector(3) [OF that(1), of "fat_sect0 s"] a(1)
    by (auto simp: fat_entry_def entry_at_def meta_simps chain_inv_def table_inv_def geom_def)
  then show "chain_inv sectors s' \<and> clust_cnt s' = clust_cnt s \<and> last_used s' = last_used s \<and>
      free_cnt s' = free_cnt s \<and> n = fat_entry sectors s c \<and> clust_class (clust_cnt s) n = Some f \<and>
      (\<forall>d. d < clust_cnt s \<longrightarrow> fat_entry sectors s' d = fat_entry sectors s d)"
    using get_fat_spec [OF _ a(2,3), of sectors] a(1)
    by (auto simp: chain_inv_def meta_simps FAT_ERR_IO_def)
next
  fix s s' :: "'a fs" and c v
  assume a: "chain_inv sectors s" "c < clust_cnt s" "put_fat c v s = (0, s')"
  note p = put_fat_spec [OF _ a(2,3), of sectors]
  have "fat_entry sectors s' d = (if d = c then v AND 0x0fffffff else fat_entry sectors s d)"
    if "d < clust_cnt s" for d
    using p that a(1) by (auto simp: fat_entry_def chain_inv_def meta_simps)
  then show "chain_inv sectors s' \<and> clust_cnt s' = clust_cnt s \<and> last_used s' = last_used s \<and>
      free_cnt s' = free_cnt s \<and>
      (\<forall>d. d < clust_cnt s \<longrightarrow> fat_entry sectors s' d = (if d = c then v AND 0x0fffffff else fat_entry sectors s d))"
    using p a(1) by (auto simp: chain_inv_def meta_simps)
next
  fix s :: "'a fs"
  assume "chain_inv sectors s"
  then show "chain_inv sectors (free_bump s) \<and> clust_cnt (free_bump s) = clust_cnt s \<and>
      last_used (free_bump s) = last_used s \<and> free_cnt (free_bump s) = free_cnt s + 1 \<and>
      fat_entry sectors (free_bump s) = fat_entry sectors s"
    by (simp add: free_bump_def chain_inv_def table_inv_def)
qed


section \<open>Whole operations\<close>

lemma sync_fs_table:
  assumes inv: "table_inv sectors s" and r: "sync_fs s = (e, s')"
  shows "meta s s' \<and> e \<in> {0, FAT_ERR_IO} \<and> (e = 0 \<longrightarrow> table_inv sectors s' \<and>
    \<not> bit (fat_flags s') 0 \<and> \<not> bit (fat_flags s') 1 \<and>
    (\<forall>n. n \<noteq> 0 \<longrightarrow> sectors (dsk s') n = vsec sectors s' n) \<and>
    (\<forall>n. n \<noteq> 0 \<and> n \<noteq> info_sect s \<longrightarrow> vsec sectors s' n = vsec sectors s n) \<and>
    (\<forall>d. d < clust_cnt s \<longrightarrow> fat_entry sectors s' d = fat_entry sectors s d) \<and>
    (bit (fat_flags s) 1 \<longrightarrow> ld32 (sectors (dsk s') (info_sect s)) 492 = last_used s \<and>
       ld32 (sectors (dsk s') (info_sect s)) 488 = free_cnt s))"
proof -
  have ci: "cache_inv sectors s" and g: "geom s" using inv by (auto simp: table_inv_def)
  have i: "info_sect s \<noteq> 0" using g by (simp add: geom_def)
  note p = sync_fs_spec [OF ci i r]
  have "fat_entry sectors s' d = fat_entry sectors s d" if "e = 0" "d < clust_cnt s" for d
  proof -
    have "fat_sect0 s + d div 128 \<noteq> 0 \<and> fat_sect0 s + d div 128 \<noteq> info_sect s"
      using fat_sector [OF that(2), of "fat_sect0 s"] g by (auto simp: geom_def)
    then have "vsec sectors s' (fat_sect0 s + d div 128) = vsec sectors s (fat_sect0 s + d div 128)"
      using p that(1) by simp
    moreover have "meta s s'" using p by blast
    ultimately show ?thesis by (simp add: fat_entry_def entry_at_def meta_simps(5))
  qed
  moreover have "ld32 (sectors (dsk s') (info_sect s)) 492 = last_used s \<and>
      ld32 (sectors (dsk s') (info_sect s)) 488 = free_cnt s" if "e = 0" "bit (fat_flags s) 1"
    using p that i length_vsec [OF ci] by simp
  ultimately show ?thesis
    using p g geom_meta [of s s'] by (auto simp: table_inv_def)
qed

lemma table_inv_flags [simp]:
  "table_inv sectors (s\<lparr>fat_flags := fat_flags s OR FAT_INFO_DIRTY\<rparr>) = table_inv sectors s"
  by (simp add: table_inv_def)

lemma remove_chain_total:
  assumes "table_inv sectors s" "c < clust_cnt s" "unat (clust_cnt s) < fuel"
  shows "\<exists>e s'. remove_chain fuel c out s = Some (e, s')"
proof -
  let ?s = "s\<lparr>fat_flags := fat_flags s OR FAT_INFO_DIRTY\<rparr>"
  have "card {d. d < clust_cnt ?s \<and> fat_entry sectors ?s d \<noteq> 0} \<le> card {..<unat (clust_cnt s)}"
    by (rule card_inj_on_le [of unat]) (auto simp: inj_on_def word_unat_eq_iff word_less_nat_alt)
  then have "card {d. d < clust_cnt ?s \<and> fat_entry sectors ?s d \<noteq> 0} < fuel" using assms(3) by simp
  then obtain e s' where "remove_loop get_fat put_fat free_bump fuel c out ?s = Some (e, s')"
    using fat.remove_loop_total [of sectors ?s c fuel out] assms(1,2) by (auto simp: chain_inv_def)
  then show ?thesis
    by (cases "e = 0"; cases "sync_fs s'") (auto simp: remove_chain_def Let_def)
qed

lemma remove_chain_spec:
  assumes inv: "table_inv sectors s" and ch: "is_chain (fat_entry sectors s) (clust_cnt s) (c # cs)"
    and r: "remove_chain fuel c out s = Some (0, s')"
  shows "table_inv sectors s' \<and> clust_cnt s' = clust_cnt s \<and> last_used s' = last_used s \<and>
    free_cnt s' = free_cnt s + of_nat (length (c # cs)) \<and>
    (\<forall>d. d < clust_cnt s \<longrightarrow>
      fat_entry sectors s' d = (if d \<in> set (c # cs) then 0 else fat_entry sectors s d)) \<and>
    (\<forall>n. n \<noteq> 0 \<longrightarrow> sectors (dsk s') n = vsec sectors s' n)"
proof -
  let ?s = "s\<lparr>fat_flags := fat_flags s OR FAT_INFO_DIRTY\<rparr>"
  obtain s1 where 1: "remove_loop get_fat put_fat free_bump fuel c out ?s = Some (0, s1)" and 2: "sync_fs s1 = (0, s')"
    using r by (cases "remove_loop get_fat put_fat free_bump fuel c out ?s") (auto simp: remove_chain_def split: if_splits)
  have p: "chain_inv sectors s1" "clust_cnt s1 = clust_cnt s" "last_used s1 = last_used s"
      "free_cnt s1 = free_cnt s + of_nat (length (c # cs))"
      "\<And>d. d < clust_cnt s \<Longrightarrow> fat_entry sectors s1 d = (if d \<in> set (c # cs) then 0 else fat_entry sectors s d)"
    using fat.remove_loop_chain [OF _ _ 1, of sectors cs] inv ch by (auto simp: chain_inv_def)
  then show ?thesis
    using sync_fs_table [OF _ 2, of sectors] by (auto simp: chain_inv_def meta_simps)
qed


text \<open>What \<open>stretch_chain\<close> does once it has found the free cluster \<open>n\<close>.\<close>

lemma link_clust_spec:
  assumes inv: "chain_inv sectors s" and n: "n < clust_cnt s" and pv: "prev < clust_cnt s" "prev \<noteq> n"
    and r: "link_clust prev n out_clust s = (0, n', s')"
  shows "n' = n \<and> table_inv sectors s' \<and> clust_cnt s' = clust_cnt s \<and> last_used s' = n \<and>
    free_cnt s' = free_cnt s - 1 \<and>
    (\<forall>d. d < clust_cnt s \<longrightarrow> fat_entry sectors s' d =
      (if d = n then 0x0fffffff else if d = prev \<and> prev \<noteq> 0 then n AND 0x0fffffff else fat_entry sectors s d)) \<and>
    (\<forall>k. k \<noteq> 0 \<longrightarrow> sectors (dsk s') k = vsec sectors s' k)"
proof -
  obtain e1 s1 where 1: "put_fat n 0x0fffffff s = (e1, s1)" by (metis surj_pair)
  obtain e2 s2 where 2: "(if prev \<noteq> 0 then put_fat prev n s1 else (FAT_ERR_NONE, s1)) = (e2, s2)"
    by (metis surj_pair)
  define s3 where "s3 = s2\<lparr>last_used := n, free_cnt := free_cnt s2 - 1\<rparr>"
  obtain e4 s4 where 4: "sync_fs s3 = (e4, s4)" by (metis surj_pair)
  have e: "e1 = 0" "e2 = 0" using r by (auto simp: link_clust_def 1 2 split: if_splits)
  then have s': "e4 = 0" "n' = n" "s' = s4" using r 4 by (simp_all add: link_clust_def 1 2 Let_def s3_def)
  have p1: "chain_inv sectors s1" "clust_cnt s1 = clust_cnt s" "free_cnt s1 = free_cnt s"
      "\<And>d. d < clust_cnt s \<Longrightarrow> fat_entry sectors s1 d = (if d = n then 0x0fffffff else fat_entry sectors s d)"
    using fat.put_ok [OF inv n 1 [unfolded e]] by auto
  have p2: "chain_inv sectors s2" "clust_cnt s2 = clust_cnt s" "free_cnt s2 = free_cnt s"
      "\<And>d. d < clust_cnt s \<Longrightarrow> fat_entry sectors s2 d =
        (if d = n then 0x0fffffff else if d = prev \<and> prev \<noteq> 0 then n AND 0x0fffffff else fat_entry sectors s d)"
  proof -
    have "chain_inv sectors s2 \<and> clust_cnt s2 = clust_cnt s \<and> free_cnt s2 = free_cnt s \<and>
      (\<forall>d. d < clust_cnt s \<longrightarrow> fat_entry sectors s2 d =
        (if d = n then 0x0fffffff else if d = prev \<and> prev \<noteq> 0 then n AND 0x0fffffff else fat_entry sectors s d))"
    proof (cases "prev = 0")
      case True
      then show ?thesis using 2 p1 by auto
    next
      case False
      then have "put_fat prev n s1 = (0, s2)" using 2 e by simp
      from fat.put_ok [OF p1(1) _ this] show ?thesis using p1 pv False by auto
    qed
    then show "chain_inv sectors s2" "clust_cnt s2 = clust_cnt s" "free_cnt s2 = free_cnt s"
      "\<And>d. d < clust_cnt s \<Longrightarrow> fat_entry sectors s2 d =
        (if d = n then 0x0fffffff else if d = prev \<and> prev \<noteq> 0 then n AND 0x0fffffff else fat_entry sectors s d)"
      by auto
  qed
  have t3: "table_inv sectors s3" using p2(1) by (simp add: s3_def chain_inv_def table_inv_def)
  show ?thesis
    using sync_fs_table [OF t3 4] s' p2 by (auto simp: s3_def meta_simps)
qed


lemma class_nz: "clust_class l v = Some f \<Longrightarrow> f \<noteq> 0"
  by (auto simp: clust_class_def clust_defs split: if_splits)

text \<open>
  With a sane allocation hint the scan ends. (With a hint outside the table and no free cluster, it
  does not: \<open>last_used\<close> is never reached.)
\<close>

lemma stretch_chain_total:
  assumes inv: "table_inv sectors s" and pv: "prev < clust_cnt s"
    and lu: "2 \<le> last_used s" "last_used s < clust_cnt s" and fuel: "unat (clust_cnt s) + unat (clust_cnt s) < fuel"
  shows "\<exists>e n s'. stretch_chain fuel prev out out_clust s = Some (e, n, s')"
proof -
  let ?s = "s\<lparr>fat_flags := fat_flags s OR FAT_INFO_DIRTY\<rparr>"
  have ci: "chain_inv sectors ?s" using inv by (simp add: chain_inv_def)
  have scan: "\<exists>e b n t'. scan_loop get_fat clust_cnt last_used fuel (last_used t) out t = Some (e, b, n, t')"
    if "chain_inv sectors t" "clust_cnt t = clust_cnt s" "last_used t = last_used s" for t out
  proof -
    have "fat.ahead t (last_used t) \<le> fuel"
      unfolding fat.ahead_def using fuel that lu by (auto simp: word_less_nat_alt)
    then show ?thesis
      using fat.scan_loop_total [of sectors t "last_used t" fuel out] that lu fuel by (metis gr_zeroI not_less_zero prod_cases4)
  qed
  show ?thesis
  proof (cases "prev = 0")
    case True
    obtain e b n t where "scan_loop get_fat clust_cnt last_used fuel (last_used ?s) out ?s = Some (e, b, n, t)"
      using scan [of ?s out] ci by auto
    then show ?thesis using True
      by (cases "link_clust prev n out_clust t") (auto simp: stretch_chain_def Let_def)
  next
    case False
    let ?c = "fat.nxt_clust ?s prev"
    have c: "?c < clust_cnt s"
      using fat.nxt_clust_unat(3) [of prev ?s] pv lu by simp
    obtain e n f t where 1: "get_fat ?c out ?s = (e, (n, f), t)" by (metis surj_pair)
    have ceq: "(if clust_cnt s \<le> prev + 1 then 2 else prev + 1) = ?c" by (simp add: fat.nxt_clust_def)
    show ?thesis
    proof (cases "e = 0 \<and> \<not> has f CLUST_FREE")
      case f: False
      then show ?thesis using False ceq 1
        by (cases "link_clust prev ?c out_clust t") (auto simp: stretch_chain_def Let_def)
    next
      case True
      have "chain_inv sectors t" "clust_cnt t = clust_cnt s" "last_used t = last_used s"
        using fat.get_ok [OF ci, of ?c out n f t] c 1 True by auto
      from scan [OF this, of "(n, f)"] obtain e2 b n2 t2
        where "scan_loop get_fat clust_cnt last_used fuel (last_used t) (n, f) t = Some (e2, b, n2, t2)" by blast
      then show ?thesis using False True ceq 1
        by (cases "link_clust prev n2 out_clust t2") (auto simp: stretch_chain_def Let_def)
    qed
  qed
qed

lemma scan_flags:
  "chain_inv sectors s \<Longrightarrow> c < clust_cnt s \<Longrightarrow> 2 \<le> last_used s \<Longrightarrow> last_used s < clust_cnt s \<Longrightarrow> c \<noteq> 0 \<Longrightarrow>
    snd out \<noteq> 0 \<Longrightarrow> scan_loop get_fat clust_cnt last_used fuel c out s = Some (0, found, n, s') \<Longrightarrow> found"
proof (induction fuel arbitrary: c out s)
  case (Suc fuel)
  let ?c = "fat.nxt_clust s c"
  obtain e1 n1 f s1 where 1: "get_fat ?c out s = (e1, (n1, f), s1)" by (metis surj_pair)
  have c: "?c < clust_cnt s" "2 \<le> ?c" using fat.nxt_clust_unat(2,3) Suc.prems by blast+
  have f: "f \<noteq> 0"
    using get_fat_spec [OF _ c(1) 1, of sectors] Suc.prems(1,6)
    by (cases "e1 = 0") (auto simp: chain_inv_def dest: class_nz)
  then have uf: "uint f \<noteq> 0" by (simp add: uint_0_iff)
  show ?case
  proof (cases "?c \<noteq> last_used s \<and> e1 = 0 \<and> \<not> has f CLUST_FREE")
    case False
    then show ?thesis using Suc.prems(7) uf
      by (auto simp: fat.scan_loop_Suc 1 FAT_ERR_FULL_def simp del: scan_loop.simps split: if_splits)
  next
    case True
    have g: "chain_inv sectors s1" "clust_cnt s1 = clust_cnt s" "last_used s1 = last_used s"
      using fat.get_ok [OF Suc.prems(1) c(1), of out n1 f s1] 1 True by auto
    have r: "scan_loop get_fat clust_cnt last_used fuel ?c (n1, f) s1 = Some (0, found, n, s')"
      using Suc.prems(7) True by (simp add: fat.scan_loop_Suc 1 del: scan_loop.simps)
    have "?c \<noteq> 0" using c(2) by auto
    then show ?thesis using Suc.IH [OF g(1) _ _ _ _ _ r] g c f Suc.prems(3,4) by auto
  qed
qed simp

lemma stretch_chain_spec:
  assumes inv: "table_inv sectors s" and pv: "prev < clust_cnt s" "prev \<noteq> 0 \<Longrightarrow> fat_entry sectors s prev \<noteq> 0"
    and lu: "2 \<le> last_used s" "last_used s < clust_cnt s" and out: "prev = 0 \<Longrightarrow> snd out \<noteq> 0"
    and r: "stretch_chain fuel prev out out_clust s = Some (0, n, s')"
  shows "2 \<le> n \<and> n < clust_cnt s \<and> fat_entry sectors s n = 0 \<and>
    table_inv sectors s' \<and> clust_cnt s' = clust_cnt s \<and> last_used s' = n \<and> free_cnt s' = free_cnt s - 1 \<and>
    (\<forall>d. d < clust_cnt s \<longrightarrow> fat_entry sectors s' d =
      (if d = n then 0x0fffffff else if d = prev \<and> prev \<noteq> 0 then n AND 0x0fffffff else fat_entry sectors s d)) \<and>
    (\<forall>k. k \<noteq> 0 \<longrightarrow> sectors (dsk s') k = vsec sectors s' k)"
proof -
  let ?s = "s\<lparr>fat_flags := fat_flags s OR FAT_INFO_DIRTY\<rparr>"
  have ci: "chain_inv sectors ?s" using inv by (simp add: chain_inv_def)
  have lu0: "last_used s \<noteq> 0" using lu(1) by auto
  have "\<exists>c t. link_clust prev c out_clust t = (0, n, s') \<and> chain_inv sectors t \<and> clust_cnt t = clust_cnt s \<and>
      free_cnt t = free_cnt s \<and> 2 \<le> c \<and> c < clust_cnt s \<and> fat_entry sectors s c = 0 \<and>
      (\<forall>d. d < clust_cnt s \<longrightarrow> fat_entry sectors t d = fat_entry sectors s d)"
  proof -
    have scan: ?thesis
      if t: "chain_inv sectors t" "clust_cnt t = clust_cnt s" "last_used t = last_used s" "free_cnt t = free_cnt s"
        "\<And>d. d < clust_cnt s \<Longrightarrow> fat_entry sectors t d = fat_entry sectors s d" and f: "snd o' \<noteq> 0"
      and q: "(case scan_loop get_fat clust_cnt last_used fuel (last_used t) o' t of None \<Rightarrow> None
          | Some (err, found, clust, s) \<Rightarrow>
              Some (if found then link_clust prev clust out_clust s else (err, out_clust, s))) = Some (0, n, s')"
      for t o'
    proof -
      obtain e b c u where 1: "scan_loop get_fat clust_cnt last_used fuel (last_used t) o' t = Some (e, b, c, u)"
        using q by (auto split: option.splits)
      have b: b
      proof (rule ccontr)
        assume "\<not> b"
        then have "e = 0" using q 1 by simp
        with 1 have "b" using scan_flags [OF t(1) _ _ _ _ f] t lu lu0 by auto
        with \<open>\<not> b\<close> show False by simp
      qed
      have "link_clust prev c out_clust u = (0, n, s')" using q 1 b by simp
      moreover note fat.scan_loop_result [OF t(1) _ _ _ _ 1]
      ultimately show ?thesis using b t lu lu0 by (intro exI [of _ c] exI [of _ u]) auto
    qed
    show ?thesis
    proof (cases "prev = 0")
      case True
      show ?thesis
        by (rule scan [of ?s out]) (use ci True out r in \<open>auto simp: stretch_chain_def Let_def\<close>)
    next
      case False
      let ?c = "fat.nxt_clust ?s prev"
      have c: "?c < clust_cnt s" "2 \<le> ?c"
        using fat.nxt_clust_unat(2,3) [of prev ?s] pv(1) lu False by simp_all
      obtain e m f t where 1: "get_fat ?c out ?s = (e, (m, f), t)" by (metis surj_pair)
      have ceq: "(if clust_cnt s \<le> prev + 1 then 2 else prev + 1) = ?c" by (simp add: fat.nxt_clust_def)
      have e: "e = 0" using r False ceq 1 by (auto simp: stretch_chain_def Let_def split: if_splits)
      have g: "chain_inv sectors t" "clust_cnt t = clust_cnt s" "last_used t = last_used s" "free_cnt t = free_cnt s"
          "m = fat_entry sectors s ?c" "clust_class (clust_cnt s) m = Some f"
          "\<And>d. d < clust_cnt s \<Longrightarrow> fat_entry sectors t d = fat_entry sectors s d"
        using fat.get_ok [OF ci, of ?c out m f t] c 1 e by auto
      show ?thesis
      proof (cases "has f CLUST_FREE")
        case True
        then have "fat_entry sectors s ?c = 0" using g(5,6) by (auto simp: clust_class_def split: if_splits)
        moreover have "link_clust prev ?c out_clust t = (0, n, s')"
          using r False ceq 1 e True by (simp add: stretch_chain_def Let_def)
        ultimately show ?thesis using g c by blast
      next
        case nf: False
        show ?thesis
          by (rule scan [of t "(m, f)"])
            (use g r False ceq 1 e nf in \<open>auto simp: stretch_chain_def Let_def dest: class_nz\<close>)
      qed
    qed
  qed
  then obtain c t where ct: "link_clust prev c out_clust t = (0, n, s')" "chain_inv sectors t"
      "clust_cnt t = clust_cnt s" "free_cnt t = free_cnt s" "2 \<le> c" "c < clust_cnt s" "fat_entry sectors s c = 0"
      "\<And>d. d < clust_cnt s \<Longrightarrow> fat_entry sectors t d = fat_entry sectors s d" by blast
  have "prev \<noteq> c" using ct(5,7) pv(2) by (cases "prev = 0") auto
  from link_clust_spec [OF ct(2) _ _ this ct(1)] show ?thesis using ct pv(1) by auto
qed


section \<open>Tables on disks that never fail\<close>

lemma get_fat_ok:
  assumes "table_inv sectors s" "c < clust_cnt s" "never_fails (ops s)"
    and "clust_class (clust_cnt s) (fat_entry sectors s c) \<noteq> None"
  shows "\<exists>n f s'. get_fat c out s = (0, (n, f), s')"
proof -
  obtain e n f s' where 1: "get_fat c out s = (e, (n, f), s')" by (metis surj_pair)
  have "e \<noteq> FAT_ERR_IO"
    using 1 update_buf_ok [OF assms(3), of "fat_sect0 s + c div 128"]
    by (auto simp: get_fat_def Let_def chk_def FAT_ERR_IO_def FAT_ERR_NONE_def FAT_ERR_BROKEN_def
        split: prod.splits if_splits)
  then show ?thesis using get_fat_spec [OF assms(1,2) 1] assms(4) 1 by auto
qed

lemma put_fat_ok:
  assumes "never_fails (ops s)"
  shows "fst (put_fat c v s) = 0"
proof -
  have p: "fst (put_fat2 b c v t) = 0 \<and> ops (snd (put_fat2 b c v t)) = ops t" if "never_fails (ops t)" for b and t :: "'a fs"
    using update_buf_ok [OF that, of "b + c div 128"] update_buf_ops [of "b + c div 128" t]
    by (cases "update_buf (b + c div 128) t") (simp add: put_fat2_def Let_def FAT_ERR_NONE_def)
  show ?thesis
    using p [OF assms, of "fat_sect1 s"] p [OF assms, of "fat_sect0 s"] assms
    by (cases "put_fat2 (fat_sect1 s) c v s") (auto simp: put_fat_def p)
qed

text \<open>A table that never fails on a sound entry: the chain operations then succeed.\<close>

locale reliable_table = chain_table +
  assumes get_total: "inv s \<Longrightarrow> c < limit s \<Longrightarrow> clust_class (limit s) (entry s c) \<noteq> None \<Longrightarrow>
      \<exists>n f s'. get c out s = (0, (n, f), s')"
    and put_total: "inv s \<Longrightarrow> c < limit s \<Longrightarrow> \<exists>s'. put c v s = (0, s')"
begin

lemma remove_loop_succeeds:
  "inv s \<Longrightarrow> is_chain (entry s) (limit s) (c # cs) \<Longrightarrow> length cs < fuel \<Longrightarrow>
    \<exists>s'. remove_loop get put bump fuel c out s = Some (0, s')"
proof (induction fuel arbitrary: c cs out s)
  case (Suc fuel)
  have c: "c < limit s" using is_chain_bounds [OF Suc.prems(2)] by simp
  have cl: "clust_class (limit s) (entry s c) \<noteq> None"
    using Suc.prems(2) by (cases cs) (auto simp: clust_class_def)
  obtain n f s1 where 1: "get c out s = (0, (n, f), s1)" using get_total [OF Suc.prems(1) c cl] by blast
  have g: "inv s1" "limit s1 = limit s" "n = entry s c" "clust_class (limit s) n = Some f"
      "\<And>d. d < limit s \<Longrightarrow> entry s1 d = entry s d"
    using get_ok [OF Suc.prems(1) c 1] by auto
  obtain s2 where 2: "put c 0 s1 = (0, s2)" using put_total [OF g(1), of c] g c by auto
  have p: "inv s2" "limit s2 = limit s" "\<And>d. d < limit s \<Longrightarrow> entry s2 d = (if d = c then 0 else entry s d)"
    using put_ok [OF g(1) _ 2] g c by auto
  note b = bump_ok [OF p(1)]
  show ?case
  proof (cases cs)
    case Nil
    then have "f = CLUST_USED OR CLUST_LAST"
      using Suc.prems(2) g(3,4) by (auto simp: clust_class_def word_le_nat_alt split: if_splits)
    then show ?thesis by (simp add: 1 2 Let_def FAT_ERR_NONE_def)
  next
    case (Cons d ds)
    then have nd: "n = d" and f: "f = CLUST_USED" and ch: "is_chain (entry s) (limit s) (d # ds)"
      using Suc.prems(2) g(3,4) by auto
    have "is_chain (entry s2) (limit s) (d # ds)"
      using ch is_chain_distinct [OF Suc.prems(2)] p(3) is_chain_bounds [OF ch] Cons
      by (subst is_chain_cong [of _ _ "entry s"]) auto
    then have "is_chain (entry (bump s2)) (limit (bump s2)) (d # ds)" using b p by simp
    then have "\<exists>s'. remove_loop get put bump fuel d (n, f) (bump s2) = Some (0, s')"
      using Suc.IH [of "bump s2" d ds "(n, f)"] b Suc.prems(3) Cons by auto
    then show ?thesis using nd f by (simp add: 1 2 Let_def)
  qed
qed simp

text \<open>With a sound table, the scan finds a free cluster whenever there is one but \<open>stop\<close>.\<close>

lemma scan_loop_succeeds:
  "inv s \<Longrightarrow> c < limit s \<Longrightarrow> 2 \<le> stop s \<Longrightarrow> stop s < limit s \<Longrightarrow> c \<noteq> 0 \<Longrightarrow> ahead s c \<le> fuel \<Longrightarrow>
    (\<forall>d. 2 \<le> d \<and> d < limit s \<longrightarrow> clust_class (limit s) (entry s d) \<noteq> None) \<Longrightarrow>
    between s c d \<Longrightarrow> entry s d = 0 \<Longrightarrow>
    \<exists>n s'. scan_loop get limit stop fuel c out s = Some (0, True, n, s')"
proof (induction fuel arbitrary: c out s)
  case 0
  then show ?case by (auto simp: ahead_def between_def word_less_nat_alt word_le_nat_alt split: if_splits)
next
  case (Suc fuel)
  let ?c = "nxt_clust s c"
  have c: "?c < limit s" "2 \<le> ?c" using nxt_clust_unat(2,3) Suc.prems by blast+
  have ne: "?c \<noteq> stop s" using between_stop [OF Suc.prems(2-4)] Suc.prems(8) by blast
  obtain n f s1 where 1: "get ?c out s = (0, (n, f), s1)"
    using get_total [OF Suc.prems(1) c(1)] Suc.prems(7) c by blast
  have g: "inv s1" "limit s1 = limit s" "stop s1 = stop s" "n = entry s ?c" "clust_class (limit s) n = Some f"
      "\<And>d. d < limit s \<Longrightarrow> entry s1 d = entry s d"
    using get_ok [OF Suc.prems(1) c(1) 1] by auto
  show ?case
  proof (cases "has f CLUST_FREE")
    case True
    then show ?thesis using ne by (simp add: scan_loop_Suc 1 del: scan_loop.simps)
  next
    case False
    then have "entry s ?c \<noteq> 0" using g(4,5) by (auto simp: clust_class_def)
    then have "d \<noteq> ?c" using Suc.prems(9) by auto
    then have b: "between s ?c d" using between_nxt [OF Suc.prems(2-4) ne Suc.prems(8)] by simp
    have dl: "d < limit s" using Suc.prems(4,8) by (auto simp: between_def split: if_splits)
    have "ahead s1 ?c = ahead s ?c" "between s1 ?c d = between s ?c d"
      by (simp_all add: ahead_def between_def g)
    then have a: "ahead s1 ?c \<le> fuel" "between s1 ?c d"
      using ahead_nxt [OF Suc.prems(2-4) ne] Suc.prems(6) b by simp_all
    have "?c \<noteq> 0" using c(2) by auto
    then have "\<exists>m s'. scan_loop get limit stop fuel ?c (n, f) s1 = Some (0, True, m, s')"
      using Suc.IH [of s1 ?c "(n, f)"] a g c dl Suc.prems(3,4,7,9) by auto
    then show ?thesis using ne False by (simp add: scan_loop_Suc 1 del: scan_loop.simps)
  qed
qed

end

interpretation rfat: reliable_table get_fat put_fat free_bump "fat_entry sectors" clust_cnt last_used free_cnt
  "\<lambda>s. chain_inv sectors s \<and> never_fails (ops s)" for sectors
proof
  fix s s' :: "'a fs" and c n out f
  assume a: "chain_inv sectors s \<and> never_fails (ops s)" "c < clust_cnt s" "get_fat c out s = (0, (n, f), s')"
  then have "meta s s'" using get_fat_spec [OF _ a(2,3), of sectors] by (auto simp: chain_inv_def)
  then show "(chain_inv sectors s' \<and> never_fails (ops s')) \<and> clust_cnt s' = clust_cnt s \<and>
      last_used s' = last_used s \<and> free_cnt s' = free_cnt s \<and> n = fat_entry sectors s c \<and>
      clust_class (clust_cnt s) n = Some f \<and>
      (\<forall>d. d < clust_cnt s \<longrightarrow> fat_entry sectors s' d = fat_entry sectors s d)"
    using fat.get_ok [OF _ a(2,3), of sectors] a(1) by (auto simp: meta_simps)
next
  fix s s' :: "'a fs" and c v
  assume a: "chain_inv sectors s \<and> never_fails (ops s)" "c < clust_cnt s" "put_fat c v s = (0, s')"
  then have "meta s s'" using put_fat_spec [OF _ a(2,3), of sectors] by (auto simp: chain_inv_def)
  then show "(chain_inv sectors s' \<and> never_fails (ops s')) \<and> clust_cnt s' = clust_cnt s \<and>
      last_used s' = last_used s \<and> free_cnt s' = free_cnt s \<and>
      (\<forall>d. d < clust_cnt s \<longrightarrow> fat_entry sectors s' d = (if d = c then v AND 0x0fffffff else fat_entry sectors s d))"
    using fat.put_ok [OF _ a(2,3), of sectors] a(1) by (auto simp: meta_simps)
next
  fix s :: "'a fs"
  assume "chain_inv sectors s \<and> never_fails (ops s)"
  then show "(chain_inv sectors (free_bump s) \<and> never_fails (ops (free_bump s))) \<and>
      clust_cnt (free_bump s) = clust_cnt s \<and> last_used (free_bump s) = last_used s \<and>
      free_cnt (free_bump s) = free_cnt s + 1 \<and> fat_entry sectors (free_bump s) = fat_entry sectors s"
    using fat.bump_ok [of sectors s] by (simp add: free_bump_def)
next
  fix s :: "'a fs" and c out
  assume "chain_inv sectors s \<and> never_fails (ops s)" "c < clust_cnt s"
    "clust_class (clust_cnt s) (fat_entry sectors s c) \<noteq> None"
  then show "\<exists>n f s'. get_fat c out s = (0, (n, f), s')"
    by (intro get_fat_ok) (auto simp: chain_inv_def)
next
  fix s :: "'a fs" and c v
  assume "chain_inv sectors s \<and> never_fails (ops s)" "c < clust_cnt s"
  then show "\<exists>s'. put_fat c v s = (0, s')"
    using put_fat_ok [of s c v] by (cases "put_fat c v s") auto
qed


section \<open>Properties\<close>

text \<open>Writing an entry writes both copies of the table when mirroring is on: in each copy exactly
  the entry of that cluster changes, its low 28 bits become the value and its reserved upper nibble
  stays as it was; no sector outside the tables changes.\<close>

theorem put_fat_mirrors:
  assumes "table_inv sectors s" and "c < clust_cnt s" and "put_fat c v s = (0, s')"
    and "base = fat_sect0 s \<or> fat_sect1 s \<noteq> 0 \<and> base = fat_sect1 s" and "d < clust_cnt s"
  shows "entry_at sectors s' base d AND 0x0fffffff =
      (if d = c then v AND 0x0fffffff else entry_at sectors s base d AND 0x0fffffff) \<and>
    entry_at sectors s' base d AND 0xf0000000 = entry_at sectors s base d AND 0xf0000000 \<and>
    (\<forall>m. m \<noteq> 0 \<and> \<not> in_fats s m \<longrightarrow> vsec sectors s' m = vsec sectors s m)"
  using put_fat_spec [OF assms(1-3)] assms(4,5) by auto

text \<open>C40. \<open>remove_chain\<close> returns on every table, however corrupt: fuel for one turn more than there are
  clusters is always enough, because each turn frees an entry that was in use.\<close>

theorem remove_chain_terminates:
  assumes "table_inv sectors s" and "c < clust_cnt s" and "unat (clust_cnt s) < fuel"
  shows "\<exists>e s'. remove_chain fuel c out s = Some (e, s')"
  by (rule remove_chain_total [OF assms])

text \<open>C18. Removing a well-formed chain on a disk that works succeeds, frees exactly its clusters in the
  table, adds their number to the free count, and everything is on the disk when it returns, the
  FsInfo sector included.\<close>

theorem remove_chain_frees:
  assumes "table_inv sectors s" and "never_fails (ops s)"
    and "is_chain (fat_entry sectors s) (clust_cnt s) (c # cs)" and "length cs < fuel"
  shows "\<exists>s'. remove_chain fuel c out s = Some (0, s') \<and>
    (\<forall>d. d < clust_cnt s \<longrightarrow>
      fat_entry sectors s' d = (if d \<in> set (c # cs) then 0 else fat_entry sectors s d)) \<and>
    free_cnt s' = free_cnt s + of_nat (length (c # cs)) \<and>
    (\<forall>n. n \<noteq> 0 \<longrightarrow> sectors (dsk s') n = vsec sectors s' n)"
proof -
  let ?s = "s\<lparr>fat_flags := fat_flags s OR FAT_INFO_DIRTY\<rparr>"
  have ci: "chain_inv sectors ?s \<and> never_fails (ops ?s)" using assms(1,2) by (simp add: chain_inv_def)
  obtain s1 where 1: "remove_loop get_fat put_fat free_bump fuel c out ?s = Some (0, s1)"
    using rfat.remove_loop_succeeds [OF ci _ assms(4), of c out] assms(3) by auto
  have "never_fails (ops s1)" using rfat.remove_loop_chain [OF ci _ 1] assms(3) by auto
  then obtain s' where "sync_fs s1 = (0, s')" using sync_fs_ok [of s1] by (cases "sync_fs s1") auto
  with 1 have r: "remove_chain fuel c out s = Some (0, s')" by (simp add: remove_chain_def Let_def)
  from remove_chain_spec [OF assms(1,3) r] show ?thesis using r by blast
qed

lemma and_28: "v < 0x10000000 \<Longrightarrow> v AND 0x0fffffff = (v :: u32)"
proof -
  assume "v < 0x10000000"
  then have "v AND mask 28 = v" by (intro less_mask_eq) simp
  then show ?thesis by (simp add: mask_eq_exp_minus_1)
qed

lemma is_chain_snoc:
  "is_chain e l (cs @ [p]) \<Longrightarrow> p \<noteq> n \<Longrightarrow> 2 \<le> n \<Longrightarrow> l' = l \<Longrightarrow> n < l \<Longrightarrow> n < 0x0ffffff7 \<Longrightarrow> e n = 0 \<Longrightarrow>
    (\<And>d. d < l' \<Longrightarrow> e' d = (if d = n then 0x0fffffff else if d = p then n else e d)) \<Longrightarrow>
    is_chain e' l' (cs @ [p, n])"
proof (induction cs)
  case Nil
  then show ?case by (simp add: class_used)
next
  case (Cons c cs)
  have ch: "is_chain e l (cs @ [p])"
    using is_chain_suffix [of e l "[c]" "cs @ [p]"] Cons.prems(1) by simp
  then have r: "is_chain e' l' (cs @ [p, n])" using Cons by blast
  have cp: "c \<noteq> p" using is_chain_distinct [OF Cons.prems(1)] by simp
  have c: "c < l" "e c \<noteq> 0" using is_chain_bounds [OF Cons.prems(1)] by auto
  then have "e' c = e c" using Cons.prems(4,7,8) cp by auto
  then show ?case
    using Cons.prems(1,4) r c by (cases cs) auto
qed

lemma stretch_chain_succeeds:
  assumes inv: "table_inv sectors s" and nf: "never_fails (ops s)"
    and pv: "prev < clust_cnt s" "prev \<noteq> 0" and lu: "2 \<le> last_used s" "last_used s < clust_cnt s"
    and sound: "\<forall>d. 2 \<le> d \<and> d < clust_cnt s \<longrightarrow> clust_class (clust_cnt s) (fat_entry sectors s d) \<noteq> None"
    and free: "2 \<le> fc" "fc < clust_cnt s" "fc \<noteq> last_used s" "fat_entry sectors s fc = 0"
    and fuel: "unat (clust_cnt s) + unat (clust_cnt s) < fuel"
  shows "\<exists>n s'. stretch_chain fuel prev out out_clust s = Some (0, n, s')"
proof -
  let ?s = "s\<lparr>fat_flags := fat_flags s OR FAT_INFO_DIRTY\<rparr>" and ?inv = "\<lambda>s. chain_inv sectors s \<and> never_fails (ops s)"
  have ci: "?inv ?s" using inv nf by (simp add: chain_inv_def)
  let ?c = "fat.nxt_clust ?s prev"
  have c: "?c < clust_cnt s" "2 \<le> ?c" using fat.nxt_clust_unat(2,3) [of prev ?s] pv lu by simp_all
  have ceq: "(if clust_cnt s \<le> prev + 1 then 2 else prev + 1) = ?c" by (simp add: fat.nxt_clust_def)
  obtain m f t where 1: "get_fat ?c out ?s = (0, (m, f), t)"
    using rfat.get_total [of sectors ?s ?c out] ci c sound by auto
  have g: "?inv t" "clust_cnt t = clust_cnt s" "last_used t = last_used s"
      "\<And>d. d < clust_cnt s \<Longrightarrow> fat_entry sectors t d = fat_entry sectors s d"
    using rfat.get_ok [OF ci _ 1] c by auto
  have link: "\<exists>s'. link_clust prev n out_clust u = (0, n, s')" if a: "?inv u" "n < clust_cnt u" "prev < clust_cnt u" for u n
  proof -
    obtain s1 where 1: "put_fat n 0x0fffffff u = (0, s1)" using rfat.put_total [OF a(1,2)] by blast
    have s1: "?inv s1" "clust_cnt s1 = clust_cnt u" using rfat.put_ok [OF a(1,2) 1] by auto
    obtain s2 where 2: "put_fat prev n s1 = (0, s2)" using rfat.put_total [OF s1(1), of prev n] a(3) s1(2) by auto
    have s2: "?inv s2" using rfat.put_ok [OF s1(1) _ 2] a(3) s1(2) by auto
    define s3 where "s3 = s2\<lparr>last_used := n, free_cnt := free_cnt s2 - 1\<rparr>"
    have "fst (sync_fs s3) = 0" using s2 by (intro sync_fs_ok) (simp add: s3_def)
    then show ?thesis
      using pv(2) by (cases "sync_fs s3") (simp add: link_clust_def 1 2 Let_def s3_def)
  qed
  show ?thesis
  proof (cases "has f CLUST_FREE")
    case True
    then show ?thesis using link [OF g(1), of ?c] g c pv 1 ceq by (auto simp: stretch_chain_def Let_def)
  next
    case False
    have lu0: "last_used s \<noteq> 0" using lu(1) by auto
    have "rfat.between t (last_used t) fc"
      using free g lu unfolding rfat.between_def by auto
    moreover have "rfat.ahead t (last_used t) \<le> fuel"
      using fuel g lu unfolding rfat.ahead_def by (auto simp: word_less_nat_alt)
    ultimately obtain n u where 2: "scan_loop get_fat clust_cnt last_used fuel (last_used t) (m, f) t = Some (0, True, n, u)"
      using rfat.scan_loop_succeeds [OF g(1), of "last_used t" fuel fc "(m, f)"] g lu lu0 sound free by auto
    have "?inv u" "clust_cnt u = clust_cnt s" "n < clust_cnt s"
      using rfat.scan_loop_result [OF g(1) _ _ _ _ 2] g lu lu0 by auto
    with link [of u n] pv show ?thesis using 1 2 ceq False by (auto simp: stretch_chain_def Let_def)
  qed
qed



lemma link_clust_err:
  assumes inv: "chain_inv sectors s" and n: "n < clust_cnt s" and pv: "prev < clust_cnt s"
    and r: "link_clust prev n out_clust s = (e, n', s')"
  shows "e \<in> {0, FAT_ERR_IO}"
proof -
  obtain e1 s1 where 1: "put_fat n 0x0fffffff s = (e1, s1)" by (metis surj_pair)
  obtain e2 s2 where 2: "(if prev \<noteq> 0 then put_fat prev n s1 else (FAT_ERR_NONE, s1)) = (e2, s2)"
    by (metis surj_pair)
  define s3 where "s3 = s2\<lparr>last_used := n, free_cnt := free_cnt s2 - 1\<rparr>"
  obtain e4 s4 where 4: "sync_fs s3 = (e4, s4)" by (metis surj_pair)
  have p1: "e1 \<in> {0, FAT_ERR_IO}" using put_fat_spec [OF _ n 1] inv unfolding chain_inv_def by blast
  show ?thesis
  proof (cases "e1 = 0")
    case False
    then show ?thesis using r p1 by (auto simp: link_clust_def 1)
  next
    case True
    have s1: "chain_inv sectors s1" "clust_cnt s1 = clust_cnt s" using fat.put_ok [OF inv n 1 [unfolded True]] by auto
    have p2: "e2 \<in> {0, FAT_ERR_IO} \<and> (e2 = 0 \<longrightarrow> chain_inv sectors s2)"
    proof (cases "prev = 0")
      case True
      then show ?thesis using 2 s1 by (auto simp: FAT_ERR_NONE_def)
    next
      case False
      then have q: "put_fat prev n s1 = (e2, s2)" using 2 by simp
      have "e2 \<in> {0, FAT_ERR_IO}" using put_fat_spec [OF _ _ q] s1 pv unfolding chain_inv_def by metis
      moreover have "chain_inv sectors s2" if "e2 = 0"
        using fat.put_ok [OF s1(1) _ q [unfolded that]] s1 pv by auto
      ultimately show ?thesis by blast
    qed
    show ?thesis
    proof (cases "e2 = 0")
      case False
      then show ?thesis using r p2 True by (auto simp: link_clust_def 1 2)
    next
      case e2: True
      then have "table_inv sectors s3" using p2 by (simp add: s3_def chain_inv_def table_inv_def)
      from sync_fs_table [OF this 4] show ?thesis
        using r True e2 4 by (simp add: link_clust_def 1 2 Let_def s3_def)
    qed
  qed
qed

text \<open>\<open>stretch_chain\<close> reports a full volume only when every data cluster in the scan's range is in
  use; the hint cluster itself is the only one it never looks at.\<close>

theorem stretch_chain_full:
  assumes inv: "table_inv sectors s" and lu: "2 \<le> last_used s" "last_used s < clust_cnt s"
    and r: "stretch_chain fuel 0 out out_clust s = Some (FAT_ERR_FULL, n, s')"
    and d: "2 \<le> d" "d < clust_cnt s" "d \<noteq> last_used s"
  shows "fat_entry sectors s d \<noteq> 0"
proof -
  let ?s = "s\<lparr>fat_flags := fat_flags s OR FAT_INFO_DIRTY\<rparr>"
  have ci: "chain_inv sectors ?s" using inv by (simp add: chain_inv_def)
  have lu0: "last_used s \<noteq> 0" using lu(1) by auto
  obtain e b c u where 1: "scan_loop get_fat clust_cnt last_used fuel (last_used ?s) out ?s = Some (e, b, c, u)"
    using r by (auto simp: stretch_chain_def Let_def split: option.splits)
  note p = fat.scan_loop_result [OF ci _ _ _ _ 1]
  have e: "e = FAT_ERR_FULL"
  proof (cases b)
    case True
    have "chain_inv sectors u" "c < clust_cnt u" using p True lu lu0 by auto
    moreover from this have "0 < clust_cnt u" by (auto simp: word_less_nat_alt)
    moreover have "link_clust 0 c out_clust u = (FAT_ERR_FULL, n, s')"
      using r 1 True by (simp add: stretch_chain_def Let_def)
    ultimately show ?thesis using link_clust_err [of sectors u c 0 out_clust FAT_ERR_FULL n s'] by (simp add: FAT_ERR_FULL_def FAT_ERR_IO_def)
  qed (use r 1 in \<open>simp add: stretch_chain_def Let_def\<close>)
  have "fat.between ?s (last_used s) d" using d lu unfolding fat.between_def by auto
  then show ?thesis using p e lu lu0 by auto
qed

section \<open>An example volume\<close>

definition demo_disk :: "u32 \<Rightarrow> u8 list" where
  "demo_disk n = (if n = 32 \<or> n = 33 then st32 (st32 (replicate 512 0) 8 3) 12 0x0fffffff else replicate 512 0)"

abbreviation demo :: "(u32 \<Rightarrow> u8 list) fs" where
  "demo \<equiv> ram_fs demo_disk"

lemma ld32_blank: "i + 3 < n \<Longrightarrow> ld32 (replicate n 0) i = 0"
  by (simp add: ld32_def)

lemma demo_entry: "c < 128 \<Longrightarrow> fat_entry ram_sec demo c = (if c = 2 then 3 else if c = 3 then 0x0fffffff else 0)"
proof -
  assume c: "c < 128"
  then have u: "unat c < 128" by (simp add: word_less_nat_alt)
  then have d: "c div 128 = 0" "c mod 128 = c" by (simp_all add: word_unat_eq_iff unat_div unat_mod)
  have e: "fat_entry ram_sec demo c = ld32 (st32 (st32 (replicate 512 0) 8 3) 12 0x0fffffff) (4 * unat c) AND 0x0fffffff"
    by (simp add: fat_entry_def entry_at_def d vsec_def ram_fs_def ram_sec_def demo_disk_def)
  consider "c = 2" | "c = 3" | "unat c \<noteq> 2" "unat c \<noteq> 3" by (auto simp: word_unat_eq_iff)
  then show ?thesis
  proof cases
    case 3
    have "ld32 (st32 (st32 (replicate 512 0) 8 3) 12 0x0fffffff) (4 * unat c) = 0"
    proof (cases "unat c < 2")
      case True
      then show ?thesis by (simp add: ld32_blank)
    next
      case False
      then have "3 < unat c" using 3 by linarith
      then show ?thesis using u by (simp add: ld32_blank)
    qed
    moreover have "c \<noteq> 2" "c \<noteq> 3" using 3 by (auto simp: word_unat_eq_iff)
    ultimately show ?thesis using e by simp
  qed (unfold e, simp_all)
qed

lemma demo_fields:
  "clust_cnt demo = 128" "fat_sect0 demo = 32" "fat_sect1 demo = 33" "last_used demo = 3" "free_cnt demo = 124"
  "ops demo = ram_ops" "info_sect demo = 1"
  by (simp_all add: ram_fs_def)

lemma demo_inv: "table_inv ram_sec demo"
  by (simp add: table_inv_def cache_inv_ram geom_def fat_len_def demo_fields in_area_def)

lemma demo_chain: "is_chain (fat_entry ram_sec demo) (clust_cnt demo) [2, 3]"
  by (simp add: demo_fields demo_entry class_used)

theorem put_fat_mirrors_witness:
  "\<exists>s'. put_fat 4 0x0fffffff demo = (0, s') \<and>
    entry_at ram_sec s' 33 4 AND 0x0fffffff = 0x0fffffff \<and> entry_at ram_sec s' 32 4 AND 0x0fffffff = 0x0fffffff"
proof -
  obtain s' where r: "put_fat 4 0x0fffffff demo = (0, s')"
    using put_fat_ok [of demo 4 "0x0fffffff"] ram_never_fails
    by (cases "put_fat 4 0x0fffffff demo") (auto simp: demo_fields)
  show ?thesis
    using r put_fat_mirrors [OF demo_inv _ r, of 33 4] put_fat_mirrors [OF demo_inv _ r, of 32 4]
    by (simp add: demo_fields)
qed

theorem remove_chain_terminates_witness:
  "\<exists>e s'. remove_chain 200 7 (0, 0) demo = Some (e, s')"
  by (rule remove_chain_terminates [OF demo_inv]) (simp_all add: demo_fields)

theorem remove_chain_frees_witness:
  "\<exists>s'. remove_chain 2 2 (0, 0) demo = Some (0, s') \<and> fat_entry ram_sec s' 2 = 0 \<and>
    fat_entry ram_sec s' 3 = 0 \<and> free_cnt s' = 126"
proof -
  from remove_chain_frees [OF demo_inv _ demo_chain, of 2 "(0, 0)"]
  obtain s' where r: "remove_chain 2 2 (0, 0) demo = Some (0, s')" "free_cnt s' = 124 + 2"
    "\<And>d. d < 128 \<Longrightarrow> fat_entry ram_sec s' d = (if d \<in> {2, 3} then 0 else fat_entry ram_sec demo d)"
    by (auto simp: demo_fields ram_never_fails)
  then show ?thesis by simp
qed


theorem stretch_chain_full_witness:
  "\<exists>n s'. stretch_chain 3 0 (0, 0) 0 (demo\<lparr>clust_cnt := 4\<rparr>) = Some (FAT_ERR_FULL, n, s') \<and>
    fat_entry ram_sec (demo\<lparr>clust_cnt := 4\<rparr>) 2 \<noteq> 0"
proof -
  let ?s = "demo\<lparr>clust_cnt := 4\<rparr>"
  have i: "table_inv ram_sec ?s"
    by (simp add: table_inv_def cache_inv_def geom_def fat_len_def demo_fields in_area_def)
      (simp add: ram_fs_def good_ram)
  let ?t = "?s\<lparr>fat_flags := fat_flags ?s OR FAT_INFO_DIRTY\<rparr>"
  have e: "fat_entry ram_sec ?t 2 = 3"
    using demo_entry [of 2] by (simp add: fat_entry_def entry_at_def vsec_def demo_fields) (simp add: ram_fs_def)
  have "\<exists>n f s'. get_fat 2 (0, 0) ?t = (0, (n, f), s')"
    by (rule get_fat_ok [of ram_sec], simp only: table_inv_flags i)
      (use e in \<open>auto simp: demo_fields ram_never_fails clust_class_def\<close>)
  then obtain n f s' where g: "get_fat 2 (0, 0) ?t = (0, (n, f), s')" by blast
  have ci: "chain_inv ram_sec ?t" unfolding chain_inv_def table_inv_flags using i by simp
  have "clust_class 4 3 = Some f" "clust_cnt s' = 4" "last_used s' = 3"
    using fat.get_ok [OF ci _ g] e by (auto simp: demo_fields)
  then have "stretch_chain 3 0 (0, 0) 0 ?s = Some (FAT_ERR_FULL, 0, s')"
    using g by (simp add: stretch_chain_def Let_def numeral_3_eq_3 demo_fields clust_class_def)
  then show ?thesis
    using stretch_chain_full [OF i _ _ _, of 3 "(0, 0)" 0 0 s' 2] by (auto simp: demo_fields)
qed

section \<open>What the code does on bad input\<close>

definition dead_ops :: "(u32 \<Rightarrow> u8 list) DiskOps" where
  "dead_ops = \<lparr>op_read = (\<lambda>dv b n d. (False, b, d)), op_write = (\<lambda>dv b n d. (False, d))\<rparr>"

text \<open>The scan in \<open>stretch_chain\<close> returns \<open>flags\<close> instead of \<open>err\<close>: when the very first read fails and
  the uninitialised \<open>flags\<close> happens to be zero, \<open>create_chain\<close> reports success without having
  allocated anything or set its out-parameter.
\<close>

theorem create_chain_false_success:
  "\<exists>s'. create_chain 1 (x, 0) garbage (demo\<lparr>ops := dead_ops\<rparr>) = Some (0, garbage, s') \<and> dsk s' = dsk demo"
proof -
  let ?s = "demo\<lparr>ops := dead_ops\<rparr>"
  let ?t = "?s\<lparr>fat_flags := fat_flags ?s OR FAT_INFO_DIRTY\<rparr>"
  have "get_fat 4 (x, 0) ?t = (FAT_ERR_IO, (x, 0), ?t)"
    by (simp add: get_fat_def update_buf_def sync_buf_def dead_ops_def ram_fs_def Let_def FAT_ERR_NONE_def
        FAT_ERR_IO_def)
  then show ?thesis
    by (simp add: create_chain_def stretch_chain_def Let_def demo_fields FAT_ERR_IO_def)
qed

text \<open>
  An empty file of another system has first cluster 0. \<open>fat_unlink\<close> hands it to \<open>remove_chain\<close>, which
  takes the media entry FAT[0] for a one-cluster chain and clears it.
\<close>

theorem remove_chain_of_empty_file:
  assumes "table_inv sectors s" and "never_fails (ops s)" and "0 < clust_cnt s"
    and "0x0ffffff8 \<le> fat_entry sectors s 0"
  shows "\<exists>s'. remove_chain 1 0 out s = Some (0, s') \<and> fat_entry sectors s' 0 = 0 \<and> free_cnt s' = free_cnt s + 1"
  using remove_chain_frees [OF assms(1,2), of 0 "[]" 1 out] assms(3,4) by auto

text \<open>
  \<open>fat_mount\<close> takes the hint \<open>next_free\<close> from the disk unchecked. With a hint outside the data clusters and
  no cluster free, the scan never meets its stop mark: no amount of fuel is enough.
\<close>

theorem create_chain_diverges:
  assumes inv: "table_inv sectors s" and nf: "never_fails (ops s)" and lim: "2 < clust_cnt s"
    and hint: "clust_cnt s \<le> last_used s" "last_used s \<noteq> 0xffffffff"
    and full: "\<And>d. 2 \<le> d \<Longrightarrow> d < clust_cnt s \<Longrightarrow>
      fat_entry sectors s d \<noteq> 0 \<and> clust_class (clust_cnt s) (fat_entry sectors s d) \<noteq> None"
  shows "create_chain fuel out out_clust s = None"
proof -
  let ?n = "\<lambda>c. if clust_cnt s \<le> c + 1 then 2 else c + 1"
  have rng: "2 \<le> ?n c \<and> ?n c < clust_cnt s" if "2 \<le> c" "c \<noteq> 0xffffffff" for c
  proof -
    have "unat c < 2 ^ LENGTH(32)" by (rule unsigned_less)
    moreover have "unat c \<noteq> 2 ^ 32 - 1" using that(2) by (simp add: word_unat_eq_iff)
    ultimately have "unat (c + 1) = unat c + 1" by (simp add: unat_word_ariths)
    then show ?thesis using that(1) lim by (auto simp: word_less_nat_alt word_le_nat_alt)
  qed
  have "scan_loop get_fat clust_cnt last_used fuel c out t = None"
    if "chain_inv sectors t \<and> never_fails (ops t)" "clust_cnt t = clust_cnt s" "last_used t = last_used s"
      "\<And>d. d < clust_cnt s \<Longrightarrow> fat_entry sectors t d = fat_entry sectors s d" "2 \<le> c" "c \<noteq> 0xffffffff" for c out t
    using that
  proof (induction fuel arbitrary: c out t)
    case (Suc fuel)
    have c: "2 \<le> ?n c" "?n c < clust_cnt s" using rng [OF Suc.prems(5,6)] by blast+
    then have ne: "?n c \<noteq> last_used s" using hint(1) by auto
    have mx: "?n c \<noteq> 0xffffffff"
    proof
      assume "?n c = 0xffffffff"
      then have "0xffffffff < clust_cnt s" using c(2) by simp
      moreover have "unat (clust_cnt s) < 2 ^ LENGTH(32)" by (rule unsigned_less)
      ultimately show False by (simp add: word_less_nat_alt)
    qed
    obtain n f u where 1: "get_fat (?n c) out t = (0, (n, f), u)"
      using rfat.get_total [OF Suc.prems(1), of "?n c" out] Suc.prems(2,4) c full by auto
    have g: "chain_inv sectors u \<and> never_fails (ops u)" "clust_cnt u = clust_cnt s" "last_used u = last_used s"
        "n = fat_entry sectors s (?n c)" "clust_class (clust_cnt s) n = Some f"
        "\<And>d. d < clust_cnt s \<Longrightarrow> fat_entry sectors u d = fat_entry sectors s d"
      using rfat.get_ok [OF Suc.prems(1) _ 1] Suc.prems(2-4) c by auto
    have "\<not> has f CLUST_FREE" using g(4,5) full [OF c] by (auto simp: clust_class_def split: if_splits)
    moreover have "scan_loop get_fat clust_cnt last_used fuel (?n c) (n, f) u = None"
      by (rule Suc.IH [OF g(1-3) g(6) c(1) mx])
    ultimately show ?case using 1 ne Suc.prems(2,3) by (simp add: Let_def)
  qed simp
  moreover have "2 \<le> last_used s" using lim hint(1) by (auto simp: word_less_nat_alt word_le_nat_alt)
  ultimately show ?thesis
    using inv nf hint(2) by (simp add: create_chain_def stretch_chain_def Let_def chain_inv_def)
qed

end
