(* ===== verification/FatDir.thy ===== *)
theory FatDir
  imports FatTable
begin

text \<open>
  Directories: the cursor (\<open>dir_next\<close> and its relatives), names (\<open>parse_lfn_name\<close>, \<open>dir_search\<close>),
  and the creation and removal of entries (\<open>dir_add\<close>, \<open>remove_entries\<close>), on one volume.

  A pointer to an entry is the byte offset of the entry in the sector buffer, as in the code, where
  it is only valid as long as the buffer is not reused. Loops over a directory follow the cluster
  chain and may not end when the chain is cyclic: they take fuel. Locals that are only
  read after \<open>get_fat\<close> has set them are passed as zero.
\<close>

section \<open>The cursor\<close>

definition dir_at_clust :: "'d fs \<Rightarrow> u32 \<Rightarrow> Dir \<Rightarrow> Dir" where
  "dir_at_clust s clust dir =
     dir\<lparr>dir_clust := clust, dir_sect := clust_to_sect s clust, dir_idx := 0\<rparr>"

definition dir_enter :: "'d fs \<Rightarrow> u32 \<Rightarrow> Dir \<Rightarrow> Dir" where
  "dir_enter s clust dir =
    (let clust = (if clust = 0 then root_clust s else clust) in
     dir_at_clust s clust (dir\<lparr>dir_sclust := clust\<rparr>))"

definition dir_next :: "Dir \<Rightarrow> 'd fs \<Rightarrow> int \<times> Dir \<times> 'd fs" where
  "dir_next dir s =
    (let dir = dir\<lparr>dir_idx := dir_idx dir + 32\<rparr> in
     if dir_idx dir < 512 then (FAT_ERR_NONE, dir, s)
     else (let dir = dir\<lparr>dir_idx := 0\<rparr>; dir = dir\<lparr>dir_sect := dir_sect dir + 1\<rparr> in
       if dir_sect dir AND clust_msk s \<noteq> 0 then (FAT_ERR_NONE, dir, s)
       else (case get_fat (dir_clust dir) (0, 0) s of (err, (nxt, flags), s) \<Rightarrow>
         if err \<noteq> 0 then (err, dir, s)
         else if has flags (CLUST_BAD OR CLUST_FREE) then (FAT_ERR_BROKEN, dir, s)
         else if has flags CLUST_LAST then (FAT_ERR_EOF, dir, s)
         else (FAT_ERR_NONE, dir_at_clust s nxt dir, s))))"

primrec dir_advance :: "nat \<Rightarrow> Dir \<Rightarrow> 'd fs \<Rightarrow> int \<times> Dir \<times> 'd fs" where
  "dir_advance 0 dir s = (FAT_ERR_NONE, dir, s)"
| "dir_advance (Suc cnt) dir s =
     chk (dir_next dir s) (\<lambda>(dir, s). dir_advance cnt dir s) Pair"

definition dir_next_stretch :: "nat \<Rightarrow> Dir \<Rightarrow> 'd fs \<Rightarrow> (int \<times> Dir \<times> 'd fs) option" where
  "dir_next_stretch fuel dir s =
    (case dir_next dir s of (err, dir, s) \<Rightarrow>
      if err \<noteq> FAT_ERR_EOF then Some (err, dir, s)
      else (case stretch_chain fuel (dir_clust dir) (0, 0) 0 s of
          None \<Rightarrow> None
        | Some (err, nxt, s) \<Rightarrow>
            if err \<noteq> 0 then Some (err, dir, s)
            else (let dir = dir_at_clust s nxt dir in
              case clust_clear (dir_clust dir) s of (err, s) \<Rightarrow> Some (err, dir, s))))"

definition dir_ptr :: "Dir \<Rightarrow> nat" where
  "dir_ptr dir = unat (dir_idx dir)"

section \<open>Entries\<close>

text \<open>Fields of the packed \<open>Sfn\<close> and \<open>Lfn\<close> at offset \<open>p\<close> of a sector.\<close>

definition sfn_name :: "u8 list \<Rightarrow> nat \<Rightarrow> u8 list" where
  "sfn_name b p = take 11 (drop p b)"

definition sfn_attr :: "u8 list \<Rightarrow> nat \<Rightarrow> u8" where
  "sfn_attr b p = b ! (p + 11)"

definition sfn_is_last :: "u8 list \<Rightarrow> nat \<Rightarrow> bool" where
  "sfn_is_last b p \<longleftrightarrow> b ! p = SFN_LAST"

definition sfn_is_free :: "u8 list \<Rightarrow> nat \<Rightarrow> bool" where
  "sfn_is_free b p \<longleftrightarrow> b ! p = SFN_LAST \<or> b ! p = SFN_FREE"

definition sfn_is_lfn :: "u8 list \<Rightarrow> nat \<Rightarrow> bool" where
  "sfn_is_lfn b p \<longleftrightarrow> sfn_attr b p = FAT_ATTR_LFN"

definition sfn_cluster :: "u8 list \<Rightarrow> nat \<Rightarrow> u32" where
  "sfn_cluster b p = push_bit 16 (ucast (ld16 b (p + 20))) OR ucast (ld16 b (p + 26))"

section \<open>Names\<close>

text \<open>The loop \<open>while (cnt--)\<close>; \<open>b\<close> is the buffer \<open>lfn\<close> points into.\<close>

primrec parse_lfn_loop :: "nat \<Rightarrow> Dir \<Rightarrow> 'd fs \<Rightarrow> int \<times> Dir \<times> 'd fs" where
  "parse_lfn_loop 0 dir s =
     (if unat (g_len s) \<le> 255 then FAT_ERR_NONE else FAT_ERR_BROKEN, dir, s)"
| "parse_lfn_loop (Suc cnt) dir s =
    (let b = fat_buf s; p = dir_ptr dir in
     if sfn_attr b p \<noteq> FAT_ATTR_LFN \<or> b ! (p + 13) \<noteq> g_crc s then (FAT_ERR_BROKEN, dir, s)
     else (case lfn_chars b p (13 * cnt) g_lfn_indices (g_buf s) (g_len s) of (ok, g, n) \<Rightarrow>
       (let s = s\<lparr>g_buf := g, g_len := n\<rparr> in
        if \<not> ok then (FAT_ERR_BROKEN, dir, s)
        else chk (dir_next dir s)
          (\<lambda>(dir, s). chk (update_buf (dir_sect dir) s)
            (\<lambda>s. parse_lfn_loop cnt dir s)
            (\<lambda>err s. (err, dir, s)))
          Pair)))"

definition parse_lfn_name :: "Dir \<Rightarrow> 'd fs \<Rightarrow> int \<times> Dir \<times> 'd fs" where
  "parse_lfn_name dir s =
     chk (update_buf (dir_sect dir) s)
       (\<lambda>s. let b = fat_buf s; p = dir_ptr dir; s = s\<lparr>g_crc := b ! (p + 13), g_len := 0\<rparr> in
         if b ! p AND LFN_HEAD_MSK = 0 then (FAT_ERR_BROKEN, dir, s)
         else (let cnt = unat (b ! p AND LFN_SEQ_MSK) in
           if 20 < cnt then (FAT_ERR_BROKEN, dir, s)
           else parse_lfn_loop cnt dir s))
       (\<lambda>err s. (err, dir, s))"

definition parse_sfn_name :: "u8 list \<Rightarrow> 'd fs \<Rightarrow> 'd fs" where
  "parse_sfn_name name s = (let t = sfn_text name in
     s\<lparr>g_buf := blit (g_buf s) 0 t, g_len := of_nat (length t)\<rparr>)"

text \<open>
  The loop of \<open>dir_search\<close>: \<open>loc\<close> is \<^term>\<open>None\<close> when the caller passes \<open>NULL\<close>. The step
  \<open>err = dir_next(dir)\<close> of the \<open>for\<close> is taken at the end of a turn.
\<close>

primrec search_loop :: "nat \<Rightarrow> u8 list \<Rightarrow> u8 list \<Rightarrow> nat \<Rightarrow> Dir \<Rightarrow> Loc option \<Rightarrow> 'd fs \<Rightarrow>
    (int \<times> Dir \<times> Loc option \<times> 'd fs) option" where
  "search_loop 0 sfn name len dir loc s = None"
| "search_loop (Suc fuel) sfn name len dir loc s =
    (case update_buf (dir_sect dir) s of (err, s) \<Rightarrow>
     if err \<noteq> 0 then Some (err, dir, loc, s)
     else (let b = fat_buf s; p = dir_ptr dir in
     if sfn_is_last b p then Some (FAT_ERR_EOF, dir, loc, s)
     else (let next_turn = (\<lambda>dir loc s. case dir_next dir s of (err, dir, s) \<Rightarrow>
              if err \<noteq> 0 then Some (err, dir, loc, s)
              else search_loop fuel sfn name len dir loc s) in
     if sfn_is_free b p then next_turn dir loc s
     else (let loc = map_option (\<lambda>_. \<lparr>loc_sect = dir_sect dir, loc_idx = dir_idx dir\<rparr>) loc in
     if sfn_is_lfn b p then
       (case parse_lfn_name dir s of (err, dir, s) \<Rightarrow>
        if err \<noteq> 0 then Some (err, dir, loc, s)
        else (let b = fat_buf s; p = dir_ptr dir in
          if sfn_is_free b p \<or> sfn_is_lfn b p \<or> g_crc s \<noteq> get_crc (sfn_name b p)
            then Some (FAT_ERR_BROKEN, dir, loc, s)
          else if unat (g_len s) = len \<and> take len (g_buf s) = take len name
            then Some (FAT_ERR_NONE, dir, loc, s)
          else next_turn dir loc s))
     else if sfn = sfn_name b p then Some (FAT_ERR_NONE, dir, loc, s)
     else next_turn dir loc s))))"

definition dir_search :: "nat \<Rightarrow> u8 list \<Rightarrow> nat \<Rightarrow> Dir \<Rightarrow> Loc option \<Rightarrow> 'd fs \<Rightarrow>
    (int \<times> Dir \<times> Loc option \<times> 'd fs) option" where
  "dir_search fuel name len dir loc s =
     search_loop fuel (put_sfn_name name len) name len (dir_at_clust s (dir_sclust dir) dir) loc s"

definition dir_at_root :: "Dir \<Rightarrow> 'd fs \<Rightarrow> bool" where
  "dir_at_root dir s \<longleftrightarrow> dir_clust dir = root_clust s \<and>
     dir_sect dir = clust_to_sect s (root_clust s) \<and> dir_idx dir = 0"


section \<open>Paths\<close>

lemma length_skip_slashes: "length (skip_slashes str) \<le> length str"
  by (induction str) auto

lemma subpath_len_le: "subpath_len str \<le> length str"
  by (induction str) auto

text \<open>
  The loop of \<open>follow_path\<close> on the volume that has been found. The result carries \<open>*path\<close>, the part of
  the path that is left.
\<close>

function (sequential) follow_loop :: "nat \<Rightarrow> u8 list \<Rightarrow> Dir \<Rightarrow> u32 \<Rightarrow> bool \<Rightarrow> Loc option \<Rightarrow> 'd fs \<Rightarrow>
    (int \<times> u8 list \<times> Dir \<times> Loc option \<times> 'd fs) option" where
  "follow_loop fuel str dir dclust dir_enterable loc s =
    (let str = skip_slashes str; len = subpath_len str in
     if len = 0 then Some (FAT_ERR_NONE, str, dir, loc, s)
     else if \<not> dir_enterable then Some (FAT_ERR_PATH, str, dir, loc, s)
     else (case dir_search fuel str len (dir_enter s dclust dir) loc s of
         None \<Rightarrow> None
       | Some (err, dir, loc, s) \<Rightarrow>
           if err \<noteq> 0 then Some (err, str, dir, loc, s)
           else (let b = fat_buf s; p = dir_ptr dir in
             follow_loop fuel (drop len str) dir (sfn_cluster b p) (sfn_attr b p AND FAT_ATTR_DIR \<noteq> 0) loc s)))"
  by pat_completeness auto

termination
proof (relation "measure (\<lambda>(_, str, _). length str)", goal_cases)
  case (2 fuel str dir dclust dir_enterable loc s x xa)
  then show ?case
    using length_skip_slashes [of str] subpath_len_le [of "skip_slashes str"] by auto
qed simp

text \<open>\<open>follow_path\<close> after \<open>find_fat_volume\<close>: enter the root and follow.\<close>

definition follow_volume :: "nat \<Rightarrow> u8 list \<Rightarrow> Dir \<Rightarrow> Loc option \<Rightarrow> 'd fs \<Rightarrow>
    (int \<times> u8 list \<times> Dir \<times> Loc option \<times> 'd fs) option" where
  "follow_volume fuel str dir loc s =
    (let dir = dir_enter s (root_clust s) dir in
     follow_loop fuel str dir (dir_clust dir) True loc s)"

section \<open>Removing and adding entries\<close>

primrec remove_entries_loop :: "nat \<Rightarrow> u32 \<Rightarrow> u16 \<Rightarrow> Dir \<Rightarrow> 'd fs \<Rightarrow> (int \<times> Dir \<times> 'd fs) option" where
  "remove_entries_loop 0 sect idx dir s = None"
| "remove_entries_loop (Suc fuel) sect idx dir s =
    (case update_buf (dir_sect dir) s of (err, s) \<Rightarrow>
     if err \<noteq> 0 then Some (err, dir, s)
     else (let s = s\<lparr>fat_buf := (fat_buf s)[dir_ptr dir := SFN_FREE]\<rparr>;
               s = s\<lparr>fat_flags := fat_flags s OR FAT_BUF_DIRTY\<rparr> in
       if dir_sect dir = sect \<and> dir_idx dir = idx then Some (FAT_ERR_NONE, dir, s)
       else (case dir_next dir s of (err, dir, s) \<Rightarrow>
         if err \<noteq> 0 then Some (err, dir, s)
         else remove_entries_loop fuel sect idx dir s)))"

definition remove_entries :: "nat \<Rightarrow> Dir \<Rightarrow> Loc \<Rightarrow> 'd fs \<Rightarrow> (int \<times> Dir \<times> 'd fs) option" where
  "remove_entries fuel dir loc s =
     remove_entries_loop fuel (dir_sect dir) (dir_idx dir)
       (dir\<lparr>dir_clust := sect_to_clust s (loc_sect loc), dir_sect := loc_sect loc, dir_idx := loc_idx loc\<rparr>) s"

text \<open>
  \<open>dir_add\<close>, first loop: look for \<open>need\<close> consecutive free entries. The local variables are
  \<open>cnt\<close>, \<open>eod\<close> and the location \<open>(sect, idx)\<close> of the first free entry of the run.
\<close>

primrec find_free_loop :: "nat \<Rightarrow> nat \<Rightarrow> nat \<Rightarrow> bool \<Rightarrow> u32 \<times> u16 \<Rightarrow> Dir \<Rightarrow> 'd fs \<Rightarrow>
    (int \<times> (bool \<times> u32 \<times> u16) \<times> Dir \<times> 'd fs) option" where
  "find_free_loop 0 need cnt eod at dir s = None"
| "find_free_loop (Suc fuel) need cnt eod at dir s =
    (if need \<le> cnt then Some (FAT_ERR_NONE, (eod, at), dir, s)
     else (case update_buf (dir_sect dir) s of (err, s) \<Rightarrow>
       if err \<noteq> 0 then Some (err, (eod, at), dir, s)
       else (let b = fat_buf s; p = dir_ptr dir;
                 free = (eod \<or> sfn_is_free b p);
                 at = (if free \<and> cnt = 0 then (dir_sect dir, dir_idx dir) else at);
                 cnt = (if free then cnt + 1 else 0);
                 eod = (eod \<or> sfn_is_last b p) in
         case dir_next_stretch fuel dir s of
           None \<Rightarrow> None
         | Some (err, dir, s) \<Rightarrow>
             if err \<noteq> 0 then Some (err, (eod, at), dir, s)
             else find_free_loop fuel need cnt eod at dir s)))"

text \<open>The bytes of one \<open>Lfn\<close> entry at offset \<open>p\<close>.\<close>

definition put_lfn :: "nat \<Rightarrow> u8 list \<Rightarrow> nat \<Rightarrow> u8 \<Rightarrow> u8 \<Rightarrow> u8 list \<Rightarrow> u8 list" where
  "put_lfn p name len seq crc b =
    (let b = put_lfn_name_frag p name len b;
         b = b[p + 11 := FAT_ATTR_LFN]; b = b[p := seq]; b = b[p + 13 := crc];
         b = b[p + 12 := 0] in
     st16 b (p + 26) 0)"

text \<open>The loop that creates the long-name entries, last fragment first; \<open>i\<close> fragments are left.\<close>

primrec put_lfns :: "nat \<Rightarrow> u8 \<Rightarrow> u8 list \<Rightarrow> nat \<Rightarrow> u8 \<Rightarrow> Dir \<Rightarrow> 'd fs \<Rightarrow> int \<times> Dir \<times> 'd fs" where
  "put_lfns 0 msk name len crc dir s = (FAT_ERR_NONE, dir, s)"
| "put_lfns (Suc i) msk name len crc dir s =
    chk (update_buf (dir_sect dir) s)
      (\<lambda>s. let s = s\<lparr>fat_flags := fat_flags s OR FAT_BUF_DIRTY\<rparr>; pos = 13 * i;
               s = s\<lparr>fat_buf := put_lfn (dir_ptr dir) (drop pos name) (min (len - pos) 13)
                     (msk OR of_nat (Suc i)) crc (fat_buf s)\<rparr> in
         chk (dir_next dir s) (\<lambda>(dir, s). put_lfns i 0 name len crc dir s) Pair)
      (\<lambda>err s. (err, dir, s))"

definition put_sfn :: "nat \<Rightarrow> u8 list \<Rightarrow> u32 \<Rightarrow> u8 \<Rightarrow> u16 \<Rightarrow> u16 \<Rightarrow> u8 list \<Rightarrow> u8 list" where
  "put_sfn p name clust attr date time b =
    (let b = blit b p name;
         b = st16 b (p + 20) (ucast (drop_bit 16 clust));
         b = st16 b (p + 26) (ucast (clust AND 0xffff));
         b = b[p + 11 := attr]; b = b[p + 12 := 0]; b = b[p + 13 := 0];
         b = st16 b (p + 14) time; b = st16 b (p + 22) time;
         b = st16 b (p + 16) date; b = st16 b (p + 24) date; b = st16 b (p + 18) date in
     st32 b (p + 28) 0)"

text \<open>What follows the search for room.\<close>

definition dir_add_at :: "u8 list \<Rightarrow> nat \<Rightarrow> u8 \<Rightarrow> u32 \<Rightarrow> Dir \<Rightarrow> 'd fs \<Rightarrow> int \<times> Dir \<times> 'd fs" where
  "dir_add_at name len attr clust dir s =
    (let lfns = (len + 12) div 13; sfn = put_sfn_name name len; crc = get_crc sfn in
     chk (put_lfns lfns LFN_HEAD_MSK name len crc dir s)
       (\<lambda>(dir, s). let (date, time) = encode_timestamp fat_get_timestamp in
         chk (update_buf (dir_sect dir) s)
           (\<lambda>s. let s = s\<lparr>fat_flags := fat_flags s OR FAT_BUF_DIRTY\<rparr>;
                    s = s\<lparr>fat_buf := put_sfn (dir_ptr dir) sfn clust attr date time (fat_buf s)\<rparr> in
              (FAT_ERR_NONE, dir, s))
           (\<lambda>err s. (err, dir, s)))
       Pair)"

definition dir_add :: "nat \<Rightarrow> u8 list \<Rightarrow> nat \<Rightarrow> u8 \<Rightarrow> u32 \<Rightarrow> Dir \<Rightarrow> 'd fs \<Rightarrow> (int \<times> Dir \<times> 'd fs) option" where
  "dir_add fuel name len attr clust dir s =
    (if len = 0 \<or> 255 < len then Some (FAT_ERR_PARAM, dir, s)
     else (let lfns = (len + 12) div 13; dir = dir_enter s (dir_sclust dir) dir in
       case find_free_loop fuel (lfns + 1) 0 False (0, 0) dir s of
         None \<Rightarrow> None
       | Some (err, (eod, sect, idx), dir, s) \<Rightarrow>
           if err \<noteq> 0 then Some (err, dir, s)
           else (let (err, s) = (if eod then
                    chk (update_buf (dir_sect dir) s)
                      (\<lambda>s. let s = s\<lparr>fat_buf := (fat_buf s)[dir_ptr dir := 0]\<rparr> in
                        (FAT_ERR_NONE, s\<lparr>fat_flags := fat_flags s OR FAT_BUF_DIRTY\<rparr>))
                      Pair
                    else (FAT_ERR_NONE, s)) in
             if err \<noteq> 0 then Some (err, dir, s)
             else Some (dir_add_at name len attr clust
               (dir\<lparr>dir_clust := sect_to_clust s sect, dir_sect := sect, dir_idx := idx\<rparr>) s))))"

end
