(* ===== verification/FatFile.thy ===== *)
theory FatFile
  imports FatDir
begin

text \<open>
  The interface of the library: probing and mounting, the list of mounted volumes, and the file and
  directory calls.

  The global state is the record \<open>gs\<close>: the memory of \<open>Fat\<close> structures, the head of the linked list,
  the disk and the static buffers. A call that works on one volume loads it, runs the one-volume
  function and stores it back (\<open>on_vol\<close>); no other volume is touched in between.
\<close>

section \<open>Probing\<close>

definition get_part_lba :: "u8 list \<Rightarrow> nat \<Rightarrow> u32 option" where
  "get_part_lba b part =
    (if ld16 b 510 \<noteq> 0xaa55 then None
     else if b ! (446 + 16 * part + 4) \<noteq> 0x0c then None
     else Some (ld32 b (446 + 16 * part + 8)))"

text \<open>
  \<open>check_fat\<close>. The division by \<open>sect_per_clust\<close> is the machine's: on RISC-V dividing by zero gives
  all ones, which passes the test.
\<close>

definition udiv32 :: "u32 \<Rightarrow> u32 \<Rightarrow> u32" where
  "udiv32 a b = (if b = 0 then 0xffffffff else a div b)"

definition check_fat :: "u8 list \<Rightarrow> bool" where
  "check_fat b =
    (if b ! 0 \<noteq> 0xeb \<and> b ! 0 \<noteq> 0xe9 then False
     else if b ! 16 \<noteq> 2 then False
     else if ld16 b 17 \<noteq> 0 \<or> ld16 b 19 \<noteq> 0 \<or> ld16 b 22 \<noteq> 0 then False
     else if ld16 b 48 \<noteq> 1 then False
     else if take 8 (drop 82 b) \<noteq> [0x46, 0x41, 0x54, 0x33, 0x32, 0x20, 0x20, 0x20] then False
     else if ld16 b 11 \<noteq> 512 then False
     else if ld16 b 40 AND 0x80 = 0 \<and> 1 < ld16 b 40 AND 0x0f then False
     else (let sect_cnt = ld32 b 32 - (ucast (ld16 b 14) + ucast (b ! 16) * ld32 b 36) in
       65525 \<le> udiv32 sect_cnt (ucast (b ! 13))))"

text \<open>The global state.\<close>

record 'd gs =
  vols :: "ptr \<Rightarrow> 'd Fat"
  g_fat_list :: "ptr option"
  gs_dsk :: 'd
  gs_buf :: "u8 list"
  gs_len :: u16
  gs_crc :: u8

definition load_vol :: "ptr \<Rightarrow> 'd gs \<Rightarrow> 'd fs" where
  "load_vol p g = Fat.extend (vols g p) (fs.fields (gs_dsk g) (gs_buf g) (gs_len g) (gs_crc g))"

definition store_vol :: "ptr \<Rightarrow> 'd fs \<Rightarrow> 'd gs \<Rightarrow> 'd gs" where
  "store_vol p s g = g\<lparr>vols := (vols g)(p := Fat.truncate s), gs_dsk := dsk s, gs_buf := g_buf s,
     gs_len := g_len s, gs_crc := g_crc s\<rparr>"

definition probe_read :: "'d DiskOps \<Rightarrow> u32 \<Rightarrow> u32 \<Rightarrow> 'd gs \<Rightarrow> bool \<times> 'd gs" where
  "probe_read D dv lba g = (case op_read D dv (gs_buf g) lba (gs_dsk g) of (ok, b, d) \<Rightarrow>
     (ok, g\<lparr>gs_buf := b, gs_dsk := d\<rparr>))"

definition probe :: "'d DiskOps \<Rightarrow> u32 \<Rightarrow> nat \<Rightarrow> 'd gs \<Rightarrow> int \<times> u32 \<times> 'd gs" where
  "probe D dv part g =
    (case probe_read D dv 0 g of (ok, g) \<Rightarrow>
     if \<not> ok then (FAT_ERR_IO, 0, g)
     else if check_fat (gs_buf g) then (if part = 0 then FAT_ERR_NONE else FAT_ERR_NOFAT, 0, g)
     else (case get_part_lba (gs_buf g) part of
         None \<Rightarrow> (FAT_ERR_NOFAT, 0, g)
       | Some lba \<Rightarrow> (case probe_read D dv lba g of (ok, g) \<Rightarrow>
           if \<not> ok then (FAT_ERR_IO, lba, g)
           else (if check_fat (gs_buf g) then FAT_ERR_NONE else FAT_ERR_NOFAT, lba, g))))"

definition fat_probe :: "'d DiskOps \<Rightarrow> u32 \<Rightarrow> nat \<Rightarrow> 'd gs \<Rightarrow> int \<times> 'd gs" where
  "fat_probe D dv part g = (case probe D dv part g of (err, lba, g) \<Rightarrow> (err, g))"

section \<open>Mounting\<close>

fun ctz :: "nat \<Rightarrow> u8 \<Rightarrow> nat" where
  "ctz 0 x = 0"
| "ctz (Suc n) x = (if bit x 0 then 0 else Suc (ctz n (drop_bit 1 x)))"

text \<open>The fields \<open>fat_mount\<close> computes from the BPB \<open>b\<close> at \<open>lba\<close>.\<close>

definition mount_geometry :: "u8 list \<Rightarrow> u32 \<Rightarrow> u32 \<Rightarrow> 'd Fat \<Rightarrow> 'd Fat" where
  "mount_geometry b lba dv f =
    (let ext = ld16 b 40; mirror = (ext AND 0x80 \<noteq> 0); use_first = (ext AND 0x0001 = 0);
         res = ucast (ld16 b 14); spf = ld32 b 36;
         fat_0 = lba + res; fat_1 = lba + res + spf in
     f\<lparr>clust_shift := of_nat (ctz 8 (b ! 13)), clust_msk := ucast (b ! 13) - 1,
       clust_cnt := spf * 128, root_clust := ld32 b 44,
       fat_sect0 := (if use_first then fat_0 else fat_1),
       fat_sect1 := (if mirror then (if use_first then fat_1 else fat_0) else 0),
       info_sect := lba + ucast (ld16 b 48),
       data_sect := lba + res + ucast (b ! 16) * spf, dev := dv\<rparr>)"

definition fsinfo_valid :: "u8 list \<Rightarrow> bool" where
  "fsinfo_valid b \<longleftrightarrow> \<not> (ld32 b 508 \<noteq> FSINFO_TAIL_SIG \<or> ld32 b 0 \<noteq> FSINFO_HEAD_SIG \<or>
     ld32 b 484 \<noteq> FSINFO_STRUCT_SIG \<or> ld32 b 492 = 0xffffffff \<or> ld32 b 488 = 0xffffffff)"

definition fat_mount :: "'d DiskOps \<Rightarrow> u32 \<Rightarrow> nat \<Rightarrow> ptr \<Rightarrow> u8 list \<Rightarrow> 'd gs \<Rightarrow> int \<times> 'd gs" where
  "fat_mount D dv part p name g =
    (case probe D dv part g of (err, lba, g) \<Rightarrow>
     if err \<noteq> 0 then (err, g)
     else (let g = g\<lparr>vols := (vols g)(p := mount_geometry (gs_buf g) lba dv (vols g p))\<rparr> in
       case probe_read D (dev (vols g p)) (info_sect (vols g p)) g of (ok, g) \<Rightarrow>
       if \<not> ok then (FAT_ERR_IO, g)
       else if \<not> fsinfo_valid (gs_buf g) then (FAT_ERR_NOFAT, g)
       else (let b = gs_buf g; f = (vols g p)\<lparr>last_used := ld32 b 492, free_cnt := ld32 b 488\<rparr> in
         if 32 < length name then (FAT_ERR_PARAM, g\<lparr>vols := (vols g)(p := f)\<rparr>)
         else (let f = f\<lparr>fat_name := name @ drop (length name) (fat_name f), name_len := of_nat (length name),
                    ops := D, fat_sect := 0, fat_next := g_fat_list g\<rparr> in
           (FAT_ERR_NONE, g\<lparr>vols := (vols g)(p := f), g_fat_list := Some p\<rparr>)))))"

text \<open>The list walk of \<open>fat_umount\<close> and \<open>find_fat_volume\<close>; a cyclic list never ends.\<close>

fun find_loop :: "nat \<Rightarrow> (ptr \<Rightarrow> 'd Fat) \<Rightarrow> u8 list \<Rightarrow> ptr option \<Rightarrow> ptr option option" where
  "find_loop fuel m name None = Some None"
| "find_loop 0 m name (Some p) = None"
| "find_loop (Suc fuel) m name (Some p) =
    (if length name = unat (name_len (m p)) \<and> name = take (length name) (fat_name (m p)) then Some (Some p)
     else find_loop fuel m name (fat_next (m p)))"

definition find_fat_volume :: "nat \<Rightarrow> u8 list \<Rightarrow> nat \<Rightarrow> 'd gs \<Rightarrow> ptr option option" where
  "find_fat_volume fuel name len g = find_loop fuel (vols g) (take len name) (g_fat_list g)"

text \<open>
  \<open>Fat** it\<close> points to the head or to the \<open>next\<close> field of the last element passed, \<open>prev\<close>.
\<close>

fun umount_loop :: "nat \<Rightarrow> ptr \<Rightarrow> ptr option \<Rightarrow> ptr option \<Rightarrow> (ptr \<Rightarrow> 'd Fat) \<Rightarrow> (bool \<times> ptr option) option" where
  "umount_loop fuel p prev None m = Some (False, prev)"
| "umount_loop 0 p prev (Some q) m = None"
| "umount_loop (Suc fuel) p prev (Some q) m =
    (if q = p then Some (True, prev) else umount_loop fuel p (Some q) (fat_next (m q)) m)"

definition fat_umount :: "nat \<Rightarrow> ptr \<Rightarrow> 'd gs \<Rightarrow> (int \<times> 'd gs) option" where
  "fat_umount fuel p g =
    (case umount_loop fuel p None (g_fat_list g) (vols g) of
       None \<Rightarrow> None
     | Some (False, prev) \<Rightarrow> Some (FAT_ERR_PARAM, g)
     | Some (True, prev) \<Rightarrow>
        (let nxt = fat_next (vols g p);
             g = (case prev of None \<Rightarrow> g\<lparr>g_fat_list := nxt\<rparr>
               | Some q \<Rightarrow> g\<lparr>vols := (vols g)(q := (vols g q)\<lparr>fat_next := nxt\<rparr>)\<rparr>) in
         case sync_fs (load_vol p g) of (err, s) \<Rightarrow> Some (err, store_vol p s g)))"

definition fat_sync :: "ptr \<Rightarrow> 'd gs \<Rightarrow> int \<times> 'd gs" where
  "fat_sync p g = (case sync_fs (load_vol p g) of (err, s) \<Rightarrow> (err, store_vol p s g))"


section \<open>Finding a path\<close>

definition follow_path :: "nat \<Rightarrow> u8 list \<Rightarrow> Dir \<Rightarrow> Loc option \<Rightarrow> 'd gs \<Rightarrow>
    (int \<times> u8 list \<times> Dir \<times> Loc option \<times> 'd gs) option" where
  "follow_path fuel path dir loc g =
    (if path = [] \<or> hd path \<noteq> SLASH then Some (FAT_ERR_PATH, path, dir, loc, g)
     else (let str = tl path; len = subpath_len str in
       if len = 0 then Some (FAT_ERR_PATH, path, dir, loc, g)
       else (case find_fat_volume fuel str len g of
           None \<Rightarrow> None
         | Some None \<Rightarrow> Some (FAT_ERR_PATH, path, dir\<lparr>dir_fat := None\<rparr>, loc, g)
         | Some (Some p) \<Rightarrow>
            (case follow_volume fuel (drop len str) (dir\<lparr>dir_fat := Some p\<rparr>) loc (load_vol p g) of
               None \<Rightarrow> None
             | Some (err, path, dir, loc, s) \<Rightarrow> Some (err, path, dir, loc, store_vol p s g)))))"

text \<open>
  The variant with an optional leading slash and a nameless default volume (not called anywhere).
\<close>

definition follow_path_RZ :: "nat \<Rightarrow> u8 list \<Rightarrow> Dir \<Rightarrow> Loc option \<Rightarrow> 'd gs \<Rightarrow>
    (int \<times> u8 list \<times> Dir \<times> Loc option \<times> 'd gs) option" where
  "follow_path_RZ fuel path dir loc g =
    (let str = (if path \<noteq> [] \<and> hd path = SLASH then tl path else path); len = subpath_len str in
     case (if len = 0 \<or> len = length str then find_fat_volume fuel [] 0 g
           else find_fat_volume fuel str len g) of
       None \<Rightarrow> None
     | Some None \<Rightarrow> Some (FAT_ERR_PATH, path, dir\<lparr>dir_fat := None\<rparr>, loc, g)
     | Some (Some p) \<Rightarrow>
        (case follow_volume fuel (drop len str) (dir\<lparr>dir_fat := Some p\<rparr>) loc (load_vol p g) of
           None \<Rightarrow> None
         | Some (err, path, dir, loc, s) \<Rightarrow> Some (err, path, dir, loc, store_vol p s g)))"

section \<open>Files on one volume\<close>

text \<open>The chain walk of \<open>fat_file_seek\<close>: \<open>n\<close> clusters to go.\<close>

primrec seek_loop :: "nat \<Rightarrow> nat \<Rightarrow> u32 \<Rightarrow> 'd fs \<Rightarrow> (int \<times> u32 \<times> 'd fs) option" where
  "seek_loop fuel 0 clust s = Some (FAT_ERR_NONE, clust, s)"
| "seek_loop fuel (Suc n) clust s =
    (case get_fat clust (0, 0) s of (err, (nxt, flags), s) \<Rightarrow>
     if err \<noteq> 0 then Some (err, clust, s)
     else if has flags (CLUST_BAD OR CLUST_FREE) then Some (FAT_ERR_BROKEN, clust, s)
     else if has flags CLUST_LAST then
       (case stretch_chain fuel clust (0, 0) nxt s of
          None \<Rightarrow> None
        | Some (err, nxt, s) \<Rightarrow>
            if err \<noteq> 0 then Some (err, clust, s) else seek_loop fuel n nxt s)
     else seek_loop fuel n nxt s)"

text \<open>The last part: flush the file buffer and read the sector the file is now in.\<close>

definition seek_buf :: "u32 \<Rightarrow> File \<Rightarrow> 'd fs \<Rightarrow> int \<times> File \<times> 'd fs" where
  "seek_buf ssect file s =
    (if file_sect file \<noteq> ssect then
       (let (err, file, s) = (if has (file_flags file) FAT_FILE_DIRTY then
            (case op_write (ops s) (dev s) (file_buf file) ssect (dsk s) of (ok, d) \<Rightarrow>
              (let s = s\<lparr>dsk := d\<rparr> in
               if \<not> ok then (FAT_ERR_IO, file, s)
               else (FAT_ERR_NONE, file\<lparr>file_flags := clr (file_flags file) FAT_FILE_DIRTY\<rparr>, s)))
            else (FAT_ERR_NONE, file, s)) in
        if err \<noteq> 0 then (err, file, s)
        else (case op_read (ops s) (dev s) (file_buf file) (file_sect file) (dsk s) of (ok, b, d) \<Rightarrow>
          (let s = s\<lparr>dsk := d\<rparr>; file = file\<lparr>file_buf := b\<rparr> in
           if \<not> ok then (FAT_ERR_IO, file, s) else (FAT_ERR_NONE, file, s))))
     else (FAT_ERR_NONE, file, s))"

definition file_seek :: "nat \<Rightarrow> File \<Rightarrow> int \<Rightarrow> fat_seek \<Rightarrow> 'd fs \<Rightarrow> (int \<times> File \<times> 'd fs) option" where
  "file_seek fuel file offset seek s =
    (let ssect = file_sect file;
         off64 = (case seek of FAT_SEEK_START \<Rightarrow> 0 | FAT_SEEK_CURR \<Rightarrow> uint (file_offset file)
           | FAT_SEEK_END \<Rightarrow> uint (file_size file)) + offset in
     if off64 < 0 \<or> 0xffffffff < off64 then Some (FAT_ERR_EOF, file, s)
     else (let off = (of_int off64 :: u32); clust_size = push_bit (unat (clust_shift s)) 512;
               dst_clust = off div clust_size; src_clust = file_offset file div clust_size;
               (file, src_clust) = (if dst_clust < src_clust
                 then (file\<lparr>file_clust := file_sclust file, file_sect := clust_to_sect s (file_sclust file),
                         file_offset := 0\<rparr>, 0)
                 else (file, src_clust)) in
       case seek_loop fuel (unat (dst_clust - src_clust)) (file_clust file) s of
         None \<Rightarrow> None
       | Some (err, clust, s) \<Rightarrow>
          (let file = file\<lparr>file_clust := clust\<rparr> in
           if err \<noteq> 0 then Some (err, file, s)
           else Some (seek_buf ssect
             (file\<lparr>file_sect := clust_to_sect s clust + ((off div 512) AND clust_msk s), file_offset := off\<rparr>) s))))"

primrec read_loop :: "nat \<Rightarrow> nat \<Rightarrow> u8 list \<Rightarrow> File \<Rightarrow> 'd fs \<Rightarrow> (int \<times> u8 list \<times> File \<times> 'd fs) option" where
  "read_loop 0 len dst file s = None"
| "read_loop (Suc fuel) len dst file s =
    (if len \<noteq> 0 \<and> file_offset file < file_size file then
      (let idx = unat (file_offset file mod 512);
           cnt = min len (min (512 - idx) (unat (file_size file - file_offset file)));
           dst = dst @ take cnt (drop idx (file_buf file)) in
       case file_seek fuel file (int cnt) FAT_SEEK_CURR s of
         None \<Rightarrow> None
       | Some (err, file, s) \<Rightarrow>
           if err \<noteq> 0 then Some (err, dst, file, s)
           else read_loop fuel (len - cnt) dst file s)
     else Some (FAT_ERR_NONE, dst, file, s))"

definition file_read :: "nat \<Rightarrow> File \<Rightarrow> nat \<Rightarrow> 'd fs \<Rightarrow> (int \<times> u8 list \<times> File \<times> 'd fs) option" where
  "file_read fuel file len s =
    (if file_flags file AND FAT_READ = 0 then Some (FAT_ERR_DENIED, [], file, s)
     else read_loop fuel len [] file s)"

text \<open>
  The loop of \<open>fat_file_write\<close>. An error of \<open>fat_file_seek\<close> leaves the loop with \<open>break\<close>, but is kept in a
  variable of the loop body.
\<close>

primrec write_loop :: "nat \<Rightarrow> u8 list \<Rightarrow> nat \<Rightarrow> File \<Rightarrow> 'd fs \<Rightarrow> (nat \<times> File \<times> 'd fs) option" where
  "write_loop 0 src bytes file s = None"
| "write_loop (Suc fuel) src bytes file s =
    (if src \<noteq> [] then
      (let idx = unat (file_offset file mod 512); cnt = min (length src) (512 - idx);
           file = file\<lparr>file_buf := blit (file_buf file) idx (take cnt src)\<rparr>;
           file = file\<lparr>file_flags := file_flags file OR FAT_FILE_DIRTY\<rparr> in
       case file_seek fuel file (int cnt) FAT_SEEK_CURR s of
         None \<Rightarrow> None
       | Some (err, file, s) \<Rightarrow>
           if err \<noteq> 0 then Some (bytes + cnt, file, s)
           else write_loop fuel (drop cnt src) (bytes + cnt) file s)
     else Some (bytes, file, s))"

definition file_write :: "nat \<Rightarrow> File \<Rightarrow> u8 list \<Rightarrow> 'd fs \<Rightarrow> (int \<times> nat \<times> File \<times> 'd fs) option" where
  "file_write fuel file src s =
    (let err = FAT_ERR_NONE in
     if file_flags file AND FAT_WRITE = 0 then Some (FAT_ERR_DENIED, 0, file, s)
     else (let file = file\<lparr>file_flags := file_flags file OR (FAT_MODIFIED OR FAT_ACCESSED)\<rparr> in
       case write_loop fuel src 0 file s of
         None \<Rightarrow> None
       | Some (bytes, file, s) \<Rightarrow>
           Some (err, bytes,
             if file_size file < file_offset file then file\<lparr>file_size := file_offset file\<rparr> else file, s)))"

definition sync_entry :: "File \<Rightarrow> u8 list \<Rightarrow> u8 list" where
  "sync_entry file b =
    (let p = unat (file_dir_idx file); (date, time) = encode_timestamp fat_get_timestamp;
         b = (if has (file_flags file) FAT_ACCESSED then st16 b (p + 18) date else b) in
     if has (file_flags file) FAT_MODIFIED then
       (let b = b[p + 11 := b ! (p + 11) OR FAT_ATTR_ARCHIVE]; b = st32 b (p + 28) (file_size file);
            b = st16 b (p + 24) date in
        st16 b (p + 22) time)
     else b)"

definition file_sync :: "File \<Rightarrow> 'd fs \<Rightarrow> int \<times> File \<times> 'd fs" where
  "file_sync file s =
    (let (ok, s) = (if has (file_flags file) FAT_MODIFIED then
         (case op_write (ops s) (dev s) (file_buf file) (file_sect file) (dsk s) of (ok, d) \<Rightarrow> (ok, s\<lparr>dsk := d\<rparr>))
         else (True, s)) in
     if \<not> ok then (FAT_ERR_IO, file, s)
     else chk (if has (file_flags file) (FAT_ACCESSED OR FAT_MODIFIED) then
         chk (update_buf (file_dir_sect file) s)
           (\<lambda>s. let s = s\<lparr>fat_flags := fat_flags s OR FAT_BUF_DIRTY\<rparr> in
             (FAT_ERR_NONE, s\<lparr>fat_buf := sync_entry file (fat_buf s)\<rparr>))
           Pair
         else (FAT_ERR_NONE, s))
       (\<lambda>s. chk (sync_fs s)
         (\<lambda>s. (FAT_ERR_NONE, file\<lparr>file_flags := clr (file_flags file) (FAT_ACCESSED OR FAT_MODIFIED)\<rparr>, s))
         (\<lambda>err s. (err, file, s)))
       (\<lambda>err s. (err, file, s)))"


section \<open>The file calls\<close>

text \<open>
  Every call on an open file first tests \<open>file->fat\<close>. The tests that precede it in
  \<open>fat_file_seek\<close> do not touch the state.
\<close>

definition fat_file_seek :: "nat \<Rightarrow> File \<Rightarrow> int \<Rightarrow> fat_seek \<Rightarrow> 'd gs \<Rightarrow> (int \<times> File \<times> 'd gs) option" where
  "fat_file_seek fuel file offset seek g =
    (case file_fat file of None \<Rightarrow> Some (FAT_ERR_PARAM, file, g)
     | Some p \<Rightarrow> (case file_seek fuel file offset seek (load_vol p g) of None \<Rightarrow> None
         | Some (err, file, s) \<Rightarrow> Some (err, file, store_vol p s g)))"

definition fat_file_read :: "nat \<Rightarrow> File \<Rightarrow> nat \<Rightarrow> 'd gs \<Rightarrow> (int \<times> u8 list \<times> File \<times> 'd gs) option" where
  "fat_file_read fuel file len g =
    (case file_fat file of None \<Rightarrow> Some (FAT_ERR_PARAM, [], file, g)
     | Some p \<Rightarrow> (case file_read fuel file len (load_vol p g) of None \<Rightarrow> None
         | Some (err, dst, file, s) \<Rightarrow> Some (err, dst, file, store_vol p s g)))"

definition fat_file_write :: "nat \<Rightarrow> File \<Rightarrow> u8 list \<Rightarrow> 'd gs \<Rightarrow> (int \<times> nat \<times> File \<times> 'd gs) option" where
  "fat_file_write fuel file src g =
    (case file_fat file of None \<Rightarrow> Some (FAT_ERR_PARAM, 0, file, g)
     | Some p \<Rightarrow> (case file_write fuel file src (load_vol p g) of None \<Rightarrow> None
         | Some (err, bytes, file, s) \<Rightarrow> Some (err, bytes, file, store_vol p s g)))"

definition fat_file_sync :: "File \<Rightarrow> 'd gs \<Rightarrow> int \<times> File \<times> 'd gs" where
  "fat_file_sync file g =
    (case file_fat file of None \<Rightarrow> (FAT_ERR_PARAM, file, g)
     | Some p \<Rightarrow> (case file_sync file (load_vol p g) of (err, file, s) \<Rightarrow> (err, file, store_vol p s g)))"

definition fat_file_close :: "File \<Rightarrow> 'd gs \<Rightarrow> int \<times> File \<times> 'd gs" where
  "fat_file_close file g =
    (if file_fat file = None then (FAT_ERR_PARAM, file, g) else fat_file_sync file g)"

text \<open>The creation of a missing file by \<open>fat_file_open\<close>, on the volume of the last directory.\<close>

definition create_file :: "nat \<Rightarrow> u8 list \<Rightarrow> Dir \<Rightarrow> 'd fs \<Rightarrow> (int \<times> Dir \<times> 'd fs) option" where
  "create_file fuel path dir s =
    (let len = last_subpath_len path in
     if len = 0 then Some (FAT_ERR_PATH, dir, s)
     else (case create_chain fuel (0, 0) 0 s of None \<Rightarrow> None
       | Some (err, clust, s) \<Rightarrow>
           if err \<noteq> 0 then Some (err, dir, s)
           else dir_add fuel path len FAT_ATTR_ARCHIVE clust dir s))"

text \<open>The file structure filled in from the directory entry the cursor stands on.\<close>

definition open_entry :: "Dir \<Rightarrow> u8 \<Rightarrow> File \<Rightarrow> u8 list \<Rightarrow> File" where
  "open_entry dir flags file b =
    (let p = dir_ptr dir; size = ld32 b (p + 28) in
     file\<lparr>file_fat := dir_fat dir, file_dir_sect := dir_sect dir, file_dir_idx := dir_idx dir,
       file_sclust := sfn_cluster b p, file_clust := sfn_cluster b p, file_sect := 0xffffffff,
       file_offset := 0, file_attr := sfn_attr b p,
       file_size := (if size \<noteq> 0 \<and> has flags FAT_TRUNC then 0 else size),
       file_flags := (if size \<noteq> 0 \<and> has flags FAT_TRUNC then flags OR FAT_MODIFIED else flags)\<rparr>)"

definition fat_file_open :: "nat \<Rightarrow> File \<Rightarrow> Dir \<Rightarrow> u8 list \<Rightarrow> u8 \<Rightarrow> 'd gs \<Rightarrow> (int \<times> File \<times> 'd gs) option" where
  "fat_file_open fuel file dir path flags g =
    (case follow_path fuel path (dir\<lparr>dir_fat := None\<rparr>) None g of None \<Rightarrow> None
     | Some (err, path, dir, _, g) \<Rightarrow>
       if err \<noteq> 0 \<and> err \<noteq> FAT_ERR_EOF then Some (err, file, g)
       else (let p = the (dir_fat dir) in
         if err = FAT_ERR_EOF \<and> flags AND FAT_CREATE = 0 then Some (FAT_ERR_DENIED, file, g)
         else (case (if err = FAT_ERR_EOF then create_file fuel path dir (load_vol p g)
                     else Some (FAT_ERR_NONE, dir, load_vol p g)) of
             None \<Rightarrow> None
           | Some (err, dir, s) \<Rightarrow>
               if err \<noteq> 0 then Some (err, file, store_vol p s g)
               else fat_file_seek fuel (open_entry dir flags file (fat_buf s)) 0
                      (if has flags FAT_APPEND then FAT_SEEK_END else FAT_SEEK_START)
                      (store_vol p s g))))"

section \<open>The directory calls\<close>

text \<open>Two entries at the start of a cleared cluster: \<open>.\<close> and \<open>..\<close>.\<close>

definition dot_entries :: "u32 \<Rightarrow> u32 \<Rightarrow> u16 \<Rightarrow> u16 \<Rightarrow> u8 list \<Rightarrow> u8 list" where
  "dot_entries clust parent date time b =
    (let b = blit b 0 (replicate 11 0x20); b = b[0 := DOT]; b = b[11 := FAT_ATTR_DIR];
         b = st16 b 20 (ucast (drop_bit 16 clust)); b = st16 b 26 (ucast (clust AND 0xffff));
         b = st16 b 16 date; b = st16 b 14 time; b = st16 b 24 date; b = st16 b 22 time;
         b = st16 b 18 date;
         b = blit b 32 (take 32 b); b = b[33 := DOT];
         b = st16 b 52 (ucast (drop_bit 16 parent)) in
     st16 b 58 (ucast (parent AND 0xffff)))"

definition create_dir :: "nat \<Rightarrow> u8 list \<Rightarrow> Dir \<Rightarrow> 'd fs \<Rightarrow> (int \<times> Dir \<times> 'd fs) option" where
  "create_dir fuel path dir s =
    (let len = last_subpath_len path in
     if len = 0 then Some (FAT_ERR_PATH, dir, s)
     else (case create_chain fuel (0, 0) 0 s of None \<Rightarrow> None
       | Some (err, clust, s) \<Rightarrow>
         if err \<noteq> 0 then Some (err, dir, s)
         else (case chk (clust_clear clust s)
              (\<lambda>s. let (date, time) = encode_timestamp fat_get_timestamp in
                chk (update_buf (clust_to_sect s clust) s)
                  (\<lambda>s. let s = s\<lparr>fat_flags := fat_flags s OR FAT_BUF_DIRTY\<rparr>;
                           parent = (if dir_sclust dir = root_clust s then 0 else dir_sclust dir) in
                     (FAT_ERR_NONE, s\<lparr>fat_buf := dot_entries clust parent date time (fat_buf s)\<rparr>))
                  Pair)
              Pair of (err, s) \<Rightarrow>
           if err \<noteq> 0 then Some (err, dir, s)
           else (case dir_add fuel path len FAT_ATTR_DIR clust dir s of None \<Rightarrow> None
             | Some (err, dir, s) \<Rightarrow>
               if err \<noteq> 0 then Some (err, dir, s)
               else (case sync_fs s of (err, s) \<Rightarrow> Some (err, dir_enter s clust dir, s))))))"

definition fat_dir_create :: "nat \<Rightarrow> Dir \<Rightarrow> u8 list \<Rightarrow> 'd gs \<Rightarrow> (int \<times> Dir \<times> 'd gs) option" where
  "fat_dir_create fuel dir path g =
    (case follow_path fuel path dir None g of None \<Rightarrow> None
     | Some (err, path, dir, _, g) \<Rightarrow>
       if err \<noteq> FAT_ERR_EOF then Some (err, dir, g)
       else (let p = the (dir_fat dir) in
         case create_dir fuel path dir (load_vol p g) of None \<Rightarrow> None
         | Some (err, dir, s) \<Rightarrow> Some (err, dir, store_vol p s g)))"

definition open_dir :: "Dir \<Rightarrow> 'd fs \<Rightarrow> int \<times> Dir \<times> 'd fs" where
  "open_dir dir s =
    (if dir_at_root dir s then (FAT_ERR_NONE, dir, s)
     else chk (update_buf (dir_sect dir) s)
       (\<lambda>s. let b = fat_buf s; p = dir_ptr dir in
         if sfn_attr b p AND FAT_ATTR_DIR = 0 then (FAT_ERR_PATH, dir, s)
         else (FAT_ERR_NONE, dir_enter s (sfn_cluster b p) dir, s))
       (\<lambda>err s. (err, dir, s)))"

definition fat_dir_open :: "nat \<Rightarrow> Dir \<Rightarrow> u8 list \<Rightarrow> 'd gs \<Rightarrow> (int \<times> Dir \<times> 'd gs) option" where
  "fat_dir_open fuel dir path g =
    (case follow_path fuel path dir None g of None \<Rightarrow> None
     | Some (err, path, dir, _, g) \<Rightarrow>
       if err \<noteq> 0 then Some (err, dir, g)
       else (let p = the (dir_fat dir) in
         case open_dir dir (load_vol p g) of (err, dir, s) \<Rightarrow> Some (err, dir, store_vol p s g)))"

definition fill_info :: "'d fs \<Rightarrow> nat \<Rightarrow> DirInfo \<Rightarrow> DirInfo" where
  "fill_info s p info = (let b = fat_buf s in
     info\<lparr>info_name := blit (info_name info) 0 (take (unat (g_len s)) (g_buf s)),
       info_name_len := ucast (g_len s),
       created := decode_timestamp (ld16 b (p + 16)) (ld16 b (p + 14)),
       modified := decode_timestamp (ld16 b (p + 24)) (ld16 b (p + 22)),
       info_size := ld32 b (p + 28), info_attr := sfn_attr b p\<rparr>)"

primrec dir_read_loop :: "nat \<Rightarrow> Dir \<Rightarrow> DirInfo \<Rightarrow> 'd fs \<Rightarrow> (int \<times> Dir \<times> DirInfo \<times> 'd fs) option" where
  "dir_read_loop 0 dir info s = None"
| "dir_read_loop (Suc fuel) dir info s =
    (case update_buf (dir_sect dir) s of (err, s) \<Rightarrow>
     if err \<noteq> 0 then Some (err, dir, info, s)
     else (let b = fat_buf s; p = dir_ptr dir in
     if sfn_is_last b p then Some (FAT_ERR_EOF, dir, info, s)
     else if sfn_is_free b p then
       (case dir_next dir s of (err, dir, s) \<Rightarrow>
         if err \<noteq> 0 then Some (err, dir, info, s) else dir_read_loop fuel dir info s)
     else if sfn_is_lfn b p then
       (case parse_lfn_name dir s of (err, dir, s) \<Rightarrow>
        if err \<noteq> 0 then Some (err, dir, info, s)
        else (case update_buf (dir_sect dir) s of (err, s) \<Rightarrow>
          if err \<noteq> 0 then Some (err, dir, info, s)
          else (let b = fat_buf s; p = dir_ptr dir in
            if sfn_is_free b p \<or> g_crc s \<noteq> get_crc (sfn_name b p)
            then Some (FAT_ERR_BROKEN, dir, info, s)
            else Some (FAT_ERR_NONE, dir, fill_info s p info, s))))
     else (let s = parse_sfn_name (sfn_name b p) s in
       Some (FAT_ERR_NONE, dir, fill_info s p info, s))))"

definition fat_dir_read :: "nat \<Rightarrow> Dir \<Rightarrow> DirInfo \<Rightarrow> 'd gs \<Rightarrow> (int \<times> Dir \<times> DirInfo \<times> 'd gs) option" where
  "fat_dir_read fuel dir info g =
    (case dir_fat dir of None \<Rightarrow> Some (FAT_ERR_PARAM, dir, info, g)
     | Some p \<Rightarrow> (case dir_read_loop fuel dir info (load_vol p g) of None \<Rightarrow> None
         | Some (err, dir, info, s) \<Rightarrow> Some (err, dir, info, store_vol p s g)))"

definition fat_dir_next :: "Dir \<Rightarrow> 'd gs \<Rightarrow> int \<times> Dir \<times> 'd gs" where
  "fat_dir_next dir g =
    (case dir_fat dir of None \<Rightarrow> (FAT_ERR_PARAM, dir, g)
     | Some p \<Rightarrow> (case dir_next dir (load_vol p g) of (err, dir, s) \<Rightarrow> (err, dir, store_vol p s g)))"

definition fat_dir_rewind :: "Dir \<Rightarrow> 'd gs \<Rightarrow> int \<times> Dir \<times> 'd gs" where
  "fat_dir_rewind dir g =
    (case dir_fat dir of None \<Rightarrow> (FAT_ERR_PARAM, dir, g)
     | Some p \<Rightarrow> (FAT_ERR_NONE, dir_at_clust (load_vol p g) (dir_sclust dir) dir, g))"

text \<open>\<open>loc\<close> is the uninitialised local of \<open>fat_stat\<close> and \<open>fat_unlink\<close>.\<close>

definition fat_stat :: "nat \<Rightarrow> Dir \<Rightarrow> Loc \<Rightarrow> u8 list \<Rightarrow> DirInfo \<Rightarrow> 'd gs \<Rightarrow> (int \<times> DirInfo \<times> 'd gs) option" where
  "fat_stat fuel dir loc path info g =
    (case follow_path fuel path dir (Some loc) g of None \<Rightarrow> None
     | Some (err, path, dir, loc, g) \<Rightarrow>
       if err \<noteq> 0 then Some (err, info, g)
       else if subpath_len path \<noteq> 0 then Some (FAT_ERR_PATH, info, g)
       else (let loc = the loc; s = load_vol (the (dir_fat dir)) g;
                 dir = dir\<lparr>dir_clust := sect_to_clust s (loc_sect loc), dir_sect := loc_sect loc, dir_idx := loc_idx loc\<rparr> in
         case fat_dir_read fuel dir info g of None \<Rightarrow> None
         | Some (err, dir, info, g) \<Rightarrow> Some (err, info, g)))"

text \<open>The emptiness test of \<open>fat_unlink\<close>.\<close>

primrec empty_loop :: "nat \<Rightarrow> Dir \<Rightarrow> 'd fs \<Rightarrow> (int \<times> 'd fs) option" where
  "empty_loop 0 dir s = None"
| "empty_loop (Suc fuel) dir s =
    (case update_buf (dir_sect dir) s of (err, s) \<Rightarrow>
     if err \<noteq> 0 then Some (err, s)
     else if sfn_is_last (fat_buf s) (dir_ptr dir) then Some (FAT_ERR_NONE, s)
     else if \<not> sfn_is_free (fat_buf s) (dir_ptr dir) then Some (FAT_ERR_DENIED, s)
     else (case dir_next dir s of (err, dir, s) \<Rightarrow>
       if err \<noteq> 0 then Some (err, s) else empty_loop fuel dir s))"

definition dir_empty :: "nat \<Rightarrow> Dir \<Rightarrow> u32 \<Rightarrow> 'd fs \<Rightarrow> (int \<times> 'd fs) option" where
  "dir_empty fuel dir clust s =
    (case dir_advance 2 (dir_enter s clust dir) s of (err, tmp, s) \<Rightarrow>
      if err \<noteq> 0 then Some (err, s) else empty_loop fuel tmp s)"

definition unlink_entry :: "nat \<Rightarrow> Dir \<Rightarrow> Loc \<Rightarrow> 'd fs \<Rightarrow> (int \<times> 'd fs) option" where
  "unlink_entry fuel dir loc s =
    (if dir_at_root dir s then Some (FAT_ERR_DENIED, s)
     else (let b = fat_buf s; p = dir_ptr dir; clust = sfn_cluster b p in
       if sfn_attr b p AND (FAT_ATTR_RO OR FAT_ATTR_SYS OR FAT_ATTR_LABEL) \<noteq> 0 then Some (FAT_ERR_DENIED, s)
       else chko (if sfn_attr b p AND FAT_ATTR_DIR \<noteq> 0 then dir_empty fuel dir clust s
                  else Some (FAT_ERR_NONE, s))
         (\<lambda>s. chko (remove_chain fuel clust (0, 0) s)
           (\<lambda>s. case remove_entries fuel dir loc s of None \<Rightarrow> None
             | Some (err, dir, s) \<Rightarrow> if err \<noteq> 0 then Some (err, s) else Some (sync_fs s))
           (\<lambda>err s. Some (err, s)))
         (\<lambda>err s. Some (err, s))))"

definition fat_unlink :: "nat \<Rightarrow> Dir \<Rightarrow> Loc \<Rightarrow> u8 list \<Rightarrow> 'd gs \<Rightarrow> (int \<times> 'd gs) option" where
  "fat_unlink fuel dir loc path g =
    (case follow_path fuel path dir (Some loc) g of None \<Rightarrow> None
     | Some (err, path, dir, loc, g) \<Rightarrow>
       if err \<noteq> 0 then Some (err, g)
       else (let p = the (dir_fat dir) in
         case unlink_entry fuel dir (the loc) (load_vol p g) of None \<Rightarrow> None
         | Some (err, s) \<Rightarrow> Some (err, store_vol p s g)))"

end
