(* ===== verification/FatData.thy ===== *)
theory FatData
  imports FatFile
begin

text \<open>
  Open files: the contents of a file as bytes over its cluster chain (\<open>fbyte\<close>), the invariant that ties
  an open file to its volume (\<open>file_inv\<close>), and what \<open>fat_file_seek\<close>, \<open>fat_file_read\<close>, \<open>fat_file_write\<close>
  and \<open>fat_file_sync\<close> do to the contents and to the rest of the volume, on a disk that does not fail;
  at the end, what one failed write-back does.
\<close>

section \<open>The data area\<close>

definition spc :: "'d fs \<Rightarrow> nat" where
  "spc s = 2 ^ unat (clust_shift s)"

definition data_geom :: "'d fs \<Rightarrow> bool" where
  "data_geom s \<longleftrightarrow> unat (clust_shift s) < 8 \<and> clust_msk s = of_nat (spc s) - 1 \<and>
     unat (info_sect s) < unat (data_sect s) \<and>
     unat (fat_sect0 s) + fat_len s \<le> unat (data_sect s) \<and>
     (fat_sect1 s \<noteq> 0 \<longrightarrow> unat (fat_sect1 s) + fat_len s \<le> unat (data_sect s)) \<and>
     unat (data_sect s) + unat (clust_cnt s) * spc s < 2 ^ 32 \<and> clust_cnt s \<le> 0x0ffffff7"

text \<open>A volume in working order, on a disk in working order.\<close>

definition vol_inv :: "('d \<Rightarrow> u32 \<Rightarrow> u8 list) \<Rightarrow> 'd fs \<Rightarrow> bool" where
  "vol_inv sectors s \<longleftrightarrow> table_inv sectors s \<and> data_geom s \<and> never_fails (ops s) \<and>
     2 \<le> last_used s \<and> last_used s < clust_cnt s \<and> fat_entry sectors s (last_used s) \<noteq> 0 \<and>
     (\<forall>d. 2 \<le> d \<and> d < clust_cnt s \<longrightarrow> clust_class (clust_cnt s) (fat_entry sectors s d) \<noteq> None)"

definition free_set :: "('d \<Rightarrow> u32 \<Rightarrow> u8 list) \<Rightarrow> 'd fs \<Rightarrow> u32 set" where
  "free_set sectors s = {c. 2 \<le> c \<and> c < clust_cnt s \<and> fat_entry sectors s c = 0}"

text \<open>
  What the operations on the table and the FsInfo sector leave alone: the geometry, and every sector
  of the data area. The cached sector stays the same or moves out of the data area.
\<close>

definition vframe :: "('d \<Rightarrow> u32 \<Rightarrow> u8 list) \<Rightarrow> 'd fs \<Rightarrow> 'd fs \<Rightarrow> bool" where
  "vframe sectors s s' \<longleftrightarrow>
     ops s' = ops s \<and> dev s' = dev s \<and> clust_shift s' = clust_shift s \<and> clust_msk s' = clust_msk s \<and>
     clust_cnt s' = clust_cnt s \<and> data_sect s' = data_sect s \<and> fat_sect0 s' = fat_sect0 s \<and>
     fat_sect1 s' = fat_sect1 s \<and> info_sect s' = info_sect s \<and> root_clust s' = root_clust s \<and>
     (\<forall>m. data_sect s \<le> m \<longrightarrow> vsec sectors s' m = vsec sectors s m) \<and>
     (fat_sect s' = fat_sect s \<or> fat_sect s' < data_sect s)"

lemma vframe_refl [simp, intro]: "vframe sectors s s"
  by (simp add: vframe_def)

lemma vframe_trans [trans]: "vframe sectors s t \<Longrightarrow> vframe sectors t u \<Longrightarrow> vframe sectors s u"
  by (auto simp: vframe_def)

lemma vframe_simps:
  assumes "vframe sectors s s'"
  shows "ops s' = ops s" "dev s' = dev s" "clust_shift s' = clust_shift s" "clust_msk s' = clust_msk s"
    "clust_cnt s' = clust_cnt s" "data_sect s' = data_sect s" "fat_sect0 s' = fat_sect0 s"
    "fat_sect1 s' = fat_sect1 s" "info_sect s' = info_sect s" "spc s' = spc s" "data_geom s' = data_geom s"
    "clust_to_sect s' = clust_to_sect s"
  using assms by (auto simp: vframe_def spc_def data_geom_def fat_len_def clust_to_sect_def fun_eq_iff)

lemma vframe_upd [simp]:
  "vframe sectors s (s'\<lparr>fat_flags := f\<rparr>) = vframe sectors s s'"
  "vframe sectors s (s'\<lparr>last_used := n\<rparr>) = vframe sectors s s'"
  "vframe sectors s (s'\<lparr>free_cnt := m\<rparr>) = vframe sectors s s'"
  "vframe sectors (s\<lparr>fat_flags := f\<rparr>) s' = vframe sectors s s'"
  "vframe sectors (s\<lparr>last_used := n\<rparr>) s' = vframe sectors s s'"
  "vframe sectors (s\<lparr>free_cnt := m\<rparr>) s' = vframe sectors s s'"
  by (simp_all add: vframe_def)

lemma data_geom_upd [simp]:
  "data_geom (s\<lparr>fat_flags := f\<rparr>) = data_geom s" "data_geom (s\<lparr>last_used := n\<rparr>) = data_geom s"
  "data_geom (s\<lparr>free_cnt := m\<rparr>) = data_geom s"
  by (simp_all add: data_geom_def spc_def fat_len_def)

text \<open>The sectors of the tables and the FsInfo sector lie below the data area.\<close>

lemma below_data:
  assumes "table_inv sectors s" "data_geom s"
  shows "c < clust_cnt s \<Longrightarrow> fat_sect0 s + c div 128 < data_sect s \<and> fat_sect0 s + c div 128 \<noteq> 0"
    and "c < clust_cnt s \<Longrightarrow> fat_sect1 s \<noteq> 0 \<Longrightarrow> fat_sect1 s + c div 128 < data_sect s \<and> fat_sect1 s + c div 128 \<noteq> 0"
    and "data_sect s \<le> m \<Longrightarrow> \<not> in_fats s m \<and> m \<noteq> info_sect s \<and> m \<noteq> 0"
proof -
  have g: "geom s" using assms(1) by (simp add: table_inv_def)
  have *: "base + c div 128 < data_sect s \<and> base + c div 128 \<noteq> 0"
    if "c < clust_cnt s" "unat base + fat_len s \<le> unat (data_sect s)" "base \<noteq> 0" for c base
  proof -
    have "unat (data_sect s) < 2 ^ LENGTH(32)" by (rule unsigned_less)
    then have l: "unat base + fat_len s \<le> 2 ^ 32" using that(2) by simp
    note f = fat_sector [OF that(1) l]
    show ?thesis using f(2,3) that(2,3) by (simp add: in_area_def word_less_nat_alt)
  qed
  show "fat_sect0 s + c div 128 < data_sect s \<and> fat_sect0 s + c div 128 \<noteq> 0" if "c < clust_cnt s"
    using * [OF that, of "fat_sect0 s"] g assms(2) by (auto simp: geom_def data_geom_def)
  show "fat_sect1 s + c div 128 < data_sect s \<and> fat_sect1 s + c div 128 \<noteq> 0" if "c < clust_cnt s" "fat_sect1 s \<noteq> 0"
    using * [OF that(1), of "fat_sect1 s"] that g assms(2) by (auto simp: geom_def data_geom_def)
  assume m: "data_sect s \<le> m"
  show "\<not> in_fats s m \<and> m \<noteq> info_sect s \<and> m \<noteq> 0"
    using m assms(2) by (auto simp: in_fats_def in_area_def data_geom_def word_le_nat_alt)
qed

lemma update_buf_sect: "update_buf n s = (0, s') \<Longrightarrow> fat_sect s' = n"
  by (auto simp: update_buf_def Let_def chk_def FAT_ERR_NONE_def FAT_ERR_IO_def split: prod.splits if_splits)

lemma sync_buf_sect: "fat_sect (snd (sync_buf s)) = fat_sect s"
  by (simp add: sync_buf_def Let_def split: prod.splits)

lemma sync_fs_vframe:
  assumes "table_inv sectors s" "data_geom s" "sync_fs s = (0, s')"
  shows "vframe sectors s s'"
proof -
  obtain e t where 1: "sync_buf s = (e, t)" by (metis surj_pair)
  obtain e2 u where 2: "update_buf (info_sect t) t = (e2, u)" by (metis surj_pair)
  define u3 where "u3 = u\<lparr>fat_flags := fat_flags u OR FAT_BUF_DIRTY,
      fat_buf := st32 (st32 (fat_buf u) 492 (last_used u)) 488 (free_cnt u)\<rparr>"
  obtain e3 v where 3: "sync_buf u3 = (e3, v)" by (metis surj_pair)
  note p = sync_fs_table [OF assms(1,3)]
  have "info_sect t = info_sect s" "fat_sect t = fat_sect s"
    using sync_buf_spec [OF _ 1, of sectors] assms(1) by (auto simp: table_inv_def meta_simps)
  moreover have "fat_sect v = fat_sect u" using sync_buf_sect [of u3] 3 by (simp add: u3_def)
  moreover have "s' = t \<or> e2 = 0 \<and> s' = v\<lparr>fat_flags := clr (fat_flags v) FAT_INFO_DIRTY\<rparr>"
    using assms(3) 3 by (auto simp: sync_fs_def 1 2 chk_def Let_def u3_def [symmetric] split: prod.splits if_splits)
  ultimately have "fat_sect s' = fat_sect s \<or> fat_sect s' = info_sect s"
    using update_buf_sect [of "info_sect t" t u] 2 by auto
  then show ?thesis
    using p below_data(3) [OF assms(1,2)] assms(2)
    by (auto simp: vframe_def meta_simps data_geom_def word_less_nat_alt)
qed

lemma get_fat_vframe:
  assumes inv: "table_inv sectors s" "data_geom s" and c: "c < clust_cnt s"
    and r: "get_fat c out s = (0, (n, f), s')"
  shows "vframe sectors s s'"
proof -
  note p = get_fat_spec [OF inv(1) c r]
  obtain e1 s1 where 1: "update_buf (fat_sect0 s + c div 128) s = (e1, s1)" by (metis surj_pair)
  have "e1 = 0" "s' = s1"
    using r by (auto simp: get_fat_def Let_def 1 FAT_ERR_BROKEN_def split: if_splits)
  then have "fat_sect s' = fat_sect0 s + c div 128" using update_buf_sect 1 by blast
  then show ?thesis
    using p below_data [OF inv] c by (auto simp: vframe_def meta_simps FAT_ERR_IO_def)
qed

lemma put_fat_vframe:
  assumes inv: "table_inv sectors s" "data_geom s" and c: "c < clust_cnt s" and r: "put_fat c v s = (0, s')"
  shows "vframe sectors s s'"
proof -
  note p = put_fat_spec [OF inv(1) c r]
  have sect: "fat_sect t' = base + c div 128" if "put_fat2 base c v t = (0, t')" for base and t t' :: "'a fs"
    using that update_buf_sect [of "base + c div 128" t]
    by (auto simp: put_fat2_def Let_def chk_def split: prod.splits if_splits)
  obtain e1 s1 where 1: "put_fat2 (fat_sect1 s) c v s = (e1, s1)" by (metis surj_pair)
  have "fat_sect0 s1 = fat_sect0 s" if "fat_sect1 s \<noteq> 0"
    using put_fat2_spec [OF _ _ 1, of sectors] inv below_data(2) [OF inv c that]
    by (auto simp: table_inv_def meta_simps)
  then have "fat_sect s' = fat_sect0 s + c div 128"
    using r sect by (auto simp: put_fat_def 1 split: if_splits)
  then show ?thesis
    using p below_data [OF inv] c by (auto simp: vframe_def meta_simps)
qed

lemma link_clust_vframe:
  assumes inv: "chain_inv sectors s" "data_geom s" and n: "n < clust_cnt s" "prev < clust_cnt s"
    and r: "link_clust prev n out_clust s = (0, n', s')"
  shows "vframe sectors s s'"
proof -
  obtain e1 s1 where 1: "put_fat n 0x0fffffff s = (e1, s1)" by (metis surj_pair)
  obtain e2 s2 where 2: "(if prev \<noteq> 0 then put_fat prev n s1 else (FAT_ERR_NONE, s1)) = (e2, s2)"
    by (metis surj_pair)
  define s3 where "s3 = s2\<lparr>last_used := n, free_cnt := free_cnt s2 - 1\<rparr>"
  obtain e4 s4 where 4: "sync_fs s3 = (e4, s4)" by (metis surj_pair)
  have e: "e1 = 0" "e2 = 0" using r by (auto simp: link_clust_def 1 2 split: if_splits)
  then have s': "e4 = 0" "s' = s4" using r 4 by (simp_all add: link_clust_def 1 2 Let_def s3_def)
  have t: "table_inv sectors s" using inv by (simp add: chain_inv_def)
  have f1: "vframe sectors s s1" using put_fat_vframe [OF t inv(2) n(1)] 1 e by simp
  have t1: "table_inv sectors s1" using put_fat_spec [OF t n(1) 1] e by simp
  have d1: "data_geom s1" "prev < clust_cnt s1" using vframe_simps [OF f1] inv(2) n(2) by simp_all
  have "vframe sectors s1 s2 \<and> table_inv sectors s2"
    using put_fat_vframe [OF t1 d1, of n s2] put_fat_spec [OF t1 d1(2), of n e2 s2] 2 e t1
    by (auto simp: FAT_ERR_NONE_def split: if_splits)
  moreover from this have "vframe sectors s3 s4"
    using vframe_simps(11) [of sectors s1 s2] d1 4 s'(1)
    by (intro sync_fs_vframe) (simp_all add: s3_def table_inv_def)
  ultimately show ?thesis using f1 s'(2) unfolding s3_def by (auto intro: vframe_trans)
qed

lemma scan_loop_vframe:
  "chain_inv sectors s \<Longrightarrow> data_geom s \<Longrightarrow> c < clust_cnt s \<Longrightarrow> 2 \<le> last_used s \<Longrightarrow> last_used s < clust_cnt s \<Longrightarrow> c \<noteq> 0 \<Longrightarrow>
    scan_loop get_fat clust_cnt last_used fuel c out s = Some (e, True, n, s') \<Longrightarrow> vframe sectors s s'"
proof (induction fuel arbitrary: c out s)
  case (Suc fuel)
  let ?c = "fat.nxt_clust s c"
  obtain e1 n1 f s1 where 1: "get_fat ?c out s = (e1, (n1, f), s1)" by (metis surj_pair)
  have c: "?c < clust_cnt s" "2 \<le> ?c" using fat.nxt_clust_unat(2,3) Suc.prems by blast+
  have e1: "e1 = 0" "?c \<noteq> last_used s"
    using Suc.prems(7) by (auto simp: fat.scan_loop_Suc 1 simp del: scan_loop.simps split: if_splits)
  have t: "table_inv sectors s" using Suc.prems(1) by (simp add: chain_inv_def)
  have g: "chain_inv sectors s1" "clust_cnt s1 = clust_cnt s" "last_used s1 = last_used s"
    using fat.get_ok [OF Suc.prems(1) c(1)] 1 e1 by auto
  have v: "vframe sectors s s1" using get_fat_vframe [OF t Suc.prems(2) c(1)] 1 e1 by simp
  show ?case
  proof (cases "has f CLUST_FREE")
    case True
    then show ?thesis using Suc.prems(7) v e1 by (simp add: fat.scan_loop_Suc 1 del: scan_loop.simps)
  next
    case False
    then have r: "scan_loop get_fat clust_cnt last_used fuel ?c (n1, f) s1 = Some (e, True, n, s')"
      using Suc.prems(7) e1 by (simp add: fat.scan_loop_Suc 1 del: scan_loop.simps)
    have "?c \<noteq> 0" using c(2) by auto
    then have "vframe sectors s1 s'"
      using Suc.IH [OF g(1) _ _ _ _ _ r] g c vframe_simps(11) [OF v] Suc.prems by simp
    then show ?thesis using v vframe_trans by blast
  qed
qed simp

lemma stretch_chain_vframe:
  assumes inv: "table_inv sectors s" "data_geom s" and pv: "prev < clust_cnt s" "prev \<noteq> 0"
    and lu: "2 \<le> last_used s" "last_used s < clust_cnt s"
    and r: "stretch_chain fuel prev out out_clust s = Some (0, n, s')"
  shows "vframe sectors s s'"
proof -
  let ?s = "s\<lparr>fat_flags := fat_flags s OR FAT_INFO_DIRTY\<rparr>"
  have ci: "chain_inv sectors ?s" using inv by (simp add: chain_inv_def)
  let ?c = "fat.nxt_clust ?s prev"
  have c: "?c < clust_cnt s" "2 \<le> ?c"
    using fat.nxt_clust_unat(2,3) [of prev ?s] pv lu by simp_all
  obtain e m f t where 1: "get_fat ?c out ?s = (e, (m, f), t)" by (metis surj_pair)
  have ceq: "(if clust_cnt s \<le> prev + 1 then 2 else prev + 1) = ?c" by (simp add: fat.nxt_clust_def)
  have e: "e = 0" using r pv ceq 1 by (auto simp: stretch_chain_def Let_def split: if_splits)
  have g: "chain_inv sectors t" "clust_cnt t = clust_cnt s" "last_used t = last_used s"
      "clust_class (clust_cnt s) m = Some f"
    using fat.get_ok [OF ci, of ?c out m f t] c 1 e by auto
  have vt: "vframe sectors ?s t" using get_fat_vframe [of sectors ?s ?c out m f t] inv c 1 e by simp
  then have dt: "data_geom t" using vframe_simps(11) inv(2) by fastforce
  show ?thesis
  proof (cases "has f CLUST_FREE")
    case True
    then have "link_clust prev ?c out_clust t = (0, n, s')"
      using r pv ceq 1 e by (simp add: stretch_chain_def Let_def)
    from link_clust_vframe [OF g(1) dt _ _ this] show ?thesis using vt g c pv vframe_trans by fastforce
  next
    case False
    have f0: "f \<noteq> 0" using class_nz g(4) by blast
    obtain e2 b d u where 2: "scan_loop get_fat clust_cnt last_used fuel (last_used t) (m, f) t = Some (e2, b, d, u)"
      using r pv ceq 1 e False by (auto simp: stretch_chain_def Let_def split: option.splits)
    have lu0: "last_used t \<noteq> 0" using lu(1) g by auto
    have b: "b"
    proof (rule ccontr)
      assume nb: "\<not> b"
      then have "e2 = 0" using r pv ceq 1 e False 2 by (simp add: stretch_chain_def Let_def)
      with 2 nb show False using scan_flags [OF g(1) _ _ _ _ ] g lu lu0 f0 by fastforce
    qed
    then have l: "link_clust prev d out_clust u = (0, n, s')"
      using r pv ceq 1 e False 2 by (simp add: stretch_chain_def Let_def)
    have "2 \<le> last_used t" "last_used t < clust_cnt t" using g lu by simp_all
    then have u: "vframe sectors t u" "chain_inv sectors u" "clust_cnt u = clust_cnt s" "d < clust_cnt s"
      using scan_loop_vframe [OF g(1) dt, of "last_used t" fuel "(m, f)" e2 d u]
        fat.scan_loop_result [OF g(1), of "last_used t" fuel "(m, f)" e2 b d u] 2 b lu0 g by auto
    then have "vframe sectors u s'"
      using link_clust_vframe [OF u(2) _ _ _ l] vframe_simps(11) [OF u(1)] dt pv by simp
    moreover have "vframe sectors s t" using vt by simp
    ultimately show ?thesis using u(1) vframe_trans by blast
  qed
qed

section \<open>The sectors of a file\<close>

definition file_sector :: "'d fs \<Rightarrow> u32 list \<Rightarrow> nat \<Rightarrow> u32" where
  "file_sector s cs k = clust_to_sect s (cs ! (k div spc s)) + of_nat (k mod spc s)"

lemma spc_pos [simp]: "0 < spc s"
  by (simp add: spc_def)

lemma cluster_sector:
  assumes "data_geom s" "2 \<le> c" "c < clust_cnt s" "j < spc s"
  shows "unat (clust_to_sect s c + of_nat j) = unat (data_sect s) + (unat c - 2) * spc s + j"
proof -
  have c: "2 \<le> unat c" "unat c < unat (clust_cnt s)" using assms(2,3) by (simp_all add: word_le_nat_alt word_less_nat_alt)
  have "c - 2 = of_nat (unat c - 2)" using c(1) by (simp add: of_nat_diff)
  then have eq: "clust_to_sect s c + of_nat j = of_nat (unat (data_sect s) + (unat c - 2) * spc s + j)"
    by (simp add: clust_to_sect_def push_bit_eq_mult spc_def)
  have "(unat c - 2) * spc s + j < (unat c - 1) * spc s"
  proof -
    have "unat c - 1 = Suc (unat c - 2)" using c(1) by simp
    then show ?thesis using assms(4) by simp
  qed
  also have "\<dots> \<le> unat (clust_cnt s) * spc s" using c by (intro mult_le_mono1) simp
  finally have "unat (data_sect s) + (unat c - 2) * spc s + j < 2 ^ LENGTH(32)"
    using assms(1) by (simp add: data_geom_def)
  then show ?thesis unfolding eq by (rule unat_of_nat_small)
qed

lemma chain_ge2: "is_chain e l cs \<Longrightarrow> 2 \<le> hd cs \<Longrightarrow> c \<in> set cs \<Longrightarrow> 2 \<le> c"
  by (induction e l cs rule: is_chain.induct) (auto simp: class_used)

lemma file_sector_unat:
  assumes "data_geom s" "is_chain e (clust_cnt s) cs" "2 \<le> hd cs" "k < length cs * spc s"
  shows "unat (file_sector s cs k) = unat (data_sect s) + (unat (cs ! (k div spc s)) - 2) * spc s + k mod spc s"
    "2 \<le> cs ! (k div spc s)" "cs ! (k div spc s) < clust_cnt s" "data_sect s \<le> file_sector s cs k"
    "file_sector s cs k \<noteq> 0xffffffff"
proof -
  have "k div spc s < length cs" using assms(4) by (simp add: less_mult_imp_div_less)
  then have m: "cs ! (k div spc s) \<in> set cs" by simp
  show c: "2 \<le> cs ! (k div spc s)" "cs ! (k div spc s) < clust_cnt s"
    using chain_ge2 [OF assms(2,3) m] is_chain_bounds [OF assms(2) m] by auto
  show u: "unat (file_sector s cs k) = unat (data_sect s) + (unat (cs ! (k div spc s)) - 2) * spc s + k mod spc s"
    using cluster_sector [OF assms(1) c] by (simp add: file_sector_def)
  then show "data_sect s \<le> file_sector s cs k" by (simp add: word_le_nat_alt)
  let ?c = "unat (cs ! (k div spc s))"
  have "2 \<le> ?c" "?c < unat (clust_cnt s)" using c by (simp_all add: word_le_nat_alt word_less_nat_alt)
  then have "?c - 2 + 1 \<le> unat (clust_cnt s) - 1" by simp
  then have "(?c - 2 + 1) * spc s \<le> (unat (clust_cnt s) - 1) * spc s" by (rule mult_le_mono1)
  then have "(?c - 2) * spc s + spc s \<le> unat (clust_cnt s) * spc s - spc s"
    unfolding add_mult_distrib diff_mult_distrib [of "unat (clust_cnt s)"] by simp
  then have "(?c - 2) * spc s + k mod spc s < unat (clust_cnt s) * spc s - spc s + 1"
    using mod_less_divisor [OF spc_pos, of k s] by linarith
  moreover have "spc s \<le> unat (clust_cnt s) * spc s" using \<open>?c < unat (clust_cnt s)\<close> by simp
  ultimately have "(?c - 2) * spc s + k mod spc s < unat (clust_cnt s) * spc s"
    using spc_pos [of s] by linarith
  moreover have "unat (data_sect s) + unat (clust_cnt s) * spc s < 0x100000000"
    using assms(1) by (simp add: data_geom_def)
  ultimately have "unat (file_sector s cs k) < 0xffffffff" unfolding u by linarith
  then show "file_sector s cs k \<noteq> 0xffffffff" by (auto simp: word_unat_eq_iff)
qed

lemma file_sector_inj:
  assumes "data_geom s" "is_chain e (clust_cnt s) cs" "2 \<le> hd cs" "k < length cs * spc s" "l < length cs * spc s"
    and "file_sector s cs k = file_sector s cs l"
  shows "k = l"
proof -
  note u = file_sector_unat [OF assms(1-3)]
  let ?c = "\<lambda>k. unat (cs ! (k div spc s)) - 2"
  have "?c k * spc s + k mod spc s = ?c l * spc s + l mod spc s"
    using u(1) [OF assms(4)] u(1) [OF assms(5)] assms(6) by simp
  then have "(?c k * spc s + k mod spc s) div spc s = (?c l * spc s + l mod spc s) div spc s"
    and m: "(?c k * spc s + k mod spc s) mod spc s = (?c l * spc s + l mod spc s) mod spc s" by simp_all
  then have "?c k = ?c l" by simp
  then have "cs ! (k div spc s) = cs ! (l div spc s)"
    using u(2) [OF assms(4)] u(2) [OF assms(5)] by (simp add: word_le_nat_alt word_unat_eq_iff)
  then have "k div spc s = l div spc s"
    using is_chain_distinct [OF assms(2)] assms(4,5)
    by (simp add: nth_eq_iff_index_eq less_mult_imp_div_less)
  then show ?thesis using m by (metis div_mult_mod_eq mod_mult_self3)
qed

lemma file_sector_append:
  "k < length cs * spc s \<Longrightarrow> file_sector s (cs @ ds) k = file_sector s cs k"
  by (simp add: file_sector_def nth_append less_mult_imp_div_less)

lemma file_sector_vframe: "vframe sectors s s' \<Longrightarrow> file_sector s' = file_sector s"
  by (simp add: file_sector_def fun_eq_iff vframe_simps)

section \<open>Following and extending a chain\<close>

text \<open>
  A step of a volume in working order that appends the clusters \<open>news\<close> to the chain \<open>cs\<close>: they were
  free, and no entry outside the chain changes.
\<close>

definition vol_step :: "('d \<Rightarrow> u32 \<Rightarrow> u8 list) \<Rightarrow> u32 list \<Rightarrow> u32 list \<Rightarrow> 'd fs \<Rightarrow> 'd fs \<Rightarrow> bool" where
  "vol_step sectors cs news s s' \<longleftrightarrow> vframe sectors s s' \<and> vol_inv sectors s' \<and> distinct news \<and>
     set news \<subseteq> free_set sectors s \<and> free_set sectors s' = free_set sectors s - set news \<and>
     (\<forall>d. d < clust_cnt s \<and> d \<notin> set cs \<and> d \<notin> set news \<longrightarrow> fat_entry sectors s' d = fat_entry sectors s d)"

lemma vol_step_append:
  assumes "vol_step sectors cs xs s t" "vol_step sectors (cs @ xs) ys t u"
  shows "vol_step sectors cs (xs @ ys) s u"
  using assms by (auto simp: vol_step_def vframe_simps intro: vframe_trans)

lemma vol_inv_same_table:
  assumes "vol_inv sectors s" "vframe sectors s s'" "table_inv sectors s'" "last_used s' = last_used s"
    and "\<forall>d. d < clust_cnt s \<longrightarrow> fat_entry sectors s' d = fat_entry sectors s d"
  shows "vol_inv sectors s'" "free_set sectors s' = free_set sectors s"
  using assms by (auto simp: vol_inv_def free_set_def vframe_simps)

lemma get_fat_step:
  assumes inv: "vol_inv sectors s" and c: "c < clust_cnt s"
    and f: "clust_class (clust_cnt s) (fat_entry sectors s c) = Some f"
  shows "\<exists>s'. get_fat c out s = (0, (fat_entry sectors s c, f), s') \<and> vol_step sectors cs [] s s' \<and>
    (\<forall>d. d < clust_cnt s \<longrightarrow> fat_entry sectors s' d = fat_entry sectors s d)"
proof -
  have t: "table_inv sectors s" "data_geom s" "never_fails (ops s)" using inv by (auto simp: vol_inv_def)
  obtain n g s' where 1: "get_fat c out s = (0, (n, g), s')" using get_fat_ok [OF t(1) c t(3), of out] f by auto
  note p = get_fat_spec [OF t(1) c 1]
  have v: "vframe sectors s s'" by (rule get_fat_vframe [OF t(1,2) c 1])
  have e: "fat_entry sectors s' d = fat_entry sectors s d" if "d < clust_cnt s" for d
    using p below_data(1) [OF t(1,2) that] v
    by (auto simp: fat_entry_def entry_at_def vframe_simps FAT_ERR_IO_def)
  have "table_inv sectors s'" "last_used s' = last_used s"
    using p by (auto simp: FAT_ERR_IO_def meta_simps)
  then have "vol_step sectors cs [] s s'"
    using vol_inv_same_table [OF inv v] e v by (simp add: vol_step_def)
  moreover have "n = fat_entry sectors s c" "g = f" using p f by auto
  ultimately show ?thesis using 1 e by blast
qed

lemma stretch_step:
  assumes inv: "vol_inv sectors s" and ch: "is_chain (fat_entry sectors s) (clust_cnt s) (cs @ [prev])"
    and pv: "2 \<le> prev" and free: "free_set sectors s \<noteq> {}"
    and fuel: "unat (clust_cnt s) + unat (clust_cnt s) < fuel"
  shows "\<exists>n s'. stretch_chain fuel prev out out_clust s = Some (0, n, s') \<and>
    is_chain (fat_entry sectors s') (clust_cnt s') (cs @ [prev, n]) \<and> vol_step sectors (cs @ [prev]) [n] s s'"
proof -
  have t: "table_inv sectors s" "data_geom s" "never_fails (ops s)" "2 \<le> last_used s" "last_used s < clust_cnt s"
    "fat_entry sectors s (last_used s) \<noteq> 0"
    "\<forall>d. 2 \<le> d \<and> d < clust_cnt s \<longrightarrow> clust_class (clust_cnt s) (fat_entry sectors s d) \<noteq> None"
    using inv by (auto simp: vol_inv_def)
  obtain fc where fc: "2 \<le> fc" "fc < clust_cnt s" "fc \<noteq> last_used s" "fat_entry sectors s fc = 0"
    using free t(6) by (auto simp: free_set_def)
  have p: "prev < clust_cnt s" "fat_entry sectors s prev \<noteq> 0" "prev \<noteq> 0"
    using is_chain_bounds [OF ch] pv by auto
  obtain n s' where r: "stretch_chain fuel prev out out_clust s = Some (0, n, s')"
    using stretch_chain_succeeds [OF t(1,3) p(1,3) t(4,5,7) fc fuel] by blast
  have v: "vframe sectors s s'" by (rule stretch_chain_vframe [OF t(1,2) p(1,3) t(4,5) r])
  have q: "2 \<le> n" "n < clust_cnt s" "fat_entry sectors s n = 0" "clust_cnt s' = clust_cnt s" "table_inv sectors s'"
      "last_used s' = n" "\<And>d. d < clust_cnt s \<Longrightarrow> fat_entry sectors s' d =
        (if d = n then 0x0fffffff else if d = prev then n AND 0x0fffffff else fat_entry sectors s d)"
    using stretch_chain_spec [OF t(1) p(1) _ t(4,5) _ r] p(2,3) by auto
  have lim: "clust_cnt s \<le> 0x0ffffff7" using t(2) by (simp add: data_geom_def)
  have n28: "n AND 0x0fffffff = n" "n < 0x0ffffff7" "clust_class (clust_cnt s) n = Some CLUST_USED"
    using q(1,2) lim by (auto intro!: and_28 simp: class_used word_less_nat_alt word_le_nat_alt)
  have "is_chain (fat_entry sectors s') (clust_cnt s') (cs @ [prev, n])"
  proof (rule is_chain_snoc [OF ch _ q(1)])
    show "prev \<noteq> n" using p(2) q(3) by auto
    show "fat_entry sectors s' d = (if d = n then 0x0fffffff else if d = prev then n else fat_entry sectors s d)"
      if "d < clust_cnt s'" for d using q(7) [of d] that q(4) n28(1) by simp
  qed (use q(2,3,4) n28 in auto)
  moreover have "vol_inv sectors s'"
    unfolding vol_inv_def vframe_simps [OF v] q(6)
  proof (intro conjI allI impI)
    fix d assume d: "2 \<le> d \<and> d < clust_cnt s"
    have "clust_class (clust_cnt s) 0x0fffffff \<noteq> None" by (simp add: clust_class_def)
    then show "clust_class (clust_cnt s) (fat_entry sectors s' d) \<noteq> None"
      using d t(7) q(7) [of d] n28(1,3) by (cases "d = n"; cases "d = prev") simp_all
  qed (use t q in simp_all)
  moreover have "free_set sectors s' = free_set sectors s - {n}" "n \<in> free_set sectors s"
    using q n28 p(2) pv by (auto simp: free_set_def split: if_splits)
  ultimately show ?thesis using r v q by (auto simp: vol_step_def)
qed

lemma chain_entry:
  "is_chain e l cs \<Longrightarrow> i < length cs \<Longrightarrow>
    (if Suc i < length cs then e (cs ! i) = cs ! Suc i \<and> clust_class l (e (cs ! i)) = Some CLUST_USED
     else clust_class l (e (cs ! i)) = Some (CLUST_USED OR CLUST_LAST))"
proof (induction e l cs arbitrary: i rule: is_chain.induct)
  case (2 e l c)
  then have "e c \<noteq> 0" "e c \<noteq> 0x0ffffff7" by auto
  then show ?case using 2 by (simp add: clust_class_def)
next
  case (3 e l c d cs)
  show ?case
  proof (cases i)
    case (Suc j)
    then show ?thesis using 3(1) [of j] 3(2,3) by (auto split: if_split_asm)
  qed (use 3 in auto)
qed simp

text \<open>\<open>fat_file_seek\<close> reaches the cluster \<open>n\<close> places on, appending clusters when the chain ends before.\<close>

lemma seek_loop_spec:
  "vol_inv sectors s \<Longrightarrow> is_chain (fat_entry sectors s) (clust_cnt s) cs \<Longrightarrow> 2 \<le> hd cs \<Longrightarrow> i < length cs \<Longrightarrow>
    i + n + 1 - length cs \<le> card (free_set sectors s) \<Longrightarrow> unat (clust_cnt s) + unat (clust_cnt s) < fuel \<Longrightarrow>
    \<exists>news s'. seek_loop fuel n (cs ! i) s = Some (0, (cs @ news) ! (i + n), s') \<and>
      length news = i + n + 1 - length cs \<and>
      is_chain (fat_entry sectors s') (clust_cnt s') (cs @ news) \<and> vol_step sectors cs news s s'"
proof (induction n arbitrary: i cs s)
  case 0
  then show ?case
    by (intro exI [of _ "[]"] exI [of _ s]) (auto simp: vol_step_def FAT_ERR_NONE_def)
next
  case (Suc n)
  let ?c = "cs ! i"
  have c: "?c < clust_cnt s" "2 \<le> ?c"
    using is_chain_bounds [OF Suc.prems(2)] chain_ge2 [OF Suc.prems(2,3)] Suc.prems(4) by auto
  note ce = chain_entry [OF Suc.prems(2,4)]
  show ?case
  proof (cases "Suc i < length cs")
    case True
    obtain s1 where 1: "get_fat ?c (0, 0) s = (0, (cs ! Suc i, CLUST_USED), s1)" "vol_step sectors cs [] s s1"
        "\<forall>d. d < clust_cnt s \<longrightarrow> fat_entry sectors s1 d = fat_entry sectors s d"
      using get_fat_step [OF Suc.prems(1) c(1), of CLUST_USED "(0, 0)" cs] ce True by auto
    have v: "clust_cnt s1 = clust_cnt s" "vol_inv sectors s1" "free_set sectors s1 = free_set sectors s"
      using 1(2) by (auto simp: vol_step_def vframe_simps)
    have "is_chain (fat_entry sectors s1) (clust_cnt s1) cs"
      using is_chain_cong [of cs "fat_entry sectors s1" "fat_entry sectors s" "clust_cnt s"] 1(3) v(1)
        is_chain_bounds [OF Suc.prems(2)] Suc.prems(2) by auto
    from Suc.IH [OF v(2) this Suc.prems(3) True] v Suc.prems(5,6)
    obtain news s' where "seek_loop fuel n (cs ! Suc i) s1 = Some (0, (cs @ news) ! (Suc i + n), s')"
      "length news = Suc i + n + 1 - length cs"
      "is_chain (fat_entry sectors s') (clust_cnt s') (cs @ news)" "vol_step sectors cs news s1 s'" by auto
    then show ?thesis
      using 1 vol_step_append [of sectors cs "[]" s s1 news s']
      by (intro exI [of _ news] exI [of _ s']) simp
  next
    case False
    have cs: "cs = butlast cs @ [?c]" using False Suc.prems(4)
      by (metis Suc_lessI append_butlast_last_id diff_Suc_1 last_conv_nth length_greater_0_conv less_zeroE list.size(3))
    obtain nx s1 where 1: "get_fat ?c (0, 0) s = (0, (nx, CLUST_USED OR CLUST_LAST), s1)" "vol_step sectors cs [] s s1"
        "\<forall>d. d < clust_cnt s \<longrightarrow> fat_entry sectors s1 d = fat_entry sectors s d"
      using get_fat_step [OF Suc.prems(1) c(1), of "CLUST_USED OR CLUST_LAST" "(0, 0)" cs] ce False by auto
    have v: "clust_cnt s1 = clust_cnt s" "vol_inv sectors s1" "free_set sectors s1 = free_set sectors s"
      using 1(2) by (auto simp: vol_step_def vframe_simps)
    have "is_chain (fat_entry sectors s1) (clust_cnt s1) (butlast cs @ [?c])"
      unfolding cs [symmetric]
      using is_chain_cong [of cs "fat_entry sectors s1" "fat_entry sectors s" "clust_cnt s"] 1(3) v(1)
        is_chain_bounds [OF Suc.prems(2)] Suc.prems(2) by auto
    moreover have len: "length cs = Suc i" using False Suc.prems(4) by simp
    moreover have "free_set sectors s1 \<noteq> {}" using Suc.prems(5) len v(3) by auto
    ultimately obtain x s2 where 2: "stretch_chain fuel ?c (0, 0) nx s1 = Some (0, x, s2)"
      "is_chain (fat_entry sectors s2) (clust_cnt s2) (butlast cs @ [?c, x])" "vol_step sectors (butlast cs @ [?c]) [x] s1 s2"
      using stretch_step [OF v(2) _ c(2), of "butlast cs" fuel "(0, 0)" nx] Suc.prems(6) v(1) by auto
    have "butlast cs @ [?c, x] = cs @ [x]" by (subst (2) cs) simp
    note 2 = 2(1) 2(2) [unfolded this] 2(3) [folded cs]
    have w: "clust_cnt s2 = clust_cnt s" "vol_inv sectors s2" "card (free_set sectors s2) = card (free_set sectors s) - 1"
      using 2(3) v by (auto simp: vol_step_def vframe_simps)
    have le: "Suc i + n + 1 - length (cs @ [x]) \<le> card (free_set sectors s2)"
      unfolding w(3) using Suc.prems(5) len by simp
    have "hd (cs @ [x]) = hd cs" using Suc.prems(4) by (cases cs) auto
    then obtain news s' where "seek_loop fuel n ((cs @ [x]) ! Suc i) s2 = Some (0, ((cs @ [x]) @ news) ! (Suc i + n), s')"
      "length news = Suc i + n + 1 - length (cs @ [x])"
      "is_chain (fat_entry sectors s') (clust_cnt s') ((cs @ [x]) @ news)" "vol_step sectors (cs @ [x]) news s2 s'"
      using Suc.IH [OF w(2) 2(2) _ _ le] w len Suc.prems(3,6) by auto
    moreover have "vol_step sectors cs ([x] @ news) s1 s'"
      using vol_step_append [OF 2(3)] calculation by blast
    ultimately show ?thesis
      using 1 2(1) len vol_step_append [of sectors cs "[]" s s1 "[x] @ news" s']
      by (intro exI [of _ "[x] @ news"] exI [of _ s']) (simp add: nth_append)
  qed
qed

section \<open>The contents of an open file\<close>

text \<open>
  Sector \<open>k\<close> of a file with the clusters \<open>cs\<close> is what its buffer holds, when the buffer belongs to it,
  and what the disk holds otherwise; \<open>fbyte\<close> is the byte at an offset.
\<close>

definition fsec :: "('d \<Rightarrow> u32 \<Rightarrow> u8 list) \<Rightarrow> 'd fs \<Rightarrow> u32 list \<Rightarrow> File \<Rightarrow> nat \<Rightarrow> u8 list" where
  "fsec sectors s cs file k =
    (if file_sector s cs k = file_sect file then take 512 (file_buf file) else sectors (dsk s) (file_sector s cs k))"

definition fbyte :: "('d \<Rightarrow> u32 \<Rightarrow> u8 list) \<Rightarrow> 'd fs \<Rightarrow> u32 list \<Rightarrow> File \<Rightarrow> nat \<Rightarrow> u8" where
  "fbyte sectors s cs file i = fsec sectors s cs file (i div 512) ! (i mod 512)"

definition capacity :: "'d fs \<Rightarrow> u32 list \<Rightarrow> nat" where
  "capacity s cs = length cs * (512 * spc s)"

text \<open>The cached sector belongs neither to the file nor to a cluster it might get.\<close>

definition cache_off :: "('d \<Rightarrow> u32 \<Rightarrow> u8 list) \<Rightarrow> 'd fs \<Rightarrow> u32 list \<Rightarrow> bool" where
  "cache_off sectors s cs \<longleftrightarrow>
    (\<forall>c j. c \<in> set cs \<union> free_set sectors s \<and> j < spc s \<longrightarrow> fat_sect s \<noteq> clust_to_sect s c + of_nat j)"

definition file_ok :: "('d \<Rightarrow> u32 \<Rightarrow> u8 list) \<Rightarrow> u32 list \<Rightarrow> File \<Rightarrow> 'd fs \<Rightarrow> bool" where
  "file_ok sectors cs file s \<longleftrightarrow>
     vol_inv sectors s \<and> is_chain (fat_entry sectors s) (clust_cnt s) cs \<and> hd cs = file_sclust file \<and> 2 \<le> hd cs \<and>
     cache_off sectors s cs \<and> length (file_buf file) = 514 \<and>
     unat (file_offset file) < capacity s cs \<and>
     file_clust file = cs ! (unat (file_offset file) div (512 * spc s)) \<and>
     (file_sect file = file_sector s cs (unat (file_offset file) div 512) \<and>
        (\<not> bit (file_flags file) 7 \<longrightarrow> take 512 (file_buf file) = sectors (dsk s) (file_sect file)) \<or>
      file_sect file = 0xffffffff \<and> \<not> bit (file_flags file) 7)"

definition file_inv :: "('d \<Rightarrow> u32 \<Rightarrow> u8 list) \<Rightarrow> u32 list \<Rightarrow> File \<Rightarrow> 'd fs \<Rightarrow> bool" where
  "file_inv sectors cs file s \<longleftrightarrow> file_ok sectors cs file s \<and> file_sect file \<noteq> 0xffffffff"

lemma sector_of_offset:
  assumes "i < capacity s cs"
  shows "i div 512 < length cs * spc s" "i div 512 div spc s = i div (512 * spc s)"
proof -
  have "i < length cs * spc s * 512" using assms by (simp add: capacity_def ac_simps)
  then show "i div 512 < length cs * spc s" by (simp add: less_mult_imp_div_less)
  show "i div 512 div spc s = i div (512 * spc s)" by (simp add: div_mult2_eq)
qed

lemma never_fails_read:
  assumes "never_fails D" "good_disk D sectors" "length b = 514"
  shows "\<exists>b' d'. op_read D dv b n d = (True, b', d') \<and> length b' = 514 \<and> sectors d' = sectors d \<and>
    take 512 b' = sectors d n"
proof -
  obtain ok b' d' where 1: "op_read D dv b n d = (ok, b', d')" by (metis surj_pair)
  have "fst (op_read D dv b n d)" using assms(1) by (simp add: never_fails_def)
  then have ok using 1 by simp
  then show ?thesis using good_disk_read [OF assms(2,3) 1] 1 by auto
qed

lemma never_fails_write:
  assumes "never_fails D" "good_disk D sectors" "length b = 514"
  shows "\<exists>d'. op_write D dv b n d = (True, d') \<and> (\<forall>m. sectors d' m = (if m = n then take 512 b else sectors d m))"
proof -
  obtain ok d' where 1: "op_write D dv b n d = (ok, d')" by (metis surj_pair)
  have "fst (op_write D dv b n d)" using assms(1) by (simp add: never_fails_def)
  then have ok using 1 by simp
  then show ?thesis using good_disk_write [OF assms(2,3) 1] 1 by auto
qed

lemma has_DIRTY [simp]: "has f FAT_FILE_DIRTY \<longleftrightarrow> bit f 7"
proof -
  have "f AND 128 \<noteq> 0 \<longleftrightarrow> bit f 7" using and_exp_eq_0_iff_not_bit [of f 7] by simp
  then show ?thesis by (simp add: has_def FAT_FILE_DIRTY_def)
qed

lemma bit_DIRTY [simp]: "bit FAT_FILE_DIRTY n \<longleftrightarrow> n = 7"
proof -
  have e: "FAT_FILE_DIRTY = 2 ^ 7" by (simp add: FAT_FILE_DIRTY_def)
  show ?thesis unfolding e bit_exp_iff by auto
qed

text \<open>The last part of \<open>fat_file_seek\<close>: the old sector is written back when it was modified, the new
  one is read.\<close>

lemma seek_buf_spec:
  assumes "never_fails (ops s)" "good_disk (ops s) sectors" "length (file_buf file) = 514"
  shows "\<exists>d b fl. seek_buf ssect file s = (0, file\<lparr>file_flags := fl, file_buf := b\<rparr>, s\<lparr>dsk := d\<rparr>) \<and>
    length b = 514 \<and> (\<forall>n. n \<noteq> 7 \<longrightarrow> bit fl n = bit (file_flags file) n) \<and>
    (if file_sect file = ssect then d = dsk s \<and> b = file_buf file \<and> fl = file_flags file
     else (\<forall>m. sectors d m = (if m = ssect \<and> bit (file_flags file) 7 then take 512 (file_buf file) else sectors (dsk s) m)) \<and>
       \<not> bit fl 7 \<and> take 512 b = sectors d (file_sect file))"
proof (cases "file_sect file = ssect")
  case True
  then show ?thesis
    using assms by (intro exI [of _ "dsk s"] exI [of _ "file_buf file"] exI [of _ "file_flags file"])
      (simp add: seek_buf_def FAT_ERR_NONE_def)
next
  case False
  show ?thesis
  proof (cases "bit (file_flags file) 7")
    case True
    obtain d1 where 1: "op_write (ops s) (dev s) (file_buf file) ssect (dsk s) = (True, d1)"
      "\<forall>m. sectors d1 m = (if m = ssect then take 512 (file_buf file) else sectors (dsk s) m)"
      using never_fails_write [OF assms] by blast
    obtain b d where 2: "op_read (ops s) (dev s) (file_buf file) (file_sect file) d1 = (True, b, d)"
      "length b = 514" "sectors d = sectors d1" "take 512 b = sectors d1 (file_sect file)"
      using never_fails_read [OF assms] by blast
    show ?thesis
      using True False 1 2
      by (intro exI [of _ d] exI [of _ b] exI [of _ "clr (file_flags file) FAT_FILE_DIRTY"])
        (simp add: seek_buf_def Let_def FAT_ERR_NONE_def bit_clr)
  next
    case nd: False
    obtain b d where 2: "op_read (ops s) (dev s) (file_buf file) (file_sect file) (dsk s) = (True, b, d)"
      "length b = 514" "sectors d = sectors (dsk s)" "take 512 b = sectors (dsk s) (file_sect file)"
      using never_fails_read [OF assms] by blast
    show ?thesis
      using nd False 2
      by (intro exI [of _ d] exI [of _ b] exI [of _ "file_flags file"])
        (simp add: seek_buf_def Let_def FAT_ERR_NONE_def)
  qed
qed

text \<open>Writing a data sector that is not the cached one.\<close>

lemma data_write:
  assumes inv: "vol_inv sectors s" and k: "data_sect s \<le> k" "fat_sect s \<noteq> k"
    and d: "\<And>m. m \<noteq> k \<Longrightarrow> sectors d m = sectors (dsk s) m"
  shows "vol_inv sectors (s\<lparr>dsk := d\<rparr>)" "m \<noteq> k \<Longrightarrow> vsec sectors (s\<lparr>dsk := d\<rparr>) m = vsec sectors s m"
    "c < clust_cnt s \<Longrightarrow> fat_entry sectors (s\<lparr>dsk := d\<rparr>) c = fat_entry sectors s c"
    "free_set sectors (s\<lparr>dsk := d\<rparr>) = free_set sectors s"
proof -
  have t: "table_inv sectors s" "data_geom s" using inv by (auto simp: vol_inv_def)
  show v: "vsec sectors (s\<lparr>dsk := d\<rparr>) m = vsec sectors s m" if "m \<noteq> k" for m
    using d that by (simp add: vsec_def)
  show e: "fat_entry sectors (s\<lparr>dsk := d\<rparr>) c = fat_entry sectors s c" if "c < clust_cnt s" for c
  proof -
    have "fat_sect0 s + c div 128 \<noteq> k" using below_data(1) [OF t that] k(1) by auto
    then show ?thesis using v by (simp add: fat_entry_def entry_at_def)
  qed
  then show "free_set sectors (s\<lparr>dsk := d\<rparr>) = free_set sectors s" by (auto simp: free_set_def)
  have "table_inv sectors (s\<lparr>dsk := d\<rparr>)"
    using t(1) k(2) d by (auto simp: table_inv_def cache_inv_def geom_def fat_len_def)
  then show "vol_inv sectors (s\<lparr>dsk := d\<rparr>)"
    using inv e by (auto simp: vol_inv_def data_geom_def spc_def fat_len_def)
qed

section \<open>Seeking\<close>

definition same_geometry :: "'d fs \<Rightarrow> 'd fs \<Rightarrow> bool" where
  "same_geometry s s' \<longleftrightarrow> ops s' = ops s \<and> dev s' = dev s \<and> clust_shift s' = clust_shift s \<and>
     clust_msk s' = clust_msk s \<and> clust_cnt s' = clust_cnt s \<and> data_sect s' = data_sect s \<and>
     fat_sect0 s' = fat_sect0 s \<and> fat_sect1 s' = fat_sect1 s \<and> info_sect s' = info_sect s \<and> root_clust s' = root_clust s"

lemma same_geometry_simps:
  assumes "same_geometry s s'"
  shows "spc s' = spc s" "clust_cnt s' = clust_cnt s" "data_sect s' = data_sect s" "file_sector s' = file_sector s"
    "capacity s' = capacity s" "clust_to_sect s' = clust_to_sect s"
  using assms by (auto simp: same_geometry_def spc_def file_sector_def clust_to_sect_def capacity_def fun_eq_iff)

definition same_entry :: "File \<Rightarrow> File \<Rightarrow> bool" where
  "same_entry file file' \<longleftrightarrow> file_fat file' = file_fat file \<and> file_dir_sect file' = file_dir_sect file \<and>
     file_dir_idx file' = file_dir_idx file \<and> file_sclust file' = file_sclust file \<and> file_size file' = file_size file \<and>
     file_attr file' = file_attr file \<and> (\<forall>n. n \<noteq> 7 \<longrightarrow> bit (file_flags file') n = bit (file_flags file) n)"

text \<open>
  What every file operation keeps to: clusters it appends to the chain were free, the entries of other
  chains and all data sectors that are not the file's stay as they are.
\<close>

definition file_step :: "('d \<Rightarrow> u32 \<Rightarrow> u8 list) \<Rightarrow> u32 list \<Rightarrow> u32 list \<Rightarrow> 'd fs \<Rightarrow> 'd fs \<Rightarrow> bool" where
  "file_step sectors cs news s s' \<longleftrightarrow> same_geometry s s' \<and> distinct news \<and>
     set news \<subseteq> free_set sectors s \<and> free_set sectors s' = free_set sectors s - set news \<and>
     (\<forall>d. d < clust_cnt s \<and> d \<notin> set cs \<and> d \<notin> set news \<longrightarrow> fat_entry sectors s' d = fat_entry sectors s d) \<and>
     (\<forall>m. data_sect s \<le> m \<and> (\<forall>k < length (cs @ news) * spc s. m \<noteq> file_sector s (cs @ news) k) \<longrightarrow>
        vsec sectors s' m = vsec sectors s m)"

lemma file_step_refl [simp, intro]: "file_step sectors cs [] s s"
  by (simp add: file_step_def same_geometry_def)

lemma file_step_append:
  assumes "file_step sectors cs xs s t" "file_step sectors (cs @ xs) ys t u"
  shows "file_step sectors cs (xs @ ys) s u"
proof -
  have g: "same_geometry s t" using assms(1) by (simp add: file_step_def)
  have "vsec sectors u m = vsec sectors s m"
    if m: "data_sect s \<le> m" "\<And>k. k < length (cs @ xs @ ys) * spc s \<Longrightarrow> m \<noteq> file_sector s (cs @ xs @ ys) k" for m
  proof -
    have "m \<noteq> file_sector s (cs @ xs) k" if "k < length (cs @ xs) * spc s" for k
      using m(2) [of k] that file_sector_append [of k "cs @ xs" s ys] by (simp add: add_mult_distrib)
    then have "vsec sectors t m = vsec sectors s m" using assms(1) m(1) by (simp add: file_step_def)
    moreover have "vsec sectors u m = vsec sectors t m"
      using assms(2) m same_geometry_simps [OF g] by (simp add: file_step_def)
    ultimately show ?thesis by simp
  qed
  then show ?thesis
    using assms same_geometry_simps [OF g] by (auto simp: file_step_def same_geometry_def)
qed

text \<open>The cluster and the sector the code computes from an offset.\<close>

lemma offset_words:
  assumes "data_geom s"
  shows "unat ((off :: u32) div push_bit (unat (clust_shift s)) 512) = unat off div (512 * spc s)"
    "(off div 512) AND clust_msk s = of_nat (unat off div 512 mod spc s)"
proof -
  have c: "unat (clust_shift s) < 8" "clust_msk s = of_nat (spc s) - 1" using assms by (auto simp: data_geom_def)
  have "spc s \<le> 2 ^ 7" unfolding spc_def using c(1) by (intro power_increasing) auto
  then have "512 * spc s < 2 ^ LENGTH(32)" by simp
  moreover have "push_bit (unat (clust_shift s)) 512 = (of_nat (512 * spc s) :: u32)"
    by (simp add: push_bit_eq_mult spc_def)
  ultimately have "unat (push_bit (unat (clust_shift s)) 512 :: u32) = 512 * spc s"
    using unat_of_nat_small [where 'a=32, of "512 * spc s"] by simp
  then show "unat (off div push_bit (unat (clust_shift s)) 512) = unat off div (512 * spc s)"
    by (simp add: unat_div)
  have "clust_msk s = Bit_Operations.mask (unat (clust_shift s))"
    by (simp add: c(2) mask_eq_exp_minus_1 spc_def)
  then have "(off div 512) AND clust_msk s = take_bit (unat (clust_shift s)) (off div 512)"
    by (simp add: take_bit_eq_mask)
  moreover have "take_bit (unat (clust_shift s)) (off div 512) = of_nat (unat off div 512 mod spc s)"
  proof -
    have "of_nat (unat (off div 512)) = off div 512" by simp
    then have "of_nat (unat off div 512) = off div 512" by (simp add: unat_div)
    then show ?thesis
      using take_bit_of_nat [where 'a="32 word", of "unat (clust_shift s)" "unat off div 512"]
      by (simp add: spc_def flip: take_bit_eq_mod)
  qed
  ultimately show "(off div 512) AND clust_msk s = of_nat (unat off div 512 mod spc s)" by simp
qed

lemma cache_off_step:
  assumes inv: "vol_inv sectors s" and ch: "is_chain (fat_entry sectors s) (clust_cnt s) cs" "2 \<le> hd cs" "cs \<noteq> []"
    and off: "cache_off sectors s cs" and st: "vol_step sectors cs news s s'"
  shows "cache_off sectors s' (cs @ news)"
  unfolding cache_off_def
proof (intro allI impI)
  fix c j
  assume a: "c \<in> set (cs @ news) \<union> free_set sectors s' \<and> j < spc s'"
  have v: "vframe sectors s s'" "set news \<subseteq> free_set sectors s" "free_set sectors s' = free_set sectors s - set news"
    using st by (auto simp: vol_step_def)
  have g: "data_geom s" using inv by (simp add: vol_inv_def)
  have c: "c \<in> set cs \<union> free_set sectors s" "j < spc s" using a v by (auto simp: vframe_simps)
  then have b: "2 \<le> c" "c < clust_cnt s"
    using chain_ge2 [OF ch(1,2)] is_chain_bounds [OF ch(1)] by (auto simp: free_set_def)
  have "data_sect s \<le> clust_to_sect s c + of_nat j"
    using cluster_sector [OF g b c(2)] by (simp add: word_le_nat_alt)
  moreover have "fat_sect s \<noteq> clust_to_sect s c + of_nat j" using off c by (simp add: cache_off_def)
  moreover have "fat_sect s' = fat_sect s \<or> fat_sect s' < data_sect s" using v(1) by (simp add: vframe_def)
  ultimately show "fat_sect s' \<noteq> clust_to_sect s' c + of_nat j" unfolding vframe_simps [OF v(1)] by auto
qed

lemma file_sector_cluster:
  "k < length cs * spc s \<Longrightarrow> \<exists>c j. c \<in> set cs \<and> j < spc s \<and> file_sector s cs k = clust_to_sect s c + of_nat j"
  by (intro exI [of _ "cs ! (k div spc s)"] exI [of _ "k mod spc s"])
    (simp add: file_sector_def less_mult_imp_div_less)

lemma cache_off_sector: "cache_off sectors s cs \<Longrightarrow> k < length cs * spc s \<Longrightarrow> fat_sect s \<noteq> file_sector s cs k"
  using file_sector_cluster [of k cs s] unfolding cache_off_def by fastforce

text \<open>The chain walk of \<open>fat_file_seek\<close>, from the current cluster or again from the first.\<close>

lemma seek_walk:
  assumes ok: "file_ok sectors cs file s" and need: "pos div (512 * spc s) + 1 - length cs \<le> card (free_set sectors s)"
    and fuel: "unat (clust_cnt s) + unat (clust_cnt s) < fuel"
    and i: "i = (if pos div (512 * spc s) < unat (file_offset file) div (512 * spc s) then 0
        else unat (file_offset file) div (512 * spc s))"
  shows "i \<le> pos div (512 * spc s) \<and> (\<exists>news s'.
    seek_loop fuel (pos div (512 * spc s) - i) (cs ! i) s = Some (0, (cs @ news) ! (pos div (512 * spc s)), s') \<and>
    length news = pos div (512 * spc s) + 1 - length cs \<and>
    is_chain (fat_entry sectors s') (clust_cnt s') (cs @ news) \<and> vol_step sectors cs news s s' \<and>
    cache_off sectors s' (cs @ news))"
proof -
  have o: "vol_inv sectors s" "is_chain (fat_entry sectors s) (clust_cnt s) cs" "2 \<le> hd cs" "cache_off sectors s cs"
    "unat (file_offset file) < length cs * (512 * spc s)"
    using ok by (auto simp: file_ok_def capacity_def)
  then have "unat (file_offset file) div (512 * spc s) < length cs" by (simp add: less_mult_imp_div_less)
  then have il: "i < length cs" "i \<le> pos div (512 * spc s)" by (auto simp: i)
  then have ne: "cs \<noteq> []" by auto
  have "i + (pos div (512 * spc s) - i) + 1 - length cs \<le> card (free_set sectors s)" using need il by simp
  from seek_loop_spec [OF o(1-3) il(1) this fuel] obtain news s' where
    "seek_loop fuel (pos div (512 * spc s) - i) (cs ! i) s = Some (0, (cs @ news) ! (pos div (512 * spc s)), s')"
    "length news = pos div (512 * spc s) + 1 - length cs"
    "is_chain (fat_entry sectors s') (clust_cnt s') (cs @ news)" "vol_step sectors cs news s s'"
    using il(2) by auto
  then show ?thesis using il(2) cache_off_step [OF o(1-3) ne o(4)] by blast
qed

text \<open>The last part, after the chain walk: the file moves to its new position with its contents.\<close>

lemma seek_flush:
  assumes ok: "file_ok sectors cs file s" and ch: "is_chain (fat_entry sectors s1) (clust_cnt s1) (cs @ news)"
    and st: "vol_step sectors cs news s s1" and off: "cache_off sectors s1 (cs @ news)"
    and pos: "pos < capacity s (cs @ news)" "unat w = pos"
    and f1: "f1 = file\<lparr>file_clust := (cs @ news) ! (pos div (512 * spc s)),
      file_sect := file_sector s (cs @ news) (pos div 512), file_offset := w\<rparr>"
  shows "\<exists>file' s'. seek_buf (file_sect file) f1 s1 = (0, file', s') \<and> file_inv sectors (cs @ news) file' s' \<and>
    file_step sectors cs news s s' \<and> same_entry file file' \<and> unat (file_offset file') = pos \<and>
    (\<forall>i < capacity s cs. fbyte sectors s' (cs @ news) file' i = fbyte sectors s cs file i)"
proof -
  let ?cs = "cs @ news" and ?old = "file_sect file" and ?dirty = "bit (file_flags file) 7"
  define S where "S = file_sector s ?cs (pos div 512)"
  have v: "vframe sectors s s1" "vol_inv sectors s1" "set news \<subseteq> free_set sectors s"
    using st by (auto simp: vol_step_def)
  note vs = vframe_simps [OF v(1)] file_sector_vframe [OF v(1)]
  have o: "vol_inv sectors s" "data_geom s" "is_chain (fat_entry sectors s) (clust_cnt s) cs" "2 \<le> hd cs"
    "hd cs = file_sclust file" "unat (file_offset file) < capacity s cs" "length (file_buf file) = 514"
    "cache_off sectors s cs"
    using ok by (auto simp: file_ok_def vol_inv_def)
  have ne: "hd ?cs = hd cs" using o(6) by (cases cs) (auto simp: capacity_def)
  have d1: "data_geom s1" using v(2) by (simp add: vol_inv_def)
  have fsect: "data_sect s \<le> file_sector s ?cs k" "file_sector s ?cs k \<noteq> 0xffffffff" "fat_sect s1 \<noteq> file_sector s ?cs k"
    if k: "k < length ?cs * spc s" for k
  proof -
    show "data_sect s \<le> file_sector s ?cs k" "file_sector s ?cs k \<noteq> 0xffffffff"
      using file_sector_unat(4,5) [OF d1 ch] k o(4) ne by (simp_all add: vs)
    show "fat_sect s1 \<noteq> file_sector s ?cs k"
      using cache_off_sector [OF off, of k] k by (simp add: vs)
  qed
  have same: "sectors (dsk s1) (file_sector s cs k) = sectors (dsk s) (file_sector s cs k)"
    if k: "k < length cs * spc s" for k
  proof -
    have k': "k < length ?cs * spc s" using k by (simp add: add_mult_distrib)
    have "fat_sect s \<noteq> file_sector s cs k"
      using cache_off_sector [OF o(8) k] .
    then show ?thesis
      using v(1) fsect(1,3) [OF k'] file_sector_append [OF k, of news] by (auto simp: vframe_def vsec_def)
  qed
  have pk: "pos div 512 < length ?cs * spc s" "pos div (512 * spc s) < length ?cs"
    using sector_of_offset(1) [OF pos(1)] pos(1) by (simp_all add: capacity_def less_mult_imp_div_less)
  have olds: "\<exists>k < length cs * spc s. ?old = file_sector s cs k \<and> (\<not> ?dirty \<longrightarrow> take 512 (file_buf file) = sectors (dsk s) ?old)"
    if "?dirty \<or> ?old \<noteq> 0xffffffff"
    using ok that sector_of_offset(1) [OF o(6)] by (auto simp: file_ok_def)
  have f1s: "file_sect f1 = S" "file_flags f1 = file_flags file" "file_buf f1 = file_buf file"
    by (simp_all add: f1 S_def)
  have pre: "never_fails (ops s1)" "good_disk (ops s1) sectors" "length (file_buf f1) = 514"
    using v(2) o(7) by (auto simp: vol_inv_def table_inv_def cache_inv_def f1s)
  obtain d b fl where r: "seek_buf ?old f1 s1 = (0, f1\<lparr>file_flags := fl, file_buf := b\<rparr>, s1\<lparr>dsk := d\<rparr>)"
    "length b = 514" "\<forall>n. n \<noteq> 7 \<longrightarrow> bit fl n = bit (file_flags file) n"
    and m: "if S = ?old then d = dsk s1 \<and> b = file_buf file \<and> fl = file_flags file
     else (\<forall>m. sectors d m = (if m = ?old \<and> ?dirty then take 512 (file_buf file) else sectors (dsk s1) m)) \<and>
       \<not> bit fl 7 \<and> take 512 b = sectors d S"
    using seek_buf_spec [OF pre, of ?old] unfolding f1s by blast
  define k where "k = (if ?dirty then ?old else S)"
  have k: "data_sect s \<le> k" "fat_sect s1 \<noteq> k" "\<exists>j < length ?cs * spc s. k = file_sector s ?cs j"
    "\<And>m. m \<noteq> k \<Longrightarrow> sectors d m = sectors (dsk s1) m"
  proof -
    show e: "\<exists>j < length ?cs * spc s. k = file_sector s ?cs j"
    proof (cases ?dirty)
      case True
      then obtain j where "j < length cs * spc s" "?old = file_sector s cs j" using olds by blast
      then show ?thesis
        using True file_sector_append [of j cs s news] by (intro exI [of _ j]) (simp add: k_def add_mult_distrib)
    qed (use pk(1) in \<open>auto simp: k_def S_def\<close>)
    then show "data_sect s \<le> k" "fat_sect s1 \<noteq> k" using fsect by auto
    show "sectors d m = sectors (dsk s1) m" if "m \<noteq> k" for m
      using m that by (cases "S = ?old") (auto simp: k_def)
  qed
  define f2 where "f2 = f1\<lparr>file_flags := fl, file_buf := b\<rparr>"
  define s2 where "s2 = s1\<lparr>dsk := d\<rparr>"
  note dw = data_write [OF v(2) _ k(2,4), unfolded vs(6), OF k(1), folded s2_def]
  have g2: "same_geometry s s2" using vs v(1) by (simp add: same_geometry_def s2_def vframe_def)
  note gs = same_geometry_simps [OF g2]
  have step: "file_step sectors cs news s s2"
    using st g2 dw k(3) v(1) vs(5) by (auto simp: file_step_def vol_step_def vframe_def)
  have S: "S \<noteq> 0xffffffff" using fsect(2) [OF pk(1)] by (simp add: S_def)
  have "is_chain (fat_entry sectors s2) (clust_cnt s2) ?cs"
    using ch is_chain_cong [of ?cs "fat_entry sectors s2" "fat_entry sectors s1" "clust_cnt s1"] dw(3)
      is_chain_bounds [OF ch] by (simp add: s2_def)
  moreover have "cache_off sectors s2 ?cs"
    using off dw(4) by (simp add: cache_off_def s2_def spc_def clust_to_sect_def)
  moreover have "take 512 b = sectors d S" if "\<not> bit fl 7"
  proof (cases "S = ?old")
    case True
    then obtain j where "j < length cs * spc s" "?old = file_sector s cs j"
      "\<not> ?dirty \<longrightarrow> take 512 (file_buf file) = sectors (dsk s) ?old" using olds S by auto
    then show ?thesis using m True that same [of j] by auto
  qed (use m in auto)
  moreover have "file_sect f2 = S" "file_buf f2 = b" "file_flags f2 = fl" "file_offset f2 = w"
    "file_sclust f2 = file_sclust file" "file_clust f2 = ?cs ! (pos div (512 * spc s))"
    by (simp_all add: f2_def f1 S_def)
  ultimately have inv: "file_inv sectors ?cs f2 s2"
    using dw(1) ne o(4,5) pos S r(2) gs by (auto simp: file_inv_def file_ok_def S_def s2_def)
  have bytes: "fsec sectors s2 ?cs f2 j = fsec sectors s cs file j" if j: "j < length cs * spc s" for j
  proof -
    have a: "file_sector s2 ?cs j = file_sector s cs j" by (simp add: gs file_sector_append [OF j])
    have fields: "file_sect f2 = S" "file_buf f2 = b" "dsk s2 = d" by (simp_all add: f2_def f1 S_def s2_def)
    have nf: "file_sector s cs j \<noteq> 0xffffffff"
      using fsect(2) [of j] j file_sector_append [OF j, of news] by (simp add: add_mult_distrib)
    show ?thesis
    proof (cases "S = ?old")
      case True
      then show ?thesis unfolding fsec_def a fields using m same [OF j] by simp
    next
      case False
      have "fsec sectors s2 ?cs f2 j = sectors d (file_sector s cs j)"
        unfolding fsec_def a fields using False m by auto
      moreover have "take 512 (file_buf file) = sectors (dsk s) ?old" if "file_sector s cs j = ?old" "\<not> ?dirty"
        using olds that nf by auto
      ultimately show ?thesis using False m same [OF j] by (auto simp: fsec_def)
    qed
  qed
  have "same_entry file f2" "unat (file_offset f2) = pos" using r(3) pos(2) by (simp_all add: same_entry_def f2_def f1)
  moreover have "\<forall>i < capacity s cs. fbyte sectors s2 ?cs f2 i = fbyte sectors s cs file i"
    using bytes by (simp add: fbyte_def sector_of_offset(1))
  ultimately show ?thesis
    using r(1) inv step unfolding f2_def [symmetric] s2_def [symmetric] by blast
qed

lemma file_seek_spec:
  assumes ok: "file_ok sectors cs file s" and off: "base + offset = int pos" "pos < 2 ^ 32"
    and base: "base = (case seek of FAT_SEEK_START \<Rightarrow> 0 | FAT_SEEK_CURR \<Rightarrow> uint (file_offset file)
      | FAT_SEEK_END \<Rightarrow> uint (file_size file))"
    and need: "pos div (512 * spc s) + 1 - length cs \<le> card (free_set sectors s)"
    and fuel: "unat (clust_cnt s) + unat (clust_cnt s) < fuel"
  shows "\<exists>news file' s'. file_seek fuel file offset seek s = Some (0, file', s') \<and>
    length news = pos div (512 * spc s) + 1 - length cs \<and> file_inv sectors (cs @ news) file' s' \<and>
    file_step sectors cs news s s' \<and> same_entry file file' \<and> unat (file_offset file') = pos \<and>
    (\<forall>i < capacity s cs. fbyte sectors s' (cs @ news) file' i = fbyte sectors s cs file i)"
proof -
  let ?csz = "512 * spc s" and ?ssect = "file_sect file"
  define i where "i = (if pos div ?csz < unat (file_offset file) div ?csz then 0
        else unat (file_offset file) div ?csz)"
  have o: "vol_inv sectors s" "data_geom s" "is_chain (fat_entry sectors s) (clust_cnt s) cs" "2 \<le> hd cs"
    "hd cs = file_sclust file" "unat (file_offset file) < capacity s cs" "length (file_buf file) = 514"
    "file_clust file = cs ! (unat (file_offset file) div ?csz)"
    using ok by (auto simp: file_ok_def vol_inv_def)
  have ne: "cs \<noteq> []" using o(6) by (auto simp: capacity_def)
  obtain news s1 where il: "i \<le> pos div ?csz" and w: "seek_loop fuel (pos div ?csz - i) (cs ! i) s =
      Some (0, (cs @ news) ! (pos div ?csz), s1)" "length news = pos div ?csz + 1 - length cs"
    "is_chain (fat_entry sectors s1) (clust_cnt s1) (cs @ news)" "vol_step sectors cs news s s1"
    "cache_off sectors s1 (cs @ news)"
    using seek_walk [OF ok need fuel i_def] by blast
  define w32 where "w32 = (of_int (int pos) :: u32)"
  have p32: "unat w32 = pos" using off(2) by (simp add: w32_def unat_of_nat_small)
  define c where "c = (cs @ news) ! (pos div ?csz)"
  define f1 where "f1 = file\<lparr>file_clust := c, file_sect := clust_to_sect s1 c + ((w32 div 512) AND clust_msk s1),
      file_offset := w32\<rparr>"
  have v: "vframe sectors s s1" "vol_inv sectors s1" using w(4) by (auto simp: vol_step_def)
  have fs: "file_seek fuel file offset seek s = Some (seek_buf ?ssect f1 s1)"
  proof -
    have n: "unat (w32 div push_bit (unat (clust_shift s)) 512) = pos div ?csz"
      "unat (file_offset file div push_bit (unat (clust_shift s)) 512) = unat (file_offset file) div ?csz"
      using offset_words(1) [OF o(2)] p32 by simp_all
    have lt: "w32 div push_bit (unat (clust_shift s)) 512 < file_offset file div push_bit (unat (clust_shift s)) 512 \<longleftrightarrow>
        pos div ?csz < unat (file_offset file) div ?csz"
      unfolding word_less_nat_alt n ..
    have off': "(case seek of FAT_SEEK_START \<Rightarrow> 0 | FAT_SEEK_CURR \<Rightarrow> uint (file_offset file)
      | FAT_SEEK_END \<Rightarrow> uint (file_size file)) + offset = int pos" using off(1) base by simp
    have r: "\<not> (int pos < 0 \<or> 0xffffffff < int pos)" using off(2) by simp
    show ?thesis
    proof (cases "pos div ?csz < unat (file_offset file) div ?csz")
      case True
      then have i0: "i = 0" "cs ! i = file_sclust file" using o(5) ne by (auto simp: i_def hd_conv_nth)
      show ?thesis
        unfolding file_seek_def off' Let_def w32_def [symmetric]
        using r True lt n(1) w(1) i0 by (simp add: f1_def c_def)
    next
      case False
      then have i0: "i = unat (file_offset file) div ?csz" "cs ! i = file_clust file" using o(8) by (auto simp: i_def)
      have "unat (w32 div push_bit (unat (clust_shift s)) 512 - file_offset file div push_bit (unat (clust_shift s)) 512) =
          pos div ?csz - i"
        using False n by (subst unat_sub) (auto simp: word_le_nat_alt i0)
      then show ?thesis
        unfolding file_seek_def off' Let_def w32_def [symmetric]
        using r False lt w(1) i0 by (simp add: f1_def c_def)
    qed
  qed
  have bnd: "pos < capacity s (cs @ news)" "pos div 512 div spc s = pos div ?csz"
  proof -
    have "pos div ?csz < length (cs @ news)" using w(2) by simp
    then have "pos < length (cs @ news) * ?csz" by (simp add: div_less_iff_less_mult)
    then show "pos < capacity s (cs @ news)" by (simp add: capacity_def)
    show "pos div 512 div spc s = pos div ?csz" by (simp add: div_mult2_eq)
  qed
  have "f1 = file\<lparr>file_clust := (cs @ news) ! (pos div ?csz), file_sect := file_sector s (cs @ news) (pos div 512),
      file_offset := w32\<rparr>"
    using vframe_simps [OF v(1)] offset_words(2) [OF o(2), of w32] p32 bnd(2)
    by (simp add: f1_def c_def file_sector_def)
  from seek_flush [OF ok w(3-5) bnd(1) p32 this] show ?thesis using fs w(2) by auto
qed


section \<open>Reading and writing\<close>

lemma fsec_current:
  assumes "file_inv sectors cs file s"
  shows "fsec sectors s cs file (unat (file_offset file) div 512) = take 512 (file_buf file)"
  using assms by (auto simp: file_inv_def file_ok_def fsec_def)

lemma same_sector: "j < 512 - off mod 512 \<Longrightarrow> (off + j) div 512 = off div 512 \<and> (off + j) mod 512 = off mod 512 + (j :: nat)"
proof -
  assume j: "j < 512 - off mod 512"
  define q r where "q = off div 512" and "r = off mod 512"
  have e: "off + j = (r + j) + 512 * q" "r + j < 512" using j by (simp_all add: q_def r_def)
  show ?thesis unfolding e(1) using e(2) by (simp flip: q_def r_def)
qed

lemma sector_in_capacity:
  assumes "off < capacity s cs" "j < 512 - off mod 512"
  shows "off + j < capacity s cs"
proof -
  have "(off + j) div 512 < length cs * spc s" using sector_of_offset(1) [OF assms(1)] same_sector [OF assms(2)] by simp
  then have "off + j < length cs * spc s * 512" by (simp add: div_less_iff_less_mult)
  then show ?thesis by (simp add: capacity_def ac_simps)
qed

text \<open>What one turn of the read loop copies.\<close>

lemma read_chunk:
  assumes inv: "file_inv sectors cs file s" and off: "off = unat (file_offset file)" and cnt: "cnt \<le> 512 - off mod 512"
  shows "take cnt (drop (off mod 512) (file_buf file)) = map (fbyte sectors s cs file) [off..<off + cnt]"
proof (rule nth_equalityI)
  have l: "length (file_buf file) = 514" using inv by (simp add: file_inv_def file_ok_def)
  then show "length (take cnt (drop (off mod 512) (file_buf file))) = length (map (fbyte sectors s cs file) [off..<off + cnt])"
    using cnt by simp
  fix j assume "j < length (take cnt (drop (off mod 512) (file_buf file)))"
  then have j: "j < cnt" by simp
  then have "j < 512 - off mod 512" using cnt by simp
  then show "take cnt (drop (off mod 512) (file_buf file)) ! j = map (fbyte sectors s cs file) [off..<off + cnt] ! j"
    using same_sector [of j off] fsec_current [OF inv] off l j by (simp add: fbyte_def)
qed

lemma step_need:
  assumes "file_step sectors cs news s s'" "length news = m" "a - length cs \<le> card (free_set sectors s)" "finite (free_set sectors s)"
  shows "a - length (cs @ news) \<le> card (free_set sectors s')"
proof -
  have "card (free_set sectors s') = card (free_set sectors s) - length news"
    using assms(1,4) by (auto simp: file_step_def card_Diff_subset distinct_card)
  then show ?thesis using assms(3) by simp
qed

lemma file_seek_curr:
  assumes inv: "file_inv sectors cs file s" and pos: "unat (file_offset file) + cnt = pos" "pos < 2 ^ 32"
    and need: "pos div (512 * spc s) + 1 - length cs \<le> card (free_set sectors s)"
    and fuel: "unat (clust_cnt s) + unat (clust_cnt s) < fuel"
  shows "\<exists>news file' s'. file_seek fuel file (int cnt) FAT_SEEK_CURR s = Some (0, file', s') \<and>
    length news = pos div (512 * spc s) + 1 - length cs \<and> file_inv sectors (cs @ news) file' s' \<and>
    file_step sectors cs news s s' \<and> same_entry file file' \<and> unat (file_offset file') = pos \<and>
    (\<forall>i < capacity s cs. fbyte sectors s' (cs @ news) file' i = fbyte sectors s cs file i)"
proof -
  have ok: "file_ok sectors cs file s" using inv by (simp add: file_inv_def)
  have "uint (file_offset file) = int (unat (file_offset file))" by simp
  then have "uint (file_offset file) + int cnt = int pos" using pos(1) by linarith
  from this have c: "uint (file_offset file) + int cnt = int pos" .
  have "uint (file_offset file) = (case FAT_SEEK_CURR of FAT_SEEK_START \<Rightarrow> 0
      | FAT_SEEK_CURR \<Rightarrow> uint (file_offset file) | FAT_SEEK_END \<Rightarrow> uint (file_size file))" by simp
  from file_seek_spec [OF ok c pos(2) this need fuel] show ?thesis .
qed

lemma read_loop_spec:
  "file_inv sectors cs file s \<Longrightarrow> unat (file_size file) \<le> capacity s cs \<Longrightarrow> off = unat (file_offset file) \<Longrightarrow>
    n = min len (unat (file_size file) - off) \<Longrightarrow>
    (off + n) div (512 * spc s) + 1 - length cs \<le> card (free_set sectors s) \<Longrightarrow>
    unat (clust_cnt s) + unat (clust_cnt s) + len < fuel \<Longrightarrow>
    \<exists>news file' s'. read_loop fuel len dst file s = Some (0, dst @ map (fbyte sectors s cs file) [off..<off + n], file', s') \<and>
      file_inv sectors (cs @ news) file' s' \<and> file_step sectors cs news s s' \<and> same_entry file file' \<and>
      unat (file_offset file') = off + n \<and>
      (\<forall>i < capacity s cs. fbyte sectors s' (cs @ news) file' i = fbyte sectors s cs file i)"
proof (induction fuel arbitrary: len dst "file" s cs off n)
  case (Suc fuel)
  note inv = Suc.prems(1) and off = Suc.prems(3) and n = Suc.prems(4)
  show ?case
  proof (cases "n = 0")
    case True
    then have "\<not> (len \<noteq> 0 \<and> file_offset file < file_size file)" using n off by (auto simp: word_less_nat_alt)
    then have "read_loop (Suc fuel) len dst file s = Some (0, dst, file, s)" by (auto simp: FAT_ERR_NONE_def)
    then show ?thesis using True inv off
      by (intro exI [of _ "[]"] exI [of _ "file"] exI [of _ s]) (simp add: same_entry_def)
  next
    case False
    then have go: "len \<noteq> 0 \<and> file_offset file < file_size file" using n off by (auto simp: word_less_nat_alt)
    define cnt where "cnt = min n (512 - off mod 512)"
    have cnt: "0 < cnt" "cnt \<le> 512 - off mod 512" "cnt \<le> n" "cnt \<le> len" using False n by (auto simp: cnt_def)
    have cc: "min len (min (512 - unat (file_offset file mod 512)) (unat (file_size file - file_offset file))) = cnt"
    proof -
      have "unat (file_size file - file_offset file) = unat (file_size file) - off"
        using go off by (subst unat_sub) (auto simp: word_le_nat_alt word_less_nat_alt)
      then show ?thesis using n off by (simp add: cnt_def unat_mod min.assoc min.commute min.left_commute)
    qed
    have size: "off + n \<le> unat (file_size file)" using n go off by (auto simp: word_less_nat_alt)
    have p: "off + cnt < 2 ^ 32" "(off + cnt) div (512 * spc s) + 1 - length cs \<le> card (free_set sectors s)"
    proof -
      have "unat (file_size file) < 2 ^ LENGTH(32)" by (rule unsigned_less)
      then show "off + cnt < 2 ^ 32" using size cnt(3) by simp
      have "(off + cnt) div (512 * spc s) \<le> (off + n) div (512 * spc s)" using cnt(3) by (intro div_le_mono) simp
      then show "(off + cnt) div (512 * spc s) + 1 - length cs \<le> card (free_set sectors s)" using Suc.prems(5) by simp
    qed
    have fuel: "unat (clust_cnt s) + unat (clust_cnt s) < fuel" using Suc.prems(6) cnt(1,4) by simp
    obtain news f1 s1 where 1: "file_seek fuel file (int cnt) FAT_SEEK_CURR s = Some (0, f1, s1)"
      "length news = (off + cnt) div (512 * spc s) + 1 - length cs" "file_inv sectors (cs @ news) f1 s1"
      "file_step sectors cs news s s1" "same_entry file f1" "unat (file_offset f1) = off + cnt"
      "\<forall>i < capacity s cs. fbyte sectors s1 (cs @ news) f1 i = fbyte sectors s cs file i"
      using file_seek_curr [OF inv off [symmetric, THEN arg_cong [of _ _ "\<lambda>x. x + cnt"]] p fuel] by blast
    have sg: "same_geometry s s1" using 1(4) by (simp add: file_step_def)
    note g = same_geometry_simps [OF sg]
    have fz: "file_size f1 = file_size file" using 1(5) by (simp add: same_entry_def)
    have rest: "n - cnt = min (len - cnt) (unat (file_size f1) - (off + cnt))"
      unfolding n fz min_def by auto
    have cap: "capacity s cs \<le> capacity s1 (cs @ news)" unfolding g by (simp add: capacity_def)
    have nd: "(off + cnt + (n - cnt)) div (512 * spc s1) + 1 - length (cs @ news) \<le> card (free_set sectors s1)"
      using step_need [OF 1(4) refl Suc.prems(5)] cnt(3) by (simp add: g)
    have sz: "unat (file_size f1) \<le> capacity s1 (cs @ news)" using Suc.prems(2) fz cap by simp
    have fl: "unat (clust_cnt s1) + unat (clust_cnt s1) + (len - cnt) < fuel" using Suc.prems(6) cnt(1,4) by (simp add: g)
    obtain ns2 f2 s2 where 2: "read_loop fuel (len - cnt) (dst @ map (fbyte sectors s cs file) [off..<off + cnt]) f1 s1 =
        Some (0, (dst @ map (fbyte sectors s cs file) [off..<off + cnt]) @
          map (fbyte sectors s1 (cs @ news) f1) [off + cnt..<off + cnt + (n - cnt)], f2, s2)"
      "file_inv sectors ((cs @ news) @ ns2) f2 s2" "file_step sectors (cs @ news) ns2 s1 s2" "same_entry f1 f2"
      "unat (file_offset f2) = off + cnt + (n - cnt)"
      "\<forall>i < capacity s1 (cs @ news). fbyte sectors s2 ((cs @ news) @ ns2) f2 i = fbyte sectors s1 (cs @ news) f1 i"
      using Suc.IH [OF 1(3) sz 1(6) [symmetric] rest nd fl, of "dst @ map (fbyte sectors s cs file) [off..<off + cnt]"]
      by blast
    have m: "map (fbyte sectors s1 (cs @ news) f1) [off + cnt..<off + n] = map (fbyte sectors s cs file) [off + cnt..<off + n]"
      using 1(7) size Suc.prems(2) by auto
    have u: "[off..<off + cnt] @ [off + cnt..<off + n] = [off..<off + n]"
      using upt_add_eq_append [of off "off + cnt" "n - cnt"] cnt(3) by simp
    have sp: "map (fbyte sectors s cs file) [off..<off + cnt] @ map (fbyte sectors s1 (cs @ news) f1) [off + cnt..<off + n] =
        map (fbyte sectors s cs file) [off..<off + n]"
      by (simp only: m u [symmetric] map_append)
    have "read_loop (Suc fuel) len dst file s = Some (0, dst @ map (fbyte sectors s cs file) [off..<off + n], f2, s2)"
      using go 1(1) 2(1) cc cnt(3) sp read_chunk [OF inv off cnt(2)] off by (simp add: Let_def unat_mod)
    moreover have "same_entry file f2" using 1(5) 2(4) by (auto simp: same_entry_def)
    ultimately show ?thesis
      using 2 1(7) cnt(3) cap file_step_append [OF 1(4) 2(3)]
      by (intro exI [of _ "news @ ns2"] exI [of _ f2] exI [of _ s2]) simp
  qed
qed simp

text \<open>What one turn of the write loop puts into the buffer.\<close>

lemma write_chunk:
  assumes inv: "file_inv sectors cs file s" and off: "off = unat (file_offset file)"
    and len: "length xs \<le> 512 - off mod 512" "xs \<noteq> []"
    and f1: "f1 = file\<lparr>file_buf := blit (file_buf file) (off mod 512) xs, file_flags := file_flags file OR FAT_FILE_DIRTY\<rparr>"
  shows "file_inv sectors cs f1 s" "same_entry file f1"
    "i < capacity s cs \<Longrightarrow> fbyte sectors s cs f1 i =
      (if off \<le> i \<and> i < off + length xs then xs ! (i - off) else fbyte sectors s cs file i)"
proof -
  let ?b = "file_buf file"
  have l: "length ?b = 514" "off < capacity s cs" "off mod 512 + length xs \<le> 512"
    using inv len off by (auto simp: file_inv_def file_ok_def)
  show inv1: "file_inv sectors cs f1 s"
    using inv l(1,3) by (auto simp: file_inv_def file_ok_def f1 bit_or_iff)
  show "same_entry file f1" by (simp add: same_entry_def f1 bit_or_iff)
  assume i: "i < capacity s cs"
  have i512: "i mod 512 < 512" by simp
  show "fbyte sectors s cs f1 i = (if off \<le> i \<and> i < off + length xs then xs ! (i - off) else fbyte sectors s cs file i)"
  proof (cases "i div 512 = off div 512")
    case True
    have b: "fbyte sectors s cs f1 i = blit ?b (off mod 512) xs ! (i mod 512)" "fbyte sectors s cs file i = ?b ! (i mod 512)"
      using fsec_current [OF inv1] fsec_current [OF inv] True off i512 by (simp_all add: fbyte_def f1)
    have m: "i = 512 * (off div 512) + i mod 512" "off = 512 * (off div 512) + off mod 512" using True by (metis mult_div_mod_eq)+
    then have e: "off \<le> i \<and> i < off + length xs \<longleftrightarrow> off mod 512 \<le> i mod 512 \<and> i mod 512 < off mod 512 + length xs"
      "i - off = i mod 512 - off mod 512" by linarith+
    show ?thesis
    proof (cases "off mod 512 \<le> i mod 512 \<and> i mod 512 < off mod 512 + length xs")
      case True
      then show ?thesis unfolding b e using nth_blit_in [of "off mod 512" "i mod 512" xs ?b] l by simp
    next
      case False
      then show ?thesis unfolding b e using nth_blit_out [of "i mod 512" ?b "off mod 512" xs] l by auto
    qed
  next
    case False
    have "\<not> (off \<le> i \<and> i < off + length xs)"
    proof
      assume a: "off \<le> i \<and> i < off + length xs"
      then have "i - off < 512 - off mod 512" using l(3) by linarith
      from same_sector [OF this] show False using a False by simp
    qed
    moreover have "file_sector s cs (i div 512) \<noteq> file_sect file"
    proof
      assume a: "file_sector s cs (i div 512) = file_sect file"
      have o: "data_geom s" "is_chain (fat_entry sectors s) (clust_cnt s) cs" "2 \<le> hd cs"
        "file_sect file = file_sector s cs (off div 512)"
        using inv off by (auto simp: file_inv_def file_ok_def vol_inv_def)
      show False
        using file_sector_inj [OF o(1-3), of "i div 512" "off div 512"] sector_of_offset(1) [OF i]
          sector_of_offset(1) [OF l(2)] a o(4) False by simp
    qed
    ultimately show ?thesis by (auto simp: fbyte_def fsec_def f1)
  qed
qed

lemma write_loop_spec:
  "file_inv sectors cs file s \<Longrightarrow> off = unat (file_offset file) \<Longrightarrow> off + length src < 2 ^ 32 \<Longrightarrow>
    (off + length src) div (512 * spc s) + 1 - length cs \<le> card (free_set sectors s) \<Longrightarrow>
    unat (clust_cnt s) + unat (clust_cnt s) + length src < fuel \<Longrightarrow>
    \<exists>news file' s'. write_loop fuel src bytes file s = Some (bytes + length src, file', s') \<and>
      file_inv sectors (cs @ news) file' s' \<and> file_step sectors cs news s s' \<and> same_entry file file' \<and>
      unat (file_offset file') = off + length src \<and>
      (\<forall>i < length src. fbyte sectors s' (cs @ news) file' (off + i) = src ! i) \<and>
      (\<forall>i < capacity s cs. i < off \<or> off + length src \<le> i \<longrightarrow>
        fbyte sectors s' (cs @ news) file' i = fbyte sectors s cs file i)"
proof (induction fuel arbitrary: src bytes "file" s cs off)
  case (Suc fuel)
  note inv = Suc.prems(1) and off = Suc.prems(2)
  show ?case
  proof (cases "src = []")
    case True
    then show ?thesis using inv off
      by (intro exI [of _ "[]"] exI [of _ "file"] exI [of _ s]) (simp add: same_entry_def)
  next
    case False
    define cnt where "cnt = min (length src) (512 - off mod 512)"
    define f0 where "f0 = file\<lparr>file_buf := blit (file_buf file) (off mod 512) (take cnt src),
        file_flags := file_flags file OR FAT_FILE_DIRTY\<rparr>"
    have cnt: "0 < cnt" "cnt \<le> 512 - off mod 512" "cnt \<le> length src" using False by (auto simp: cnt_def)
    have lt: "length (take cnt src) = cnt" using cnt(3) by simp
    have "length (take cnt src) \<le> 512 - off mod 512" "take cnt src \<noteq> []" using cnt lt by auto
    note w = write_chunk [OF inv off this f0_def]
    have o0: "unat (file_offset f0) = off" using off by (simp add: f0_def)
    have p: "off + cnt < 2 ^ 32" "(off + cnt) div (512 * spc s) + 1 - length cs \<le> card (free_set sectors s)"
    proof -
      show "off + cnt < 2 ^ 32" using Suc.prems(3) cnt(3) by simp
      have "(off + cnt) div (512 * spc s) \<le> (off + length src) div (512 * spc s)" using cnt(3) by (intro div_le_mono) simp
      then show "(off + cnt) div (512 * spc s) + 1 - length cs \<le> card (free_set sectors s)" using Suc.prems(4) by simp
    qed
    have fuel: "unat (clust_cnt s) + unat (clust_cnt s) < fuel" using Suc.prems(5) cnt by simp
    obtain news f1 s1 where 1: "file_seek fuel f0 (int cnt) FAT_SEEK_CURR s = Some (0, f1, s1)"
      "length news = (off + cnt) div (512 * spc s) + 1 - length cs" "file_inv sectors (cs @ news) f1 s1"
      "file_step sectors cs news s s1" "same_entry f0 f1" "unat (file_offset f1) = off + cnt"
      "\<forall>i < capacity s cs. fbyte sectors s1 (cs @ news) f1 i = fbyte sectors s cs f0 i"
      using file_seek_curr [OF w(1) o0 [THEN arg_cong [of _ _ "\<lambda>x. x + cnt"]] p fuel] by blast
    have sg: "same_geometry s s1" using 1(4) by (simp add: file_step_def)
    note g = same_geometry_simps [OF sg]
    have cap: "capacity s cs \<le> capacity s1 (cs @ news)" unfolding g by (simp add: capacity_def)
    have nd: "(off + cnt + length (drop cnt src)) div (512 * spc s1) + 1 - length (cs @ news) \<le> card (free_set sectors s1)"
      using step_need [OF 1(4) refl Suc.prems(4)] cnt(3) by (simp add: g)
    have sm: "off + cnt + length (drop cnt src) < 2 ^ 32" using Suc.prems(3) cnt(3) by simp
    have fl: "unat (clust_cnt s1) + unat (clust_cnt s1) + length (drop cnt src) < fuel"
      using Suc.prems(5) cnt by (simp add: g)
    obtain ns2 f2 s2 where 2: "write_loop fuel (drop cnt src) (bytes + cnt) f1 s1 = Some (bytes + cnt + length (drop cnt src), f2, s2)"
      "file_inv sectors ((cs @ news) @ ns2) f2 s2" "file_step sectors (cs @ news) ns2 s1 s2" "same_entry f1 f2"
      "unat (file_offset f2) = off + cnt + length (drop cnt src)"
      "\<forall>i < length (drop cnt src). fbyte sectors s2 ((cs @ news) @ ns2) f2 (off + cnt + i) = drop cnt src ! i"
      "\<forall>i < capacity s1 (cs @ news). i < off + cnt \<or> off + cnt + length (drop cnt src) \<le> i \<longrightarrow>
        fbyte sectors s2 ((cs @ news) @ ns2) f2 i = fbyte sectors s1 (cs @ news) f1 i"
      using Suc.IH [OF 1(3) 1(6) [symmetric] sm nd fl, of "bytes + cnt"] by blast
    have "write_loop (Suc fuel) src bytes file s = Some (bytes + length src, f2, s2)"
      using False 1(1) 2(1) cnt(3) off by (simp add: Let_def unat_mod cnt_def f0_def)
    moreover have "same_entry file f2" using w(2) 1(5) 2(4) by (auto simp: same_entry_def)
    moreover have "fbyte sectors s2 ((cs @ news) @ ns2) f2 (off + i) = src ! i" if i: "i < length src" for i
    proof (cases "i < cnt")
      case True
      have "off < capacity s cs" using inv off by (auto simp: file_inv_def file_ok_def)
      then have "off + i < capacity s cs" using sector_in_capacity [of off s cs i] cnt(2) True by simp
      then show ?thesis using i True 1(7) 2(7) cap w(3) [of "off + i"] lt by simp
    next
      case False
      then show ?thesis using i 2(6) [rule_format, of "i - cnt"] by simp
    qed
    moreover have "fbyte sectors s2 ((cs @ news) @ ns2) f2 i = fbyte sectors s cs file i"
      if "i < capacity s cs" "i < off \<or> off + length src \<le> i" for i
      using that 1(7) 2(7) cap w(3) [of i] lt cnt(3) by auto
    ultimately show ?thesis
      using 2 cnt(3) file_step_append [OF 1(4) 2(3)]
      by (intro exI [of _ "news @ ns2"] exI [of _ f2] exI [of _ s2]) simp
  qed
qed simp

section \<open>Whole calls\<close>

definition clusters_for :: "'d fs \<Rightarrow> nat \<Rightarrow> nat" where
  "clusters_for s pos = pos div (512 * spc s) + 1"

lemma file_read_spec:
  assumes inv: "file_inv sectors cs file s" and rd: "file_flags file AND FAT_READ \<noteq> 0"
    and size: "unat (file_size file) \<le> capacity s cs" and off: "off = unat (file_offset file)"
    and n: "n = min len (unat (file_size file) - off)"
    and room: "clusters_for s (off + n) - length cs \<le> card (free_set sectors s)"
    and fuel: "2 * unat (clust_cnt s) + len < fuel"
  shows "\<exists>news file' s'. file_read fuel file len s = Some (0, map (fbyte sectors s cs file) [off..<off + n], file', s') \<and>
    file_inv sectors (cs @ news) file' s' \<and> file_step sectors cs news s s' \<and> same_entry file file' \<and>
    unat (file_offset file') = off + n \<and>
    (\<forall>i < capacity s cs. fbyte sectors s' (cs @ news) file' i = fbyte sectors s cs file i)"
proof -
  have fl: "unat (clust_cnt s) + unat (clust_cnt s) + len < fuel" using fuel by simp
  from read_loop_spec [OF inv size off n room [unfolded clusters_for_def] fl, of "[]"]
  show ?thesis unfolding file_read_def using rd by simp
qed

lemma file_write_spec:
  assumes inv: "file_inv sectors cs file s" and wr: "file_flags file AND FAT_WRITE \<noteq> 0"
    and off: "off = unat (file_offset file)" and len: "off + length src < 2 ^ 32"
    and room: "clusters_for s (off + length src) - length cs \<le> card (free_set sectors s)"
    and fuel: "2 * unat (clust_cnt s) + length src < fuel"
  shows "\<exists>news file' s'. file_write fuel file src s = Some (0, length src, file', s') \<and>
    file_inv sectors (cs @ news) file' s' \<and> file_step sectors cs news s s' \<and>
    unat (file_offset file') = off + length src \<and>
    unat (file_size file') = max (unat (file_size file)) (off + length src) \<and>
    same_entry (file\<lparr>file_size := file_size file', file_flags := file_flags file OR (FAT_MODIFIED OR FAT_ACCESSED)\<rparr>) file' \<and>
    (\<forall>i < length src. fbyte sectors s' (cs @ news) file' (off + i) = src ! i) \<and>
    (\<forall>i < capacity s cs. i < off \<or> off + length src \<le> i \<longrightarrow>
      fbyte sectors s' (cs @ news) file' i = fbyte sectors s cs file i)"
proof -
  define f0 where "f0 = file\<lparr>file_flags := file_flags file OR (FAT_MODIFIED OR FAT_ACCESSED)\<rparr>"
  have b7: "\<not> bit (FAT_MODIFIED OR FAT_ACCESSED) 7"
    by (simp add: FAT_MODIFIED_def FAT_ACCESSED_def bit_or_iff)
  have f0: "file_inv sectors cs f0 s" "off = unat (file_offset f0)" "fbyte sectors s cs f0 = fbyte sectors s cs file"
    using inv off b7 by (auto simp: f0_def file_inv_def file_ok_def bit_or_iff fbyte_def fsec_def fun_eq_iff)
  have fl: "unat (clust_cnt s) + unat (clust_cnt s) + length src < fuel" using fuel by simp
  obtain news f1 s1 where 1: "write_loop fuel src 0 f0 s = Some (0 + length src, f1, s1)"
    "file_inv sectors (cs @ news) f1 s1" "file_step sectors cs news s s1" "same_entry f0 f1"
    "unat (file_offset f1) = off + length src"
    "\<forall>i < length src. fbyte sectors s1 (cs @ news) f1 (off + i) = src ! i"
    "\<forall>i < capacity s cs. i < off \<or> off + length src \<le> i \<longrightarrow> fbyte sectors s1 (cs @ news) f1 i = fbyte sectors s cs f0 i"
    using write_loop_spec [OF f0(1,2) len room [unfolded clusters_for_def] fl, of 0] by blast
  define f2 where "f2 = (if file_size f1 < file_offset f1 then f1\<lparr>file_size := file_offset f1\<rparr> else f1)"
  have "file_write fuel file src s = Some (0, length src, f2, s1)"
    unfolding file_write_def using wr 1(1) by (simp add: f0_def [symmetric] f2_def FAT_ERR_NONE_def)
  moreover have "file_inv sectors (cs @ news) f2 s1" "fbyte sectors s1 (cs @ news) f2 = fbyte sectors s1 (cs @ news) f1"
    "unat (file_offset f2) = off + length src"
    using 1(2,5) by (auto simp: f2_def file_inv_def file_ok_def fbyte_def fsec_def fun_eq_iff)
  moreover have "unat (file_size f2) = max (unat (file_size file)) (off + length src)"
    using 1(4,5) by (simp add: f2_def same_entry_def f0_def word_less_nat_alt max_def)
  moreover have "same_entry (file\<lparr>file_size := file_size f2, file_flags := file_flags file OR (FAT_MODIFIED OR FAT_ACCESSED)\<rparr>) f2"
    using 1(4) by (simp add: same_entry_def f0_def f2_def)
  ultimately show ?thesis using 1(3,6,7) f0(3) by (intro exI [of _ news] exI [of _ f2] exI [of _ s1]) simp
qed

lemma bits_RWM:
  "f AND FAT_WRITE \<noteq> 0 \<longleftrightarrow> bit f 0" "f AND FAT_READ \<noteq> 0 \<longleftrightarrow> bit f 1"
  "has f FAT_MODIFIED \<longleftrightarrow> bit f 6" "has f FAT_ACCESSED \<longleftrightarrow> bit f 5"
  "bit FAT_MODIFIED n \<longleftrightarrow> n = 6" "bit FAT_ACCESSED n \<longleftrightarrow> n = 5"
proof -
  have e: "FAT_WRITE = 2 ^ 0" "FAT_READ = 2 ^ 1" "FAT_MODIFIED = 2 ^ 6" "FAT_ACCESSED = 2 ^ 5"
    by (simp_all add: FAT_WRITE_def FAT_READ_def FAT_MODIFIED_def FAT_ACCESSED_def)
  show "f AND FAT_WRITE \<noteq> 0 \<longleftrightarrow> bit f 0" "f AND FAT_READ \<noteq> 0 \<longleftrightarrow> bit f 1"
    "has f FAT_MODIFIED \<longleftrightarrow> bit f 6" "has f FAT_ACCESSED \<longleftrightarrow> bit f 5"
    unfolding has_def e by (simp_all only: and_exp_eq_0_iff_not_bit not_not)
  show "bit FAT_MODIFIED n \<longleftrightarrow> n = 6" "bit FAT_ACCESSED n \<longleftrightarrow> n = 5" unfolding e bit_exp_iff by auto
qed

text \<open>The directory entry that \<open>fat_file_sync\<close> updates.\<close>

lemma length_sync_entry [simp]: "length (sync_entry file b) = length b"
  by (simp add: sync_entry_def Let_def split: prod.split)

lemma sync_entry_size:
  "has (file_flags file) FAT_MODIFIED \<Longrightarrow> unat (file_dir_idx file) + 32 \<le> length b \<Longrightarrow>
    ld32 (sync_entry file b) (unat (file_dir_idx file) + 28) = file_size file"
proof -
  assume m: "has (file_flags file) FAT_MODIFIED" and l: "unat (file_dir_idx file) + 32 \<le> length b"
  have st: "ld32 (st16 c i v) (i + 4) = ld32 c (i + 4)" "ld32 (st16 c i v) (i + 6) = ld32 c (i + 6)" for c i v
    by (simp_all add: ld32_def)
  let ?p = "unat (file_dir_idx file)"
  show ?thesis
    using m l st(1) [of _ "?p + 24"] st(2) [of _ "?p + 22"]
    by (simp add: sync_entry_def Let_def add.assoc split: prod.split)
qed

lemma sync_entry_other:
  "j < unat (file_dir_idx file) \<or> unat (file_dir_idx file) + 32 \<le> j \<Longrightarrow> sync_entry file b ! j = b ! j"
  by (auto simp: sync_entry_def Let_def nth_list_update split: prod.split)

lemma file_sync_spec:
  assumes inv: "file_inv sectors cs file s" and m: "has (file_flags file) FAT_MODIFIED"
    and dir: "data_sect s \<le> file_dir_sect file" "\<And>k. k < length cs * spc s \<Longrightarrow> file_dir_sect file \<noteq> file_sector s cs k"
    and idx: "unat (file_dir_idx file) + 32 \<le> 512"
  shows "\<exists>file' s'. file_sync file s = (0, file', s') \<and> \<not> has (file_flags file') FAT_MODIFIED \<and>
    (\<forall>k < length cs * spc s. sectors (dsk s') (file_sector s cs k) = fsec sectors s cs file k) \<and>
    ld32 (sectors (dsk s') (file_dir_sect file)) (unat (file_dir_idx file) + 28) = file_size file \<and>
    (\<forall>j < 512. j < unat (file_dir_idx file) \<or> unat (file_dir_idx file) + 32 \<le> j \<longrightarrow>
      sectors (dsk s') (file_dir_sect file) ! j = vsec sectors s (file_dir_sect file) ! j) \<and>
    (\<forall>c < clust_cnt s. fat_entry sectors s' c = fat_entry sectors s c) \<and> clust_cnt s' = clust_cnt s"
proof -
  let ?S = "file_sect file" and ?D = "file_dir_sect file"
  have o: "vol_inv sectors s" "data_geom s" "table_inv sectors s" "never_fails (ops s)" "good_disk (ops s) sectors"
    "is_chain (fat_entry sectors s) (clust_cnt s) cs" "2 \<le> hd cs" "cache_off sectors s cs" "length (file_buf file) = 514"
    "unat (file_offset file) < capacity s cs" "?S = file_sector s cs (unat (file_offset file) div 512)"
    using inv by (auto simp: file_inv_def file_ok_def vol_inv_def table_inv_def cache_inv_def)
  have fsect: "data_sect s \<le> file_sector s cs k" "fat_sect s \<noteq> file_sector s cs k" if "k < length cs * spc s" for k
    using file_sector_unat(4) [OF o(2,6,7) that] cache_off_sector [OF o(8) that] by auto
  note kS = sector_of_offset(1) [OF o(10)]
  have S: "data_sect s \<le> ?S" "fat_sect s \<noteq> ?S" "?D \<noteq> ?S" using fsect [OF kS] dir(2) [OF kS] o(11) by auto
  obtain d where w: "op_write (ops s) (dev s) (file_buf file) ?S (dsk s) = (True, d)"
    "\<forall>n. sectors d n = (if n = ?S then take 512 (file_buf file) else sectors (dsk s) n)"
    using never_fails_write [OF o(4,5,9)] by blast
  define s1 where "s1 = s\<lparr>dsk := d\<rparr>"
  have dd: "sectors d m = sectors (dsk s) m" if "m \<noteq> ?S" for m using w(2) that by simp
  note dw = data_write [OF o(1) S(1,2) dd, folded s1_def]
  have i1: "cache_inv sectors s1" "geom s1" "table_inv sectors s1" using dw(1) by (auto simp: vol_inv_def table_inv_def)
  have D: "?D \<noteq> 0" "?D \<noteq> info_sect s" "\<not> in_fats s ?D" using below_data(3) [OF o(3,2) dir(1)] by auto
  obtain e2 s2 where 2: "update_buf ?D s1 = (e2, s2)" by (metis surj_pair)
  have e2: "e2 = 0" using update_buf_ok [of s1 ?D] 2 o(4) by (simp add: s1_def)
  note u = update_buf_spec [OF i1(1) D(1) 2]
  define s3 where "s3 = s2\<lparr>fat_flags := fat_flags s2 OR FAT_BUF_DIRTY, fat_buf := sync_entry file (fat_buf s2)\<rparr>"
  have s2: "cache_inv sectors s2" "meta s1 s2" "fat_sect s2 = ?D" "length (fat_buf s2) = 514"
    "take 512 (fat_buf s2) = vsec sectors s1 ?D" "\<forall>m. m \<noteq> 0 \<longrightarrow> vsec sectors s2 m = vsec sectors s1 m"
    using u e2 by auto
  have d3: "cache_inv sectors s3" "vsec sectors s3 n = (if n = ?D then take 512 (sync_entry file (fat_buf s2)) else vsec sectors s2 n)" for n
    using dirty_spec [OF s2(1), of s3] s2(3,4) by (simp_all add: s3_def)
  have m3: "meta s1 s3" using s2(2) by (simp add: s3_def)
  have t3: "table_inv sectors s3" using d3(1) geom_meta [OF m3] i1(2) by (simp add: table_inv_def)
  obtain e4 s4 where 4: "sync_fs s3 = (e4, s4)" by (metis surj_pair)
  have "never_fails (ops s3)" using meta_simps(1) [OF m3] o(4) by (simp add: s1_def)
  then have e4: "e4 = 0" using sync_fs_ok [of s3] 4 by simp
  note y = sync_fs_table [OF t3 4]
  have i3: "info_sect s3 = info_sect s" "clust_cnt s3 = clust_cnt s" "fat_sect0 s3 = fat_sect0 s"
    using meta_simps [OF m3] by (simp_all add: s1_def)
  have y4: "sectors (dsk s4) n = vsec sectors s3 n" if "n \<noteq> 0" "n \<noteq> info_sect s" for n
    using y e4 that i3 by simp
  define f4 where "f4 = file\<lparr>file_flags := clr (file_flags file) (FAT_ACCESSED OR FAT_MODIFIED)\<rparr>"
  have am: "has (file_flags file) (FAT_ACCESSED OR FAT_MODIFIED)"
  proof -
    have "bit (file_flags file AND (FAT_ACCESSED OR FAT_MODIFIED)) 6" using m by (simp add: bits_RWM bit_and_iff bit_or_iff)
    then show ?thesis unfolding has_def by (metis bit_0_eq bot_apply bot_bool_def)
  qed
  have "file_sync file s = (0, f4, s4)"
    using m am w(1) 2 e2 4 e4
    by (simp add: file_sync_def s1_def [symmetric] s3_def [symmetric] f4_def Let_def FAT_ERR_NONE_def)
  moreover have "\<not> has (file_flags f4) FAT_MODIFIED" by (simp add: f4_def bits_RWM bit_clr bit_or_iff)
  moreover have "sectors (dsk s4) (file_sector s cs k) = fsec sectors s cs file k" if k: "k < length cs * spc s" for k
  proof -
    have nz: "file_sector s cs k \<noteq> 0" "file_sector s cs k \<noteq> info_sect s"
      using below_data(3) [OF o(3,2) fsect(1) [OF k]] by auto
    have "sectors (dsk s4) (file_sector s cs k) = vsec sectors s1 (file_sector s cs k)"
      using y4 [OF nz] d3(2) dir(2) [OF k] s2(6) nz by simp
    also have "\<dots> = sectors d (file_sector s cs k)" using fsect(2) [OF k] by (simp add: vsec_def s1_def)
    finally show ?thesis using w(2) by (simp add: fsec_def)
  qed
  moreover have dirv: "sectors (dsk s4) ?D = take 512 (sync_entry file (fat_buf s2))"
    using y4 [OF D(1,2)] d3(2) by simp
  moreover from dirv have "ld32 (sectors (dsk s4) ?D) (unat (file_dir_idx file) + 28) = file_size file"
    using sync_entry_size [OF m, of "fat_buf s2"] idx s2(4)
      ld32_take [of "unat (file_dir_idx file) + 28" 512 "sync_entry file (fat_buf s2)"] by simp
  moreover from dirv have "sectors (dsk s4) ?D ! j = vsec sectors s ?D ! j"
    if "j < 512" "j < unat (file_dir_idx file) \<or> unat (file_dir_idx file) + 32 \<le> j" for j
  proof -
    have "fat_buf s2 ! j = take 512 (fat_buf s2) ! j" using that(1) by simp
    also have "\<dots> = vsec sectors s ?D ! j" using s2(5) dw(2) S(3) by simp
    finally show ?thesis using that dirv sync_entry_other [of j "file" "fat_buf s2"] by simp
  qed
  moreover have "fat_entry sectors s4 c = fat_entry sectors s c" if c: "c < clust_cnt s" for c
  proof -
    have c3: "c < clust_cnt s3" using c i3(2) by simp
    have F: "fat_sect0 s + c div 128 < data_sect s" "fat_sect0 s + c div 128 \<noteq> 0" using below_data(1) [OF o(3,2) c] by auto
    then have "fat_sect0 s + c div 128 \<noteq> ?D" "fat_sect0 s + c div 128 \<noteq> ?S" using dir(1) S(1) by auto
    then have "vsec sectors s3 (fat_sect0 s + c div 128) = vsec sectors s (fat_sect0 s + c div 128)"
      using d3(2) s2(6) F(2) dw(2) by simp
    moreover have "fat_entry sectors s4 c = fat_entry sectors s3 c" using y e4 c3 by blast
    ultimately show ?thesis by (simp add: fat_entry_def entry_at_def i3(3))
  qed
  moreover have "clust_cnt s4 = clust_cnt s" using meta_simps(3) [of s3 s4] y i3(2) by simp
  ultimately show ?thesis by blast
qed

lemma file_seek_back:
  assumes inv: "file_inv sectors cs file s" and pos: "pos < capacity s cs" "pos < 2 ^ 31"
    and fuel: "2 * unat (clust_cnt s) < fuel"
  shows "\<exists>file' s'. file_seek fuel file (int pos) FAT_SEEK_START s = Some (0, file', s') \<and> file_inv sectors cs file' s' \<and>
    file_step sectors cs [] s s' \<and> same_entry file file' \<and> unat (file_offset file') = pos \<and>
    (\<forall>i < capacity s cs. fbyte sectors s' cs file' i = fbyte sectors s cs file i)"
proof -
  have ok: "file_ok sectors cs file s" using inv by (simp add: file_inv_def)
  have lt: "pos div (512 * spc s) + 1 \<le> length cs"
    using pos(1) by (simp add: capacity_def less_mult_imp_div_less Suc_le_eq)
  have fl: "unat (clust_cnt s) + unat (clust_cnt s) < fuel" using fuel by simp
  have p: "(0 :: int) + int pos = int pos" "pos < 2 ^ 32" using pos(2) by simp_all
  have b: "0 = (case FAT_SEEK_START of FAT_SEEK_START \<Rightarrow> 0 | FAT_SEEK_CURR \<Rightarrow> uint (file_offset file)
      | FAT_SEEK_END \<Rightarrow> uint (file_size file))" by simp
  have need: "pos div (512 * spc s) + 1 - length cs \<le> card (free_set sectors s)" using lt by simp
  show ?thesis using file_seek_spec [OF ok p b need fl] lt by (elim exE) auto
qed

text \<open>A file as \<open>fat_file_open\<close> hands it to \<open>fat_file_seek\<close>: the buffer is not yet read.\<close>

lemma opened_file_ok:
  assumes "vol_inv sectors s" "is_chain (fat_entry sectors s) (clust_cnt s) cs" "cs \<noteq> []" "2 \<le> hd cs"
    and "hd cs = sfn_cluster b (dir_ptr dir)" "cache_off sectors s cs" "length (file_buf file) = 514" "\<not> bit flags 7"
  shows "file_ok sectors cs (open_entry dir flags file b) s"
proof -
  have "\<not> bit (flags OR FAT_MODIFIED) 7" using assms(8) by (simp add: bit_or_iff bits_RWM)
  moreover have "0 < capacity s cs" using assms(3) by (simp add: capacity_def)
  ultimately show ?thesis
    using assms hd_conv_nth [OF assms(3)] by (simp add: file_ok_def open_entry_def Let_def)
qed

text \<open>Clusters of different chains have different sectors.\<close>

lemma other_sector:
  assumes "data_geom s" "c \<noteq> d" "2 \<le> c" "c < clust_cnt s" "2 \<le> d" "d < clust_cnt s" "i < spc s" "j < spc s"
  shows "clust_to_sect s c + of_nat i \<noteq> clust_to_sect s d + of_nat j"
proof
  assume e: "clust_to_sect s c + of_nat i = clust_to_sect s d + of_nat j"
  have "(unat c - 2) * spc s + i = (unat d - 2) * spc s + j"
    using cluster_sector [OF assms(1,3,4,7)] cluster_sector [OF assms(1,5,6,8)] e by simp
  then have "((unat c - 2) * spc s + i) div spc s = ((unat d - 2) * spc s + j) div spc s" by simp
  then have "unat c - 2 = unat d - 2" using assms(7,8) by simp
  then show False using assms(2,3,5) by (simp add: word_le_nat_alt word_unat_eq_iff)
qed

lemma file_step_other:
  assumes st: "file_step sectors cs news s s'" and g: "data_geom s"
    and cs: "is_chain (fat_entry sectors s) (clust_cnt s) cs" "2 \<le> hd cs"
    and ds: "is_chain (fat_entry sectors s) (clust_cnt s) ds" "2 \<le> hd ds" "set ds \<inter> set cs = {}"
  shows "is_chain (fat_entry sectors s') (clust_cnt s') ds"
    "k < length ds * spc s \<Longrightarrow> vsec sectors s' (file_sector s ds k) = vsec sectors s (file_sector s ds k)"
proof -
  have f: "c \<notin> set news" if "c \<in> set ds" for c
    using st is_chain_bounds [OF ds(1) that] by (auto simp: file_step_def free_set_def)
  have nb: "2 \<le> c \<and> c < clust_cnt s" if "c \<in> set (cs @ news)" for c
    using that chain_ge2 [OF cs] is_chain_bounds [OF cs(1)] st by (auto simp: file_step_def free_set_def)
  have e: "fat_entry sectors s' c = fat_entry sectors s c" if "c \<in> set ds" for c
    using st f [OF that] ds(3) that is_chain_bounds [OF ds(1) that] by (auto simp: file_step_def)
  have "clust_cnt s' = clust_cnt s" using st by (simp add: file_step_def same_geometry_def)
  then show "is_chain (fat_entry sectors s') (clust_cnt s') ds"
    using ds(1) is_chain_cong [OF e] by simp
  assume k: "k < length ds * spc s"
  obtain c i where c: "c \<in> set ds" "i < spc s" "file_sector s ds k = clust_to_sect s c + of_nat i"
    using file_sector_cluster [OF k] by blast
  have cb: "2 \<le> c" "c < clust_cnt s" using chain_ge2 [OF ds(1,2) c(1)] is_chain_bounds [OF ds(1) c(1)] by auto
  have "file_sector s ds k \<noteq> file_sector s (cs @ news) l" if l: "l < length (cs @ news) * spc s" for l
  proof -
    obtain d j where d: "d \<in> set (cs @ news)" "j < spc s" "file_sector s (cs @ news) l = clust_to_sect s d + of_nat j"
      using file_sector_cluster [OF l] by blast
    have "c \<noteq> d" using c(1) d(1) f ds(3) by auto
    then show ?thesis using other_sector [OF g _ cb _ _ c(2) d(2)] nb [OF d(1)] c(3) d(3) by simp
  qed
  moreover have "data_sect s \<le> file_sector s ds k" using file_sector_unat(4) [OF g ds(1,2) k] .
  ultimately show "vsec sectors s' (file_sector s ds k) = vsec sectors s (file_sector s ds k)"
    using st by (simp add: file_step_def)
qed

section \<open>An example file\<close>

text \<open>A volume of one sector per cluster whose root directory is cluster 2 and whose only file has the
  clusters 3 and 4.\<close>

definition file_disk :: "u32 \<Rightarrow> u8 list" where
  "file_disk n = (if n = 32 \<or> n = 33
     then st32 (st32 (st32 (replicate 512 0) 8 0x0fffffff) 12 4) 16 0x0fffffff else replicate 512 0)"

abbreviation vol :: "(u32 \<Rightarrow> u8 list) fs" where
  "vol \<equiv> ram_fs file_disk"

definition demo_file :: File where
  "demo_file = \<lparr>file_fat = Some 0, file_dir_sect = 34, file_sclust = 3, file_clust = 3, file_sect = 35,
     file_size = 0, file_offset = 0, file_dir_idx = 0, file_attr = FAT_ATTR_ARCHIVE, file_flags = FAT_READ OR FAT_WRITE,
     file_buf = replicate 514 0\<rparr>"

lemma file_disk_entry:
  "c < 128 \<Longrightarrow> fat_entry ram_sec vol c = (if c = 3 then 4 else if c = 2 \<or> c = 4 then 0x0fffffff else 0)"
proof -
  assume c: "c < 128"
  then have u: "unat c < 128" by (simp add: word_less_nat_alt)
  then have d: "c div 128 = 0" "c mod 128 = c" by (simp_all add: word_unat_eq_iff unat_div unat_mod)
  let ?t = "st32 (st32 (st32 (replicate 512 0) 8 0x0fffffff) 12 4) 16 0x0fffffff"
  have e: "fat_entry ram_sec vol c = ld32 ?t (4 * unat c) AND 0x0fffffff"
    by (simp add: fat_entry_def entry_at_def d vsec_def ram_fs_def ram_sec_def file_disk_def)
  consider "c = 2" | "c = 3" | "c = 4" | "unat c \<noteq> 2" "unat c \<noteq> 3" "unat c \<noteq> 4" by (auto simp: word_unat_eq_iff)
  then show ?thesis
  proof cases
    case 4
    then have "unat c < 2 \<or> 4 < unat c" by linarith
    then have "ld32 ?t (4 * unat c) = 0" using u by (auto simp: ld32_blank)
    moreover have "c \<noteq> 2" "c \<noteq> 3" "c \<noteq> 4" using 4 by (auto simp: word_unat_eq_iff)
    ultimately show ?thesis using e by simp
  qed (unfold e, simp_all)
qed

lemma vol_fields:
  "clust_cnt vol = 128" "fat_sect0 vol = 32" "fat_sect1 vol = 33" "last_used vol = 3" "ops vol = ram_ops"
  "info_sect vol = 1" "data_sect vol = 34" "clust_shift vol = 0" "clust_msk vol = 0" "fat_sect vol = 0" "spc vol = 1"
  by (simp_all add: ram_fs_def spc_def)

lemma vol_ok: "vol_inv ram_sec vol"
proof -
  have "clust_class 128 (fat_entry ram_sec vol d) \<noteq> None" if "d < 128" for d
    using that by (simp add: file_disk_entry clust_class_def)
  then show ?thesis
    by (simp add: vol_inv_def table_inv_def cache_inv_ram geom_def fat_len_def vol_fields in_area_def data_geom_def
        ram_never_fails file_disk_entry)
qed

lemma vol_chain: "is_chain (fat_entry ram_sec vol) (clust_cnt vol) [3, 4]"
  by (simp add: vol_fields file_disk_entry class_used)

lemma vol_free: "5 \<in> free_set ram_sec vol" "0 < card (free_set ram_sec vol)"
proof -
  show "5 \<in> free_set ram_sec vol" by (simp add: free_set_def vol_fields file_disk_entry)
  then show "0 < card (free_set ram_sec vol)" by (auto simp: card_gt_0_iff)
qed

lemma demo_file_inv: "file_inv ram_sec [3, 4] demo_file vol"
proof -
  have "fat_sect vol \<noteq> clust_to_sect vol c + of_nat j" if c: "c \<in> set [3, 4] \<union> free_set ram_sec vol" "j < spc vol" for c j
  proof -
    have b: "2 \<le> c" "c < clust_cnt vol" using c(1) by (auto simp: free_set_def vol_fields)
    have "data_geom vol" using vol_ok by (simp add: vol_inv_def)
    from cluster_sector [OF this b c(2)] have "unat (clust_to_sect vol c + of_nat j) \<noteq> 0" by (simp add: vol_fields)
    then show ?thesis by (metis unsigned_0 vol_fields(10))
  qed
  then have "cache_off ram_sec vol [3, 4]" by (auto simp: cache_off_def)
  moreover have "take 512 (file_buf demo_file) = ram_sec (dsk vol) 35"
    by (simp add: demo_file_def ram_fs_def ram_sec_def file_disk_def)
  moreover have "file_sector vol [3, 4] 0 = 35"
    by (simp add: file_sector_def vol_fields clust_to_sect_def)
  ultimately show ?thesis
    using vol_ok vol_chain by (simp add: file_inv_def file_ok_def demo_file_def capacity_def vol_fields)
qed

section \<open>Properties\<close>

text \<open>C1. Reading a file: \<open>fat_file_read\<close> returns exactly the bytes from the offset on, as many as asked
  for or as are left, across sector and cluster boundaries, and advances the offset by their number; the
  contents stay as they are. (When the last byte of the last cluster is read, the seek behind it asks
  for one more cluster: hence the hypothesis on free clusters.)\<close>

theorem file_read_slice:
  assumes "file_inv sectors cs file s" and "file_flags file AND FAT_READ \<noteq> 0"
    and "unat (file_size file) \<le> capacity s cs" and "off = unat (file_offset file)"
    and "n = min len (unat (file_size file) - off)"
    and "clusters_for s (off + n) - length cs \<le> card (free_set sectors s)"
    and "2 * unat (clust_cnt s) + len < fuel"
  shows "\<exists>cs' file' s'. file_read fuel file len s = Some (0, map (fbyte sectors s cs file) [off..<off + n], file', s') \<and>
    unat (file_offset file') = off + n \<and> file_size file' = file_size file \<and>
    (\<exists>news. cs' = cs @ news) \<and> file_inv sectors cs' file' s' \<and>
    (\<forall>i < capacity s cs. fbyte sectors s' cs' file' i = fbyte sectors s cs file i)"
proof -
  from file_read_spec [OF assms] show ?thesis unfolding same_entry_def by blast
qed

theorem file_read_slice_witness:
  "\<exists>file' s'. file_read 2000 (demo_file\<lparr>file_size := 700\<rparr>) 600 vol =
    Some (0, map (fbyte ram_sec vol [3, 4] (demo_file\<lparr>file_size := 700\<rparr>)) [0..<600], file', s') \<and>
    unat (file_offset file') = 600"
proof -
  have i: "file_inv ram_sec [3, 4] (demo_file\<lparr>file_size := 700\<rparr>) vol"
    using demo_file_inv by (auto simp: file_inv_def file_ok_def)
  have r: "file_flags (demo_file\<lparr>file_size := 700\<rparr>) AND FAT_READ \<noteq> 0"
    by (simp add: demo_file_def FAT_READ_def FAT_WRITE_def)
  have "\<exists>cs' file' s'. file_read 2000 (demo_file\<lparr>file_size := 700\<rparr>) 600 vol =
    Some (0, map (fbyte ram_sec vol [3, 4] (demo_file\<lparr>file_size := 700\<rparr>)) [0..<0 + 600], file', s') \<and>
    unat (file_offset file') = 0 + 600 \<and> file_size file' = file_size (demo_file\<lparr>file_size := 700\<rparr>) \<and>
    (\<exists>news. cs' = [3, 4] @ news) \<and> file_inv ram_sec cs' file' s' \<and>
    (\<forall>i < capacity vol [3, 4]. fbyte ram_sec s' cs' file' i = fbyte ram_sec vol [3, 4] (demo_file\<lparr>file_size := 700\<rparr>) i)"
    by (rule file_read_slice [OF i r]) (simp_all add: demo_file_def capacity_def vol_fields clusters_for_def)
  then show ?thesis by auto
qed

text \<open>C2. A file is a byte array: what \<open>fat_file_write\<close> has written at an offset, \<open>fat_file_seek\<close> back to the
  offset and \<open>fat_file_read\<close> return, also when the write has to append clusters to the file; the write
  reports success and the full count.\<close>

theorem write_seek_read:
  assumes inv: "file_inv sectors cs file s" and rw: "file_flags file AND FAT_READ \<noteq> 0" "file_flags file AND FAT_WRITE \<noteq> 0"
    and size: "unat (file_size file) \<le> capacity s cs" and off: "off = unat (file_offset file)"
    and len: "off + length src < 2 ^ 31"
    and room: "clusters_for s (off + length src) - length cs \<le> card (free_set sectors s)"
    and fuel: "2 * unat (clust_cnt s) + length src < fuel"
  shows "\<exists>f1 s1 f2 s2 f3 s3. file_write fuel file src s = Some (0, length src, f1, s1) \<and>
    unat (file_size f1) = max (unat (file_size file)) (off + length src) \<and>
    file_seek fuel f1 (int off) FAT_SEEK_START s1 = Some (0, f2, s2) \<and>
    file_read fuel f2 (length src) s2 = Some (0, src, f3, s3)"
proof -
  have l32: "off + length src < 2 ^ 32" using len by simp
  obtain news f1 s1 where 1: "file_write fuel file src s = Some (0, length src, f1, s1)"
    "file_inv sectors (cs @ news) f1 s1" "file_step sectors cs news s s1" "unat (file_offset f1) = off + length src"
    "unat (file_size f1) = max (unat (file_size file)) (off + length src)"
    "same_entry (file\<lparr>file_size := file_size f1, file_flags := file_flags file OR (FAT_MODIFIED OR FAT_ACCESSED)\<rparr>) f1"
    "\<forall>i < length src. fbyte sectors s1 (cs @ news) f1 (off + i) = src ! i"
    using file_write_spec [OF inv rw(2) off l32 room fuel] by blast
  have "same_geometry s s1" using 1(3) by (simp add: file_step_def)
  note g = same_geometry_simps [OF this]
  have cap: "off + length src < capacity s1 (cs @ news)" using 1(2,4) by (auto simp: file_inv_def file_ok_def)
  have fl: "2 * unat (clust_cnt s1) < fuel" using fuel g by simp
  have oc: "off < capacity s1 (cs @ news)" "off < 2 ^ 31" using cap len by simp_all
  obtain f2 s2 where 2: "file_seek fuel f1 (int off) FAT_SEEK_START s1 = Some (0, f2, s2)"
    "file_inv sectors (cs @ news) f2 s2" "file_step sectors (cs @ news) [] s1 s2" "same_entry f1 f2"
    "unat (file_offset f2) = off"
    "\<forall>i < capacity s1 (cs @ news). fbyte sectors s2 (cs @ news) f2 i = fbyte sectors s1 (cs @ news) f1 i"
    using file_seek_back [OF 1(2) oc fl] by blast
  have "same_geometry s1 s2" using 2(3) by (simp add: file_step_def)
  note h = same_geometry_simps [OF this]
  have fz: "file_size f2 = file_size f1" using 2(4) by (simp add: same_entry_def)
  have r2: "file_flags f2 AND FAT_READ \<noteq> 0" using 1(6) 2(4) rw(1) by (simp add: same_entry_def bits_RWM bit_or_iff)
  have "capacity s cs \<le> capacity s1 (cs @ news)" unfolding g by (simp add: capacity_def)
  then have z2: "unat (file_size f2) \<le> capacity s2 (cs @ news)"
    unfolding h fz using 1(5) size cap by simp
  have n2: "length src = min (length src) (unat (file_size f2) - off)" using 1(5) fz by simp
  have "(off + length src) div (512 * spc s1) < length (cs @ news)"
    using cap by (simp add: capacity_def less_mult_imp_div_less)
  then have room2: "clusters_for s2 (off + length src) - length (cs @ news) \<le> card (free_set sectors s2)"
    by (simp add: clusters_for_def h)
  have fl2: "2 * unat (clust_cnt s2) + length src < fuel" using fuel g h by simp
  obtain f3 s3 where 3: "file_read fuel f2 (length src) s2 =
      Some (0, map (fbyte sectors s2 (cs @ news) f2) [off..<off + length src], f3, s3)"
    using file_read_spec [OF 2(2) r2 z2 2(5) [symmetric] n2 room2 fl2] by blast
  have "map (fbyte sectors s2 (cs @ news) f2) [off..<off + length src] = src"
    using 1(7) 2(6) cap by (intro nth_equalityI) simp_all
  then show ?thesis using 1(1,5) 2(1) 3 by auto
qed

theorem write_seek_read_witness:
  "\<exists>f1 s1 f2 s2 f3 s3. file_write 3000 demo_file (replicate 1200 7) vol = Some (0, 1200, f1, s1) \<and>
    file_seek 3000 f1 0 FAT_SEEK_START s1 = Some (0, f2, s2) \<and>
    file_read 3000 f2 1200 s2 = Some (0, replicate 1200 7, f3, s3)"
proof -
  have r: "file_flags demo_file AND FAT_READ \<noteq> 0" "file_flags demo_file AND FAT_WRITE \<noteq> 0"
    by (simp_all add: demo_file_def FAT_READ_def FAT_WRITE_def)
  have z: "unat (file_size demo_file) \<le> capacity vol [3, 4]" "0 = unat (file_offset demo_file)" by (simp_all add: demo_file_def)
  show ?thesis
    using write_seek_read [OF demo_file_inv r z, of "replicate 1200 7" 3000] vol_free(2)
    by (simp add: clusters_for_def vol_fields) blast
qed

text \<open>C3. Durability: after \<open>fat_file_write\<close> and \<open>fat_file_sync\<close> the bytes written are on the disk itself, in
  the sectors of the file's chain, and its directory entry holds the new size; nothing else in the
  directory sector has changed.\<close>

theorem write_sync_durable:
  assumes inv: "file_inv sectors cs file s" and wr: "file_flags file AND FAT_WRITE \<noteq> 0"
    and off: "off = unat (file_offset file)" and len: "off + length src < 2 ^ 32"
    and room: "clusters_for s (off + length src) - length cs \<le> card (free_set sectors s)"
    and fuel: "2 * unat (clust_cnt s) + length src < fuel"
    and dir: "data_sect s \<le> file_dir_sect file" "unat (file_dir_idx file) + 32 \<le> 512"
      "\<forall>c j. c \<in> set cs \<union> free_set sectors s \<and> j < spc s \<longrightarrow> file_dir_sect file \<noteq> clust_to_sect s c + of_nat j"
  shows "\<exists>cs' f1 s1 f2 s2. file_write fuel file src s = Some (0, length src, f1, s1) \<and> file_sync f1 s1 = (0, f2, s2) \<and>
    is_chain (fat_entry sectors s2) (clust_cnt s2) cs' \<and> hd cs' = file_sclust file \<and>
    (\<forall>i < length src. sectors (dsk s2) (file_sector s cs' ((off + i) div 512)) ! ((off + i) mod 512) = src ! i) \<and>
    unat (ld32 (sectors (dsk s2) (file_dir_sect file)) (unat (file_dir_idx file) + 28)) =
      max (unat (file_size file)) (off + length src) \<and>
    (\<forall>j < 512. j < unat (file_dir_idx file) \<or> unat (file_dir_idx file) + 32 \<le> j \<longrightarrow>
      sectors (dsk s2) (file_dir_sect file) ! j = vsec sectors s (file_dir_sect file) ! j)"
proof -
  obtain news f1 s1 where 1: "file_write fuel file src s = Some (0, length src, f1, s1)"
    "file_inv sectors (cs @ news) f1 s1" "file_step sectors cs news s s1" "unat (file_offset f1) = off + length src"
    "unat (file_size f1) = max (unat (file_size file)) (off + length src)"
    "same_entry (file\<lparr>file_size := file_size f1, file_flags := file_flags file OR (FAT_MODIFIED OR FAT_ACCESSED)\<rparr>) f1"
    "\<forall>i < length src. fbyte sectors s1 (cs @ news) f1 (off + i) = src ! i"
    using file_write_spec [OF inv wr off len room fuel] by blast
  have "same_geometry s s1" using 1(3) by (simp add: file_step_def)
  note g = same_geometry_simps [OF this]
  have en: "file_dir_sect f1 = file_dir_sect file" "file_dir_idx f1 = file_dir_idx file" "file_sclust f1 = file_sclust file"
    "has (file_flags f1) FAT_MODIFIED"
    using 1(6) by (simp_all add: same_entry_def bits_RWM bit_or_iff)
  have ds: "file_dir_sect f1 \<noteq> file_sector s (cs @ news) k" if "k < length (cs @ news) * spc s" for k
    using file_sector_cluster [OF that] dir(3) 1(3) unfolding en by (auto simp: file_step_def) blast+
  obtain f2 s2 where 2: "file_sync f1 s1 = (0, f2, s2)"
    "\<forall>k < length (cs @ news) * spc s. sectors (dsk s2) (file_sector s (cs @ news) k) = fsec sectors s1 (cs @ news) f1 k"
    "ld32 (sectors (dsk s2) (file_dir_sect file)) (unat (file_dir_idx file) + 28) = file_size f1"
    "\<forall>j < 512. j < unat (file_dir_idx file) \<or> unat (file_dir_idx file) + 32 \<le> j \<longrightarrow>
      sectors (dsk s2) (file_dir_sect file) ! j = vsec sectors s1 (file_dir_sect file) ! j"
    "\<forall>c < clust_cnt s. fat_entry sectors s2 c = fat_entry sectors s1 c" "clust_cnt s2 = clust_cnt s"
    using file_sync_spec [OF 1(2) en(4), unfolded g en(1,2), OF dir(1) ds [unfolded en(1)] dir(2)] by blast
  have o: "is_chain (fat_entry sectors s1) (clust_cnt s1) (cs @ news)" "hd (cs @ news) = file_sclust file"
    using 1(2) en(3) by (auto simp: file_inv_def file_ok_def)
  then have "is_chain (fat_entry sectors s2) (clust_cnt s2) (cs @ news)"
    using is_chain_cong [of "cs @ news" "fat_entry sectors s2" "fat_entry sectors s1" "clust_cnt s"] 2(5,6)
      is_chain_bounds [OF o(1)] g(2) by simp
  moreover have "sectors (dsk s2) (file_sector s (cs @ news) ((off + i) div 512)) ! ((off + i) mod 512) = src ! i"
    if i: "i < length src" for i
  proof -
    have "off + i < capacity s (cs @ news)" using 1(2,4) i g by (auto simp: file_inv_def file_ok_def)
    then have "(off + i) div 512 < length (cs @ news) * spc s" by (rule sector_of_offset)
    then show ?thesis using 2(2) 1(7) i by (simp add: fbyte_def)
  qed
  moreover have "vsec sectors s1 (file_dir_sect file) = vsec sectors s (file_dir_sect file)"
    using 1(3) dir(1) ds by (simp add: file_step_def en)
  ultimately show ?thesis using 1(1,5) 2(1,3,4) o(2) by (intro exI [of _ "cs @ news"] exI [of _ f1] exI [of _ s1] exI [of _ f2] exI [of _ s2]) simp
qed

theorem write_sync_durable_witness:
  "\<exists>f1 s1 f2 s2. file_write 3000 demo_file [7, 8, 9] vol = Some (0, 3, f1, s1) \<and> file_sync f1 s1 = (0, f2, s2) \<and>
    ram_sec (dsk s2) 35 ! 1 = 8 \<and> ld32 (ram_sec (dsk s2) 34) 28 = 3"
proof -
  have r: "file_flags demo_file AND FAT_WRITE \<noteq> 0" "0 = unat (file_offset demo_file)"
    by (simp_all add: demo_file_def FAT_READ_def FAT_WRITE_def)
  have d: "file_dir_sect demo_file \<noteq> clust_to_sect vol c + of_nat j"
    if c: "c \<in> set [3, 4] \<union> free_set ram_sec vol" "j < spc vol" for c j
  proof -
    have "c \<noteq> 2" "2 \<le> c" "c < clust_cnt vol" using c(1) by (auto simp: free_set_def vol_fields file_disk_entry)
    moreover have "clust_to_sect vol 2 + of_nat 0 = file_dir_sect demo_file"
      by (simp add: clust_to_sect_def vol_fields demo_file_def)
    moreover have "data_geom vol" using vol_ok by (simp add: vol_inv_def)
    ultimately show ?thesis using other_sector [of vol c 2 j 0] c(2) by (auto simp: vol_fields)
  qed
  obtain cs' f1 s1 f2 s2 where *: "file_write 3000 demo_file [7, 8, 9] vol = Some (0, length [7, 8, 9], f1, s1)"
    "file_sync f1 s1 = (0, f2, s2)" "hd cs' = file_sclust demo_file" "is_chain (fat_entry ram_sec s2) (clust_cnt s2) cs'"
    "\<forall>i < length [7, 8, 9]. ram_sec (dsk s2) (file_sector vol cs' ((0 + i) div 512)) ! ((0 + i) mod 512) = [7, 8, 9] ! i"
    "unat (ld32 (ram_sec (dsk s2) (file_dir_sect demo_file)) (unat (file_dir_idx demo_file) + 28)) = max (unat (file_size demo_file)) (0 + length [7, 8, 9])"
    using write_sync_durable [OF demo_file_inv r, of "[7, 8, 9]" 3000] d
    by (auto simp: clusters_for_def vol_fields demo_file_def)
  have "cs' \<noteq> []" using *(4) by auto
  then have q: "file_sector vol cs' 0 = 35"
    using *(3) hd_conv_nth [of cs'] by (simp add: file_sector_def vol_fields clust_to_sect_def demo_file_def)
  have "ram_sec (dsk s2) 35 ! 1 = 8" using *(5) [rule_format, of 1] q by simp
  moreover have "ld32 (ram_sec (dsk s2) 34) 28 = 3" using *(6) by (simp add: demo_file_def word_unat_eq_iff)
  ultimately show ?thesis using *(1,2) by auto
qed

text \<open>C5. Isolation: a write leaves every other file alone. A chain that shares no cluster with the file
  written is still a chain afterwards, also when clusters were appended, and none of its sectors has
  changed.\<close>

theorem write_keeps_other_files:
  assumes inv: "file_inv sectors cs file s" and wr: "file_flags file AND FAT_WRITE \<noteq> 0"
    and len: "unat (file_offset file) + length src < 2 ^ 32"
    and room: "clusters_for s (unat (file_offset file) + length src) - length cs \<le> card (free_set sectors s)"
    and fuel: "2 * unat (clust_cnt s) + length src < fuel"
    and ds: "is_chain (fat_entry sectors s) (clust_cnt s) ds" "2 \<le> hd ds" "set ds \<inter> set cs = {}"
    and r: "file_write fuel file src s = Some (err, n, file', s')"
  shows "is_chain (fat_entry sectors s') (clust_cnt s') ds \<and>
    (\<forall>k < length ds * spc s. vsec sectors s' (file_sector s ds k) = vsec sectors s (file_sector s ds k))"
proof -
  have st: "\<exists>news. file_step sectors cs news s s'"
    using file_write_spec [OF inv wr refl len room fuel] r by auto
  have "data_geom s" "is_chain (fat_entry sectors s) (clust_cnt s) cs" "2 \<le> hd cs"
    using inv by (auto simp: file_inv_def file_ok_def vol_inv_def)
  then show ?thesis using st file_step_other ds by blast
qed

theorem write_keeps_other_files_witness:
  "\<exists>file' s'. file_write 3000 demo_file (replicate 1200 7) vol = Some (0, 1200, file', s') \<and>
    is_chain (fat_entry ram_sec s') (clust_cnt s') [2]"
proof -
  have r: "file_flags demo_file AND FAT_WRITE \<noteq> 0" by (simp add: demo_file_def FAT_READ_def FAT_WRITE_def)
  have l: "unat (file_offset demo_file) + length (replicate 1200 (7 :: u8)) < 2 ^ 32"
    "clusters_for vol (unat (file_offset demo_file) + length (replicate 1200 (7 :: u8))) - length [3, 4 :: u32] \<le> card (free_set ram_sec vol)"
    "2 * unat (clust_cnt vol) + length (replicate 1200 (7 :: u8)) < 3000"
    using vol_free(2) by (simp_all add: demo_file_def clusters_for_def vol_fields)
  obtain file' s' where w: "file_write 3000 demo_file (replicate 1200 7) vol = Some (0, length (replicate 1200 (7 :: u8)), file', s')"
    using file_write_spec [OF demo_file_inv r refl l] by blast
  have "is_chain (fat_entry ram_sec vol) (clust_cnt vol) [2]" by (simp add: vol_fields file_disk_entry)
  from write_keeps_other_files [OF demo_file_inv r l this _ _ w] show ?thesis using w by simp
qed

text \<open>A disk that refuses the first write: the flag is its only other state.\<close>

definition flaky_ops :: "((u32 \<Rightarrow> u8 list) \<times> bool) DiskOps" where
  "flaky_ops = \<lparr>op_read = (\<lambda>dv b n d. (True, ram_sec (fst d) n @ drop 512 b, d)),
     op_write = (\<lambda>dv b n d. if snd d then (False, fst d, False) else (True, (fst d)(n := take 512 b), False))\<rparr>"

lemma good_flaky: "good_disk flaky_ops (\<lambda>d. ram_sec (fst d))"
  by (auto simp: good_disk_def flaky_ops_def ram_sec_def)

definition flaky_vol :: "((u32 \<Rightarrow> u8 list) \<times> bool) fs" where
  "flaky_vol = \<lparr>fat_next = None, ops = flaky_ops, clust_msk = 0, clust_cnt = 128, info_sect = 1,
     fat_sect0 = 32, fat_sect1 = 33, data_sect = 34, root_clust = 2, last_used = 4, free_cnt = 123,
     fat_sect = 0, fat_buf = replicate 514 0, fat_flags = 0, clust_shift = 0, name_len = 0,
     fat_name = [], dev = 1, dsk = (file_disk(36 := replicate 512 9), True), g_buf = replicate 514 0, g_len = 0, g_crc = 0\<rparr>"

definition flaky_file :: File where
  "flaky_file = demo_file\<lparr>file_size := 1024, file_offset := 511\<rparr>"

lemma flaky_get: "\<exists>b. get_fat 3 (0, 0) flaky_vol = (0, (4, CLUST_USED), flaky_vol\<lparr>fat_sect := 32, fat_buf := b\<rparr>) \<and> length b = 514"
proof -
  let ?t = "st32 (st32 (st32 (replicate 512 0) 8 0x0fffffff) 12 4) 16 0x0fffffff :: u8 list"
  have two: "replicate 2 0 = [0, 0 :: u8]" by (simp add: numeral_2_eq_2)
  have u: "update_buf 32 flaky_vol = (0, flaky_vol\<lparr>fat_sect := 32, fat_buf := ?t @ [0, 0]\<rparr>)"
    by (simp add: update_buf_def sync_buf_def flaky_vol_def flaky_ops_def Let_def FAT_ERR_NONE_def ram_sec_def file_disk_def
        two)
  have l: "ld32 (?t @ [0, 0]) 12 = 4"
    by (subst ld32_take [of _ 512, symmetric]) simp_all
  have "get_fat 3 (0, 0) flaky_vol = (0, (4, CLUST_USED), flaky_vol\<lparr>fat_sect := 32, fat_buf := ?t @ [0, 0]\<rparr>)"
    using u l by (simp add: get_fat_def flaky_vol_def Let_def FAT_ERR_NONE_def)
  then show ?thesis by (intro exI [of _ "?t @ [0, 0]"]) simp
qed

lemma flaky_fields:
  "ops flaky_vol = flaky_ops" "clust_shift flaky_vol = 0" "clust_msk flaky_vol = 0" "data_sect flaky_vol = 34"
  "dsk flaky_vol = (file_disk(36 := replicate 512 9), True)" "fat_flags flaky_vol = 0" "info_sect flaky_vol = 1"
  by (simp_all add: flaky_vol_def)

lemma flaky_write:
  "\<exists>b. file_write 300 flaky_file [7] flaky_vol = Some (0, 1,
     flaky_file\<lparr>file_clust := 4, file_sect := 36, file_offset := 512, file_buf := (replicate 514 0)[511 := 7],
       file_flags := FAT_READ OR FAT_WRITE OR FAT_MODIFIED OR FAT_ACCESSED OR FAT_FILE_DIRTY\<rparr>,
     flaky_vol\<lparr>fat_sect := 32, fat_buf := b, dsk := (file_disk(36 := replicate 512 9), False)\<rparr>) \<and> length b = 514"
proof -
  obtain b where g: "get_fat 3 (0, 0) flaky_vol = (0, (4, CLUST_USED), flaky_vol\<lparr>fat_sect := 32, fat_buf := b\<rparr>)" "length b = 514"
    using flaky_get by blast
  define f where "f = flaky_file\<lparr>file_buf := (replicate 514 0)[511 := 7],
       file_flags := FAT_READ OR FAT_WRITE OR FAT_MODIFIED OR FAT_ACCESSED OR FAT_FILE_DIRTY\<rparr>"
  have bl: "blit (replicate 514 0) 511 [7] = (replicate 514 0)[511 := 7 :: u8]"
    by (simp add: blit_def list_update_append list_eq_iff_nth_eq nth_append nth_list_update)
  have fl: "has (file_flags f) FAT_FILE_DIRTY" by (simp add: f_def bit_or_iff)
  have ff: "file_sect f = 35" "file_offset f = 511" "file_clust f = 3"
    by (simp_all add: f_def flaky_file_def demo_file_def)
  have sk: "file_seek 299 f 1 FAT_SEEK_CURR flaky_vol = Some (FAT_ERR_IO, f\<lparr>file_clust := 4, file_sect := 36, file_offset := 512\<rparr>,
     flaky_vol\<lparr>fat_sect := 32, fat_buf := b, dsk := (file_disk(36 := replicate 512 9), False)\<rparr>)"
    using g(1) fl
    by (simp add: file_seek_def ff flaky_fields seek_buf_def clust_to_sect_def flaky_ops_def FAT_ERR_IO_def FAT_ERR_NONE_def Let_def)
  have n: "(300 :: nat) = Suc 299" by simp
  have "write_loop 300 [7] 0 (flaky_file\<lparr>file_flags := FAT_READ OR FAT_WRITE OR FAT_MODIFIED OR FAT_ACCESSED\<rparr>) flaky_vol =
    Some (1, f\<lparr>file_clust := 4, file_sect := 36, file_offset := 512\<rparr>,
     flaky_vol\<lparr>fat_sect := 32, fat_buf := b, dsk := (file_disk(36 := replicate 512 9), False)\<rparr>)"
  proof -
    define g0 where "g0 = flaky_file\<lparr>file_flags := FAT_READ OR FAT_WRITE OR FAT_MODIFIED OR FAT_ACCESSED\<rparr>"
    have "(511 :: u32) mod 512 = 511" by (simp add: word_unat_eq_iff unat_mod)
    then have "unat (file_offset g0 mod 512) = 511" by (simp only: g0_def flaky_file_def) simp
    moreover have "file_buf g0 = replicate 514 0" by (simp add: g0_def flaky_file_def demo_file_def)
    moreover have "g0\<lparr>file_buf := (replicate 514 0)[511 := 7], file_flags := file_flags g0 OR FAT_FILE_DIRTY\<rparr> = f"
      by (simp add: g0_def f_def ac_simps)
    ultimately show ?thesis
      unfolding n write_loop.simps g0_def [symmetric] using sk bl by (simp add: Let_def FAT_ERR_IO_def)
  qed
  moreover have "file_flags flaky_file AND FAT_WRITE \<noteq> 0" "file_flags flaky_file OR (FAT_MODIFIED OR FAT_ACCESSED) =
      FAT_READ OR FAT_WRITE OR FAT_MODIFIED OR FAT_ACCESSED"
    by (simp_all add: flaky_file_def demo_file_def FAT_READ_def FAT_WRITE_def FAT_MODIFIED_def FAT_ACCESSED_def)
  ultimately have "file_write 300 flaky_file [7] flaky_vol = Some (0, 1, f\<lparr>file_clust := 4, file_sect := 36, file_offset := 512\<rparr>,
     flaky_vol\<lparr>fat_sect := 32, fat_buf := b, dsk := (file_disk(36 := replicate 512 9), False)\<rparr>)"
    by (simp add: file_write_def FAT_ERR_NONE_def f_def flaky_file_def demo_file_def)
  then show ?thesis using g(2) by (auto simp: f_def)
qed

lemma flaky_sync:
  assumes b: "length b = 514" and buf: "length (file_buf f) = 514" and f: "file_sect f = 36" "file_dir_sect f = 34" "bit (file_flags f) 6"
  shows "\<exists>f2 s2. file_sync f (flaky_vol\<lparr>fat_sect := 32, fat_buf := b, dsk := (d, False)\<rparr>) = (0, f2, s2) \<and>
    fst (dsk s2) 36 = take 512 (file_buf f) \<and> fst (dsk s2) 35 = d 35"
proof -
  define s1 where "s1 = flaky_vol\<lparr>fat_sect := 32, fat_buf := b, dsk := (d(36 := take 512 (file_buf f)), False)\<rparr>"
  have u: "update_buf 34 s1 = (0, s1\<lparr>fat_sect := 34, fat_buf := ram_sec (d(36 := take 512 (file_buf f))) 34 @ drop 512 b\<rparr>)"
    by (simp add: update_buf_def sync_buf_def s1_def flaky_fields flaky_ops_def FAT_ERR_NONE_def Let_def)
  have m: "has (file_flags f) FAT_MODIFIED" "has (file_flags f) (FAT_ACCESSED OR FAT_MODIFIED)"
  proof -
    show "has (file_flags f) FAT_MODIFIED" using f(3) by (simp add: bits_RWM)
    have "bit (file_flags f AND (FAT_ACCESSED OR FAT_MODIFIED)) 6" using f(3) by (simp add: bits_RWM bit_and_iff bit_or_iff)
    then show "has (file_flags f) (FAT_ACCESSED OR FAT_MODIFIED)" unfolding has_def by (metis bit_0_eq bot_apply bot_bool_def)
  qed
  show ?thesis
    using u m f by (simp add: file_sync_def s1_def flaky_fields flaky_ops_def sync_fs_def sync_buf_def FAT_ERR_NONE_def Let_def
        FAT_INFO_DIRTY_def [symmetric])
qed

text \<open>A failed flush is not reported and does damage. The file has two sectors, the second holds nines;
  one byte is written at the end of the first. The disk refuses the write-back of the first sector once:
  \<open>fat_file_seek\<close> has already moved the file to the second sector, \<open>fat_file_write\<close> drops the error and
  reports success, and the following \<open>fat_file_sync\<close>, again with success, writes the buffer of the first
  sector over the second. The byte is not in the first sector and the nines are gone.\<close>

theorem failed_flush_overwrites_next:
  "\<exists>f1 s1 f2 s2. file_write 300 flaky_file [7] flaky_vol = Some (0, 1, f1, s1) \<and> file_sync f1 s1 = (0, f2, s2) \<and>
    ram_sec (fst (dsk flaky_vol)) 36 ! 0 = 9 \<and> ram_sec (fst (dsk s2)) 36 ! 0 = 0 \<and>
    ram_sec (fst (dsk s2)) 35 ! 511 = 0"
  proof -
  obtain b where w: "file_write 300 flaky_file [7] flaky_vol = Some (0, 1,
     flaky_file\<lparr>file_clust := 4, file_sect := 36, file_offset := 512, file_buf := (replicate 514 0)[511 := 7],
       file_flags := FAT_READ OR FAT_WRITE OR FAT_MODIFIED OR FAT_ACCESSED OR FAT_FILE_DIRTY\<rparr>,
     flaky_vol\<lparr>fat_sect := 32, fat_buf := b, dsk := (file_disk(36 := replicate 512 9), False)\<rparr>)" "length b = 514"
    using flaky_write by blast
  define f1 where "f1 = flaky_file\<lparr>file_clust := 4, file_sect := 36, file_offset := 512, file_buf := (replicate 514 0)[511 := 7],
       file_flags := FAT_READ OR FAT_WRITE OR FAT_MODIFIED OR FAT_ACCESSED OR FAT_FILE_DIRTY\<rparr>"
  have "length (file_buf f1) = 514" "file_sect f1 = 36" "file_dir_sect f1 = 34" "bit (file_flags f1) 6"
    by (simp_all add: f1_def flaky_file_def demo_file_def bit_or_iff bits_RWM)
  from flaky_sync [OF w(2) this, of "file_disk(36 := replicate 512 9)"] obtain f2 s2 where
    "file_sync f1 (flaky_vol\<lparr>fat_sect := 32, fat_buf := b, dsk := (file_disk(36 := replicate 512 9), False)\<rparr>) = (0, f2, s2)"
    "fst (dsk s2) 36 = take 512 (file_buf f1)" "fst (dsk s2) 35 = file_disk 35" by auto
  then show ?thesis using w(1)
    by (intro exI [of _ f1] exI [of _ "flaky_vol\<lparr>fat_sect := 32, fat_buf := b, dsk := (file_disk(36 := replicate 512 9), False)\<rparr>"]
        exI [of _ f2] exI [of _ s2])
      (simp add: f1_def flaky_fields ram_sec_def file_disk_def)
qed

end
