(* ===== verification/Crc.thy ===== *)
theory Crc
  imports KPrelude
begin

text \<open>
  The four CRC engines of the firmware and their common contract.

  \<^item> \<open>karnix_soc/src/crc16.c\<close>: the bitwise Modbus CRC (polynomial 0xA001, reflected);
  \<^item> \<open>karnix_soc/src/crc32.c\<close>: the bitwise, branch-free CRC-32 with a caller-chosen polynomial;
  \<^item> \<open>karnix_monitor/src/zmodem.c\<close>: the table-driven macros \<open>updcrc\<close> (CCITT, augmented form)
    and \<open>UPDC32\<close>;
  \<^item> \<open>karnix_soc/src/sdmmc.c\<close>: the table-driven CCITT CRC of SD data blocks, its table and the
    routine that regenerates it.

  Two locales carry the theory. \<open>xor_linear\<close> holds what is common to the shift registers: they are
  injective linear maps over exclusive or. \<open>crc_code\<close> is the contract a protocol relies on: which
  trailing bytes make the running CRC hit the expected residue, and that no other trailing bytes do.
  Every engine of the firmware is an interpretation of both.
\<close>

section \<open>The shift registers\<close>

subsection \<open>Modbus CRC-16 (crc16.c)\<close>

text \<open>One turn of the inner loop: shift right, exclusive or with the polynomial if a one fell out.\<close>

definition crc16_bit :: "u16 \<Rightarrow> u16" where
  "crc16_bit crc = (if crc AND 1 \<noteq> 0 then drop_bit 1 crc XOR 0xA001 else drop_bit 1 crc)"

definition crc16_byte :: "u16 \<Rightarrow> u8 \<Rightarrow> u16" where
  "crc16_byte crc b = (crc16_bit ^^ 8) (crc XOR ucast b)"

text \<open>The outer loop reads \<open>buf[0]\<close> to \<open>buf[len - 1]\<close>; \<open>len\<close> is a \<open>uint16_t\<close>.\<close>

definition crc16 :: "u8 list \<Rightarrow> u16 \<Rightarrow> u16" where
  "crc16 buf len = foldl crc16_byte 0xFFFF (take (unat len) buf)"

definition add_crc :: "u8 list \<Rightarrow> u16 \<Rightarrow> u8 list" where
  "add_crc buf len = (let crc = crc16 buf len in
     buf[unat len := ucast (crc AND 0xFF), unat len + 1 := ucast (drop_bit 8 crc AND 0xFF)])"

subsection \<open>CRC-32 (crc32.c)\<close>

text \<open>The branch-free step: the negated low bit is a mask of all ones or all zeros.\<close>

definition crc32_bit :: "u32 \<Rightarrow> u32 \<Rightarrow> u32" where
  "crc32_bit polynomial crc = drop_bit 1 crc XOR (- (crc AND 1) AND polynomial)"

definition crc32_byte :: "u32 \<Rightarrow> u32 \<Rightarrow> u8 \<Rightarrow> u32" where
  "crc32_byte polynomial crc b = (crc32_bit polynomial ^^ 8) (crc XOR ucast b)"

definition crc32 :: "u8 list \<Rightarrow> u32 \<Rightarrow> u32 \<Rightarrow> u32 \<Rightarrow> u32" where
  "crc32 data len previousCrc32 polynomial =
     foldl (crc32_byte polynomial) (previousCrc32 XOR 0xFFFFFFFF) (take (unat len) data)
       XOR 0xFFFFFFFF"

subsection \<open>The tables of zmodem.c and sdmmc.c\<close>

definition crctab :: "u16 list" where
  "crctab =
    [0x0000, 0x1021, 0x2042, 0x3063, 0x4084, 0x50A5, 0x60C6, 0x70E7,
     0x8108, 0x9129, 0xA14A, 0xB16B, 0xC18C, 0xD1AD, 0xE1CE, 0xF1EF,
     0x1231, 0x0210, 0x3273, 0x2252, 0x52B5, 0x4294, 0x72F7, 0x62D6,
     0x9339, 0x8318, 0xB37B, 0xA35A, 0xD3BD, 0xC39C, 0xF3FF, 0xE3DE,
     0x2462, 0x3443, 0x0420, 0x1401, 0x64E6, 0x74C7, 0x44A4, 0x5485,
     0xA56A, 0xB54B, 0x8528, 0x9509, 0xE5EE, 0xF5CF, 0xC5AC, 0xD58D,
     0x3653, 0x2672, 0x1611, 0x0630, 0x76D7, 0x66F6, 0x5695, 0x46B4,
     0xB75B, 0xA77A, 0x9719, 0x8738, 0xF7DF, 0xE7FE, 0xD79D, 0xC7BC,
     0x48C4, 0x58E5, 0x6886, 0x78A7, 0x0840, 0x1861, 0x2802, 0x3823,
     0xC9CC, 0xD9ED, 0xE98E, 0xF9AF, 0x8948, 0x9969, 0xA90A, 0xB92B,
     0x5AF5, 0x4AD4, 0x7AB7, 0x6A96, 0x1A71, 0x0A50, 0x3A33, 0x2A12,
     0xDBFD, 0xCBDC, 0xFBBF, 0xEB9E, 0x9B79, 0x8B58, 0xBB3B, 0xAB1A,
     0x6CA6, 0x7C87, 0x4CE4, 0x5CC5, 0x2C22, 0x3C03, 0x0C60, 0x1C41,
     0xEDAE, 0xFD8F, 0xCDEC, 0xDDCD, 0xAD2A, 0xBD0B, 0x8D68, 0x9D49,
     0x7E97, 0x6EB6, 0x5ED5, 0x4EF4, 0x3E13, 0x2E32, 0x1E51, 0x0E70,
     0xFF9F, 0xEFBE, 0xDFDD, 0xCFFC, 0xBF1B, 0xAF3A, 0x9F59, 0x8F78,
     0x9188, 0x81A9, 0xB1CA, 0xA1EB, 0xD10C, 0xC12D, 0xF14E, 0xE16F,
     0x1080, 0x00A1, 0x30C2, 0x20E3, 0x5004, 0x4025, 0x7046, 0x6067,
     0x83B9, 0x9398, 0xA3FB, 0xB3DA, 0xC33D, 0xD31C, 0xE37F, 0xF35E,
     0x02B1, 0x1290, 0x22F3, 0x32D2, 0x4235, 0x5214, 0x6277, 0x7256,
     0xB5EA, 0xA5CB, 0x95A8, 0x8589, 0xF56E, 0xE54F, 0xD52C, 0xC50D,
     0x34E2, 0x24C3, 0x14A0, 0x0481, 0x7466, 0x6447, 0x5424, 0x4405,
     0xA7DB, 0xB7FA, 0x8799, 0x97B8, 0xE75F, 0xF77E, 0xC71D, 0xD73C,
     0x26D3, 0x36F2, 0x0691, 0x16B0, 0x6657, 0x7676, 0x4615, 0x5634,
     0xD94C, 0xC96D, 0xF90E, 0xE92F, 0x99C8, 0x89E9, 0xB98A, 0xA9AB,
     0x5844, 0x4865, 0x7806, 0x6827, 0x18C0, 0x08E1, 0x3882, 0x28A3,
     0xCB7D, 0xDB5C, 0xEB3F, 0xFB1E, 0x8BF9, 0x9BD8, 0xABBB, 0xBB9A,
     0x4A75, 0x5A54, 0x6A37, 0x7A16, 0x0AF1, 0x1AD0, 0x2AB3, 0x3A92,
     0xFD2E, 0xED0F, 0xDD6C, 0xCD4D, 0xBDAA, 0xAD8B, 0x9DE8, 0x8DC9,
     0x7C26, 0x6C07, 0x5C64, 0x4C45, 0x3CA2, 0x2C83, 0x1CE0, 0x0CC1,
     0xEF1F, 0xFF3E, 0xCF5D, 0xDF7C, 0xAF9B, 0xBFBA, 0x8FD9, 0x9FF8,
     0x6E17, 0x7E36, 0x4E55, 0x5E74, 0x2E93, 0x3EB2, 0x0ED1, 0x1EF0]"

definition cr3tab :: "u32 list" where
  "cr3tab =
    [0x00000000, 0x77073096, 0xEE0E612C, 0x990951BA, 0x076DC419, 0x706AF48F,
     0xE963A535, 0x9E6495A3, 0x0EDB8832, 0x79DCB8A4, 0xE0D5E91E, 0x97D2D988,
     0x09B64C2B, 0x7EB17CBD, 0xE7B82D07, 0x90BF1D91, 0x1DB71064, 0x6AB020F2,
     0xF3B97148, 0x84BE41DE, 0x1ADAD47D, 0x6DDDE4EB, 0xF4D4B551, 0x83D385C7,
     0x136C9856, 0x646BA8C0, 0xFD62F97A, 0x8A65C9EC, 0x14015C4F, 0x63066CD9,
     0xFA0F3D63, 0x8D080DF5, 0x3B6E20C8, 0x4C69105E, 0xD56041E4, 0xA2677172,
     0x3C03E4D1, 0x4B04D447, 0xD20D85FD, 0xA50AB56B, 0x35B5A8FA, 0x42B2986C,
     0xDBBBC9D6, 0xACBCF940, 0x32D86CE3, 0x45DF5C75, 0xDCD60DCF, 0xABD13D59,
     0x26D930AC, 0x51DE003A, 0xC8D75180, 0xBFD06116, 0x21B4F4B5, 0x56B3C423,
     0xCFBA9599, 0xB8BDA50F, 0x2802B89E, 0x5F058808, 0xC60CD9B2, 0xB10BE924,
     0x2F6F7C87, 0x58684C11, 0xC1611DAB, 0xB6662D3D, 0x76DC4190, 0x01DB7106,
     0x98D220BC, 0xEFD5102A, 0x71B18589, 0x06B6B51F, 0x9FBFE4A5, 0xE8B8D433,
     0x7807C9A2, 0x0F00F934, 0x9609A88E, 0xE10E9818, 0x7F6A0DBB, 0x086D3D2D,
     0x91646C97, 0xE6635C01, 0x6B6B51F4, 0x1C6C6162, 0x856530D8, 0xF262004E,
     0x6C0695ED, 0x1B01A57B, 0x8208F4C1, 0xF50FC457, 0x65B0D9C6, 0x12B7E950,
     0x8BBEB8EA, 0xFCB9887C, 0x62DD1DDF, 0x15DA2D49, 0x8CD37CF3, 0xFBD44C65,
     0x4DB26158, 0x3AB551CE, 0xA3BC0074, 0xD4BB30E2, 0x4ADFA541, 0x3DD895D7,
     0xA4D1C46D, 0xD3D6F4FB, 0x4369E96A, 0x346ED9FC, 0xAD678846, 0xDA60B8D0,
     0x44042D73, 0x33031DE5, 0xAA0A4C5F, 0xDD0D7CC9, 0x5005713C, 0x270241AA,
     0xBE0B1010, 0xC90C2086, 0x5768B525, 0x206F85B3, 0xB966D409, 0xCE61E49F,
     0x5EDEF90E, 0x29D9C998, 0xB0D09822, 0xC7D7A8B4, 0x59B33D17, 0x2EB40D81,
     0xB7BD5C3B, 0xC0BA6CAD, 0xEDB88320, 0x9ABFB3B6, 0x03B6E20C, 0x74B1D29A,
     0xEAD54739, 0x9DD277AF, 0x04DB2615, 0x73DC1683, 0xE3630B12, 0x94643B84,
     0x0D6D6A3E, 0x7A6A5AA8, 0xE40ECF0B, 0x9309FF9D, 0x0A00AE27, 0x7D079EB1,
     0xF00F9344, 0x8708A3D2, 0x1E01F268, 0x6906C2FE, 0xF762575D, 0x806567CB,
     0x196C3671, 0x6E6B06E7, 0xFED41B76, 0x89D32BE0, 0x10DA7A5A, 0x67DD4ACC,
     0xF9B9DF6F, 0x8EBEEFF9, 0x17B7BE43, 0x60B08ED5, 0xD6D6A3E8, 0xA1D1937E,
     0x38D8C2C4, 0x4FDFF252, 0xD1BB67F1, 0xA6BC5767, 0x3FB506DD, 0x48B2364B,
     0xD80D2BDA, 0xAF0A1B4C, 0x36034AF6, 0x41047A60, 0xDF60EFC3, 0xA867DF55,
     0x316E8EEF, 0x4669BE79, 0xCB61B38C, 0xBC66831A, 0x256FD2A0, 0x5268E236,
     0xCC0C7795, 0xBB0B4703, 0x220216B9, 0x5505262F, 0xC5BA3BBE, 0xB2BD0B28,
     0x2BB45A92, 0x5CB36A04, 0xC2D7FFA7, 0xB5D0CF31, 0x2CD99E8B, 0x5BDEAE1D,
     0x9B64C2B0, 0xEC63F226, 0x756AA39C, 0x026D930A, 0x9C0906A9, 0xEB0E363F,
     0x72076785, 0x05005713, 0x95BF4A82, 0xE2B87A14, 0x7BB12BAE, 0x0CB61B38,
     0x92D28E9B, 0xE5D5BE0D, 0x7CDCEFB7, 0x0BDBDF21, 0x86D3D2D4, 0xF1D4E242,
     0x68DDB3F8, 0x1FDA836E, 0x81BE16CD, 0xF6B9265B, 0x6FB077E1, 0x18B74777,
     0x88085AE6, 0xFF0F6A70, 0x66063BCA, 0x11010B5C, 0x8F659EFF, 0xF862AE69,
     0x616BFFD3, 0x166CCF45, 0xA00AE278, 0xD70DD2EE, 0x4E048354, 0x3903B3C2,
     0xA7672661, 0xD06016F7, 0x4969474D, 0x3E6E77DB, 0xAED16A4A, 0xD9D65ADC,
     0x40DF0B66, 0x37D83BF0, 0xA9BCAE53, 0xDEBB9EC5, 0x47B2CF7F, 0x30B5FFE9,
     0xBDBDF21C, 0xCABAC28A, 0x53B39330, 0x24B4A3A6, 0xBAD03605, 0xCDD70693,
     0x54DE5729, 0x23D967BF, 0xB3667A2E, 0xC4614AB8, 0x5D681B02, 0x2A6F2B94,
     0xB40BBE37, 0xC30C8EA1, 0x5A05DF1B, 0x2D02EF8D]"

definition sdmmc_crc16_table :: "u16 list" where
  "sdmmc_crc16_table =
    [0x0000, 0x1021, 0x2042, 0x3063, 0x4084, 0x50A5, 0x60C6, 0x70E7,
     0x8108, 0x9129, 0xA14A, 0xB16B, 0xC18C, 0xD1AD, 0xE1CE, 0xF1EF,
     0x1231, 0x0210, 0x3273, 0x2252, 0x52B5, 0x4294, 0x72F7, 0x62D6,
     0x9339, 0x8318, 0xB37B, 0xA35A, 0xD3BD, 0xC39C, 0xF3FF, 0xE3DE,
     0x2462, 0x3443, 0x0420, 0x1401, 0x64E6, 0x74C7, 0x44A4, 0x5485,
     0xA56A, 0xB54B, 0x8528, 0x9509, 0xE5EE, 0xF5CF, 0xC5AC, 0xD58D,
     0x3653, 0x2672, 0x1611, 0x0630, 0x76D7, 0x66F6, 0x5695, 0x46B4,
     0xB75B, 0xA77A, 0x9719, 0x8738, 0xF7DF, 0xE7FE, 0xD79D, 0xC7BC,
     0x48C4, 0x58E5, 0x6886, 0x78A7, 0x0840, 0x1861, 0x2802, 0x3823,
     0xC9CC, 0xD9ED, 0xE98E, 0xF9AF, 0x8948, 0x9969, 0xA90A, 0xB92B,
     0x5AF5, 0x4AD4, 0x7AB7, 0x6A96, 0x1A71, 0x0A50, 0x3A33, 0x2A12,
     0xDBFD, 0xCBDC, 0xFBBF, 0xEB9E, 0x9B79, 0x8B58, 0xBB3B, 0xAB1A,
     0x6CA6, 0x7C87, 0x4CE4, 0x5CC5, 0x2C22, 0x3C03, 0x0C60, 0x1C41,
     0xEDAE, 0xFD8F, 0xCDEC, 0xDDCD, 0xAD2A, 0xBD0B, 0x8D68, 0x9D49,
     0x7E97, 0x6EB6, 0x5ED5, 0x4EF4, 0x3E13, 0x2E32, 0x1E51, 0x0E70,
     0xFF9F, 0xEFBE, 0xDFDD, 0xCFFC, 0xBF1B, 0xAF3A, 0x9F59, 0x8F78,
     0x9188, 0x81A9, 0xB1CA, 0xA1EB, 0xD10C, 0xC12D, 0xF14E, 0xE16F,
     0x1080, 0x00A1, 0x30C2, 0x20E3, 0x5004, 0x4025, 0x7046, 0x6067,
     0x83B9, 0x9398, 0xA3FB, 0xB3DA, 0xC33D, 0xD31C, 0xE37F, 0xF35E,
     0x02B1, 0x1290, 0x22F3, 0x32D2, 0x4235, 0x5214, 0x6277, 0x7256,
     0xB5EA, 0xA5CB, 0x95A8, 0x8589, 0xF56E, 0xE54F, 0xD52C, 0xC50D,
     0x34E2, 0x24C3, 0x14A0, 0x0481, 0x7466, 0x6447, 0x5424, 0x4405,
     0xA7DB, 0xB7FA, 0x8799, 0x97B8, 0xE75F, 0xF77E, 0xC71D, 0xD73C,
     0x26D3, 0x36F2, 0x0691, 0x16B0, 0x6657, 0x7676, 0x4615, 0x5634,
     0xD94C, 0xC96D, 0xF90E, 0xE92F, 0x99C8, 0x89E9, 0xB98A, 0xA9AB,
     0x5844, 0x4865, 0x7806, 0x6827, 0x18C0, 0x08E1, 0x3882, 0x28A3,
     0xCB7D, 0xDB5C, 0xEB3F, 0xFB1E, 0x8BF9, 0x9BD8, 0xABBB, 0xBB9A,
     0x4A75, 0x5A54, 0x6A37, 0x7A16, 0x0AF1, 0x1AD0, 0x2AB3, 0x3A92,
     0xFD2E, 0xED0F, 0xDD6C, 0xCD4D, 0xBDAA, 0xAD8B, 0x9DE8, 0x8DC9,
     0x7C26, 0x6C07, 0x5C64, 0x4C45, 0x3CA2, 0x2C83, 0x1CE0, 0x0CC1,
     0xEF1F, 0xFF3E, 0xCF5D, 0xDF7C, 0xAF9B, 0xBFBA, 0x8FD9, 0x9FF8,
     0x6E17, 0x7E36, 0x4E55, 0x5E74, 0x2E93, 0x3EB2, 0x0ED1, 0x1EF0]"

text \<open>
  The macros: \<open>crctab[((crc >> 8) & 255)] ^ (crc << 8) ^ cp\<close>, assigned to an \<open>unsigned short\<close>,
  and \<open>cr3tab[((int)c ^ b) & 0xff] ^ ((c >> 8) & 0x00FFFFFF)\<close>.
\<close>

definition updcrc :: "u8 \<Rightarrow> u16 \<Rightarrow> u16" where
  "updcrc cp crc = (crctab ! unat (drop_bit 8 crc AND 255)) XOR push_bit 8 crc XOR ucast cp"

definition UPDC32 :: "u8 \<Rightarrow> u32 \<Rightarrow> u32" where
  "UPDC32 b c = (cr3tab ! unat ((c XOR ucast b) AND 0xFF)) XOR (drop_bit 8 c AND 0x00FFFFFF)"

definition sdmmc_crc16_byte :: "u16 \<Rightarrow> u8 \<Rightarrow> u16" where
  "sdmmc_crc16_byte crc b =
     (sdmmc_crc16_table ! unat ((drop_bit 8 crc XOR ucast b) AND 0xFF)) XOR push_bit 8 crc"

definition sdmmc_crc16 :: "u8 list \<Rightarrow> nat \<Rightarrow> u16" where
  "sdmmc_crc16 buf len = foldl sdmmc_crc16_byte 0 (take len buf)"

text \<open>The routine that regenerates the table: mask \<open>1 << 15\<close>, polynomial 0x1021.\<close>

definition sdmmc_crc16_table_bit :: "u16 \<Rightarrow> u16" where
  "sdmmc_crc16_table_bit crc =
     (if crc AND push_bit 15 1 \<noteq> 0 then push_bit 1 crc XOR 0x1021 else push_bit 1 crc)"

definition sdmmc_crc16_init_table :: "u16 list" where
  "sdmmc_crc16_init_table =
     map (\<lambda>i. (sdmmc_crc16_table_bit ^^ 8) (push_bit 8 (of_nat i))) [0..<256]"

section \<open>Shift registers are injective and linear\<close>

text \<open>All the exclusive-or combinations of a list of words, in the order of a table.\<close>

fun xor_span :: "'a::len word list \<Rightarrow> 'a word list" where
  "xor_span [] = [0]"
| "xor_span (b # bs) = xor_span bs @ map (\<lambda>v. b XOR v) (xor_span bs)"

lemma of_nat_add_pow2:
  assumes "i < 2 ^ n" "n < LENGTH('a::len)"
  shows "(of_nat (2 ^ n + i) :: 'a word) = 2 ^ n XOR of_nat i"
proof -
  have "\<not> bit i n"
    using assms(1) by (simp add: bit_iff_odd)
  then have "(2 ^ n :: 'a word) AND of_nat i = 0"
    using assms(2) by (intro bit_word_eqI) (auto simp: bit_and_iff bit_exp_iff bit_of_nat_iff)
  then show ?thesis
    by (simp add: disjunctive_add_eq_xor)
qed

locale xor_map =
  fixes L :: "'a::len word \<Rightarrow> 'a word"
  assumes xor: "L (x XOR y) = L x XOR L y"
begin

lemma zero [simp]: "L 0 = 0"
  using xor [of 0 0] by simp

lemma pow_xor: "(L ^^ n) (x XOR y) = (L ^^ n) x XOR (L ^^ n) y"
  by (induction n) (auto simp: xor)

text \<open>A lookup table of a linear map is the span of its values on the powers of two.\<close>

lemma table: "n \<le> LENGTH('a) \<Longrightarrow>
    xor_span (map (\<lambda>k. L (2 ^ k)) (rev [0..<n])) = map (\<lambda>i. L (of_nat i)) [0..<2 ^ n]"
proof (induction n)
  case 0
  then show ?case by simp
next
  case (Suc n)
  have "[0..<2 ^ Suc n] = [0..<2 ^ n] @ [2 ^ n..<2 ^ n + (2::nat) ^ n]"
    using upt_add_eq_append [of 0 "2 ^ n" "(2::nat) ^ n"] by (simp only: power_Suc mult_2 le0 simp_thms)
  then have split: "[0..<2 ^ Suc n] = [0..<2 ^ n] @ map (\<lambda>i. i + 2 ^ n) [0..<(2::nat) ^ n]"
    by (simp only: map_add_upt)
  have "L (of_nat (i + 2 ^ n)) = L (2 ^ n) XOR L (of_nat i)" if "i < 2 ^ n" for i
    using that Suc.prems of_nat_add_pow2 [of i n, where 'a = 'a] by (simp add: xor add.commute)
  then show ?case
    using Suc unfolding split by (simp del: of_nat_add)
qed

end

locale xor_linear = xor_map +
  assumes kernel: "L x = 0 \<Longrightarrow> x = 0"
begin

lemma inj: "L x = L y \<Longrightarrow> x = y"
proof -
  assume "L x = L y"
  then have "L (x XOR y) = 0" by (simp add: xor)
  then have "x XOR y = 0" by (rule kernel)
  then have "(x XOR y) XOR y = y" by simp
  then show "x = y" by (simp add: xor.assoc)
qed

lemma pow_kernel: "(L ^^ n) x = 0 \<Longrightarrow> x = 0"
  by (induction n) (auto dest: kernel)

lemma power: "xor_linear (L ^^ n)"
  by unfold_locales (auto simp: pow_xor dest: pow_kernel)

end

lemma funpow8: "(f ^^ 8) x = f (f (f (f (f (f (f (f x)))))))"
  by (simp add: numeral_eq_Suc)

lemma low_bit: "(x :: 'a::len word) AND 1 \<noteq> 0 \<longleftrightarrow> bit x 0"
  by (simp add: and_one_eq mod_2_eq_odd bit_0)

lemma high_bit16: "(x :: u16) AND push_bit 15 1 \<noteq> 0 \<longleftrightarrow> bit x 15"
  using and_exp_eq_0_iff_not_bit [of x 15] by simp

lemma not_bit_beyond: "LENGTH('a) \<le> n \<Longrightarrow> \<not> bit (x :: 'a::len word) n"
  by (auto dest: bit_imp_le_length)

lemma drop_bit_1_0:
  assumes "drop_bit 1 x = 0" and "\<not> bit x 0"
  shows "x = (0 :: 'a::len word)"
proof (rule bit_word_eqI)
  fix n
  show "bit x n = bit 0 n"
  proof (cases n)
    case 0
    with assms show ?thesis by simp
  next
    case (Suc m)
    have "bit (drop_bit 1 x) m = bit x n"
      using Suc by (simp add: bit_drop_bit_eq)
    with assms show ?thesis by simp
  qed
qed

lemma push_bit_1_0:
  assumes z: "push_bit 1 x = 0" and b: "\<not> bit x (LENGTH('a) - 1)"
  shows "x = (0 :: 'a::len word)"
proof (rule bit_word_eqI)
  fix n
  assume n: "n < LENGTH('a)"
  show "bit x n = bit 0 n"
  proof (cases "n = LENGTH('a) - 1")
    case True
    with b show ?thesis by simp
  next
    case False
    with n have "Suc n < LENGTH('a)" by linarith
    moreover from z have "\<not> bit (push_bit 1 x) (Suc n)" by simp
    ultimately show ?thesis by (simp add: bit_push_bit_iff del: push_bit_Suc)
  qed
qed

subsection \<open>The Modbus register\<close>

lemma crc16_bit_0: "crc16_bit x = 0 \<Longrightarrow> x = 0"
proof -
  assume z: "crc16_bit x = 0"
  have "bit (crc16_bit x) 15 \<longleftrightarrow> bit x 0"
    by (simp add: crc16_bit_def low_bit bit_simps not_bit_beyond)
  with z have "\<not> bit x 0" by simp
  with z show "x = 0" by (auto simp: crc16_bit_def low_bit intro: drop_bit_1_0)
qed

interpretation modbus1: xor_linear crc16_bit
proof unfold_locales
  show "crc16_bit (x XOR y) = crc16_bit x XOR crc16_bit y" for x y
    by (rule bit_word_eqI) (auto simp: crc16_bit_def low_bit bit_simps)
qed (rule crc16_bit_0)

interpretation modbus8: xor_linear "crc16_bit ^^ 8"
  by (rule modbus1.power)

subsection \<open>The CRC-32 register\<close>

lemma crc32_bit_alt:
  "crc32_bit p x = (if bit x 0 then drop_bit 1 x XOR p else drop_bit 1 x)"
proof -
  have "x AND 1 = (if bit x 0 then 1 else 0)"
    by (simp add: and_one_eq mod_2_eq_odd bit_0)
  then show ?thesis by (simp add: crc32_bit_def)
qed

lemma crc32_bit_xor: "crc32_bit p (x XOR y) = crc32_bit p x XOR crc32_bit p y"
  by (rule bit_word_eqI) (auto simp: crc32_bit_alt bit_simps)

lemma crc32_bit_0: "bit p 31 \<Longrightarrow> crc32_bit p x = 0 \<Longrightarrow> x = 0"
proof -
  assume p: "bit p 31" and z: "crc32_bit p x = 0"
  from p have "bit (crc32_bit p x) 31 \<longleftrightarrow> bit x 0"
    by (simp add: crc32_bit_alt bit_simps not_bit_beyond)
  with z have "\<not> bit x 0" by simp
  with z show "x = 0" by (auto simp: crc32_bit_alt intro: drop_bit_1_0)
qed

lemma zlib_poly: "bit (0xEDB88320 :: u32) 31"
  by simp

interpretation zlib1: xor_linear "crc32_bit 0xEDB88320"
proof unfold_locales
  show "crc32_bit 0xEDB88320 (x XOR y) = crc32_bit 0xEDB88320 x XOR crc32_bit 0xEDB88320 y" for x y
    by (rule crc32_bit_xor)
  show "crc32_bit 0xEDB88320 x = 0 \<Longrightarrow> x = 0" for x
    by (rule crc32_bit_0 [OF zlib_poly])
qed

interpretation zlib8: xor_linear "crc32_bit 0xEDB88320 ^^ 8"
  by (rule zlib1.power)

subsection \<open>The CCITT register\<close>

lemma bit_ccitt: "n < 16 \<Longrightarrow> bit (sdmmc_crc16_table_bit x) n =
    ((1 \<le> n \<and> bit x (n - 1)) \<noteq> (bit x 15 \<and> bit (0x1021 :: u16) n))"
  unfolding sdmmc_crc16_table_bit_def high_bit16
  by (auto simp: bit_xor_iff bit_push_bit_iff simp del: push_bit_Suc)

lemma ccitt_bit_0: "sdmmc_crc16_table_bit x = 0 \<Longrightarrow> x = 0"
proof -
  assume z: "sdmmc_crc16_table_bit x = 0"
  have "bit (sdmmc_crc16_table_bit x) 0 \<longleftrightarrow> bit x 15"
    by (simp add: bit_ccitt)
  with z have b: "\<not> bit x 15" by simp
  with z have "push_bit 1 x = 0" by (simp only: sdmmc_crc16_table_bit_def high_bit16 if_False)
  with b show "x = 0" using push_bit_1_0 [of x] by simp
qed

interpretation ccitt1: xor_linear sdmmc_crc16_table_bit
proof unfold_locales
  show "sdmmc_crc16_table_bit (x XOR y) = sdmmc_crc16_table_bit x XOR sdmmc_crc16_table_bit y" for x y
    by (rule bit_word_eqI) (auto simp: bit_ccitt bit_xor_iff)
qed (rule ccitt_bit_0)

interpretation ccitt8: xor_linear "sdmmc_crc16_table_bit ^^ 8"
  by (rule ccitt1.power)

section \<open>The tables are what the shift registers compute\<close>

lemma powers_8: "map (\<lambda>k. f (2 ^ k)) (rev [0..<8]) =
    [f 128, f 64, f 32, f 16, f 8, f 4, f 2, f (1 :: 'a::len word)]"
  by (simp add: upt_rec)

lemma zlib_basis:
  "(crc32_bit 0xEDB88320 ^^ 8) 128 = 0xEDB88320" "(crc32_bit 0xEDB88320 ^^ 8) 64 = 0x76DC4190"
  "(crc32_bit 0xEDB88320 ^^ 8) 32 = 0x3B6E20C8" "(crc32_bit 0xEDB88320 ^^ 8) 16 = 0x1DB71064"
  "(crc32_bit 0xEDB88320 ^^ 8) 8 = 0x0EDB8832" "(crc32_bit 0xEDB88320 ^^ 8) 4 = 0x076DC419"
  "(crc32_bit 0xEDB88320 ^^ 8) 2 = 0xEE0E612C" "(crc32_bit 0xEDB88320 ^^ 8) 1 = 0x77073096"
  by (simp_all add: funpow8 crc32_bit_def)

lemma cr3tab_eq: "cr3tab = map (\<lambda>i. (crc32_bit 0xEDB88320 ^^ 8) (of_nat i)) [0..<256]"
proof -
  have "map (\<lambda>i. (crc32_bit 0xEDB88320 ^^ 8) (of_nat i)) [0..<256] =
      xor_span [0xEDB88320, 0x76DC4190, 0x3B6E20C8, 0x1DB71064, 0x0EDB8832, 0x076DC419,
        0xEE0E612C, 0x77073096]"
    using zlib8.table [of 8, symmetric] by (simp only: powers_8 zlib_basis) simp
  also have "\<dots> = cr3tab"
    by (simp add: cr3tab_def)
  finally show ?thesis by simp
qed

lemma ccitt_basis:
  "(sdmmc_crc16_table_bit ^^ 8) (push_bit 8 128) = 0x9188"
  "(sdmmc_crc16_table_bit ^^ 8) (push_bit 8 64) = 0x48C4"
  "(sdmmc_crc16_table_bit ^^ 8) (push_bit 8 32) = 0x2462"
  "(sdmmc_crc16_table_bit ^^ 8) (push_bit 8 16) = 0x1231"
  "(sdmmc_crc16_table_bit ^^ 8) (push_bit 8 8) = 0x8108"
  "(sdmmc_crc16_table_bit ^^ 8) (push_bit 8 4) = 0x4084"
  "(sdmmc_crc16_table_bit ^^ 8) (push_bit 8 2) = 0x2042"
  "(sdmmc_crc16_table_bit ^^ 8) (push_bit 8 1) = 0x1021"
  by (simp_all add: funpow8 sdmmc_crc16_table_bit_def)

interpretation ccitt_tab: xor_map "\<lambda>x. (sdmmc_crc16_table_bit ^^ 8) (push_bit 8 x)"
  by unfold_locales (simp only: push_bit_xor ccitt8.xor)

lemma ccitt_init_table: "sdmmc_crc16_init_table = crctab"
proof -
  have "sdmmc_crc16_init_table =
      xor_span [0x9188, 0x48C4, 0x2462, 0x1231, 0x8108, 0x4084, 0x2042, 0x1021]"
    using ccitt_tab.table [of 8, symmetric] unfolding sdmmc_crc16_init_table_def
    by (simp only: powers_8 [of "\<lambda>x. (sdmmc_crc16_table_bit ^^ 8) (push_bit 8 x)"] ccitt_basis) simp
  also have "\<dots> = crctab"
    by (simp add: crctab_def)
  finally show ?thesis .
qed

lemma sdmmc_crc16_table_eq: "sdmmc_crc16_table = crctab"
  by (simp only: sdmmc_crc16_table_def crctab_def)

section \<open>Table lookups are eight shifts\<close>

lemma byte_mask: "(0xFF :: 'a::len word) = mask 8"
  by (simp add: mask_eq_exp_minus_1)

lemma unat_and_FF: "unat ((x :: 'a::len word) AND 0xFF) < 256"
  using take_bit_nat_less_exp [of 8 "unat x"]
  by (simp only: byte_mask flip: take_bit_eq_mask) (simp add: unsigned_take_bit_eq)

lemma crc16_shift: "(\<And>k. k < n \<Longrightarrow> \<not> bit x k) \<Longrightarrow> (crc16_bit ^^ n) x = drop_bit n x"
proof (induction n)
  case (Suc n)
  then have "(crc16_bit ^^ Suc n) x = crc16_bit (drop_bit n x)" and "\<not> bit (drop_bit n x) 0"
    by (simp_all add: bit_drop_bit_eq)
  moreover from this(2) have "crc16_bit (drop_bit n x) = drop_bit 1 (drop_bit n x)"
    by (simp only: crc16_bit_def low_bit if_False)
  ultimately show ?case
    by (simp add: drop_bit_drop_bit del: drop_bit_Suc funpow.simps)
qed simp

lemma crc32_shift: "(\<And>k. k < n \<Longrightarrow> \<not> bit x k) \<Longrightarrow> (crc32_bit p ^^ n) x = drop_bit n x"
proof (induction n)
  case (Suc n)
  then have "(crc32_bit p ^^ Suc n) x = crc32_bit p (drop_bit n x)" and "\<not> bit (drop_bit n x) 0"
    by (simp_all add: bit_drop_bit_eq)
  moreover from this(2) have "crc32_bit p (drop_bit n x) = drop_bit 1 (drop_bit n x)"
    by (simp only: crc32_bit_alt if_False)
  ultimately show ?case
    by (simp add: drop_bit_drop_bit del: drop_bit_Suc funpow.simps)
qed simp

lemma ccitt_shift: "(\<And>k. k < n \<Longrightarrow> \<not> bit x (15 - k)) \<Longrightarrow> n \<le> 16 \<Longrightarrow>
    (sdmmc_crc16_table_bit ^^ n) x = push_bit n x"
proof (induction n)
  case (Suc n)
  then have "(sdmmc_crc16_table_bit ^^ Suc n) x = sdmmc_crc16_table_bit (push_bit n x)"
    and "\<not> bit (push_bit n x) 15"
    by (simp_all add: bit_push_bit_iff)
  moreover from this(2) have "sdmmc_crc16_table_bit (push_bit n x) = push_bit 1 (push_bit n x)"
    by (simp only: sdmmc_crc16_table_bit_def high_bit16 if_False)
  ultimately show ?case
    by (simp add: push_bit_push_bit del: push_bit_Suc funpow.simps)
qed simp

lemma UPDC32_eq: "UPDC32 b c = crc32_byte 0xEDB88320 c b"
proof -
  let ?L = "crc32_bit 0xEDB88320 ^^ 8" and ?y = "c XOR ucast b"
  have "?y = (?y AND 0xFF) XOR (?y AND NOT 0xFF)"
    by (rule bit_word_eqI) (auto simp: bit_simps)
  then have "?L ?y = ?L (?y AND 0xFF) XOR ?L (?y AND NOT 0xFF)"
    by (metis zlib8.xor)
  moreover have "?L (?y AND NOT 0xFF) = drop_bit 8 (?y AND NOT 0xFF)"
    by (rule crc32_shift) (auto simp: byte_mask bit_simps)
  moreover have "drop_bit 8 (?y AND NOT 0xFF) = drop_bit 8 c AND 0x00FFFFFF"
  proof -
    have m: "(0x00FFFFFF :: u32) = mask 24" by (simp add: mask_eq_exp_minus_1)
    show ?thesis
      unfolding m byte_mask
      by (rule bit_word_eqI) (auto simp: bit_simps dest: bit_imp_le_length)
  qed
  moreover have "cr3tab ! unat (?y AND 0xFF) = ?L (?y AND 0xFF)"
  proof -
    have "unat (?y AND 0xFF) < 256"
      by (rule unat_and_FF)
    then show ?thesis by (simp add: cr3tab_eq)
  qed
  ultimately show ?thesis by (simp only: UPDC32_def crc32_byte_def)
qed

lemma updcrc_eq: "updcrc b c = (sdmmc_crc16_table_bit ^^ 8) c XOR ucast b"
proof -
  let ?L = "sdmmc_crc16_table_bit ^^ 8"
  have "c = push_bit 8 (drop_bit 8 c) XOR (c AND 0xFF)"
    by (rule bit_word_eqI) (auto simp: byte_mask bit_simps)
  then have "?L c = ?L (push_bit 8 (drop_bit 8 c)) XOR ?L (c AND 0xFF)"
    by (metis ccitt8.xor)
  moreover have "?L (c AND 0xFF) = push_bit 8 (c AND 0xFF)"
    by (rule ccitt_shift) (auto simp: byte_mask bit_simps)
  moreover have "push_bit 8 (c AND 0xFF) = push_bit 8 c"
    by (rule bit_word_eqI) (auto simp: byte_mask bit_simps)
  moreover have "drop_bit 8 c AND 255 = drop_bit 8 c"
    unfolding byte_mask by (rule bit_word_eqI) (auto simp: bit_simps dest: bit_imp_le_length)
  moreover have "unat (drop_bit 8 c) < 256"
    using unat_and_FF [of "drop_bit 8 c"] calculation(4) by simp
  then have "crctab ! unat (drop_bit 8 c) = ?L (push_bit 8 (drop_bit 8 c))"
    by (simp add: ccitt_init_table [symmetric] sdmmc_crc16_init_table_def)
  ultimately show ?thesis by (simp only: updcrc_def xor.assoc)
qed

lemma sdmmc_crc16_byte_eq:
  "sdmmc_crc16_byte c b = (sdmmc_crc16_table_bit ^^ 8) (c XOR push_bit 8 (ucast b))"
proof -
  have "(drop_bit 8 c XOR ucast b) AND 0xFF = (drop_bit 8 (c XOR push_bit 8 (ucast b)) AND 255 :: u16)"
    by (rule bit_word_eqI) (auto simp: byte_mask bit_simps)
  moreover have "push_bit 8 c = push_bit 8 (c XOR push_bit 8 (ucast b :: u16))"
    by (rule bit_word_eqI) (auto simp: bit_simps)
  ultimately have "sdmmc_crc16_byte c b = updcrc 0 (c XOR push_bit 8 (ucast b))"
    by (simp only: sdmmc_crc16_byte_def updcrc_def sdmmc_crc16_table_eq) simp
  then show ?thesis by (simp add: updcrc_eq)
qed

section \<open>The contract of a CRC\<close>

locale crc_code =
  fixes step :: "'c \<Rightarrow> u8 \<Rightarrow> 'c"
    and tail :: "'c \<Rightarrow> u8 list"
    and good :: 'c
    and n :: nat
  assumes step_state: "step c b = step c' b \<Longrightarrow> c = c'"
    and step_byte: "step c b = step c b' \<Longrightarrow> b = b'"
    and length_tail: "length (tail c) = n"
    and tail_good: "foldl step c (tail c) = good"
    and tail_unique: "foldl step c ts = good \<Longrightarrow> length ts = n \<Longrightarrow> ts = tail c"
begin

lemma run_state: "foldl step c xs = foldl step c' xs \<Longrightarrow> c = c'"
  by (induction xs arbitrary: c c') (auto dest: step_state)

text \<open>The receiver's check accepts a message exactly when its trailer is the one the sender appends.\<close>

lemma accept_iff:
  "length ts = n \<Longrightarrow> foldl step c (xs @ ts) = good \<longleftrightarrow> ts = tail (foldl step c xs)"
  using tail_unique tail_good by auto

text \<open>Changing one byte anywhere changes the running CRC: such an error is always detected.\<close>

lemma single_byte_changes:
  "foldl step c (xs @ b # ys) = foldl step c (xs @ b' # ys) \<Longrightarrow> b = b'"
  by (auto dest: run_state step_byte)

lemma single_byte_detected:
  assumes "foldl step c (xs @ b # ys) = good" and "b \<noteq> b'"
  shows "foldl step c (xs @ b' # ys) \<noteq> good"
  using assms single_byte_changes by metis

text \<open>Two messages of one length with one trailer and different CRCs: at most one is accepted.\<close>

lemma trailer_determines:
  assumes "foldl step c (xs @ ts) = good" and "foldl step c (ys @ ts) = good" and "length ts = n"
  shows "foldl step c xs = foldl step c ys"
  using assms run_state [of "foldl step c xs" ts "foldl step c ys"] by simp

end

lemma list_length_2: "length ts = 2 \<Longrightarrow> \<exists>a b. ts = [a, b]"
  by (auto simp: numeral_2_eq_2 length_Suc_conv)

lemma list_length_4: "length ts = 4 \<Longrightarrow> \<exists>a b c d. ts = [a, b, c, d]"
  by (auto simp: numeral_eq_Suc length_Suc_conv)

lemma ucast_u8_eq: "LENGTH('a) \<ge> 8 \<Longrightarrow> (ucast (a :: u8) :: 'a::len word) = ucast b \<Longrightarrow> a = b"
proof (rule bit_word_eqI)
  fix n
  assume le: "LENGTH('a) \<ge> 8" and eq: "(ucast a :: 'a word) = ucast b" and n: "n < LENGTH(8)"
  from eq have "bit (ucast a :: 'a word) n = bit (ucast b :: 'a word) n" by simp
  with le n show "bit a n = bit b n" by (simp add: bit_simps)
qed

lemma xor_left_cancel: "x XOR y = x XOR z \<Longrightarrow> y = (z :: 'a::len word)"
  by (metis xor.left_neutral xor.assoc bit.xor_self)

lemma xor_shift: "x XOR y = z \<longleftrightarrow> x = y XOR (z :: 'a::len word)"
proof
  assume "x XOR y = z"
  then have "y XOR z = y XOR (y XOR x)" by (simp add: xor.commute)
  then show "x = y XOR z" by (simp flip: xor.assoc)
qed (simp add: xor.commute xor.left_commute)

lemma ucast_u8_16: "(ucast (a :: u8) :: u16) = ucast b \<Longrightarrow> a = b"
  by (erule ucast_u8_eq [rotated]) simp

lemma ucast_u8_32: "(ucast (a :: u8) :: u32) = ucast b \<Longrightarrow> a = b"
  by (erule ucast_u8_eq [rotated]) simp

lemma drop_push_ucast: "drop_bit 8 (push_bit 8 (ucast (b :: u8)) :: u16) = ucast b"
  by (rule bit_word_eqI) (auto simp: bit_simps dest: bit_imp_le_length)

lemma xor_0_eq: "x XOR y = 0 \<Longrightarrow> x = (y :: 'a::len word)"
  by (metis xor.right_neutral xor.left_neutral xor.assoc bit.xor_self)

lemma xor_right_cancel: "y XOR x = z XOR x \<Longrightarrow> y = (z :: 'a::len word)"
  by (metis xor.right_neutral xor.assoc bit.xor_self)

subsection \<open>The contract holds for the Modbus CRC\<close>

definition crc16_tail :: "u16 \<Rightarrow> u8 list" where
  "crc16_tail c = [ucast (c AND 0xFF), ucast (drop_bit 8 c AND 0xFF)]"

lemma crc16_low_shift: "(crc16_bit ^^ 8) (c XOR ucast (ucast (c AND 0xFF) :: u8)) = drop_bit 8 c"
proof -
  have "(crc16_bit ^^ 8) (c XOR ucast (ucast (c AND 0xFF) :: u8)) =
      drop_bit 8 (c XOR ucast (ucast (c AND 0xFF) :: u8))"
    by (rule crc16_shift) (auto simp: byte_mask bit_simps)
  also have "\<dots> = drop_bit 8 c"
    by (rule bit_word_eqI) (auto simp: byte_mask bit_simps)
  finally show ?thesis .
qed

lemma crc16_tail_good: "foldl crc16_byte c (crc16_tail c) = 0"
proof -
  have "drop_bit 8 c XOR ucast (ucast (drop_bit 8 c AND 0xFF) :: u8) = 0"
    by (rule bit_word_eqI) (auto simp: byte_mask bit_simps dest: bit_imp_le_length)
  then show ?thesis
    by (simp only: crc16_tail_def foldl.simps crc16_byte_def crc16_low_shift modbus8.zero)
qed

lemma crc16_byte_state: "crc16_byte c b = crc16_byte c' b \<Longrightarrow> c = c'"
  unfolding crc16_byte_def by (auto dest: modbus8.inj xor_right_cancel)

lemma crc16_byte_byte: "crc16_byte c b = crc16_byte c b' \<Longrightarrow> b = b'"
  unfolding crc16_byte_def by (drule modbus8.inj, drule xor_left_cancel, erule ucast_u8_16)

lemma bytes16_eq:
  fixes x :: u16 and a b :: u8
  assumes "x XOR ucast a = push_bit 8 (ucast b)"
  shows "a = ucast (x AND 0xFF)" and "b = ucast (drop_bit 8 x AND 0xFF)"
proof -
  have x: "x = push_bit 8 (ucast b) XOR ucast a"
    using xor_shift [THEN iffD1, OF assms] by (simp only: xor.commute)
  show "a = ucast (x AND 0xFF)" and "b = ucast (drop_bit 8 x AND 0xFF)"
    unfolding x by (rule bit_word_eqI; auto simp: byte_mask bit_simps dest: bit_imp_le_length)+
qed

lemma crc16_tail_unique:
  assumes "foldl crc16_byte c ts = 0" and "length ts = 2"
  shows "ts = crc16_tail c"
proof -
  obtain a b where ts: "ts = [a, b]" using assms(2) list_length_2 by blast
  have "crc16_byte c a XOR ucast b = 0"
    using assms(1) by (simp add: ts crc16_byte_def modbus8.kernel)
  then have "(crc16_bit ^^ 8) (c XOR ucast a) = ucast b"
    unfolding crc16_byte_def by (rule xor_0_eq)
  moreover have "(crc16_bit ^^ 8) (push_bit 8 (ucast b)) = ucast b"
    using crc16_shift [of 8 "push_bit 8 (ucast b)"] by (simp add: drop_push_ucast bit_push_bit_iff)
  ultimately have "c XOR ucast a = push_bit 8 (ucast b)"
    by (metis modbus8.inj)
  from bytes16_eq [OF this] show ?thesis
    by (simp add: ts crc16_tail_def)
qed

interpretation modbus: crc_code crc16_byte crc16_tail 0 2
proof unfold_locales
  show "length (crc16_tail c) = 2" for c
    by (simp add: crc16_tail_def)
qed (rule crc16_tail_good | erule crc16_byte_state crc16_byte_byte | erule (1) crc16_tail_unique)+

subsection \<open>The contract holds for the CCITT CRC of SD data blocks\<close>

definition sdmmc_crc16_tail :: "u16 \<Rightarrow> u8 list" where
  "sdmmc_crc16_tail c = [ucast (drop_bit 8 c AND 0xFF), ucast (c AND 0xFF)]"

lemma ccitt_low: "(sdmmc_crc16_table_bit ^^ 8) (ucast (b :: u8)) = push_bit 8 (ucast b)"
  by (rule ccitt_shift) (auto simp: bit_simps dest: bit_imp_le_length)

lemma push_ucast_eq: "push_bit 8 (ucast (a :: u8) :: u16) = push_bit 8 (ucast b) \<Longrightarrow> a = b"
proof (rule bit_word_eqI)
  fix n
  assume eq: "push_bit 8 (ucast a :: u16) = push_bit 8 (ucast b)" and n: "n < LENGTH(8)"
  from eq have "bit (push_bit 8 (ucast a) :: u16) (8 + n) = bit (push_bit 8 (ucast b) :: u16) (8 + n)"
    by simp
  with n show "bit a n = bit b n" by (simp add: bit_simps)
qed

lemma sdmmc_byte_state: "sdmmc_crc16_byte c b = sdmmc_crc16_byte c' b \<Longrightarrow> c = c'"
  unfolding sdmmc_crc16_byte_eq by (auto dest: ccitt8.inj xor_right_cancel)

lemma sdmmc_byte_byte: "sdmmc_crc16_byte c b = sdmmc_crc16_byte c b' \<Longrightarrow> b = b'"
  unfolding sdmmc_crc16_byte_eq by (drule ccitt8.inj, drule xor_left_cancel, erule push_ucast_eq)

lemma sdmmc_two_bytes_0:
  "foldl sdmmc_crc16_byte c [a, b] = 0 \<longleftrightarrow> c = push_bit 8 (ucast a) XOR ucast b"
proof
  let ?L = "sdmmc_crc16_table_bit ^^ 8"
  assume "foldl sdmmc_crc16_byte c [a, b] = 0"
  then have "?L (c XOR push_bit 8 (ucast a)) XOR push_bit 8 (ucast b) = 0"
    by (simp add: sdmmc_crc16_byte_eq ccitt8.kernel)
  then have "?L (c XOR push_bit 8 (ucast a)) = ?L (ucast b)"
    by (simp only: ccitt_low xor_0_eq)
  then have "c XOR push_bit 8 (ucast a) = ucast b" by (rule ccitt8.inj)
  then show "c = push_bit 8 (ucast a) XOR ucast b"
    by (rule xor_shift [THEN iffD1])
next
  assume "c = push_bit 8 (ucast a) XOR ucast b"
  then have "c XOR push_bit 8 (ucast a) = ucast b"
    by (rule xor_shift [THEN iffD2])
  then show "foldl sdmmc_crc16_byte c [a, b] = 0"
    by (simp add: sdmmc_crc16_byte_eq ccitt_low ccitt8.zero)
qed

lemma bytes16_join_be:
  "(c :: u16) = push_bit 8 (ucast (ucast (drop_bit 8 c AND 0xFF) :: u8)) XOR ucast (ucast (c AND 0xFF) :: u8)"
  by (rule bit_word_eqI) (auto simp: byte_mask bit_simps dest: bit_imp_le_length)

lemma bytes16_split_be:
  fixes a b :: u8 and c :: u16
  assumes "c = push_bit 8 (ucast a) XOR ucast b"
  shows "a = ucast (drop_bit 8 c AND 0xFF)" and "b = ucast (c AND 0xFF)"
  unfolding assms by (rule bit_word_eqI; auto simp: byte_mask bit_simps dest: bit_imp_le_length)+

interpretation sdmmc: crc_code sdmmc_crc16_byte sdmmc_crc16_tail 0 2
proof unfold_locales
  show "foldl sdmmc_crc16_byte c (sdmmc_crc16_tail c) = 0" for c
    unfolding sdmmc_crc16_tail_def sdmmc_two_bytes_0 by (rule bytes16_join_be)
  show "ts = sdmmc_crc16_tail c" if "foldl sdmmc_crc16_byte c ts = 0" "length ts = 2" for c ts
  proof -
    from that obtain a b where ts: "ts = [a, b]" using list_length_2 by blast
    with that(1) have "c = push_bit 8 (ucast a) XOR ucast b" by (simp only: sdmmc_two_bytes_0)
    from bytes16_split_be [OF this] show ?thesis by (simp add: ts sdmmc_crc16_tail_def)
  qed
qed (auto simp: sdmmc_crc16_tail_def dest: sdmmc_byte_state sdmmc_byte_byte)

subsection \<open>The contract holds for the ZMODEM 16-bit CRC\<close>

text \<open>
  ZMODEM runs the register two zero bytes further and sends the result, high byte first.
\<close>

definition zcrc16_tail :: "u16 \<Rightarrow> u8 list" where
  "zcrc16_tail c = (let v = updcrc 0 (updcrc 0 c) in [ucast (drop_bit 8 v AND 0xFF), ucast (v AND 0xFF)])"

lemma updcrc_two:
  "updcrc b (updcrc a c) = 0 \<longleftrightarrow> updcrc 0 (updcrc 0 c) = push_bit 8 (ucast a) XOR ucast b"
proof -
  let ?L = "sdmmc_crc16_table_bit ^^ 8"
  have "updcrc b (updcrc a c) = updcrc 0 (updcrc 0 c) XOR (push_bit 8 (ucast a) XOR ucast b)"
    by (simp add: updcrc_eq ccitt8.xor ccitt_low xor.assoc)
  then show ?thesis using xor_0_eq by fastforce
qed

interpretation zcrc16: crc_code "\<lambda>c b. updcrc b c" zcrc16_tail 0 2
proof unfold_locales
  show "c = c'" if "updcrc b c = updcrc b c'" for b c c'
    using that unfolding updcrc_eq by (auto dest: ccitt8.inj xor_right_cancel)
  show "b = b'" if "updcrc b c = updcrc b' c" for b b' c
    using that unfolding updcrc_eq by (auto dest: xor_left_cancel ucast_u8_16)
  show "foldl (\<lambda>c b. updcrc b c) c (zcrc16_tail c) = 0" for c
    by (simp add: zcrc16_tail_def Let_def updcrc_two bytes16_join_be [symmetric])
  show "ts = zcrc16_tail c" if "foldl (\<lambda>c b. updcrc b c) c ts = 0" "length ts = 2" for c ts
  proof -
    from that obtain a b where ts: "ts = [a, b]" using list_length_2 by blast
    with that(1) have "updcrc 0 (updcrc 0 c) = push_bit 8 (ucast a) XOR ucast b"
      by (simp add: updcrc_two)
    from bytes16_split_be [OF this] show ?thesis by (simp add: ts zcrc16_tail_def Let_def)
  qed
qed (simp add: zcrc16_tail_def Let_def)

subsection \<open>The contract holds for CRC-32\<close>

definition crc32_tail :: "u32 \<Rightarrow> u8 list" where
  "crc32_tail c = (let v = NOT c in
     [ucast v, ucast (drop_bit 8 v), ucast (drop_bit 16 v), ucast (drop_bit 24 v)])"

lemma crc32_push: "drop_bit 24 w = 0 \<Longrightarrow> (crc32_bit 0xEDB88320 ^^ 8) (push_bit 8 w) = w"
proof -
  assume z: "drop_bit 24 w = 0"
  have "(crc32_bit 0xEDB88320 ^^ 8) (push_bit 8 w) = drop_bit 8 (push_bit 8 w)"
    by (rule crc32_shift) (simp add: bit_push_bit_iff)
  moreover have "drop_bit 8 (push_bit 8 w) = w"
  proof (rule bit_word_eqI)
    fix n assume "n < LENGTH(32)"
    moreover have "n < 24" if "bit w n"
    proof (rule ccontr)
      assume "\<not> n < 24"
      then have "bit (drop_bit 24 w) (n - 24)" using that by (simp add: bit_drop_bit_eq)
      then show False by (simp add: z)
    qed
    ultimately show "bit (drop_bit 8 (push_bit 8 w)) n = bit w n"
      by (auto simp: bit_simps)
  qed
  ultimately show ?thesis by simp
qed

lemma crc32_push_inj:
  "(crc32_bit 0xEDB88320 ^^ 8) x = w \<Longrightarrow> drop_bit 24 w = 0 \<Longrightarrow> x = push_bit 8 w"
  by (metis crc32_push zlib8.inj)

lemma crc32_byte_diff:
  "crc32_byte 0xEDB88320 c a XOR crc32_byte 0xEDB88320 c' b =
     (crc32_bit 0xEDB88320 ^^ 8) ((c XOR c') XOR (ucast a XOR ucast b))"
  by (simp add: crc32_byte_def ac_simps flip: zlib8.xor)

lemma u8_beyond: "8 \<le> n \<Longrightarrow> \<not> bit (x :: u8) n"
  by (auto dest: bit_imp_le_length)

lemma u8_of_low: "ucast (e :: u8) = push_bit 8 (w :: u32) \<Longrightarrow> e = 0 \<and> push_bit 8 w = 0"
proof -
  assume eq: "ucast e = push_bit 8 w"
  have "e = 0"
  proof (rule bit_word_eqI)
    fix n assume "n < LENGTH(8)"
    moreover have "bit (ucast e :: u32) n = bit (push_bit 8 w) n" by (simp only: eq)
    ultimately show "bit e n = bit 0 n" by (simp add: bit_simps)
  qed
  with eq show ?thesis by simp
qed

lemma crc32_diff_unique:
  fixes e1 e2 e3 e4 :: u8
  defines "L \<equiv> crc32_bit 0xEDB88320 ^^ 8"
  assumes "L (L (L (L (ucast e1) XOR ucast e2) XOR ucast e3) XOR ucast e4) = 0"
  shows "e1 = 0 \<and> e2 = 0 \<and> e3 = 0 \<and> e4 = 0"
proof -
  have "L (L (L (ucast e1) XOR ucast e2) XOR ucast e3) = ucast e4"
    using assms(2) unfolding L_def by (metis zlib8.kernel xor_0_eq)
  then have 3: "L (L (ucast e1) XOR ucast e2) XOR ucast e3 = push_bit 8 (ucast e4)"
    unfolding L_def by (rule crc32_push_inj) (auto simp: bit_simps u8_beyond intro!: bit_word_eqI)
  then have "L (L (ucast e1) XOR ucast e2) = ucast e3 XOR push_bit 8 (ucast e4)"
    by (rule xor_shift [THEN iffD1])
  then have 2: "L (ucast e1) XOR ucast e2 = push_bit 8 (ucast e3 XOR push_bit 8 (ucast e4))"
    unfolding L_def by (rule crc32_push_inj) (auto simp: bit_simps u8_beyond intro!: bit_word_eqI)
  then have "L (ucast e1) = ucast e2 XOR push_bit 8 (ucast e3 XOR push_bit 8 (ucast e4))"
    by (rule xor_shift [THEN iffD1])
  then have "ucast e1 = push_bit 8 (ucast e2 XOR push_bit 8 (ucast e3 XOR push_bit 8 (ucast e4)) :: u32)"
    unfolding L_def by (rule crc32_push_inj) (auto simp: bit_simps u8_beyond intro!: bit_word_eqI)
  from u8_of_low [OF this] have e1: "e1 = 0" by simp
  then have "ucast e2 = push_bit 8 (ucast e3 XOR push_bit 8 (ucast e4) :: u32)"
    using 2 by (simp add: L_def zlib8.zero)
  from u8_of_low [OF this] have e2: "e2 = 0" by simp
  then have "ucast e3 = push_bit 8 (ucast e4 :: u32)"
    using 3 by (simp add: L_def e1 zlib8.zero)
  from u8_of_low [OF this] have e3: "e3 = 0" by simp
  then have "L (ucast e4) = 0" using assms(2) by (simp add: e1 e2 L_def zlib8.zero)
  then have "(ucast e4 :: u32) = ucast (0 :: u8)" unfolding L_def by (auto dest: zlib8.kernel)
  then have "e4 = 0" by (rule ucast_u8_32)
  with e1 e2 e3 show ?thesis by simp
qed

lemma crc32_fold_diff:
  fixes L defines "L \<equiv> crc32_bit 0xEDB88320 ^^ 8"
  shows "foldl (crc32_byte 0xEDB88320) c [a1, a2, a3, a4]
      XOR foldl (crc32_byte 0xEDB88320) c' [b1, b2, b3, b4] =
    L (L (L (L ((c XOR c') XOR (ucast a1 XOR ucast b1)) XOR (ucast a2 XOR ucast b2))
      XOR (ucast a3 XOR ucast b3)) XOR (ucast a4 XOR ucast b4))"
  by (simp add: L_def crc32_byte_diff)

lemma ucast_xor_u8: "(ucast a XOR ucast b :: u32) = ucast (a XOR b :: u8)"
  by (rule bit_word_eqI) (auto simp: bit_simps)

lemma crc32_same_tail:
  assumes "foldl (crc32_byte 0xEDB88320) c ts = foldl (crc32_byte 0xEDB88320) c us"
    and "length ts = 4" and "length us = 4"
  shows "ts = us"
proof -
  obtain a1 a2 a3 a4 where t: "ts = [a1, a2, a3, a4]" using assms(2) list_length_4 by blast
  obtain b1 b2 b3 b4 where u: "us = [b1, b2, b3, b4]" using assms(3) list_length_4 by blast
  from assms(1) have "foldl (crc32_byte 0xEDB88320) c ts XOR foldl (crc32_byte 0xEDB88320) c us = 0"
    by simp
  then have "a1 XOR b1 = 0 \<and> a2 XOR b2 = 0 \<and> a3 XOR b3 = 0 \<and> a4 XOR b4 = 0"
    unfolding t u crc32_fold_diff ucast_xor_u8 by (intro crc32_diff_unique) simp
  then show ?thesis by (simp add: t u xor_0_eq)
qed

lemma crc32_tail_chain:
  fixes c :: u32
  shows "c XOR (ucast (ucast (NOT c) :: u8) XOR 0xFF) = push_bit 8 (drop_bit 8 c)"
    and "drop_bit 8 c XOR (ucast (ucast (drop_bit 8 (NOT c)) :: u8) XOR 0xFF) = push_bit 8 (drop_bit 16 c)"
    and "drop_bit 16 c XOR (ucast (ucast (drop_bit 16 (NOT c)) :: u8) XOR 0xFF) = push_bit 8 (drop_bit 24 c)"
    and "drop_bit 24 c XOR (ucast (ucast (drop_bit 24 (NOT c)) :: u8) XOR 0xFF) = 0"
  by (rule bit_word_eqI; auto simp: byte_mask bit_simps dest: bit_imp_le_length)+

lemma crc32_residue: "foldl (crc32_byte 0xEDB88320) 0 [0xFF, 0xFF, 0xFF, 0xFF] = 0xDEBB20E3"
  by (simp add: crc32_byte_def funpow8 crc32_bit_def)

lemma crc32_tail_good: "foldl (crc32_byte 0xEDB88320) c (crc32_tail c) = 0xDEBB20E3"
proof -
  have d: "(crc32_bit 0xEDB88320 ^^ 8) (push_bit 8 (drop_bit (8 * k) c)) = drop_bit (8 * k) c" if "1 \<le> k" for k
    by (rule crc32_push) (use that in \<open>simp add: drop_bit_drop_bit bit_eq_iff bit_simps not_bit_beyond\<close>)
  have "foldl (crc32_byte 0xEDB88320) c (crc32_tail c)
      XOR foldl (crc32_byte 0xEDB88320) 0 [0xFF, 0xFF, 0xFF, 0xFF] = 0"
    unfolding crc32_tail_def Let_def crc32_fold_diff
    using d [of 1] d [of 2] d [of 3] by (simp add: crc32_tail_chain zlib8.zero)
  then show ?thesis unfolding crc32_residue by (rule xor_0_eq)
qed

interpretation zcrc32: crc_code "\<lambda>c b. UPDC32 b c" crc32_tail "0xDEBB20E3" 4
  unfolding UPDC32_eq
proof unfold_locales
  show "c = c'" if "crc32_byte 0xEDB88320 c b = crc32_byte 0xEDB88320 c' b" for b c c'
    using that unfolding crc32_byte_def by (auto dest: zlib8.inj xor_right_cancel)
  show "b = b'" if "crc32_byte 0xEDB88320 c b = crc32_byte 0xEDB88320 c b'" for b b' c
    using that unfolding crc32_byte_def by (auto dest!: zlib8.inj xor_left_cancel ucast_u8_32)
  show "foldl (crc32_byte 0xEDB88320) c (crc32_tail c) = 0xDEBB20E3" for c
    by (rule crc32_tail_good)
  show l: "length (crc32_tail c) = 4" for c
    by (simp add: crc32_tail_def Let_def)
  show "ts = crc32_tail c" if "foldl (crc32_byte 0xEDB88320) c ts = 0xDEBB20E3" "length ts = 4" for c ts
    by (rule crc32_same_tail [of c]) (simp_all add: that crc32_tail_good l)
qed

section \<open>What the contract gives the protocols\<close>

text \<open>The CRC of a long message can be computed piece by piece.\<close>

lemma crc32_append:
  assumes "length xs + length ys < 2 ^ 32"
  shows "crc32 (xs @ ys) (of_nat (length xs + length ys)) prev p =
    crc32 ys (of_nat (length ys)) (crc32 xs (of_nat (length xs)) prev p) p"
proof -
  have "unat (of_nat n :: u32) = n" if "n \<le> length xs + length ys" for n
    using that assms by (simp add: unat_of_nat_small)
  then show ?thesis by (simp add: crc32_def xor.assoc del: of_nat_add)
qed

text \<open>\<open>add_crc\<close> writes the trailer of the contract behind the first \<open>len\<close> bytes.\<close>

lemma add_crc_frame:
  assumes "unat len + 1 < length buf"
  shows "take (unat len + 2) (add_crc buf len) =
    take (unat len) buf @ crc16_tail (crc16 buf len)"
proof -
  have "take (i + 2) (buf[i := a, i + 1 := b]) = take i buf @ [a, b]"
    if "i + 1 < length buf" for i a b
  proof -
    have "buf[i := a, i + 1 := b] = take i buf @ [a, b] @ drop (i + 2) buf"
      using that by (intro nth_equalityI) (auto simp: nth_list_update nth_append nth_Cons' min_def
          intro!: arg_cong [where f = "nth buf"])
    then show ?thesis using that by simp
  qed
  then show ?thesis using assms by (simp only: add_crc_def Let_def crc16_tail_def)
qed

lemma add_crc_good:
  assumes "unat len + 1 < length buf" and "unat len + 2 < 2 ^ 16"
  shows "crc16 (add_crc buf len) (len + 2) = 0 \<and>
    take (unat len) (add_crc buf len) = take (unat len) buf"
proof -
  have l: "unat (len + 2) = unat len + 2"
    using assms(2) by (simp add: unat_word_ariths)
  have "crc16 (add_crc buf len) (len + 2) = 0"
    unfolding crc16_def l add_crc_frame [OF assms(1)]
    by (simp add: modbus.tail_good flip: crc16_def)
  moreover have "take (unat len) (add_crc buf len) = take (unat len) buf"
    by (simp add: add_crc_def Let_def)
  ultimately show ?thesis by simp
qed

section \<open>Properties\<close>

text \<open>\<open>add_crc\<close> completes a frame: it leaves the payload alone, and the CRC of payload and
  trailer together is zero, whatever lies behind them in the buffer.\<close>

theorem add_crc_check:
  assumes "unat len + 1 < length buf" and "unat len + 2 < 2 ^ 16"
  shows "crc16 (add_crc buf len) (len + 2) = 0 \<and>
    take (unat len) (add_crc buf len) = take (unat len) buf"
  using assms by (rule add_crc_good)

theorem add_crc_check_witness:
  "crc16 (add_crc [1, 6, 0, 32, 0, 0] 4) (4 + 2) = 0 \<and>
   take (unat (4 :: u16)) (add_crc [1, 6, 0, 32, 0, 0] 4) = take (unat (4 :: u16)) [1, 6, 0, 32, 0, 0]"
  by (rule add_crc_check) simp_all

text \<open>A frame whose CRC over all its bytes is zero no longer checks after any one of its bytes,
  payload or trailer, has been changed to any other value.\<close>

theorem crc16_single_byte_error:
  assumes "length f < 2 ^ 16" and "crc16 f (of_nat (length f)) = 0"
    and "i < length f" and "v \<noteq> f ! i"
  shows "crc16 (f[i := v]) (of_nat (length f)) \<noteq> 0"
proof -
  have l: "unat (of_nat (length f) :: u16) = length f"
    using assms(1) by (simp add: unat_of_nat_small)
  have f: "f = take i f @ f ! i # drop (Suc i) f" and f': "f[i := v] = take i f @ v # drop (Suc i) f"
    using assms(3) by (simp_all add: id_take_nth_drop upd_conv_take_nth_drop)
  have "foldl crc16_byte 0xFFFF (take i f @ f ! i # drop (Suc i) f) = 0"
    using assms(2) unfolding crc16_def l by (simp flip: f)
  then have "foldl crc16_byte 0xFFFF (take i f @ v # drop (Suc i) f) \<noteq> 0"
    using assms(4) by (intro modbus.single_byte_detected) auto
  then show ?thesis unfolding crc16_def l by (simp flip: f')
qed

theorem crc16_single_byte_error_witness:
  "crc16 ([1, 6, 128, 34][1 := 7]) (of_nat (length [1 :: u8, 6, 128, 34])) \<noteq> 0"
proof (rule crc16_single_byte_error)
  show "crc16 [1, 6, 128, 34] (of_nat (length [1 :: u8, 6, 128, 34])) = 0"
    by (simp add: crc16_def crc16_byte_def funpow8 crc16_bit_def)
qed simp_all

text \<open>C35.
  \<open>crc32\<close> of \<open>crc32.c\<close>, run with zlib's polynomial, is the complemented \<open>UPDC32\<close> register of
  \<open>zmodem.c\<close>: one bitwise and branch-free, the other table-driven.
\<close>

theorem crc32_is_UPDC32:
  "crc32 data len prev 0xEDB88320 =
     NOT (foldl (\<lambda>c b. UPDC32 b c) (NOT prev) (take (unat len) data))"
proof -
  have "(0xFFFFFFFF :: u32) = - 1" by simp
  then have "NOT x = x XOR 0xFFFFFFFF" for x :: u32 by (simp only:) simp
  then show ?thesis by (simp add: crc32_def UPDC32_eq)
qed


text \<open>The routine kept "for reference" in \<open>sdmmc.c\<close> regenerates exactly the constant table
  the data path uses, and the ZMODEM table is the same one.\<close>

theorem sdmmc_table_regenerated:
  "sdmmc_crc16_init_table = sdmmc_crc16_table \<and> sdmmc_crc16_table = crctab"
  by (simp only: sdmmc_crc16_table_eq ccitt_init_table)

text \<open>A received SD data block with its two trailing bytes has running CRC zero exactly when
  those bytes are the block's CRC, high byte first.\<close>

theorem sdmmc_block_accept:
  "sdmmc_crc16 (block @ [hi, lo]) (length block + 2) = 0 \<longleftrightarrow>
     hi = ucast (drop_bit 8 (sdmmc_crc16 block (length block)) AND 0xFF) \<and>
     lo = ucast (sdmmc_crc16 block (length block) AND 0xFF)"
  using sdmmc.accept_iff [of "[hi, lo]" 0 block]
  by (simp add: sdmmc_crc16_def sdmmc_crc16_tail_def)

end
