(* ===== verification/Sdmmc.thy ===== *)
theory Sdmmc
  imports Crc FatFile "HOL-Library.Monad_Syntax"
begin

text \<open>
  The SD/MMC driver (sdmmc.c, sdmmc.h, the SPI helpers of spi.c and spi.h it uses) and the disk
  functions the FAT library is given (\<open>disk_read\<close>, \<open>disk_write\<close> of cli_fat.c).

  \<^item> The SPI controller is hardware: what reading and writing its registers does to a bus state of
    any type is the parameter \<open>B\<close>. Each function is translated register access by register access.
  \<^item> The loops that wait for the receive FIFO without a limit take fuel; \<^term>\<open>None\<close> is a call that
    hangs.
  \<^item> \<open>sdmmc_cards\<close> is its object representation, two structures of 44 bytes: the driver writes across
    the borders of its fields.
\<close>

section \<open>The SPI controller\<close>

record 's spi_bus =
  set_data :: "u32 \<Rightarrow> u32 \<Rightarrow> 's \<Rightarrow> 's"
  get_data :: "u32 \<Rightarrow> 's \<Rightarrow> u32 \<times> 's"
  spi_status :: "u32 \<Rightarrow> 's \<Rightarrow> u32 \<times> 's"
  rx_occupancy :: "u32 \<Rightarrow> 's \<Rightarrow> u32 \<times> 's"
  set_config :: "u32 \<Rightarrow> u32 list \<Rightarrow> 's \<Rightarrow> 's"
  wait_us :: "u32 \<Rightarrow> 's \<Rightarrow> 's"

abbreviation (input) SPI0 :: u32 where "SPI0 \<equiv> 0xF00C1000"
abbreviation (input) SPI1 :: u32 where "SPI1 \<equiv> 0xF00C3000"
abbreviation (input) SPI_DATA_RX_VALID :: u32 where "SPI_DATA_RX_VALID \<equiv> 0x80000000"
abbreviation (input) SPI_STATUS_TX_AVAIL :: u32 where "SPI_STATUS_TX_AVAIL \<equiv> 0xFFFF0000"
abbreviation (input) SPI_CMD_SEND :: u32 where "SPI_CMD_SEND \<equiv> 0"
abbreviation (input) SPI_CMD_SEND_RECEIVE :: u32 where "SPI_CMD_SEND_RECEIVE \<equiv> 0x01000000"
abbreviation (input) SPI_CMD_ENABLE_SS :: u32 where "SPI_CMD_ENABLE_SS \<equiv> 0x11000000"
abbreviation (input) SPI_CMD_DISABLE_SS :: u32 where "SPI_CMD_DISABLE_SS \<equiv> 0x10000000"
abbreviation (input) SPI_CONFIG_CPOL :: u32 where "SPI_CONFIG_CPOL \<equiv> 1"
abbreviation (input) SPI_CONFIG_CPHA :: u32 where "SPI_CONFIG_CPHA \<equiv> 2"

text \<open>\<open>spi_applyConfig\<close> writes the five fields of a \<open>SPI_Config\<close>.\<close>

definition spi_applyConfig :: "'s spi_bus \<Rightarrow> u32 \<Rightarrow> u32 list \<Rightarrow> 's \<Rightarrow> 's" where
  "spi_applyConfig B reg config s = set_config B reg config s"

definition spi_get_tx_avail :: "'s spi_bus \<Rightarrow> u32 \<Rightarrow> 's \<Rightarrow> u32 \<times> 's" where
  "spi_get_tx_avail B reg s = (let (st, s) = spi_status B reg s in
     (drop_bit 16 (st AND SPI_STATUS_TX_AVAIL), s))"

primrec spi_wait_tx_avail :: "'s spi_bus \<Rightarrow> u32 \<Rightarrow> u32 \<Rightarrow> nat \<Rightarrow> 's \<Rightarrow> u32 \<times> 's" where
  "spi_wait_tx_avail B reg min_avail 0 s = (0, s)"
| "spi_wait_tx_avail B reg min_avail (Suc n) s =
    (let (avail, s) = spi_get_tx_avail B reg s in
     if min_avail \<le> avail then (avail, s) else spi_wait_tx_avail B reg min_avail n s)"

primrec spi_clear_rx_fifo :: "nat \<Rightarrow> 's spi_bus \<Rightarrow> u32 \<Rightarrow> 's \<Rightarrow> 's option" where
  "spi_clear_rx_fifo 0 B reg s = None"
| "spi_clear_rx_fifo (Suc fuel) B reg s =
    (let (n, s) = rx_occupancy B reg s in
     if n \<noteq> 0 then spi_clear_rx_fifo fuel B reg (snd (get_data B reg s)) else Some s)"

section \<open>Constants and tables\<close>

abbreviation (input) SDMMC_DEVICES :: int where "SDMMC_DEVICES \<equiv> 2"
abbreviation (input) SDMMC_TIMEOUT :: nat where "SDMMC_TIMEOUT \<equiv> 0x7ffff"
abbreviation (input) SDMMC_RETRIES :: nat where "SDMMC_RETRIES \<equiv> 3"
abbreviation (input) SDMMC_BLOCK_SIZE :: u32 where "SDMMC_BLOCK_SIZE \<equiv> 512"

definition SDMMC_ERROR_OK :: int where "SDMMC_ERROR_OK = 0"
definition SDMMC_ERROR_PARAMS :: int where "SDMMC_ERROR_PARAMS = -1"
definition SDMMC_ERROR_TIMEOUT :: int where "SDMMC_ERROR_TIMEOUT = -2"
definition SDMMC_ERROR_NO_RESP :: int where "SDMMC_ERROR_NO_RESP = -3"
definition SDMMC_ERROR_INIT_FAIL :: int where "SDMMC_ERROR_INIT_FAIL = -5"
definition SDMMC_ERROR_NOT_READY :: int where "SDMMC_ERROR_NOT_READY = -6"
definition SDMMC_ERROR_CRC :: int where "SDMMC_ERROR_CRC = -7"
definition SDMMC_ERROR_READ :: int where "SDMMC_ERROR_READ = -8"
definition SDMMC_ERROR_WRITE :: int where "SDMMC_ERROR_WRITE = -9"
definition SDMMC_ERROR_BOUNDS :: int where "SDMMC_ERROR_BOUNDS = -10"

lemmas sd_errors = SDMMC_ERROR_OK_def SDMMC_ERROR_PARAMS_def SDMMC_ERROR_TIMEOUT_def SDMMC_ERROR_NO_RESP_def
  SDMMC_ERROR_INIT_FAIL_def SDMMC_ERROR_NOT_READY_def SDMMC_ERROR_CRC_def SDMMC_ERROR_READ_def
  SDMMC_ERROR_WRITE_def SDMMC_ERROR_BOUNDS_def

abbreviation (input) SDMMC_TOKEN_DATA1 :: u8 where "SDMMC_TOKEN_DATA1 \<equiv> 0xfe"
abbreviation (input) SDMMC_TOKEN_STOP :: u8 where "SDMMC_TOKEN_STOP \<equiv> 0xfd"
abbreviation (input) SDMMC_TYPE_NONE :: u32 where "SDMMC_TYPE_NONE \<equiv> 0"
abbreviation (input) SDMMC_TYPE_SDC_V1 :: u32 where "SDMMC_TYPE_SDC_V1 \<equiv> 1"
abbreviation (input) SDMMC_TYPE_SDC_V2 :: u32 where "SDMMC_TYPE_SDC_V2 \<equiv> 2"
abbreviation (input) SDMMC_TYPE_SDC_V2HC :: u32 where "SDMMC_TYPE_SDC_V2HC \<equiv> 3"
abbreviation (input) SDMMC_TYPE_MMC_V3 :: u32 where "SDMMC_TYPE_MMC_V3 \<equiv> 4"

text \<open>\<open>sdmmc_devices\<close>: register block and slave select of each interface.\<close>

definition sdmmc_devices :: "(u32 \<times> u32) list" where
  "sdmmc_devices = [(SPI0, 0), (SPI1, 0)]"

text \<open>\<open>struct sdmmc_card_info\<close>: the fields and their offsets in the array.\<close>

definition card_type :: "u8 list \<Rightarrow> nat \<Rightarrow> u32" where "card_type cards i = ld32 cards (44 * i)"
definition card_blocks :: "u8 list \<Rightarrow> nat \<Rightarrow> u32" where "card_blocks cards i = ld32 cards (44 * i + 8)"
definition cid_pos :: "nat \<Rightarrow> nat" where "cid_pos i = 44 * i + 12"
definition csd_pos :: "nat \<Rightarrow> nat" where "csd_pos i = 44 * i + 28"

section \<open>The capacity of a card\<close>

text \<open>\<open>csize\<close> is a \<open>uint16_t\<close>; the shift is done on an \<open>int\<close> in the first branch and on a
  \<open>uint32_t\<close> in the second, by \<open>n - 9\<close>.\<close>

definition sdmmc_get_num_blocks :: "u8 list \<Rightarrow> u32" where
  "sdmmc_get_num_blocks csd =
    (if csd ! 0 AND 0xc0 = 0x40 then
      (let csize = push_bit 8 (ucast (csd ! 8) :: u16) + ucast (csd ! 9) + 1 in push_bit 10 (ucast csize))
     else
      (let n = (csd ! 5 AND 0x0f) + drop_bit 7 (csd ! 10 AND 0x80) + push_bit 1 (csd ! 9 AND 0x03) + 2;
           csize = (ucast (drop_bit 6 (csd ! 8)) :: u16) + push_bit 2 (ucast (csd ! 7)) + push_bit 10 (ucast (csd ! 6 AND 0x03)) + 1 in
       push_bit (unat (n - 9)) (ucast csize)))"

section \<open>Bytes\<close>

primrec ready_loop :: "'s spi_bus \<Rightarrow> u32 \<Rightarrow> nat \<Rightarrow> 's \<Rightarrow> int \<times> 's" where
  "ready_loop B reg 0 s = (SDMMC_ERROR_TIMEOUT, s)"
| "ready_loop B reg (Suc n) s =
    (let (rx, s) = get_data B reg s in
     if rx AND SPI_DATA_RX_VALID \<noteq> 0 then
       if rx AND 0xff = 0xff then (SDMMC_ERROR_OK, s)
       else ready_loop B reg n (set_data B reg (SPI_CMD_SEND_RECEIVE OR 0xff) s)
     else ready_loop B reg n s)"

definition sdmmc_wait_ready :: "'s spi_bus \<Rightarrow> u32 \<Rightarrow> 's \<Rightarrow> int \<times> 's" where
  "sdmmc_wait_ready B reg s = ready_loop B reg SDMMC_TIMEOUT (set_data B reg (SPI_CMD_SEND_RECEIVE OR 0xff) s)"

primrec rw_loop :: "'s spi_bus \<Rightarrow> u32 \<Rightarrow> nat \<Rightarrow> 's \<Rightarrow> int \<times> 's" where
  "rw_loop B reg 0 s = (SDMMC_ERROR_TIMEOUT, s)"
| "rw_loop B reg (Suc n) s =
    (let (rx, s) = get_data B reg s in
     if rx AND SPI_DATA_RX_VALID \<noteq> 0 then (uint (rx AND 0xff), s) else rw_loop B reg n s)"

definition sdmmc_readwrite_byte :: "'s spi_bus \<Rightarrow> u32 \<Rightarrow> u8 \<Rightarrow> 's \<Rightarrow> int \<times> 's" where
  "sdmmc_readwrite_byte B reg tx_byte s =
    rw_loop B reg SDMMC_TIMEOUT (set_data B reg (SPI_CMD_SEND_RECEIVE OR ucast tx_byte) s)"

definition sdmmc_select :: "'s spi_bus \<Rightarrow> u32 \<Rightarrow> u32 \<Rightarrow> 's \<Rightarrow> 's" where
  "sdmmc_select B reg ss s = set_data B reg (SPI_CMD_ENABLE_SS OR ss) s"

definition sdmmc_deselect :: "'s spi_bus \<Rightarrow> u32 \<Rightarrow> u32 \<Rightarrow> 's \<Rightarrow> 's" where
  "sdmmc_deselect B reg ss s =
    snd (sdmmc_readwrite_byte B reg 0xff (set_data B reg (SPI_CMD_DISABLE_SS OR ss) s))"

text \<open>\<open>while(((rx = reg->data) & SPI_DATA_RX_VALID) == 0);\<close>\<close>

primrec recv :: "nat \<Rightarrow> 's spi_bus \<Rightarrow> u32 \<Rightarrow> 's \<Rightarrow> (u32 \<times> 's) option" where
  "recv 0 B reg s = None"
| "recv (Suc fuel) B reg s =
    (let (rx, s) = get_data B reg s in
     if rx AND SPI_DATA_RX_VALID = 0 then recv fuel B reg s else Some (rx, s))"

primrec r1_loop :: "nat \<Rightarrow> 's spi_bus \<Rightarrow> u32 \<Rightarrow> nat \<Rightarrow> 's \<Rightarrow> (int \<times> 's) option" where
  "r1_loop fuel B reg 0 s = Some (SDMMC_ERROR_NO_RESP, s)"
| "r1_loop fuel B reg (Suc n) s = do {
     (rx, s) \<leftarrow> recv fuel B reg (set_data B reg (SPI_CMD_SEND_RECEIVE OR 0xff) s);
     if rx AND 0x80 = 0 then Some (uint (rx AND 0xff), s) else r1_loop fuel B reg n s
   }"

definition sdmmc_get_r1_response :: "nat \<Rightarrow> 's spi_bus \<Rightarrow> u32 \<Rightarrow> 's \<Rightarrow> (int \<times> 's) option" where
  "sdmmc_get_r1_response fuel B reg s = r1_loop fuel B reg SDMMC_TIMEOUT s"

primrec token_loop :: "nat \<Rightarrow> 's spi_bus \<Rightarrow> u32 \<Rightarrow> u8 \<Rightarrow> nat \<Rightarrow> 's \<Rightarrow> (bool \<times> 's) option" where
  "token_loop fuel B reg r1 0 s = Some (False, s)"
| "token_loop fuel B reg r1 (Suc n) s = do {
     (rx, s) \<leftarrow> recv fuel B reg (set_data B reg (SPI_CMD_SEND_RECEIVE OR 0xff) s);
     if rx AND 0xff = ucast r1 then Some (True, s) else token_loop fuel B reg r1 n s
   }"

primrec sdmmc_wait_r1_response :: "nat \<Rightarrow> 's spi_bus \<Rightarrow> u32 \<Rightarrow> u8 \<Rightarrow> nat \<Rightarrow> 's \<Rightarrow> (int \<times> 's) option" where
  "sdmmc_wait_r1_response fuel B reg r1 0 s = Some (SDMMC_ERROR_NO_RESP, s)"
| "sdmmc_wait_r1_response fuel B reg r1 (Suc retry) s = do {
     (ok, s) \<leftarrow> token_loop fuel B reg r1 SDMMC_TIMEOUT s;
     if ok then Some (SDMMC_ERROR_OK, s) else sdmmc_wait_r1_response fuel B reg r1 retry s
   }"

section \<open>Blocks\<close>

text \<open>The receive loop: \<open>buf\<close> is the object written and \<open>b\<close> the index of the pointer in it.\<close>

primrec rx_loop :: "nat \<Rightarrow> 's spi_bus \<Rightarrow> u32 \<Rightarrow> nat \<Rightarrow> u8 list \<Rightarrow> nat \<Rightarrow> u16 \<Rightarrow> 's \<Rightarrow> (u16 \<times> u8 list \<times> 's) option" where
  "rx_loop fuel B reg 0 buf b crc16_my s = Some (crc16_my, buf, s)"
| "rx_loop fuel B reg (Suc count) buf b crc16_my s = do {
     (rx, s) \<leftarrow> recv fuel B reg s;
     rx_loop fuel B reg count (buf[b := ucast rx]) (b + 1) (sdmmc_crc16_byte crc16_my (ucast rx))
       (set_data B reg (SPI_CMD_SEND_RECEIVE OR 0xff) s)
   }"

definition sdmmc_rx_buf :: "nat \<Rightarrow> 's spi_bus \<Rightarrow> u32 \<Rightarrow> u8 list \<Rightarrow> nat \<Rightarrow> u16 \<Rightarrow> 's \<Rightarrow> (int \<times> u8 list \<times> 's) option" where
  "sdmmc_rx_buf fuel B reg buf b len s = do {
     (ret, s) \<leftarrow> sdmmc_wait_r1_response fuel B reg SDMMC_TOKEN_DATA1 1000 s;
     if ret < 0 then Some (ret, buf, s)
     else do {
       (crc16_my, buf, s) \<leftarrow> rx_loop fuel B reg (unat len + 2) buf b 0
         (set_data B reg (SPI_CMD_SEND_RECEIVE OR 0xff) s);
       let (tmp, s) = get_data B reg s in
       if crc16_my \<noteq> 0 then Some (SDMMC_ERROR_CRC, buf, s) else Some (SDMMC_ERROR_OK, buf, s)
     }
   }"

primrec tx_loop :: "'s spi_bus \<Rightarrow> u32 \<Rightarrow> u8 list \<Rightarrow> 's \<Rightarrow> bool \<times> 's" where
  "tx_loop B reg [] s = (True, s)"
| "tx_loop B reg (tx # b) s =
    (let (avail, s) = spi_wait_tx_avail B reg 1 1000 s in
     if avail = 0 then (False, s)
     else tx_loop B reg b (set_data B reg (SPI_CMD_SEND OR ucast tx) s))"

primrec resp_loop :: "'s spi_bus \<Rightarrow> u32 \<Rightarrow> nat \<Rightarrow> 's \<Rightarrow> int \<times> 's" where
  "resp_loop B reg 0 s = (SDMMC_ERROR_TIMEOUT, s)"
| "resp_loop B reg (Suc n) s =
    (let (ret, s) = sdmmc_readwrite_byte B reg 0xff s in
     if ret < 0 then (ret, s)
     else if ret mod 32 = 5 then (SDMMC_ERROR_OK, s)
     else resp_loop B reg n s)"

text \<open>The CRC variable stays zero: its update is commented out.\<close>

definition sdmmc_tx_buf :: "'s spi_bus \<Rightarrow> u32 \<Rightarrow> u8 list \<Rightarrow> u16 \<Rightarrow> u8 \<Rightarrow> 's \<Rightarrow> int \<times> 's" where
  "sdmmc_tx_buf B reg buf len cmd s =
    (let (ret, s) = sdmmc_wait_ready B reg s in
     if ret < 0 then (ret, s)
     else (let crc16_my = (0 :: u16); (_, s) = sdmmc_readwrite_byte B reg cmd s;
               (ok, s) = tx_loop B reg (take (unat len) buf) s in
       if \<not> ok then (SDMMC_ERROR_WRITE, s)
       else (let (avail, s) = spi_wait_tx_avail B reg 2 1000 s in
         if avail = 0 then (SDMMC_ERROR_WRITE, s)
         else (let s = set_data B reg (SPI_CMD_SEND OR ucast (drop_bit 8 crc16_my)) s;
                   s = set_data B reg (SPI_CMD_SEND OR ucast (crc16_my AND 0xff)) s in
           resp_loop B reg (SDMMC_TIMEOUT * 64) s))))"

section \<open>Commands\<close>

definition sdmmc_send_cmd :: "nat \<Rightarrow> 's spi_bus \<Rightarrow> u32 \<Rightarrow> u8 \<Rightarrow> u32 \<Rightarrow> u8 \<Rightarrow> u32 \<Rightarrow> 's \<Rightarrow> (int \<times> 's) option" where
  "sdmmc_send_cmd fuel B reg cmd arg crc resp_delay_us s =
    (let s = snd (sdmmc_readwrite_byte B reg (cmd OR 0x40) s);
         s = snd (sdmmc_readwrite_byte B reg (ucast (drop_bit 24 arg)) s);
         s = snd (sdmmc_readwrite_byte B reg (ucast (drop_bit 16 arg)) s);
         s = snd (sdmmc_readwrite_byte B reg (ucast (drop_bit 8 arg)) s);
         s = snd (sdmmc_readwrite_byte B reg (ucast arg) s);
         s = snd (sdmmc_readwrite_byte B reg crc s);
         s = (if resp_delay_us \<noteq> 0 then wait_us B resp_delay_us s else s) in
     sdmmc_get_r1_response fuel B reg s)"

definition sdmmc_send_cmd_sel :: "nat \<Rightarrow> 's spi_bus \<Rightarrow> u32 \<Rightarrow> u32 \<Rightarrow> u8 \<Rightarrow> u32 \<Rightarrow> u8 \<Rightarrow> u32 \<Rightarrow> 's \<Rightarrow> (int \<times> 's) option" where
  "sdmmc_send_cmd_sel fuel B reg ss cmd arg crc resp_delay_us s = do {
     (ret, s) \<leftarrow> sdmmc_send_cmd fuel B reg cmd arg crc resp_delay_us (sdmmc_select B reg ss s);
     Some (ret, sdmmc_deselect B reg ss s)
   }"

text \<open>The 16 bytes of CID or CSD are read to \<open>cards\<close> at \<open>pos\<close>; the two CRC bytes behind them as well.\<close>

definition sdmmc_get_info :: "nat \<Rightarrow> 's spi_bus \<Rightarrow> u32 \<Rightarrow> u32 \<Rightarrow> u8 \<Rightarrow> u8 list \<Rightarrow> nat \<Rightarrow> 's \<Rightarrow> (int \<times> u8 list \<times> 's) option" where
  "sdmmc_get_info fuel B reg ss cmd cards pos s = do {
     (ret, s) \<leftarrow> sdmmc_send_cmd fuel B reg cmd 0 0x01 0 (sdmmc_select B reg ss s);
     if ret < 0 then Some (ret, cards, sdmmc_deselect B reg ss s)
     else do {
       (ret, cards, s) \<leftarrow> sdmmc_rx_buf fuel B reg cards pos 16 s;
       Some (ret, cards, sdmmc_deselect B reg ss s)
     }
   }"

section \<open>Initialisation\<close>

text \<open>The retry loops of \<open>sdmmc_init\<close>. They return the last \<open>ret\<close>; a negative one is followed by
  \<open>goto end\<close>.\<close>

primrec cmd0_loop :: "nat \<Rightarrow> 's spi_bus \<Rightarrow> u32 \<Rightarrow> u32 \<Rightarrow> nat \<Rightarrow> int \<Rightarrow> 's \<Rightarrow> (int \<times> 's) option" where
  "cmd0_loop fuel B reg ss 0 ret s = Some (ret, s)"
| "cmd0_loop fuel B reg ss (Suc n) ret s = do {
     (ret, s) \<leftarrow> sdmmc_send_cmd_sel fuel B reg ss 0 0 0x95 100000 s;
     if ret < 0 \<or> ret = 1 then Some (ret, s) else cmd0_loop fuel B reg ss n ret s
   }"

primrec cmd8_loop :: "nat \<Rightarrow> 's spi_bus \<Rightarrow> u32 \<Rightarrow> u32 \<Rightarrow> nat \<Rightarrow> int \<Rightarrow> 's \<Rightarrow> (int \<times> 's) option" where
  "cmd8_loop fuel B reg ss 0 ret s = Some (ret, s)"
| "cmd8_loop fuel B reg ss (Suc n) ret s = do {
     (ret, s) \<leftarrow> sdmmc_send_cmd fuel B reg 8 0x01aa 0x87 0 (sdmmc_select B reg ss s);
     if ret < 0x7f then Some (ret, s)
     else cmd8_loop fuel B reg ss n ret (wait_us B 100000 (sdmmc_deselect B reg ss s))
   }"

text \<open>CMD55 and CMD41 until the card answers 0; the delay of CMD55 differs.\<close>

primrec acmd41_loop :: "nat \<Rightarrow> 's spi_bus \<Rightarrow> u32 \<Rightarrow> u32 \<Rightarrow> u32 \<Rightarrow> u32 \<Rightarrow> nat \<Rightarrow> int \<Rightarrow> 's \<Rightarrow> (int \<times> 's) option" where
  "acmd41_loop fuel B reg ss arg delay 0 ret s = Some (ret, s)"
| "acmd41_loop fuel B reg ss arg delay (Suc n) ret s = do {
     (ret, s) \<leftarrow> sdmmc_send_cmd_sel fuel B reg ss 55 0 0x01 delay s;
     if ret < 0 then Some (ret, s)
     else do {
       (ret, s) \<leftarrow> sdmmc_send_cmd_sel fuel B reg ss 41 arg 0x01 0 s;
       if ret \<le> 0 then Some (ret, s) else acmd41_loop fuel B reg ss arg delay n ret s
     }
   }"

primrec cmd1_loop :: "nat \<Rightarrow> 's spi_bus \<Rightarrow> u32 \<Rightarrow> u32 \<Rightarrow> nat \<Rightarrow> int \<Rightarrow> 's \<Rightarrow> (int \<times> 's) option" where
  "cmd1_loop fuel B reg ss 0 ret s = Some (ret, s)"
| "cmd1_loop fuel B reg ss (Suc n) ret s = do {
     (ret, s) \<leftarrow> sdmmc_send_cmd_sel fuel B reg ss 1 0 0x01 0 s;
     if ret \<le> 0 then Some (ret, s) else cmd1_loop fuel B reg ss n ret s
   }"

text \<open>Four bytes read one after the other and put together as an \<open>int\<close>.\<close>

definition read_ocr :: "'s spi_bus \<Rightarrow> u32 \<Rightarrow> 's \<Rightarrow> u32 \<times> 's" where
  "read_ocr B reg s =
    (let (b3, s) = sdmmc_readwrite_byte B reg 0xff s; (b2, s) = sdmmc_readwrite_byte B reg 0xff s;
         (b1, s) = sdmmc_readwrite_byte B reg 0xff s; (b0, s) = sdmmc_readwrite_byte B reg 0xff s in
     (push_bit 24 (of_int b3) OR push_bit 16 (of_int b2) OR push_bit 8 (of_int b1) OR of_int b0, s))"

text \<open>The branch of an SDC V2 card. The flag tells whether \<open>goto end\<close> was taken.\<close>

definition init_v2 :: "nat \<Rightarrow> 's spi_bus \<Rightarrow> u32 \<Rightarrow> u32 \<Rightarrow> nat \<Rightarrow> u8 list \<Rightarrow> 's \<Rightarrow> (bool \<times> int \<times> u8 list \<times> 's) option" where
  "init_v2 fuel B reg ss i cards s =
    (let (r7, s) = read_ocr B reg s; s = sdmmc_deselect B reg ss s in do {
       (ret, s) \<leftarrow> acmd41_loop fuel B reg ss 0x40000000 100000 (SDMMC_RETRIES * 10) 0 s;
       if ret \<noteq> 0 then Some (True, ret, cards, s)
       else do {
         (ret, s) \<leftarrow> sdmmc_send_cmd fuel B reg 58 0 0x01 0 (sdmmc_select B reg ss s);
         if ret \<noteq> 0 then Some (True, ret, cards, s)
         else (let (ocr, s) = read_ocr B reg s;
                   cards = st32 cards (44 * i) (if ocr AND 0x40000000 \<noteq> 0 then SDMMC_TYPE_SDC_V2HC else SDMMC_TYPE_SDC_V2);
                   cards = st32 cards (44 * i + 4) ocr in
           Some (False, sint ocr, cards, sdmmc_deselect B reg ss s))
       }
     })"

definition init_v1 :: "nat \<Rightarrow> 's spi_bus \<Rightarrow> u32 \<Rightarrow> u32 \<Rightarrow> nat \<Rightarrow> u8 list \<Rightarrow> 's \<Rightarrow> (bool \<times> int \<times> u8 list \<times> 's) option" where
  "init_v1 fuel B reg ss i cards s = do {
     (ret, s) \<leftarrow> sdmmc_send_cmd_sel fuel B reg ss 55 0 0x01 0 (sdmmc_deselect B reg ss s);
     if ret < 0 then Some (True, ret, cards, s)
     else do {
       (ret, s) \<leftarrow> sdmmc_send_cmd_sel fuel B reg ss 41 0 0x01 0 s;
       if ret < 0 then Some (True, ret, cards, s)
       else do {
         (t, ret, s) \<leftarrow> (if ret = 0
           then map_option (Pair SDMMC_TYPE_SDC_V1) (acmd41_loop fuel B reg ss 0 0 SDMMC_RETRIES ret s)
           else map_option (Pair SDMMC_TYPE_MMC_V3) (cmd1_loop fuel B reg ss SDMMC_RETRIES ret s));
         if ret < 0 then Some (True, ret, cards, s)
         else Some (False, ret, if ret = 0 then st32 cards (44 * i) t else cards, s)
       }
     }
   }"

definition spi_config :: "u32 \<Rightarrow> u32 list" where
  "spi_config divider = [SPI_CONFIG_CPHA OR SPI_CONFIG_CPOL, divider, 16, 16, 16]"

abbreviation (input) SDMMC_SPI_BITRATE_INIT :: u32 where "SDMMC_SPI_BITRATE_INIT \<equiv> 400000"
abbreviation (input) SDMMC_SPI_BITRATE_NORMAL :: u32 where "SDMMC_SPI_BITRATE_NORMAL \<equiv> 20000000"

abbreviation (input) SYSTEM_CLOCK_HZ :: u32 where "SYSTEM_CLOCK_HZ \<equiv> 60000000"

text \<open>The body up to the label \<open>end\<close>.\<close>

definition init_body :: "nat \<Rightarrow> 's spi_bus \<Rightarrow> u32 \<Rightarrow> u32 \<Rightarrow> nat \<Rightarrow> u8 list \<Rightarrow> 's \<Rightarrow> (int \<times> u8 list \<times> 's) option" where
  "init_body fuel B reg ss i cards s = do {
     let cards = blit cards (44 * i) (replicate 44 0);
     s \<leftarrow> spi_clear_rx_fifo fuel B reg (spi_applyConfig B reg (spi_config (SYSTEM_CLOCK_HZ div (2 * SDMMC_SPI_BITRATE_INIT))) s);
     let s = sdmmc_deselect B reg ss s;
     let s = ((\<lambda>s. snd (sdmmc_readwrite_byte B reg 0xff s)) ^^ 10) s;
     (ret, s) \<leftarrow> cmd0_loop fuel B reg ss SDMMC_RETRIES 0 s;
     if ret < 0 then Some (ret, cards, s)
     else if ret \<noteq> 1 then Some (SDMMC_ERROR_INIT_FAIL, cards, s)
     else do {
       (ret, s) \<leftarrow> cmd8_loop fuel B reg ss SDMMC_RETRIES ret s;
       if ret < 0 then Some (ret, cards, s)
       else do {
         (stop, ret, cards, s) \<leftarrow> (if ret = 1 then init_v2 fuel B reg ss i cards s else init_v1 fuel B reg ss i cards s);
         if stop then Some (ret, cards, s)
         else do {
           (_, s) \<leftarrow> sdmmc_send_cmd_sel fuel B reg ss 16 SDMMC_BLOCK_SIZE 0x01 0 s;
           (ret, cards, s) \<leftarrow> sdmmc_get_info fuel B reg ss 10 cards (cid_pos i) s;
           if ret < 0 then Some (ret, cards, s)
           else do {
             (ret, cards, s) \<leftarrow> sdmmc_get_info fuel B reg ss 9 cards (csd_pos i) s;
             if ret < 0 then Some (ret, cards, s)
             else (let cards = st32 cards (44 * i + 8) (sdmmc_get_num_blocks (drop (csd_pos i) cards)) in
               Some (ret, cards, spi_applyConfig B reg (spi_config (SYSTEM_CLOCK_HZ div (2 * SDMMC_SPI_BITRATE_NORMAL))) s))
           }
         }
       }
     }
   }"

definition sdmmc_init :: "nat \<Rightarrow> 's spi_bus \<Rightarrow> int \<Rightarrow> u8 list \<Rightarrow> 's \<Rightarrow> (int \<times> u8 list \<times> 's) option" where
  "sdmmc_init fuel B device cards s =
    (if SDMMC_DEVICES \<le> device then Some (SDMMC_ERROR_PARAMS, cards, s)
     else (let (reg, ss) = sdmmc_devices ! nat device in do {
       (ret, cards, s) \<leftarrow> init_body fuel B reg ss (nat device) cards s;
       Some (ret, cards, sdmmc_deselect B reg ss s)
     }))"

section \<open>Reading blocks\<close>

text \<open>How one attempt ends: with \<open>break\<close>, at the label \<open>again\<close> or at the label \<open>again2\<close>.\<close>

datatype attempt = Break | Again | Again2

definition read_single :: "nat \<Rightarrow> 's spi_bus \<Rightarrow> u32 \<Rightarrow> u32 \<Rightarrow> u8 list \<Rightarrow> nat \<Rightarrow> 's \<Rightarrow> (attempt \<times> int \<times> u8 list \<times> 's) option" where
  "read_single fuel B reg block_num buf b s = do {
     (ret, s) \<leftarrow> sdmmc_send_cmd fuel B reg 17 block_num 0x01 0 s;
     if ret < 0 then Some (Again2, ret, buf, s)
     else if ret \<noteq> 0 then Some (Again2, ret, buf, s)
     else do {
       (ret, buf, s) \<leftarrow> sdmmc_rx_buf fuel B reg buf b (ucast SDMMC_BLOCK_SIZE) s;
       Some (if ret \<noteq> 0 then Again2 else Break, ret, buf, s)
     }
   }"

primrec read_blocks :: "nat \<Rightarrow> 's spi_bus \<Rightarrow> u32 \<Rightarrow> nat \<Rightarrow> int \<Rightarrow> u8 list \<Rightarrow> nat \<Rightarrow> 's \<Rightarrow> (int \<times> u8 list \<times> 's) option" where
  "read_blocks fuel B reg 0 ret buf b s = Some (ret, buf, s)"
| "read_blocks fuel B reg (Suc c) ret buf b s = do {
     (ret, buf, s) \<leftarrow> sdmmc_rx_buf fuel B reg buf b (ucast SDMMC_BLOCK_SIZE) s;
     if ret \<noteq> 0 then Some (ret, buf, s) else read_blocks fuel B reg c ret buf (b + 512) s
   }"

definition read_many :: "nat \<Rightarrow> 's spi_bus \<Rightarrow> u32 \<Rightarrow> u32 \<Rightarrow> nat \<Rightarrow> u8 list \<Rightarrow> nat \<Rightarrow> 's \<Rightarrow> (attempt \<times> int \<times> u8 list \<times> 's) option" where
  "read_many fuel B reg block_num c buf b s = do {
     (ret, s) \<leftarrow> sdmmc_send_cmd fuel B reg 18 block_num 0x01 0 s;
     if ret \<noteq> 0 then Some (Again, ret, buf, s)
     else do {
       (ret, buf, s) \<leftarrow> read_blocks fuel B reg c ret buf b s;
       if ret \<noteq> 0 then Some (Again, ret, buf, s)
       else do {
         (ret, s) \<leftarrow> sdmmc_send_cmd fuel B reg 12 0 0x01 0 s;
         if ret < 0 then Some (Again, ret, buf, s)
         else (let (ret, s) = sdmmc_wait_ready B reg s in Some (Break, ret, buf, s))
       }
     }
   }"

text \<open>The loop over the attempts; \<open>count\<close> is compared as an \<open>int\<close>.\<close>

primrec read_retry :: "nat \<Rightarrow> 's spi_bus \<Rightarrow> u32 \<Rightarrow> u32 \<Rightarrow> u32 \<Rightarrow> u32 \<Rightarrow> nat \<Rightarrow> u8 list \<Rightarrow> nat \<Rightarrow> 's \<Rightarrow> (int \<times> u8 list \<times> 's) option" where
  "read_retry fuel B reg ss block_num count 0 buf b s = Some (SDMMC_ERROR_READ, buf, s)"
| "read_retry fuel B reg ss block_num count (Suc n) buf b s = do {
     let s = sdmmc_select B reg ss s;
     (how, ret, buf, s) \<leftarrow> (if sint count < 2 then read_single fuel B reg block_num buf b s
       else read_many fuel B reg block_num (unat count) buf b s);
     let retry = (\<lambda>s. read_retry fuel B reg ss block_num count n buf b
       (sdmmc_deselect B reg ss (snd (sdmmc_wait_ready B reg s))));
     (case how of
        Break \<Rightarrow> Some (ret, buf, sdmmc_deselect B reg ss s)
      | Again2 \<Rightarrow> retry s
      | Again \<Rightarrow> do {
          (ret, s) \<leftarrow> sdmmc_send_cmd fuel B reg 12 0 0x01 0 s;
          if ret < 0 then Some (ret, buf, s) else retry s
        })
   }"

text \<open>\<open>device\<close> is not negative and \<open>buf\<close> not the null pointer.\<close>

definition sdmmc_read_block :: "nat \<Rightarrow> 's spi_bus \<Rightarrow> u8 list \<Rightarrow> int \<Rightarrow> u32 \<Rightarrow> u32 \<Rightarrow> u8 list \<Rightarrow> nat \<Rightarrow> 's \<Rightarrow> (int \<times> u8 list \<times> 's) option" where
  "sdmmc_read_block fuel B cards device block_num count buf b s =
    (if SDMMC_DEVICES \<le> device then Some (SDMMC_ERROR_PARAMS, buf, s)
     else if count < 1 then Some (SDMMC_ERROR_PARAMS, buf, s)
     else if card_type cards (nat device) = SDMMC_TYPE_NONE then Some (SDMMC_ERROR_NOT_READY, buf, s)
     else if card_blocks cards (nat device) < block_num + count then Some (SDMMC_ERROR_BOUNDS, buf, s)
     else (let (reg, ss) = sdmmc_devices ! nat device;
               block_num = (if card_type cards (nat device) \<noteq> SDMMC_TYPE_SDC_V2HC then block_num * SDMMC_BLOCK_SIZE
                 else block_num) in do {
       s \<leftarrow> spi_clear_rx_fifo fuel B reg s;
       read_retry fuel B reg ss block_num count SDMMC_RETRIES buf b s
     }))"

section \<open>Writing blocks\<close>

primrec write_blocks :: "'s spi_bus \<Rightarrow> u32 \<Rightarrow> nat \<Rightarrow> int \<Rightarrow> u8 list \<Rightarrow> 's \<Rightarrow> int \<times> 's" where
  "write_blocks B reg 0 ret b s = (ret, s)"
| "write_blocks B reg (Suc c) ret b s =
    (let (ret, s) = sdmmc_tx_buf B reg b (ucast SDMMC_BLOCK_SIZE) 0xfc s in
     if ret \<noteq> 0 then (ret, s)
     else write_blocks B reg c ret (drop 512 b) (snd (sdmmc_wait_ready B reg s)))"

definition stop_tran :: "'s spi_bus \<Rightarrow> u32 \<Rightarrow> 's \<Rightarrow> 's" where
  "stop_tran B reg s =
    snd (sdmmc_readwrite_byte B reg 0xff (snd (sdmmc_readwrite_byte B reg SDMMC_TOKEN_STOP s)))"

text \<open>One attempt; the flag tells success.\<close>

definition write_attempt :: "nat \<Rightarrow> 's spi_bus \<Rightarrow> u32 \<Rightarrow> u32 \<Rightarrow> u32 \<Rightarrow> u8 list \<Rightarrow> 's \<Rightarrow> (bool \<times> int \<times> 's) option" where
  "write_attempt fuel B reg block_num count b s =
    (if sint count < 2 then do {
       (ret, s) \<leftarrow> sdmmc_send_cmd fuel B reg 24 block_num 0x01 0 s;
       if ret \<noteq> 0 then Some (False, ret, s)
       else (let s = snd (sdmmc_readwrite_byte B reg 0xff s);
                 (ret, s) = sdmmc_tx_buf B reg b (ucast SDMMC_BLOCK_SIZE) SDMMC_TOKEN_DATA1 s in
         if ret \<noteq> 0 then Some (False, ret, s)
         else Some (True, ret, snd (sdmmc_wait_ready B reg s)))
     } else do {
       (ret, s) \<leftarrow> sdmmc_send_cmd fuel B reg 25 block_num 0x01 0 s;
       if ret \<noteq> 0 then Some (False, ret, s)
       else (let s = snd (sdmmc_readwrite_byte B reg 0xff s);
                 (ret, s) = write_blocks B reg (unat count) ret b s in
         if ret \<noteq> 0 then Some (False, ret, s) else Some (True, ret, stop_tran B reg s))
     })"

primrec write_retry :: "nat \<Rightarrow> 's spi_bus \<Rightarrow> u32 \<Rightarrow> u32 \<Rightarrow> u32 \<Rightarrow> u32 \<Rightarrow> nat \<Rightarrow> int \<Rightarrow> u8 list \<Rightarrow> 's \<Rightarrow> (int \<times> 's) option" where
  "write_retry fuel B reg ss block_num count 0 ret b s = Some (ret, s)"
| "write_retry fuel B reg ss block_num count (Suc n) ret b s = do {
     (ok, ret, s) \<leftarrow> write_attempt fuel B reg block_num count b (sdmmc_select B reg ss s);
     if ok then Some (ret, sdmmc_deselect B reg ss (snd (sdmmc_wait_ready B reg s)))
     else write_retry fuel B reg ss block_num count n ret b (sdmmc_deselect B reg ss (stop_tran B reg s))
   }"

text \<open>The loop declares a \<open>retry\<close> of its own: the one tested behind it is never set, its value is the
  parameter \<open>garbage\<close>. \<open>wp\<close> is \<open>sdmmc_write_protected_sectors\<close>, converted to \<open>uint32_t\<close> by the
  comparison; the order of the tests is that of the code.\<close>

definition sdmmc_write_block :: "nat \<Rightarrow> 's spi_bus \<Rightarrow> int \<Rightarrow> u32 \<Rightarrow> u8 list \<Rightarrow> int \<Rightarrow> u32 \<Rightarrow> u32 \<Rightarrow> u8 list \<Rightarrow> 's \<Rightarrow> (int \<times> 's) option" where
  "sdmmc_write_block fuel B garbage wp cards device block_num count buf s =
    (if block_num < wp then Some (-999, s)
     else if SDMMC_DEVICES \<le> device then Some (SDMMC_ERROR_PARAMS, s)
     else if count < 1 then Some (SDMMC_ERROR_PARAMS, s)
     else if card_blocks cards (nat device) < block_num + count then Some (SDMMC_ERROR_BOUNDS, s)
     else if card_type cards (nat device) = SDMMC_TYPE_NONE then Some (SDMMC_ERROR_NOT_READY, s)
     else (let (reg, ss) = sdmmc_devices ! nat device;
               block_num = (if card_type cards (nat device) \<noteq> SDMMC_TYPE_SDC_V2HC then block_num * SDMMC_BLOCK_SIZE
                 else block_num) in do {
       s \<leftarrow> spi_clear_rx_fifo fuel B reg s;
       (ret, s) \<leftarrow> write_retry fuel B reg ss block_num count SDMMC_RETRIES 0 buf s;
       Some (if garbage = int SDMMC_RETRIES then SDMMC_ERROR_WRITE else ret, s)
     }))"

section \<open>The disk of the FAT library\<close>

text \<open>\<open>disk_read\<close> and \<open>disk_write\<close> of cli_fat.c.\<close>

definition disk_read :: "nat \<Rightarrow> 's spi_bus \<Rightarrow> u8 list \<Rightarrow> u32 \<Rightarrow> u8 list \<Rightarrow> u32 \<Rightarrow> 's \<Rightarrow> (bool \<times> u8 list \<times> 's) option" where
  "disk_read fuel B cards dv buf sect s = do {
     (ret, buf, s) \<leftarrow> sdmmc_read_block fuel B cards (sint dv) sect 1 buf 0 s;
     Some (ret = 0, buf, s)
   }"

definition disk_write :: "nat \<Rightarrow> 's spi_bus \<Rightarrow> int \<Rightarrow> u32 \<Rightarrow> u8 list \<Rightarrow> u32 \<Rightarrow> u8 list \<Rightarrow> u32 \<Rightarrow> 's \<Rightarrow> (bool \<times> 's) option" where
  "disk_write fuel B garbage wp cards dv buf sect s = do {
     (ret, s) \<leftarrow> sdmmc_write_block fuel B garbage wp cards (sint dv) sect 1 buf s;
     Some (ret = 0, s)
   }"


section \<open>Words and rounds\<close>

lemma rx_word:
  fixes x :: u8
  shows "(SPI_DATA_RX_VALID OR ucast x) AND SPI_DATA_RX_VALID \<noteq> 0" "(SPI_DATA_RX_VALID OR ucast x) AND 0xff = ucast x"
    "ucast (SPI_DATA_RX_VALID OR ucast x) = x" "(SPI_DATA_RX_VALID OR ucast x) AND 0x80 = 0 \<longleftrightarrow> \<not> bit x 7"
proof -
  have v: "bit (0x80000000 :: u32) n \<longleftrightarrow> n = 31" for n
  proof -
    have "(0x80000000 :: u32) = push_bit 31 1" by simp
    then show ?thesis by (simp only: bit_push_bit_iff bit_1_iff) auto
  qed
  have h: "bit (0x80 :: u32) n \<longleftrightarrow> n = 7" for n
  proof -
    have "(0x80 :: u32) = push_bit 7 1" by simp
    then show ?thesis by (simp only: bit_push_bit_iff bit_1_iff) auto
  qed
  have "bit ((SPI_DATA_RX_VALID OR ucast x) AND SPI_DATA_RX_VALID) 31" by (simp only: v bit_or_iff bit_and_iff) simp
  then show "(SPI_DATA_RX_VALID OR ucast x) AND SPI_DATA_RX_VALID \<noteq> 0" by force
  show "(SPI_DATA_RX_VALID OR ucast x) AND 0xff = ucast x"
    unfolding byte_mask by (rule bit_word_eqI, simp only: bit_and_iff bit_or_iff bit_ucast_iff bit_mask_iff v) (auto dest: bit_imp_le_length)
  show "ucast (SPI_DATA_RX_VALID OR ucast x) = x"
    by (rule bit_word_eqI, simp only: bit_ucast_iff bit_or_iff v) auto
  have n: "bit ((SPI_DATA_RX_VALID OR ucast x) AND 0x80) n \<longleftrightarrow> n = 7 \<and> bit x 7" for n
    by (simp only: bit_and_iff bit_or_iff bit_ucast_iff v h) auto
  show "(SPI_DATA_RX_VALID OR ucast x) AND 0x80 = 0 \<longleftrightarrow> \<not> bit x 7"
  proof
    assume "(SPI_DATA_RX_VALID OR ucast x) AND 0x80 = 0"
    then show "\<not> bit x 7" using n [of 7] by (simp only: bit_0_eq) simp
  next
    assume "\<not> bit x 7"
    then show "(SPI_DATA_RX_VALID OR ucast x) AND 0x80 = 0" using n by (intro bit_word_eqI) simp
  qed
qed

lemma ucast_8_32: "(ucast (x :: u8) :: u32) = ucast y \<longleftrightarrow> x = y"
proof
  have inv: "ucast (ucast z :: u32) = z" for z :: u8 by (rule bit_word_eqI) (simp add: bit_simps)
  assume "(ucast x :: u32) = ucast y"
  then show "x = y" by (metis inv)
qed simp

lemma arg_bytes:
  "push_bit 24 (ucast (ucast (drop_bit 24 (a :: u32)) :: u8)) OR push_bit 16 (ucast (ucast (drop_bit 16 a) :: u8))
     OR push_bit 8 (ucast (ucast (drop_bit 8 a) :: u8)) OR ucast (ucast a :: u8) = (a :: u32)"
proof (rule bit_word_eqI)
  fix n assume "n < LENGTH(32)"
  then consider "n < 8" | "8 \<le> n" "n < 16" | "16 \<le> n" "n < 24" | "24 \<le> n" "n < 32" by fastforce
  then show "bit (push_bit 24 (ucast (ucast (drop_bit 24 a) :: u8) :: u32) OR push_bit 16 (ucast (ucast (drop_bit 16 a) :: u8))
     OR push_bit 8 (ucast (ucast (drop_bit 8 a) :: u8)) OR ucast (ucast a :: u8)) n = bit a n"
    by cases (auto simp: bit_simps dest: bit_imp_le_length)
qed

text \<open>The steps of the bounded loops, for a count that is a numeral.\<close>

lemma loop_steps:
  "0 < n \<Longrightarrow> rw_loop B reg n s = (let (rx, s) = get_data B reg s in
     if rx AND SPI_DATA_RX_VALID \<noteq> 0 then (uint (rx AND 0xff), s) else rw_loop B reg (n - 1) s)"
  "0 < n \<Longrightarrow> ready_loop B reg n s = (let (rx, s) = get_data B reg s in
     if rx AND SPI_DATA_RX_VALID \<noteq> 0 then
       if rx AND 0xff = 0xff then (SDMMC_ERROR_OK, s)
       else ready_loop B reg (n - 1) (set_data B reg (SPI_CMD_SEND_RECEIVE OR 0xff) s)
     else ready_loop B reg (n - 1) s)"
  "0 < n \<Longrightarrow> r1_loop fuel B reg n s = do {
     (rx, s) \<leftarrow> recv fuel B reg (set_data B reg (SPI_CMD_SEND_RECEIVE OR 0xff) s);
     if rx AND 0x80 = 0 then Some (uint (rx AND 0xff), s) else r1_loop fuel B reg (n - 1) s
   }"
  "0 < n \<Longrightarrow> token_loop fuel B reg r1 n s = do {
     (rx, s) \<leftarrow> recv fuel B reg (set_data B reg (SPI_CMD_SEND_RECEIVE OR 0xff) s);
     if rx AND 0xff = ucast r1 then Some (True, s) else token_loop fuel B reg r1 (n - 1) s
   }"
  "0 < n \<Longrightarrow> sdmmc_wait_r1_response fuel B reg r1 n s = do {
     (ok, s) \<leftarrow> token_loop fuel B reg r1 SDMMC_TIMEOUT s;
     if ok then Some (SDMMC_ERROR_OK, s) else sdmmc_wait_r1_response fuel B reg r1 (n - 1) s
   }"
  "0 < n \<Longrightarrow> spi_wait_tx_avail B reg m n s = (let (avail, s) = spi_get_tx_avail B reg s in
     if m \<le> avail then (avail, s) else spi_wait_tx_avail B reg m (n - 1) s)"
  "0 < n \<Longrightarrow> resp_loop B reg n s = (let (ret, s) = sdmmc_readwrite_byte B reg 0xff s in
     if ret < 0 then (ret, s) else if ret mod 32 = 5 then (SDMMC_ERROR_OK, s) else resp_loop B reg (n - 1) s)"
  by (cases n; simp only: less_irrefl diff_Suc_1 rw_loop.simps ready_loop.simps r1_loop.simps token_loop.simps
    sdmmc_wait_r1_response.simps spi_wait_tx_avail.simps resp_loop.simps)+

lemma r1_next:
  "0 < n \<Longrightarrow> recv fuel B reg (set_data B reg (SPI_CMD_SEND_RECEIVE OR 0xff) s) = Some (SPI_DATA_RX_VALID OR ucast (x :: u8), s1) \<Longrightarrow>
    r1_loop fuel B reg n s = (if bit x 7 then r1_loop fuel B reg (n - 1) s1 else Some (uint x, s1))"
  unfolding loop_steps(3) by (simp only: bind.bind_lunit prod.case rx_word) (simp add: uint_up_ucast is_up)

lemma token_next:
  "0 < n \<Longrightarrow> recv fuel B reg (set_data B reg (SPI_CMD_SEND_RECEIVE OR 0xff) s) = Some (SPI_DATA_RX_VALID OR ucast x, s1) \<Longrightarrow>
    token_loop fuel B reg r1 n s = (if x = r1 then Some (True, s1) else token_loop fuel B reg r1 (n - 1) s1)"
  unfolding loop_steps(4) by (simp only: bind.bind_lunit prod.case rx_word) (simp add: ucast_8_32)

lemma ready_next:
  "0 < n \<Longrightarrow> get_data B reg t = (SPI_DATA_RX_VALID OR ucast (x :: u8), s') \<Longrightarrow>
    ready_loop B reg n t = (if x = 0xff then (SDMMC_ERROR_OK, s')
      else ready_loop B reg (n - 1) (set_data B reg (SPI_CMD_SEND_RECEIVE OR 0xff) s'))"
proof -
  have x: "ucast x = (0xff :: u32) \<longleftrightarrow> x = 0xff" using ucast_8_32 [of x "0xff"] by simp
  assume "0 < n" "get_data B reg t = (SPI_DATA_RX_VALID OR ucast x, s')"
  then show ?thesis unfolding loop_steps(2) [OF \<open>0 < n\<close>] by (simp only: prod.case Let_def rx_word x if_True not_False_eq_True)
qed

section \<open>Whatever the controller and the card do\<close>

lemma take_drop_update:
  "b < length buf \<Longrightarrow> take (Suc n) (drop b buf) = buf ! b # take n (drop (Suc b) buf)"
  by (metis Cons_nth_drop_Suc take_Suc_Cons)

text \<open>The CRC the driver accumulates is the one of the bytes it has stored.\<close>

lemma rx_loop_stores:
  "rx_loop fuel B reg count buf b crc s = Some (crc', buf', s') \<Longrightarrow> b + count \<le> length buf \<Longrightarrow>
    length buf' = length buf \<and> crc' = foldl sdmmc_crc16_byte crc (take count (drop b buf')) \<and>
    (\<forall>i. i < b \<or> b + count \<le> i \<longrightarrow> buf' ! i = buf ! i)"
proof (induction count arbitrary: buf b crc s)
  case (Suc count)
  obtain rx s1 where 1: "recv fuel B reg s = Some (rx, s1)"
    "rx_loop fuel B reg count (buf[b := ucast rx]) (b + 1) (sdmmc_crc16_byte crc (ucast rx))
       (set_data B reg (SPI_CMD_SEND_RECEIVE OR 0xff) s1) = Some (crc', buf', s')"
    using Suc.prems(1) by (auto split: Option.bind_splits)
  have ih: "length buf' = length buf" "crc' = foldl sdmmc_crc16_byte (sdmmc_crc16_byte crc (ucast rx)) (take count (drop (Suc b) buf'))"
    "\<And>i. i < Suc b \<or> Suc b + count \<le> i \<Longrightarrow> buf' ! i = buf[b := ucast rx] ! i"
    using Suc.IH [OF 1(2)] Suc.prems(2) by auto
  have "buf' ! b = ucast rx" using ih(3) [of b] Suc.prems(2) by simp
  then have "take (Suc count) (drop b buf') = ucast rx # take count (drop (Suc b) buf')"
    using take_drop_update [of b buf' count] ih(1) Suc.prems(2) by simp
  then show ?case using ih by auto
qed simp

lemma rx_buf_stores:
  assumes "sdmmc_rx_buf fuel B reg buf b len s = Some (ret, buf', s')" "b + unat len + 2 \<le> length buf"
  shows "length buf' = length buf \<and> (\<forall>i. i < b \<or> b + unat len + 2 \<le> i \<longrightarrow> buf' ! i = buf ! i) \<and>
    ret \<in> {SDMMC_ERROR_OK, SDMMC_ERROR_NO_RESP, SDMMC_ERROR_CRC} \<and>
    (ret = SDMMC_ERROR_OK \<longrightarrow> foldl sdmmc_crc16_byte 0 (take (unat len + 2) (drop b buf')) = 0)"
proof -
  obtain r1 s1 where 1: "sdmmc_wait_r1_response fuel B reg SDMMC_TOKEN_DATA1 1000 s = Some (r1, s1)"
    using assms(1) by (auto simp: sdmmc_rx_buf_def split: Option.bind_splits)
  have r1: "r1 \<in> {SDMMC_ERROR_OK, SDMMC_ERROR_NO_RESP}"
  proof -
    have "sdmmc_wait_r1_response fuel B reg r n t = Some (x, t') \<Longrightarrow> x \<in> {SDMMC_ERROR_OK, SDMMC_ERROR_NO_RESP}" for r n t x t'
      by (induction n arbitrary: t) (auto split: Option.bind_splits if_splits)
    then show ?thesis using 1 .
  qed
  show ?thesis
  proof (cases "r1 < 0")
    case True
    then show ?thesis using assms r1 1 by (auto simp: sdmmc_rx_buf_def sd_errors)
  next
    case False
    obtain crc buf1 s2 where 2: "rx_loop fuel B reg (unat len + 2) buf b 0
        (set_data B reg (SPI_CMD_SEND_RECEIVE OR 0xff) s1) = Some (crc, buf1, s2)"
      and e: "buf' = buf1" "ret = (if crc \<noteq> 0 then SDMMC_ERROR_CRC else SDMMC_ERROR_OK)"
      using assms(1) 1 False by (auto simp: sdmmc_rx_buf_def Let_def split: Option.bind_splits prod.splits if_splits)
    show ?thesis using rx_loop_stores [OF 2] assms(2) e by (auto simp: sd_errors)
  qed
qed

lemma read_single_stores:
  assumes "read_single fuel B reg block_num buf b s = Some (how, ret, buf', s')" "b + 514 \<le> length buf"
  shows "length buf' = length buf \<and> (\<forall>i. i < b \<or> b + 514 \<le> i \<longrightarrow> buf' ! i = buf ! i) \<and>
    (how = Break \<longrightarrow> ret = 0 \<and> foldl sdmmc_crc16_byte 0 (take 514 (drop b buf')) = 0) \<and> how \<noteq> Again"
proof -
  obtain r1 s1 where 1: "sdmmc_send_cmd fuel B reg 17 block_num 0x01 0 s = Some (r1, s1)"
    using assms(1) by (auto simp: read_single_def split: Option.bind_splits)
  show ?thesis
  proof (cases "r1 = 0")
    case False
    then show ?thesis using assms 1 by (auto simp: read_single_def split: if_splits)
  next
    case True
    obtain r2 where 2: "sdmmc_rx_buf fuel B reg buf b 512 s1 = Some (r2, buf', s')"
        "how = (if r2 \<noteq> 0 then Again2 else Break)" "ret = r2"
      using assms(1) 1 True by (auto simp: read_single_def split: Option.bind_splits)
    have u: "unat (512 :: u16) + 2 = 514" by simp
    show ?thesis using rx_buf_stores [OF 2(1)] assms(2) 2(2,3) u by (auto simp: sd_errors)
  qed
qed

lemma read_retry_stores:
  "read_retry fuel B reg ss block_num 1 n buf b s = Some (ret, buf', s') \<Longrightarrow> b + 514 \<le> length buf \<Longrightarrow>
    length buf' = length buf \<and> (\<forall>i. i < b \<or> b + 514 \<le> i \<longrightarrow> buf' ! i = buf ! i) \<and>
    (ret = SDMMC_ERROR_READ \<or> ret = 0 \<and> foldl sdmmc_crc16_byte 0 (take 514 (drop b buf')) = 0)"
proof (induction n arbitrary: buf s)
  case (Suc n)
  obtain how r buf1 s1 where 1: "read_single fuel B reg block_num buf b (sdmmc_select B reg ss s) = Some (how, r, buf1, s1)"
    using Suc.prems(1) by (auto split: Option.bind_splits)
  note st = read_single_stores [OF 1 Suc.prems(2)]
  show ?case
  proof (cases how)
    case Break
    then show ?thesis using Suc.prems 1 st by (auto simp: Let_def)
  next
    case Again2
    then have "read_retry fuel B reg ss block_num 1 n buf1 b
        (sdmmc_deselect B reg ss (snd (sdmmc_wait_ready B reg s1))) = Some (ret, buf', s')"
      using Suc.prems(1) 1 by (simp add: Let_def)
    from Suc.IH [OF this] show ?thesis using st Suc.prems(2) by auto
  qed (use st in auto)
qed simp

section \<open>A controller that plays a recording\<close>

text \<open>Reading the data register returns the next byte of a list, nothing else has an effect. It serves
  for the examples.\<close>

definition tape :: "u8 list spi_bus" where
  "tape = \<lparr>set_data = (\<lambda>reg w s. s), get_data = (\<lambda>reg s. (case s of [] \<Rightarrow> (0, s) | x # xs \<Rightarrow> (SPI_DATA_RX_VALID OR ucast x, xs))),
     spi_status = (\<lambda>reg s. (SPI_STATUS_TX_AVAIL, s)), rx_occupancy = (\<lambda>reg s. (0, s)),
     set_config = (\<lambda>reg config s. s), wait_us = (\<lambda>us s. s)\<rparr>"

lemma tape_sel [simp]:
  "set_data tape reg w s = s" "get_data tape reg (x # xs) = (SPI_DATA_RX_VALID OR ucast x, xs)"
  "rx_occupancy tape reg s = (0, s)" "wait_us tape us s = s"
  by (simp_all add: tape_def)

lemma tape_recv [simp]: "recv (Suc fuel) tape reg (x # xs) = Some (SPI_DATA_RX_VALID OR ucast x, xs)"
  using rx_word(1) [of x] by (simp del: rx_word)

lemma tape_readwrite [simp]: "sdmmc_readwrite_byte tape reg b (x # xs) = (uint x, xs)"
  unfolding sdmmc_readwrite_byte_def
  by (subst loop_steps(1)) (simp_all add: rx_word(1,2) uint_up_ucast is_up)

lemma tape_send_cmd: "\<not> bit r 7 \<Longrightarrow>
    sdmmc_send_cmd (Suc fuel) tape reg cmd arg crc 0 (a # b # c # d # e # f # r # xs) = Some (uint r, xs)"
  unfolding sdmmc_send_cmd_def sdmmc_get_r1_response_def Let_def
  by (simp add: r1_next [of _ "Suc fuel" tape reg _ r xs] del: recv.simps)

lemma tape_rx_loop:
  "rx_loop (Suc fuel) tape reg (length ys) buf b crc (ys @ rest) = Some (foldl sdmmc_crc16_byte crc ys, blit buf b ys, rest)"
  if "b + length ys \<le> length buf"
  using that
proof (induction ys arbitrary: buf b crc)
  case (Cons y ys)
  have "rx_loop (Suc fuel) tape reg (length ys) (buf[b := y]) (b + 1) (sdmmc_crc16_byte crc y) (ys @ rest) =
      Some (foldl sdmmc_crc16_byte (sdmmc_crc16_byte crc y) ys, blit (buf[b := y]) (b + 1) ys, rest)"
    using Cons.IH [of "b + 1" "buf[b := y]"] Cons.prems by simp
  then show ?case using blit_Cons [of b buf y ys] Cons.prems rx_word(3) [of y] by (simp del: recv.simps)
qed (simp add: blit_def)

lemma tape_rx_buf:
  assumes "length ys = unat len + 2" "b + length ys \<le> length buf"
  shows "sdmmc_rx_buf (Suc fuel) tape reg buf b len (0xfe # ys @ x # rest) =
    Some (if foldl sdmmc_crc16_byte 0 ys = 0 then SDMMC_ERROR_OK else SDMMC_ERROR_CRC, blit buf b ys, rest)"
proof -
  have "token_loop (Suc fuel) tape reg SDMMC_TOKEN_DATA1 SDMMC_TIMEOUT (0xfe # ys @ x # rest) = Some (True, ys @ x # rest)"
    using token_next [of SDMMC_TIMEOUT "Suc fuel" tape reg "0xfe # ys @ x # rest" "0xfe" "ys @ x # rest" SDMMC_TOKEN_DATA1] by simp
  then have "sdmmc_wait_r1_response (Suc fuel) tape reg SDMMC_TOKEN_DATA1 1000 (0xfe # ys @ x # rest) = Some (SDMMC_ERROR_OK, ys @ x # rest)"
    by (subst loop_steps(5)) simp_all
  then show ?thesis
    using tape_rx_loop [OF assms(2), of fuel reg 0 "x # rest"] assms(1)
    by (simp add: sdmmc_rx_buf_def sd_errors del: rx_loop.simps)
qed

text \<open>A block of 16 or 512 bytes with its CRC, and the tapes on which it arrives.\<close>

definition sealed :: "u8 list \<Rightarrow> u8 list" where
  "sealed xs = xs @ sdmmc_crc16_tail (foldl sdmmc_crc16_byte 0 xs)"

lemma sealed: "length (sealed xs) = length xs + 2" "foldl sdmmc_crc16_byte 0 (sealed xs) = 0"
  by (simp_all add: sealed_def sdmmc.length_tail sdmmc.tail_good)

definition answer :: "u8 list \<Rightarrow> u8 list" where
  "answer xs = [0xff, 0xff, 0xff, 0xff, 0xff, 0xff, 0, 0xfe] @ sealed xs @ [0xff, 0xff]"

definition sample_cards :: "u8 list" where
  "sample_cards = st32 (st32 (replicate 88 0) 0 3) 8 10"

lemma crc_zeros: "foldl sdmmc_crc16_byte 0 (replicate n 0 @ [1]) = 0x1021"
proof -
  have z: "sdmmc_crc16_byte 0 0 = 0" and one: "sdmmc_crc16_byte 0 1 = 0x1021" by code_simp+
  have "foldl sdmmc_crc16_byte 0 (replicate n 0) = 0" by (induction n) (simp_all add: z)
  then show ?thesis by (simp add: one)
qed

lemma tape_deselect: "sdmmc_deselect tape reg ss [x] = []"
  by (simp add: sdmmc_deselect_def)

lemma tape_read_block:
  assumes "length xs = 512"
  shows "sdmmc_read_block (Suc 0) tape sample_cards 0 5 1 (replicate 514 0) 0 (answer xs) = Some (0, sealed xs, [])"
proof -
  have c: "card_type sample_cards 0 = 3" "card_blocks sample_cards 0 = 10"
    by (simp_all add: sample_cards_def card_type_def card_blocks_def ld32_cong [where i = 0 and b = "st32 (st32 (replicate 88 0) 0 3) 8 10" and c = "st32 (replicate 88 0) 0 3"])
  have cmd: "sdmmc_send_cmd (Suc 0) tape reg 17 a crc 0 (answer xs) = Some (0, 0xfe # sealed xs @ [0xff, 0xff])" for reg a crc
    using tape_send_cmd [of 0 0 reg 17 a crc "0xff" "0xff" "0xff" "0xff" "0xff" "0xff" "0xfe # sealed xs @ [0xff, 0xff]"]
    by (simp add: answer_def)
  have "sdmmc_rx_buf (Suc 0) tape reg (replicate 514 0) 0 512 (0xfe # sealed xs @ [0xff, 0xff]) = Some (0, sealed xs, [0xff])" for reg
    using tape_rx_buf [of "sealed xs" 512 0 "replicate 514 0" 0 reg "0xff" "[0xff]"] assms
    by (simp add: sealed sd_errors blit_def)
  then have "read_single (Suc 0) tape reg a (replicate 514 0) 0 (answer xs) = Some (Break, 0, sealed xs, [0xff])" for reg a
    by (simp add: read_single_def cmd)
  then have "read_retry (Suc 0) tape reg ss a 1 SDMMC_RETRIES (replicate 514 0) 0 (answer xs) = Some (0, sealed xs, [])" for reg ss a
    by (simp add: numeral_3_eq_3 Let_def sdmmc_select_def tape_deselect)
  moreover have "spi_clear_rx_fifo (Suc 0) tape reg t = Some t" for reg t by simp
  ultimately show ?thesis by (simp add: sdmmc_read_block_def c sdmmc_devices_def Let_def)
qed

lemma tape_get_info:
  assumes "length xs = 16"
  shows "sdmmc_get_info (Suc 0) tape reg ss 9 (replicate 88 0) (csd_pos 0) (answer xs) = Some (0, blit (replicate 88 0) 28 (sealed xs), [])"
proof -
  have "sdmmc_send_cmd (Suc 0) tape reg 9 a crc 0 (answer xs) = Some (0, 0xfe # sealed xs @ [0xff, 0xff])" for reg a crc
    using tape_send_cmd [of 0 0 reg 9 a crc "0xff" "0xff" "0xff" "0xff" "0xff" "0xff" "0xfe # sealed xs @ [0xff, 0xff]"]
    by (simp add: answer_def)
  moreover have "sdmmc_rx_buf (Suc 0) tape reg (replicate 88 0) 28 16 (0xfe # sealed xs @ [0xff, 0xff]) =
      Some (0, blit (replicate 88 0) 28 (sealed xs), [0xff])"
    using tape_rx_buf [of "sealed xs" 16 28 "replicate 88 0" 0 reg "0xff" "[0xff]"] assms
    by (simp add: sealed sd_errors)
  ultimately show ?thesis
    by (simp add: sdmmc_get_info_def csd_pos_def sdmmc_select_def tape_deselect)
qed

section \<open>Properties\<close>

text \<open>C21. Whatever the SPI controller and the card do, \<open>sdmmc_read_block\<close> of one block changes at
  most the 514 bytes at the pointer, and it reports success only when the last two of them are the
  CRC of the 512 bytes before.\<close>

theorem read_block_checked:
  assumes "sdmmc_read_block fuel B cards device n 1 buf b s = Some (ret, buf', s')" "b + 514 \<le> length buf"
  shows "length buf' = length buf \<and> (\<forall>i. i < b \<or> b + 514 \<le> i \<longrightarrow> buf' ! i = buf ! i) \<and>
    (ret = 0 \<longrightarrow> take 2 (drop (b + 512) buf') = sdmmc_crc16_tail (foldl sdmmc_crc16_byte 0 (take 512 (drop b buf')))) \<and>
    ret \<in> {0, SDMMC_ERROR_PARAMS, SDMMC_ERROR_NOT_READY, SDMMC_ERROR_BOUNDS, SDMMC_ERROR_READ}"
proof (cases "SDMMC_DEVICES \<le> device \<or> card_type cards (nat device) = 0 \<or> card_blocks cards (nat device) < n + 1")
  case True
  then show ?thesis using assms(1) by (auto simp: sdmmc_read_block_def sd_errors split: if_splits)
next
  case False
  obtain reg ss addr t where r: "read_retry fuel B reg ss addr 1 SDMMC_RETRIES buf b t = Some (ret, buf', s')"
    using assms(1) False unfolding sdmmc_read_block_def
    by (auto simp: Let_def split: Option.bind_splits prod.splits)
  note st = read_retry_stores [OF r assms(2)]
  show ?thesis
  proof (intro conjI impI)
    assume 0: "ret = 0"
    have len: "take 514 (drop b buf') = take 512 (drop b buf') @ take 2 (drop (b + 512) buf')"
      using take_add [of 512 2 "drop b buf'"] by (simp add: add.commute)
    then show "take 2 (drop (b + 512) buf') = sdmmc_crc16_tail (foldl sdmmc_crc16_byte 0 (take 512 (drop b buf')))"
      using st 0 assms(2) sdmmc.accept_iff [of "take 2 (drop (b + 512) buf')" 0 "take 512 (drop b buf')"]
      by (auto simp: sd_errors)
  qed (use st in auto)
qed

theorem read_block_checked_witness:
  "length (sealed (replicate 512 0x55)) = 514 \<and> take 2 (drop 512 (sealed (replicate 512 0x55))) =
    sdmmc_crc16_tail (foldl sdmmc_crc16_byte 0 (take 512 (sealed (replicate 512 0x55))))"
  using read_block_checked [OF tape_read_block [of "replicate 512 0x55"]] by (simp)

text \<open>Reading the CSD of the first card writes 18 bytes into a field of 16: the two CRC bytes
  become the low half of the \<open>type\<close> of the second card's structure.\<close>

theorem csd_overwrites_next_type:
  assumes "sdmmc_get_info fuel B reg ss 9 cards (csd_pos 0) s = Some (0, cards', s')" "length cards = 88"
  shows "[cards' ! 44, cards' ! 45] = sdmmc_crc16_tail (foldl sdmmc_crc16_byte 0 (take 16 (drop 28 cards')))
    \<and> ucast (card_type cards' 1) = (ucast (cards' ! 44) OR push_bit 8 (ucast (cards' ! 45)) :: u16)"
proof -
  obtain r1 s1 where 1: "sdmmc_send_cmd fuel B reg 9 0 1 0 (sdmmc_select B reg ss s) = Some (r1, s1)"
    using assms(1) by (auto simp: sdmmc_get_info_def split: Option.bind_splits)
  have "0 \<le> r1" using assms(1) 1 by (auto simp: sdmmc_get_info_def split: if_splits)
  then obtain s2 where 2: "sdmmc_rx_buf fuel B reg cards 28 16 s1 = Some (0, cards', s2)"
    using assms(1) 1 by (auto simp: sdmmc_get_info_def csd_pos_def split: Option.bind_splits)
  have st: "length cards' = 88" "foldl sdmmc_crc16_byte 0 (take 18 (drop 28 cards')) = 0"
    using rx_buf_stores [OF 2] assms(2) by (simp_all add: sd_errors)
  have "take 18 (drop 28 cards') = take 16 (drop 28 cards') @ take 2 (drop 44 cards')"
    using take_add [of 16 2 "drop 28 cards'"] by simp
  moreover have t: "take 2 (drop 44 cards') = [cards' ! 44, cards' ! 45]"
    using st(1) by (simp add: take_Suc_conv_app_nth numeral_2_eq_2)
  ultimately have "[cards' ! 44, cards' ! 45] = sdmmc_crc16_tail (foldl sdmmc_crc16_byte 0 (take 16 (drop 28 cards')))"
    using st(2) sdmmc.accept_iff [of "[cards' ! 44, cards' ! 45]" 0 "take 16 (drop 28 cards')"] by simp
  moreover have "ucast (card_type cards' 1) = (ucast (cards' ! 44) OR push_bit 8 (ucast (cards' ! 45)) :: u16)"
    unfolding card_type_def ld32_def by (rule bit_word_eqI) (auto simp: bit_simps)
  ultimately show ?thesis by simp
qed

theorem csd_overwrites_next_type_witness:
  "ucast (card_type (blit (replicate 88 0) 28 (sealed (replicate 15 0 @ [1]))) 1) = (0x2110 :: u16)"
proof -
  let ?b = "blit (replicate 88 0) 28 (sealed (replicate 15 0 @ [1]))"
  have t: "take 16 (drop 28 ?b) = replicate 15 0 @ [1]"
    by (simp add: blit_def sealed sealed_def)
  have "[?b ! 44, ?b ! 45] = sdmmc_crc16_tail (foldl sdmmc_crc16_byte 0 (replicate 15 0 @ [1])) \<and>
      ucast (card_type ?b 1) = (ucast (?b ! 44) OR push_bit 8 (ucast (?b ! 45)) :: u16)"
    using csd_overwrites_next_type [OF tape_get_info [of "replicate 15 0 @ [1]"]] unfolding t by (simp add: sealed)
  then have "?b ! 44 = 0x10" "?b ! 45 = 0x21" "ucast (card_type ?b 1) = (ucast (?b ! 44) OR push_bit 8 (ucast (?b ! 45)) :: u16)"
    unfolding crc_zeros by (simp_all add: sdmmc_crc16_tail_def)
  then show ?thesis by simp
qed

definition csd_c_size :: "u8 list \<Rightarrow> nat" where
  "csd_c_size csd = (unat (csd ! 7) mod 64) * 65536 + unat (csd ! 8) * 256 + unat (csd ! 9)"

text \<open>The capacity of a version 2 card: \<open>C_SIZE + 1\<close> units of 1024 blocks by the
  specification, computed modulo \<open>2^16\<close> units. A card of 32 GiB has no blocks.\<close>

theorem v2_capacity:
  assumes "csd ! 0 AND 0xc0 = 0x40"
  shows "unat (sdmmc_get_num_blocks csd) = ((csd_c_size csd + 1) mod 65536) * 1024"
proof -
  let ?c = "push_bit 8 (ucast (csd ! 8)) + ucast (csd ! 9) + 1 :: u16"
  have b: "unat (csd ! 8) < 256" "unat (csd ! 9) < 256" using unsigned_less [of "csd ! 8", where 'a = nat] unsigned_less [of "csd ! 9", where 'a = nat] by simp_all
  have "unat (push_bit 8 (ucast (csd ! 8)) :: u16) = unat (csd ! 8) * 256"
    using b by (simp add: push_bit_eq_mult unat_word_ariths unsigned_ucast_eq take_bit_eq_mod)
  moreover have "unat (ucast (csd ! 9) :: u16) = unat (csd ! 9)" using b by (simp add: unsigned_ucast_eq take_bit_eq_mod)
  ultimately have c: "unat ?c = (unat (csd ! 8) * 256 + unat (csd ! 9) + 1) mod 65536"
    by (simp add: unat_word_ariths mod_simps)
  have "(csd_c_size csd + 1) mod 65536 = unat ?c" unfolding c csd_c_size_def
    by (metis (no_types, lifting) add.assoc mod_mult_self3)
  moreover have "unat (push_bit 10 (ucast ?c) :: u32) = unat ?c * 1024"
    using unsigned_less [of ?c, where 'a = nat] by (simp add: push_bit_eq_mult unat_word_ariths unsigned_ucast_eq take_bit_eq_mod)
  ultimately show ?thesis using assms by (simp add: sdmmc_get_num_blocks_def Let_def)
qed

theorem v2_capacity_witness:
  "unat (sdmmc_get_num_blocks [0x40, 0, 0, 0, 0, 0, 0, 0, 0xff, 0xff]) = 0"
  using v2_capacity [of "[0x40, 0, 0, 0, 0, 0, 0, 0, 0xff, 0xff]"] by (simp add: csd_c_size_def)

end
