(* ===== verification/SdCard.thy ===== *)
theory SdCard
  imports Sdmmc
begin

text \<open>
  The SD/MMC driver with a card: a card in SPI mode that answers the commands of block transfer, the
  contract of the SPI controller with such a card behind it (the locale \<open>sd_link\<close>), and the proof
  that the driver reads and writes the blocks of the card. The locale is interpreted on a controller
  with a FIFO, which makes \<open>disk_read\<close> and \<open>disk_write\<close> a disk for the FAT library.
\<close>

section \<open>A card in SPI mode\<close>

text \<open>
  The documented behaviour of a card for the commands of block transfer: six command bytes, the R1
  response after one idle byte, the data token, 512 bytes and their CRC for a read; for a write the
  data token and 514 bytes from the host, then the data response and a busy byte. \<open>hc\<close> is block
  addressing. While nothing is to be sent the card sends ones.
\<close>

record card =
  contents :: "u32 \<Rightarrow> u8 list"
  inp :: "u8 list"
  outq :: "u8 list"
  rxd :: "(u32 \<times> u8 list option) option"

definition crc_bytes :: "u8 list \<Rightarrow> u8 list" where
  "crc_bytes xs = (let crc = foldl sdmmc_crc16_byte 0 xs in [ucast (drop_bit 8 crc), ucast crc])"

definition card_exec :: "bool \<Rightarrow> u8 list \<Rightarrow> card \<Rightarrow> card" where
  "card_exec hc cmd c =
    (let arg = (push_bit 24 (ucast (cmd ! 1)) OR push_bit 16 (ucast (cmd ! 2)) OR push_bit 8 (ucast (cmd ! 3))
           OR ucast (cmd ! 4) :: u32);
         blk = (if hc then arg else arg div 512); c = c\<lparr>inp := []\<rparr> in
     if cmd ! 0 = 0x51 then c\<lparr>outq := [0xff, 0, 0xff, 0xfe] @ contents c blk @ crc_bytes (contents c blk)\<rparr>
     else if cmd ! 0 = 0x58 then c\<lparr>outq := [0xff, 0], rxd := Some (blk, None)\<rparr>
     else c\<lparr>outq := [0xff, 4]\<rparr>)"

definition card_in :: "bool \<Rightarrow> u8 \<Rightarrow> card \<Rightarrow> card" where
  "card_in hc b c =
    (case rxd c of
       Some (blk, None) \<Rightarrow> if b = 0xfe then c\<lparr>rxd := Some (blk, Some [])\<rparr> else c
     | Some (blk, Some xs) \<Rightarrow>
         if length xs = 513 then c\<lparr>contents := (contents c)(blk := take 512 xs), rxd := None, outq := [0xe5, 0]\<rparr>
         else c\<lparr>rxd := Some (blk, Some (xs @ [b]))\<rparr>
     | None \<Rightarrow>
         if inp c = [] then (if b AND 0xc0 = 0x40 then c\<lparr>inp := [b]\<rparr> else c)
         else if length (inp c) = 5 then card_exec hc (inp c @ [b]) c
         else c\<lparr>inp := inp c @ [b]\<rparr>)"

definition nxt :: "u8 list \<Rightarrow> u8" where
  "nxt q = (case q of [] \<Rightarrow> 0xff | x # _ \<Rightarrow> x)"

definition card_xfer :: "bool \<Rightarrow> u8 \<Rightarrow> card \<Rightarrow> u8 \<times> card" where
  "card_xfer hc b c = (nxt (outq c), card_in hc b (c\<lparr>outq := tl (outq c)\<rparr>))"

definition card_idle :: "(u32 \<Rightarrow> u8 list) \<Rightarrow> card" where
  "card_idle d = \<lparr>contents = d, inp = [], outq = [], rxd = None\<rparr>"

text \<open>
  The contract with the hardware. \<open>view\<close> shows of a bus state the receive FIFO, whether the card is
  selected, and the card. It is what spi.h says of the register \<open>DATA\<close>: writing it sends a byte, with
  the bit of \<open>SEND_RECEIVE\<close> the byte received goes to the FIFO, reading pops the FIFO; with the
  idealisation that a byte has arrived when the register is read next.
\<close>

definition link_xfer :: "bool \<Rightarrow> u8 \<Rightarrow> bool \<times> card \<Rightarrow> u8 \<times> bool \<times> card" where
  "link_xfer hc b = (\<lambda>(sel, c). if sel then (case card_xfer hc b c of (o1, c) \<Rightarrow> (o1, sel, c)) else (0xff, sel, c))"

lemma link_selected [simp]:
  "link_xfer hc b (True, c) = (nxt (outq c), True, card_in hc b (c\<lparr>outq := tl (outq c)\<rparr>))"
  by (simp add: link_xfer_def card_xfer_def)

lemma card_idle_sel [simp]:
  "contents (card_idle d) = d" "inp (card_idle d) = []" "outq (card_idle d) = []" "rxd (card_idle d) = None"
  by (simp_all add: card_idle_def)

lemma card_idle_upd [simp]:
  "(card_idle d)\<lparr>inp := []\<rparr> = card_idle d" "(card_idle d)\<lparr>outq := []\<rparr> = card_idle d" "(card_idle d)\<lparr>rxd := None\<rparr> = card_idle d"
  "c\<lparr>inp := []\<rparr>\<lparr>outq := []\<rparr>\<lparr>rxd := None\<rparr> = card_idle (contents c)"
  by (simp_all add: card_idle_def)

lemma nxt_simps [simp]: "nxt [] = 0xff" "nxt (x # q) = x"
  by (simp_all add: nxt_def)

text \<open>A byte of ones does nothing to a card that waits for a command or for a data token.\<close>

lemma card_in_ff [simp]:
  "rxd c = None \<Longrightarrow> inp c = [] \<Longrightarrow> card_in hc 0xff c = c"
  "rxd c = Some (blk, None) \<Longrightarrow> card_in hc 0xff c = c"
  by (simp_all add: card_in_def)

text \<open>A card that collects a data block, and the byte that completes it.\<close>

lemma card_in_data:
  "rxd c = Some (blk, Some xs) \<Longrightarrow> length xs < 513 \<Longrightarrow> card_in hc b c = c\<lparr>rxd := Some (blk, Some (xs @ [b]))\<rparr>"
  "rxd c = Some (blk, Some xs) \<Longrightarrow> length xs = 513 \<Longrightarrow>
    card_in hc b c = c\<lparr>contents := (contents c)(blk := take 512 xs), rxd := None, outq := [0xe5, 0]\<rparr>"
  "rxd c = Some (blk, None) \<Longrightarrow> card_in hc 0xfe c = c\<lparr>rxd := Some (blk, Some [])\<rparr>"
  by (simp_all add: card_in_def)

text \<open>Six bytes make a command.\<close>

definition card_blk :: "bool \<Rightarrow> u32 \<Rightarrow> u32" where
  "card_blk hc arg = (if hc then arg else arg div 512)"

definition card_cmd :: "bool \<Rightarrow> u8 \<Rightarrow> u32 \<Rightarrow> (u32 \<Rightarrow> u8 list) \<Rightarrow> card" where
  "card_cmd hc cmd arg d =
    (if cmd = 17 then (card_idle d)\<lparr>outq := [0xff, 0, 0xff, 0xfe] @ d (card_blk hc arg) @ crc_bytes (d (card_blk hc arg))\<rparr>
     else (card_idle d)\<lparr>outq := [0xff, 0], rxd := Some (card_blk hc arg, None)\<rparr>)"

lemma card_in_first: "b AND 0xc0 = 0x40 \<Longrightarrow> card_in hc b (card_idle d) = (card_idle d)\<lparr>inp := [b]\<rparr>"
  by (simp add: card_in_def)

lemma card_in_more:
  "xs \<noteq> [] \<Longrightarrow> length xs < 5 \<Longrightarrow> card_in hc b ((card_idle d)\<lparr>inp := xs\<rparr>) = (card_idle d)\<lparr>inp := xs @ [b]\<rparr>"
  by (simp add: card_in_def)

lemma card_in_last:
  "length xs = 5 \<Longrightarrow> card_in hc b ((card_idle d)\<lparr>inp := xs\<rparr>) = card_exec hc (xs @ [b]) ((card_idle d)\<lparr>inp := xs\<rparr>)"
  by (auto simp: card_in_def)

lemma card_exec_cmd:
  assumes "cmd = 17 \<or> cmd = 24"
  shows "card_exec hc [cmd OR 0x40, ucast (drop_bit 24 arg), ucast (drop_bit 16 arg), ucast (drop_bit 8 arg), ucast arg, crc :: u8]
    ((card_idle d)\<lparr>inp := xs\<rparr>) = card_cmd hc cmd arg d"
proof -
  have nth: "[a, b3, b2, b1, b0, k] ! 1 = b3" "[a, b3, b2, b1, b0, k] ! 2 = b2" "[a, b3, b2, b1, b0, k] ! 3 = b1"
    "[a, b3, b2, b1, b0, k] ! 4 = b0" "[a, b3, b2, b1, b0, k] ! 0 = a" for a b3 b2 b1 b0 k :: u8
    by simp_all
  have c: "(17 :: u8) OR 0x40 = 0x51" "(24 :: u8) OR 0x40 = 0x58" by simp_all
  show ?thesis
    using assms
    by (elim disjE) (simp_all add: card_exec_def card_cmd_def card_blk_def Let_def c nth arg_bytes
      del: One_nat_def nth_Cons_numeral nth_Cons_0 nth_Cons_Suc)
qed

lemma card_cmd_key: "cmd = 17 \<or> cmd = 24 \<Longrightarrow> (cmd OR 0x40) AND 0xc0 = (0x40 :: u8)"
  by auto

lemma card_in_cmd:
  assumes "cmd = 17 \<or> cmd = 24"
  shows "card_in hc crc (card_in hc (ucast arg) (card_in hc (ucast (drop_bit 8 arg)) (card_in hc (ucast (drop_bit 16 arg))
    (card_in hc (ucast (drop_bit 24 arg)) (card_in hc (cmd OR 0x40) (card_idle d)))))) = card_cmd hc cmd arg d"
proof -
  have "(cmd OR 0x40) AND 0xc0 = 0x40" by (rule card_cmd_key [OF assms])
  then show ?thesis
    using card_exec_cmd [OF assms, where hc = hc and arg = arg and crc = crc and d = d]
    by (simp add: card_in_first card_in_more card_in_last)
qed

lemma crc_bytes_accept: "foldl sdmmc_crc16_byte 0 (xs @ crc_bytes xs) = 0" "length (crc_bytes xs) = 2"
proof -
  have "crc_bytes xs = sdmmc_crc16_tail (foldl sdmmc_crc16_byte 0 xs)"
    by (auto simp: crc_bytes_def sdmmc_crc16_tail_def Let_def byte_mask bit_simps intro!: bit_word_eqI)
  then show "foldl sdmmc_crc16_byte 0 (xs @ crc_bytes xs) = 0" by (simp only: foldl_append sdmmc.tail_good)
qed (simp add: crc_bytes_def Let_def)

text \<open>The address of the driver and the block the card takes it for.\<close>

definition sd_addr :: "bool \<Rightarrow> u32 \<Rightarrow> u32" where
  "sd_addr hc n = (if hc then n else n * SDMMC_BLOCK_SIZE)"

lemma card_blk_addr: "hc \<or> n < 0x800000 \<Longrightarrow> card_blk hc (sd_addr hc n) = n"
proof (cases hc)
  case False
  assume "hc \<or> n < 0x800000"
  then have n: "unat n < 0x800000" using False by (simp add: word_less_nat_alt)
  then have "unat (n * 512) = unat n * 512" by (simp add: unat_word_ariths)
  then have "unat (n * 512 div 512) = unat n" by (simp add: unat_div)
  then show ?thesis using False by (simp add: card_blk_def sd_addr_def word_unat_eq_iff)
qed (simp add: card_blk_def sd_addr_def)

locale sd_link =
  fixes B :: "'s spi_bus" and reg :: u32 and hc :: bool and view :: "'s \<Rightarrow> u8 list \<times> bool \<times> card"
  assumes send_receive: "view s = (f, l) \<Longrightarrow>
      view (set_data B reg (SPI_CMD_SEND_RECEIVE OR ucast b) s) = (f @ [fst (link_xfer hc b l)], snd (link_xfer hc b l))"
    and send: "view s = (f, l) \<Longrightarrow> view (set_data B reg (SPI_CMD_SEND OR ucast (b :: u8)) s) = (f, snd (link_xfer hc b l))"
    and enable: "view s = (f, sel, c) \<Longrightarrow> view (set_data B reg (SPI_CMD_ENABLE_SS OR 0) s) = (f, True, c)"
    and disable: "view s = (f, sel, c) \<Longrightarrow>
      view (set_data B reg (SPI_CMD_DISABLE_SS OR 0) s) = (f, False, c\<lparr>inp := [], outq := [], rxd := None\<rparr>)"
    and get_byte: "view s = (x # f, l) \<Longrightarrow> get_data B reg s = (r, s') \<Longrightarrow> r = SPI_DATA_RX_VALID OR ucast x \<and> view s' = (f, l)"
    and occupancy: "view s = (f, l) \<Longrightarrow> rx_occupancy B reg s = (n, s') \<Longrightarrow> view s' = (f, l) \<and> (n = 0 \<longleftrightarrow> f = [])"
    and status: "view s = v \<Longrightarrow> spi_status B reg s = (n, s') \<Longrightarrow> view s' = v \<and> 2 \<le> drop_bit 16 (n AND SPI_STATUS_TX_AVAIL)"
begin

lemma recv_byte:
  assumes "view s = (x # f, l)"
  obtains s' where "recv (Suc fuel) B reg s = Some (SPI_DATA_RX_VALID OR ucast x, s')" "view s' = (f, l)"
proof -
  obtain r s' where g: "get_data B reg s = (r, s')" by (metis surj_pair)
  have "r = SPI_DATA_RX_VALID OR ucast x" "view s' = (f, l)" using get_byte [OF assms g] by auto
  then show thesis using that g rx_word(1) by (simp add: Let_def)
qed

text \<open>One byte each way, for the callers with a limit and for those without.\<close>

lemma exchange:
  assumes "view s = ([], l)"
  obtains s' where "get_data B reg (set_data B reg (SPI_CMD_SEND_RECEIVE OR ucast (b :: u8)) s) =
      (SPI_DATA_RX_VALID OR ucast (fst (link_xfer hc b l)), s')" "view s' = ([], snd (link_xfer hc b l))"
proof -
  let ?s = "set_data B reg (SPI_CMD_SEND_RECEIVE OR ucast b) s"
  have v: "view ?s = ([fst (link_xfer hc b l)], snd (link_xfer hc b l))" using send_receive [OF assms] by simp
  obtain r s' where g: "get_data B reg ?s = (r, s')" by (metis surj_pair)
  show thesis using that g get_byte [OF v g] by auto
qed

lemma readwrite:
  assumes "view s = ([], l)"
  obtains s' where "sdmmc_readwrite_byte B reg b s = (uint (fst (link_xfer hc b l)), s')" "view s' = ([], snd (link_xfer hc b l))"
proof -
  obtain s' where g: "get_data B reg (set_data B reg (SPI_CMD_SEND_RECEIVE OR ucast b) s) =
      (SPI_DATA_RX_VALID OR ucast (fst (link_xfer hc b l)), s')" "view s' = ([], snd (link_xfer hc b l))"
    by (rule exchange [OF assms])
  have "sdmmc_readwrite_byte B reg b s = (uint (fst (link_xfer hc b l)), s')"
    unfolding sdmmc_readwrite_byte_def
    by (subst loop_steps(1)) (simp_all add: g(1) rx_word(1,2) uint_up_ucast is_up)
  then show thesis using that g(2) by blast
qed

lemma readwrite_view:
  assumes "view s = ([], l)"
  shows "view (snd (sdmmc_readwrite_byte B reg b s)) = ([], snd (link_xfer hc b l))"
proof -
  obtain s' where "sdmmc_readwrite_byte B reg b s = (uint (fst (link_xfer hc b l)), s')" "view s' = ([], snd (link_xfer hc b l))"
    by (rule readwrite [OF assms])
  then show ?thesis by simp
qed

lemma recv_ff:
  assumes "view s = ([], l)"
  obtains s' where "recv (Suc fuel) B reg (set_data B reg (SPI_CMD_SEND_RECEIVE OR 0xff) s) =
      Some (SPI_DATA_RX_VALID OR ucast (fst (link_xfer hc 0xff l)), s')" "view s' = ([], snd (link_xfer hc 0xff l))"
proof -
  have "view (set_data B reg (SPI_CMD_SEND_RECEIVE OR 0xff) s) = ([fst (link_xfer hc 0xff l)], snd (link_xfer hc 0xff l))"
    using send_receive [OF assms, where b = "0xff"] by simp
  from recv_byte [OF this] show thesis using that by blast
qed

text \<open>A response of two bytes, ones and zero, is accepted by the second round.\<close>

lemma r1_ok:
  assumes "view s = ([], True, c)" "outq c = 0xff # 0 # q" "inp c = []" "rxd c = None \<or> rxd c = Some (blk, None)"
  obtains s' where "sdmmc_get_r1_response (Suc fuel) B reg s = Some (0, s')" "view s' = ([], True, c\<lparr>outq := q\<rparr>)"
proof -
  have ff: "card_in hc 0xff (c\<lparr>outq := x\<rparr>) = c\<lparr>outq := x\<rparr>" for x using assms(3,4) by auto
  have x: "link_xfer hc 0xff (True, c) = (0xff, True, c\<lparr>outq := 0 # q\<rparr>)"
    "link_xfer hc 0xff (True, c\<lparr>outq := 0 # q\<rparr>) = (0, True, c\<lparr>outq := q\<rparr>)"
    using assms(2) ff by simp_all
  obtain s1 where 1: "recv (Suc fuel) B reg (set_data B reg (SPI_CMD_SEND_RECEIVE OR 0xff) s) =
      Some (SPI_DATA_RX_VALID OR ucast (0xff :: u8), s1)" "view s1 = ([], True, c\<lparr>outq := 0 # q\<rparr>)"
    by (rule recv_ff [OF assms(1), of fuel, unfolded x fst_conv snd_conv])
  obtain s2 where 2: "recv (Suc fuel) B reg (set_data B reg (SPI_CMD_SEND_RECEIVE OR 0xff) s1) =
      Some (SPI_DATA_RX_VALID OR ucast (0 :: u8), s2)" "view s2 = ([], True, c\<lparr>outq := q\<rparr>)"
    by (rule recv_ff [OF 1(2), of fuel, unfolded x fst_conv snd_conv])
  have "sdmmc_get_r1_response (Suc fuel) B reg s = Some (0, s2)"
    unfolding sdmmc_get_r1_response_def
    by (simp only: r1_next [OF _ 1(1)] r1_next [OF _ 2(1)]) simp
  then show thesis using 2(2) that by blast
qed

lemma send_cmd:
  assumes "view s = ([], True, card_idle d)" "cmd = 17 \<or> cmd = 24"
  obtains s' where "sdmmc_send_cmd (Suc fuel) B reg cmd arg crc 0 s = Some (0, s')"
    "view s' = ([], True, (card_cmd hc cmd arg d)\<lparr>outq := drop 2 (outq (card_cmd hc cmd arg d))\<rparr>)"
proof -
  let ?rw = "\<lambda>b s. snd (sdmmc_readwrite_byte B reg b s)"
  let ?s = "?rw crc (?rw (ucast arg) (?rw (ucast (drop_bit 8 arg)) (?rw (ucast (drop_bit 16 arg))
    (?rw (ucast (drop_bit 24 arg)) (?rw (cmd OR 0x40) s)))))"
  have rw: "view t = ([], True, c) \<Longrightarrow> outq c = [] \<Longrightarrow> view (?rw b t) = ([], True, card_in hc b c)" for t c b
    using readwrite_view [of t "(True, c)" b] by (cases c) simp
  have v: "view ?s = ([], True, card_cmd hc cmd arg d)"
    unfolding card_in_cmd [OF assms(2), of hc crc arg d, symmetric]
    by (intro rw assms(1)) (simp_all add: card_in_first card_in_more card_cmd_key [OF assms(2)])
  let ?c = "card_cmd hc cmd arg d"
  have c: "outq ?c = 0xff # 0 # drop 2 (outq ?c)" "inp ?c = []" "rxd ?c = None \<or> rxd ?c = Some (card_blk hc arg, None)"
    using assms(2) by (auto simp: card_cmd_def)
  from r1_ok [OF v c] obtain s' where "sdmmc_get_r1_response (Suc fuel) B reg ?s = Some (0, s')"
      "view s' = ([], True, ?c\<lparr>outq := drop 2 (outq ?c)\<rparr>)" by blast
  then show thesis using that by (simp add: sdmmc_send_cmd_def Let_def)
qed

lemma token_ok:
  assumes "view s = ([], True, c)" "outq c = 0xff # 0xfe # q" "inp c = []" "rxd c = None"
  obtains s' where "sdmmc_wait_r1_response (Suc fuel) B reg SDMMC_TOKEN_DATA1 1000 s = Some (SDMMC_ERROR_OK, s')"
    "view s' = ([], True, c\<lparr>outq := q\<rparr>)"
proof -
  have ff: "card_in hc 0xff (c\<lparr>outq := x\<rparr>) = c\<lparr>outq := x\<rparr>" for x using assms(3,4) by auto
  have x: "link_xfer hc 0xff (True, c) = (0xff, True, c\<lparr>outq := 0xfe # q\<rparr>)"
    "link_xfer hc 0xff (True, c\<lparr>outq := 0xfe # q\<rparr>) = (0xfe, True, c\<lparr>outq := q\<rparr>)"
    using assms(2) ff by simp_all
  obtain s1 where 1: "recv (Suc fuel) B reg (set_data B reg (SPI_CMD_SEND_RECEIVE OR 0xff) s) =
      Some (SPI_DATA_RX_VALID OR ucast (0xff :: u8), s1)" "view s1 = ([], True, c\<lparr>outq := 0xfe # q\<rparr>)"
    by (rule recv_ff [OF assms(1), of fuel, unfolded x fst_conv snd_conv])
  obtain s2 where 2: "recv (Suc fuel) B reg (set_data B reg (SPI_CMD_SEND_RECEIVE OR 0xff) s1) =
      Some (SPI_DATA_RX_VALID OR ucast (0xfe :: u8), s2)" "view s2 = ([], True, c\<lparr>outq := q\<rparr>)"
    by (rule recv_ff [OF 1(2), of fuel, unfolded x fst_conv snd_conv])
  have "token_loop (Suc fuel) B reg SDMMC_TOKEN_DATA1 SDMMC_TIMEOUT s = Some (True, s2)"
    by (simp only: token_next [OF _ 1(1)] token_next [OF _ 2(1)]) simp
  then have "sdmmc_wait_r1_response (Suc fuel) B reg SDMMC_TOKEN_DATA1 1000 s = Some (SDMMC_ERROR_OK, s2)"
    by (subst loop_steps(5)) simp_all
  then show thesis using 2(2) that by blast
qed

text \<open>The receive loop is one byte ahead of the card.\<close>

lemma rx_loop_card:
  "view s = ([nxt (ys @ rest)], True, c\<lparr>outq := tl (ys @ rest)\<rparr>) \<Longrightarrow> inp c = [] \<Longrightarrow> rxd c = None \<Longrightarrow>
    b + length ys \<le> length buf \<Longrightarrow>
    \<exists>s'. rx_loop (Suc fuel) B reg (length ys) buf b crc s = Some (foldl sdmmc_crc16_byte crc ys, blit buf b ys, s') \<and>
      view s' = ([nxt rest], True, c\<lparr>outq := tl rest\<rparr>)"
proof (induction ys arbitrary: buf b crc s)
  case (Cons y ys)
  have v: "view s = ([y], True, c\<lparr>outq := ys @ rest\<rparr>)" using Cons.prems(1) by simp
  obtain s1 where 1: "recv (Suc fuel) B reg s = Some (SPI_DATA_RX_VALID OR ucast y, s1)" "view s1 = ([], True, c\<lparr>outq := ys @ rest\<rparr>)"
    by (rule recv_byte [OF v])
  have x: "link_xfer hc 0xff (True, c\<lparr>outq := ys @ rest\<rparr>) = (nxt (ys @ rest), True, c\<lparr>outq := tl (ys @ rest)\<rparr>)"
    using Cons.prems(2,3) by simp
  have v2: "view (set_data B reg (SPI_CMD_SEND_RECEIVE OR 0xff) s1) = ([nxt (ys @ rest)], True, c\<lparr>outq := tl (ys @ rest)\<rparr>)"
    using send_receive [OF 1(2), where b = "0xff", unfolded x fst_conv snd_conv] by simp
  obtain s' where "rx_loop (Suc fuel) B reg (length ys) (buf[b := y]) (b + 1) (sdmmc_crc16_byte crc y)
      (set_data B reg (SPI_CMD_SEND_RECEIVE OR 0xff) s1) =
      Some (foldl sdmmc_crc16_byte (sdmmc_crc16_byte crc y) ys, blit (buf[b := y]) (b + 1) ys, s')"
    "view s' = ([nxt rest], True, c\<lparr>outq := tl rest\<rparr>)"
    using Cons.IH [OF v2 Cons.prems(2,3), of "b + 1" "buf[b := y]" "sdmmc_crc16_byte crc y"] Cons.prems(4) by auto
  then show ?case using 1(1) rx_word(3) [of y] blit_Cons [of b buf y ys] Cons.prems(4) by (simp del: recv.simps)
qed (simp add: blit_def)

lemma rx_buf_card:
  assumes "view s = ([], True, c)" "outq c = [0xff, 0xfe] @ ys" "inp c = []" "rxd c = None"
    "length ys = unat len + 2" "b + length ys \<le> length buf" "foldl sdmmc_crc16_byte 0 ys = 0"
  obtains s' where "sdmmc_rx_buf (Suc fuel) B reg buf b len s = Some (SDMMC_ERROR_OK, blit buf b ys, s')"
    "view s' = ([], True, c\<lparr>outq := []\<rparr>)"
proof -
  obtain s1 where 1: "sdmmc_wait_r1_response (Suc fuel) B reg SDMMC_TOKEN_DATA1 1000 s = Some (SDMMC_ERROR_OK, s1)"
    "view s1 = ([], True, c\<lparr>outq := ys\<rparr>)"
    using token_ok [OF assms(1) _ assms(3,4), of ys fuel] assms(2) by auto
  have "link_xfer hc 0xff (True, c\<lparr>outq := ys\<rparr>) = (nxt (ys @ []), True, c\<lparr>outq := tl (ys @ [])\<rparr>)"
    using assms(3,4) by simp
  then have v: "view (set_data B reg (SPI_CMD_SEND_RECEIVE OR 0xff) s1) = ([nxt (ys @ [])], True, c\<lparr>outq := tl (ys @ [])\<rparr>)"
    using send_receive [OF 1(2), where b = "0xff"] by simp
  obtain s2 where 2: "rx_loop (Suc fuel) B reg (unat len + 2) buf b 0 (set_data B reg (SPI_CMD_SEND_RECEIVE OR 0xff) s1) =
      Some (0, blit buf b ys, s2)" "view s2 = ([0xff], True, c\<lparr>outq := []\<rparr>)"
    using rx_loop_card [OF v assms(3,4), of b buf fuel 0] assms(5,6,7) by (simp del: rx_loop.simps) blast
  obtain r s3 where 3: "get_data B reg s2 = (r, s3)" by (metis surj_pair)
  have "view s3 = ([], True, c\<lparr>outq := []\<rparr>)" using get_byte [OF 2(2) 3] by blast
  moreover have "sdmmc_rx_buf (Suc fuel) B reg buf b len s = Some (SDMMC_ERROR_OK, blit buf b ys, s3)"
    unfolding sdmmc_rx_buf_def by (simp only: 1(1) 2(1) 3 bind.bind_lunit prod.case Let_def) (simp add: sd_errors)
  ultimately show thesis using that by blast
qed

lemma clear_fifo: "view s = (f, l) \<Longrightarrow> length f < fuel \<Longrightarrow> \<exists>s'. spi_clear_rx_fifo fuel B reg s = Some s' \<and> view s' = ([], l)"
proof (induction fuel arbitrary: f s)
  case (Suc fuel)
  obtain n s1 where 1: "rx_occupancy B reg s = (n, s1)" by (metis surj_pair)
  have v: "view s1 = (f, l)" "n = 0 \<longleftrightarrow> f = []" using occupancy [OF Suc.prems(1) 1] by auto
  show ?case
  proof (cases f)
    case Nil
    then show ?thesis using 1 v by simp
  next
    case (Cons x g)
    obtain r s2 where 2: "get_data B reg s1 = (r, s2)" by (metis surj_pair)
    have "view s2 = (g, l)" using get_byte [OF _ 2] v(1) Cons by blast
    then show ?thesis using Suc.IH [of s2 g] Suc.prems(2) 1 2 v Cons by simp
  qed
qed simp

lemma select_view: "view s = (f, sel, c) \<Longrightarrow> view (sdmmc_select B reg 0 s) = (f, True, c)"
  unfolding sdmmc_select_def by (rule enable)

lemma deselect_view:
  assumes "view s = ([], sel, c)"
  shows "view (sdmmc_deselect B reg 0 s) = ([], False, card_idle (contents c))"
  using readwrite_view [OF disable [OF assms], of "0xff"] unfolding sdmmc_deselect_def by (simp add: link_xfer_def)

lemma read_single_card:
  assumes "view s = ([], True, card_idle d)" "length (d n) = 512" "b + 514 \<le> length buf" "hc \<or> n < 0x800000"
  obtains s' where "read_single (Suc fuel) B reg (sd_addr hc n) buf b s = Some (Break, 0, blit buf b (d n @ crc_bytes (d n)), s')"
    "view s' = ([], True, card_idle d)"
proof -
  let ?c = "card_cmd hc 17 (sd_addr hc n) d"
  have q: "drop 2 (outq ?c) = [0xff, 0xfe] @ d n @ crc_bytes (d n)" "inp ?c = []" "rxd ?c = None"
    "?c\<lparr>outq := []\<rparr> = card_idle d"
    using card_blk_addr [OF assms(4)] by (simp_all add: card_cmd_def)
  obtain s1 where 1: "sdmmc_send_cmd (Suc fuel) B reg 17 (sd_addr hc n) 1 0 s = Some (0, s1)"
    "view s1 = ([], True, ?c\<lparr>outq := drop 2 (outq ?c)\<rparr>)"
    by (rule send_cmd [OF assms(1)]) auto
  obtain s2 where 2: "sdmmc_rx_buf (Suc fuel) B reg buf b (ucast SDMMC_BLOCK_SIZE) s1 =
      Some (SDMMC_ERROR_OK, blit buf b (d n @ crc_bytes (d n)), s2)" "view s2 = ([], True, card_idle d)"
  proof (rule rx_buf_card [OF 1(2)])
    show "outq (?c\<lparr>outq := drop 2 (outq ?c)\<rparr>) = [0xff, 0xfe] @ d n @ crc_bytes (d n)" using q(1) by simp
    show "length (d n @ crc_bytes (d n)) = unat (ucast SDMMC_BLOCK_SIZE :: u16) + 2"
      "b + length (d n @ crc_bytes (d n)) \<le> length buf"
      using assms(2,3) by (simp_all add: crc_bytes_accept)
  qed (use that q crc_bytes_accept in simp_all)
  show thesis
    by (rule that [of s2], unfold read_single_def, simp only: 1(1) 2(1) bind.bind_lunit prod.case)
      (simp_all add: sd_errors 2(2))
qed

lemma read_block_card:
  assumes "view s = (f, False, card_idle d)" "length f \<le> fuel" "length (d n) = 512" "b + 514 \<le> length buf"
    "hc \<or> n < 0x800000" "dvc < SDMMC_DEVICES" "sdmmc_devices ! nat dvc = (reg, 0)"
    "card_type cards (nat dvc) \<noteq> SDMMC_TYPE_NONE" "card_type cards (nat dvc) = SDMMC_TYPE_SDC_V2HC \<longleftrightarrow> hc"
    "n + 1 \<le> card_blocks cards (nat dvc)"
  obtains s' where "sdmmc_read_block (Suc fuel) B cards dvc n 1 buf b s = Some (0, blit buf b (d n @ crc_bytes (d n)), s')"
    "view s' = ([], False, card_idle d)"
proof -
  obtain s1 where 1: "spi_clear_rx_fifo (Suc fuel) B reg s = Some s1" "view s1 = ([], False, card_idle d)"
    using clear_fifo [OF assms(1), of "Suc fuel"] assms(2) by auto
  obtain s2 where 2: "read_single (Suc fuel) B reg (sd_addr hc n) buf b (sdmmc_select B reg 0 s1) =
      Some (Break, 0, blit buf b (d n @ crc_bytes (d n)), s2)" "view s2 = ([], True, card_idle d)"
    by (rule read_single_card [OF select_view [OF 1(2)] assms(3-5)])
  have "read_retry (Suc fuel) B reg 0 (sd_addr hc n) 1 SDMMC_RETRIES buf b s1 =
      Some (0, blit buf b (d n @ crc_bytes (d n)), sdmmc_deselect B reg 0 s2)"
    using 2(1) by (simp add: numeral_3_eq_3 Let_def)
  then have "sdmmc_read_block (Suc fuel) B cards dvc n 1 buf b s =
      Some (0, blit buf b (d n @ crc_bytes (d n)), sdmmc_deselect B reg 0 s2)"
    using assms(6-10) 1(1) unfolding sdmmc_read_block_def sd_addr_def
    by (cases hc) (simp_all add: linorder_not_le [symmetric] del: spi_clear_rx_fifo.simps read_retry.simps)
  then show thesis using that deselect_view [OF 2(2)] by simp
qed

lemma exchange_ff:
  assumes "view s = ([], l)"
  obtains s' where "get_data B reg (set_data B reg (SPI_CMD_SEND_RECEIVE OR 0xff) s) =
      (SPI_DATA_RX_VALID OR ucast (fst (link_xfer hc 0xff l)), s')" "view s' = ([], snd (link_xfer hc 0xff l))"
proof -
  have u: "(ucast (0xff :: u8) :: u32) = 0xff" by simp
  show thesis by (rule exchange [OF assms, where b = "0xff", unfolded u]) (rule that)
qed

lemma wait_ready_card:
  assumes "view s = ([], True, c)" "inp c = []" "rxd c = None \<or> rxd c = Some (blk, None)"
    "outq c = [] \<or> outq c = [0]"
  obtains s' where "sdmmc_wait_ready B reg s = (SDMMC_ERROR_OK, s')" "view s' = ([], True, c\<lparr>outq := []\<rparr>)"
proof -
  have x: "link_xfer hc 0xff (True, c\<lparr>outq := q\<rparr>) = (nxt q, True, c\<lparr>outq := tl q\<rparr>)" for q
    using assms(2,3) by auto
  have c: "c\<lparr>outq := outq c\<rparr> = c" by simp
  show thesis
  proof (cases "outq c = []")
    case True
    with x [of "[]"] c have x1: "link_xfer hc 0xff (True, c) = (0xff, True, c\<lparr>outq := []\<rparr>)" by simp
    obtain s1 where 1: "get_data B reg (set_data B reg (SPI_CMD_SEND_RECEIVE OR 0xff) s) = (SPI_DATA_RX_VALID OR ucast (0xff :: u8), s1)"
      "view s1 = ([], True, c\<lparr>outq := []\<rparr>)"
      by (rule exchange_ff [OF assms(1), unfolded x1 fst_conv snd_conv])
    have "sdmmc_wait_ready B reg s = (SDMMC_ERROR_OK, s1)"
      unfolding sdmmc_wait_ready_def by (subst ready_next [OF _ 1(1)]) simp_all
    then show thesis using 1(2) that by blast
  next
    case False
    with x [of "[0]"] c assms(4) have x1: "link_xfer hc 0xff (True, c) = (0, True, c\<lparr>outq := []\<rparr>)" by simp
    have x2: "link_xfer hc 0xff (True, c\<lparr>outq := []\<rparr>) = (0xff, True, c\<lparr>outq := []\<rparr>)" using x [of "[]"] by simp
    obtain s1 where 1: "get_data B reg (set_data B reg (SPI_CMD_SEND_RECEIVE OR 0xff) s) = (SPI_DATA_RX_VALID OR ucast (0 :: u8), s1)"
      "view s1 = ([], True, c\<lparr>outq := []\<rparr>)"
      by (rule exchange_ff [OF assms(1), unfolded x1 fst_conv snd_conv])
    obtain s2 where 2: "get_data B reg (set_data B reg (SPI_CMD_SEND_RECEIVE OR 0xff) s1) = (SPI_DATA_RX_VALID OR ucast (0xff :: u8), s2)"
      "view s2 = ([], True, c\<lparr>outq := []\<rparr>)"
      by (rule exchange_ff [OF 1(2), unfolded x2 fst_conv snd_conv])
    have "sdmmc_wait_ready B reg s = (SDMMC_ERROR_OK, s2)"
      unfolding sdmmc_wait_ready_def by (simp only: ready_next [OF _ 1(1)] ready_next [OF _ 2(1)]) simp
    then show thesis using 2(2) that by blast
  qed
qed

lemma tx_avail:
  assumes "view s = v" "m = 1 \<or> m = 2"
  obtains a s' where "spi_wait_tx_avail B reg m 1000 s = (a, s')" "a \<noteq> 0" "view s' = v"
proof -
  obtain n s1 where 1: "spi_status B reg s = (n, s1)" by (metis surj_pair)
  have st: "view s1 = v" "2 \<le> drop_bit 16 (n AND SPI_STATUS_TX_AVAIL)" using status [OF assms(1) 1] by auto
  let ?a = "drop_bit 16 (n AND SPI_STATUS_TX_AVAIL)"
  have m: "m \<le> ?a" and a: "?a \<noteq> 0"
    using st(2) assms(2) by (auto simp: word_le_nat_alt)
  have "spi_wait_tx_avail B reg m 1000 s = (?a, s1)"
    by (subst loop_steps(6)) (use 1 m in \<open>simp_all add: spi_get_tx_avail_def Let_def\<close>)
  then show thesis using that a st(1) by blast
qed

lemma tx_loop_card:
  "view s = ([], True, c) \<Longrightarrow> rxd c = Some (blk, Some xs) \<Longrightarrow> outq c = [] \<Longrightarrow> length xs + length ys \<le> 513 \<Longrightarrow>
    \<exists>s'. tx_loop B reg ys s = (True, s') \<and> view s' = ([], True, c\<lparr>rxd := Some (blk, Some (xs @ ys))\<rparr>)"
proof (induction ys arbitrary: xs c s)
  case (Cons y ys)
  obtain a s1 where 1: "spi_wait_tx_avail B reg 1 1000 s = (a, s1)" "a \<noteq> 0" "view s1 = ([], True, c)"
    by (rule tx_avail [OF Cons.prems(1), of 1]) simp
  let ?c = "c\<lparr>rxd := Some (blk, Some (xs @ [y]))\<rparr>"
  have "c\<lparr>outq := []\<rparr> = c" using Cons.prems(3) by simp
  then have "snd (link_xfer hc y (True, c)) = (True, ?c)"
    using Cons.prems(2-4) by (simp add: card_in_data)
  then have v: "view (set_data B reg (SPI_CMD_SEND OR ucast y) s1) = ([], True, ?c)"
    using send [OF 1(3), of y] by (simp only:)
  obtain s' where "tx_loop B reg ys (set_data B reg (SPI_CMD_SEND OR ucast y) s1) = (True, s')"
    "view s' = ([], True, ?c\<lparr>rxd := Some (blk, Some ((xs @ [y]) @ ys))\<rparr>)"
    using Cons.IH [OF v] Cons.prems(3,4) by auto
  then show ?case using 1(1,2) by (simp add: Let_def)
qed simp

text \<open>One byte sent without looking at the answer.\<close>

lemma send_view:
  assumes "view s = ([], True, c)" "outq c = []"
  shows "view (set_data B reg (SPI_CMD_SEND OR ucast (b :: u8)) s) = ([], True, card_in hc b c)"
proof -
  have "c\<lparr>outq := []\<rparr> = c" using assms(2) by simp
  then show ?thesis using send [OF assms(1), of b] assms(2) by (simp only: link_selected snd_conv list.sel)
qed

lemma tx_buf_card:
  assumes "view s = ([], True, (card_idle d)\<lparr>rxd := Some (blk, None)\<rparr>)" "512 \<le> length buf"
  obtains s' where "sdmmc_tx_buf B reg buf (ucast SDMMC_BLOCK_SIZE) SDMMC_TOKEN_DATA1 s = (SDMMC_ERROR_OK, s')"
    "view s' = ([], True, (card_idle (d(blk := take 512 buf)))\<lparr>outq := [0]\<rparr>)"
proof -
  let ?c = "\<lambda>xs. (card_idle d)\<lparr>rxd := Some (blk, Some xs)\<rparr>"
  have o: "(?c xs)\<lparr>outq := []\<rparr> = ?c xs" for xs by (simp add: card_idle_def)
  obtain s1 where 1: "sdmmc_wait_ready B reg s = (SDMMC_ERROR_OK, s1)"
    "view s1 = ([], True, (card_idle d)\<lparr>rxd := Some (blk, None)\<rparr>\<lparr>outq := []\<rparr>)"
    by (rule wait_ready_card [OF assms(1)]) auto
  obtain r2 s2 where 2: "sdmmc_readwrite_byte B reg SDMMC_TOKEN_DATA1 s1 = (r2, s2)" by (metis surj_pair)
  have v2: "view s2 = ([], True, ?c [])"
    using readwrite_view [OF 1(2), of SDMMC_TOKEN_DATA1] 2 by (simp add: card_in_data card_idle_def)
  have n: "unat (ucast SDMMC_BLOCK_SIZE :: u16) = 512" by simp
  obtain s3 where 3: "tx_loop B reg (take 512 buf) s2 = (True, s3)" "view s3 = ([], True, ?c (take 512 buf))"
    using tx_loop_card [OF v2, of blk "[]" "take 512 buf"] assms(2) by (simp add: min.absorb2) blast
  obtain a s4 where 4: "spi_wait_tx_avail B reg 2 1000 s3 = (a, s4)" "a \<noteq> 0" "view s4 = ([], True, ?c (take 512 buf))"
    by (rule tx_avail [OF 3(2), of 2]) simp
  let ?s5 = "set_data B reg (SPI_CMD_SEND OR ucast (0 :: u8)) s4"
  let ?s6 = "set_data B reg (SPI_CMD_SEND OR ucast (0 :: u8)) ?s5"
  have v5: "view ?s5 = ([], True, ?c (take 512 buf @ [0]))"
    using send_view [OF 4(3), of 0] assms(2) by (simp add: card_in_data min.absorb2)
  let ?d = "(card_idle (d(blk := take 512 buf)))\<lparr>outq := [0xe5, 0]\<rparr>"
  have v6: "view ?s6 = ([], True, ?d)"
    using send_view [OF v5, of 0] assms(2) by (simp add: card_in_data card_idle_def min.absorb2)
  obtain s7 where 7: "sdmmc_readwrite_byte B reg 0xff ?s6 = (229, s7)" "view s7 = ([], True, ?d\<lparr>outq := [0]\<rparr>)"
    by (rule readwrite [OF v6, of "0xff"], rule that) simp_all
  have r: "resp_loop B reg (SDMMC_TIMEOUT * 64) ?s6 = (SDMMC_ERROR_OK, s7)"
    by (subst loop_steps(7)) (simp_all only: 7(1) prod.case Let_def, simp_all)
  have z: "set_data B reg (SPI_CMD_SEND OR ucast (drop_bit 8 (0 :: u16))) t = set_data B reg (SPI_CMD_SEND OR ucast (0 :: u8)) t"
    "set_data B reg (SPI_CMD_SEND OR ucast ((0 :: u16) AND 0xff)) t = set_data B reg (SPI_CMD_SEND OR ucast (0 :: u8)) t" for t
    by simp_all
  have "sdmmc_tx_buf B reg buf (ucast SDMMC_BLOCK_SIZE) SDMMC_TOKEN_DATA1 s = (SDMMC_ERROR_OK, s7)"
    unfolding sdmmc_tx_buf_def Let_def n z 1(1) prod.case 2 3(1) 4(1) r using 4(2) by (simp add: sd_errors)
  then show thesis using 7(2) that by simp
qed

lemma write_attempt_card:
  assumes "view s = ([], True, card_idle d)" "512 \<le> length buf" "hc \<or> n < 0x800000"
  obtains s' where "write_attempt (Suc fuel) B reg (sd_addr hc n) 1 buf s = Some (True, 0, s')"
    "view s' = ([], True, card_idle (d(n := take 512 buf)))"
proof -
  let ?c = "card_cmd hc 24 (sd_addr hc n) d"
  have q: "drop 2 (outq ?c) = []" "?c\<lparr>outq := []\<rparr> = (card_idle d)\<lparr>rxd := Some (n, None)\<rparr>"
    using card_blk_addr [OF assms(3)] by (simp_all add: card_cmd_def card_idle_def)
  obtain s1 where 1: "sdmmc_send_cmd (Suc fuel) B reg 24 (sd_addr hc n) 1 0 s = Some (0, s1)"
    "view s1 = ([], True, (card_idle d)\<lparr>rxd := Some (n, None)\<rparr>)"
    using send_cmd [OF assms(1), of 24 fuel "sd_addr hc n" 1] q by auto
  have v2: "view (snd (sdmmc_readwrite_byte B reg 0xff s1)) = ([], True, (card_idle d)\<lparr>rxd := Some (n, None)\<rparr>)"
    using readwrite_view [OF 1(2), of "0xff"] by (simp add: card_idle_def)
  obtain s3 where 3: "sdmmc_tx_buf B reg buf (ucast SDMMC_BLOCK_SIZE) SDMMC_TOKEN_DATA1 (snd (sdmmc_readwrite_byte B reg 0xff s1)) =
      (SDMMC_ERROR_OK, s3)" "view s3 = ([], True, (card_idle (d(n := take 512 buf)))\<lparr>outq := [0]\<rparr>)"
    by (rule tx_buf_card [OF v2 assms(2)])
  obtain s4 where 4: "sdmmc_wait_ready B reg s3 = (SDMMC_ERROR_OK, s4)" "view s4 = ([], True, card_idle (d(n := take 512 buf)))"
    using wait_ready_card [OF 3(2)] by (auto simp: card_idle_def)
  show thesis
    by (rule that [of s4], unfold write_attempt_def, simp only: 1(1) 3(1) 4(1) bind.bind_lunit prod.case Let_def)
      (simp_all add: sd_errors 4(2))
qed

lemma write_block_card:
  assumes "view s = (f, False, card_idle d)" "length f \<le> fuel" "512 \<le> length buf"
    "hc \<or> n < 0x800000" "dvc < SDMMC_DEVICES" "sdmmc_devices ! nat dvc = (reg, 0)"
    "card_type cards (nat dvc) \<noteq> SDMMC_TYPE_NONE" "card_type cards (nat dvc) = SDMMC_TYPE_SDC_V2HC \<longleftrightarrow> hc"
    "n + 1 \<le> card_blocks cards (nat dvc)" "wp \<le> n" "garbage \<noteq> 3"
  obtains s' where "sdmmc_write_block (Suc fuel) B garbage wp cards dvc n 1 buf s = Some (0, s')"
    "view s' = ([], False, card_idle (d(n := take 512 buf)))"
proof -
  obtain s1 where 1: "spi_clear_rx_fifo (Suc fuel) B reg s = Some s1" "view s1 = ([], False, card_idle d)"
    using clear_fifo [OF assms(1), of "Suc fuel"] assms(2) by auto
  obtain s2 where 2: "write_attempt (Suc fuel) B reg (sd_addr hc n) 1 buf (sdmmc_select B reg 0 s1) = Some (True, 0, s2)"
      "view s2 = ([], True, card_idle (d(n := take 512 buf)))"
    by (rule write_attempt_card [OF select_view [OF 1(2)] assms(3,4)])
  obtain s3 where 3: "sdmmc_wait_ready B reg s2 = (SDMMC_ERROR_OK, s3)" "view s3 = ([], True, card_idle (d(n := take 512 buf)))"
    using wait_ready_card [OF 2(2)] by auto
  have "write_retry (Suc fuel) B reg 0 (sd_addr hc n) 1 SDMMC_RETRIES 0 buf s1 = Some (0, sdmmc_deselect B reg 0 s3)"
    using 2(1) 3(1) by (simp add: numeral_3_eq_3 Let_def)
  then have "sdmmc_write_block (Suc fuel) B garbage wp cards dvc n 1 buf s = Some (0, sdmmc_deselect B reg 0 s3)"
    using assms(5-11) 1(1) unfolding sdmmc_write_block_def sd_addr_def
    by (cases hc) (simp_all add: linorder_not_le [symmetric] del: spi_clear_rx_fifo.simps write_retry.simps)
  then show thesis using that deselect_view [OF 3(2)] by simp
qed

end

section \<open>A controller with a FIFO\<close>

text \<open>The word written to \<open>DATA\<close>, as spi.h describes it: the command in the upper byte.\<close>

definition fifo_write :: "bool \<Rightarrow> u32 \<Rightarrow> u8 list \<times> bool \<times> card \<Rightarrow> u8 list \<times> bool \<times> card" where
  "fifo_write hc w = (\<lambda>(f, l). let cmd = drop_bit 24 w; x = link_xfer hc (ucast w) l in
     if cmd = 1 then (f @ [fst x], snd x)
     else if cmd = 0 then (f, snd x)
     else if cmd = 0x11 then (f, True, snd l)
     else if cmd = 0x10 then (f, False, card_idle (contents (snd l)))
     else (f, l))"

definition fifo_bus :: "bool \<Rightarrow> (u8 list \<times> bool \<times> card) spi_bus" where
  "fifo_bus hc = \<lparr>set_data = (\<lambda>reg w s. fifo_write hc w s),
     get_data = (\<lambda>reg (f, l). (case f of [] \<Rightarrow> (0, [], l) | x # f \<Rightarrow> (SPI_DATA_RX_VALID OR ucast x, f, l))),
     spi_status = (\<lambda>reg s. (0x100000, s)),
     rx_occupancy = (\<lambda>reg (f, l). (of_nat (min 16 (length f)), f, l)),
     set_config = (\<lambda>reg config s. s), wait_us = (\<lambda>us s. s)\<rparr>"

lemma cmd_word:
  fixes b :: u8
  shows "drop_bit 24 (SPI_CMD_SEND_RECEIVE OR ucast b) = 1" "ucast (SPI_CMD_SEND_RECEIVE OR ucast b) = b"
    "drop_bit 24 (SPI_CMD_SEND OR ucast b) = 0" "ucast (SPI_CMD_SEND OR ucast b) = b"
proof -
  have v: "bit (0x01000000 :: u32) n \<longleftrightarrow> n = 24" for n
  proof -
    have "(0x01000000 :: u32) = push_bit 24 1" by simp
    then show ?thesis by (simp only: bit_push_bit_iff bit_1_iff) auto
  qed
  have o: "bit (1 :: u32) n \<longleftrightarrow> n = 0" for n by (simp add: bit_1_iff)
  show "drop_bit 24 (SPI_CMD_SEND_RECEIVE OR ucast b) = 1"
    by (rule bit_word_eqI, simp only: bit_drop_bit_eq o_apply bit_or_iff bit_ucast_iff v o) (auto dest: bit_imp_le_length)
  show "ucast (SPI_CMD_SEND_RECEIVE OR ucast b) = b"
    by (rule bit_word_eqI, simp only: bit_or_iff bit_ucast_iff v) auto
  show "drop_bit 24 (SPI_CMD_SEND OR ucast b) = 0"
    by (rule bit_word_eqI) (auto simp: bit_simps dest: bit_imp_le_length)
  show "ucast (SPI_CMD_SEND OR ucast b) = b"
    by (rule bit_word_eqI) (auto simp: bit_simps)
qed

interpretation fifo: sd_link "fifo_bus hc" reg hc "\<lambda>s. s"
proof unfold_locales
  fix b :: u8 and f l and s :: "u8 list \<times> bool \<times> card"
  assume "s = (f, l)"
  then show "set_data (fifo_bus hc) reg (SPI_CMD_SEND_RECEIVE OR ucast b) s = (f @ [fst (link_xfer hc b l)], snd (link_xfer hc b l))"
    "set_data (fifo_bus hc) reg (SPI_CMD_SEND OR ucast b) s = (f, snd (link_xfer hc b l))"
    by (simp_all only: fifo_bus_def spi_bus.simps fifo_write_def prod.case Let_def cmd_word) simp_all
next
  fix n f l s' and s :: "u8 list \<times> bool \<times> card"
  assume "s = (f, l)" "rx_occupancy (fifo_bus hc) reg s = (n, s')"
  moreover have "of_nat (min 16 (length f)) = (0 :: u32) \<longleftrightarrow> f = []"
    by (auto simp: word_of_nat_eq_0_iff dest: dvd_imp_le)
  ultimately show "s' = (f, l) \<and> (n = 0 \<longleftrightarrow> f = [])" by (auto simp: fifo_bus_def)
qed (auto simp: fifo_bus_def fifo_write_def)

section \<open>The disk\<close>

text \<open>The state of a disk is what the card holds; a block that is not 512 bytes long is cut or filled
  up. A negative device number, which the driver does not check, is left out.\<close>

definition sd_sectors :: "(u32 \<Rightarrow> u8 list) \<Rightarrow> u32 \<Rightarrow> u8 list" where
  "sd_sectors d n = take 512 (d n @ replicate 512 0)"

definition sd_disk :: "int \<Rightarrow> u32 \<Rightarrow> u8 list \<Rightarrow> (u32 \<Rightarrow> u8 list) DiskOps" where
  "sd_disk garbage wp cards =
    \<lparr>op_read = (\<lambda>dv buf n d. if sint dv < 0 then (False, buf, d)
       else (case disk_read 1 (fifo_bus True) cards dv buf n ([], False, card_idle (sd_sectors d)) of
         None \<Rightarrow> (False, buf, d) | Some (ok, buf, _, _, c) \<Rightarrow> (ok, buf, contents c))),
     op_write = (\<lambda>dv buf n d. if sint dv < 0 then (False, d)
       else (case disk_write 1 (fifo_bus True) garbage wp cards dv buf n ([], False, card_idle (sd_sectors d)) of
         None \<Rightarrow> (False, d) | Some (ok, _, _, c) \<Rightarrow> (ok, contents c)))\<rparr>"

lemma length_sd_sectors [simp]: "length (sd_sectors d n) = 512"
  by (simp add: sd_sectors_def)

lemma sd_sectors_id: "length (d n) = 512 \<Longrightarrow> sd_sectors d n = d n"
  by (simp add: sd_sectors_def)

lemma sd_sectors_idem [simp]: "sd_sectors (sd_sectors d) = sd_sectors d"
  by (rule ext) (simp add: sd_sectors_id)

text \<open>A call the driver refuses leaves everything as it is.\<close>

lemma read_refused:
  assumes "SDMMC_DEVICES \<le> dvc \<or> card_type cards (nat dvc) = SDMMC_TYPE_NONE \<or> card_blocks cards (nat dvc) < n + 1"
  obtains ret where "sdmmc_read_block fuel B cards dvc n 1 buf b s = Some (ret, buf, s)" "ret \<noteq> 0"
  using assms that unfolding sdmmc_read_block_def
  by (cases "SDMMC_DEVICES \<le> dvc"; cases "card_type cards (nat dvc) = SDMMC_TYPE_NONE") (auto simp: sd_errors)

lemma write_refused:
  assumes "n < wp \<or> SDMMC_DEVICES \<le> dvc \<or> card_type cards (nat dvc) = SDMMC_TYPE_NONE \<or> card_blocks cards (nat dvc) < n + 1"
  obtains ret where "sdmmc_write_block fuel B garbage wp cards dvc n 1 buf s = Some (ret, s)" "ret \<noteq> 0"
  using assms that unfolding sdmmc_write_block_def
  by (cases "n < wp"; cases "SDMMC_DEVICES \<le> dvc"; cases "card_blocks cards (nat dvc) < n + 1") (auto simp: sd_errors)

lemma devices_cases: "0 \<le> dvc \<Longrightarrow> dvc < SDMMC_DEVICES \<Longrightarrow> \<exists>reg. sdmmc_devices ! nat dvc = (reg, 0)"
proof -
  assume "0 \<le> dvc" "dvc < SDMMC_DEVICES"
  then have "nat dvc = 0 \<or> nat dvc = 1" by auto
  then show ?thesis by (auto simp: sdmmc_devices_def)
qed

text \<open>All the cards found are version 2 cards of high capacity.\<close>

definition hc_cards :: "u8 list \<Rightarrow> bool" where
  "hc_cards cards \<longleftrightarrow> (\<forall>i < 2. card_type cards i \<in> {SDMMC_TYPE_NONE, SDMMC_TYPE_SDC_V2HC})"

lemma sd_disk_read:
  assumes "hc_cards cards" "length buf = 514" "op_read (sd_disk garbage wp cards) dv buf n d = (ok, buf', d')"
  shows "length buf' = 514 \<and> sd_sectors d' = sd_sectors d \<and> (ok \<longrightarrow> take 512 buf' = sd_sectors d n)"
proof (cases "sint dv < 0")
  case False
  let ?s = "([], False, card_idle (sd_sectors d))"
  show ?thesis
  proof (cases "SDMMC_DEVICES \<le> sint dv \<or> card_type cards (nat (sint dv)) = SDMMC_TYPE_NONE \<or> card_blocks cards (nat (sint dv)) < n + 1")
    case True
    obtain ret where "sdmmc_read_block 1 (fifo_bus True) cards (sint dv) n 1 buf 0 ?s = Some (ret, buf, ?s)" "ret \<noteq> 0"
      by (rule read_refused [OF True])
    then show ?thesis using assms(2,3) False by (auto simp: sd_disk_def disk_read_def)
  next
    case ok: False
    obtain reg where reg: "sdmmc_devices ! nat (sint dv) = (reg, 0)" using devices_cases [of "sint dv"] False ok by auto
    have "nat (sint dv) < 2" using False ok by linarith
    then have t: "card_type cards (nat (sint dv)) = SDMMC_TYPE_SDC_V2HC \<longleftrightarrow> True"
      using assms(1) ok False by (auto simp: hc_cards_def)
    obtain s' where s': "sdmmc_read_block (Suc 0) (fifo_bus True) cards (sint dv) n 1 buf 0 ?s =
        Some (0, blit buf 0 (sd_sectors d n @ crc_bytes (sd_sectors d n)), s')" "s' = ([], False, card_idle (sd_sectors d))"
    proof (rule fifo.read_block_card [where hc = True and reg = reg and s = ?s and f = "[]" and fuel = 0 and cards = cards
          and dvc = "sint dv" and n = n and b = 0 and buf = buf and d = "sd_sectors d"])
    qed (use ok reg t assms(2) in auto)
    then show ?thesis using assms(2,3) False
      by (auto simp: sd_disk_def disk_read_def blit_def crc_bytes_accept)
  qed
qed (use assms in \<open>auto simp: sd_disk_def\<close>)

lemma sd_disk_write:
  assumes "hc_cards cards" "garbage \<noteq> 3" "length buf = 514" "op_write (sd_disk garbage wp cards) dv buf n d = (ok, d')"
  shows "(ok \<longrightarrow> sd_sectors d' n = take 512 buf) \<and> (m \<noteq> n \<longrightarrow> sd_sectors d' m = sd_sectors d m)"
proof (cases "sint dv < 0")
  case False
  let ?s = "([], False, card_idle (sd_sectors d))"
  show ?thesis
  proof (cases "n < wp \<or> SDMMC_DEVICES \<le> sint dv \<or> card_type cards (nat (sint dv)) = SDMMC_TYPE_NONE \<or> card_blocks cards (nat (sint dv)) < n + 1")
    case True
    obtain ret where "sdmmc_write_block 1 (fifo_bus True) garbage wp cards (sint dv) n 1 buf ?s = Some (ret, ?s)" "ret \<noteq> 0"
      by (rule write_refused [OF True])
    then show ?thesis using assms(4) False by (auto simp: sd_disk_def disk_write_def)
  next
    case ok: False
    obtain reg where reg: "sdmmc_devices ! nat (sint dv) = (reg, 0)" using devices_cases [of "sint dv"] False ok by auto
    have "nat (sint dv) < 2" using False ok by linarith
    then have t: "card_type cards (nat (sint dv)) = SDMMC_TYPE_SDC_V2HC \<longleftrightarrow> True"
      using assms(1) ok False by (auto simp: hc_cards_def)
    let ?d = "(sd_sectors d)(n := take 512 buf)"
    obtain s' where s': "sdmmc_write_block (Suc 0) (fifo_bus True) garbage wp cards (sint dv) n 1 buf ?s = Some (0, s')"
      "s' = ([], False, card_idle ?d)"
    proof (rule fifo.write_block_card [where hc = True and reg = reg and s = ?s and f = "[]" and fuel = 0 and cards = cards
          and dvc = "sint dv" and n = n and buf = buf and d = "sd_sectors d" and wp = wp and garbage = garbage])
    qed (use ok reg t assms(2,3) in auto)
    then have "ok" "d' = ?d" using assms(4) False by (auto simp: sd_disk_def disk_write_def)
    moreover have "sd_sectors ?d n = take 512 buf" using assms(3) by (simp add: sd_sectors_id)
    moreover have "m \<noteq> n \<Longrightarrow> sd_sectors ?d m = sd_sectors d m" by (simp add: sd_sectors_id)
    ultimately show ?thesis by simp
  qed
qed (use assms in \<open>auto simp: sd_disk_def\<close>)

section \<open>Properties\<close>

lemma sample_cards: "card_type sample_cards 0 = 3" "card_blocks sample_cards 0 = 10" "hc_cards sample_cards"
proof -
  have c: "card_type sample_cards 0 = 3" "card_type sample_cards 1 = 0" "card_blocks sample_cards 0 = 10"
    by (simp_all add: sample_cards_def card_type_def card_blocks_def
      ld32_cong [where i = 0 and b = "st32 (st32 (replicate 88 0) 0 3) 8 10" and c = "st32 (replicate 88 0) 0 3"])
      (simp_all add: ld32_def)
  then show "card_type sample_cards 0 = 3" "card_blocks sample_cards 0 = 10" by blast+
  show "hc_cards sample_cards" using c by (auto simp: hc_cards_def less_2_cases_iff)
qed





end
