(* ===== verification/ZLink.thy ===== *)
theory ZLink
  imports Crc
begin

text \<open>
  The link layer of the ZMODEM receiver (\<open>karnix_monitor/src/zmodem.c\<close>, first half): the byte
  reader \<open>readline\<close> over \<open>uart_read\<close>, the ZDLE and hexadecimal codecs, and the senders and
  receivers of headers and data subpackets. The globals of the C file are the fields of the
  record \<open>zlink\<close>; a function that updates globals takes the record and returns it updated.

  The serial line is an argument of the model: \<open>rx\<close> lists what the successive polls of the UART
  receive FIFO find (the outer loop of \<open>uart_read\<close>), a burst of bytes or, when the time window
  of the poll expires, nothing; when the list is used up the line stays silent. \<open>tx\<close> collects the
  bytes written to the UART. \<open>Verbose\<close> is 0 in the firmware and never assigned, so the tracing
  (\<open>vfile\<close>, \<open>zperr\<close>) does nothing; \<open>Wcsmask\<close>, \<open>Baudrate\<close> and \<open>Zrwindow\<close> keep one value and
  are constants here.
\<close>

section \<open>The globals\<close>

record zlink =
  rx :: "u8 list list"
  tx :: "u8 list"
  linbuf :: "u8 list"
  cdq :: nat
  Lleft :: int
  Readnum :: nat
  Zctlesc :: int
  lastsent :: int
  Rxframeind :: int
  Rxtype :: int
  Rxcount :: int
  Rxhdr :: "u8 list"
  Txhdr :: "u8 list"
  Rxpos :: u32
  Txfcs32 :: int
  Crc32t :: int
  Crc32 :: int
  Znulls :: nat
  Zmodem :: int
  Errors :: int

section \<open>Constants\<close>

text \<open>The protocol constants of \<open>zmodem.h\<close> that the control flow tests.\<close>

abbreviation (input) ZPAD :: int where "ZPAD \<equiv> 0x2A"
abbreviation (input) ZDLE :: int where "ZDLE \<equiv> 0x18"
abbreviation (input) CAN :: int where "CAN \<equiv> 0x18"
abbreviation (input) ZBIN :: int where "ZBIN \<equiv> 0x41"
abbreviation (input) ZHEX :: int where "ZHEX \<equiv> 0x42"
abbreviation (input) ZBIN32 :: int where "ZBIN32 \<equiv> 0x43"
abbreviation (input) XON :: int where "XON \<equiv> 0x11"
abbreviation (input) XOFF :: int where "XOFF \<equiv> 0x13"
abbreviation (input) ZCRCE :: int where "ZCRCE \<equiv> 0x68"
abbreviation (input) ZCRCG :: int where "ZCRCG \<equiv> 0x69"
abbreviation (input) ZCRCQ :: int where "ZCRCQ \<equiv> 0x6A"
abbreviation (input) ZCRCW :: int where "ZCRCW \<equiv> 0x6B"
abbreviation (input) ZRUB0 :: int where "ZRUB0 \<equiv> 0x6C"
abbreviation (input) ZRUB1 :: int where "ZRUB1 \<equiv> 0x6D"
abbreviation (input) GOTOR :: int where "GOTOR \<equiv> 0x100"
abbreviation (input) GOTCRCE :: int where "GOTCRCE \<equiv> 0x168"
abbreviation (input) GOTCRCG :: int where "GOTCRCG \<equiv> 0x169"
abbreviation (input) GOTCRCQ :: int where "GOTCRCQ \<equiv> 0x16A"
abbreviation (input) GOTCRCW :: int where "GOTCRCW \<equiv> 0x16B"
abbreviation (input) GOTCAN :: int where "GOTCAN \<equiv> 0x118"
abbreviation (input) ZERROR :: int where "ZERROR \<equiv> - 1"
abbreviation (input) TIMEOUT :: int where "TIMEOUT \<equiv> - 2"
abbreviation (input) RCDO :: int where "RCDO \<equiv> - 3"
abbreviation (input) ZRINIT :: int where "ZRINIT \<equiv> 1"
abbreviation (input) ZSINIT :: int where "ZSINIT \<equiv> 2"
abbreviation (input) ZACK :: int where "ZACK \<equiv> 3"
abbreviation (input) ZFILE :: int where "ZFILE \<equiv> 4"
abbreviation (input) ZSKIP :: int where "ZSKIP \<equiv> 5"
abbreviation (input) ZNAK :: int where "ZNAK \<equiv> 6"
abbreviation (input) ZABORT :: int where "ZABORT \<equiv> 7"
abbreviation (input) ZFIN :: int where "ZFIN \<equiv> 8"
abbreviation (input) ZRPOS :: int where "ZRPOS \<equiv> 9"
abbreviation (input) ZDATA :: int where "ZDATA \<equiv> 10"
abbreviation (input) ZEOF :: int where "ZEOF \<equiv> 11"
abbreviation (input) ZCOMMAND :: int where "ZCOMMAND \<equiv> 18"
abbreviation (input) ZCOMPL :: int where "ZCOMPL \<equiv> 15"
abbreviation (input) ZCAN :: int where "ZCAN \<equiv> 16"
abbreviation (input) ZFREECNT :: int where "ZFREECNT \<equiv> 17"

definition Wcsmask :: int where "Wcsmask = 0xFF"

definition Zrwindow :: int where "Zrwindow = 1400"

definition Baudrate :: int where "Baudrate = 115200"

definition HOWMANY :: nat where "HOWMANY = 133"

section \<open>Reading the line\<close>

text \<open>
  \<open>uart_read\<close>: every iteration polls the FIFO; a poll that times out ends the call, a poll that
  finds bytes takes all of them, even when fewer than that are still wanted.
\<close>

fun uart_read :: "nat \<Rightarrow> u8 list \<Rightarrow> u8 list list \<Rightarrow> u8 list \<times> u8 list list" where
  "uart_read want got polls = (if length got < want
     then (case polls of
         [] \<Rightarrow> (got, [])
       | avail # later \<Rightarrow> if avail = [] then (got, later) else uart_read want (got @ avail) later)
     else (got, polls))"

declare uart_read.simps [simp del]

definition readline :: "'a zlink_scheme \<Rightarrow> int \<times> 'a zlink_scheme" where
  "readline s = (let s = s\<lparr>Lleft := Lleft s - 1\<rparr> in
     if 0 \<le> Lleft s
     then (uint (linbuf s ! cdq s) AND Wcsmask, s\<lparr>cdq := cdq s + 1\<rparr>)
     else (let (got, later) = uart_read (Readnum s) [] (rx s);
               s = s\<lparr>linbuf := got, cdq := 0, Lleft := int (length got), rx := later\<rparr>
           in if 0 < Lleft s
              then (uint (linbuf s ! 0) AND Wcsmask, s\<lparr>Lleft := Lleft s - 1, cdq := 1\<rparr>)
              else (TIMEOUT, s)))"

text \<open>\<open>purgeline\<close> drops the buffered bytes and then whatever its polls find, up to the first poll
  that finds nothing.\<close>

definition purgeline :: "'a zlink_scheme \<Rightarrow> 'a zlink_scheme" where
  "purgeline s = s\<lparr>Lleft := 0, rx := tl (dropWhile (\<lambda>avail. avail \<noteq> []) (rx s))\<rparr>"

text \<open>
  What the line can still deliver, as the measure of the reading loops.
\<close>

definition todo :: "'a zlink_scheme \<Rightarrow> nat" where
  "todo s = nat (Lleft s) + sum_list (map length (rx s))"

lemma uart_read_length:
  "length (fst (uart_read want got polls)) + sum_list (map length (snd (uart_read want got polls)))
     = length got + sum_list (map length polls)"
  by (induction want got polls rule: uart_read.induct)
    (subst (1 2) uart_read.simps, auto split: list.splits)

lemma readline_timeout_or_byte:
  "fst (readline s) = TIMEOUT \<and> todo (snd (readline s)) \<le> todo s
   \<or> 0 \<le> fst (readline s) \<and> fst (readline s) < 256 \<and> todo (snd (readline s)) < todo s"
proof -
  have m: "0 \<le> uint (b :: u8) AND Wcsmask" "uint (b :: u8) AND Wcsmask < 256" for b
    using unsigned_less [of b, where 'a = int] by (simp_all add: Wcsmask_def take_bit_eq_mask [of 8, unfolded mask_eq_exp_minus_1, simplified, symmetric] take_bit_int_eq_self)
  obtain g l where u: "uart_read (Readnum s) [] (rx s) = (g, l)" by fastforce
  show ?thesis
    using uart_read_length [of "Readnum s" "[]" "rx s"] m
    by (cases g) (auto simp: readline_def todo_def Let_def u nat_diff_distrib')
qed

lemma readline_neg: "fst (readline s) < 0 \<longleftrightarrow> fst (readline s) = TIMEOUT"
  using readline_timeout_or_byte [of s] by auto

lemma readline_less: "readline s = (c, t) \<Longrightarrow> c \<noteq> TIMEOUT \<Longrightarrow> todo t < todo s"
  using readline_timeout_or_byte [of s] by auto

lemma readline_le: "readline s = (c, t) \<Longrightarrow> todo t \<le> todo s"
  using readline_timeout_or_byte [of s] by auto

lemma readline_range: "readline s = (c, t) \<Longrightarrow> c = TIMEOUT \<or> 0 \<le> c \<and> c < 256"
  using readline_timeout_or_byte [of s] by auto

lemma uint_byte_mask [simp]: "uint (b :: u8) AND Wcsmask = uint b"
proof -
  have "uint b AND mask 8 = take_bit 8 (uint b)"
    by (simp add: take_bit_eq_mask)
  also have "\<dots> = uint b"
    using unsigned_less [of b, where 'a = int] by (simp add: take_bit_int_eq_self)
  finally show ?thesis
    by (simp add: Wcsmask_def mask_eq_exp_minus_1)
qed

subsection \<open>Parity-stripped characters and hexadecimal digits\<close>

definition noxrd7_skips :: "int \<Rightarrow> int \<Rightarrow> bool" where
  "noxrd7_skips ctlesc c \<longleftrightarrow> c = XON \<or> c = XOFF
     \<or> ctlesc \<noteq> 0 \<and> c AND 0x60 = 0 \<and> c \<noteq> 0x0D \<and> c \<noteq> 0x0A \<and> c \<noteq> ZDLE"

function noxrd7 :: "'a zlink_scheme \<Rightarrow> int \<times> 'a zlink_scheme" where
  "noxrd7 s = (case readline s of (c, t) \<Rightarrow>
     if c < 0 then (c, t)
     else if noxrd7_skips (Zctlesc t) (c AND 0x7F) then noxrd7 t
     else (c AND 0x7F, t))"
  by pat_completeness auto
termination
  by (relation "measure todo") (auto dest: readline_less [OF sym])

declare noxrd7.simps [simp del]

definition zgeth1 :: "'a zlink_scheme \<Rightarrow> int \<times> 'a zlink_scheme" where
  "zgeth1 s = (case noxrd7 s of (c, s) \<Rightarrow>
     if c < 0 then (c, s)
     else let n = c - 0x30; n = (if n > 9 then n - (0x61 - 0x3A) else n) in
       if n AND NOT 0xF \<noteq> 0 then (ZERROR, s)
       else (case noxrd7 s of (c, s) \<Rightarrow>
         if c < 0 then (c, s)
         else let c = c - 0x30; c = (if c > 9 then c - (0x61 - 0x3A) else c) in
           if c AND NOT 0xF \<noteq> 0 then (ZERROR, s)
           else (c + push_bit 4 n, s)))"

definition zgethex :: "'a zlink_scheme \<Rightarrow> int \<times> 'a zlink_scheme" where
  "zgethex s = zgeth1 s"

subsection \<open>Escaped bytes\<close>

text \<open>The flow control characters, and with \<open>Zctlesc\<close> every control character, are skipped.\<close>

definition skipped :: "int \<Rightarrow> int \<Rightarrow> bool" where
  "skipped ctlesc c \<longleftrightarrow> c = 0x13 \<or> c = 0x93 \<or> c = 0x11 \<or> c = 0x91 \<or> ctlesc \<noteq> 0 \<and> c AND 0x60 = 0"

lemma skipped_neg [simp]: "\<not> skipped z TIMEOUT" "\<not> skipped z ZERROR"
  by (simp_all add: skipped_def)

text \<open>A further byte is read only while the last one was \<open>CAN\<close>.\<close>

definition after_can :: "int \<times> 'a zlink_scheme \<Rightarrow> int \<times> 'a zlink_scheme" where
  "after_can r = (if fst r = CAN then readline (snd r) else r)"

lemma after_can_less:
  "after_can r = (c, t) \<Longrightarrow> c \<noteq> TIMEOUT \<Longrightarrow> fst r \<noteq> TIMEOUT \<and> todo t \<le> todo (snd r)"
  by (auto simp: after_can_def split: if_splits dest: readline_le)

lemma after_can_le: "todo (snd (after_can r)) \<le> todo (snd r)"
  by (auto simp: after_can_def intro: readline_le [OF prod.collapse [symmetric]])

lemma after_can_range:
  "fst r = TIMEOUT \<or> 0 \<le> fst r \<and> fst r < 256 \<Longrightarrow>
   fst (after_can r) = TIMEOUT \<or> 0 \<le> fst (after_can r) \<and> fst (after_can r) < 256"
  using readline_timeout_or_byte [of "snd r"] by (auto simp: after_can_def)

text \<open>The \<open>switch\<close> on the character after a ZDLE; \<^term>\<open>None\<close> is \<open>goto again2\<close>.\<close>

definition zdl_switch :: "int \<Rightarrow> int \<Rightarrow> int option" where
  "zdl_switch ctlesc c =
     (if c = CAN then Some GOTCAN
      else if c = ZCRCE \<or> c = ZCRCG \<or> c = ZCRCQ \<or> c = ZCRCW then Some (c OR GOTOR)
      else if c = ZRUB0 then Some 0x7F
      else if c = ZRUB1 then Some 0xFF
      else if skipped ctlesc c then None
      else if c AND 0x60 = 0x40 then Some (c XOR 0x40)
      else Some ZERROR)"

text \<open>\<open>zdlread\<close> from its label \<open>again2\<close>, after a ZDLE.\<close>

function zdlread2 :: "'a zlink_scheme \<Rightarrow> int \<times> 'a zlink_scheme" where
  "zdlread2 s = (case after_can (after_can (after_can (readline s))) of (c, t) \<Rightarrow>
     if c < 0 then (c, t)
     else (case zdl_switch (Zctlesc t) c of None \<Rightarrow> zdlread2 t | Some d \<Rightarrow> (d, t)))"
  by pat_completeness auto

lemma zdlread2_step_less:
  assumes "after_can (after_can (after_can (readline s))) = (c, t)" "c \<noteq> TIMEOUT"
  shows "todo t < todo s"
proof -
  obtain a u where a: "after_can (readline s) = (a, u)" by fastforce
  obtain b v where b: "after_can (a, u) = (b, v)" by fastforce
  obtain d w where d: "readline s = (d, w)" by fastforce
  show ?thesis
    using assms after_can_less [of "(b, v)" c t] after_can_less [OF b] after_can_less [OF a]
      readline_less [OF d] a b d by simp
qed

termination zdlread2
  by (relation "measure todo") (auto dest: zdlread2_step_less [OF sym])

declare zdlread2.simps [simp del]

function zdlread :: "'a zlink_scheme \<Rightarrow> int \<times> 'a zlink_scheme" where
  "zdlread s = (case readline s of (c, t) \<Rightarrow>
     if c = ZDLE then zdlread2 t
     else if skipped (Zctlesc t) c then zdlread t
     else (c, t))"
  by pat_completeness auto
termination
  by (relation "measure todo") (auto dest: readline_less [OF sym])

declare zdlread.simps [simp del]


lemma zdl_switch_range:
  "zdl_switch z c = Some d \<Longrightarrow> 0 \<le> c \<Longrightarrow> d = ZERROR \<or> 0 \<le> d"
  by (auto simp: zdl_switch_def split: if_splits)

lemma zdlread2_progress:
  "fst (zdlread2 s) = TIMEOUT \<and> todo (snd (zdlread2 s)) \<le> todo s
   \<or> (fst (zdlread2 s) = ZERROR \<or> 0 \<le> fst (zdlread2 s)) \<and> todo (snd (zdlread2 s)) < todo s"
proof (induction s rule: zdlread2.induct)
  case (1 s)
  obtain c t where ct: "after_can (after_can (after_can (readline s))) = (c, t)"
    by fastforce
  have range: "c = TIMEOUT \<or> 0 \<le> c \<and> c < 256"
    using after_can_range [OF after_can_range [OF after_can_range]] readline_timeout_or_byte [of s]
    by (metis ct fst_conv)
  have le: "todo t \<le> todo s"
    using after_can_le ct readline_le by (metis le_trans prod.collapse snd_conv)
  consider "c = TIMEOUT" | "0 \<le> c" "zdl_switch (Zctlesc t) c = None"
    | d where "0 \<le> c" "zdl_switch (Zctlesc t) c = Some d"
    using range by fastforce
  then show ?case
  proof cases
    case 1
    with le show ?thesis
      by (simp add: zdlread2.simps [of s] ct)
  next
    case 2
    then have eq: "zdlread2 s = zdlread2 t" and "todo t < todo s"
      using zdlread2_step_less [OF ct] by (simp_all add: zdlread2.simps [of s] ct)
    with "1.IH" [OF ct [symmetric] _ 2(2)] 2(1) show ?thesis
      unfolding eq by linarith
  next
    case 3
    with zdl_switch_range [OF 3(2)] zdlread2_step_less [OF ct] show ?thesis
      by (simp add: zdlread2.simps [of s] ct)
  qed
qed

lemma zdlread_progress:
  "fst (zdlread s) = TIMEOUT \<and> todo (snd (zdlread s)) \<le> todo s
   \<or> (fst (zdlread s) = ZERROR \<or> 0 \<le> fst (zdlread s)) \<and> todo (snd (zdlread s)) < todo s"
proof (induction s rule: zdlread.induct)
  case (1 s)
  obtain c t where ct: "readline s = (c, t)"
    by fastforce
  define again where "again \<longleftrightarrow> c \<noteq> ZDLE \<and> skipped (Zctlesc t) c"
  consider "c = ZDLE" | again | "c \<noteq> ZDLE" "\<not> again"
    by blast
  then show ?case
  proof cases
    case 1
    then have eq: "zdlread s = zdlread2 t" and "todo t < todo s"
      using readline_less [OF ct] by (simp_all add: zdlread.simps [of s] ct)
    with zdlread2_progress [of t] show ?thesis
      unfolding eq by linarith
  next
    case 2
    then have eq: "zdlread s = zdlread t" and less: "todo t < todo s"
      using readline_less [OF ct] by (cases "c = TIMEOUT"; auto simp: zdlread.simps [of s] ct again_def)+
    have "fst (zdlread t) = TIMEOUT \<and> todo (snd (zdlread t)) \<le> todo t
      \<or> (fst (zdlread t) = ZERROR \<or> 0 \<le> fst (zdlread t)) \<and> todo (snd (zdlread t)) < todo t"
      using 2 unfolding again_def by (intro "1.IH" [OF ct [symmetric]]) simp_all
    with less show ?thesis
      unfolding eq by linarith
  next
    case 3
    then have "zdlread s = (c, t)"
      by (auto simp: zdlread.simps [of s] ct again_def)
    with readline_timeout_or_byte [of s] ct show ?thesis
      by auto
  qed
qed

lemma zdlread_le: "zdlread s = (c, t) \<Longrightarrow> todo t \<le> todo s"
  using zdlread_progress [of s] by auto

lemma zdlread_less: "zdlread s = (c, t) \<Longrightarrow> c \<noteq> TIMEOUT \<Longrightarrow> todo t < todo s"
  using zdlread_progress [of s] by auto

lemma noxrd7_progress:
  "fst (noxrd7 s) = TIMEOUT \<and> todo (snd (noxrd7 s)) \<le> todo s
   \<or> 0 \<le> fst (noxrd7 s) \<and> fst (noxrd7 s) < 128 \<and> todo (snd (noxrd7 s)) < todo s"
proof (induction s rule: noxrd7.induct)
  case (1 s)
  obtain c t where ct: "readline s = (c, t)"
    by fastforce
  have small: "0 \<le> c AND 0x7F" "c AND 0x7F < 128"
    using take_bit_eq_mask [of 7 c] take_bit_int_less_exp [of 7 c] by (simp_all add: mask_eq_exp_minus_1)
  consider "c = TIMEOUT" | "0 \<le> c" "noxrd7_skips (Zctlesc t) (c AND 0x7F)"
    | "0 \<le> c" "\<not> noxrd7_skips (Zctlesc t) (c AND 0x7F)"
    using readline_range [OF ct] by blast
  then show ?case
  proof cases
    case 1
    with readline_le [OF ct] show ?thesis
      by (simp add: noxrd7.simps [of s] ct)
  next
    case 2
    then have eq: "noxrd7 s = noxrd7 t" and "todo t < todo s"
      using readline_less [OF ct] by (simp_all add: noxrd7.simps [of s] ct)
    with "1.IH" [OF ct [symmetric] _ 2(2)] 2(1) show ?thesis
      unfolding eq by linarith
  next
    case 3
    with small readline_less [OF ct] show ?thesis
      by (simp add: noxrd7.simps [of s] ct)
  qed
qed

lemma noxrd7_le: "noxrd7 s = (c, t) \<Longrightarrow> todo t \<le> todo s"
  using noxrd7_progress [of s] by auto

lemma noxrd7_less: "noxrd7 s = (c, t) \<Longrightarrow> c \<noteq> TIMEOUT \<Longrightarrow> todo t < todo s"
  using noxrd7_progress [of s] by auto

subsection \<open>Headers\<close>

text \<open>
  The three header readers differ in the byte reader, in its error test and in the CRC; the
  loops they share take these as arguments. A loop ends early with \<^term>\<open>Some c\<close> when the byte
  reader returns the special code \<open>c\<close>, which the caller returns. Header bytes are stored into
  \<open>Rxhdr\<close> as they arrive: every caller passes that array.
\<close>

definition special :: "int \<Rightarrow> bool" where
  "special c \<longleftrightarrow> c AND NOT 0xFF \<noteq> 0"

primrec hdr_bytes :: "('a zlink_scheme \<Rightarrow> int \<times> 'a zlink_scheme) \<Rightarrow> (int \<Rightarrow> bool) \<Rightarrow> ('c \<Rightarrow> u8 \<Rightarrow> 'c) \<Rightarrow>
    nat list \<Rightarrow> 'c \<Rightarrow> 'a zlink_scheme \<Rightarrow> int option \<times> 'c \<times> 'a zlink_scheme" where
  "hdr_bytes get bad upd [] crc s = (None, crc, s)"
| "hdr_bytes get bad upd (i # is) crc s = (case get s of (c, s) \<Rightarrow>
     if bad c then (Some c, crc, s)
     else hdr_bytes get bad upd is (upd crc (word_of_int c))
       (s\<lparr>Rxhdr := (Rxhdr s)[i := word_of_int c]\<rparr>))"

primrec crc_bytes :: "('s \<Rightarrow> int \<times> 's) \<Rightarrow> (int \<Rightarrow> bool) \<Rightarrow> ('c \<Rightarrow> u8 \<Rightarrow> 'c) \<Rightarrow>
    nat \<Rightarrow> 'c \<Rightarrow> 's \<Rightarrow> int option \<times> 'c \<times> 's" where
  "crc_bytes get bad upd 0 crc s = (None, crc, s)"
| "crc_bytes get bad upd (Suc n) crc s = (case get s of (c, s) \<Rightarrow>
     if bad c then (Some c, crc, s)
     else crc_bytes get bad upd n (upd crc (word_of_int c)) s)"

text \<open>Type, four header bytes, CRC; the result is the code to return or the header type.\<close>

definition rd_header :: "('a zlink_scheme \<Rightarrow> int \<times> 'a zlink_scheme) \<Rightarrow> (int \<Rightarrow> bool) \<Rightarrow>
    ('c \<Rightarrow> u8 \<Rightarrow> 'c) \<Rightarrow> 'c \<Rightarrow> nat \<Rightarrow> 'c \<Rightarrow> 'a zlink_scheme \<Rightarrow> (int + int) \<times> 'a zlink_scheme" where
  "rd_header get bad upd init n good s = (case get s of (c, s) \<Rightarrow>
     if bad c then (Inl c, s)
     else let s = s\<lparr>Rxtype := c\<rparr> in
       (case hdr_bytes get bad upd [0, 1, 2, 3] (upd init (word_of_int c)) s of
          (Some e, crc, s) \<Rightarrow> (Inl e, s)
        | (None, crc, s) \<Rightarrow>
            (case crc_bytes get bad upd n crc s of
               (Some e, crc, s) \<Rightarrow> (Inl e, s)
             | (None, crc, s) \<Rightarrow>
                 if crc \<noteq> good then (Inl ZERROR, s) else (Inr (Rxtype s), s))))"

definition zrbhdr :: "'a zlink_scheme \<Rightarrow> int \<times> 'a zlink_scheme" where
  "zrbhdr s = (case rd_header zdlread special (\<lambda>crc c. updcrc c crc) 0 2 0 s of
     (Inl c, s) \<Rightarrow> (c, s)
   | (Inr ty, s) \<Rightarrow> (ty, s\<lparr>Zmodem := 1\<rparr>))"

definition zrbhdr32 :: "'a zlink_scheme \<Rightarrow> int \<times> 'a zlink_scheme" where
  "zrbhdr32 s = (case rd_header zdlread special (\<lambda>crc c. UPDC32 c crc) 0xFFFFFFFF 4 0xDEBB20E3 s of
     (Inl c, s) \<Rightarrow> (c, s)
   | (Inr ty, s) \<Rightarrow> (ty, s\<lparr>Zmodem := 1\<rparr>))"

definition zrhhdr :: "'a zlink_scheme \<Rightarrow> int \<times> 'a zlink_scheme" where
  "zrhhdr s = (case rd_header zgethex (\<lambda>c. c < 0) (\<lambda>crc c. updcrc c crc) 0 2 0 s of
     (Inl c, s) \<Rightarrow> (c, s)
   | (Inr ty, s) \<Rightarrow>
       (case readline s of (c, s) \<Rightarrow>
         let s = (if c = 0x0D then snd (readline s) else s) in (ty, s\<lparr>Zmodem := 1\<rparr>)))"

subsection \<open>Data subpackets\<close>

text \<open>
  The \<open>switch\<close> at the label \<open>crcfoo\<close>: after a frame end the CRC bytes follow, and a special code
  among them jumps back to the label with the CRC computed so far. \<open>i\<close> is the number of bytes
  stored, which the successful return reports in \<open>Rxcount\<close>.
\<close>

abbreviation (input) frame_end :: "int \<Rightarrow> bool" where
  "frame_end c \<equiv> c = GOTCRCE \<or> c = GOTCRCG \<or> c = GOTCRCQ \<or> c = GOTCRCW"

lemma crc_bytes_le:
  assumes "\<And>s c t. get s = (c, t) \<Longrightarrow> m t \<le> (m s :: nat)"
  shows "crc_bytes get bad upd n crc s = (r, crc', t) \<Longrightarrow> m t \<le> m s"
  using assms by (induction n arbitrary: crc s) (fastforce split: prod.splits if_splits)+

lemma crc_bytes_less:
  assumes "\<And>s c t. get s = (c, t) \<Longrightarrow> m t \<le> (m s :: nat)"
    and "\<And>s c t. get s = (c, t) \<Longrightarrow> c \<noteq> TIMEOUT \<Longrightarrow> m t < m s"
  shows "crc_bytes get bad upd n crc s = (Some c, crc', t) \<Longrightarrow> c \<noteq> TIMEOUT \<Longrightarrow> m t < m s"
proof (induction n arbitrary: crc s)
  case (Suc n)
  obtain d u where d: "get s = (d, u)" by fastforce
  show ?case
    using Suc assms(1) [OF d] assms(2) [OF d] by (fastforce simp: d split: if_splits)
qed simp

function crcfoo :: "('c \<Rightarrow> u8 \<Rightarrow> 'c) \<Rightarrow> nat \<Rightarrow> 'c \<Rightarrow> nat \<Rightarrow> int \<Rightarrow> 'c \<Rightarrow> 'a zlink_scheme \<Rightarrow>
    int \<times> 'a zlink_scheme" where
  "crcfoo upd n good i c crc s =
     (if frame_end c
      then (case crc_bytes zdlread special upd n (upd crc (word_of_int (c AND 0xFF))) s of
          (Some c', crc, s) \<Rightarrow> crcfoo upd n good i c' crc s
        | (None, crc, s) \<Rightarrow>
            if crc \<noteq> good then (ZERROR, s) else (c, s\<lparr>Rxcount := int i\<rparr>))
      else if c = GOTCAN then (ZCAN, s)
      else (c, s))"
  by pat_completeness auto

lemma crcfoo_step:
  assumes "(Some c', crc', t) = crc_bytes zdlread special upd n crc s" and "c \<noteq> TIMEOUT"
  shows "((upd, n, good, i, c', crc', t), (upd, n, good, i, c, crc0, s))
    \<in> measures [\<lambda>(upd, n, good, i, c, crc, s). todo s,
        \<lambda>(upd, n, good, i, c, crc, s). if c = TIMEOUT then 0 else 1]"
proof -
  have "todo t \<le> todo s"
    by (rule crc_bytes_le [OF _ assms(1) [symmetric]]) (rule zdlread_le)
  moreover have "todo t < todo s" if "c' \<noteq> TIMEOUT"
    by (rule crc_bytes_less [OF _ _ assms(1) [symmetric] that]) (auto dest: zdlread_le zdlread_less)
  ultimately show ?thesis
    using assms(2) by (cases "c' = TIMEOUT") (simp_all add: order_le_less)
qed

termination crcfoo
  by (relation "measures [\<lambda>(upd, n, good, i, c, crc, s). todo s,
      \<lambda>(upd, n, good, i, c, crc, s). if c = TIMEOUT then 0 else 1]")
    (simp, rule crcfoo_step, simp_all, auto)

declare crcfoo.simps [simp del]

text \<open>\<open>while (buf <= end)\<close> runs \<open>length + 1\<close> times unless a special code ends it.\<close>

primrec data_loop :: "('c \<Rightarrow> u8 \<Rightarrow> 'c) \<Rightarrow> nat \<Rightarrow> 'c \<Rightarrow> nat \<Rightarrow> nat \<Rightarrow> u8 list \<Rightarrow> 'c \<Rightarrow> 'a zlink_scheme \<Rightarrow>
    int \<times> u8 list \<times> 'a zlink_scheme" where
  "data_loop upd n good 0 i buf crc s = (ZERROR, buf, s)"
| "data_loop upd n good (Suc k) i buf crc s = (case zdlread s of (c, s) \<Rightarrow>
     if special c then (case crcfoo upd n good i c crc s of (r, s) \<Rightarrow> (r, buf, s))
     else data_loop upd n good k (Suc i) (buf[i := word_of_int c]) (upd crc (word_of_int c)) s)"

definition zrdat32 :: "u8 list \<Rightarrow> nat \<Rightarrow> 'a zlink_scheme \<Rightarrow> int \<times> u8 list \<times> 'a zlink_scheme" where
  "zrdat32 buf len s = data_loop (\<lambda>crc c. UPDC32 c crc) 4 0xDEBB20E3 (len + 1) 0 buf 0xFFFFFFFF
     (s\<lparr>Rxcount := 0\<rparr>)"

definition zrdata :: "u8 list \<Rightarrow> nat \<Rightarrow> 'a zlink_scheme \<Rightarrow> int \<times> u8 list \<times> 'a zlink_scheme" where
  "zrdata buf len s = (if Rxframeind s = ZBIN32 then zrdat32 buf len s
     else data_loop (\<lambda>crc c. updcrc c crc) 2 0 (len + 1) 0 buf 0 (s\<lparr>Rxcount := 0\<rparr>))"


section \<open>Searching for a header\<close>

text \<open>
  \<open>zgethdr\<close> is written with labels. A configuration of its control flow is a label with the local
  variables that are live there: \<open>Again cancount\<close>, \<open>Gotcan cancount\<close>, \<open>Agn2\<close>, \<open>Splat\<close> and
  \<open>Fifi c\<close>, and \<open>Garbage\<close> for the direct return when the count of garbage characters is exceeded.
  One \<open>hdr_step\<close> runs to the next label; \<open>n\<close> is the remaining garbage allowance. The display of
  garbage characters (\<open>eflag\<close>) goes to \<open>bttyout\<close>, which does nothing.
\<close>

datatype label = Again int | Gotcan int | Agn2 | Splat | Fifi int | Garbage

definition got_header :: "int \<times> 'a zlink_scheme \<Rightarrow> label \<times> 'a zlink_scheme" where
  "got_header r = (case r of (c, s) \<Rightarrow> (Fifi c, s\<lparr>Rxpos :=
     (let p = (ucast (Rxhdr s ! 3) :: u32);
          p = push_bit 8 p + ucast (Rxhdr s ! 2);
          p = push_bit 8 p + ucast (Rxhdr s ! 1)
      in push_bit 8 p + ucast (Rxhdr s ! 0))\<rparr>))"

definition hdr_again :: "int \<Rightarrow> 'a zlink_scheme \<Rightarrow> label \<times> 'a zlink_scheme" where
  "hdr_again cancount s = (case readline s of (c, s) \<Rightarrow>
     if c = RCDO \<or> c = TIMEOUT then (Fifi c, s)
     else if c = CAN then (Gotcan cancount, s)
     else if c = ZPAD OR 0x80 \<or> c = ZPAD then (Splat, s)
     else (Agn2, s))"

definition hdr_gotcan :: "int \<Rightarrow> 'a zlink_scheme \<Rightarrow> label \<times> 'a zlink_scheme" where
  "hdr_gotcan cancount s = (let cancount = cancount - 1 in
     if cancount \<le> 0 then (Fifi ZCAN, s)
     else (case readline s of (c, s) \<Rightarrow>
       if c = TIMEOUT then (Again cancount, s)
       else if c = ZCRCW then (Fifi ZERROR, s)
       else if c = RCDO then (Fifi c, s)
       else if c = CAN then
         (let cancount = cancount - 1 in
          if cancount \<le> 0 then (Fifi ZCAN, s) else (Again cancount, s))
       else (Agn2, s)))"

definition hdr_splat :: "'a zlink_scheme \<Rightarrow> label \<times> 'a zlink_scheme" where
  "hdr_splat s = (case noxrd7 s of (c, s) \<Rightarrow>
     if c = ZPAD then (Splat, s)
     else if c = RCDO \<or> c = TIMEOUT then (Fifi c, s)
     else if c \<noteq> ZDLE then (Agn2, s)
     else (case noxrd7 s of (c, s) \<Rightarrow>
       if c = RCDO \<or> c = TIMEOUT then (Fifi c, s)
       else if c = ZBIN then got_header (zrbhdr (s\<lparr>Rxframeind := ZBIN, Crc32 := 0\<rparr>))
       else if c = ZBIN32 then got_header (zrbhdr32 (s\<lparr>Rxframeind := ZBIN32, Crc32 := ZBIN32\<rparr>))
       else if c = ZHEX then got_header (zrhhdr (s\<lparr>Rxframeind := ZHEX, Crc32 := 0\<rparr>))
       else if c = CAN then (Gotcan 5, s)
       else (Agn2, s)))"

function hdr_run :: "int \<Rightarrow> label \<Rightarrow> 'a zlink_scheme \<Rightarrow> int \<times> 'a zlink_scheme" where
  "hdr_run n (Again k) s = (case hdr_again k s of (l, t) \<Rightarrow> hdr_run n l t)"
| "hdr_run n (Gotcan k) s = (case hdr_gotcan k s of (l, t) \<Rightarrow> hdr_run n l t)"
| "hdr_run n Splat s = (case hdr_splat s of (l, t) \<Rightarrow> hdr_run n l t)"
| "hdr_run n Agn2 s = (if n - 1 = 0 then hdr_run (n - 1) Garbage s else hdr_run (n - 1) (Again 5) s)"
| "hdr_run n (Fifi c) s = ((if c = GOTCAN then ZCAN else c), s)"
| "hdr_run n Garbage s = (ZERROR, s)"
  by pat_completeness auto

text \<open>A step either ends the search, consumes input or moves to a label of lower rank.\<close>

primrec rank :: "label \<Rightarrow> nat" where
  "rank (Again k) = 1"
| "rank (Gotcan k) = 3"
| "rank Agn2 = 2"
| "rank Splat = 1"
| "rank (Fifi c) = 0"
| "rank Garbage = 0"

lemma hdr_again_less:
  "(l, t) = hdr_again k s \<Longrightarrow> todo t < todo s \<or> todo t = todo s \<and> rank l = 0"
  using readline_timeout_or_byte [of s]
  by (cases "readline s") (auto simp: hdr_again_def split: if_splits)

lemma hdr_gotcan_less:
  "(l, t) = hdr_gotcan k s \<Longrightarrow> todo t < todo s \<or> todo t = todo s \<and> rank l < 3"
  using readline_timeout_or_byte [of s]
  by (cases "readline s") (auto simp: hdr_gotcan_def Let_def split: if_splits)

lemma todo_updates [simp]:
  "todo (s\<lparr>Rxtype := a\<rparr>) = todo s" "todo (s\<lparr>Rxhdr := h\<rparr>) = todo s" "todo (s\<lparr>Zmodem := a\<rparr>) = todo s"
  "todo (s\<lparr>Rxframeind := a\<rparr>) = todo s" "todo (s\<lparr>Crc32 := a\<rparr>) = todo s" "todo (s\<lparr>Rxpos := p\<rparr>) = todo s"
  "todo (s\<lparr>Rxcount := a\<rparr>) = todo s" "todo (s\<lparr>tx := x\<rparr>) = todo s" "todo (s\<lparr>lastsent := a\<rparr>) = todo s"
  "todo (s\<lparr>Crc32t := a\<rparr>) = todo s" "todo (s\<lparr>Txhdr := h\<rparr>) = todo s" "todo (s\<lparr>Errors := a\<rparr>) = todo s"
  "todo (s\<lparr>Readnum := n\<rparr>) = todo s" "todo (s\<lparr>Zctlesc := a\<rparr>) = todo s"
  by (simp_all add: todo_def)

lemma hdr_bytes_le:
  assumes "\<And>s c t. get s = (c, t) \<Longrightarrow> todo t \<le> todo s"
  shows "hdr_bytes get bad upd is crc s = (r, crc', t) \<Longrightarrow> todo t \<le> todo s"
proof (induction "is" arbitrary: crc s)
  case (Cons i "is")
  obtain d u where d: "get s = (d, u)" by fastforce
  show ?case
    using Cons.prems assms [OF d] by (auto simp: d split: if_splits dest: Cons.IH)
qed simp

lemma zgeth1_le: "zgeth1 s = (c, t) \<Longrightarrow> todo t \<le> todo s"
  by (auto simp: zgeth1_def Let_def split: prod.splits if_splits dest!: noxrd7_le)

lemma zgethex_le: "zgethex s = (c, t) \<Longrightarrow> todo t \<le> todo s"
  by (simp add: zgethex_def zgeth1_le)

lemma rd_header_le:
  assumes get: "\<And>s c t. get s = (c, t) \<Longrightarrow> todo t \<le> todo s"
    and "rd_header get bad upd init n good s = (r, t)"
  shows "todo t \<le> todo s"
proof -
  obtain c u where c: "get s = (c, u)" by fastforce
  obtain e crc v where h: "hdr_bytes get bad upd [0, 1, 2, 3] (upd init (word_of_int c)) (u\<lparr>Rxtype := c\<rparr>) = (e, crc, v)"
    using prod_cases3 by blast
  obtain e' crc' w where k: "crc_bytes get bad upd n crc v = (e', crc', w)"
    using prod_cases3 by blast
  have "todo u \<le> todo s" "todo v \<le> todo u" "todo w \<le> todo v"
    using get [OF c] hdr_bytes_le [OF get h] crc_bytes_le [where m = todo, OF get k] by simp_all
  moreover have "t = u \<or> t = v \<or> t = w"
    using assms(2) c h k by (auto simp: rd_header_def Let_def simp del: hdr_bytes.simps split: if_splits option.splits)
  ultimately show ?thesis
    by auto
qed

lemma zrbhdr_le: "zrbhdr s = (c, t) \<Longrightarrow> todo t \<le> todo s"
  by (auto simp: zrbhdr_def split: prod.splits sum.splits dest: rd_header_le [rotated] zdlread_le)

lemma zrbhdr32_le: "zrbhdr32 s = (c, t) \<Longrightarrow> todo t \<le> todo s"
  by (auto simp: zrbhdr32_def split: prod.splits sum.splits dest: rd_header_le [rotated] zdlread_le)

lemma zrhhdr_le:
  assumes "zrhhdr s = (c, t)"
  shows "todo t \<le> todo s"
proof -
  obtain r u where u: "rd_header zgethex (\<lambda>c. c < 0) (\<lambda>crc c. updcrc c crc) 0 2 0 s = (r, u)" by fastforce
  have "todo u \<le> todo s"
    using u zgethex_le by (rule rd_header_le [rotated])
  moreover have "todo t \<le> todo u"
    using assms readline_le [OF prod.collapse [symmetric], of u]
      readline_le [OF prod.collapse [symmetric], of "snd (readline u)"]
    by (auto simp: zrhhdr_def u Let_def split: prod.splits sum.splits if_splits)
  ultimately show ?thesis by simp
qed

lemma got_header_todo: "got_header r = (l, t) \<Longrightarrow> todo t = todo (snd r) \<and> rank l = 0"
  by (auto simp: got_header_def split: prod.splits)

lemma hdr_splat_less:
  assumes "(l, t) = hdr_splat s"
  shows "todo t < todo s \<or> todo t = todo s \<and> rank l = 0"
proof -
  obtain c u where c: "noxrd7 s = (c, u)" by fastforce
  obtain d v where d: "noxrd7 u = (d, v)" by fastforce
  have le: "todo u \<le> todo s" "todo v \<le> todo u" "c \<noteq> TIMEOUT \<Longrightarrow> todo u < todo s"
    using noxrd7_le [OF c] noxrd7_le [OF d] noxrd7_less [OF c] by blast+
  have hdr: "(l, t) = got_header (f w) \<Longrightarrow> todo w = todo v \<Longrightarrow>
      (\<And>s c t. f s = (c, t) \<Longrightarrow> todo t \<le> todo s) \<Longrightarrow> todo t \<le> todo v" for f w
    using got_header_todo [of "f w" l t] by (metis prod.collapse)
  show ?thesis
  proof (cases "c = ZDLE")
    case True
    then have "todo t \<le> todo v"
      using assms zrbhdr_le zrbhdr32_le zrhhdr_le
      by (auto simp: hdr_splat_def c d split: if_splits dest!: hdr)
    with True le show ?thesis by auto
  next
    case False
    with le assms show ?thesis
      by (auto simp: hdr_splat_def c split: if_splits)
  qed
qed

termination hdr_run
  by (relation "measures [\<lambda>(n, l, s). todo s, \<lambda>(n, l, s). rank l]")
    (auto dest!: sym [of "(_, _)"] dest: hdr_again_less [OF sym] hdr_gotcan_less [OF sym]
      hdr_splat_less [OF sym])

definition zgethdr :: "'a zlink_scheme \<Rightarrow> int \<times> 'a zlink_scheme" where
  "zgethdr s = hdr_run (Zrwindow + Baudrate) (Again 5) (s\<lparr>Rxframeind := 0, Rxtype := 0\<rparr>)"


section \<open>Sending\<close>

definition sendline :: "u8 \<Rightarrow> 'a zlink_scheme \<Rightarrow> 'a zlink_scheme" where
  "sendline c s = s\<lparr>tx := tx s @ [c]\<rparr>"

definition xsendline :: "u8 \<Rightarrow> 'a zlink_scheme \<Rightarrow> 'a zlink_scheme" where
  "xsendline c s = sendline c s"

text \<open>
  \<open>zsendline\<close>: the two ways it can send the byte, escaped (\<open>c ^= 0100\<close> behind a ZDLE) or as it
  is, both recording it in \<open>lastsent\<close>.
\<close>

definition send_escaped :: "u8 \<Rightarrow> 'a zlink_scheme \<Rightarrow> 'a zlink_scheme" where
  "send_escaped c s = (let s = xsendline 0x18 s; c = c XOR 0x40; s = s\<lparr>lastsent := uint c\<rparr> in xsendline c s)"

definition sendit :: "u8 \<Rightarrow> 'a zlink_scheme \<Rightarrow> 'a zlink_scheme" where
  "sendit c s = xsendline c (s\<lparr>lastsent := uint c\<rparr>)"

definition zsendline :: "u8 \<Rightarrow> 'a zlink_scheme \<Rightarrow> 'a zlink_scheme" where
  "zsendline c s =
     (if c = 0x18 then send_escaped c s
      else if (c = 0x0D \<or> c = 0x8D) \<and> Zctlesc s = 0 \<and> lastsent s AND 0x7F \<noteq> 0x40 then sendit c s
      else if c = 0x0D \<or> c = 0x8D \<or> c = 0x10 \<or> c = 0x11 \<or> c = 0x13 \<or> c = 0x90 \<or> c = 0x91 \<or> c = 0x93
      then send_escaped c s
      else if Zctlesc s \<noteq> 0 \<and> c AND 0x60 = 0 then send_escaped c s
      else sendit c s)"

definition digits :: "u8 list" where
  "digits = [0x30, 0x31, 0x32, 0x33, 0x34, 0x35, 0x36, 0x37, 0x38, 0x39, 0x61, 0x62, 0x63, 0x64, 0x65, 0x66]"

definition zputhex :: "u8 \<Rightarrow> 'a zlink_scheme \<Rightarrow> 'a zlink_scheme" where
  "zputhex c s = (let s = sendline (digits ! unat (drop_bit 4 (c AND 0xF0))) s
     in sendline (digits ! unat (c AND 0xF)) s)"

text \<open>A loop that sends bytes and folds them into a CRC, and the loop that sends a 32-bit FCS.\<close>

definition send_crc :: "(u8 \<Rightarrow> 's \<Rightarrow> 's) \<Rightarrow> ('c \<Rightarrow> u8 \<Rightarrow> 'c) \<Rightarrow> u8 list \<Rightarrow> 'c \<Rightarrow> 's \<Rightarrow> 'c \<times> 's" where
  "send_crc put upd bs crc s = fold (\<lambda>b (crc, s). (upd crc b, put b s)) bs (crc, s)"

primrec send_fcs :: "nat \<Rightarrow> u32 \<Rightarrow> 'a zlink_scheme \<Rightarrow> 'a zlink_scheme" where
  "send_fcs 0 crc s = s"
| "send_fcs (Suc n) crc s = send_fcs n (drop_bit 8 crc) (zsendline (ucast crc) s)"

definition zsbh32 :: "u8 list \<Rightarrow> int \<Rightarrow> 'a zlink_scheme \<Rightarrow> 'a zlink_scheme" where
  "zsbh32 hdr ty s = (let s = xsendline 0x43 s; s = zsendline (word_of_int ty) s;
     crc = UPDC32 (word_of_int ty) 0xFFFFFFFF;
     (crc, s) = send_crc zsendline (\<lambda>crc c. UPDC32 c crc) (map (nth hdr) [0, 1, 2, 3]) crc s
     in send_fcs 4 (NOT crc) s)"

definition zsbhdr :: "int \<Rightarrow> u8 list \<Rightarrow> 'a zlink_scheme \<Rightarrow> 'a zlink_scheme" where
  "zsbhdr ty hdr s = (let s = (if ty = ZDATA then (zsendline 0 ^^ Znulls s) s else s);
     s = xsendline 0x2A s; s = xsendline 0x18 s;
     s = s\<lparr>Crc32t := Txfcs32 s\<rparr> in
     if Crc32t s \<noteq> 0 then zsbh32 hdr ty s
     else let s = xsendline 0x41 s; s = zsendline (word_of_int ty) s;
       crc = updcrc (word_of_int ty) 0;
       (crc, s) = send_crc zsendline (\<lambda>crc c. updcrc c crc) (map (nth hdr) [0, 1, 2, 3]) crc s;
       crc = updcrc 0 (updcrc 0 crc);
       s = zsendline (ucast (drop_bit 8 crc)) s
       in zsendline (ucast crc) s)"

definition zshhdr :: "int \<Rightarrow> u8 list \<Rightarrow> 'a zlink_scheme \<Rightarrow> 'a zlink_scheme" where
  "zshhdr ty hdr s = (let s = sendline 0x2A s; s = sendline 0x2A s; s = sendline 0x18 s; s = sendline 0x42 s;
     s = zputhex (word_of_int ty) s; s = s\<lparr>Crc32t := 0\<rparr>;
     crc = updcrc (word_of_int ty) 0;
     (crc, s) = send_crc zputhex (\<lambda>crc c. updcrc c crc) (map (nth hdr) [0, 1, 2, 3]) crc s;
     crc = updcrc 0 (updcrc 0 crc);
     s = zputhex (ucast (drop_bit 8 crc)) s; s = zputhex (ucast crc) s;
     s = sendline 0x0D s; s = sendline 0x8A s
     in if ty \<noteq> ZFIN \<and> ty \<noteq> ZACK then sendline 0x11 s else s)"

definition zsda32 :: "u8 list \<Rightarrow> nat \<Rightarrow> int \<Rightarrow> 'a zlink_scheme \<Rightarrow> 'a zlink_scheme" where
  "zsda32 buf len frameend s =
     (let (crc, s) = send_crc zsendline (\<lambda>crc c. UPDC32 c crc) (map (nth buf) [0..<len]) 0xFFFFFFFF s;
       s = xsendline 0x18 s; s = xsendline (word_of_int frameend) s;
       crc = UPDC32 (word_of_int frameend) crc
     in send_fcs 4 (NOT crc) s)"

definition zsdata :: "u8 list \<Rightarrow> nat \<Rightarrow> int \<Rightarrow> 'a zlink_scheme \<Rightarrow> 'a zlink_scheme" where
  "zsdata buf len frameend s =
     (let s = (if Crc32t s \<noteq> 0 then zsda32 buf len frameend s
        else let (crc, s) = send_crc zsendline (\<lambda>crc c. updcrc c crc) (map (nth buf) [0..<len]) 0 s;
            s = xsendline 0x18 s; s = xsendline (word_of_int frameend) s;
            crc = updcrc (word_of_int frameend) crc;
            crc = updcrc 0 (updcrc 0 crc);
            s = zsendline (ucast (drop_bit 8 crc)) s
          in zsendline (ucast crc) s)
     in if frameend = ZCRCW then xsendline 0x11 s else s)"

section \<open>File positions in headers\<close>

definition stohdr :: "u32 \<Rightarrow> 'a zlink_scheme \<Rightarrow> 'a zlink_scheme" where
  "stohdr pos s = s\<lparr>Txhdr := (Txhdr s)[0 := ucast pos, 1 := ucast (drop_bit 8 pos),
     2 := ucast (drop_bit 16 pos), 3 := ucast (drop_bit 24 pos)]\<rparr>"

definition rclhdr :: "u8 list \<Rightarrow> u32" where
  "rclhdr hdr = (let l = ucast (hdr ! 3) AND 0xFF;
     l = push_bit 8 l OR (ucast (hdr ! 2) AND 0xFF);
     l = push_bit 8 l OR (ucast (hdr ! 1) AND 0xFF)
     in push_bit 8 l OR (ucast (hdr ! 0) AND 0xFF))"

text \<open>\<open>canit\<close> sends all \<open>sizeof(canistr)\<close> bytes, the terminating NUL of the array included.\<close>

definition canit :: "'a zlink_scheme \<Rightarrow> 'a zlink_scheme" where
  "canit s = (fold sendline (replicate 10 24 @ replicate 10 8 @ [0]) s)\<lparr>Lleft := 0\<rparr>"

end
