(* ===== verification/ZFrames.thy ===== *)
theory ZFrames
  imports ZLink
begin

text \<open>
  What the link layer of ZMODEM guarantees: what one end sends with \<open>zsbhdr\<close>, \<open>zshhdr\<close> and
  \<open>zsdata\<close>, the other end receives with \<open>zgethdr\<close> and \<open>zrdata\<close>, for every content, in all three
  encodings; a frame whose CRC is wrong is rejected; and the receiver never stores more than one
  byte past the length it was given.

  The locale \<open>byte_codec\<close> is the interface between the codecs (ZDLE escapes and hexadecimal
  digits) and the framing loops, which are verified once inside it; both codecs interpret it.
\<close>

section \<open>The bytes a reader is going to get\<close>

primrec feeds :: "u8 list \<Rightarrow> 'a zlink_scheme \<Rightarrow> bool" where
  "feeds [] s \<longleftrightarrow> True"
| "feeds (b # bs) s \<longleftrightarrow> fst (readline s) = uint b \<and> feeds bs (snd (readline s))"

primrec readn :: "nat \<Rightarrow> 'a zlink_scheme \<Rightarrow> 'a zlink_scheme" where
  "readn 0 s = s"
| "readn (Suc n) s = readn n (snd (readline s))"

lemma feeds_append [simp]: "feeds (xs @ ys) s \<longleftrightarrow> feeds xs s \<and> feeds ys (readn (length xs) s)"
  by (induction xs arbitrary: s) simp_all

lemma readn_add: "readn (m + n) s = readn n (readn m s)"
  by (induction m arbitrary: s) simp_all

lemma readline_keeps [simp]:
  "Zctlesc (snd (readline s)) = Zctlesc s" "Rxhdr (snd (readline s)) = Rxhdr s"
  "Rxtype (snd (readline s)) = Rxtype s" "Rxframeind (snd (readline s)) = Rxframeind s"
  "tx (snd (readline s)) = tx s" "Txhdr (snd (readline s)) = Txhdr s"
  "Rxcount (snd (readline s)) = Rxcount s" "lastsent (snd (readline s)) = lastsent s"
  by (simp_all add: readline_def Let_def split: prod.splits)

lemma readn_keeps [simp]:
  "Zctlesc (readn n s) = Zctlesc s" "Rxhdr (readn n s) = Rxhdr s" "Rxtype (readn n s) = Rxtype s"
  "Rxframeind (readn n s) = Rxframeind s" "tx (readn n s) = tx s" "Txhdr (readn n s) = Txhdr s"
  "Rxcount (readn n s) = Rxcount s" "lastsent (readn n s) = lastsent s"
  by (induction n arbitrary: s) simp_all

text \<open>An update of another global commutes with reading the line.\<close>

definition off_line :: "('a zlink_scheme \<Rightarrow> 'a zlink_scheme) \<Rightarrow> bool" where
  "off_line f \<longleftrightarrow> (\<forall>s. readline (f s) = apsnd f (readline s))"

lemma readn_off_line: "off_line f \<Longrightarrow> readn n (f s) = f (readn n s)"
  by (induction n arbitrary: s) (simp_all add: off_line_def)

lemma feeds_off_line: "off_line f \<Longrightarrow> feeds bs (f s) = feeds bs s"
  by (induction bs arbitrary: s) (simp_all add: off_line_def)

lemma off_line_updates:
  "off_line (Rxhdr_update h)" "off_line (Rxtype_update g)" "off_line (Zmodem_update g)"
  "off_line (Rxframeind_update g)" "off_line (Crc32_update g)" "off_line (Rxpos_update p)"
  "off_line (Rxcount_update g)" "off_line (tx_update x)" "off_line (lastsent_update g)"
  "off_line (Crc32t_update g)" "off_line (Txhdr_update h)" "off_line (Errors_update g)"
  by (simp_all add: off_line_def readline_def Let_def apsnd_def split: prod.splits)

lemmas feeds_update [simp] = off_line_updates [THEN feeds_off_line]
lemmas readn_update [simp] = off_line_updates [THEN readn_off_line]

lemma readline_feeds: "feeds (b # bs) s \<Longrightarrow> readline s = (uint b, readn 1 s)"
  by (simp add: prod_eq_iff)

section \<open>Codes\<close>

text \<open>\<open>spells code bs ws\<close>: the wire bytes \<open>ws\<close> are codes of the bytes \<open>bs\<close> one after the other.\<close>

primrec spells :: "(u8 \<Rightarrow> u8 list \<Rightarrow> bool) \<Rightarrow> u8 list \<Rightarrow> u8 list \<Rightarrow> bool" where
  "spells code [] ws \<longleftrightarrow> ws = []"
| "spells code (b # bs) ws \<longleftrightarrow> (\<exists>u v. ws = u @ v \<and> code b u \<and> spells code bs v)"

lemma spells_append:
  "spells code (as @ bs) ws \<longleftrightarrow> (\<exists>u v. ws = u @ v \<and> spells code as u \<and> spells code bs v)"
proof (induction as arbitrary: ws)
  case (Cons a as)
  show ?case
  proof
    assume "spells code ((a # as) @ bs) ws"
    then obtain u u1 u2 where "ws = u @ u1 @ u2" "code a u" "spells code as u1" "spells code bs u2"
      using Cons.IH by auto
    then show "\<exists>u v. ws = u @ v \<and> spells code (a # as) u \<and> spells code bs v"
      by (intro exI [of _ "u @ u1"] exI [of _ u2]) auto
  next
    assume "\<exists>u v. ws = u @ v \<and> spells code (a # as) u \<and> spells code bs v"
    then obtain u u1 u2 where "ws = u @ u1 @ u2" "code a u" "spells code as u1" "spells code bs u2"
      by auto
    then show "spells code ((a # as) @ bs) ws"
      using Cons.IH by auto
  qed
qed simp

lemma spells_frame:
  "spells code (t # hs @ ts) ws \<Longrightarrow>
   \<exists>u v w. ws = u @ v @ w \<and> code t u \<and> spells code hs v \<and> spells code ts w"
  by (auto simp: spells_append)

definition sent :: "('a zlink_scheme \<Rightarrow> 'a zlink_scheme) \<Rightarrow> 'a zlink_scheme \<Rightarrow> u8 list" where
  "sent f s = drop (length (tx s)) (tx (f s))"

text \<open>
  The contract of a codec: \<open>get\<close> decodes a code (as the receiver's \<open>Zctlesc\<close> reads it) and leaves
  everything but the line alone, and \<open>put\<close> appends a code to the output. \<open>agrees c z\<close> says that a
  sender with \<open>Zctlesc = c\<close> suits a receiver with \<open>Zctlesc = z\<close>.
\<close>

locale byte_codec =
  fixes put :: "u8 \<Rightarrow> 'a zlink_scheme \<Rightarrow> 'a zlink_scheme"
    and get :: "'b zlink_scheme \<Rightarrow> int \<times> 'b zlink_scheme"
    and bad :: "int \<Rightarrow> bool"
    and code :: "int \<Rightarrow> u8 \<Rightarrow> u8 list \<Rightarrow> bool"
    and agrees :: "int \<Rightarrow> int \<Rightarrow> bool"
  assumes get_code: "code (Zctlesc r) b ws \<Longrightarrow> feeds ws r \<Longrightarrow> get r = (uint b, readn (length ws) r)"
    and byte_ok: "\<not> bad (uint b)"
    and put_code: "agrees (Zctlesc s) z \<Longrightarrow> \<exists>ws. tx (put b s) = tx s @ ws \<and> code z b ws"
    and put_keeps: "Zctlesc (put b s) = Zctlesc s"
begin

lemma put_spells:
  "agrees (Zctlesc s) z \<Longrightarrow> \<exists>ws. tx (fold put bs s) = tx s @ ws \<and> spells (code z) bs ws"
proof (induction bs arbitrary: s)
  case (Cons b bs)
  obtain u where u: "tx (put b s) = tx s @ u" "code z b u"
    using put_code [OF Cons.prems] by blast
  obtain v where "tx (fold put bs (put b s)) = tx (put b s) @ v" "spells (code z) bs v"
    using Cons.IH [of "put b s"] Cons.prems by (auto simp: put_keeps)
  with u show ?case
    by auto
qed simp

lemma fold_put_keeps: "Zctlesc (fold put bs s) = Zctlesc s"
  by (induction bs arbitrary: s) (simp_all add: put_keeps)

lemma crc_bytes_spelled:
  "spells (code (Zctlesc r)) bs ws \<Longrightarrow> feeds ws r \<Longrightarrow>
   crc_bytes get bad upd (length bs) crc r = (None, foldl upd crc bs, readn (length ws) r)"
proof (induction bs arbitrary: ws r crc)
  case (Cons b bs)
  then obtain u v where ws: "ws = u @ v" "code (Zctlesc r) b u" "spells (code (Zctlesc r)) bs v"
    by auto
  with Cons.prems have "get r = (uint b, readn (length u) r)"
    by (intro get_code) auto
  with ws Cons.prems Cons.IH [of "readn (length u) r" v "upd crc b"] show ?case
    by (simp add: byte_ok readn_add)
qed simp

lemma hdr_bytes_spelled:
  "spells (code (Zctlesc r)) bs ws \<Longrightarrow> feeds ws r \<Longrightarrow> length is = length bs \<Longrightarrow>
   hdr_bytes get bad upd is crc r = (None, foldl upd crc bs,
     (readn (length ws) r)\<lparr>Rxhdr := fold (\<lambda>(i, b) h. h[i := b]) (zip is bs) (Rxhdr r)\<rparr>)"
proof (induction bs arbitrary: ws r crc "is")
  case (Cons b bs)
  then obtain u v where ws: "ws = u @ v" "code (Zctlesc r) b u" "spells (code (Zctlesc r)) bs v"
    by auto
  from Cons.prems obtain i js where i: "is = i # js" "length js = length bs"
    by (cases "is") auto
  from ws Cons.prems have "get r = (uint b, readn (length u) r)"
    by (intro get_code) auto
  with ws i Cons.prems Cons.IH [of "(readn (length u) r)\<lparr>Rxhdr := (Rxhdr r)[i := b]\<rparr>" v js "upd crc b"]
  show ?case
    by (simp add: byte_ok readn_add)
qed simp

text \<open>A header spelled on the line with any trailer: the check decides.\<close>

lemma rd_header_spelled:
  assumes "spells (code (Zctlesc r)) (ty # [a, b, c, d] @ ts) ws" "feeds ws r" "length (Rxhdr r) = 4"
  shows "rd_header get bad upd init (length ts) good r =
    ((if foldl upd init (ty # [a, b, c, d] @ ts) = good then Inr (uint ty) else Inl ZERROR),
     (readn (length ws) r)\<lparr>Rxtype := uint ty, Rxhdr := [a, b, c, d]\<rparr>)"
proof -
  obtain u v w where ws: "ws = u @ v @ w" "code (Zctlesc r) ty u"
      "spells (code (Zctlesc r)) [a, b, c, d] v" "spells (code (Zctlesc r)) ts w"
    using spells_frame [OF assms(1)] by blast
  let ?r1 = "(readn (length u) r)\<lparr>Rxtype := uint ty\<rparr>"
  have "get r = (uint ty, readn (length u) r)"
    using assms(2) ws by (intro get_code) auto
  moreover have "hdr_bytes get bad upd [0, 1, 2, 3] (upd init ty) ?r1 =
      (None, foldl upd (upd init ty) [a, b, c, d], (readn (length v) ?r1)\<lparr>Rxhdr := [a, b, c, d]\<rparr>)"
    using hdr_bytes_spelled [of ?r1 "[a, b, c, d]" v "[0, 1, 2, 3]"] assms(2,3) ws
    by (cases "Rxhdr r" rule: list.exhaust; simp) (auto simp: length_Suc_conv numeral_eq_Suc)
  moreover have "crc_bytes get bad upd (length ts) (foldl upd (upd init ty) [a, b, c, d])
      ((readn (length v) ?r1)\<lparr>Rxhdr := [a, b, c, d]\<rparr>) = (None, foldl upd init (ty # [a, b, c, d] @ ts),
      readn (length w) ((readn (length v) ?r1)\<lparr>Rxhdr := [a, b, c, d]\<rparr>))"
    using crc_bytes_spelled [of "(readn (length v) ?r1)\<lparr>Rxhdr := [a, b, c, d]\<rparr>" ts w] assms(2) ws
    by simp
  ultimately show ?thesis
    by (simp add: rd_header_def byte_ok ws(1) readn_add)
qed

end

section \<open>The two codecs\<close>

lemma uint_byte_eq: "0 \<le> k \<Longrightarrow> k < 256 \<Longrightarrow> uint (w :: u8) = k \<longleftrightarrow> w = word_of_int k"
  by (auto simp: uint_word_of_int)

lemma uint_byte_numeral: "numeral k < (256 :: int) \<Longrightarrow> uint (w :: u8) = numeral k \<longleftrightarrow> w = numeral k"
  by (subst uint_byte_eq) simp_all

lemma uint_and60: "uint (w :: u8) AND 0x60 = uint (w AND 0x60)"
  by (simp add: unsigned_and_eq)

definition zdl_code :: "int \<Rightarrow> u8 \<Rightarrow> u8 list \<Rightarrow> bool" where
  "zdl_code z b ws \<longleftrightarrow> ws = [b] \<and> b \<noteq> 0x18 \<and> \<not> skipped z (uint b)
     \<or> ws = [0x18, b XOR 0x40] \<and> b AND 0x60 = 0"

definition zdl_agrees :: "int \<Rightarrow> int \<Rightarrow> bool" where
  "zdl_agrees c z \<longleftrightarrow> z = 0 \<or> c \<noteq> 0"

lemma flip_and60: "(b :: u8) AND 0x60 = 0 \<Longrightarrow> (b XOR 0x40) AND 0x60 = 0x40"
  by (simp add: bit.conj_xor_distrib2)

lemma zdl_switch_flip:
  assumes "(w :: u8) AND 0x60 = 0x40"
  shows "uint w \<noteq> CAN" "zdl_switch z (uint w) = Some (uint (w XOR 0x40))"
proof -
  have ne: "w \<noteq> v" if "v AND 0x60 \<noteq> 0x40" for v
    using assms that by blast
  have list: "w \<noteq> 0x18" "w \<noteq> 0x68" "w \<noteq> 0x69" "w \<noteq> 0x6A" "w \<noteq> 0x6B" "w \<noteq> 0x6C" "w \<noteq> 0x6D"
      "w \<noteq> 0x13" "w \<noteq> 0x93" "w \<noteq> 0x11" "w \<noteq> 0x91"
    by (rule ne, simp)+
  then show "uint w \<noteq> CAN"
    by (simp add: uint_byte_numeral)
  have "\<not> skipped z (uint w)"
    using list by (simp add: skipped_def uint_and60 uint_byte_numeral assms)
  moreover have "uint w XOR 0x40 = uint (w XOR 0x40)"
    by (simp add: unsigned_xor_eq)
  ultimately show "zdl_switch z (uint w) = Some (uint (w XOR 0x40))"
    using list by (simp add: zdl_switch_def uint_byte_numeral uint_and60 assms)
qed

lemma zdlread_code:
  assumes "zdl_code (Zctlesc r) b ws" "feeds ws r"
  shows "zdlread r = (uint b, readn (length ws) r)"
  using assms(1) unfolding zdl_code_def
proof (elim disjE conjE)
  assume ws: "ws = [b]" and b: "b \<noteq> 0x18" "\<not> skipped (Zctlesc r) (uint b)"
  define t where "t = readn 1 r"
  have "readline r = (uint b, t)"
    using assms(2) unfolding ws t_def by (rule readline_feeds)
  moreover have "Zctlesc t = Zctlesc r" "readn (length ws) r = t"
    by (simp_all add: t_def ws)
  ultimately show ?thesis
    using b by (simp add: zdlread.simps [of r] uint_byte_numeral)
next
  assume ws: "ws = [0x18, b XOR 0x40]" and b: "b AND 0x60 = 0"
  define t u where "t = readn 1 r" and "u = readn 1 t"
  have "readline r = (uint (0x18 :: u8), t)"
    using assms(2) unfolding ws t_def by (rule readline_feeds)
  moreover have "readline t = (uint (b XOR 0x40), u)"
    unfolding u_def by (rule readline_feeds [of _ "[]"]) (use assms(2) in \<open>simp add: ws t_def\<close>)
  moreover have "Zctlesc u = Zctlesc r" "readn (length ws) r = u"
    by (simp_all add: t_def u_def ws)
  ultimately show ?thesis
    using zdl_switch_flip [OF flip_and60 [OF b]]
    by (simp add: zdlread.simps [of r] zdlread2.simps [of t] after_can_def xor.assoc)
qed

lemma special_byte: "\<not> special (uint (b :: u8))"
proof -
  have "uint b AND NOT (mask 8) = 0"
    by (rule bit_eqI) (auto simp: bit_simps dest: bit_imp_le_length)
  then show ?thesis
    by (simp add: special_def mask_eq_exp_minus_1)
qed

lemma tx_send: "tx (sendit c s) = tx s @ [c]" "tx (send_escaped c s) = tx s @ [0x18, c XOR 0x40]"
  by (simp_all add: sendit_def send_escaped_def xsendline_def sendline_def Let_def)

lemma Zctlesc_send [simp]: "Zctlesc (sendit c s) = Zctlesc s" "Zctlesc (send_escaped c s) = Zctlesc s"
    "Zctlesc (sendline c s) = Zctlesc s" "Zctlesc (xsendline c s) = Zctlesc s"
  by (simp_all add: sendit_def send_escaped_def xsendline_def sendline_def Let_def)

definition escapes :: "int \<Rightarrow> int \<Rightarrow> u8 \<Rightarrow> bool" where
  "escapes ctlesc before c \<longleftrightarrow> c = 0x18 \<or> (c = 0x0D \<or> c = 0x8D) \<and> (ctlesc \<noteq> 0 \<or> before AND 0x7F = 0x40)
     \<or> c = 0x10 \<or> c = 0x11 \<or> c = 0x13 \<or> c = 0x90 \<or> c = 0x91 \<or> c = 0x93 \<or> ctlesc \<noteq> 0 \<and> c AND 0x60 = 0"

lemma zsendline_alt:
  "zsendline c s = (if escapes (Zctlesc s) (lastsent s) c then send_escaped c s else sendit c s)"
  by (cases "Zctlesc s = 0 \<and> lastsent s AND 0x7F \<noteq> 0x40") (auto simp: zsendline_def escapes_def)

lemma zsendline_code:
  assumes "zdl_agrees (Zctlesc s) z"
  shows "\<exists>ws. tx (zsendline b s) = tx s @ ws \<and> zdl_code z b ws"
proof (cases "escapes (Zctlesc s) (lastsent s) b")
  case True
  then have "b AND 0x60 = 0"
    unfolding escapes_def by (elim disjE conjE; simp)
  with True show ?thesis
    by (simp add: zsendline_alt tx_send zdl_code_def)
next
  case False
  then have "b \<noteq> 0x18" "b \<noteq> 0x13" "b \<noteq> 0x93" "b \<noteq> 0x11" "b \<noteq> 0x91" "Zctlesc s = 0 \<or> b AND 0x60 \<noteq> 0"
    by (auto simp: escapes_def)
  with assms have "\<not> skipped z (uint b)"
    by (auto simp: skipped_def uint_byte_numeral uint_and60 zdl_agrees_def unsigned_eq_0_iff)
  with False \<open>b \<noteq> 0x18\<close> show ?thesis
    by (simp add: zsendline_alt tx_send zdl_code_def)
qed

interpretation zdl: byte_codec zsendline zdlread special zdl_code zdl_agrees
  by unfold_locales (simp_all add: zdlread_code special_byte zsendline_code, simp add: zsendline_alt)


definition hex_code :: "int \<Rightarrow> u8 \<Rightarrow> u8 list \<Rightarrow> bool" where
  "hex_code z b ws \<longleftrightarrow> ws = [digits ! unat (drop_bit 4 (b AND 0xF0)), digits ! unat (b AND 0xF)]"

lemma nibbles:
  fixes b :: u8
  shows "unat (drop_bit 4 (b AND 0xF0)) = unat b div 16" "unat (b AND 0xF) = unat b mod 16"
proof -
  have low: "unat (c AND 0xF) = unat c mod 16" for c :: u8
  proof -
    have "c AND 0xF = take_bit 4 c"
      by (simp add: take_bit_eq_mask mask_eq_exp_minus_1)
    then show ?thesis
      by (simp only: unsigned_take_bit_eq) (simp add: take_bit_eq_mod)
  qed
  then show "unat (b AND 0xF) = unat b mod 16" .
  have "drop_bit 4 (b AND 0xF0) = drop_bit 4 b AND 0xF"
    by simp
  moreover have "unat b div 16 < 16"
    using unsigned_less [of b, where 'a = nat] by simp
  moreover have "unat (drop_bit 4 b) = unat b div 16"
    by (simp only: unat_drop_bit_eq) (simp add: drop_bit_eq_div)
  ultimately show "unat (drop_bit 4 (b AND 0xF0)) = unat b div 16"
    using low [of "drop_bit 4 b"] by simp
qed

lemma digit_value:
  assumes "n < 16"
  shows "uint (digits ! n) AND 0x7F = uint (digits ! n)" "\<not> noxrd7_skips z (uint (digits ! n))"
    "(if uint (digits ! n) - 0x30 > 9 then uint (digits ! n) - 0x30 - (0x61 - 0x3A)
      else uint (digits ! n) - 0x30) = int n"
    "int n AND NOT 0xF = 0"
proof -
  have "n \<in> {0, 1, 2, 3, 4, 5, 6, 7, 8, 9, 10, 11, 12, 13, 14, 15}"
    using assms by (auto simp: less_Suc_eq numeral_eq_Suc)
  then show "uint (digits ! n) AND 0x7F = uint (digits ! n)" "\<not> noxrd7_skips z (uint (digits ! n))"
    "(if uint (digits ! n) - 0x30 > 9 then uint (digits ! n) - 0x30 - (0x61 - 0x3A)
      else uint (digits ! n) - 0x30) = int n" "int n AND NOT 0xF = 0"
    by (elim insertE emptyE; simp add: digits_def noxrd7_skips_def)+
qed

lemma noxrd7_digit:
  assumes "n < 16" "feeds [digits ! n] r"
  shows "noxrd7 r = (uint (digits ! n), readn 1 r)"
proof -
  define t where "t = readn 1 r"
  have "readline r = (uint (digits ! n), t)"
    using assms(2) unfolding t_def by (rule readline_feeds)
  moreover have "readn 1 r = t"
    by (simp add: t_def)
  ultimately show ?thesis
    using digit_value(1,2) [OF assms(1)] by (simp add: noxrd7.simps [of r])
qed

lemma zgethex_code:
  assumes "hex_code (Zctlesc r) b ws" "feeds ws r"
  shows "zgethex r = (uint b, readn (length ws) r)"
proof -
  define hi lo where "hi = unat b div 16" and "lo = unat b mod 16"
  have lt: "hi < 16" "lo < 16"
    using unsigned_less [of b, where 'a = nat] by (simp_all add: hi_def lo_def)
  have ws: "ws = [digits ! hi, digits ! lo]"
    using assms(1) by (simp only: hex_code_def nibbles hi_def lo_def)
  define t u where "t = readn 1 r" and "u = readn 1 t"
  have "noxrd7 r = (uint (digits ! hi), t)" "noxrd7 t = (uint (digits ! lo), u)"
    unfolding t_def u_def by (rule noxrd7_digit; use lt assms(2) in \<open>simp add: ws\<close>)+
  moreover have "readn (length ws) r = u"
    by (simp add: t_def u_def ws)
  moreover have "int lo + push_bit 4 (int hi) = uint b"
  proof -
    have "lo + hi * 16 = unat b"
      by (simp add: hi_def lo_def)
    then have "int (lo + hi * 16) = int (unat b)"
      by (rule arg_cong)
    then show ?thesis
      by (simp add: push_bit_eq_mult)
  qed
  moreover have "uint (x :: u8) < 0 \<longleftrightarrow> False" for x
    by simp
  ultimately show ?thesis
    by (simp only: zgethex_def zgeth1_def Let_def prod.case digit_value(3,4) [OF lt(1)]
      digit_value(3,4) [OF lt(2)] if_False not_False_eq_True simp_thms)
qed

lemma zputhex_code: "tx (zputhex b s) = tx s @ [digits ! unat (drop_bit 4 (b AND 0xF0)), digits ! unat (b AND 0xF)]"
  by (simp add: zputhex_def sendline_def Let_def)

interpretation hex: byte_codec zputhex zgethex "\<lambda>c. c < 0" hex_code "\<lambda>c z. True"
  by unfold_locales (simp_all add: zgethex_code zputhex_code hex_code_def, simp add: zputhex_def Let_def)

section \<open>The data subpacket readers\<close>

lemma zputs_alt:
  "send_crc put upd bs crc s = (foldl upd crc bs, fold put bs s)"
  unfolding send_crc_def by (induction bs arbitrary: crc s) simp_all

lemma zcrc16_tail_alt:
  "zcrc16_tail c = (let v = updcrc 0 (updcrc 0 c) in [ucast (drop_bit 8 v), ucast v])"
proof -
  have "(ucast (w AND 0xFF) :: u8) = ucast w" for w :: u16
    unfolding byte_mask by (rule bit_word_eqI) (simp add: bit_simps)
  then show ?thesis
    by (simp add: zcrc16_tail_def Let_def)
qed

lemma send_fcs_alt: "send_fcs 4 (NOT crc) s = fold zsendline (crc32_tail crc) s"
  by (simp add: crc32_tail_def Let_def numeral_eq_Suc drop_bit_drop_bit)


text \<open>A data subpacket spelled on the line: bytes, frame end, CRC.\<close>

lemma data_loop_spelled:
  assumes "spells (zdl_code (Zctlesc r)) bs u" "spells (zdl_code (Zctlesc r)) ts v"
    and "feeds (u @ [0x18, fe] @ v) r" "fe \<in> {0x68, 0x69, 0x6A, 0x6B}" "length bs < k"
    and "i + length bs \<le> length buf"
  shows "data_loop upd (length ts) good k i buf crc r =
    (let crc' = foldl upd crc (bs @ fe # ts) in
     (if crc' = good then uint fe OR GOTOR else ZERROR, take i buf @ bs @ drop (i + length bs) buf,
      (if crc' = good then (readn (length (u @ [0x18, fe] @ v)) r)\<lparr>Rxcount := int (i + length bs)\<rparr>
       else readn (length (u @ [0x18, fe] @ v)) r)))"
  using assms
proof (induction bs arbitrary: u r k i buf crc)
  case Nil
  from Nil obtain k' where k: "k = Suc k'"
    by (cases k) auto
  define t w where "t = readn 1 r" and "w = readn 1 t"
  have u: "u = []"
    using Nil by simp
  have "readline r = (uint (0x18 :: u8), t)"
    unfolding t_def by (rule readline_feeds [of _ "[]"]) (use Nil.prems(3) in \<open>simp add: u\<close>)
  moreover have "readline t = (uint fe, w)"
    unfolding w_def by (rule readline_feeds [of _ "[]"]) (use Nil.prems(3) in \<open>simp add: u t_def\<close>)
  moreover have "uint fe \<noteq> CAN" "zdl_switch z (uint fe) = Some (uint fe OR GOTOR)" "\<not> uint fe < 0" for z
    using Nil.prems(4) by (auto simp: zdl_switch_def)
  ultimately have z: "zdlread r = (uint fe OR GOTOR, w)"
    by (simp add: zdlread.simps [of r] zdlread2.simps [of t] after_can_def)
  have sp: "special (uint fe OR GOTOR)" "frame_end (uint fe OR GOTOR)"
      "word_of_int ((uint fe OR GOTOR) AND 0xFF) = fe"
    using Nil.prems(4) by (auto simp: special_def)
  have "crc_bytes zdlread special upd (length ts) (upd crc fe) w =
      (None, foldl upd (upd crc fe) ts, readn (length v) w)"
    by (rule zdl.crc_bytes_spelled) (use Nil.prems in \<open>simp_all add: u t_def w_def\<close>)
  then show ?case
    using sp by (simp add: k z crcfoo.simps [of _ _ _ _ "uint fe OR GOTOR"] Let_def u t_def w_def)
next
  case (Cons b bs)
  then obtain k' where k: "k = Suc k'"
    by (cases k) auto
  obtain ub us where u: "u = ub @ us" "zdl_code (Zctlesc r) b ub" "spells (zdl_code (Zctlesc r)) bs us"
    using Cons.prems(1) by auto
  have "zdlread r = (uint b, readn (length ub) r)"
    by (rule zdlread_code [OF u(2)]) (use Cons.prems u in simp)
  moreover have "take (Suc i) (buf[i := b]) @ bs @ drop (Suc i + length bs) (buf[i := b])
      = take i buf @ b # bs @ drop (i + Suc (length bs)) buf"
    using Cons.prems(6) by (simp add: take_Suc_conv_app_nth take_update_cancel)
  moreover define w where "w = us @ [0x18, fe] @ v"
  then have w: "u @ [0x18, fe] @ v = ub @ w"
    by (simp add: u)
  moreover have "data_loop upd (length ts) good k' (Suc i) (buf[i := b]) (upd crc b) (readn (length ub) r) =
    (let crc' = foldl upd (upd crc b) (bs @ fe # ts) in
     (if crc' = good then uint fe OR GOTOR else ZERROR,
      take (Suc i) (buf[i := b]) @ bs @ drop (Suc i + length bs) (buf[i := b]),
      (if crc' = good then (readn (length w) (readn (length ub) r))\<lparr>Rxcount := int (Suc i + length bs)\<rparr>
       else readn (length w) (readn (length ub) r))))"
    unfolding w_def by (rule Cons.IH) (use Cons.prems u in \<open>simp_all add: k\<close>)
  ultimately show ?case
    by (simp add: k special_byte readn_add w Let_def del: append_Cons)
qed


section \<open>What the senders send\<close>

lemma map_nth_take: "n \<le> length xs \<Longrightarrow> map (nth xs) [0..<n] = take n xs"
  by (rule nth_equalityI) simp_all

lemma tx_sendline [simp]: "tx (sendline c s) = tx s @ [c]" "tx (xsendline c s) = tx s @ [c]"
  by (simp_all add: xsendline_def sendline_def)

text \<open>The check bytes a subpacket or a header ends with.\<close>

definition check_bytes :: "bool \<Rightarrow> u8 list \<Rightarrow> u8 list" where
  "check_bytes fcs32 bs = (if fcs32 then crc32_tail (foldl (\<lambda>crc c. UPDC32 c crc) 0xFFFFFFFF bs)
     else zcrc16_tail (foldl (\<lambda>crc c. updcrc c crc) 0 bs))"

lemma zsdata_sent:
  assumes "zdl_agrees (Zctlesc s) z" "len \<le> length buf"
  shows "\<exists>u v. tx (zsdata buf len fe s) = tx s @ u @ [0x18, word_of_int fe] @ v
      @ (if fe = ZCRCW then [0x11] else [])
    \<and> spells (zdl_code z) (take len buf) u
    \<and> spells (zdl_code z) (check_bytes (Crc32t s \<noteq> 0) (take len buf @ [word_of_int fe])) v"
proof -
  let ?b = "take len buf"
  let ?fin = "\<lambda>s. if fe = ZCRCW then xsendline 0x11 s else s"
  let ?t = "check_bytes (Crc32t s \<noteq> 0) (?b @ [word_of_int fe])"
  define s1 where "s1 = xsendline (word_of_int fe) (xsendline 0x18 (fold zsendline ?b s))"
  have eq: "zsdata buf len fe s = ?fin (fold zsendline ?t s1)"
    using assms(2)
    by (simp add: zsdata_def zsda32_def zputs_alt map_nth_take send_fcs_alt check_bytes_def s1_def zcrc16_tail_alt Let_def)
  obtain u where u: "tx (fold zsendline ?b s) = tx s @ u" "spells (zdl_code z) ?b u"
    using zdl.put_spells [OF assms(1)] by blast
  have "zdl_agrees (Zctlesc s1) z"
    using assms(1) by (simp add: s1_def zdl.fold_put_keeps)
  then obtain v where v: "tx (fold zsendline ?t s1) = tx s1 @ v" "spells (zdl_code z) ?t v"
    using zdl.put_spells by blast
  have "tx (zsdata buf len fe s) = tx s @ u @ [0x18, word_of_int fe] @ v
      @ (if fe = ZCRCW then [0x11] else [])"
  proof -
    define f where "f = fold zsendline ?t s1"
    have "tx f = tx s @ u @ [0x18, word_of_int fe] @ v"
      unfolding f_def v(1) by (simp add: s1_def u(1))
    then show ?thesis
      unfolding eq f_def [symmetric] by simp
  qed
  with u v show ?thesis
    by blast
qed

lemma fold_zsendline_keeps [simp]: "Crc32t (fold zsendline bs s) = Crc32t s" "Txfcs32 (fold zsendline bs s) = Txfcs32 s"
  by (induction bs arbitrary: s)
    (simp_all add: zsendline_alt sendit_def send_escaped_def xsendline_def sendline_def Let_def)

lemma zsbhdr_sent:
  assumes "zdl_agrees (Zctlesc s) z" "length hdr = 4" "ty \<noteq> ZDATA \<or> Znulls s = 0"
  shows "\<exists>w. tx (zsbhdr ty hdr s) = tx s @ [0x2A, 0x18, if Txfcs32 s \<noteq> 0 then 0x43 else 0x41] @ w
    \<and> spells (zdl_code z) (word_of_int ty # hdr @ check_bytes (Txfcs32 s \<noteq> 0) (word_of_int ty # hdr)) w"
proof -
  define s1 where "s1 = xsendline (if Txfcs32 s \<noteq> 0 then 0x43 else 0x41)
    ((xsendline 0x18 (xsendline 0x2A s))\<lparr>Crc32t := Txfcs32 s\<rparr>)"
  let ?bs = "word_of_int ty # hdr @ check_bytes (Txfcs32 s \<noteq> 0) (word_of_int ty # hdr)"
  have keeps: "Txfcs32 (xsendline c t) = Txfcs32 t" for c and t :: "'c zlink_scheme"
    by (simp add: xsendline_def sendline_def)
  have nulls: "(if ty = ZDATA then (zsendline 0 ^^ Znulls s) s else s) = s"
    using assms(3) by auto
  obtain a b c d where hdr: "hdr = [a, b, c, d]"
    using list_length_4 [OF assms(2)] by blast
  have "zsbhdr ty hdr s = fold zsendline ?bs s1"
    unfolding zsbhdr_def nulls Let_def
    by (simp add: zsbh32_def zputs_alt hdr check_bytes_def send_fcs_alt s1_def keeps
        zcrc16_tail_alt Let_def)
  moreover have "zdl_agrees (Zctlesc s1) z"
    using assms(1) by (simp add: s1_def)
  ultimately obtain w where "tx (zsbhdr ty hdr s) = tx s1 @ w" "spells (zdl_code z) ?bs w"
    using zdl.put_spells by metis
  then show ?thesis
    by (auto simp: s1_def)
qed

lemma zputhex_Crc32t: "(zputhex c s)\<lparr>Crc32t := a\<rparr> = zputhex c (s\<lparr>Crc32t := a\<rparr>)"
  by (simp add: zputhex_def sendline_def Let_def)

lemma zshhdr_sent:
  assumes "length hdr = 4"
  shows "\<exists>w. tx (zshhdr ty hdr s) = tx s @ [0x2A, 0x2A, 0x18, 0x42] @ w @ [0x0D, 0x8A]
      @ (if ty \<noteq> ZFIN \<and> ty \<noteq> ZACK then [0x11] else [])
    \<and> spells (hex_code z) (word_of_int ty # hdr @ check_bytes False (word_of_int ty # hdr)) w"
proof -
  define s1 where "s1 = (sendline 0x42 (sendline 0x18 (sendline 0x2A (sendline 0x2A s))))\<lparr>Crc32t := 0\<rparr>"
  let ?bs = "word_of_int ty # hdr @ check_bytes False (word_of_int ty # hdr)"
  obtain a b c d where hdr: "hdr = [a, b, c, d]"
    using list_length_4 [OF assms] by blast
  have "zshhdr ty hdr s = (let s = sendline 0x8A (sendline 0x0D (fold zputhex ?bs s1))
      in if ty \<noteq> ZFIN \<and> ty \<noteq> ZACK then sendline 0x11 s else s)"
    by (simp add: zshhdr_def zputs_alt hdr check_bytes_def zcrc16_tail_alt s1_def zputhex_Crc32t Let_def)
  moreover obtain w where w: "tx (fold zputhex ?bs s1) = tx s1 @ w" "spells (hex_code z) ?bs w"
    using hex.put_spells by blast
  moreover define f where "f = fold zputhex ?bs s1"
  ultimately have eq: "zshhdr ty hdr s = (let s = sendline 0x8A (sendline 0x0D f)
      in if ty \<noteq> ZFIN \<and> ty \<noteq> ZACK then sendline 0x11 s else s)"
    by simp
  have "tx f = tx s @ [0x2A, 0x2A, 0x18, 0x42] @ w"
    unfolding f_def w(1) by (simp add: s1_def)
  then have "tx (zshhdr ty hdr s) = tx s @ [0x2A, 0x2A, 0x18, 0x42] @ w @ [0x0D, 0x8A]
      @ (if ty \<noteq> ZFIN \<and> ty \<noteq> ZACK then [0x11] else [])"
    unfolding eq Let_def by simp
  with w(2) show ?thesis
    by blast
qed


section \<open>What arrives\<close>

lemma check_bytes_good:
  "foldl (\<lambda>crc c. updcrc c crc) 0 (bs @ check_bytes False bs) = 0"
  "foldl (\<lambda>crc c. UPDC32 c crc) 0xFFFFFFFF (bs @ check_bytes True bs) = 0xDEBB20E3"
  "length (check_bytes False bs) = 2" "length (check_bytes True bs) = 4"
  by (simp_all add: check_bytes_def zcrc16.tail_good zcrc32.tail_good zcrc16.length_tail zcrc32.length_tail)

text \<open>
  The reader accepts a subpacket exactly when the check bytes are right; what it stores does not
  depend on that.
\<close>

lemma zrdata_spelled:
  assumes "spells (zdl_code (Zctlesc r)) bs u" "spells (zdl_code (Zctlesc r)) ts v"
    and "feeds (u @ [0x18, fe] @ v) r" "fe \<in> {0x68, 0x69, 0x6A, 0x6B}" "length bs \<le> cap" "length bs \<le> length buf"
    and "length ts = (if Rxframeind r = ZBIN32 then 4 else 2)"
  shows "zrdata buf cap r =
    (let good = ts = check_bytes (Rxframeind r = ZBIN32) (bs @ [fe]);
         r' = (readn (length (u @ [0x18, fe] @ v)) r)
     in (if good then uint fe OR GOTOR else ZERROR, bs @ drop (length bs) buf,
         r'\<lparr>Rxcount := if good then int (length bs) else 0\<rparr>))"
proof -
  let ?r = "r\<lparr>Rxcount := 0\<rparr>"
  note [simp del] = append_Cons
  have sp: "spells (zdl_code (Zctlesc ?r)) bs u" "spells (zdl_code (Zctlesc ?r)) ts v" "feeds (u @ [0x18, fe] @ v) ?r"
    "length bs < cap + 1" "0 + length bs \<le> length buf"
    using assms by simp_all
  show ?thesis
  proof (cases "Rxframeind r = ZBIN32")
    case True
    have crc: "foldl (\<lambda>crc c. UPDC32 c crc) 0xFFFFFFFF (bs @ fe # ts) = 0xDEBB20E3
        \<longleftrightarrow> ts = check_bytes True (bs @ [fe])"
      using zcrc32.accept_iff [where ts = ts and c = "0xFFFFFFFF" and xs = "bs @ [fe]"] assms(7) True by (simp add: check_bytes_def append_Cons)
    have four: "length ts = 4"
      using assms(7) True by simp
    have eq: "zrdata buf cap r = data_loop (\<lambda>crc c. UPDC32 c crc) (length ts) 0xDEBB20E3 (cap + 1) 0 buf 0xFFFFFFFF ?r"
      by (simp add: zrdata_def zrdat32_def True four del: data_loop.simps)
    show ?thesis
      unfolding eq data_loop_spelled [OF sp(1,2,3) assms(4) sp(4,5)] Let_def crc
      by (simp add: True)
  next
    case False
    have crc: "foldl (\<lambda>crc c. updcrc c crc) 0 (bs @ fe # ts) = 0
        \<longleftrightarrow> ts = check_bytes False (bs @ [fe])"
      using zcrc16.accept_iff [where ts = ts and c = 0 and xs = "bs @ [fe]"] assms(7) False by (simp add: check_bytes_def append_Cons)
    have two: "length ts = 2"
      using assms(7) False by simp
    have eq: "zrdata buf cap r = data_loop (\<lambda>crc c. updcrc c crc) (length ts) 0 (cap + 1) 0 buf 0 ?r"
      by (simp add: zrdata_def False two del: data_loop.simps)
    show ?thesis
      unfolding eq data_loop_spelled [OF sp(1,2,3) assms(4) sp(4,5)] Let_def crc
      by (simp add: False)
  qed
qed

text \<open>
  The three kinds of header, spelled on the line with any check bytes.
\<close>

definition header_state :: "int \<Rightarrow> int \<Rightarrow> u8 list \<Rightarrow> 'a zlink_scheme \<Rightarrow> 'a zlink_scheme" where
  "header_state kind ty hdr s = s\<lparr>Rxframeind := kind, Crc32 := (if kind = ZBIN32 then ZBIN32 else 0),
     Rxtype := ty, Rxhdr := hdr, Zmodem := 1, Rxpos := rclhdr hdr\<rparr>"

lemma byte_join: "push_bit 8 (p :: u32) + ucast (b :: u8) = push_bit 8 p OR (ucast b AND 0xFF)"
proof -
  have "(ucast b :: u32) AND 0xFF = ucast b"
    unfolding byte_mask by (rule bit_word_eqI) (auto simp: bit_simps dest: bit_imp_le_length)
  moreover have "push_bit 8 p + ucast b = push_bit 8 p OR ucast b"
    by (rule disjunctive_add) (auto simp: bit_simps dest: bit_imp_le_length)
  ultimately show ?thesis
    by simp
qed

lemma got_header_alt: "got_header (c, s) = (Fifi c, s\<lparr>Rxpos := rclhdr (Rxhdr s)\<rparr>)"
proof -
  have "(ucast b :: u32) AND 0xFF = ucast b" for b :: u8
    unfolding byte_mask by (rule bit_word_eqI) (auto simp: bit_simps dest: bit_imp_le_length)
  then show ?thesis
    by (simp add: got_header_def rclhdr_def byte_join Let_def)
qed

lemma noxrd7_byte:
  assumes "feeds [b] r" "\<not> noxrd7_skips (Zctlesc r) (uint b AND 0x7F)"
  shows "noxrd7 r = (uint b AND 0x7F, readn 1 r)"
proof -
  define t where "t = readn 1 r"
  have "readline r = (uint b, t)"
    using assms(1) unfolding t_def by (rule readline_feeds)
  moreover have "Zctlesc t = Zctlesc r" "readn 1 r = t"
    by (simp_all add: t_def)
  ultimately show ?thesis
    using assms(2) by (simp add: noxrd7.simps [of r])
qed

lemma stohdr_rclhdr: "length (Txhdr s) = 4 \<Longrightarrow> rclhdr (Txhdr (stohdr pos s)) = pos"
proof -
  assume "length (Txhdr s) = 4"
  then obtain a b c d where h: "Txhdr s = [a, b, c, d]"
    using list_length_4 by blast
  have m: "(ucast b :: u32) AND 0xFF = ucast b" for b :: u8
    unfolding byte_mask by (rule bit_word_eqI) (auto simp: bit_simps dest: bit_imp_le_length)
  have "push_bit 8 (push_bit 8 (push_bit 8 (x :: u32) OR y) OR z) OR w
      = w OR push_bit 8 z OR push_bit 16 y OR push_bit 24 x" for x y z w
    by (rule bit_word_eqI) (auto simp: bit_simps)
  then show ?thesis
    by (simp add: stohdr_def rclhdr_def h m Let_def bytes32_join)
qed

section \<open>Properties\<close>

text \<open>A burst that arrives in one poll feeds the reader, whatever its length.\<close>

lemma feeds_buffered:
  "Lleft r = int (length bs) \<Longrightarrow> linbuf r = pre @ bs \<Longrightarrow> cdq r = length pre \<Longrightarrow> feeds bs r"
proof (induction bs arbitrary: r pre)
  case (Cons b bs)
  then have "readline r = (uint b, r\<lparr>Lleft := int (length bs), cdq := Suc (length pre)\<rparr>)"
    by (simp add: readline_def Let_def nth_append)
  with Cons.prems Cons.IH [of "r\<lparr>Lleft := int (length bs), cdq := Suc (length pre)\<rparr>" "pre @ [b]"]
  show ?case
    by simp
qed simp

lemma uart_read_burst:
  "0 < n \<Longrightarrow> bs \<noteq> [] \<Longrightarrow> n \<le> length bs \<or> later = [] \<Longrightarrow> uart_read n [] (bs # later) = (bs, later)"
  by (auto simp: uart_read.simps [of n "[]"] uart_read.simps [of n bs])

lemma feeds_burst:
  assumes "Lleft r \<le> 0" "0 < Readnum r" "rx r = [bs]"
  shows "feeds bs r"
proof (cases bs)
  case (Cons b bs')
  let ?t = "r\<lparr>linbuf := bs, Lleft := int (length bs'), cdq := 1, rx := []\<rparr>"
  have "readline r = (uint b, ?t)"
    using assms uart_read_burst [of "Readnum r" bs "[]"] Cons by (simp add: readline_def Let_def)
  moreover have "feeds bs' ?t"
    by (rule feeds_buffered [of _ _ "[b]"]) (simp_all add: Cons)
  ultimately show ?thesis
    by (simp add: Cons)
qed simp

definition idle :: "u8 list list \<Rightarrow> zlink" where
  "idle polls = \<lparr>rx = polls, tx = [], linbuf = [], cdq = 0, Lleft = 0, Readnum = HOWMANY, Zctlesc = 0,
     lastsent = 0, Rxframeind = ZBIN, Rxtype = 0, Rxcount = 0, Rxhdr = [0, 0, 0, 0], Txhdr = [0, 0, 0, 0],
     Rxpos = 0, Txfcs32 = 0, Crc32t = 0, Crc32 = 0, Znulls = 0, Zmodem = 0, Errors = 0\<rparr>"

lemma idle_simps [simp]:
  "rx (idle p) = p" "tx (idle p) = []" "Lleft (idle p) = 0" "Readnum (idle p) = 133" "Zctlesc (idle p) = 0"
  "Rxframeind (idle p) = ZBIN" "Rxhdr (idle p) = [0, 0, 0, 0]" "Txhdr (idle p) = [0, 0, 0, 0]"
  "Txfcs32 (idle p) = 0" "Crc32t (idle p) = 0" "Znulls (idle p) = 0" "lastsent (idle p) = 0"
  by (simp_all add: idle_def HOWMANY_def)

text \<open>C14. Data transparency: whatever bytes \<open>zsdata\<close> sends as a subpacket, with any frame end, any
  escaping state and either frame check, \<open>zrdata\<close> stores exactly these bytes, reports their number
  and returns the frame end.\<close>

theorem zsdata_zrdata:
  assumes "zdl_agrees (Zctlesc s) (Zctlesc r)" and "Rxframeind r = ZBIN32 \<longleftrightarrow> Crc32t s \<noteq> 0"
    and "len \<le> length buf" "len \<le> cap" "len \<le> length rbuf"
    and "fe \<in> {ZCRCE, ZCRCG, ZCRCQ, ZCRCW}"
    and "feeds (sent (zsdata buf len fe) s) r"
  shows "zrdata rbuf cap r = (fe OR GOTOR, take len buf @ drop len rbuf,
    (readn (length (sent (zsdata buf len fe) s) - (if fe = ZCRCW then 1 else 0)) r)\<lparr>Rxcount := int len\<rparr>)"
proof -
  let ?bs = "take len buf" and ?fe = "word_of_int fe :: u8"
  let ?ts = "check_bytes (Crc32t s \<noteq> 0) (?bs @ [?fe])"
  obtain u v where w: "tx (zsdata buf len fe s) = tx s @ u @ [0x18, ?fe] @ v @ (if fe = ZCRCW then [0x11] else [])"
    and sp: "spells (zdl_code (Zctlesc r)) ?bs u" "spells (zdl_code (Zctlesc r)) ?ts v"
    using zsdata_sent [OF assms(1,3)] by blast
  have snt: "sent (zsdata buf len fe) s = (u @ [0x18, ?fe] @ v) @ (if fe = ZCRCW then [0x11] else [])"
    by (simp add: sent_def w)
  have fe: "?fe \<in> {0x68, 0x69, 0x6A, 0x6B}" "uint ?fe = fe"
    using assms(6) by auto
  have "zrdata rbuf cap r = (uint ?fe OR GOTOR, ?bs @ drop len rbuf,
      (readn (length (u @ [0x18, ?fe] @ v)) r)\<lparr>Rxcount := int len\<rparr>)"
    using zrdata_spelled [OF sp _ fe(1), of cap rbuf] assms(2-5,7) fe
    by (simp add: snt check_bytes_good split: if_splits)
  moreover have "length (u @ [0x18, ?fe] @ v) = length (sent (zsdata buf len fe) s) - (if fe = ZCRCW then 1 else 0)"
    unfolding snt by simp
  ultimately show ?thesis
    using fe(2) by (simp only:)
qed

theorem zsdata_zrdata_witness:
  "let s = idle []; r = idle [sent (zsdata [0x18, 0x41, 0x11] 3 ZCRCW) s]
   in fst (zrdata [7, 7, 7, 7] 3 r) = GOTCRCW \<and> fst (snd (zrdata [7, 7, 7, 7] 3 r)) = [0x18, 0x41, 0x11, 7]"
  unfolding Let_def
  by (subst (1 2) zsdata_zrdata [where s = "idle []" and fe = ZCRCW and len = 3 and buf = "[0x18, 0x41, 0x11]"])
    (simp_all add: zdl_agrees_def feeds_burst)


text \<open>C29. Error detection: when the check bytes that arrive belong to a subpacket that differs from
  the received one in one byte, \<open>zrdata\<close> returns \<open>ERROR\<close> and reports no data.\<close>

theorem zrdata_rejects_changed_byte:
  assumes "spells (zdl_code (Zctlesc r)) (xs @ b' # ys) u" "spells (zdl_code (Zctlesc r)) ts v"
    and "feeds (u @ [0x18, fe] @ v) r" "fe \<in> {0x68, 0x69, 0x6A, 0x6B}"
    and "length xs + length ys < cap" "length xs + length ys < length buf"
    and "ts = check_bytes (Rxframeind r = ZBIN32) (xs @ b # ys @ [fe])" "b \<noteq> b'"
  shows "fst (zrdata buf cap r) = ZERROR \<and> Rxcount (snd (snd (zrdata buf cap r))) = 0"
proof -
  have "ts \<noteq> check_bytes (Rxframeind r = ZBIN32) ((xs @ b' # ys) @ [fe])"
  proof
    assume eq: "ts = check_bytes (Rxframeind r = ZBIN32) ((xs @ b' # ys) @ [fe])"
    show False
    proof (cases "Rxframeind r = ZBIN32")
      case True
      have "foldl (\<lambda>crc c. UPDC32 c crc) 0xFFFFFFFF (xs @ b # (ys @ [fe] @ ts)) = 0xDEBB20E3"
        "foldl (\<lambda>crc c. UPDC32 c crc) 0xFFFFFFFF (xs @ b' # (ys @ [fe] @ ts)) = 0xDEBB20E3"
        using check_bytes_good(2) [of "xs @ b # ys @ [fe]"] check_bytes_good(2) [of "(xs @ b' # ys) @ [fe]"]
          assms(7) eq True by simp_all
      with zcrc32.single_byte_detected [OF _ assms(8)] show False
        by blast
    next
      case False
      have "foldl (\<lambda>crc c. updcrc c crc) 0 (xs @ b # (ys @ [fe] @ ts)) = 0"
        "foldl (\<lambda>crc c. updcrc c crc) 0 (xs @ b' # (ys @ [fe] @ ts)) = 0"
        using check_bytes_good(1) [of "xs @ b # ys @ [fe]"] check_bytes_good(1) [of "(xs @ b' # ys) @ [fe]"]
          assms(7) eq False by simp_all
      with zcrc16.single_byte_detected [OF _ assms(8)] show False
        by blast
    qed
  qed
  moreover have "length ts = (if Rxframeind r = ZBIN32 then 4 else 2)"
    using assms(7) by (simp add: check_bytes_good)
  ultimately show ?thesis
    using zrdata_spelled [OF assms(1-4), of cap buf] assms(5,6) by (simp add: Let_def)
qed

theorem zrdata_rejects_changed_byte_witness:
  "let v = tx (fold zsendline (check_bytes False [1, 2, 3, 0x69]) (idle []));
       r = idle [[1, 7, 3] @ [0x18, 0x69] @ v]
   in fst (zrdata [0, 0, 0, 0, 0] 4 r) = ZERROR \<and> Rxcount (snd (snd (zrdata [0, 0, 0, 0, 0] 4 r))) = 0"
proof -
  let ?ts = "check_bytes False [1, 2, 3, 0x69]"
  obtain v where v: "tx (fold zsendline ?ts (idle [])) = v" "spells (zdl_code 0) ?ts v"
    using zdl.put_spells [of "idle []" 0 ?ts] by (auto simp: zdl_agrees_def)
  let ?r = "idle [[1, 7, 3] @ [0x18, 0x69] @ v]"
  have u: "spells (zdl_code (Zctlesc ?r)) ([1] @ 7 # [3]) [1, 7, 3]"
    by (intro exI [of _ "[1]"] exI [of _ "[7, 3]"] exI [of _ "[7]"] exI [of _ "[3]"] conjI
        | simp add: zdl_code_def skipped_def)+
  have f: "feeds ([1, 7, 3] @ [0x18, 0x69] @ v) ?r"
    by (rule feeds_burst) simp_all
  have "spells (zdl_code (Zctlesc ?r)) ?ts v"
    using v(2) by simp
  then have "fst (zrdata [0, 0, 0, 0, 0] 4 ?r) = ZERROR \<and> Rxcount (snd (snd (zrdata [0, 0, 0, 0, 0] 4 ?r))) = 0"
    by (rule zrdata_rejects_changed_byte [OF u _ f, where b = 2]) simp_all
  then show ?thesis
    by (simp add: v)
qed

text \<open>\<open>uart_read\<close> takes whole bursts from the FIFO: it returns fewer bytes than were asked for plus
  the largest burst. The call in \<open>readline\<close> asks for \<open>HOWMANY\<close> bytes for the buffer \<open>linbuf\<close> of
  \<open>HOWMANY\<close> bytes, so bursts of 16 bytes make it write eleven bytes past its end.\<close>

theorem uart_read_burst_bound:
  assumes "\<forall>b\<in>set polls. length b \<le> k" "0 < n"
  shows "length (fst (uart_read n [] polls)) < n + k + (if k = 0 then 1 else 0)"
proof -
  have "length (fst (uart_read n got polls)) < n + k + (if k = 0 then 1 else 0)"
    if "length got < n + k" for got
    using assms(1) that
  proof (induction n got polls rule: uart_read.induct)
    case (1 want got polls)
    show ?case
    proof (cases "length got < want \<and> polls \<noteq> [] \<and> hd polls \<noteq> []")
      case True
      then obtain b later where p: "polls = b # later" "b \<noteq> []"
        by (cases polls) auto
      with True 1 show ?thesis
        by (simp add: uart_read.simps [of want got "b # later"])
    next
      case False
      with 1 show ?thesis
        by (subst uart_read.simps) (auto split: list.splits)
    qed
  qed
  with assms(2) show ?thesis
    by simp
qed

theorem uart_read_burst_bound_witness:
  "HOWMANY < length (fst (uart_read HOWMANY [] (replicate 9 (replicate 16 0))))
   \<and> length (fst (uart_read HOWMANY [] (replicate 9 (replicate 16 0)))) < HOWMANY + 16"
  using uart_read_burst_bound [of "replicate 9 (replicate 16 0)" 16 HOWMANY]
  by (simp add: HOWMANY_def uart_read.simps numeral_eq_Suc)

text \<open>Whatever arrives, \<open>zdlread\<close> does nothing but read the line.\<close>

lemma zdlread2_reads: "\<exists>n. snd (zdlread2 s) = readn n s"
proof (induction s rule: zdlread2.induct)
  case (1 s)
  obtain c t where ct: "after_can (after_can (after_can (readline s))) = (c, t)"
    by fastforce
  have step: "\<exists>n. snd (after_can x) = readn n s" if "\<exists>n. snd x = readn n s" for x
  proof -
    from that obtain n where n: "snd x = readn n s" by blast
    have *: "snd (readline (snd x)) = readn (n + 1) s"
      unfolding n by (simp only: readn_add) simp
    show ?thesis
    proof (cases "fst x = CAN")
      case True
      then show ?thesis
        by (intro exI [of _ "n + 1"]) (simp only: after_can_def if_True simp_thms *)
    qed (use n in \<open>auto simp: after_can_def\<close>)
  qed
  have "\<exists>n. snd (readline s) = readn n s"
    by (rule exI [of _ 1]) simp
  from step [OF step [OF step [OF this]]] obtain n where n: "t = readn n s"
    by (auto simp: ct)
  consider "zdlread2 s = zdlread2 t" "\<not> c < 0" "zdl_switch (Zctlesc t) c = None" | "snd (zdlread2 s) = t"
    unfolding zdlread2.simps [of s] ct prod.case
    by (cases "c < 0"; cases "zdl_switch (Zctlesc t) c") simp_all
  then show ?case
  proof cases
    case 1
    with "1.IH" [OF ct [symmetric]] obtain m where "snd (zdlread2 s) = readn m t"
      by auto
    with n show ?thesis
      by (auto simp flip: readn_add)
  qed (use n in blast)
qed

lemma zdlread_reads: "\<exists>n. snd (zdlread s) = readn n s"
proof (induction s rule: zdlread.induct)
  case (1 s)
  obtain c t where ct: "readline s = (c, t)"
    by fastforce
  then have t: "t = readn 1 s"
    by simp
  consider "zdlread s = zdlread2 t" | "zdlread s = zdlread t" "c \<noteq> ZDLE" "skipped (Zctlesc t) c"
    | "snd (zdlread s) = t"
    unfolding zdlread.simps [of s] ct prod.case by (cases "c = ZDLE"; cases "skipped (Zctlesc t) c") simp_all
  then obtain m where "snd (zdlread s) = readn m t"
  proof cases
    case 1
    with zdlread2_reads [of t] show ?thesis
      using that by auto
  next
    case 2
    with "1.IH" [OF ct [symmetric]] show ?thesis
      using that by auto
  next
    case 3
    with that [of 0] show ?thesis
      by simp
  qed
  then have "snd (zdlread s) = readn (1 + m) s"
    by (simp only: readn_add t)
  then show ?case
    by blast
qed

lemma zdlread_keeps: "zdlread s = (c, t) \<Longrightarrow> Rxcount t = Rxcount s \<and> tx t = tx s \<and> Rxhdr t = Rxhdr s"
  using zdlread_reads [of s] by auto

lemma crc_bytes_keeps:
  "crc_bytes zdlread special upd n crc s = (e, crc', t) \<Longrightarrow> Rxcount t = Rxcount s"
proof (induction n arbitrary: crc s)
  case (Suc n)
  obtain d u where d: "zdlread s = (d, u)" by fastforce
  show ?case
    using Suc.prems zdlread_keeps [OF d] by (auto simp: d split: if_splits dest: Suc.IH)
qed simp

lemma crcfoo_count:
  "crcfoo upd n good i c crc s = (d, t) \<Longrightarrow> Rxcount t = Rxcount s \<or> Rxcount t = int i"
proof (induction upd n good i c crc s rule: crcfoo.induct)
  case (1 upd n good i c crc s)
  obtain e crc' u where k: "crc_bytes zdlread special upd n (upd crc (word_of_int (c AND 0xFF))) s = (e, crc', u)"
    using prod_cases3 by blast
  note u = crc_bytes_keeps [OF k]
  show ?case
  proof (cases "frame_end c")
    case True
    show ?thesis
    proof (cases e)
      case None
      with 1(2) k u True show ?thesis
        by (auto simp: crcfoo.simps [of _ _ _ _ c] split: if_splits)
    next
      case (Some e')
      then have "crcfoo upd n good i e' crc' u = (d, t)"
        using 1(2) k True by (simp add: crcfoo.simps [of _ _ _ _ c])
      with 1(1) [OF True k [symmetric]] u Some show ?thesis
        by auto
    qed
  next
    case False
    with 1(2) show ?thesis
      by (auto simp: crcfoo.simps [of _ _ _ _ c] split: if_splits)
  qed
qed

lemma data_loop_bounds:
  assumes "data_loop upd n good k i buf crc s = (d, buf', t)" "Rxcount s = 0"
  shows "length buf' = length buf \<and> drop (i + k) buf' = drop (i + k) buf
    \<and> 0 \<le> Rxcount t \<and> Rxcount t < int (i + k) + (if k = 0 \<and> i = 0 then 1 else 0)"
  using assms
proof (induction k arbitrary: i buf crc s)
  case (Suc k)
  obtain c u where c: "zdlread s = (c, u)" by fastforce
  note u = zdlread_keeps [OF c]
  show ?case
  proof (cases "special c")
    case True
    with Suc.prems c u crcfoo_count [of upd n good i c crc u d t] show ?thesis
      by (auto split: prod.splits)
  next
    case False
    then have "data_loop upd n good k (Suc i) (buf[i := word_of_int c]) (upd crc (word_of_int c)) u = (d, buf', t)"
      using Suc.prems c by simp
    from Suc.IH [OF this] Suc.prems(2) u show ?thesis
      by simp
  qed
qed simp

text \<open>C27. The link never writes more than one byte past the announced length: whatever arrives, and
  however the call ends, \<open>zrdata\<close> leaves the buffer untouched beyond position \<open>len\<close>, and a successful
  return reports at most \<open>len\<close> bytes.\<close>


theorem zrdata_bounds:
  "let (d, buf', t) = zrdata buf len s
   in length buf' = length buf \<and> drop (len + 1) buf' = drop (len + 1) buf
     \<and> 0 \<le> Rxcount t \<and> Rxcount t \<le> int len"
proof -
  obtain d buf' t where z: "zrdata buf len s = (d, buf', t)"
    using prod_cases3 by blast
  consider "data_loop (\<lambda>crc c. UPDC32 c crc) 4 0xDEBB20E3 (len + 1) 0 buf 0xFFFFFFFF (s\<lparr>Rxcount := 0\<rparr>) = (d, buf', t)"
    | "data_loop (\<lambda>crc c. updcrc c crc) 2 0 (len + 1) 0 buf 0 (s\<lparr>Rxcount := 0\<rparr>) = (d, buf', t)"
    using z unfolding zrdata_def zrdat32_def by (cases "Rxframeind s = ZBIN32") (simp_all only: if_True if_False simp_thms)
  then show ?thesis
    by cases (drule data_loop_bounds, simp, simp add: z)+
qed


lemma word_of_int_byte: "0 \<le> ty \<Longrightarrow> ty < 256 \<Longrightarrow> uint (word_of_int ty :: u8) = ty"
  by (simp add: uint_word_of_int)

text \<open>From the first pad character on, \<open>zgethdr\<close> finds the header behind it.\<close>

lemma zgethdr_pad:
  assumes "feeds [0x2A] r"
  shows "zgethdr r = hdr_run 116600 Splat ((readn 1 r)\<lparr>Rxframeind := 0, Rxtype := 0\<rparr>)"
proof -
  have "readline (r\<lparr>Rxframeind := 0, Rxtype := 0\<rparr>) = (0x2A, (readn 1 r)\<lparr>Rxframeind := 0, Rxtype := 0\<rparr>)"
    using assms readline_feeds [of "0x2A" "[]" "r\<lparr>Rxframeind := 0, Rxtype := 0\<rparr>"]
    by simp
  then show ?thesis
    by (simp add: zgethdr_def hdr_again_def Zrwindow_def Baudrate_def)
qed

lemma hdr_splat_step:
  assumes "noxrd7 r = (0x18, r1)" "noxrd7 r1 = (uint (k :: u8), r2)" "k \<in> {0x41, 0x42, 0x43}"
  shows "hdr_splat r = got_header ((if k = 0x41 then zrbhdr else if k = 0x43 then zrbhdr32 else zrhhdr)
     (r2\<lparr>Rxframeind := uint k, Crc32 := (if k = 0x43 then ZBIN32 else 0)\<rparr>))"
  using assms by (auto simp: hdr_splat_def)

lemma rd_header_frame:
  assumes "spells (zdl_code (Zctlesc r)) (ty # hdr @ ts) w" "feeds w r" "length hdr = 4" "length (Rxhdr r) = 4"
    "length ts = (if fcs32 then 4 else 2)"
  shows "(if fcs32 then zrbhdr32 r else zrbhdr r) =
    (if ts = check_bytes fcs32 (ty # hdr)
     then (uint ty, (readn (length w) r)\<lparr>Rxtype := uint ty, Rxhdr := hdr, Zmodem := 1\<rparr>)
     else (ZERROR, (readn (length w) r)\<lparr>Rxtype := uint ty, Rxhdr := hdr\<rparr>))"
proof -
  obtain a b c d where hdr: "hdr = [a, b, c, d]"
    using list_length_4 [OF assms(3)] by blast
  note frame = zdl.rd_header_spelled [OF assms(1) [unfolded hdr] assms(2,4)]
  show ?thesis
  proof (cases fcs32)
    case True
    have crc: "foldl (\<lambda>crc c. UPDC32 c crc) 0xFFFFFFFF (ty # [a, b, c, d] @ ts) = 0xDEBB20E3
      \<longleftrightarrow> ts = check_bytes True (ty # hdr)"
      using zcrc32.accept_iff [where ts = ts and c = "0xFFFFFFFF" and xs = "ty # hdr"] assms(5) True
      by (simp add: check_bytes_def hdr)
    have eq: "zrbhdr32 r = (case rd_header zdlread special (\<lambda>crc c. UPDC32 c crc) 0xFFFFFFFF (length ts) 0xDEBB20E3 r of
       (Inl c, s) \<Rightarrow> (c, s) | (Inr ty, s) \<Rightarrow> (ty, s\<lparr>Zmodem := 1\<rparr>))"
      using assms(5) True by (simp add: zrbhdr32_def)
    show ?thesis
      unfolding eq frame crc by (simp add: True hdr)
  next
    case False
    have crc: "foldl (\<lambda>crc c. updcrc c crc) 0 (ty # [a, b, c, d] @ ts) = 0
      \<longleftrightarrow> ts = check_bytes False (ty # hdr)"
      using zcrc16.accept_iff [where ts = ts and c = 0 and xs = "ty # hdr"] assms(5) False
      by (simp add: check_bytes_def hdr)
    have eq: "zrbhdr r = (case rd_header zdlread special (\<lambda>crc c. updcrc c crc) 0 (length ts) 0 r of
       (Inl c, s) \<Rightarrow> (c, s) | (Inr ty, s) \<Rightarrow> (ty, s\<lparr>Zmodem := 1\<rparr>))"
      using assms(5) False by (simp add: zrbhdr_def)
    show ?thesis
      unfolding eq frame crc by (simp add: False hdr)
  qed
qed

lemma zgethdr_frame:
  assumes "spells (zdl_code (Zctlesc r)) (ty # hdr @ ts) w" "feeds ([0x2A, 0x18, if fcs32 then 0x43 else 0x41] @ w) r"
    and "length hdr = 4" "length (Rxhdr r) = 4" "length ts = (if fcs32 then 4 else 2)"
  shows "if ts = check_bytes fcs32 (ty # hdr)
    then zgethdr r = (uint ty, header_state (if fcs32 then ZBIN32 else ZBIN) (uint ty) hdr (readn (3 + length w) r))
    else fst (zgethdr r) = ZERROR"
proof -
  let ?k = "if fcs32 then 0x43 else 0x41 :: u8"
  have pre: "[0x2A, 0x18, ?k] @ w = [0x2A] @ [0x18] @ [?k] @ w"
    by simp
  define r1 r2 r3 where "r1 = readn 1 r" and "r2 = readn 1 r1" and "r3 = readn 1 r2"
  have f: "feeds [0x2A] r" "feeds [0x18] r1" "feeds [?k] r2" "feeds w r3"
    using assms(2) unfolding pre feeds_append r1_def r2_def r3_def by (simp_all only: length_Cons list.size One_nat_def add_0)
  have keep: "Zctlesc r3 = Zctlesc r" "Rxhdr r3 = Rxhdr r"
    by (simp_all only: r1_def r2_def r3_def readn_keeps)
  have len: "readn (length w) r3 = readn (3 + length w) r"
    unfolding readn_add by (simp add: r1_def r2_def r3_def numeral_3_eq_3)
  let ?i = "\<lambda>t. t\<lparr>Rxframeind := 0, Rxtype := 0\<rparr>"
  have "noxrd7 (?i r1) = (0x18, ?i r2)"
    using noxrd7_byte [of "0x18" "?i r1"] f(2) by (simp add: noxrd7_skips_def r2_def)
  moreover have "noxrd7 (?i r2) = (uint ?k, ?i r3)"
    using noxrd7_byte [of ?k "?i r2"] f(3) by (simp add: noxrd7_skips_def r3_def)
  moreover have "zgethdr r = hdr_run 116600 Splat (?i r1)"
    unfolding r1_def by (rule zgethdr_pad [OF f(1)])
  moreover define r4 where "r4 = r3\<lparr>Rxtype := 0, Rxframeind := uint ?k, Crc32 := (if fcs32 then ZBIN32 else 0)\<rparr>"
  ultimately have run: "zgethdr r = (case got_header (if fcs32 then zrbhdr32 r4 else zrbhdr r4) of
      (l, t) \<Rightarrow> hdr_run 116600 l t)"
    using hdr_splat_step [of "?i r1" "?i r2" ?k "?i r3"] by simp
  have "(if fcs32 then zrbhdr32 r4 else zrbhdr r4) = (if ts = check_bytes fcs32 (ty # hdr)
     then (uint ty, (readn (length w) r4)\<lparr>Rxtype := uint ty, Rxhdr := hdr, Zmodem := 1\<rparr>)
     else (ZERROR, (readn (length w) r4)\<lparr>Rxtype := uint ty, Rxhdr := hdr\<rparr>))"
    by (rule rd_header_frame) (use assms f(4) keep in \<open>simp_all add: r4_def\<close>)
  moreover have "uint ty \<noteq> GOTCAN"
    using unsigned_less [of ty, where 'a = int] by auto
  ultimately show ?thesis
    unfolding run by (simp add: got_header_alt header_state_def r4_def len)
qed

text \<open>A binary header that \<open>zsbhdr\<close> sends, with either frame check, is received by \<open>zgethdr\<close>:
  it returns the type and leaves the four header bytes and the position they encode.\<close>

theorem zsbhdr_zgethdr:
  assumes "zdl_agrees (Zctlesc s) (Zctlesc r)" "length hdr = 4" "length (Rxhdr r) = 4"
    and "ty \<noteq> ZDATA \<or> Znulls s = 0" "0 \<le> ty" "ty < 256"
    and "feeds (sent (zsbhdr ty hdr) s) r"
  shows "zgethdr r = (ty, header_state (if Txfcs32 s \<noteq> 0 then ZBIN32 else ZBIN) ty hdr
    (readn (length (sent (zsbhdr ty hdr) s)) r))"
proof -
  let ?k = "if Txfcs32 s \<noteq> 0 then 0x43 else 0x41 :: u8" and ?ty = "word_of_int ty :: u8"
  obtain w where tx: "tx (zsbhdr ty hdr s) = tx s @ [0x2A, 0x18, ?k] @ w"
    and w: "spells (zdl_code (Zctlesc r)) (?ty # hdr @ check_bytes (Txfcs32 s \<noteq> 0) (?ty # hdr)) w"
    using zsbhdr_sent [OF assms(1,2,4)] by blast
  have snt: "sent (zsbhdr ty hdr) s = [0x2A, 0x18, ?k] @ w"
    by (simp add: sent_def tx)
  have "feeds ([0x2A, 0x18, ?k] @ w) r"
    using assms(7) unfolding snt .
  from zgethdr_frame [OF w this assms(2,3)] assms(5,6)
  have "zgethdr r = (ty, header_state (if Txfcs32 s \<noteq> 0 then ZBIN32 else ZBIN) ty hdr (readn (3 + length w) r))"
    by (simp add: check_bytes_good word_of_int_byte del: feeds.simps readn.simps split: if_splits)
  moreover have "length (sent (zsbhdr ty hdr) s) = 3 + length w"
    by (simp add: snt)
  ultimately show ?thesis
    by (simp only:)
qed

theorem zsbhdr_zgethdr_witness:
  "let s = idle []; r = idle [sent (zsbhdr ZDATA [0x11, 0x18, 0x0D, 0xFF]) s]
   in fst (zgethdr r) = ZDATA \<and> Rxhdr (snd (zgethdr r)) = [0x11, 0x18, 0x0D, 0xFF]"
  unfolding Let_def
  by (subst (1 2) zsbhdr_zgethdr [where s = "idle []" and ty = ZDATA and hdr = "[0x11, 0x18, 0x0D, 0xFF]"])
    (simp_all add: zdl_agrees_def feeds_burst header_state_def)

lemma zrhhdr_frame:
  assumes "spells (hex_code (Zctlesc r)) (ty # hdr @ ts) w" "feeds (w @ [0x0D, 0x8A]) r"
    "length hdr = 4" "length (Rxhdr r) = 4" "length ts = 2"
  shows "zrhhdr r = (if ts = check_bytes False (ty # hdr)
     then (uint ty, (readn (length w + 2) r)\<lparr>Rxtype := uint ty, Rxhdr := hdr, Zmodem := 1\<rparr>)
     else (ZERROR, (readn (length w) r)\<lparr>Rxtype := uint ty, Rxhdr := hdr\<rparr>))"
proof -
  obtain a b c d where hdr: "hdr = [a, b, c, d]"
    using list_length_4 [OF assms(3)] by blast
  have fw: "feeds w r" "feeds [0x0D, 0x8A] (readn (length w) r)"
    using assms(2) by simp_all
  note frame = hex.rd_header_spelled [OF assms(1) [unfolded hdr] fw(1) assms(4)]
  have crc: "foldl (\<lambda>crc c. updcrc c crc) 0 (ty # [a, b, c, d] @ ts) = 0
    \<longleftrightarrow> ts = check_bytes False (ty # hdr)"
    using zcrc16.accept_iff [where ts = ts and c = 0 and xs = "ty # hdr"] assms(5)
    by (simp add: check_bytes_def hdr)
  define t where "t = (readn (length w) r)\<lparr>Rxtype := uint ty, Rxhdr := hdr\<rparr>"
  have eq: "zrhhdr r = (case rd_header zgethex (\<lambda>c. c < 0) (\<lambda>crc c. updcrc c crc) 0 (length ts) 0 r of
     (Inl c, s) \<Rightarrow> (c, s)
   | (Inr ty, s) \<Rightarrow> (case readline s of (c, s) \<Rightarrow>
         let s = (if c = 0x0D then snd (readline s) else s) in (ty, s\<lparr>Zmodem := 1\<rparr>)))"
    using assms(5) by (simp add: zrhhdr_def)
  have cr: "readline t = (0x0D, readn 1 t)"
    using readline_feeds [of "0x0D" "[0x8A]" t] fw(2) by (simp add: t_def)
  have "snd (readline (readn 1 t)) = readn 2 t"
    by (simp only: numeral_2_eq_2 One_nat_def readn.simps)
  also have "\<dots> = (readn (length w + 2) r)\<lparr>Rxtype := uint ty, Rxhdr := hdr\<rparr>"
    unfolding readn_add by (simp add: t_def del: readn.simps)
  finally have t2: "snd (readline (readn 1 t)) = (readn (length w + 2) r)\<lparr>Rxtype := uint ty, Rxhdr := hdr\<rparr>" .
  show ?thesis
    unfolding eq frame crc unfolding hdr [symmetric] t_def [symmetric]
    by (simp add: cr t2 [unfolded One_nat_def] Let_def del: readn.simps)
qed


text \<open>Positions survive the trip: the receiver stores a file position with \<open>stohdr\<close>, sends it in a
  hexadecimal header, and the other end's \<open>zgethdr\<close> returns the header type with that position in
  \<open>Rxpos\<close>, whatever the escaping states.\<close>

theorem zshhdr_zgethdr:
  assumes "length (Txhdr s) = 4" "length (Rxhdr r) = 4" "0 \<le> ty" "ty < 256"
    and "feeds (sent (zshhdr ty (Txhdr (stohdr pos s))) s) r"
  shows "fst (zgethdr r) = ty \<and> Rxpos (snd (zgethdr r)) = pos \<and> Rxhdr (snd (zgethdr r)) = Txhdr (stohdr pos s)"
proof -
  let ?ty = "word_of_int ty :: u8" and ?hdr = "Txhdr (stohdr pos s)"
  let ?ts = "check_bytes False (?ty # ?hdr)"
  have hdr: "length ?hdr = 4"
    using assms(1) by (simp add: stohdr_def)
  obtain w where tx: "tx (zshhdr ty ?hdr s) = tx s @ [0x2A, 0x2A, 0x18, 0x42] @ w @ [0x0D, 0x8A]
      @ (if ty \<noteq> ZFIN \<and> ty \<noteq> ZACK then [0x11] else [])"
    and w: "spells (hex_code (Zctlesc r)) (?ty # ?hdr @ ?ts) w"
    using zshhdr_sent [OF hdr] by blast
  have snt: "sent (zshhdr ty ?hdr) s = [0x2A] @ [0x2A] @ [0x18] @ [0x42] @ (w @ [0x0D, 0x8A])
      @ (if ty \<noteq> ZFIN \<and> ty \<noteq> ZACK then [0x11] else [])"
    by (simp add: sent_def tx)
  define r1 r2 r3 r4 where "r1 = readn 1 r" and "r2 = readn 1 r1" and "r3 = readn 1 r2" and "r4 = readn 1 r3"
  have f: "feeds [0x2A] r" "feeds [0x2A] r1" "feeds [0x18] r2" "feeds [0x42] r3" "feeds (w @ [0x0D, 0x8A]) r4"
    using assms(5) unfolding snt feeds_append [of "[_]"] feeds_append [of "w @ [0x0D, 0x8A]"]
      r1_def r2_def r3_def r4_def by (simp_all only: length_Cons list.size One_nat_def add_0)
  have keep: "Zctlesc r4 = Zctlesc r" "Rxhdr r4 = Rxhdr r"
    by (simp_all only: r1_def r2_def r3_def r4_def readn_keeps)
  let ?i = "\<lambda>t. t\<lparr>Rxframeind := 0, Rxtype := 0\<rparr>"
  have n2: "noxrd7 (?i r1) = (0x2A, ?i r2)"
    using noxrd7_byte [of "0x2A" "?i r1"] f(2) by (simp add: noxrd7_skips_def r2_def)
  have n3: "noxrd7 (?i r2) = (0x18, ?i r3)"
    using noxrd7_byte [of "0x18" "?i r2"] f(3) by (simp add: noxrd7_skips_def r3_def)
  have n4: "noxrd7 (?i r3) = (uint (0x42 :: u8), ?i r4)"
    using noxrd7_byte [of "0x42" "?i r3"] f(4) by (simp add: noxrd7_skips_def r4_def)
  have "zgethdr r = hdr_run 116600 Splat (?i r1)"
    unfolding r1_def by (rule zgethdr_pad [OF f(1)])
  moreover have "hdr_splat (?i r1) = (Splat, ?i r2)"
    by (simp add: hdr_splat_def n2)
  moreover define r5 where "r5 = r4\<lparr>Rxtype := 0, Rxframeind := ZHEX, Crc32 := 0\<rparr>"
  moreover have "hdr_splat (?i r2) = got_header (zrhhdr r5)"
    using hdr_splat_step [OF n3 n4] by (simp add: r5_def)
  moreover have "zrhhdr r5 = (uint ?ty, (readn (length w + 2) r5)\<lparr>Rxtype := uint ?ty, Rxhdr := ?hdr, Zmodem := 1\<rparr>)"
    by (subst zrhhdr_frame [where ty = ?ty and hdr = ?hdr and ts = ?ts])
      (use w f(5) hdr assms(2) keep in \<open>simp_all add: check_bytes_good r5_def\<close>)
  ultimately show ?thesis
    using assms(3,4) stohdr_rclhdr [OF assms(1)] by (simp add: got_header_alt word_of_int_byte)
qed

theorem zshhdr_zgethdr_witness:
  "let s = idle []; r = idle [sent (zshhdr ZRPOS (Txhdr (stohdr 0x12345678 s))) s]
   in fst (zgethdr r) = ZRPOS \<and> Rxpos (snd (zgethdr r)) = 0x12345678"
  using zshhdr_zgethdr [where s = "idle []" and ty = ZRPOS and pos = "0x12345678" and
      r = "idle [sent (zshhdr ZRPOS (Txhdr (stohdr 0x12345678 (idle [])))) (idle [])]"]
  by (simp add: feeds_burst)

end
