(* ===== verification/ZModem.thy ===== *)
theory ZModem
  imports ZFrames
begin

text \<open>
  The ZMODEM receiver session (\<open>karnix_monitor/src/zmodem.c\<close>, second half): \<open>wcreceive\<close> and what
  it calls, \<open>tryz\<close>, \<open>rzfiles\<close>, \<open>rzfile\<close>, \<open>procheader\<close>, \<open>putsec\<close>, and the XMODEM/YMODEM receiver
  (\<open>wcrxpn\<close>, \<open>wcrx\<close>, \<open>wcgetsec\<close>). The record \<open>zm\<close> extends the globals of the link layer by those of
  the session. \<open>mem\<close> is the memory behind \<open>ZModemWriteAddress\<close>, by offset.

  All functions are total: every loop either consumes input or decreases a retry counter, so on a
  line that delivers finitely many bytes the receiver always returns.
\<close>

section \<open>The session globals\<close>

record zm = zlink +
  secbuf :: "u8 list"
  Attn :: "u8 list"
  tryzhdrtype :: int
  Lzmanag :: u8
  zconv :: u8
  zmanag :: u8
  ztrans :: u8
  Eofseen :: bool
  Thisbinary :: int
  Rxbinary :: bool
  Rxascii :: bool
  ZModemBytesleft :: u32
  Modtime :: u32
  Filemode :: u32
  ZModemPathname :: "u8 list"
  ZModemRxBytes :: u32
  ZModemMaxBytes :: u32
  ZModemRxOffset :: nat
  mem :: "nat \<Rightarrow> u8"
  Lastrx :: int
  Crcflg :: bool
  Firstsec :: bool
  Blklen :: nat

definition KSIZE :: nat where "KSIZE = 1024"

definition SECSIZ :: nat where "SECSIZ = 128"

definition ZATTNLEN :: nat where "ZATTNLEN = 32"

definition DEFBYTL :: u32 where "DEFBYTL = 2000000000"

definition UNIXFILE :: u32 where "UNIXFILE = 0x8000"

definition RETRYMAX :: int where "RETRYMAX = 5"

section \<open>C strings\<close>

text \<open>A byte behind the end of a buffer reads as the NUL the buffer was cleared to.\<close>

definition at :: "u8 list \<Rightarrow> nat \<Rightarrow> u8" where
  "at b i = (if i < length b then b ! i else 0)"

definition cstr :: "u8 list \<Rightarrow> u8 list" where
  "cstr b = takeWhile (\<lambda>c. c \<noteq> 0) b"

definition IsAnyLower :: "u8 list \<Rightarrow> bool" where
  "IsAnyLower s = list_ex (\<lambda>c. 0x61 \<le> c \<and> c \<le> 0x7A) (cstr s)"

definition uncaps :: "u8 list \<Rightarrow> u8 list" where
  "uncaps s = map (\<lambda>c. if 0x41 \<le> c \<and> c \<le> 0x5A then c + 0x20 else c) (cstr s) @ drop (length (cstr s)) s"

text \<open>
  \<open>sscanf(p, "%ld%lo%o", ...)\<close>: each conversion skips white space, takes an optional sign and the
  longest run of digits, and the first one that finds no digit ends the scan.
\<close>

definition isspace :: "u8 \<Rightarrow> bool" where
  "isspace c \<longleftrightarrow> c = 0x20 \<or> 0x09 \<le> c \<and> c \<le> 0x0D"

definition isdigit :: "nat \<Rightarrow> u8 \<Rightarrow> bool" where
  "isdigit base c \<longleftrightarrow> 0x30 \<le> c \<and> unat c < 0x30 + base"

definition digits_value :: "nat \<Rightarrow> u8 list \<Rightarrow> u32" where
  "digits_value base ds = foldl (\<lambda>v c. v * of_nat base + (ucast c - 0x30)) 0 ds"

definition scan_num :: "nat \<Rightarrow> u8 list \<Rightarrow> (u32 \<times> u8 list) option" where
  "scan_num base p = (let p = dropWhile isspace p;
     neg = (p \<noteq> [] \<and> hd p = 0x2D);
     p = (if p \<noteq> [] \<and> (hd p = 0x2D \<or> hd p = 0x2B) then tl p else p);
     ds = takeWhile (isdigit base) p
   in if ds = [] then None
      else Some (if neg then - digits_value base ds else digits_value base ds, drop (length ds) p))"

section \<open>The file header\<close>

definition scan_header :: "u8 list \<Rightarrow> zm \<Rightarrow> zm" where
  "scan_header p s = (case scan_num 10 p of None \<Rightarrow> s
     | Some (v, p) \<Rightarrow> let s = s\<lparr>ZModemBytesleft := v\<rparr> in
       (case scan_num 8 p of None \<Rightarrow> s
        | Some (v, p) \<Rightarrow> let s = s\<lparr>Modtime := v\<rparr> in
          (case scan_num 8 p of None \<Rightarrow> s | Some (v, p) \<Rightarrow> s\<lparr>Filemode := v\<rparr>)))"

text \<open>
  The branch for names without file information: \<open>/\<close> becomes \<open>_\<close> and a trailing period goes. (For the
  empty name the code looks at the byte before the buffer; here nothing happens then.)
\<close>

definition cpm_name :: "u8 list \<Rightarrow> u8 list" where
  "cpm_name name = (let k = length (cstr name);
     name = map (\<lambda>c. if c = 0x2F then 0x5F else c) (take k name) @ drop k name
   in if 0 < k \<and> name ! (k - 1) = 0x2E then name[k - 1 := 0] else name)"

text \<open>Whether the file is received as binary, and the management request.\<close>

definition transfer_mode :: "zm \<Rightarrow> zm" where
  "transfer_mode s = (
     let s = s\<lparr>Thisbinary := (if \<not> Rxascii s \<or> Rxbinary s then 1 else 0)\<rparr>;
         s = (if Lzmanag s \<noteq> 0 then s\<lparr>zmanag := Lzmanag s\<rparr> else s);
         s = (if \<not> Rxbinary s \<and> zconv s = 2 then s\<lparr>Thisbinary := 0\<rparr> else s)
     in if zconv s = 1 then s\<lparr>Thisbinary := 1\<rparr> else s)"

definition file_info :: "zm \<Rightarrow> zm" where
  "file_info s = (
     let s = s\<lparr>ZModemBytesleft := DEFBYTL, Filemode := 0x1FF, Modtime := 0\<rparr>;
         p = 1 + length (cstr (secbuf s))
     in if at (secbuf s) p \<noteq> 0
        then (let s = scan_header (cstr (drop p (secbuf s))) s
              in if Filemode s AND UNIXFILE \<noteq> 0 then s\<lparr>Thisbinary := Thisbinary s + 1\<rparr> else s)
        else s\<lparr>secbuf := cpm_name (secbuf s)\<rparr>)"

definition procheader :: "zm \<Rightarrow> int \<times> zm" where
  "procheader s = (
     let s = file_info (transfer_mode s);
         s = (if Zmodem s = 0 \<and> \<not> IsAnyLower (secbuf s) then s\<lparr>secbuf := uncaps (secbuf s)\<rparr> else s);
         s = s\<lparr>ZModemPathname := cstr (secbuf s)\<rparr>
     in if sint (ZModemBytesleft s) > sint (ZModemMaxBytes s) then (ZERROR, s) else (0, s))"

section \<open>Storing data\<close>

definition put_mem :: "nat \<Rightarrow> u8 list \<Rightarrow> (nat \<Rightarrow> u8) \<Rightarrow> nat \<Rightarrow> u8" where
  "put_mem off bs m a = (if off \<le> a \<and> a < off + length bs then bs ! (a - off) else m a)"

definition store :: "u8 list \<Rightarrow> zm \<Rightarrow> zm" where
  "store bs s = s\<lparr>mem := put_mem (ZModemRxOffset s) bs (mem s), ZModemRxOffset := ZModemRxOffset s + length bs\<rparr>"

text \<open>
  The text mode loop: \<open>p\<close> runs over the bytes, \<open>n\<close> counts down, and for every byte that is kept
  the \<open>memcpy\<close> copies the first \<open>n\<close> bytes of the buffer.
\<close>

primrec putsec_text :: "u8 list \<Rightarrow> u8 list \<Rightarrow> zm \<Rightarrow> zm" where
  "putsec_text buf [] s = s"
| "putsec_text buf (c # p) s = (let n = length p in
     if c = 0x0D then putsec_text buf p s
     else if c = 0x1A then s\<lparr>Eofseen := True\<rparr>
     else putsec_text buf p (store (take n buf) s))"

definition putsec :: "u8 list \<Rightarrow> nat \<Rightarrow> zm \<Rightarrow> zm" where
  "putsec buf n s = (if Thisbinary s \<noteq> 0 then store (take n buf) s
     else if Eofseen s then s
     else putsec_text buf (take n buf) s)"

section \<open>Closing the session\<close>

definition zmputs :: "u8 list \<Rightarrow> 'a zlink_scheme \<Rightarrow> 'a zlink_scheme" where
  "zmputs str s = fold sendline (filter (\<lambda>c. c \<noteq> 0xDE \<and> c \<noteq> 0xDD) (cstr str)) s"

primrec ackbibi_loop :: "nat \<Rightarrow> 'a zlink_scheme \<Rightarrow> 'a zlink_scheme" where
  "ackbibi_loop 0 s = s"
| "ackbibi_loop (Suc n) s = (let s = purgeline s; s = zshhdr ZFIN (Txhdr s) s in
     case readline s of (c, s) \<Rightarrow>
       if c = 0x4F then snd (readline s)
       else if c = RCDO then s
       else ackbibi_loop n s)"

definition ackbibi :: "'a zlink_scheme \<Rightarrow> 'a zlink_scheme" where
  "ackbibi s = (let s = s\<lparr>Readnum := 1\<rparr>; s = stohdr 0 s in ackbibi_loop 3 s)"


section \<open>What a session step consumes\<close>

lemma todo_zm [simp]:
  fixes s :: zm
  shows "todo (s\<lparr>secbuf := b\<rparr>) = todo s" "todo (s\<lparr>Attn := b\<rparr>) = todo s" "todo (s\<lparr>tryzhdrtype := a\<rparr>) = todo s"
    "todo (s\<lparr>zconv := v\<rparr>) = todo s" "todo (s\<lparr>zmanag := v\<rparr>) = todo s" "todo (s\<lparr>ztrans := v\<rparr>) = todo s"
    "todo (s\<lparr>Eofseen := e\<rparr>) = todo s" "todo (s\<lparr>ZModemRxBytes := x\<rparr>) = todo s" "todo (s\<lparr>mem := m\<rparr>) = todo s"
    "todo (s\<lparr>ZModemRxOffset := k\<rparr>) = todo s" "todo (s\<lparr>Blklen := k\<rparr>) = todo s" "todo (s\<lparr>Lastrx := a\<rparr>) = todo s"
    "todo (s\<lparr>Firstsec := e\<rparr>) = todo s" "todo (s\<lparr>ZModemBytesleft := x\<rparr>) = todo s"
  by (simp_all add: todo_def)

lemma todo_send [simp]:
  "todo (sendline c s) = todo s" "todo (zsendline c s) = todo s" "todo (zputhex c s) = todo s"
  by (simp_all add: zsendline_alt sendit_def send_escaped_def xsendline_def sendline_def zputhex_def Let_def)

lemma todo_fold: "(\<And>c s. todo (f c s) = todo s) \<Longrightarrow> todo (fold f cs s) = todo s"
  by (induction cs arbitrary: s) simp_all

lemma todo_zshhdr [simp]: "todo (zshhdr ty hdr s) = todo s"
  by (simp add: zshhdr_def zputs_alt Let_def)

lemma todo_stohdr [simp]: "todo (stohdr pos s) = todo s"
  by (simp add: stohdr_def)

lemma todo_zmputs [simp]: "todo (zmputs str s) = todo s"
  by (simp add: zmputs_def todo_fold)

lemma todo_store [simp]: "todo (store bs s) = todo s"
  by (simp add: store_def)

lemma todo_putsec [simp]: "todo (putsec buf n s) = todo s"
proof -
  have "todo (putsec_text buf cs s) = todo s" for cs
    by (induction cs arbitrary: s) (simp_all add: Let_def)
  then show ?thesis
    by (simp add: putsec_def)
qed

lemma sum_list_dropWhile: "sum_list (map f (tl (dropWhile P xs))) \<le> (sum_list (map f xs) :: nat)"
  by (induction xs) auto

lemma todo_purgeline: "todo (purgeline s) \<le> todo s"
  using sum_list_dropWhile [of length "\<lambda>avail. avail \<noteq> []" "rx s"] by (simp add: todo_def purgeline_def)

lemma todo_ackbibi: "todo (ackbibi s) \<le> todo s"
proof -
  have "todo (ackbibi_loop n s) \<le> todo s" for n and s :: "'a zlink_scheme"
  proof (induction n arbitrary: s)
    case (Suc n)
    define u where "u = zshhdr ZFIN (Txhdr (purgeline s)) (purgeline s)"
    obtain c t where c: "readline u = (c, t)" by fastforce
    have "todo u \<le> todo s"
      using todo_purgeline by (simp add: u_def)
    moreover have "todo t \<le> todo u" "todo (snd (readline t)) \<le> todo t"
      using readline_le [OF c] readline_le [of t "fst (readline t)" "snd (readline t)"] by simp_all
    moreover have "todo (ackbibi_loop n t) \<le> todo t"
      by (rule Suc.IH)
    ultimately show ?case
      by (simp add: u_def [symmetric] c Let_def)
  qed simp
  from this [of 3 "stohdr 0 (s\<lparr>Readnum := 1\<rparr>)"] show ?thesis
    by (simp add: ackbibi_def Let_def)
qed

lemma hdr_run_le: "hdr_run n l s = (c, t) \<Longrightarrow> todo t \<le> todo s"
proof (induction n l s rule: hdr_run.induct)
  case (1 n k s)
  then show ?case
    using hdr_again_less [where k = k and s = s] by (cases "hdr_again k s") fastforce
next
  case (2 n k s)
  then show ?case
    using hdr_gotcan_less [where k = k and s = s] by (cases "hdr_gotcan k s") fastforce
next
  case (3 n s)
  then show ?case
    using hdr_splat_less [where s = s] by (cases "hdr_splat s") fastforce
qed (auto split: if_splits)

lemma zgethdr_le: "zgethdr s = (c, t) \<Longrightarrow> todo t \<le> todo s"
  using hdr_run_le [of "Zrwindow + Baudrate" "Again 5" "s\<lparr>Rxframeind := 0, Rxtype := 0\<rparr>" c t]
  by (simp add: zgethdr_def del: hdr_run.simps)

lemma zgethdr_less:
  assumes "zgethdr s = (c, t)" "c \<noteq> TIMEOUT"
  shows "todo t < todo s"
proof -
  let ?s = "s\<lparr>Rxframeind := 0, Rxtype := 0\<rparr>"
  obtain d u where d: "readline ?s = (d, u)" by fastforce
  show ?thesis
  proof (cases "d = TIMEOUT")
    case True
    with assms d show ?thesis
      by (simp add: zgethdr_def hdr_again_def)
  next
    case False
    obtain l v where l: "hdr_again 5 ?s = (l, v)" by fastforce
    with d have "v = u"
      by (auto simp: hdr_again_def split: if_splits)
    moreover have "todo t \<le> todo v"
      using assms(1) l by (auto simp: zgethdr_def dest: hdr_run_le)
    ultimately show ?thesis
      using readline_less [OF d False] by simp
  qed
qed

lemma crcfoo_le: "crcfoo upd n good i c crc s = (d, t) \<Longrightarrow> todo t \<le> todo s"
proof (induction upd n good i c crc s rule: crcfoo.induct)
  case (1 upd n good i c crc s)
  obtain e crc' u where k: "crc_bytes zdlread special upd n (upd crc (word_of_int (c AND 0xFF))) s = (e, crc', u)"
    using prod_cases3 by blast
  have u: "todo u \<le> todo s"
    by (rule crc_bytes_le [OF _ k]) (rule zdlread_le)
  show ?case
  proof (cases "frame_end c")
    case True
    show ?thesis
    proof (cases e)
      case None
      with 1(2) k u True show ?thesis
        by (auto simp: crcfoo.simps [of _ _ _ _ c] split: if_splits)
    next
      case (Some e')
      then have "crcfoo upd n good i e' crc' u = (d, t)"
        using 1(2) k True by (simp add: crcfoo.simps [of _ _ _ _ c])
      then have "todo t \<le> todo u"
        using 1(1) [OF True k [symmetric]] Some by auto
      with u show ?thesis
        by simp
    qed
  next
    case False
    with 1(2) show ?thesis
      by (auto simp: crcfoo.simps [of _ _ _ _ c] split: if_splits)
  qed
qed

lemma data_loop_le: "data_loop upd n good k i buf crc s = (d, buf', t) \<Longrightarrow> todo t \<le> todo s"
proof (induction k arbitrary: i buf crc s)
  case (Suc k)
  obtain c u where c: "zdlread s = (c, u)" by fastforce
  from Suc.prems c crcfoo_le [of upd n good i c crc u] Suc.IH [of "Suc i" _ _ u] zdlread_le [OF c]
  show ?case
    by (fastforce split: if_splits prod.splits)
qed simp

lemma data_loop_less:
  assumes "data_loop upd n good (Suc k) i buf crc s = (d, buf', t)" "d \<noteq> TIMEOUT"
  shows "todo t < todo s"
proof -
  obtain c u where c: "zdlread s = (c, u)" by fastforce
  show ?thesis
  proof (cases "c = TIMEOUT")
    case True
    with assms c show ?thesis
      by (simp add: special_def crcfoo.simps [of _ _ _ _ TIMEOUT])
  next
    case False
    with assms(1) c crcfoo_le [of upd n good i c crc u] data_loop_le [of upd n good k "Suc i" _ _ u]
      zdlread_less [OF c False] show ?thesis
      by (fastforce split: if_splits prod.splits)
  qed
qed

lemma zrdata_le: "zrdata buf len s = (d, buf', t) \<Longrightarrow> todo t \<le> todo s"
  unfolding zrdata_def zrdat32_def by (auto simp del: data_loop.simps split: if_splits dest!: data_loop_le)

lemma zrdata_less: "zrdata buf len s = (d, buf', t) \<Longrightarrow> d \<noteq> TIMEOUT \<Longrightarrow> todo t < todo s"
  unfolding zrdata_def zrdat32_def by (auto simp del: data_loop.simps split: if_splits dest!: data_loop_less [of _ _ _ len])


section \<open>Waiting for a file\<close>

text \<open>
  The answer to \<open>ZCOMMAND\<close>: the \<open>do ... while (++Errors<20 && ...)\<close> loop; its argument is the number
  of iterations \<open>Errors\<close> still allows.
\<close>

primrec compl_loop :: "nat \<Rightarrow> zm \<Rightarrow> zm" where
  "compl_loop 0 s = (zshhdr ZCOMPL (Txhdr s) s)\<lparr>Errors := Errors s + 1\<rparr>"
| "compl_loop (Suc k) s = (let s = (zshhdr ZCOMPL (Txhdr s) s)\<lparr>Errors := Errors s + 1\<rparr> in
     if Errors s < 20
     then (case zgethdr s of (c, s) \<Rightarrow> if c \<noteq> ZFIN then compl_loop k s else s)
     else s)"

text \<open>The head of the loop of \<open>tryz\<close>: announce the receiver.\<close>

definition announce :: "zm \<Rightarrow> zm" where
  "announce s = (let s = stohdr 0 s;
     s = s\<lparr>Txhdr := (Txhdr s)[3 := 0x27]\<rparr>;
     s = (if Zctlesc s \<noteq> 0 then s\<lparr>Txhdr := (Txhdr s)[3 := Txhdr s ! 3 OR 0x40]\<rparr> else s);
     s = zshhdr (tryzhdrtype s) (Txhdr s) s
   in if tryzhdrtype s = ZSKIP then s\<lparr>tryzhdrtype := ZRINIT\<rparr> else s)"

definition try_file :: "zm \<Rightarrow> int \<times> zm" where
  "try_file s = (let s = s\<lparr>zconv := Rxhdr s ! 3, zmanag := Rxhdr s ! 2, ztrans := Rxhdr s ! 1, tryzhdrtype := ZRINIT\<rparr>
     in case zrdata (secbuf s) KSIZE s of (c, buf, s) \<Rightarrow> (c, s\<lparr>secbuf := buf\<rparr>))"

definition try_sinit :: "zm \<Rightarrow> zm" where
  "try_sinit s = (let s = s\<lparr>Zctlesc := uint (0x40 AND Rxhdr s ! 3)\<rparr>
     in case zrdata (Attn s) ZATTNLEN s of (c, buf, s) \<Rightarrow>
       let s = s\<lparr>Attn := buf\<rparr> in zshhdr (if c = GOTCRCW then ZACK else ZNAK) (Txhdr s) s)"

text \<open>The branch \<open>ZCOMMAND\<close>: \<^term>\<open>None\<close> for \<open>goto again\<close>, otherwise the session is over.\<close>

definition try_command :: "zm \<Rightarrow> bool \<times> zm" where
  "try_command s = (case zrdata (secbuf s) KSIZE s of (c, buf, s) \<Rightarrow>
     let s = s\<lparr>secbuf := buf\<rparr> in
     if c = GOTCRCW
     then (let s = stohdr 0 s; s = purgeline s; s = compl_loop (nat (19 - Errors s)) s in (True, ackbibi s))
     else (False, zshhdr ZNAK (Txhdr s) s))"

lemma todo_announce [simp]: "todo (announce s) = todo s"
  by (simp add: announce_def Let_def)

lemma try_file_le: "try_file s = (c, t) \<Longrightarrow> todo t \<le> todo s"
  by (auto simp: try_file_def Let_def split: prod.splits dest!: zrdata_le)

lemma todo_try_sinit: "todo (try_sinit s) \<le> todo s"
  by (auto simp: try_sinit_def Let_def split: prod.splits dest!: zrdata_le)

lemma todo_compl_loop: "todo (compl_loop k s) \<le> todo s"
proof (induction k arbitrary: s)
  case (Suc k)
  let ?s = "(zshhdr ZCOMPL (Txhdr s) s)\<lparr>Errors := Errors s + 1\<rparr>"
  obtain c t where c: "zgethdr ?s = (c, t)" by fastforce
  have "todo t \<le> todo s"
    using zgethdr_le [OF c] by simp
  moreover have "todo (compl_loop k t) \<le> todo t"
    by (rule Suc.IH)
  ultimately show ?case
    by (simp add: Let_def c)
qed simp

lemma try_command_le: "try_command s = (b, t) \<Longrightarrow> todo t \<le> todo s"
proof -
  assume t: "try_command s = (b, t)"
  obtain c buf u where z: "zrdata (secbuf s) KSIZE s = (c, buf, u)"
    using prod_cases3 by blast
  let ?u = "u\<lparr>secbuf := buf\<rparr>"
  define v where "v = purgeline (stohdr 0 ?u)"
  have "todo v \<le> todo u"
    using todo_purgeline [of "stohdr 0 ?u"] by (simp add: v_def)
  moreover have "todo (ackbibi (compl_loop k v)) \<le> todo v" for k
    using todo_ackbibi [of "compl_loop k v"] todo_compl_loop [of k v] by linarith
  ultimately have "todo (ackbibi (compl_loop k v)) \<le> todo u" for k
    using order_trans by blast
  then have "todo t \<le> todo u"
    using t by (auto simp: try_command_def z Let_def v_def [symmetric] split: if_splits)
  with zrdata_le [OF z] show ?thesis
    by simp
qed

text \<open>
  \<open>tryz_run n again s\<close>: with \<open>again\<close> at the label \<open>again\<close>, otherwise at the head of the \<open>for\<close> loop with
  \<open>n\<close> attempts left.
\<close>

function tryz_run :: "nat \<Rightarrow> bool \<Rightarrow> zm \<Rightarrow> int \<times> zm" where
  "tryz_run n again s =
     (if \<not> again then (if n = 0 then (TIMEOUT, s) else tryz_run (n - 1) True (announce s))
      else (case zgethdr s of (c, s) \<Rightarrow>
        if c = ZFILE then
          (case try_file s of (d, s) \<Rightarrow>
             if d = GOTCRCW then (ZFILE, s) else tryz_run n True (zshhdr ZNAK (Txhdr s) s))
        else if c = ZSINIT then tryz_run n True (try_sinit s)
        else if c = ZFREECNT then
          (let s = stohdr (ZModemMaxBytes s) s in tryz_run n True (zshhdr ZACK (Txhdr s) s))
        else if c = ZCOMMAND then
          (case try_command s of (over, s) \<Rightarrow> if over then (ZCOMPL, s) else tryz_run n True s)
        else if c = ZCOMPL then tryz_run n True s
        else if c = ZFIN then (ZCOMPL, ackbibi s)
        else if c = ZCAN then (ZERROR, s)
        else tryz_run n False s))"
  by pat_completeness auto

lemma tryz_again_less:
  "(c, t) = zgethdr s \<Longrightarrow> c \<noteq> TIMEOUT \<Longrightarrow> todo u \<le> todo t \<Longrightarrow> todo u < todo s"
  using zgethdr_less [of s c t] by simp

termination tryz_run
proof (relation "measures [\<lambda>(n, again, s). todo s, \<lambda>(n, again, s). 2 * n + (if again then 1 else 0)]", goal_cases)
  case (2 n again s)
  then show ?case by simp
next
  case (3 n again s c t d u)
  then show ?case
    using tryz_again_less [of c t s u] try_file_le [of t d u] by simp
next
  case (4 n again s c t)
  then show ?case
    using tryz_again_less [of c t s "try_sinit t"] todo_try_sinit [of t] by simp
next
  case (5 n again s c t w)
  then show ?case
    using tryz_again_less [of c t s t] by simp
next
  case (6 n again s c t d u)
  then show ?case
    using tryz_again_less [of c t s u] try_command_le [of t d u] by simp
next
  case (7 n again s c t)
  then show ?case
    using tryz_again_less [of c t s t] by simp
next
  case (8 n again s c t)
  then show ?case
    using zgethdr_le [OF 8(2) [symmetric]] by (simp add: order_le_less)
qed simp

declare tryz_run.simps [simp del]

definition tryz :: "nat \<Rightarrow> zm \<Rightarrow> int \<times> zm" where
  "tryz attempts s = tryz_run attempts False s"


section \<open>Receiving a file\<close>

text \<open>
  \<open>rzfile\<close> has two labels and the head of its \<open>for\<close> loop; \<open>n\<close> is the retry counter, so that
  \<open>--n < 0\<close> holds when it is 0.
\<close>

datatype rz_label = Nextpos | Nxthdr | Moredata

definition ask_position :: "zm \<Rightarrow> zm" where
  "ask_position s = (let s = stohdr (ZModemRxBytes s) s in zshhdr ZRPOS (Txhdr s) s)"

definition read_sec :: "zm \<Rightarrow> int \<times> zm" where
  "read_sec s = (case zrdata (secbuf s) KSIZE s of (c, buf, s) \<Rightarrow> (c, s\<lparr>secbuf := buf\<rparr>))"

definition put_data :: "zm \<Rightarrow> zm" where
  "put_data s = (let s = putsec (secbuf s) (nat (Rxcount s)) s
     in s\<lparr>ZModemRxBytes := ZModemRxBytes s + word_of_int (Rxcount s)\<rparr>)"

definition ack_position :: "zm \<Rightarrow> zm" where
  "ack_position s = (let s = stohdr (ZModemRxBytes s) s in zshhdr ZACK (Txhdr s) s)"

lemma todo_rz [simp]:
  "todo (ask_position s) = todo s" "todo (put_data s) = todo s" "todo (ack_position s) = todo s"
  by (simp_all add: ask_position_def put_data_def ack_position_def Let_def)

lemma read_sec_le: "read_sec s = (c, t) \<Longrightarrow> todo t \<le> todo s"
  by (auto simp: read_sec_def split: prod.splits dest!: zrdata_le)

lemma read_sec_less: "read_sec s = (c, t) \<Longrightarrow> c \<noteq> TIMEOUT \<Longrightarrow> todo t < todo s"
  by (auto simp: read_sec_def split: prod.splits dest!: zrdata_less)

function rz_run :: "nat \<Rightarrow> rz_label \<Rightarrow> zm \<Rightarrow> int \<times> zm" where
  "rz_run n Nextpos s = rz_run n Nxthdr (ask_position s)"
| "rz_run n Nxthdr s = (case zgethdr s of (c, s) \<Rightarrow>
     if c = ZNAK \<or> c = TIMEOUT then
       (if n = 0 then (ZERROR, s) else rz_run (n - 1) Nextpos (snd (read_sec s)))
     else if c = ZFILE then rz_run n Nextpos (snd (read_sec s))
     else if c = ZEOF then
       (if rclhdr (Rxhdr s) \<noteq> ZModemRxBytes s then rz_run n Nxthdr (s\<lparr>Errors := 0\<rparr>) else (ZEOF, s))
     else if c = ZERROR then
       (if n = 0 then (ZERROR, s) else rz_run (n - 1) Nextpos (zmputs (Attn s) s))
     else if c = ZDATA then
       (if rclhdr (Rxhdr s) \<noteq> ZModemRxBytes s
        then (if n = 0 then (ZERROR, s) else rz_run (n - 1) Nextpos (zmputs (Attn s) s))
        else rz_run n Moredata s)
     else (ZERROR, s))"
| "rz_run n Moredata s = (case read_sec s of (c, s) \<Rightarrow>
     if c = ZCAN then (ZERROR, s)
     else if c = ZERROR then
       (if n = 0 then (ZERROR, s) else rz_run (n - 1) Nextpos (zmputs (Attn s) s))
     else if c = TIMEOUT then
       (if n = 0 then (ZERROR, s) else rz_run (n - 1) Nextpos s)
     else if c = GOTCRCW then rz_run 20 Nxthdr (sendline 0x11 (ack_position (put_data s)))
     else if c = GOTCRCQ then rz_run 20 Moredata (ack_position (put_data s))
     else if c = GOTCRCG then rz_run 20 Moredata (put_data s)
     else if c = GOTCRCE then rz_run 20 Nxthdr (put_data s)
     else rz_run n Nextpos s)"
  by pat_completeness auto

lemma rz_hdr_less:
  "(c, t) = zgethdr s \<Longrightarrow> c \<noteq> TIMEOUT \<Longrightarrow> todo u \<le> todo t \<Longrightarrow> todo u < todo s"
  "(c, t) = zgethdr s \<Longrightarrow> todo u \<le> todo t \<Longrightarrow> todo u < todo s \<or> todo u = todo s"
  using zgethdr_less [of s c t] zgethdr_le [of s c t] by auto

lemma rz_sec_less:
  "(c, t) = read_sec s \<Longrightarrow> c \<noteq> TIMEOUT \<Longrightarrow> todo u \<le> todo t \<Longrightarrow> todo u < todo s"
  "(c, t) = read_sec s \<Longrightarrow> todo u \<le> todo t \<Longrightarrow> todo u < todo s \<or> todo u = todo s"
  using read_sec_less [of s c t] read_sec_le [of s c t] by auto

lemma todo_snd_read_sec: "todo (snd (read_sec s)) \<le> todo s"
  using read_sec_le [of s "fst (read_sec s)" "snd (read_sec s)"] by simp

termination rz_run
  apply (relation "measures [\<lambda>(n, l, s). todo s, \<lambda>(n, l, s). n, \<lambda>(n, l, s). if l = Nextpos then 1 else 0]")
                apply simp
               apply simp
              apply (simp, drule rz_hdr_less(2), rule todo_snd_read_sec, simp)
             apply (simp, erule rz_hdr_less(1), simp, rule todo_snd_read_sec)
            apply (simp, erule rz_hdr_less(1), simp, simp)
           apply (simp, drule rz_hdr_less(2), rule order_refl, simp)
          apply (simp, drule rz_hdr_less(2), rule order_refl, simp)
         apply (simp, erule rz_hdr_less(1), simp, simp)
        apply (simp, drule rz_sec_less(2), rule order_refl, simp)
       apply (simp, drule rz_sec_less(2), rule order_refl, simp)
  apply (rule measures_less, simp, erule rz_sec_less(1), simp, simp)+
  done

declare rz_run.simps [simp del]

definition rzfile :: "zm \<Rightarrow> int \<times> zm" where
  "rzfile s = (case procheader (s\<lparr>Eofseen := False\<rparr>) of (err, s) \<Rightarrow>
     if err = ZERROR then (ZABORT, s\<lparr>tryzhdrtype := ZABORT\<rparr>)
     else rz_run 20 Nextpos s)"

primrec rzfiles_loop :: "nat \<Rightarrow> nat \<Rightarrow> zm \<Rightarrow> int \<times> zm" where
  "rzfiles_loop attempts 0 s = (ZERROR, s)"
| "rzfiles_loop attempts (Suc i) s = (case rzfile s of (c, s) \<Rightarrow>
     if c = ZEOF \<or> c = ZSKIP then
       (case tryz attempts s of (d, s) \<Rightarrow>
          if d = ZCOMPL then (0, s)
          else if d = ZFILE then rzfiles_loop attempts i s
          else (ZERROR, s))
     else if c = ZABORT then (ZERROR, s)
     else if c = ZERROR then (ZERROR, s)
     else (c, s))"

definition rzfiles :: "nat \<Rightarrow> zm \<Rightarrow> int \<times> zm" where
  "rzfiles attempts s = rzfiles_loop attempts 5 s"

text \<open>
  \<open>wcreceive\<close> clears the context. The buffers come from \<open>alloca\<close>: only \<open>secbuf\<close> is cleared, so
  \<open>Attn\<close> and \<open>linbuf\<close> start with whatever the stack holds, as they do in the state given.
\<close>

definition clear_context :: "u32 \<Rightarrow> zm \<Rightarrow> zm" where
  "clear_context maxbytes s = s\<lparr>ZModemMaxBytes := maxbytes, Lastrx := 0, Crcflg := False, Firstsec := False,
     Eofseen := False, Zmodem := 0, Errors := 0, ZModemRxBytes := 0, ZModemBytesleft := 0, Rxbinary := True,
     Rxascii := False, Thisbinary := 0, Blklen := 0, Lleft := 0, Lzmanag := 0, zconv := 0, zmanag := 0, ztrans := 0,
     Zctlesc := 0, lastsent := 0, tryzhdrtype := ZRINIT, ZModemRxOffset := 0, secbuf := replicate (KSIZE + 1) 0\<rparr>"

definition wcreceive :: "nat \<Rightarrow> u32 \<Rightarrow> zm \<Rightarrow> int \<times> zm" where
  "wcreceive attempts maxbytes s = (let s = purgeline (clear_context maxbytes s);
     s = s\<lparr>Crcflg := (Wcsmask = 0xFF)\<rparr> in
     case tryz attempts s of (c, s) \<Rightarrow>
       if c \<noteq> 0 then
         (if c = ZCOMPL then (0, s)
          else if c = ZERROR then (ZERROR, canit s)
          else if c = TIMEOUT then (TIMEOUT, s)
          else (case rzfiles attempts s of (c, s) \<Rightarrow>
            if c \<noteq> 0 then (ZERROR, canit s) else (0, s)))
       else (0, s))"


section \<open>XMODEM and YMODEM sectors\<close>

text \<open>
  \<open>wcgetsec\<close> makes up to \<open>RETRYMAX\<close> attempts. An attempt returns (\<open>Ret\<close>), jumps to \<open>humbug\<close>, or
  \<open>continue\<close>s the loop after a first CAN.
\<close>

abbreviation (input) WCEOT :: int where "WCEOT \<equiv> - 10"

datatype attempt = Ret int | Humbug | Cont

primrec sector_bytes :: "nat \<Rightarrow> nat \<Rightarrow> u8 list \<Rightarrow> u16 \<Rightarrow> int \<Rightarrow> zm \<Rightarrow> bool \<times> u8 list \<times> u16 \<times> int \<times> zm" where
  "sector_bytes 0 i buf crc cks s = (True, buf, crc, cks, s)"
| "sector_bytes (Suc k) i buf crc cks s = (case readline s of (c, s) \<Rightarrow>
     if c < 0 then (False, buf, crc, cks, s)
     else sector_bytes k (Suc i) (buf[i := word_of_int c]) (updcrc (word_of_int c) crc) (cks + c) s)"

definition sector_check :: "int \<Rightarrow> u16 \<Rightarrow> int \<Rightarrow> zm \<Rightarrow> attempt \<times> zm" where
  "sector_check sectcurr crc cks s = (case readline s of (c, s) \<Rightarrow>
     if c < 0 then (Humbug, s)
     else if Crcflg s then
       (let crc = updcrc (word_of_int c) crc in
        case readline s of (c, s) \<Rightarrow>
          if c < 0 then (Humbug, s)
          else if updcrc (word_of_int c) crc \<noteq> 0 then (Humbug, s)
          else (Ret sectcurr, s\<lparr>Firstsec := False\<rparr>))
     else if (cks - c) AND Wcsmask = 0 then (Ret sectcurr, s\<lparr>Firstsec := False\<rparr>)
     else (Humbug, s))"

definition sector_body :: "u8 list \<Rightarrow> zm \<Rightarrow> attempt \<times> u8 list \<times> zm" where
  "sector_body rxbuf s = (case readline s of (sectcurr, s) \<Rightarrow> case readline s of (c, s) \<Rightarrow>
     let oldcrc = word_of_int c :: u16 in
     if sectcurr + uint oldcrc = Wcsmask
     then (case sector_bytes (Blklen s) 0 rxbuf 0 0 s of (ok, buf, crc, cks, s) \<Rightarrow>
       if \<not> ok then (Humbug, buf, s)
       else (case sector_check sectcurr crc cks s of (a, s) \<Rightarrow> (a, buf, s)))
     else (Humbug, rxbuf, s))"

definition sector_attempt :: "u8 list \<Rightarrow> zm \<Rightarrow> attempt \<times> u8 list \<times> zm" where
  "sector_attempt rxbuf s = (case readline s of (firstch, s) \<Rightarrow>
     if firstch = 2 then sector_body rxbuf (s\<lparr>Blklen := KSIZE\<rparr>)
     else if firstch = 1 then sector_body rxbuf (s\<lparr>Blklen := SECSIZ\<rparr>)
     else if firstch = 4 \<and> Lleft s = 0 then (Ret WCEOT, rxbuf, s)
     else if firstch = CAN then
       (if Lastrx s = CAN then (Ret ZERROR, rxbuf, s) else (Cont, rxbuf, s\<lparr>Lastrx := CAN\<rparr>))
     else (Humbug, rxbuf, s))"

function drain :: "'a zlink_scheme \<Rightarrow> 'a zlink_scheme" where
  "drain s = (case readline s of (c, t) \<Rightarrow> if c \<noteq> TIMEOUT then drain t else t)"
  by pat_completeness auto
termination
  by (relation "measure todo") (auto dest: readline_less [OF sym])

declare drain.simps [simp del]

definition humbug :: "zm \<Rightarrow> zm" where
  "humbug s = (let s = drain (s\<lparr>Lastrx := 0\<rparr>);
     s = sendline (if Firstsec s then (if Crcflg s then 0x43 else 0x15) else 0x15) s
   in s\<lparr>Lleft := 0\<rparr>)"

primrec wcgetsec_loop :: "nat \<Rightarrow> u8 list \<Rightarrow> zm \<Rightarrow> int \<times> u8 list \<times> zm" where
  "wcgetsec_loop 0 rxbuf s = (ZERROR, rxbuf, canit s)"
| "wcgetsec_loop (Suc n) rxbuf s = (case sector_attempt rxbuf s of (a, buf, s) \<Rightarrow>
     (case a of Ret c \<Rightarrow> (c, buf, s)
      | Humbug \<Rightarrow> (let s = humbug s in wcgetsec_loop n buf (s\<lparr>Errors := Errors s + 1\<rparr>))
      | Cont \<Rightarrow> wcgetsec_loop n buf (s\<lparr>Errors := Errors s + 1\<rparr>)))"

definition wcgetsec :: "u8 list \<Rightarrow> zm \<Rightarrow> int \<times> u8 list \<times> zm" where
  "wcgetsec rxbuf s = wcgetsec_loop (nat RETRYMAX) rxbuf (s\<lparr>Errors := 0, Lastrx := 0\<rparr>)"

lemma todo_Lleft: "todo (s\<lparr>Lleft := 0\<rparr>) \<le> todo s"
  by (simp add: todo_def)

lemma todo_canit: "todo (canit s) \<le> todo s"
proof -
  have "fold sendline bs s = s\<lparr>tx := tx s @ bs\<rparr>" for bs and s :: "'a zlink_scheme"
    by (induction bs arbitrary: s) (simp_all add: sendline_def)
  then show ?thesis
    by (simp add: canit_def todo_def del: fold_append fold_replicate)
qed

lemma sector_bytes_le: "sector_bytes k i buf crc cks s = (d, buf', crc', cks', t) \<Longrightarrow> todo t \<le> todo s"
proof (induction k arbitrary: i buf crc cks s)
  case (Suc k)
  obtain c u where c: "readline s = (c, u)" by fastforce
  show ?case
    using Suc.prems readline_le [OF c] by (auto simp: c split: if_splits dest: Suc.IH)
qed simp

lemma sector_check_le: "sector_check n crc cks s = (a, t) \<Longrightarrow> todo t \<le> todo s"
proof -
  assume a: "sector_check n crc cks s = (a, t)"
  obtain c u where c: "readline s = (c, u)" by fastforce
  obtain d v where d: "readline u = (d, v)" by fastforce
  show ?thesis
    using a readline_le [OF c] readline_le [OF d] by (auto simp: sector_check_def c d Let_def split: if_splits)
qed

lemma sector_body_le: "sector_body b s = (a, buf, t) \<Longrightarrow> todo t \<le> todo s"
proof -
  assume a: "sector_body b s = (a, buf, t)"
  obtain c u where c: "readline s = (c, u)" by fastforce
  obtain d v where d: "readline u = (d, v)" by fastforce
  obtain e buf' crc cks w where e: "sector_bytes (Blklen v) 0 b 0 0 v = (e, buf', crc, cks, w)"
    using prod_cases5 by blast
  obtain f x where f: "sector_check c crc cks w = (f, x)" by fastforce
  show ?thesis
    using a readline_le [OF c] readline_le [OF d] sector_bytes_le [OF e] sector_check_le [OF f]
    by (auto simp: sector_body_def c d e f Let_def split: if_splits)
qed

lemma sector_attempt_le: "sector_attempt b s = (a, buf, t) \<Longrightarrow> todo t \<le> todo s"
  and sector_attempt_less: "sector_attempt b s = (Ret r, buf, t) \<Longrightarrow> todo t < todo s"
proof -
  obtain c u where c: "readline s = (c, u)" by fastforce
  have body: "sector_body b (u\<lparr>Blklen := k\<rparr>) = (a, buf, t) \<Longrightarrow> todo t \<le> todo u" for k a
    using sector_body_le [of b "u\<lparr>Blklen := k\<rparr>" a buf t] by simp
  show "todo t \<le> todo s" if "sector_attempt b s = (a, buf, t)"
    using that readline_le [OF c] by (auto simp: sector_attempt_def c split: if_splits dest!: body)
  show "todo t < todo s" if "sector_attempt b s = (Ret r, buf, t)"
    using that readline_less [OF c] by (auto simp: sector_attempt_def c split: if_splits dest!: body)
qed

lemma todo_drain: "todo (drain s) \<le> todo s"
proof (induction s rule: drain.induct)
  case (1 s)
  obtain c t where c: "readline s = (c, t)" by fastforce
  with 1 [OF c [symmetric]] readline_le [OF c] show ?case
    by (cases "c = TIMEOUT") (simp_all add: drain.simps [of s])
qed

lemma todo_humbug: "todo (humbug s) \<le> todo s"
proof -
  have "todo ((sendline c t)\<lparr>Lleft := 0\<rparr>) \<le> todo t" for c and t :: zm
    by (simp add: todo_def sendline_def)
  then show ?thesis
    using todo_drain [of "s\<lparr>Lastrx := 0\<rparr>"] unfolding humbug_def Let_def todo_zm by (rule order_trans)
qed

lemma wcgetsec_less: "wcgetsec b s = (c, buf, t) \<Longrightarrow> c \<noteq> ZERROR \<Longrightarrow> todo t < todo s"
proof -
  have "todo t < todo s" if "wcgetsec_loop n b s = (c, buf, t)" "c \<noteq> ZERROR" for n b s
    using that
  proof (induction n arbitrary: b s)
    case (Suc n)
    obtain a buf' u where a: "sector_attempt b s = (a, buf', u)"
      using prod_cases3 by blast
    show ?case
    proof (cases a)
      case (Ret r)
      with Suc.prems a sector_attempt_less [of b s r buf' u] show ?thesis
        by simp
    next
      case Humbug
      with Suc.prems(1) a Suc.IH [OF _ Suc.prems(2)] have "todo t < todo (humbug u)"
        by (fastforce simp: Let_def)
      with todo_humbug [of u] sector_attempt_le [OF a] show ?thesis
        by simp
    next
      case Cont
      with Suc.prems(1) a Suc.IH [OF _ Suc.prems(2)] have "todo t < todo u"
        by fastforce
      with sector_attempt_le [OF a] show ?thesis
        by simp
    qed
  qed simp
  from this [of "nat RETRYMAX" b "s\<lparr>Errors := 0, Lastrx := 0\<rparr>"]
  show "wcgetsec b s = (c, buf, t) \<Longrightarrow> c \<noteq> ZERROR \<Longrightarrow> todo t < todo s"
    by (simp add: wcgetsec_def)
qed


function wcrxpn_loop :: "u8 list \<Rightarrow> zm \<Rightarrow> int \<times> u8 list \<times> zm" where
  "wcrxpn_loop rpn s = (
     let s = s\<lparr>Firstsec := True, Eofseen := False\<rparr>;
         s = sendline (if Crcflg s then 0x43 else 0x15) s;
         s = s\<lparr>Lleft := 0\<rparr> in
     case wcgetsec rpn s of (c, buf, s) \<Rightarrow>
       if c = 0 then (0, buf, sendline 6 s)
       else if c = WCEOT then
         (let s = sendline 6 s; s = s\<lparr>Lleft := 0\<rparr> in wcrxpn_loop buf (snd (readline s)))
       else (ZERROR, buf, s))"
  by pat_completeness auto

lemma todo_send_Lleft: "todo ((sendline c t)\<lparr>Lleft := 0\<rparr>) \<le> todo t"
  by (simp add: todo_def sendline_def)

termination wcrxpn_loop
proof (relation "measure (\<lambda>(rpn, s). todo s)", goal_cases)
  case (2 rpn s x y z c p buf t u v)
  have "todo t < todo z"
    using wcgetsec_less [of rpn z c buf t] 2 by simp
  moreover have "todo z \<le> todo s"
    using 2 todo_send_Lleft [of "if Crcflg x then 0x43 else 0x15" x] by simp
  moreover have "todo (snd (readline v)) \<le> todo t"
    using 2 readline_le [of v "fst (readline v)" "snd (readline v)"] todo_send_Lleft [of 6 t] by simp
  ultimately show ?case
    by simp
qed simp

definition wcrxpn :: "u8 list \<Rightarrow> zm \<Rightarrow> int \<times> u8 list \<times> zm" where
  "wcrxpn rpn s = wcrxpn_loop rpn (purgeline s)"

text \<open>
  \<open>wcrx\<close> receives the sectors of a file. The number of bytes of the last sector comes from the announced
  size; \<^term>\<open>None\<close> is the call of \<open>memcpy\<close> with a negative length, which a negative announced size
  leads to.
\<close>

function wcrx_loop :: "int \<Rightarrow> u8 \<Rightarrow> zm \<Rightarrow> (int \<times> zm) option" where
  "wcrx_loop sectnum sendchar s = (
     let s = sendline sendchar s; s = s\<lparr>Lleft := 0\<rparr> in
     case wcgetsec (secbuf s) s of (sectcurr, buf, s) \<Rightarrow>
       let s = s\<lparr>secbuf := buf\<rparr> in
       if sectcurr = (sectnum + 1) AND Wcsmask then
         (let left = sint (ZModemBytesleft s);
              cblklen = (if left > int (Blklen s) then int (Blklen s) else left) in
          if cblklen < 0 \<and> Thisbinary s \<noteq> 0 then None
          else (let s = putsec (secbuf s) (nat cblklen) s; left = left - cblklen;
                    s = s\<lparr>ZModemBytesleft := (if left < 0 then 0 else word_of_int left)\<rparr>
                in wcrx_loop (sectnum + 1) 6 s))
       else if sectcurr = sectnum AND Wcsmask then wcrx_loop sectnum 6 s
       else if sectcurr = WCEOT then Some (0, (sendline 6 s)\<lparr>Lleft := 0\<rparr>)
       else Some (ZERROR, s))"
  by pat_completeness auto

lemma wcrx_less:
  assumes "(n AND Wcsmask, buf, t) = wcgetsec b ((sendline ch s)\<lparr>Lleft := 0\<rparr>)"
  shows "todo t < todo s"
proof -
  have "0 \<le> n AND Wcsmask"
    by (simp add: Wcsmask_def)
  then have "n AND Wcsmask \<noteq> ZERROR"
    by linarith
  from wcgetsec_less [OF assms [symmetric] this] todo_send_Lleft [of ch s] show ?thesis
    by linarith
qed

termination wcrx_loop
  by (relation "measure (\<lambda>(n, ch, s). todo s)") (auto simp: Let_def dest: wcrx_less)

definition wcrx :: "zm \<Rightarrow> (int \<times> zm) option" where
  "wcrx s = wcrx_loop 0 (if Crcflg s then 0x43 else 0x15) (s\<lparr>Firstsec := True, Eofseen := False\<rparr>)"

end
