(* ===== verification/ZTransfer.thy ===== *)
theory ZTransfer
  imports ZModem
begin

text \<open>
  What the ZMODEM session guarantees. A sender that plays by the protocol, scripted here with the
  senders of the same source file, transfers a file: \<open>rzfile\<close> stores exactly its bytes, in order, at
  \<open>ZModemWriteAddress\<close>, whatever their values and however they are cut into subpackets. The second
  part shows what the code does not guarantee: the limit on the size holds only for the announced
  size, and text mode does not store the text.
\<close>

section \<open>A sender\<close>

definition pos_hdr :: "u32 \<Rightarrow> u8 list" where
  "pos_hdr pos = [ucast pos, ucast (drop_bit 8 pos), ucast (drop_bit 16 pos), ucast (drop_bit 24 pos)]"

primrec send_chunks :: "u8 list list \<Rightarrow> zlink \<Rightarrow> zlink" where
  "send_chunks [] q = q"
| "send_chunks (c # cs) q = send_chunks cs (zsdata c (length c) (if cs = [] then ZCRCE else ZCRCG) q)"

definition send_file :: "u32 \<Rightarrow> u8 list list \<Rightarrow> zlink \<Rightarrow> zlink" where
  "send_file pos cs q = zsbhdr ZEOF (pos_hdr (pos + of_nat (length (concat cs))))
     (send_chunks cs (zsbhdr ZDATA (pos_hdr pos) q))"

lemma rclhdr_pos_hdr [simp]: "rclhdr (pos_hdr pos) = pos" "length (pos_hdr pos) = 4"
proof -
  let ?s = "(idle [])\<lparr>Txhdr := [0, 0, 0, 0]\<rparr>"
  have "Txhdr (stohdr pos ?s) = pos_hdr pos"
    by (simp add: stohdr_def pos_hdr_def)
  then show "rclhdr (pos_hdr pos) = pos"
    using stohdr_rclhdr [of ?s pos] by simp
qed (simp add: pos_hdr_def)

section \<open>The receiver between two frames\<close>

definition receiving :: "u32 \<Rightarrow> nat \<Rightarrow> (nat \<Rightarrow> u8) \<Rightarrow> zm \<Rightarrow> bool" where
  "receiving pos off m s \<longleftrightarrow> Thisbinary s \<noteq> 0 \<and> ZModemRxBytes s = pos \<and> ZModemRxOffset s = off \<and> mem s = m
     \<and> length (secbuf s) = KSIZE + 1 \<and> length (Rxhdr s) = 4"

lemma readline_keeps_zm [simp]:
  fixes s :: zm
  shows "mem (snd (readline s)) = mem s" "secbuf (snd (readline s)) = secbuf s"
    "Thisbinary (snd (readline s)) = Thisbinary s" "ZModemRxBytes (snd (readline s)) = ZModemRxBytes s"
    "ZModemRxOffset (snd (readline s)) = ZModemRxOffset s"
  by (simp_all add: readline_def Let_def split: prod.splits)

lemma readn_keeps_zm [simp]:
  fixes s :: zm
  shows "mem (readn n s) = mem s" "secbuf (readn n s) = secbuf s"
    "Thisbinary (readn n s) = Thisbinary s" "ZModemRxBytes (readn n s) = ZModemRxBytes s"
    "ZModemRxOffset (readn n s) = ZModemRxOffset s"
  by (induction n arbitrary: s) simp_all

lemma off_line_zm:
  "off_line (secbuf_update b)" "off_line (mem_update m)" "off_line (ZModemRxOffset_update k)"
  "off_line (ZModemRxBytes_update x)" "off_line (Thisbinary_update a)" "off_line (zmanag_update v)"
  "off_line (ZModemBytesleft_update x)" "off_line (Filemode_update x)" "off_line (Modtime_update x)"
  "off_line (ZModemPathname_update b)" "off_line (Eofseen_update e)"
  by (simp_all add: off_line_def readline_def Let_def apsnd_def split: prod.splits)

lemmas feeds_update_zm [simp] = off_line_zm [THEN feeds_off_line]

lemma put_mem_append: "put_mem (off + length a) b (put_mem off a m) = put_mem off (a @ b) m"
  by (rule ext) (auto simp: put_mem_def nth_append)

lemma put_mem_Nil [simp]: "put_mem off [] m = m"
  by (rule ext) (auto simp: put_mem_def)

lemma feeds_header_state [simp]: "feeds bs (header_state kind ty hdr s) = feeds bs s"
  by (simp add: header_state_def)

lemma receiving_header_state:
  "receiving pos off m s \<Longrightarrow> length hdr = 4 \<Longrightarrow> receiving pos off m (header_state kind ty hdr (readn n s))"
  by (simp add: receiving_def header_state_def)

text \<open>A data subpacket: the bytes go to memory and the position advances.\<close>

lemma rz_subpacket:
  assumes "receiving pos off m s" "length bs \<le> KSIZE" "fe = ZCRCG \<or> fe = ZCRCE"
    and "spells (zdl_code (Zctlesc s)) bs u"
    and "spells (zdl_code (Zctlesc s)) (check_bytes (Rxframeind s = ZBIN32) (bs @ [word_of_int fe])) v"
    and "feeds (u @ [0x18, word_of_int fe] @ v @ rest) s"
  obtains t where "rz_run n Moredata s = rz_run 20 (if fe = ZCRCG then Moredata else Nxthdr) t"
    "receiving (pos + of_nat (length bs)) (off + length bs) (put_mem off bs m) t" "feeds rest t"
    "Zctlesc t = Zctlesc s" "Rxframeind t = Rxframeind s"
proof -
  let ?fe = "word_of_int fe :: u8" and ?w = "u @ [0x18, word_of_int fe] @ v"
  have fe: "?fe \<in> {0x68, 0x69, 0x6A, 0x6B}" "uint ?fe = fe" "fe OR GOTOR = (if fe = ZCRCG then GOTCRCG else GOTCRCE)"
    using assms(3) by auto
  have f: "feeds ?w s" "feeds rest (readn (length ?w) s)"
    using assms(6) unfolding append_assoc [symmetric] feeds_append [of _ rest] by simp_all
  have len: "length (secbuf s) = KSIZE + 1"
    using assms(1) by (simp add: receiving_def)
  define r where "r = (readn (length ?w) s)\<lparr>Rxcount := int (length bs), secbuf := bs @ drop (length bs) (secbuf s)\<rparr>"
  have "zrdata (secbuf s) KSIZE s = (fe OR GOTOR, bs @ drop (length bs) (secbuf s),
      (readn (length ?w) s)\<lparr>Rxcount := int (length bs)\<rparr>)"
    using zrdata_spelled [OF assms(4,5) f(1) fe(1) assms(2)] assms(2) len
    by (simp add: check_bytes_good fe(2) Let_def split: if_splits)
  then have r: "read_sec s = (fe OR GOTOR, r)"
    by (simp add: read_sec_def r_def)
  have "rz_run n Moredata s = rz_run 20 (if fe = ZCRCG then Moredata else Nxthdr) (put_data r)"
    using fe(3) assms(3) by (auto simp: rz_run.simps r)
  moreover have "receiving (pos + of_nat (length bs)) (off + length bs) (put_mem off bs m) (put_data r)"
    using assms(1,2) by (simp add: receiving_def put_data_def putsec_def store_def r_def KSIZE_def)
  moreover have "feeds rest (put_data r)" "Zctlesc (put_data r) = Zctlesc s" "Rxframeind (put_data r) = Rxframeind s"
    using f(2) assms(1) by (simp_all add: receiving_def put_data_def putsec_def store_def r_def Let_def del: readn.simps feeds.simps)
  ultimately show ?thesis
    using that by blast
qed


text \<open>The senders keep the modes.\<close>

lemma sendline_modes [simp]:
  "Crc32t (sendline c s) = Crc32t s" "Crc32t (xsendline c s) = Crc32t s"
  "Txfcs32 (sendline c s) = Txfcs32 s" "Txfcs32 (xsendline c s) = Txfcs32 s"
  by (simp_all add: sendline_def xsendline_def)

lemma zsendline_modes [simp]:
  "Crc32t (zsendline c s) = Crc32t s" "Txfcs32 (zsendline c s) = Txfcs32 s"
  using fold_zsendline_keeps [of "[c]" s] by simp_all

lemma send_fcs_modes [simp]:
  "Zctlesc (send_fcs n crc s) = Zctlesc s" "Crc32t (send_fcs n crc s) = Crc32t s"
  "Txfcs32 (send_fcs n crc s) = Txfcs32 s"
  by (induction n arbitrary: crc s) (simp_all add: zdl.put_keeps)

lemma zsdata_modes [simp]:
  "Zctlesc (zsdata buf len fe s) = Zctlesc s" "Crc32t (zsdata buf len fe s) = Crc32t s"
  "Txfcs32 (zsdata buf len fe s) = Txfcs32 s"
  by (simp_all add: zsdata_def zsda32_def zputs_alt zdl.put_keeps zdl.fold_put_keeps Let_def)

lemma zsbhdr_modes:
  assumes "ty \<noteq> ZDATA \<or> Znulls s = 0"
  shows "Zctlesc (zsbhdr ty hdr s) = Zctlesc s" "Crc32t (zsbhdr ty hdr s) = Txfcs32 s"
    "Txfcs32 (zsbhdr ty hdr s) = Txfcs32 s"
proof -
  have nulls: "(if ty = ZDATA then (zsendline 0 ^^ Znulls s) s else s) = s"
    using assms by auto
  show "Zctlesc (zsbhdr ty hdr s) = Zctlesc s" "Crc32t (zsbhdr ty hdr s) = Txfcs32 s"
    "Txfcs32 (zsbhdr ty hdr s) = Txfcs32 s"
    unfolding zsbhdr_def nulls
    by (simp_all add: zsbh32_def zputs_alt zdl.put_keeps zdl.fold_put_keeps Let_def)
qed

lemma send_chunks_keeps:
  "Zctlesc (send_chunks cs q) = Zctlesc q" "Crc32t (send_chunks cs q) = Crc32t q"
  "Txfcs32 (send_chunks cs q) = Txfcs32 q" "\<exists>w. tx (send_chunks cs q) = tx q @ w"
proof -
  show "Zctlesc (send_chunks cs q) = Zctlesc q" "Crc32t (send_chunks cs q) = Crc32t q"
    "Txfcs32 (send_chunks cs q) = Txfcs32 q"
    by (induction cs arbitrary: q) simp_all
  show "\<exists>w. tx (send_chunks cs q) = tx q @ w"
  proof (induction cs arbitrary: q)
    case (Cons d ds)
    have "\<exists>x. tx (zsdata d (length d) fe q) = tx q @ x" for fe
      using zsdata_sent [of q "Zctlesc q" "length d" d fe] by (auto simp: zdl_agrees_def)
    with Cons.IH [of "zsdata d (length d) (if ds = [] then ZCRCE else ZCRCG) q"] show ?case
      by (metis append.assoc send_chunks.simps(2))
  qed simp
qed

lemma rz_chunks:
  assumes "cs \<noteq> []" "\<forall>c\<in>set cs. length c \<le> KSIZE" "zdl_agrees (Zctlesc q) (Zctlesc s)"
    and "Rxframeind s = ZBIN32 \<longleftrightarrow> Crc32t q \<noteq> 0" "receiving pos off m s"
    and "tx (send_chunks cs q) = tx q @ w" "feeds (w @ rest) s"
  obtains t where "rz_run n Moredata s = rz_run 20 Nxthdr t"
    "receiving (pos + of_nat (length (concat cs))) (off + length (concat cs)) (put_mem off (concat cs) m) t"
    "feeds rest t" "Zctlesc t = Zctlesc s" "Rxframeind t = Rxframeind s"
  using assms
proof (induction cs arbitrary: q s pos off m w n thesis)
  case (Cons c cs)
  let ?fe = "if cs = [] then ZCRCE else ZCRCG"
  let ?fs = "Crc32t q \<noteq> 0"
  obtain u v where q1: "tx (zsdata c (length c) ?fe q) = tx q @ u @ [0x18, word_of_int ?fe] @ v"
    and sp: "spells (zdl_code (Zctlesc s)) c u"
      "spells (zdl_code (Zctlesc s)) (check_bytes ?fs (c @ [word_of_int ?fe])) v"
    using zsdata_sent [OF Cons.prems(4), of "length c" c ?fe] by (auto split: if_splits)
  have "\<exists>w'. tx (send_chunks cs (zsdata c (length c) ?fe q)) = tx (zsdata c (length c) ?fe q) @ w'"
    by (rule send_chunks_keeps)
  then obtain w' where w': "tx (send_chunks cs (zsdata c (length c) ?fe q)) = tx (zsdata c (length c) ?fe q) @ w'"
    by blast
  then have w: "w = u @ [0x18, word_of_int ?fe] @ v @ w'"
    using Cons.prems(7) q1 by simp
  have fd: "feeds (u @ [0x18, word_of_int ?fe] @ v @ w' @ rest) s"
    using Cons.prems(8) unfolding w append_assoc .
  have fs: "Rxframeind s = ZBIN32 \<longleftrightarrow> ?fs"
    using Cons.prems(5) .
  obtain t where t: "rz_run n Moredata s = rz_run 20 (if ?fe = ZCRCG then Moredata else Nxthdr) t"
    "receiving (pos + of_nat (length c)) (off + length c) (put_mem off c m) t" "feeds (w' @ rest) t"
    "Zctlesc t = Zctlesc s" "Rxframeind t = Rxframeind s"
    by (rule rz_subpacket [OF Cons.prems(6) _ _ sp(1) sp(2) [folded fs] fd, of n]) (use Cons.prems(3) in auto)
  show ?case
  proof (cases "cs = []")
    case True
    with w' have "w' = []" by simp
    with True t show ?thesis
      by (intro Cons.prems(1) [of t]) simp_all
  next
    case False
    have agr: "zdl_agrees (Zctlesc (zsdata c (length c) ?fe q)) (Zctlesc t)"
      "Rxframeind t = ZBIN32 \<longleftrightarrow> Crc32t (zsdata c (length c) ?fe q) \<noteq> 0" "\<forall>c\<in>set cs. length c \<le> KSIZE"
      using Cons.prems(3,4) fs t(4,5) by simp_all
    obtain t' where t': "rz_run 20 Moredata t = rz_run 20 Nxthdr t'"
      "receiving (pos + of_nat (length c) + of_nat (length (concat cs))) (off + length c + length (concat cs))
        (put_mem (off + length c) (concat cs) (put_mem off c m)) t'"
      "feeds rest t'" "Zctlesc t' = Zctlesc t" "Rxframeind t' = Rxframeind t"
      by (rule Cons.IH [OF _ False agr(3,1,2) t(2) w' t(3), of 20])
    show ?thesis
      by (rule Cons.prems(1) [of t']) (use t t' False in \<open>simp_all add: put_mem_append add.assoc\<close>)
  qed
qed simp


text \<open>A hexadecimal header only appends to the output.\<close>

definition output_only :: "zm \<Rightarrow> zm \<Rightarrow> bool" where
  "output_only s t \<longleftrightarrow> (\<exists>x c. t = s\<lparr>Crc32t := c, tx := x\<rparr>)"

lemma output_only_refl: "output_only s s"
  unfolding output_only_def by (intro exI [of _ "tx s"] exI [of _ "Crc32t s"]) simp

lemma output_only_sendline: "output_only s t \<Longrightarrow> output_only s (sendline c t)"
proof -
  assume "output_only s t"
  then obtain x k where t: "t = s\<lparr>Crc32t := k, tx := x\<rparr>"
    by (auto simp: output_only_def)
  show ?thesis
    unfolding output_only_def by (rule exI [of _ "x @ [c]"], rule exI [of _ k]) (simp add: t sendline_def)
qed

lemma tx_Crc32t: "(s :: zm)\<lparr>tx := x, Crc32t := c\<rparr> = s\<lparr>Crc32t := c, tx := x\<rparr>"
  by (rule zm.equality) simp_all

lemma output_only_Crc32t: "output_only s t \<Longrightarrow> output_only s (t\<lparr>Crc32t := c\<rparr>)"
proof -
  assume "output_only s t"
  then obtain x k where t: "t = s\<lparr>Crc32t := k, tx := x\<rparr>"
    by (auto simp: output_only_def)
  show ?thesis
    unfolding output_only_def by (rule exI [of _ x], rule exI [of _ c]) (simp add: t tx_Crc32t)
qed

lemma output_only_zputhex: "output_only s t \<Longrightarrow> output_only s (zputhex c t)"
  by (simp add: zputhex_def Let_def output_only_sendline)

lemma output_only_fold: "output_only s t \<Longrightarrow> output_only s (fold zputhex bs t)"
  by (induction bs arbitrary: t) (simp_all add: output_only_zputhex)

lemma output_only_zshhdr: "output_only s (zshhdr ty hdr s)"
  by (simp add: zshhdr_def zputs_alt Let_def output_only_sendline output_only_zputhex output_only_fold
    output_only_Crc32t output_only_refl)

lemma ask_position_keeps:
  "feeds bs (ask_position s) = feeds bs s" "Zctlesc (ask_position s) = Zctlesc s" "Rxhdr (ask_position s) = Rxhdr s"
  "mem (ask_position s) = mem s" "ZModemRxBytes (ask_position s) = ZModemRxBytes s"
  "ZModemRxOffset (ask_position s) = ZModemRxOffset s" "secbuf (ask_position s) = secbuf s"
  "Thisbinary (ask_position s) = Thisbinary s"
proof -
  let ?s = "stohdr (ZModemRxBytes s) s"
  obtain x c where "ask_position s = ?s\<lparr>Crc32t := c, tx := x\<rparr>"
    using output_only_zshhdr [of ?s ZRPOS "Txhdr ?s"] by (auto simp: output_only_def ask_position_def Let_def)
  then show "feeds bs (ask_position s) = feeds bs s" "Zctlesc (ask_position s) = Zctlesc s" "Rxhdr (ask_position s) = Rxhdr s"
    "mem (ask_position s) = mem s" "ZModemRxBytes (ask_position s) = ZModemRxBytes s"
    "ZModemRxOffset (ask_position s) = ZModemRxOffset s" "secbuf (ask_position s) = secbuf s"
    "Thisbinary (ask_position s) = Thisbinary s"
    by (simp_all add: stohdr_def)
qed

text \<open>The two headers of a transfer.\<close>

lemma rz_header:
  assumes "receiving pos off m s" "zdl_agrees (Zctlesc q) (Zctlesc s)" "ty \<noteq> ZDATA \<or> Znulls q = 0"
    and "0 \<le> ty" "ty < 256" "tx (zsbhdr ty (pos_hdr p) q) = tx q @ w" "feeds (w @ rest) s"
  obtains t where "zgethdr s = (ty, t)" "receiving pos off m t" "feeds rest t" "Zctlesc t = Zctlesc s"
    "Rxframeind t = (if Txfcs32 q \<noteq> 0 then ZBIN32 else ZBIN)" "rclhdr (Rxhdr t) = p"
proof -
  let ?k = "if Txfcs32 q \<noteq> 0 then 0x43 else 0x41 :: u8" and ?ty = "word_of_int ty :: u8"
  obtain v where v: "tx (zsbhdr ty (pos_hdr p) q) = tx q @ [0x2A, 0x18, ?k] @ v"
    and sp: "spells (zdl_code (Zctlesc s)) (?ty # pos_hdr p @ check_bytes (Txfcs32 q \<noteq> 0) (?ty # pos_hdr p)) v"
    using zsbhdr_sent [OF assms(2) rclhdr_pos_hdr(2) assms(3)] by blast
  have w: "w = [0x2A, 0x18, ?k] @ v"
    using assms(6) unfolding v by simp
  have f: "feeds ([0x2A, 0x18, ?k] @ v) s" "feeds rest (readn (3 + length v) s)"
    using assms(7) unfolding w feeds_append [of _ rest] by (simp_all only: length_append length_Cons list.size)
      (simp_all add: numeral_3_eq_3)
  have "length (Rxhdr s) = 4"
    using assms(1) by (simp add: receiving_def)
  from zgethdr_frame [OF sp f(1) rclhdr_pos_hdr(2) this]
  have "zgethdr s = (ty, header_state (if Txfcs32 q \<noteq> 0 then ZBIN32 else ZBIN) ty (pos_hdr p) (readn (3 + length v) s))"
    using assms(4,5) by (simp add: check_bytes_good word_of_int_byte split: if_splits)
  then show ?thesis
    by (rule that) (use receiving_header_state [OF assms(1) rclhdr_pos_hdr(2)] f(2) in
      \<open>simp_all del: readn.simps, simp_all add: header_state_def\<close>)
qed

section \<open>Processing the file header leaves the transfer state alone\<close>

definition same_transfer :: "zm \<Rightarrow> zm \<Rightarrow> bool" where
  "same_transfer s t \<longleftrightarrow> (\<forall>bs. feeds bs t = feeds bs s) \<and> Zctlesc t = Zctlesc s \<and> Rxhdr t = Rxhdr s \<and> mem t = mem s
     \<and> ZModemRxBytes t = ZModemRxBytes s \<and> ZModemRxOffset t = ZModemRxOffset s
     \<and> length (secbuf t) = length (secbuf s) \<and> Rxbinary t = Rxbinary s"

lemma same_transfer_steps [simp]:
  "same_transfer s s"
  "same_transfer s (t\<lparr>Thisbinary := a\<rparr>) = same_transfer s t" "same_transfer s (t\<lparr>zmanag := v\<rparr>) = same_transfer s t"
  "same_transfer s (t\<lparr>ZModemBytesleft := x\<rparr>) = same_transfer s t" "same_transfer s (t\<lparr>Filemode := x\<rparr>) = same_transfer s t"
  "same_transfer s (t\<lparr>Modtime := x\<rparr>) = same_transfer s t" "same_transfer s (t\<lparr>ZModemPathname := b\<rparr>) = same_transfer s t"
  "same_transfer s (t\<lparr>Eofseen := e\<rparr>) = same_transfer s t"
  "length b = length (secbuf t) \<Longrightarrow> same_transfer s (t\<lparr>secbuf := b\<rparr>) = same_transfer s t"
  by (simp_all add: same_transfer_def)

lemma length_cstr: "length (cstr b) \<le> length b"
  by (simp add: cstr_def length_takeWhile_le)

lemma length_names [simp]: "length (cpm_name b) = length b" "length (uncaps b) = length b"
  using length_cstr [of b] by (simp_all add: cpm_name_def uncaps_def Let_def)

lemma scan_header_keeps:
  "same_transfer s (scan_header p t) = same_transfer s t" "Thisbinary (scan_header p t) = Thisbinary t"
  "Rxbinary (scan_header p t) = Rxbinary t" "secbuf (scan_header p t) = secbuf t" "Zmodem (scan_header p t) = Zmodem t"
  by (simp_all add: scan_header_def Let_def split: option.splits prod.splits)

lemma transfer_mode_keeps:
  "same_transfer u (transfer_mode s) = same_transfer u s" "secbuf (transfer_mode s) = secbuf s"
  "Rxbinary s \<Longrightarrow> Thisbinary (transfer_mode s) = 1"
  by (simp_all add: transfer_mode_def Let_def)

lemma file_info_keeps:
  "same_transfer u (file_info s) = same_transfer u s"
  "0 < Thisbinary s \<Longrightarrow> 0 < Thisbinary (file_info s)"
  by (simp_all add: file_info_def Let_def scan_header_keeps)

lemma procheader_keeps:
  assumes "procheader s = (err, t)" "Rxbinary s"
  shows "same_transfer s t" "0 < Thisbinary t"
proof -
  define u where "u = file_info (transfer_mode s)"
  have "same_transfer s u" "0 < Thisbinary u"
    using assms(2) by (simp_all add: u_def file_info_keeps transfer_mode_keeps)
  then show "same_transfer s t" "0 < Thisbinary t"
    using assms(1) by (auto simp: procheader_def u_def [symmetric] Let_def split: if_splits)
qed

lemma rzfile_transfer:
  assumes "Rxbinary s" "length (secbuf s) = KSIZE + 1" "length (Rxhdr s) = 4"
    and "fst (procheader (s\<lparr>Eofseen := False\<rparr>)) = 0"
    and "cs \<noteq> []" "\<forall>c\<in>set cs. length c \<le> KSIZE"
    and "zdl_agrees (Zctlesc q) (Zctlesc s)" "Znulls q = 0"
    and "feeds (sent (send_file (ZModemRxBytes s) cs) q) s"
  shows "fst (rzfile s) = ZEOF \<and> mem (snd (rzfile s)) = put_mem (ZModemRxOffset s) (concat cs) (mem s)
    \<and> ZModemRxBytes (snd (rzfile s)) = ZModemRxBytes s + of_nat (length (concat cs))
    \<and> ZModemRxOffset (snd (rzfile s)) = ZModemRxOffset s + length (concat cs)"
proof -
  let ?pos = "ZModemRxBytes s" and ?off = "ZModemRxOffset s" and ?fs = "Txfcs32 q \<noteq> 0"
  let ?kind = "if ?fs then ZBIN32 else ZBIN" and ?k = "if ?fs then 0x43 else 0x41 :: u8"
  let ?len = "length (concat cs)"
  obtain t0 where ph: "procheader (s\<lparr>Eofseen := False\<rparr>) = (0, t0)"
    using assms(4) by (metis prod.collapse)
  have "same_transfer s t0" "0 < Thisbinary t0"
    using procheader_keeps [OF ph] assms(1) by (simp_all add: same_transfer_def)
  moreover define t1 where "t1 = ask_position t0"
  ultimately have t1: "receiving ?pos ?off (mem s) t1" "\<And>bs. feeds bs t1 = feeds bs s" "Zctlesc t1 = Zctlesc s"
    using assms(2,3) by (simp_all add: receiving_def same_transfer_def ask_position_keeps)
  have run0: "rzfile s = rz_run 20 Nxthdr t1"
    by (simp add: rzfile_def ph rz_run.simps(1) t1_def)
  define q1 where "q1 = zsbhdr ZDATA (pos_hdr ?pos) q"
  define q2 where "q2 = send_chunks cs q1"
  have q1: "Zctlesc q1 = Zctlesc q" "Crc32t q1 = Txfcs32 q" "Txfcs32 q1 = Txfcs32 q"
    using assms(8) by (simp_all add: q1_def zsbhdr_modes)
  have q2: "Zctlesc q2 = Zctlesc q" "Txfcs32 q2 = Txfcs32 q"
    using q1 by (simp_all add: q2_def send_chunks_keeps)
  obtain w1 where w1: "tx q1 = tx q @ w1"
    using zsbhdr_sent [of q "Zctlesc s" "pos_hdr ?pos" ZDATA] assms(7,8) by (auto simp: q1_def)
  obtain w2 where w2: "tx q2 = tx q1 @ w2"
    using send_chunks_keeps(4) [of cs q1] by (auto simp: q2_def)
  obtain w3 where w3: "tx (zsbhdr ZEOF (pos_hdr (?pos + of_nat ?len)) q2) = tx q2 @ w3"
    using zsbhdr_sent [of q2 "Zctlesc s" "pos_hdr (?pos + of_nat ?len)" ZEOF] assms(7) q2 by (auto simp: zdl_agrees_def)
  have "sent (send_file ?pos cs) q = w1 @ w2 @ w3"
    unfolding sent_def send_file_def q1_def [symmetric] q2_def [symmetric] w3 w2 w1 by simp
  with assms(9) t1(2) have fd: "feeds (w1 @ (w2 @ w3 @ [])) t1"
    by (simp only: append_Nil2)
  obtain t2 where t2: "zgethdr t1 = (ZDATA, t2)" "receiving ?pos ?off (mem s) t2" "feeds (w2 @ w3 @ []) t2"
    "Zctlesc t2 = Zctlesc s" "Rxframeind t2 = (if Txfcs32 q \<noteq> 0 then ZBIN32 else ZBIN)" "rclhdr (Rxhdr t2) = ?pos"
    by (rule rz_header [OF t1(1) _ _ _ _ w1 [unfolded q1_def] fd]) (use assms(7,8) t1(3) in simp_all)
  have run1: "rzfile s = rz_run 20 Moredata t2"
    using t2(2,6) by (simp add: run0 rz_run.simps(2) t2(1) receiving_def)
  obtain t3 where t3: "rz_run 20 Moredata t2 = rz_run 20 Nxthdr t3"
    "receiving (?pos + of_nat ?len) (?off + ?len) (put_mem ?off (concat cs) (mem s)) t3"
    "feeds (w3 @ []) t3" "Zctlesc t3 = Zctlesc t2"
    by (rule rz_chunks [OF assms(5,6) _ _ t2(2) w2 [unfolded q2_def] t2(3), of 20])
      (use assms(7) t2(4,5) q1 in \<open>auto split: if_splits\<close>)
  obtain t4 where t4: "zgethdr t3 = (ZEOF, t4)"
    "receiving (?pos + of_nat ?len) (?off + ?len) (put_mem ?off (concat cs) (mem s)) t4"
    "rclhdr (Rxhdr t4) = ?pos + of_nat ?len"
    by (rule rz_header [OF t3(2) _ _ _ _ w3 t3(3)]) (use assms(7) q2(1) t3(4) t2(4) in simp_all)
  have "rzfile s = (ZEOF, t4)"
    using t4(2,3) unfolding run1 t3(1) by (simp add: rz_run.simps(2) t4(1) receiving_def)
  with t4(2) show ?thesis
    by (simp add: receiving_def)
qed


section \<open>A silent line\<close>

definition hex_header :: "int \<Rightarrow> u8 list \<Rightarrow> u8 list" where
  "hex_header ty hdr = [0x2A, 0x2A, 0x18, 0x42]
     @ tx (fold zputhex (word_of_int ty # hdr @ check_bytes False (word_of_int ty # hdr)) (idle []))
     @ [0x0D, 0x8A] @ (if ty \<noteq> ZFIN \<and> ty \<noteq> ZACK then [0x11] else [])"

lemma tx_zputhex: "tx (zputhex b s) = tx s @ [digits ! unat (drop_bit 4 (b AND 0xF0)), digits ! unat (b AND 0xF)]"
  by (rule zputhex_code)

lemma tx_fold_zputhex: "tx (fold zputhex bs s) = tx s @ tx (fold zputhex bs (idle []))"
proof (induction bs rule: rev_induct)
  case (snoc b bs)
  then show ?case
    by (simp only: fold_append fold.simps comp_def id_apply tx_zputhex append_assoc)
qed simp

lemma tx_zshhdr:
  assumes "length hdr = 4"
  shows "tx (zshhdr ty hdr s) = tx s @ hex_header ty hdr"
proof -
  obtain a b c d where hdr: "hdr = [a, b, c, d]"
    using list_length_4 [OF assms] by blast
  let ?bs = "word_of_int ty # hdr @ check_bytes False (word_of_int ty # hdr)"
  have eq: "zshhdr ty hdr s = (let s = sendline 0x8A (sendline 0x0D (fold zputhex ?bs
      ((sendline 0x42 (sendline 0x18 (sendline 0x2A (sendline 0x2A s))))\<lparr>Crc32t := 0\<rparr>)))
      in if ty \<noteq> ZFIN \<and> ty \<noteq> ZACK then sendline 0x11 s else s)"
    by (simp add: zshhdr_def zputs_alt hdr check_bytes_def zcrc16_tail_alt zputhex_Crc32t Let_def)
  show ?thesis
    unfolding eq Let_def hex_header_def
    using tx_fold_zputhex [of ?bs "(sendline 0x42 (sendline 0x18 (sendline 0x2A (sendline 0x2A s))))\<lparr>Crc32t := 0\<rparr>"]
    by (cases "ty \<noteq> ZFIN \<and> ty \<noteq> ZACK") (simp_all only: tx_sendline if_True if_False zlink.select_convs
        zlink.update_convs append_assoc, simp_all)
qed

text \<open>On a line that delivers nothing, the receiver announces itself and times out.\<close>

definition silent :: "zm \<Rightarrow> bool" where
  "silent s \<longleftrightarrow> rx s = [] \<and> Lleft s \<le> 0 \<and> length (Txhdr s) = 4 \<and> Zctlesc s = 0 \<and> tryzhdrtype s = ZRINIT"

lemma zgethdr_silent:
  assumes "silent s"
  shows "fst (zgethdr s) = TIMEOUT" "silent (snd (zgethdr s))" "tx (snd (zgethdr s)) = tx s"
proof -
  have "uart_read n [] [] = ([], [])" for n
    by (simp add: uart_read.simps)
  then have r: "readline (s\<lparr>Rxframeind := 0, Rxtype := 0\<rparr>) =
      (TIMEOUT, s\<lparr>Rxframeind := 0, Rxtype := 0, linbuf := [], cdq := 0, Lleft := 0, rx := []\<rparr>)"
    using assms by (simp add: readline_def silent_def Let_def)
  show "fst (zgethdr s) = TIMEOUT" "silent (snd (zgethdr s))" "tx (snd (zgethdr s)) = tx s"
    using assms by (simp_all add: zgethdr_def hdr_again_def r silent_def)
qed

lemma announce_silent:
  assumes "silent s"
  shows "silent (announce s)" "tx (announce s) = tx s @ hex_header ZRINIT [0, 0, 0, 0x27]"
proof -
  obtain a b c d where h: "Txhdr s = [a, b, c, d]"
    using assms list_length_4 [of "Txhdr s"] by (auto simp: silent_def)
  define u where "u = (stohdr 0 s)\<lparr>Txhdr := [0, 0, 0, 0x27]\<rparr>"
  have an: "announce s = zshhdr ZRINIT [0, 0, 0, 0x27] u"
    using assms h output_only_zshhdr [of u ZRINIT "[0, 0, 0, 0x27]"]
    by (auto simp: announce_def stohdr_def silent_def u_def Let_def output_only_def)
  obtain x k where u: "zshhdr ZRINIT [0, 0, 0, 0x27] u = u\<lparr>Crc32t := k, tx := x\<rparr>"
    using output_only_zshhdr [of u ZRINIT "[0, 0, 0, 0x27]"] by (auto simp: output_only_def)
  show "silent (announce s)"
    using assms unfolding an u by (simp add: silent_def u_def stohdr_def)
  show "tx (announce s) = tx s @ hex_header ZRINIT [0, 0, 0, 0x27]"
    unfolding an by (subst tx_zshhdr) (simp_all add: u_def stohdr_def)
qed

lemma tryz_silent:
  "silent s \<Longrightarrow> fst (tryz_run n False s) = TIMEOUT
     \<and> tx (snd (tryz_run n False s)) = tx s @ concat (replicate n (hex_header ZRINIT [0, 0, 0, 0x27]))"
proof (induction n arbitrary: s)
  case 0
  show ?case by (subst (1 2) tryz_run.simps) simp
next
  case (Suc n)
  have an: "silent (announce s)" "tx (announce s) = tx s @ hex_header ZRINIT [0, 0, 0, 0x27]"
    using announce_silent [OF Suc.prems] by simp_all
  obtain t where z: "zgethdr (announce s) = (TIMEOUT, t)" "silent t" "tx t = tx (announce s)"
    using zgethdr_silent [OF an(1)] by (metis prod.collapse)
  have "tryz_run (Suc n) False s = tryz_run n True (announce s)"
    by (subst tryz_run.simps) simp
  also have "\<dots> = tryz_run n False t"
    by (subst tryz_run.simps) (simp add: z(1))
  finally have "tryz_run (Suc n) False s = tryz_run n False t" .
  then show ?case
    using Suc.IH [OF z(2)] unfolding z(3) an(2) by (simp only: replicate_Suc concat.simps append_assoc)
qed


section \<open>Text mode\<close>

lemma putsec_text_offset:
  "\<forall>c\<in>set p. c \<noteq> 0x0D \<and> c \<noteq> 0x1A \<Longrightarrow> length p \<le> length buf \<Longrightarrow>
   2 * ZModemRxOffset (putsec_text buf p s) = 2 * ZModemRxOffset s + length p * (length p - 1)"
proof (induction p arbitrary: s)
  case (Cons c p)
  then have "2 * ZModemRxOffset (putsec_text buf p (store (take (length p) buf) s))
      = 2 * (ZModemRxOffset s + length p) + length p * (length p - 1)"
    by (simp add: store_def)
  with Cons.prems show ?case
    by (cases p) (simp_all add: Let_def algebra_simps)
qed simp

section \<open>Properties\<close>

text \<open>C4. A transfer delivers the file: when the sender answers the position request with a
  \<open>ZDATA\<close> header, the contents in any number of subpackets of at most \<open>KSIZE\<close> bytes and a \<open>ZEOF\<close>
  header, \<open>rzfile\<close> returns \<open>ZEOF\<close>, has stored exactly these bytes one after the other, and has
  advanced the position by their number.\<close>

theorem rzfile_receives_file:
  assumes "Rxbinary s" "length (secbuf s) = KSIZE + 1" "length (Rxhdr s) = 4"
    and "fst (procheader (s\<lparr>Eofseen := False\<rparr>)) = 0"
    and "cs \<noteq> []" "\<forall>c\<in>set cs. length c \<le> KSIZE"
    and "zdl_agrees (Zctlesc q) (Zctlesc s)" "Znulls q = 0"
    and "feeds (sent (send_file (ZModemRxBytes s) cs) q) s"
  shows "fst (rzfile s) = ZEOF \<and> mem (snd (rzfile s)) = put_mem (ZModemRxOffset s) (concat cs) (mem s)
    \<and> ZModemRxBytes (snd (rzfile s)) = ZModemRxBytes s + of_nat (length (concat cs))
    \<and> ZModemRxOffset (snd (rzfile s)) = ZModemRxOffset s + length (concat cs)"
  using assms by (rule rzfile_transfer)

text \<open>A session waiting for its first data, with the file header \<open>a\<close>, size \<open>1\<close> in \<open>secbuf\<close>.\<close>

definition started :: "u32 \<Rightarrow> u8 list list \<Rightarrow> zm" where
  "started maxbytes polls = zlink.extend ((idle polls)\<lparr>Zmodem := 1\<rparr>) (zm.fields ([0x61, 0, 0x31] @ replicate 1022 0) []
     ZRINIT 0 0 0 0 False 0 True False 0 0 0 [] 0 maxbytes 0 (\<lambda>a. 0) 0 False False 0)"

lemma started_simps:
  "rx (started m p) = p" "Lleft (started m p) = 0" "Readnum (started m p) = 133" "Zctlesc (started m p) = 0"
  "Rxhdr (started m p) = [0, 0, 0, 0]" "Zmodem (started m p) = 1" "Rxbinary (started m p)"
  "secbuf (started m p) = [0x61, 0, 0x31] @ replicate 1022 0" "ZModemRxBytes (started m p) = 0"
  "ZModemRxOffset (started m p) = 0" "mem (started m p) = (\<lambda>a. 0)" "ZModemMaxBytes (started m p) = m"
  "Lzmanag (started m p) = 0" "zconv (started m p) = 0"
  by (simp_all add: started_def idle_def zlink.defs zm.defs HOWMANY_def)

lemma cstr_zeros: "cstr (replicate n 0) = []" "cstr (0 # b) = []" "c \<noteq> 0 \<Longrightarrow> cstr (c # b) = c # cstr b"
  by (simp_all add: cstr_def takeWhile_replicate)

lemma started_procheader:
  assumes "1 \<le> sint m"
  shows "fst (procheader ((started m p)\<lparr>Eofseen := False\<rparr>)) = 0"
proof -
  have n: "scan_num 10 [0x31] = Some (1, [])" "scan_num 8 [] = None"
    by (simp_all add: scan_num_def isspace_def isdigit_def digits_value_def Let_def)
  show ?thesis
    using assms by (simp add: procheader_def file_info_def transfer_mode_def scan_header_def started_simps
      cstr_zeros at_def n UNIXFILE_def Let_def)
qed

lemma started_feeds: "feeds bs (started m [bs])"
  by (rule feeds_burst) (simp_all add: started_simps)

theorem rzfile_receives_file_witness:
  "let s = started 0x100000 [sent (send_file 0 [[0x18, 0x11], [0xFF]]) (idle [])]
   in fst (rzfile s) = ZEOF \<and> map (mem (snd (rzfile s))) [0, 1, 2, 3] = [0x18, 0x11, 0xFF, 0]"
proof -
  let ?s = "started 0x100000 [sent (send_file 0 [[0x18, 0x11], [0xFF]]) (idle [])]"
  have "fst (rzfile ?s) = ZEOF \<and> mem (snd (rzfile ?s)) = put_mem (ZModemRxOffset ?s) (concat [[0x18, 0x11], [0xFF]]) (mem ?s)"
    using rzfile_receives_file [of ?s "[[0x18, 0x11], [0xFF]]" "idle []"]
    by (simp add: started_simps started_procheader started_feeds KSIZE_def zdl_agrees_def)
  then show ?thesis
    by (simp add: started_simps put_mem_def)
qed

text \<open>The size limit binds the announcement only: a file announced within the limit may bring any
  amount of data, and \<open>rzfile\<close> stores all of it, also behind the \<open>ZModemMaxBytes\<close> bytes it was
  given.\<close>

theorem rzfile_ignores_limit:
  assumes "Rxbinary s" "length (secbuf s) = KSIZE + 1" "length (Rxhdr s) = 4"
    and "fst (procheader (s\<lparr>Eofseen := False\<rparr>)) = 0"
    and "cs \<noteq> []" "\<forall>c\<in>set cs. length c \<le> KSIZE"
    and "zdl_agrees (Zctlesc q) (Zctlesc s)" "Znulls q = 0"
    and "feeds (sent (send_file (ZModemRxBytes s) cs) q) s"
    and "ZModemRxOffset s = 0" "unat (ZModemMaxBytes s) < length (concat cs)"
  shows "mem (snd (rzfile s)) (unat (ZModemMaxBytes s)) = concat cs ! unat (ZModemMaxBytes s)"
  using rzfile_transfer [OF assms(1-9)] assms(10,11) by (simp add: put_mem_def)

theorem rzfile_ignores_limit_witness:
  "let s = started 1 [sent (send_file 0 [[0x41, 0x42], [0x43]]) (idle [])] in mem (snd (rzfile s)) 1 = 0x42"
proof -
  let ?s = "started 1 [sent (send_file 0 [[0x41, 0x42], [0x43]]) (idle [])]"
  have "mem (snd (rzfile ?s)) (unat (ZModemMaxBytes ?s)) = concat [[0x41, 0x42], [0x43]] ! unat (ZModemMaxBytes ?s)"
    by (rule rzfile_ignores_limit [of ?s "[[0x41, 0x42], [0x43]]" "idle []"])
      (simp_all add: started_simps started_procheader started_feeds KSIZE_def zdl_agrees_def)
  then show ?thesis
    by (simp add: started_simps)
qed

text \<open>Text mode does not store the text: for \<open>n\<close> ordinary characters the write position of
  \<open>putsec\<close> advances by \<open>n * (n - 1) / 2\<close> bytes, because every character copies the rest of the
  buffer.\<close>

theorem putsec_text_length:
  assumes "Thisbinary s = 0" "\<not> Eofseen s" "n \<le> length buf"
    and "\<forall>c\<in>set (take n buf). c \<noteq> 0x0D \<and> c \<noteq> 0x1A"
  shows "2 * ZModemRxOffset (putsec buf n s) = 2 * ZModemRxOffset s + n * (n - 1)"
  using putsec_text_offset [OF assms(4), of buf s] assms(1-3) by (simp add: putsec_def)

theorem putsec_text_length_witness:
  "let s = (started 9 [])\<lparr>Thisbinary := 0\<rparr>
   in ZModemRxOffset (putsec [0x61, 0x62, 0x63, 0x64] 4 s) = 6"
  using putsec_text_length [of "(started 9 [])\<lparr>Thisbinary := 0\<rparr>" 4 "[0x61, 0x62, 0x63, 0x64]"]
  by (simp add: started_simps started_def zlink.defs zm.defs)

text \<open>C30. The receiver gives up on a silent line: \<open>wcreceive\<close> returns \<open>TIMEOUT\<close> after \<open>attempts\<close>
  announcements, and it has sent nothing else.\<close>

theorem wcreceive_silent_line:
  assumes "rx s = []" "length (Txhdr s) = 4"
  shows "fst (wcreceive attempts maxbytes s) = TIMEOUT
    \<and> tx (snd (wcreceive attempts maxbytes s)) = tx s @ concat (replicate attempts (hex_header ZRINIT [0, 0, 0, 0x27]))"
proof -
  let ?s = "(purgeline (clear_context maxbytes s))\<lparr>Crcflg := (Wcsmask = 0xFF)\<rparr>"
  have s: "silent ?s" "tx ?s = tx s"
    using assms by (simp_all add: silent_def purgeline_def clear_context_def)
  have "fst (tryz attempts ?s) = TIMEOUT \<and> tx (snd (tryz attempts ?s))
      = tx s @ concat (replicate attempts (hex_header ZRINIT [0, 0, 0, 0x27]))"
    unfolding tryz_def using tryz_silent [OF s(1), of attempts] s(2) by simp
  then show ?thesis
    unfolding wcreceive_def Let_def by (cases "tryz attempts ?s") simp
qed

theorem wcreceive_silent_line_witness:
  "fst (wcreceive 15 0x100000 (started 0 [])) = TIMEOUT"
proof -
  have "rx (started 0 []) = []" "length (Txhdr (started 0 [])) = 4"
    by (simp_all add: started_def idle_def zlink.defs zm.defs)
  from wcreceive_silent_line [OF this, of 15 "0x100000"] show ?thesis
    by simp
qed

end
