(* ===== verification/Eeprom.thy ===== *)
theory Eeprom
  imports Crc
begin

text \<open>
  The serial EEPROM and the configuration kept in it (i2c.c, i2c.h, eeprom.c, config.c, config.h).

  \<^item> The I2C controller is hardware: its registers are the parameter \<open>B\<close> of every operation, a
    record of what writing and reading them does to a bus state of any type. Every transaction of
    eeprom.c is then translated register access by register access; delays do nothing.
  \<^item> A \<open>Config\<close> is its object representation, the 32 bytes the program copies to and from the
    EEPROM (\<open>CONFIG_HAS_MAC\<close> and \<open>CONFIG_HAS_MODBUS\<close> as the monitor's Makefile has them; the
    compiler pads after \<open>options\<close> and after \<open>mac_addr\<close>).
  \<^item> The device is a parameter too. What the code relies on is the named hypothesis
    \<open>at24_serves\<close>: the controller carries bytes to a part of the 24C01 family, whose data sheet is
    the step function \<open>at24_byte\<close>. With it the pages written are the pages read, and a saved
    configuration is loaded back.
\<close>

section \<open>The I2C controller (i2c.c)\<close>

record 's i2c_bus =
  set_status :: "u32 \<Rightarrow> 's \<Rightarrow> 's"
  set_tx :: "u32 \<Rightarrow> 's \<Rightarrow> 's"
  get_status :: "'s \<Rightarrow> u32 \<times> 's"
  get_rx :: "'s \<Rightarrow> u32 \<times> 's"

abbreviation (input) I2C_ENABLE :: u32 where "I2C_ENABLE \<equiv> 1"
abbreviation (input) I2C_BUSY :: u32 where "I2C_BUSY \<equiv> 2"
abbreviation (input) I2C_NEED_START :: u32 where "I2C_NEED_START \<equiv> 4"
abbreviation (input) I2C_NEED_STOP :: u32 where "I2C_NEED_STOP \<equiv> 8"
abbreviation (input) I2C_TX_DRIVE :: u32 where "I2C_TX_DRIVE \<equiv> 0x10"
abbreviation (input) I2C_TX_ACK :: u32 where "I2C_TX_ACK \<equiv> 0x20"
abbreviation (input) I2C_RX_ACK :: u32 where "I2C_RX_ACK \<equiv> 0x40"
abbreviation (input) I2C_READ :: u32 where "I2C_READ \<equiv> 1"
abbreviation (input) I2C_WRITE :: u32 where "I2C_WRITE \<equiv> 0"
abbreviation (input) EEPROM_I2C_ADDRESS :: u8 where "EEPROM_I2C_ADDRESS \<equiv> 0x50"
abbreviation (input) I2C_TIMEOUT :: nat where "I2C_TIMEOUT \<equiv> 100000"

definition i2c_xmitData :: "'s i2c_bus \<Rightarrow> u32 \<Rightarrow> u32 \<Rightarrow> 's \<Rightarrow> 's" where
  "i2c_xmitData B data flags s = set_tx B data (set_status B flags s)"

definition i2c_disable :: "'s i2c_bus \<Rightarrow> 's \<Rightarrow> 's" where
  "i2c_disable B s = set_status B 0 s"

primrec i2c_wait_for_busy :: "'s i2c_bus \<Rightarrow> nat \<Rightarrow> 's \<Rightarrow> bool \<times> 's" where
  "i2c_wait_for_busy B 0 s = (False, s)"
| "i2c_wait_for_busy B (Suc n) s =
    (let (st, s1) = get_status B s in
     if st AND I2C_BUSY \<noteq> 0 then (True, s1) else i2c_wait_for_busy B n s1)"

primrec i2c_wait_for_release :: "'s i2c_bus \<Rightarrow> nat \<Rightarrow> 's \<Rightarrow> bool \<times> 's" where
  "i2c_wait_for_release B 0 s = (False, s)"
| "i2c_wait_for_release B (Suc n) s =
    (let (st, s1) = get_status B s in
     if st AND I2C_BUSY = 0 then (True, s1) else i2c_wait_for_release B n s1)"

text \<open>The idiom of every transaction: start the transfer of a byte, wait until the controller has
  become busy, wait until it is released again.\<close>

definition i2c_transfer :: "'s i2c_bus \<Rightarrow> u32 \<Rightarrow> u32 \<Rightarrow> 's \<Rightarrow> bool \<times> 's" where
  "i2c_transfer B data flags s =
    (let (busy, s1) = i2c_wait_for_busy B I2C_TIMEOUT (i2c_xmitData B data flags s) in
     if busy then i2c_wait_for_release B I2C_TIMEOUT s1 else (False, s1))"

text \<open>In the page transactions a timeout switches the controller off; a byte that is sent must
  also be acknowledged, that is leave the bit \<open>RX_ACK\<close> low.\<close>

definition page_transfer :: "'s i2c_bus \<Rightarrow> u32 \<Rightarrow> u32 \<Rightarrow> 's \<Rightarrow> bool \<times> 's" where
  "page_transfer B data flags s =
    (let (ok, s1) = i2c_transfer B data flags s in
     if ok then (True, s1) else (False, i2c_disable B s1))"

definition acked_transfer :: "'s i2c_bus \<Rightarrow> u32 \<Rightarrow> u32 \<Rightarrow> 's \<Rightarrow> bool \<times> 's" where
  "acked_transfer B data flags s =
    (let (ok, s1) = page_transfer B data flags s in
     if ok then
       let (st, s2) = get_status B s1 in
       if st AND I2C_RX_ACK \<noteq> 0 then (False, i2c_disable B s2) else (True, s2)
     else (False, s1))"

section \<open>Page transactions (eeprom.c)\<close>

primrec write_bytes :: "'s i2c_bus \<Rightarrow> u8 list \<Rightarrow> 's \<Rightarrow> bool \<times> 's" where
  "write_bytes B [] s = (True, s)"
| "write_bytes B (x # xs) s =
    (let (ok, s1) = acked_transfer B (ucast x)
           (if xs = [] then I2C_ENABLE OR I2C_TX_DRIVE OR I2C_NEED_STOP
            else I2C_ENABLE OR I2C_TX_DRIVE) s
     in if ok then write_bytes B xs s1 else (False, s1))"

definition device_word :: "u8 \<Rightarrow> u32 \<Rightarrow> u32" where
  "device_word device_addr rw = push_bit 1 (ucast device_addr) OR rw"

definition eeprom_write_page :: "'s i2c_bus \<Rightarrow> u8 \<Rightarrow> u8 \<Rightarrow> u8 list \<Rightarrow> 's \<Rightarrow> int \<times> 's" where
  "eeprom_write_page B device_addr mem_addr data s =
    (let (ok, s1) = acked_transfer B (device_word device_addr I2C_WRITE)
           (I2C_ENABLE OR I2C_TX_DRIVE OR I2C_NEED_START) s in
     if \<not> ok then (-1, s1) else
     let (ok, s2) = acked_transfer B (ucast mem_addr AND 0xFF) (I2C_ENABLE OR I2C_TX_DRIVE) s1 in
     if \<not> ok then (-1, s2) else
     let (ok, s3) = write_bytes B data s2 in
     if \<not> ok then (-1, s3) else (int (length data), s3))"

definition eeprom_poll :: "'s i2c_bus \<Rightarrow> u8 \<Rightarrow> 's \<Rightarrow> int \<times> 's" where
  "eeprom_poll B device_addr s =
    (let (ok, s1) = i2c_transfer B (device_word device_addr I2C_WRITE)
           (I2C_ENABLE OR I2C_TX_DRIVE OR I2C_NEED_START OR I2C_NEED_STOP) s in
     if \<not> ok then (-1, s1)
     else let (st, s2) = get_status B s1 in (if st AND I2C_RX_ACK \<noteq> 0 then 1 else 0, s2))"

text \<open>The loop that clocks bytes in; the result holds the bytes stored before a timeout.\<close>

primrec read_bytes :: "'s i2c_bus \<Rightarrow> nat \<Rightarrow> 's \<Rightarrow> bool \<times> u8 list \<times> 's" where
  "read_bytes B 0 s = (True, [], s)"
| "read_bytes B (Suc n) s =
    (let (ok, s1) = page_transfer B 0xFF
           (if n = 0 then I2C_ENABLE OR I2C_NEED_STOP else I2C_ENABLE OR I2C_TX_ACK) s in
     if \<not> ok then (False, [], s1) else
     let (x, s2) = get_rx B s1; (ok, xs, s3) = read_bytes B n s2 in (ok, ucast x # xs, s3))"

definition eeprom_read_page :: "'s i2c_bus \<Rightarrow> u8 \<Rightarrow> u8 \<Rightarrow> nat \<Rightarrow> 's \<Rightarrow> int \<times> u8 list \<times> 's" where
  "eeprom_read_page B device_addr mem_addr bytes s =
    (let (ok, s1) = acked_transfer B (device_word device_addr I2C_WRITE)
           (I2C_ENABLE OR I2C_TX_DRIVE OR I2C_NEED_START) s in
     if \<not> ok then (-1, [], s1) else
     let (ok, s2) = acked_transfer B (ucast mem_addr AND 0xFF)
           (I2C_ENABLE OR I2C_TX_DRIVE OR I2C_NEED_STOP) s1 in
     if \<not> ok then (-1, [], s2) else
     let (ok, s3) = acked_transfer B (device_word device_addr I2C_READ)
           (I2C_ENABLE OR I2C_TX_DRIVE OR I2C_NEED_START) s2 in
     if \<not> ok then (-1, [], s3) else
     let (ok, xs, s4) = read_bytes B bytes s3 in
     if \<not> ok then (-1, xs, s4) else (int bytes, xs, s4))"

text \<open>Wait for the end of the write cycle: up to \<open>n\<close> polls, a millisecond apart.\<close>

primrec poll_loop :: "'s i2c_bus \<Rightarrow> nat \<Rightarrow> 's \<Rightarrow> bool \<times> 's" where
  "poll_loop B 0 s = (False, s)"
| "poll_loop B (Suc n) s =
    (let (r, s1) = eeprom_poll B EEPROM_I2C_ADDRESS s in
     if r = 0 then (True, s1) else poll_loop B n s1)"

definition eeprom_probe :: "'s i2c_bus \<Rightarrow> 's \<Rightarrow> int \<times> 's" where
  "eeprom_probe B s =
    (let (r, s1) = eeprom_write_page B EEPROM_I2C_ADDRESS (128 - 4) [0xEF, 0xBE, 0xAD, 0xDE] s in
     if r \<noteq> 4 then (-1, s1) else
     let (ok, s2) = poll_loop B 10 s1 in
     if \<not> ok then (-1, s2) else
     let (r, xs, s3) = eeprom_read_page B EEPROM_I2C_ADDRESS (128 - 4) 4 s2 in
     if r \<noteq> 4 then (-1, s3)
     else if ld32 (blit [0, 0, 0, 0] 0 xs) 0 \<noteq> 0xDEADBEEF then (-1, s3) else (0, s3))"

section \<open>The configuration (config.c)\<close>

abbreviation (input) SIZEOF_CONFIG :: nat where "SIZEOF_CONFIG \<equiv> 32"

type_synonym Config = "u8 list"

text \<open>The fields of the structure by offset.\<close>

definition cfg_options :: "Config \<Rightarrow> u8" where "cfg_options c = c ! 0"
definition cfg_ip_addr :: "Config \<Rightarrow> u8 list" where "cfg_ip_addr c = take 4 (drop 4 c)"
definition cfg_gw_addr :: "Config \<Rightarrow> u8 list" where "cfg_gw_addr c = take 4 (drop 8 c)"
definition cfg_netmask :: "Config \<Rightarrow> u8 list" where "cfg_netmask c = take 4 (drop 12 c)"
definition cfg_mac_addr :: "Config \<Rightarrow> u8 list" where "cfg_mac_addr c = take 6 (drop 16 c)"
definition cfg_modbus_addr :: "Config \<Rightarrow> u8" where "cfg_modbus_addr c = c ! 22"
definition cfg_modbus_baud :: "Config \<Rightarrow> u32" where "cfg_modbus_baud c = ld32 c 24"
definition cfg_crc16 :: "Config \<Rightarrow> u16" where "cfg_crc16 c = ld16 c 30"

definition default_config :: Config where
  "default_config = [1, 0, 0, 0, 192, 168, 174, 199, 192, 168, 174, 1, 255, 255, 255, 0,
     0x02, 0x0A, 0x0B, 0x0C, 0x15, 0x94, 1, 0, 0x00, 0xC2, 0x01, 0x00, 0, 0, 0xFF, 0xFF]"

definition page_len :: "nat \<Rightarrow> nat" where
  "page_len i = (if SIZEOF_CONFIG - i * 4 < 4 then SIZEOF_CONFIG - i * 4 else 4)"

primrec load_pages :: "'s i2c_bus \<Rightarrow> nat list \<Rightarrow> Config \<Rightarrow> 's \<Rightarrow> bool \<times> Config \<times> 's" where
  "load_pages B [] c s = (True, c, s)"
| "load_pages B (i # is) c s =
    (let (r, xs, s1) = eeprom_read_page B EEPROM_I2C_ADDRESS (of_nat (i * 4)) (page_len i) s;
         c1 = blit c (i * 4) xs
     in if r \<noteq> int (page_len i) then (False, c1, s1) else load_pages B is c1 s1)"

definition config_load :: "'s i2c_bus \<Rightarrow> Config \<Rightarrow> 's \<Rightarrow> int \<times> Config \<times> 's" where
  "config_load B c s =
    (let (ok, c1, s1) = load_pages B [0 ..< (SIZEOF_CONFIG + 3) div 4] c s in
     if \<not> ok then (-2, c1, s1)
     else if crc16 c1 (of_nat (SIZEOF_CONFIG - 2)) \<noteq> cfg_crc16 c1 then (-3, c1, s1)
     else (0, c1, s1))"

primrec save_pages :: "'s i2c_bus \<Rightarrow> nat list \<Rightarrow> Config \<Rightarrow> 's \<Rightarrow> int \<times> 's" where
  "save_pages B [] c s = (0, s)"
| "save_pages B (i # is) c s =
    (let (r, s1) = eeprom_write_page B EEPROM_I2C_ADDRESS (of_nat (i * 4))
           (take (page_len i) (drop (i * 4) c)) s in
     if r \<noteq> int (page_len i) then (-2, s1) else
     let (ok, s2) = poll_loop B 10 s1 in
     if \<not> ok then (-3, s2) else save_pages B is c s2)"

definition config_seal :: "Config \<Rightarrow> Config" where
  "config_seal c = st16 c 30 (crc16 c (of_nat (SIZEOF_CONFIG - 2)))"

definition config_save :: "'s i2c_bus \<Rightarrow> Config \<Rightarrow> 's \<Rightarrow> int \<times> Config \<times> 's" where
  "config_save B c s =
    (let c1 = config_seal c; (r, s1) = save_pages B [0 ..< (SIZEOF_CONFIG + 3) div 4] c1 s
     in (r, c1, s1))"

text \<open>The idiom of the callers: the stored configuration, or the default one.\<close>

definition config_or_default :: "'s i2c_bus \<Rightarrow> Config \<Rightarrow> 's \<Rightarrow> Config \<times> 's" where
  "config_or_default B c s =
    (let (r, c1, s1) = config_load B c s in (if r < 0 then default_config else c1, s1))"

section \<open>The device\<close>

text \<open>A part of the 24C01 family: 128 bytes, written in pages of eight. A start condition with the
  write address opens a transaction, the next byte sets the address counter, further bytes are
  stored while the counter stays inside the page, and a stop condition starts the write cycle,
  during which the part does not acknowledge its address. A start condition with the read address
  makes it deliver the bytes from the counter on. What the data sheet leaves open is
  \<^term>\<open>None\<close>.\<close>

datatype at24_phase = Idle | Selected | Writing | Reading

record at24 =
  phase :: at24_phase
  counter :: nat
  cells :: "nat \<Rightarrow> u8"
  write_cycle :: nat
  unready :: nat

definition store_cell :: "u8 \<Rightarrow> at24 \<Rightarrow> at24" where
  "store_cell x e = e\<lparr>cells := (cells e)(counter e := x),
     counter := 8 * (counter e div 8) + (counter e + 1) mod 8\<rparr>"

definition next_cell :: "at24 \<Rightarrow> at24" where
  "next_cell e = e\<lparr>counter := (counter e + 1) mod 128\<rparr>"

text \<open>One byte with its flags: whether the part acknowledges, the byte it delivers, and its next
  state.\<close>

definition at24_byte :: "u32 \<Rightarrow> u32 \<Rightarrow> at24 \<Rightarrow> (bool \<times> u8 \<times> at24) option" where
  "at24_byte data flags e =
    (if flags = 0x15 \<and> data = 0xA0 \<and> unready e = 0 then
       Some (True, 0, e\<lparr>phase := Selected\<rparr>)
     else if flags = 0x15 \<and> data = 0xA1 \<and> unready e = 0 then
       Some (True, 0, e\<lparr>phase := Reading\<rparr>)
     else if flags = 0x1D \<and> data = 0xA0 \<and> phase e = Idle then
       Some (unready e = 0, 0, e\<lparr>unready := unready e - 1\<rparr>)
     else if flags = 0x11 \<and> phase e = Selected \<and> data < 128 then
       Some (True, 0, e\<lparr>phase := Writing, counter := unat data\<rparr>)
     else if flags = 0x19 \<and> phase e = Selected \<and> data < 128 then
       Some (True, 0, e\<lparr>phase := Idle, counter := unat data\<rparr>)
     else if flags = 0x11 \<and> phase e = Writing then Some (True, 0, store_cell (ucast data) e)
     else if flags = 0x19 \<and> phase e = Writing then
       Some (True, 0, (store_cell (ucast data) e)\<lparr>phase := Idle, unready := write_cycle e\<rparr>)
     else if flags = 0x21 \<and> phase e = Reading then
       Some (True, cells e (counter e), next_cell e)
     else if flags = 0x09 \<and> phase e = Reading then
       Some (True, cells e (counter e), (next_cell e)\<lparr>phase := Idle\<rparr>)
     else None)"

text \<open>The controller carries a byte to the part: it becomes busy and is released in time, its status
  shows the acknowledge bit, the receive register the byte delivered, and reading registers does
  not disturb the part. \<open>view\<close> is the state of the part seen from the bus.\<close>

definition at24_serves :: "'s i2c_bus \<Rightarrow> ('s \<Rightarrow> at24) \<Rightarrow> bool" where
  "at24_serves B view \<longleftrightarrow> (\<forall>s data flags ack rx e.
     at24_byte data flags (view s) = Some (ack, rx, e) \<longrightarrow>
     (\<exists>s1. i2c_transfer B data flags s = (True, s1) \<and> view s1 = e \<and>
        (fst (get_status B s1) AND I2C_RX_ACK = 0 \<longleftrightarrow> ack) \<and> view (snd (get_status B s1)) = e \<and>
        ucast (fst (get_rx B s1)) = rx \<and> view (snd (get_rx B s1)) = e))"

section \<open>Transactions on a working device\<close>

lemma serves_acked:
  assumes "at24_serves B view" and "at24_byte data flags (view s) = Some (True, rx, e)"
  obtains s' where "acked_transfer B data flags s = (True, s')" "view s' = e"
proof -
  obtain s1 where t: "i2c_transfer B data flags s = (True, s1)"
    "fst (get_status B s1) AND I2C_RX_ACK = 0" "view (snd (get_status B s1)) = e"
    using assms unfolding at24_serves_def by blast
  then have "acked_transfer B data flags s = (True, snd (get_status B s1))"
    by (simp add: acked_transfer_def page_transfer_def case_prod_unfold)
  with t that show ?thesis by blast
qed

lemma serves_read:
  assumes "at24_serves B view" and "at24_byte data flags (view s) = Some (ack, rx, e)"
  obtains s1 v s2 where "page_transfer B data flags s = (True, s1)" "get_rx B s1 = (v, s2)"
    "ucast v = rx" "view s2 = e"
proof -
  obtain s1 where t: "i2c_transfer B data flags s = (True, s1)" "ucast (fst (get_rx B s1)) = rx"
    "view (snd (get_rx B s1)) = e"
    using assms unfolding at24_serves_def by blast
  then have "page_transfer B data flags s = (True, s1)" by (simp add: page_transfer_def)
  with t that show ?thesis by (metis prod.collapse)
qed

lemma serves_poll:
  assumes "at24_serves B view" and "phase (view s) = Idle"
  obtains s' where "eeprom_poll B EEPROM_I2C_ADDRESS s = (if unready (view s) = 0 then 0 else 1, s')"
    "view s' = (view s)\<lparr>unready := unready (view s) - 1\<rparr>"
proof -
  let ?e = "(view s)\<lparr>unready := unready (view s) - 1\<rparr>"
  have "at24_byte 0xA0 0x1D (view s) = Some (unready (view s) = 0, 0, ?e)"
    using assms(2) by (simp add: at24_byte_def)
  then obtain s1 where t: "i2c_transfer B 0xA0 0x1D s = (True, s1)"
    "fst (get_status B s1) AND I2C_RX_ACK = 0 \<longleftrightarrow> unready (view s) = 0"
    "view (snd (get_status B s1)) = ?e"
    using assms(1) unfolding at24_serves_def by blast
  have "eeprom_poll B EEPROM_I2C_ADDRESS s =
      (if unready (view s) = 0 then 0 else 1, snd (get_status B s1))"
    using t by (simp add: eeprom_poll_def device_word_def case_prod_unfold)
  with t that show ?thesis by blast
qed

definition overlay :: "(nat \<Rightarrow> u8) \<Rightarrow> nat \<Rightarrow> u8 list \<Rightarrow> nat \<Rightarrow> u8" where
  "overlay m a xs = (\<lambda>k. if a \<le> k \<and> k < a + length xs then xs ! (k - a) else m k)"

lemma overlay_Nil [simp]: "overlay m a [] = m"
  by (rule ext) (auto simp: overlay_def)

lemma overlay_Cons: "overlay m a (x # xs) = overlay (m(a := x)) (Suc a) xs"
  by (rule ext) (auto simp: overlay_def nth_Cons')

lemma counter_in_page: "(p :: nat) mod 8 + 1 < 8 \<Longrightarrow> 8 * (p div 8) + (p + 1) mod 8 = p + 1"
  by (metis Suc_eq_plus1 add_Suc_right mod_Suc mult_div_mod_eq nat_neq_iff)

lemma write_bytes_spec:
  assumes "at24_serves B view" and "phase (view s) = Writing" and "xs \<noteq> []"
    and "counter (view s) mod 8 + length xs \<le> 8"
  shows "\<exists>s'. write_bytes B xs s = (True, s') \<and> phase (view s') = Idle \<and>
    cells (view s') = overlay (cells (view s)) (counter (view s)) xs \<and>
    unready (view s') = write_cycle (view s) \<and> write_cycle (view s') = write_cycle (view s)"
  using assms(2-)
proof (induction xs arbitrary: s)
  case (Cons x xs)
  let ?e = "store_cell x (view s)"
  have u: "ucast (ucast x :: u32) = x" by (rule bit_word_eqI) (simp add: bit_simps)
  show ?case
  proof (cases "xs = []")
    case True
    have "at24_byte (ucast x) 0x19 (view s) =
        Some (True, 0, ?e\<lparr>phase := Idle, unready := write_cycle ?e\<rparr>)"
      using Cons.prems by (simp add: at24_byte_def u store_cell_def)
    then obtain s' where "acked_transfer B (ucast x) 0x19 s = (True, s')"
      "view s' = ?e\<lparr>phase := Idle, unready := write_cycle ?e\<rparr>"
      using serves_acked [OF assms(1)] by metis
    with True show ?thesis by (simp add: overlay_Cons store_cell_def fun_upd_def)
  next
    case False
    have "at24_byte (ucast x) 0x11 (view s) = Some (True, 0, ?e)"
      using Cons.prems by (simp add: at24_byte_def u)
    then obtain s1 where s1: "acked_transfer B (ucast x) 0x11 s = (True, s1)" "view s1 = ?e"
      using serves_acked [OF assms(1)] by metis
    have len: "length xs \<ge> 1" using False by (cases xs) auto
    then have c: "counter ?e = counter (view s) + 1"
      using Cons.prems(3) counter_in_page [of "counter (view s)"] by (simp add: store_cell_def)
    have "(counter (view s) + 1) mod 8 = counter (view s) mod 8 + 1"
      using Cons.prems(3) len by (simp add: mod_Suc)
    then have "counter (view s1) mod 8 + length xs \<le> 8" using Cons.prems(3) s1 c by simp
    moreover have "phase (view s1) = Writing" using Cons.prems s1 by (simp add: store_cell_def)
    ultimately obtain s' where "write_bytes B xs s1 = (True, s')" "phase (view s') = Idle"
      "cells (view s') = overlay (cells (view s1)) (counter (view s1)) xs"
      "unready (view s') = write_cycle (view s1)" "write_cycle (view s') = write_cycle (view s1)"
      using Cons.IH False by blast
    with False s1 c show ?thesis by (simp add: overlay_Cons store_cell_def)
  qed
qed simp

text \<open>An idle part that is ready and whose write cycle the ten polls outlast.\<close>

definition at_rest :: "at24 \<Rightarrow> bool" where
  "at_rest e \<longleftrightarrow> phase e = Idle \<and> unready e = 0 \<and> write_cycle e \<le> 9"

lemma u8_address: "a < 128 \<Longrightarrow> ucast (of_nat a :: u8) AND 0xFF < (128 :: u32)"
  and unat_u8_address: "a < 128 \<Longrightarrow> unat (ucast (of_nat a :: u8) AND 0xFF :: u32) = a"
proof -
  have m: "(ucast (x :: u8) :: u32) AND 0xFF = ucast x" for x
    by (rule bit_word_eqI) (auto simp: bit_simps byte_mask dest: bit_imp_le_length)
  assume "a < 128"
  then have u: "unat (of_nat a :: u8) = a" by (simp add: unat_of_nat_small)
  then show "unat (ucast (of_nat a :: u8) AND 0xFF :: u32) = a"
    using \<open>a < 128\<close> by (simp add: m unsigned_ucast_eq take_bit_nat_eq_self)
  with \<open>a < 128\<close> show "ucast (of_nat a :: u8) AND 0xFF < (128 :: u32)"
    by (simp add: word_less_nat_alt)
qed

lemma eeprom_write_page_spec:
  assumes B: "at24_serves B view" and ready: "unready (view s) = 0"
    and a: "a < 128" and xs: "xs \<noteq> []" "a mod 8 + length xs \<le> 8"
  obtains s' where "eeprom_write_page B EEPROM_I2C_ADDRESS (of_nat a) xs s = (int (length xs), s')"
    "phase (view s') = Idle" "cells (view s') = overlay (cells (view s)) a xs"
    "unready (view s') = write_cycle (view s)" "write_cycle (view s') = write_cycle (view s)"
proof -
  have "at24_byte 0xA0 0x15 (view s) = Some (True, 0, (view s)\<lparr>phase := Selected\<rparr>)"
    using ready by (simp add: at24_byte_def)
  then obtain s1 where s1: "acked_transfer B 0xA0 0x15 s = (True, s1)"
    "view s1 = (view s)\<lparr>phase := Selected\<rparr>"
    using serves_acked [OF B] by metis
  have "at24_byte (ucast (of_nat a :: u8) AND 0xFF) 0x11 (view s1) =
      Some (True, 0, (view s1)\<lparr>phase := Writing, counter := a\<rparr>)"
    using u8_address [OF a] unat_u8_address [OF a] by (simp add: at24_byte_def s1)
  then obtain s2 where s2: "acked_transfer B (ucast (of_nat a :: u8) AND 0xFF) 0x11 s1 = (True, s2)"
    "view s2 = (view s1)\<lparr>phase := Writing, counter := a\<rparr>"
    using serves_acked [OF B] by metis
  have "phase (view s2) = Writing" "counter (view s2) mod 8 + length xs \<le> 8"
    using xs by (simp_all add: s2)
  from write_bytes_spec [OF B this(1) xs(1) this(2)] obtain s3 where
    "write_bytes B xs s2 = (True, s3)" "phase (view s3) = Idle"
    "cells (view s3) = overlay (cells (view s)) a xs"
    "unready (view s3) = write_cycle (view s)" "write_cycle (view s3) = write_cycle (view s)"
    by (auto simp: s1 s2)
  with s1 s2 that [of s3] show ?thesis
    by (simp add: eeprom_write_page_def device_word_def)
qed

lemma poll_loop_spec:
  assumes "at24_serves B view" and "phase (view s) = Idle" and "unready (view s) < n"
  shows "\<exists>s'. poll_loop B n s = (True, s') \<and> view s' = (view s)\<lparr>unready := 0\<rparr>"
  using assms(2,3)
proof (induction n arbitrary: s)
  case (Suc n)
  obtain s1 where s1: "eeprom_poll B EEPROM_I2C_ADDRESS s = (if unready (view s) = 0 then 0 else 1, s1)"
    "view s1 = (view s)\<lparr>unready := unready (view s) - 1\<rparr>"
    using serves_poll [where B = B and view = view, OF assms(1) Suc.prems(1)] by blast
  show ?case
  proof (cases "unready (view s) = 0")
    case True
    then have "view s1 = (view s)\<lparr>unready := 0\<rparr>" using s1(2) by simp
    with True s1(1) show ?thesis by simp
  next
    case False
    then have "phase (view s1) = Idle" "unready (view s1) < n" using Suc.prems s1(2) by auto
    from Suc.IH [OF this] obtain s' where "poll_loop B n s1 = (True, s')"
      "view s' = (view s1)\<lparr>unready := 0\<rparr>" by blast
    with False s1 show ?thesis by simp
  qed
qed simp

lemma read_bytes_spec:
  assumes "at24_serves B view" and "phase (view s) = Reading" and "0 < n"
    and "counter (view s) + n \<le> 128"
  shows "\<exists>s'. read_bytes B n s =
      (True, map (cells (view s)) [counter (view s) ..< counter (view s) + n], s') \<and>
    phase (view s') = Idle \<and> cells (view s') = cells (view s) \<and>
    unready (view s') = unready (view s) \<and> write_cycle (view s') = write_cycle (view s)"
  using assms(2-)
proof (induction n arbitrary: s)
  case (Suc n)
  show ?case
  proof (cases "n = 0")
    case True
    let ?e = "(next_cell (view s))\<lparr>phase := Idle\<rparr>"
    have "at24_byte 0xFF 0x09 (view s) = Some (True, cells (view s) (counter (view s)), ?e)"
      using Suc.prems by (simp add: at24_byte_def)
    then obtain s1 v s2 where "page_transfer B 0xFF 0x09 s = (True, s1)" "get_rx B s1 = (v, s2)"
      "ucast v = cells (view s) (counter (view s))" "view s2 = ?e"
      using serves_read [OF assms(1)] by metis
    with True show ?thesis by (simp add: next_cell_def)
  next
    case False
    let ?e = "next_cell (view s)"
    have "at24_byte 0xFF 0x21 (view s) = Some (True, cells (view s) (counter (view s)), ?e)"
      using Suc.prems by (simp add: at24_byte_def)
    then obtain s1 v s2 where s2: "page_transfer B 0xFF 0x21 s = (True, s1)" "get_rx B s1 = (v, s2)"
      "ucast v = cells (view s) (counter (view s))" "view s2 = ?e"
      using serves_read [OF assms(1)] by metis
    have c: "counter ?e = counter (view s) + 1" using False Suc.prems by (simp add: next_cell_def)
    have "phase (view s2) = Reading" "counter (view s2) + n \<le> 128"
      using Suc.prems c by (simp_all add: s2 next_cell_def)
    from Suc.IH [OF this(1) _ this(2)] False obtain s' where
      "read_bytes B n s2 = (True, map (cells (view s2)) [counter (view s2) ..< counter (view s2) + n], s')"
      "phase (view s') = Idle" "cells (view s') = cells (view s2)"
      "unready (view s') = unready (view s2)" "write_cycle (view s') = write_cycle (view s2)"
      by blast
    moreover have "[counter (view s) ..< counter (view s) + Suc n] =
        counter (view s) # [counter (view s) + 1 ..< counter (view s) + 1 + n]"
      by (simp add: upt_conv_Cons)
    ultimately show ?thesis using False s2 c by (simp add: next_cell_def del: upt_Suc)
  qed
qed simp

lemma eeprom_read_page_spec:
  assumes B: "at24_serves B view" and ready: "unready (view s) = 0"
    and n: "0 < n" "a + n \<le> 128"
  obtains s' where "eeprom_read_page B EEPROM_I2C_ADDRESS (of_nat a) n s =
      (int n, map (cells (view s)) [a ..< a + n], s')"
    "phase (view s') = Idle" "cells (view s') = cells (view s)"
    "unready (view s') = 0" "write_cycle (view s') = write_cycle (view s)"
proof -
  have a: "a < 128" using n by simp
  have "at24_byte 0xA0 0x15 (view s) = Some (True, 0, (view s)\<lparr>phase := Selected\<rparr>)"
    using ready by (simp add: at24_byte_def)
  then obtain s1 where s1: "acked_transfer B 0xA0 0x15 s = (True, s1)"
    "view s1 = (view s)\<lparr>phase := Selected\<rparr>"
    using serves_acked [OF B] by metis
  have "at24_byte (ucast (of_nat a :: u8) AND 0xFF) 0x19 (view s1) =
      Some (True, 0, (view s1)\<lparr>phase := Idle, counter := a\<rparr>)"
    using u8_address [OF a] unat_u8_address [OF a] by (simp add: at24_byte_def s1)
  then obtain s2 where s2: "acked_transfer B (ucast (of_nat a :: u8) AND 0xFF) 0x19 s1 = (True, s2)"
    "view s2 = (view s1)\<lparr>phase := Idle, counter := a\<rparr>"
    using serves_acked [OF B] by metis
  have "at24_byte 0xA1 0x15 (view s2) = Some (True, 0, (view s2)\<lparr>phase := Reading\<rparr>)"
    using ready by (simp add: at24_byte_def s1 s2)
  then obtain s3 where s3: "acked_transfer B 0xA1 0x15 s2 = (True, s3)"
    "view s3 = (view s2)\<lparr>phase := Reading\<rparr>"
    using serves_acked [OF B] by metis
  have "phase (view s3) = Reading" "counter (view s3) + n \<le> 128"
    using n by (simp_all add: s2 s3)
  from read_bytes_spec [OF B this(1) n(1) this(2)] obtain s4 where
    "read_bytes B n s3 = (True, map (cells (view s)) [a ..< a + n], s4)"
    "phase (view s4) = Idle" "cells (view s4) = cells (view s)"
    "unready (view s4) = 0" "write_cycle (view s4) = write_cycle (view s)"
    using ready by (auto simp: s1 s2 s3)
  with s1 s2 s3 that [of s4] show ?thesis
    by (simp add: eeprom_read_page_def device_word_def)
qed

section \<open>Loading and saving on a working device\<close>

lemma page_len_4 [simp]: "i < 8 \<Longrightarrow> page_len i = 4"
  by (simp add: page_len_def)

lemma in_page: "i * 4 \<le> k \<and> k < i * 4 + 4 \<longleftrightarrow> k div 4 = (i :: nat)"
  by (auto simp: div_nat_eqI)

lemma load_pages_spec:
  assumes "at24_serves B view" and "at_rest (view s)" and "\<forall>i\<in>set is. i < 8" and "length c = 32"
  shows "\<exists>c' s'. load_pages B is c s = (True, c', s') \<and> length c' = 32 \<and> at_rest (view s') \<and>
    cells (view s') = cells (view s) \<and>
    (\<forall>k<32. c' ! k = (if k div 4 \<in> set is then cells (view s) k else c ! k))"
  using assms(2-)
proof (induction "is" arbitrary: c s)
  case (Cons i "is")
  have i: "i < 8" using Cons.prems by simp
  have u: "unready (view s) = 0" "i * 4 + 4 \<le> 128" using Cons.prems i by (auto simp: at_rest_def)
  obtain s1 where s1: "eeprom_read_page B EEPROM_I2C_ADDRESS (of_nat (i * 4)) 4 s =
      (int 4, map (cells (view s)) [i * 4 ..< i * 4 + 4], s1)"
    "phase (view s1) = Idle" "cells (view s1) = cells (view s)" "unready (view s1) = 0"
    "write_cycle (view s1) = write_cycle (view s)"
    by (rule eeprom_read_page_spec [where n = 4, OF assms(1) u(1) _ u(2)]) simp_all
  define c1 where "c1 = blit c (i * 4) (map (cells (view s)) [i * 4 ..< i * 4 + 4])"
  have c1: "length c1 = 32" using i Cons.prems by (simp add: c1_def del: upt_Suc)
  have nth: "c1 ! k = (if k div 4 = i then cells (view s) k else c ! k)" if "k < 32" for k
  proof (cases "k div 4 = i")
    case True
    then have "i * 4 \<le> k" "k < i * 4 + 4" using in_page [of i k] by auto
    with True i Cons.prems show ?thesis
      by (simp add: c1_def nth_blit_in nth_upt del: upt_Suc)
  next
    case False
    then have "k < i * 4 \<or> i * 4 + 4 \<le> k" using in_page [of i k] by auto
    with False i Cons.prems that show ?thesis
      by (simp add: c1_def nth_blit_out del: upt_Suc)
  qed
  have rest: "at_rest (view s1)" using s1 Cons.prems by (simp add: at_rest_def)
  have "\<forall>i\<in>set is. i < 8" using Cons.prems by simp
  from Cons.IH [OF rest this c1] obtain c' s' where "load_pages B is c1 s1 = (True, c', s')"
    "length c' = 32" "at_rest (view s')" "cells (view s') = cells (view s1)"
    "\<forall>k<32. c' ! k = (if k div 4 \<in> set is then cells (view s1) k else c1 ! k)"
    by blast
  with i s1 nth show ?case by (auto simp: c1_def simp del: upt_Suc)
qed simp

lemma save_pages_spec:
  assumes "at24_serves B view" and "at_rest (view s)" and "\<forall>i\<in>set is. i < 8" and "length c = 32"
  shows "\<exists>s'. save_pages B is c s = (0, s') \<and> at_rest (view s') \<and>
    (\<forall>k. cells (view s') k = (if k < 32 \<and> k div 4 \<in> set is then c ! k else cells (view s) k))"
  using assms(2,3)
proof (induction "is" arbitrary: s)
  case (Cons i "is")
  have i: "i < 8" using Cons.prems by simp
  let ?x = "take 4 (drop (i * 4) c)"
  have x: "length ?x = 4" "?x \<noteq> []" using i assms(4) by auto
  have m: "i * 4 mod 8 + length ?x \<le> 8" using x by presburger
  have a: "i * 4 < 128" "unready (view s) = 0" using i Cons.prems by (auto simp: at_rest_def)
  obtain s1 where s1: "eeprom_write_page B EEPROM_I2C_ADDRESS (of_nat (i * 4)) ?x s = (int (length ?x), s1)"
    "phase (view s1) = Idle" "cells (view s1) = overlay (cells (view s)) (i * 4) ?x"
    "unready (view s1) = write_cycle (view s)" "write_cycle (view s1) = write_cycle (view s)"
    by (rule eeprom_write_page_spec [OF assms(1) a(2) a(1) x(2) m])
  have "unready (view s1) < 10" using s1 Cons.prems by (simp add: at_rest_def)
  from poll_loop_spec [OF assms(1) s1(2) this] obtain s2 where
    s2: "poll_loop B 10 s1 = (True, s2)" "view s2 = (view s1)\<lparr>unready := 0\<rparr>"
    by blast
  have cells: "cells (view s2) k = (if k div 4 = i then c ! k else cells (view s) k)" for k
    using in_page [of i k] i x assms(4) by (auto simp: s1 s2 overlay_def)
  have rest: "at_rest (view s2)" using s1 s2 Cons.prems by (simp add: at_rest_def)
  have "\<forall>i\<in>set is. i < 8" using Cons.prems by simp
  from Cons.IH [OF rest this] obtain s' where "save_pages B is c s2 = (0, s')" "at_rest (view s')"
    "\<forall>k. cells (view s') k = (if k < 32 \<and> k div 4 \<in> set is then c ! k else cells (view s2) k)"
    by blast
  moreover have "cells (view s') k =
      (if k < 32 \<and> k div 4 \<in> set (i # is) then c ! k else cells (view s) k)" for k
  proof -
    have "k < 32" if "k div 4 = i" using that i by auto
    with calculation(3) cells [of k] show ?thesis by auto
  qed
  ultimately show ?case using i s1(1) s2(1) x by simp
qed simp

text \<open>The image of a configuration in the first 32 cells.\<close>

definition stored :: "at24 \<Rightarrow> Config" where
  "stored e = map (cells e) [0 ..< 32]"

definition sealed :: "Config \<Rightarrow> bool" where
  "sealed c \<longleftrightarrow> length c = 32 \<and> crc16 c 30 = cfg_crc16 c"

lemma config_load_spec:
  assumes "at24_serves B view" and "at_rest (view s)" and "length c = 32"
  obtains s' where "config_load B c s =
      (if sealed (stored (view s)) then 0 else -3, stored (view s), s')"
    "at_rest (view s')" "cells (view s') = cells (view s)"
proof -
  have "\<forall>i\<in>set [0..<8]. i < (8 :: nat)" by simp
  from load_pages_spec [OF assms(1,2) this assms(3)] obtain c' s' where
    l: "load_pages B [0..<8] c s = (True, c', s')" "length c' = 32" "at_rest (view s')"
    "cells (view s') = cells (view s)"
    "\<forall>k<32. c' ! k = (if k div 4 \<in> set [0..<8] then cells (view s) k else c ! k)"
    by blast
  have "c' = stored (view s)"
    using l(2,5) by (intro nth_equalityI) (auto simp: stored_def simp del: upt_Suc)
  with l that [of s'] show ?thesis
    by (auto simp: config_load_def sealed_def simp del: upt_Suc)
qed

lemma config_seal_sealed:
  assumes "length c = 32"
  shows "sealed (config_seal c)"
proof -
  have "take 30 (st16 c 30 v) = take 30 c" for v by (simp add: st16_def)
  then have "crc16 (st16 c 30 v) 30 = crc16 c 30" for v by (simp add: crc16_def)
  with assms show ?thesis by (simp add: sealed_def config_seal_def cfg_crc16_def)
qed

lemma config_save_spec:
  assumes "at24_serves B view" and "at_rest (view s)" and "length c = 32"
  obtains s' where "config_save B c s = (0, config_seal c, s')" "at_rest (view s')"
    "stored (view s') = config_seal c"
    "\<And>k. 32 \<le> k \<Longrightarrow> cells (view s') k = cells (view s) k"
proof -
  have "\<forall>i\<in>set [0..<8]. i < (8 :: nat)" by simp
  moreover have len: "length (config_seal c) = 32" using assms by (simp add: config_seal_def)
  ultimately obtain s' where p: "save_pages B [0..<8] (config_seal c) s = (0, s')" "at_rest (view s')"
    "\<forall>k. cells (view s') k =
       (if k < 32 \<and> k div 4 \<in> set [0..<8] then config_seal c ! k else cells (view s) k)"
    using save_pages_spec [OF assms(1,2)] by blast
  have "stored (view s') = config_seal c"
    using p(3) len by (intro nth_equalityI) (auto simp: stored_def simp del: upt_Suc)
  with p that [of s'] show ?thesis by (simp add: config_save_def del: upt_Suc)
qed

text \<open>A configuration is sealed when the CRC over all of its bytes, the stored CRC included, is zero.\<close>

lemma no_high_bit: "\<not> bit (a :: u8) (8 + n)"
  by (auto dest: bit_imp_le_length)

lemma crc16_tail_ld16: "crc16_tail v = [a, b] \<longleftrightarrow> v = ucast a OR push_bit 8 (ucast b)"
proof
  assume "crc16_tail v = [a, b]"
  then have "a = ucast v" "b = ucast (drop_bit 8 v)"
    by (auto simp: crc16_tail_def intro!: bit_word_eqI) (auto simp: bit_simps byte_mask)
  then show "v = ucast a OR push_bit 8 (ucast b)" by (simp add: bytes16_join)
next
  assume "v = ucast a OR push_bit 8 (ucast b)"
  then show "crc16_tail v = [a, b]"
    by (auto simp: crc16_tail_def bit_simps byte_mask no_high_bit intro!: bit_word_eqI
      dest: bit_imp_le_length)
qed

lemma sealed_iff:
  assumes "length c = 32"
  shows "sealed c \<longleftrightarrow> foldl crc16_byte 0xFFFF c = 0"
proof -
  obtain a b where ab: "drop 30 c = [a, b]"
    using list_length_2 [of "drop 30 c"] assms by auto
  have "c ! 30 = drop 30 c ! 0" "c ! 31 = drop 30 c ! 1" using assms by simp_all
  then have "drop 30 c = [c ! 30, c ! 31]" by (simp add: ab)
  then have "c = take 30 c @ [c ! 30, c ! 31]" by (metis append_take_drop_id)
  then have "foldl crc16_byte 0xFFFF c =
      foldl crc16_byte 0xFFFF (take 30 c @ [c ! 30, c ! 31])" by simp
  moreover have "foldl crc16_byte 0xFFFF (take 30 c @ [c ! 30, c ! 31]) = 0 \<longleftrightarrow>
      [c ! 30, c ! 31] = crc16_tail (foldl crc16_byte 0xFFFF (take 30 c))"
    by (rule modbus.accept_iff) simp
  moreover have "sealed c \<longleftrightarrow> crc16_tail (foldl crc16_byte 0xFFFF (take 30 c)) = [c ! 30, c ! 31]"
    using assms unfolding crc16_tail_ld16 by (simp add: sealed_def crc16_def cfg_crc16_def ld16_def)
  ultimately show ?thesis by argo
qed

lemma sealed_byte_change:
  assumes "sealed c" and "k < 32" and "v \<noteq> c ! k"
  shows "\<not> sealed (c[k := v])"
proof -
  have len: "length c = 32" using assms by (simp add: sealed_def)
  have c: "c = take k c @ c ! k # drop (Suc k) c" and c': "c[k := v] = take k c @ v # drop (Suc k) c"
    using len assms by (simp_all add: id_take_nth_drop upd_conv_take_nth_drop)
  have "foldl crc16_byte 0xFFFF (take k c @ c ! k # drop (Suc k) c) = 0"
    using assms(1) len by (simp add: sealed_iff flip: c)
  then have "foldl crc16_byte 0xFFFF (take k c @ v # drop (Suc k) c) \<noteq> 0"
    using assms(3) by (intro modbus.single_byte_detected) auto
  then have "foldl crc16_byte 0xFFFF (c[k := v]) \<noteq> 0" by (subst c')
  then show ?thesis using len sealed_iff [of "c[k := v]"] by simp
qed

section \<open>A simulated bus\<close>

text \<open>A controller that is busy for one status read per byte, with a part attached: an instance
  of the hypothesis.\<close>

record sim =
  part :: at24
  flags_reg :: u32
  busy_next :: bool
  nak :: bool
  rx_reg :: u8

definition sim_byte :: "u32 \<Rightarrow> sim \<Rightarrow> sim" where
  "sim_byte data s = (case at24_byte data (flags_reg s) (part s) of
     None \<Rightarrow> s\<lparr>busy_next := True, nak := True\<rparr>
   | Some (ack, rx, e) \<Rightarrow> s\<lparr>part := e, busy_next := True, nak := \<not> ack, rx_reg := rx\<rparr>)"

definition sim_bus :: "sim i2c_bus" where
  "sim_bus = \<lparr>set_status = \<lambda>flags s. s\<lparr>flags_reg := flags\<rparr>, set_tx = sim_byte,
     get_status = \<lambda>s. (if busy_next s then I2C_BUSY else if nak s then I2C_RX_ACK else 0,
       s\<lparr>busy_next := False\<rparr>),
     get_rx = \<lambda>s. (ucast (rx_reg s), s)\<rparr>"

lemma wait_first:
  "0 < n \<Longrightarrow> get_status B s = (st, s1) \<Longrightarrow> st AND I2C_BUSY \<noteq> 0 \<Longrightarrow> i2c_wait_for_busy B n s = (True, s1)"
  "0 < n \<Longrightarrow> get_status B s = (st, s1) \<Longrightarrow> st AND I2C_BUSY = 0 \<Longrightarrow> i2c_wait_for_release B n s = (True, s1)"
  by (cases n; simp)+

lemma sim_transfer:
  "i2c_transfer sim_bus data flags s =
     (True, (sim_byte data (s\<lparr>flags_reg := flags\<rparr>))\<lparr>busy_next := False\<rparr>)"
proof -
  let ?s = "sim_byte data (s\<lparr>flags_reg := flags\<rparr>)"
  have b: "busy_next ?s" by (simp add: sim_byte_def split: option.splits)
  have "i2c_wait_for_busy sim_bus I2C_TIMEOUT ?s = (True, ?s\<lparr>busy_next := False\<rparr>)"
    by (rule wait_first(1) [where st = I2C_BUSY]) (simp_all add: sim_bus_def b)
  moreover have "i2c_wait_for_release sim_bus I2C_TIMEOUT (?s\<lparr>busy_next := False\<rparr>) =
      (True, ?s\<lparr>busy_next := False\<rparr>)"
    by (rule wait_first(2) [where st = "if nak ?s then I2C_RX_ACK else 0"]) (simp_all add: sim_bus_def)
  ultimately show ?thesis by (simp add: i2c_transfer_def i2c_xmitData_def sim_bus_def)
qed

lemma sim_serves: "at24_serves sim_bus part"
proof -
  have "ucast (ucast (x :: u8) :: u32) = x" for x by (rule bit_word_eqI) (simp add: bit_simps)
  then show ?thesis
    by (auto simp: at24_serves_def sim_transfer sim_byte_def) (auto simp: sim_bus_def split: if_splits)
qed

definition demo_part :: at24 where
  "demo_part = \<lparr>phase = Idle, counter = 0, cells = (\<lambda>_. 0xFF), write_cycle = 5, unready = 0\<rparr>"

definition demo_bus :: sim where
  "demo_bus = \<lparr>part = demo_part, flags_reg = 0, busy_next = False, nak = False, rx_reg = 0\<rparr>"

section \<open>Properties\<close>

text \<open>C24. On a bus with a working EEPROM at rest, \<open>config_save\<close> succeeds, and \<open>config_load\<close> into
  any structure then succeeds and yields exactly the saved structure with its CRC filled in; the
  EEPROM is at rest again and its other cells are untouched.\<close>

theorem config_save_load:
  assumes "at24_serves B view" and "at_rest (view s)" and "length c = 32" and "length c0 = 32"
  shows "\<exists>s1 s2. config_save B c s = (0, config_seal c, s1) \<and>
    config_load B c0 s1 = (0, config_seal c, s2) \<and> at_rest (view s2) \<and>
    (\<forall>k\<ge>32. cells (view s2) k = cells (view s) k)"
proof -
  obtain s1 where s1: "config_save B c s = (0, config_seal c, s1)" "at_rest (view s1)"
    "stored (view s1) = config_seal c" "\<And>k. 32 \<le> k \<Longrightarrow> cells (view s1) k = cells (view s) k"
    using config_save_spec [OF assms(1-3)] by metis
  obtain s2 where "config_load B c0 s1 =
      (if sealed (stored (view s1)) then 0 else -3, stored (view s1), s2)"
    "at_rest (view s2)" "cells (view s2) = cells (view s1)"
    using config_load_spec [OF assms(1) s1(2) assms(4)] by metis
  with s1 config_seal_sealed [OF assms(3)] show ?thesis by auto
qed

theorem config_save_load_witness:
  "\<exists>s1 s2. config_save sim_bus default_config demo_bus = (0, config_seal default_config, s1) \<and>
    config_load sim_bus (replicate 32 0) s1 = (0, config_seal default_config, s2) \<and>
    at_rest (part s2) \<and> (\<forall>k\<ge>32. cells (part s2) k = cells (part demo_bus) k)"
  by (rule config_save_load [OF sim_serves])
    (simp_all add: at_rest_def demo_bus_def demo_part_def default_config_def)

text \<open>When any one of the 32 stored bytes of a sealed configuration has changed, \<open>config_load\<close>
  reports a CRC mismatch, and the program runs with \<open>default_config\<close>.\<close>

theorem config_load_detects_change:
  assumes "at24_serves B view" and "at_rest (view s)" and "length c0 = 32"
    and "sealed c" and "k < 32" and "v \<noteq> c ! k" and "stored (view s) = c[k := v]"
  shows "fst (config_load B c0 s) = -3 \<and> fst (config_or_default B c0 s) = default_config"
proof -
  have "\<not> sealed (stored (view s))"
    using sealed_byte_change [OF assms(4-6)] by (simp add: assms(7))
  moreover obtain s' where "config_load B c0 s =
      (if sealed (stored (view s)) then 0 else -3, stored (view s), s')"
    using config_load_spec [OF assms(1-3)] by metis
  ultimately show ?thesis by (simp add: config_or_default_def)
qed

definition worn_bus :: sim where
  "worn_bus = demo_bus\<lparr>part := demo_part\<lparr>cells :=
     (\<lambda>k. if k < 32 then (config_seal default_config)[0 := 0] ! k else 0)\<rparr>\<rparr>"

theorem config_load_detects_change_witness:
  "fst (config_load sim_bus (replicate 32 0) worn_bus) = -3 \<and>
   fst (config_or_default sim_bus (replicate 32 0) worn_bus) = default_config"
proof (rule config_load_detects_change [OF sim_serves])
  show "sealed (config_seal default_config)"
    by (rule config_seal_sealed) (simp add: default_config_def)
  show "(0 :: u8) \<noteq> config_seal default_config ! 0"
    by (simp add: config_seal_def default_config_def)
  show "stored (part worn_bus) = (config_seal default_config)[0 := 0]"
    by (rule nth_equalityI)
      (auto simp: stored_def worn_bus_def config_seal_def default_config_def simp del: upt_Suc)
qed (simp_all add: at_rest_def worn_bus_def demo_part_def)

end
