(* ===== verification/AudioDac.thy ===== *)
theory AudioDac
  imports KPrelude "HOL-Library.Signed_Division"
begin

text \<open>
  The audio DAC driver (audiodac.c, audiodac.h): a ring buffer of 16-bit samples between the
  program, which fills it with \<open>audiodac0_submit_buffer\<close>, and the interrupt handler
  \<open>audiodac0_isr\<close>, which moves samples from it to the command FIFO of the SPI controller.

  \<^item> State: the ring buffer with its two pointers and the counters of the driver, and the
    registers of the controller. The values successive reads of the status register return are
    the list \<open>status_polls\<close> (the hardware drains the FIFO on its own, so they are an input; a read
    behind the end of the list returns zero, a FIFO without room), the commands written to the
    data register are collected in \<open>fifo\<close>.
  \<^item> The pointers are C \<open>int\<close>s that never become negative; they are natural numbers here.
  \<^item> The contract: the pending samples, from the playback to the fill pointer, form a first-in
    first-out queue. Submitting appends to it as long as the caller respects
    \<open>audiodac0_samples_available\<close>, the handler takes samples off its front in order and sends
    exactly these. A caller that submits more loses the whole queue.
\<close>

section \<open>The controller and the driver state\<close>

type_synonym s16 = u16

record dac =
  ring :: "s16 list option"
  ring_size :: nat
  playback :: nat
  fillp :: nat
  fifo_empty :: nat
  buffer_empty :: nat
  status_polls :: "u32 list"
  status_out :: u32
  fifo :: "u32 list"
  mie :: bool

abbreviation (input) STATUS_CMD_INT :: u32 where "STATUS_CMD_INT \<equiv> 0x100"
abbreviation (input) STATUS_CMD_HALF_EMPTY_INT :: u32 where "STATUS_CMD_HALF_EMPTY_INT \<equiv> 0x400"
abbreviation (input) STATUS_CMD_INT_ENABLE :: u32 where "STATUS_CMD_INT_ENABLE \<equiv> 1"
abbreviation (input) STATUS_CMD_INT_HALF_ENABLE :: u32 where "STATUS_CMD_INT_HALF_ENABLE \<equiv> 4"
abbreviation (input) CMD_ENABLE_SS0 :: u32 where "CMD_ENABLE_SS0 \<equiv> 0x11000001"
abbreviation (input) CMD_DISABLE_SS0 :: u32 where "CMD_DISABLE_SS0 \<equiv> 0x10000001"
abbreviation (input) AUDIODAC0_CHANNEL :: u32 where "AUDIODAC0_CHANNEL \<equiv> 0x2000"

definition read_status :: "'a dac_scheme \<Rightarrow> u32 \<times> 'a dac_scheme" where
  "read_status d = (case status_polls d of [] \<Rightarrow> (0, d)
     | v # vs \<Rightarrow> (v, d\<lparr>status_polls := vs\<rparr>))"

definition status_clear :: "u32 \<Rightarrow> 'a dac_scheme \<Rightarrow> 'a dac_scheme" where
  "status_clear bits d = (let (v, d1) = read_status d in d1\<lparr>status_out := v AND NOT bits\<rparr>)"

definition status_set :: "u32 \<Rightarrow> 'a dac_scheme \<Rightarrow> 'a dac_scheme" where
  "status_set bits d = (let (v, d1) = read_status d in d1\<lparr>status_out := v OR bits\<rparr>)"

definition write_data :: "u32 \<Rightarrow> 'a dac_scheme \<Rightarrow> 'a dac_scheme" where
  "write_data v d = d\<lparr>fifo := fifo d @ [v]\<rparr>"

definition get_tx_avail :: "'a dac_scheme \<Rightarrow> nat \<times> 'a dac_scheme" where
  "get_tx_avail d = (let (v, d1) = read_status d in (unat (drop_bit 16 (v AND 0xFFFF0000)), d1))"

subsection \<open>Sending samples\<close>

text \<open>A sample is sign-extended, made unsigned by adding \<open>0x8000\<close>, cut to 12 bits and tagged with
  the channel; each sample takes three FIFO entries.\<close>

definition sample_word :: "s16 \<Rightarrow> u32" where
  "sample_word s = drop_bit 4 (scast s + 0x8000) OR AUDIODAC0_CHANNEL"

definition command_words :: "u32 \<Rightarrow> u32 list" where
  "command_words v = [CMD_ENABLE_SS0, v, CMD_DISABLE_SS0]"

definition send_command :: "u32 \<Rightarrow> 'a dac_scheme \<Rightarrow> 'a dac_scheme" where
  "send_command v d = write_data CMD_DISABLE_SS0 (write_data v (write_data CMD_ENABLE_SS0 d))"

text \<open>The inner loop of \<open>audiodac_xmit\<close>: \<open>len\<close>, the length of the rest of the buffer, shrinks while
  the bound \<open>MIN(avail/3, len)\<close> is compared with \<open>i\<close>.\<close>

fun xmit_burst :: "nat \<Rightarrow> nat \<Rightarrow> s16 list \<Rightarrow> nat \<Rightarrow> 'a dac_scheme \<Rightarrow>
    s16 list \<times> nat \<times> 'a dac_scheme" where
  "xmit_burst i avail [] sent d = ([], sent, d)"
| "xmit_burst i avail (s # buf) sent d =
    (if i < min (avail div 3) (length (s # buf))
     then xmit_burst (i + 1) avail buf (sent + 1) (send_command (sample_word s) d)
     else (s # buf, sent, d))"

lemma xmit_burst_length:
  "length (fst (xmit_burst i avail buf sent d)) \<le> length buf"
  by (induction buf arbitrary: i sent d) (auto intro: le_SucI)

lemma xmit_burst_progress:
  assumes "buf \<noteq> []" and "\<not> avail < 3"
  shows "length (fst (xmit_burst 0 avail buf sent d)) < length buf"
  using assms by (cases buf) (auto simp: less_Suc_eq_le xmit_burst_length)

function xmit_loop :: "s16 list \<Rightarrow> nat \<Rightarrow> 'a dac_scheme \<Rightarrow> nat \<times> 'a dac_scheme" where
  "xmit_loop buf sent d =
    (if buf = [] then (sent, d)
     else let (avail, d1) = get_tx_avail d in
       if avail < 3 then (sent, d1)
       else let (buf1, sent1, d2) = xmit_burst 0 avail buf sent d1 in xmit_loop buf1 sent1 d2)"
  by pat_completeness auto
termination xmit_loop
  by (relation "measure (\<lambda>(buf, _). length buf)")
    (simp, clarsimp, simp add: case_prod_unfold xmit_burst_progress)

declare xmit_loop.simps [simp del]

definition audiodac_xmit :: "s16 list \<Rightarrow> 'a dac_scheme \<Rightarrow> nat \<times> 'a dac_scheme" where
  "audiodac_xmit buf d = xmit_loop buf 0 d"

primrec wait_avail_loop :: "nat \<Rightarrow> nat \<Rightarrow> 'a dac_scheme \<Rightarrow> nat \<times> 'a dac_scheme" where
  "wait_avail_loop min_avail 0 d = (0, d)"
| "wait_avail_loop min_avail (Suc n) d =
    (let (avail, d1) = get_tx_avail d in
     if min_avail \<le> avail then (avail, d1) else wait_avail_loop min_avail n d1)"

definition audiodac_wait_tx_avail :: "nat \<Rightarrow> nat \<Rightarrow> 'a dac_scheme \<Rightarrow> nat \<times> 'a dac_scheme" where
  "audiodac_wait_tx_avail min_avail timeout d = wait_avail_loop min_avail timeout d"

section \<open>The interrupt handler\<close>

text \<open>The samples from \<open>i\<close> on, \<open>n\<close> of them.\<close>

definition ring_slice :: "'a dac_scheme \<Rightarrow> nat \<Rightarrow> nat \<Rightarrow> s16 list" where
  "ring_slice d i n = (case ring d of None \<Rightarrow> [] | Some r \<Rightarrow> take n (drop i r))"

definition isr_underrun :: "nat \<Rightarrow> 'a dac_scheme \<Rightarrow> nat \<times> 'a dac_scheme" where
  "isr_underrun space d =
    (let d1 = d\<lparr>buffer_empty := buffer_empty d + 1\<rparr>;
         (_, d2) = audiodac_xmit (replicate (min space 128) 0x7F7F) d1
     in (0, d2))"

definition isr_send :: "nat \<Rightarrow> 'a dac_scheme \<Rightarrow> nat \<times> 'a dac_scheme" where
  "isr_send space d =
    (if playback d < fillp d
     then audiodac_xmit (ring_slice d (playback d) (min space (fillp d - playback d))) d
     else
       let to_send = min space (ring_size d - playback d);
           (k, d1) = audiodac_xmit (ring_slice d (playback d) to_send) d
       in if k = to_send \<and> space - k > 0 \<and> fillp d1 > 0
          then let (k2, d2) = audiodac_xmit (ring_slice d1 0 (min (space - k) (fillp d1))) d1
               in (k + k2, d2)
          else (k, d1))"

definition isr_advance :: "nat \<times> 'a dac_scheme \<Rightarrow> nat \<times> 'a dac_scheme" where
  "isr_advance r = (case r of (k, d) \<Rightarrow> (k, d\<lparr>playback := (playback d + k) mod ring_size d\<rparr>))"

definition isr_body :: "nat \<Rightarrow> 'a dac_scheme \<Rightarrow> nat \<times> 'a dac_scheme" where
  "isr_body space d =
    (if space < 1 then (0, d)
     else if fillp d = playback d then isr_underrun space d
     else isr_advance (isr_send space d))"

definition audiodac0_isr :: "'a dac_scheme \<Rightarrow> nat \<times> 'a dac_scheme" where
  "audiodac0_isr d =
    (let (st, d1) = read_status d;
         d2 = (if st AND STATUS_CMD_INT \<noteq> 0 then d1\<lparr>fifo_empty := fifo_empty d1 + 1\<rparr> else d1);
         (avail, d3) = get_tx_avail d2;
         (sent, d4) = isr_body (avail div 3) d3
     in (sent, status_clear (STATUS_CMD_INT OR STATUS_CMD_HALF_EMPTY_INT) d4))"

section \<open>Submitting samples\<close>

definition ring_write :: "nat \<Rightarrow> s16 list \<Rightarrow> 'a dac_scheme \<Rightarrow> 'a dac_scheme" where
  "ring_write i xs d = d\<lparr>ring := map_option (\<lambda>r. take i r @ xs @ drop (i + length xs) r) (ring d)\<rparr>"

text \<open>The part of \<open>audiodac0_submit_buffer\<close> that copies, its two branches; the result is
  \<open>processed\<close>.\<close>

definition submit_copy :: "s16 list \<Rightarrow> 'a dac_scheme \<Rightarrow> nat \<times> 'a dac_scheme" where
  "submit_copy buf d =
    (if fillp d \<ge> playback d then
       let low = min (length buf) (ring_size d - fillp d);
           high = length buf - low;
           d1 = ring_write (fillp d) (take low buf) d;
           d2 = d1\<lparr>fillp := (fillp d1 + low) mod ring_size d1\<rparr>;
           high1 = min high (playback d2)
       in if high1 \<noteq> 0
          then (low + high1, (ring_write 0 (take high1 (drop low buf)) d2)\<lparr>fillp := high1\<rparr>)
          else (low, d2)
     else
       let low = min (length buf) (playback d - fillp d - 1);
           d1 = ring_write (fillp d) (take low buf) d
       in (low, d1\<lparr>fillp := fillp d1 + low\<rparr>))"

text \<open>\<open>audio_buffer\<close> is \<^term>\<open>None\<close> for a null pointer, otherwise the \<open>audio_buffer_fill\<close> samples
  it points to.\<close>

definition audiodac0_submit_buffer :: "s16 list option \<Rightarrow> bool \<Rightarrow> 'a dac_scheme \<Rightarrow>
    nat \<times> 'a dac_scheme" where
  "audiodac0_submit_buffer audio_buffer isr_flag d =
    (case audio_buffer of
       None \<Rightarrow> (0, d)
     | Some buf \<Rightarrow>
       if ring d = None \<or> ring_size d = 0 then (0, d)
       else if playback d \<noteq> 0 \<and> fillp d = playback d - 1 then (0, d)
       else
         let d1 = (if isr_flag then d else d\<lparr>mie := False\<rparr>);
             (processed, d2) = submit_copy buf d1;
             (st, d3) = read_status d2;
             d4 = (if st AND STATUS_CMD_INT \<noteq> 0 then snd (audiodac0_isr d3) else d3);
             d5 = (if isr_flag then d4 else d4\<lparr>mie := True\<rparr>)
         in (processed, d5))"

definition audiodac0_samples_filled :: "'a dac_scheme \<Rightarrow> nat" where
  "audiodac0_samples_filled d =
    (if fillp d \<ge> playback d then fillp d - playback d
     else ring_size d - playback d + fillp d)"

definition audiodac0_samples_available :: "'a dac_scheme \<Rightarrow> nat" where
  "audiodac0_samples_available d = ring_size d - audiodac0_samples_filled d - 1"

section \<open>Start, stop, initialisation and the test tone\<close>

definition audiodac0_start_playback :: "s16 list option \<Rightarrow> nat \<Rightarrow> 'a dac_scheme \<Rightarrow> 'a dac_scheme" where
  "audiodac0_start_playback ring_buffer buffer_size d =
    (if ring_buffer = None \<or> buffer_size < 10 then d
     else
       let (_, d1) = get_tx_avail d;
           d2 = status_clear (STATUS_CMD_INT_HALF_ENABLE OR STATUS_CMD_INT_ENABLE) d1;
           d3 = d2\<lparr>ring := ring_buffer, fillp := 0, playback := 0, ring_size := buffer_size\<rparr>;
           (_, d4) = audiodac0_isr d3
       in status_set (STATUS_CMD_INT_HALF_ENABLE OR STATUS_CMD_INT_ENABLE) d4)"

definition audiodac0_stop_playback :: "'a dac_scheme \<Rightarrow> 'a dac_scheme" where
  "audiodac0_stop_playback d = status_clear (STATUS_CMD_INT_HALF_ENABLE OR STATUS_CMD_INT_ENABLE) d"

text \<open>The three configuration words of \<open>audiodac_init\<close>; the register block it fills
  (\<open>audiodac_applyConfig\<close>) has the divider as its only computed value.\<close>

record dac_config =
  config :: u32
  divider :: u32
  ssSetup :: u32
  ssHold :: u32
  ssDisable :: u32

abbreviation (input) SYSTEM_CLOCK_HZ :: int where "SYSTEM_CLOCK_HZ \<equiv> 60000000"

definition audiodac_init :: "int \<Rightarrow> 'a dac_scheme \<Rightarrow> dac_config \<times> 'a dac_scheme" where
  "audiodac_init sample_rate d =
    (\<lparr>config = 2, divider = word_of_int (SYSTEM_CLOCK_HZ sdiv (2 * sample_rate * (16 + 0))),
      ssSetup = 16, ssHold = 16, ssDisable = 16\<rparr>,
     send_command 0xA000 (send_command 0xC000 (send_command 0x8000 d)))"

text \<open>The static saw counter \<open>t\<close> of \<open>audiodac0_isr_test_saw\<close> advances by 64 per sample.\<close>

primrec saw :: "nat \<Rightarrow> s16 \<Rightarrow> s16 list \<times> s16" where
  "saw 0 t = ([], t)"
| "saw (Suc n) t = (let (xs, t1) = saw n (t + 64) in (t # xs, t1))"

lemma xmit_burst_polls:
  "status_polls (snd (snd (xmit_burst i avail buf sent d))) = status_polls d"
  by (induction buf arbitrary: i sent d) (auto simp: send_command_def write_data_def)

lemma get_tx_avail_polls:
  "length (status_polls (snd (get_tx_avail d))) \<le> length (status_polls d)"
  by (auto simp: get_tx_avail_def read_status_def Let_def split: list.splits)

lemma xmit_loop_polls: "length (status_polls (snd (xmit_loop buf sent d))) \<le> length (status_polls d)"
proof (induction buf sent d rule: xmit_loop.induct)
  case (1 buf sent d)
  obtain a d1 where g: "get_tx_avail d = (a, d1)" by (cases "get_tx_avail d")
  obtain b s d2 where x: "xmit_burst 0 a buf sent d1 = (b, s, d2)"
    by (cases "xmit_burst 0 a buf sent d1")
  have "length (status_polls d1) \<le> length (status_polls d)"
    using get_tx_avail_polls [of d] g by simp
  moreover have "status_polls d2 = status_polls d1"
    using xmit_burst_polls [of 0 a buf sent d1] x by simp
  ultimately show ?case
    using 1 g x by (subst xmit_loop.simps) (force intro: le_trans)
qed

lemma get_tx_avail_pops:
  assumes "get_tx_avail d = (a, d1)" and "a \<noteq> 0"
  shows "length (status_polls d1) < length (status_polls d)"
  using assms by (auto simp: get_tx_avail_def read_status_def Let_def split: list.splits)

function isr_saw_loop :: "s16 \<Rightarrow> nat \<Rightarrow> 'a dac_scheme \<Rightarrow> nat \<times> s16 \<times> 'a dac_scheme" where
  "isr_saw_loop t sent d =
    (let (avail, d1) = get_tx_avail d; space = avail div 3 in
     if space > 1 then
       let (xs, t1) = saw (min space 128) t; (k, d2) = audiodac_xmit xs d1
       in isr_saw_loop t1 (sent + k) d2
     else (sent, t, d1))"
  by pat_completeness auto
termination isr_saw_loop
proof (relation "measure (\<lambda>(_, _, d). length (status_polls d))", simp, clarsimp)
  fix d :: "'a dac_scheme" and a d1 xs k d2
  assume a: "(a, d1) = get_tx_avail d" "Suc 0 < a div 3" and x: "(k, d2) = audiodac_xmit xs d1"
  have "length (status_polls d1) < length (status_polls d)"
    using a by (intro get_tx_avail_pops) (auto intro: sym)
  moreover have "length (status_polls d2) \<le> length (status_polls d1)"
    using xmit_loop_polls [of xs 0 d1] x [unfolded audiodac_xmit_def, symmetric] by simp
  ultimately show "length (status_polls d2) < length (status_polls d)" by simp
qed

declare isr_saw_loop.simps [simp del]

definition audiodac0_isr_test_saw :: "s16 \<Rightarrow> 'a dac_scheme \<Rightarrow> nat \<times> s16 \<times> 'a dac_scheme" where
  "audiodac0_isr_test_saw t d =
    (let (st, d1) = read_status d;
         d2 = (if st AND STATUS_CMD_INT \<noteq> 0 then d1\<lparr>fifo_empty := fifo_empty d1 + 1\<rparr> else d1)
     in isr_saw_loop t 0 d2)"

section \<open>What is sent\<close>

definition play_words :: "s16 list \<Rightarrow> u32 list" where
  "play_words xs = concat (map (\<lambda>s. command_words (sample_word s)) xs)"

lemma play_words_simps [simp]:
  "play_words [] = []"
  "play_words (x # xs) = command_words (sample_word x) @ play_words xs"
  "play_words (xs @ ys) = play_words xs @ play_words ys"
  by (simp_all add: play_words_def)

lemma send_command_eq: "send_command v d = d\<lparr>fifo := fifo d @ command_words v\<rparr>"
  by (simp add: send_command_def write_data_def command_words_def)

lemma get_tx_avail_frame: "\<exists>ps. snd (get_tx_avail d) = d\<lparr>status_polls := ps\<rparr>"
  by (cases "status_polls d")
    (auto simp: get_tx_avail_def read_status_def intro: exI [of _ "status_polls d"])

lemma read_status_frame: "\<exists>ps. snd (read_status d) = d\<lparr>status_polls := ps\<rparr>"
  by (cases "status_polls d") (auto simp: read_status_def intro: exI [of _ "status_polls d"])

lemma xmit_burst_spec:
  "\<exists>k\<le>length buf. xmit_burst i avail buf sent d =
     (drop k buf, sent + k, d\<lparr>fifo := fifo d @ play_words (take k buf)\<rparr>)"
proof (induction buf arbitrary: i sent d)
  case (Cons s buf)
  show ?case
  proof (cases "i < min (avail div 3) (length (s # buf))")
    case True
    obtain k where "k \<le> length buf"
      "xmit_burst (i + 1) avail buf (sent + 1) (send_command (sample_word s) d) =
       (drop k buf, sent + 1 + k, (send_command (sample_word s) d)
         \<lparr>fifo := fifo (send_command (sample_word s) d) @ play_words (take k buf)\<rparr>)"
      using Cons.IH by blast
    with True show ?thesis by (intro exI [of _ "Suc k"]) (simp add: send_command_eq)
  qed (auto intro!: exI [of _ 0])
qed simp

text \<open>Whatever the FIFO answers, a prefix of the buffer is sent and counted.\<close>

lemma xmit_loop_spec:
  "\<exists>k ps. k \<le> length buf \<and> xmit_loop buf sent d =
     (sent + k, d\<lparr>fifo := fifo d @ play_words (take k buf), status_polls := ps\<rparr>)"
proof (induction buf sent d rule: xmit_loop.induct)
  case (1 buf sent d)
  obtain a d1 where g: "get_tx_avail d = (a, d1)" by (cases "get_tx_avail d")
  obtain ps where d1: "d1 = d\<lparr>status_polls := ps\<rparr>" using get_tx_avail_frame [of d] g by auto
  consider "buf = []" | "buf \<noteq> []" "a < 3" | "buf \<noteq> []" "\<not> a < 3" by blast
  then show ?case
  proof cases
    case 1
    then show ?thesis by (auto simp: xmit_loop.simps intro: exI [of _ "status_polls d"])
  next
    case 2
    then show ?thesis
      by (intro exI [of _ 0] exI [of _ ps]) (simp add: xmit_loop.simps [of buf] g d1)
  next
    case 3
    obtain k where k: "k \<le> length buf" and x: "xmit_burst 0 a buf sent d1 =
        (drop k buf, sent + k, d1\<lparr>fifo := fifo d1 @ play_words (take k buf)\<rparr>)"
      using xmit_burst_spec by blast
    obtain m qs where m: "m \<le> length (drop k buf)" and r:
      "xmit_loop (drop k buf) (sent + k) (d1\<lparr>fifo := fifo d1 @ play_words (take k buf)\<rparr>) =
       (sent + k + m, d1\<lparr>fifo := fifo d1 @ play_words (take k buf) @ play_words (take m (drop k buf)),
          status_polls := qs\<rparr>)"
      using "1.IH" [OF 3(1) g [symmetric] refl 3(2) x [symmetric] refl refl] by auto
    have "xmit_loop buf sent d = (sent + (k + m),
        d\<lparr>fifo := fifo d @ play_words (take (k + m) buf), status_polls := qs\<rparr>)"
      using 3 r by (simp add: xmit_loop.simps [of buf] g x [unfolded d1] d1 take_add)
    with k m show ?thesis by (metis length_drop le_diff_conv2 add.commute)
  qed
qed

lemma audiodac_xmit_spec:
  obtains k ps where "k \<le> length buf"
    and "audiodac_xmit buf d =
      (k, d\<lparr>fifo := fifo d @ play_words (take k buf), status_polls := ps\<rparr>)"
  using xmit_loop_spec [of buf 0 d] that by (auto simp: audiodac_xmit_def)

section \<open>The queue of pending samples\<close>

definition pending :: "'a dac_scheme \<Rightarrow> s16 list" where
  "pending d = (if playback d \<le> fillp d then ring_slice d (playback d) (fillp d - playback d)
     else ring_slice d (playback d) (ring_size d - playback d) @ ring_slice d 0 (fillp d))"

text \<open>The invariant of the driver once playback has been started.\<close>

definition dac_ok :: "'a dac_scheme \<Rightarrow> bool" where
  "dac_ok d \<longleftrightarrow> ring d \<noteq> None \<and> ring_size d \<le> length (the (ring d)) \<and>
     playback d < ring_size d \<and> fillp d < ring_size d"

lemma dac_okE:
  assumes "dac_ok d"
  obtains r where "ring d = Some r" "ring_size d \<le> length r" "playback d < ring_size d"
    "fillp d < ring_size d"
  using assms by (auto simp: dac_ok_def)

lemma dac_ok_update [simp]:
  "dac_ok (d\<lparr>status_polls := ps\<rparr>) = dac_ok d" "dac_ok (d\<lparr>fifo := ws\<rparr>) = dac_ok d"
  "dac_ok (d\<lparr>fifo_empty := n\<rparr>) = dac_ok d" "dac_ok (d\<lparr>buffer_empty := n\<rparr>) = dac_ok d"
  "dac_ok (d\<lparr>mie := b\<rparr>) = dac_ok d" "dac_ok (d\<lparr>status_out := v\<rparr>) = dac_ok d"
  by (simp_all add: dac_ok_def)

lemma pending_update [simp]:
  "pending (d\<lparr>status_polls := ps\<rparr>) = pending d" "pending (d\<lparr>fifo := ws\<rparr>) = pending d"
  "pending (d\<lparr>fifo_empty := n\<rparr>) = pending d" "pending (d\<lparr>buffer_empty := n\<rparr>) = pending d"
  "pending (d\<lparr>mie := b\<rparr>) = pending d" "pending (d\<lparr>status_out := v\<rparr>) = pending d"
  by (simp_all add: pending_def ring_slice_def)

lemma length_pending:
  assumes "dac_ok d"
  shows "length (pending d) = audiodac0_samples_filled d"
  using assms by (elim dac_okE) (auto simp: pending_def ring_slice_def audiodac0_samples_filled_def)

lemma pending_empty:
  assumes "dac_ok d"
  shows "pending d = [] \<longleftrightarrow> fillp d = playback d"
  using assms by (elim dac_okE) (auto simp: pending_def ring_slice_def)

lemma pending_cong:
  assumes "ring d = ring d'" "ring_size d = ring_size d'" "playback d = playback d'" "fillp d = fillp d'"
  shows "pending d = pending d'"
  using assms by (simp add: pending_def ring_slice_def)

lemma dac_ok_cong:
  assumes "ring d = ring d'" "ring_size d = ring_size d'" "playback d = playback d'" "fillp d = fillp d'"
  shows "dac_ok d = dac_ok d'"
  using assms by (simp add: dac_ok_def)

subsection \<open>The handler takes samples off the front\<close>

lemma pending_advance:
  assumes ok: "dac_ok d" and k: "k \<le> length (pending d)"
  shows "pending (d\<lparr>playback := (playback d + k) mod ring_size d\<rparr>) = drop k (pending d)"
    and "dac_ok (d\<lparr>playback := (playback d + k) mod ring_size d\<rparr>)"
proof -
  obtain r where r: "ring d = Some r" "ring_size d \<le> length r" "playback d < ring_size d"
    "fillp d < ring_size d" using ok by (rule dac_okE)
  show "dac_ok (d\<lparr>playback := (playback d + k) mod ring_size d\<rparr>)"
    using r by (simp add: dac_ok_def)
  consider "playback d \<le> fillp d" | "fillp d < playback d" "playback d + k < ring_size d"
    | "fillp d < playback d" "ring_size d \<le> playback d + k" by linarith
  then show "pending (d\<lparr>playback := (playback d + k) mod ring_size d\<rparr>) = drop k (pending d)"
  proof cases
    case 1
    then have "playback d + k \<le> fillp d" using k r by (simp add: pending_def ring_slice_def)
    with 1 r show ?thesis
      by (simp add: pending_def ring_slice_def drop_take add.commute diff_diff_add)
  next
    case 2
    with r show ?thesis
      by (simp add: pending_def ring_slice_def drop_take add.commute diff_diff_add)
  next
    case 3
    have "k \<le> ring_size d - playback d + fillp d" using 3 k r
      by (simp add: pending_def ring_slice_def)
    then have le: "playback d + k - ring_size d \<le> fillp d" using 3 r by linarith
    have "(playback d + k) mod ring_size d = playback d + k - ring_size d"
      using 3 r le by (simp add: mod_if)
    with 3 r le show ?thesis
      by (simp add: pending_def ring_slice_def drop_take add.commute)
  qed
qed

lemma ring_slice_prefix:
  assumes "k \<le> length (ring_slice d i n)" and "n \<le> m"
  shows "take k (ring_slice d i n) = take k (ring_slice d i m)"
    and "k \<le> length (ring_slice d i m)"
  using assms by (auto simp: ring_slice_def min_absorb1 split: option.splits)

lemma isr_send_spec:
  assumes ok: "dac_ok d" and ne: "fillp d \<noteq> playback d"
  obtains k ps where "k \<le> length (pending d)"
    and "isr_send space d =
      (k, d\<lparr>fifo := fifo d @ play_words (take k (pending d)), status_polls := ps\<rparr>)"
proof -
  obtain r where r: "ring d = Some r" "ring_size d \<le> length r" "playback d < ring_size d"
    "fillp d < ring_size d" using ok by (rule dac_okE)
  show ?thesis
  proof (cases "playback d < fillp d")
    case True
    let ?b = "ring_slice d (playback d) (min space (fillp d - playback d))"
    obtain k ps where x: "k \<le> length ?b"
      "audiodac_xmit ?b d = (k, d\<lparr>fifo := fifo d @ play_words (take k ?b), status_polls := ps\<rparr>)"
      by (rule audiodac_xmit_spec)
    have "take k ?b = take k (pending d)" "k \<le> length (pending d)"
      using ring_slice_prefix [OF x(1), of "fillp d - playback d"] True by (simp_all add: pending_def)
    with True x(2) that show ?thesis by (simp add: isr_send_def)
  next
    case False
    let ?n = "min space (ring_size d - playback d)"
    let ?b = "ring_slice d (playback d) ?n"
    obtain k ps where x: "k \<le> length ?b"
      "audiodac_xmit ?b d = (k, d\<lparr>fifo := fifo d @ play_words (take k ?b), status_polls := ps\<rparr>)"
      by (rule audiodac_xmit_spec)
    have p: "pending d = ring_slice d (playback d) (ring_size d - playback d) @ ring_slice d 0 (fillp d)"
      using False ne by (simp add: pending_def)
    have t: "take k ?b = take k (pending d)" and kl: "k \<le> length (pending d)"
      using x(1) r by (auto simp: p ring_slice_def)
    show ?thesis
    proof (cases "k = ?n \<and> space - k > 0 \<and> fillp d > 0")
      case False2: False
      have "isr_send space d =
          (k, d\<lparr>fifo := fifo d @ play_words (take k (pending d)), status_polls := ps\<rparr>)"
        using False False2 x(2) t by (auto simp: isr_send_def Let_def)
      with kl that show ?thesis by blast
    next
      case True
      define d1 where "d1 = d\<lparr>fifo := fifo d @ play_words (take k ?b), status_polls := ps\<rparr>"
      let ?c = "ring_slice d1 0 (min (space - k) (fillp d1))"
      obtain m qs where y: "m \<le> length ?c"
        "audiodac_xmit ?c d1 = (m, d1\<lparr>fifo := fifo d1 @ play_words (take m ?c), status_polls := qs\<rparr>)"
        by (rule audiodac_xmit_spec)
      have k: "k = ring_size d - playback d" using True by auto
      have m: "m \<le> fillp d" "m \<le> space - k"
        using y(1) by (auto simp: d1_def ring_slice_def split: option.splits)
      have tm: "take m ?c = take m (ring_slice d 0 (fillp d))"
        using m by (simp add: d1_def ring_slice_def r)
      have lA: "length (ring_slice d (playback d) (ring_size d - playback d)) = k"
        using k r by (simp add: ring_slice_def)
      have tk: "take (k + m) (pending d) = take k (pending d) @ take m ?c"
        by (simp add: p lA tm)
      have d1f: "fifo d1 = fifo d @ play_words (take k (pending d))" "fillp d1 = fillp d"
        by (simp_all only: d1_def t) simp_all
      have "isr_send space d = (k + m, d1\<lparr>fifo := fifo d1 @ play_words (take m ?c), status_polls := qs\<rparr>)"
        using False True x(2) y(2) d1_def by (simp add: isr_send_def Let_def)
      also have "\<dots> = (k + m,
          d\<lparr>fifo := fifo d @ play_words (take (k + m) (pending d)), status_polls := qs\<rparr>)"
        unfolding tk d1f play_words_simps by (simp add: d1_def)
      finally have "isr_send space d = \<dots>" .
      moreover have "k + m \<le> length (pending d)" using m r by (simp add: p lA) (simp add: ring_slice_def)
      ultimately show ?thesis using that by blast
    qed
  qed
qed

lemma status_clear_frame:
  "\<exists>ps v. status_clear b d = d\<lparr>status_polls := ps, status_out := v\<rparr>"
proof -
  obtain v d1 where r: "read_status d = (v, d1)" by (cases "read_status d")
  then obtain ps where "d1 = d\<lparr>status_polls := ps\<rparr>" using read_status_frame [of d] by auto
  with r have "status_clear b d = d\<lparr>status_polls := ps, status_out := v AND NOT b\<rparr>"
    by (simp add: status_clear_def)
  then show ?thesis by blast
qed

text \<open>What the handler sends for the queue \<open>q\<close>: a prefix of it, or silence when it is empty.\<close>

definition sends :: "s16 list \<Rightarrow> nat \<Rightarrow> u32 list \<Rightarrow> bool" where
  "sends q k out \<longleftrightarrow> k \<le> length q \<and>
     (\<exists>m\<le>128. out = play_words (take k q @ replicate m 0x7F7F) \<and> (q \<noteq> [] \<longrightarrow> m = 0))"

lemma isr_body_spec:
  assumes ok: "dac_ok d"
  obtains k out d' where "isr_body space d = (k, d')" "sends (pending d) k out"
    "fifo d' = fifo d @ out" "dac_ok d'" "pending d' = drop k (pending d)" "mie d' = mie d"
proof -
  consider "space < 1" | "\<not> space < 1" "fillp d = playback d" | "\<not> space < 1" "fillp d \<noteq> playback d"
    by blast
  then show ?thesis
  proof cases
    case 1
    have "sends (pending d) 0 []" by (auto simp: sends_def intro: exI [of _ 0])
    with 1 ok that [of 0 d "[]"] show ?thesis by (simp add: isr_body_def)
  next
    case 2
    let ?b = "replicate (min space 128) (0x7F7F :: s16)"
    let ?d = "d\<lparr>buffer_empty := buffer_empty d + 1\<rparr>"
    obtain k ps where k: "k \<le> length ?b" and
      x: "audiodac_xmit ?b ?d = (k, ?d\<lparr>fifo := fifo ?d @ play_words (take k ?b), status_polls := ps\<rparr>)"
      by (rule audiodac_xmit_spec)
    have "sends (pending d) 0 (play_words (take k ?b))"
      using 2 ok k by (auto simp: sends_def pending_empty [symmetric] min_absorb1 intro!: exI [of _ k])
    with 2 ok x that [of 0 _ "play_words (take k ?b)"] show ?thesis
      by (simp add: isr_body_def isr_underrun_def)
  next
    case 3
    obtain k ps where k: "k \<le> length (pending d)" and x: "isr_send space d =
        (k, d\<lparr>fifo := fifo d @ play_words (take k (pending d)), status_polls := ps\<rparr>)"
      using isr_send_spec [OF ok 3(2)] by blast
    have "sends (pending d) k (play_words (take k (pending d)))"
      using 3 ok k by (auto simp: sends_def pending_empty intro!: exI [of _ 0])
    moreover define d' where "d' = d\<lparr>fifo := fifo d @ play_words (take k (pending d)),
        status_polls := ps, playback := (playback d + k) mod ring_size d\<rparr>"
    moreover have "isr_body space d = (k, d')"
      using 3 x by (simp add: isr_body_def isr_advance_def d'_def)
    moreover have "dac_ok d'" "pending d' = drop k (pending d)"
      using pending_advance [OF ok k]
        dac_ok_cong [of d' "d\<lparr>playback := (playback d + k) mod ring_size d\<rparr>"]
        pending_cong [of d' "d\<lparr>playback := (playback d + k) mod ring_size d\<rparr>"]
      by (simp_all add: d'_def)
    ultimately show ?thesis using that [of k d' "play_words (take k (pending d))"] by simp
  qed
qed

lemma isr_spec:
  assumes ok: "dac_ok d"
  obtains k out d' where "audiodac0_isr d = (k, d')" "sends (pending d) k out"
    "fifo d' = fifo d @ out" "dac_ok d'" "pending d' = drop k (pending d)" "mie d' = mie d"
proof -
  obtain st d1 where r: "read_status d = (st, d1)" by (cases "read_status d")
  obtain ps where d1: "d1 = d\<lparr>status_polls := ps\<rparr>" using read_status_frame [of d] r by auto
  define d2 where
    "d2 = (if st AND STATUS_CMD_INT \<noteq> 0 then d1\<lparr>fifo_empty := fifo_empty d1 + 1\<rparr> else d1)"
  obtain a d3 where g: "get_tx_avail d2 = (a, d3)" by (cases "get_tx_avail d2")
  obtain qs where d3: "d3 = d2\<lparr>status_polls := qs\<rparr>" using get_tx_avail_frame [of d2] g by auto
  have eq: "dac_ok d3" "pending d3 = pending d" "fifo d3 = fifo d" "mie d3 = mie d"
    using ok by (simp_all add: d3 d2_def d1)
  obtain k out d4 where b: "isr_body (a div 3) d3 = (k, d4)" "sends (pending d) k out"
    "fifo d4 = fifo d @ out" "dac_ok d4" "pending d4 = drop k (pending d)" "mie d4 = mie d"
    using isr_body_spec [OF eq(1)] eq by metis
  obtain rs v where c: "status_clear (STATUS_CMD_INT OR STATUS_CMD_HALF_EMPTY_INT) d4 =
      d4\<lparr>status_polls := rs, status_out := v\<rparr>"
    using status_clear_frame by blast
  have "audiodac0_isr d = (k, d4\<lparr>status_polls := rs, status_out := v\<rparr>)"
    using r g b(1) c by (simp add: audiodac0_isr_def d2_def)
  then show ?thesis using that [of k _ out] b by simp
qed

subsection \<open>Submitting appends at the back\<close>

lemma submit_copy_spec:
  assumes ok: "dac_ok d" and fits: "length buf \<le> audiodac0_samples_available d"
  shows "\<exists>d'. submit_copy buf d = (length buf, d') \<and> dac_ok d' \<and> pending d' = pending d @ buf \<and>
    fifo d' = fifo d \<and> mie d' = mie d"
proof -
  obtain r where r: "ring d = Some r" "ring_size d \<le> length r" "playback d < ring_size d"
    "fillp d < ring_size d" using ok by (rule dac_okE)
  consider "playback d \<le> fillp d" "length buf < ring_size d - fillp d"
    | "playback d \<le> fillp d" "ring_size d - fillp d \<le> length buf"
    | "fillp d < playback d" by linarith
  then show ?thesis
  proof cases
    case 1
    then show ?thesis using r
      by (simp add: submit_copy_def Let_def ring_write_def dac_ok_def pending_def ring_slice_def
        drop_take less_diff_conv add.commute)
  next
    case 2
    define low where "low = ring_size d - fillp d"
    have n: "length buf - low < playback d"
      using 2 r fits by (auto simp: low_def audiodac0_samples_available_def audiodac0_samples_filled_def)
    have low: "min (length buf) (ring_size d - fillp d) = low" "(fillp d + low) mod ring_size d = 0"
      "min (length buf - low) (playback d) = length buf - low" "fillp d + low = ring_size d"
      "low \<le> length buf"
      using 2 r n by (auto simp: low_def)
    show ?thesis
    proof (cases "length buf = low")
      case True
      then show ?thesis using 2 r n low
        by (auto simp: submit_copy_def Let_def ring_write_def dac_ok_def pending_def ring_slice_def
          drop_take)
    next
      case False
      then show ?thesis using 2 r n low
        by (auto simp: submit_copy_def Let_def ring_write_def dac_ok_def pending_def ring_slice_def
          drop_take)
    qed
  next
    case 3
    have n: "length buf < playback d - fillp d"
      using 3 r fits by (auto simp: audiodac0_samples_available_def audiodac0_samples_filled_def)
    then have "\<not> playback d \<le> fillp d + length buf" using 3 by simp
    with n show ?thesis using 3 r
      by (simp add: submit_copy_def Let_def ring_write_def dac_ok_def pending_def ring_slice_def)
  qed
qed

lemma submit_full:
  assumes "dac_ok d"
  shows "playback d \<noteq> 0 \<and> fillp d = playback d - 1 \<Longrightarrow> audiodac0_samples_available d = 0"
  using assms by (elim dac_okE) (auto simp: audiodac0_samples_available_def audiodac0_samples_filled_def)

lemma submit_spec:
  assumes ok: "dac_ok d" and fits: "length buf \<le> audiodac0_samples_available d"
  obtains d' k out where "audiodac0_submit_buffer (Some buf) isr d = (length buf, d')"
    "dac_ok d'" "sends (pending d @ buf) k out" "fifo d' = fifo d @ out"
    "pending d' = drop k (pending d @ buf)"
proof -
  have none: "sends q 0 []" for q by (auto simp: sends_def intro: exI [of _ 0])
  obtain r where r: "ring d = Some r" "playback d < ring_size d" using ok by (rule dac_okE)
  show ?thesis
  proof (cases "playback d \<noteq> 0 \<and> fillp d = playback d - 1")
    case True
    then have "buf = []" using fits submit_full [OF ok] by simp
    with True r ok none that [of d 0 "[]"] show ?thesis
      by (simp add: audiodac0_submit_buffer_def)
  next
    case False
    define d1 where "d1 = (if isr then d else d\<lparr>mie := False\<rparr>)"
    have d1: "dac_ok d1" "pending d1 = pending d" "fifo d1 = fifo d"
      "length buf \<le> audiodac0_samples_available d1"
      using ok fits
      by (auto simp: d1_def audiodac0_samples_available_def audiodac0_samples_filled_def)
    obtain d2 where d2: "submit_copy buf d1 = (length buf, d2)" "dac_ok d2"
      "pending d2 = pending d @ buf" "fifo d2 = fifo d"
      using submit_copy_spec [OF d1(1,4)] d1 by auto
    obtain st d3 where st: "read_status d2 = (st, d3)" by (cases "read_status d2")
    obtain ps where d3: "d3 = d2\<lparr>status_polls := ps\<rparr>" using read_status_frame [of d2] st by auto
    have ok3: "dac_ok d3" using d2 by (simp add: d3)
    obtain k out d4 where i: "audiodac0_isr d3 = (k, d4)" "sends (pending d @ buf) k out"
      "fifo d4 = fifo d @ out" "dac_ok d4" "pending d4 = drop k (pending d @ buf)"
      using isr_spec [OF ok3] d2 d3 by simp metis
    have eq: "audiodac0_submit_buffer (Some buf) isr d = (length buf,
        (let d4 = (if st AND STATUS_CMD_INT \<noteq> 0 then d4 else d3)
         in if isr then d4 else d4\<lparr>mie := True\<rparr>))"
      using False r d2(1) st i(1) by (auto simp: audiodac0_submit_buffer_def d1_def Let_def)
    show ?thesis
    proof (cases "st AND STATUS_CMD_INT \<noteq> 0")
      case True
      with eq i that [of _ k out] show ?thesis by (cases isr) simp_all
    next
      case False
      with eq d2 d3 none that [of _ 0 "[]"] show ?thesis by (cases isr) simp_all
    qed
  qed
qed

section \<open>Interleavings of the program and the interrupt handler\<close>

text \<open>The program submits, the hardware raises interrupts; each interrupt finds its own sequence of
  answers in the status register.\<close>

datatype dac_event = Submit "s16 list" | Irq "u32 list"

primrec dac_step :: "dac_event \<Rightarrow> 'a dac_scheme \<Rightarrow> 'a dac_scheme" where
  "dac_step (Submit buf) d = snd (audiodac0_submit_buffer (Some buf) False d)"
| "dac_step (Irq polls) d = snd (audiodac0_isr (d\<lparr>status_polls := polls\<rparr>))"

definition dac_run :: "dac_event list \<Rightarrow> 'a dac_scheme \<Rightarrow> 'a dac_scheme" where
  "dac_run es d = fold dac_step es d"

text \<open>The program asks \<open>audiodac0_samples_available\<close> before it submits.\<close>

primrec fits_in :: "dac_event list \<Rightarrow> 'a dac_scheme \<Rightarrow> bool" where
  "fits_in [] d = True"
| "fits_in (e # es) d \<longleftrightarrow>
    (case e of Submit buf \<Rightarrow> length buf \<le> audiodac0_samples_available d | Irq _ \<Rightarrow> True) \<and>
    fits_in es (dac_step e d)"

primrec submitted :: "dac_event list \<Rightarrow> s16 list" where
  "submitted [] = []"
| "submitted (e # es) = (case e of Submit buf \<Rightarrow> buf | Irq _ \<Rightarrow> []) @ submitted es"

text \<open>A batch is what one visit of the handler sends: samples, then samples of silence.\<close>

definition batch_words :: "s16 list \<times> nat \<Rightarrow> u32 list" where
  "batch_words b = play_words (fst b @ replicate (snd b) 0x7F7F)"

lemma dac_step_spec:
  assumes "dac_ok d" and "fits_in [e] d"
  obtains b where "dac_ok (dac_step e d)" "fifo (dac_step e d) = fifo d @ batch_words b"
    "fst b @ pending (dac_step e d) = pending d @ submitted [e]"
proof (cases e)
  case (Submit buf)
  then have fits: "length buf \<le> audiodac0_samples_available d" using assms by simp
  obtain d' k out where s: "audiodac0_submit_buffer (Some buf) False d = (length buf, d')"
    "dac_ok d'" "sends (pending d @ buf) k out" "fifo d' = fifo d @ out"
    "pending d' = drop k (pending d @ buf)"
    using submit_spec [OF assms(1) fits] by metis
  obtain m where "out = batch_words (take k (pending d @ buf), m)"
    using s(3) by (auto simp: sends_def batch_words_def)
  with s Submit that [of "(take k (pending d @ buf), m)"] show ?thesis
    by (simp del: take_append drop_append)
next
  case (Irq polls)
  have ok: "dac_ok (d\<lparr>status_polls := polls\<rparr>)" using assms by simp
  obtain k out d' where s: "audiodac0_isr (d\<lparr>status_polls := polls\<rparr>) = (k, d')"
    "sends (pending d) k out" "fifo d' = fifo d @ out" "dac_ok d'" "pending d' = drop k (pending d)"
    using isr_spec [OF ok] by simp metis
  obtain m where "out = batch_words (take k (pending d), m)"
    using s(2) by (auto simp: sends_def batch_words_def)
  with s Irq that [of "(take k (pending d), m)"] show ?thesis by simp
qed

lemma dac_run_spec:
  assumes "dac_ok d" and "fits_in es d"
  shows "dac_ok (dac_run es d) \<and> (\<exists>bs. fifo (dac_run es d) = fifo d @ concat (map batch_words bs) \<and>
    concat (map fst bs) @ pending (dac_run es d) = pending d @ submitted es)"
  using assms
proof (induction es arbitrary: d)
  case Nil
  then show ?case by (auto simp: dac_run_def intro!: exI [of _ "[]"])
next
  case (Cons e es)
  have e: "fits_in [e] d" and es: "fits_in es (dac_step e d)" using Cons.prems by auto
  obtain b where b: "dac_ok (dac_step e d)" "fifo (dac_step e d) = fifo d @ batch_words b"
    "fst b @ pending (dac_step e d) = pending d @ submitted [e]"
    using dac_step_spec [OF Cons.prems(1) e] by blast
  from Cons.IH [OF b(1) es] obtain bs where bs: "dac_ok (dac_run es (dac_step e d))"
    "fifo (dac_run es (dac_step e d)) = fifo (dac_step e d) @ concat (map batch_words bs)"
    "concat (map fst bs) @ pending (dac_run es (dac_step e d)) = pending (dac_step e d) @ submitted es"
    by blast
  have "concat (map fst (b # bs)) @ pending (dac_run (e # es) d) = pending d @ submitted (e # es)"
  proof -
    have "concat (map fst (b # bs)) @ pending (dac_run (e # es) d) =
        fst b @ pending (dac_step e d) @ submitted es"
      using bs(3) by (simp add: dac_run_def)
    also have "\<dots> = pending d @ submitted (e # es)" using b(3) by (simp flip: append_assoc)
    finally show ?thesis .
  qed
  moreover have "fifo (dac_run (e # es) d) = fifo d @ concat (map batch_words (b # bs))"
    using b bs by (simp add: dac_run_def)
  ultimately show ?case using bs(1) by (auto simp: dac_run_def intro!: exI [of _ "b # bs"])
qed

subsection \<open>Overfilling\<close>

lemma submit_copy_overfill:
  assumes ok: "dac_ok d" and le: "playback d \<le> fillp d"
    and over: "audiodac0_samples_available d < length buf"
  shows "\<exists>d'. submit_copy buf d = (audiodac0_samples_available d + 1, d') \<and> pending d' = []"
proof -
  obtain r where r: "ring d = Some r" "ring_size d \<le> length r" "playback d < ring_size d"
    "fillp d < ring_size d" using ok by (rule dac_okE)
  define low where "low = ring_size d - fillp d"
  have n: "low + playback d \<le> length buf"
    using le r over by (auto simp: low_def audiodac0_samples_available_def audiodac0_samples_filled_def)
  have low: "min (length buf) (ring_size d - fillp d) = low" "(fillp d + low) mod ring_size d = 0"
    "min (length buf - low) (playback d) = playback d"
    "audiodac0_samples_available d + 1 = low + playback d"
    using le r n by (auto simp: low_def audiodac0_samples_available_def audiodac0_samples_filled_def)
  show ?thesis using le low r
    by (cases "playback d = 0")
      (simp_all add: submit_copy_def Let_def ring_write_def pending_def ring_slice_def)
qed

section \<open>Properties\<close>

text \<open>C6. However the program's submissions and the interrupts interleave and whatever room the
  FIFO reports, as long as the program respects \<open>audiodac0_samples_available\<close> the DAC receives the
  pending and the submitted samples in order, each once: the commands written are batches of
  samples (a visit with an empty queue inserting at most silence), and the samples of the batches
  followed by what is still pending are exactly what was pending and submitted. The ring pointers
  stay inside the ring.\<close>

theorem dac_run_fifo:
  assumes "dac_ok d" and "fits_in es d"
  shows "dac_ok (dac_run es d) \<and> (\<exists>bs. fifo (dac_run es d) = fifo d @ concat (map batch_words bs) \<and>
    concat (map fst bs) @ pending (dac_run es d) = pending d @ submitted es)"
  using assms by (rule dac_run_spec)

definition demo_dac :: dac where
  "demo_dac = \<lparr>ring = Some [0, 0, 0, 7, 8], ring_size = 5, playback = 3, fillp = 0, fifo_empty = 0,
    buffer_empty = 0, status_polls = [], status_out = 0, fifo = [], mie = True\<rparr>"

theorem dac_run_fifo_witness:
  "dac_ok (dac_run [Submit [9, 10], Irq [0, 0x000C0000, 0x000C0000, 0x000C0000]] demo_dac) \<and>
   (\<exists>bs. fifo (dac_run [Submit [9, 10], Irq [0, 0x000C0000, 0x000C0000, 0x000C0000]] demo_dac) =
      fifo demo_dac @ concat (map batch_words bs) \<and>
    concat (map fst bs) @
      pending (dac_run [Submit [9, 10], Irq [0, 0x000C0000, 0x000C0000, 0x000C0000]] demo_dac) =
    pending demo_dac @ submitted [Submit [9, 10], Irq [0, 0x000C0000, 0x000C0000, 0x000C0000]])"
  by (rule dac_run_fifo)
    (simp_all add: dac_ok_def demo_dac_def audiodac0_samples_available_def audiodac0_samples_filled_def)

text \<open>A submission larger than \<open>audiodac0_samples_available\<close> into a ring whose pending
  samples do not wrap around lets the fill pointer catch up with the playback pointer: the call
  reports one sample more than there was room for, and every pending sample, old and new, is
  lost, because the full ring now looks empty.\<close>

theorem submit_overfill_empties:
  assumes "dac_ok d" and "playback d \<le> fillp d"
    and "audiodac0_samples_available d < length buf"
    and "\<not> (playback d \<noteq> 0 \<and> fillp d = playback d - 1)"
    and "status_polls d = []"
  shows "fst (audiodac0_submit_buffer (Some buf) isr d) = audiodac0_samples_available d + 1 \<and>
    pending (snd (audiodac0_submit_buffer (Some buf) isr d)) = []"
proof -
  define d1 where "d1 = (if isr then d else d\<lparr>mie := False\<rparr>)"
  have d1: "dac_ok d1" "playback d1 \<le> fillp d1" "audiodac0_samples_available d1 < length buf"
    "audiodac0_samples_available d1 = audiodac0_samples_available d"
    using assms by (auto simp: d1_def audiodac0_samples_available_def audiodac0_samples_filled_def)
  obtain d2 where d2: "submit_copy buf d1 = (audiodac0_samples_available d + 1, d2)" "pending d2 = []"
    using submit_copy_overfill [OF d1(1-3)] d1(4) by auto
  have "status_polls d2 = []"
    using d2(1) assms(5)
    by (auto simp: submit_copy_def Let_def ring_write_def d1_def split: if_splits)
  then have st: "read_status d2 = (0, d2)" by (simp add: read_status_def)
  obtain r where "ring d = Some r" "playback d < ring_size d" using assms(1) by (rule dac_okE)
  then show ?thesis
    using assms(4) d2 st by (auto simp: audiodac0_submit_buffer_def d1_def [symmetric] Let_def)
qed

definition demo_dac0 :: dac where
  "demo_dac0 = demo_dac\<lparr>playback := 0, fillp := 3\<rparr>"

theorem submit_overfill_empties_witness:
  "pending demo_dac0 = [0, 0, 0] \<and>
   fst (audiodac0_submit_buffer (Some [9, 10]) False demo_dac0) = audiodac0_samples_available demo_dac0 + 1 \<and>
   pending (snd (audiodac0_submit_buffer (Some [9, 10]) False demo_dac0)) = []"
  by (rule conjI, simp add: pending_def ring_slice_def demo_dac0_def demo_dac_def,
    rule submit_overfill_empties)
    (simp_all add: dac_ok_def demo_dac0_def demo_dac_def audiodac0_samples_available_def
      audiodac0_samples_filled_def)

end
