(* ===== verification/Utils.thy ===== *)
theory Utils
  imports KPrelude
begin

text \<open>
  The service routines of utils.c that keep or compute something: the reversing copy, the number
  parser \<open>strntoul\<close>, the formatted output of \<open>printk\<close> and the heap growth \<open>_sbrk\<close> behind
  \<open>malloc\<close>. Characters are bytes. The properties relate the printer with the parser.
\<close>

section \<open>memcpy_rev\<close>

text \<open>\<open>*d++ = *s--\<close>, \<open>count\<close> times: the destination and the source object with the indices of the
  pointers in them (the source pointer is not read after its last decrement).\<close>

primrec memcpy_rev :: "u8 list \<Rightarrow> nat \<Rightarrow> u8 list \<Rightarrow> nat \<Rightarrow> nat \<Rightarrow> u8 list" where
  "memcpy_rev dst d src s 0 = dst"
| "memcpy_rev dst d src s (Suc count) = memcpy_rev (dst[d := src ! s]) (d + 1) src (s - 1) count"

lemma length_memcpy_rev [simp]: "length (memcpy_rev dst d src s n) = length dst"
  by (induction n arbitrary: dst d s) simp_all

section \<open>strntoul\<close>

text \<open>The value of one character, \<^term>\<open>None\<close> for "errornous character".\<close>

definition digit_of :: "u8 \<Rightarrow> u32 option" where
  "digit_of c =
    (if c \<ge> 0x30 \<and> c \<le> 0x39 then Some (ucast c - 0x30)
     else if c \<ge> 0x41 \<and> c \<le> 0x46 then Some (ucast c - 0x41 + 10)
     else if c \<ge> 0x61 \<and> c \<le> 0x64 then Some (ucast c - 0x61 + 10)
     else None)"

primrec strntoul_loop :: "u32 \<Rightarrow> u8 list \<Rightarrow> u32 \<Rightarrow> u32" where
  "strntoul_loop base [] result = result"
| "strntoul_loop base (c # cs) result =
    (case digit_of c of None \<Rightarrow> 0
     | Some digit \<Rightarrow> strntoul_loop base cs (result * base + digit))"

definition strntoul :: "u8 list \<Rightarrow> nat \<Rightarrow> u32 \<Rightarrow> u32" where
  "strntoul buf n base = strntoul_loop base (take n buf) 0"

section \<open>printk\<close>

text \<open>The decimal branch works on an \<open>int\<close>; the negation of the smallest one wraps around.\<close>

lemma div_gt_9:
  fixes a b :: int
  assumes "9 < a div b" and "0 < b"
  shows "10 * b \<le> a"
proof -
  have "b * 10 \<le> b * (a div b)" using assms by (intro mult_left_mono) auto
  also have "\<dots> \<le> a" using assms by (simp add: minus_mod_eq_mult_div [symmetric])
  finally show ?thesis by simp
qed

function printk_divisor :: "int \<Rightarrow> int \<Rightarrow> int" where
  "printk_divisor v divisor = (if v div divisor > 9 then printk_divisor v (divisor * 10) else divisor)"
  by pat_completeness auto
termination printk_divisor
proof (relation "measure (\<lambda>(v, d). nat (\<bar>v\<bar> - \<bar>d\<bar>))", simp)
  fix v d :: int
  assume q: "9 < v div d"
  consider "0 < d" | "d < 0" using q by (cases d "0 :: int" rule: linorder_cases) auto
  then have "0 < \<bar>d\<bar> \<and> 10 * \<bar>d\<bar> \<le> \<bar>v\<bar>"
  proof cases
    case 2
    then have "10 * - d \<le> - v" using q div_gt_9 [of "- v" "- d"] by simp
    with 2 show ?thesis by simp
  qed (use q div_gt_9 [of v d] in simp)
  then show "((v, d * 10), v, d) \<in> measure (\<lambda>(v, d). nat (\<bar>v\<bar> - \<bar>d\<bar>))"
    by (auto simp: abs_mult)
qed

declare printk_divisor.simps [simp del]

function printk_digits :: "int \<Rightarrow> int \<Rightarrow> u8 list" where
  "printk_digits v divisor =
    (if divisor > 0
     then word_of_int (0x30 + v div divisor) # printk_digits (v mod divisor) (divisor div 10)
     else [])"
  by pat_completeness auto
termination printk_digits
  by (relation "measure (\<lambda>(_, d). nat d)") auto

declare printk_digits.simps [simp del]

definition printk_dec :: "u32 \<Rightarrow> u8 list" where
  "printk_dec w =
    (if sint w < 0
     then 0x2D # printk_digits (sint (- w)) (printk_divisor (sint (- w)) 1)
     else printk_digits (sint w) (printk_divisor (sint w) 1))"

definition hex_digits :: "u8 list" where
  "hex_digits = [0x30, 0x31, 0x32, 0x33, 0x34, 0x35, 0x36, 0x37, 0x38, 0x39,
     0x61, 0x62, 0x63, 0x64, 0x65, 0x66]"

definition nibble :: "u32 \<Rightarrow> nat \<Rightarrow> nat" where
  "nibble w i = unat (drop_bit (i * 4) w AND 0xF)"

definition printk_hex :: "u32 \<Rightarrow> u8 list" where
  "printk_hex w = map (\<lambda>i. hex_digits ! nibble w i) [7, 6, 5, 4, 3, 2, 1, 0]"

text \<open>The format string with the variadic arguments; a conversion without a fitting argument reads
  an argument that is not there, which C leaves undefined, and yields \<^term>\<open>None\<close>. An unknown
  conversion character prints nothing.\<close>

datatype printk_arg = Word u32 | Str "u8 list"

definition put :: "u8 list \<Rightarrow> u8 list option \<Rightarrow> u8 list option" where
  "put cs r = map_option ((@) cs) r"

fun printk :: "u8 list \<Rightarrow> printk_arg list \<Rightarrow> u8 list option" where
  "printk [] args = Some []"
| "printk (c # fmt) args =
    (if c \<noteq> 0x25 then put [c] (printk fmt args)
     else case fmt of
       [] \<Rightarrow> Some [0x25]
     | d # fmt1 \<Rightarrow>
       if d = 0x25 then put [0x25] (printk fmt1 args)
       else if d = 0x73 then
         (case args of Str s # args1 \<Rightarrow> put s (printk fmt1 args1) | _ \<Rightarrow> None)
       else if d = 0x64 then
         (case args of Word w # args1 \<Rightarrow> put (printk_dec w) (printk fmt1 args1) | _ \<Rightarrow> None)
       else if d = 0x70 then
         (case args of Word w # args1 \<Rightarrow> put ([0x30, 0x78] @ printk_hex w) (printk fmt1 args1)
          | _ \<Rightarrow> None)
       else if d = 0x78 then
         (case args of Word w # args1 \<Rightarrow> put (printk_hex w) (printk fmt1 args1) | _ \<Rightarrow> None)
       else printk fmt1 args)"

section \<open>Heap growth\<close>

text \<open>\<open>sbrk_heap_end\<close>, \<open>heap_start\<close> and \<open>heap_end\<close> are addresses; the bounds of the on-chip heap come
  from the linker script.\<close>

record sbrk_state =
  sbrk_heap_end :: u32
  heap_start :: u32
  heap_end :: u32

record linker =
  ram_heap_start :: u32
  ram_heap_end :: u32

text \<open>\<open>heap_start + size\<close> is pointer arithmetic on \<open>unsigned int *\<close>: four bytes per unit.\<close>

definition init_sbrk :: "linker \<Rightarrow> u32 \<Rightarrow> u32 \<Rightarrow> sbrk_state" where
  "init_sbrk ld heap n =
    (if heap = 0
     then \<lparr>sbrk_heap_end = ram_heap_start ld, heap_start = ram_heap_start ld,
       heap_end = ram_heap_end ld\<rparr>
     else \<lparr>sbrk_heap_end = heap, heap_start = heap, heap_end = heap + 4 * n\<rparr>)"

text \<open>The result is the address of the block, all ones for "no more memory".\<close>

definition sbrk :: "linker \<Rightarrow> u32 \<Rightarrow> sbrk_state \<Rightarrow> u32 \<times> sbrk_state" where
  "sbrk ld incr h =
    (let h1 = (if sbrk_heap_end h = 0 then init_sbrk ld 0 0 else h) in
     if sbrk_heap_end h1 + incr \<ge> heap_end h1 then (0xFFFFFFFF, h1)
     else (sbrk_heap_end h1, h1\<lparr>sbrk_heap_end := sbrk_heap_end h1 + incr\<rparr>))"

section \<open>Reading back what was printed\<close>

lemma digit_of_dec:
  assumes "0 \<le> q" and "q \<le> 9"
  shows "digit_of (word_of_int (0x30 + q)) = Some (word_of_int q)"
proof -
  have "q \<in> {0, 1, 2, 3, 4, 5, 6, 7, 8, 9}" using assms by simp presburger
  then show ?thesis by (auto simp: digit_of_def)
qed

lemma strntoul_digits:
  assumes "0 \<le> v" and "v < 10 ^ Suc k"
  shows "strntoul_loop 10 (printk_digits v (10 ^ k)) r = r * 10 ^ Suc k + word_of_int v"
  using assms
proof (induction k arbitrary: v r)
  case 0
  then have "digit_of (word_of_int (0x30 + v)) = Some (word_of_int v)"
    by (intro digit_of_dec) auto
  then show ?case by (simp add: printk_digits.simps [of v] printk_digits.simps [of _ 0])
next
  case (Suc k)
  let ?q = "v div 10 ^ Suc k" and ?m = "v mod 10 ^ Suc k"
  have "\<not> 9 < ?q" using Suc.prems div_gt_9 [of v "10 ^ Suc k"] by auto
  then have q: "0 \<le> ?q" "?q \<le> 9" using Suc.prems by (simp_all add: pos_imp_zdiv_nonneg_iff)
  have d: "digit_of (word_of_int (0x30 + ?q)) = Some (word_of_int ?q)" by (rule digit_of_dec [OF q])
  have "strntoul_loop 10 (printk_digits v (10 ^ Suc k)) r =
      strntoul_loop 10 (printk_digits ?m (10 ^ k)) (r * 10 + word_of_int ?q)"
    using d by (simp add: printk_digits.simps [of v] del: of_int_add)
  also have "\<dots> = (r * 10 + word_of_int ?q) * 10 ^ Suc k + word_of_int ?m"
    by (rule Suc.IH) simp_all
  also have "\<dots> = r * 10 ^ Suc (Suc k) + word_of_int (10 ^ Suc k * ?q + ?m)"
    by (simp add: algebra_simps)
  finally show ?case by simp
qed

lemma printk_divisor_power:
  assumes "0 \<le> v" and "d = 10 ^ j"
  shows "\<exists>k. printk_divisor v d = 10 ^ k \<and> v < 10 ^ Suc k"
  using assms
proof (induction v d arbitrary: j rule: printk_divisor.induct)
  case (1 v d)
  show ?case
  proof (cases "v div d > 9")
    case True
    have "d * 10 = 10 ^ Suc j" using "1.prems" by simp
    from "1.IH" [OF True "1.prems"(1) this] obtain k where
      "printk_divisor v (d * 10) = 10 ^ k" "v < 10 ^ Suc k" by blast
    moreover have "printk_divisor v d = printk_divisor v (d * 10)"
      by (subst printk_divisor.simps) (simp only: True if_True)
    ultimately show ?thesis by auto
  next
    case False
    have "v < d * 10"
    proof (rule ccontr)
      assume "\<not> v < d * 10"
      then have "d * 10 div d \<le> v div d" using "1.prems" by (intro zdiv_mono1) auto
      with False "1.prems" show False by simp
    qed
    moreover have "printk_divisor v d = d"
      by (subst printk_divisor.simps) (simp only: False if_False)
    ultimately show ?thesis using "1.prems"(2) by (auto intro: exI [of _ j])
  qed
qed

lemma strntoul_all: "strntoul cs (length cs) base = strntoul_loop base cs 0"
  by (simp add: strntoul_def)

lemma strntoul_printk_dec:
  assumes "0 \<le> sint w"
  shows "strntoul (printk_dec w) (length (printk_dec w)) 10 = w"
proof -
  obtain k where "printk_divisor (sint w) 1 = 10 ^ k" "sint w < 10 ^ Suc k"
    using printk_divisor_power [OF assms, of 1 0] by auto
  with assms strntoul_digits [of "sint w" k 0] show ?thesis
    by (simp add: strntoul_all printk_dec_def)
qed

subsection \<open>Hexadecimal\<close>

lemma digit_of_hex:
  assumes "n < 16"
  shows "digit_of (hex_digits ! n) = (if n < 14 then Some (of_nat n) else None)"
proof -
  have "n \<in> {0, 1, 2, 3, 4, 5, 6, 7, 8, 9, 10, 11, 12, 13, 14, 15}"
    using assms by simp presburger
  then show ?thesis by (elim insertE emptyE) (simp_all add: digit_of_def hex_digits_def)
qed

lemma nibble_less: "nibble w i < 16"
proof -
  have "drop_bit (i * 4) w AND 0xF = take_bit 4 (drop_bit (i * 4) w)"
    by (simp add: take_bit_eq_mask mask_eq_exp_minus_1)
  then show ?thesis
    by (simp add: nibble_def unsigned_take_bit_eq take_bit_nat_less_exp [of 4, simplified])
qed

lemma nibble_step:
  "drop_bit (Suc i * 4) w * 16 + of_nat (nibble w i) = drop_bit (i * 4) w"
proof -
  let ?x = "drop_bit (i * 4) w"
  have "?x AND 0xF = take_bit 4 ?x" by (simp add: take_bit_eq_mask mask_eq_exp_minus_1)
  then have "?x AND 0xF = ?x mod 16" by (simp add: take_bit_eq_mod)
  moreover have "drop_bit 4 ?x = ?x div 16" by (simp only: drop_bit_eq_div) simp
  moreover have "drop_bit 4 ?x = drop_bit (Suc i * 4) w" by (simp add: drop_bit_drop_bit)
  ultimately show ?thesis by (simp add: nibble_def div_mult_mod_eq)
qed

lemma hex_loop:
  assumes "n \<le> 8"
  shows "strntoul_loop 16 (map (\<lambda>i. hex_digits ! nibble w i) (rev [0 ..< n])) (drop_bit (n * 4) w) =
    (if \<exists>i<n. nibble w i \<ge> 14 then 0 else w)"
  using assms
proof (induction n)
  case (Suc n)
  then show ?case using nibble_less [of w n] nibble_step [of n w]
    by (auto simp: digit_of_hex less_Suc_eq)
qed simp

lemma drop_32: "drop_bit 32 (w :: u32) = 0"
  by (rule bit_word_eqI) (auto simp: bit_simps dest: bit_imp_le_length)

lemma strntoul_printk_hex:
  "strntoul (printk_hex w) 8 16 = (if \<exists>i<8. nibble w i \<ge> 14 then 0 else w)"
proof -
  have "[7, 6, 5, 4, 3, 2, 1, 0 :: nat] = rev [0 ..< 8]" by (simp add: upt_rec)
  then have "strntoul_loop 16 (printk_hex w) 0 = (if \<exists>i<8. nibble w i \<ge> 14 then 0 else w)"
    using hex_loop [of 8 w] by (simp only: printk_hex_def) (simp add: drop_32 del: upt_Suc)
  moreover have "length (printk_hex w) = 8" by (simp add: printk_hex_def)
  ultimately show ?thesis by (simp add: strntoul_def)
qed

section \<open>The heap\<close>

definition heap_ok :: "sbrk_state \<Rightarrow> bool" where
  "heap_ok h \<longleftrightarrow> sbrk_heap_end h \<noteq> 0 \<and> heap_start h \<le> sbrk_heap_end h \<and>
     sbrk_heap_end h < heap_end h"

lemma sbrk_ok:
  assumes "heap_ok h" and "unat (sbrk_heap_end h) + unat n < 2 ^ 32"
  shows "sbrk ld n h =
      (if unat (sbrk_heap_end h) + unat n < unat (heap_end h)
       then (sbrk_heap_end h, h\<lparr>sbrk_heap_end := sbrk_heap_end h + n\<rparr>) else (0xFFFFFFFF, h))"
    and "unat (sbrk_heap_end h) + unat n < unat (heap_end h) \<Longrightarrow>
      heap_ok (h\<lparr>sbrk_heap_end := sbrk_heap_end h + n\<rparr>)"
proof -
  have u: "unat (sbrk_heap_end h + n) = unat (sbrk_heap_end h) + unat n"
    using assms(2) by (simp add: unat_word_ariths)
  then show "sbrk ld n h =
      (if unat (sbrk_heap_end h) + unat n < unat (heap_end h)
       then (sbrk_heap_end h, h\<lparr>sbrk_heap_end := sbrk_heap_end h + n\<rparr>) else (0xFFFFFFFF, h))"
    using assms(1) by (simp add: sbrk_def heap_ok_def word_le_nat_alt)
  have "sbrk_heap_end h + n \<noteq> 0" using assms u by (auto simp: heap_ok_def unat_eq_0 [symmetric])
  then show "heap_ok (h\<lparr>sbrk_heap_end := sbrk_heap_end h + n\<rparr>)"
    if "unat (sbrk_heap_end h) + unat n < unat (heap_end h)"
    using that assms u by (simp add: heap_ok_def word_le_nat_alt word_less_nat_alt)
qed

text \<open>The sum is not checked for wrap-around: a request that passes the end of the address space is
  granted and moves the break to the bottom of memory.\<close>

lemma sbrk_wraps:
  "sbrk ld 0x70000000 \<lparr>sbrk_heap_end = 0x90000000, heap_start = 0x90000000, heap_end = 0x90080000\<rparr> =
    (0x90000000, \<lparr>sbrk_heap_end = 0, heap_start = 0x90000000, heap_end = 0x90080000\<rparr>)"
  by (simp add: sbrk_def)

section \<open>Properties\<close>

text \<open>\<open>strntoul\<close> in base ten reads back every non-negative number \<open>printk\<close> prints with
  \<open>%d\<close>; in base sixteen it reads back what \<open>%x\<close> prints exactly when no nibble of the number is
  fourteen or fifteen, and yields zero otherwise, because it knows the lower-case digits up to
  \<open>d\<close> only.\<close>

theorem strntoul_printk:
  "(0 \<le> sint w \<longrightarrow> strntoul (printk_dec w) (length (printk_dec w)) 10 = w) \<and>
   strntoul (printk_hex w) 8 16 = (if \<exists>i<8. nibble w i \<ge> 14 then 0 else w)"
  using strntoul_printk_dec strntoul_printk_hex by blast

theorem strntoul_printk_witness:
  "strntoul (printk_dec 115200) (length (printk_dec 115200)) 10 = 115200"
proof -
  have "0 \<le> sint (115200 :: u32)" by simp
  with strntoul_printk [of 115200] show ?thesis by blast
qed

end
