(* ===== verification/Modbus.thy ===== *)
theory Modbus
  imports Eeprom AudioDac Utils
begin

text \<open>
  The Modbus slave (modbus.c) and its two transports, serial (modbus_rtu.c) and UDP
  (modbus_udp.c), built as the monitor builds them: with Ethernet, without the LED panel and
  without CGA graphics text.

  \<^item> State: the registers of modbus.c, the running configuration, the two frame buffers as memory
    from their first byte on, the audio driver, the I2C bus with the EEPROM behind it, and the
    reboot request.
  \<^item> The receive buffer is the memory from \<open>rx_buf\<close> on, a function of the offset, because the
    handlers read behind the received bytes; the transmit buffer is the array of 128 bytes.
  \<^item> The string of the ID function (build number and date) is the parameter \<open>ident\<close>.
\<close>

section \<open>State\<close>

record 's modbus =
  reg_color :: u32
  reg_video_mode :: u32
  reg_video_frame_size :: u32
  reg_irq_counter :: u32
  reg_sys_counter :: u32
  reg_scratch :: u32
  reg_config_write :: u32
  active_config :: Config
  cga_fb :: "nat \<Rightarrow> u8"
  hub_fb :: "nat \<Rightarrow> u8"
  audio :: dac
  i2c :: 's
  rebooted :: bool

type_synonym mem = "nat \<Rightarrow> u8"

abbreviation (input) MODBUS_RX_BUF_SIZE :: nat where "MODBUS_RX_BUF_SIZE \<equiv> 128"
abbreviation (input) MODBUS_TX_BUF_SIZE :: nat where "MODBUS_TX_BUF_SIZE \<equiv> 128"
abbreviation (input) FUNC_READ_COILS :: u8 where "FUNC_READ_COILS \<equiv> 0x01"
abbreviation (input) FUNC_READ_DISC_INPUT :: u8 where "FUNC_READ_DISC_INPUT \<equiv> 0x02"
abbreviation (input) FUNC_READ_HOLD_REGS :: u8 where "FUNC_READ_HOLD_REGS \<equiv> 0x03"
abbreviation (input) FUNC_WRITE_ONE_COIL_REG :: u8 where "FUNC_WRITE_ONE_COIL_REG \<equiv> 0x05"
abbreviation (input) FUNC_WRITE_ONE_HOLD_REG :: u8 where "FUNC_WRITE_ONE_HOLD_REG \<equiv> 0x06"
abbreviation (input) FUNC_WRITE_MANY_COIL_REG :: u8 where "FUNC_WRITE_MANY_COIL_REG \<equiv> 0x0F"
abbreviation (input) FUNC_WRITE_MANY_HOLD_REG :: u8 where "FUNC_WRITE_MANY_HOLD_REG \<equiv> 0x10"
abbreviation (input) FUNC_ID :: u8 where "FUNC_ID \<equiv> 0x11"
abbreviation (input) ERR_FUNC_NOT_IMPLEMENTED :: u8 where "ERR_FUNC_NOT_IMPLEMENTED \<equiv> 1"
abbreviation (input) ERR_ADDR_NOT_AVAILABLE :: u8 where "ERR_ADDR_NOT_AVAILABLE \<equiv> 2"
abbreviation (input) ERR_WRONG_ARGS :: u8 where "ERR_WRONG_ARGS \<equiv> 3"
abbreviation (input) ERR_SYS_ERROR :: u8 where "ERR_SYS_ERROR \<equiv> 7"
abbreviation (input) REG_FRAMEBUFFER :: u16 where "REG_FRAMEBUFFER \<equiv> 20"
abbreviation (input) REG_SYS_COUNTER :: u16 where "REG_SYS_COUNTER \<equiv> 30"
abbreviation (input) REG_IRQ_COUNTER :: u16 where "REG_IRQ_COUNTER \<equiv> 31"
abbreviation (input) REG_SCRATCH :: u16 where "REG_SCRATCH \<equiv> 32"
abbreviation (input) REG_IP_ADDR :: u16 where "REG_IP_ADDR \<equiv> 41"
abbreviation (input) REG_GW_ADDR :: u16 where "REG_GW_ADDR \<equiv> 42"
abbreviation (input) REG_NETMASK :: u16 where "REG_NETMASK \<equiv> 43"
abbreviation (input) REG_MBUS_ADDR :: u16 where "REG_MBUS_ADDR \<equiv> 44"
abbreviation (input) REG_MBUS_BAUD :: u16 where "REG_MBUS_BAUD \<equiv> 45"
abbreviation (input) REG_MAC_ADDR :: u16 where "REG_MAC_ADDR \<equiv> 47"
abbreviation (input) REG_CONFIG_OPTIONS :: u16 where "REG_CONFIG_OPTIONS \<equiv> 49"
abbreviation (input) REG_PRINT_TEXT :: u16 where "REG_PRINT_TEXT \<equiv> 50"
abbreviation (input) REG_CLEAR_TEXT :: u16 where "REG_CLEAR_TEXT \<equiv> 51"
abbreviation (input) REG_COLOR :: u16 where "REG_COLOR \<equiv> 52"
abbreviation (input) REG_VIDEO_MODE :: u16 where "REG_VIDEO_MODE \<equiv> 53"
abbreviation (input) REG_AUDIODAC0_BUFFER :: u16 where "REG_AUDIODAC0_BUFFER \<equiv> 60"
abbreviation (input) REG_CONFIG_WRITE :: u16 where "REG_CONFIG_WRITE \<equiv> 126"
abbreviation (input) REG_REBOOT :: u16 where "REG_REBOOT \<equiv> 127"
abbreviation (input) REG_VIDEO_MODE_HUB :: u32 where "REG_VIDEO_MODE_HUB \<equiv> 3"
abbreviation (input) CGA_FRAMEBUFFER_SIZE :: nat where "CGA_FRAMEBUFFER_SIZE \<equiv> 19200"
abbreviation (input) HUB_FRAMEBUFFER_SIZE :: nat where "HUB_FRAMEBUFFER_SIZE \<equiv> 4096"

section \<open>Storing a register\<close>

definition be16 :: "mem \<Rightarrow> nat \<Rightarrow> u32" where
  "be16 data i = push_bit 8 (ucast (data i)) OR ucast (data (i + 1))"

definition be32 :: "mem \<Rightarrow> u32" where
  "be32 data = push_bit 24 (ucast (data 0)) OR push_bit 16 (ucast (data 1))
     OR push_bit 8 (ucast (data 2)) OR ucast (data 3)"

definition bytes_at :: "mem \<Rightarrow> nat \<Rightarrow> nat \<Rightarrow> u8 list" where
  "bytes_at data i n = map data [i ..< i + n]"

text \<open>The frame buffer the video mode selects.\<close>

definition update_fb :: "(mem \<Rightarrow> mem) \<Rightarrow> 's modbus \<Rightarrow> 's modbus" where
  "update_fb f st = (if reg_video_mode st = REG_VIDEO_MODE_HUB then st\<lparr>hub_fb := f (hub_fb st)\<rparr>
     else st\<lparr>cga_fb := f (cga_fb st)\<rparr>)"

definition fill_zero :: "nat \<Rightarrow> mem \<Rightarrow> mem" where
  "fill_zero n m = (\<lambda>i. if i < n then 0 else m i)"

text \<open>One 32-bit store of the loop of \<open>REG_FRAMEBUFFER\<close>: the word is assembled little-endian and
  stored little-endian, so its four bytes keep their order.\<close>

definition store_word :: "mem \<Rightarrow> nat \<Rightarrow> nat \<Rightarrow> mem \<Rightarrow> mem" where
  "store_word data offset i m = m(
     offset + i * 4 := data (2 + i * 4), offset + i * 4 + 1 := data (2 + i * 4 + 1),
     offset + i * 4 + 2 := data (2 + i * 4 + 2), offset + i * 4 + 3 := data (2 + i * 4 + 3))"

definition words_to_copy :: "u16 \<Rightarrow> 's modbus \<Rightarrow> nat" where
  "words_to_copy data_len st =
    nat (min (int (if reg_video_mode st = REG_VIDEO_MODE_HUB then HUB_FRAMEBUFFER_SIZE
                   else CGA_FRAMEBUFFER_SIZE)) (int (unat data_len) - 2)) div 4"

definition store_framebuffer :: "mem \<Rightarrow> u16 \<Rightarrow> 's modbus \<Rightarrow> 's modbus" where
  "store_framebuffer data data_len st =
    update_fb (fold (store_word data (unat (be16 data 0))) [0 ..< words_to_copy data_len st]) st"

text \<open>The answer to a submission: the fill level and the size of the ring.\<close>

definition ring_fill :: "dac \<Rightarrow> int" where
  "ring_fill d = (if playback d \<le> fillp d then int (fillp d) - int (playback d)
     else int (ring_size d) - int (playback d) + int (fillp d) - 1)"

definition store_audio :: "mem \<Rightarrow> u16 \<Rightarrow> 's modbus \<Rightarrow> mem \<times> 's modbus" where
  "store_audio data data_len st =
    (let samples = unat data_len div 2;
         audio_buf = map (\<lambda>i. ucast (be16 data (i * 2))) [0 ..< samples];
         (_, d) = audiodac0_submit_buffer (Some audio_buf) False (audio st);
         fill = (word_of_int (ring_fill d) :: u32);
         n = (word_of_int (int (ring_size d)) :: u32)
     in (data(0 := ucast (signed_drop_bit 8 fill), 1 := ucast (fill AND 0xFF),
           2 := ucast (signed_drop_bit 8 n), 3 := ucast (n AND 0xFF)), st\<lparr>audio := d\<rparr>))"

text \<open>The configuration registers: load (or take the default), change a field, save. The local
  \<open>Config\<close> starts with whatever the stack holds; every byte of it is written before it is used.\<close>

definition store_config :: "'s i2c_bus \<Rightarrow> (Config \<Rightarrow> Config) \<Rightarrow> 's modbus \<Rightarrow> int \<times> 's modbus" where
  "store_config B f st =
    (let (c, s1) = config_or_default B (replicate 32 0) (i2c st);
         (r, _, s2) = config_save B (f c) s1
     in (if r < 0 then -2 else 0, st\<lparr>i2c := s2\<rparr>))"

definition set_video_mode :: "u32 \<Rightarrow> 's modbus \<Rightarrow> 's modbus" where
  "set_video_mode v st = st\<lparr>reg_video_mode := v, reg_video_frame_size :=
     (if v = REG_VIDEO_MODE_HUB then of_nat HUB_FRAMEBUFFER_SIZE else of_nat CGA_FRAMEBUFFER_SIZE)\<rparr>"

text \<open>The fields the configuration registers change.\<close>

definition config_field :: "u16 \<Rightarrow> mem \<Rightarrow> (Config \<Rightarrow> Config) option" where
  "config_field reg data =
    (if reg = REG_MBUS_ADDR then Some (\<lambda>c. c[22 := data 3])
     else if reg = REG_CONFIG_OPTIONS then Some (\<lambda>c. c[0 := data 3])
     else if reg = REG_MBUS_BAUD then Some (\<lambda>c. st32 c 24 (be32 data))
     else if reg = REG_IP_ADDR then Some (\<lambda>c. memcpy_rev c 4 (bytes_at data 0 4) 3 4)
     else if reg = REG_GW_ADDR then Some (\<lambda>c. memcpy_rev c 8 (bytes_at data 0 4) 3 4)
     else if reg = REG_NETMASK then Some (\<lambda>c. memcpy_rev c 12 (bytes_at data 0 4) 3 4)
     else if reg = REG_MAC_ADDR then Some (\<lambda>c. blit c 16 (bytes_at data 0 6))
     else None)"

text \<open>The registers whose handler changes neither the request nor the EEPROM.\<close>

definition store_plain :: "u16 \<Rightarrow> mem \<Rightarrow> u16 \<Rightarrow> 's modbus \<Rightarrow> int \<times> 's modbus" where
  "store_plain reg data data_len st =
    (if reg = REG_CLEAR_TEXT then (0, update_fb (fill_zero (unat (reg_video_frame_size st))) st)
     else if reg = REG_FRAMEBUFFER then (0, store_framebuffer data data_len st)
     else if reg = REG_PRINT_TEXT then (if data_len < 1 then -3 else 0, st)
     else if reg = REG_SCRATCH then (0, st\<lparr>reg_scratch := be32 data\<rparr>)
     else if reg = REG_CONFIG_WRITE then (0, st\<lparr>reg_config_write := be32 data\<rparr>)
     else if reg = REG_COLOR then (0, st\<lparr>reg_color := ucast (data 3)\<rparr>)
     else if reg = REG_VIDEO_MODE then (0, set_video_mode (ucast (data 3)) st)
     else if reg = REG_REBOOT then (0, st\<lparr>rebooted := True\<rparr>)
     else (-1, st))"

definition modbus_store_reg :: "'s i2c_bus \<Rightarrow> u16 \<Rightarrow> mem \<Rightarrow> u16 \<Rightarrow> 's modbus \<Rightarrow>
    int \<times> mem \<times> 's modbus" where
  "modbus_store_reg B reg data data_len st =
    (if reg \<ge> 40 \<and> reg < 50 \<and> reg_config_write st = 0 then (-2, data, st)
     else if reg = REG_AUDIODAC0_BUFFER then
       let (data1, st1) = store_audio data data_len st in (4, data1, st1)
     else case config_field reg data of
       Some f \<Rightarrow> let (r, st1) = store_config B f st in (r, data, st1)
     | None \<Rightarrow> let (r, st1) = store_plain reg data data_len st in (r, data, st1))"

section \<open>Handling a request\<close>

definition modbus_error :: "u8 \<Rightarrow> u8 \<Rightarrow> u8 list \<Rightarrow> 's modbus \<Rightarrow> nat \<times> u8 list" where
  "modbus_error f err_code txbuf st =
    (3 + 2, add_crc (txbuf[0 := cfg_modbus_addr (active_config st), 1 := f OR 0x80, 2 := err_code]) 3)"

definition word_bytes :: "u32 \<Rightarrow> u8 list" where
  "word_bytes v = [ucast v, ucast (drop_bit 8 v), ucast (drop_bit 16 v), ucast (drop_bit 24 v)]"

text \<open>The readable registers: the number of data bytes and the buffer with the data in place,
  \<^term>\<open>None\<close> for an unknown address.\<close>

definition read_state_reg :: "u16 \<Rightarrow> 's modbus \<Rightarrow> u32 option" where
  "read_state_reg reg st =
    (if reg = REG_SYS_COUNTER then Some (reg_sys_counter st)
     else if reg = REG_IRQ_COUNTER then Some (reg_irq_counter st)
     else if reg = REG_SCRATCH then Some (reg_scratch st)
     else if reg = REG_CONFIG_WRITE then Some (reg_config_write st)
     else if reg = REG_COLOR then Some (reg_color st)
     else if reg = REG_VIDEO_MODE then Some (reg_video_mode st)
     else None)"

definition read_config_reg :: "u16 \<Rightarrow> Config \<Rightarrow> u8 list \<Rightarrow> (nat \<times> u8 list) option" where
  "read_config_reg reg c tx =
    (if reg = REG_IP_ADDR then Some (4, blit tx 3 (cfg_ip_addr c))
     else if reg = REG_GW_ADDR then Some (4, blit tx 3 (cfg_gw_addr c))
     else if reg = REG_NETMASK then Some (4, blit tx 3 (cfg_netmask c))
     else if reg = REG_MAC_ADDR then Some (6, blit tx 3 (cfg_mac_addr c))
     else if reg = REG_MBUS_ADDR then Some (6, tx[6 := cfg_modbus_addr c])
     else if reg = REG_CONFIG_OPTIONS then Some (6, tx[6 := cfg_options c])
     else if reg = REG_MBUS_BAUD then Some (6, blit tx 3 (take 4 (drop 27 c)))
     else None)"

definition is_config_reg :: "u16 \<Rightarrow> bool" where
  "is_config_reg reg \<longleftrightarrow> reg \<in> {REG_IP_ADDR, REG_GW_ADDR, REG_NETMASK, REG_MAC_ADDR, REG_MBUS_ADDR,
     REG_CONFIG_OPTIONS, REG_MBUS_BAUD}"

definition read_reg :: "'s i2c_bus \<Rightarrow> u8 \<Rightarrow> u16 \<Rightarrow> u8 list \<Rightarrow> 's modbus \<Rightarrow>
    nat \<times> u8 list \<times> 's modbus" where
  "read_reg B func reg tx st =
    (case read_state_reg reg st of
       Some v \<Rightarrow> (4, memcpy_rev tx 3 (word_bytes v) 3 4, st)
     | None \<Rightarrow>
       if is_config_reg reg then
         let (c, s1) = config_or_default B (replicate 32 0) (i2c st); st1 = st\<lparr>i2c := s1\<rparr> in
         (case read_config_reg reg c tx of
            Some (n, tx1) \<Rightarrow> (n, tx1, st1) | None \<Rightarrow> (0, tx, st1))
       else let (n, tx1) = modbus_error func ERR_ADDR_NOT_AVAILABLE tx st in (n, tx1, st))"

text \<open>The tail of the read branch sets the byte count and the CRC, after an error too.\<close>

definition recv_read :: "'s i2c_bus \<Rightarrow> u8 \<Rightarrow> u16 \<Rightarrow> u16 \<Rightarrow> u8 list \<Rightarrow> 's modbus \<Rightarrow>
    nat \<times> u8 list \<times> 's modbus" where
  "recv_read B func reg qty tx st =
    (if qty \<noteq> 1 then let (n, tx1) = modbus_error func ERR_WRONG_ARGS tx st in (n, tx1, st)
     else let (n, tx1, st1) = read_reg B func reg tx st in
       (n + 3 + 2, add_crc (tx1[2 := of_nat n]) (of_nat (n + 3)), st1))"

definition recv_write :: "'s i2c_bus \<Rightarrow> u8 \<Rightarrow> u16 \<Rightarrow> mem \<Rightarrow> nat \<Rightarrow> u8 list \<Rightarrow> 's modbus \<Rightarrow>
    nat \<times> u8 list \<times> 's modbus" where
  "recv_write B func reg rx rx_len tx st =
    (let (rc, data, st1) = modbus_store_reg B reg (\<lambda>i. rx (7 + i)) (of_nat rx_len - 2 - 7) st in
     if rc < 0 then
       let (n, tx1) = modbus_error func (if rc = -2 then ERR_SYS_ERROR else ERR_WRONG_ARGS) tx st1
       in (n, tx1, st1)
     else
       let k = nat rc; tx1 = blit (blit tx 2 (bytes_at rx 2 4)) 6 (bytes_at data 0 k) in
       (2 + 4 + k + 2, add_crc tx1 (of_nat (2 + 4 + k)), st1))"

text \<open>\<open>sprintf\<close> stores the string with its terminating zero.\<close>

definition recv_id :: "u8 list \<Rightarrow> u8 list \<Rightarrow> nat \<times> u8 list" where
  "recv_id ident tx =
    (let n = length ident; tx1 = (blit tx 3 (ident @ [0]))[2 := of_nat n] in
     (n + 3 + 2, add_crc tx1 (of_nat (n + 3))))"

text \<open>The switch on the function code.\<close>

definition recv_func :: "'s i2c_bus \<Rightarrow> u8 list \<Rightarrow> mem \<Rightarrow> nat \<Rightarrow> 's modbus \<Rightarrow>
    nat \<times> u8 list \<times> 's modbus" where
  "recv_func B ident rx rx_len st =
    (let func = rx 1; reg = ucast (be16 rx 2); qty = ucast (be16 rx 4);
         tx = (replicate MODBUS_TX_BUF_SIZE 0)[0 := cfg_modbus_addr (active_config st), 1 := func]
     in if func = FUNC_ID then let (n, tx1) = recv_id ident tx in (n, tx1, st)
        else if func \<in> {FUNC_READ_COILS, FUNC_READ_DISC_INPUT, FUNC_READ_HOLD_REGS}
        then recv_read B func reg qty tx st
        else if func \<in> {FUNC_WRITE_ONE_HOLD_REG, FUNC_WRITE_ONE_COIL_REG,
          FUNC_WRITE_MANY_HOLD_REG, FUNC_WRITE_MANY_COIL_REG}
        then recv_write B func reg rx rx_len tx st
        else let (n, tx1) = modbus_error func ERR_FUNC_NOT_IMPLEMENTED tx st in (n, tx1, st))"

definition his_crc16 :: "mem \<Rightarrow> nat \<Rightarrow> u16" where
  "his_crc16 rx rx_len = push_bit 8 (ucast (rx (rx_len - 1))) OR ucast (rx (rx_len - 2))"

definition my_crc16 :: "mem \<Rightarrow> nat \<Rightarrow> u16" where
  "my_crc16 rx rx_len = crc16 (bytes_at rx 0 rx_len) (of_nat (rx_len - 2))"

text \<open>A request this slave acts on: its CRC is right, and it carries the slave's address or is a
  broadcast ID request.\<close>

definition for_us :: "mem \<Rightarrow> nat \<Rightarrow> 's modbus \<Rightarrow> bool" where
  "for_us rx rx_len st \<longleftrightarrow> my_crc16 rx rx_len = his_crc16 rx rx_len \<and>
     (rx 0 = cfg_modbus_addr (active_config st) \<or> rx 0 = 0 \<and> rx 1 = FUNC_ID)"

definition modbus_recv :: "'s i2c_bus \<Rightarrow> u8 list \<Rightarrow> mem \<Rightarrow> nat \<Rightarrow> u8 list \<Rightarrow> 's modbus \<Rightarrow>
    int \<times> u8 list \<times> 's modbus" where
  "modbus_recv B ident rx rx_len tx st =
    (if rx_len < 5 then (-1, tx, st)
     else if for_us rx rx_len st then
       let (n, tx1, st1) = recv_func B ident rx rx_len st in (int n, tx1, st1)
     else (0, tx, st))"

section \<open>The serial transport (modbus_rtu.c)\<close>

record rtu =
  rtu_rx_buf :: "u8 list"
  rtu_rx_len :: nat
  rtu_timestamp :: "64 word"

text \<open>The configuration of the UART that \<open>modbus_rtu_init\<close> derives from the baud rate.\<close>

record Uart_Config =
  dataLength :: u32
  clockDivider :: u32
  parity :: u8
  stop :: u8

definition modbus_rtu_init :: "Config \<Rightarrow> 64 word \<Rightarrow> rtu \<Rightarrow> Uart_Config \<times> rtu" where
  "modbus_rtu_init c mtime r =
    (\<lparr>dataLength = 7, clockDivider = 60000000 div cfg_modbus_baud c div (1 + 3 + 1) - 1,
      parity = 0, stop = 0\<rparr>,
     r\<lparr>rtu_timestamp := mtime, rtu_rx_len := 0\<rparr>)"

definition rtu_store :: "u8 \<Rightarrow> rtu \<Rightarrow> rtu" where
  "rtu_store b r = r\<lparr>rtu_rx_buf := (rtu_rx_buf r)[rtu_rx_len r := b],
     rtu_rx_len := (if rtu_rx_len r + 1 \<ge> MODBUS_RX_BUF_SIZE then 0 else rtu_rx_len r + 1)\<rparr>"

text \<open>The receive interrupt: \<open>first\<close> is the byte that raised it, \<open>stale\<close> what the FIFO holds
  besides.\<close>

definition modbus_rtu_rx :: "u8 \<Rightarrow> u8 list \<Rightarrow> 64 word \<Rightarrow> rtu \<Rightarrow> rtu" where
  "modbus_rtu_rx first stale mtime r = (fold rtu_store (first # stale) r)\<lparr>rtu_timestamp := mtime\<rparr>"

text \<open>\<open>memory n\<close> from a buffer: the array of a local variable and what lies behind it on the
  stack.\<close>

definition on_stack :: "u8 list \<Rightarrow> mem \<Rightarrow> mem" where
  "on_stack buf behind = (\<lambda>i. if i < length buf then buf ! i else behind i)"

text \<open>The two local buffers start with stack contents; the bytes sent are the result.
  \<open>tx_len\<close> is the \<open>uint32_t\<close> of what \<open>modbus_recv\<close> returned.\<close>

definition modbus_rtu_poll :: "'s i2c_bus \<Rightarrow> u8 list \<Rightarrow> 64 word \<Rightarrow> u8 list \<Rightarrow> u8 list \<Rightarrow> mem \<Rightarrow>
    rtu \<Rightarrow> 's modbus \<Rightarrow> u8 list \<times> rtu \<times> 's modbus" where
  "modbus_rtu_poll B ident mtime rx_stack tx_stack behind r st =
    (if rtu_rx_len r > 0 \<and> mtime - rtu_timestamp r \<ge> 10000 then
       let rx_len = rtu_rx_len r;
           rx_buf = blit rx_stack 0 (take (min rx_len MODBUS_RX_BUF_SIZE) (rtu_rx_buf r));
           (n, tx, st1) = modbus_recv B ident (on_stack rx_buf behind) rx_len tx_stack st;
           tx_len = unat (word_of_int n :: u32)
       in (bytes_at (on_stack tx behind) 0 tx_len, r\<lparr>rtu_rx_len := 0\<rparr>, st1)
     else ([], r, st))"

section \<open>The UDP transport (modbus_udp.c)\<close>

text \<open>\<open>pbuf_alloc\<close> of the network stack is the parameter \<open>alloc\<close>: the length of the buffer it
  provides for a request, or \<^term>\<open>None\<close>.\<close>

datatype udp_result = Udp_failed | Udp_copied nat "u8 list"

definition modbus_udp_send :: "(u16 \<Rightarrow> nat option) \<Rightarrow> mem \<Rightarrow> u32 \<Rightarrow> udp_result" where
  "modbus_udp_send alloc buf buf_len =
    (case alloc (ucast (buf_len + 1)) of
       None \<Rightarrow> Udp_failed
     | Some plen \<Rightarrow>
       if of_nat plen < buf_len + 1 then Udp_failed
       else Udp_copied plen (bytes_at buf 0 (unat buf_len) @ [0]))"

text \<open>The datagram is the memory from its payload on and its length.\<close>

definition modbus_udp_recv :: "'s i2c_bus \<Rightarrow> u8 list \<Rightarrow> (u16 \<Rightarrow> nat option) \<Rightarrow> u8 list \<Rightarrow> mem \<Rightarrow>
    mem \<Rightarrow> u16 \<Rightarrow> 's modbus \<Rightarrow> udp_result option \<times> 's modbus" where
  "modbus_udp_recv B ident alloc tx_stack behind payload plen st =
    (let (n, tx, st1) = modbus_recv B ident payload (unat plen) tx_stack st;
         tx_len = (word_of_int n :: u32)
     in (if tx_len > 0 then Some (modbus_udp_send alloc (on_stack tx behind) tx_len) else None, st1))"

section \<open>Every answer is a frame\<close>

text \<open>A frame of \<open>n\<close> bytes in the transmit buffer that a master accepts: its CRC is right, it names
  the slave and answers the function.\<close>

definition frame_ok :: "u8 \<Rightarrow> u8 \<Rightarrow> nat \<Rightarrow> u8 list \<Rightarrow> bool" where
  "frame_ok addr func n tx \<longleftrightarrow> 5 \<le> n \<and> n \<le> MODBUS_TX_BUF_SIZE \<and> length tx = MODBUS_TX_BUF_SIZE \<and>
     crc16 tx (of_nat n) = 0 \<and> tx ! 0 = addr \<and> tx ! 1 \<in> {func, func OR 0x80}"

definition head_ok :: "u8 \<Rightarrow> u8 \<Rightarrow> u8 list \<Rightarrow> bool" where
  "head_ok addr func tx \<longleftrightarrow> length tx = MODBUS_TX_BUF_SIZE \<and> tx ! 0 = addr \<and>
     tx ! 1 \<in> {func, func OR 0x80}"

lemma frame_okI:
  assumes "head_ok addr func tx" and "3 \<le> k" and "k + 2 \<le> MODBUS_TX_BUF_SIZE"
  shows "frame_ok addr func (k + 2) (add_crc tx (of_nat k))"
proof -
  have u: "unat (of_nat k :: u16) = k" using assms(3) by (simp add: unat_of_nat_small)
  then have "crc16 (add_crc tx (of_nat k)) (of_nat k + 2) = 0"
    using add_crc_good [of "of_nat k" tx] assms by (simp add: head_ok_def)
  then have "crc16 (add_crc tx (of_nat k)) (of_nat (k + 2)) = 0" by (simp add: add.commute)
  moreover have "add_crc tx (of_nat k) ! i = tx ! i" if "i < 3" for i
    using that assms(2) u by (simp add: add_crc_def Let_def)
  ultimately show ?thesis using assms
    by (simp add: frame_ok_def head_ok_def) (simp add: add_crc_def Let_def)
qed

lemma nth_memcpy_rev_below: "i < d \<Longrightarrow> memcpy_rev dst d src s n ! i = dst ! i"
  by (induction n arbitrary: dst d s) simp_all

lemma nth_blit_below: "j < i \<Longrightarrow> i \<le> length b \<Longrightarrow> blit b i xs ! j = b ! j"
  by (simp add: blit_def nth_append)

lemma head_ok_updates:
  assumes "head_ok addr func tx"
  shows "2 \<le> d \<Longrightarrow> head_ok addr func (memcpy_rev tx d src s n)"
    and "2 \<le> d \<Longrightarrow> d \<le> MODBUS_TX_BUF_SIZE \<Longrightarrow> head_ok addr func (blit tx d xs)"
    and "2 \<le> d \<Longrightarrow> head_ok addr func (tx[d := v])"
  using assms by (auto simp: head_ok_def nth_memcpy_rev_below nth_blit_below)

lemma modbus_error_ok:
  assumes "length tx = MODBUS_TX_BUF_SIZE"
  shows "\<exists>tx1. modbus_error func code tx st = (5, tx1) \<and>
    frame_ok (cfg_modbus_addr (active_config st)) func 5 tx1"
proof -
  let ?t = "tx[0 := cfg_modbus_addr (active_config st), 1 := func OR 0x80, 2 := code]"
  have "head_ok (cfg_modbus_addr (active_config st)) func ?t" using assms by (simp add: head_ok_def)
  from frame_okI [OF this, of 3] show ?thesis by (simp add: modbus_error_def)
qed

lemma frame_ok_head: "frame_ok addr func n tx \<Longrightarrow> head_ok addr func tx"
  by (simp add: frame_ok_def head_ok_def)

lemma read_reg_ok:
  assumes "head_ok (cfg_modbus_addr (active_config st)) func tx"
  obtains n tx1 st1 where "read_reg B func reg tx st = (n, tx1, st1)" "n \<le> 6"
    "head_ok (cfg_modbus_addr (active_config st)) func tx1"
proof -
  have len: "length tx = MODBUS_TX_BUF_SIZE" using assms by (simp add: head_ok_def)
  obtain tx2 where e: "modbus_error func ERR_ADDR_NOT_AVAILABLE tx st = (5, tx2)"
    "head_ok (cfg_modbus_addr (active_config st)) func tx2"
    using modbus_error_ok [OF len] frame_ok_head by metis
  show ?thesis
  proof (cases "read_state_reg reg st")
    case (Some v)
    then show ?thesis using that assms by (simp add: read_reg_def head_ok_updates)
  next
    case None
    show ?thesis
    proof (cases "is_config_reg reg")
      case True
      obtain c s1 where c: "config_or_default B (replicate 32 0) (i2c st) = (c, s1)"
        by (cases "config_or_default B (replicate 32 0) (i2c st)")
      have "\<exists>n tx1. read_config_reg reg c tx = Some (n, tx1) \<and> n \<le> 6 \<and>
          head_ok (cfg_modbus_addr (active_config st)) func tx1"
        using True head_ok_updates [OF assms]
        by (auto simp: is_config_reg_def read_config_reg_def)
      with True None c that show ?thesis by (auto simp: read_reg_def)
    next
      case False
      with None e that show ?thesis by (simp add: read_reg_def)
    qed
  qed
qed

lemma store_reg_result:
  assumes "modbus_store_reg B reg data data_len st = (rc, data1, st1)"
  shows "rc \<le> 4" and "active_config st1 = active_config st"
  using assms
  by (auto simp: modbus_store_reg_def store_audio_def store_config_def store_plain_def Let_def
      update_fb_def store_framebuffer_def set_video_mode_def
      split: if_splits option.splits prod.splits)

lemma recv_func_ok:
  assumes ident: "length ident \<le> 120" and r: "recv_func B ident rx rx_len st = (n, tx1, st1)"
  shows "frame_ok (cfg_modbus_addr (active_config st)) (rx 1) n tx1"
proof -
  let ?addr = "cfg_modbus_addr (active_config st)" and ?func = "rx 1"
  define tx where "tx = (replicate MODBUS_TX_BUF_SIZE (0 :: u8))[0 := ?addr, 1 := ?func]"
  have tx: "head_ok ?addr ?func tx" "length tx = MODBUS_TX_BUF_SIZE"
    by (simp_all add: tx_def head_ok_def)
  have err: "frame_ok ?addr ?func n tx1" if "modbus_error ?func code tx st' = (n, tx1)"
    "active_config st' = active_config st" for code st'
    using that modbus_error_ok [OF tx(2), of ?func code st'] by auto
  consider "?func = FUNC_ID" | "?func \<in> {FUNC_READ_COILS, FUNC_READ_DISC_INPUT, FUNC_READ_HOLD_REGS}"
    | "?func \<in> {FUNC_WRITE_ONE_HOLD_REG, FUNC_WRITE_ONE_COIL_REG, FUNC_WRITE_MANY_HOLD_REG,
        FUNC_WRITE_MANY_COIL_REG}"
    | "modbus_error ?func ERR_FUNC_NOT_IMPLEMENTED tx st = (n, tx1)"
    using r by (auto simp: recv_func_def Let_def tx_def split: if_splits prod.splits)
  then show ?thesis
  proof cases
    case 1
    then have "recv_id ident tx = (n, tx1)"
      using r by (auto simp: recv_func_def Let_def tx_def split: prod.splits)
    moreover have "head_ok ?addr ?func ((blit tx 3 (ident @ [0]))[2 := of_nat (length ident)])"
      using tx by (intro head_ok_updates) simp_all
    from frame_okI [OF this, of "length ident + 3"] ident
    have "frame_ok ?addr ?func (length ident + 3 + 2)
        (add_crc ((blit tx 3 (ident @ [0]))[2 := of_nat (length ident)]) (of_nat (length ident + 3)))"
      by simp
    ultimately show ?thesis by (auto simp: recv_id_def Let_def)
  next
    case 2
    then have rd: "recv_read B ?func (ucast (be16 rx 2)) (ucast (be16 rx 4)) tx st = (n, tx1, st1)"
      using r by (auto simp: recv_func_def Let_def tx_def)
    show ?thesis
    proof (cases "(ucast (be16 rx 4) :: u16) = 1")
      case False
      with rd err show ?thesis by (auto simp: recv_read_def split: prod.splits)
    next
      case True
      obtain k tx2 st2 where rr: "read_reg B ?func (ucast (be16 rx 2)) tx st = (k, tx2, st2)" "k \<le> 6"
        "head_ok ?addr ?func tx2"
        using read_reg_ok [OF tx(1)] by blast
      have "frame_ok ?addr ?func (k + 3 + 2) (add_crc (tx2[2 := of_nat k]) (of_nat (k + 3)))"
        using rr by (intro frame_okI head_ok_updates) simp_all
      with rd rr True show ?thesis by (auto simp: recv_read_def)
    qed
  next
    case 3
    then have w: "recv_write B ?func (ucast (be16 rx 2)) rx rx_len tx st = (n, tx1, st1)"
      using r by (auto simp: recv_func_def Let_def tx_def)
    obtain rc data st2 where sr: "modbus_store_reg B (ucast (be16 rx 2)) (\<lambda>i. rx (7 + i))
        (of_nat rx_len - 2 - 7) st = (rc, data, st2)"
      by (cases "modbus_store_reg B (ucast (be16 rx 2)) (\<lambda>i. rx (7 + i)) (of_nat rx_len - 2 - 7) st")
    note rc = store_reg_result [OF sr]
    show ?thesis
    proof (cases "rc < 0")
      case True
      with w sr err [of _ st2] rc show ?thesis
        by (auto simp: recv_write_def split: prod.splits)
    next
      case False
      let ?t = "blit (blit tx 2 (bytes_at rx 2 4)) 6 (bytes_at data 0 (nat rc))"
      have "head_ok ?addr ?func ?t" using tx by (intro head_ok_updates) simp_all
      from frame_okI [OF this, of "6 + nat rc"] rc
      have "frame_ok ?addr ?func (6 + nat rc + 2) (add_crc ?t (of_nat (6 + nat rc)))" by simp
      with w sr False show ?thesis by (auto simp: recv_write_def Let_def)
    qed
  next
    case 4
    then show ?thesis by (rule err) simp
  qed
qed

section \<open>The configuration lock\<close>

abbreviation (input) write_funcs :: "u8 set" where
  "write_funcs \<equiv> {FUNC_WRITE_ONE_HOLD_REG, FUNC_WRITE_ONE_COIL_REG, FUNC_WRITE_MANY_HOLD_REG,
     FUNC_WRITE_MANY_COIL_REG}"

text \<open>A request that writes the register which unlocks the configuration.\<close>

definition unlocks :: "mem \<Rightarrow> bool" where
  "unlocks rx \<longleftrightarrow> rx 1 \<in> write_funcs \<and> (ucast (be16 rx 2) :: u16) = REG_CONFIG_WRITE"

text \<open>Locked, with a working EEPROM holding \<open>m\<close> behind the bus.\<close>

definition locked :: "('s \<Rightarrow> at24) \<Rightarrow> mem \<Rightarrow> 's modbus \<Rightarrow> bool" where
  "locked view m st \<longleftrightarrow> reg_config_write st = 0 \<and> at_rest (view (i2c st)) \<and> cells (view (i2c st)) = m"

lemma config_or_default_spec:
  assumes "at24_serves B view" and "at_rest (view s)"
  obtains s1 where "config_or_default B (replicate 32 0) s =
      (if sealed (stored (view s)) then stored (view s) else default_config, s1)"
    "at_rest (view s1)" "cells (view s1) = cells (view s)"
proof -
  obtain s' where "config_load B (replicate 32 0) s =
      (if sealed (stored (view s)) then 0 else -3, stored (view s), s')"
    "at_rest (view s')" "cells (view s') = cells (view s)"
    using config_load_spec [OF assms, of "replicate 32 0"] by (auto)
  with that [of s'] show ?thesis by (simp add: config_or_default_def)
qed

lemma config_field_range: "config_field reg data = Some f \<Longrightarrow> reg \<ge> 40 \<and> reg < 50"
  by (auto simp: config_field_def split: if_splits)

lemma store_reg_locked:
  assumes "modbus_store_reg B reg data data_len st = (rc, data1, st1)"
    and "locked view m st" and "reg \<noteq> REG_CONFIG_WRITE"
  shows "locked view m st1"
proof -
  consider "st1 = st" | "st1 = snd (store_audio data data_len st)"
    | "st1 = snd (store_plain reg data data_len st)"
    using assms by (auto simp: modbus_store_reg_def locked_def split: if_splits option.splits prod.splits
        dest: config_field_range)
  then show ?thesis
  proof cases
    case 2
    then show ?thesis using assms(2) by (simp add: store_audio_def locked_def Let_def split: prod.splits)
  next
    case 3
    then show ?thesis using assms(2,3)
      by (auto simp: store_plain_def locked_def update_fb_def store_framebuffer_def set_video_mode_def)
  qed (use assms in simp)
qed

lemma read_reg_locked:
  assumes B: "at24_serves B view" and l: "locked view m st"
  shows "locked view m (snd (snd (read_reg B func reg tx st)))"
proof -
  obtain s1 where c: "config_or_default B (replicate 32 0) (i2c st) =
      (if sealed (stored (view (i2c st))) then stored (view (i2c st)) else default_config, s1)"
    "at_rest (view s1)" "cells (view s1) = cells (view (i2c st))"
    using config_or_default_spec [OF B, of "i2c st"] l by (auto simp: locked_def)
  then have "locked view m (st\<lparr>i2c := s1\<rparr>)" using l by (simp add: locked_def)
  with l c(1) show ?thesis
    by (auto simp: read_reg_def Let_def split: option.splits prod.splits)
qed

lemma modbus_recv_locked:
  assumes B: "at24_serves B view" and l: "locked view m st" and u: "\<not> unlocks rx"
  shows "locked view m (snd (snd (modbus_recv B ident rx rx_len tx st)))"
proof -
  have rd: "locked view m (snd (snd (recv_read B func reg qty tx st)))" for func reg qty tx
    using read_reg_locked [OF B l, of func reg tx] l
    by (auto simp: recv_read_def split: prod.splits)
  have wr: "locked view m (snd (snd (recv_write B func (ucast (be16 rx 2)) rx rx_len tx st)))"
    if "rx 1 \<in> write_funcs" for func tx
  proof -
    obtain rc data st1 where sr: "modbus_store_reg B (ucast (be16 rx 2)) (\<lambda>i. rx (7 + i))
        (of_nat rx_len - 2 - 7) st = (rc, data, st1)"
      by (cases "modbus_store_reg B (ucast (be16 rx 2)) (\<lambda>i. rx (7 + i)) (of_nat rx_len - 2 - 7) st")
    have "(ucast (be16 rx 2) :: u16) \<noteq> REG_CONFIG_WRITE" using u that unfolding unlocks_def by blast
    from store_reg_locked [OF sr l this] show ?thesis
      unfolding recv_write_def sr by (simp add: Let_def case_prod_unfold)
  qed
  have "locked view m (snd (snd (recv_func B ident rx rx_len st)))"
    using rd wr l by (simp add: recv_func_def Let_def case_prod_unfold)
  with l show ?thesis by (simp add: modbus_recv_def case_prod_unfold Let_def)
qed

text \<open>The slave serving one request after another.\<close>

definition serve :: "'s i2c_bus \<Rightarrow> u8 list \<Rightarrow> u8 list \<Rightarrow> (mem \<times> nat) list \<Rightarrow> 's modbus \<Rightarrow> 's modbus" where
  "serve B ident tx frames st =
    fold (\<lambda>(rx, rx_len) st. snd (snd (modbus_recv B ident rx rx_len tx st))) frames st"

lemma serve_locked:
  assumes "at24_serves B view" and "locked view m st" and "\<forall>(rx, n)\<in>set frames. \<not> unlocks rx"
  shows "locked view m (serve B ident tx frames st)"
  using assms(2,3)
proof (induction frames arbitrary: st)
  case (Cons fr frames)
  obtain rx n where fr: "fr = (rx, n)" by (cases fr)
  have "locked view m (snd (snd (modbus_recv B ident rx n tx st)))"
    using Cons.prems by (intro modbus_recv_locked [OF assms(1)]) (auto simp: fr)
  with Cons show ?case by (simp add: serve_def fr)
qed (simp add: serve_def)

section \<open>The address registers\<close>

text \<open>The three registers with an IPv4 address and the offset of their field.\<close>

definition address_field :: "u16 \<Rightarrow> nat option" where
  "address_field reg = (if reg = REG_IP_ADDR then Some 4 else if reg = REG_GW_ADDR then Some 8
     else if reg = REG_NETMASK then Some 12 else None)"

lemma memcpy_rev_4:
  "length src = 4 \<Longrightarrow> memcpy_rev c d src 3 4 = blit c d (rev src)" if "d + 4 \<le> length c"
proof -
  assume "length src = 4"
  then obtain w x y z where src: "src = [w, x, y, z]" by (auto simp: numeral_eq_Suc length_Suc_conv)
  have "memcpy_rev c d src 3 4 = c[d := z, d + 1 := y, d + 2 := x, d + 3 := w]"
    by (simp add: src numeral_eq_Suc)
  also have "\<dots> = blit c d (rev src)"
    using that
    by (intro nth_equalityI) (auto simp: src blit_def nth_append nth_list_update nth_Cons' min_def
      intro!: arg_cong [of _ _ "nth c"])
  finally show ?thesis .
qed

lemma address_read:
  assumes "address_field reg = Some d" and "length c = 32" and "length tx = 128"
  shows "\<exists>tx1. read_config_reg reg c tx = Some (4, tx1) \<and> length tx1 = 128 \<and>
    take 4 (drop 3 tx1) = take 4 (drop d c)"
  using assms
  by (auto simp: address_field_def read_config_reg_def cfg_ip_addr_def cfg_gw_addr_def
      cfg_netmask_def blit_def split: if_splits)

lemma address_regs:
  assumes "address_field reg = Some d"
  shows "d + 4 \<le> 30" "is_config_reg reg" "reg \<noteq> REG_AUDIODAC0_BUFFER" "read_state_reg reg st = None"
    "config_field reg data = Some (\<lambda>c. memcpy_rev c d (bytes_at data 0 4) 3 4)"
  using assms by (auto simp: address_field_def is_config_reg_def read_state_reg_def config_field_def
      split: if_splits)

lemma take_drop_seal: "d + 4 \<le> 30 \<Longrightarrow> take 4 (drop d (config_seal c)) = take 4 (drop d c)"
  by (simp add: config_seal_def st16_def drop_update_swap)

lemma store_address:
  assumes B: "at24_serves B view" and rest: "at_rest (view (i2c st))"
    and unlocked: "reg_config_write st \<noteq> 0" and reg: "address_field reg = Some d"
  obtains st1 c where "modbus_store_reg B reg data data_len st = (0, data, st1)"
    "at_rest (view (i2c st1))" "sealed (stored (view (i2c st1)))"
    "take 4 (drop d (stored (view (i2c st1)))) = rev (bytes_at data 0 4)"
    "active_config st1 = active_config st"
proof -
  define c where "c = (if sealed (stored (view (i2c st))) then stored (view (i2c st)) else default_config)"
  obtain s1 where c: "config_or_default B (replicate 32 0) (i2c st) = (c, s1)" "at_rest (view s1)"
    using config_or_default_spec [OF B rest] c_def by auto
  moreover have "length c = 32" by (simp add: c_def stored_def default_config_def)
  ultimately have c: "config_or_default B (replicate 32 0) (i2c st) = (c, s1)" "at_rest (view s1)"
    "length c = 32" by auto
  let ?f = "memcpy_rev c d (bytes_at data 0 4) 3 4"
  have f: "?f = blit c d (rev (bytes_at data 0 4))"
    using address_regs(1) [OF reg] c(3) by (intro memcpy_rev_4) (auto simp: bytes_at_def)
  obtain s2 where s2: "config_save B ?f s1 = (0, config_seal ?f, s2)" "at_rest (view s2)"
    "stored (view s2) = config_seal ?f"
    using config_save_spec [OF B c(2), of ?f] c(3) by auto
  have "take 4 (drop d (config_seal ?f)) = rev (bytes_at data 0 4)"
    using address_regs(1) [OF reg] c(3)
    unfolding take_drop_seal [OF address_regs(1) [OF reg]] f by (simp add: blit_def bytes_at_def)
  moreover have "sealed (config_seal ?f)" using c(3) by (intro config_seal_sealed) simp
  moreover have "modbus_store_reg B reg data data_len st = (0, data, st\<lparr>i2c := s2\<rparr>)"
    using unlocked c(1) s2(1) address_regs(3,5) [OF reg]
    by (simp add: modbus_store_reg_def store_config_def)
  ultimately show ?thesis using that s2 by simp
qed

section \<open>Requests\<close>

text \<open>What a master sends: address, function, register, quantity, further bytes, CRC.\<close>

definition request_body :: "u8 \<Rightarrow> u8 \<Rightarrow> u16 \<Rightarrow> u16 \<Rightarrow> u8 list \<Rightarrow> u8 list" where
  "request_body addr func reg qty extra =
    [addr, func, ucast (drop_bit 8 reg), ucast reg, ucast (drop_bit 8 qty), ucast qty] @ extra"

definition request :: "u8 \<Rightarrow> u8 \<Rightarrow> u16 \<Rightarrow> u16 \<Rightarrow> u8 list \<Rightarrow> u8 list" where
  "request addr func reg qty extra =
    (let body = request_body addr func reg qty extra
     in add_crc (body @ [0, 0]) (of_nat (length body)))"

lemma length_request_body [simp]: "length (request_body addr func reg qty extra) = length extra + 6"
  by (simp add: request_body_def)

lemma length_request [simp]: "length (request addr func reg qty extra) = length extra + 8"
  by (simp add: request_def add_crc_def Let_def)

lemma request_split:
  assumes "length extra \<le> 100"
  shows "request addr func reg qty extra = request_body addr func reg qty extra @
    crc16_tail (crc16 (request_body addr func reg qty extra) (of_nat (length extra + 6)))"
proof -
  let ?b = "request_body addr func reg qty extra"
  have len: "length ?b = length extra + 6" by simp
  have u: "unat (of_nat (length extra + 6) :: u16) = length extra + 6"
    using assms by (intro unat_of_nat_small) simp
  have "crc16 (?b @ [0, 0]) (of_nat (length extra + 6)) = crc16 ?b (of_nat (length extra + 6))"
    unfolding crc16_def u using len by simp
  then show ?thesis
    unfolding request_def Let_def add_crc_def len u
    by (simp add: list_update_append len crc16_tail_def)
qed

lemma request_read:
  assumes "length extra \<le> 100" and "rx = on_stack (request addr func reg qty extra) behind"
  shows "rx 0 = addr" and "rx 1 = func" and "(ucast (be16 rx 2) :: u16) = reg"
    and "(ucast (be16 rx 4) :: u16) = qty"
    and "i < length extra \<Longrightarrow> rx (6 + i) = extra ! i"
proof -
  have n: "rx i = request_body addr func reg qty extra ! i" if "i < length extra + 6" for i
    using that assms by (simp add: on_stack_def request_split nth_append)
  have w: "ucast (push_bit 8 (ucast (ucast (drop_bit 8 v) :: u8)) OR ucast (ucast v :: u8) :: u32) = v"
    for v :: u16
    by (rule bit_word_eqI) (auto simp: bit_simps)
  show "rx 0 = addr" "rx 1 = func" "(ucast (be16 rx 2) :: u16) = reg" "(ucast (be16 rx 4) :: u16) = qty"
    "i < length extra \<Longrightarrow> rx (6 + i) = extra ! i"
    using w by (simp_all add: n be16_def request_body_def nth_append)
qed

lemma request_for_us:
  assumes "length extra \<le> 100" and "rx = on_stack (request addr func reg qty extra) behind"
    and "addr = cfg_modbus_addr (active_config st)"
  shows "for_us rx (length extra + 8) st"
proof -
  let ?b = "request_body addr func reg qty extra" and ?k = "length extra + 6"
  have len: "length ?b = ?k" by simp
  have u: "unat (of_nat ?k :: u16) = ?k" using assms(1) by (intro unat_of_nat_small) simp
  let ?c = "crc16 ?b (of_nat ?k)"
  have all: "bytes_at rx 0 (?k + 2) = ?b @ crc16_tail ?c"
    using assms(1,2)
    by (intro nth_equalityI) (simp_all add: bytes_at_def on_stack_def request_split len crc16_tail_def)
  have my: "my_crc16 rx (?k + 2) = ?c"
    unfolding my_crc16_def all add_diff_cancel_right' crc16_def u by simp
  have "rx ?k = crc16_tail ?c ! 0" "rx (?k + 1) = crc16_tail ?c ! 1"
    using arg_cong [OF all, of "\<lambda>xs. xs ! ?k"] arg_cong [OF all, of "\<lambda>xs. xs ! (?k + 1)"] len
    by (simp_all add: bytes_at_def nth_append crc16_tail_def del: upt_Suc)
  then have "crc16_tail ?c = [rx ?k, rx (?k + 1)]" by (simp add: crc16_tail_def)
  then have "his_crc16 rx (?k + 2) = ?c"
    unfolding crc16_tail_ld16 by (simp add: his_crc16_def or.commute add.commute)
  with my request_read(1) [OF assms(1,2)] assms(3) show ?thesis
    by (simp add: for_us_def eval_nat_numeral)
qed

section \<open>Properties\<close>

text \<open>C7. \<open>modbus_recv\<close> refuses what is too short and ignores, without any effect, what has a
  wrong CRC or another slave's address; every other request it answers with a frame inside the
  transmit buffer whose CRC is right, which carries the slave's address and the function code of
  the request, possibly with the error flag.\<close>

theorem modbus_recv_answers:
  assumes "length ident \<le> 120"
  shows "case modbus_recv B ident rx rx_len tx st of (n, tx1, st1) \<Rightarrow>
    if rx_len < 5 then n = -1 \<and> tx1 = tx \<and> st1 = st
    else if \<not> for_us rx rx_len st then n = 0 \<and> tx1 = tx \<and> st1 = st
    else frame_ok (cfg_modbus_addr (active_config st)) (rx 1) (nat n) tx1"
  using recv_func_ok [OF assms, of B rx rx_len st]
  by (auto simp: modbus_recv_def split: prod.splits)

text \<open>C9. While \<open>reg_config_write\<close> is zero, no sequence of requests changes a byte of the EEPROM
  unless one of them writes the register that unlocks the configuration: with a working EEPROM
  at rest, after all requests the cells are what they were and the lock is still closed.\<close>

theorem config_lock_holds:
  assumes "at24_serves B view" and "at_rest (view (i2c st))" and "reg_config_write st = 0"
    and "\<forall>(rx, n)\<in>set frames. \<not> unlocks rx"
  shows "cells (view (i2c (serve B ident tx frames st))) = cells (view (i2c st)) \<and>
    reg_config_write (serve B ident tx frames st) = 0"
proof -
  have "locked view (cells (view (i2c st))) st" using assms by (simp add: locked_def)
  from serve_locked [OF assms(1) this assms(4)] show ?thesis by (simp add: locked_def)
qed

text \<open>The three IPv4 address registers reverse addresses. With a working EEPROM at rest and
  the configuration unlocked, a master writes the four address bytes \<open>data\<close> and reads the register
  back: the write is confirmed, but the answer to the read, and the field in the EEPROM that the
  next start loads, hold the bytes in the opposite order.\<close>

theorem address_register_reversed:
  assumes "at24_serves B view" and "at_rest (view (i2c st))" and "reg_config_write st \<noteq> 0"
    and "address_field reg = Some d" and "length data = 4"
    and "wr = on_stack (request (cfg_modbus_addr (active_config st)) FUNC_WRITE_MANY_HOLD_REG reg 2
      (4 # data)) behind"
    and "rd = on_stack (request (cfg_modbus_addr (active_config st)) FUNC_READ_HOLD_REGS reg 1 [])
      behind"
    and "modbus_recv B ident wr 13 tx st = (n1, tx1, st1)"
    and "modbus_recv B ident rd 8 tx1 st1 = (n2, tx2, st2)"
  shows "n1 = 8 \<and> n2 = 9 \<and> take 4 (drop 3 tx2) = rev data \<and>
    take 4 (drop d (stored (view (i2c st2)))) = rev data"
proof -
  note W = request_read [of "4 # data", OF _ assms(6)] and R = request_read [of "[]", OF _ assms(7)]
  have "wr (7 + i) = data ! i" if "i < 4" for i using W(5) [of "Suc i"] that assms(5) by simp
  then have data: "bytes_at (\<lambda>i. wr (7 + i)) 0 4 = data"
    using assms(5) by (intro nth_equalityI) (auto simp: bytes_at_def simp del: upt_Suc)
  have w: "wr 1 = FUNC_WRITE_MANY_HOLD_REG" "(ucast (be16 wr 2) :: u16) = reg"
    "for_us wr 13 st"
    using W(2,3) request_for_us [of "4 # data", OF _ assms(6)] assms(5) by auto
  obtain st1' where s: "modbus_store_reg B reg (\<lambda>i. wr (7 + i)) (of_nat 13 - 2 - 7) st =
      (0, \<lambda>i. wr (7 + i), st1')"
    "at_rest (view (i2c st1'))" "sealed (stored (view (i2c st1')))"
    "take 4 (drop d (stored (view (i2c st1')))) = rev data"
    "active_config st1' = active_config st"
    using store_address [OF assms(1-4), of "\<lambda>i. wr (7 + i)"] data by metis
  define t0 where "t0 = (replicate MODBUS_TX_BUF_SIZE (0 :: u8))
    [0 := cfg_modbus_addr (active_config st), 1 := wr 1]"
  obtain t where "recv_write B (wr 1) reg wr 13 t0 st = (8, t, st1')"
    unfolding recv_write_def s(1) by (simp add: Let_def)
  then have "modbus_recv B ident wr 13 tx st = (8, t, st1')"
    using w by (simp add: modbus_recv_def recv_func_def t0_def)
  then have st1: "st1 = st1'" "n1 = 8" using assms(8) by auto
  obtain s2 where c: "config_or_default B (replicate 32 0) (i2c st1') = (stored (view (i2c st1')), s2)"
    "at_rest (view s2)" "cells (view s2) = cells (view (i2c st1'))"
    using config_or_default_spec [OF assms(1) s(2)] s(3) by auto
  define t where "t = (replicate MODBUS_TX_BUF_SIZE (0 :: u8))
    [0 := cfg_modbus_addr (active_config st1'), 1 := rd 1]"
  have "length t = 128" "length (stored (view (i2c st1'))) = 32" by (simp_all add: t_def stored_def)
  then obtain t2 where t2: "read_config_reg reg (stored (view (i2c st1'))) t = Some (4, t2)"
    "length t2 = 128" "take 4 (drop 3 t2) = take 4 (drop d (stored (view (i2c st1'))))"
    using address_read [OF assms(4)] by blast
  have rr: "read_reg B (rd 1) reg t st1' = (4, t2, st1'\<lparr>i2c := s2\<rparr>)"
    using c(1) t2(1) by (simp add: read_reg_def address_regs(2,4) [OF assms(4)])
  have "for_us rd 8 st1'" using request_for_us [of "[]", OF _ assms(7), of st1'] s(5) by simp
  then have "modbus_recv B ident rd 8 tx1 st1' = (9, add_crc (t2[2 := 4]) 7, st1'\<lparr>i2c := s2\<rparr>)"
    using R(2,3,4) rr by (simp add: modbus_recv_def recv_func_def t_def recv_read_def)
  moreover have "take 4 (drop 3 (add_crc (t2[2 := 4]) 7)) = take 4 (drop 3 t2)"
    using t2(2) by (simp add: add_crc_def Let_def drop_update_swap)
  ultimately show ?thesis using assms(9) st1 t2 s(4) c(3) by (auto simp: stored_def)
qed

text \<open>A fragment of one to four bytes is enough to make either transport leave its buffer:
  \<open>modbus_recv\<close> returns \<open>-1\<close>, which the transports keep in a \<open>uint32_t\<close> and take for a length. The
  serial side then sends four gigabytes of memory; the UDP side copies as many bytes into a packet
  buffer for which it has asked zero bytes.\<close>

theorem short_frame_overruns:
  assumes "0 < n" and "n < 5" and "mtime - rtu_timestamp r \<ge> 10000" and "rtu_rx_len r = n"
    and "alloc 0 = Some 0"
  shows "length (fst (modbus_rtu_poll B ident mtime rx_stack tx_stack behind r st)) = 2 ^ 32 - 1 \<and>
    (\<exists>out. fst (modbus_udp_recv B ident alloc tx_stack behind payload (of_nat n) st) =
       Some (Udp_copied 0 out) \<and> length out = 2 ^ 32)"
proof -
  have u: "unat (of_nat n :: u16) = n" using assms(2) by (simp add: unat_of_nat_small)
  have l: "length (bytes_at m 0 (unat (word_of_int (- 1) :: u32))) = 2 ^ 32 - 1" for m
    by (simp add: bytes_at_def unsigned_minus_1_eq_mask mask_eq_exp_minus_1)
  show ?thesis
    using assms u l
    by (auto simp: modbus_rtu_poll_def modbus_udp_recv_def modbus_recv_def modbus_udp_send_def Let_def
        word_greater_zero_iff)
qed

section \<open>Witnesses\<close>

definition demo_modbus :: "sim modbus" where
  "demo_modbus = \<lparr>reg_color = 0x3F, reg_video_mode = 1, reg_video_frame_size = 19200,
    reg_irq_counter = 0, reg_sys_counter = 0, reg_scratch = 0, reg_config_write = 0,
    active_config = default_config, cga_fb = (\<lambda>_. 0), hub_fb = (\<lambda>_. 0), audio = demo_dac,
    i2c = demo_bus, rebooted = False\<rparr>"

lemma demo_at_rest: "at_rest (part (i2c demo_modbus))"
  by (simp add: demo_modbus_def at_rest_def demo_bus_def demo_part_def)

theorem modbus_recv_answers_witness:
  "case modbus_recv sim_bus [72, 85, 66] (\<lambda>_. 1) 2 [] demo_modbus of (n, tx1, st1) \<Rightarrow>
    if (2 :: nat) < 5 then n = -1 \<and> tx1 = [] \<and> st1 = demo_modbus
    else if \<not> for_us (\<lambda>_. 1) 2 demo_modbus then n = 0 \<and> tx1 = [] \<and> st1 = demo_modbus
    else frame_ok (cfg_modbus_addr (active_config demo_modbus)) 1 (nat n) tx1"
  by (rule modbus_recv_answers) simp

theorem config_lock_holds_witness:
  "cells (part (i2c (serve sim_bus [72] []
      [(on_stack (request 1 6 44 1 [0, 0, 0, 0, 9]) (\<lambda>_. 0), 13)] demo_modbus))) =
    cells (part (i2c demo_modbus)) \<and>
   reg_config_write (serve sim_bus [72] []
      [(on_stack (request 1 6 44 1 [0, 0, 0, 0, 9]) (\<lambda>_. 0), 13)] demo_modbus) = 0"
proof (rule config_lock_holds [OF sim_serves demo_at_rest])
  let ?rx = "on_stack (request 1 6 44 1 [0, 0, 0, 0, 9]) (\<lambda>_. 0)"
  have "(ucast (be16 ?rx 2) :: u16) = 44" by (rule request_read(3) [OF _ refl]) simp
  then show "\<forall>(rx, n)\<in>set [(?rx, 13)]. \<not> unlocks rx" by (simp add: unlocks_def)
qed (simp add: demo_modbus_def)

definition open_modbus :: "sim modbus" where
  "open_modbus = demo_modbus\<lparr>reg_config_write := 1\<rparr>"

theorem address_register_reversed_witness:
  "let wr = on_stack (request 1 0x10 41 2 [4, 192, 168, 1, 10]) (\<lambda>_. 0);
       rd = on_stack (request 1 3 41 1 []) (\<lambda>_. 0);
       (n1, tx1, st1) = modbus_recv sim_bus [] wr 13 [] open_modbus;
       (n2, tx2, st2) = modbus_recv sim_bus [] rd 8 tx1 st1
   in n1 = 8 \<and> n2 = 9 \<and> take 4 (drop 3 tx2) = rev [192, 168, 1, 10] \<and>
      take 4 (drop 4 (stored (part (i2c st2)))) = rev [192, 168, 1, 10]"
proof -
  have c: "cfg_modbus_addr (active_config open_modbus) = 1" "reg_config_write open_modbus \<noteq> 0"
    "at_rest (part (i2c open_modbus))" "address_field 41 = Some 4"
    using demo_at_rest
    by (simp_all add: open_modbus_def demo_modbus_def cfg_modbus_addr_def default_config_def
        address_field_def)
  show ?thesis
    unfolding Let_def
    using address_register_reversed [OF sim_serves c(3,2,4), of "[192, 168, 1, 10]"]
    by (auto simp: c split: prod.splits)
qed

theorem short_frame_overruns_witness:
  "length (fst (modbus_rtu_poll sim_bus [] 20000 [] [] (\<lambda>_. 0)
      \<lparr>rtu_rx_buf = [7], rtu_rx_len = 1, rtu_timestamp = 0\<rparr> demo_modbus)) = 2 ^ 32 - 1 \<and>
    (\<exists>out. fst (modbus_udp_recv sim_bus [] (\<lambda>n. Some (unat n)) [] (\<lambda>_. 0) (\<lambda>_. 7) (of_nat 1) demo_modbus) =
       Some (Udp_copied 0 out) \<and> length out = 2 ^ 32)"
  by (rule short_frame_overruns) simp_all

end
