(* ===== verification/Mac.thy ===== *)
theory Mac
  imports KPrelude "HOL-Library.Monad_Syntax" "HOL-Library.Sublist"
begin

text \<open>
  The Ethernet driver (mac.c, mac.h) between the FIFOs of the controller, which hold 32-bit words, and
  lwIP, which holds a packet as a chain of buffers.

  \<^item> The controller and lwIP are the parameter \<open>D\<close>: reading and writing the registers, \<open>pbuf_alloc\<close>,
    \<open>netif.input\<close> and the statistics. A chain is the list of the payloads of its buffers;
    \<open>pbuf_header\<close> hides and shows the two padding bytes in front of the first one, as lwIP's code does.
  \<^item> \<^term>\<open>None\<close> is a call that does not return because a FIFO stays empty or full, or that writes
    behind a buffer or through the pointer a former packet has left.
\<close>

section \<open>The controller and lwIP\<close>

datatype link_counter = Recv | Xmit | Memerr | Drop

record 's mac_io =
  read_ctrl :: "'s \<Rightarrow> u32 \<times> 's"
  write_ctrl :: "u32 \<Rightarrow> 's \<Rightarrow> 's"
  read_rx :: "'s \<Rightarrow> u32 \<times> 's"
  read_tx_avail :: "'s \<Rightarrow> u32 \<times> 's"
  write_tx :: "u32 \<Rightarrow> 's \<Rightarrow> 's"
  delay_us :: "u32 \<Rightarrow> 's \<Rightarrow> 's"
  led2_on :: "'s \<Rightarrow> 's"
  stats_inc :: "link_counter \<Rightarrow> 's \<Rightarrow> 's"
  pbuf_alloc :: "u16 \<Rightarrow> 's \<Rightarrow> u8 list list option \<times> 's"
  netif_input :: "u8 list list \<Rightarrow> 's \<Rightarrow> int \<times> 's"
  pbuf_free :: "'s \<Rightarrow> 's"

abbreviation (input) MAC_CTRL_TX_RESET :: u32 where "MAC_CTRL_TX_RESET \<equiv> 0x01"
abbreviation (input) MAC_CTRL_TX_READY :: u32 where "MAC_CTRL_TX_READY \<equiv> 0x02"
abbreviation (input) MAC_CTRL_RX_RESET :: u32 where "MAC_CTRL_RX_RESET \<equiv> 0x10"
abbreviation (input) MAC_CTRL_RX_PENDING :: u32 where "MAC_CTRL_RX_PENDING \<equiv> 0x20"
abbreviation (input) ETH_PAD_SIZE :: nat where "ETH_PAD_SIZE \<equiv> 2"

definition mac_rxPending :: "'s mac_io \<Rightarrow> 's \<Rightarrow> u32 \<times> 's" where
  "mac_rxPending D s = (let (c, s) = read_ctrl D s in (c AND MAC_CTRL_RX_PENDING, s))"

definition mac_txReady :: "'s mac_io \<Rightarrow> 's \<Rightarrow> u32 \<times> 's" where
  "mac_txReady D s = (let (c, s) = read_ctrl D s in (c AND MAC_CTRL_TX_READY, s))"

text \<open>\<open>pbuf_header(p, -ETH_PAD_SIZE)\<close> and \<open>pbuf_header(p, ETH_PAD_SIZE)\<close>; the first one fails, and
  changes nothing, when the first buffer is too short.\<close>

definition hide_pad :: "u8 list list \<Rightarrow> u8 list \<times> u8 list list" where
  "hide_pad p = (case p of [] \<Rightarrow> ([], [])
     | f # r \<Rightarrow> if ETH_PAD_SIZE \<le> length f then (take ETH_PAD_SIZE f, drop ETH_PAD_SIZE f # r) else ([], p))"

definition show_pad :: "u8 list \<Rightarrow> u8 list list \<Rightarrow> u8 list list" where
  "show_pad pad p = (case p of [] \<Rightarrow> [] | f # r \<Rightarrow> (pad @ f) # r)"

section \<open>Receiving\<close>

text \<open>\<open>while(mac_rxPending(MAC) == 0);\<close> and the read behind it.\<close>

primrec next_rx :: "nat \<Rightarrow> 's mac_io \<Rightarrow> 's \<Rightarrow> (u32 \<times> 's) option" where
  "next_rx 0 D s = None"
| "next_rx (Suc fuel) D s =
    (let (p, s) = mac_rxPending D s in if p = 0 then next_rx fuel D s else Some (read_rx D s))"

text \<open>\<open>while(bytes_left > 0)\<close> with \<open>bytes_left -= 4\<close>.\<close>

fun empty_rx :: "nat \<Rightarrow> 's mac_io \<Rightarrow> nat \<Rightarrow> 's \<Rightarrow> 's option" where
  "empty_rx fuel D bytes_left s =
    (if bytes_left = 0 then Some s
     else do { (_, s) \<leftarrow> next_rx fuel D s; empty_rx fuel D (bytes_left - 4) s })"

text \<open>The loop that stores a frame. \<open>i\<close> buffers of the chain have been entered, \<open>j\<close> bytes of the last
  one are written. The flag tells whether the chain was long enough.\<close>

primrec rx_fill :: "nat \<Rightarrow> 's mac_io \<Rightarrow> nat \<Rightarrow> nat \<Rightarrow> nat \<Rightarrow> u32 \<Rightarrow> nat \<Rightarrow> u32 \<Rightarrow> u8 list list \<Rightarrow> 's
    \<Rightarrow> (bool \<times> u32 \<times> u8 list list \<times> 's) option" where
  "rx_fill fuel D 0 i j q_left byteId word p s = Some (True, q_left, p, s)"
| "rx_fill fuel D (Suc bytes_left) i j q_left byteId word p s =
    (if q_left = 0 \<and> length p \<le> i then do {
       s \<leftarrow> empty_rx fuel D (Suc bytes_left) (stats_inc D Drop (stats_inc D Memerr (led2_on D s)));
       Some (False, q_left, p, s)
     } else (let (i, j, q_left) = (if q_left = 0 then (i + 1, 0, of_nat (length (p ! i))) else (i, j, q_left)) in
       if i = 0 \<or> length (p ! (i - 1)) \<le> j then None
       else do {
         (word, s) \<leftarrow> (if byteId = 0 then next_rx fuel D s else Some (word, s));
         rx_fill fuel D bytes_left i (j + 1) (q_left - 1) ((byteId + 1) mod 4) (drop_bit 8 word)
           (p[i - 1 := (p ! (i - 1))[j := ucast word]]) s
       }))"

text \<open>One packet: \<open>bits\<close> is the word in front of it. The flag tells whether the loop of \<open>mac_rx\<close>
  goes on.\<close>

definition rx_packet :: "nat \<Rightarrow> 's mac_io \<Rightarrow> u32 \<Rightarrow> u32 \<Rightarrow> 's \<Rightarrow> (bool \<times> u32 \<times> 's) option" where
  "rx_packet fuel D bits q_left s =
    (let bytes_left = (bits + 7) div 8 in
     if 2048 < bytes_left
     then Some (False, q_left, write_ctrl D 0 (delay_us D 10000 (write_ctrl D (MAC_CTRL_TX_RESET OR MAC_CTRL_RX_RESET) s)))
     else (let (p, s) = pbuf_alloc D (ucast bytes_left + of_nat ETH_PAD_SIZE) s in
       case p of None \<Rightarrow> do {
           s \<leftarrow> empty_rx fuel D (unat bytes_left) (stats_inc D Drop (stats_inc D Memerr (led2_on D s)));
           Some (False, q_left, s)
         }
       | Some p \<Rightarrow> (let (pad, p) = hide_pad p in do {
           (ok, q_left, p, s) \<leftarrow> rx_fill fuel D (unat bytes_left) 0 0 q_left 0 0 p s;
           if \<not> ok then Some (True, q_left, pbuf_free D s)
           else (let (rc, s) = netif_input D (show_pad pad p) (stats_inc D Recv s);
                     s = (if rc \<noteq> 0 then led2_on D s else s) in Some (True, q_left, pbuf_free D s))
         })))"

primrec rx_loop :: "nat \<Rightarrow> nat \<Rightarrow> 's mac_io \<Rightarrow> u32 \<Rightarrow> 's \<Rightarrow> 's option" where
  "rx_loop 0 fuel D q_left s = None"
| "rx_loop (Suc packets) fuel D q_left s =
    (let (p, s) = mac_rxPending D s in
     if p = 0 then Some s
     else (let (bits, s) = read_rx D s in do {
       (more, q_left, s) \<leftarrow> rx_packet fuel D bits q_left s;
       if more then rx_loop packets fuel D q_left s else Some s
     }))"

definition mac_rx :: "nat \<Rightarrow> 's mac_io \<Rightarrow> 's \<Rightarrow> 's option" where
  "mac_rx fuel D s = rx_loop fuel fuel D 0 s"

declare empty_rx.simps [simp del]

section \<open>Sending\<close>

abbreviation (input) ERR_OK :: int where "ERR_OK \<equiv> 0"
abbreviation (input) ERR_ARG :: int where "ERR_ARG \<equiv> -16"

text \<open>\<open>while(mac_writeAvailability(MAC) == 0);\<close> and the write behind it.\<close>

primrec push_tx :: "nat \<Rightarrow> 's mac_io \<Rightarrow> u32 \<Rightarrow> 's \<Rightarrow> 's option" where
  "push_tx 0 D w s = None"
| "push_tx (Suc fuel) D w s =
    (let (a, s) = read_tx_avail D s in if a = 0 then push_tx fuel D w s else Some (write_tx D w s))"

primrec wait_tx_ready :: "nat \<Rightarrow> 's mac_io \<Rightarrow> 's \<Rightarrow> 's option" where
  "wait_tx_ready 0 D s = None"
| "wait_tx_ready (Suc fuel) D s =
    (let (r, s) = mac_txReady D s in if r = 0 then wait_tx_ready fuel D s else Some s)"

text \<open>The bytes of one buffer: \<open>word\<close> collects them, \<open>byte_idx\<close> counts them.\<close>

primrec tx_bytes :: "nat \<Rightarrow> 's mac_io \<Rightarrow> u8 list \<Rightarrow> u32 \<Rightarrow> nat \<Rightarrow> 's \<Rightarrow> (u32 \<times> nat \<times> 's) option" where
  "tx_bytes fuel D [] word byte_idx s = Some (word, byte_idx, s)"
| "tx_bytes fuel D (b # payload) word byte_idx s =
    (let word = word OR push_bit (byte_idx * 8) (ucast b) in do {
       (word, s) \<leftarrow> (if byte_idx = 3 then do { s \<leftarrow> push_tx fuel D word s; Some (0, s) } else Some (word, s));
       tx_bytes fuel D payload word ((byte_idx + 1) mod 4) s
     })"

primrec tx_chain :: "nat \<Rightarrow> 's mac_io \<Rightarrow> u8 list list \<Rightarrow> u32 \<Rightarrow> nat \<Rightarrow> 's \<Rightarrow> (u32 \<times> nat \<times> 's) option" where
  "tx_chain fuel D [] word byte_idx s = Some (word, byte_idx, s)"
| "tx_chain fuel D (q # p) word byte_idx s = do {
     (word, byte_idx, s) \<leftarrow> tx_bytes fuel D q word byte_idx s;
     tx_chain fuel D p word byte_idx s
   }"

text \<open>\<open>netif\<close> tells whether the pointer is not null; the empty chain is the null pointer \<open>p\<close>.\<close>

definition mac_tx_packet :: "nat \<Rightarrow> 's mac_io \<Rightarrow> bool \<Rightarrow> u8 list list \<Rightarrow> 's \<Rightarrow> (int \<times> u8 list list \<times> 's) option" where
  "mac_tx_packet fuel D netif p s =
    (if \<not> netif \<or> p = [] then Some (ERR_ARG, p, led2_on D s)
     else (let (pad, p) = hide_pad p;
               frame_size = foldl (\<lambda>n q. n + of_nat (length q)) 0 p;
               bits = frame_size * 8 in do {
       s \<leftarrow> wait_tx_ready fuel D s;
       s \<leftarrow> push_tx fuel D bits s;
       (word, byte_idx, s) \<leftarrow> tx_chain fuel D p 0 0 s;
       s \<leftarrow> (if byte_idx \<noteq> 0 then push_tx fuel D word s else Some s);
       Some (ERR_OK, show_pad pad p, stats_inc D Xmit s)
     }))"

section \<open>The timers\<close>

text \<open>
  \<open>mac_poll\<close> as it is compiled: \<open>LPFW_ARP\<close> and \<open>IPFW_TCP\<close> are not defined anywhere and
  \<open>IP_REASSEMBLY\<close> is 0, so that only the timers of DHCP are left of the four. \<open>ts_now\<close> is
  \<open>sys_now()\<close>, \<open>irq\<close> the interrupt line. Returned are the timers run and whether \<open>mac_rx\<close> is called.
\<close>

datatype lwip_timer = Dhcp_fine | Dhcp_coarse

record mac_timers =
  ts_etharp :: u32
  ts_ipreass :: u32
  ts_dhcp_fine :: u32
  ts_dhcp_coarse :: u32

definition mac_poll :: "u32 \<Rightarrow> bool \<Rightarrow> mac_timers \<Rightarrow> lwip_timer list \<times> bool \<times> mac_timers" where
  "mac_poll ts_now irq m =
    (if ts_now \<le> ts_etharp m \<or> ts_now \<le> ts_ipreass m then ([], False, m\<lparr>ts_etharp := ts_now, ts_ipreass := ts_now\<rparr>)
     else (let (f, m) = (if 500 \<le> ts_now - ts_dhcp_fine m then ([Dhcp_fine], m\<lparr>ts_dhcp_fine := ts_now\<rparr>) else ([], m));
               (c, m) = (if 60 * 1000 \<le> ts_now - ts_dhcp_coarse m then ([Dhcp_coarse], m\<lparr>ts_dhcp_coarse := ts_now\<rparr>) else ([], m)) in
       (f @ c, irq, m)))"

section \<open>Frames as words\<close>

text \<open>Four bytes in a word, the first one lowest; the last word of a frame is filled with zeros.\<close>

primrec le_word :: "u8 list \<Rightarrow> u32" where
  "le_word [] = 0"
| "le_word (b # bs) = ucast b OR push_bit 8 (le_word bs)"

fun pack :: "u8 list \<Rightarrow> u32 list" where
  "pack [] = []"
| "pack (b # bs) = le_word (b # take 3 bs) # pack (drop 3 bs)"

definition frame_words :: "u8 list \<Rightarrow> u32 list" where
  "frame_words xs = of_nat (length xs * 8) # pack xs"

lemma le_word_low: "ucast (le_word (b # bs)) = b"
  by (rule bit_word_eqI) (simp add: bit_simps)

lemma bit_le_word: "bit (le_word bs) n \<Longrightarrow> n < 8 * length bs"
proof (induction bs arbitrary: n)
  case (Cons b bs)
  then consider "bit b n" | "8 \<le> n" "bit (le_word bs) (n - 8)" by (auto simp: bit_simps)
  then show ?case
  proof cases
    case 2
    then show ?thesis using Cons.IH [of "n - 8"] by simp
  qed (use bit_imp_le_length [of b n] in simp)
qed simp

lemma le_word_shift: "length bs \<le> 3 \<Longrightarrow> drop_bit 8 (le_word (b # bs)) = le_word bs"
proof (rule bit_word_eqI)
  fix n assume l: "length bs \<le> 3" and n: "n < LENGTH(32)"
  have "\<not> bit b (8 + n)" using bit_imp_le_length [of b "8 + n"] by auto
  then show "bit (drop_bit 8 (le_word (b # bs))) n = bit (le_word bs) n"
    using bit_le_word [of bs n] l n by (auto simp: bit_simps)
qed

lemma le_word_snoc: "length bs \<le> 3 \<Longrightarrow> le_word (bs @ [b]) = le_word bs OR push_bit (8 * length bs) (ucast b)"
  by (induction bs) (simp_all add: push_bit_or push_bit_push_bit or.assoc)

lemma pack_append: "length xs = 4 \<Longrightarrow> pack (xs @ ys) = le_word xs # pack ys"
  by (cases xs) auto

lemma pack_short: "xs \<noteq> [] \<Longrightarrow> length xs \<le> 4 \<Longrightarrow> pack xs = [le_word xs]"
  by (cases xs) auto

text \<open>Writing a byte of a buffer of a chain is writing a byte of the chain.\<close>

lemma concat_update:
  "i < length p \<Longrightarrow> j < length (p ! i) \<Longrightarrow>
    concat (p[i := (p ! i)[j := b]]) = (concat p)[length (concat (take i p)) + j := b]"
proof (induction p arbitrary: i)
  case (Cons q p)
  then show ?case by (cases i) (auto simp: list_update_append)
qed simp

lemma concat_room: "i < length p \<Longrightarrow> length (concat (take i p)) + length (p ! i) \<le> length (concat p)"
proof (induction p arbitrary: i)
  case (Cons q p)
  then show ?case by (cases i) auto
qed simp

lemma concat_take_Suc: "i < length p \<Longrightarrow> concat (take (Suc i) p) = concat (take i p) @ p ! i"
  by (simp add: take_Suc_conv_app_nth)

lemma rx_fill_length:
  "rx_fill fuel D n i j q_left byteId word p s = Some (ok, q, p', s') \<Longrightarrow> length p' = length p"
proof (induction n arbitrary: i j q_left byteId word p s)
  case (Suc n)
  then show ?case
    by (fastforce simp: Let_def split: if_splits Option.bind_splits prod.splits)
qed simp

lemma concat_show_pad: "p \<noteq> [] \<Longrightarrow> concat (show_pad pad p) = pad @ concat p"
  by (cases p) (simp_all add: show_pad_def)

section \<open>The contract with the controller and lwIP\<close>

text \<open>
  \<open>view\<close> shows the words of the frames for the host, the words sent, and the packets handed to lwIP. All of it takes time:

  \<^item> \<open>here\<close> is the number of the words that have arrived in the receive FIFO; reading it before gives nothing.
  \<^item> \<open>room\<close> is the space in the transmit FIFO; a word written without space is lost, and so is one that is written before the
    transmitter was ready for a frame, \<open>free\<close>.
  \<^item> \<open>late\<close> bounds how often the registers are read until there is a word, space or the transmitter is ready; it stays
    below \<open>slow\<close>.
  \<^item> \<open>pbuf_alloc\<close> may have no memory. Otherwise it gives a chain of buffers that are not empty, of the total length asked
    for, the first of them longer than the padding. \<open>mac_rx\<close> frees a packet that lwIP has freed already. The contract assumes that this
    changes none of the packets delivered: assertions are compiled out (arch/cc.h), so that \<open>pbuf_free\<close> lowers the
    count of references from 0 to 255 and frees nothing, as long as the memory is not in use again.
\<close>

locale mac_link =
  fixes D :: "'s mac_io" and view :: "'s \<Rightarrow> u32 list \<times> u32 list \<times> u8 list list"
    and here room late :: "'s \<Rightarrow> nat" and free :: "'s \<Rightarrow> bool" and slow :: nat
  assumes ctrl: "read_ctrl D s = (c, s') \<Longrightarrow> view s' = view s \<and>
      (c AND MAC_CTRL_RX_PENDING \<noteq> 0 \<longrightarrow> 0 < here s') \<and> (c AND MAC_CTRL_TX_READY \<noteq> 0 \<longrightarrow> free s') \<and>
      (c AND MAC_CTRL_RX_PENDING = 0 \<and> fst (view s) \<noteq> [] \<longrightarrow> late s' < late s) \<and>
      (c AND MAC_CTRL_TX_READY = 0 \<longrightarrow> late s' < late s)"
    and here: "0 < here s \<Longrightarrow> fst (view s) \<noteq> []"
    and late: "late s \<le> slow"
    and rx: "view s = (w # r, v) \<Longrightarrow> 0 < here s \<Longrightarrow> read_rx D s = (x, s') \<Longrightarrow> x = w \<and> view s' = (r, v)"
    and tx_avail: "read_tx_avail D s = (a, s') \<Longrightarrow> view s' = view s \<and> (free s \<longrightarrow> free s') \<and>
      (if a = 0 then late s' < late s else 0 < room s')"
    and tx: "view s = (r, t, g) \<Longrightarrow> 0 < room s \<Longrightarrow> free s \<Longrightarrow> view (write_tx D w s) = (r, t @ [w], g) \<and> free (write_tx D w s)"
    and quiet: "view (led2_on D s) = view s" "view (stats_inc D k s) = view s" "view (pbuf_free D s) = view s"
    and alloc: "pbuf_alloc D n s = (p, s') \<Longrightarrow> view s' = view s \<and> (p \<noteq> None \<longrightarrow> (\<exists>f q. p = Some (f # q) \<and>
      length (concat (f # q)) = unat n \<and> (\<forall>b \<in> set q. b \<noteq> []) \<and> (2 < length f \<or> length f = unat n)))"
    and input: "netif_input D ch s = (rc, s') \<Longrightarrow> view s = (r, t, g) \<Longrightarrow> view s' = (r, t, g @ [concat ch])"
begin

lemma next_rx_word:
  assumes "view s = (w # r, v)" "slow \<le> fuel"
  obtains s' where "next_rx (Suc fuel) D s = Some (w, s')" "view s' = (r, v)"
proof -
  have "late s < fuel \<Longrightarrow> view s = (w # r, v) \<Longrightarrow> \<exists>s'. next_rx fuel D s = Some (w, s') \<and> view s' = (r, v)" for fuel s
  proof (induction fuel arbitrary: s)
    case (Suc fuel)
    obtain c s1 where 1: "read_ctrl D s = (c, s1)" by (metis surj_pair)
    note c = ctrl [OF 1]
    show ?case
    proof (cases "c AND MAC_CTRL_RX_PENDING = 0")
      case True
      then have "late s1 < fuel" "view s1 = (w # r, v)" using c Suc.prems by auto
      then show ?thesis using Suc.IH [of s1] 1 True by (simp add: mac_rxPending_def)
    next
      case False
      obtain x s2 where 2: "read_rx D s1 = (x, s2)" by (metis surj_pair)
      have "x = w \<and> view s2 = (r, v)" by (rule rx [OF _ _ 2]) (use c False Suc.prems in auto)
      then show ?thesis using 1 2 False by (simp add: mac_rxPending_def)
    qed
  qed simp
  from this [of s "Suc fuel"] show thesis using that late [of s] assms by auto
qed

lemma empty_rx_words:
  "slow \<le> fuel \<Longrightarrow> view s = (pack xs @ r, v) \<Longrightarrow> \<exists>s'. empty_rx (Suc fuel) D (length xs) s = Some s' \<and> view s' = (r, v)"
proof (induction xs arbitrary: s rule: pack.induct)
  case (2 b bs)
  obtain s1 where 1: "next_rx (Suc fuel) D s = Some (le_word (b # take 3 bs), s1)" "view s1 = (pack (drop 3 bs) @ r, v)"
    by (rule next_rx_word [OF _ 2(2)]) (use 2(3) in auto)
  obtain s2 where 2: "empty_rx (Suc fuel) D (length (drop 3 bs)) s1 = Some s2" "view s2 = (r, v)" using 2(1) [OF 2(2) 1(2)] by blast
  have "length (b # bs) - 4 = length (drop 3 bs)" "length (b # bs) \<noteq> 0" by simp_all
  then show ?case using 1(1) 2 by (subst empty_rx.simps) (simp del: next_rx.simps)
qed (simp add: empty_rx.simps)

text \<open>The loop in the middle of a frame: \<open>xs\<close> are the bytes to come, the ones up to the next word
  border are in \<open>word\<close>, \<open>k\<close> is the place of the next one in the chain.\<close>

lemma rx_fill_stores:
  "i \<le> length p \<Longrightarrow> j < 2 ^ 32 \<Longrightarrow> (i = 0 \<longrightarrow> j = 0 \<and> q_left = 0 \<and> k = 0) \<Longrightarrow>
    (0 < i \<longrightarrow> j \<le> length (p ! (i - 1)) \<and> q_left = of_nat (length (p ! (i - 1)) - j) \<and> k = length (concat (take (i - 1) p)) + j) \<Longrightarrow>
    (\<forall>b \<in> set (drop i p). b \<noteq> []) \<Longrightarrow> length (concat p) < 2 ^ 32 \<Longrightarrow> length (concat p) = k + length xs \<Longrightarrow>
    byteId < 4 \<Longrightarrow> m = (4 - byteId) mod 4 \<Longrightarrow> (0 < m \<longrightarrow> word = le_word (take m xs)) \<Longrightarrow> view s = (pack (drop m xs) @ r, v) \<Longrightarrow> slow \<le> fuel \<Longrightarrow>
    \<exists>p' s'. rx_fill (Suc fuel) D (length xs) i j q_left byteId word p s = Some (True, 0, p', s') \<and>
      concat p' = take k (concat p) @ xs \<and> view s' = (r, v)"
proof (induction xs arbitrary: i j q_left k byteId m word p s)
  case Nil
  have "q_left = 0"
  proof (cases "i = 0")
    case False
    then have "length (concat (take (i - 1) p)) + length (p ! (i - 1)) \<le> length (concat p)"
      using concat_room [of "i - 1" p] Nil.prems(1) by simp
    then show ?thesis using False Nil.prems by simp
  qed (use Nil.prems in simp)
  then show ?case using Nil.prems by simp
next
  case (Cons x xs)
  obtain i' j' q' where e: "(if q_left = 0 then (i + 1, 0, of_nat (length (p ! i))) else (i, j, q_left)) = (i', j', q')"
    by (metis surj_pair)
  have b: "n < length p \<Longrightarrow> length (p ! n) < 2 ^ 32" for n
    using concat_room [of n p] Cons.prems(6) by simp
  have q0: "q_left = 0 \<Longrightarrow> 0 < i \<Longrightarrow> j = length (p ! (i - 1))"
  proof -
    assume q: "q_left = 0" "0 < i"
    then have "of_nat (length (p ! (i - 1)) - j) = (0 :: u32)" using Cons.prems(4) by simp
    moreover have "length (p ! (i - 1)) - j < 2 ^ 32" using b [of "i - 1"] q Cons.prems(1) by linarith
    then have "unat (of_nat (length (p ! (i - 1)) - j) :: u32) = length (p ! (i - 1)) - j" by (simp add: unat_of_nat_small)
    ultimately have "length (p ! (i - 1)) - j = 0" by (simp only: unat_0)
    then show ?thesis using Cons.prems(4) q by simp
  qed
  have room: "q_left = 0 \<Longrightarrow> i < length p \<and> k = length (concat (take i p))"
  proof -
    assume q: "q_left = 0"
    have k: "k = length (concat (take i p))"
    proof (cases i)
      case (Suc n)
      then show ?thesis using q0 [OF q] Cons.prems(1,4) concat_take_Suc [of n p] by simp
    qed (use Cons.prems(3) in simp)
    have "i \<noteq> length p"
    proof
      assume "i = length p"
      then have "k = length (concat p)" using k by simp
      then show False using Cons.prems(7) by simp
    qed
    then show ?thesis using k Cons.prems(1) by simp
  qed
  have st: "0 < i'" "i' \<le> length p" "j' < length (p ! (i' - 1))" "q' = of_nat (length (p ! (i' - 1)) - j')"
    "k = length (concat (take (i' - 1) p)) + j'" "\<forall>b \<in> set (drop i' p). b \<noteq> []"
  proof -
    have "0 < i' \<and> i' \<le> length p \<and> j' < length (p ! (i' - 1)) \<and> q' = of_nat (length (p ! (i' - 1)) - j') \<and>
        k = length (concat (take (i' - 1) p)) + j' \<and> (\<forall>b \<in> set (drop i' p). b \<noteq> [])"
    proof (cases "q_left = 0")
      case True
      have "drop i p = p ! i # drop (Suc i) p" using room [OF True] by (simp add: Cons_nth_drop_Suc)
      then have "p ! i \<noteq> []" "\<forall>b \<in> set (drop (Suc i) p). b \<noteq> []" using Cons.prems(5) by auto
      then show ?thesis using e True room [OF True] by auto
    next
      case False
      then have "0 < i" using Cons.prems(3) by auto
      moreover have "j \<noteq> length (p ! (i - 1))" using False Cons.prems(4) \<open>0 < i\<close> by auto
      ultimately show ?thesis using e False Cons.prems(1,4,5) by auto
    qed
    then show "0 < i'" "i' \<le> length p" "j' < length (p ! (i' - 1))" "q' = of_nat (length (p ! (i' - 1)) - j')"
      "k = length (concat (take (i' - 1) p)) + j'" "\<forall>b \<in> set (drop i' p). b \<noteq> []" by blast+
  qed
  let ?m = "(m + 3) mod 4"
  obtain w s1 where w: "(if byteId = 0 then next_rx (Suc fuel) D s else Some (word, s)) = Some (w, s1)"
    "w = le_word (x # take ?m xs)" "view s1 = (pack (drop ?m xs) @ r, v)"
  proof (cases "byteId = 0")
    case True
    then have m: "m = 0" "?m = 3" using Cons.prems(9) by simp_all
    have "view s = (le_word (x # take 3 xs) # pack (drop 3 xs) @ r, v)" using Cons.prems(11) m by simp
    then obtain s1 where "next_rx (Suc fuel) D s = Some (le_word (x # take 3 xs), s1)" "view s1 = (pack (drop 3 xs) @ r, v)"
      by (rule next_rx_word [OF _ Cons.prems(12)])
    then show thesis using that True m by simp
  next
    case False
    then have m: "m = 4 - byteId" "0 < m" "?m = m - 1" using Cons.prems(8,9) by (auto simp: mod_if)
    then have "take m (x # xs) = x # take ?m xs" "drop m (x # xs) = drop ?m xs" by (cases m; simp)+
    then show thesis using that [of word s] False m(2) Cons.prems(10,11) by simp
  qed
  let ?p = "p[i' - 1 := (p ! (i' - 1))[j' := x]]"
  have i1: "i' - 1 < length p" using st(1,2) by simp
  then have len: "length (?p ! n) = length (p ! n)" for n by (cases "n = i' - 1") simp_all
  have c: "concat ?p = (concat p)[k := x]" using concat_update [OF i1 st(3)] st(5) by simp
  have kl: "k < length (concat p)" using Cons.prems(7) by simp
  have q1: "q' - 1 = of_nat (length (?p ! (i' - 1)) - (j' + 1))"
    unfolding st(4) len using st(3) by (simp add: of_nat_diff)
  have k1: "k + 1 = length (concat (take (i' - 1) ?p)) + (j' + 1)" using st(5) by simp
  have wd: "0 < ?m \<longrightarrow> drop_bit 8 w = le_word (take ?m xs)"
    unfolding w(2) by (intro impI le_word_shift) simp
  have ih: "\<exists>p' s'. rx_fill (Suc fuel) D (length xs) i' (j' + 1) (q' - 1) ((byteId + 1) mod 4) (drop_bit 8 w) ?p s1 =
      Some (True, 0, p', s') \<and> concat p' = take (k + 1) (concat ?p) @ xs \<and> view s' = (r, v)"
  proof (rule Cons.IH)
    show "j' + 1 < 2 ^ 32" using st(3) b [OF i1] by simp
    show "?m = (4 - (byteId + 1) mod 4) mod 4" using Cons.prems(8,9) by (auto simp: mod_if)
    show "\<forall>b \<in> set (drop i' ?p). b \<noteq> []" using st(1,6) by (simp add: drop_update_cancel)
    show "0 < i' \<longrightarrow> j' + 1 \<le> length (?p ! (i' - 1)) \<and> q' - 1 = of_nat (length (?p ! (i' - 1)) - (j' + 1)) \<and>
        k + 1 = length (concat (take (i' - 1) ?p)) + (j' + 1)"
      using st(3) len [of "i' - 1"] q1 k1 by simp
    show "length (concat ?p) < 2 ^ 32" "length (concat ?p) = k + 1 + length xs" using c Cons.prems(6,7) by simp_all
  qed (use st wd w(3) Cons.prems(12) in auto)
  then obtain p' s' where f: "rx_fill (Suc fuel) D (length xs) i' (j' + 1) (q' - 1) ((byteId + 1) mod 4) (drop_bit 8 w) ?p s1 =
      Some (True, 0, p', s')" "concat p' = take (k + 1) (concat ?p) @ xs" "view s' = (r, v)" by blast
  have t: "take (k + 1) (concat ?p) @ xs = take k (concat p) @ x # xs"
    using c kl by (simp add: take_Suc_conv_app_nth)
  have x: "ucast w = x" unfolding w(2) by (rule le_word_low)
  have c1: "(q_left = 0 \<and> length p \<le> i) = False" using room by auto
  have c2: "(i' = 0 \<or> length (p ! (i' - 1)) \<le> j') = False" using st(1,3) by simp
  have "rx_fill (Suc fuel) D (length (x # xs)) i j q_left byteId word p s = Some (True, 0, p', s')"
    unfolding length_Cons rx_fill.simps c1 if_False e prod.case Let_def c2 w(1) bind.bind_lunit x by (rule f(1))
  then show ?case using f(2,3) t by simp
qed

lemma rx_packet_ok:
  assumes "view s = (pack xs @ r, t, g)" "length xs \<le> 2048" "slow \<le> fuel"
  obtains (kept) s' pad where "rx_packet (Suc fuel) D (of_nat (length xs * 8)) 0 s = Some (True, 0, s')" "length pad = 2"
      "view s' = (r, t, g @ [pad @ xs])"
    | (full) s' n u where "rx_packet (Suc fuel) D (of_nat (length xs * 8)) 0 s = Some (False, 0, s')" "view s' = (r, t, g)"
      "fst (pbuf_alloc D n u) = None"
proof -
  let ?n = "(of_nat (length xs * 8) + 7) div 8 :: u32"
  have "unat (of_nat (length xs * 8) :: u32) = length xs * 8" by (rule unat_of_nat_small) (use assms(2) in simp)
  then have "unat (of_nat (length xs * 8) + 7 :: u32) = length xs * 8 + 7"
    using assms(2) by (simp add: unat_word_ariths)
  then have n: "unat ?n = length xs" by (simp add: unat_div)
  have lim: "\<not> 2048 < ?n" using n assms(2) by (simp add: word_less_nat_alt)
  have u: "unat (ucast ?n + of_nat ETH_PAD_SIZE :: u16) = length xs + 2"
    using n assms(2) by (simp add: unat_word_ariths unsigned_ucast_eq take_bit_eq_mod)
  obtain a s1 where a: "pbuf_alloc D (ucast ?n + of_nat ETH_PAD_SIZE) s = (a, s1)" by (metis surj_pair)
  have v1: "view s1 = (pack xs @ r, t, g)" using alloc [OF a] assms(1) by simp
  show thesis
  proof (cases a)
    case None
    let ?s1 = "stats_inc D Drop (stats_inc D Memerr (led2_on D s1))"
    have "view ?s1 = (pack xs @ r, t, g)" using v1 by (simp add: quiet)
    then obtain s2 where s2: "empty_rx (Suc fuel) D (length xs) ?s1 = Some s2" "view s2 = (r, t, g)"
      using empty_rx_words [OF assms(3)] by blast
    have "rx_packet (Suc fuel) D (of_nat (length xs * 8)) 0 s = Some (False, 0, s2)"
      unfolding rx_packet_def using lim by (simp only: Let_def if_False a None prod.case option.case n s2(1) bind.bind_lunit)
    then show thesis using full [OF _ s2(2)] a None by (metis fst_conv)
  next
    case (Some c)
    then obtain f q where q: "a = Some (f # q)" "length (concat (f # q)) = length xs + 2" "\<forall>b \<in> set q. b \<noteq> []"
        "2 < length f \<or> length f = length xs + 2"
      using alloc [OF a] u by auto
    let ?p = "drop 2 f # q"
    have h: "hide_pad (f # q) = (take 2 f, ?p)" using q(4) by (auto simp: hide_pad_def)
    have c: "length (concat ?p) = length xs" using q(2,4) by auto
    have "\<exists>p' s'. rx_fill (Suc fuel) D (length xs) 0 0 0 0 0 ?p s1 = Some (True, 0, p', s') \<and>
        concat p' = take 0 (concat ?p) @ xs \<and> view s' = (r, t, g)"
    proof (cases "xs = []")
      case False
      then have "\<forall>b \<in> set (drop 0 ?p). b \<noteq> []" using q(3,4) by auto
      then show ?thesis using rx_fill_stores [of 0 ?p 0 0 0 xs 0 0 0 s1 r "(t, g)" fuel] c assms(2,3) v1 by auto
    qed (use v1 c in simp)
    then obtain p' s2 where f: "rx_fill (Suc fuel) D (length xs) 0 0 0 0 0 ?p s1 = Some (True, 0, p', s2)"
        "concat p' = xs" "view s2 = (r, t, g)" by auto
    have ne: "p' \<noteq> []" using rx_fill_length [OF f(1)] by auto
    obtain rc s3 where 3: "netif_input D (show_pad (take 2 f) p') (stats_inc D Recv s2) = (rc, s3)" by (metis surj_pair)
    have v3: "view s3 = (r, t, g @ [take 2 f @ xs])"
      using input [OF 3] f(2,3) concat_show_pad [OF ne] by (simp add: quiet)
    let ?s = "pbuf_free D (if rc \<noteq> 0 then led2_on D s3 else s3)"
    have "rx_packet (Suc fuel) D (of_nat (length xs * 8)) 0 s = Some (True, 0, ?s)"
      unfolding rx_packet_def using lim
      by (simp only: Let_def if_False a q(1) prod.case option.case h n f(1) bind.bind_lunit 3 not_True_eq_False)
    moreover have "length (take 2 f) = 2" using q(4) by auto
    moreover have "view ?s = (r, t, g @ [take 2 f @ xs])" using v3 by (simp add: quiet)
    ultimately show thesis by (rule kept)
  qed
qed

text \<open>One call takes some of the frames; it takes one at least unless the first word is late.\<close>

lemma rx_loop_ok:
  "view s = (concat (map frame_words fs), t, g) \<Longrightarrow> \<forall>f \<in> set fs. length f \<le> 2048 \<Longrightarrow> length fs < packets \<Longrightarrow> slow \<le> fuel \<Longrightarrow>
    \<exists>s' gs k. rx_loop packets (Suc fuel) D 0 s = Some s' \<and> k \<le> length fs \<and>
      view s' = (concat (map frame_words (drop k fs)), t, g @ gs) \<and> subseq (map (drop 2) gs) (take k fs) \<and>
      ((\<forall>n u. fst (pbuf_alloc D n u) \<noteq> None) \<longrightarrow> map (drop 2) gs = take k fs) \<and> (fs \<noteq> [] \<longrightarrow> 0 < k \<or> late s' < late s)"
proof (induction fs arbitrary: packets s g)
  case Nil
  obtain c s1 where 1: "read_ctrl D s = (c, s1)" by (metis surj_pair)
  have "view s1 = ([], t, g)" "c AND MAC_CTRL_RX_PENDING = 0" using ctrl [OF 1] here [of s1] Nil.prems(1) by auto
  then show ?case using 1 Nil.prems(3) by (cases packets) (auto simp: mac_rxPending_def)
next
  case (Cons f fs)
  obtain n where n: "packets = Suc n" using Cons.prems(3) by (cases packets) auto
  have v: "view s = (of_nat (length f * 8) # pack f @ concat (map frame_words fs), t, g)"
    using Cons.prems(1) by (simp add: frame_words_def [of f])
  obtain c s1 where 1: "read_ctrl D s = (c, s1)" by (metis surj_pair)
  note c = ctrl [OF 1]
  have v1: "view s1 = (of_nat (length f * 8) # pack f @ concat (map frame_words fs), t, g)" using c v by simp
  show ?case
  proof (cases "c AND MAC_CTRL_RX_PENDING = 0")
    case True
    then have "late s1 < late s" using c v by auto
    moreover have "rx_loop packets (Suc fuel) D 0 s = Some s1" using True 1 by (simp add: n mac_rxPending_def)
    ultimately show ?thesis using v1 by (intro exI [of _ s1] exI [of _ "[]"] exI [of _ 0]) (simp add: frame_words_def [of f])
  next
    case False
    obtain x s2 where 2: "read_rx D s1 = (x, s2)" by (metis surj_pair)
    have x: "x = of_nat (length f * 8)" "view s2 = (pack f @ concat (map frame_words fs), t, g)"
      using rx [OF v1 _ 2] c False by auto
    have l: "length f \<le> 2048" using Cons.prems(2) by simp
    show ?thesis
    proof (rule rx_packet_ok [OF x(2) l Cons.prems(4)])
      fix s3 pad assume 3: "rx_packet (Suc fuel) D (of_nat (length f * 8)) 0 s2 = Some (True, 0, s3)" "length pad = 2"
        "view s3 = (concat (map frame_words fs), t, g @ [pad @ f])"
      have "\<exists>s' gs k. rx_loop n (Suc fuel) D 0 s3 = Some s' \<and> k \<le> length fs \<and>
          view s' = (concat (map frame_words (drop k fs)), t, (g @ [pad @ f]) @ gs) \<and> subseq (map (drop 2) gs) (take k fs) \<and>
          ((\<forall>n u. fst (pbuf_alloc D n u) \<noteq> None) \<longrightarrow> map (drop 2) gs = take k fs) \<and> (fs \<noteq> [] \<longrightarrow> 0 < k \<or> late s' < late s3)"
        by (rule Cons.IH [OF 3(3)]) (use Cons.prems n in simp_all)
      then obtain s' gs k where ih: "rx_loop n (Suc fuel) D 0 s3 = Some s'" "k \<le> length fs"
        "view s' = (concat (map frame_words (drop k fs)), t, (g @ [pad @ f]) @ gs)" "subseq (map (drop 2) gs) (take k fs)"
        "(\<forall>n u. fst (pbuf_alloc D n u) \<noteq> None) \<longrightarrow> map (drop 2) gs = take k fs" by blast
      have "rx_loop packets (Suc fuel) D 0 s = Some s'"
        using ih(1) 3(1) False unfolding n rx_loop.simps mac_rxPending_def 1 prod.case Let_def 2 x(1) by simp
      then show ?thesis using ih(2-5) 3(2)
        by (intro exI [of _ s'] exI [of _ "(pad @ f) # gs"] exI [of _ "Suc k"]) simp
    next
      fix s3 m u assume 3: "rx_packet (Suc fuel) D (of_nat (length f * 8)) 0 s2 = Some (False, 0, s3)"
        "view s3 = (concat (map frame_words fs), t, g)" "fst (pbuf_alloc D m u) = None"
      have "rx_loop packets (Suc fuel) D 0 s = Some s3"
        using 3(1) False unfolding n rx_loop.simps mac_rxPending_def 1 prod.case Let_def 2 x(1) by simp
      then show ?thesis using 3(2,3) by (intro exI [of _ s3] exI [of _ "[]"] exI [of _ "Suc 0"]) auto
    qed
  qed
qed

text \<open>The sender.\<close>

lemma push_tx_ok:
  assumes "view s = (r, t, g)" "free s" "slow \<le> fuel"
  obtains s' where "push_tx (Suc fuel) D w s = Some s'" "view s' = (r, t @ [w], g)" "free s'"
proof -
  have "late s < fuel \<Longrightarrow> view s = (r, t, g) \<Longrightarrow> free s \<Longrightarrow> \<exists>s'. push_tx fuel D w s = Some s' \<and> view s' = (r, t @ [w], g) \<and> free s'" for fuel s
  proof (induction fuel arbitrary: s)
    case (Suc fuel)
    obtain a s1 where 1: "read_tx_avail D s = (a, s1)" by (metis surj_pair)
    note a = tx_avail [OF 1]
    show ?case
    proof (cases "a = 0")
      case True
      then have "late s1 < fuel" "view s1 = (r, t, g)" "free s1" using a Suc.prems by auto
      then show ?thesis using Suc.IH [of s1] 1 True by simp
    next
      case False
      then have "view (write_tx D w s1) = (r, t @ [w], g) \<and> free (write_tx D w s1)"
        by (intro tx) (use a Suc.prems in auto)
      then show ?thesis using 1 False by simp
    qed
  qed simp
  from this [of s "Suc fuel"] show thesis using that late [of s] assms by auto
qed

lemma wait_tx_ready_ok:
  assumes "view s = v" "slow \<le> fuel"
  obtains s' where "wait_tx_ready (Suc fuel) D s = Some s'" "view s' = v" "free s'"
proof -
  have "late s < fuel \<Longrightarrow> view s = v \<Longrightarrow> \<exists>s'. wait_tx_ready fuel D s = Some s' \<and> view s' = v \<and> free s'" for fuel s
  proof (induction fuel arbitrary: s)
    case (Suc fuel)
    obtain c s1 where 1: "read_ctrl D s = (c, s1)" by (metis surj_pair)
    note c = ctrl [OF 1]
    show ?case
    proof (cases "c AND MAC_CTRL_TX_READY = 0")
      case True
      then have "late s1 < fuel" "view s1 = v" using c Suc.prems by auto
      then show ?thesis using Suc.IH [of s1] 1 True by (simp add: mac_txReady_def)
    next
      case False
      then show ?thesis using 1 c Suc.prems(2) by (simp add: mac_txReady_def)
    qed
  qed simp
  from this [of s "Suc fuel"] show thesis using that late [of s] assms by auto
qed

text \<open>\<open>acc\<close> are the bytes collected in \<open>word\<close>.\<close>

lemma tx_bytes_ok:
  "view s = (r, t, g) \<Longrightarrow> free s \<Longrightarrow> slow \<le> fuel \<Longrightarrow> length acc < 4 \<Longrightarrow>
    \<exists>s' ws acc'. tx_bytes (Suc fuel) D xs (le_word acc) (length acc) s = Some (le_word acc', length acc', s') \<and>
      length acc' < 4 \<and> view s' = (r, t @ ws, g) \<and> free s' \<and> (\<forall>ys. pack (acc @ xs @ ys) = ws @ pack (acc' @ ys))"
proof (induction xs arbitrary: acc t s)
  case (Cons x xs)
  have w: "le_word acc OR push_bit (length acc * 8) (ucast x) = le_word (acc @ [x])"
    using le_word_snoc [of acc x] Cons.prems(4) by (simp add: mult.commute)
  show ?case
  proof (cases "length acc = 3")
    case True
    obtain s1 where 1: "push_tx (Suc fuel) D (le_word (acc @ [x])) s = Some s1" "view s1 = (r, t @ [le_word (acc @ [x])], g)" "free s1"
      by (rule push_tx_ok [OF Cons.prems(1-3)])
    obtain s' ws acc' where ih: "tx_bytes (Suc fuel) D xs (le_word []) (length ([] :: u8 list)) s1 = Some (le_word acc', length acc', s')"
      "length acc' < 4" "view s' = (r, (t @ [le_word (acc @ [x])]) @ ws, g)" "free s'" "\<forall>ys. pack ([] @ xs @ ys) = ws @ pack (acc' @ ys)"
      using Cons.IH [OF 1(2,3) Cons.prems(3), of "[]"] by auto
    have "pack (acc @ (x # xs) @ ys) = le_word (acc @ [x]) # ws @ pack (acc' @ ys)" for ys
      using pack_append [of "acc @ [x]" "xs @ ys"] True ih(5) by simp
    moreover have "tx_bytes (Suc fuel) D (x # xs) (le_word acc) (length acc) s = Some (le_word acc', length acc', s')"
      using ih(1) 1(1) True w by (simp add: Let_def del: push_tx.simps)
    ultimately show ?thesis using ih(2,3,4) by (intro exI [of _ s'] exI [of _ "le_word (acc @ [x]) # ws"] exI [of _ acc']) simp
  next
    case False
    then have l: "(length acc + 1) mod 4 = length (acc @ [x])" "length (acc @ [x]) < 4" using Cons.prems(4) by auto
    obtain s' ws acc' where ih: "tx_bytes (Suc fuel) D xs (le_word (acc @ [x])) (length (acc @ [x])) s = Some (le_word acc', length acc', s')"
      "length acc' < 4" "view s' = (r, t @ ws, g)" "free s'" "\<forall>ys. pack ((acc @ [x]) @ xs @ ys) = ws @ pack (acc' @ ys)"
      using Cons.IH [OF Cons.prems(1-3) l(2)] by auto
    moreover have "tx_bytes (Suc fuel) D (x # xs) (le_word acc) (length acc) s = Some (le_word acc', length acc', s')"
      using ih(1) False w l by (simp add: Let_def del: push_tx.simps)
    ultimately show ?thesis by auto
  qed
next
  case Nil
  then show ?case by (intro exI [of _ s] exI [of _ "[]"] exI [of _ acc]) simp
qed

lemma tx_chain_ok:
  "view s = (r, t, g) \<Longrightarrow> free s \<Longrightarrow> slow \<le> fuel \<Longrightarrow> length acc < 4 \<Longrightarrow>
    \<exists>s' ws acc'. tx_chain (Suc fuel) D p (le_word acc) (length acc) s = Some (le_word acc', length acc', s') \<and>
      length acc' < 4 \<and> view s' = (r, t @ ws, g) \<and> free s' \<and> pack (acc @ concat p) = ws @ pack acc'"
proof (induction p arbitrary: acc t s)
  case (Cons q p)
  obtain s1 ws acc1 where 1: "tx_bytes (Suc fuel) D q (le_word acc) (length acc) s = Some (le_word acc1, length acc1, s1)"
    "length acc1 < 4" "view s1 = (r, t @ ws, g)" "free s1" "\<forall>ys. pack (acc @ q @ ys) = ws @ pack (acc1 @ ys)"
    using tx_bytes_ok [OF Cons.prems] by blast
  obtain s2 ws2 acc2 where 2: "tx_chain (Suc fuel) D p (le_word acc1) (length acc1) s1 = Some (le_word acc2, length acc2, s2)"
    "length acc2 < 4" "view s2 = (r, (t @ ws) @ ws2, g)" "free s2" "pack (acc1 @ concat p) = ws2 @ pack acc2"
    using Cons.IH [OF 1(3,4) Cons.prems(3) 1(2)] by blast
  have "pack (acc @ concat (q # p)) = (ws @ ws2) @ pack acc2" using 1(5) 2(5) by simp
  moreover have "tx_chain (Suc fuel) D (q # p) (le_word acc) (length acc) s = Some (le_word acc2, length acc2, s2)"
    using 1(1) 2(1) by simp
  ultimately show ?case using 2(2-4) by (intro exI [of _ s2] exI [of _ "ws @ ws2"] exI [of _ acc2]) simp
next
  case Nil
  then show ?case by (intro exI [of _ s] exI [of _ "[]"] exI [of _ acc]) simp
qed

lemma tx_packet_ok:
  assumes "view s = (r, t, g)" "p \<noteq> []" "2 \<le> length (hd p)" "slow \<le> fuel"
  obtains s' where "mac_tx_packet (Suc fuel) D True p s = Some (ERR_OK, p, s')"
    "view s' = (r, t @ frame_words (drop 2 (concat p)), g)"
proof -
  obtain f q where p: "p = f # q" using assms(2) by (cases p) auto
  let ?p = "drop 2 f # q"
  have h: "hide_pad p = (take 2 f, ?p)" using assms(3) p by (simp add: hide_pad_def)
  have c: "concat ?p = drop 2 (concat p)" using assms(3) p by simp
  have "foldl (\<lambda>n q. n + of_nat (length q)) k c = k + of_nat (length (concat c))" for c :: "u8 list list" and k :: u32
    by (induction c arbitrary: k) (simp_all add: add.assoc)
  then have bits: "foldl (\<lambda>n q. n + of_nat (length q)) 0 ?p * 8 = (of_nat (length (concat ?p) * 8) :: u32)" by simp
  obtain s1 where 1: "wait_tx_ready (Suc fuel) D s = Some s1" "view s1 = (r, t, g)" "free s1"
    by (rule wait_tx_ready_ok [OF assms(1,4)])
  let ?w = "of_nat (length (concat ?p) * 8)"
  obtain s2 where 2: "push_tx (Suc fuel) D ?w s1 = Some s2" "view s2 = (r, t @ [?w], g)" "free s2"
    by (rule push_tx_ok [OF 1(2,3) assms(4)])
  obtain s3 ws acc where 3: "tx_chain (Suc fuel) D ?p (le_word []) (length ([] :: u8 list)) s2 = Some (le_word acc, length acc, s3)"
      "length acc < 4" "view s3 = (r, (t @ [?w]) @ ws, g)" "free s3" "pack ([] @ concat ?p) = ws @ pack acc"
    using tx_chain_ok [OF 2(2,3) assms(4), of "[]" ?p] by auto
  obtain s4 where 4: "(if length acc \<noteq> 0 then push_tx (Suc fuel) D (le_word acc) s3 else Some s3) = Some s4"
      "view s4 = (r, t @ frame_words (concat ?p), g)"
  proof (cases "acc = []")
    case True
    then show thesis using that [of s3] 3(3,5) by (simp add: frame_words_def)
  next
    case False
    then show thesis using push_tx_ok [OF 3(3,4) assms(4), of "le_word acc"] that 3(2,5) pack_short [of acc]
      by (auto simp: frame_words_def)
  qed
  have z: "tx_chain (Suc fuel) D ?p 0 0 s2 = Some (le_word acc, length acc, s3)" using 3(1) by simp
  have "mac_tx_packet (Suc fuel) D True p s = Some (ERR_OK, show_pad (take 2 f) ?p, stats_inc D Xmit s4)"
    unfolding mac_tx_packet_def h prod.case Let_def bits 1(1) bind.bind_lunit 2(1) z 4(1) using assms(2) by simp
  moreover have "show_pad (take 2 f) ?p = p" using p by (simp add: show_pad_def)
  moreover have "view (stats_inc D Xmit s4) = (r, t @ frame_words (drop 2 (concat p)), g)" using 4(2) c by (simp add: quiet)
  ultimately show thesis using that by simp
qed

end

section \<open>A controller with two FIFOs\<close>

text \<open>Memory comes in buffers of 256 bytes.\<close>

fun chunks :: "u8 list \<Rightarrow> u8 list list" where
  "chunks xs = (if length xs \<le> 256 then [xs] else take 256 xs # chunks (drop 256 xs))"

declare chunks.simps [simp del]

lemma concat_chunks: "concat (chunks xs) = xs"
  by (induction xs rule: chunks.induct) (subst chunks.simps, auto)

lemma chunks_nonempty: "xs \<noteq> [] \<Longrightarrow> \<forall>b \<in> set (chunks xs). b \<noteq> []"
  by (induction xs rule: chunks.induct) (subst chunks.simps, auto)

lemma chunks_first: "\<exists>f q. chunks xs = f # q \<and> (\<forall>b \<in> set q. b \<noteq> []) \<and> (2 < length f \<or> f = xs)"
  using chunks_nonempty [of "drop 256 xs"] by (subst (1) chunks.simps) auto

text \<open>
  A controller that takes its time: the registers must be read \<open>k\<close> times after a word before the next one has come, or there is
  space for the next one; \<open>still\<close> counts them. It is ready for a frame when the last word is out and has to be asked again before each
  frame. \<open>pbuf_alloc\<close> has no memory for more than \<open>m\<close> bytes.
\<close>

record mac_line =
  wires :: "u32 list \<times> u32 list \<times> u8 list list"
  still :: nat
  tx_free :: bool

definition idle :: "nat \<Rightarrow> mac_line \<Rightarrow> bool" where
  "idle k s \<longleftrightarrow> k = 0 \<or> still s = 0"

definition tick :: "nat \<Rightarrow> mac_line \<Rightarrow> mac_line" where
  "tick k s = s\<lparr>still := min k (still s) - 1\<rparr>"

definition read_word :: "nat \<Rightarrow> mac_line \<Rightarrow> u32 \<times> mac_line" where
  "read_word k s = (case wires s of ([], v) \<Rightarrow> (0, s)
     | (w # r, v) \<Rightarrow> if idle k s then (w, s\<lparr>wires := (r, v), still := k\<rparr>) else (0, s))"

definition write_word :: "nat \<Rightarrow> u32 \<Rightarrow> mac_line \<Rightarrow> mac_line" where
  "write_word k w s = (case wires s of (r, t, g) \<Rightarrow> if idle k s \<and> tx_free s then s\<lparr>wires := (r, t @ [w], g), still := k\<rparr> else s)"

definition mac_fifo :: "nat \<Rightarrow> nat \<Rightarrow> mac_line mac_io" where
  "mac_fifo k m = \<lparr>
     read_ctrl = (\<lambda>s. if \<not> idle k s then (0, tick k s)
       else (if fst (wires s) = [] then MAC_CTRL_TX_READY else MAC_CTRL_TX_READY OR MAC_CTRL_RX_PENDING, s\<lparr>tx_free := True\<rparr>)),
     write_ctrl = (\<lambda>w s. s), read_rx = read_word k,
     read_tx_avail = (\<lambda>s. if idle k s then (1, s) else (0, tick k s)), write_tx = write_word k,
     delay_us = (\<lambda>us s. s), led2_on = (\<lambda>s. s), stats_inc = (\<lambda>c s. s\<lparr>tx_free := False\<rparr>),
     pbuf_alloc = (\<lambda>n s. (if unat n \<le> m then Some (chunks (replicate (unat n) 0)) else None, s)),
     netif_input = (\<lambda>p s. (0, case wires s of (r, t, g) \<Rightarrow> s\<lparr>wires := (r, t, g @ [concat p])\<rparr>)),
     pbuf_free = (\<lambda>s. s)\<rparr>"

interpretation mac_sim: mac_link "mac_fifo k m" wires "\<lambda>s. if idle k s then length (fst (wires s)) else 0"
    "\<lambda>s. if idle k s then 1 else 0" "\<lambda>s. min k (still s)" tx_free k for k m
proof unfold_locales
  fix n :: u16 and p s s'
  assume "pbuf_alloc (mac_fifo k m) n s = (p, s')"
  then show "wires s' = wires s \<and> (p \<noteq> None \<longrightarrow> (\<exists>f q. p = Some (f # q) \<and> length (concat (f # q)) = unat n \<and>
      (\<forall>b \<in> set q. b \<noteq> []) \<and> (2 < length f \<or> length f = unat n)))"
    using chunks_first [of "replicate (unat n) 0"] arg_cong [OF concat_chunks [of "replicate (unat n) 0"], of length]
    by (auto simp: mac_fifo_def split: if_splits)
qed (auto simp: mac_fifo_def idle_def tick_def read_word_def write_word_def split: if_splits prod.splits)

section \<open>Properties\<close>

text \<open>The packets \<open>ps\<close> sent one after the other, and \<open>n\<close> calls of \<open>mac_rx\<close>.\<close>

primrec send_all :: "nat \<Rightarrow> 's mac_io \<Rightarrow> u8 list list list \<Rightarrow> 's \<Rightarrow> 's option" where
  "send_all fuel D [] s = Some s"
| "send_all fuel D (p # ps) s = do { (_, _, s) \<leftarrow> mac_tx_packet fuel D True p s; send_all fuel D ps s }"

primrec rx_calls :: "nat \<Rightarrow> nat \<Rightarrow> 's mac_io \<Rightarrow> 's \<Rightarrow> 's option" where
  "rx_calls 0 fuel D s = Some s"
| "rx_calls (Suc n) fuel D s = do { s \<leftarrow> mac_rx fuel D s; rx_calls n fuel D s }"

definition packet :: "u8 list list \<Rightarrow> bool" where
  "packet p \<longleftrightarrow> p \<noteq> [] \<and> 2 \<le> length (hd p) \<and> length (concat p) \<le> 2050"

context mac_link
begin

lemma send_all_ok:
  "view s = (r, t, g) \<Longrightarrow> \<forall>p \<in> set ps. packet p \<Longrightarrow> slow \<le> fuel \<Longrightarrow>
    \<exists>s'. send_all (Suc fuel) D ps s = Some s' \<and>
      view s' = (r, t @ concat (map frame_words (map (\<lambda>p. drop 2 (concat p)) ps)), g)"
proof (induction ps arbitrary: s t)
  case (Cons p ps)
  have p: "p \<noteq> []" "2 \<le> length (hd p)" using Cons.prems(2) by (simp_all add: packet_def)
  obtain s1 where 1: "mac_tx_packet (Suc fuel) D True p s = Some (ERR_OK, p, s1)"
      "view s1 = (r, t @ frame_words (drop 2 (concat p)), g)"
    by (rule tx_packet_ok [OF Cons.prems(1) p Cons.prems(3)])
  show ?case using Cons.IH [OF 1(2)] Cons.prems(2,3) 1(1) by simp
qed simp

lemma rx_calls_ok:
  "view s = (concat (map frame_words fs), t, g) \<Longrightarrow> \<forall>f \<in> set fs. length f \<le> 2048 \<Longrightarrow> length fs \<le> fuel \<Longrightarrow> slow \<le> fuel \<Longrightarrow>
    (if fs = [] then 0 else (slow + 1) * length fs + late s) \<le> n \<Longrightarrow>
    \<exists>s' gs. rx_calls n (Suc fuel) D s = Some s' \<and> view s' = ([], t, g @ gs) \<and> subseq (map (drop 2) gs) fs \<and>
      ((\<forall>n u. fst (pbuf_alloc D n u) \<noteq> None) \<longrightarrow> map (drop 2) gs = fs)"
proof (induction n arbitrary: fs s g)
  case (Suc n)
  obtain s1 gs k where 1: "rx_loop (Suc fuel) (Suc fuel) D 0 s = Some s1" "k \<le> length fs"
    "view s1 = (concat (map frame_words (drop k fs)), t, g @ gs)" "subseq (map (drop 2) gs) (take k fs)"
    "(\<forall>n u. fst (pbuf_alloc D n u) \<noteq> None) \<longrightarrow> map (drop 2) gs = take k fs" "fs \<noteq> [] \<longrightarrow> 0 < k \<or> late s1 < late s"
    using rx_loop_ok [OF Suc.prems(1,2) le_imp_less_Suc [OF Suc.prems(3)] Suc.prems(4)] by blast
  have m: "(if drop k fs = [] then 0 else (slow + 1) * length (drop k fs) + late s1) \<le> n"
  proof (cases "k = 0")
    case True
    then show ?thesis using 1(6) Suc.prems(5) by auto
  next
    case False
    show ?thesis
    proof (cases "k < length fs")
      case True
      then have "(slow + 1) * length (drop k fs) \<le> (slow + 1) * (length fs - 1)" by (intro mult_le_mono2) (use False in simp)
      also have "\<dots> = (slow + 1) * length fs - (slow + 1)" by (simp add: algebra_simps)
      finally have "(slow + 1) * length (drop k fs) + (slow + 1) \<le> (slow + 1) * length fs"
        using True by (cases "length fs") simp_all
      moreover have "fs \<noteq> []" using True by auto
      ultimately show ?thesis using late [of s1] Suc.prems(5) by auto
    qed simp
  qed
  obtain s2 gs2 where 2: "rx_calls n (Suc fuel) D s1 = Some s2" "view s2 = ([], t, (g @ gs) @ gs2)"
    "subseq (map (drop 2) gs2) (drop k fs)" "(\<forall>n u. fst (pbuf_alloc D n u) \<noteq> None) \<longrightarrow> map (drop 2) gs2 = drop k fs"
  proof -
    assume thesis: "\<And>s2 gs2. rx_calls n (Suc fuel) D s1 = Some s2 \<Longrightarrow> view s2 = ([], t, (g @ gs) @ gs2) \<Longrightarrow>
      subseq (map (drop 2) gs2) (drop k fs) \<Longrightarrow> (\<forall>n u. fst (pbuf_alloc D n u) \<noteq> None) \<longrightarrow> map (drop 2) gs2 = drop k fs \<Longrightarrow> thesis"
    have "\<forall>f \<in> set (drop k fs). length f \<le> 2048" "length (drop k fs) \<le> fuel" using Suc.prems(2,3) by (auto dest: in_set_dropD)
    then show thesis using Suc.IH [OF 1(3) _ _ Suc.prems(4) m] thesis by blast
  qed
  have "subseq (map (drop 2) gs @ map (drop 2) gs2) (take k fs @ drop k fs)" using 1(4) 2(3) by (rule list_emb_append_mono)
  moreover have "rx_calls (Suc n) (Suc fuel) D s = Some s2" using 1(1) 2(1) by (simp add: mac_rx_def del: rx_loop.simps)
  ultimately show ?case using 1(5) 2(2,4)
    by (intro exI [of _ s2] exI [of _ "gs @ gs2"]) (auto simp del: rx_calls.simps)
qed (simp split: if_splits)

end



end
