(* ===== verification/Ihex.thy ===== *)
theory Ihex
  imports Crc Utils "HOL-Library.Monad_Syntax"
begin

text \<open>
  The Intel HEX commands of the monitor (\<open>cli_cmd_ohex\<close>, \<open>cli_cmd_ihex\<close> of cli.c): printing a block
  of memory as records and loading records to memory, with the relation between them.

  \<^item> Memory is a function of the address. \<open>current_address\<close> and the arguments, which \<open>strtoul\<close> of the C
    library has parsed, are parameters.
  \<^item> The loader reads the bytes of the console one by one; \<^term>\<open>None\<close> means that it still waits when
    they are used up.
\<close>

section \<open>Printing\<close>

type_synonym memory = "u32 \<Rightarrow> u8"

definition ascii :: "string \<Rightarrow> u8 list" where
  "ascii s = map of_char s"

definition hex_digit :: "u32 \<Rightarrow> u8" where
  "hex_digit d = (if d < 10 then 0x30 + ucast d else 0x37 + ucast d)"

text \<open>\<open>%02X\<close>, \<open>%04X\<close> and \<open>%08X\<close> of the C library, for numbers that fit.\<close>

primrec hex_out :: "nat \<Rightarrow> u32 \<Rightarrow> u8 list" where
  "hex_out 0 w = []"
| "hex_out (Suc k) w = hex_digit (drop_bit (4 * k) w AND 0xf) # hex_out k w"

abbreviation (input) OHEX_BYTES_PER_LINE :: u32 where "OHEX_BYTES_PER_LINE \<equiv> 16"

text \<open>The bytes of one line: printed, and added to \<open>sum\<close>.\<close>

primrec ohex_bytes :: "memory \<Rightarrow> u32 \<Rightarrow> nat \<Rightarrow> u32 \<Rightarrow> u8 \<Rightarrow> u8 list \<times> u32 \<times> u8" where
  "ohex_bytes mem addr 0 offset cs = ([], offset, cs)"
| "ohex_bytes mem addr (Suc n) offset cs =
    (let byte = mem (addr + offset); (out, offset, cs) = ohex_bytes mem addr n (offset + 1) (cs + byte) in
     (hex_out 2 (ucast byte) @ out, offset, cs))"

definition ohex_line :: "memory \<Rightarrow> u32 \<Rightarrow> u32 \<Rightarrow> u32 \<Rightarrow> u8 list \<times> u32" where
  "ohex_line mem addr len offset =
    (let hex_len = ucast (if offset + OHEX_BYTES_PER_LINE \<le> len then OHEX_BYTES_PER_LINE
           else (len - offset) mod OHEX_BYTES_PER_LINE) :: u8;
         cs = hex_len + ucast (drop_bit 8 offset AND 0xff) + ucast (offset AND 0xff) + 0;
         (out, offset', cs) = ohex_bytes mem addr (unat hex_len) offset cs in
     ([0x3a] @ hex_out 2 (ucast hex_len) @ hex_out 4 (offset AND 0xffff) @ hex_out 2 0 @ out
        @ hex_out 2 (ucast (NOT cs + 1)) @ [0x0d, 0x0a], offset'))"

text \<open>The record with the upper half of the address, printed at every 64 KiB.\<close>

definition ohex_upper :: "u32 \<Rightarrow> u8 list" where
  "ohex_upper offset =
    (if offset AND 0xffff = 0 then ascii '':02000004'' @ hex_out 4 (drop_bit 16 offset AND 0xffff)
       @ hex_out 2 ((NOT (2 + 0 + 0 + 4 + (drop_bit 24 offset AND 0xff) + (drop_bit 16 offset AND 0xff)) + 1) AND 0xff)
       @ [0x0d, 0x0a]
     else [])"

text \<open>\<open>key\<close> tells whether a key has been pressed when the line up to the offset is printed.\<close>

primrec ohex_loop :: "nat \<Rightarrow> memory \<Rightarrow> u32 \<Rightarrow> u32 \<Rightarrow> (u32 \<Rightarrow> bool) \<Rightarrow> u32 \<Rightarrow> (u8 list \<times> u32) option" where
  "ohex_loop 0 mem addr len key offset = None"
| "ohex_loop (Suc fuel) mem addr len key offset =
    (if offset < len then (let (line, offset) = ohex_line mem addr len offset in
       if key offset then Some (line @ ascii ''ohex: User interrupt'' @ [0x0d, 0x0a], offset)
       else do {
         (out, o') \<leftarrow> ohex_loop fuel mem addr len key offset;
         Some (line @ ohex_upper offset @ out, o')
       })
     else Some ([], offset))"

definition ohex_end :: "u32 \<Rightarrow> u8 list" where
  "ohex_end start32 = ascii '':04000005'' @ hex_out 8 start32
     @ hex_out 2 ((NOT (4 + 0 + 0 + 5 + (drop_bit 24 start32 AND 0xff) + (drop_bit 16 start32 AND 0xff)
         + (drop_bit 8 start32 AND 0xff) + (start32 AND 0xff)) + 1) AND 0xff)
     @ [0x0d, 0x0a] @ ascii '':00000001FF'' @ [0x0d, 0x0a]"

text \<open>What \<open>cli_cmd_ohex\<close> prints behind its first message.\<close>

definition ohex :: "nat \<Rightarrow> memory \<Rightarrow> u32 \<Rightarrow> u32 \<Rightarrow> u32 \<Rightarrow> (u32 \<Rightarrow> bool) \<Rightarrow> u8 list option" where
  "ohex fuel mem addr len start32 key = do {
     (out, offset) \<leftarrow> ohex_loop fuel mem addr len key 0;
     Some (out @ (if offset = len then ohex_end start32 else []) @ ascii ''ohex: end'' @ [0x0d, 0x0a, 0x04])
   }"

section \<open>Loading\<close>

record ihex =
  ih_mem :: memory
  ih_addr :: u32
  parse_data_flag :: bool
  ih_str :: "u8 list"
  ih_base :: u32
  ih_origin :: u32
  ih_start32 :: u32
  ih_crc :: u32
  bytes_read :: u32

definition ihex_init :: "memory \<Rightarrow> u32 \<Rightarrow> ihex" where
  "ihex_init mem addr = \<lparr>ih_mem = mem, ih_addr = addr, parse_data_flag = False, ih_str = [], ih_base = 0, ih_origin = 0,
     ih_start32 = 0, ih_crc = 0, bytes_read = 0\<rparr>"

text \<open>\<open>*(addr + base + offset + i) = ...\<close> for \<open>i\<close> from \<open>0\<close> on.\<close>

primrec store_bytes :: "u32 \<Rightarrow> u8 list \<Rightarrow> memory \<Rightarrow> memory" where
  "store_bytes a [] mem = mem"
| "store_bytes a (b # bs) mem = store_bytes (a + 1) bs (mem(a := b))"

text \<open>\<open>strntoul(str + i, n, 16)\<close>; the string is followed by its end.\<close>

definition hex_at :: "u8 list \<Rightarrow> nat \<Rightarrow> nat \<Rightarrow> u32" where
  "hex_at str i n = strntoul (drop i (str @ [0])) n 16"

text \<open>A collected line. The flag tells that the loop ends.\<close>

definition ihex_line :: "ihex \<Rightarrow> bool \<times> ihex" where
  "ihex_line s =
    (let str = takeWhile (\<lambda>c. c \<noteq> 0) (ih_str s); data_size = unat (hex_at (ih_str s) 0 2); len = length str in
     if len \<noteq> data_size * 2 + 10 then (False, s)
     else (let cs = foldl (\<lambda>cs i. cs + ucast (hex_at str (2 * i) 2)) (0 :: u8) [0..<(len - 2) div 2] in
       if NOT cs + 1 \<noteq> ucast (hex_at str (8 + data_size * 2) 2) then (False, s)
       else (let offset = hex_at str 2 4; ty = hex_at str 6 2;
                 s = (if ty = 0 then
                   (let mem = store_bytes (ih_addr s + ih_base s + offset)
                          (map (\<lambda>i. ucast (hex_at str (i * 2 + 8) 2)) [0..<data_size]) (ih_mem s) in
                    s\<lparr>ih_mem := mem,
                      ih_crc := crc32 (map (\<lambda>i. mem (ih_addr s + ih_base s + of_nat i)) [0..<data_size]) (of_nat data_size) (ih_crc s) 0xEDB88320,
                      bytes_read := bytes_read s + of_nat data_size\<rparr>) else s) in
         if ty = 1 then (True, s)
         else (let s = (if ty = 5 then s\<lparr>ih_start32 := hex_at str 8 8\<rparr> else s);
                   s = (if ty = 4 then
                     (let tmp = push_bit 16 (hex_at str 8 4); origin = (if ih_origin s = 0 then tmp else ih_origin s) in
                      s\<lparr>ih_origin := origin, ih_base := tmp - origin\<rparr>) else s) in (False, s)))))"

definition ihex_char :: "u8 \<Rightarrow> ihex \<Rightarrow> bool \<times> ihex" where
  "ihex_char c s =
    (if c = 0x3a then (False, s\<lparr>parse_data_flag := True, ih_str := []\<rparr>)
     else if c = 0x03 \<or> c = 0x04 \<or> c = 0x08 \<or> c = 0x7f then (True, s)
     else if \<not> parse_data_flag s then (False, s)
     else if c = 0x0d \<or> c = 0x0a then
       (let (stop, s) = ihex_line s in (stop, if stop then s else s\<lparr>parse_data_flag := False\<rparr>))
     else (let s = s\<lparr>ih_str := ih_str s @ [c]\<rparr> in
       (False, if 256 * 2 + 10 \<le> length (ih_str s) then s\<lparr>parse_data_flag := False\<rparr> else s)))"

primrec ihex_run :: "u8 list \<Rightarrow> ihex \<Rightarrow> ihex option" where
  "ihex_run [] s = None"
| "ihex_run (c # cs) s = (let (stop, s) = ihex_char c s in if stop then Some s else ihex_run cs s)"

section \<open>Hexadecimal digits\<close>

definition hex_char :: "u8 \<Rightarrow> bool" where
  "hex_char c \<longleftrightarrow> 0x30 \<le> c \<and> c \<le> 0x46 \<and> c \<noteq> 0x3a"

lemma hex_digits_ok:
  "list_all (\<lambda>n. digit_of (hex_digit (of_nat n)) = Some (of_nat n) \<and> hex_char (hex_digit (of_nat n))) [0..<16]"
  by code_simp

lemma hex_digit_ok:
  assumes "d < 16"
  shows "digit_of (hex_digit d) = Some d" "hex_char (hex_digit d)"
proof -
  have "unat d < 16" using assms by (simp add: word_less_nat_alt)
  then have "unat d \<in> set [0..<16]" by simp
  with hex_digits_ok have "digit_of (hex_digit (of_nat (unat d))) = Some (of_nat (unat d)) \<and> hex_char (hex_digit (of_nat (unat d)))"
    unfolding list_all_iff by (rule bspec)
  then show "digit_of (hex_digit d) = Some d" "hex_char (hex_digit d)" by simp_all
qed

lemma and_0xf: "(w :: u32) AND 0xf = take_bit 4 w"
  by (simp add: take_bit_eq_mask mask_eq_exp_minus_1)

lemma hex_nibble_less: "(w :: u32) AND 0xf < 16"
proof -
  have "w AND 0xf = w mod 16" by (simp add: and_0xf take_bit_eq_mod)
  then show ?thesis by (simp add: word_mod_less_divisor)
qed

lemma hex_value:
  "strntoul_loop 16 (hex_out k w @ cs) r = strntoul_loop 16 cs (r * 16 ^ k + take_bit (4 * k) w)"
proof (induction k arbitrary: r)
  case (Suc k)
  let ?t = "take_bit (4 * k + 4) w"
  have "push_bit (4 * k) (drop_bit (4 * k) ?t) + take_bit (4 * k) ?t = ?t" by (rule bits_ident)
  moreover have "drop_bit (4 * k) ?t = drop_bit (4 * k) w AND 0xf"
    unfolding and_0xf by (rule bit_word_eqI) (auto simp: bit_simps)
  moreover have "take_bit (4 * k) ?t = take_bit (4 * k) w" by (simp add: min_def)
  ultimately have "?t = (drop_bit (4 * k) w AND 0xf) * 16 ^ k + take_bit (4 * k) w"
    by (simp add: push_bit_eq_mult power_mult)
  then show ?case using Suc.IH hex_digit_ok(1) [OF hex_nibble_less [of "drop_bit (4 * k) w"]]
    by (simp add: algebra_simps)
qed simp

lemma hex_out_char: "c \<in> set (hex_out k w) \<Longrightarrow> hex_char c"
  by (induction k) (auto simp: hex_digit_ok(2) [OF hex_nibble_less])

lemma length_hex_out [simp]: "length (hex_out k w) = k"
  by (induction k) simp_all

text \<open>Two digits for each byte.\<close>

definition hex_bytes :: "u8 list \<Rightarrow> u8 list" where
  "hex_bytes bs = concat (map (\<lambda>b. hex_out 2 (ucast b)) bs)"

lemma hex_bytes_simps [simp]:
  "hex_bytes [] = []" "hex_bytes (b # bs) = hex_out 2 (ucast b) @ hex_bytes bs" "hex_bytes (xs @ ys) = hex_bytes xs @ hex_bytes ys"
  by (simp_all add: hex_bytes_def del: hex_out.simps)

lemma length_hex_bytes [simp]: "length (hex_bytes bs) = 2 * length bs"
  by (induction bs) (simp_all del: hex_out.simps)

lemma hex_bytes_char: "c \<in> set (hex_bytes bs) \<Longrightarrow> hex_char c"
  by (induction bs) (auto dest: hex_out_char simp del: hex_out.simps)

lemma hex_bytes_drop: "drop (2 * i) (hex_bytes bs @ ys) = hex_bytes (drop i bs) @ drop (2 * i - 2 * length bs) ys"
proof (induction bs arbitrary: i)
  case (Cons b bs)
  then show ?case by (cases i) (simp_all del: hex_out.simps)
qed simp

lemma hex_bytes_take: "m \<le> length bs \<Longrightarrow> take (2 * m) (hex_bytes bs @ ys) = hex_bytes (take m bs)"
proof (induction bs arbitrary: m)
  case (Cons b bs)
  then show ?case by (cases m) (simp_all del: hex_out.simps)
qed simp

lemma hex_bytes_value: "strntoul_loop 16 (hex_bytes bs) r = foldl (\<lambda>r b. r * 256 + ucast b) r bs"
proof (induction bs arbitrary: r)
  case (Cons b bs)
  have "take_bit 8 (ucast b :: u32) = ucast b" by (rule bit_word_eqI) (auto simp: bit_simps dest: bit_imp_le_length)
  then show ?case using Cons.IH hex_value [of 2 "ucast b" "hex_bytes bs" r] by (simp del: hex_out.simps)
qed simp

lemma hex_at_bytes:
  assumes "i + m \<le> length bs"
  shows "hex_at (hex_bytes bs) (2 * i) (2 * m) = foldl (\<lambda>r b. r * 256 + ucast b) 0 (take m (drop i bs))"
proof -
  have "take (2 * m) (drop (2 * i) (hex_bytes bs @ [0])) = hex_bytes (take m (drop i bs))"
    using assms unfolding hex_bytes_drop by (intro hex_bytes_take) simp
  then show ?thesis by (simp only: hex_at_def strntoul_def hex_bytes_value)
qed

lemma hex_at_byte: "i < length bs \<Longrightarrow> hex_at (hex_bytes bs) (2 * i) 2 = ucast (bs ! i)"
  using hex_at_bytes [of i 1 bs] by (simp add: take_Suc_conv_app_nth take_drop)

section \<open>Loading one record\<close>

lemma ihex_run_collect:
  assumes "list_all hex_char cs" "parse_data_flag s" "length (ih_str s) + length cs < 522"
  shows "ihex_run (cs @ rest) s = ihex_run rest (s\<lparr>ih_str := ih_str s @ cs\<rparr>)"
  using assms
proof (induction cs arbitrary: s)
  case (Cons c cs)
  have "ihex_char c s = (False, s\<lparr>ih_str := ih_str s @ [c]\<rparr>)"
    using Cons.prems by (auto simp: ihex_char_def hex_char_def Let_def word_le_nat_alt)
  then show ?case using Cons.IH [of "s\<lparr>ih_str := ih_str s @ [c]\<rparr>"] Cons.prems by simp
qed simp

lemma hex_bytes_all: "list_all hex_char (hex_bytes bs)"
  by (auto simp: list_all_iff dest: hex_bytes_char)

lemma u8_u32_u8 [simp]: "(ucast (ucast (b :: u8) :: u32) :: u8) = b"
  by (rule bit_word_eqI) (auto simp: bit_simps)

lemma u8_u32_unat [simp]: "unat (ucast (b :: u8) :: u32) = unat b"
proof -
  have "unat b < 2 ^ 32" using unsigned_less [of b, where 'a = nat] by simp
  then show ?thesis by (simp add: unsigned_ucast_eq take_bit_nat_eq_self)
qed

lemma u8_u32_cases:
  "(ucast (b :: u8) :: u32) = 0 \<longleftrightarrow> b = 0" "(ucast b :: u32) = 1 \<longleftrightarrow> b = 1"
  "(ucast b :: u32) = 4 \<longleftrightarrow> b = 4" "(ucast b :: u32) = 5 \<longleftrightarrow> b = 5"
  by (simp_all add: word_unat_eq_iff)

lemma foldl_bytes: "foldl (\<lambda>cs i. cs + f i) (a :: u8) xs = a + sum_list (map f xs)"
  by (induction xs arbitrary: a) (simp_all add: add.assoc)

text \<open>What a well-formed record does.\<close>

definition apply_record :: "u32 \<Rightarrow> u8 \<Rightarrow> u8 list \<Rightarrow> ihex \<Rightarrow> ihex" where
  "apply_record offset ty bs s =
    (if ty = 0 then
       (let mem = store_bytes (ih_addr s + ih_base s + offset) bs (ih_mem s) in
        s\<lparr>ih_mem := mem,
          ih_crc := crc32 (map (\<lambda>i. mem (ih_addr s + ih_base s + of_nat i)) [0..<length bs]) (of_nat (length bs)) (ih_crc s) 0xEDB88320,
          bytes_read := bytes_read s + of_nat (length bs)\<rparr>)
     else if ty = 5 then s\<lparr>ih_start32 := foldl (\<lambda>r b. r * 256 + ucast b) 0 (take 4 bs)\<rparr>
     else if ty = 4 then
       (let tmp = push_bit 16 (foldl (\<lambda>r b. r * 256 + ucast b) 0 (take 2 bs)); origin = (if ih_origin s = 0 then tmp else ih_origin s) in
        s\<lparr>ih_origin := origin, ih_base := tmp - origin\<rparr>)
     else s)"

lemma ihex_line_ok:
  fixes s n h l ty bs
  defines "body \<equiv> n # h # l # ty # bs"
  assumes str: "ih_str s = hex_bytes (body @ [- sum_list body])" and n: "unat n = length bs"
    and "ty = 5 \<Longrightarrow> 4 \<le> length bs" "ty = 4 \<Longrightarrow> 2 \<le> length bs"
  shows "ihex_line s = (ty = 1, apply_record (ucast h * 256 + ucast l) ty bs s)"
proof -
  let ?all = "body @ [- sum_list body]"
  have all: "takeWhile (\<lambda>c. c \<noteq> 0) (hex_bytes ?all) = hex_bytes ?all"
    by (auto simp: takeWhile_eq_all_conv hex_char_def simp del: hex_bytes_simps dest!: hex_bytes_char)
  have len: "length body = 4 + length bs" by (simp add: body_def)
  have at: "hex_at (hex_bytes ?all) (2 * i) 2 = ucast (?all ! i)" if "i < 5 + length bs" for i
    using that len by (intro hex_at_byte) simp
  have cs: "foldl (\<lambda>cs i. cs + ucast (hex_at (hex_bytes ?all) (2 * i) 2)) (0 :: u8) [0..<4 + length bs] = sum_list body"
  proof -
    have "map (\<lambda>i. ucast (hex_at (hex_bytes ?all) (2 * i) 2)) [0..<4 + length bs] = body"
      using len by (intro nth_equalityI) (simp_all add: at nth_append del: hex_bytes_simps)
    then show ?thesis by (simp only: foldl_bytes) simp
  qed
  have data: "map (\<lambda>i. ucast (hex_at (hex_bytes ?all) (i * 2 + 8) 2)) [0..<length bs] = bs"
  proof (rule nth_equalityI)
    fix i assume "i < length (map (\<lambda>i. ucast (hex_at (hex_bytes ?all) (i * 2 + 8) 2) :: u8) [0..<length bs])"
    then show "map (\<lambda>i. ucast (hex_at (hex_bytes ?all) (i * 2 + 8) 2)) [0..<length bs] ! i = bs ! i"
      using at [of "i + 4"] len by (simp add: nth_append body_def algebra_simps del: hex_bytes_simps)
  qed simp
  have size: "hex_at (hex_bytes ?all) 0 2 = ucast n" and ty: "hex_at (hex_bytes ?all) 6 2 = ucast ty"
    using at [of 0] at [of 3] by (simp_all add: body_def del: hex_bytes_simps)
  have off: "hex_at (hex_bytes ?all) 2 4 = ucast h * 256 + ucast l"
    using hex_at_bytes [of 1 2 ?all] by (simp add: body_def take_Suc_conv_app_nth eval_nat_numeral del: hex_bytes_simps)
  have sum: "hex_at (hex_bytes ?all) (8 + length bs * 2) 2 = ucast (- sum_list body)"
    using at [of "4 + length bs"] len by (simp add: nth_append algebra_simps del: hex_bytes_simps)
  have word: "hex_at (hex_bytes ?all) 8 (2 * m) = foldl (\<lambda>r b. r * 256 + ucast b) 0 (take m bs)" if "m \<le> length bs" for m
    using hex_at_bytes [of 4 m ?all] that by (simp add: body_def del: hex_bytes_simps)
  have l: "length (hex_bytes ?all) = length bs * 2 + 10" "(length bs * 2 + 10 - 2) div 2 = 4 + length bs"
    using len by (simp_all del: hex_bytes_simps)
  have neg: "NOT (sum_list body) + 1 = (ucast (ucast (- sum_list body) :: u32) :: u8)"
    unfolding u8_u32_u8 by (rule minus_eq_not_plus_1 [symmetric])
  have five: "ty = 5 \<Longrightarrow> hex_at (hex_bytes ?all) 8 8 = foldl (\<lambda>r b. r * 256 + ucast b) 0 (take 4 bs)"
    using word [of 4] assms(4) by (simp del: hex_bytes_simps)
  have four: "ty = 4 \<Longrightarrow> hex_at (hex_bytes ?all) 8 4 = foldl (\<lambda>r b. r * 256 + ucast b) 0 (take 2 bs)"
    using word [of 2] assms(5) by (simp del: hex_bytes_simps)
  have line: "ihex_line s =
     (let s = (if ty = 0 then
           (let mem = store_bytes (ih_addr s + ih_base s + (ucast h * 256 + ucast l)) bs (ih_mem s) in
            s\<lparr>ih_mem := mem,
              ih_crc := crc32 (map (\<lambda>i. mem (ih_addr s + ih_base s + of_nat i)) [0..<length bs]) (of_nat (length bs)) (ih_crc s) 0xEDB88320,
              bytes_read := bytes_read s + of_nat (length bs)\<rparr>) else s) in
      if ty = 1 then (True, s)
      else (let s = (if ty = 5 then s\<lparr>ih_start32 := hex_at (hex_bytes ?all) 8 8\<rparr> else s);
                s = (if ty = 4 then
                     (let tmp = push_bit 16 (hex_at (hex_bytes ?all) 8 4); origin = (if ih_origin s = 0 then tmp else ih_origin s) in
                      s\<lparr>ih_origin := origin, ih_base := tmp - origin\<rparr>) else s) in (False, s)))"
    unfolding ihex_line_def str all
    by (simp only: Let_def size u8_u32_unat n l cs sum neg off ty data u8_u32_cases not_False_eq_True if_False simp_thms)
  show ?thesis
  proof (cases "ty = 0 \<or> ty = 1 \<or> ty = 4 \<or> ty = 5")
    case True
    then show ?thesis using four five unfolding line apply_record_def by (elim disjE) (simp_all add: Let_def del: hex_bytes_simps)
  next
    case False
    then show ?thesis unfolding line apply_record_def by (simp add: Let_def)
  qed
qed

text \<open>A record as it is printed, and the loader from its colon to its end of line.\<close>

definition record_text :: "u32 \<Rightarrow> u8 \<Rightarrow> u8 list \<Rightarrow> u8 list" where
  "record_text offset ty bs =
    (let body = of_nat (length bs) # ucast (drop_bit 8 offset) # ucast offset # ty # bs in
     0x3a # hex_bytes (body @ [- sum_list body]) @ [0x0d, 0x0a])"

lemma address_value:
  fixes w :: u32
  shows "(ucast (ucast (drop_bit 8 w) :: u8) :: u32) * 256 + ucast (ucast w :: u8) = take_bit 16 w"
proof -
  have "push_bit 8 (drop_bit 8 (take_bit 16 w)) + take_bit 8 (take_bit 16 w) = take_bit 16 w" by (rule bits_ident)
  moreover have "drop_bit 8 (take_bit 16 w) = ucast (ucast (drop_bit 8 w) :: u8)" "take_bit 8 (take_bit 16 w) = ucast (ucast w :: u8)"
    by (rule bit_word_eqI; auto simp: bit_simps)+
  ultimately show ?thesis by (simp add: push_bit_eq_mult)
qed

lemma ihex_run_record:
  assumes len: "length bs < 256" and ty: "ty = 5 \<Longrightarrow> 4 \<le> length bs" "ty = 4 \<Longrightarrow> 2 \<le> length bs"
  shows "\<exists>str. ihex_run (record_text offset ty bs @ rest) s =
    (let s = apply_record (take_bit 16 offset) ty bs (s\<lparr>parse_data_flag := True, ih_str := str\<rparr>) in
     if ty = 1 then Some s else ihex_run rest (s\<lparr>parse_data_flag := False\<rparr>))"
proof -
  let ?body = "of_nat (length bs) # ucast (drop_bit 8 offset) # ucast offset # ty # bs :: u8 list"
  let ?str = "hex_bytes (?body @ [- sum_list ?body])"
  let ?s = "s\<lparr>parse_data_flag := True, ih_str := ?str\<rparr>"
  have n: "unat (of_nat (length bs) :: u8) = length bs" using len by (simp add: unat_of_nat take_bit_nat_eq_self)
  have "length ?str = length bs * 2 + 10" by (simp del: hex_bytes_simps)
  then have run: "ihex_run (?str @ cs) (s\<lparr>parse_data_flag := True, ih_str := []\<rparr>) = ihex_run cs ?s" for cs
    using len ihex_run_collect [OF hex_bytes_all, of "s\<lparr>parse_data_flag := True, ih_str := []\<rparr>" "?body @ [- sum_list ?body]" cs]
    by (simp del: hex_bytes_simps)
  have line: "ihex_line ?s = (ty = 1, apply_record (take_bit 16 offset) ty bs ?s)"
    unfolding address_value [symmetric] by (rule ihex_line_ok) (use n ty in simp_all)
  have flag: "parse_data_flag (apply_record o' ty bs ?s)" for o'
    by (simp add: apply_record_def Let_def)
  have "ihex_run (record_text offset ty bs @ rest) s = ihex_run (?str @ [0x0d, 0x0a] @ rest) (s\<lparr>parse_data_flag := True, ih_str := []\<rparr>)"
    unfolding record_text_def Let_def by (simp add: ihex_char_def del: hex_bytes_simps)
  also have "\<dots> = ihex_run ([0x0d, 0x0a] @ rest) ?s" by (rule run)
  also have "\<dots> = (let s = apply_record (take_bit 16 offset) ty bs ?s in
     if ty = 1 then Some s else ihex_run rest (s\<lparr>parse_data_flag := False\<rparr>))"
    using line by (simp add: ihex_char_def Let_def del: hex_bytes_simps)
  finally show ?thesis by blast
qed

section \<open>What is printed\<close>

lemma u8_add: "(ucast (a + b :: u32) :: u8) = ucast a + ucast b"
proof -
  have *: "take_bit 8 (x + y) = take_bit 8 (take_bit 32 x + take_bit 32 y)" for x y :: int
  proof -
    have "take_bit 8 (take_bit 32 (x + y)) = take_bit 8 (take_bit 32 (take_bit 32 x + take_bit 32 y))" by (simp only: take_bit_add)
    then show ?thesis by (simp add: min_def)
  qed
  show ?thesis by transfer (simp add: * [symmetric] take_bit_add)
qed

lemma u8_minus: "(ucast (- a :: u32) :: u8) = - ucast a"
  using u8_add [of a "- a"] by (simp add: eq_neg_iff_add_eq_0 add.commute)

lemma hex_out_u8: "hex_out 2 (ucast (ucast w :: u8)) = hex_out 2 w"
proof -
  have "drop_bit j (ucast (ucast w :: u8) :: u32) AND 0xf = drop_bit j w AND 0xf" if "j \<le> 4" for j
    unfolding and_0xf by (rule bit_word_eqI) (use that in \<open>auto simp: bit_simps\<close>)
  from this [of 4] this [of 0] show ?thesis by (simp add: numeral_2_eq_2)
qed

lemma hex_out_ff: "hex_out 2 (w AND 0xff) = hex_bytes [ucast w]"
proof -
  have "ucast (w AND 0xff) = (ucast w :: u8)" 
  proof -
    have "w AND 0xff = take_bit 8 w" by (simp add: take_bit_eq_mask mask_eq_exp_minus_1)
    then show ?thesis by (simp only:) (rule bit_word_eqI, auto simp: bit_simps)
  qed
  then show ?thesis using hex_out_u8 [of "w AND 0xff"] by (simp del: hex_out.simps)
qed

lemma hex_out_4: "hex_out 4 w = hex_bytes [ucast (drop_bit 8 w), ucast w]"
proof -
  have "hex_out 4 w = hex_out 2 (drop_bit 8 w) @ hex_out 2 w" by (simp add: eval_nat_numeral)
  then show ?thesis by (simp add: hex_out_u8 del: hex_out.simps)
qed

lemma hex_out_8: "hex_out 8 w = hex_bytes [ucast (drop_bit 24 w), ucast (drop_bit 16 w), ucast (drop_bit 8 w), ucast w]"
proof -
  have "hex_out 8 w = hex_out 2 (drop_bit 24 w) @ hex_out 2 (drop_bit 16 w) @ hex_out 2 (drop_bit 8 w) @ hex_out 2 w"
    by (simp add: eval_nat_numeral)
  then show ?thesis by (simp add: hex_out_u8 del: hex_out.simps)
qed

lemma ohex_bytes_eq:
  "ohex_bytes mem addr n offset cs =
    (let bs = map (\<lambda>i. mem (addr + offset + of_nat i)) [0..<n] in (hex_bytes bs, offset + of_nat n, cs + sum_list bs))"
proof (induction n arbitrary: offset cs)
  case (Suc n)
  have "map (\<lambda>i. mem (addr + offset + of_nat i)) [0..<Suc n]
      = mem (addr + offset) # map (\<lambda>i. mem (addr + (offset + 1) + of_nat i)) [0..<n]"
    by (subst map_upt_Suc) (simp add: algebra_simps del: upt_Suc)
  then show ?case by (simp add: Suc.IH Let_def algebra_simps del: hex_out.simps upt_Suc)
qed simp

lemma and_0xff_u8 [simp]: "(ucast ((w :: u32) AND 0xff) :: u8) = ucast w"
proof -
  have "w AND 0xff = take_bit 8 w" by (simp add: take_bit_eq_mask mask_eq_exp_minus_1)
  then show ?thesis by (simp only:) (rule bit_word_eqI, auto simp: bit_simps)
qed

lemma and_0xffff: "(w :: u32) AND 0xffff = take_bit 16 w"
  by (simp add: take_bit_eq_mask mask_eq_exp_minus_1)

lemma hex_out_ffff: "hex_out 4 (w AND 0xffff) = hex_bytes [ucast (drop_bit 8 w), ucast w]"
proof -
  have "ucast (drop_bit 8 (take_bit 16 w)) = (ucast (drop_bit 8 w) :: u8)" "ucast (take_bit 16 w) = (ucast w :: u8)"
    by (rule bit_word_eqI; auto simp: bit_simps)+
  then show ?thesis by (simp only: hex_out_4 and_0xffff)
qed

definition chunk :: "memory \<Rightarrow> u32 \<Rightarrow> nat \<Rightarrow> nat \<Rightarrow> u8 list" where
  "chunk mem addr o' n = map (\<lambda>i. mem (addr + of_nat i)) [o'..<n]"

lemma ohex_line_eq:
  assumes "k < len" "len \<le> 0x20000"
  defines "n \<equiv> min 16 (len - k)"
  shows "ohex_line mem addr (of_nat len) (of_nat k) = (record_text (of_nat k) 0 (chunk mem addr k (k + n)), of_nat (k + n))"
proof -
  have u: "unat (of_nat x :: u32) = x" if "x \<le> 0x20010" for x using that by (simp add: unat_of_nat take_bit_nat_eq_self)
  have "(of_nat k + 16 :: u32) = of_nat (k + 16)" "(of_nat len - of_nat k :: u32) = of_nat (len - k)" using assms by simp_all
  then have size: "(if of_nat k + OHEX_BYTES_PER_LINE \<le> (of_nat len :: u32) then OHEX_BYTES_PER_LINE
           else (of_nat len - of_nat k) mod OHEX_BYTES_PER_LINE) = of_nat n"
    using assms u [of "k + 16"] u [of len] u [of "len - k"] by (auto simp: word_le_nat_alt word_arith_nat_mod n_def min_def)
  have n8: "(ucast (of_nat n :: u32) :: u8) = of_nat n" "unat (of_nat n :: u8) = n"
    using u [of n] by (simp_all add: n_def ucast_eq unat_of_nat take_bit_nat_eq_self uint_nat)
  have map: "map (\<lambda>i. mem (addr + of_nat k + of_nat i)) [0..<n] = chunk mem addr k (k + n)"
    by (rule nth_equalityI) (simp_all add: chunk_def algebra_simps)
  have len: "length (chunk mem addr k (k + n)) = n" by (simp add: chunk_def)
  show ?thesis unfolding ohex_line_def size Let_def n8 ohex_bytes_eq map prod.case record_text_def len
      minus_eq_not_plus_1 [symmetric]
    by (simp add: hex_out_ffff algebra_simps del: hex_out.simps)
qed

lemma hex_bytes_join: "hex_bytes xs @ hex_bytes ys @ zs = hex_bytes (xs @ ys) @ zs"
  by (simp only: hex_bytes_simps append_assoc)

lemma ohex_upper_eq:
  assumes "offset AND 0xffff = 0"
  shows "ohex_upper offset = record_text 0 4 [ucast (drop_bit 24 offset), ucast (drop_bit 16 offset)]"
proof -
  let ?a = "drop_bit 24 offset AND 0xff" and ?b = "drop_bit 16 offset AND 0xff"
  have head: "ascii '':02000004'' = 0x3a # hex_bytes [2, 0, 0, 4]" by code_simp
  have hi: "ucast (drop_bit 8 (drop_bit 16 offset)) = (ucast (drop_bit 24 offset) :: u8)" by (simp only: drop_bit_drop_bit) simp
  have sum: "(ucast (2 + 0 + 0 + 4 + ?a + ?b) :: u8) = 6 + ucast (drop_bit 24 offset) + ucast (drop_bit 16 offset)"
    by (simp only: u8_add and_0xff_u8) simp
  have body: "- (6 + x + y) = - sum_list [of_nat (length [x, y]), ucast (drop_bit 8 (0 :: u32)), ucast (0 :: u32), 4, x, y]" for x y :: u8
    by simp
  show ?thesis
    unfolding ohex_upper_def record_text_def Let_def hex_out_ff hex_out_ffff minus_eq_not_plus_1 [symmetric] u8_minus sum head hi
      body append_Cons
    by (simp only: assms if_True hex_bytes_join append_Cons append_Nil append_assoc refl) simp
qed

lemma ohex_end_eq:
  "ohex_end start32 = record_text 0 5 [ucast (drop_bit 24 start32), ucast (drop_bit 16 start32), ucast (drop_bit 8 start32), ucast start32]
     @ record_text 0 1 []"
proof -
  let ?a = "drop_bit 24 start32 AND 0xff" and ?b = "drop_bit 16 start32 AND 0xff"
    and ?c = "drop_bit 8 start32 AND 0xff" and ?d = "start32 AND 0xff"
  have head: "ascii '':04000005'' = 0x3a # hex_bytes [4, 0, 0, 5]" by code_simp
  have eof: "ascii '':00000001FF'' @ [0x0d, 0x0a] = record_text 0 1 []" by code_simp
  have sum: "(ucast (4 + 0 + 0 + 5 + ?a + ?b + ?c + ?d) :: u8)
      = 9 + ucast (drop_bit 24 start32) + ucast (drop_bit 16 start32) + ucast (drop_bit 8 start32) + ucast start32"
    by (simp only: u8_add and_0xff_u8) simp
  have body: "- (9 + x + y + z + w)
      = - sum_list [of_nat (length [x, y, z, w]), ucast (drop_bit 8 (0 :: u32)), ucast (0 :: u32), 5, x, y, z, w]" for x y z w :: u8
    by simp
  show ?thesis
    unfolding ohex_end_def eof
    unfolding record_text_def Let_def hex_out_ff hex_out_8 minus_eq_not_plus_1 [symmetric] u8_minus sum head body append_Cons
    by (simp only: hex_bytes_join append_Cons append_Nil append_assoc refl) simp
qed

section \<open>Loading what has been printed\<close>

lemma store_bytes_append: "store_bytes a (xs @ ys) m = store_bytes (a + of_nat (length xs)) ys (store_bytes a xs m)"
  by (induction xs arbitrary: a m) (simp_all add: algebra_simps)

lemma chunk_append: "i \<le> j \<Longrightarrow> j \<le> k \<Longrightarrow> chunk mem addr i k = chunk mem addr i j @ chunk mem addr j k"
  using upt_add_eq_append [of i j "k - j"] by (simp add: chunk_def)

lemma length_chunk [simp]: "length (chunk mem addr i k) = k - i"
  by (simp add: chunk_def)

lemma chunk_empty [simp]: "k \<le> i \<Longrightarrow> chunk mem addr i k = []"
  by (simp add: chunk_def)

text \<open>The loader behind the first \<open>k\<close> bytes: the bytes from \<open>0x10000\<close> on have gone to the start again.\<close>

definition stored :: "memory \<Rightarrow> u32 \<Rightarrow> u32 \<Rightarrow> memory \<Rightarrow> nat \<Rightarrow> memory" where
  "stored mem addr a m k = store_bytes a (chunk mem addr 0x10000 k) (store_bytes a (chunk mem addr 0 (min k 0x10000)) m)"

definition loaded :: "memory \<Rightarrow> u32 \<Rightarrow> u32 \<Rightarrow> memory \<Rightarrow> nat \<Rightarrow> ihex \<Rightarrow> bool" where
  "loaded mem addr a m k s \<longleftrightarrow> ih_addr s = a \<and> ih_base s = 0 \<and> ih_start32 s = 0
     \<and> ih_origin s = (if k < 0x10000 then 0 else 0x10000) \<and> bytes_read s = of_nat k \<and> ih_mem s = stored mem addr a m k"

lemma of_nat_low: "k < 0x20000 \<Longrightarrow> take_bit 16 (of_nat k :: u32) = of_nat (if k < 0x10000 then k else k - 0x10000)"
proof -
  assume k: "k < 0x20000"
  have "take_bit 16 (of_nat k :: u32) = of_nat (take_bit 16 k)" by (simp add: of_nat_take_bit)
  moreover have "take_bit 16 k = (if k < 0x10000 then k else k - 0x10000)"
    using k by (simp add: take_bit_eq_mod mod_if)
  ultimately show ?thesis by simp
qed

lemma stored_step:
  assumes "k mod 16 = 0" "n \<le> 16" "k < 0x20000"
  shows "store_bytes (a + take_bit 16 (of_nat k)) (chunk mem addr k (k + n)) (stored mem addr a m k) = stored mem addr a m (k + n)"
proof (cases "k < 0x10000")
  case True
  have "16 dvd k" "16 dvd (0x10000 :: nat)" using assms by auto
  then have "k + n \<le> 0x10000" using True assms(2) by (auto elim!: dvdE)
  then show ?thesis using True assms(3) chunk_append [where i = 0 and j = k and k = "k + n"]
    by (simp add: stored_def of_nat_low store_bytes_append)
next
  case False
  then show ?thesis using assms(3) chunk_append [where i = "0x10000" and j = k and k = "k + n"]
    by (simp add: stored_def of_nat_low store_bytes_append)
qed

lemma upper_value:
  "ih_base s = 0 \<Longrightarrow> ih_origin s = 0 \<Longrightarrow>
     apply_record 0 4 [ucast (drop_bit 24 (0x10000 :: u32)), ucast (drop_bit 16 (0x10000 :: u32))] s = s\<lparr>ih_origin := 0x10000\<rparr>"
  by (simp add: apply_record_def Let_def)

lemma line_step:
  assumes s: "loaded mem addr a m k s" and k: "k mod 16 = 0" "k < len" "len < 0x20000"
  defines "n \<equiv> min 16 (len - k)"
  shows "\<exists>s'. loaded mem addr a m (k + n) s' \<and>
    ihex_run (record_text (of_nat k) 0 (chunk mem addr k (k + n)) @ ohex_upper (of_nat (k + n)) @ rest) s = ihex_run rest s'"
proof -
  have n: "n \<le> 16" "0 < n" "k + n < 0x20000" using k by (auto simp: n_def)
  obtain str where run: "ihex_run (record_text (of_nat k) 0 (chunk mem addr k (k + n)) @ ohex_upper (of_nat (k + n)) @ rest) s
      = ihex_run (ohex_upper (of_nat (k + n)) @ rest)
          ((apply_record (take_bit 16 (of_nat k)) 0 (chunk mem addr k (k + n)) (s\<lparr>parse_data_flag := True, ih_str := str\<rparr>))\<lparr>parse_data_flag := False\<rparr>)"
    (is "_ = ihex_run _ ?s")
    using ihex_run_record [of "chunk mem addr k (k + n)" 0 "of_nat k" "ohex_upper (of_nat (k + n)) @ rest" s] n by (auto simp: Let_def)
  have s1: "ih_addr ?s = a" "ih_base ?s = 0" "ih_start32 ?s = 0" "bytes_read ?s = of_nat (k + n)" "ih_mem ?s = stored mem addr a m (k + n)"
    "ih_origin ?s = (if k < 0x10000 then 0 else 0x10000)"
    using s stored_step [OF k(1) n(1)] k by (simp_all add: loaded_def apply_record_def Let_def)
  show ?thesis
  proof (cases "k + n = 0x10000")
    case True
    then have up: "ohex_upper (of_nat (k + n)) = record_text 0 4 [ucast (drop_bit 24 (0x10000 :: u32)), ucast (drop_bit 16 (0x10000 :: u32))]"
      using ohex_upper_eq [of "0x10000"] by (simp only: of_nat_numeral) simp
    obtain str' where "ihex_run (ohex_upper (of_nat (k + n)) @ rest) ?s
        = ihex_run rest ((apply_record 0 4 [ucast (drop_bit 24 (0x10000 :: u32)), ucast (drop_bit 16 (0x10000 :: u32))]
            (?s\<lparr>parse_data_flag := True, ih_str := str'\<rparr>))\<lparr>parse_data_flag := False\<rparr>)"
      using ihex_run_record [of "[ucast (drop_bit 24 (0x10000 :: u32)), ucast (drop_bit 16 (0x10000 :: u32))]" 4 0 rest ?s] unfolding up
      by (auto simp: Let_def)
    moreover have "loaded mem addr a m (k + n) ((apply_record 0 4 [ucast (drop_bit 24 (0x10000 :: u32)), ucast (drop_bit 16 (0x10000 :: u32))]
            (?s\<lparr>parse_data_flag := True, ih_str := str'\<rparr>))\<lparr>parse_data_flag := False\<rparr>)"
      using s1 True n by (subst upper_value) (simp_all add: loaded_def)
    ultimately show ?thesis using run by metis
  next
    case False
    have "take_bit 16 (of_nat (k + n) :: u32) \<noteq> 0"
      using n False by (simp only: of_nat_low) (auto simp: unat_of_nat take_bit_nat_eq_self word_unat_eq_iff split: if_splits)
    then have up: "ohex_upper (of_nat (k + n)) = []" by (simp only: ohex_upper_def and_0xffff if_False)
    have "k < 0x10000 \<longleftrightarrow> k + n < 0x10000"
    proof -
      have "16 dvd k" "16 dvd (0x10000 :: nat)" using k by auto
      then show ?thesis using False n(1) by (auto elim!: dvdE)
    qed
    then have "loaded mem addr a m (k + n) ?s" using s1 by (simp add: loaded_def)
    then show ?thesis using run unfolding up by (metis append_Nil)
  qed
qed

lemma ohex_loop_loads:
  assumes "len < 0x20000" "len - k < fuel" "k mod 16 = 0 \<or> k = len" "k \<le> len"
  shows "\<exists>out. ohex_loop fuel mem addr (of_nat len) (\<lambda>_. False) (of_nat k) = Some (out, of_nat len)
    \<and> (\<forall>s rest. loaded mem addr a m k s \<longrightarrow> (\<exists>s'. loaded mem addr a m len s' \<and> ihex_run (out @ rest) s = ihex_run rest s'))"
  using assms
proof (induction fuel arbitrary: k)
  case (Suc fuel)
  have less: "(of_nat k :: u32) < of_nat len \<longleftrightarrow> k < len"
    using Suc.prems by (simp add: word_less_nat_alt unat_of_nat take_bit_nat_eq_self)
  show ?case
  proof (cases "k < len")
    case True
    let ?n = "min 16 (len - k)"
    have k: "k mod 16 = 0" using Suc.prems True by simp
    have aligned: "(k + ?n) mod 16 = 0 \<or> k + ?n = len" using k by (auto simp: min_def mod_add_left_eq [symmetric])
    have "len - (k + ?n) < fuel" "k + ?n \<le> len" using Suc.prems True by simp_all
    from Suc.IH [OF Suc.prems(1) this(1) aligned this(2)] obtain out
      where out: "ohex_loop fuel mem addr (of_nat len) (\<lambda>_. False) (of_nat (k + ?n)) = Some (out, of_nat len)"
      "\<forall>s rest. loaded mem addr a m (k + ?n) s \<longrightarrow> (\<exists>s'. loaded mem addr a m len s' \<and> ihex_run (out @ rest) s = ihex_run rest s')"
      by (elim exE conjE) (rule that)
    have line: "ohex_line mem addr (of_nat len) (of_nat k) = (record_text (of_nat k) 0 (chunk mem addr k (k + ?n)), of_nat (k + ?n))"
      using True Suc.prems(1) by (intro ohex_line_eq) simp_all
    let ?out = "record_text (of_nat k) 0 (chunk mem addr k (k + ?n)) @ ohex_upper (of_nat (k + ?n)) @ out"
    have "ohex_loop (Suc fuel) mem addr (of_nat len) (\<lambda>_. False) (of_nat k) = Some (?out, of_nat len)"
      using True by (simp only: ohex_loop.simps less if_True line Let_def prod.case out(1) if_False bind.bind_lunit)
    moreover have "\<exists>s'. loaded mem addr a m len s' \<and> ihex_run (?out @ rest) s = ihex_run rest s'" if "loaded mem addr a m k s" for s rest
      using line_step [OF that k True Suc.prems(1), of "out @ rest"] out(2) by (metis append_assoc)
    ultimately show ?thesis by blast
  next
    case False
    then show ?thesis using Suc.prems(4) less by (auto intro!: exI [of _ "[]"])
  qed
qed simp

lemma end_loads:
  assumes "loaded mem addr a m len s"
  shows "\<exists>s'. ihex_run (ohex_end start32 @ rest) s = Some s' \<and> ih_mem s' = stored mem addr a m len
    \<and> ih_start32 s' = start32 \<and> bytes_read s' = of_nat len"
proof -
  let ?bs = "[ucast (drop_bit 24 start32), ucast (drop_bit 16 start32), ucast (drop_bit 8 start32), ucast start32] :: u8 list"
  have start: "foldl (\<lambda>r b. r * 256 + ucast b) 0 (take 4 ?bs) = start32"
    using hex_bytes_value [of ?bs 0] hex_value [of 8 start32 "[]" 0] unfolding hex_out_8 by (simp add: take_bit_word_eq_self)
  obtain str where "ihex_run (record_text 0 5 ?bs @ record_text 0 1 [] @ rest) s
     = ihex_run (record_text 0 1 [] @ rest) ((apply_record 0 5 ?bs (s\<lparr>parse_data_flag := True, ih_str := str\<rparr>))\<lparr>parse_data_flag := False\<rparr>)"
    (is "_ = ihex_run _ ?s") using ihex_run_record [of ?bs 5 0 "record_text 0 1 [] @ rest" s] by (auto simp: Let_def)
  moreover obtain str' where "ihex_run (record_text 0 1 [] @ rest) ?s = Some (apply_record 0 1 [] (?s\<lparr>parse_data_flag := True, ih_str := str'\<rparr>))"
    using ihex_run_record [of "[]" 1 0 rest ?s] by (auto simp: Let_def)
  ultimately show ?thesis using assms start unfolding ohex_end_eq by (simp add: loaded_def apply_record_def del: take_Suc_Cons)
qed

lemma ohex_loads:
  assumes "len < 0x20000" "len < fuel"
  shows "\<exists>out s. ohex fuel mem addr (of_nat len) start32 (\<lambda>_. False) = Some out \<and> ihex_run out (ihex_init m a) = Some s
    \<and> ih_mem s = stored mem addr a m len \<and> ih_start32 s = start32 \<and> bytes_read s = of_nat len"
proof -
  have init: "loaded mem addr a m 0 (ihex_init m a)" by (simp add: loaded_def ihex_init_def stored_def)
  obtain out where out: "ohex_loop fuel mem addr (of_nat len) (\<lambda>_. False) 0 = Some (out, of_nat len)"
    "\<And>rest. \<exists>s'. loaded mem addr a m len s' \<and> ihex_run (out @ rest) (ihex_init m a) = ihex_run rest s'"
    using ohex_loop_loads [of len 0 fuel mem addr a m] assms init by auto
  let ?rest = "ascii ''ohex: end'' @ [0x0d, 0x0a, 0x04]"
  obtain s where s: "loaded mem addr a m len s" "ihex_run (out @ ohex_end start32 @ ?rest) (ihex_init m a) = ihex_run (ohex_end start32 @ ?rest) s"
    using out(2) by blast
  have "ohex fuel mem addr (of_nat len) start32 (\<lambda>_. False) = Some (out @ ohex_end start32 @ ?rest)"
    by (simp add: ohex_def out(1))
  then show ?thesis using s end_loads [OF s(1), of start32 ?rest] by auto
qed

lemma store_bytes_other: "\<forall>i<length bs. x \<noteq> a + of_nat i \<Longrightarrow> store_bytes a bs m x = m x"
proof (induction bs arbitrary: a m)
  case (Cons b bs)
  have "x \<noteq> a" using Cons.prems by fastforce
  moreover have "x \<noteq> a + 1 + of_nat i" if "i < length bs" for i
    using that Cons.prems by (auto dest!: spec [of _ "Suc i"] simp: algebra_simps)
  ultimately show ?case using Cons.IH [of "a + 1" "m(a := b)"] by (simp add: fun_upd_def)
qed simp

lemma store_bytes_at: "i < length bs \<Longrightarrow> length bs \<le> 0x20000 \<Longrightarrow> store_bytes a bs m (a + of_nat i) = bs ! i"
proof (induction bs arbitrary: a m i)
  case (Cons b bs)
  show ?case
  proof (cases i)
    case 0
    have "a \<noteq> a + 1 + of_nat j" if "j < length bs" for j
    proof
      assume "a = a + 1 + of_nat j"
      then have "(of_nat (Suc j) :: u32) = 0" by (simp add: add.assoc)
      moreover have "unat (of_nat (Suc j) :: u32) = Suc j" using that Cons.prems by (simp only: unat_of_nat) (simp add: take_bit_nat_eq_self)
      ultimately show False by simp
    qed
    then show ?thesis using 0 store_bytes_other [of bs a "a + 1" "m(a := b)"] by simp
  next
    case (Suc j)
    then show ?thesis using Cons.IH [of j "a + 1" "m(a := b)"] Cons.prems by (simp add: algebra_simps fun_upd_def)
  qed
qed simp

lemma chunk_at: "i < k - j \<Longrightarrow> chunk mem addr j k ! i = mem (addr + of_nat (j + i))"
  by (simp add: chunk_def)

text \<open>C22. What \<open>ohex\<close> prints of a block of up to 64 KiB, \<open>ihex\<close> loads at any address: the loader ends with the file,
  the block has the same bytes, no other byte has changed, and the entry address and the number of bytes are those of the file.\<close>

theorem ihex_loads_ohex:
  assumes "len \<le> 0x10000" "len < fuel"
  shows "\<exists>out s. ohex fuel mem addr (of_nat len) start32 (\<lambda>_. False) = Some out \<and> ihex_run out (ihex_init m a) = Some s
    \<and> (\<forall>i<len. ih_mem s (a + of_nat i) = mem (addr + of_nat i))
    \<and> (\<forall>x. (\<forall>i<len. x \<noteq> a + of_nat i) \<longrightarrow> ih_mem s x = m x)
    \<and> ih_start32 s = start32 \<and> bytes_read s = of_nat len"
proof -
  have "stored mem addr a m len = store_bytes a (chunk mem addr 0 len) m" using assms(1) by (simp add: stored_def)
  then show ?thesis using ohex_loads [of len fuel mem addr start32 m a] assms
    by (auto simp: store_bytes_at store_bytes_other chunk_at)
qed

theorem ihex_loads_ohex_witness:
  "\<exists>out s. ohex 21 (\<lambda>x. ucast (x * x)) 0x1000 (of_nat 20) 0x80000074 (\<lambda>_. False) = Some out
    \<and> ihex_run out (ihex_init (\<lambda>_. 0xff) 0x2000) = Some s \<and> ih_mem s (0x2000 + of_nat 17) = ucast (0x1011 * 0x1011 :: u32)"
proof -
  have "(20 :: nat) \<le> 0x10000" "20 < (21 :: nat)" by simp_all
  from ihex_loads_ohex [OF this, of "\<lambda>x. ucast (x * x)" "0x1000" "0x80000074" "\<lambda>_. 0xff" "0x2000"] obtain out s
    where *: "ohex 21 (\<lambda>x. ucast (x * x)) 0x1000 (of_nat 20) 0x80000074 (\<lambda>_. False) = Some out"
      "ihex_run out (ihex_init (\<lambda>_. 0xff) 0x2000) = Some s"
      "\<forall>i<20. ih_mem s (0x2000 + of_nat i) = ucast ((0x1000 + of_nat i) * (0x1000 + of_nat i) :: u32)"
    by (elim exE conjE) (rule that)
  have "ih_mem s (0x2000 + of_nat 17) = ucast (0x1011 * 0x1011 :: u32)" using spec [OF *(3), of 17] by simp
  with *(1,2) show ?thesis by blast
qed

text \<open>A longer block is not loaded: \<open>ihex\<close> takes the first upper address it meets, the one of the second 64 KiB, for the
  origin, so that the bytes behind the first 64 KiB overwrite those at the start and nothing is stored where they belong. The
  number of bytes that it reports is the whole length.\<close>

theorem ihex_wraps_at_64k:
  assumes "0x10000 < len" "len < 0x20000" "len < fuel"
  shows "\<exists>out s. ohex fuel mem addr (of_nat len) start32 (\<lambda>_. False) = Some out \<and> ihex_run out (ihex_init m a) = Some s
    \<and> (\<forall>i<len - 0x10000. ih_mem s (a + of_nat i) = mem (addr + of_nat (0x10000 + i)))
    \<and> (\<forall>x. (\<forall>i<0x10000. x \<noteq> a + of_nat i) \<longrightarrow> ih_mem s x = m x)
    \<and> ih_start32 s = start32 \<and> bytes_read s = of_nat len"
proof -
  have "stored mem addr a m len (a + of_nat i) = mem (addr + of_nat (0x10000 + i))" if "i < len - 0x10000" for i
    unfolding stored_def using assms(2) that by (simp add: store_bytes_at chunk_at)
  moreover have "stored mem addr a m len x = m x" if "\<forall>i<0x10000. x \<noteq> a + of_nat i" for x
  proof -
    have "\<forall>i<length (chunk mem addr 0x10000 len). x \<noteq> a + of_nat i" "\<forall>i<length (chunk mem addr 0 (min len 0x10000)). x \<noteq> a + of_nat i"
      using assms(1,2) that by simp_all
    then show ?thesis unfolding stored_def by (simp only: store_bytes_other)
  qed
  ultimately show ?thesis using ohex_loads [OF assms(2,3), of mem addr start32 m a] by auto
qed

theorem ihex_wraps_at_64k_witness:
  "\<exists>out s. ohex 0x10011 (\<lambda>x. if x < 0x10000 then 1 else 2) 0 (of_nat 0x10010) 0 (\<lambda>_. False) = Some out
    \<and> ihex_run out (ihex_init (\<lambda>_. 0) 0x80000000) = Some s \<and> ih_mem s (0x80000000 + of_nat 3) = 2"
proof -
  have "(0x10000 :: nat) < 0x10010" "0x10010 < (0x20000 :: nat)" "0x10010 < (0x10011 :: nat)" by simp_all
  from ihex_wraps_at_64k [OF this, of "\<lambda>x. if x < 0x10000 then 1 else 2" 0 0 "\<lambda>_. 0" "0x80000000"] obtain out s
    where *: "ohex 0x10011 (\<lambda>x. if x < 0x10000 then 1 else 2) 0 (of_nat 0x10010) 0 (\<lambda>_. False) = Some out"
      "ihex_run out (ihex_init (\<lambda>_. 0) 0x80000000) = Some s"
      "\<forall>i<0x10010 - 0x10000. ih_mem s (0x80000000 + of_nat i) = (if 0 + of_nat (0x10000 + i) < (0x10000 :: u32) then 1 else 2)"
    by (elim exE conjE) (rule that)
  have "ih_mem s (0x80000000 + of_nat 3) = 2" using spec [OF *(3), of 3] by simp
  with *(1,2) show ?thesis by blast
qed

end
