(* ===== verification/Cga.thy ===== *)
theory Cga
  imports KPrelude "HOL-Library.Monad_Syntax"
begin

text \<open>
  The graphics of the video adapter (cga.c, cga.h): two-bit pixels in the words of the frame buffer, copying of
  images, lines and fonts, with the proof that each of them sets exactly the pixels it should.

  \<^item> C \<open>int\<close>s are integers, the theorems bound them where the code computes with them; a read or write
    outside an array is \<^term>\<open>None\<close>.
  \<^item> A frame buffer is a list of 32-bit words. A word holds 16 pixels, the first one in the highest bits.
\<close>

section \<open>Memory\<close>

abbreviation (input) CGA_VIDEO_WIDTH :: int where "CGA_VIDEO_WIDTH \<equiv> 320"
abbreviation (input) CGA_VIDEO_HEIGHT :: int where "CGA_VIDEO_HEIGHT \<equiv> 240"
abbreviation (input) CGA_TEXT_WIDTH :: int where "CGA_TEXT_WIDTH \<equiv> 80"
abbreviation (input) CGA_TEXT_HEIGHT :: int where "CGA_TEXT_HEIGHT \<equiv> 30"
abbreviation (input) CGA_TEXT_HEIGHT_TOTAL :: int where "CGA_TEXT_HEIGHT_TOTAL \<equiv> 64"
abbreviation (input) CGA_FRAMEBUFFER_SIZE :: int where "CGA_FRAMEBUFFER_SIZE \<equiv> 19200"

definition load :: "'a list \<Rightarrow> int \<Rightarrow> 'a option" where
  "load xs i = (if 0 \<le> i \<and> i < int (length xs) then Some (xs ! nat i) else None)"

definition store :: "'a list \<Rightarrow> int \<Rightarrow> 'a \<Rightarrow> 'a list option" where
  "store xs i x = (if 0 \<le> i \<and> i < int (length xs) then Some (xs[nat i := x]) else None)"

section \<open>Copying an image\<close>

text \<open>The shift that brings a pixel to its place in a word: \<open>(15 - (pixel_idx & 0xf)) << 1\<close>.\<close>

definition pixel_shift :: "int \<Rightarrow> nat" where
  "pixel_shift pixel_idx = (15 - nat (pixel_idx mod 16)) * 2"

definition src_shift :: "int \<Rightarrow> nat" where
  "src_shift col = (3 - nat (col mod 4)) * 2"

text \<open>The state of the inner loop: the destination, \<open>word_idx_prev\<close> and \<open>pixel_word\<close>.\<close>

definition blit_pixel :: "u8 list \<Rightarrow> int \<Rightarrow> int \<Rightarrow> int \<Rightarrow> u32 list \<times> int \<times> u32 \<Rightarrow> (u32 list \<times> int \<times> u32) option" where
  "blit_pixel src src_pos pixel_idx_0 col = (\<lambda>(dst, word_idx_prev, pixel_word).
    (let pixel_idx = pixel_idx_0 + col; pixel_offset = pixel_shift pixel_idx; word_idx = pixel_idx div 16;
         pixel_mask = push_bit pixel_offset 0x03 :: u32 in do {
       (dst, pixel_word) \<leftarrow> (if word_idx \<noteq> word_idx_prev then do {
            dst \<leftarrow> (if word_idx_prev \<noteq> -1 then store dst word_idx_prev pixel_word else Some dst);
            w \<leftarrow> load dst word_idx; Some (dst, w) }
          else Some (dst, pixel_word));
       src_byte \<leftarrow> load src (src_pos + col div 4);
       let src_word = (ucast src_byte :: u32); src_pixel_offset = src_shift col;
           pixel_word = pixel_word AND NOT pixel_mask;
           src_word = (if src_pixel_offset \<le> pixel_offset then push_bit (pixel_offset - src_pixel_offset) src_word
             else drop_bit (src_pixel_offset - pixel_offset) src_word) in
       Some (dst, word_idx, pixel_word OR (src_word AND pixel_mask))
     }))"

text \<open>\<open>n\<close> columns from \<open>col\<close> on, and \<open>n\<close> rows.\<close>

primrec blit_cols :: "nat \<Rightarrow> u8 list \<Rightarrow> int \<Rightarrow> int \<Rightarrow> int \<Rightarrow> u32 list \<times> int \<times> u32 \<Rightarrow> (u32 list \<times> int \<times> u32) option" where
  "blit_cols 0 src src_pos pixel_idx_0 col st = Some st"
| "blit_cols (Suc n) src src_pos pixel_idx_0 col st = do {
     st \<leftarrow> blit_pixel src src_pos pixel_idx_0 col st; blit_cols n src src_pos pixel_idx_0 (col + 1) st }"

primrec blit_rows :: "nat \<Rightarrow> u8 list \<Rightarrow> int \<Rightarrow> int \<Rightarrow> int \<Rightarrow> int \<Rightarrow> int \<Rightarrow> int \<Rightarrow> u32 list \<times> int \<times> u32 \<Rightarrow>
    (u32 list \<times> int \<times> u32) option" where
  "blit_rows 0 src src_stride dst_width col_start col_end src_pos pixel_idx_0 st = Some st"
| "blit_rows (Suc n) src src_stride dst_width col_start col_end src_pos pixel_idx_0 st = do {
     st \<leftarrow> blit_cols (nat (col_end - col_start)) src src_pos pixel_idx_0 col_start st;
     blit_rows n src src_stride dst_width col_start col_end (src_pos + src_stride) (pixel_idx_0 + dst_width) st }"

text \<open>Behind the loops \<open>word_idx\<close> is the last \<open>word_idx_prev\<close>, and not initialised when no pixel was copied.\<close>

definition cga_bitblit :: "u8 list \<Rightarrow> u32 list \<Rightarrow> int \<Rightarrow> int \<Rightarrow> int \<Rightarrow> int \<Rightarrow> int \<Rightarrow> int \<Rightarrow> u32 list option" where
  "cga_bitblit src_img dst_img x y src_width src_height dst_width dst_height =
    (let src_stride = src_width div 4 in
     if dst_height \<le> y \<or> y + src_height \<le> 0 then Some dst_img
     else (let src = (if y < 0 then - y * src_stride else 0);
               src_height = (if y < 0 then src_height + y else src_height);
               y = (if y < 0 then 0 else y);
               src_height = (if dst_height < y + src_height then dst_height - y else src_height) in
       if dst_width \<le> x \<or> x + src_width \<le> 0 then Some dst_img
       else (let col_start = (if x < 0 then - x else 0);
                 col_end = (if dst_width < x + src_width then dst_width - x else src_width) in do {
         (dst, word_idx, pixel_word) \<leftarrow> blit_rows (nat src_height) src_img src_stride dst_width col_start col_end src
            (y * dst_width + x) (dst_img, -1, 0);
         if word_idx = -1 then None else store dst word_idx pixel_word
       })))"

section \<open>Drawing\<close>

definition cga_fill_screen :: "u8 \<Rightarrow> u32 list \<Rightarrow> u32 list option" where
  "cga_fill_screen color fb =
    (let c = (ucast (color AND 3) :: u32);
         filler = push_bit 30 c OR push_bit 28 c OR push_bit 26 c OR push_bit 24 c;
         filler = filler OR (drop_bit 8 filler OR drop_bit 16 filler OR drop_bit 24 filler);
         n = nat (CGA_FRAMEBUFFER_SIZE div (8 * 4)) * 8 in
     if n \<le> length fb then Some (replicate n filler @ drop n fb) else None)"

definition cga_draw_pixel :: "int \<Rightarrow> int \<Rightarrow> u32 \<Rightarrow> u32 list \<Rightarrow> u32 list option" where
  "cga_draw_pixel x y color fb =
    (let pixel_idx = y * CGA_VIDEO_WIDTH + x; word_idx = pixel_idx div 16 in
     if word_idx < 0 \<or> CGA_FRAMEBUFFER_SIZE div 4 < word_idx then Some fb
     else (let pixel_offset = pixel_shift pixel_idx; pixel_mask = push_bit pixel_offset 0x03 :: u32 in do {
       pixel_word \<leftarrow> load fb word_idx;
       store fb word_idx (pixel_word AND NOT pixel_mask OR push_bit pixel_offset (color AND 3))
     }))"

text \<open>\<open>while(1)\<close> of \<open>cga_draw_line\<close>; the pixels are drawn by the function \<open>draw\<close>.\<close>

primrec line_loop :: "nat \<Rightarrow> (int \<Rightarrow> int \<Rightarrow> 's \<Rightarrow> 's option) \<Rightarrow> int \<Rightarrow> int \<Rightarrow> int \<Rightarrow> int \<Rightarrow> int \<Rightarrow> int \<Rightarrow> int \<Rightarrow> int \<Rightarrow> int \<Rightarrow> 's \<Rightarrow> 's option" where
  "line_loop 0 draw dx dy sx sy x1 y1 err x0 y0 s = None"
| "line_loop (Suc fuel) draw dx dy sx sy x1 y1 err x0 y0 s = do {
     s \<leftarrow> draw x0 y0 s;
     if x0 = x1 \<and> y0 = y1 then Some s
     else (let e2 = 2 * err;
               (err, x0) = (if dy \<le> e2 then (err + dy, x0 + sx) else (err, x0));
               (err, y0) = (if e2 \<le> dx then (err + dx, y0 + sy) else (err, y0)) in
       line_loop fuel draw dx dy sx sy x1 y1 err x0 y0 s)
   }"

definition draw_line :: "nat \<Rightarrow> (int \<Rightarrow> int \<Rightarrow> 's \<Rightarrow> 's option) \<Rightarrow> int \<Rightarrow> int \<Rightarrow> int \<Rightarrow> int \<Rightarrow> 's \<Rightarrow> 's option" where
  "draw_line fuel draw x0 y0 x1 y1 s =
    (let dx = \<bar>x1 - x0\<bar>; sx = (if x0 < x1 then 1 else -1); dy = - \<bar>y1 - y0\<bar>; sy = (if y0 < y1 then 1 else -1) in
     line_loop fuel draw dx dy sx sy x1 y1 (dx + dy) x0 y0 s)"

definition cga_draw_line :: "nat \<Rightarrow> int \<Rightarrow> int \<Rightarrow> int \<Rightarrow> int \<Rightarrow> u32 \<Rightarrow> u32 list \<Rightarrow> u32 list option" where
  "cga_draw_line fuel x0 y0 x1 y1 color fb = draw_line fuel (\<lambda>x y. cga_draw_pixel x y color) x0 y0 x1 y1 fb"

section \<open>Fonts\<close>

text \<open>\<open>for\<close> over a range, as a list.\<close>

primrec for_each :: "int list \<Rightarrow> (int \<Rightarrow> 's \<Rightarrow> 's option) \<Rightarrow> 's \<Rightarrow> 's option" where
  "for_each [] f s = Some s"
| "for_each (i # is) f s = do { s \<leftarrow> f i s; for_each is f s }"

text \<open>One pixel of a glyph: bit 3 of the colours keeps what is under the font, bit 7 what is under its
  background.\<close>

definition glyph_pixel :: "u8 \<Rightarrow> bool \<Rightarrow> int \<Rightarrow> u32 list \<Rightarrow> u32 list option" where
  "glyph_pixel colors on pixel_idx fb =
    (let font_color = ucast (colors AND 0x3) :: u32; bg_color = ucast (drop_bit 4 colors AND 0x3) :: u32;
         word_idx = pixel_idx div 16; mask = push_bit (pixel_shift pixel_idx) 0x03 in do {
       tmp \<leftarrow> load fb word_idx;
       let tmp = (if on then (if colors AND 0x08 = 0 then tmp AND NOT mask else tmp) OR push_bit (pixel_shift pixel_idx) font_color
         else (if colors AND 0x80 = 0 then tmp AND NOT mask else tmp) OR push_bit (pixel_shift pixel_idx) bg_color) in
       store fb word_idx tmp
     })"

definition cga_video_print_char :: "u8 \<Rightarrow> int \<Rightarrow> int \<Rightarrow> u8 \<Rightarrow> int \<Rightarrow> int \<Rightarrow> u8 list \<Rightarrow> int \<Rightarrow> int \<Rightarrow> u32 list \<Rightarrow> u32 list option" where
  "cga_video_print_char c x y colors frame_width frame_height font font_width font_height fb =
    (let lines = font_height div 8 + (if font_height mod 8 \<noteq> 0 then 1 else 0) in
     for_each [0..lines - 1] (\<lambda>line. for_each [0..font_width - 1] (\<lambda>col fb.
       (let my_x = x + col; line_height = min 8 (font_height - line * 8) in
        if 0 \<le> my_x \<and> my_x < frame_width then do {
          f \<leftarrow> load font (font_width * uint c * lines + line * font_width + col);
          for_each [0..line_height - 1] (\<lambda>b fb.
            (let my_y = y + line * 8 + b in
             if 0 \<le> my_y \<and> my_y < frame_height then glyph_pixel colors (bit f (nat b)) (my_y * frame_width + my_x) fb
             else Some fb)) fb
        } else Some fb))) fb)"

primrec video_print_loop :: "u8 list \<Rightarrow> int \<Rightarrow> int \<Rightarrow> u8 \<Rightarrow> u8 list \<Rightarrow> int \<Rightarrow> int \<Rightarrow> u32 list \<Rightarrow> u32 list option" where
  "video_print_loop [] x y colors font font_width font_height fb = Some fb"
| "video_print_loop (c # cs) x y colors font font_width font_height fb =
    (if c = 0 then Some fb else do {
       fb \<leftarrow> cga_video_print_char c x y colors CGA_VIDEO_WIDTH CGA_VIDEO_HEIGHT font font_width font_height fb;
       video_print_loop cs (x + font_width) y colors font font_width font_height fb })"

definition cga_video_print :: "int \<Rightarrow> int \<Rightarrow> u8 \<Rightarrow> u8 list \<Rightarrow> nat \<Rightarrow> u8 list \<Rightarrow> int \<Rightarrow> int \<Rightarrow> u32 list \<Rightarrow> u32 list option" where
  "cga_video_print x y colors text text_size font font_width font_height fb =
    video_print_loop (take text_size text) x y colors font font_width font_height fb"

section \<open>Pixels\<close>

text \<open>The pixel with the number \<open>i\<close>, and the frame buffer with this pixel changed.\<close>

definition pix :: "u32 list \<Rightarrow> int \<Rightarrow> u32" where
  "pix fb i = drop_bit (pixel_shift i) (fb ! nat (i div 16)) AND 3"

definition put_pix :: "u32 list \<Rightarrow> int \<Rightarrow> u32 \<Rightarrow> u32 list" where
  "put_pix fb i v = fb[nat (i div 16) := (fb ! nat (i div 16)) AND NOT (push_bit (pixel_shift i) 3) OR push_bit (pixel_shift i) (v AND 3)]"

lemma length_put_pix [simp]: "length (put_pix fb i v) = length fb"
  by (simp add: put_pix_def)

lemma bit_three: "bit (3 :: int) n \<longleftrightarrow> n < 2"
proof -
  have "(3 :: int) = mask 2" by (simp add: mask_eq_exp_minus_1)
  then show ?thesis by (simp only: bit_mask_iff) auto
qed

lemma pixel_shift_le: "pixel_shift i \<le> 30"
  by (simp add: pixel_shift_def)

lemma pixel_shift_neq:
  assumes "i mod 16 \<noteq> j mod 16"
  shows "pixel_shift i + 2 \<le> pixel_shift j \<or> pixel_shift j + 2 \<le> pixel_shift i"
proof -
  have *: "nat (k mod 16) \<le> 15" for k :: int using pos_mod_bound [of 16 k] by linarith
  have "nat (i mod 16) \<noteq> nat (j mod 16)" using assms by (simp add: nat_eq_iff2)
  then show ?thesis using * [of i] * [of j] unfolding pixel_shift_def by linarith
qed

lemma field_same:
  assumes "a \<le> 30"
  shows "drop_bit a (w AND NOT (push_bit a 3) OR push_bit a (v AND 3)) AND 3 = (v AND 3 :: u32)"
  by (rule bit_word_eqI) (use assms in \<open>auto simp: bit_simps bit_three\<close>)

lemma field_other:
  assumes "a + 2 \<le> b \<or> b + 2 \<le> a" "b \<le> 30"
  shows "drop_bit b (w AND NOT (push_bit a 3) OR push_bit a (v AND 3)) AND 3 = (drop_bit b w AND 3 :: u32)"
  by (rule bit_word_eqI) (use assms in \<open>auto simp: bit_simps bit_three\<close>)

lemma pix_put_pix:
  assumes "0 \<le> i" "0 \<le> j" "i < 16 * int (length fb)"
  shows "pix (put_pix fb i v) j = (if i = j then v AND 3 else pix fb j)"
proof (cases "i div 16 = j div 16")
  case True
  have "nat (i div 16) < length fb" using assms by linarith
  then have p: "put_pix fb i v ! nat (j div 16) = fb ! nat (i div 16) AND NOT (push_bit (pixel_shift i) 3) OR push_bit (pixel_shift i) (v AND 3)"
    using True by (simp add: put_pix_def)
  show ?thesis
  proof (cases "i = j")
    case True
    then show ?thesis using p field_same [OF pixel_shift_le] by (simp add: pix_def)
  next
    case False
    then have "i mod 16 \<noteq> j mod 16" using True by (metis mult_div_mod_eq)
    then show ?thesis using p False True field_other [OF pixel_shift_neq pixel_shift_le] by (simp add: pix_def)
  qed
next
  case False
  then have "nat (i div 16) \<noteq> nat (j div 16)" using assms by (simp add: nat_eq_iff2 pos_imp_zdiv_nonneg_iff)
  then show ?thesis using False by (auto simp: pix_def put_pix_def)
qed

section \<open>Copying sets pixels\<close>

definition spix :: "u8 list \<Rightarrow> int \<Rightarrow> int \<Rightarrow> u32" where
  "spix src src_pos col = drop_bit (src_shift col) (ucast (src ! nat (src_pos + col div 4))) AND 3"

definition view :: "u32 list \<times> int \<times> u32 \<Rightarrow> u32 list" where
  "view = (\<lambda>(dst, prev, word). if prev = -1 then dst else dst[nat prev := word])"

definition blit_ok :: "nat \<Rightarrow> u32 list \<times> int \<times> u32 \<Rightarrow> bool" where
  "blit_ok n = (\<lambda>(dst, prev, word). length dst = n \<and> (prev = -1 \<or> 0 \<le> prev \<and> prev < int n))"

lemma moved_pixel:
  assumes "a \<le> 30" "b \<le> 30"
  shows "(if b \<le> a then push_bit (a - b) w else drop_bit (b - a) w) AND push_bit a 3 = push_bit a (drop_bit b w AND 3 :: u32)"
  by (rule bit_word_eqI) (use assms in \<open>auto simp: bit_simps bit_three add.commute\<close>)

lemma blit_pixel_puts:
  assumes "blit_ok n st" "0 \<le> i0 + col" "i0 + col < 16 * int n" "0 \<le> src_pos + col div 4" "src_pos + col div 4 < int (length src)"
  shows "\<exists>st'. blit_pixel src src_pos i0 col st = Some st' \<and> blit_ok n st' \<and> fst (snd st') = (i0 + col) div 16 \<and>
    view st' = put_pix (view st) (i0 + col) (spix src src_pos col)"
proof -
  obtain dst prev word where st: "st = (dst, prev, word)" by (cases st)
  let ?i = "i0 + col" and ?w = "(i0 + col) div 16"
  have w: "0 \<le> ?w" "?w < int n" using assms(2,3) by auto
  let ?word = "view st ! nat ?w" and ?base = "if ?w = prev then dst else view st"
  have read: "(if ?w \<noteq> prev then do {
            dst \<leftarrow> (if prev \<noteq> -1 then store dst prev word else Some dst);
            w \<leftarrow> load dst ?w; Some (dst, w) } else Some (dst, word)) = Some (?base, ?word)"
    using assms(1) w by (auto simp: st blit_ok_def view_def store_def load_def)
  have src: "load src (src_pos + col div 4) = Some (src ! nat (src_pos + col div 4))" using assms(4,5) by (simp add: load_def)
  let ?new = "?word AND NOT (push_bit (pixel_shift ?i) 3) OR push_bit (pixel_shift ?i) (spix src src_pos col)"
  have "blit_pixel src src_pos i0 col st = Some (?base, ?w, ?new)"
    unfolding blit_pixel_def st prod.case Let_def read bind.bind_lunit src
    using moved_pixel [of "pixel_shift ?i" "src_shift col" "ucast (src ! nat (src_pos + col div 4))"]
    by (simp add: pixel_shift_le src_shift_def spix_def st)
  moreover have "blit_ok n (?base, ?w, ?new)" using assms(1) w by (auto simp: st blit_ok_def view_def)
  moreover have "view (?base, ?w, ?new) = put_pix (view st) ?i (spix src src_pos col)"
    using w by (auto simp: view_def st put_pix_def spix_def and.assoc)
  ultimately show ?thesis by fastforce
qed

lemma length_view: "blit_ok n st \<Longrightarrow> length (view st) = n"
  by (cases st) (auto simp: blit_ok_def view_def)

lemma blit_cols_puts:
  assumes "blit_ok n st" "0 \<le> i0 + col" "i0 + col + int k \<le> 16 * int n" "0 \<le> col" "0 \<le> src_pos" "\<forall>c<col + int k. src_pos + c div 4 < int (length src)"
  shows "\<exists>st'. blit_cols k src src_pos i0 col st = Some st' \<and> blit_ok n st' \<and> (0 < k \<or> fst (snd st) \<noteq> -1 \<longrightarrow> fst (snd st') \<noteq> -1) \<and>
    (\<forall>j\<ge>0. pix (view st') j = (if i0 + col \<le> j \<and> j < i0 + col + int k then spix src src_pos (j - i0) else pix (view st) j))"
  using assms
proof (induction k arbitrary: col st)
  case (Suc k)
  have "src_pos + col div 4 < int (length src)" using Suc.prems(6) by simp
  then obtain st1 where 1: "blit_pixel src src_pos i0 col st = Some st1" "blit_ok n st1" "fst (snd st1) = (i0 + col) div 16"
    "view st1 = put_pix (view st) (i0 + col) (spix src src_pos col)"
    using blit_pixel_puts [OF Suc.prems(1,2), of src_pos src] Suc.prems(3-5) by fastforce
  have p: "fst (snd st1) \<noteq> -1" using 1(3) Suc.prems(2) by (simp add: pos_imp_zdiv_neg_iff)
  obtain st2 where 2: "blit_cols k src src_pos i0 (col + 1) st1 = Some st2" "blit_ok n st2" "fst (snd st2) \<noteq> -1"
    "\<forall>j\<ge>0. pix (view st2) j = (if i0 + (col + 1) \<le> j \<and> j < i0 + (col + 1) + int k then spix src src_pos (j - i0) else pix (view st1) j)"
    using Suc.IH [OF 1(2), of "col + 1"] Suc.prems p by (auto simp: algebra_simps)
  have "pix (view st1) j = (if j = i0 + col then spix src src_pos col else pix (view st) j)" if "0 \<le> j" for j
    using pix_put_pix [OF Suc.prems(2) that, of "view st"] Suc.prems(3) length_view [OF Suc.prems(1)] unfolding 1(4)
    by (auto simp: spix_def and.assoc)
  then show ?case using 1(1) 2 by (auto simp: algebra_simps)
qed auto

lemma blit_rows_puts:
  assumes "blit_ok n st" "0 \<le> i0 + cs" "i0 + int k * w + ce \<le> 16 * int n + w" "0 \<le> cs" "cs < ce" "ce - cs \<le> w" "0 \<le> src_pos" "0 \<le> stride"
    "\<forall>c<ce. \<forall>r<k. src_pos + int r * stride + c div 4 < int (length src)"
  shows "\<exists>st'. blit_rows k src stride w cs ce src_pos i0 st = Some st' \<and> blit_ok n st' \<and> (0 < k \<or> fst (snd st) \<noteq> -1 \<longrightarrow> fst (snd st') \<noteq> -1) \<and>
    (\<forall>r<k. \<forall>c. cs \<le> c \<and> c < ce \<longrightarrow> pix (view st') (i0 + int r * w + c) = spix src (src_pos + int r * stride) c) \<and>
    (\<forall>j\<ge>0. (\<forall>r<k. \<forall>c. cs \<le> c \<and> c < ce \<longrightarrow> j \<noteq> i0 + int r * w + c) \<longrightarrow> pix (view st') j = pix (view st) j)"
  using assms
proof (induction k arbitrary: i0 src_pos st)
  case (Suc k)
  have w: "0 < w" using Suc.prems by simp
  have last: "i0 + ce \<le> 16 * int n" 
  proof -
    have "0 \<le> w * int k" using w by simp
    then show ?thesis using Suc.prems(3) by (simp add: algebra_simps)
  qed
  obtain st1 where 1: "blit_cols (nat (ce - cs)) src src_pos i0 cs st = Some st1" "blit_ok n st1" "fst (snd st1) \<noteq> -1"
    "\<forall>j\<ge>0. pix (view st1) j = (if i0 + cs \<le> j \<and> j < i0 + ce then spix src src_pos (j - i0) else pix (view st) j)"
    using blit_cols_puts [OF Suc.prems(1,2), of "nat (ce - cs)" src_pos src] Suc.prems last by fastforce
  have "\<forall>c<ce. \<forall>r<k. src_pos + stride + int r * stride + c div 4 < int (length src)"
    using Suc.prems(9) by (auto simp: algebra_simps dest!: spec [of _ "Suc _"])
  then obtain st2 where 2: "blit_rows k src stride w cs ce (src_pos + stride) (i0 + w) st1 = Some st2" "blit_ok n st2" "fst (snd st2) \<noteq> -1"
    "\<forall>r<k. \<forall>c. cs \<le> c \<and> c < ce \<longrightarrow> pix (view st2) (i0 + w + int r * w + c) = spix src (src_pos + stride + int r * stride) c"
    "\<forall>j\<ge>0. (\<forall>r<k. \<forall>c. cs \<le> c \<and> c < ce \<longrightarrow> j \<noteq> i0 + w + int r * w + c) \<longrightarrow> pix (view st2) j = pix (view st1) j"
    using Suc.IH [OF 1(2), of "i0 + w" "src_pos + stride"] Suc.prems w 1(3) by (auto simp: algebra_simps)
  have first: "pix (view st2) (i0 + c) = spix src src_pos c" if "cs \<le> c" "c < ce" for c
  proof -
    have "i0 + c \<noteq> i0 + w + int r * w + c'" if "cs \<le> c'" "c' < ce" for r c'
      using that \<open>cs \<le> c\<close> \<open>c < ce\<close> Suc.prems(6) mult_nonneg_nonneg [of "int r" w] w by linarith
    then have "pix (view st2) (i0 + c) = pix (view st1) (i0 + c)" using 2(5) that Suc.prems(2) by simp
    then show ?thesis using 1(4) that Suc.prems(2) by simp
  qed
  have new: "pix (view st2) (i0 + int r * w + c) = spix src (src_pos + int r * stride) c" if "r < Suc k" "cs \<le> c" "c < ce" for r c
  proof (cases r)
    case 0
    then show ?thesis using first [OF that(2,3)] by simp
  next
    case (Suc r')
    then show ?thesis using 2(4) that by (simp add: algebra_simps)
  qed
  have old: "pix (view st2) j = pix (view st) j" if "0 \<le> j" and *: "\<forall>r<Suc k. \<forall>c. cs \<le> c \<and> c < ce \<longrightarrow> j \<noteq> i0 + int r * w + c" for j
  proof -
    have "j \<noteq> i0 + w + int r * w + c" if "r < k" "cs \<le> c" "c < ce" for r c
      using * [rule_format, of "Suc r" c] that by (simp add: algebra_simps)
    then have "pix (view st2) j = pix (view st1) j" using 2(5) that(1) by blast
    moreover have "\<not> (i0 + cs \<le> j \<and> j < i0 + ce)" using * [rule_format, of 0 "j - i0"] by auto
    ultimately show ?thesis using 1(4) that(1) by auto
  qed
  show ?case using 1(1) 2(1-3) new old by auto
qed auto

lemma frame_pixel_less:
  assumes "0 \<le> px" "px < w" "0 \<le> py" "py < h"
  shows "0 \<le> py * w + px" "py * w + px < w * (h :: int)"
proof -
  show "0 \<le> py * w + px" using assms by simp
  have "(py + 1) * w \<le> h * w" using assms by (intro mult_right_mono) simp_all
  then show "py * w + px < w * h" using assms by (simp add: algebra_simps)
qed

lemma frame_pixel_eq:
  assumes "0 \<le> px" "px < w" "0 \<le> qx" "qx < w" "py * w + px = qy * w + (qx :: int)"
  shows "px = qx \<and> py = qy"
proof -
  have "(py * w + px) mod w = px" "(qy * w + qx) mod w = qx" using assms(1-4) by simp_all
  then have "px = qx" using assms(5) by simp
  then show ?thesis using assms by simp
qed

text \<open>C16. \<open>cga_bitblit\<close> copies an image to any place of the frame, also partly or wholly outside: every pixel of the frame
  under the image becomes the pixel of the image, all others stay, and nothing outside the arrays is read or written.\<close>

theorem cga_bitblit_pixels:
  assumes "0 < w" "0 < h" "w * h \<le> 16 * int (length dst)" "0 < sw" "sw mod 4 = 0" "0 < sh" "sw div 4 * sh \<le> int (length src)"
  shows "\<exists>dst'. cga_bitblit src dst x y sw sh w h = Some dst' \<and> length dst' = length dst
    \<and> (\<forall>px py. 0 \<le> px \<and> px < w \<and> 0 \<le> py \<and> py < h \<longrightarrow> pix dst' (py * w + px) =
         (if x \<le> px \<and> px < x + sw \<and> y \<le> py \<and> py < y + sh then spix src ((py - y) * (sw div 4)) (px - x) else pix dst (py * w + px)))
    \<and> (\<forall>j. w * h \<le> j \<longrightarrow> pix dst' j = pix dst j)"
proof (cases "h \<le> y \<or> y + sh \<le> 0 \<or> w \<le> x \<or> x + sw \<le> 0")
  case True
  then have "cga_bitblit src dst x y sw sh w h = Some dst" by (auto simp: cga_bitblit_def Let_def)
  then show ?thesis using True by auto
next
  case False
  define d where "d = sw div 4"
  define y0 where "y0 = max y 0"
  define k where "k = nat (min (y + sh) h - y0)"
  define pos where "pos = (y0 - y) * d"
  define cs where "cs = max 0 (- x)"
  define ce where "ce = min sw (w - x)"
  have d: "sw = 4 * d" "0 < d" using assms(4,5) by (auto simp: d_def)
  have k: "int k = min (y + sh) h - y0" "0 < k" using False assms by (auto simp: k_def y0_def)
  have c: "0 \<le> cs" "cs < ce" "ce - cs \<le> w" "0 \<le> x + cs" "x + ce \<le> w" "ce \<le> sw" using False assms by (auto simp: cs_def ce_def)
  have run: "cga_bitblit src dst x y sw sh w h = do {
      (dst, word_idx, pixel_word) \<leftarrow> blit_rows k src d w cs ce pos (y0 * w + x) (dst, -1, 0);
      if word_idx = -1 then None else store dst word_idx pixel_word }"
    using False by (auto simp: cga_bitblit_def Let_def d_def k_def pos_def cs_def ce_def y0_def max_def min_def add.commute [of sh y])
  have "(y0 + int k) * w \<le> h * w" using k(1) assms(1) by (intro mult_right_mono) auto
  then have frame: "(y0 * w + x) + int k * w + ce \<le> 16 * int (length dst) + w" using assms(3) c(5) by (simp add: algebra_simps)
  have "0 \<le> y0 * w" using assms(1) by (simp add: y0_def)
  then have pos: "0 \<le> pos" "0 \<le> y0 * w + x + cs" using d c(4) by (simp_all add: pos_def y0_def)
  have src: "\<forall>c<ce. \<forall>r<k. pos + int r * d + c div 4 < int (length src)"
  proof (intro allI impI)
    fix c r assume "c < ce" "r < k"
    then have "c div 4 < d" using c(6) d by auto
    moreover have "(y0 - y + int r + 1) * d \<le> sh * d" using \<open>r < k\<close> k(1) d(2) by (intro mult_right_mono) auto
    ultimately show "pos + int r * d + c div 4 < int (length src)" using assms(7) unfolding d_def [symmetric] by (simp add: pos_def algebra_simps)
  qed
  obtain st where st: "blit_rows k src d w cs ce pos (y0 * w + x) (dst, -1, 0) = Some st" "blit_ok (length dst) st" "fst (snd st) \<noteq> -1"
    "\<forall>r<k. \<forall>c. cs \<le> c \<and> c < ce \<longrightarrow> pix (view st) (y0 * w + x + int r * w + c) = spix src (pos + int r * d) c"
    "\<forall>j\<ge>0. (\<forall>r<k. \<forall>c. cs \<le> c \<and> c < ce \<longrightarrow> j \<noteq> y0 * w + x + int r * w + c) \<longrightarrow> pix (view st) j = pix (view (dst, -1, 0)) j"
    using blit_rows_puts [of "length dst" "(dst, -1, 0)" "y0 * w + x" cs k w ce pos d src] c d k(2) frame pos src by (auto simp: blit_ok_def)
  have out: "cga_bitblit src dst x y sw sh w h = Some (view st)" "length (view st) = length dst" "view (dst, -1, 0) = dst"
    using st(1-3) length_view [OF st(2)] unfolding run by (auto simp: blit_ok_def view_def store_def split: prod.splits)
  have "pix (view st) (py * w + px) = (if x \<le> px \<and> px < x + sw \<and> y \<le> py \<and> py < y + sh then spix src ((py - y) * d) (px - x) else pix dst (py * w + px))"
    if p: "0 \<le> px" "px < w" "0 \<le> py" "py < h" for px py
  proof (cases "x \<le> px \<and> px < x + sw \<and> y \<le> py \<and> py < y + sh")
    case True
    have "nat (py - y0) < k" "cs \<le> px - x" "px - x < ce" using True p k(1) by (auto simp: y0_def cs_def ce_def)
    then have "pix (view st) (y0 * w + x + int (nat (py - y0)) * w + (px - x)) = spix src (pos + int (nat (py - y0)) * d) (px - x)" using st(4) by blast
    then show ?thesis using True p by (simp add: pos_def y0_def algebra_simps)
  next
    case other: False
    have "py * w + px \<noteq> y0 * w + x + int r * w + c" if "r < k" "cs \<le> c" "c < ce" for r c
    proof
      assume "py * w + px = y0 * w + x + int r * w + c"
      then have "py * w + px = (y0 + int r) * w + (x + c)" by (simp add: algebra_simps)
      then have "px = x + c \<and> py = y0 + int r" using p c that by (intro frame_pixel_eq) auto
      then show False using other that c(6) k(1) by (auto simp: y0_def cs_def)
    qed
    then show ?thesis unfolding if_not_P [OF other] using st(5) out(3) frame_pixel_less(1) [OF p] by simp
  qed
  moreover have "pix (view st) j = pix dst j" if j: "w * h \<le> j" for j
  proof -
    have "j \<noteq> y0 * w + x + int r * w + c" if r: "r < k" "cs \<le> c" "c < ce" for r c
    proof -
      have "y0 + int r < h" "0 \<le> y0 + int r" "0 \<le> x + c" "x + c < w" using r c k(1) by (simp_all add: y0_def)
      from frame_pixel_less(2) [OF this(3,4,2,1)] j show ?thesis by (simp add: algebra_simps)
    qed
    moreover have "0 \<le> j" using mult_pos_pos [OF assms(1,2)] j by linarith
    ultimately show ?thesis using st(5) unfolding out(3) by blast
  qed
  ultimately show ?thesis using out unfolding d_def by blast
qed

theorem cga_bitblit_pixels_witness:
  "\<exists>dst'. cga_bitblit [0x1b, 0xe4] (replicate 4 0) (-2) 1 4 2 16 4 = Some dst' \<and> pix dst' 17 = 3 \<and> pix dst' 16 = 2 \<and> pix dst' 18 = 0"
proof -
  have "(0 :: int) < 16" "(0 :: int) < 4" "16 * 4 \<le> 16 * int (length (replicate 4 (0 :: u32)))" "(0 :: int) < 4" "(4 :: int) mod 4 = 0"
    "(0 :: int) < 2" "4 div 4 * 2 \<le> int (length [0x1b, 0xe4 :: u8])" by simp_all
  from cga_bitblit_pixels [OF this, of "-2" 1] obtain dst' where *: "cga_bitblit [0x1b, 0xe4] (replicate 4 0) (-2) 1 4 2 16 4 = Some dst'"
    "\<forall>px py. 0 \<le> px \<and> px < 16 \<and> 0 \<le> py \<and> py < 4 \<longrightarrow> pix dst' (py * 16 + px) =
         (if - 2 \<le> px \<and> px < - 2 + 4 \<and> 1 \<le> py \<and> py < 1 + 2 then spix [0x1b, 0xe4] ((py - 1) * (4 div 4)) (px - (- 2))
          else pix (replicate 4 0) (py * 16 + px))" by blast
  have "spix [0x1b, 0xe4] 0 3 = 3" "spix [0x1b, 0xe4] 0 2 = 2" "pix (replicate 4 0) 18 = 0" by code_simp+
  then show ?thesis using * (2) [rule_format, of 1 1] *(2) [rule_format, of 0 1] *(2) [rule_format, of 2 1] *(1) by (intro exI [of _ dst']) simp
qed

section \<open>Lines\<close>

primrec draw_points :: "(int \<times> int) list \<Rightarrow> (int \<Rightarrow> int \<Rightarrow> 's \<Rightarrow> 's option) \<Rightarrow> 's \<Rightarrow> 's option" where
  "draw_points [] draw s = Some s"
| "draw_points (p # ps) draw s = do { s \<leftarrow> draw (fst p) (snd p) s; draw_points ps draw s }"

lemma draw_points_Cons: "draw_points ((x, y) # ps) draw s = do { s \<leftarrow> draw x y s; draw_points ps draw s }"
  by simp

text \<open>The points of the loop, \<open>a\<close> steps in one direction and \<open>b\<close> in the other away from the start. The distance of the
  point to the line is \<open>e = dx * b - dist * a\<close>, up to the length of the line.\<close>

lemma line_loop_flat:
  fixes dx dist sx sy a b :: int
  assumes "0 \<le> dist" "dist \<le> dx" "sx = 1 \<or> sx = -1" "0 \<le> a" "a \<le> dx" "0 \<le> b" "b \<le> dist" "- dx \<le> 2 * e" "2 * e \<le> dx"
    "e = dx * b - dist * a" "nat (dx - a) < fuel"
  shows "\<exists>ps. (\<forall>(draw :: int \<Rightarrow> int \<Rightarrow> 's \<Rightarrow> 's option) s. line_loop fuel draw dx (- dist) sx sy (x0 + sx * dx) (y0 + sy * dist) (e + dx - dist) (x0 + sx * a) (y0 + sy * b) s
      = draw_points ps draw s) \<and> length ps = nat (dx - a) + 1 \<and>
    (\<forall>i<length ps. \<exists>c. ps ! i = (x0 + sx * (a + int i), y0 + sy * c) \<and> 0 \<le> c \<and> c \<le> dist \<and> \<bar>2 * (dx * c - dist * (a + int i))\<bar> \<le> dx)"
  using assms
proof (induction fuel arbitrary: a b e)
  case (Suc fuel)
  show ?case
  proof (cases "a = dx")
    case True
    have "b = dist"
    proof (rule ccontr)
      assume "b \<noteq> dist"
      then have "dx * (b + 1) \<le> dx * dist" using Suc.prems by (intro mult_left_mono) auto
      then have "2 * e \<le> - 2 * dx" using Suc.prems(10) True by (simp add: algebra_simps)
      then show False using Suc.prems \<open>b \<noteq> dist\<close> by linarith
    qed
    then show ?thesis using True Suc.prems
      by (intro exI [of _ "[(x0 + sx * a, y0 + sy * b)]"]) (auto intro!: exI [of _ b] simp: algebra_simps)
  next
    case False
    then have a: "a < dx" using Suc.prems by simp
    define b' where "b' = (if 2 * (e + dx - dist) \<le> dx then b + 1 else b)"
    define e' where "e' = (if 2 * (e + dx - dist) \<le> dx then e + dx - dist else e - dist)"
    have e': "e' = dx * b' - dist * (a + 1)" using Suc.prems(10) by (simp add: e'_def b'_def algebra_simps)
    have bounds: "- dx \<le> 2 * e'" "2 * e' \<le> dx" using Suc.prems by (auto simp: e'_def)
    have top: "b' \<le> dist"
    proof (rule ccontr)
      assume "\<not> ?thesis"
      then have "dx * (dist + 1) \<le> dx * b'" using a Suc.prems by (intro mult_left_mono) auto
      moreover have "dist * (a + 1) \<le> dist * dx" using a Suc.prems by (intro mult_left_mono) auto
      ultimately have "dx \<le> e'" unfolding e' by (simp add: algebra_simps)
      then show False using bounds a Suc.prems by linarith
    qed
    have step: "0 \<le> a + 1" "a + 1 \<le> dx" "0 \<le> b'" "nat (dx - (a + 1)) < fuel" using Suc.prems a by (simp_all add: b'_def)
    from Suc.IH [OF Suc.prems(1-3) step(1-3) top bounds e' step(4)] obtain ps
      where ps: "\<forall>(draw :: int \<Rightarrow> int \<Rightarrow> 's \<Rightarrow> 's option) s. line_loop fuel draw dx (- dist) sx sy (x0 + sx * dx) (y0 + sy * dist) (e' + dx - dist)
        (x0 + sx * (a + 1)) (y0 + sy * b') s = draw_points ps draw s" "length ps = nat (dx - (a + 1)) + 1"
      "\<forall>i<length ps. \<exists>c. ps ! i = (x0 + sx * (a + 1 + int i), y0 + sy * c) \<and> 0 \<le> c \<and> c \<le> dist \<and> \<bar>2 * (dx * c - dist * (a + 1 + int i))\<bar> \<le> dx"
      by (elim exE conjE) (rule that)
    have go: "x0 + sx * a \<noteq> x0 + sx * dx" using a Suc.prems(3) by auto
    have x: "- dist \<le> 2 * (e + dx - dist)" using Suc.prems by simp
    have "line_loop (Suc fuel) draw dx (- dist) sx sy (x0 + sx * dx) (y0 + sy * dist) (e + dx - dist) (x0 + sx * a) (y0 + sy * b) s
        = draw_points ((x0 + sx * a, y0 + sy * b) # ps) draw s" for draw :: "int \<Rightarrow> int \<Rightarrow> 's \<Rightarrow> 's option" and s
    proof (cases "2 * (e + dx - dist) \<le> dx")
      case True
      have eq: "e + dx - dist + - dist + dx = e' + dx - dist" "x0 + sx * a + sx = x0 + sx * (a + 1)" "y0 + sy * b + sy = y0 + sy * b'"
        using True by (simp_all add: e'_def b'_def algebra_simps)
      show ?thesis unfolding line_loop.simps Let_def draw_points_Cons if_P [OF True] if_P [OF x] prod.case eq
        using go ps(1) by simp
    next
      case False
      have eq: "e + dx - dist + - dist = e' + dx - dist" "x0 + sx * a + sx = x0 + sx * (a + 1)" "b = b'"
        using False by (simp_all add: e'_def b'_def algebra_simps)
      show ?thesis unfolding line_loop.simps Let_def draw_points_Cons if_not_P [OF False] if_P [OF x] prod.case eq(1,2)
        using go ps(1) eq(3) by simp
    qed
    moreover have "\<exists>c. ((x0 + sx * a, y0 + sy * b) # ps) ! i = (x0 + sx * (a + int i), y0 + sy * c) \<and> 0 \<le> c \<and> c \<le> dist \<and>
        \<bar>2 * (dx * c - dist * (a + int i))\<bar> \<le> dx" if "i < length ((x0 + sx * a, y0 + sy * b) # ps)" for i
      using ps(3) that Suc.prems by (cases i) (auto simp: algebra_simps)
    ultimately show ?thesis using ps(2) a by (intro exI [of _ "(x0 + sx * a, y0 + sy * b) # ps"]) auto
  qed
qed simp

text \<open>The directions change places when the error changes its sign.\<close>

lemma line_loop_swap:
  "line_loop fuel draw dx (- dist) sx sy x1 y1 err x0 y0 s
    = line_loop fuel (\<lambda>y x. draw x y) dist (- dx) sy sx y1 x1 (- err) y0 x0 s"
proof (induction fuel arbitrary: err x0 y0 s)
  case (Suc fuel)
  have c: "- dx \<le> 2 * - err \<longleftrightarrow> 2 * err \<le> dx" "2 * - err \<le> dist \<longleftrightarrow> - dist \<le> 2 * err" by auto
  have "line_loop fuel draw dx (- dist) sx sy x1 y1
      (if 2 * err \<le> dx then (if - dist \<le> 2 * err then err + - dist else err) + dx else (if - dist \<le> 2 * err then err + - dist else err))
      (if - dist \<le> 2 * err then x0 + sx else x0) (if 2 * err \<le> dx then y0 + sy else y0) s'
    = line_loop fuel (\<lambda>y x. draw x y) dist (- dx) sy sx y1 x1
      (if - dist \<le> 2 * err then (if 2 * err \<le> dx then - err + - dx else - err) + dist else (if 2 * err \<le> dx then - err + - dx else - err))
      (if 2 * err \<le> dx then y0 + sy else y0) (if - dist \<le> 2 * err then x0 + sx else x0) s'" for s'
    unfolding Suc.IH by (simp add: algebra_simps)
  then show ?case by (simp only: line_loop.simps Let_def c prod.case if_distrib [where f = "case_prod _"] conj_commute [of "x0 = x1"]) 
      (auto intro!: Option.bind_cong)
qed simp

text \<open>The points of a whole line: \<open>n + 1\<close> of them, the \<open>i\<close>th within half a pixel of the point \<open>i / n\<close> along the line.\<close>

definition on_line :: "int \<Rightarrow> int \<Rightarrow> int \<Rightarrow> int \<Rightarrow> (int \<times> int) list \<Rightarrow> bool" where
  "on_line x0 y0 x1 y1 ps \<longleftrightarrow> (let n = max \<bar>x1 - x0\<bar> \<bar>y1 - y0\<bar> in length ps = nat n + 1 \<and> ps ! 0 = (x0, y0) \<and> ps ! nat n = (x1, y1) \<and>
     (\<forall>i<length ps. \<bar>2 * (n * (fst (ps ! i) - x0) - int i * (x1 - x0))\<bar> \<le> n \<and> \<bar>2 * (n * (snd (ps ! i) - y0) - int i * (y1 - y0))\<bar> \<le> n) \<and>
     (\<forall>p \<in> set ps. min x0 x1 \<le> fst p \<and> fst p \<le> max x0 x1 \<and> min y0 y1 \<le> snd p \<and> snd p \<le> max y0 y1))"

lemma flat_on_line:
  assumes "sx = 1 \<or> sx = -1" "sy = 1 \<or> sy = -1" "0 \<le> dist" "dist \<le> dx" "length ps = nat dx + 1"
    and ps: "\<forall>i<length ps. \<exists>c. ps ! i = (x0 + sx * int i, y0 + sy * c) \<and> 0 \<le> c \<and> c \<le> dist \<and> \<bar>2 * (dx * c - dist * int i)\<bar> \<le> dx"
  shows "on_line x0 y0 (x0 + sx * dx) (y0 + sy * dist) ps"
proof -
  have n: "max \<bar>x0 + sx * dx - x0\<bar> \<bar>y0 + sy * dist - y0\<bar> = dx" using assms(1-4) by auto
  have ends: "ps ! 0 = (x0, y0)" "ps ! nat dx = (x0 + sx * dx, y0 + sy * dist)"
  proof -
    obtain c where c: "ps ! 0 = (x0, y0 + sy * c)" "0 \<le> c" "c \<le> dist" "\<bar>2 * (dx * c)\<bar> \<le> dx" using ps [rule_format, of 0] assms(5) by auto
    have "c = 0"
    proof (rule ccontr)
      assume "c \<noteq> 0"
      then have "dx * 1 \<le> dx * c" using c assms(3,4) by (intro mult_left_mono) auto
      then show False using c \<open>c \<noteq> 0\<close> assms(3,4) by linarith
    qed
    then show "ps ! 0 = (x0, y0)" using c by simp
    obtain d where d: "ps ! nat dx = (x0 + sx * dx, y0 + sy * d)" "0 \<le> d" "d \<le> dist" "\<bar>2 * (dx * d - dist * dx)\<bar> \<le> dx"
      using ps [rule_format, of "nat dx"] assms(3-5) by auto
    have "d = dist"
    proof (rule ccontr)
      assume "d \<noteq> dist"
      then have "dx * (d + 1) \<le> dx * dist" using d assms(3,4) by (intro mult_left_mono) auto
      then show False using d \<open>d \<noteq> dist\<close> assms(3,4) by (simp add: algebra_simps)
    qed
    then show "ps ! nat dx = (x0 + sx * dx, y0 + sy * dist)" using d by simp
  qed
  have near: "\<bar>2 * (dx * (fst (ps ! i) - x0) - int i * (x0 + sx * dx - x0))\<bar> \<le> dx \<and> \<bar>2 * (dx * (snd (ps ! i) - y0) - int i * (y0 + sy * dist - y0))\<bar> \<le> dx \<and>
      min x0 (x0 + sx * dx) \<le> fst (ps ! i) \<and> fst (ps ! i) \<le> max x0 (x0 + sx * dx) \<and> min y0 (y0 + sy * dist) \<le> snd (ps ! i) \<and> snd (ps ! i) \<le> max y0 (y0 + sy * dist)"
    if i: "i < length ps" for i
  proof -
    obtain c where c: "ps ! i = (x0 + sx * int i, y0 + sy * c)" "0 \<le> c" "c \<le> dist" "\<bar>2 * (dx * c - dist * int i)\<bar> \<le> dx" using ps i by blast
    have "int i \<le> dx" using i assms(3-5) by linarith
    then show ?thesis using assms(1,2) c by (auto simp: algebra_simps abs_if split: if_splits)
  qed
  have "\<forall>p \<in> set ps. min x0 (x0 + sx * dx) \<le> fst p \<and> fst p \<le> max x0 (x0 + sx * dx)
      \<and> min y0 (y0 + sy * dist) \<le> snd p \<and> snd p \<le> max y0 (y0 + sy * dist)"
  proof
    fix p assume "p \<in> set ps"
    then obtain i where "i < length ps" "ps ! i = p" by (auto simp: in_set_conv_nth)
    then show "min x0 (x0 + sx * dx) \<le> fst p \<and> fst p \<le> max x0 (x0 + sx * dx)
      \<and> min y0 (y0 + sy * dist) \<le> snd p \<and> snd p \<le> max y0 (y0 + sy * dist)" using near by blast
  qed
  with near show ?thesis unfolding on_line_def Let_def n using ends assms(5) by blast
qed

lemma on_line_swap: "on_line y0 x0 y1 x1 ps \<Longrightarrow> on_line x0 y0 x1 y1 (map prod.swap ps)"
  unfolding on_line_def Let_def by (auto simp: max.commute [of "\<bar>y1 - y0\<bar>"])

lemma draw_points_swap: "draw_points ps (\<lambda>y x. draw x y) s = draw_points (map prod.swap ps) draw s"
  by (induction ps arbitrary: s) auto

lemma line_points:
  assumes "nat (max \<bar>x1 - x0\<bar> \<bar>y1 - y0\<bar>) < fuel"
  shows "\<exists>ps. on_line x0 y0 x1 y1 ps \<and> (\<forall>(draw :: int \<Rightarrow> int \<Rightarrow> 's \<Rightarrow> 's option) s. draw_line fuel draw x0 y0 x1 y1 s = draw_points ps draw s)"
proof -
  define sx sy :: int where "sx = (if x0 < x1 then 1 else -1)" and "sy = (if y0 < y1 then 1 else -1)"
  define dx dist where "dx = \<bar>x1 - x0\<bar>" and "dist = \<bar>y1 - y0\<bar>"
  have ends: "x1 = x0 + sx * dx" "y1 = y0 + sy * dist" by (auto simp: sx_def sy_def dx_def dist_def)
  have run: "draw_line fuel draw x0 y0 x1 y1 s = line_loop fuel draw dx (- dist) sx sy x1 y1 (dx - dist) x0 y0 s"
    for draw :: "int \<Rightarrow> int \<Rightarrow> 's \<Rightarrow> 's option" and s by (simp add: draw_line_def Let_def sx_def sy_def dx_def dist_def)
  have s: "sx = 1 \<or> sx = -1" "sy = 1 \<or> sy = -1" "0 \<le> dx" "0 \<le> dist" by (auto simp: sx_def sy_def dx_def dist_def)
  show ?thesis
  proof (cases "dist \<le> dx")
    case True
    then have "nat (dx - 0) < fuel" using assms by (simp add: dx_def dist_def)
    from line_loop_flat [OF s(4) True s(1) order_refl s(3) order_refl s(4) _ _ _ this, where ?x0.0 = x0 and sy = sy and ?y0.0 = y0 and e = 0] s(3) obtain ps
      where ps: "\<forall>(draw :: int \<Rightarrow> int \<Rightarrow> 's \<Rightarrow> 's option) s. line_loop fuel draw dx (- dist) sx sy x1 y1 (dx - dist) x0 y0 s = draw_points ps draw s"
        "length ps = nat dx + 1"
        "\<forall>i<length ps. \<exists>c. ps ! i = (x0 + sx * int i, y0 + sy * c) \<and> 0 \<le> c \<and> c \<le> dist \<and> \<bar>2 * (dx * c - dist * int i)\<bar> \<le> dx"
      unfolding ends by auto
    then show ?thesis using flat_on_line [OF s(1,2,4) True ps(2,3)] run unfolding ends [symmetric] by metis
  next
    case False
    then have le: "dx \<le> dist" and "nat (dist - 0) < fuel" using assms by (simp_all add: dx_def dist_def)
    from line_loop_flat [OF s(3) le s(2) order_refl s(4) order_refl s(3) _ _ _ this(2), where ?x0.0 = y0 and sy = sx and ?y0.0 = x0 and e = 0] s(4) obtain ps
      where ps: "\<forall>(draw :: int \<Rightarrow> int \<Rightarrow> 's \<Rightarrow> 's option) s. line_loop fuel draw dist (- dx) sy sx y1 x1 (dist - dx) y0 x0 s = draw_points ps draw s"
        "length ps = nat dist + 1"
        "\<forall>i<length ps. \<exists>c. ps ! i = (y0 + sy * int i, x0 + sx * c) \<and> 0 \<le> c \<and> c \<le> dx \<and> \<bar>2 * (dist * c - dx * int i)\<bar> \<le> dist"
      unfolding ends by auto
    have "on_line x0 y0 x1 y1 (map prod.swap ps)"
      using on_line_swap [OF flat_on_line [OF s(2,1,3) le ps(2,3)]] unfolding ends [symmetric] .
    moreover have "draw_line fuel draw x0 y0 x1 y1 s = draw_points (map prod.swap ps) draw s" for draw :: "int \<Rightarrow> int \<Rightarrow> 's \<Rightarrow> 's option" and s
      unfolding run line_loop_swap [of fuel draw] draw_points_swap [symmetric] using ps(1) by simp
    ultimately show ?thesis by blast
  qed
qed

definition on_screen :: "int \<Rightarrow> int \<Rightarrow> bool" where
  "on_screen x y \<longleftrightarrow> 0 \<le> x \<and> x < CGA_VIDEO_WIDTH \<and> 0 \<le> y \<and> y < CGA_VIDEO_HEIGHT"

lemma on_screen_pixel: "on_screen x y \<Longrightarrow> 0 \<le> y * 320 + x \<and> y * 320 + x < 16 * 4800"
  by (auto simp: on_screen_def)

lemma cga_draw_pixel_in:
  assumes "on_screen x y" "4800 \<le> length fb"
  shows "cga_draw_pixel x y color fb = Some (put_pix fb (y * 320 + x) color)"
proof -
  have w: "0 \<le> (y * 320 + x) div 16" "(y * 320 + x) div 16 < 4800" using on_screen_pixel [OF assms(1)] by auto
  then show ?thesis using assms(2) by (auto simp: cga_draw_pixel_def Let_def load_def store_def put_pix_def)
qed

lemma draw_points_pixels:
  assumes "\<forall>p \<in> set ps. on_screen (fst p) (snd p)" "4800 \<le> length fb"
  shows "\<exists>fb'. draw_points ps (\<lambda>x y. cga_draw_pixel x y color) fb = Some fb' \<and> length fb' = length fb \<and>
    (\<forall>x y. on_screen x y \<longrightarrow> pix fb' (y * 320 + x) = (if (x, y) \<in> set ps then color AND 3 else pix fb (y * 320 + x)))"
  using assms
proof (induction ps arbitrary: fb)
  case (Cons p ps)
  obtain px py where p: "p = (px, py)" by (cases p)
  let ?fb = "put_pix fb (py * 320 + px) color"
  have in_: "on_screen px py" using Cons.prems p by simp
  obtain fb' where fb': "draw_points ps (\<lambda>x y. cga_draw_pixel x y color) ?fb = Some fb'" "length fb' = length fb"
    "\<forall>x y. on_screen x y \<longrightarrow> pix fb' (y * 320 + x) = (if (x, y) \<in> set ps then color AND 3 else pix ?fb (y * 320 + x))"
    using Cons.IH [of ?fb] Cons.prems by auto
  have "pix ?fb (y * 320 + x) = (if (x, y) = p then color AND 3 else pix fb (y * 320 + x))" if "on_screen x y" for x y
  proof -
    have "py * 320 + px = y * 320 + x \<longleftrightarrow> (x, y) = p" using that in_ frame_pixel_eq [of px 320 x py y] unfolding on_screen_def p by auto
    then show ?thesis using pix_put_pix [of "py * 320 + px" "y * 320 + x" fb color] on_screen_pixel [OF in_] on_screen_pixel [OF that] Cons.prems(2) by auto
  qed
  then show ?case using fb' cga_draw_pixel_in [OF in_ Cons.prems(2)] by (auto simp: p)
qed simp

text \<open>C20. \<open>cga_draw_line\<close> returns and draws the line between any two points of the screen: with \<open>n\<close> the larger of the two
  distances it sets \<open>n + 1\<close> pixels from one end to the other, the \<open>i\<close>th of them within half a pixel of the exact point at
  \<open>i / n\<close> of the line in both directions, and no other pixel.\<close>

theorem cga_draw_line_exact:
  assumes "on_screen x0 y0" "on_screen x1 y1" "4800 \<le> length fb" "nat (max \<bar>x1 - x0\<bar> \<bar>y1 - y0\<bar>) < fuel"
  shows "\<exists>ps fb'. cga_draw_line fuel x0 y0 x1 y1 color fb = Some fb' \<and> on_line x0 y0 x1 y1 ps \<and> length fb' = length fb \<and>
    (\<forall>x y. on_screen x y \<longrightarrow> pix fb' (y * 320 + x) = (if (x, y) \<in> set ps then color AND 3 else pix fb (y * 320 + x)))"
proof -
  obtain ps where ps: "on_line x0 y0 x1 y1 ps" "\<forall>(draw :: int \<Rightarrow> int \<Rightarrow> u32 list \<Rightarrow> u32 list option) s. draw_line fuel draw x0 y0 x1 y1 s = draw_points ps draw s"
    using line_points [OF assms(4)] by blast
  have "\<forall>p \<in> set ps. on_screen (fst p) (snd p)"
  proof
    fix p assume "p \<in> set ps"
    then have "min x0 x1 \<le> fst p \<and> fst p \<le> max x0 x1 \<and> min y0 y1 \<le> snd p \<and> snd p \<le> max y0 y1"
      using ps(1) unfolding on_line_def Let_def by blast
    then show "on_screen (fst p) (snd p)" using assms(1,2) unfolding on_screen_def by linarith
  qed
  from draw_points_pixels [OF this assms(3)] show ?thesis using ps unfolding cga_draw_line_def by metis
qed

theorem cga_draw_line_exact_witness:
  "\<exists>ps fb'. cga_draw_line 320 3 5 319 0 2 (replicate 4800 0) = Some fb' \<and> on_line 3 5 319 0 ps \<and> length ps = 317"
proof -
  have "on_screen 3 5" "on_screen 319 0" "4800 \<le> length (replicate 4800 (0 :: u32))" "nat (max \<bar>319 - 3\<bar> \<bar>0 - 5\<bar>) < 320"
    by (simp_all add: on_screen_def)
  from cga_draw_line_exact [OF this, of 2] obtain ps fb' where "cga_draw_line 320 3 5 319 0 2 (replicate 4800 0) = Some fb'" "on_line 3 5 319 0 ps"
    by blast
  moreover from this(2) have "length ps = 317" by (simp add: on_line_def)
  ultimately show ?thesis by blast
qed

section \<open>Glyphs\<close>

text \<open>The pixels of \<open>P\<close> change by \<open>F\<close>, all others stay.\<close>

definition drawn :: "int set \<Rightarrow> (int \<Rightarrow> u32 \<Rightarrow> u32) \<Rightarrow> u32 list \<Rightarrow> u32 list \<Rightarrow> bool" where
  "drawn P F fb fb' \<longleftrightarrow> length fb' = length fb \<and> (\<forall>j\<ge>0. pix fb' j = (if j \<in> P then F j (pix fb j) else pix fb j))"

lemma drawn_empty [simp]: "drawn {} F fb fb"
  by (simp add: drawn_def)

lemma drawn_trans: "drawn P F fb fb1 \<Longrightarrow> drawn Q F fb1 fb2 \<Longrightarrow> P \<inter> Q = {} \<Longrightarrow> drawn (P \<union> Q) F fb fb2"
  by (auto simp: drawn_def)

lemma for_each_drawn:
  assumes "\<And>i fb. i \<in> set xs \<Longrightarrow> length fb = n \<Longrightarrow> \<exists>fb'. f i fb = Some fb' \<and> drawn (P i) F fb fb'"
    and "distinct xs" "\<And>i j. i \<in> set xs \<Longrightarrow> j \<in> set xs \<Longrightarrow> i \<noteq> j \<Longrightarrow> P i \<inter> P j = {}" "length fb = n"
  shows "\<exists>fb'. for_each xs f fb = Some fb' \<and> drawn (\<Union>i \<in> set xs. P i) F fb fb'"
  using assms
proof (induction xs arbitrary: fb)
  case (Cons i xs)
  obtain fb1 where 1: "f i fb = Some fb1" "drawn (P i) F fb fb1" using Cons.prems(1) [of i fb] Cons.prems(4) by auto
  then have "length fb1 = n" using Cons.prems(4) by (simp add: drawn_def)
  then obtain fb2 where 2: "for_each xs f fb1 = Some fb2" "drawn (\<Union>i \<in> set xs. P i) F fb1 fb2"
    using Cons.IH [of fb1] Cons.prems by auto
  have "P i \<inter> (\<Union>i \<in> set xs. P i) = {}" using Cons.prems(2,3) by fastforce
  from drawn_trans [OF 1(2) 2(2) this] show ?case using 1(1) 2(1) by simp
qed simp

text \<open>The colour of a pixel under the glyph.\<close>

definition glyph_color :: "u8 \<Rightarrow> bool \<Rightarrow> u32 \<Rightarrow> u32" where
  "glyph_color colors on old =
    (let c = (if on then ucast (colors AND 0x3) else ucast (drop_bit 4 colors AND 0x3));
         keep = colors AND (if on then 0x08 else 0x80) \<noteq> 0 in if keep then old OR c else c)"

lemma field_or:
  assumes "a \<le> 30" "c AND 3 = c"
  shows "w OR push_bit a c = (w AND NOT (push_bit a 3)) OR push_bit a (((drop_bit a w AND 3) OR c) AND 3 :: u32)"
proof (rule bit_word_eqI)
  fix n :: nat assume "n < LENGTH(32)"
  have "bit c (n - a) \<longleftrightarrow> bit (c AND 3) (n - a)" using assms(2) by simp
  then show "bit (w OR push_bit a c) n = bit ((w AND NOT (push_bit a 3)) OR push_bit a (((drop_bit a w AND 3) OR c) AND 3)) n"
    using assms(1) \<open>n < LENGTH(32)\<close> by (auto simp: bit_simps bit_three)
qed

lemma color_two_bits: "(ucast (c AND 3 :: u8) :: u32) AND 3 = ucast (c AND 3)"
  by (rule bit_word_eqI) (auto simp: bit_simps bit_three)

lemma glyph_pixel_puts:
  assumes "0 \<le> i" "i < 16 * int (length fb)"
  shows "glyph_pixel colors on i fb = Some (put_pix fb i (glyph_color colors on (pix fb i)))"
proof -
  have w: "0 \<le> i div 16" "i div 16 < int (length fb)" using assms by auto
  let ?c = "\<lambda>b. ucast (b AND 3 :: u8) :: u32"
  have keep: "fb ! nat (i div 16) OR push_bit (pixel_shift i) (?c b)
    = fb ! nat (i div 16) AND NOT (push_bit (pixel_shift i) 3) OR push_bit (pixel_shift i) ((pix fb i OR ?c b) AND 3)" for b
    unfolding pix_def by (rule field_or) (simp_all only: pixel_shift_le color_two_bits)
  show ?thesis using w keep [of colors] keep [of "drop_bit 4 colors"]
    by (simp add: glyph_pixel_def Let_def load_def store_def put_pix_def glyph_color_def color_two_bits del: push_bit_and push_bit_or)
qed

lemma glyph_pixel_drawn:
  assumes "0 \<le> i" "i < 16 * int (length fb)" "F i = glyph_color colors on"
  shows "\<exists>fb'. glyph_pixel colors on i fb = Some fb' \<and> drawn {i} F fb fb'"
proof -
  have two: "(a AND 3 :: u32) = a \<Longrightarrow> (b AND 3 = b) \<Longrightarrow> (a OR b) AND 3 = a OR b" for a b by (simp add: bit.conj_disj_distrib2)
  have "pix fb i AND 3 = pix fb i" by (simp add: pix_def and.assoc)
  then have "glyph_color colors on (pix fb i) AND 3 = glyph_color colors on (pix fb i)"
    by (simp add: glyph_color_def Let_def color_two_bits two)
  then show ?thesis using glyph_pixel_puts [OF assms(1,2)] pix_put_pix [OF assms(1) _ assms(2)] assms(3) by (auto simp: drawn_def)
qed

text \<open>The bit of the font for a place in the glyph: a glyph has \<open>(height + 7) div 8\<close> lines of \<open>width\<close> bytes, and a byte is
  eight pixels of a column from top to bottom.\<close>

definition font_bit :: "u8 list \<Rightarrow> int \<Rightarrow> int \<Rightarrow> u8 \<Rightarrow> int \<Rightarrow> int \<Rightarrow> bool" where
  "font_bit font font_width font_height c col row =
    bit (font ! nat (font_width * uint c * ((font_height + 7) div 8) + row div 8 * font_width + col)) (nat (row mod 8))"

definition glyph_at :: "u8 \<Rightarrow> int \<Rightarrow> int \<Rightarrow> u8 \<Rightarrow> int \<Rightarrow> u8 list \<Rightarrow> int \<Rightarrow> int \<Rightarrow> int \<Rightarrow> u32 \<Rightarrow> u32" where
  "glyph_at c x y colors w font fw fh j = glyph_color colors (font_bit font fw fh c (j mod w - x) (j div w - y))"

definition glyph_place :: "int \<Rightarrow> int \<Rightarrow> int \<Rightarrow> int \<Rightarrow> int \<Rightarrow> int \<Rightarrow> int set" where
  "glyph_place x y w h col row = (if 0 \<le> x + col \<and> x + col < w \<and> 0 \<le> y + row \<and> y + row < h then {(y + row) * w + (x + col)} else {})"

lemma glyph_place_disjoint:
  assumes "col \<noteq> col' \<or> row \<noteq> row'"
  shows "glyph_place x y w h col row \<inter> glyph_place x y w h col' row' = {}"
  using assms frame_pixel_eq [of "x + col" w "x + col'" "y + row" "y + row'"] by (auto simp: glyph_place_def)

lemma unions_disjoint:
  "(\<And>a b. a \<in> A \<Longrightarrow> b \<in> B \<Longrightarrow> P a \<inter> Q b = {}) \<Longrightarrow> (\<Union>a \<in> A. P a) \<inter> (\<Union>b \<in> B. Q b) = {}"
  by blast

lemma glyph_column_drawn:
  assumes "0 < w" "w * h \<le> 16 * int (length fb)" "0 \<le> x + col" "x + col < w" "0 \<le> line" "n \<le> 8"
    and f: "f = font ! nat (fw * uint c * ((fh + 7) div 8) + line * fw + col)"
  shows "\<exists>fb'. for_each [0..n - 1] (\<lambda>b fb. let my_y = y + line * 8 + b in
             if 0 \<le> my_y \<and> my_y < h then glyph_pixel colors (bit f (nat b)) (my_y * w + (x + col)) fb else Some fb) fb = Some fb' \<and>
    drawn (\<Union>b \<in> {0..n - 1}. glyph_place x y w h col (line * 8 + b)) (glyph_at c x y colors w font fw fh) fb fb'"
proof -
  let ?op = "\<lambda>b fb. let my_y = y + line * 8 + b in
             if 0 \<le> my_y \<and> my_y < h then glyph_pixel colors (bit f (nat b)) (my_y * w + (x + col)) fb else Some fb"
  have "\<exists>fb''. ?op b fb' = Some fb'' \<and> drawn (glyph_place x y w h col (line * 8 + b)) (glyph_at c x y colors w font fw fh) fb' fb''"
    if b: "b \<in> set [0..n - 1]" and l: "length fb' = length fb" for b fb'
  proof (cases "0 \<le> y + line * 8 + b \<and> y + line * 8 + b < h")
    case True
    let ?j = "(y + line * 8 + b) * w + (x + col)"
    have j: "0 \<le> ?j" "?j < 16 * int (length fb')" using frame_pixel_less [of "x + col" w "y + line * 8 + b" h] True assms l by auto
    have "?j mod w = x + col" "?j div w = y + line * 8 + b" using assms(1,3,4) by simp_all
    then have "glyph_at c x y colors w font fw fh ?j = glyph_color colors (font_bit font fw fh c col (line * 8 + b))"
      by (simp add: glyph_at_def)
    moreover have "(line * 8 + b) div 8 = line" "(line * 8 + b) mod 8 = b" using b assms(6) by auto
    ultimately have F: "glyph_at c x y colors w font fw fh ?j = glyph_color colors (bit f (nat b))" by (simp add: font_bit_def f)
    show ?thesis using glyph_pixel_drawn [where F = "glyph_at c x y colors w font fw fh", OF j F] True assms(3,4) by (simp add: glyph_place_def algebra_simps)
  qed (auto simp: glyph_place_def Let_def algebra_simps)
  from for_each_drawn [where P = "\<lambda>b. glyph_place x y w h col (line * 8 + b)" and n = "length fb" and xs = "[0..n - 1]" and fb = fb, OF this]
  show ?thesis by (simp add: glyph_place_disjoint)
qed

lemma lines_up: "n div 8 + (if n mod 8 \<noteq> 0 then 1 else 0) = (n + 7) div (8 :: int)"
proof -
  have "n + 7 = n div 8 * 8 + (n mod 8 + 7)" by simp
  then have "(n + 7) div 8 = n div 8 + (n mod 8 + 7) div 8" by (metis div_mult_self3 zero_neq_numeral)
  moreover have "(n mod 8 + 7) div 8 = (if n mod 8 \<noteq> 0 then 1 else 0)"
    using pos_mod_bound [of 8 n] pos_mod_sign [of 8 n] by (auto simp: div_eq_dividend_iff intro!: div_pos_geq [THEN trans])
  ultimately show ?thesis by simp
qed

lemma print_char_drawn:
  assumes "0 < w" "w * h \<le> 16 * int (length fb)" "0 < fw" "0 < fh" "256 * fw * ((fh + 7) div 8) \<le> int (length font)"
  shows "\<exists>fb'. cga_video_print_char c x y colors w h font fw fh fb = Some fb' \<and>
    drawn (\<Union>line \<in> {0..(fh + 7) div 8 - 1}. \<Union>col \<in> {0..fw - 1}. \<Union>b \<in> {0..min 8 (fh - line * 8) - 1}. glyph_place x y w h col (line * 8 + b))
      (glyph_at c x y colors w font fw fh) fb fb'"
proof -
  let ?F = "glyph_at c x y colors w font fw fh" and ?n = "length fb" and ?lines = "(fh + 7) div 8"
  let ?P = "\<lambda>line col. \<Union>b \<in> {0..min 8 (fh - line * 8) - 1}. glyph_place x y w h col (line * 8 + b)"
  let ?col = "\<lambda>line col fb. let my_x = x + col; line_height = min 8 (fh - line * 8) in
        if 0 \<le> my_x \<and> my_x < w then do {
          f \<leftarrow> load font (fw * uint c * ?lines + line * fw + col);
          for_each [0..line_height - 1] (\<lambda>b fb. let my_y = y + line * 8 + b in
             if 0 \<le> my_y \<and> my_y < h then glyph_pixel colors (bit f (nat b)) (my_y * w + my_x) fb else Some fb) fb
        } else Some fb"
  have lines: "fh div 8 + (if fh mod 8 \<noteq> 0 then 1 else 0) = ?lines" by (rule lines_up)
  have c: "uint c + 1 \<le> 256" "0 \<le> uint c" using uint_lt2p [of c] by simp_all
  have one: "\<exists>fb''. ?col line col fb' = Some fb'' \<and> drawn (?P line col) ?F fb' fb''"
    if line: "line \<in> set [0..?lines - 1]" and col: "col \<in> set [0..fw - 1]" and l: "length fb' = ?n" for line col fb'
  proof (cases "0 \<le> x + col \<and> x + col < w")
    case True
    let ?i = "fw * uint c * ?lines + line * fw + col"
    have "0 \<le> ?lines" using assms(4) by simp
    then have "(uint c + 1) * ?lines \<le> 256 * ?lines" using c(1) by (intro mult_right_mono) simp_all
    moreover have "line + 1 \<le> ?lines" using line by simp
    ultimately have "uint c * ?lines + line + 1 \<le> 256 * ?lines" unfolding distrib_right by linarith
    then have "fw * (uint c * ?lines + line + 1) \<le> fw * (256 * ?lines)" using assms(3) by (intro mult_left_mono) simp_all
    moreover have "0 \<le> fw * uint c * ?lines" "0 \<le> line * fw" using line assms(3,4) c(2) by simp_all
    ultimately have i: "0 \<le> ?i" "?i < int (length font)" using assms(5) col by (auto simp: algebra_simps)
    then have "load font ?i = Some (font ! nat ?i)" by (simp add: load_def)
    then show ?thesis using glyph_column_drawn [OF assms(1), of h fb' x col line "min 8 (fh - line * 8)" "font ! nat ?i" font fw c fh y colors] True line assms(2) l
      by (simp add: Let_def)
  qed (auto simp: glyph_place_def)
  have disjoint_cols: "?P line col \<inter> ?P line col' = {}" if "col \<noteq> col'" for line col col'
    by (intro unions_disjoint glyph_place_disjoint) (use that in simp)
  have row: "\<exists>fb''. for_each [0..fw - 1] (?col line) fb' = Some fb'' \<and> drawn (\<Union>col \<in> {0..fw - 1}. ?P line col) ?F fb' fb''"
    if "line \<in> set [0..?lines - 1]" "length fb' = ?n" for line fb'
    using for_each_drawn [where P = "?P line" and n = ?n and xs = "[0..fw - 1]" and fb = fb', OF one [OF that(1)]] that(2)
    by (simp add: disjoint_cols)
  have disjoint_lines: "(\<Union>col \<in> {0..fw - 1}. ?P line col) \<inter> (\<Union>col \<in> {0..fw - 1}. ?P line' col) = {}" if "line \<noteq> line'" for line line'
    by (intro unions_disjoint glyph_place_disjoint) (use that in auto)
  from for_each_drawn [where P = "\<lambda>line. \<Union>col \<in> {0..fw - 1}. ?P line col" and n = ?n and xs = "[0..?lines - 1]" and fb = fb, OF row]
  show ?thesis unfolding cga_video_print_char_def Let_def lines by (simp add: disjoint_lines Let_def)
qed

text \<open>C34. \<open>cga_video_print_char\<close> draws a character anywhere in the frame, also partly or wholly outside: every pixel under the
  glyph gets the font or the background colour as the bit of the font tells, mixed with the old colour where the flag
  says so, all other pixels stay, and nothing outside the frame buffer and the font is read or written.\<close>

theorem print_char_pixels:
  assumes "0 < w" "w * h \<le> 16 * int (length fb)" "0 < fw" "0 < fh" "256 * fw * ((fh + 7) div 8) \<le> int (length font)"
  shows "\<exists>fb'. cga_video_print_char c x y colors w h font fw fh fb = Some fb' \<and> length fb' = length fb \<and>
    (\<forall>px py. 0 \<le> px \<and> px < w \<and> 0 \<le> py \<and> py < h \<longrightarrow> pix fb' (py * w + px) =
       (if x \<le> px \<and> px < x + fw \<and> y \<le> py \<and> py < y + fh
        then glyph_color colors (font_bit font fw fh c (px - x) (py - y)) (pix fb (py * w + px)) else pix fb (py * w + px))) \<and>
    (\<forall>j. w * h \<le> j \<and> 0 \<le> j \<longrightarrow> pix fb' j = pix fb j)"
proof -
  let ?P = "\<Union>line \<in> {0..(fh + 7) div 8 - 1}. \<Union>col \<in> {0..fw - 1}. \<Union>b \<in> {0..min 8 (fh - line * 8) - 1}. glyph_place x y w h col (line * 8 + b)"
  obtain fb' where fb': "cga_video_print_char c x y colors w h font fw fh fb = Some fb'" "drawn ?P (glyph_at c x y colors w font fw fh) fb fb'"
    using print_char_drawn [OF assms] by blast
  have inside: "py * w + px \<in> ?P \<longleftrightarrow> x \<le> px \<and> px < x + fw \<and> y \<le> py \<and> py < y + fh" if p: "0 \<le> px" "px < w" "0 \<le> py" "py < h" for px py
  proof
    assume "x \<le> px \<and> px < x + fw \<and> y \<le> py \<and> py < y + fh"
    moreover from this have "(py - y) div 8 \<in> {0..(fh + 7) div 8 - 1}" "(py - y) mod 8 \<in> {0..min 8 (fh - (py - y) div 8 * 8) - 1}"
      using minus_div_mult_eq_mod [of "py - y" 8, symmetric] pos_mod_bound [of 8 "py - y"] by (auto simp del: minus_div_mult_eq_mod)
    ultimately show "py * w + px \<in> ?P"
      using p by (intro UN_I [of "(py - y) div 8"] UN_I [of "px - x"] UN_I [of "(py - y) mod 8"]) (auto simp: glyph_place_def)
  next
    assume "py * w + px \<in> ?P"
    then obtain line col b where l: "line \<in> {0..(fh + 7) div 8 - 1}" "col \<in> {0..fw - 1}" "b \<in> {0..min 8 (fh - line * 8) - 1}"
      "py * w + px \<in> glyph_place x y w h col (line * 8 + b)" by blast
    then have "px = x + col \<and> py = y + (line * 8 + b)"
      using p frame_pixel_eq [of px w "x + col" py "y + (line * 8 + b)"] by (auto simp: glyph_place_def split: if_splits)
    then show "x \<le> px \<and> px < x + fw \<and> y \<le> py \<and> py < y + fh" using l(1-3) by auto
  qed
  have outside: "j \<notin> ?P" if "w * h \<le> j" for j
  proof
    assume "j \<in> ?P"
    then obtain col row where "j \<in> glyph_place x y w h col row" by blast
    then have "j < w * h" using frame_pixel_less(2) [of "x + col" w "y + row" h] by (auto simp: glyph_place_def split: if_splits)
    then show False using that by simp
  qed
  have at: "glyph_at c x y colors w font fw fh (py * w + px) = glyph_color colors (font_bit font fw fh c (px - x) (py - y))" if "0 \<le> px" "px < w" for px py
    using that assms(1) by (simp add: glyph_at_def)
  have "pix fb' (py * w + px) = (if x \<le> px \<and> px < x + fw \<and> y \<le> py \<and> py < y + fh
        then glyph_color colors (font_bit font fw fh c (px - x) (py - y)) (pix fb (py * w + px)) else pix fb (py * w + px))"
    if p: "0 \<le> px" "px < w" "0 \<le> py" "py < h" for px py
    using fb'(2) frame_pixel_less(1) [OF p] unfolding drawn_def inside [OF p, symmetric] at [OF p(1,2), symmetric] by blast
  moreover have "pix fb' j = pix fb j" if "w * h \<le> j" "0 \<le> j" for j
    using fb'(2) that outside [OF that(1)] unfolding drawn_def by simp
  ultimately show ?thesis using fb' unfolding drawn_def by blast
qed

theorem print_char_pixels_witness:
  "\<exists>fb'. cga_video_print_char 1 (-3) 2 0x83 16 16 (replicate 8 0x81 @ replicate 2040 0x55) 8 8 (replicate 16 0x55555555) = Some fb' \<and>
    pix fb' (2 * 16 + 4) = 3 \<and> pix fb' (3 * 16 + 4) = 1 \<and> pix fb' (3 * 16 + 5) = 1"
proof -
  let ?font = "replicate 8 0x81 @ replicate 2040 0x55 :: u8 list" and ?fb = "replicate 16 0x55555555 :: u32 list"
  have "(0 :: int) < 16" "16 * 16 \<le> 16 * int (length ?fb)" "(0 :: int) < 8" "(0 :: int) < 8" "256 * 8 * ((8 + 7) div 8) \<le> int (length ?font)" by simp_all
  from print_char_pixels [OF this, of 1 "-3" 2 "0x83"] obtain fb' where *: "cga_video_print_char 1 (-3) 2 0x83 16 16 ?font 8 8 ?fb = Some fb'"
    "\<forall>px py. 0 \<le> px \<and> px < 16 \<and> 0 \<le> py \<and> py < 16 \<longrightarrow> pix fb' (py * 16 + px) =
       (if -3 \<le> px \<and> px < -3 + 8 \<and> 2 \<le> py \<and> py < 2 + 8
        then glyph_color 0x83 (font_bit ?font 8 8 1 (px - -3) (py - 2)) (pix ?fb (py * 16 + px)) else pix ?fb (py * 16 + px))" by blast
  have "glyph_color 0x83 (font_bit ?font 8 8 1 7 0) (pix ?fb 36) = 3" "glyph_color 0x83 (font_bit ?font 8 8 1 7 1) (pix ?fb 52) = 1" "pix ?fb 53 = 1" by code_simp+
  then show ?thesis using *(1) *(2) [rule_format, of 4 2] *(2) [rule_format, of 4 3] *(2) [rule_format, of 5 3] by (intro exI [of _ fb']) simp
qed

end
