(* ===== verification/CgaText.thy ===== *)
theory CgaText
  imports Cga
begin

text \<open>
  The registers of the video adapter, its palette and its text terminal (cga.c, cga.h). In text mode a word of the
  frame buffer is a character with its colours. The loops that wait for the vertical blank do nothing but let the
  picture be shown; \<open>delay_us\<close> does nothing.
\<close>

section \<open>Registers\<close>

text \<open>\<open>shown\<close> collects the value of \<open>CTRL\<close> at every vertical blank the code waits for, with which the
  picture is shown.\<close>

record cga =
  FB :: "u32 list"
  PALETTE :: "u32 list"
  CTRL :: u32
  CTRL2 :: u32
  shown :: "u32 list"

abbreviation (input) CGA_CTRL_V_SCROLL_DIR :: u32 where "CGA_CTRL_V_SCROLL_DIR \<equiv> 0x400"
abbreviation (input) CGA_CTRL_V_SCROLL :: u32 where "CGA_CTRL_V_SCROLL \<equiv> 0x3ff"
abbreviation (input) CGA_CTRL2_CURSOR_X :: u32 where "CGA_CTRL2_CURSOR_X \<equiv> 0xff"
abbreviation (input) CGA_CTRL2_CURSOR_Y :: u32 where "CGA_CTRL2_CURSOR_Y \<equiv> 0xff00"
abbreviation (input) CGA_CTRL2_CURSOR_BOTTOM :: u32 where "CGA_CTRL2_CURSOR_BOTTOM \<equiv> 0xf0000"
abbreviation (input) CGA_CTRL2_CURSOR_TOP :: u32 where "CGA_CTRL2_CURSOR_TOP \<equiv> 0xf00000"
abbreviation (input) CGA_CTRL2_CURSOR_BLINK_EN :: u32 where "CGA_CTRL2_CURSOR_BLINK_EN \<equiv> 0x8000000"

definition cga_wait_vblank :: "cga \<Rightarrow> cga" where
  "cga_wait_vblank s = s\<lparr>shown := shown s @ [CTRL s]\<rparr>"

definition rotate_component :: "u32 \<Rightarrow> nat \<Rightarrow> u32" where
  "rotate_component p component =
    (let mask = push_bit (8 * component) 0xff; tmp = p AND NOT mask; tmp2 = drop_bit (8 * component) p AND 0xff;
         tmp2 = push_bit 1 tmp2; tmp2 = tmp2 OR (if tmp2 AND 0x100 \<noteq> 0 then 1 else 0) in
     tmp OR push_bit (8 * component) (tmp2 AND mask))"

definition cga_rotate_palette_left :: "u32 \<Rightarrow> cga \<Rightarrow> cga" where
  "cga_rotate_palette_left palettes_to_rotate s = (let s = cga_wait_vblank s in
    s\<lparr>PALETTE := fold (\<lambda>i pal. if bit palettes_to_rotate i then pal[i := fold (\<lambda>component p. rotate_component p component) [0, 1, 2] (pal ! i)]
      else pal) [0, 1, 2, 3] (PALETTE s)\<rparr>)"

definition cga_get_cursor_x :: "cga \<Rightarrow> int" where
  "cga_get_cursor_x s = uint (CTRL2 s AND CGA_CTRL2_CURSOR_X)"

definition cga_get_cursor_y :: "cga \<Rightarrow> int" where
  "cga_get_cursor_y s = uint (drop_bit 8 (CTRL2 s AND CGA_CTRL2_CURSOR_Y))"

definition cga_get_scroll :: "cga \<Rightarrow> u32" where
  "cga_get_scroll s = CTRL s AND NOT CGA_CTRL_V_SCROLL"

definition cga_set_scroll :: "int \<Rightarrow> cga \<Rightarrow> cga" where
  "cga_set_scroll scrl s = (let tmp = CTRL s AND NOT CGA_CTRL_V_SCROLL in
    s\<lparr>CTRL := (if 0 \<le> scrl then (tmp AND NOT CGA_CTRL_V_SCROLL_DIR) OR (word_of_int scrl AND CGA_CTRL_V_SCROLL)
       else (tmp OR CGA_CTRL_V_SCROLL_DIR) OR (word_of_int (- scrl) AND CGA_CTRL_V_SCROLL))\<rparr>)"

definition cga_set_cursor_xy :: "int \<Rightarrow> int \<Rightarrow> cga \<Rightarrow> cga" where
  "cga_set_cursor_xy x y s =
    (let tmp = CTRL2 s; tmp = tmp AND NOT CGA_CTRL2_CURSOR_X; tmp = tmp OR (word_of_int x AND 0xff);
         tmp = tmp AND NOT CGA_CTRL2_CURSOR_Y; tmp = tmp OR push_bit 8 (word_of_int y AND 0xff) in s\<lparr>CTRL2 := tmp\<rparr>)"

definition cga_set_cursor_style :: "int \<Rightarrow> int \<Rightarrow> cga \<Rightarrow> cga" where
  "cga_set_cursor_style tp bottom s =
    (let tmp = CTRL2 s; tmp = tmp AND NOT CGA_CTRL2_CURSOR_TOP; tmp = tmp OR push_bit 20 (word_of_int tp AND 0x0f);
         tmp = tmp AND NOT CGA_CTRL2_CURSOR_BOTTOM; tmp = tmp OR push_bit 16 (word_of_int bottom AND 0x0f) in s\<lparr>CTRL2 := tmp\<rparr>)"

section \<open>Scrolling the text\<close>

text \<open>The part before and behind the copying is the same for both directions.\<close>

primrec smooth :: "nat \<Rightarrow> u32 \<Rightarrow> cga \<Rightarrow> cga" where
  "smooth 0 i s = s"
| "smooth (Suc n) i s = (let s = cga_wait_vblank s; tmp = CTRL s AND NOT CGA_CTRL_V_SCROLL in
    smooth n (i + 1) (s\<lparr>CTRL := tmp OR (i AND 0x0f)\<rparr>))"

definition scroll_begin :: "cga \<Rightarrow> cga" where
  "scroll_begin s =
    (let s = cga_wait_vblank s; s = s\<lparr>CTRL2 := CTRL2 s AND NOT CGA_CTRL2_CURSOR_BLINK_EN\<rparr>;
         s = s\<lparr>CTRL := CTRL s AND NOT CGA_CTRL_V_SCROLL_DIR\<rparr> in cga_wait_vblank (smooth 16 0 s))"

definition scroll_end :: "cga \<Rightarrow> cga" where
  "scroll_end s = (let s = s\<lparr>CTRL := CTRL s AND NOT CGA_CTRL_V_SCROLL\<rparr> in s\<lparr>CTRL2 := CTRL2 s OR CGA_CTRL2_CURSOR_BLINK_EN\<rparr>)"

definition copy_word :: "int \<Rightarrow> int \<Rightarrow> u32 list \<Rightarrow> u32 list option" where
  "copy_word to from fb = do { w \<leftarrow> load fb from; store fb to w }"

definition cga_text_scroll_up :: "cga \<Rightarrow> cga option" where
  "cga_text_scroll_up s = (let s = scroll_begin s in do {
     fb \<leftarrow> for_each [0..CGA_TEXT_WIDTH - 1] (\<lambda>col fb. do {
       tmp \<leftarrow> load fb col;
       fb \<leftarrow> for_each [0..CGA_TEXT_HEIGHT_TOTAL - 2] (\<lambda>row. copy_word (row * CGA_TEXT_WIDTH + col) (row * CGA_TEXT_WIDTH + col + CGA_TEXT_WIDTH)) fb;
       store fb ((CGA_TEXT_HEIGHT_TOTAL - 1) * CGA_TEXT_WIDTH + col) tmp }) (FB s);
     Some (scroll_end (s\<lparr>FB := fb\<rparr>)) })"

definition cga_text_scroll_down :: "cga \<Rightarrow> cga option" where
  "cga_text_scroll_down s = (let s = scroll_begin s in do {
     fb \<leftarrow> for_each [0..CGA_TEXT_WIDTH - 1] (\<lambda>col fb. do {
       tmp \<leftarrow> load fb ((CGA_TEXT_HEIGHT_TOTAL - 1) * CGA_TEXT_WIDTH + col);
       fb \<leftarrow> for_each (rev [1..CGA_TEXT_HEIGHT_TOTAL - 1]) (\<lambda>row. copy_word (row * CGA_TEXT_WIDTH + col) (row * CGA_TEXT_WIDTH + col - CGA_TEXT_WIDTH)) fb;
       store fb col tmp }) (FB s);
     Some (scroll_end (s\<lparr>FB := fb\<rparr>)) })"

section \<open>The text terminal\<close>

text \<open>\<open>atoi\<close> of the C library.\<close>

fun digits :: "u8 list \<Rightarrow> int \<Rightarrow> int" where
  "digits (c # cs) n = (if 0x30 \<le> c \<and> c \<le> 0x39 then digits cs (n * 10 + uint (c - 0x30)) else n)"
| "digits [] n = n"

definition atoi :: "u8 list \<Rightarrow> int" where
  "atoi cs = (case dropWhile (\<lambda>c. c = 0x20 \<or> 0x09 \<le> c \<and> c \<le> 0x0d) cs of [] \<Rightarrow> 0
     | c # cs \<Rightarrow> if c = 0x2d then - digits cs 0 else if c = 0x2b then digits cs 0 else digits (c # cs) 0)"

text \<open>The state of the loop: \<open>text\<close> is the string with the zero at its end, \<open>at\<close> is \<open>fb\<close>, as a word offset from
  \<open>framebuffer\<close>, which is the frame buffer of the adapter.\<close>

record terminal =
  at :: int
  tx :: int
  ty :: int
  attributes :: u32
  cells :: "u32 list"

primrec blank :: "nat \<Rightarrow> int \<Rightarrow> u32 \<Rightarrow> u32 list \<Rightarrow> u32 list option" where
  "blank 0 i a fb = Some fb"
| "blank (Suc n) i a fb = do { fb \<leftarrow> store fb i (a OR 0x20); blank n (i + 1) a fb }"

text \<open>\<open>%\<close> of C.\<close>

definition crem :: "int \<Rightarrow> int \<Rightarrow> int" where
  "crem a b = (if a < 0 then - (- a mod b) else a mod b)"

text \<open>\<open>while(text[++i] != ';');\<close>\<close>

primrec skip_arg :: "nat \<Rightarrow> u8 list \<Rightarrow> int \<Rightarrow> int option" where
  "skip_arg 0 text i = None"
| "skip_arg (Suc fuel) text i = do { c \<leftarrow> load text (i + 1); if c = 0x3b then Some (i + 1) else skip_arg fuel text (i + 1) }"

text \<open>\<open>case '['\<close>, with \<open>i\<close> behind the bracket.\<close>

definition csi :: "u8 list \<Rightarrow> int \<Rightarrow> terminal \<Rightarrow> (int \<times> terminal) option" where
  "csi text i t = do {
     c \<leftarrow> load text i;
     d \<leftarrow> (if c = 0x32 then load text (i + 1) else Some 0);
     (i, t) \<leftarrow> (if c = 0x32 \<and> d = 0x4b then (let a = at t - crem (at t) CGA_TEXT_WIDTH in do {
          fb \<leftarrow> blank (nat CGA_TEXT_WIDTH) a (attributes t) (cells t);
          Some (i + 2, t\<lparr>at := a, tx := 0, cells := fb\<rparr>) }) else Some (i, t));
     c \<leftarrow> load text i;
     d \<leftarrow> (if c = 0x32 then load text (i + 1) else Some 0);
     t \<leftarrow> (if c = 0x32 \<and> d = 0x4a then do {
          fb \<leftarrow> blank (nat (CGA_TEXT_WIDTH * CGA_TEXT_HEIGHT)) 0 (attributes t) (cells t);
          Some (t\<lparr>at := CGA_TEXT_WIDTH * CGA_TEXT_HEIGHT, cells := fb\<rparr>) } else Some t);
     c \<leftarrow> load text i;
     Some (if c = 0x48 then (i + 1, t\<lparr>tx := 0, ty := 0\<rparr>) else (i, t))
   }"

definition escape :: "u8 list \<Rightarrow> int \<Rightarrow> terminal \<Rightarrow> (int \<times> terminal) option" where
  "escape text i t = do {
     c \<leftarrow> load text i;
     if c = 0x5b then csi text (i + 1) t
     else if c \<in> {0x46, 0x42, 0x44, 0x55, 0x4c, 0x52} then (let n = atoi (drop (nat (i + 1)) text) in do {
       j \<leftarrow> skip_arg (length text) text (i + 1);
       Some (j,
         if c = 0x46 then t\<lparr>attributes := (attributes t AND NOT 0xff00) OR word_of_int (n * 2 ^ 8)\<rparr>
         else if c = 0x42 then t\<lparr>attributes := (attributes t AND NOT 0xff0000) OR word_of_int (n * 2 ^ 16)\<rparr>
         else if c = 0x44 then t\<lparr>at := at t + CGA_TEXT_WIDTH * n\<rparr>
         else if c = 0x55 then t\<lparr>at := at t - CGA_TEXT_WIDTH * n\<rparr>
         else if c = 0x4c then t\<lparr>at := at t - n\<rparr> else t\<lparr>at := at t + n\<rparr>) })
     else Some (i, t)
   }"

text \<open>One turn of the loop for the character \<open>c = text[i]\<close>, which is not zero, with \<open>i++\<close>.\<close>

definition text_char :: "u8 list \<Rightarrow> u8 \<Rightarrow> int \<Rightarrow> terminal \<Rightarrow> (int \<times> terminal) option" where
  "text_char text c i t =
    (if c = 0x0a then (let t = t\<lparr>at := at t + CGA_TEXT_WIDTH, ty := ty t + 1\<rparr> in
       if CGA_TEXT_HEIGHT \<le> ty t then do {
         fb \<leftarrow> blank (nat CGA_TEXT_WIDTH) ((ty t + 1) * CGA_TEXT_WIDTH) (attributes t) (cells t);
         Some (i + 1, t\<lparr>cells := fb\<rparr>) }
       else Some (i + 1, t))
     else if c = 0x0d then Some (i + 1, t\<lparr>at := at t - crem (at t) CGA_TEXT_WIDTH, tx := 0\<rparr>)
     else if c = 0x09 then (let spaces = 8 - crem (tx t) 8 in do {
       fb \<leftarrow> blank (nat spaces) (at t) (attributes t) (cells t);
       Some (i + 1, t\<lparr>at := at t + spaces, tx := tx t + spaces, cells := fb\<rparr>) })
     else if c = 0x1b then do { (i, t) \<leftarrow> escape text (i + 1) t; Some (i + 1, t) }
     else do {
       fb \<leftarrow> store (cells t) (at t) (attributes t OR ucast c);
       Some (i + 1, t\<lparr>at := at t + 1, tx := tx t + 1, cells := fb\<rparr>) })"

primrec text_loop :: "nat \<Rightarrow> u8 list \<Rightarrow> int \<Rightarrow> terminal \<Rightarrow> terminal option" where
  "text_loop 0 text i t = None"
| "text_loop (Suc fuel) text i t = do {
     c \<leftarrow> load text i;
     if c = 0 then Some t else do { (i, t) \<leftarrow> text_char text c i t; text_loop fuel text i t } }"

primrec scroll_times :: "nat \<Rightarrow> cga \<Rightarrow> cga option" where
  "scroll_times 0 s = Some s"
| "scroll_times (Suc n) s = do { s \<leftarrow> cga_text_scroll_up s; scroll_times n s }"

definition text_end :: "terminal \<Rightarrow> cga \<Rightarrow> cga option" where
  "text_end t s =
    (let x = tx t; y = ty t; (x, y) = (if CGA_TEXT_WIDTH \<le> x then (x mod CGA_TEXT_WIDTH, y + x div CGA_TEXT_WIDTH) else (x, y)) in
     if CGA_TEXT_HEIGHT \<le> y then do {
       fb \<leftarrow> blank (nat CGA_TEXT_WIDTH) ((y + 1) * CGA_TEXT_WIDTH) (attributes t) (cells t);
       s \<leftarrow> scroll_times (nat (y - (CGA_TEXT_HEIGHT - 1))) (s\<lparr>FB := fb\<rparr>);
       Some (cga_set_cursor_xy x (CGA_TEXT_HEIGHT - 1) s) }
     else Some (cga_set_cursor_xy x y (s\<lparr>FB := cells t\<rparr>)))"

text \<open>\<open>text\<close> is not the null pointer and is given without its zero.\<close>

definition cga_text_print :: "int \<Rightarrow> int \<Rightarrow> int \<Rightarrow> int \<Rightarrow> u8 list \<Rightarrow> cga \<Rightarrow> cga option" where
  "cga_text_print x y fg_color bg_color text s =
    (let x = (if x < 0 then cga_get_cursor_x s else x); y = (if y < 0 then cga_get_cursor_y s else y) in do {
       t \<leftarrow> text_loop (length text + 1) (text @ [0]) 0 \<lparr>at = CGA_TEXT_WIDTH * y + x, tx = x, ty = y,
         attributes = word_of_int (bg_color * 2 ^ 16) OR word_of_int (fg_color * 2 ^ 8), cells = FB s\<rparr>;
       text_end t s })"

section \<open>Scrolling rotates the lines\<close>

lemma for_each_append: "for_each (xs @ ys) f s = do { s \<leftarrow> for_each xs f s; for_each ys f s }"
  by (induction xs arbitrary: s) (simp_all add: Option.bind_assoc)

text \<open>The word of column \<open>c\<close> and row \<open>r\<close>.\<close>

definition cell :: "u32 list \<Rightarrow> int \<Rightarrow> int \<Rightarrow> u32" where
  "cell fb r c = fb ! nat (r * 80 + c)"

lemma cell_index:
  assumes "0 \<le> r" "r < 64" "0 \<le> c" "c < (80 :: int)"
  shows "0 \<le> r * 80 + c" "r * 80 + c < 5120"
  using assms by auto

lemma cell_update:
  assumes "0 \<le> r" "0 \<le> c" "c < 80" "0 \<le> r'" "0 \<le> c'" "c' < 80" "r * 80 + c < int (length fb)"
  shows "cell (fb[nat (r * 80 + c) := w]) r' c' = (if r' = r \<and> c' = c then w else cell fb r' c')"
proof -
  have "nat (r * 80 + c) = nat (r' * 80 + c') \<longleftrightarrow> r' = r \<and> c' = c" using assms frame_pixel_eq [of c' 80 c r' r] by (auto simp: nat_eq_iff2)
  then show ?thesis using assms by (auto simp: cell_def nth_list_update)
qed

text \<open>Frame buffers that agree up to a change of the text by \<open>g\<close>, which gives the cell a cell is copied from.\<close>

definition moved :: "(int \<Rightarrow> int \<Rightarrow> int) \<Rightarrow> u32 list \<Rightarrow> u32 list \<Rightarrow> bool" where
  "moved g fb fb' \<longleftrightarrow> length fb' = length fb \<and> (\<forall>j\<ge>5120. fb' ! j = fb ! j) \<and>
     (\<forall>r c. 0 \<le> r \<and> r < 64 \<and> 0 \<le> c \<and> c < 80 \<longrightarrow> cell fb' r c = cell fb (g r c) c)"

lemma copy_word_cell:
  assumes "0 \<le> r" "r < 64" "0 \<le> q" "q < 64" "0 \<le> c" "c < 80" "5120 \<le> length fb"
  shows "copy_word (r * 80 + c) (q * 80 + c) fb = Some (fb[nat (r * 80 + c) := cell fb q c])"
proof -
  have "0 \<le> q * 80 + c" "q * 80 + c < 5120" "0 \<le> r * 80 + c" "r * 80 + c < 5120" using assms by auto
  then show ?thesis using assms(7) by (simp add: copy_word_def load_def store_def cell_def)
qed

lemma moved_copy:
  assumes "moved g fb fb'" "0 \<le> r" "r < 64" "0 \<le> c" "c < 80" "5120 \<le> length fb" "cell fb' q c = cell fb q' c"
  shows "moved (\<lambda>r' c'. if r' = r \<and> c' = c then q' else g r' c') fb (fb'[nat (r * 80 + c) := cell fb' q c])"
proof -
  have i: "0 \<le> r * 80 + c" "r * 80 + c < 5120" using assms by auto
  have "length fb' = length fb" using assms(1) by (simp add: moved_def)
  then have "cell (fb'[nat (r * 80 + c) := cell fb' q c]) r' c' = (if r' = r \<and> c' = c then cell fb' q c else cell fb' r' c')"
    if "0 \<le> r'" "0 \<le> c'" "c' < 80" for r' c'
    using cell_update [OF assms(2,4,5) that, of fb' "cell fb' q c"] i assms(6) by simp
  then show ?thesis using assms(1,7) i unfolding moved_def by (auto simp: nth_list_update)
qed

lemma copy_up:
  assumes "n \<le> 63" "0 \<le> c" "c < 80" "5120 \<le> length fb"
  shows "\<exists>fb'. for_each [0..int n - 1] (\<lambda>row. copy_word (row * 80 + c) (row * 80 + c + 80)) fb = Some fb' \<and>
    moved (\<lambda>r c'. if c' = c \<and> r < int n then r + 1 else r) fb fb'"
  using assms(1)
proof (induction n)
  case (Suc n)
  then obtain fb' where fb': "for_each [0..int n - 1] (\<lambda>row. copy_word (row * 80 + c) (row * 80 + c + 80)) fb = Some fb'"
    "moved (\<lambda>r c'. if c' = c \<and> r < int n then r + 1 else r) fb fb'" by auto
  have l: "5120 \<le> length fb'" using fb'(2) assms(4) by (simp add: moved_def)
  have step: "copy_word (int n * 80 + c) (int n * 80 + c + 80) fb' = Some (fb'[nat (int n * 80 + c) := cell fb' (int n + 1) c])"
    using copy_word_cell [of "int n" "int n + 1" c fb'] Suc.prems assms(2,3) l by (simp add: algebra_simps)
  have "cell fb' (int n + 1) c = cell fb (int n + 1) c" using fb'(2) Suc.prems assms(2,3) by (simp add: moved_def)
  from moved_copy [OF fb'(2) _ _ assms(2-4) this, of "int n"] Suc.prems
  have "moved (\<lambda>r' c'. if r' = int n \<and> c' = c then int n + 1 else if c' = c \<and> r' < int n then r' + 1 else r') fb
    (fb'[nat (int n * 80 + c) := cell fb' (int n + 1) c])" by simp
  moreover have "(\<lambda>r' c'. if r' = int n \<and> c' = c then int n + 1 else if c' = c \<and> r' < int n then r' + 1 else r')
    = (\<lambda>r c'. if c' = c \<and> r < int (Suc n) then r + 1 else r)" by (auto simp: fun_eq_iff)
  moreover have "[0..int (Suc n) - 1] = [0..int n - 1] @ [int n]" by (simp add: upto_rec2)
  ultimately show ?case using fb'(1) step by (simp add: for_each_append del: of_nat_Suc)
qed (simp add: moved_def)

lemma copy_down:
  assumes "n \<le> 63" "0 \<le> c" "c < 80" "5120 \<le> length fb"
  shows "\<exists>fb'. for_each (rev [64 - int n..63]) (\<lambda>row. copy_word (row * 80 + c) (row * 80 + c - 80)) fb = Some fb' \<and>
    moved (\<lambda>r c'. if c' = c \<and> 64 - int n \<le> r then r - 1 else r) fb fb'"
  using assms(1)
proof (induction n)
  case (Suc n)
  let ?k = "63 - int n"
  obtain fb' where fb': "for_each (rev [64 - int n..63]) (\<lambda>row. copy_word (row * 80 + c) (row * 80 + c - 80)) fb = Some fb'"
    "moved (\<lambda>r c'. if c' = c \<and> 64 - int n \<le> r then r - 1 else r) fb fb'" using Suc by auto
  have l: "5120 \<le> length fb'" using fb'(2) assms(4) by (simp add: moved_def)
  have step: "copy_word (?k * 80 + c) (?k * 80 + c - 80) fb' = Some (fb'[nat (?k * 80 + c) := cell fb' (?k - 1) c])"
    using copy_word_cell [of ?k "?k - 1" c fb'] Suc.prems assms(2,3) l by (simp add: algebra_simps)
  have "cell fb' (?k - 1) c = cell fb (?k - 1) c" using fb'(2) Suc.prems assms(2,3) by (simp add: moved_def)
  from moved_copy [OF fb'(2) _ _ assms(2-4) this, of ?k] Suc.prems
  have "moved (\<lambda>r' c'. if r' = ?k \<and> c' = c then ?k - 1 else if c' = c \<and> 64 - int n \<le> r' then r' - 1 else r') fb
    (fb'[nat (?k * 80 + c) := cell fb' (?k - 1) c])" by linarith
  moreover have "(\<lambda>r' c'. if r' = ?k \<and> c' = c then ?k - 1 else if c' = c \<and> 64 - int n \<le> r' then r' - 1 else r')
    = (\<lambda>r c'. if c' = c \<and> 64 - int (Suc n) \<le> r then r - 1 else r)" by (auto simp: fun_eq_iff)
  moreover have "rev [64 - int (Suc n)..63] = rev [64 - int n..63] @ [?k]"
    by (subst upto_rec1) (use Suc.prems in \<open>simp_all add: algebra_simps\<close>)
  ultimately show ?case using fb'(1) step by (simp add: for_each_append del: of_nat_Suc)
qed (simp add: moved_def)

text \<open>All columns, one after the other.\<close>

lemma columns:
  assumes op: "\<And>c fb. 0 \<le> c \<Longrightarrow> c < 80 \<Longrightarrow> 5120 \<le> length fb \<Longrightarrow>
      \<exists>fb'. f c fb = Some fb' \<and> moved (\<lambda>r c'. if c' = c then h r else r) fb fb'"
    and h: "\<And>r. 0 \<le> r \<Longrightarrow> r < 64 \<Longrightarrow> 0 \<le> h r \<and> h r < 64" and "n \<le> 80" "5120 \<le> length fb"
  shows "\<exists>fb'. for_each [0..int n - 1] f fb = Some fb' \<and> moved (\<lambda>r c'. if c' < int n then h r else r) fb fb'"
  using assms(3)
proof (induction n)
  case (Suc n)
  obtain fb1 where 1: "for_each [0..int n - 1] f fb = Some fb1" "moved (\<lambda>r c'. if c' < int n then h r else r) fb fb1" using Suc by auto
  obtain fb2 where 2: "f (int n) fb1 = Some fb2" "moved (\<lambda>r c'. if c' = int n then h r else r) fb1 fb2"
    using op [of "int n" fb1] Suc.prems 1(2) assms(4) by (auto simp: moved_def)
  have "moved (\<lambda>r c'. if c' < int (Suc n) then h r else r) fb fb2" using 1(2) 2(2) h unfolding moved_def by auto
  moreover have "[0..int (Suc n) - 1] = [0..int n - 1] @ [int n]" by (simp add: upto_rec2)
  ultimately show ?case using 1(1) 2(1) by (simp add: for_each_append del: of_nat_Suc)
qed (simp add: moved_def)

lemma scroll_up_column:
  assumes "0 \<le> c" "c < 80" "5120 \<le> length fb"
  shows "\<exists>fb'. do { tmp \<leftarrow> load fb c;
       fb \<leftarrow> for_each [0..62] (\<lambda>row. copy_word (row * 80 + c) (row * 80 + c + 80)) fb;
       store fb (63 * 80 + c) tmp } = Some fb' \<and> moved (\<lambda>r c'. if c' = c then (r + 1) mod 64 else r) fb fb'"
proof -
  have "[0..int 63 - 1] = [0..62]" by simp
  with copy_up [of 63 c fb] assms obtain fb1 where 1: "for_each [0..62] (\<lambda>row. copy_word (row * 80 + c) (row * 80 + c + 80)) fb = Some fb1"
    "moved (\<lambda>r c'. if c' = c \<and> r < 63 then r + 1 else r) fb fb1" by auto
  have i: "0 \<le> 63 * 80 + c" "63 * 80 + c < int (length fb1)" using 1(2) assms by (auto simp: moved_def)
  have "cell (fb1[nat (63 * 80 + c) := cell fb 0 c]) r c' = cell fb (if c' = c then (r + 1) mod 64 else r) c'"
    if "0 \<le> r" "r < 64" "0 \<le> c'" "c' < 80" for r c'
    using that cell_update [of 63 c r c' fb1 "cell fb 0 c"] 1(2) assms i by (auto simp: moved_def mod_if)
  then have "moved (\<lambda>r c'. if c' = c then (r + 1) mod 64 else r) fb (fb1[nat (63 * 80 + c) := cell fb 0 c])"
    using 1(2) assms by (simp add: moved_def)
  then show ?thesis using 1(1) i assms by (simp add: load_def store_def cell_def)
qed

lemma scroll_down_column:
  assumes "0 \<le> c" "c < 80" "5120 \<le> length fb"
  shows "\<exists>fb'. do { tmp \<leftarrow> load fb (63 * 80 + c);
       fb \<leftarrow> for_each (rev [1..63]) (\<lambda>row. copy_word (row * 80 + c) (row * 80 + c - 80)) fb;
       store fb c tmp } = Some fb' \<and> moved (\<lambda>r c'. if c' = c then (r - 1) mod 64 else r) fb fb'"
proof -
  have "[64 - int 63..63] = [1..63]" by simp
  with copy_down [of 63 c fb] assms obtain fb1 where 1: "for_each (rev [1..63]) (\<lambda>row. copy_word (row * 80 + c) (row * 80 + c - 80)) fb = Some fb1"
    "moved (\<lambda>r c'. if c' = c \<and> 1 \<le> r then r - 1 else r) fb fb1" by auto
  have i: "0 \<le> 63 * 80 + c" "63 * 80 + c < int (length fb)" "c < int (length fb1)" using 1(2) assms by (auto simp: moved_def)
  have "cell (fb1[nat (0 * 80 + c) := cell fb 63 c]) r c' = cell fb (if c' = c then (r - 1) mod 64 else r) c'"
    if "0 \<le> r" "r < 64" "0 \<le> c'" "c' < 80" for r c'
    using that cell_update [of 0 c r c' fb1 "cell fb 63 c"] 1(2) assms i by (auto simp: moved_def)
  then have "moved (\<lambda>r c'. if c' = c then (r - 1) mod 64 else r) fb (fb1[nat (0 * 80 + c) := cell fb 63 c])"
    using 1(2) assms by (simp add: moved_def)
  then show ?thesis using 1(1) i assms by (simp add: load_def store_def cell_def)
qed

lemma FB_scroll_begin [simp]: "FB (scroll_begin s) = FB s" "PALETTE (scroll_begin s) = PALETTE s"
proof -
  have "FB (smooth n i s) = FB s \<and> PALETTE (smooth n i s) = PALETTE s" for n i s
    by (induction n arbitrary: i s) (simp_all add: Let_def cga_wait_vblank_def)
  then show "FB (scroll_begin s) = FB s" "PALETTE (scroll_begin s) = PALETTE s"
    by (simp_all add: scroll_begin_def Let_def cga_wait_vblank_def)
qed

lemma scroll_up_rotates:
  assumes "5120 \<le> length (FB s)"
  shows "\<exists>s'. cga_text_scroll_up s = Some s' \<and> moved (\<lambda>r c. (r + 1) mod 64) (FB s) (FB s') \<and>
    s' = scroll_end ((scroll_begin s)\<lparr>FB := FB s'\<rparr>)"
proof -
  have "[0..int 80 - 1] = [0..79]" by simp
  with columns [OF scroll_up_column, of 80 "FB s"] assms
  obtain fb where fb: "for_each [0..79] (\<lambda>c fb. do { tmp \<leftarrow> load fb c;
       fb \<leftarrow> for_each [0..62] (\<lambda>row. copy_word (row * 80 + c) (row * 80 + c + 80)) fb; store fb (63 * 80 + c) tmp }) (FB s) = Some fb"
    "moved (\<lambda>r c. if c < 80 then (r + 1) mod 64 else r) (FB s) fb" by auto
  from fb(2) have "moved (\<lambda>r c. (r + 1) mod 64) (FB s) fb" by (simp add: moved_def)
  then show ?thesis using fb(1) by (simp add: cga_text_scroll_up_def Let_def scroll_end_def)
qed

lemma scroll_down_rotates:
  assumes "5120 \<le> length (FB s)"
  shows "\<exists>s'. cga_text_scroll_down s = Some s' \<and> moved (\<lambda>r c. (r - 1) mod 64) (FB s) (FB s') \<and>
    s' = scroll_end ((scroll_begin s)\<lparr>FB := FB s'\<rparr>)"
proof -
  have "[0..int 80 - 1] = [0..79]" by simp
  with columns [OF scroll_down_column, of 80 "FB s"] assms
  obtain fb where fb: "for_each [0..79] (\<lambda>c fb. do { tmp \<leftarrow> load fb (63 * 80 + c);
       fb \<leftarrow> for_each (rev [1..63]) (\<lambda>row. copy_word (row * 80 + c) (row * 80 + c - 80)) fb; store fb c tmp }) (FB s) = Some fb"
    "moved (\<lambda>r c. if c < 80 then (r - 1) mod 64 else r) (FB s) fb" by auto
  from fb(2) have "moved (\<lambda>r c. (r - 1) mod 64) (FB s) fb" by (simp add: moved_def)
  then show ?thesis using fb(1) by (simp add: cga_text_scroll_down_def Let_def scroll_end_def)
qed

text \<open>Equal cells and equal words behind the text make equal frame buffers.\<close>

lemma cells_eqI:
  assumes "length fb = length fb'" "\<forall>j\<ge>5120. fb ! j = fb' ! j" "\<And>r c. 0 \<le> r \<Longrightarrow> r < 64 \<Longrightarrow> 0 \<le> c \<Longrightarrow> c < 80 \<Longrightarrow> cell fb r c = cell fb' r c"
  shows "fb = fb'"
proof (rule nth_equalityI [OF assms(1)])
  fix i assume "i < length fb"
  show "fb ! i = fb' ! i"
  proof (cases "i < 5120")
    case True
    have "cell fb (int i div 80) (int i mod 80) = cell fb' (int i div 80) (int i mod 80)" using True by (intro assms(3)) auto
    then show ?thesis by (simp add: cell_def)
  qed (use assms(2) in simp)
qed



section \<open>Printing plain text\<close>

definition plain :: "u8 \<Rightarrow> bool" where
  "plain c \<longleftrightarrow> c \<notin> {0, 0x0a, 0x0d, 0x09, 0x1b}"

text \<open>The frame buffer with the characters from the word \<open>a\<close> on.\<close>

definition written :: "int \<Rightarrow> u32 \<Rightarrow> u8 list \<Rightarrow> u32 list \<Rightarrow> u32 list" where
  "written a attr cs fb = take (nat a) fb @ map (\<lambda>c. attr OR ucast c) cs @ drop (nat a + length cs) fb"

lemma written_Cons:
  assumes "0 \<le> a" "a + int (length (c # cs)) \<le> int (length fb)"
  shows "written a attr (c # cs) fb = written (a + 1) attr cs (fb[nat a := attr OR ucast c])"
proof -
  have "nat (a + 1) = Suc (nat a)" "nat a < length fb" using assms by auto
  then show ?thesis by (simp add: written_def take_Suc_conv_app_nth)
qed

lemma text_loop_plain:
  assumes "list_all plain cs" "text = pre @ cs @ [0]" "i = int (length pre)" "0 \<le> at t" "at t + int (length cs) \<le> int (length (cells t))" "length cs < fuel"
  shows "text_loop fuel text i t = Some (t\<lparr>at := at t + int (length cs), tx := tx t + int (length cs), cells := written (at t) (attributes t) cs (cells t)\<rparr>)"
  using assms
proof (induction cs arbitrary: fuel pre i t)
  case Nil
  obtain f where "fuel = Suc f" using Nil.prems(6) by (cases fuel) auto
  then show ?case using Nil.prems by (simp add: load_def written_def)
next
  case (Cons c cs)
  obtain f where f: "fuel = Suc f" using Cons.prems(6) by (cases fuel) auto
  let ?t = "t\<lparr>at := at t + 1, tx := tx t + 1, cells := (cells t)[nat (at t) := attributes t OR ucast c]\<rparr>"
  have c: "c \<noteq> 0" "text_char text c i t = Some (i + 1, ?t)" using Cons.prems(1,4,5) by (auto simp: plain_def text_char_def store_def)
  have l: "load text i = Some c" using Cons.prems(2,3) by (simp add: load_def)
  have "text_loop f text (i + 1) ?t = Some (?t\<lparr>at := at ?t + int (length cs), tx := tx ?t + int (length cs), cells := written (at ?t) (attributes ?t) cs (cells ?t)\<rparr>)"
    using Cons.IH [of "pre @ [c]" "i + 1" ?t f] Cons.prems f by simp
  then show ?case using c l written_Cons [of "at t" c cs "cells t" "attributes t"] Cons.prems(4,5) by (simp add: f algebra_simps)
qed

lemma cursor_xy:
  assumes "0 \<le> x" "x < 256" "0 \<le> y" "y < 256"
  shows "cga_get_cursor_x (cga_set_cursor_xy x y s) = x" "cga_get_cursor_y (cga_set_cursor_xy x y s) = y"
proof -
  have ff: "(0xff :: u32) = mask 8" by (simp add: mask_eq_exp_minus_1)
  have ff00: "(0xff00 :: u32) = push_bit 8 (mask 8)" by (simp add: mask_eq_exp_minus_1 push_bit_eq_mult)
  have small: "uint (word_of_int z AND 0xff :: u32) = z" if "0 \<le> z" "z < 256" for z
    using that unfolding ff take_bit_eq_mask [symmetric] by transfer (simp add: take_bit_int_eq_self)
  have x: "(((w AND NOT 0xff OR (a AND 0xff)) AND NOT 0xff00) OR push_bit 8 (b AND 0xff)) AND 0xff = (a AND 0xff :: u32)" for w a b
    unfolding ff ff00 by (rule bit_word_eqI) (auto simp: bit_simps)
  have y: "drop_bit 8 ((((w AND NOT 0xff OR (a AND 0xff)) AND NOT 0xff00) OR push_bit 8 (b AND 0xff)) AND 0xff00) = (b AND 0xff :: u32)" for w a b
    unfolding ff ff00 by (rule bit_word_eqI) (auto simp: bit_simps)
  have r: "CTRL2 (cga_set_cursor_xy x y s)
    = ((CTRL2 s AND NOT 0xff OR (word_of_int x AND 0xff)) AND NOT 0xff00) OR push_bit 8 (word_of_int y AND 0xff)"
    by (simp add: cga_set_cursor_xy_def Let_def)
  show "cga_get_cursor_x (cga_set_cursor_xy x y s) = x" unfolding cga_get_cursor_x_def r x by (rule small [OF assms(1,2)])
  show "cga_get_cursor_y (cga_set_cursor_xy x y s) = y" unfolding cga_get_cursor_y_def r y by (rule small [OF assms(3,4)])
qed

lemma cursor_keeps [simp]: "FB (cga_set_cursor_xy x y s) = FB s" "PALETTE (cga_set_cursor_xy x y s) = PALETTE s"
  by (simp_all add: cga_set_cursor_xy_def Let_def)

text \<open>Text that ends above the last line of the screen goes to consecutive cells from the given position on, in the given
  colours; all other cells stay and the cursor stands behind it.\<close>

theorem text_print_plain:
  assumes "list_all plain text" "0 \<le> x" "x < 80" "0 \<le> y" "y + (x + int (length text)) div 80 < 30" "5120 \<le> length (FB s)"
  shows "\<exists>s'. cga_text_print x y fg bg text s = Some s' \<and>
    FB s' = written (80 * y + x) (word_of_int (bg * 2 ^ 16) OR word_of_int (fg * 2 ^ 8)) text (FB s) \<and> PALETTE s' = PALETTE s \<and>
    cga_get_cursor_x s' = (x + int (length text)) mod 80 \<and> cga_get_cursor_y s' = y + (x + int (length text)) div 80"
proof -
  let ?n = "int (length text)" and ?a = "word_of_int (bg * 2 ^ 16) OR word_of_int (fg * 2 ^ 8) :: u32"
  have "80 * y + x + ?n \<le> 80 * 30" using assms(2-5) by linarith
  then have "text_loop (length text + 1) (text @ [0]) 0 \<lparr>at = 80 * y + x, tx = x, ty = y, attributes = ?a, cells = FB s\<rparr>
      = Some \<lparr>at = 80 * y + x + ?n, tx = x + ?n, ty = y, attributes = ?a, cells = written (80 * y + x) ?a text (FB s)\<rparr>"
    using text_loop_plain [OF assms(1), of "text @ [0]" "[]" 0 "\<lparr>at = 80 * y + x, tx = x, ty = y, attributes = ?a, cells = FB s\<rparr>"
        "length text + 1"] assms by (simp del: text_loop.simps)
  moreover have "text_end \<lparr>at = 80 * y + x + ?n, tx = x + ?n, ty = y, attributes = ?a, cells = written (80 * y + x) ?a text (FB s)\<rparr> s
    = Some (cga_set_cursor_xy ((x + ?n) mod 80) (y + (x + ?n) div 80) (s\<lparr>FB := written (80 * y + x) ?a text (FB s)\<rparr>))"
    using assms(2-5) by (auto simp: text_end_def Let_def)
  ultimately have "cga_text_print x y fg bg text s
    = Some (cga_set_cursor_xy ((x + ?n) mod 80) (y + (x + ?n) div 80) (s\<lparr>FB := written (80 * y + x) ?a text (FB s)\<rparr>))"
    using assms(2,4) by (simp add: cga_text_print_def del: text_loop.simps)
  moreover have c: "0 \<le> (x + ?n) mod 80" "(x + ?n) mod 80 < 256" "0 \<le> y + (x + ?n) div 80" "y + (x + ?n) div 80 < 256"
    using assms(2,4,5) pos_mod_bound [of 80 "x + ?n"] by (auto intro: add_nonneg_nonneg)
  ultimately show ?thesis using cursor_xy [OF c] by simp
qed

text \<open>What the console prints at a key of the history, \<open>ESC [ 2 K\<close>, makes the loop step over the end of the string: the
  escape sequence leaves \<open>i\<close> behind its last character, and the loop increments it once more.\<close>

theorem erase_line_reads_behind_string:
  assumes "5120 \<le> length (FB s)" "0 \<le> x" "x < 80" "0 \<le> y" "y < 30"
  shows "cga_text_print x y fg bg [0x1b, 0x5b, 0x32, 0x4b] s = None"
proof -
  have blank: "blank n i a fb \<noteq> None" if "0 \<le> i" "i + int n \<le> int (length fb)" for n i a fb
    using that by (induction n arbitrary: i fb) (simp_all add: store_def)
  have crem: "80 * y + x - crem (80 * y + x) 80 = 80 * y" using assms(2-4) by (simp add: crem_def)
  obtain fb where fb: "blank 80 (80 * y) (word_of_int (bg * 2 ^ 16) OR word_of_int (fg * 2 ^ 8)) (FB s) = Some fb"
    using blank [of "80 * y" 80 "FB s"] assms by fastforce
  let ?text = "[0x1b, 0x5b, 0x32, 0x4b, 0] :: u8 list"
    and ?t = "\<lparr>at = 80 * y + x, tx = x, ty = y, attributes = word_of_int (bg * 2 ^ 16) OR word_of_int (fg * 2 ^ 8), cells = FB s\<rparr>"
  have l: "load ?text 0 = Some 0x1b" "load ?text 1 = Some 0x5b" "load ?text 2 = Some 0x32" "load ?text 3 = Some 0x4b"
    "load ?text 4 = Some 0" "load ?text 5 = None" by (simp_all add: load_def)
  have n: "nat 80 = 80" by simp
  have "csi ?text 2 ?t = Some (4, ?t\<lparr>at := 80 * y, tx := 0, cells := fb\<rparr>)"
    using fb by (simp add: csi_def l Let_def crem)
  then have "text_char ?text 0x1b 0 ?t = Some (5, ?t\<lparr>at := 80 * y, tx := 0, cells := fb\<rparr>)"
    by (simp add: text_char_def escape_def l)
  then have loop: "text_loop (Suc (Suc k)) ?text 0 ?t = None" for k by (simp add: l)
  have "length [0x1b, 0x5b, 0x32, 0x4b :: u8] + 1 = Suc (Suc 3)" "[0x1b, 0x5b, 0x32, 0x4b] @ [0] = ?text" by simp_all
  then show ?thesis unfolding cga_text_print_def Let_def using loop [of "Suc (Suc (Suc 0))"] assms(2,4) by (simp del: text_loop.simps)
qed

text \<open>Rotating a palette entry loses its green component: the rotated byte is cut with the mask of the component it is yet
  to be shifted to, so that only its carry is left, and that goes to the next component.\<close>

theorem rotate_palette_loses_green:
  "PALETTE (cga_rotate_palette_left 1 \<lparr>FB = [], PALETTE = [0x00004000], CTRL = 0, CTRL2 = 0, shown = []\<rparr>) = [0]"
  by code_simp

text \<open>\<open>cga_get_scroll\<close> reads everything but the scroll field.\<close>

theorem get_scroll_misses_scroll: "cga_get_scroll (cga_set_scroll 5 \<lparr>FB = [], PALETTE = [], CTRL = 0, CTRL2 = 0, shown = []\<rparr>) = 0"
  by code_simp

text \<open>Scrolling down shows the same pictures before the lines move as scrolling up.\<close>

theorem scroll_down_moves_up:
  assumes "5120 \<le> length (FB s)"
  shows "\<exists>s' s''. cga_text_scroll_up s = Some s' \<and> cga_text_scroll_down s = Some s'' \<and> shown s' = shown s'' \<and> CTRL s' = CTRL s''"
proof -
  obtain s' s'' where s: "cga_text_scroll_up s = Some s'" "s' = scroll_end ((scroll_begin s)\<lparr>FB := FB s'\<rparr>)"
    "cga_text_scroll_down s = Some s''" "s'' = scroll_end ((scroll_begin s)\<lparr>FB := FB s''\<rparr>)"
    using scroll_up_rotates [OF assms] scroll_down_rotates [OF assms] by blast
  have "shown s' = shown s''" "CTRL s' = CTRL s''"
    by (subst s(2), subst s(4), simp add: scroll_end_def Let_def)+
  then show ?thesis using s(1,3) by blast
qed

end
