(* ===== verification/Keyboard.thy ===== *)
theory Keyboard
  imports KeyMaps "HOL-Library.Monad_Syntax"
begin

text \<open>
  The keyboard (keyboard.c, keyboard.h), as the monitor sets it up (main.c of the monitor): from the reports of a USB
  keyboard over keys and symbols to the bytes in the receive buffer of the console.

  \<^item> An access outside of a table or of the memory is \<^term>\<open>None\<close>.
  \<^item> The four flags of the code are one state with the buffer and the last report, the static variable
    \<open>prev_hid_response\<close>.
\<close>

section \<open>State\<close>

text \<open>\<open>buffer\<close> is the memory from the start of the buffer on, of which \<open>bufsize\<close> bytes belong to it.\<close>

record kbd =
  buffer :: "u8 list"
  bufsize :: nat
  len :: nat
  capslock_state :: u8
  numlock_state :: u8
  dead_key_next :: u8
  applic_state :: u8
  prev_hid_response :: "u8 list"
  events_console_poll :: bool

definition process_keyboard_events :: "kbd \<Rightarrow> kbd" where
  "process_keyboard_events s = s\<lparr>events_console_poll := True\<rparr>"

text \<open>What a handler returns: its result and the state.\<close>

type_synonym handled = "(int \<times> kbd) option"

text \<open>A handler that tells the console about the key.\<close>

definition notified :: "handled \<Rightarrow> handled" where
  "notified r = do { (ret, s) \<leftarrow> r; Some (ret, process_keyboard_events s) }"

section \<open>The buffer\<close>

definition put_buf :: "nat \<Rightarrow> u8 \<Rightarrow> u8 list \<Rightarrow> u8 list option" where
  "put_buf i c b = (if i < length b then Some (b[i := c]) else None)"

definition put_queue :: "u8 \<Rightarrow> kbd \<Rightarrow> handled" where
  "put_queue ch s =
    (if bufsize s \<le> len s then Some (-4, s)
     else do {
       b \<leftarrow> put_buf (len s) ch (buffer s);
       b \<leftarrow> put_buf (len s + 1) 0 b;
       Some (1, s\<lparr>buffer := b, len := len s + 1\<rparr>)
     })"

definition puts_queue :: "u8 list \<Rightarrow> kbd \<Rightarrow> handled" where
  "puts_queue cp s =
    (if bufsize s \<le> len s + length cp then Some (-4, s)
     else if length (buffer s) < len s + length cp then None
     else Some (int (length cp), s\<lparr>buffer := take (len s) (buffer s) @ cp @ drop (len s + length cp) (buffer s),
       len := len s + length cp\<rparr>))"

definition applkey :: "u8 \<Rightarrow> bool \<Rightarrow> kbd \<Rightarrow> handled" where
  "applkey key mode s = puts_queue ([0x1b, if mode then 0x4f else 0x5b] @ (if key = 0 then [] else [key])) s"

section \<open>Special functions\<close>

definition fn_enter :: "kbd \<Rightarrow> handled" where "fn_enter s = put_queue 0x0d s"
definition fn_caps_toggle :: "kbd \<Rightarrow> handled" where "fn_caps_toggle s = Some (0, s\<lparr>capslock_state := capslock_state s XOR 1\<rparr>)"
definition fn_caps_on :: "kbd \<Rightarrow> handled" where "fn_caps_on s = Some (0, s\<lparr>capslock_state := 1\<rparr>)"
definition fn_show_ptregs :: "kbd \<Rightarrow> handled" where "fn_show_ptregs s = Some (0, s)"
definition fn_hold :: "kbd \<Rightarrow> handled" where "fn_hold s = Some (0, s)"
definition fn_bare_num :: "kbd \<Rightarrow> handled" where "fn_bare_num s = Some (0, s\<lparr>numlock_state := numlock_state s XOR 1\<rparr>)"
definition fn_num :: "kbd \<Rightarrow> handled" where "fn_num s = (if applic_state s \<noteq> 0 then applkey 0x50 True s else fn_bare_num s)"
definition fn_lastcons :: "kbd \<Rightarrow> handled" where "fn_lastcons s = Some (0, s)"
definition fn_dec_console :: "kbd \<Rightarrow> handled" where "fn_dec_console s = Some (0, s)"
definition fn_inc_console :: "kbd \<Rightarrow> handled" where "fn_inc_console s = Some (0, s)"
definition fn_send_intr :: "kbd \<Rightarrow> handled" where "fn_send_intr s = Some (0, s)"
definition fn_scroll_forw :: "kbd \<Rightarrow> handled" where "fn_scroll_forw s = Some (0, s)"
definition fn_scroll_back :: "kbd \<Rightarrow> handled" where "fn_scroll_back s = Some (0, s)"
definition fn_show_mem :: "kbd \<Rightarrow> handled" where "fn_show_mem s = Some (0, s)"
definition fn_show_state :: "kbd \<Rightarrow> handled" where "fn_show_state s = Some (0, s)"
definition fn_boot_it :: "kbd \<Rightarrow> handled" where "fn_boot_it s = Some (0, s)"
definition fn_compose :: "kbd \<Rightarrow> handled" where "fn_compose s = Some (0, s\<lparr>dead_key_next := 1\<rparr>)"
definition fn_spawn_con :: "kbd \<Rightarrow> handled" where "fn_spawn_con s = Some (0, s)"
definition fn_SAK :: "kbd \<Rightarrow> handled" where "fn_SAK s = Some (0, s)"
definition fn_null :: "kbd \<Rightarrow> handled" where "fn_null s = Some (0, s)"

definition fn_handler :: "(kbd \<Rightarrow> handled) list" where
  "fn_handler = [
    fn_null, fn_enter, fn_show_ptregs, fn_show_mem,
    fn_show_state, fn_send_intr, fn_lastcons, fn_caps_toggle,
    fn_num, fn_hold, fn_scroll_forw, fn_scroll_back,
    fn_boot_it, fn_caps_on, fn_compose, fn_SAK,
    fn_dec_console, fn_inc_console, fn_spawn_con, fn_bare_num]"

section \<open>Keys by their type\<close>

definition lookup :: "'a list \<Rightarrow> nat \<Rightarrow> 'a option" where
  "lookup xs i = (if i < length xs then Some (xs ! i) else None)"

definition k_ignore :: "u8 \<Rightarrow> bool \<Rightarrow> kbd \<Rightarrow> handled" where "k_ignore value up_flag s = Some (0, s)"

definition k_spec :: "u8 \<Rightarrow> bool \<Rightarrow> kbd \<Rightarrow> handled" where
  "k_spec value up_flag s =
    (if up_flag then Some (0, s)
     else if length fn_handler \<le> unat value then Some (-1, s)
     else notified ((fn_handler ! unat value) s))"

definition k_lowercase :: "u8 \<Rightarrow> bool \<Rightarrow> kbd \<Rightarrow> handled" where
  "k_lowercase value up_flag s = (if up_flag then Some (0, s) else notified (put_queue value s))"

text \<open>\<open>conv_uni_to_8bit\<close> never gives -1.\<close>

definition k_unicode :: "u16 \<Rightarrow> bool \<Rightarrow> kbd \<Rightarrow> handled" where
  "k_unicode value up_flag s =
    (if up_flag then Some (0, s)
     else if dead_key_next s \<noteq> 0 then Some (0, s\<lparr>dead_key_next := 0\<rparr>)
     else put_queue (ucast value) s)"

definition k_deadunicode :: "u8 \<Rightarrow> bool \<Rightarrow> kbd \<Rightarrow> handled" where "k_deadunicode value up_flag s = Some (0, s)"

definition k_self :: "u8 \<Rightarrow> bool \<Rightarrow> kbd \<Rightarrow> handled" where
  "k_self value up_flag s = notified (k_unicode (ucast value) up_flag s)"

definition k_dead2 :: "u8 \<Rightarrow> bool \<Rightarrow> kbd \<Rightarrow> handled" where "k_dead2 value up_flag s = k_deadunicode value up_flag s"
definition k_dead :: "u8 \<Rightarrow> bool \<Rightarrow> kbd \<Rightarrow> handled" where "k_dead value up_flag s = Some (0, s)"
definition k_cons :: "u8 \<Rightarrow> bool \<Rightarrow> kbd \<Rightarrow> handled" where "k_cons value up_flag s = Some (0, s)"

definition k_fn :: "u8 \<Rightarrow> bool \<Rightarrow> kbd \<Rightarrow> handled" where
  "k_fn value up_flag s =
    (if up_flag then Some (0, s)
     else notified (case lookup func_table (unat value) of Some (Some cp) \<Rightarrow> puts_queue cp s | _ \<Rightarrow> Some (0, s)))"

text \<open>The characters of the cursor keys and of the keypad, with the zero at the end of the string.\<close>

definition cur_chars :: "u8 list" where "cur_chars = [0x42, 0x44, 0x43, 0x41, 0]"

definition pad_chars :: "u8 list" where
  "pad_chars = [0x30, 0x31, 0x32, 0x33, 0x34, 0x35, 0x36, 0x37, 0x38, 0x39, 0x2b, 0x2d, 0x2a, 0x2f, 0x0d, 0x2c, 0x2e, 0x3f,
    0x28, 0x29, 0x23, 0]"

definition app_map :: "u8 list" where
  "app_map = [0x70, 0x71, 0x72, 0x73, 0x74, 0x75, 0x76, 0x77, 0x78, 0x79, 0x6c, 0x53, 0x52, 0x51, 0x4d, 0x6e, 0x6e, 0x6d,
    0x50, 0x51, 0x53, 0]"

definition k_cur :: "u8 \<Rightarrow> bool \<Rightarrow> kbd \<Rightarrow> handled" where
  "k_cur value up_flag s =
    (if up_flag then Some (0, s) else do { c \<leftarrow> lookup cur_chars (unat value); notified (applkey c False s) })"

definition k_pad :: "u8 \<Rightarrow> bool \<Rightarrow> kbd \<Rightarrow> handled" where
  "k_pad value up_flag s =
    (if up_flag then Some (0, s)
     else if applic_state s \<noteq> 0 \<and> capslock_state s = 0 then do { c \<leftarrow> lookup app_map (unat value); applkey c True s }
     else if numlock_state s = 0 \<and> value \<in> {15, 16} then k_fn 22 False s
     else if numlock_state s = 0 \<and> value = 0 then k_fn 21 False s
     else if numlock_state s = 0 \<and> value = 1 then k_fn 23 False s
     else if numlock_state s = 0 \<and> value = 2 then k_cur 0 False s
     else if numlock_state s = 0 \<and> value = 3 then k_fn 25 False s
     else if numlock_state s = 0 \<and> value = 4 then k_cur 1 False s
     else if numlock_state s = 0 \<and> value = 6 then k_cur 2 False s
     else if numlock_state s = 0 \<and> value = 7 then k_fn 20 False s
     else if numlock_state s = 0 \<and> value = 8 then k_cur 3 False s
     else if numlock_state s = 0 \<and> value = 9 then k_fn 24 False s
     else if numlock_state s = 0 \<and> value = 5 then applkey 0x47 (applic_state s \<noteq> 0) s
     else do { c \<leftarrow> lookup pad_chars (unat value); notified (put_queue c s) })"

definition k_shift :: "u8 \<Rightarrow> bool \<Rightarrow> kbd \<Rightarrow> handled" where
  "k_shift value up_flag s = (if up_flag then Some (0, s) else put_queue value s)"

text \<open>The monitor sets no function for \<open>k_meta\<close>.\<close>

definition k_meta :: "u8 \<Rightarrow> bool \<Rightarrow> kbd \<Rightarrow> handled" where
  "k_meta value up_flag s =
    (if up_flag then Some (0, s)
     else do { (ret, s) \<leftarrow> put_queue 0x1b s; (ret', s) \<leftarrow> put_queue value s; Some (ret + ret', s) })"

definition k_ascii :: "u8 \<Rightarrow> bool \<Rightarrow> kbd \<Rightarrow> handled" where
  "k_ascii value up_flag s = (if up_flag then Some (0, s) else put_queue value s)"

definition k_lock :: "u8 \<Rightarrow> bool \<Rightarrow> kbd \<Rightarrow> handled" where "k_lock value up_flag s = Some (0, s)"
definition k_slock :: "u8 \<Rightarrow> bool \<Rightarrow> kbd \<Rightarrow> handled" where "k_slock value up_flag s = Some (0, s)"
definition k_brl :: "u8 \<Rightarrow> bool \<Rightarrow> kbd \<Rightarrow> handled" where "k_brl value up_flag s = Some (0, s)"

definition k_handler :: "(u8 \<Rightarrow> bool \<Rightarrow> kbd \<Rightarrow> handled) list" where
  "k_handler = [
    k_self, k_fn, k_spec, k_pad,
    k_dead, k_cons, k_cur, k_shift,
    k_meta, k_ascii, k_lock, k_lowercase,
    k_slock, k_dead2, k_brl, k_ignore]"

section \<open>Keys and reports\<close>

definition keymap :: "bool \<Rightarrow> bool \<Rightarrow> bool \<Rightarrow> u16 list" where
  "keymap shift_final ctrl_pressed alt_pressed =
    (if shift_final \<and> ctrl_pressed then shift_ctrl_map
     else if ctrl_pressed \<and> alt_pressed then ctrl_alt_map
     else if ctrl_pressed then ctrl_map
     else if alt_pressed then alt_map
     else if shift_final then shift_map
     else plain_map)"

text \<open>\<open>keymap\<close> has \<open>NR_KEYS\<close> entries.\<close>

definition kbd_keycode :: "u8 \<Rightarrow> bool \<Rightarrow> bool \<Rightarrow> bool \<Rightarrow> bool \<Rightarrow> kbd \<Rightarrow> handled" where
  "kbd_keycode keycode shift_pressed ctrl_pressed alt_pressed up_flag s =
    (let shift_final = ((capslock_state s > 0) \<noteq> shift_pressed) in
     if 128 \<le> keycode then Some (-1, s)
     else (let keysym = keymap shift_final ctrl_pressed alt_pressed ! unat keycode; type = (ucast (drop_bit 8 keysym) :: u8) in
       if type < 0xf0 then k_unicode keysym up_flag s
       else (k_handler ! unat (type - 0xf0)) (ucast keysym) up_flag s))"

text \<open>The modifiers of a report, as \<open>kbd_keycode\<close> is called with them.\<close>

definition key_event :: "u8 \<Rightarrow> u8" where
  "key_event code = hid_keycode_to_linux_event ! unat code"

definition hid_key :: "u8 list \<Rightarrow> u8 \<Rightarrow> bool \<Rightarrow> kbd \<Rightarrow> kbd option" where
  "hid_key hid_response event up_flag s =
    (let shift_pressed = (hid_response ! 0 AND (0x02 OR 0x20)) \<noteq> 0;
         ctrl_pressed = (hid_response ! 0 AND (0x01 OR 0x10)) \<noteq> 0;
         alt_pressed = (hid_response ! 0 AND (0x04 OR 0x40 OR 0x08 OR 0x80)) \<noteq> 0 in
     map_option snd (kbd_keycode event shift_pressed ctrl_pressed alt_pressed up_flag s))"

text \<open>One turn of the loop over the keys that were pressed.\<close>

definition released_key :: "u8 list \<Rightarrow> nat \<Rightarrow> kbd \<Rightarrow> kbd option" where
  "released_key hid_response i s =
    (let code = prev_hid_response s ! i in
     if 0x04 \<le> code \<and> (\<forall>j \<in> set [2..<8]. hid_response ! j \<noteq> code) then hid_key hid_response (key_event code) True s else Some s)"

text \<open>One turn of the loop over the keys pressed now, with \<open>repeat_key_event\<close> and \<open>repeat_flag\<close>.\<close>

definition pressed_key :: "u8 list \<Rightarrow> nat \<Rightarrow> u8 \<times> nat \<times> kbd \<Rightarrow> (u8 \<times> nat \<times> kbd) option" where
  "pressed_key hid_response i = (\<lambda>(repeat_key_event, repeat_flag, s). (let code = hid_response ! i in do {
     s' \<leftarrow> (if 0x04 \<le> code \<and> (\<forall>j \<in> set [2..<8]. prev_hid_response s ! j \<noteq> code)
       then hid_key hid_response (key_event code) False s else Some s);
     Some (if 0x04 \<le> code then key_event code else repeat_key_event,
       if code = prev_hid_response s ! i then repeat_flag + 1 else repeat_flag, s') }))"

primrec for_keys :: "nat list \<Rightarrow> (nat \<Rightarrow> 's \<Rightarrow> 's option) \<Rightarrow> 's \<Rightarrow> 's option" where
  "for_keys [] f s = Some s"
| "for_keys (i # is) f s = do { s \<leftarrow> f i s; for_keys is f s }"

definition kbd_hid_keycode :: "u8 list \<Rightarrow> kbd \<Rightarrow> handled" where
  "kbd_hid_keycode hid_response s =
    (if hid_response ! 2 > 0 \<and> hid_response ! 2 < 0x04 then Some (-1, s)
     else do {
       s \<leftarrow> for_keys [2..<8] (released_key hid_response) s;
       (repeat_key_event, repeat_flag, s) \<leftarrow> for_keys [2..<8] (pressed_key hid_response) (0, 0, s);
       s \<leftarrow> (if repeat_flag = 6 then hid_key hid_response repeat_key_event False s else Some s);
       Some (0, s\<lparr>prev_hid_response := hid_response\<rparr>)
     })"

section \<open>Handlers\<close>

lemmas k_defs = k_self_def k_fn_def k_spec_def k_pad_def k_dead_def k_cons_def k_cur_def k_shift_def k_meta_def k_ascii_def
  k_lock_def k_lowercase_def k_slock_def k_dead2_def k_deadunicode_def k_brl_def k_ignore_def

lemmas fn_defs = fn_null_def fn_enter_def fn_show_ptregs_def fn_show_mem_def fn_show_state_def fn_send_intr_def
  fn_lastcons_def fn_caps_toggle_def fn_num_def fn_hold_def fn_scroll_forw_def fn_scroll_back_def fn_boot_it_def
  fn_caps_on_def fn_compose_def fn_SAK_def fn_dec_console_def fn_inc_console_def fn_spawn_con_def fn_bare_num_def

lemma length_handlers [simp]: "length k_handler = 16" "length fn_handler = 20"
  by (simp_all add: k_handler_def fn_handler_def)

lemma length_maps [simp]: "length (keymap a b c) = 128"
  by (simp add: keymap_def plain_map_def shift_map_def ctrl_map_def shift_ctrl_map_def alt_map_def ctrl_alt_map_def)

text \<open>The key codes differ in the flag for the console only.\<close>

abbreviation flagged :: "handled \<Rightarrow> handled" where
  "flagged \<equiv> map_option (apsnd process_keyboard_events)"

text \<open>The end of a key does nothing but tell the console.\<close>

lemma handler_up: "h \<in> set k_handler \<Longrightarrow> flagged (h v True s) = Some (0, process_keyboard_events s)"
  by (auto simp: k_handler_def k_defs k_unicode_def notified_def process_keyboard_events_def)

lemma flagged_put [simp]: "put_queue c (process_keyboard_events s) = flagged (put_queue c s)"
  by (auto simp: put_queue_def process_keyboard_events_def split: Option.bind_splits)

lemma flagged_puts [simp]: "puts_queue cp (process_keyboard_events s) = flagged (puts_queue cp s)"
  by (auto simp: puts_queue_def process_keyboard_events_def)

lemma flagged_twice [simp]: "process_keyboard_events (process_keyboard_events s) = process_keyboard_events s"
  by (simp add: process_keyboard_events_def)

lemma notified_flagged: "notified r = flagged r"
  by (cases r) (auto simp: notified_def)

lemma flagged_flagged [simp]: "flagged (flagged r) = flagged r"
  by (cases r) auto

lemma flag_fields [simp]: "capslock_state (process_keyboard_events s) = capslock_state s"
  "numlock_state (process_keyboard_events s) = numlock_state s" "dead_key_next (process_keyboard_events s) = dead_key_next s"
  "applic_state (process_keyboard_events s) = applic_state s" "prev_hid_response (process_keyboard_events s) = prev_hid_response s"
  by (simp_all add: process_keyboard_events_def)

lemma flag_updates [simp]:
  "process_keyboard_events s\<lparr>capslock_state := c\<rparr> = process_keyboard_events (s\<lparr>capslock_state := c\<rparr>)"
  "process_keyboard_events s\<lparr>numlock_state := c\<rparr> = process_keyboard_events (s\<lparr>numlock_state := c\<rparr>)"
  "process_keyboard_events s\<lparr>dead_key_next := c\<rparr> = process_keyboard_events (s\<lparr>dead_key_next := c\<rparr>)"
  "process_keyboard_events s\<lparr>prev_hid_response := r\<rparr> = process_keyboard_events (s\<lparr>prev_hid_response := r\<rparr>)"
  by (simp_all add: process_keyboard_events_def)

lemma flagged_applkey [simp]: "applkey c m (process_keyboard_events s) = flagged (applkey c m s)"
  by (simp add: applkey_def)

lemma flagged_fn: "f \<in> set fn_handler \<Longrightarrow> f (process_keyboard_events s) = flagged (f s)"
  by (auto simp: fn_handler_def fn_defs)

lemma flagged_k_fn [simp]: "k_fn v up (process_keyboard_events s) = flagged (k_fn v up s)"
  by (simp add: k_fn_def notified_flagged split: option.split)

lemma flagged_k_cur [simp]: "k_cur v up (process_keyboard_events s) = flagged (k_cur v up s)"
  by (simp add: k_cur_def notified_flagged split: Option.bind_split)

lemma flagged_k_unicode [simp]: "k_unicode v up (process_keyboard_events s) = flagged (k_unicode v up s)"
  by (simp add: k_unicode_def)

lemma flagged_k_spec [simp]: "k_spec v up (process_keyboard_events s) = flagged (k_spec v up s)"
  by (simp add: k_spec_def notified_flagged flagged_fn)

lemma bind_of_flagged: "(r \<bind> (\<lambda>c. flagged (f c))) = flagged (r \<bind> f)"
  by (cases r) auto

lemma flagged_k_pad [simp]: "k_pad v up (process_keyboard_events s) = flagged (k_pad v up s)"
  unfolding k_pad_def notified_flagged flag_fields flagged_put flagged_applkey flagged_k_fn flagged_k_cur flagged_flagged
    bind_of_flagged by (simp only: if_distrib [of flagged] option.simps(8,9) apsnd_conv flagged_flagged id_apply)

lemma bind_flagged:
  "(\<And>x s. f x (process_keyboard_events s) = flagged (f x s)) \<Longrightarrow> flagged r \<bind> case_prod f = flagged (r \<bind> case_prod f)"
  by (cases r) auto

lemma flagged_k_meta [simp]: "k_meta v up (process_keyboard_events s) = flagged (k_meta v up s)"
proof -
  have "put_queue v (process_keyboard_events t) \<bind> (\<lambda>(ret', s). Some (ret + ret', s)) =
    flagged (put_queue v t \<bind> (\<lambda>(ret', s). Some (ret + ret', s)))" for ret t
    unfolding flagged_put by (rule bind_flagged) simp
  then show ?thesis unfolding k_meta_def flagged_put by (simp add: bind_flagged)
qed

lemma handler_flagged: "h \<in> set k_handler \<Longrightarrow> h v up (process_keyboard_events s) = flagged (h v up s)"
  by (auto simp: k_handler_def k_self_def k_dead_def k_cons_def k_shift_def k_ascii_def k_lock_def k_lowercase_def
    k_slock_def k_dead2_def k_deadunicode_def k_brl_def k_ignore_def notified_flagged)

text \<open>The handler of a key code.\<close>

lemma handler_in: "\<not> t < 0xf0 \<Longrightarrow> k_handler ! unat (t - 0xf0 :: u8) \<in> set k_handler"
proof -
  assume "\<not> t < 0xf0"
  moreover have "unat t < 2 ^ LENGTH(8)" by (rule unsigned_less)
  ultimately show ?thesis by (intro nth_mem) (auto simp: unat_sub_if_size word_less_nat_alt)
qed

lemma keycode_flagged:
  "kbd_keycode e a b c up (process_keyboard_events s) = flagged (kbd_keycode e a b c up s)"
  by (simp add: kbd_keycode_def Let_def handler_flagged handler_in)

lemma keycode_up: "\<exists>r. flagged (kbd_keycode e a b c True s) = Some (r, process_keyboard_events s)"
proof -
  have "\<exists>r. flagged ((k_handler ! unat (t - 0xf0)) v True s) = Some (r, process_keyboard_events s)" if "\<not> t < 0xf0" for t :: u8 and v
    using handler_up [OF handler_in [OF that]] by (rule exI)
  then show ?thesis unfolding kbd_keycode_def Let_def k_unicode_def by (simp del: map_option_eq_Some)
qed

lemma hid_key_flagged: "hid_key r e up (process_keyboard_events s) = map_option process_keyboard_events (hid_key r e up s)"
  by (simp add: hid_key_def Let_def keycode_flagged option.map_comp comp_def)

lemma hid_key_up: "map_option process_keyboard_events (hid_key r e True s) = Some (process_keyboard_events s)"
proof -
  obtain x where "flagged (kbd_keycode e (r ! 0 AND (0x02 OR 0x20) \<noteq> 0) (r ! 0 AND (0x01 OR 0x10) \<noteq> 0)
    (r ! 0 AND (0x04 OR 0x40 OR 0x08 OR 0x80) \<noteq> 0) True s) = Some (x, process_keyboard_events s)"
    using keycode_up by blast
  then show ?thesis unfolding hid_key_def Let_def by (auto simp: option.map_comp comp_def)
qed

section \<open>The buffer only grows\<close>

text \<open>What no key changes: the text before, the bytes behind the zero that follows the buffer, the last report.\<close>

definition grown :: "kbd \<Rightarrow> kbd \<Rightarrow> bool" where
  "grown s t \<longleftrightarrow> prev_hid_response t = prev_hid_response s \<and> bufsize t = bufsize s \<and> length (buffer t) = length (buffer s) \<and>
     len s \<le> len t \<and> (len s \<le> bufsize s \<longrightarrow> len t \<le> bufsize s) \<and> take (len s) (buffer t) = take (len s) (buffer s) \<and>
     drop (bufsize s + 1) (buffer t) = drop (bufsize s + 1) (buffer s)"

lemma grown_refl [simp]: "grown s s"
  by (simp add: grown_def)

lemma grown_trans: "grown s t \<Longrightarrow> grown t u \<Longrightarrow> grown s u"
proof -
  assume *: "grown s t" "grown t u"
  then have "take (len s) (take (len t) (buffer u)) = take (len s) (take (len t) (buffer t))" "len s \<le> len t"
    by (simp_all add: grown_def)
  then have "take (len s) (buffer u) = take (len s) (buffer t)" by (simp add: min_absorb1)
  with * show "grown s u" by (auto simp: grown_def)
qed

lemma grown_flag [simp]: "grown s (process_keyboard_events t) \<longleftrightarrow> grown s t"
  by (simp add: grown_def process_keyboard_events_def)

text \<open>A handler that ends well, when the memory reaches behind the buffer.\<close>

definition good :: "kbd \<Rightarrow> handled \<Rightarrow> bool" where
  "good s r \<longleftrightarrow> (bufsize s < length (buffer s) \<longrightarrow> r \<noteq> None) \<and> (\<forall>x t. r = Some (x, t) \<longrightarrow> grown s t)"

lemma good_Some [simp]: "good s (Some (x, t)) \<longleftrightarrow> grown s t"
  by (simp add: good_def)

lemma good_notified [simp]: "good s (notified r) \<longleftrightarrow> good s r"
  by (auto simp: good_def notified_flagged)

lemma good_put [simp]: "good s (put_queue c s)"
  by (auto simp: good_def grown_def put_queue_def put_buf_def split: if_splits)

lemma good_puts [simp]: "good s (puts_queue cp s)"
  by (auto simp: good_def grown_def puts_queue_def split: if_splits)

lemma good_applkey [simp]: "good s (applkey c m s)"
  by (simp add: applkey_def)

lemma good_bind:
  assumes "good s r" "\<And>x t. grown s t \<Longrightarrow> good t (f x t)"
  shows "good s (r \<bind> case_prod f)"
proof (cases r)
  case (Some p)
  obtain x t where t: "r = Some (x, t)" using Some by (cases p) simp
  with assms have g: "grown s t" "good t (f x t)" by (simp_all add: good_def)
  moreover have "bufsize t = bufsize s" "length (buffer t) = length (buffer s)" using g(1) by (simp_all add: grown_def)
  ultimately show ?thesis by (auto simp: t good_def intro: grown_trans)
qed (use assms(1) in \<open>simp add: good_def\<close>)

lemma grown_fields [simp]: "grown s (s\<lparr>capslock_state := c\<rparr>)" "grown s (s\<lparr>numlock_state := c\<rparr>)" "grown s (s\<lparr>dead_key_next := c\<rparr>)"
  by (simp_all add: grown_def)

lemma good_fn: "f \<in> set fn_handler \<Longrightarrow> good s (f s)"
  by (auto simp: fn_handler_def fn_defs)

lemma good_k_fn [simp]: "good s (k_fn v up s)"
  by (simp add: k_fn_def split: option.split)

lemma good_k_cur: "v < 4 \<Longrightarrow> good s (k_cur v up s)"
  by (simp add: k_cur_def lookup_def cur_chars_def word_less_nat_alt)

lemma good_k_unicode [simp]: "good s (k_unicode v up s)"
  by (simp add: k_unicode_def)

lemma good_k_spec [simp]: "good s (k_spec v up s)"
  by (simp add: k_spec_def good_fn)

lemma good_k_pad: "v < 21 \<Longrightarrow> good s (k_pad v up s)"
  by (simp add: k_pad_def lookup_def app_map_def pad_chars_def word_less_nat_alt good_k_cur)

lemma good_k_meta [simp]: "good s (k_meta v up s)"
  by (auto simp: k_meta_def intro!: good_bind)

text \<open>The tables name handlers with values these handlers have an entry for.\<close>

definition symbol_ok :: "u16 \<Rightarrow> bool" where
  "symbol_ok k \<longleftrightarrow> (let t = (ucast (drop_bit 8 k) :: u8); v = (ucast k :: u8) in
     0xf0 \<le> t \<and> (t = 0xf3 \<longrightarrow> v < 21) \<and> (t = 0xf6 \<longrightarrow> v < 4))"

lemma maps_ok: "list_all symbol_ok plain_map" "list_all symbol_ok shift_map" "list_all symbol_ok ctrl_map"
  "list_all symbol_ok shift_ctrl_map" "list_all symbol_ok alt_map" "list_all symbol_ok ctrl_alt_map"
  by code_simp+

lemma keymap_ok: "n < 128 \<Longrightarrow> symbol_ok (keymap a b c ! n)"
  using maps_ok by (auto simp: keymap_def list_all_length plain_map_def shift_map_def ctrl_map_def shift_ctrl_map_def
    alt_map_def ctrl_alt_map_def)

lemma handler_good:
  assumes "n < 16" "n = 3 \<longrightarrow> v < 21" "n = 6 \<longrightarrow> v < 4"
  shows "good s ((k_handler ! n) v up s)"
proof -
  consider "n = 3" | "n = 6" | "n \<in> {0, 1, 2, 4, 5} \<union> {7..15}" using assms(1) by force
  then show ?thesis
  proof cases
    case 3
    then have "n \<in> {0, 1, 2, 4, 5, 7, 8, 9, 10, 11, 12, 13, 14, 15}" by auto
    then show ?thesis by (elim insertE emptyE) (simp_all add: k_handler_def k_self_def k_dead_def k_cons_def k_shift_def
      k_ascii_def k_lock_def k_lowercase_def k_slock_def k_dead2_def k_deadunicode_def k_brl_def k_ignore_def)
  qed (use assms in \<open>simp_all add: k_handler_def good_k_pad good_k_cur\<close>)
qed

lemma keycode_good: "good s (kbd_keycode e a b c up s)"
proof (cases "128 \<le> e")
  case False
  define k where "k = keymap ((capslock_state s > 0) \<noteq> a) b c ! unat e"
  define t where "t = (ucast (drop_bit 8 k) :: u8)"
  have "symbol_ok k" unfolding k_def using False by (intro keymap_ok) (simp add: word_less_nat_alt not_le)
  then have k: "\<not> t < 0xf0" "t = 0xf3 \<longrightarrow> (ucast k :: u8) < 21" "t = 0xf6 \<longrightarrow> (ucast k :: u8) < 4"
    by (simp_all add: symbol_ok_def Let_def t_def not_less)
  have "unat t < 2 ^ LENGTH(8)" by (rule unsigned_less)
  then have u: "unat (t - 0xf0) < 16" "unat (t - 0xf0) = 3 \<longrightarrow> t = 0xf3" "unat (t - 0xf0) = 6 \<longrightarrow> t = 0xf6"
    using k(1) by (auto simp: unat_sub_if_size word_less_nat_alt word_unat_eq_iff)
  then have "good s ((k_handler ! unat (t - 0xf0)) (ucast k) up s)" using k by (intro handler_good) auto
  then show ?thesis using False k(1) unfolding kbd_keycode_def Let_def k_def [symmetric] t_def [symmetric] by simp
qed (simp add: kbd_keycode_def)

lemma hid_key_grown:
  "bufsize s < length (buffer s) \<Longrightarrow> \<exists>t. hid_key r e up s = Some t" "hid_key r e up s = Some t \<Longrightarrow> grown s t"
  using keycode_good [of s] unfolding hid_key_def Let_def good_def by (auto, metis not_None_eq prod.collapse)

section \<open>What a report types\<close>

text \<open>The keys that a report shows pressed, the ones of them that the last report did not show, and the keys that are
  typed: these, or the last one again when nothing changed.\<close>

definition held :: "u8 list \<Rightarrow> u8 list" where
  "held r = filter (\<lambda>c. 0x04 \<le> c) (drop 2 r)"

definition fresh :: "u8 list \<Rightarrow> u8 list \<Rightarrow> u8 list" where
  "fresh r prev = filter (\<lambda>c. c \<notin> set (drop 2 prev)) (held r)"

definition typed :: "u8 list \<Rightarrow> u8 list \<Rightarrow> u8 list" where
  "typed r prev = (if drop 2 r = drop 2 prev then (if held r = [] then [] else [last (held r)]) else fresh r prev)"

primrec press_keys :: "u8 list \<Rightarrow> u8 list \<Rightarrow> kbd \<Rightarrow> kbd option" where
  "press_keys r [] s = Some s"
| "press_keys r (c # cs) s = do { s \<leftarrow> hid_key r (key_event c) False s; press_keys r cs s }"

lemma press_flagged: "press_keys r ks (process_keyboard_events s) = map_option process_keyboard_events (press_keys r ks s)"
proof (induction ks arbitrary: s)
  case (Cons k ks)
  show ?case by (cases "hid_key r (key_event k) False s") (simp_all add: hid_key_flagged Cons)
qed simp

lemma releases_flagged: "map_option process_keyboard_events (for_keys js (released_key r) s) = Some (process_keyboard_events s)"
proof (induction js arbitrary: s)
  case (Cons j js)
  have "map_option process_keyboard_events (released_key r j s) = Some (process_keyboard_events s)"
    using hid_key_up by (simp add: released_key_def Let_def)
  then obtain t where "released_key r j s = Some t" "process_keyboard_events t = process_keyboard_events s" by auto
  then show ?case using Cons [of t] by simp
qed simp

lemma hid_key_prev: "hid_key r e up s = Some t \<Longrightarrow> prev_hid_response t = prev_hid_response s"
  using hid_key_grown(2) by (simp add: grown_def)

lemma keys_of_report: "length r = 8 \<Longrightarrow> map ((!) r) [2..<8] = drop 2 r"
  by (rule nth_equalityI) (simp_all del: upt_rec_numeral upt_Suc)

lemma pressed_step:
  assumes "length (prev_hid_response s) = 8"
  shows "pressed_key r j (e, n, s) = map_option (\<lambda>t. (if 0x04 \<le> r ! j then key_event (r ! j) else e,
      if r ! j = prev_hid_response s ! j then n + 1 else n, t))
    (if 0x04 \<le> r ! j \<and> r ! j \<notin> set (drop 2 (prev_hid_response s)) then hid_key r (key_event (r ! j)) False s else Some s)"
proof -
  have d: "(\<forall>i \<in> set [2..<8]. prev_hid_response s ! i \<noteq> c) \<longleftrightarrow> c \<notin> set (drop 2 (prev_hid_response s))" for c
    unfolding keys_of_report [OF assms, symmetric] by auto
  show ?thesis unfolding pressed_key_def Let_def d split by (simp add: map_conv_bind_option comp_def)
qed

lemma pressed_loop:
  assumes "length (prev_hid_response s) = 8"
  shows "for_keys js (pressed_key r) (e, n, s) = map_option (\<lambda>t. (last (e # map key_event (filter (\<lambda>c. 0x04 \<le> c) (map ((!) r) js))),
      n + length (filter (\<lambda>j. r ! j = prev_hid_response s ! j) js), t))
    (press_keys r (filter (\<lambda>c. c \<notin> set (drop 2 (prev_hid_response s))) (filter (\<lambda>c. 0x04 \<le> c) (map ((!) r) js))) s)"
  using assms
proof (induction js arbitrary: e n s)
  case (Cons j js)
  show ?case
  proof (cases "0x04 \<le> r ! j \<and> r ! j \<notin> set (drop 2 (prev_hid_response s))")
    case True
    show ?thesis
    proof (cases "hid_key r (key_event (r ! j)) False s")
      case (Some t)
      have "prev_hid_response t = prev_hid_response s" by (rule hid_key_prev [OF Some])
      then show ?thesis using Cons.prems True Some
        by (cases "r ! j = prev_hid_response s ! j") (simp_all add: pressed_step Cons.IH option.map_comp comp_def)
    qed (use True Cons.prems in \<open>simp add: pressed_step\<close>)
  next
    case False
    then show ?thesis using Cons.prems
      by (cases "r ! j = prev_hid_response s ! j"; cases "0x04 \<le> r ! j") (auto simp: pressed_step Cons.IH)
  qed
qed simp

lemma hole: "map_option process_keyboard_events (hid_key r 0 False s) = Some (process_keyboard_events s)"
proof -
  have "keymap a b c ! 0 = 0xf200" for a b c
    by (simp add: keymap_def plain_map_def shift_map_def ctrl_map_def shift_ctrl_map_def alt_map_def ctrl_alt_map_def)
  moreover have "(k_handler ! 2) (ucast (0xf200 :: u16)) False s = Some (0, process_keyboard_events s)"
    by (simp add: k_handler_def k_spec_def fn_handler_def fn_null_def notified_def)
  ultimately show ?thesis by (simp add: hid_key_def kbd_keycode_def Let_def)
qed

lemma repeat_count:
  assumes "length r = 8" "length p = 8"
  shows "length (filter (\<lambda>j. r ! j = p ! j) [2..<8]) = 6 \<longleftrightarrow> drop 2 r = drop 2 p"
  unfolding keys_of_report [OF assms(1), symmetric] keys_of_report [OF assms(2), symmetric] by simp

lemma report_types:
  assumes "length r = 8" "length (prev_hid_response s) = 8" "\<not> (0 < r ! 2 \<and> r ! 2 < 0x04)"
  shows "map_option (\<lambda>(ret, t). (ret, process_keyboard_events t)) (kbd_hid_keycode r s) =
    map_option (\<lambda>t. (0, process_keyboard_events (t\<lparr>prev_hid_response := r\<rparr>))) (press_keys r (typed r (prev_hid_response s)) s)"
proof -
  obtain t where t: "for_keys [2..<8] (released_key r) s = Some t" "process_keyboard_events t = process_keyboard_events s"
    using releases_flagged [of "[2..<8]" r s] by auto
  have p: "prev_hid_response t = prev_hid_response s" using arg_cong [OF t(2), of prev_hid_response] by simp
  let ?new = "fresh r (prev_hid_response s)" and ?e = "last (0 # map key_event (held r))"
  have l: "for_keys [2..<8] (pressed_key r) (0, 0, t) = map_option (\<lambda>u. (?e,
      length (filter (\<lambda>j. r ! j = prev_hid_response s ! j) [2..<8]), u)) (press_keys r ?new t)"
    using pressed_loop [of t "[2..<8]" r 0 0] assms(2) unfolding p keys_of_report [OF assms(1)] held_def fresh_def by simp
  have same: "map_option process_keyboard_events (press_keys r ks t) = map_option process_keyboard_events (press_keys r ks s)" for ks
    using press_flagged [of r ks t] press_flagged [of r ks s] t(2) by simp
  let ?fin = "map_option (\<lambda>t. (0 :: int, process_keyboard_events (t\<lparr>prev_hid_response := r\<rparr>)))"
  have e: "?fin x = ?fin y" if "map_option process_keyboard_events x = map_option process_keyboard_events y" for x y
    using that by (cases x; cases y) (simp_all flip: flag_updates)
  let ?n = "length (filter (\<lambda>j. r ! j = prev_hid_response s ! j) [2..<8])"
  have k: "kbd_hid_keycode r s = press_keys r ?new t \<bind> (\<lambda>u. (if ?n = 6 then hid_key r ?e False u else Some u) \<bind>
      (\<lambda>u. Some (0, u\<lparr>prev_hid_response := r\<rparr>)))"
    using assms(3) unfolding kbd_hid_keycode_def t(1) l bind.bind_lunit by (cases "press_keys r ?new t") (auto simp del: upt_rec_numeral)
  have n: "?n = 6 \<longleftrightarrow> drop 2 r = drop 2 (prev_hid_response s)" by (rule repeat_count [OF assms(1,2)])
  show ?thesis
  proof (cases "drop 2 r = drop 2 (prev_hid_response s)")
    case True
    then have "?new = []" by (auto simp: fresh_def held_def filter_empty_conv)
    then have "map_option (\<lambda>(ret, t). (ret, process_keyboard_events t)) (kbd_hid_keycode r s) = ?fin (hid_key r ?e False t)"
      unfolding k using True n by (cases "hid_key r ?e False t") simp_all
    also have "\<dots> = ?fin (press_keys r (typed r (prev_hid_response s)) t)"
    proof (rule e)
      show "map_option process_keyboard_events (hid_key r ?e False t) =
          map_option process_keyboard_events (press_keys r (typed r (prev_hid_response s)) t)"
        using True hole by (simp add: typed_def last_map)
    qed
    also have "\<dots> = ?fin (press_keys r (typed r (prev_hid_response s)) s)" by (rule e [OF same])
    finally show ?thesis .
  next
    case False
    then have "map_option (\<lambda>(ret, t). (ret, process_keyboard_events t)) (kbd_hid_keycode r s) = ?fin (press_keys r ?new t)"
      unfolding k using n by (cases "press_keys r ?new t") simp_all
    also have "\<dots> = ?fin (press_keys r ?new s)" by (rule e [OF same])
    finally show ?thesis using False by (simp add: typed_def)
  qed
qed

text \<open>C17. A report of the keyboard types the keys it shows pressed and the last report did not, each once and in the
  order of the report; a report with the same keys types its last key again; the keys that are released type nothing.\<close>

theorem report_types_new_keys:
  assumes "length r = 8" "length (prev_hid_response s) = 8" "\<not> (0 < r ! 2 \<and> r ! 2 < 0x04)"
  shows "map_option (\<lambda>(ret, t). (ret, process_keyboard_events t)) (kbd_hid_keycode r s) =
    map_option (\<lambda>t. (0, process_keyboard_events (t\<lparr>prev_hid_response := r\<rparr>))) (press_keys r (typed r (prev_hid_response s)) s)"
  by (rule report_types [OF assms])

definition kbd_start :: kbd where
  "kbd_start = \<lparr>buffer = replicate 80 0, bufsize = 64, len = 0, capslock_state = 0, numlock_state = 0, dead_key_next = 0,
     applic_state = 0, prev_hid_response = replicate 8 0, events_console_poll = False\<rparr>"

theorem report_types_new_keys_witness:
  "map_option (\<lambda>(ret, t). (ret, process_keyboard_events t)) (kbd_hid_keycode [2, 0, 4, 5, 0, 0, 0, 0] kbd_start) =
    map_option (\<lambda>t. (0, process_keyboard_events (t\<lparr>prev_hid_response := [2, 0, 4, 5, 0, 0, 0, 0]\<rparr>)))
      (press_keys [2, 0, 4, 5, 0, 0, 0, 0] [4, 5] kbd_start)"
proof -
  have "typed [2, 0, 4, 5, 0, 0, 0, 0] (prev_hid_response kbd_start) = [4, 5]"
    by code_simp
  then show ?thesis using report_types_new_keys [of "[2, 0, 4, 5, 0, 0, 0, 0]" kbd_start]
    by (simp add: kbd_start_def)
qed

section \<open>Any sequence of reports\<close>

text \<open>What happens to the buffer: a report of the keyboard, and the console that takes the text out of it.\<close>

datatype kbd_event = Report "u8 list" | Taken

primrec kbd_step :: "kbd_event \<Rightarrow> kbd \<Rightarrow> kbd option" where
  "kbd_step (Report r) s = map_option snd (kbd_hid_keycode r s)"
| "kbd_step Taken s = Some (s\<lparr>len := 0, events_console_poll := False\<rparr>)"

primrec kbd_run :: "kbd_event list \<Rightarrow> kbd \<Rightarrow> kbd option" where
  "kbd_run [] s = Some s"
| "kbd_run (e # es) s = do { s \<leftarrow> kbd_step e s; kbd_run es s }"

lemma press_good: "bufsize s < length (buffer s) \<Longrightarrow> \<exists>t. press_keys r ks s = Some t \<and> grown s t"
proof (induction ks arbitrary: s)
  case (Cons k ks)
  obtain t where t: "hid_key r (key_event k) False s = Some t" "grown s t" using hid_key_grown Cons.prems by blast
  then have "bufsize t < length (buffer t)" using Cons.prems by (simp add: grown_def)
  then show ?case using Cons.IH t grown_trans by fastforce
qed simp

lemma report_grown:
  assumes "length r = 8" "length (prev_hid_response s) = 8" "bufsize s < length (buffer s)"
  obtains x t where "kbd_hid_keycode r s = Some (x, t)" "length (prev_hid_response t) = 8"
    "grown s (t\<lparr>prev_hid_response := prev_hid_response s\<rparr>)"
proof (cases "0 < r ! 2 \<and> r ! 2 < 0x04")
  case True
  then have "kbd_hid_keycode r s = Some (-1, s)" by (simp add: kbd_hid_keycode_def)
  then show ?thesis using that assms(2) by (metis (no_types, lifting) grown_refl kbd.surjective kbd.update_convs(8))
next
  case False
  obtain u where u: "press_keys r (typed r (prev_hid_response s)) s = Some u" "grown s u" using press_good [OF assms(3)] by blast
  obtain x t where t: "kbd_hid_keycode r s = Some (x, t)" "process_keyboard_events t = process_keyboard_events (u\<lparr>prev_hid_response := r\<rparr>)"
    using report_types [OF assms(1,2) False] u(1) by auto
  have "prev_hid_response t = r" "bufsize t = bufsize u" "buffer t = buffer u" "len t = len u"
    using arg_cong [OF t(2), of prev_hid_response] arg_cong [OF t(2), of bufsize] arg_cong [OF t(2), of buffer]
      arg_cong [OF t(2), of len] by (simp_all add: process_keyboard_events_def)
  then show ?thesis using that t(1) u(2) assms(1) by (simp add: grown_def)
qed

text \<open>C23. Whatever the keyboard sends and whenever the console takes the text, no report fails, the text never gets longer
  than the buffer, and no byte is written behind it but the one that follows it; and one more report never changes the text
  that waits there already.\<close>

theorem keyboard_run_safe:
  assumes "length (prev_hid_response s) = 8" "bufsize s < length (buffer s)" "len s \<le> bufsize s"
    "\<forall>r. Report r \<in> set es \<longrightarrow> length r = 8" "length r = 8"
  shows "\<exists>t x u. kbd_run es s = Some t \<and> len t \<le> bufsize s \<and> bufsize t = bufsize s \<and>
    length (buffer t) = length (buffer s) \<and> drop (bufsize s + 1) (buffer t) = drop (bufsize s + 1) (buffer s) \<and>
    kbd_hid_keycode r t = Some (x, u) \<and> len t \<le> len u \<and> take (len t) (buffer u) = take (len t) (buffer t)"
  using assms(1-4)
proof (induction es arbitrary: s)
  case Nil
  obtain x t where "kbd_hid_keycode r s = Some (x, t)" "grown s (t\<lparr>prev_hid_response := prev_hid_response s\<rparr>)"
    by (rule report_grown [OF assms(5) Nil(1,2)])
  then show ?case using Nil(3) by (auto simp: grown_def)
next
  case (Cons e es)
  have "\<exists>t. kbd_step e s = Some t \<and> length (prev_hid_response t) = 8 \<and> bufsize t = bufsize s \<and>
    length (buffer t) = length (buffer s) \<and> len t \<le> bufsize s \<and>
    drop (bufsize s + 1) (buffer t) = drop (bufsize s + 1) (buffer s)"
  proof (cases e)
    case (Report q)
    have "length q = 8" using Cons.prems(4) Report by simp
    then obtain x t where "kbd_hid_keycode q s = Some (x, t)" "length (prev_hid_response t) = 8"
      "grown s (t\<lparr>prev_hid_response := prev_hid_response s\<rparr>)" by (rule report_grown [OF _ Cons.prems(1,2)])
    then show ?thesis using Cons.prems(3) by (auto simp: Report grown_def)
  qed (use Cons.prems in simp)
  then obtain t where t: "kbd_step e s = Some t" "length (prev_hid_response t) = 8" "bufsize t = bufsize s"
    "length (buffer t) = length (buffer s)" "len t \<le> bufsize s" "drop (bufsize s + 1) (buffer t) = drop (bufsize s + 1) (buffer s)"
    by blast
  with Cons.prems Cons.IH [of t] show ?case by simp
qed

theorem keyboard_run_safe_witness:
  "\<exists>t x u. kbd_run [Report [0, 0, 4, 0, 0, 0, 0, 0], Taken] kbd_start = Some t \<and> len t \<le> 64 \<and> bufsize t = 64 \<and>
    length (buffer t) = 80 \<and> drop 65 (buffer t) = replicate 15 0 \<and>
    kbd_hid_keycode [0, 0, 5, 0, 0, 0, 0, 0] t = Some (x, u) \<and> len t \<le> len u \<and> take (len t) (buffer u) = take (len t) (buffer t)"
  using keyboard_run_safe [of kbd_start "[Report [0, 0, 4, 0, 0, 0, 0, 0], Taken]" "[0, 0, 5, 0, 0, 0, 0, 0]"]
  by (simp add: kbd_start_def del: kbd_run.simps)

section \<open>Typing text\<close>

definition text_of :: "kbd \<Rightarrow> u8 list" where
  "text_of s = take (len s) (buffer s)"

text \<open>The keys of an American keyboard for the visible characters: the code of the key and the modifiers of the report.\<close>

definition us_layout :: "(u8 \<times> u8) list" where
  "us_layout = [
    (44, 0), (30, 2), (52, 2), (32, 2), (33, 2), (34, 2), (36, 2), (52, 0), (38, 2), (39, 2), (37, 2), (46, 2),
    (54, 0), (45, 0), (55, 0), (56, 0), (39, 0), (30, 0), (31, 0), (32, 0), (33, 0), (34, 0), (35, 0), (36, 0),
    (37, 0), (38, 0), (51, 2), (51, 0), (54, 2), (46, 0), (55, 2), (56, 2), (31, 2), (4, 2), (5, 2), (6, 2),
    (7, 2), (8, 2), (9, 2), (10, 2), (11, 2), (12, 2), (13, 2), (14, 2), (15, 2), (16, 2), (17, 2), (18, 2),
    (19, 2), (20, 2), (21, 2), (22, 2), (23, 2), (24, 2), (25, 2), (26, 2), (27, 2), (28, 2), (29, 2), (47, 0),
    (49, 0), (48, 0), (35, 2), (45, 2), (53, 0), (4, 0), (5, 0), (6, 0), (7, 0), (8, 0), (9, 0), (10, 0),
    (11, 0), (12, 0), (13, 0), (14, 0), (15, 0), (16, 0), (17, 0), (18, 0), (19, 0), (20, 0), (21, 0), (22, 0),
    (23, 0), (24, 0), (25, 0), (26, 0), (27, 0), (28, 0), (29, 0), (47, 2), (49, 2), (48, 2), (53, 2)]"

definition one_key :: "u8 \<Rightarrow> u8 \<Rightarrow> u8 list" where
  "one_key m code = [m, 0, code, 0, 0, 0, 0, 0]"

definition no_keys :: "u8 list" where
  "no_keys = replicate 8 0"

lemma put_text:
  assumes "len s < bufsize s" "bufsize s < length (buffer s)"
  obtains t where "put_queue c s = Some (1, t)" "text_of t = text_of s @ [c]" "len t = len s + 1"
    "t = s\<lparr>buffer := buffer t, len := len t\<rparr>" "length (buffer t) = length (buffer s)"
proof -
  have "take (len s + 1) ((buffer s)[len s := c, len s + 1 := 0]) = take (len s) (buffer s) @ [c]"
    using assms by (simp add: take_Suc_conv_app_nth)
  with assms that show ?thesis by (simp add: put_queue_def put_buf_def text_of_def)
qed

text \<open>A key is pressed alone, and then it is released.\<close>

lemma report_one_key:
  assumes "length (prev_hid_response s) = 8" "drop 2 (prev_hid_response s) = replicate 6 0" "0x04 \<le> code"
    "hid_key (one_key m code) (key_event code) False s = Some t"
  obtains u where "kbd_hid_keycode (one_key m code) s = Some (0, u)"
    "process_keyboard_events u = process_keyboard_events (t\<lparr>prev_hid_response := one_key m code\<rparr>)"
proof -
  have c: "code \<noteq> 0" "\<not> code < 4" "\<not> (4 :: u8) \<le> 0" using assms(3) by auto
  moreover have "replicate 6 0 = [0, 0, 0, 0, 0, 0 :: u8]" by (simp add: eval_nat_numeral)
  ultimately have "typed (one_key m code) (prev_hid_response s) = [code]" using assms(2,3)
    by (simp add: typed_def fresh_def held_def one_key_def)
  then show ?thesis using that report_types [of "one_key m code" s] assms(1,4) c
    by (fastforce simp: one_key_def)
qed

lemma report_no_keys:
  assumes "length (prev_hid_response s) = 8"
  obtains u where "kbd_hid_keycode no_keys s = Some (0, u)"
    "process_keyboard_events u = process_keyboard_events (s\<lparr>prev_hid_response := no_keys\<rparr>)"
proof -
  have "held no_keys = []" by (simp add: held_def no_keys_def filter_empty_conv)
  then have "typed no_keys (prev_hid_response s) = []" by (simp add: typed_def fresh_def)
  then show ?thesis using that report_types [of no_keys s] assms by (fastforce simp: no_keys_def)
qed

text \<open>The symbol of a key under the modifiers of a report.\<close>

definition symbol_of :: "u8 \<Rightarrow> u8 \<Rightarrow> kbd \<Rightarrow> u16" where
  "symbol_of m code s = keymap ((capslock_state s > 0) \<noteq> (m AND 0x22 \<noteq> 0)) (m AND 0x11 \<noteq> 0) (m AND 0xcc \<noteq> 0) ! unat (key_event code)"

lemma hid_key_symbol:
  assumes "key_event code < 128" "(ucast (drop_bit 8 (symbol_of m code s)) :: u8) = 0xf0 + t" "t < 16"
  shows "hid_key (one_key m code) (key_event code) False s =
    map_option snd ((k_handler ! unat t) (ucast (symbol_of m code s)) False s)"
proof -
  have "\<not> 0xf0 + t < 0xf0" using assms(3) by (simp add: word_less_nat_alt unat_word_ariths)
  moreover have "\<not> 128 \<le> key_event code" using assms(1) by simp
  ultimately show ?thesis using assms(2) unfolding symbol_of_def
    by (simp add: hid_key_def kbd_keycode_def Let_def one_key_def)
qed

definition layout_ok :: "u8 \<Rightarrow> u8 \<times> u8 \<Rightarrow> bool" where
  "layout_ok c = (\<lambda>(code, m). 0x04 \<le> code \<and> key_event code < 128 \<and> m AND 0x11 = 0 \<and> m AND 0xcc = 0 \<and>
    (let k = keymap (m AND 0x22 \<noteq> 0) False False ! unat (key_event code) in
      (ucast k :: u8) = c \<and> ((ucast (drop_bit 8 k) :: u8) = 0xf0 \<or> (ucast (drop_bit 8 k) :: u8) = 0xfb)))"

lemma us_layout_ok: "list_all (\<lambda>(c, k). layout_ok c k) (zip (map word_of_nat [32..<127]) us_layout)" "length us_layout = 95"
  by code_simp+

lemma layout_nth: "0x20 \<le> c \<Longrightarrow> c < 0x7f \<Longrightarrow> layout_ok c (us_layout ! (unat c - 32))"
proof -
  assume c: "0x20 \<le> c" "c < 0x7f"
  then have u: "unat c - 32 < 95" "32 + (unat c - 32) = unat c" by (simp_all add: word_le_nat_alt word_less_nat_alt)
  then have "zip (map word_of_nat [32..<127]) us_layout ! (unat c - 32) = (c, us_layout ! (unat c - 32))"
    by (simp add: us_layout_ok(2) del: upt_rec_numeral)
  then show ?thesis using us_layout_ok u by (auto simp: list_all_length dest!: spec [of _ "unat c - 32"] simp del: upt_rec_numeral)
qed

text \<open>The keyboard at rest, without CapsLock and without a dead key; there is room in the buffer.\<close>

definition at_rest :: "nat \<Rightarrow> kbd \<Rightarrow> bool" where
  "at_rest room s \<longleftrightarrow> length (prev_hid_response s) = 8 \<and> drop 2 (prev_hid_response s) = replicate 6 0 \<and>
     capslock_state s = 0 \<and> dead_key_next s = 0 \<and> len s + room \<le> bufsize s \<and> bufsize s < length (buffer s)"

text \<open>One key alone that puts one byte, and its release.\<close>

lemma key_put:
  assumes "at_rest (Suc room) s" "0x04 \<le> code"
    "map_option process_keyboard_events (hid_key (one_key m code) (key_event code) False s) = flagged (put_queue c s) \<bind> (\<lambda>(x, t). Some t)"
  obtains t where "kbd_run [Report (one_key m code), Report no_keys] s = Some t" "at_rest room t" "text_of t = text_of s @ [c]"
proof -
  have s: "length (prev_hid_response s) = 8" "drop 2 (prev_hid_response s) = replicate 6 0" "len s < bufsize s"
    "bufsize s < length (buffer s)" using assms(1) by (simp_all add: at_rest_def)
  obtain p where p: "put_queue c s = Some (1, p)" "text_of p = text_of s @ [c]" "len p = len s + 1"
    "p = s\<lparr>buffer := buffer p, len := len p\<rparr>" "length (buffer p) = length (buffer s)" using put_text [OF s(3,4)] by blast
  obtain h where h: "hid_key (one_key m code) (key_event code) False s = Some h" "process_keyboard_events h = process_keyboard_events p"
    using assms(3) p(1) by auto
  obtain u where u: "kbd_hid_keycode (one_key m code) s = Some (0, u)"
    "process_keyboard_events u = process_keyboard_events (h\<lparr>prev_hid_response := one_key m code\<rparr>)"
    by (rule report_one_key [OF s(1,2) assms(2) h(1)])
  have l: "length (prev_hid_response u) = 8" using arg_cong [OF u(2), of prev_hid_response] by (simp add: one_key_def)
  obtain v where v: "kbd_hid_keycode no_keys u = Some (0, v)"
    "process_keyboard_events v = process_keyboard_events (u\<lparr>prev_hid_response := no_keys\<rparr>)"
    by (rule report_no_keys [OF l])
  have "process_keyboard_events v = process_keyboard_events (p\<lparr>prev_hid_response := no_keys\<rparr>)"
    using v(2) u(2) h(2) by (metis (no_types, lifting) flag_updates(4) kbd.update_convs(8) kbd.surjective)
  note f = arg_cong [OF this]
  have "text_of v = text_of p" "len v = len p" "bufsize v = bufsize p" "length (buffer v) = length (buffer p)"
    "prev_hid_response v = no_keys" "capslock_state v = capslock_state p" "dead_key_next v = dead_key_next p"
    using f [of text_of] f [of len] f [of bufsize] f [of buffer] f [of prev_hid_response] f [of capslock_state] f [of dead_key_next]
    by (simp_all add: process_keyboard_events_def text_of_def)
  moreover have "capslock_state p = capslock_state s" "dead_key_next p = dead_key_next s" "bufsize p = bufsize s"
    using arg_cong [OF p(4), of capslock_state] arg_cong [OF p(4), of dead_key_next] arg_cong [OF p(4), of bufsize] by simp_all
  ultimately have "at_rest room v" "text_of v = text_of s @ [c]" using assms(1) p(2,3,5)
    by (simp_all add: at_rest_def no_keys_def)
  then show ?thesis using that u(1) v(1) by simp
qed

lemma symbol_byte [simp]: "(ucast (ucast c :: u16) :: u8) = c"
  by (rule bit_eqI) (auto simp: bit_simps)

lemma type_char:
  assumes "at_rest (Suc room) s" "0x20 \<le> c" "c < 0x7f" "us_layout ! (unat c - 32) = (code, m)"
  obtains t where "kbd_run [Report (one_key m code), Report no_keys] s = Some t" "at_rest room t" "text_of t = text_of s @ [c]"
proof -
  have s: "capslock_state s = 0" "dead_key_next s = 0" using assms(1) by (simp_all add: at_rest_def)
  have l: "layout_ok c (code, m)" using layout_nth [OF assms(2,3)] assms(4) by simp
  define k where "k = symbol_of m code s"
  have k: "0x04 \<le> code" "key_event code < 128" "(ucast k :: u8) = c"
    "(ucast (drop_bit 8 k) :: u8) = 0xf0 + 0 \<or> (ucast (drop_bit 8 k) :: u8) = 0xf0 + 0x0b"
    using l s(1) by (simp_all add: layout_ok_def k_def symbol_of_def Let_def)
  have "(k_handler ! unat t) c False s = notified (put_queue c s)" if "t = 0 \<or> t = (0x0b :: u8)" for t
    using that s(2) by (auto simp: k_handler_def k_self_def k_unicode_def k_lowercase_def)
  then have "hid_key (one_key m code) (key_event code) False s = map_option snd (notified (put_queue c s))"
    using k(3,4) hid_key_symbol [OF k(2), of m s 0] hid_key_symbol [OF k(2), of m s "0x0b"] unfolding k_def by fastforce
  then have "map_option process_keyboard_events (hid_key (one_key m code) (key_event code) False s) =
      flagged (put_queue c s) \<bind> (\<lambda>(x, t). Some t)"
    by (cases "put_queue c s") (auto simp: notified_flagged)
  then show ?thesis using key_put [OF assms(1) k(1)] that by blast
qed

lemma type_enter:
  assumes "at_rest (Suc room) s"
  obtains t where "kbd_run [Report (one_key 0 0x28), Report no_keys] s = Some t" "at_rest room t" "text_of t = text_of s @ [0x0d]"
proof -
  have e: "key_event 0x28 = 28" by (simp add: key_event_def hid_keycode_to_linux_event_def)
  have "symbol_of 0 0x28 s = 0xf201" using assms
    by (simp add: symbol_of_def keymap_def plain_map_def e at_rest_def)
  then have "hid_key (one_key 0 0x28) (key_event 0x28) False s = map_option snd (notified (put_queue 0x0d s))"
    using hid_key_symbol [of "0x28" 0 s 2] by (simp add: e k_handler_def k_spec_def fn_handler_def fn_enter_def)
  then have "map_option process_keyboard_events (hid_key (one_key 0 0x28) (key_event 0x28) False s) =
      flagged (put_queue 0x0d s) \<bind> (\<lambda>(x, t). Some t)"
    by (cases "put_queue 0x0d s") (auto simp: notified_flagged)
  from key_put [OF assms _ this] that show ?thesis by force
qed

text \<open>The reports of a typed line: for each character its key and the release, at last the Enter key.\<close>

definition keys_for :: "u8 \<Rightarrow> kbd_event list" where
  "keys_for c = (case us_layout ! (unat c - 32) of (code, m) \<Rightarrow> [Report (one_key m code), Report no_keys])"

definition line_keys :: "u8 list \<Rightarrow> kbd_event list" where
  "line_keys w = concat (map keys_for w) @ [Report (one_key 0 0x28), Report no_keys]"

lemma kbd_run_append: "kbd_run (xs @ ys) s = kbd_run xs s \<bind> kbd_run ys"
  by (induction xs arbitrary: s) (simp_all add: Option.bind_assoc)

lemma type_text:
  assumes "at_rest (length w + room) s" "\<forall>c \<in> set w. 0x20 \<le> c \<and> c < 0x7f"
  obtains t where "kbd_run (concat (map keys_for w)) s = Some t" "at_rest room t" "text_of t = text_of s @ w"
  using assms
proof (induction w arbitrary: s thesis)
  case (Cons c w)
  obtain code m where k: "us_layout ! (unat c - 32) = (code, m)" by (cases "us_layout ! (unat c - 32)")
  have c: "0x20 \<le> c" "c < 0x7f" "at_rest (Suc (length w + room)) s" using Cons.prems(2,3) by simp_all
  obtain t where t: "kbd_run [Report (one_key m code), Report no_keys] s = Some t" "at_rest (length w + room) t"
    "text_of t = text_of s @ [c]" by (rule type_char [OF c(3,1,2) k])
  obtain u where u: "kbd_run (concat (map keys_for w)) t = Some u" "at_rest room u" "text_of u = text_of t @ w"
    using Cons.IH [OF _ t(2)] Cons.prems(3) by auto
  have "kbd_run (concat (map keys_for (c # w))) s = Some u"
    using t(1) u(1) by (simp only: list.map concat.simps kbd_run_append keys_for_def k split bind.bind_lunit)
  then show ?case using Cons.prems(1) u(2,3) t(3) by simp
qed simp

lemma type_line:
  assumes "at_rest (length w + 1) s" "\<forall>c \<in> set w. 0x20 \<le> c \<and> c < 0x7f"
  obtains t where "kbd_run (line_keys w) s = Some t" "at_rest 0 t" "text_of t = text_of s @ w @ [0x0d]"
proof -
  obtain t where t: "kbd_run (concat (map keys_for w)) s = Some t" "at_rest (Suc 0) t" "text_of t = text_of s @ w"
    using type_text [of w "Suc 0"] assms by auto
  obtain u where u: "kbd_run [Report (one_key 0 0x28), Report no_keys] t = Some u" "at_rest 0 u" "text_of u = text_of t @ [0x0d]"
    by (rule type_enter [OF t(2)])
  then show ?thesis using that t(1,3) by (simp only: line_keys_def kbd_run_append bind.bind_lunit append_assoc)
qed

section \<open>Letters with modifiers\<close>

definition letter_symbol :: "nat \<Rightarrow> bool \<Rightarrow> bool \<Rightarrow> bool \<Rightarrow> u16" where
  "letter_symbol i shift ctrl alt =
    (if ctrl \<and> alt \<and> \<not> shift then 0xf801 else if ctrl then 0xf001 else if alt then 0xf861 else if shift then 0xfb41 else 0xfb61)
      + word_of_nat i"

definition letter_text :: "nat \<Rightarrow> bool \<Rightarrow> bool \<Rightarrow> bool \<Rightarrow> u8 list" where
  "letter_text i shift ctrl alt =
    (if alt \<and> (ctrl \<longrightarrow> \<not> shift) then [0x1b] else []) @
    [(if ctrl then 0x01 else if alt \<or> \<not> shift then 0x61 else 0x41) + word_of_nat i]"

lemma letter_symbols:
  "list_all (\<lambda>i. key_event (0x04 + word_of_nat i) < 128 \<and> list_all (\<lambda>(a, b, c).
    keymap a b c ! unat (key_event (0x04 + word_of_nat i)) = letter_symbol i a b c)
    (List.product [False, True] (List.product [False, True] [False, True]))) [0..<26]"
  by code_simp

lemma letter_symbol:
  assumes "i < 26"
  shows "key_event (0x04 + word_of_nat i) < 128" "keymap a b c ! unat (key_event (0x04 + word_of_nat i)) = letter_symbol i a b c"
  using letter_symbols assms by (cases a; cases b; cases c; simp add: list_all_iff del: upt_rec_numeral)+

lemma letter_bytes:
  "list_all (\<lambda>i. list_all (\<lambda>(a, b, c). (let k = letter_symbol i a b c in
    (ucast (drop_bit 8 k) :: u8) = 0xf0 + (if b \<and> c \<and> \<not> a \<or> c \<and> \<not> b then 8 else if b then 0 else 11) \<and>
    (ucast k :: u8) = last (letter_text i a b c)))
    (List.product [False, True] (List.product [False, True] [False, True]))) [0..<26]"
  by code_simp

lemma letter_byte:
  assumes "i < 26"
  shows "(ucast (drop_bit 8 (letter_symbol i a b c)) :: u8) = 0xf0 + (if c \<and> (b \<longrightarrow> \<not> a) then 8 else if b then 0 else 11)"
    "(ucast (letter_symbol i a b c) :: u8) = last (letter_text i a b c)"
  using letter_bytes assms by (cases a; cases b; cases c; simp add: list_all_iff Let_def del: upt_rec_numeral)+

lemma letter_handler:
  assumes "dead_key_next s = 0" "len s + 2 \<le> bufsize s" "bufsize s < length (buffer s)"
  obtains x t where "(k_handler ! unat (if c \<and> (b \<longrightarrow> \<not> a) then 8 else if b then 0 else 11 :: u8)) (last (letter_text i a b c)) False s = Some (x, t)"
    "text_of t = text_of s @ letter_text i a b c"
proof (cases "c \<and> (b \<longrightarrow> \<not> a)")
  case True
  let ?v = "last (letter_text i a b c)"
  have l: "letter_text i a b c = [0x1b, ?v]" using True by (simp add: letter_text_def)
  obtain p where p: "put_queue 0x1b s = Some (1, p)" "text_of p = text_of s @ [0x1b]" "len p = len s + 1"
    "p = s\<lparr>buffer := buffer p, len := len p\<rparr>" "length (buffer p) = length (buffer s)"
    by (rule put_text [of s "0x1b"]) (use assms in auto)
  have b: "bufsize p = bufsize s" using arg_cong [OF p(4), of bufsize] by simp
  obtain q where q: "put_queue ?v p = Some (1, q)" "text_of q = text_of p @ [?v]"
    by (rule put_text [of p ?v]) (use assms b p(3,5) in auto)
  have "(k_handler ! unat (8 :: u8)) ?v False s = Some (2, q)" using p(1) q(1) by (simp add: k_handler_def k_meta_def)
  moreover have "text_of q = text_of s @ letter_text i a b c" using p(2) q(2) l by simp
  ultimately show ?thesis using that True by simp
next
  case False
  define v where "v = last (letter_text i a b c)"
  have l: "letter_text i a b c = [v]" using False by (auto simp: v_def letter_text_def)
  obtain p where p: "put_queue v s = Some (1, p)" "text_of p = text_of s @ [v]"
    by (rule put_text [of s v]) (use assms in auto)
  have "(k_handler ! unat (if b then 0 else 11 :: u8)) v False s = Some (1, process_keyboard_events p)"
    using p(1) assms(1) by (simp add: k_handler_def k_self_def k_unicode_def k_lowercase_def notified_flagged)
  moreover have "text_of (process_keyboard_events p) = text_of s @ letter_text i a b c"
    using p(2) l by (simp add: text_of_def process_keyboard_events_def)
  ultimately show ?thesis using that False by (auto simp: v_def)
qed

text \<open>C31. A letter key pressed alone puts the letter, a capital one when exactly one of shift and CapsLock is on; with
  control it puts the control character, and with alt an escape character goes before it.\<close>

theorem letters_typed:
  assumes "i < 26" "length (prev_hid_response s) = 8" "drop 2 (prev_hid_response s) = replicate 6 0"
    "dead_key_next s = 0" "len s + 2 \<le> bufsize s" "bufsize s < length (buffer s)"
  shows "\<exists>t. kbd_hid_keycode (one_key m (0x04 + word_of_nat i)) s = Some (0, t) \<and> text_of t = text_of s @
    letter_text i ((capslock_state s > 0) \<noteq> (m AND 0x22 \<noteq> 0)) (m AND 0x11 \<noteq> 0) (m AND 0xcc \<noteq> 0)"
proof -
  let ?a = "(capslock_state s > 0) \<noteq> (m AND 0x22 \<noteq> 0)" and ?b = "m AND 0x11 \<noteq> 0" and ?c = "m AND 0xcc \<noteq> 0"
  let ?code = "0x04 + word_of_nat i :: u8" and ?t = "if ?c \<and> (?b \<longrightarrow> \<not> ?a) then 8 else if ?b then 0 else 11 :: u8"
  have k: "symbol_of m ?code s = letter_symbol i ?a ?b ?c" unfolding symbol_of_def by (rule letter_symbol(2) [OF assms(1)])
  obtain x t where t: "(k_handler ! unat ?t) (last (letter_text i ?a ?b ?c)) False s = Some (x, t)"
    "text_of t = text_of s @ letter_text i ?a ?b ?c" by (rule letter_handler [OF assms(4-6)])
  have "hid_key (one_key m ?code) (key_event ?code) False s = map_option snd
      ((k_handler ! unat ?t) (ucast (symbol_of m ?code s)) False s)"
    by (rule hid_key_symbol) (simp_all only: k letter_byte(1) letter_symbol(1) assms(1), simp)
  then have h: "hid_key (one_key m ?code) (key_event ?code) False s = Some t"
    unfolding k letter_byte(2) [OF assms(1)] t(1) by simp
  have "0x04 \<le> ?code" using assms(1) by (simp add: word_le_nat_alt unat_word_ariths unsigned_of_nat take_bit_nat_eq_self)
  then obtain u where u: "kbd_hid_keycode (one_key m ?code) s = Some (0, u)"
    "process_keyboard_events u = process_keyboard_events (t\<lparr>prev_hid_response := one_key m ?code\<rparr>)"
    by (rule report_one_key [OF assms(2,3) _ h])
  have "text_of u = text_of t" using arg_cong [OF u(2), of text_of] by (simp add: text_of_def process_keyboard_events_def)
  then show ?thesis using u(1) t(2) by simp
qed

theorem letters_typed_witness:
  "\<exists>t. kbd_hid_keycode (one_key 0x02 (0x04 + word_of_nat 2)) kbd_start = Some (0, t) \<and> text_of t = [0x43]"
  using letters_typed [of 2 kbd_start "0x02"] by (simp add: kbd_start_def text_of_def letter_text_def eval_nat_numeral)

text \<open>The byte behind a full buffer is set to zero.\<close>

theorem put_queue_clears_behind:
  assumes "len s + 1 = bufsize s" "bufsize s < length (buffer s)"
  shows "\<exists>t. put_queue c s = Some (1, t) \<and> buffer t ! bufsize s = 0"
  using assms by (simp add: put_queue_def put_buf_def)

text \<open>Keys of the keyboard that the table does not know type the letter o.\<close>

theorem unknown_key_types_o:
  "list_all (\<lambda>code. map_option (apsnd text_of) (kbd_hid_keycode (one_key 0 code) kbd_start) = Some (0, [0x6f]))
    [0x82, 0x95, 0xa5, 0xff]"
  by code_simp

text \<open>The text of a letter with alt waits until another key tells the console about it.\<close>

theorem alt_letter_not_polled:
  "map_option (\<lambda>(x, t). (text_of t, events_console_poll t)) (kbd_hid_keycode (one_key 0x04 0x04) kbd_start) = Some ([0x1b, 0x61], False)"
  by code_simp

end
