(* ===== verification/Cli.thy ===== *)
theory Cli
  imports KPrelude "HOL-Library.Monad_Syntax"
begin

text \<open>
  The console of the monitor (cli.c, cli.h): the line editor with its history
  (\<open>cli_process_input\<close>, \<open>cli_history_push\<close>, \<open>cli_history_popup\<close>, \<open>cli_history_popdown\<close>), the
  receive buffer in front of it (\<open>console_rx\<close>, \<open>console_poll\<close>) and the search for the command
  (\<open>cli_process_command\<close>).

  \<^item> A write outside the rows of \<open>cli_history\<close> or a string without an end is \<^term>\<open>None\<close>.
  \<^item> What is printed, and the call of a command, are events in the order of the code.
\<close>

section \<open>State\<close>

abbreviation (input) CLI_BUF_SIZE :: nat where "CLI_BUF_SIZE \<equiv> 64"
abbreviation (input) CLI_HISTORY_SIZE :: nat where "CLI_HISTORY_SIZE \<equiv> 5"
abbreviation (input) CONSOLE_RX_BUF_SIZE :: nat where "CONSOLE_RX_BUF_SIZE \<equiv> 64"
abbreviation (input) ARGN_MAX :: nat where "ARGN_MAX \<equiv> 8"

text \<open>\<open>cli_buf\<close> always points to the row \<open>cli_history_idx\<close>.\<close>

record cli =
  cli_history :: "u8 list list"
  cli_history_idx :: nat
  cli_buf_len :: nat
  esc_flag :: nat

datatype console_event = Bell | Rubout | Erase_line | Clear_screen | Prompt "u8 list" | Command "u8 list"

definition cli_init :: cli where
  "cli_init = \<lparr>cli_history = replicate CLI_HISTORY_SIZE (replicate (CLI_BUF_SIZE + 1) 0), cli_history_idx = 0,
     cli_buf_len = 0, esc_flag = 0\<rparr>"

definition cli_buf :: "cli \<Rightarrow> u8 list" where
  "cli_buf s = cli_history s ! cli_history_idx s"

definition put_cli :: "nat \<Rightarrow> u8 \<Rightarrow> cli \<Rightarrow> cli option" where
  "put_cli n c s = (if n < length (cli_buf s)
     then Some (s\<lparr>cli_history := (cli_history s)[cli_history_idx s := (cli_buf s)[n := c]]\<rparr>) else None)"

definition c_string :: "u8 list \<Rightarrow> u8 list option" where
  "c_string xs = (if 0 \<in> set xs then Some (takeWhile (\<lambda>c. c \<noteq> 0) xs) else None)"

section \<open>History\<close>

definition cli_history_push :: "cli \<Rightarrow> cli option" where
  "cli_history_push s =
    put_cli 0 0 (s\<lparr>cli_history_idx := (cli_history_idx s + 1) mod CLI_HISTORY_SIZE, cli_buf_len := 0\<rparr>)"

definition cli_history_select :: "nat \<Rightarrow> cli \<Rightarrow> cli option" where
  "cli_history_select i s = (let s = s\<lparr>cli_history_idx := i\<rparr> in do {
     line \<leftarrow> c_string (cli_buf s);
     Some (s\<lparr>cli_buf_len := length line\<rparr>)
   })"

definition cli_history_popup :: "cli \<Rightarrow> cli option" where
  "cli_history_popup s =
    cli_history_select (if cli_history_idx s = 0 then CLI_HISTORY_SIZE - 1 else cli_history_idx s - 1) s"

definition cli_history_popdown :: "cli \<Rightarrow> cli option" where
  "cli_history_popdown s = cli_history_select ((cli_history_idx s + 1) mod CLI_HISTORY_SIZE) s"

section \<open>Keys\<close>

text \<open>One byte of the input. The flag tells that the rest of the input is skipped
  (\<open>goto cli_process_input_end\<close>).\<close>

definition cli_key :: "u8 \<Rightarrow> cli \<Rightarrow> (console_event list \<times> bool \<times> cli) option" where
  "cli_key c s =
    (if esc_flag s = 1 then Some ([], False, s\<lparr>esc_flag := (if c = 0x5b then 2 else 0)\<rparr>)
     else if esc_flag s = 2 then (let s = s\<lparr>esc_flag := 0\<rparr> in
       if c = 0x41 then do { s \<leftarrow> cli_history_popup s; Some ([Erase_line], True, s) }
       else if c = 0x42 then do { s \<leftarrow> cli_history_popdown s; Some ([Erase_line], True, s) }
       else Some ([], False, s))
     else if c = 0x07 then Some ([Bell], False, s)
     else if c = 0x08 then
       (if cli_buf_len s = 0 then Some ([], False, s)
        else do {
          s \<leftarrow> put_cli (cli_buf_len s - 1) 0 (s\<lparr>cli_buf_len := cli_buf_len s - 1\<rparr>);
          Some ([Rubout], False, s)
        })
     else if c = 0x0a \<or> c = 0x0d then
       (if cli_buf_len s = 0 then do { s \<leftarrow> cli_history_popup s; Some ([Erase_line], True, s) }
        else do {
          s \<leftarrow> put_cli (cli_buf_len s) 0 s;
          line \<leftarrow> (if cli_buf_len s + 1 \<le> 65 then Some (take (cli_buf_len s) (cli_buf s)) else None);
          s \<leftarrow> cli_history_push s;
          Some ([Command line], False, s)
        })
     else if c = 0x1b then Some ([], False, s\<lparr>esc_flag := 1\<rparr>)
     else if c = 0x15 then Some ([Erase_line], False, s\<lparr>cli_buf_len := 0\<rparr>)
     else if c = 0x0c then Some ([Clear_screen], False, s\<lparr>cli_buf_len := 0\<rparr>)
     else if CLI_BUF_SIZE \<le> cli_buf_len s then Some ([], False, s)
     else if 0x20 \<le> c \<and> c < 0x7f then do {
       s \<leftarrow> put_cli (cli_buf_len s) c s;
       Some ([], False, s\<lparr>cli_buf_len := cli_buf_len s + 1\<rparr>)
     }
     else Some ([], False, s))"

primrec cli_keys :: "u8 list \<Rightarrow> cli \<Rightarrow> (console_event list \<times> cli) option" where
  "cli_keys [] s = Some ([], s)"
| "cli_keys (c # cs) s = do {
     (ev, stop, s) \<leftarrow> cli_key c s;
     if stop then Some (ev, s)
     else do { (evs, s) \<leftarrow> cli_keys cs s; Some (ev @ evs, s) }
   }"

definition cli_process_input :: "u8 list \<Rightarrow> cli \<Rightarrow> (console_event list \<times> cli) option" where
  "cli_process_input buf s =
    (if buf = [] then Some ([], s)
     else do {
       (evs, s) \<leftarrow> cli_keys buf s;
       s \<leftarrow> put_cli (cli_buf_len s) 0 s;
       line \<leftarrow> c_string (cli_buf s);
       Some (evs @ [Prompt line], s)
     })"

section \<open>The receive buffer\<close>

text \<open>The interrupt handler takes the bytes waiting in the UART; the number is that of the lost ones.\<close>

primrec console_rx :: "u8 list \<Rightarrow> u8 list \<Rightarrow> nat \<Rightarrow> u8 list \<times> nat" where
  "console_rx [] console_rx_buf overflow = (console_rx_buf, overflow)"
| "console_rx (c # cs) console_rx_buf overflow =
    (if CONSOLE_RX_BUF_SIZE \<le> length console_rx_buf then console_rx cs console_rx_buf (overflow + 1)
     else console_rx cs (console_rx_buf @ [c]) overflow)"

definition console_poll :: "u8 list \<Rightarrow> cli \<Rightarrow> (console_event list \<times> u8 list \<times> cli) option" where
  "console_poll console_rx_buf s =
    (if console_rx_buf = [] then Some ([], [], s)
     else do {
       (evs, s) \<leftarrow> cli_process_input (take CONSOLE_RX_BUF_SIZE console_rx_buf) s;
       Some (evs, [], s)
     })"

section \<open>Commands\<close>

definition command_list :: "string list" where
  "command_list = [''help'', ''?'', ''stat'', ''usb'', ''cga'', ''rb'', ''rd'', ''wb'', ''wd'', ''addr'', ''call'',
     ''copy'', ''dump'', ''type'', ''ihex'', ''ohex'', ''crc'', ''sd'', ''fat'', ''rz'', ''reg'', ''nor'', ''env'']"

text \<open>\<open>strnstr\<close> of the C library: the second string is found in the first one, of at most \<open>n\<close>
  characters.\<close>

primrec prefix_of :: "string \<Rightarrow> string \<Rightarrow> bool" where
  "prefix_of [] ys = True"
| "prefix_of (x # xs) ys = (case ys of [] \<Rightarrow> False | y # ys \<Rightarrow> x = y \<and> prefix_of xs ys)"

primrec found_in :: "string \<Rightarrow> string \<Rightarrow> bool" where
  "found_in w [] = (w = [])"
| "found_in w (y # ys) = (prefix_of w (y # ys) \<or> found_in w ys)"

definition strnstr :: "string \<Rightarrow> string \<Rightarrow> nat \<Rightarrow> bool" where
  "strnstr big little n = found_in little (take n big)"

text \<open>\<open>strtok\<close> with the separators blank and tabulator.\<close>

definition cmdsep :: "char \<Rightarrow> bool" where
  "cmdsep c \<longleftrightarrow> c = CHR '' '' \<or> c = CHR 0x09"

function tokens :: "string \<Rightarrow> string list" where
  "tokens xs = (case dropWhile cmdsep xs of [] \<Rightarrow> []
     | y # ys \<Rightarrow> takeWhile (\<lambda>c. \<not> cmdsep c) (y # ys) # tokens (dropWhile (\<lambda>c. \<not> cmdsep c) (y # ys)))"
  by auto
termination
proof (relation "measure length")
  fix xs y ys assume e: "dropWhile cmdsep xs = y # ys"
  then have "\<not> cmdsep y" by (metis hd_dropWhile list.discI list.sel(1))
  then have "length (dropWhile (\<lambda>c. \<not> cmdsep c) (y # ys)) \<le> length ys" by (simp add: length_dropWhile_le)
  moreover have "length (y # ys) \<le> length xs" using e by (metis length_dropWhile_le)
  ultimately show "(dropWhile (\<lambda>c. \<not> cmdsep c) (y # ys), xs) \<in> measure length" by simp
qed simp

definition to_lower :: "char \<Rightarrow> char" where
  "to_lower c = (let n = of_char c :: nat in if 65 \<le> n \<and> n \<le> 90 then char_of (n + 32) else c)"

text \<open>The first command the name is found in.\<close>

primrec find_command :: "nat \<Rightarrow> string list \<Rightarrow> string \<Rightarrow> nat option" where
  "find_command i [] w = None"
| "find_command i (c # cs) w = (if strnstr c w 4 then Some i else find_command (i + 1) cs w)"

text \<open>The command that is run and its arguments; \<^term>\<open>Inl w\<close> is the message about an unknown one.\<close>

definition cli_process_command :: "string \<Rightarrow> (string + nat \<times> string list) option" where
  "cli_process_command cmdline =
    (case take ARGN_MAX (tokens cmdline) of [] \<Rightarrow> None
     | w # args \<Rightarrow> (let w = map to_lower w in
         case find_command 0 command_list w of Some i \<Rightarrow> Some (Inr (i, w # args)) | None \<Rightarrow> Some (Inl w)))"

section \<open>The invariant of the editor\<close>

definition visible :: "u8 \<Rightarrow> bool" where
  "visible c \<longleftrightarrow> 0x20 \<le> c \<and> c < 0x7f"

definition line_of :: "cli \<Rightarrow> u8 list" where
  "line_of s = take (cli_buf_len s) (cli_buf s)"

definition row_ok :: "u8 list \<Rightarrow> bool" where
  "row_ok row \<longleftrightarrow> length row = 65 \<and> row ! 64 = 0 \<and> (\<forall>c \<in> set row. c = 0 \<or> visible c)"

definition cli_inv :: "cli \<Rightarrow> bool" where
  "cli_inv s \<longleftrightarrow> length (cli_history s) = 5 \<and> (\<forall>row \<in> set (cli_history s). row_ok row) \<and>
     cli_history_idx s < 5 \<and> cli_buf_len s \<le> 64 \<and> esc_flag s \<le> 2 \<and> 0 \<notin> set (line_of s)"

lemma visible_zero [simp]: "\<not> visible 0"
  by (simp add: visible_def)

lemma cli_inv_row: "cli_inv s \<Longrightarrow> row_ok (cli_buf s)"
  unfolding cli_inv_def cli_buf_def by simp

lemma cli_inv_init: "cli_inv cli_init"
  by (simp add: cli_inv_def cli_init_def row_ok_def line_of_def)

lemma row_ok_update:
  "row_ok row \<Longrightarrow> n < 65 \<Longrightarrow> c = 0 \<or> visible c \<and> n < 64 \<Longrightarrow> row_ok (row[n := c])"
  unfolding row_ok_def using set_update_subset_insert [of row n c] by (auto simp: nth_list_update)

text \<open>Writing a byte of the line; \<open>t\<close> is the state with the fields that change as well.\<close>

lemma put_cli_ok:
  assumes "cli_inv s" "n < 65" "c = 0 \<or> visible c \<and> n < 64"
  shows "put_cli n c s = Some (s\<lparr>cli_history := (cli_history s)[cli_history_idx s := (cli_buf s)[n := c]]\<rparr>)"
    "row_ok ((cli_buf s)[n := c])"
  using cli_inv_row [OF assms(1)] row_ok_update [OF cli_inv_row [OF assms(1)] assms(2,3)] assms(2)
  by (simp_all add: put_cli_def row_ok_def)

lemma cli_buf_update:
  "cli_inv s \<Longrightarrow> cli_buf (s\<lparr>cli_history := (cli_history s)[cli_history_idx s := row]\<rparr>) = row"
  by (simp add: cli_buf_def cli_inv_def)

text \<open>The state with a new row and a new length of the line.\<close>

lemma cli_inv_update:
  assumes "cli_inv s" "row_ok row" "l \<le> 64" "0 \<notin> set (take l row)"
  shows "cli_inv (s\<lparr>cli_history := (cli_history s)[cli_history_idx s := row], cli_buf_len := l\<rparr>)"
  using assms set_update_subset_insert [of "cli_history s" "cli_history_idx s" row]
  by (auto simp: cli_inv_def line_of_def cli_buf_def)

lemma c_string_take: "xs ! n = 0 \<Longrightarrow> n < length xs \<Longrightarrow> 0 \<notin> set (take n xs) \<Longrightarrow> c_string xs = Some (take n xs)"
proof -
  assume a: "xs ! n = 0" "n < length xs" "0 \<notin> set (take n xs)"
  have "xs = take n xs @ 0 # drop (Suc n) xs" using a(1,2) by (metis id_take_nth_drop)
  then have "takeWhile (\<lambda>c. c \<noteq> 0) xs = take n xs" using a(3)
    by (metis (mono_tags, lifting) takeWhile_append2 takeWhile.simps(2) append_Nil2)
  then show ?thesis using a(1,2) nth_mem [of n xs] by (simp add: c_string_def)
qed

lemma c_string_row:
  assumes "row_ok row"
  obtains l where "c_string row = Some l" "length l \<le> 64" "0 \<notin> set l" "l = take (length l) row"
proof
  have "0 \<in> set row" using assms nth_mem [of 64 row] by (simp add: row_ok_def)
  then show "c_string row = Some (takeWhile (\<lambda>c. c \<noteq> 0) row)" by (simp add: c_string_def)
  show "length (takeWhile (\<lambda>c. c \<noteq> 0) row) \<le> 64"
  proof (rule ccontr)
    assume "\<not> ?thesis"
    then have "takeWhile (\<lambda>c. c \<noteq> 0) row ! 64 = 0" using assms by (simp add: takeWhile_nth row_ok_def)
    moreover have "takeWhile (\<lambda>c. c \<noteq> 0) row ! 64 \<in> set (takeWhile (\<lambda>c. c \<noteq> 0) row)" using \<open>\<not> _\<close> by simp
    ultimately show False by (metis (mono_tags, lifting) set_takeWhileD)
  qed
  show "0 \<notin> set (takeWhile (\<lambda>c. c \<noteq> 0) row)" by (metis (mono_tags, lifting) set_takeWhileD)
  show "takeWhile (\<lambda>c. c \<noteq> 0) row = take (length (takeWhile (\<lambda>c. c \<noteq> 0) row)) row"
    by (rule takeWhile_eq_take)
qed

text \<open>Going to another row of the history.\<close>

lemma history_select_ok:
  assumes "cli_inv s" "i < 5"
  obtains l where "c_string (cli_history s ! i) = Some l"
    "cli_history_select i s = Some (s\<lparr>cli_history_idx := i, cli_buf_len := length l\<rparr>)"
    "cli_inv (s\<lparr>cli_history_idx := i, cli_buf_len := length l\<rparr>)"
    "line_of (s\<lparr>cli_history_idx := i, cli_buf_len := length l\<rparr>) = l"
proof -
  have r: "row_ok (cli_history s ! i)" using assms by (simp add: cli_inv_def)
  obtain l where l: "c_string (cli_history s ! i) = Some l" "length l \<le> 64" "0 \<notin> set l" "l = take (length l) (cli_history s ! i)"
    by (rule c_string_row [OF r])
  have "line_of (s\<lparr>cli_history_idx := i, cli_buf_len := length l\<rparr>) = l"
    using l(4) by (simp add: line_of_def cli_buf_def)
  moreover have "cli_inv (s\<lparr>cli_history_idx := i, cli_buf_len := length l\<rparr>)"
    using assms l calculation by (simp add: cli_inv_def line_of_def cli_buf_def)
  ultimately show thesis using that l(1) by (simp add: cli_history_select_def cli_buf_def)
qed

lemma history_push_ok:
  assumes "cli_inv s"
  obtains s' where "cli_history_push s = Some s'" "cli_inv s'" "line_of s' = []" "cli_buf_len s' = 0" "esc_flag s' = esc_flag s"
    "cli_history_idx s' = (cli_history_idx s + 1) mod 5"
    "cli_history s' ! cli_history_idx s = cli_history s ! cli_history_idx s" "cli_buf s' ! 0 = 0"
proof -
  let ?i = "(cli_history_idx s + 1) mod 5"
  let ?s = "s\<lparr>cli_history_idx := ?i, cli_buf_len := 0\<rparr>"
  have i: "?i < 5" "?i \<noteq> cli_history_idx s" using assms by (auto simp: cli_inv_def mod_Suc)
  have inv: "cli_inv ?s" using assms i by (simp add: cli_inv_def line_of_def)
  note p = put_cli_ok [OF inv, of 0 0, simplified]
  have "cli_inv (?s\<lparr>cli_history := (cli_history ?s)[cli_history_idx ?s := (cli_buf ?s)[0 := 0]], cli_buf_len := 0\<rparr>)"
    by (rule cli_inv_update [OF inv]) (use p(2) assms in \<open>simp_all add: cli_inv_def\<close>)
  then have "cli_inv (?s\<lparr>cli_history := (cli_history ?s)[cli_history_idx ?s := (cli_buf ?s)[0 := 0]]\<rparr>)" by (cases s) simp
  moreover have "0 < length (cli_buf ?s)" using cli_inv_row [OF inv] by (simp add: row_ok_def)
  ultimately show thesis using that i p(1) cli_buf_update [OF inv]
    by (simp add: cli_history_push_def line_of_def)
qed

lemma cli_inv_esc: "cli_inv s \<Longrightarrow> e \<le> 2 \<Longrightarrow> cli_inv (s\<lparr>esc_flag := e\<rparr>)"
  by (simp add: cli_inv_def line_of_def cli_buf_def)

lemma cli_inv_clear: "cli_inv s \<Longrightarrow> cli_inv (s\<lparr>cli_buf_len := 0\<rparr>)"
  by (simp add: cli_inv_def line_of_def)

lemma line_visible: "cli_inv s \<Longrightarrow> \<forall>c \<in> set (line_of s). visible c"
proof
  fix c assume i: "cli_inv s" "c \<in> set (line_of s)"
  then have "c \<in> set (cli_buf s)" "c \<noteq> 0" by (auto simp: line_of_def cli_inv_def dest: in_set_takeD)
  then show "visible c" using cli_inv_row [OF i(1)] by (auto simp: row_ok_def)
qed

lemma length_line_of: "cli_inv s \<Longrightarrow> length (line_of s) = cli_buf_len s"
  using cli_inv_row [of s] by (simp add: cli_inv_def line_of_def row_ok_def)

section \<open>Editing\<close>

text \<open>What the keys of the editor mean for the line.\<close>

definition edit :: "u8 list \<Rightarrow> u8 \<Rightarrow> u8 list" where
  "edit line c =
    (if c = 0x08 then butlast line
     else if c = 0x15 \<or> c = 0x0c then []
     else if visible c \<and> length line < 64 then line @ [c]
     else line)"

definition same_place :: "cli \<Rightarrow> cli \<Rightarrow> bool" where
  "same_place s s' \<longleftrightarrow> cli_history_idx s' = cli_history_idx s \<and> esc_flag s' = esc_flag s"

lemma visible_codes: "visible c \<Longrightarrow> c \<noteq> 0x07 \<and> c \<noteq> 0x08 \<and> c \<noteq> 0x0a \<and> c \<noteq> 0x0d \<and> c \<noteq> 0x1b \<and> c \<noteq> 0x15 \<and> c \<noteq> 0x0c"
  by (auto simp: visible_def)

lemma key_backspace:
  assumes "cli_inv s" "esc_flag s = 0" "cli_buf_len s \<noteq> 0"
  obtains s' where "cli_key 0x08 s = Some ([Rubout], False, s')" "cli_inv s'" "line_of s' = butlast (line_of s)" "same_place s s'"
proof -
  let ?n = "cli_buf_len s - 1"
  have n: "?n < 64" using assms unfolding cli_inv_def by linarith
  let ?r = "(cli_buf s)[?n := 0]"
  have t: "take ?n ?r = butlast (line_of s)"
    using assms(1,3) length_line_of [OF assms(1)] by (simp add: line_of_def butlast_conv_take min_def cli_inv_def)
  let ?s = "s\<lparr>cli_history := (cli_history s)[cli_history_idx s := ?r], cli_buf_len := ?n\<rparr>"
  have r: "row_ok ?r" using row_ok_update [OF cli_inv_row [OF assms(1)]] n by simp
  have "0 \<notin> set (butlast (line_of s))" using assms(1) by (auto simp: cli_inv_def dest: in_set_butlastD)
  then have inv: "cli_inv ?s" using cli_inv_update [OF assms(1) r, of ?n] t n by simp
  have "put_cli ?n 0 (s\<lparr>cli_buf_len := ?n\<rparr>) = Some ?s"
    using cli_inv_row [OF assms(1)] n assms(2) by (cases s) (simp add: put_cli_def cli_buf_def row_ok_def)
  then have "cli_key 0x08 s = Some ([Rubout], False, ?s)" using assms(2,3) by (simp add: cli_key_def)
  moreover have "line_of ?s = butlast (line_of s)"
    using t assms(1) by (simp add: line_of_def cli_buf_def cli_inv_def)
  ultimately show thesis using that inv assms(2) by (simp add: same_place_def)
qed

lemma key_visible:
  assumes "cli_inv s" "esc_flag s = 0" "visible c" "cli_buf_len s < 64"
  obtains s' where "cli_key c s = Some ([], False, s')" "cli_inv s'" "line_of s' = line_of s @ [c]" "same_place s s'"
proof -
  let ?n = "cli_buf_len s"
  let ?r = "(cli_buf s)[?n := c]"
  have len: "length (cli_buf s) = 65" using cli_inv_row [OF assms(1)] by (simp add: row_ok_def)
  then have t: "take (?n + 1) ?r = line_of s @ [c]"
    using assms(4) by (simp add: line_of_def take_Suc_conv_app_nth)
  let ?s = "s\<lparr>cli_history := (cli_history s)[cli_history_idx s := ?r], cli_buf_len := ?n + 1\<rparr>"
  have r: "row_ok ?r" using row_ok_update [OF cli_inv_row [OF assms(1)]] assms(3,4) by simp
  have "0 \<notin> set (line_of s @ [c])" using assms(1,3) by (auto simp: cli_inv_def)
  then have inv: "cli_inv ?s" using cli_inv_update [OF assms(1) r, of "?n + 1"] t assms(4) by simp
  have p: "put_cli ?n c s = Some (s\<lparr>cli_history := (cli_history s)[cli_history_idx s := ?r]\<rparr>)"
    using len assms(4) by (simp add: put_cli_def)
  have "0x20 \<le> c \<and> c < 0x7f" using assms(3) by (simp add: visible_def)
  then have "cli_key c s = Some ([], False, s\<lparr>cli_history := (cli_history s)[cli_history_idx s := ?r]\<rparr>\<lparr>cli_buf_len := ?n + 1\<rparr>)"
    using visible_codes [OF assms(3)] assms(2,4) p by (simp add: cli_key_def)
  moreover have "s\<lparr>cli_history := (cli_history s)[cli_history_idx s := ?r]\<rparr>\<lparr>cli_buf_len := ?n + 1\<rparr> = ?s" by simp
  moreover have "line_of ?s = line_of s @ [c]"
    using t assms(1) by (simp add: line_of_def cli_buf_def cli_inv_def)
  ultimately show thesis using that inv assms(2) by (simp add: same_place_def)
qed

lemma edit_key:
  assumes "cli_inv s" "esc_flag s = 0" "c \<notin> {0x0a, 0x0d, 0x1b}"
  shows "\<exists>ev s'. cli_key c s = Some (ev, False, s') \<and> cli_inv s' \<and> line_of s' = edit (line_of s) c \<and> same_place s s' \<and>
    (\<forall>l. Command l \<notin> set ev)"
proof -
  consider "c = 0x08" "cli_buf_len s \<noteq> 0" | "c = 0x08" "cli_buf_len s = 0" | "c = 0x15 \<or> c = 0x0c"
    | "visible c" "cli_buf_len s < 64" | "c \<noteq> 0x08" "c \<noteq> 0x15" "c \<noteq> 0x0c" "\<not> (visible c \<and> cli_buf_len s < 64)" by blast
  then show ?thesis
  proof cases
    case 1
    obtain s' where "cli_key 0x08 s = Some ([Rubout], False, s')" "cli_inv s'" "line_of s' = butlast (line_of s)" "same_place s s'"
      by (rule key_backspace [OF assms(1,2) 1(2)])
    then show ?thesis using 1(1) by (simp add: edit_def)
  next
    case 2
    then show ?thesis using assms length_line_of [OF assms(1)] by (auto simp: cli_key_def edit_def same_place_def)
  next
    case 3
    then show ?thesis using assms cli_inv_clear [OF assms(1)] by (auto simp: cli_key_def edit_def same_place_def line_of_def)
  next
    case 4
    obtain s' where "cli_key c s = Some ([], False, s')" "cli_inv s'" "line_of s' = line_of s @ [c]" "same_place s s'"
      by (rule key_visible [OF assms(1,2) 4])
    then show ?thesis using visible_codes [OF 4(1)] 4 length_line_of [OF assms(1)] by (simp add: edit_def)
  next
    case 5
    then show ?thesis using assms length_line_of [OF assms(1)]
      by (auto simp: cli_key_def edit_def same_place_def visible_def)
  qed
qed

text \<open>Enter runs the line and stores it in the history.\<close>

lemma key_enter:
  assumes "cli_inv s" "esc_flag s = 0" "line_of s \<noteq> []" "c = 0x0a \<or> c = 0x0d"
  obtains s' where "cli_key c s = Some ([Command (line_of s)], False, s')" "cli_inv s'" "line_of s' = []" "esc_flag s' = 0"
    "cli_history_idx s' = (cli_history_idx s + 1) mod 5" "c_string (cli_history s' ! cli_history_idx s) = Some (line_of s)"
    "cli_buf s' ! 0 = 0"
proof -
  let ?n = "cli_buf_len s"
  let ?r = "(cli_buf s)[?n := 0]"
  let ?s = "s\<lparr>cli_history := (cli_history s)[cli_history_idx s := ?r]\<rparr>"
  have n: "?n \<le> 64" "?n \<noteq> 0" using assms(1,3) by (auto simp: cli_inv_def line_of_def)
  have len: "length (cli_buf s) = 65" using cli_inv_row [OF assms(1)] by (simp add: row_ok_def)
  have t: "take ?n ?r = line_of s" by (simp add: line_of_def)
  have r: "row_ok ?r" using row_ok_update [OF cli_inv_row [OF assms(1)]] n by simp
  have "0 \<notin> set (line_of s)" using assms(1) by (simp add: cli_inv_def)
  then have inv: "cli_inv ?s" using cli_inv_update [OF assms(1) r n(1)] t by simp
  have b: "cli_buf ?s = ?r" by (rule cli_buf_update [OF assms(1)])
  have cs: "c_string ?r = Some (line_of s)"
    using c_string_take [of ?r ?n] len n(1) t \<open>0 \<notin> set (line_of s)\<close> by simp
  obtain s' where p: "cli_history_push ?s = Some s'" "cli_inv s'" "line_of s' = []" "cli_buf_len s' = 0" "esc_flag s' = esc_flag ?s"
    "cli_history_idx s' = (cli_history_idx ?s + 1) mod 5"
    "cli_history s' ! cli_history_idx ?s = cli_history ?s ! cli_history_idx ?s" "cli_buf s' ! 0 = 0"
    by (rule history_push_ok [OF inv])
  have "put_cli ?n 0 s = Some ?s" using len n(1) by (simp add: put_cli_def)
  then have "cli_key c s = Some ([Command (line_of s)], False, s')"
    using assms(2,4) n b t p(1) by (auto simp: cli_key_def)
  moreover have "cli_history ?s ! cli_history_idx ?s = ?r" using b by (simp add: cli_buf_def)
  ultimately show thesis using that p assms(2) cs by simp
qed

text \<open>Any byte in any state.\<close>

definition runs_only :: "console_event list \<Rightarrow> bool" where
  "runs_only evs \<longleftrightarrow> (\<forall>l. Command l \<in> set evs \<longrightarrow> l \<noteq> [] \<and> length l \<le> 64 \<and> (\<forall>c \<in> set l. visible c))"

lemma history_key:
  assumes "cli_inv s" "i < 5"
  shows "\<exists>s'. cli_history_select i s = Some s' \<and> cli_inv s' \<and> esc_flag s' = esc_flag s"
  using history_select_ok [OF assms] by (metis cli.select_convs(4) cli.surjective cli.update_convs(2,3))

lemma popup_ok: "cli_inv s \<Longrightarrow> \<exists>s'. cli_history_popup s = Some s' \<and> cli_inv s'"
proof -
  assume i: "cli_inv s"
  then have "(if cli_history_idx s = 0 then 5 - 1 else cli_history_idx s - 1) < (5 :: nat)" by (auto simp: cli_inv_def)
  from history_key [OF i this] show ?thesis unfolding cli_history_popup_def by blast
qed

lemma popdown_ok: "cli_inv s \<Longrightarrow> \<exists>s'. cli_history_popdown s = Some s' \<and> cli_inv s'"
  using history_key [of s "(cli_history_idx s + 1) mod 5"] by (auto simp: cli_history_popdown_def)

lemma cli_key_safe:
  assumes "cli_inv s"
  shows "\<exists>ev stop s'. cli_key c s = Some (ev, stop, s') \<and> cli_inv s' \<and> runs_only ev"
proof -
  consider "esc_flag s = 1" | "esc_flag s = 2" | "esc_flag s = 0" using assms by (fastforce simp: cli_inv_def)
  then show ?thesis
  proof cases
    case 1
    then show ?thesis using cli_inv_esc [OF assms, of 0] cli_inv_esc [OF assms, of 2] by (auto simp: cli_key_def runs_only_def)
  next
    case 2
    have i: "cli_inv (s\<lparr>esc_flag := 0\<rparr>)" using cli_inv_esc [OF assms] by simp
    then show ?thesis using 2 popup_ok [OF i] popdown_ok [OF i] by (auto simp: cli_key_def runs_only_def Let_def)
  next
    case 3
    consider "c \<notin> {0x0a, 0x0d, 0x1b}" | "c = 0x1b" | "c = 0x0a \<or> c = 0x0d" "line_of s = []" | "c = 0x0a \<or> c = 0x0d" "line_of s \<noteq> []"
      by blast
    then show ?thesis
    proof cases
      case 1
      then show ?thesis using edit_key [OF assms 3] by (metis runs_only_def)
    next
      case 2
      then show ?thesis using cli_inv_esc [OF assms, of 1] 3 by (auto simp: cli_key_def runs_only_def)
    next
      case a: 3
      then show ?thesis using 3 popup_ok [OF assms] length_line_of [OF assms] by (auto simp: cli_key_def runs_only_def)
    next
      case 4
      obtain s' where "cli_key c s = Some ([Command (line_of s)], False, s')" "cli_inv s'"
        using key_enter [OF assms 3 4(2,1)] by metis
      then show ?thesis using 4(2) line_visible [OF assms] length_line_of [OF assms] assms by (auto simp: runs_only_def cli_inv_def)
    qed
  qed
qed

lemma cli_keys_safe: "cli_inv s \<Longrightarrow> \<exists>evs s'. cli_keys cs s = Some (evs, s') \<and> cli_inv s' \<and> runs_only evs"
proof (induction cs arbitrary: s)
  case (Cons c cs)
  obtain ev stop s1 where 1: "cli_key c s = Some (ev, stop, s1)" "cli_inv s1" "runs_only ev"
    using cli_key_safe [OF Cons.prems] by blast
  obtain evs s2 where 2: "cli_keys cs s1 = Some (evs, s2)" "cli_inv s2" "runs_only evs"
    using Cons.IH [OF 1(2)] by blast
  show ?case using 1 2 by (cases stop) (auto simp: runs_only_def)
qed (simp add: runs_only_def)

text \<open>The end of the line is set and the line is shown.\<close>

lemma close_line:
  assumes "cli_inv s"
  obtains s' where "put_cli (cli_buf_len s) 0 s = Some s'" "cli_inv s'" "c_string (cli_buf s') = Some (line_of s)"
    "line_of s' = line_of s" "same_place s s'" "\<forall>i. i \<noteq> cli_history_idx s \<longrightarrow> cli_history s' ! i = cli_history s ! i"
proof -
  let ?n = "cli_buf_len s"
  let ?r = "(cli_buf s)[?n := 0]"
  let ?s = "s\<lparr>cli_history := (cli_history s)[cli_history_idx s := ?r]\<rparr>"
  have n: "?n \<le> 64" "0 \<notin> set (line_of s)" using assms by (simp_all add: cli_inv_def)
  have len: "length (cli_buf s) = 65" using cli_inv_row [OF assms] by (simp add: row_ok_def)
  have t: "take ?n ?r = line_of s" by (simp add: line_of_def)
  have r: "row_ok ?r" using row_ok_update [OF cli_inv_row [OF assms]] n(1) by simp
  have inv: "cli_inv ?s" using cli_inv_update [OF assms r n(1)] t n(2) by simp
  have b: "cli_buf ?s = ?r" by (rule cli_buf_update [OF assms])
  have "c_string ?r = Some (line_of s)" using c_string_take [of ?r ?n] len n t by simp
  moreover have "put_cli ?n 0 s = Some ?s" using len n(1) by (simp add: put_cli_def)
  moreover have "line_of ?s = line_of s" using b t by (simp add: line_of_def)
  ultimately show thesis using that inv b by (simp add: same_place_def)
qed

lemma process_input_safe:
  assumes "cli_inv s"
  shows "\<exists>evs s'. cli_process_input buf s = Some (evs, s') \<and> cli_inv s' \<and> runs_only evs"
proof (cases "buf = []")
  case False
  obtain evs s1 where 1: "cli_keys buf s = Some (evs, s1)" "cli_inv s1" "runs_only evs" using cli_keys_safe [OF assms] by blast
  obtain s2 where 2: "put_cli (cli_buf_len s1) 0 s1 = Some s2" "cli_inv s2" "c_string (cli_buf s2) = Some (line_of s1)"
    by (rule close_line [OF 1(2)])
  then show ?thesis using False 1 by (auto simp: cli_process_input_def runs_only_def)
qed (use assms in \<open>simp add: cli_process_input_def runs_only_def\<close>)

section \<open>Properties\<close>

text \<open>The states of the editor between two calls of \<open>cli_process_input\<close>, whatever is received.\<close>

inductive cli_reachable :: "cli \<Rightarrow> bool" where
  start: "cli_reachable cli_init"
| input: "cli_reachable s \<Longrightarrow> cli_process_input buf s = Some (evs, s') \<Longrightarrow> cli_reachable s'"

lemma reachable_inv: "cli_reachable s \<Longrightarrow> cli_inv s"
proof (induction rule: cli_reachable.induct)
  case (input s buf evs s')
  then show ?case using process_input_safe [of s buf] by auto
qed (rule cli_inv_init)

text \<open>C25. Whatever bytes arrive, in whatever portions, the editor never writes outside the rows of its
  history, never reads a line without an end, and runs only lines of one to 64 visible characters.\<close>

theorem editor_safe:
  assumes "cli_reachable s"
  shows "\<exists>evs s'. cli_process_input buf s = Some (evs, s') \<and> cli_buf_len s' \<le> 64 \<and>
    (\<forall>row \<in> set (cli_history s'). length row = 65 \<and> 0 \<in> set row) \<and> runs_only evs"
proof -
  obtain evs s' where p: "cli_process_input buf s = Some (evs, s')" "cli_inv s'" "runs_only evs"
    using process_input_safe [OF reachable_inv [OF assms]] by blast
  have "length row = 65 \<and> 0 \<in> set row" if "row \<in> set (cli_history s')" for row
    using p(2) that nth_mem [of 64 row] by (auto simp: cli_inv_def row_ok_def)
  then show ?thesis using p by (auto simp: cli_inv_def)
qed

theorem editor_safe_witness:
  "\<exists>evs s'. cli_process_input (replicate 100 0x41 @ [0x0d]) cli_init = Some (evs, s') \<and> cli_buf_len s' \<le> 64 \<and>
    (\<forall>row \<in> set (cli_history s'). length row = 65 \<and> 0 \<in> set row) \<and> runs_only evs"
  by (rule editor_safe) (rule cli_reachable.start)

lemma edit_keys:
  "cli_inv s \<Longrightarrow> esc_flag s = 0 \<Longrightarrow> set ks \<inter> {0x0a, 0x0d, 0x1b} = {} \<Longrightarrow>
    \<exists>evs s'. (\<forall>cs. cli_keys (ks @ cs) s = (case cli_keys cs s' of None \<Rightarrow> None | Some (ev, t) \<Rightarrow> Some (evs @ ev, t))) \<and>
      cli_inv s' \<and> line_of s' = foldl edit (line_of s) ks \<and> same_place s s' \<and> (\<forall>l. Command l \<notin> set evs)"
proof (induction ks arbitrary: s)
  case Nil
  then show ?case by (intro exI [of _ "[]"] exI [of _ s]) (auto simp: same_place_def split: option.splits)
next
  case (Cons k ks)
  obtain ev s1 where 1: "cli_key k s = Some (ev, False, s1)" "cli_inv s1" "line_of s1 = edit (line_of s) k" "same_place s s1"
    "\<forall>l. Command l \<notin> set ev"
    using edit_key [OF Cons.prems(1,2), of k] Cons.prems(3) by auto
  have e: "esc_flag s1 = 0" using 1(4) Cons.prems(2) by (simp add: same_place_def)
  obtain evs s2 where 2: "\<forall>cs. cli_keys (ks @ cs) s1 = (case cli_keys cs s2 of None \<Rightarrow> None | Some (ev, t) \<Rightarrow> Some (evs @ ev, t))"
    "cli_inv s2" "line_of s2 = foldl edit (line_of s1) ks" "same_place s1 s2" "\<forall>l. Command l \<notin> set evs"
    using Cons.IH [OF 1(2) e] Cons.prems(3) by auto
  have "cli_keys ((k # ks) @ cs) s = (case cli_keys cs s2 of None \<Rightarrow> None | Some (ev', t) \<Rightarrow> Some ((ev @ evs) @ ev', t))" for cs
    using 1(1) 2(1) by (auto split: option.splits)
  moreover have "line_of s2 = foldl edit (line_of s) (k # ks)" using 1(3) 2(3) by simp
  moreover have "same_place s s2" using 1(4) 2(4) by (simp add: same_place_def)
  moreover have "\<forall>l. Command l \<notin> set (ev @ evs)" using 1(5) 2(5) by auto
  ultimately show ?case using 2(2) by blast
qed

lemma enter_runs:
  assumes "cli_reachable s" "esc_flag s = 0" "set ks \<inter> {0x0a, 0x0d, 0x1b} = {}" "foldl edit (line_of s) ks \<noteq> []"
  shows "\<exists>evs s' s''. cli_process_input (ks @ [0x0d]) s = Some (evs @ [Command (foldl edit (line_of s) ks), Prompt []], s') \<and>
    (\<forall>l. Command l \<notin> set evs) \<and> line_of s' = [] \<and>
    cli_history_popup s' = Some s'' \<and> line_of s'' = foldl edit (line_of s) ks"
proof -
  let ?l = "foldl edit (line_of s) ks"
  have inv: "cli_inv s" by (rule reachable_inv [OF assms(1)])
  obtain evs s1 where 1: "cli_keys (ks @ cs) s = (case cli_keys cs s1 of None \<Rightarrow> None | Some (ev, t) \<Rightarrow> Some (evs @ ev, t))"
    "cli_inv s1" "line_of s1 = ?l" "same_place s s1" "\<forall>l. Command l \<notin> set evs" for cs
    using edit_keys [OF inv assms(2,3)] by blast
  have e: "esc_flag s1 = 0" "line_of s1 \<noteq> []" using 1(3,4) assms(2,4) by (simp_all add: same_place_def)
  obtain s2 where 2: "cli_key 0x0d s1 = Some ([Command ?l], False, s2)" "cli_inv s2" "line_of s2 = []" "esc_flag s2 = 0"
    "cli_history_idx s2 = (cli_history_idx s1 + 1) mod 5" "c_string (cli_history s2 ! cli_history_idx s1) = Some ?l"
    using key_enter [OF 1(2) e, of "0x0d"] 1(3) by metis
  obtain s3 where 3: "put_cli (cli_buf_len s2) 0 s2 = Some s3" "cli_inv s3" "c_string (cli_buf s3) = Some (line_of s2)"
    "line_of s3 = line_of s2" "same_place s2 s3" "\<forall>i. i \<noteq> cli_history_idx s2 \<longrightarrow> cli_history s3 ! i = cli_history s2 ! i"
    by (rule close_line [OF 2(2)])
  have k: "cli_keys (ks @ [0x0d]) s = Some (evs @ [Command ?l], s2)" using 1(1) [of "[0x0d]"] 2(1) by simp
  then have p: "cli_process_input (ks @ [0x0d]) s = Some (evs @ [Command ?l, Prompt []], s3)"
    using 3(1,3) 2(3) by (simp add: cli_process_input_def)
  let ?i = "if cli_history_idx s3 = 0 then 5 - 1 else cli_history_idx s3 - 1"
  have i5: "cli_history_idx s1 < 5" using 1(2) by (simp add: cli_inv_def)
  have i: "?i = cli_history_idx s1" "?i < 5"
    using 3(5) 2(5) i5 by (auto simp: same_place_def mod_Suc)
  have "cli_history_idx s1 \<noteq> cli_history_idx s2" using 2(5) i5 by (auto simp: mod_Suc)
  then have h: "c_string (cli_history s3 ! ?i) = Some ?l" using 3(6) i(1) 2(6) by simp
  obtain l where l: "c_string (cli_history s3 ! ?i) = Some l"
    "cli_history_select ?i s3 = Some (s3\<lparr>cli_history_idx := ?i, cli_buf_len := length l\<rparr>)"
    "cli_inv (s3\<lparr>cli_history_idx := ?i, cli_buf_len := length l\<rparr>)"
    "line_of (s3\<lparr>cli_history_idx := ?i, cli_buf_len := length l\<rparr>) = l"
    by (rule history_select_ok [OF 3(2) i(2)])
  have "cli_history_popup s3 = Some (s3\<lparr>cli_history_idx := ?i, cli_buf_len := length l\<rparr>)"
    unfolding cli_history_popup_def by (rule l(2))
  moreover have "l = ?l" using l(1) h by simp
  ultimately show ?thesis using p 1(5) 3(4) 2(3) l(4) by metis
qed

text \<open>C32. The editor does what its keys mean: a line typed with corrections in one portion and ended
  with Enter runs exactly the command that editing an abstract line gives, once, and the Up key then
  brings it back.\<close>

theorem enter_runs_edited_line:
  assumes "cli_reachable s" "esc_flag s = 0" "set ks \<inter> {0x0a, 0x0d, 0x1b} = {}" "foldl edit (line_of s) ks \<noteq> []"
  shows "\<exists>evs s' s''. cli_process_input (ks @ [0x0d]) s = Some (evs @ [Command (foldl edit (line_of s) ks), Prompt []], s') \<and>
    (\<forall>l. Command l \<notin> set evs) \<and> line_of s' = [] \<and>
    cli_history_popup s' = Some s'' \<and> line_of s'' = foldl edit (line_of s) ks"
  by (rule enter_runs [OF assms])

theorem enter_runs_edited_line_witness:
  "\<exists>evs s' s''. cli_process_input ([0x72, 0x78, 0x08, 0x62] @ [0x0d]) cli_init = Some (evs @ [Command [0x72, 0x62], Prompt []], s') \<and>
    (\<forall>l. Command l \<notin> set evs) \<and> line_of s' = [] \<and> cli_history_popup s' = Some s'' \<and> line_of s'' = [0x72, 0x62]"
proof -
  have "foldl edit (line_of cli_init) [0x72, 0x78, 0x08, 0x62] = [0x72, 0x62]"
    by (simp add: line_of_def cli_init_def edit_def visible_def)
  moreover have "esc_flag cli_init = 0" by (simp add: cli_init_def)
  ultimately show ?thesis
    using enter_runs_edited_line [OF cli_reachable.start, of "[0x72, 0x78, 0x08, 0x62]"] by simp
qed

text \<open>A terminal that ends a line with CR LF: the line feed meets an empty line and brings the command
  just run back into the editor, so that the next Enter runs it again.\<close>

theorem crlf_recalls_command:
  assumes "cli_reachable s" "esc_flag s = 0" "line_of s \<noteq> []"
  shows "\<exists>s'. cli_process_input [0x0d, 0x0a] s = Some ([Command (line_of s), Erase_line, Prompt (line_of s)], s') \<and>
    line_of s' = line_of s"
proof -
  have inv: "cli_inv s" by (rule reachable_inv [OF assms(1)])
  obtain s2 where 2: "cli_key 0x0d s = Some ([Command (line_of s)], False, s2)" "cli_inv s2" "line_of s2 = []" "esc_flag s2 = 0"
    "cli_history_idx s2 = (cli_history_idx s + 1) mod 5" "c_string (cli_history s2 ! cli_history_idx s) = Some (line_of s)"
    using key_enter [OF inv assms(2,3), of "0x0d"] by metis
  let ?i = "if cli_history_idx s2 = 0 then 5 - 1 else cli_history_idx s2 - 1"
  have "cli_history_idx s < 5" using inv by (simp add: cli_inv_def)
  then have i: "?i = cli_history_idx s" "?i < 5" using 2(5) by (auto simp: mod_Suc)
  obtain l where l: "c_string (cli_history s2 ! ?i) = Some l"
    "cli_history_select ?i s2 = Some (s2\<lparr>cli_history_idx := ?i, cli_buf_len := length l\<rparr>)"
    "cli_inv (s2\<lparr>cli_history_idx := ?i, cli_buf_len := length l\<rparr>)"
    "line_of (s2\<lparr>cli_history_idx := ?i, cli_buf_len := length l\<rparr>) = l"
    by (rule history_select_ok [OF 2(2) i(2)])
  let ?s = "s2\<lparr>cli_history_idx := ?i, cli_buf_len := length l\<rparr>"
  have le: "l = line_of s" using l(1) 2(6) i(1) by simp
  have "cli_history_popup s2 = Some ?s" unfolding cli_history_popup_def by (rule l(2))
  moreover have "cli_buf_len s2 = 0" using length_line_of [OF 2(2)] 2(3) by simp
  ultimately have k: "cli_key 0x0a s2 = Some ([Erase_line], True, ?s)" using 2(4) by (simp add: cli_key_def)
  obtain s3 where 3: "put_cli (cli_buf_len ?s) 0 ?s = Some s3" "c_string (cli_buf s3) = Some (line_of ?s)" "line_of s3 = line_of ?s"
    using close_line [OF l(3)] by metis
  have "cli_keys [0x0d, 0x0a] s = Some ([Command (line_of s), Erase_line], ?s)" using 2(1) k by simp
  then have "cli_process_input [0x0d, 0x0a] s = Some ([Command (line_of s), Erase_line, Prompt l], s3)"
    using 3(1,2) l(4) by (simp add: cli_process_input_def)
  then show ?thesis using 3(3) l(4) le by simp
qed

text \<open>Every name of the command list runs its own command, none is hidden by an earlier one it is
  a part of; but the name \<open>crc32\<close> the help text gives runs nothing.\<close>

theorem commands_found:
  "map (find_command 0 command_list) command_list = map Some [0..<23] \<and>
   cli_process_command ''crc32 0x80000000 64'' = Some (Inl ''crc32'')"
  by code_simp

end
