(* ===== verification/Console.thy ===== *)
theory Console
  imports Keyboard Cli
begin

text \<open>
  The keyboard and the console together: what is typed on the keyboard reaches the line editor through the receive buffer
  (main.c and cli.c of the monitor), of \<open>CONSOLE_RX_BUF_SIZE\<close> bytes.
\<close>

lemma edit_text: "\<forall>c \<in> set w. visible c \<Longrightarrow> length l + length w \<le> 64 \<Longrightarrow> foldl edit l w = l @ w"
  by (induction w arbitrary: l) (auto simp: edit_def visible_def)

text \<open>C11. A line of visible characters typed on the keyboard, key by key and ended with Enter, is the command that the console
  runs when it takes the text from its buffer: the layout of the keys, the reports, the buffer and the line editor together
  give back what was typed.\<close>

theorem keyboard_line_runs:
  assumes "at_rest (length w + 1) s" "bufsize s = 64" "len s = 0" "w \<noteq> []" "\<forall>c \<in> set w. visible c"
    "cli_reachable c" "esc_flag c = 0" "line_of c = []"
  shows "\<exists>t evs c'. kbd_run (line_keys w) s = Some t \<and>
    console_poll (text_of t) c = Some (evs @ [Command w, Prompt []], [], c') \<and>
    (\<forall>l. Command l \<notin> set evs) \<and> line_of c' = []"
proof -
  have w: "length w \<le> 63" using assms(1-3) by (simp add: at_rest_def)
  obtain t where t: "kbd_run (line_keys w) s = Some t" "text_of t = w @ [0x0d]"
    using type_line [OF assms(1)] assms(3,5) by (auto simp: visible_def text_of_def)
  have e: "foldl edit (line_of c) w = w" using edit_text [of w "[]"] w assms(5,8) by simp
  have "set w \<inter> {0x0a, 0x0d, 0x1b} = {}" using assms(5) by (auto simp: visible_def)
  then obtain evs c' where "cli_process_input (w @ [0x0d]) c = Some (evs @ [Command w, Prompt []], c')"
    "\<forall>l. Command l \<notin> set evs" "line_of c' = []"
    using enter_runs [OF assms(6,7), of w] assms(4) unfolding e by blast
  then show ?thesis using t w by (auto simp: console_poll_def)
qed

theorem keyboard_line_runs_witness:
  "\<exists>t evs c'. kbd_run (line_keys [0x72, 0x7a]) kbd_start = Some t \<and>
    console_poll (text_of t) cli_init = Some (evs @ [Command [0x72, 0x7a], Prompt []], [], c') \<and>
    (\<forall>l. Command l \<notin> set evs) \<and> line_of c' = []"
proof -
  have "at_rest (length [0x72, 0x7a :: u8] + 1) kbd_start" by (simp add: at_rest_def kbd_start_def)
  then show ?thesis
    using keyboard_line_runs [of "[0x72, 0x7a]" kbd_start cli_init] cli_reachable.start
    by (simp add: kbd_start_def visible_def cli_init_def line_of_def)
qed

end
