(* ===== verification/Usb.thy ===== *)
theory Usb
  imports KPrelude "HOL-Library.Monad_Syntax"
begin

text \<open>
  The USB host driver (usb10.c, usb10.h): resetting the bus, the three kinds of requests with their data toggles and
  repetitions, and the initialisation of a device with its descriptors.

  \<^item> The controller is hardware: what reading and writing its registers does to a bus state of any type is the parameter
    \<open>P\<close>. The functions are translated register access by register access, in the order of the code; the debug output
    is off, so that the registers it names are not read.
  \<^item> An access outside of an array is \<^term>\<open>None\<close>, and so is the loop over the descriptors when its fuel runs out.
\<close>

section \<open>The controller\<close>

datatype usb_reg = STATUS | COMMAND | RECV_DATA_LOW | RECV_DATA_HIGH | SEND_DATA_LOW | SEND_DATA_HIGH | RX_STATUS | CONTROL | RX_STATUS2

record 'p usb_port =
  read_port :: "usb_reg \<Rightarrow> 'p \<Rightarrow> u32 \<times> 'p"
  write_port :: "usb_reg \<Rightarrow> u32 \<Rightarrow> 'p \<Rightarrow> 'p"
  wait_us :: "u32 \<Rightarrow> 'p \<Rightarrow> 'p"

abbreviation (input) USB10_STATUS_ERROR_BIT :: u32 where "USB10_STATUS_ERROR_BIT \<equiv> 0x40000000"
abbreviation (input) USB10_STATUS_BUSY_BIT :: u32 where "USB10_STATUS_BUSY_BIT \<equiv> 0x10000000"
abbreviation (input) USB10_STATUS_RECEIVED_BIT :: u32 where "USB10_STATUS_RECEIVED_BIT \<equiv> 0x08000000"
abbreviation (input) USB10_STATUS_CRC16_OK_BIT :: u32 where "USB10_STATUS_CRC16_OK_BIT \<equiv> 0x04000000"
abbreviation (input) USB10_CMD_START_BIT :: u32 where "USB10_CMD_START_BIT \<equiv> 0x80000000"
abbreviation (input) USB10_CMD_SEND_LONG_TOKEN :: u32 where "USB10_CMD_SEND_LONG_TOKEN \<equiv> 1"
abbreviation (input) USB10_CMD_SEND_SHORT_TOKEN :: u32 where "USB10_CMD_SEND_SHORT_TOKEN \<equiv> 2"
abbreviation (input) USB10_CMD_SEND_DATA :: u32 where "USB10_CMD_SEND_DATA \<equiv> 3"
abbreviation (input) USB10_CMD_BUS_RESET :: u32 where "USB10_CMD_BUS_RESET \<equiv> 4"
abbreviation (input) USB10_LOW_SPEED_DATA_SIZE :: nat where "USB10_LOW_SPEED_DATA_SIZE \<equiv> 8"
abbreviation (input) USB10_PID_SETUP :: u8 where "USB10_PID_SETUP \<equiv> 0x2d"
abbreviation (input) USB10_PID_DATA0 :: u8 where "USB10_PID_DATA0 \<equiv> 0xc3"
abbreviation (input) USB10_PID_DATA1 :: u8 where "USB10_PID_DATA1 \<equiv> 0x4b"
abbreviation (input) USB10_PID_IN :: u8 where "USB10_PID_IN \<equiv> 0x69"
abbreviation (input) USB10_PID_OUT :: u8 where "USB10_PID_OUT \<equiv> 0xe1"
abbreviation (input) USB10_PID_ACK :: u8 where "USB10_PID_ACK \<equiv> 0xd2"
abbreviation (input) USB10_PID_NAK :: u8 where "USB10_PID_NAK \<equiv> 0x5a"
abbreviation (input) USB10_PID_STALL :: u8 where "USB10_PID_STALL \<equiv> 0x1e"
abbreviation (input) MAX_ADDRESSES :: nat where "MAX_ADDRESSES \<equiv> 4"
abbreviation (input) MAX_ENDPOINTS :: nat where "MAX_ENDPOINTS \<equiv> 4"

definition USB10_CMD_SET_ADDR :: "u8 \<Rightarrow> u32" where "USB10_CMD_SET_ADDR x = push_bit 24 (ucast x AND 0x7f)"
definition USB10_CMD_SET_ENDP :: "u8 \<Rightarrow> u32" where "USB10_CMD_SET_ENDP x = push_bit 20 (ucast x AND 0x0f)"
definition USB10_CMD_SET_LEN :: "int \<Rightarrow> u32" where "USB10_CMD_SET_LEN x = push_bit 8 (word_of_int x AND 0xfff)"
definition USB10_CMD_SET_PID :: "u8 \<Rightarrow> u32" where "USB10_CMD_SET_PID x = push_bit 4 (ucast x AND 0x0f)"
definition USB10_RX_STATUS_LEN :: "u32 \<Rightarrow> u32" where "USB10_RX_STATUS_LEN x = x AND 0xff"
definition USB10_RX_STATUS_PID :: "u32 \<Rightarrow> u8" where "USB10_RX_STATUS_PID x = ucast (drop_bit 8 x AND 0xff)"

section \<open>The state of the driver\<close>

text \<open>\<open>last_data_pid\<close> has a row of the last PIDs sent and received for each address; a descriptor is the memory from its
  start on.\<close>

record 'p usb =
  bus :: 'p
  MIE :: bool
  last_data_pid :: "(u8 \<times> u8) list list"
  usb10_device_address :: u8
  usb10_device_descr :: "u8 list"
  usb10_config_descr :: "u8 list"
  usb10_interface_descr :: "u8 list"
  usb10_endpoint_descr :: "u8 list"

definition usb10_read_reg :: "'p usb_port \<Rightarrow> usb_reg \<Rightarrow> 'p usb \<Rightarrow> u32 \<times> 'p usb" where
  "usb10_read_reg P r s = (let (v, p) = read_port P r (bus s) in (v, s\<lparr>bus := p\<rparr>))"

definition usb10_write_reg :: "'p usb_port \<Rightarrow> usb_reg \<Rightarrow> u32 \<Rightarrow> 'p usb \<Rightarrow> 'p usb" where
  "usb10_write_reg P r v s = s\<lparr>bus := write_port P r v (bus s)\<rparr>"

definition delay_us :: "'p usb_port \<Rightarrow> u32 \<Rightarrow> 'p usb \<Rightarrow> 'p usb" where
  "delay_us P n s = s\<lparr>bus := wait_us P n (bus s)\<rparr>"

text \<open>\<open>while(timeout--) if(...)\<close> on the status register, with the value of \<open>timeout\<close> when it ends early.\<close>

function wait_until :: "'p usb_port \<Rightarrow> (u32 \<Rightarrow> bool) \<Rightarrow> int \<Rightarrow> 'p usb \<Rightarrow> int option \<times> 'p usb" where
  "wait_until P c timeout s =
    (if timeout \<le> 0 then (None, s)
     else (let (st, s) = usb10_read_reg P STATUS s in if c st then (Some (timeout - 1), s) else wait_until P c (timeout - 1) s))"
  by auto
termination by (relation "measure (\<lambda>(P, c, timeout, s). nat timeout)") auto

declare wait_until.simps [simp del]

abbreviation busy :: "u32 \<Rightarrow> bool" where "busy st \<equiv> st AND USB10_STATUS_BUSY_BIT \<noteq> 0"
abbreviation received :: "u32 \<Rightarrow> bool" where "received st \<equiv> st AND USB10_STATUS_RECEIVED_BIT \<noteq> 0"

definition usb10_wait_while_busy :: "'p usb_port \<Rightarrow> int \<Rightarrow> 'p usb \<Rightarrow> int \<times> 'p usb" where
  "usb10_wait_while_busy P timeout s = (let (r, s) = wait_until P (\<lambda>st. \<not> busy st) timeout s in
     (case r of Some n \<Rightarrow> n | None \<Rightarrow> 0, s))"

definition usb10_wait_cmd_complete :: "'p usb_port \<Rightarrow> int \<Rightarrow> 'p usb \<Rightarrow> int \<times> 'p usb" where
  "usb10_wait_cmd_complete P timeout s = usb10_wait_while_busy P timeout (snd (wait_until P busy 50 s))"

section \<open>Data toggles\<close>

definition pids :: "u8 \<Rightarrow> u8 \<Rightarrow> 'p usb \<Rightarrow> (u8 \<times> u8) option" where
  "pids address endpoint s =
    (if unat address < MAX_ADDRESSES \<and> unat endpoint < MAX_ENDPOINTS then Some (last_data_pid s ! unat address ! unat endpoint) else None)"

definition set_pids :: "u8 \<Rightarrow> u8 \<Rightarrow> u8 \<times> u8 \<Rightarrow> 'p usb \<Rightarrow> 'p usb" where
  "set_pids address endpoint p s =
    s\<lparr>last_data_pid := (last_data_pid s)[unat address := (last_data_pid s ! unat address)[unat endpoint := p]]\<rparr>"

definition usb10_bus_reset :: "'p usb_port \<Rightarrow> u32 \<Rightarrow> 'p usb \<Rightarrow> int \<times> 'p usb" where
  "usb10_bus_reset P us s =
    (let (st, s) = usb10_read_reg P STATUS s in
     if st AND USB10_STATUS_ERROR_BIT \<noteq> 0 then (-1, s)
     else (let s = usb10_write_reg P COMMAND (USB10_CMD_START_BIT OR USB10_CMD_BUS_RESET) s;
               (ok, s) = usb10_wait_cmd_complete P 600000 s in
       if ok = 0 then (-2, s)
       else (let s = s\<lparr>last_data_pid := replicate MAX_ADDRESSES (replicate MAX_ENDPOINTS (USB10_PID_DATA1, USB10_PID_DATA0))\<rparr> in
         (0, if us \<noteq> 0 then delay_us P us s else s))))"

section \<open>Receiving a packet\<close>

text \<open>One turn of \<open>again_data\<close>: it is repeated (\<open>if(retry--) goto again_data\<close>, else the error), it fails, or there is a
  packet with its \<open>rx_status\<close>. \<open>usb10_setup_request\<close> and \<open>usb10_in_request\<close> differ in the time they wait, in
  the NAK packet that only the latter knows, and in the errors for a wrong packet and for one received twice.\<close>

datatype attempt = Again int | Stop int | Got u32

definition long_token :: "u8 \<Rightarrow> u8 \<Rightarrow> u8 \<Rightarrow> u32" where
  "long_token pid address endpoint = USB10_CMD_START_BIT OR USB10_CMD_SET_PID pid OR USB10_CMD_SET_ADDR address OR
     USB10_CMD_SET_ENDP endpoint OR USB10_CMD_SEND_LONG_TOKEN"

definition recv_attempt :: "'p usb_port \<Rightarrow> int \<Rightarrow> bool \<Rightarrow> int \<Rightarrow> int \<Rightarrow> u8 \<Rightarrow> u8 \<Rightarrow> 'p usb \<Rightarrow> (attempt \<times> 'p usb) option" where
  "recv_attempt P timeout knows_nak e_pid e_dupe address endpoint s =
    (let s = usb10_write_reg P COMMAND (long_token USB10_PID_IN address endpoint) s;
         (rcvd, s) = wait_until P received timeout s in
     if rcvd = None then Some (Again (-6), s)
     else (let (rx_status, s) = usb10_read_reg P RX_STATUS s; received_pid = USB10_RX_STATUS_PID rx_status in
       if knows_nak \<and> received_pid = USB10_PID_NAK then Some (Stop (-8), s)
       else if received_pid = USB10_PID_STALL then Some (Stop (-12), s)
       else (let (st, s) = usb10_read_reg P STATUS s in
         if st AND USB10_STATUS_CRC16_OK_BIT = 0 then Some (Again (-10), delay_us P 20 s)
         else (let s = usb10_write_reg P COMMAND (USB10_CMD_START_BIT OR USB10_CMD_SET_PID USB10_PID_ACK OR USB10_CMD_SEND_SHORT_TOKEN) s;
                   (ok, s) = usb10_wait_cmd_complete P 20000 s in
           if ok = 0 then Some (Stop (-7), s)
           else if received_pid \<noteq> USB10_PID_DATA0 \<and> received_pid \<noteq> USB10_PID_DATA1 then Some (Again e_pid, s)
           else do {
             (sent, recv) \<leftarrow> pids address endpoint s;
             if received_pid = recv then Some (Again e_dupe, s)
             else Some (Got rx_status, set_pids address endpoint (sent, received_pid) s)
           }))))"

primrec recv_packet :: "nat \<Rightarrow> ('p usb \<Rightarrow> (attempt \<times> 'p usb) option) \<Rightarrow> 'p usb \<Rightarrow> ((int + u32) \<times> 'p usb) option" where
  "recv_packet 0 attempt s = do { (a, s) \<leftarrow> attempt s;
     Some (case a of Again e \<Rightarrow> Inl e | Stop e \<Rightarrow> Inl e | Got rx_status \<Rightarrow> Inr rx_status, s) }"
| "recv_packet (Suc retry) attempt s = do { (a, s) \<leftarrow> attempt s;
     case a of Again e \<Rightarrow> recv_packet retry attempt s | Stop e \<Rightarrow> Some (Inl e, s) | Got rx_status \<Rightarrow> Some (Inr rx_status, s) }"

text \<open>The response, when there is a place for it: two words at \<open>response_data + i * 8\<close>.\<close>

definition put_word :: "nat \<Rightarrow> u32 \<Rightarrow> u8 list \<Rightarrow> u8 list option" where
  "put_word i w b = (if i + 4 \<le> length b then Some (st32 b i w) else None)"

definition get_word :: "nat \<Rightarrow> u8 list \<Rightarrow> u32 option" where
  "get_word i b = (if i + 4 \<le> length b then Some (ld32 b i) else None)"

definition collect :: "'p usb_port \<Rightarrow> nat \<Rightarrow> nat \<Rightarrow> u8 list option \<Rightarrow> 'p usb \<Rightarrow> (u8 list option \<times> 'p usb) option" where
  "collect P i response_size response_data s =
    (case response_data of None \<Rightarrow> Some (None, s) | Some b \<Rightarrow>
       if response_size = 0 then Some (Some b, s)
       else (let (low, s) = usb10_read_reg P RECV_DATA_LOW s in do {
         b \<leftarrow> put_word (i * 8) low b;
         let (high, s) = usb10_read_reg P RECV_DATA_HIGH s in do {
         b \<leftarrow> put_word (i * 8 + 4) high b;
         Some (Some b, s) } }))"

definition num_of_data_packets :: "nat \<Rightarrow> nat" where
  "num_of_data_packets n = (if n mod USB10_LOW_SPEED_DATA_SIZE \<noteq> 0 then n div USB10_LOW_SPEED_DATA_SIZE + 1
     else n div USB10_LOW_SPEED_DATA_SIZE)"

definition packet_bytes :: "nat \<Rightarrow> nat \<Rightarrow> nat" where
  "packet_bytes i n = (if (i + 1) * USB10_LOW_SPEED_DATA_SIZE \<le> n then USB10_LOW_SPEED_DATA_SIZE else n mod USB10_LOW_SPEED_DATA_SIZE)"

text \<open>The loop over the packets from \<open>i\<close> on; \<open>bytes_received\<close> is added to as an unsigned number.\<close>

primrec recv_loop :: "nat \<Rightarrow> 'p usb_port \<Rightarrow> ('p usb \<Rightarrow> (attempt \<times> 'p usb) option) \<Rightarrow> nat \<Rightarrow> nat \<Rightarrow> u32 \<Rightarrow> u8 list option \<Rightarrow> 'p usb \<Rightarrow>
    (int \<times> u8 list option \<times> 'p usb) option" where
  "recv_loop 0 P attempt i response_size bytes_received response_data s = Some (sint bytes_received, response_data, s)"
| "recv_loop (Suc n) P attempt i response_size bytes_received response_data s = do {
     (r, s) \<leftarrow> recv_packet 8 attempt s;
     case r of Inl ret \<Rightarrow> Some (ret, response_data, s)
     | Inr rx_status \<Rightarrow> do {
         (response_data, s) \<leftarrow> collect P i response_size response_data s;
         let len = USB10_RX_STATUS_LEN rx_status; bytes_received = bytes_received + (len - 8 - 16) div 8 in
         if len \<noteq> word_of_nat (packet_bytes i response_size * 8 + 8 + 16) then Some (sint bytes_received, response_data, s)
         else recv_loop n P attempt (i + 1) response_size bytes_received response_data s } }"

section \<open>Requests\<close>

text \<open>The setup stage: \<open>again_setup\<close>, repeated while \<open>--retry\<close>; zero when it was acknowledged.\<close>

primrec setup_stage :: "nat \<Rightarrow> 'p usb_port \<Rightarrow> u8 \<Rightarrow> u8 \<Rightarrow> u8 list \<Rightarrow> 'p usb \<Rightarrow> (int \<times> 'p usb) option" where
  "setup_stage 0 P address endpoint request_data s = None"
| "setup_stage (Suc retry) P address endpoint request_data s = do {
     low \<leftarrow> get_word 0 request_data;
     high \<leftarrow> get_word 4 request_data;
     (sent, _) \<leftarrow> pids address 0 s;
     let s = usb10_write_reg P SEND_DATA_LOW low s; s = usb10_write_reg P SEND_DATA_HIGH high s;
         data_pid = (if sent = USB10_PID_DATA0 then USB10_PID_DATA1 else USB10_PID_DATA0);
         s = usb10_write_reg P COMMAND (long_token USB10_PID_SETUP address endpoint) s;
         (ok, s) = usb10_wait_cmd_complete P 20000 s in
     if ok = 0 then Some (-2, s)
     else (let s = usb10_write_reg P COMMAND (USB10_CMD_START_BIT OR USB10_CMD_SET_LEN (8 * 8 - 1) OR USB10_CMD_SET_PID data_pid OR
               USB10_CMD_SEND_DATA) s;
             (ok, s) = usb10_wait_cmd_complete P 5000 s in
       if ok = 0 then Some (-3, s)
       else (let (rcvd, s) = wait_until P received 2500 s in
         if rcvd = None then (if retry \<noteq> 0 then setup_stage retry P address endpoint request_data s else Some (-4, s))
         else do {
           (_, recv) \<leftarrow> pids address 0 s;
           let s = set_pids address 0 (data_pid, recv) s; (rx_status, s) = usb10_read_reg P RX_STATUS s in
           if USB10_RX_STATUS_PID rx_status \<noteq> USB10_PID_ACK
           then (if retry \<noteq> 0 then setup_stage retry P address endpoint request_data s else Some (-5, s))
           else Some (0, s) })) }"

text \<open>Interrupts are off during the request.\<close>

definition usb10_setup_request :: "'p usb_port \<Rightarrow> u8 \<Rightarrow> u8 \<Rightarrow> u8 list \<Rightarrow> u8 list option \<Rightarrow> nat \<Rightarrow> 'p usb \<Rightarrow>
    (int \<times> u8 list option \<times> 'p usb) option" where
  "usb10_setup_request P address endpoint request_data response_data response_size s =
    (if MAX_ADDRESSES \<le> unat address then Some (-999, response_data, s)
     else (let (ok, s) = usb10_wait_while_busy P 10000 s in
       if ok = 0 then Some (-1, response_data, s)
       else do {
         _ \<leftarrow> pids address endpoint s;
         let s = set_pids address endpoint (USB10_PID_DATA1, USB10_PID_DATA0) (s\<lparr>MIE := False\<rparr>) in do {
         (ret, s) \<leftarrow> setup_stage 3 P address endpoint request_data s;
         (ret, response_data, s) \<leftarrow> (if ret \<noteq> 0 then Some (ret, response_data, s)
           else recv_loop (num_of_data_packets response_size) P (recv_attempt P 2500 False (-8) (-9) address endpoint)
             0 response_size 0 response_data s);
         Some (ret, response_data, s\<lparr>MIE := True\<rparr>) } }))"

definition usb10_in_request :: "'p usb_port \<Rightarrow> u8 \<Rightarrow> u8 \<Rightarrow> u8 list option \<Rightarrow> nat \<Rightarrow> 'p usb \<Rightarrow>
    (int \<times> u8 list option \<times> 'p usb) option" where
  "usb10_in_request P address endpoint response_data response_size s =
    (if MAX_ADDRESSES \<le> unat address \<or> MAX_ENDPOINTS \<le> unat endpoint then Some (-999, response_data, s)
     else (let (ok, s) = usb10_wait_while_busy P 10000 s in
       if ok = 0 then Some (-1, response_data, s)
       else do {
         (ret, response_data, s) \<leftarrow> recv_loop (if response_size = 0 then 1 else num_of_data_packets response_size) P
           (recv_attempt P 25000 True (-9) (-10) address endpoint) 0 response_size 0 response_data (s\<lparr>MIE := False\<rparr>);
         Some (ret, response_data, s\<lparr>MIE := True\<rparr>) }))"

text \<open>One packet of \<open>usb10_out_request\<close>: \<open>again_out\<close>, with the PID chosen before the loop. The words are those at the
  start of \<open>request_data\<close>.\<close>

definition out_attempt :: "'p usb_port \<Rightarrow> u8 \<Rightarrow> u8 \<Rightarrow> u8 list option \<Rightarrow> nat \<Rightarrow> int \<Rightarrow> u8 \<Rightarrow> 'p usb \<Rightarrow> (attempt \<times> 'p usb) option" where
  "out_attempt P address endpoint request_data request_size packet_size_bits data_pid s = do {
     s \<leftarrow> (case request_data of None \<Rightarrow> Some s | Some b \<Rightarrow> if request_size = 0 then Some s else do {
       low \<leftarrow> get_word 0 b;
       high \<leftarrow> get_word 4 b;
       Some (usb10_write_reg P SEND_DATA_HIGH high (usb10_write_reg P SEND_DATA_LOW low s)) });
     let s = usb10_write_reg P COMMAND (long_token USB10_PID_OUT address endpoint) s;
         (ok, s) = usb10_wait_cmd_complete P 20000 s in
     if ok = 0 then Some (Stop (-2), s)
     else (let s = usb10_write_reg P COMMAND (USB10_CMD_START_BIT OR USB10_CMD_SET_LEN packet_size_bits OR USB10_CMD_SET_PID data_pid OR
               USB10_CMD_SEND_DATA) s;
             (ok, s) = usb10_wait_cmd_complete P 5000 s in
       if ok = 0 then Some (Stop (-3), s)
       else (let (rcvd, s) = wait_until P received 2500 s in
         if rcvd = None then Some (Again (-6), s)
         else (let (rx_status, s) = usb10_read_reg P RX_STATUS s; received_pid = USB10_RX_STATUS_PID rx_status in
           if received_pid = USB10_PID_NAK then Some (Stop (-8), s)
           else if received_pid = USB10_PID_STALL then Some (Stop (-9), s)
           else if received_pid \<noteq> USB10_PID_ACK then Some (Again (-9), s)
           else do {
             (_, recv) \<leftarrow> pids address endpoint s;
             Some (Got rx_status, set_pids address endpoint (data_pid, recv) s) }))) }"

primrec out_loop :: "nat \<Rightarrow> 'p usb_port \<Rightarrow> u8 \<Rightarrow> u8 \<Rightarrow> u8 list option \<Rightarrow> nat \<Rightarrow> nat \<Rightarrow> 'p usb \<Rightarrow> (int \<times> 'p usb) option" where
  "out_loop 0 P address endpoint request_data request_size i s = Some (0, s)"
| "out_loop (Suc n) P address endpoint request_data request_size i s = do {
     (sent, _) \<leftarrow> pids address endpoint s;
     let packet_size_bits = int (packet_bytes i request_size) * 8 - 1;
         data_pid = (if sent = USB10_PID_DATA0 then USB10_PID_DATA1 else USB10_PID_DATA0) in do {
     (r, s) \<leftarrow> recv_packet 8 (out_attempt P address endpoint request_data request_size packet_size_bits data_pid) s;
     case r of Inl ret \<Rightarrow> Some (ret, s) | Inr _ \<Rightarrow> out_loop n P address endpoint request_data request_size (i + 1) s } }"

definition usb10_out_request :: "'p usb_port \<Rightarrow> u8 \<Rightarrow> u8 \<Rightarrow> u8 list option \<Rightarrow> nat \<Rightarrow> 'p usb \<Rightarrow> (int \<times> 'p usb) option" where
  "usb10_out_request P address endpoint request_data request_size s =
    (if MAX_ADDRESSES \<le> unat address \<or> MAX_ENDPOINTS \<le> unat endpoint then Some (-999, s)
     else (let (ok, s) = usb10_wait_while_busy P 10000 s in
       if ok = 0 then Some (-1, s)
       else do {
         (ret, s) \<leftarrow> out_loop (if request_size = 0 then 1 else num_of_data_packets request_size) P address endpoint
           request_data request_size 0 (s\<lparr>MIE := False\<rparr>);
         Some (ret, s\<lparr>MIE := True\<rparr>) }))"

section \<open>Control transfers\<close>

definition half_bytes :: "u16 \<Rightarrow> u8 list" where
  "half_bytes w = [ucast w, ucast (drop_bit 8 w)]"

text \<open>The bytes of a \<open>USB10_SetupRequest\<close>.\<close>

definition setup_bytes :: "u8 \<Rightarrow> u8 \<Rightarrow> u16 \<Rightarrow> u16 \<Rightarrow> u16 \<Rightarrow> u8 list" where
  "setup_bytes bmRequestType bRequest wValue bIndex wLength =
    [bmRequestType, bRequest] @ half_bytes wValue @ half_bytes bIndex @ half_bytes wLength"

definition usb10_get_device_descriptor :: "'p usb_port \<Rightarrow> u8 \<Rightarrow> u8 \<Rightarrow> u8 \<Rightarrow> u8 \<Rightarrow> u16 \<Rightarrow> u8 list \<Rightarrow> 'p usb \<Rightarrow>
    (int \<times> u8 list \<times> 'p usb) option" where
  "usb10_get_device_descriptor P address endpoint descr_type descr_item resp_len descr_resp s = do {
     (ret, resp, s) \<leftarrow> usb10_setup_request P address endpoint
       (setup_bytes 0x80 0x06 (push_bit 8 (ucast descr_type) OR ucast descr_item) 0 resp_len) (Some descr_resp) (unat resp_len) s;
     let descr_resp = (case resp of Some b \<Rightarrow> b | None \<Rightarrow> descr_resp) in
     if ret < 0 then Some (ret, descr_resp, s)
     else do {
       (out, s) \<leftarrow> usb10_out_request P address endpoint None 0 s;
       Some (if out < 0 then out else ret, descr_resp, s) } }"

text \<open>The end of a transaction: at most five tries while the device is not ready.\<close>

primrec status_stage :: "nat \<Rightarrow> 'p usb_port \<Rightarrow> u8 \<Rightarrow> u8 \<Rightarrow> int \<Rightarrow> 'p usb \<Rightarrow> (int \<times> 'p usb) option" where
  "status_stage 0 P address endpoint ret s = Some (ret, s)"
| "status_stage (Suc n) P address endpoint ret s = do {
     (ret, _, s) \<leftarrow> usb10_in_request P address endpoint None 0 s;
     if ret > 0 then Some (ret, s) else if ret = -8 then status_stage n P address endpoint ret s else Some (ret, s) }"

definition usb10_set_value :: "'p usb_port \<Rightarrow> u8 \<Rightarrow> u8 \<Rightarrow> u8 \<Rightarrow> u8 \<Rightarrow> u16 \<Rightarrow> u8 \<Rightarrow> u16 \<Rightarrow> 'p usb \<Rightarrow> (int \<times> 'p usb) option" where
  "usb10_set_value P address endpoint bmRequestType bRequest wValue bIndex wLength s = do {
     (ret, _, s) \<leftarrow> usb10_setup_request P address endpoint (setup_bytes bmRequestType bRequest wValue (ucast bIndex) wLength) None 0 s;
     if ret < 0 then Some (ret, s) else status_stage 5 P address endpoint ret s }"

text \<open>The last seven bytes of \<open>led_status\<close> are not initialised.\<close>

definition usb10_hid_set_led :: "'p usb_port \<Rightarrow> u8 list \<Rightarrow> u8 \<Rightarrow> u8 \<Rightarrow> u8 \<Rightarrow> 'p usb \<Rightarrow> (int \<times> 'p usb) option" where
  "usb10_hid_set_led P junk address endpoint leds s = do {
     (ret, _, s) \<leftarrow> usb10_setup_request P address 0 (setup_bytes 0x21 0x09 0x0200 (ucast endpoint) 1) None 0 s;
     if ret < 0 then Some (ret, s)
     else do {
       (ret, s) \<leftarrow> usb10_out_request P address 0 (Some (leds # take 7 junk)) 1 (delay_us P 200 s);
       if ret < 0 then Some (ret, s)
       else do { (ret, _, s) \<leftarrow> usb10_in_request P address 0 None 0 s; Some (ret, s) } } }"

section \<open>Descriptors\<close>

text \<open>\<open>memcpy\<close> of \<open>n\<close> bytes at \<open>p\<close> to a descriptor that has not been filled yet.\<close>

definition first_descr :: "nat \<Rightarrow> u8 list \<Rightarrow> nat \<Rightarrow> u8 list \<Rightarrow> u8 list option" where
  "first_descr n bulk p descr =
    (if descr = [] \<or> length descr < n then None
     else if descr ! 0 \<noteq> 0 then Some descr
     else if p + n \<le> length bulk then Some (take n (drop p bulk) @ drop n descr) else None)"

primrec parse_loop :: "nat \<Rightarrow> u8 list \<Rightarrow> int \<Rightarrow> nat \<Rightarrow> 'p usb \<Rightarrow> 'p usb option" where
  "parse_loop 0 bulk bytes p s = None"
| "parse_loop (Suc fuel) bulk bytes p s =
    (if bytes \<le> int p then Some s
     else if length bulk < p + 2 then None
     else (let descr_type = bulk ! (p + 1) in do {
       s \<leftarrow> (if descr_type = 0x02 then map_option (\<lambda>d. s\<lparr>usb10_config_descr := d\<rparr>) (first_descr 9 bulk p (usb10_config_descr s))
         else if descr_type = 0x04 then map_option (\<lambda>d. s\<lparr>usb10_interface_descr := d\<rparr>) (first_descr 9 bulk p (usb10_interface_descr s))
         else if descr_type = 0x05 then map_option (\<lambda>d. s\<lparr>usb10_endpoint_descr := d\<rparr>) (first_descr 7 bulk p (usb10_endpoint_descr s))
         else Some s);
       parse_loop fuel bulk bytes (p + unat (bulk ! p)) s }))"

definition obsolete :: "u8 list \<Rightarrow> u8 list" where
  "obsolete descr = descr[0 := 0]"

text \<open>\<open>bulk_config_data\<close> is on the stack and not initialised. The pointers for the results are null, as in the monitor.\<close>

definition usb10_init :: "nat \<Rightarrow> 'p usb_port \<Rightarrow> u8 list \<Rightarrow> 'p usb \<Rightarrow> (int \<times> 'p usb) option" where
  "usb10_init fuel P bulk s = (let error = (\<lambda>ret s. Some (ret, s\<lparr>usb10_device_address := 0\<rparr>)) in
    (let (ret, s) = usb10_bus_reset P 12000 s in
     if ret < 0 then error ret s
     else do {
       (ret, d, s) \<leftarrow> usb10_get_device_descriptor P 0 0 1 0 18 (usb10_device_descr s) s;
       let s = s\<lparr>usb10_device_descr := d\<rparr> in
       if ret < 0 then error ret s
       else (let (ret, s) = usb10_bus_reset P 12000 s in
         if ret < 0 then error ret s
         else (let device_address = (usb10_device_address s + 1) mod 4 in do {
           (ret, s) \<leftarrow> usb10_set_value P 0 0 0 0x05 (ucast device_address) 0 0 s;
           if ret < 0 then error ret s
           else do {
             (ret, bulk, s) \<leftarrow> usb10_get_device_descriptor P device_address 0 2 0 255 bulk s;
             if ret < 0 then error ret s
             else do {
               s \<leftarrow> parse_loop fuel bulk ret 0 (s\<lparr>usb10_config_descr := obsolete (usb10_config_descr s),
                 usb10_interface_descr := obsolete (usb10_interface_descr s), usb10_endpoint_descr := obsolete (usb10_endpoint_descr s)\<rparr>);
               (ret, s) \<leftarrow> usb10_set_value P device_address 0 0 0x09 1 0 0 s;
               if ret < 0 then error ret s
               else Some (0, s\<lparr>usb10_device_address := device_address\<rparr>) } } })) }))"

section \<open>What no hardware can make the driver do\<close>

text \<open>A request changes the bus and the toggles only, and the table of the toggles keeps its shape.\<close>

definition pids_ok :: "'p usb \<Rightarrow> bool" where
  "pids_ok s \<longleftrightarrow> length (last_data_pid s) = 4 \<and> (\<forall>row \<in> set (last_data_pid s). length row = 4)"

definition same_driver :: "'p usb \<Rightarrow> 'p usb \<Rightarrow> bool" where
  "same_driver s t \<longleftrightarrow> MIE t = MIE s \<and> usb10_device_address t = usb10_device_address s \<and>
     usb10_device_descr t = usb10_device_descr s \<and> usb10_config_descr t = usb10_config_descr s \<and>
     usb10_interface_descr t = usb10_interface_descr s \<and> usb10_endpoint_descr t = usb10_endpoint_descr s \<and>
     (pids_ok s \<longrightarrow> pids_ok t)"

lemma same_driver_refl [simp]: "same_driver s s"
  by (simp add: same_driver_def)

lemma same_driver_trans: "same_driver s t \<Longrightarrow> same_driver t u \<Longrightarrow> same_driver s u"
  by (simp add: same_driver_def)

lemma same_bus [simp]: "same_driver s (t\<lparr>bus := p\<rparr>) = same_driver s t"
  by (simp add: same_driver_def pids_ok_def)

lemma same_write [simp]: "same_driver s (usb10_write_reg P r v t) = same_driver s t"
  by (simp add: usb10_write_reg_def)

lemma same_delay [simp]: "same_driver s (delay_us P n t) = same_driver s t"
  by (simp add: delay_us_def)

lemma same_read: "usb10_read_reg P r s = (v, t) \<Longrightarrow> same_driver s t"
  by (auto simp: usb10_read_reg_def split: prod.splits)

lemma same_wait: "wait_until P c timeout s = (r, t) \<Longrightarrow> same_driver s t"
proof (induction P c timeout s arbitrary: r t rule: wait_until.induct)
  case (1 P c timeout s)
  obtain st u where u: "usb10_read_reg P STATUS s = (st, u)" by (cases "usb10_read_reg P STATUS s")
  have w: "wait_until P c timeout s = (if timeout \<le> 0 then (None, s) else if c st then (Some (timeout - 1), u)
      else wait_until P c (timeout - 1) u)" by (simp add: wait_until.simps [of P c timeout] u)
  show ?case
  proof (cases "timeout \<le> 0 \<or> c st")
    case True
    then show ?thesis using 1(2) w same_read [OF u] by (auto split: if_splits)
  next
    case False
    then have "same_driver u t" using 1(1) [OF _ u [symmetric]] 1(2) w u by auto
    then show ?thesis using same_read [OF u] by (rule same_driver_trans [rotated])
  qed
qed

lemma same_busy: "usb10_wait_while_busy P timeout s = (r, t) \<Longrightarrow> same_driver s t"
  by (auto simp: usb10_wait_while_busy_def split: prod.splits dest: same_wait)

lemma same_complete: "usb10_wait_cmd_complete P timeout s = (r, t) \<Longrightarrow> same_driver s t"
  unfolding usb10_wait_cmd_complete_def
  by (rule same_driver_trans [OF same_wait [OF prod.collapse [symmetric]] same_busy])

lemma pids_ok_set: "pids_ok t \<Longrightarrow> unat a < 4 \<Longrightarrow> pids_ok (set_pids a e p t)"
  by (auto simp: pids_ok_def set_pids_def all_set_conv_all_nth nth_list_update)

lemma same_pids: "same_driver s t \<Longrightarrow> unat a < 4 \<Longrightarrow> same_driver s (set_pids a e p t)"
  using pids_ok_set [of t a e p] by (simp add: same_driver_def) (simp add: set_pids_def)

text \<open>A step that ends well, from the state \<open>s\<close>, with a result and a state for which \<open>Q\<close> holds.\<close>

definition ends :: "'p usb \<Rightarrow> ('a \<Rightarrow> bool) \<Rightarrow> ('a \<times> 'p usb) option \<Rightarrow> bool" where
  "ends s Q r \<longleftrightarrow> (\<exists>a t. r = Some (a, t) \<and> Q a \<and> same_driver s t)"

lemma ends_Some: "Q a \<Longrightarrow> same_driver s t \<Longrightarrow> ends s Q (Some (a, t))"
  by (simp add: ends_def)

lemma ends_read:
  assumes "same_driver s t" "\<And>v u. same_driver s u \<Longrightarrow> ends s Q (f v u)"
  shows "ends s Q (case usb10_read_reg P r t of (v, u) \<Rightarrow> f v u)"
  using assms same_driver_trans [OF assms(1) same_read] by (cases "usb10_read_reg P r t") auto

lemma ends_wait:
  assumes "same_driver s t" "\<And>v u. same_driver s u \<Longrightarrow> ends s Q (f v u)"
  shows "ends s Q (case wait_until P c n t of (v, u) \<Rightarrow> f v u)"
  using assms same_driver_trans [OF assms(1) same_wait] by (cases "wait_until P c n t") auto

lemma ends_complete:
  assumes "same_driver s t" "\<And>v u. same_driver s u \<Longrightarrow> ends s Q (f v u)"
  shows "ends s Q (case usb10_wait_cmd_complete P n t of (v, u) \<Rightarrow> f v u)"
  using assms same_driver_trans [OF assms(1) same_complete] by (cases "usb10_wait_cmd_complete P n t") auto

lemma ends_pids:
  assumes "unat a < 4" "unat e < 4" "\<And>x y. ends s Q (f x y)"
  shows "ends s Q (pids a e t \<bind> (\<lambda>(x, y). f x y))"
  using assms by (cases "last_data_pid t ! unat a ! unat e") (simp add: pids_def)

lemma ends_bind:
  assumes "ends s R r" "\<And>x t. R x \<Longrightarrow> same_driver s t \<Longrightarrow> ends s Q (f x t)"
  shows "ends s Q (r \<bind> (\<lambda>(x, t). f x t))"
  using assms by (auto simp: ends_def)

lemma ends_trans: "same_driver s t \<Longrightarrow> ends t Q r \<Longrightarrow> ends s Q r"
  unfolding ends_def using same_driver_trans by blast

lemmas ends_intros = ends_read ends_wait ends_complete ends_pids ends_Some

lemma recv_attempt_ends:
  assumes "unat a < 4" "unat e < 4"
  shows "ends s (\<lambda>_. True) (recv_attempt P n knows e1 e2 a e s)"
  unfolding recv_attempt_def Let_def using assms
  by (auto intro!: ends_intros simp: same_pids)

lemma recv_packet_ends:
  assumes "\<And>t. ends t (\<lambda>_. True) (attempt t)"
  shows "ends s (\<lambda>_. True) (recv_packet n attempt s)"
proof (induction n arbitrary: s)
  case 0
  show ?case using assms [of s] by (auto simp: ends_def)
next
  case (Suc n)
  obtain x t where t: "attempt s = Some (x, t)" "same_driver s t" using assms [of s] by (auto simp: ends_def)
  show ?case using ends_trans [OF t(2) Suc] t by (cases x) (auto simp: ends_def)
qed

text \<open>The response is written from the packet \<open>i\<close> on, eight bytes for each packet.\<close>

definition response_ok :: "nat \<Rightarrow> nat \<Rightarrow> u8 list option \<Rightarrow> u8 list option \<Rightarrow> bool" where
  "response_ok i j r q \<longleftrightarrow> (case r of None \<Rightarrow> q = None | Some b \<Rightarrow> \<exists>c. q = Some c \<and> length c = length b \<and>
     take i c = take i b \<and> drop j c = drop j b)"

lemma response_ok_refl [simp]: "response_ok i j r r"
  by (simp add: response_ok_def split: option.split)

lemma response_ok_trans: "response_ok i j r q \<Longrightarrow> response_ok k l q p \<Longrightarrow> i \<le> k \<Longrightarrow> j \<le> l \<Longrightarrow> response_ok i l r p"
proof -
  assume *: "response_ok i j r q" "response_ok k l q p" "i \<le> k" "j \<le> l"
  have t: "take i c = take i b" if "take k c = take k b" for b c :: "u8 list"
    using arg_cong [OF that, of "take i"] *(3) by (simp add: min_absorb1)
  have d: "drop l c = drop l b" if "drop j c = drop j b" for b c :: "u8 list"
    using arg_cong [OF that, of "drop (l - j)"] *(4) by simp
  show ?thesis
  proof (cases r)
    case (Some b)
    with *(1) obtain c where c: "q = Some c" "length c = length b" "take i c = take i b" "drop j c = drop j b"
      by (auto simp: response_ok_def)
    with *(2) obtain c' where c': "p = Some c'" "length c' = length c" "take k c' = take k c" "drop l c' = drop l c"
      by (auto simp: response_ok_def)
    then show ?thesis using c t [OF c'(3)] d [OF c(4)] Some by (simp add: response_ok_def)
  qed (use * in \<open>simp add: response_ok_def\<close>)
qed

lemma put_word_ok:
  assumes "i + 4 \<le> length b"
  obtains c where "put_word i w b = Some c" "length c = length b" "take i c = take i b" "drop (i + 4) c = drop (i + 4) b"
  using that assms by (simp add: put_word_def st32_def)

lemma collect_ok:
  assumes "\<And>b. r = Some b \<Longrightarrow> n = 0 \<or> i * 8 + 8 \<le> length b"
  shows "\<exists>q t. collect P i n r s = Some (q, t) \<and> response_ok (i * 8) (i * 8 + 8) r q \<and> same_driver s t"
proof (cases r)
  case (Some b)
  show ?thesis
  proof (cases "n = 0")
    case False
    obtain low t high u where t: "usb10_read_reg P RECV_DATA_LOW s = (low, t)" "usb10_read_reg P RECV_DATA_HIGH t = (high, u)"
      by (metis prod.collapse)
    obtain c where c: "put_word (i * 8) low b = Some c" "length c = length b" "take (i * 8) c = take (i * 8) b"
      "drop (i * 8 + 4) c = drop (i * 8 + 4) b" by (rule put_word_ok [of "i * 8" b low]) (use assms Some False in auto)
    obtain d where d: "put_word (i * 8 + 4) high c = Some d" "length d = length c" "take (i * 8 + 4) d = take (i * 8 + 4) c"
      "drop (i * 8 + 4 + 4) d = drop (i * 8 + 4 + 4) c" by (rule put_word_ok [of "i * 8 + 4" c high]) (use assms Some False c(2) in auto)
    have "response_ok (i * 8) (i * 8 + 4) (Some b) (Some c)" "response_ok (i * 8 + 4) (i * 8 + 4 + 4) (Some c) (Some d)"
      using c d by (simp_all add: response_ok_def)
    from response_ok_trans [OF this] have "response_ok (i * 8) (i * 8 + 8) (Some b) (Some d)" by (simp add: add.assoc)
    moreover have "same_driver s u" using t same_read same_driver_trans by blast
    ultimately show ?thesis using Some False t c(1) d(1) by (simp add: collect_def)
  qed (simp add: collect_def Some)
qed (simp add: collect_def)

lemma recv_loop_ok:
  assumes "\<And>t. ends t (\<lambda>_. True) (attempt t)" "\<And>b. r = Some b \<Longrightarrow> n = 0 \<or> (i + k) * 8 \<le> length b"
  shows "\<exists>ret q t. recv_loop k P attempt i n bytes r s = Some (ret, q, t) \<and> response_ok (i * 8) ((i + k) * 8) r q \<and> same_driver s t"
  using assms(2)
proof (induction k arbitrary: i bytes r s)
  case (Suc k)
  obtain x t where t: "recv_packet 8 attempt s = Some (x, t)" "same_driver s t"
    using recv_packet_ends [OF assms(1), of s 8] by (auto simp: ends_def)
  show ?case
  proof (cases x)
    case (Inr rx)
    obtain q u where u: "collect P i n r t = Some (q, u)" "response_ok (i * 8) (i * 8 + 8) r q" "same_driver t u"
      using collect_ok [of r n i P t] Suc.prems by force
    have "\<And>b. q = Some b \<Longrightarrow> n = 0 \<or> (Suc i + k) * 8 \<le> length b"
      using Suc.prems u(2) by (auto simp: response_ok_def split: option.splits)
    then have "\<exists>ret p v. recv_loop k P attempt (Suc i) n (bytes + (USB10_RX_STATUS_LEN rx - 24) div 8) q u = Some (ret, p, v) \<and>
      response_ok (Suc i * 8) ((Suc i + k) * 8) q p \<and> same_driver u v" by (rule Suc.IH)
    then obtain ret p v where v: "recv_loop k P attempt (Suc i) n (bytes + (USB10_RX_STATUS_LEN rx - 24) div 8) q u = Some (ret, p, v)"
      "response_ok (Suc i * 8) ((Suc i + k) * 8) q p" "same_driver u v" by blast
    have "response_ok (i * 8) ((i + Suc k) * 8) r p" using response_ok_trans [OF u(2) v(2)] by (simp add: algebra_simps)
    moreover have "response_ok (i * 8) ((i + Suc k) * 8) r q"
      using response_ok_trans [OF u(2), of "i * 8 + 8" "(i + Suc k) * 8" q] by (simp add: algebra_simps)
    moreover have "same_driver s u" "same_driver s v" using t(2) u(3) v(3) same_driver_trans by blast+
    ultimately show ?thesis using t(1) u(1) v(1) Inr by (auto simp: Let_def)
  qed (use t in auto)
qed simp

lemma setup_stage_ends:
  assumes "unat a < 4" "8 \<le> length req"
  shows "ends s (\<lambda>_. True) (setup_stage (Suc k) P a e req s)"
proof (induction k arbitrary: s)
  case 0
  have g: "get_word 0 req = Some (ld32 req 0)" "get_word 4 req = Some (ld32 req 4)" using assms(2) by (simp_all add: get_word_def)
  show ?case unfolding setup_stage.simps(2) g bind.bind_lunit Let_def
    by (rule ends_pids) (use assms in \<open>auto intro!: ends_intros simp: same_pids\<close>)
next
  case (Suc k)
  have g: "get_word 0 req = Some (ld32 req 0)" "get_word 4 req = Some (ld32 req 4)" using assms(2) by (simp_all add: get_word_def)
  have r: "same_driver s t \<Longrightarrow> ends s (\<lambda>_. True) (setup_stage (Suc k) P a e req t)" for t by (rule ends_trans [OF _ Suc])
  show ?case unfolding setup_stage.simps(2) [of "Suc k"] g bind.bind_lunit Let_def
    by (rule ends_pids) (use assms in \<open>auto intro!: ends_intros r simp: same_pids simp del: setup_stage.simps\<close>)
qed

lemma same_mie: "MIE s \<Longrightarrow> same_driver (s\<lparr>MIE := x\<rparr>) t \<Longrightarrow> same_driver s (t\<lparr>MIE := True\<rparr>)"
  by (simp add: same_driver_def pids_ok_def)

lemma in_request_ok:
  assumes "MIE s" "unat e < 4 \<Longrightarrow> \<forall>b. r = Some b \<longrightarrow> num_of_data_packets n * 8 \<le> length b"
  shows "\<exists>ret q t. usb10_in_request P a e r n s = Some (ret, q, t) \<and> response_ok 0 (num_of_data_packets n * 8) r q \<and> same_driver s t"
proof (cases "4 \<le> unat a \<or> 4 \<le> unat e")
  case False
  obtain ok t where t: "usb10_wait_while_busy P 10000 s = (ok, t)" by (cases "usb10_wait_while_busy P 10000 s")
  have st: "same_driver s t" by (rule same_busy [OF t])
  let ?k = "if n = 0 then 1 else num_of_data_packets n"
  have "\<exists>ret q u. recv_loop ?k P (recv_attempt P 25000 True (-9) (-10) a e) 0 n 0 r (t\<lparr>MIE := False\<rparr>) = Some (ret, q, u) \<and>
      response_ok (0 * 8) ((0 + ?k) * 8) r q \<and> same_driver (t\<lparr>MIE := False\<rparr>) u"
    by (rule recv_loop_ok, rule recv_attempt_ends) (use False assms(2) in auto)
  then obtain ret q u where u: "recv_loop ?k P (recv_attempt P 25000 True (-9) (-10) a e) 0 n 0 r (t\<lparr>MIE := False\<rparr>) = Some (ret, q, u)"
    "response_ok 0 (?k * 8) r q" "same_driver (t\<lparr>MIE := False\<rparr>) u" by auto
  have "response_ok 0 (num_of_data_packets n * 8) r q"
  proof (cases "n = 0")
    case True
    then have "q = r" using u(1) by (auto simp: collect_def Let_def split: Option.bind_splits sum.splits option.splits if_splits)
    then show ?thesis by simp
  qed (use u(2) in simp)
  moreover have "MIE t" using st assms(1) by (simp add: same_driver_def)
  then have "same_driver s (u\<lparr>MIE := True\<rparr>)" using same_mie [OF _ u(3)] same_driver_trans [OF st] by blast
  ultimately show ?thesis using False t u(1) st unfolding usb10_in_request_def by (auto simp: Let_def)
qed (simp add: usb10_in_request_def)

lemma setup_request_ok:
  assumes "MIE s" "unat e < 4" "8 \<le> length req" "\<forall>b. r = Some b \<longrightarrow> num_of_data_packets n * 8 \<le> length b"
  shows "\<exists>ret q t. usb10_setup_request P a e req r n s = Some (ret, q, t) \<and> response_ok 0 (num_of_data_packets n * 8) r q \<and> same_driver s t"
proof (cases "4 \<le> unat a")
  case False
  obtain ok t where t: "usb10_wait_while_busy P 10000 s = (ok, t)" by (cases "usb10_wait_while_busy P 10000 s")
  have st: "same_driver s t" by (rule same_busy [OF t])
  then have m: "MIE t" using assms(1) by (simp add: same_driver_def)
  let ?t = "set_pids a e (0x4b, 0xc3) (t\<lparr>MIE := False\<rparr>)"
  have s2: "same_driver (t\<lparr>MIE := False\<rparr>) ?t" using False by (intro same_pids) auto
  obtain x u where u: "setup_stage 3 P a e req ?t = Some (x, u)" "same_driver ?t u"
    using setup_stage_ends [of a req ?t 2 P e] False assms(3) by (auto simp: ends_def numeral_3_eq_3)
  have "\<exists>ret q v. recv_loop (num_of_data_packets n) P (recv_attempt P 2500 False (-8) (-9) a e) 0 n 0 r u = Some (ret, q, v) \<and>
      response_ok (0 * 8) ((0 + num_of_data_packets n) * 8) r q \<and> same_driver u v"
    by (rule recv_loop_ok, rule recv_attempt_ends) (use False assms(2,4) in auto)
  then obtain ret q v where v: "recv_loop (num_of_data_packets n) P (recv_attempt P 2500 False (-8) (-9) a e) 0 n 0 r u = Some (ret, q, v)"
    "response_ok 0 (num_of_data_packets n * 8) r q" "same_driver u v" by auto
  have "same_driver (t\<lparr>MIE := False\<rparr>) u" "same_driver (t\<lparr>MIE := False\<rparr>) v"
    using same_driver_trans [OF s2 u(2)] same_driver_trans [OF _ v(3)] by blast+
  then have "same_driver s (u\<lparr>MIE := True\<rparr>)" "same_driver s (v\<lparr>MIE := True\<rparr>)"
    using same_mie [OF m] same_driver_trans [OF st] by blast+
  then show ?thesis using False t u(1) v(1,2) st assms(2) unfolding usb10_setup_request_def
    by (cases "x = 0") (auto simp: Let_def pids_def)
qed (simp add: usb10_setup_request_def)

lemma out_attempt_ends:
  assumes "unat a < 4" "unat e < 4" "\<forall>b. r = Some b \<longrightarrow> n = 0 \<or> 8 \<le> length b"
  shows "ends s (\<lambda>_. True) (out_attempt P a e r n bits pid s)"
proof -
  have "\<exists>t. (case r of None \<Rightarrow> Some s | Some b \<Rightarrow> if n = 0 then Some s else do {
       low \<leftarrow> get_word 0 b; high \<leftarrow> get_word 4 b;
       Some (usb10_write_reg P SEND_DATA_HIGH high (usb10_write_reg P SEND_DATA_LOW low s)) }) = Some t \<and> same_driver s t"
    using assms(3) by (auto simp: get_word_def split: option.split)
  then show ?thesis using assms(1,2) unfolding out_attempt_def Let_def by (auto intro!: ends_intros simp: same_pids)
qed

lemma out_loop_ends:
  assumes "unat a < 4" "unat e < 4" "\<forall>b. r = Some b \<longrightarrow> n = 0 \<or> 8 \<le> length b"
  shows "ends s (\<lambda>_. True) (out_loop k P a e r n i s)"
proof (induction k arbitrary: i s)
  case (Suc k)
  show ?case unfolding out_loop.simps(2) Let_def
  proof (intro ends_pids ends_bind)
    show "ends s (\<lambda>_. True) (recv_packet 8 (out_attempt P a e r n bits pid) s)" for bits pid
      by (intro recv_packet_ends out_attempt_ends assms)
  qed (use assms Suc in \<open>auto intro: ends_trans ends_Some split: sum.split\<close>)
qed (simp add: ends_Some)

lemma out_request_ok:
  assumes "MIE s" "\<forall>b. r = Some b \<longrightarrow> n = 0 \<or> 8 \<le> length b"
  shows "\<exists>ret t. usb10_out_request P a e r n s = Some (ret, t) \<and> same_driver s t"
proof (cases "4 \<le> unat a \<or> 4 \<le> unat e")
  case False
  obtain ok t where t: "usb10_wait_while_busy P 10000 s = (ok, t)" by (cases "usb10_wait_while_busy P 10000 s")
  have st: "same_driver s t" by (rule same_busy [OF t])
  let ?k = "if n = 0 then 1 else num_of_data_packets n"
  obtain x u where u: "out_loop ?k P a e r n 0 (t\<lparr>MIE := False\<rparr>) = Some (x, u)" "same_driver (t\<lparr>MIE := False\<rparr>) u"
    using out_loop_ends [of a e r n "t\<lparr>MIE := False\<rparr>" ?k P 0] False assms(2) by (auto simp: ends_def)
  have "MIE t" using st assms(1) by (simp add: same_driver_def)
  then have "same_driver s (u\<lparr>MIE := True\<rparr>)" using same_mie [OF _ u(2)] same_driver_trans [OF st] by blast
  then show ?thesis using False t u(1) st unfolding usb10_out_request_def by (auto simp: Let_def)
qed (simp add: usb10_out_request_def)

text \<open>C26. Whatever the controller and the device do, the three requests return: no loop goes on without end, no table is
  accessed outside, a response is written into the bytes of its packets only, interrupts are on again, and the descriptors and
  the address of the device stay.\<close>

theorem usb_requests_safe:
  assumes "MIE s" "pids_ok s" "unat e < MAX_ENDPOINTS" "8 \<le> length req" "num_of_data_packets n * 8 \<le> length b"
  shows "(\<exists>ret c t. usb10_setup_request P a e req (Some b) n s = Some (ret, Some c, t) \<and> length c = length b \<and>
      drop (num_of_data_packets n * 8) c = drop (num_of_data_packets n * 8) b \<and> same_driver s t \<and> MIE t \<and> pids_ok t) \<and>
    (\<exists>ret c t. usb10_in_request P a e (Some b) n s = Some (ret, Some c, t) \<and> length c = length b \<and>
      drop (num_of_data_packets n * 8) c = drop (num_of_data_packets n * 8) b \<and> same_driver s t \<and> MIE t \<and> pids_ok t) \<and>
    (\<exists>ret t. usb10_out_request P a e (Some req) m s = Some (ret, t) \<and> same_driver s t \<and> MIE t \<and> pids_ok t)"
proof -
  have m: "same_driver s t \<Longrightarrow> MIE t \<and> pids_ok t" for t using assms(1,2) by (simp add: same_driver_def)
  have r: "response_ok 0 j (Some b) q \<Longrightarrow> \<exists>c. q = Some c \<and> length c = length b \<and> drop j c = drop j b" for q j
    by (auto simp: response_ok_def)
  show ?thesis
    using setup_request_ok [OF assms(1,3,4), of "Some b" n P a] in_request_ok [OF assms(1), of e "Some b" n P a]
      out_request_ok [OF assms(1), of "Some req" m P a e] assms(4,5) by (fastforce dest: r m)
qed

text \<open>A controller that is never ready to send.\<close>

definition dead_port :: "unit usb_port" where
  "dead_port = \<lparr>read_port = (\<lambda>r p. (USB10_STATUS_BUSY_BIT, p)), write_port = (\<lambda>r v p. p), wait_us = (\<lambda>n p. p)\<rparr>"

definition usb_start :: "'p \<Rightarrow> 'p usb" where
  "usb_start p = \<lparr>bus = p, MIE = True, last_data_pid = replicate 4 (replicate 4 (USB10_PID_DATA1, USB10_PID_DATA0)),
     usb10_device_address = 0, usb10_device_descr = replicate 24 0, usb10_config_descr = replicate 9 0,
     usb10_interface_descr = replicate 9 0, usb10_endpoint_descr = replicate 7 0\<rparr>"

lemma usb_start_ok [simp]: "MIE (usb_start p)" "pids_ok (usb_start p)"
  by (simp_all add: usb_start_def pids_ok_def)

theorem usb_requests_safe_witness:
  "(\<exists>ret c t. usb10_setup_request dead_port 0 0 (replicate 8 0) (Some (replicate 24 0)) 18 (usb_start ()) = Some (ret, Some c, t) \<and> length c = 24 \<and>
      drop 24 c = [] \<and> same_driver (usb_start ()) t \<and> MIE t \<and> pids_ok t) \<and>
    (\<exists>ret c t. usb10_in_request dead_port 0 0 (Some (replicate 24 0)) 18 (usb_start ()) = Some (ret, Some c, t) \<and> length c = 24 \<and>
      drop 24 c = [] \<and> same_driver (usb_start ()) t \<and> MIE t \<and> pids_ok t) \<and>
    (\<exists>ret t. usb10_out_request dead_port 0 0 (Some (replicate 8 0)) 1 (usb_start ()) = Some (ret, t) \<and> same_driver (usb_start ()) t \<and> MIE t \<and> pids_ok t)"
  using usb_requests_safe [of "usb_start ()" 0 "replicate 8 0" 18 "replicate 24 0" dead_port 0 1]
  by (simp add: num_of_data_packets_def)

end
