(* ===== verification/UsbLine.thy ===== *)
theory UsbLine
  imports Usb
begin

text \<open>
  The USB driver (usb10.c) with a controller that works: what is documented of its registers (usb10.h) as the hypothesis
  \<open>obeys\<close> about the parameter \<open>P\<close>, and what follows for the driver.

  \<^item> The device at the other end is any function \<open>react\<close> of the commands and the bytes sent.
  \<^item> A command may take its time: \<open>lag\<close> bounds how often the status is read before its result shows.
\<close>

section \<open>A controller that works\<close>

text \<open>The last packet received: \<open>RX_STATUS\<close>, whether its CRC was right, and the eight bytes.\<close>

type_synonym packet = "u32 \<times> bool \<times> u32 \<times> u32"

record 'd line =
  device :: 'd
  reply :: "packet option"
  out_low :: u32
  out_high :: u32

type_synonym 'd reaction = "u32 \<Rightarrow> u32 \<Rightarrow> u32 \<Rightarrow> 'd \<Rightarrow> packet option \<times> 'd"

text \<open>A short token, the acknowledgement, has no answer, and the packet stays in the registers.\<close>

definition command :: "'d reaction \<Rightarrow> u32 \<Rightarrow> 'd line \<Rightarrow> 'd line" where
  "command react c l = (let (r, d) = react c (out_low l) (out_high l) (device l) in
     l\<lparr>device := d, reply := (if c AND 0x0f = USB10_CMD_SEND_SHORT_TOKEN then reply l else r)\<rparr>)"

definition status_ok :: "nat \<Rightarrow> packet option \<Rightarrow> u32 \<Rightarrow> bool" where
  "status_ok n r st \<longleftrightarrow> st AND USB10_STATUS_ERROR_BIT = 0 \<and> (n = 0 \<longrightarrow> \<not> busy st) \<and> (received st \<longleftrightarrow> n = 0 \<and> r \<noteq> None) \<and>
     (\<forall>rx ok lo hi. n = 0 \<and> r = Some (rx, ok, lo, hi) \<longrightarrow> (st AND USB10_STATUS_CRC16_OK_BIT \<noteq> 0 \<longleftrightarrow> ok))"

definition obeys :: "'p usb_port \<Rightarrow> ('p \<Rightarrow> 'd line) \<Rightarrow> ('p \<Rightarrow> nat) \<Rightarrow> 'd reaction \<Rightarrow> bool" where
  "obeys P view lag react \<longleftrightarrow>
     (\<forall>p v q. read_port P STATUS p = (v, q) \<longrightarrow> view q = view p \<and> lag q \<le> lag p - 1 \<and> status_ok (lag p) (reply (view p)) v) \<and>
     (\<forall>r p v q. r \<noteq> STATUS \<longrightarrow> read_port P r p = (v, q) \<longrightarrow> view q = view p \<and> lag q \<le> lag p \<and>
        (\<forall>rx ok lo hi. reply (view p) = Some (rx, ok, lo, hi) \<longrightarrow>
          (r = RX_STATUS \<longrightarrow> v = rx) \<and> (r = RECV_DATA_LOW \<longrightarrow> v = lo) \<and> (r = RECV_DATA_HIGH \<longrightarrow> v = hi))) \<and>
     (\<forall>p v. view (write_port P SEND_DATA_LOW v p) = (view p)\<lparr>out_low := v\<rparr> \<and> lag (write_port P SEND_DATA_LOW v p) \<le> lag p) \<and>
     (\<forall>p v. view (write_port P SEND_DATA_HIGH v p) = (view p)\<lparr>out_high := v\<rparr> \<and> lag (write_port P SEND_DATA_HIGH v p) \<le> lag p) \<and>
     (\<forall>p c. view (write_port P COMMAND c p) = command react c (view p) \<and> lag (write_port P COMMAND c p) \<le> 1000) \<and>
     (\<forall>p n. view (wait_us P n p) = view p \<and> lag (wait_us P n p) \<le> lag p)"

text \<open>A controller that does obey: the result shows after \<open>k\<close> reads of the status.\<close>

definition ideal_status :: "nat \<Rightarrow> packet option \<Rightarrow> u32" where
  "ideal_status n r = (if n > 0 then USB10_STATUS_BUSY_BIT else case r of None \<Rightarrow> 0
     | Some (rx, ok, lo, hi) \<Rightarrow> if ok then USB10_STATUS_RECEIVED_BIT OR USB10_STATUS_CRC16_OK_BIT else USB10_STATUS_RECEIVED_BIT)"

definition ideal_port :: "nat \<Rightarrow> 'd reaction \<Rightarrow> ('d line \<times> nat) usb_port" where
  "ideal_port k react = \<lparr>
     read_port = (\<lambda>r (l, n). if r = STATUS then (ideal_status n (reply l), (l, n - 1))
       else (case reply l of None \<Rightarrow> 0 | Some (rx, ok, lo, hi) \<Rightarrow> if r = RX_STATUS then rx else if r = RECV_DATA_LOW then lo
         else if r = RECV_DATA_HIGH then hi else 0, (l, n))),
     write_port = (\<lambda>r v (l, n). if r = SEND_DATA_LOW then (l\<lparr>out_low := v\<rparr>, n) else if r = SEND_DATA_HIGH then (l\<lparr>out_high := v\<rparr>, n)
       else if r = COMMAND then (command react v l, k) else (l, n)),
     wait_us = (\<lambda>n p. p)\<rparr>"

lemma ideal_obeys: "k \<le> 1000 \<Longrightarrow> obeys (ideal_port k react) fst snd react"
  by (auto simp: obeys_def ideal_port_def status_ok_def ideal_status_def split: option.split if_splits)

section \<open>The driver on the line\<close>

text \<open>The facts of a controller for a state of the driver; \<open>same_but_bus\<close> is a state that differs in the bus only.\<close>

definition same_but_bus :: "'p usb \<Rightarrow> 'p usb \<Rightarrow> bool" where
  "same_but_bus s t \<longleftrightarrow> t = s\<lparr>bus := bus t\<rparr>"

lemma same_but_bus_iff: "same_but_bus s t \<longleftrightarrow> (\<exists>p. t = s\<lparr>bus := p\<rparr>)"
  by (auto simp: same_but_bus_def)

lemma same_but_bus_refl [simp]: "same_but_bus s s"
  by (simp add: same_but_bus_def)

lemma same_but_bus_trans [trans]: "same_but_bus s t \<Longrightarrow> same_but_bus t u \<Longrightarrow> same_but_bus s u"
  by (auto simp: same_but_bus_iff)

lemma same_but_busI: "same_but_bus s (s\<lparr>bus := p\<rparr>)"
  by (simp add: same_but_bus_def)

lemma read_status:
  assumes "obeys P view lag react" "usb10_read_reg P STATUS s = (v, t)"
  shows "view (bus t) = view (bus s)" "lag (bus t) \<le> lag (bus s) - 1" "status_ok (lag (bus s)) (reply (view (bus s))) v" "same_but_bus s t"
  using assms unfolding obeys_def usb10_read_reg_def by (auto split: prod.splits simp: same_but_busI)

lemma read_other:
  assumes "obeys P view lag react" "usb10_read_reg P r s = (v, t)" "r \<noteq> STATUS"
  shows "view (bus t) = view (bus s)" "lag (bus t) \<le> lag (bus s)" "same_but_bus s t"
    "reply (view (bus s)) = Some (rx, ok, lo, hi) \<Longrightarrow>
      (r = RX_STATUS \<longrightarrow> v = rx) \<and> (r = RECV_DATA_LOW \<longrightarrow> v = lo) \<and> (r = RECV_DATA_HIGH \<longrightarrow> v = hi)"
  using assms unfolding obeys_def usb10_read_reg_def by (auto split: prod.splits simp: same_but_busI)

lemma write_command:
  assumes "obeys P view lag react"
  shows "view (bus (usb10_write_reg P COMMAND c s)) = command react c (view (bus s))" "lag (bus (usb10_write_reg P COMMAND c s)) \<le> 1000"
  using assms by (simp_all add: obeys_def usb10_write_reg_def)

lemma write_data:
  assumes "obeys P view lag react"
  shows "view (bus (usb10_write_reg P SEND_DATA_LOW v s)) = (view (bus s))\<lparr>out_low := v\<rparr>"
    "view (bus (usb10_write_reg P SEND_DATA_HIGH v s)) = (view (bus s))\<lparr>out_high := v\<rparr>"
    "lag (bus (usb10_write_reg P SEND_DATA_LOW v s)) \<le> lag (bus s)" "lag (bus (usb10_write_reg P SEND_DATA_HIGH v s)) \<le> lag (bus s)"
  using assms by (simp_all add: obeys_def usb10_write_reg_def)

lemma delay_line:
  assumes "obeys P view lag react"
  shows "view (bus (delay_us P n s)) = view (bus s)" "lag (bus (delay_us P n s)) \<le> lag (bus s)"
  using assms by (simp_all add: obeys_def delay_us_def)

lemma same_but_bus_set [simp]: "same_but_bus s (t\<lparr>bus := p\<rparr>) = same_but_bus s t"
proof
  assume "same_but_bus s (t\<lparr>bus := p\<rparr>)"
  then obtain q where "t\<lparr>bus := p\<rparr> = s\<lparr>bus := q\<rparr>" by (auto simp: same_but_bus_iff)
  then have "t\<lparr>bus := p\<rparr>\<lparr>bus := bus t\<rparr> = s\<lparr>bus := q\<rparr>\<lparr>bus := bus t\<rparr>" by simp
  then show "same_but_bus s t" by (simp add: same_but_bus_def)
qed (auto simp: same_but_bus_iff)

lemma same_but_bus_write [simp]: "same_but_bus s (usb10_write_reg P r v t) = same_but_bus s t" "same_but_bus s (delay_us P n t) = same_but_bus s t"
  by (simp_all add: usb10_write_reg_def delay_us_def)

lemma wait_unfold:
  assumes "usb10_read_reg P STATUS s = (st, u)"
  shows "wait_until P c n s = (if n \<le> 0 then (None, s) else if c st then (Some (n - 1), u) else wait_until P c (n - 1) u)"
  by (simp add: wait_until.simps [of P c n s] assms)

lemma wait_keeps:
  assumes "obeys P view lag react" "wait_until P c n s = (r, t)"
  shows "view (bus t) = view (bus s)" "lag (bus t) \<le> lag (bus s)" "same_but_bus s t"
proof -
  have "wait_until P c n s = (r, t) \<Longrightarrow> view (bus t) = view (bus s) \<and> lag (bus t) \<le> lag (bus s) \<and> same_but_bus s t" for r t
  proof (induction "nat n" arbitrary: n s r t)
    case (Suc k)
    obtain st u where u: "usb10_read_reg P STATUS s = (st, u)" by (cases "usb10_read_reg P STATUS s")
    note ru = read_status [OF assms(1) u]
    have n: "\<not> n \<le> 0" "k = nat (n - 1)" using Suc.hyps(2) by auto
    show ?case
    proof (cases "c st")
      case True
      then show ?thesis using Suc.prems n(1) ru by (auto simp: wait_unfold [OF u])
    next
      case False
      then have w: "wait_until P c (n - 1) u = (r, t)" using Suc.prems n(1) by (simp add: wait_unfold [OF u])
      show ?thesis using Suc.hyps(1) [OF n(2) w] ru same_but_bus_trans [OF ru(4)] by auto
    qed
  qed (simp add: wait_until.simps)
  with assms(2) show "view (bus t) = view (bus s)" "lag (bus t) \<le> lag (bus s)" "same_but_bus s t" by blast+
qed

lemma wait_received:
  assumes "obeys P view lag react" "wait_until P received n s = (r, t)" "int (lag (bus s)) < n"
  shows "r = None \<longleftrightarrow> reply (view (bus s)) = None" "r \<noteq> None \<Longrightarrow> lag (bus t) = 0"
proof -
  have "(r = None \<longleftrightarrow> reply (view (bus s)) = None) \<and> (r \<noteq> None \<longrightarrow> lag (bus t) = 0)"
    using assms(2,3)
  proof (induction "nat n" arbitrary: n s)
    case (Suc k)
    obtain st u where u: "usb10_read_reg P STATUS s = (st, u)" by (cases "usb10_read_reg P STATUS s")
    note ru = read_status [OF assms(1) u]
    have n: "\<not> n \<le> 0" "k = nat (n - 1)" using Suc.hyps(2) by auto
    show ?case
    proof (cases "received st")
      case True
      then show ?thesis using Suc.prems(1) n(1) ru by (auto simp: wait_unfold [OF u] status_ok_def)
    next
      case False
      then have w: "wait_until P received (n - 1) u = (r, t)" using Suc.prems(1) n(1) by (simp add: wait_unfold [OF u])
      show ?thesis
      proof (cases "lag (bus s) = 0")
        case True
        then have "reply (view (bus u)) = None" "lag (bus u) = 0" using False ru by (simp_all add: status_ok_def del: not_None_eq)
        moreover have "reply (view (bus s)) = None" using False True ru(3) by (simp add: status_ok_def del: not_None_eq)
        moreover have "r = None" if "n = 1" using w that by (simp add: wait_until.simps)
        ultimately show ?thesis using Suc.hyps(1) [OF n(2) w] n(1) by (cases "n = 1") auto
      next
        case False
        then show ?thesis using Suc.hyps(1) [OF n(2) w] ru(1,2) Suc.prems(2) by auto
      qed
    qed
  qed simp
  then show "r = None \<longleftrightarrow> reply (view (bus s)) = None" "r \<noteq> None \<Longrightarrow> lag (bus t) = 0" by auto
qed

lemma wait_not_busy:
  assumes "obeys P view lag react" "wait_until P (\<lambda>st. \<not> busy st) n s = (r, t)" "int (lag (bus s)) + 1 < n"
  shows "\<exists>m > 0. r = Some m"
  using assms(2,3)
proof (induction "nat n" arbitrary: n s)
  case (Suc k)
  obtain st u where u: "usb10_read_reg P STATUS s = (st, u)" by (cases "usb10_read_reg P STATUS s")
  note ru = read_status [OF assms(1) u]
  have n: "\<not> n \<le> 0" "k = nat (n - 1)" using Suc.hyps(2) by auto
  show ?case
  proof (cases "busy st")
    case True
    then have w: "wait_until P (\<lambda>st. \<not> busy st) (n - 1) u = (r, t)" "lag (bus s) \<noteq> 0"
      using Suc.prems(1) n(1) ru(3) by (auto simp: wait_unfold [OF u] status_ok_def)
    then show ?thesis using Suc.hyps(1) [OF n(2) w(1)] ru(2) Suc.prems(2) by auto
  next
    case False
    then show ?thesis using Suc.prems n(1) by (auto simp: wait_unfold [OF u])
  qed
qed simp

text \<open>The two functions that wait for the controller succeed.\<close>

lemma wait_while_busy_line:
  assumes "obeys P view lag react" "int (lag (bus s)) + 1 < n"
  obtains m t where "usb10_wait_while_busy P n s = (m, t)" "0 < m" "view (bus t) = view (bus s)" "lag (bus t) \<le> lag (bus s)" "same_but_bus s t"
proof -
  obtain r t where t: "wait_until P (\<lambda>st. \<not> busy st) n s = (r, t)" by (cases "wait_until P (\<lambda>st. \<not> busy st) n s")
  obtain m where "r = Some m" "0 < m" using wait_not_busy [OF assms(1) t assms(2)] by blast
  then show ?thesis using that t wait_keeps [OF assms(1) t] by (simp add: usb10_wait_while_busy_def)
qed

lemma wait_cmd_complete_line:
  assumes "obeys P view lag react" "int (lag (bus s)) + 1 < n"
  obtains m t where "usb10_wait_cmd_complete P n s = (m, t)" "0 < m" "view (bus t) = view (bus s)" "lag (bus t) \<le> lag (bus s)" "same_but_bus s t"
proof -
  obtain r u where u: "wait_until P busy 50 s = (r, u)" by (cases "wait_until P busy 50 s")
  note k = wait_keeps [OF assms(1) u]
  obtain m t where t: "usb10_wait_while_busy P n u = (m, t)" "0 < m" "view (bus t) = view (bus u)" "lag (bus t) \<le> lag (bus u)" "same_but_bus u t"
    by (rule wait_while_busy_line [OF assms(1), of u n]) (use k(2) assms(2) in auto)
  show ?thesis using that [of m t] t k same_but_bus_trans [OF k(3) t(5)] by (simp add: usb10_wait_cmd_complete_def u)
qed

section \<open>Receiving on the line\<close>

abbreviation ack_token :: u32 where
  "ack_token \<equiv> USB10_CMD_START_BIT OR USB10_CMD_SET_PID USB10_PID_ACK OR USB10_CMD_SEND_SHORT_TOKEN"

definition line_attempt :: "'d reaction \<Rightarrow> bool \<Rightarrow> int \<Rightarrow> int \<Rightarrow> u8 \<Rightarrow> u8 \<Rightarrow> u8 \<Rightarrow> 'd line \<Rightarrow> attempt \<times> 'd line" where
  "line_attempt react knows_nak e_pid e_dupe a e recv l =
    (let l = command react (long_token USB10_PID_IN a e) l in
     case reply l of None \<Rightarrow> (Again (-6), l)
     | Some (rx, ok, lo, hi) \<Rightarrow> (let pid = USB10_RX_STATUS_PID rx in
         if knows_nak \<and> pid = USB10_PID_NAK then (Stop (-8), l)
         else if pid = USB10_PID_STALL then (Stop (-12), l)
         else if \<not> ok then (Again (-10), l)
         else (let l = command react ack_token l in
           if pid \<noteq> USB10_PID_DATA0 \<and> pid \<noteq> USB10_PID_DATA1 then (Again e_pid, l)
           else if pid = recv then (Again e_dupe, l) else (Got rx, l))))"

lemma pids_same: "same_but_bus s t \<Longrightarrow> pids a e t = pids a e s" "same_but_bus s t \<Longrightarrow> same_but_bus (set_pids a e p s) (set_pids a e p t)"
proof -
  assume "same_but_bus s t"
  then obtain q where t: "t = s\<lparr>bus := q\<rparr>" by (auto simp: same_but_bus_iff)
  then have "set_pids a e p t = (set_pids a e p s)\<lparr>bus := q\<rparr>" by (simp add: set_pids_def)
  with t show "pids a e t = pids a e s" "same_but_bus (set_pids a e p s) (set_pids a e p t)" by (simp_all add: pids_def)
qed

lemma bus_set_pids [simp]: "bus (set_pids a e p s) = bus s"
  by (simp add: set_pids_def)

text \<open>The state after an attempt: the toggle is changed by a packet that was taken.\<close>

definition toggled :: "u8 \<Rightarrow> u8 \<Rightarrow> u8 \<Rightarrow> attempt \<Rightarrow> 'p usb \<Rightarrow> 'p usb" where
  "toggled a e sent x s = (case x of Got rx \<Rightarrow> set_pids a e (sent, USB10_RX_STATUS_PID rx) s | _ \<Rightarrow> s)"

lemma recv_attempt_line:
  assumes ob: "obeys P view lag react" and "1000 < n" "pids a e s = Some (sent, recv)"
    "line_attempt react knows e1 e2 a e recv (view (bus s)) = (x, l)"
  obtains t where "recv_attempt P n knows e1 e2 a e s = Some (x, t)" "view (bus t) = l" "lag (bus t) \<le> 1000"
    "same_but_bus (toggled a e sent x s) t"
proof -
  let ?s1 = "usb10_write_reg P COMMAND (long_token USB10_PID_IN a e) s"
  have s1: "view (bus ?s1) = command react (long_token USB10_PID_IN a e) (view (bus s))" "lag (bus ?s1) \<le> 1000" "same_but_bus s ?s1"
    using write_command [OF ob] by simp_all
  obtain r s2 where w2: "wait_until P received n ?s1 = (r, s2)" by (cases "wait_until P received n ?s1")
  have s2: "view (bus s2) = view (bus ?s1)" "lag (bus s2) \<le> 1000" "same_but_bus s s2" "r = None \<longleftrightarrow> reply (view (bus ?s1)) = None"
    "r \<noteq> None \<Longrightarrow> lag (bus s2) = 0"
    using wait_keeps [OF ob w2] wait_received [OF ob w2] s1(2,3) assms(2) same_but_bus_trans [OF s1(3)] by auto
  show ?thesis
  proof (cases "reply (view (bus ?s1))")
    case None
    then have "(x, l) = (Again (-6), view (bus ?s1))" using assms(4) s1(1) by (simp add: line_attempt_def)
    then show ?thesis using that s2 w2 None by (simp add: recv_attempt_def toggled_def)
  next
    case (Some pkt)
    obtain rx ok lo hi where pkt: "pkt = (rx, ok, lo, hi)" by (cases pkt) auto
    have r2: "reply (view (bus s2)) = Some (rx, ok, lo, hi)" "r \<noteq> None" using Some pkt s2(1,4) by simp_all
    obtain v s3 where w3: "usb10_read_reg P RX_STATUS s2 = (v, s3)" by (cases "usb10_read_reg P RX_STATUS s2")
    have s3: "v = rx" "view (bus s3) = view (bus s2)" "lag (bus s3) = 0" "same_but_bus s s3"
      using read_other [OF ob w3] r2 s2(5) same_but_bus_trans [OF s2(3)] by auto
    obtain st s4 where w4: "usb10_read_reg P STATUS s3 = (st, s4)" by (cases "usb10_read_reg P STATUS s3")
    have s4: "st AND USB10_STATUS_CRC16_OK_BIT = 0 \<longleftrightarrow> \<not> ok" "view (bus s4) = view (bus s3)" "lag (bus s4) = 0" "same_but_bus s s4"
      using read_status [OF ob w4] r2(1) s3 same_but_bus_trans [OF s3(4)] by (auto simp: status_ok_def)
    let ?s5 = "usb10_write_reg P COMMAND ack_token s4"
    have s5: "view (bus ?s5) = command react ack_token (view (bus s4))" "lag (bus ?s5) \<le> 1000" "same_but_bus s ?s5"
      using write_command [OF ob] s4(4) by simp_all
    obtain m s6 where w6: "usb10_wait_cmd_complete P 20000 ?s5 = (m, s6)" "0 < m" "view (bus s6) = view (bus ?s5)"
      "lag (bus s6) \<le> lag (bus ?s5)" "same_but_bus ?s5 s6" by (rule wait_cmd_complete_line [OF ob, of ?s5 20000]) (use s5(2) in auto)
    have s6: "same_but_bus s s6" "lag (bus s6) \<le> 1000" using same_but_bus_trans [OF s5(3) w6(5)] w6(4) s5(2) by auto
    have p6: "pids a e s6 = Some (sent, recv)" using pids_same(1) [OF s6(1)] assms(3) by simp
    have l1: "view (bus s3) = command react (long_token USB10_PID_IN a e) (view (bus s))" using s3(2) s2(1) s1(1) by simp
    have r3: "reply (view (bus s3)) = Some (rx, ok, lo, hi)" using r2(1) s3(2) by simp
    have d: "view (bus (delay_us P 20 s4)) = view (bus s3)" "lag (bus (delay_us P 20 s4)) \<le> 1000"
      using delay_line [OF ob, where s = s4 and n = 20] s4(2,3) by simp_all
    let ?pid = "USB10_RX_STATUS_PID rx"
    have "(r = None) = False" "(m = 0) = False" using r2(2) w6(2) by simp_all
    note eq = recv_attempt_def Let_def w2 w3 w4 w6(1) s3(1) s4(1) p6 prod.case this if_False bind.bind_lunit
    have ra: "recv_attempt P n knows e1 e2 a e s = (if knows \<and> ?pid = 0x5a then Some (Stop (-8), s3) else if ?pid = 0x1e then Some (Stop (-12), s3)
      else if \<not> ok then Some (Again (-10), delay_us P 20 s4) else if ?pid \<noteq> 0xc3 \<and> ?pid \<noteq> 0x4b then Some (Again e1, s6)
      else if ?pid = recv then Some (Again e2, s6) else Some (Got rx, set_pids a e (sent, ?pid) s6))"
      by (simp only: eq)
    have v: "view (bus s6) = command react ack_token (view (bus s3))" using w6(3) s5(1) s4(2) by simp
    have la: "(x, l) = (if knows \<and> ?pid = 0x5a then (Stop (-8), view (bus s3)) else if ?pid = 0x1e then (Stop (-12), view (bus s3))
      else if \<not> ok then (Again (-10), view (bus s3)) else if ?pid \<noteq> 0xc3 \<and> ?pid \<noteq> 0x4b then (Again e1, view (bus s6))
      else if ?pid = recv then (Again e2, view (bus s6)) else (Got rx, view (bus s6)))"
      unfolding assms(4) [symmetric] line_attempt_def Let_def l1 [symmetric] v [symmetric] r3 option.case prod.case ..
    consider (nak) "knows \<and> ?pid = 0x5a" | (stall) "\<not> (knows \<and> ?pid = 0x5a)" "?pid = 0x1e"
      | (crc) "\<not> (knows \<and> ?pid = 0x5a)" "?pid \<noteq> 0x1e" "\<not> ok"
      | (pid) "\<not> (knows \<and> ?pid = 0x5a)" "?pid \<noteq> 0x1e" "\<not> \<not> ok" "?pid \<noteq> 0xc3 \<and> ?pid \<noteq> 0x4b"
      | (dupe) "\<not> (knows \<and> ?pid = 0x5a)" "?pid \<noteq> 0x1e" "\<not> \<not> ok" "\<not> (?pid \<noteq> 0xc3 \<and> ?pid \<noteq> 0x4b)" "?pid = recv"
      | (got) "\<not> (knows \<and> ?pid = 0x5a)" "?pid \<noteq> 0x1e" "\<not> \<not> ok" "\<not> (?pid \<noteq> 0xc3 \<and> ?pid \<noteq> 0x4b)" "?pid \<noteq> recv" by blast
    then show ?thesis
    proof cases
      case nak
      note i = if_P [OF nak]
      have x: "x = Stop (-8)" "l = view (bus s3)" using la unfolding i prod.inject by simp_all
      show ?thesis
      proof (rule that [of "s3"])
        show "recv_attempt P n knows e1 e2 a e s = Some (x, s3)" unfolding ra x(1) i ..
        show "same_but_bus (toggled a e sent x s) (s3)" unfolding toggled_def x(1) attempt.case by (rule s3(4))
      qed (use x(2) s3(3) in simp_all)
    next
      case stall
      note i = if_not_P [OF stall(1)] if_P [OF stall(2)]
      have x: "x = Stop (-12)" "l = view (bus s3)" using la unfolding i prod.inject by simp_all
      show ?thesis
      proof (rule that [of "s3"])
        show "recv_attempt P n knows e1 e2 a e s = Some (x, s3)" unfolding ra x(1) i ..
        show "same_but_bus (toggled a e sent x s) (s3)" unfolding toggled_def x(1) attempt.case by (rule s3(4))
      qed (use x(2) s3(3) in simp_all)
    next
      case crc
      note i = if_not_P [OF crc(1)] if_not_P [OF crc(2)] if_P [OF crc(3)]
      have x: "x = Again (-10)" "l = view (bus s3)" using la unfolding i prod.inject by simp_all
      show ?thesis
      proof (rule that [of "delay_us P 20 s4"])
        show "recv_attempt P n knows e1 e2 a e s = Some (x, delay_us P 20 s4)" unfolding ra x(1) i ..
        show "same_but_bus (toggled a e sent x s) (delay_us P 20 s4)" unfolding toggled_def x(1) attempt.case by (simp add: s4(4))
      qed (use x(2) d in simp_all)
    next
      case pid
      note i = if_not_P [OF pid(1)] if_not_P [OF pid(2)] if_not_P [OF pid(3)] if_P [OF pid(4)]
      have x: "x = Again e1" "l = view (bus s6)" using la unfolding i prod.inject by simp_all
      show ?thesis
      proof (rule that [of "s6"])
        show "recv_attempt P n knows e1 e2 a e s = Some (x, s6)" unfolding ra x(1) i ..
        show "same_but_bus (toggled a e sent x s) (s6)" unfolding toggled_def x(1) attempt.case by (rule s6(1))
      qed (use x(2) s6(2) in simp_all)
    next
      case dupe
      note i = if_not_P [OF dupe(1)] if_not_P [OF dupe(2)] if_not_P [OF dupe(3)] if_not_P [OF dupe(4)] if_P [OF dupe(5)]
      have x: "x = Again e2" "l = view (bus s6)" using la unfolding i prod.inject by simp_all
      show ?thesis
      proof (rule that [of "s6"])
        show "recv_attempt P n knows e1 e2 a e s = Some (x, s6)" unfolding ra x(1) i ..
        show "same_but_bus (toggled a e sent x s) (s6)" unfolding toggled_def x(1) attempt.case by (rule s6(1))
      qed (use x(2) s6(2) in simp_all)
    next
      case got
      note i = if_not_P [OF got(1)] if_not_P [OF got(2)] if_not_P [OF got(3)] if_not_P [OF got(4)] if_not_P [OF got(5)]
      have x: "x = Got rx" "l = view (bus s6)" using la unfolding i prod.inject by simp_all
      show ?thesis
      proof (rule that [of "set_pids a e (sent, ?pid) s6"])
        show "recv_attempt P n knows e1 e2 a e s = Some (x, set_pids a e (sent, ?pid) s6)" unfolding ra x(1) i ..
        show "same_but_bus (toggled a e sent x s) (set_pids a e (sent, ?pid) s6)" unfolding toggled_def x(1) attempt.case by (rule pids_same(2) [OF s6(1)])
      qed (use x(2) s6(2) in simp_all)
    qed
  qed
qed

primrec line_packet :: "nat \<Rightarrow> ('d line \<Rightarrow> attempt \<times> 'd line) \<Rightarrow> 'd line \<Rightarrow> (int + u32) \<times> 'd line" where
  "line_packet 0 f l = (case f l of (a, l) \<Rightarrow> (case a of Again e \<Rightarrow> Inl e | Stop e \<Rightarrow> Inl e | Got rx \<Rightarrow> Inr rx, l))"
| "line_packet (Suc k) f l = (case f l of (a, l) \<Rightarrow> (case a of Again e \<Rightarrow> line_packet k f l | Stop e \<Rightarrow> (Inl e, l) | Got rx \<Rightarrow> (Inr rx, l)))"

lemma recv_packet_line:
  assumes ob: "obeys P view lag react" and "1000 < n" "pids a e s = Some (sent, recv)"
    "line_packet k (line_attempt react knows e1 e2 a e recv) (view (bus s)) = (x, l)"
  shows "\<exists>t. recv_packet k (recv_attempt P n knows e1 e2 a e) s = Some (x, t) \<and> view (bus t) = l \<and> lag (bus t) \<le> 1000 \<and>
    same_but_bus (case x of Inl _ \<Rightarrow> s | Inr rx \<Rightarrow> set_pids a e (sent, USB10_RX_STATUS_PID rx) s) t"
  using assms(3,4)
proof (induction k arbitrary: s)
  case 0
  obtain y m where y: "line_attempt react knows e1 e2 a e recv (view (bus s)) = (y, m)"
    by (cases "line_attempt react knows e1 e2 a e recv (view (bus s))")
  obtain t where "recv_attempt P n knows e1 e2 a e s = Some (y, t)" "view (bus t) = m" "lag (bus t) \<le> 1000" "same_but_bus (toggled a e sent y s) t"
    by (rule recv_attempt_line [OF ob assms(2) 0(1) y])
  then show ?case using 0(2) y by (cases y) (auto simp: toggled_def)
next
  case (Suc k)
  obtain y m where y: "line_attempt react knows e1 e2 a e recv (view (bus s)) = (y, m)"
    by (cases "line_attempt react knows e1 e2 a e recv (view (bus s))")
  obtain t where t: "recv_attempt P n knows e1 e2 a e s = Some (y, t)" "view (bus t) = m" "lag (bus t) \<le> 1000" "same_but_bus (toggled a e sent y s) t"
    by (rule recv_attempt_line [OF ob assms(2) Suc(2) y])
  show ?case
  proof (cases y)
    case (Again err)
    then have st: "same_but_bus s t" "line_packet k (line_attempt react knows e1 e2 a e recv) (view (bus t)) = (x, l)"
      using t(2,4) Suc.prems(2) y by (simp_all add: toggled_def)
    then have "pids a e t = Some (sent, recv)" using pids_same(1) Suc.prems(1) by metis
    from Suc.IH [OF this st(2)] obtain u where u: "recv_packet k (recv_attempt P n knows e1 e2 a e) t = Some (x, u)"
      "view (bus u) = l" "lag (bus u) \<le> 1000"
      "same_but_bus (case x of Inl _ \<Rightarrow> t | Inr rx \<Rightarrow> set_pids a e (sent, USB10_RX_STATUS_PID rx) t) u" by blast
    have "same_but_bus (case x of Inl _ \<Rightarrow> s | Inr rx \<Rightarrow> set_pids a e (sent, USB10_RX_STATUS_PID rx) s) u"
    proof (cases x)
      case (Inr rx)
      show ?thesis using u(4) same_but_bus_trans [OF pids_same(2) [OF st(1)]] by (simp add: Inr)
    qed (use u(4) same_but_bus_trans [OF st(1)] in simp)
    then show ?thesis using t(1) u(1-3) Again by simp
  next
    case (Stop err)
    then show ?thesis using t Suc.prems(2) y by (auto simp: toggled_def)
  next
    case (Got rx)
    then show ?thesis using t Suc.prems(2) y by (auto simp: toggled_def)
  qed
qed

text \<open>The two words of a packet go to their place in the response.\<close>

lemma collect_line:
  assumes ob: "obeys P view lag react" and "reply (view (bus s)) = Some (rx, ok, lo, hi)" "n \<noteq> 0" "i * 8 + 8 \<le> length b"
  obtains t where "collect P i n (Some b) s = Some (Some (st32 (st32 b (i * 8) lo) (i * 8 + 4) hi), t)"
    "view (bus t) = view (bus s)" "lag (bus t) \<le> lag (bus s)" "same_but_bus s t"
proof -
  obtain v t where t: "usb10_read_reg P RECV_DATA_LOW s = (v, t)" by (cases "usb10_read_reg P RECV_DATA_LOW s")
  obtain w u where u: "usb10_read_reg P RECV_DATA_HIGH t = (w, u)" by (cases "usb10_read_reg P RECV_DATA_HIGH t")
  have rt: "view (bus t) = view (bus s)" "lag (bus t) \<le> lag (bus s)" "same_but_bus s t" "v = lo"
    using read_other [OF ob t] assms(2) by auto
  have ru: "view (bus u) = view (bus t)" "lag (bus u) \<le> lag (bus t)" "same_but_bus t u" "w = hi"
    using read_other [OF ob u] assms(2) rt(1) by auto
  have "collect P i n (Some b) s = Some (Some (st32 (st32 b (i * 8) lo) (i * 8 + 4) hi), u)"
    using t u rt(4) ru(4) assms(3,4) by (simp add: collect_def put_word_def)
  then show ?thesis using that rt ru same_but_bus_trans by fastforce
qed

section \<open>The type of a command\<close>

lemma low_fields: "USB10_CMD_SET_PID pid AND 0x0f = 0" "USB10_CMD_SET_ADDR a AND 0x0f = 0" "USB10_CMD_SET_ENDP e AND 0x0f = 0"
proof -
  have m: "x AND 0x0f = take_bit 4 x" for x :: u32 by (simp add: take_bit_eq_mask mask_eq_exp_minus_1)
  show "USB10_CMD_SET_PID pid AND 0x0f = 0" "USB10_CMD_SET_ADDR a AND 0x0f = 0" "USB10_CMD_SET_ENDP e AND 0x0f = 0"
    unfolding USB10_CMD_SET_PID_def USB10_CMD_SET_ADDR_def USB10_CMD_SET_ENDP_def m by (simp_all add: take_bit_push_bit)
qed

lemmas low_fields' = low_fields [unfolded and.commute [of _ "0x0f"]]

lemma long_token_type: "long_token pid a e AND 0x0f = USB10_CMD_SEND_LONG_TOKEN"
  unfolding long_token_def by (simp add: and.commute [of _ "0x0f"] bit.conj_disj_distrib low_fields')

lemma ack_token_type: "ack_token AND 0x0f = USB10_CMD_SEND_SHORT_TOKEN"
  by (simp add: and.commute [of _ "0x0f"] bit.conj_disj_distrib low_fields')

lemma ack_is_no_long_token: "ack_token \<noteq> long_token pid a e"
proof
  assume "ack_token = long_token pid a e"
  then have "ack_token AND 0x0f = long_token pid a e AND 0x0f" by (rule arg_cong)
  then show False unfolding long_token_type ack_token_type by simp
qed

lemma token_bits: "bit (long_token pid a e) 6 = bit pid 2" "bit (long_token pid a e) 7 = bit pid 3"
  by (simp_all add: long_token_def USB10_CMD_SET_PID_def USB10_CMD_SET_ADDR_def USB10_CMD_SET_ENDP_def bit_simps)

lemma tokens_differ: "long_token USB10_PID_SETUP a 0 \<noteq> long_token USB10_PID_IN b 0" "long_token USB10_PID_OUT a 0 \<noteq> long_token USB10_PID_IN b 0"
    "long_token USB10_PID_SETUP a 0 \<noteq> long_token USB10_PID_OUT b 0"
  using token_bits [of USB10_PID_SETUP a 0] token_bits [of USB10_PID_IN b 0] token_bits [of USB10_PID_OUT a 0] token_bits [of USB10_PID_OUT b 0]
  by auto

lemma data_command_type: "(USB10_CMD_START_BIT OR USB10_CMD_SET_LEN n OR USB10_CMD_SET_PID p OR USB10_CMD_SEND_DATA) AND 0x0f = USB10_CMD_SEND_DATA"
proof -
  have m: "x AND 0x0f = take_bit 4 x" for x :: u32 by (simp add: take_bit_eq_mask mask_eq_exp_minus_1)
  have "USB10_CMD_SET_LEN n AND 0x0f = 0" unfolding USB10_CMD_SET_LEN_def m by (simp add: take_bit_push_bit)
  then show ?thesis using low_fields(1) [of p] by (simp add: and.commute [of _ "0x0f"] bit.conj_disj_distrib)
qed

lemma pids_set: "pids_ok s \<Longrightarrow> unat a < 4 \<Longrightarrow> unat e < 4 \<Longrightarrow> pids a e (set_pids a e p s) = Some p"
  by (simp add: pids_ok_def pids_def set_pids_def)

lemma pids_ok_same: "same_but_bus s t \<Longrightarrow> pids_ok t = pids_ok s"
  by (auto simp: same_but_bus_iff pids_ok_def)

end
