(* ===== verification/UsbPoll.thy ===== *)
theory UsbPoll
  imports UsbLine
begin

text \<open>
  The monitor polls the keyboard (main.c of the monitor) with \<open>usb10_in_request\<close>: over a line that loses and garbles
  packets the reports arrive in order, none twice and none left out.
\<close>

section \<open>Polling\<close>

text \<open>The kind of the device, from the class, subclass and protocol of its interface: \<open>device_type\<close> and \<open>response_size\<close>.\<close>

definition device_kind :: "'p usb \<Rightarrow> nat \<times> nat" where
  "device_kind s = (let class = usb10_interface_descr s ! 5; subclass = usb10_interface_descr s ! 6; protocol = usb10_interface_descr s ! 7 in
     if class = 3 \<and> subclass = 1 \<and> protocol = 1 then (1, 8)
     else if class = 3 \<and> subclass = 1 \<and> protocol = 2 then (2, 4)
     else if class = 3 \<and> subclass = 0 \<and> protocol = 0 then (3, 8)
     else (0, 8))"

text \<open>One poll of the endpoint 1, with the report that is handed to \<open>kbd_hid_keycode\<close>, if there is one, and the number
  \<open>reg_usb_error_count\<close> of the polls in a row that have failed. After the fourth one the device is given up. The print-outs are left out.\<close>

definition usb_poll :: "'p usb_port \<Rightarrow> 'p usb \<Rightarrow> u32 \<Rightarrow> (u8 list option \<times> 'p usb \<times> u32) option" where
  "usb_poll P s reg_usb_error_count = (let (device_type, response_size) = device_kind s in do {
     (ret, r, s) \<leftarrow> usb10_in_request P (usb10_device_address s) 1 (Some (replicate 8 0)) response_size s;
     if ret \<ge> 0 then
       (if device_type = 1 then (let (rx, s) = usb10_read_reg P RX_STATUS s in
          Some (if USB10_RX_STATUS_LEN rx = 88 then r else None, s, 0))
        else Some (None, s, 0))
     else if ret = -8 \<or> ret = -9 then Some (None, s, reg_usb_error_count)
     else (let reg_usb_error_count = reg_usb_error_count + 1 in
       Some (None, if 3 < reg_usb_error_count then s\<lparr>usb10_device_address := 0\<rparr> else s, reg_usb_error_count)) })"

text \<open>What one round of the main loop does for the bus: it looks for a device or polls the one it has, and now and then it
  switches the LEDs of a keyboard.\<close>

definition usb_task :: "nat \<Rightarrow> 'p usb_port \<Rightarrow> u8 list \<Rightarrow> u8 list \<Rightarrow> u32 \<Rightarrow> 'p usb \<Rightarrow> u32 \<Rightarrow>
    (u8 list option \<times> 'p usb \<times> u32) option" where
  "usb_task fuel P bulk junk reg_sys_counter s reg_usb_error_count =
    (if reg_sys_counter mod 4 \<noteq> 0 then Some (None, s, reg_usb_error_count)
     else if usb10_device_address s = 0 then do {
       (ret, s) \<leftarrow> usb10_init fuel P bulk s;
       Some (None, s, if ret = 0 then 0 else reg_usb_error_count) }
     else do {
       let device_type = fst (device_kind s);
       (r, s, reg_usb_error_count) \<leftarrow> usb_poll P s reg_usb_error_count;
       s \<leftarrow> (if device_type = 1 \<and> reg_sys_counter AND 0x3ff = 0x100
         then map_option snd (usb10_hid_set_led P junk (usb10_device_address s) 1 0xff s) else Some s);
       s \<leftarrow> (if device_type = 1 \<and> reg_sys_counter AND 0x3ff = 0x200
         then map_option snd (usb10_hid_set_led P junk (usb10_device_address s) 1 0 s) else Some s);
       Some (r, s, reg_usb_error_count) })"

text \<open>Rounds of the main loop with the values of \<open>reg_sys_counter\<close>, until the device is given up: the reports.\<close>

primrec usb_tasks :: "nat \<Rightarrow> 'p usb_port \<Rightarrow> u8 list \<Rightarrow> u8 list \<Rightarrow> u32 list \<Rightarrow> 'p usb \<Rightarrow> u32 \<Rightarrow>
    (u8 list list \<times> 'p usb \<times> u32) option" where
  "usb_tasks fuel P bulk junk [] s n = Some ([], s, n)"
| "usb_tasks fuel P bulk junk (c # cs) s n =
    (if usb10_device_address s = 0 then Some ([], s, n)
     else do {
       (r, s, n) \<leftarrow> usb_task fuel P bulk junk c s n;
       (rs, s, n) \<leftarrow> usb_tasks fuel P bulk junk cs s n;
       Some (case r of Some b \<Rightarrow> b # rs | None \<Rightarrow> rs, s, n) })"

section \<open>The endpoint of a device\<close>

text \<open>What happens to one IN token: it or its answer is lost, the answer arrives garbled, the device has no report yet and
  answers with NAK, all goes well, or the acknowledgement of the host is lost.\<close>

datatype fate = Lost | Garbled u32 | Not_yet | Fine | Ack_lost

text \<open>An interrupt endpoint of the USB standard: it sends the same packet with the same toggle until it is acknowledged, and a
  NAK packet when it has nothing to send. \<open>queue\<close> are the reports it has and will have to send. \<open>fates\<close> is what happens to the next tokens.\<close>

record endpoint =
  queue :: "(u32 \<times> u32) list"
  toggle :: bool
  sent :: bool
  fates :: "fate list"

definition pid_of :: "bool \<Rightarrow> u8" where
  "pid_of t = (if t then USB10_PID_DATA1 else USB10_PID_DATA0)"

definition rx_status :: "u8 \<Rightarrow> u32 \<Rightarrow> u32" where
  "rx_status pid n = push_bit 8 (ucast pid) OR n"

definition answer :: "endpoint \<Rightarrow> packet option \<times> endpoint" where
  "answer d = (let f = (case fates d of [] \<Rightarrow> Fine | f # _ \<Rightarrow> f); d = d\<lparr>fates := tl (fates d), sent := False\<rparr> in
     case f of Lost \<Rightarrow> (None, d) | Garbled rx \<Rightarrow> (Some (rx, False, 0, 0), d)
     | Not_yet \<Rightarrow> (Some (rx_status USB10_PID_NAK 8, False, 0, 0), d)
     | _ \<Rightarrow> (case queue d of [] \<Rightarrow> (Some (rx_status USB10_PID_NAK 8, False, 0, 0), d)
         | (lo, hi) # _ \<Rightarrow> (Some (rx_status (pid_of (toggle d)) 88, True, lo, hi), d\<lparr>sent := (f = Fine)\<rparr>)))"

definition acknowledged :: "endpoint \<Rightarrow> endpoint" where
  "acknowledged d = (if sent d then d\<lparr>queue := tl (queue d), toggle := \<not> toggle d, sent := False\<rparr> else d)"

definition endpoint_reaction :: "u8 \<Rightarrow> endpoint reaction" where
  "endpoint_reaction a c lo hi d =
    (if c = long_token USB10_PID_IN a 1 then answer d else if c = ack_token then (None, acknowledged d) else (None, d))"

text \<open>\<open>k\<close> of the reports \<open>q\<close> have reached the driver, whose last toggle is \<open>recv\<close>: the device still has the others, and
  the last one of the \<open>k\<close> as well when its acknowledgement was lost; then its toggle is the one the driver has seen.\<close>

definition taken :: "(u32 \<times> u32) list \<Rightarrow> nat \<Rightarrow> u8 \<Rightarrow> endpoint \<Rightarrow> bool" where
  "taken q k recv d \<longleftrightarrow> recv \<in> range pid_of \<and> k \<le> length q \<and>
     (if pid_of (toggle d) = recv then 0 < k \<and> queue d = drop (k - 1) q else queue d = drop k q)"

lemma drop_Cons_iff: "drop k q = p # r \<longleftrightarrow> k < length q \<and> p = q ! k \<and> r = drop (Suc k) q"
  by (metis Cons_nth_drop_Suc drop_eq_Nil linorder_not_le list.distinct(1) list.inject)

lemma rx_status_fields [simp]: "USB10_RX_STATUS_PID (rx_status (pid_of t) 88) = pid_of t" "USB10_RX_STATUS_LEN (rx_status (pid_of t) 88) = 88"
  "USB10_RX_STATUS_PID (rx_status USB10_PID_NAK 8) = USB10_PID_NAK"
  by (cases t; simp add: USB10_RX_STATUS_PID_def USB10_RX_STATUS_LEN_def rx_status_def pid_of_def)+

lemma pid_of_cases [simp]: "pid_of t \<noteq> USB10_PID_NAK" "pid_of t \<noteq> USB10_PID_STALL" "pid_of t = USB10_PID_DATA0 \<longleftrightarrow> \<not> t" "pid_of t = USB10_PID_DATA1 \<longleftrightarrow> t"
  "pid_of (\<not> t) \<noteq> pid_of t" "pid_of t \<noteq> pid_of (\<not> t)" "pid_of t = pid_of u \<longleftrightarrow> t = u"
  by (cases t; cases u; simp add: pid_of_def)+

lemma command_in: "command (endpoint_reaction a) (long_token USB10_PID_IN a 1) l =
    l\<lparr>device := snd (answer (device l)), reply := fst (answer (device l))\<rparr>"
  by (simp add: command_def endpoint_reaction_def long_token_type split: prod.split)

lemma command_ack: "command (endpoint_reaction a) ack_token l = l\<lparr>device := acknowledged (device l)\<rparr>"
  unfolding command_def endpoint_reaction_def using ack_is_no_long_token [of USB10_PID_IN a 1] ack_token_type by simp

lemma nth_drop_pred: "0 < k \<Longrightarrow> k \<le> length q \<Longrightarrow> q ! (k - Suc 0) # drop k q = drop (k - Suc 0) q"
  using Cons_nth_drop_Suc [of "k - Suc 0" q] by simp

lemma tl_drop_Suc: "tl (drop k q) = drop (Suc k) q" "0 < k \<Longrightarrow> tl (drop (k - Suc 0) q) = drop k q"
  by (simp_all add: tl_drop drop_Suc flip: drop_Suc)

text \<open>One token: it brings the next report, or none.\<close>

abbreviation poll_attempt :: "u8 \<Rightarrow> u8 \<Rightarrow> endpoint line \<Rightarrow> attempt \<times> endpoint line" where
  "poll_attempt a recv \<equiv> line_attempt (endpoint_reaction a) True (-9) (-10) a 1 recv"

definition brings :: "(u32 \<times> u32) list \<Rightarrow> nat \<Rightarrow> u32 \<Rightarrow> endpoint line \<Rightarrow> bool" where
  "brings q k rx m \<longleftrightarrow> USB10_RX_STATUS_LEN rx = 88 \<and> k < length q \<and> reply m = Some (rx, True, q ! k) \<and>
     taken q (Suc k) (USB10_RX_STATUS_PID rx) (device m)"

lemma poll_attempt_step:
  assumes "poll_attempt a recv l = (x, m)" "taken q k recv (device l)"
  shows "case x of Got rx \<Rightarrow> brings q k rx m | Again e \<Rightarrow> e < 0 \<and> taken q k recv (device m) | Stop e \<Rightarrow> e < 0 \<and> taken q k recv (device m)"
proof -
  obtain r where r: "recv = pid_of r" using assms(2) by (auto simp: taken_def)
  show ?thesis
    using assms unfolding line_attempt_def Let_def command_in command_ack r
    by (auto simp: answer_def acknowledged_def taken_def brings_def Let_def drop_Cons_iff Cons_nth_drop_Suc nth_drop_pred tl_drop_Suc split: list.splits fate.splits if_splits prod.splits)
qed

text \<open>A packet is repeated up to eight times.\<close>

lemma poll_packet:
  assumes "line_packet n (poll_attempt a recv) l = (x, m)" "taken q k recv (device l)"
  shows "case x of Inr rx \<Rightarrow> brings q k rx m | Inl e \<Rightarrow> e < 0 \<and> taken q k recv (device m)"
  using assms
proof (induction n arbitrary: l)
  case 0
  obtain y n where y: "poll_attempt a recv l = (y, n)" by (cases "poll_attempt a recv l")
  show ?case using poll_attempt_step [OF y 0(2)] 0(1) y by (cases y) auto
next
  case (Suc n)
  obtain y m' where y: "poll_attempt a recv l = (y, m')" by (cases "poll_attempt a recv l")
  show ?case using poll_attempt_step [OF y Suc.prems(2)] Suc.prems(1) Suc.IH [of m'] y by (cases y) auto
qed

text \<open>Without faults the next report is taken, and without a report the answer is NAK.\<close>

lemma poll_attempt_fine:
  assumes "poll_attempt a recv l = (x, m)" "taken q k recv (device l)" "fates (device l) = []"
  shows "fates (device m) = []" "(\<exists>rx. x = Got rx) \<or> x = Stop (-8) \<and> k = length q \<or>
    (\<exists>e. x = Again e) \<and> pid_of (toggle (device l)) = recv \<and> pid_of (toggle (device m)) \<noteq> recv"
proof -
  obtain r where r: "recv = pid_of r" using assms(2) by (auto simp: taken_def)
  show "fates (device m) = []"
    using assms unfolding line_attempt_def Let_def command_in command_ack
    by (auto simp: answer_def acknowledged_def Let_def split: list.splits if_splits prod.splits)
  show "(\<exists>rx. x = Got rx) \<or> x = Stop (-8) \<and> k = length q \<or>
    (\<exists>e. x = Again e) \<and> pid_of (toggle (device l)) = recv \<and> pid_of (toggle (device m)) \<noteq> recv"
    using assms unfolding line_attempt_def Let_def command_in command_ack r
    by (auto simp: answer_def acknowledged_def taken_def Let_def drop_Cons_iff Cons_nth_drop_Suc nth_drop_pred tl_drop_Suc split: list.splits if_splits prod.splits)
qed

lemma packet_keeps_fine:
  assumes "line_packet n (poll_attempt a recv) l = (x, m)" "taken q k recv (device l)" "fates (device l) = []"
  shows "fates (device m) = []"
  using assms
proof (induction n arbitrary: l)
  case 0
  obtain y n where y: "poll_attempt a recv l = (y, n)" by (cases "poll_attempt a recv l")
  show ?case using poll_attempt_fine(1) [OF y 0(2,3)] 0(1) y by simp
next
  case (Suc n)
  obtain y m' where y: "poll_attempt a recv l = (y, m')" by (cases "poll_attempt a recv l")
  show ?case using poll_attempt_fine(1) [OF y Suc.prems(2,3)] poll_attempt_step [OF y Suc.prems(2)] Suc.prems(1) Suc.IH [of m'] y
    by (cases y) auto
qed

lemma packet_fine:
  assumes "line_packet (Suc n) (poll_attempt a recv) l = (x, m)" "taken q k recv (device l)" "fates (device l) = []"
  shows "(\<exists>rx. x = Inr rx) \<or> x = Inl (-8) \<and> k = length q"
proof -
  obtain y l1 where y: "poll_attempt a recv l = (y, l1)" by (cases "poll_attempt a recv l")
  obtain z l2 where z: "poll_attempt a recv l1 = (z, l2)" by (cases "poll_attempt a recv l1")
  show ?thesis
  proof (cases y)
    case (Again e)
    then have n: "taken q k recv (device l1)" "pid_of (toggle (device l1)) \<noteq> recv"
      using poll_attempt_step [OF y assms(2)] poll_attempt_fine(2) [OF y assms(2,3)] by auto
    have "(\<exists>rx. z = Got rx) \<or> z = Stop (-8) \<and> k = length q"
      using poll_attempt_fine(2) [OF z n(1) poll_attempt_fine(1) [OF y assms(2,3)]] n(2) by blast
    then show ?thesis using assms(1) y z Again by (cases n) auto
  qed (use poll_attempt_fine(2) [OF y assms(2,3)] assms(1) y in auto)
qed

section \<open>A poll\<close>

definition word_bytes :: "u32 \<Rightarrow> u8 list" where
  "word_bytes w = [ucast w, ucast (drop_bit 8 w), ucast (drop_bit 16 w), ucast (drop_bit 24 w)]"

definition report_of :: "u32 \<times> u32 \<Rightarrow> u8 list" where
  "report_of = (\<lambda>(lo, hi). word_bytes lo @ word_bytes hi)"

lemma st32_report: "st32 (st32 (replicate 8 0) 0 lo) 4 hi = report_of (lo, hi)"
  by (simp add: st32_def report_of_def word_bytes_def eval_nat_numeral)

lemma mie_simps [simp]: "bus (s\<lparr>MIE := x\<rparr>) = bus s" "pids a e (s\<lparr>MIE := x\<rparr>) = pids a e s" "pids_ok (s\<lparr>MIE := x\<rparr>) = pids_ok s"
  by (simp_all add: pids_def pids_ok_def)

text \<open>What is true before and after every poll: the driver knows the keyboard and its last toggle \<open>recv\<close>, and \<open>k\<close> of the
  reports \<open>q\<close> have reached it.\<close>

definition ready :: "('p \<Rightarrow> endpoint line) \<Rightarrow> ('p \<Rightarrow> nat) \<Rightarrow> u8 \<Rightarrow> (u32 \<times> u32) list \<Rightarrow> nat \<Rightarrow> u8 \<Rightarrow> 'p usb \<Rightarrow> bool" where
  "ready view lag a q k recv s \<longleftrightarrow> unat a < 4 \<and> a \<noteq> 0 \<and> device_kind s = (1, 8) \<and> pids_ok s \<and> lag (bus s) \<le> 1000 \<and>
     (\<exists>sent. pids a 1 s = Some (sent, recv)) \<and> taken q k recv (device (view (bus s)))"

abbreviation at_line :: "('p \<Rightarrow> endpoint line) \<Rightarrow> 'p usb \<Rightarrow> endpoint" where
  "at_line view s \<equiv> device (view (bus s))"

lemma kind_same: "same_but_bus s t \<Longrightarrow> device_kind t = device_kind s" "same_but_bus s t \<Longrightarrow> usb10_device_address t = usb10_device_address s"
  by (auto simp: same_but_bus_iff device_kind_def Let_def)

lemma kind_set [simp]: "device_kind (set_pids a e p s) = device_kind s" "device_kind (s\<lparr>MIE := x\<rparr>) = device_kind s"
  "device_kind (s\<lparr>usb10_device_address := x'\<rparr>) = device_kind s" "usb10_device_address (set_pids a e p s) = usb10_device_address s"
  by (simp_all add: device_kind_def set_pids_def Let_def)

lemma in_request_step:
  assumes ob: "obeys P view lag (endpoint_reaction a)" and "ready view lag a q k recv s"
  obtains (none) e t where "usb10_in_request P a 1 (Some (replicate 8 0)) 8 s = Some (e, Some (replicate 8 0), t)" "e < 0"
      "ready view lag a q k recv t" "usb10_device_address t = usb10_device_address s"
      "fates (at_line view s) = [] \<Longrightarrow> fates (at_line view t) = [] \<and> e = -8 \<and> k = length q"
    | (some) rx t recv' where "usb10_in_request P a 1 (Some (replicate 8 0)) 8 s = Some (8, Some (report_of (q ! k)), t)"
      "reply (view (bus t)) = Some (rx, True, q ! k)" "USB10_RX_STATUS_LEN rx = 88" "k < length q"
      "ready view lag a q (Suc k) recv' t" "usb10_device_address t = usb10_device_address s"
      "fates (at_line view s) = [] \<Longrightarrow> fates (at_line view t) = []"
proof -
  obtain snt where s: "unat a < 4" "pids_ok s" "lag (bus s) \<le> 1000" "pids a 1 s = Some (snt, recv)" "taken q k recv (at_line view s)"
    "a \<noteq> 0" "device_kind s = (1, 8)" using assms(2) by (auto simp: ready_def)
  obtain m u where u: "usb10_wait_while_busy P 10000 s = (m, u)" "0 < m" "view (bus u) = view (bus s)" "lag (bus u) \<le> lag (bus s)" "same_but_bus s u"
    by (rule wait_while_busy_line [OF ob, of s 10000]) (use s(3) in auto)
  let ?u = "u\<lparr>MIE := False\<rparr>"
  let ?f = "recv_attempt P 25000 True (-9) (-10) a 1"
  have pu: "pids a 1 ?u = Some (snt, recv)" "pids_ok ?u" using pids_same(1) [OF u(5)] pids_ok_same [OF u(5)] s by simp_all
  obtain x l where l: "line_packet 8 (poll_attempt a recv) (view (bus ?u)) = (x, l)" by (cases "line_packet 8 (poll_attempt a recv) (view (bus ?u))")
  have step: "taken q k recv (device (view (bus ?u)))" using s(5) u(3) by simp
  obtain t where t: "recv_packet 8 ?f ?u = Some (x, t)" "view (bus t) = l" "lag (bus t) \<le> 1000"
    "same_but_bus (case x of Inl _ \<Rightarrow> ?u | Inr rx \<Rightarrow> set_pids a 1 (snt, USB10_RX_STATUS_PID rx) ?u) t"
    using recv_packet_line [OF ob _ pu(1) l, of 25000] by auto
  note out = poll_packet [OF l step] and fine = packet_keeps_fine [OF l step]
  have q: "usb10_in_request P a 1 (Some (replicate 8 0)) 8 s = do {
      (ret, r, s) \<leftarrow> recv_loop 1 P ?f 0 8 0 (Some (replicate 8 0)) ?u; Some (ret, r, s\<lparr>MIE := True\<rparr>) }"
    using s(1) u(1,2) by (simp add: usb10_in_request_def num_of_data_packets_def)
  show ?thesis
  proof (cases x)
    case (Inl e)
    then have sb: "same_but_bus ?u t" using t(4) by simp
    then have "pids a 1 t = Some (snt, recv)" "pids_ok t" "device_kind t = (1, 8)" "usb10_device_address t = usb10_device_address s"
      using pids_same(1) [OF sb] pids_ok_same [OF sb] kind_same [OF sb] kind_same [OF u(5)] s(7) pu by simp_all
    moreover have "fates (at_line view s) = [] \<Longrightarrow> fates (at_line view t) = [] \<and> e = -8 \<and> k = length q"
      using fine packet_fine [of 7 a recv "view (bus ?u)" x l] l step t(2) u(3) Inl by (auto simp: eval_nat_numeral)
    ultimately show ?thesis using none [of e "t\<lparr>MIE := True\<rparr>"] q t out Inl s u(3) by (auto simp: ready_def)
  next
    case (Inr rx)
    obtain lo hi where w: "q ! k = (lo, hi)" by (cases "q ! k")
    have p: "USB10_RX_STATUS_LEN rx = 88" "k < length q" "reply l = Some (rx, True, lo, hi)" "taken q (Suc k) (USB10_RX_STATUS_PID rx) (device l)"
      using out Inr w by (auto simp: brings_def)
    obtain v where v: "collect P 0 8 (Some (replicate 8 0)) t = Some (Some (st32 (st32 (replicate 8 0) (0 * 8) lo) (0 * 8 + 4) hi), v)"
      "view (bus v) = view (bus t)" "lag (bus v) \<le> lag (bus t)" "same_but_bus t v"
      by (rule collect_line [OF ob, of t rx True lo hi 8 0 "replicate 8 0"]) (use t(2) p(3) in auto)
    have sv: "same_but_bus (set_pids a 1 (snt, USB10_RX_STATUS_PID rx) ?u) v" using t(4) same_but_bus_trans [OF _ v(4)] Inr by simp
    have pv: "pids a 1 v = Some (snt, USB10_RX_STATUS_PID rx)" "pids_ok v" "device_kind v = (1, 8)"
        "usb10_device_address v = usb10_device_address s"
      using pids_same(1) [OF sv] pids_set [OF pu(2) s(1)] pids_ok_same [OF sv] pids_ok_set [OF pu(2) s(1)]
        kind_same [OF sv] kind_same [OF u(5)] s(7) by simp_all
    have "recv_loop 1 P ?f 0 8 0 (Some (replicate 8 0)) ?u = Some (8, Some (report_of (lo, hi)), v)"
      using t(1) Inr v(1) p(1) by (simp add: packet_bytes_def st32_report)
    then show ?thesis using some [of "v\<lparr>MIE := True\<rparr>" rx "USB10_RX_STATUS_PID rx"] q w p t(2,3) v(2,3) pv s u(3) fine by (auto simp: ready_def)
  qed
qed

text \<open>The number of failed polls, and the device given up after the fourth.\<close>

definition counted :: "u8 \<Rightarrow> 'p usb \<Rightarrow> u32 \<Rightarrow> bool" where
  "counted a s n \<longleftrightarrow> usb10_device_address s = a \<and> n \<le> 3 \<or> usb10_device_address s = 0 \<and> n = 4"

lemma count_up: "n \<le> 3 \<Longrightarrow> 3 < n + 1 \<Longrightarrow> n + 1 = (4 :: u32)" "\<not> 3 < n \<Longrightarrow> n \<le> (3 :: u32)"
  by unat_arith+

lemma poll_step:
  assumes ob: "obeys P view lag (endpoint_reaction a)" and rd: "ready view lag a q k recv s" and ad: "usb10_device_address s = a" and n: "n \<le> 3"
  shows "\<exists>r t k' recv' n'. usb_poll P s n = Some (r, t, n') \<and> ready view lag a q k' recv' t \<and> counted a t n' \<and>
    (case r of None \<Rightarrow> k' = k | Some b \<Rightarrow> k < length q \<and> k' = Suc k \<and> b = report_of (q ! k)) \<and>
    (fates (at_line view s) = [] \<longrightarrow> fates (at_line view t) = [] \<and> usb10_device_address t = a \<and> (k < length q \<longrightarrow> r \<noteq> None))"
proof (rule in_request_step [OF ob rd])
  have kind: "device_kind s = (1, 8)" using rd by (simp add: ready_def)
  { fix e t assume *: "usb10_in_request P a 1 (Some (replicate 8 0)) 8 s = Some (e, Some (replicate 8 0), t)" "e < 0"
    "ready view lag a q k recv t" "usb10_device_address t = usb10_device_address s"
    "fates (at_line view s) = [] \<Longrightarrow> fates (at_line view t) = [] \<and> e = -8 \<and> k = length q"
    let ?t = "if e = -8 \<or> e = -9 \<or> \<not> 3 < n + 1 then t else t\<lparr>usb10_device_address := 0\<rparr>"
    let ?n = "if e = -8 \<or> e = -9 then n else n + 1"
    have "usb_poll P s n = Some (None, ?t, ?n)" using *(1,2) kind ad by (auto simp: usb_poll_def Let_def)
    moreover have "ready view lag a q k recv ?t" using *(3) by (auto simp: ready_def pids_def pids_ok_def)
    moreover have "counted a ?t ?n" using *(4) ad n count_up(1) [OF n] count_up(2) [of "n + 1"] by (auto simp: counted_def)
    ultimately show ?thesis using *(4,5) ad by (intro exI [of _ None] exI [of _ ?t] exI [of _ k] exI [of _ recv] exI [of _ ?n]) auto }
  fix rx t recv' assume *: "usb10_in_request P a 1 (Some (replicate 8 0)) 8 s = Some (8, Some (report_of (q ! k)), t)"
    "reply (view (bus t)) = Some (rx, True, q ! k)" "USB10_RX_STATUS_LEN rx = 88" "k < length q"
    "ready view lag a q (Suc k) recv' t" "usb10_device_address t = usb10_device_address s"
    "fates (at_line view s) = [] \<Longrightarrow> fates (at_line view t) = []"
  obtain v u where u: "usb10_read_reg P RX_STATUS t = (v, u)" by (cases "usb10_read_reg P RX_STATUS t")
  have ru: "view (bus u) = view (bus t)" "lag (bus u) \<le> lag (bus t)" "same_but_bus t u" "v = rx"
    using read_other [OF ob u] *(2) by (cases "q ! k"; auto)+
  have "ready view lag a q (Suc k) recv' u"
    using *(5) ru(1,2) pids_same(1) [OF ru(3)] pids_ok_same [OF ru(3)] kind_same [OF ru(3)] by (auto simp: ready_def)
  moreover have "usb_poll P s n = Some (Some (report_of (q ! k)), u, 0)" using *(1,3) kind ad u ru(4) by (simp add: usb_poll_def)
  ultimately show ?thesis using *(4,6,7) ru(1) ad kind_same(2) [OF ru(3)]
    by (intro exI [of _ "Some (report_of (q ! k))"] exI [of _ u] exI [of _ "Suc k"] exI [of _ recv'] exI [of _ 0]) (auto simp: counted_def)
qed

text \<open>Rounds of the main loop that do not switch the LEDs.\<close>

abbreviation (input) polled :: "u32 \<Rightarrow> bool" where "polled c \<equiv> c mod 4 = 0"

definition no_leds :: "u32 list \<Rightarrow> bool" where
  "no_leds cs \<longleftrightarrow> (\<forall>c \<in> set cs. polled c \<longrightarrow> c AND 0x3ff \<notin> {0x100, 0x200})"

lemma tasks_exact:
  assumes "obeys P view lag (endpoint_reaction a)" "ready view lag a q k recv s" "counted a s n" "no_leds cs"
  shows "\<exists>rs t m recv'. usb_tasks fuel P bulk junk cs s n = Some (rs, t, m) \<and> ready view lag a q (k + length rs) recv' t \<and> counted a t m \<and>
    rs = map report_of (take (length rs) (drop k q)) \<and>
    (usb10_device_address s = a \<and> fates (at_line view s) = [] \<longrightarrow> usb10_device_address t = a \<and> length rs = min (length (filter polled cs)) (length q - k))"
  using assms(2-4)
proof (induction cs arbitrary: k recv s n)
  case (Cons c cs)
  have nl: "no_leds cs" "polled c \<Longrightarrow> c AND 0x3ff \<noteq> 0x100 \<and> c AND 0x3ff \<noteq> 0x200" using Cons.prems(3) by (auto simp: no_leds_def)
  have a: "a \<noteq> 0" using Cons.prems(1) by (simp add: ready_def)
  show ?case
  proof (cases "usb10_device_address s = 0")
    case True
    then show ?thesis using Cons.prems a by (intro exI [of _ "[]"] exI [of _ s] exI [of _ n] exI [of _ recv]) auto
  next
    case False
    then have ad: "usb10_device_address s = a" "n \<le> 3" using Cons.prems(2) by (auto simp: counted_def)
    show ?thesis
    proof (cases "polled c")
      case True
      obtain r t k' recv' n' where t: "usb_poll P s n = Some (r, t, n')" "ready view lag a q k' recv' t" "counted a t n'"
        "case r of None \<Rightarrow> k' = k | Some b \<Rightarrow> k < length q \<and> k' = Suc k \<and> b = report_of (q ! k)"
        "fates (at_line view s) = [] \<longrightarrow> fates (at_line view t) = [] \<and> usb10_device_address t = a \<and> (k < length q \<longrightarrow> r \<noteq> None)"
        using poll_step [OF assms(1) Cons.prems(1) ad] by blast
      obtain rs u m recv'' where u: "usb_tasks fuel P bulk junk cs t n' = Some (rs, u, m)" "ready view lag a q (k' + length rs) recv'' u"
        "counted a u m" "rs = map report_of (take (length rs) (drop k' q))"
        "usb10_device_address t = a \<and> fates (at_line view t) = [] \<longrightarrow> usb10_device_address u = a \<and> length rs = min (length (filter polled cs)) (length q - k')"
        using Cons.IH [OF t(2,3) nl(1)] by blast
      have task: "usb_task fuel P bulk junk c s n = Some (r, t, n')"
        using t(1) True nl(2) False by (simp add: usb_task_def)
      show ?thesis
      proof (cases r)
        case None
        then show ?thesis using t(4,5) u True task False
          by (intro exI [of _ rs] exI [of _ u] exI [of _ m] exI [of _ recv'']) auto
      next
        case (Some b)
        then have k: "k < length q" "k' = Suc k" "b = report_of (q ! k)" using t(4) by simp_all
        have all: "b # rs = map report_of (take (length (b # rs)) (drop k q))"
          using k u(4) by (simp add: Cons_nth_drop_Suc [symmetric])
        have run: "usb_tasks fuel P bulk junk (c # cs) s n = Some (b # rs, u, m)" using task u(1) Some False by simp
        have rdy: "ready view lag a q (k + length (b # rs)) recv'' u" using u(2) k(2) by simp
        have "usb10_device_address s = a \<and> fates (at_line view s) = [] \<longrightarrow> usb10_device_address u = a \<and>
            length (b # rs) = min (length (filter polled (c # cs))) (length q - k)"
          using t(5) u(5) k True by (auto simp: min_def)
        with run rdy u(3) all show ?thesis by (intro exI conjI)
      qed
    next
      case skip: False
      have "usb_task fuel P bulk junk c s n = Some (None, s, n)" using skip by (simp add: usb_task_def)
      then show ?thesis using Cons.IH [OF Cons.prems(1,2) nl(1)] False skip by simp
    qed
  qed
qed auto


definition line_start :: "endpoint \<Rightarrow> endpoint line \<times> nat" where
  "line_start d = (\<lparr>device = d, reply = None, out_low = 0, out_high = 0\<rparr>, 0)"

text \<open>The driver after a reset of the bus, with a keyboard at the address \<open>a\<close>.\<close>

definition keyboard_start :: "u8 \<Rightarrow> endpoint \<Rightarrow> (endpoint line \<times> nat) usb" where
  "keyboard_start a d = (usb_start (line_start d))\<lparr>usb10_device_address := a, usb10_interface_descr := [9, 4, 0, 0, 1, 3, 1, 1, 0]\<rparr>"

lemma keyboard_start_ready: "usb10_device_address (keyboard_start a d) = a" "device_kind (keyboard_start a d) = (1, 8)" "pids_ok (keyboard_start a d)"
  "at_line fst (keyboard_start a d) = d" "unat a < 4 \<Longrightarrow> pids a 1 (keyboard_start a d) = Some (USB10_PID_DATA1, USB10_PID_DATA0)"
  "snd (bus (keyboard_start a d)) = 0"
  by (simp_all add: keyboard_start_def usb_start_def line_start_def device_kind_def pids_ok_def pids_def)


text \<open>After a reset of the bus the driver takes DATA0 for the PID it has seen last, also at the endpoint 1, where the first
  packet of a device that has just been configured is a DATA0 packet: it is acknowledged and dropped, and only the reports
  behind it are handed on.\<close>

theorem first_report_dropped:
  assumes "unat a < 4" "a \<noteq> 0" "k \<le> 1000" "no_leds cs"
  shows "\<exists>rs t m. usb_tasks fuel (ideal_port k (endpoint_reaction a)) bulk junk cs
    (keyboard_start a \<lparr>queue = first # reports, toggle = False, sent = False, fates = []\<rparr>) 0 = Some (rs, t, m) \<and>
    rs = map report_of (take (length (filter polled cs)) reports)"
proof -
  let ?d = "\<lparr>queue = first # reports, toggle = False, sent = False, fates = []\<rparr>"
  have rd: "ready fst snd a (first # reports) 1 USB10_PID_DATA0 (keyboard_start a ?d)"
    using assms(1,2) by (auto simp: ready_def taken_def keyboard_start_ready pid_of_def image_iff)
  have ct: "counted a (keyboard_start a ?d) 0" by (simp add: counted_def keyboard_start_ready)
  obtain rs t m recv' where t: "usb_tasks fuel (ideal_port k (endpoint_reaction a)) bulk junk cs (keyboard_start a ?d) 0 = Some (rs, t, m)"
    "rs = map report_of (take (length rs) (drop 1 (first # reports)))"
    "usb10_device_address (keyboard_start a ?d) = a \<and> fates (at_line fst (keyboard_start a ?d)) = [] \<longrightarrow> usb10_device_address t = a \<and>
      length rs = min (length (filter polled cs)) (length (first # reports) - 1)"
    using tasks_exact [OF ideal_obeys [OF assms(3)] rd ct assms(4), of fuel bulk junk] by (elim exE conjE) (rule that)
  have l: "length rs = min (length (filter polled cs)) (length reports)"
    using mp [OF t(3)] by (simp add: keyboard_start_ready)
  have "take (length rs) (drop 1 (first # reports)) = take (length (filter polled cs)) reports" unfolding l by (simp add: min_def)
  then have "rs = map report_of (take (length (filter polled cs)) reports)" using t(2) by (rule subst)
  then show ?thesis using t(1) by blast
qed

end
