(* ===== verification/UsbInit.thy ===== *)
theory UsbInit
  imports UsbLine
begin

text \<open>
  The loop of \<open>usb10_init\<close> over the descriptors of a configuration takes the first ones of each type.
\<close>

section \<open>The loop over the descriptors\<close>

text \<open>A descriptor as the loop needs it: its length in front, and long enough for its type.\<close>

definition descr_ok :: "u8 list \<Rightarrow> bool" where
  "descr_ok d \<longleftrightarrow> unat (d ! 0) = length d \<and> 2 \<le> length d \<and> (d ! 1 = 0x02 \<or> d ! 1 = 0x04 \<longrightarrow> 9 \<le> length d) \<and>
     (d ! 1 = 0x05 \<longrightarrow> 7 \<le> length d)"

text \<open>The first descriptor of a type, in the place for it.\<close>

definition fill :: "nat \<Rightarrow> u8 \<Rightarrow> u8 list list \<Rightarrow> u8 list \<Rightarrow> u8 list" where
  "fill n ty ds old = (if old ! 0 \<noteq> 0 then old
     else case find (\<lambda>d. d ! 1 = ty) ds of None \<Rightarrow> old | Some d \<Rightarrow> take n d @ drop n old)"

lemma first_descr_fill:
  assumes "length old \<ge> n" "n > 0" "p + n \<le> length bulk" "n \<le> length d" "take n (drop p bulk) = take n d" "d ! 0 \<noteq> 0" "d ! 1 = ty"
  shows "\<exists>c. first_descr n bulk p old = Some c \<and> length c = length old \<and> fill n ty ds c = fill n ty (d # ds) old"
  using assms by (auto simp: first_descr_def fill_def nth_append)

lemma fill_skip: "d ! 1 \<noteq> ty \<Longrightarrow> fill n ty (d # ds) old = fill n ty ds old"
  by (simp add: fill_def)

lemma parse_loop_fills:
  assumes "\<forall>d \<in> set ds. descr_ok d" "take (length (concat ds)) (drop p bulk) = concat ds"
    "9 \<le> length (usb10_config_descr s)" "9 \<le> length (usb10_interface_descr s)" "7 \<le> length (usb10_endpoint_descr s)"
    "length ds < fuel" "bytes = int (p + length (concat ds))" "p + length (concat ds) \<le> length bulk"
  shows "parse_loop fuel bulk bytes p s = Some (s\<lparr>usb10_config_descr := fill 9 0x02 ds (usb10_config_descr s),
    usb10_interface_descr := fill 9 0x04 ds (usb10_interface_descr s), usb10_endpoint_descr := fill 7 0x05 ds (usb10_endpoint_descr s)\<rparr>)"
  using assms
proof (induction ds arbitrary: p s fuel)
  case Nil
  then show ?case by (cases fuel) (simp_all add: fill_def)
next
  case (Cons d ds)
  obtain k where k: "fuel = Suc k" "length ds < k" using Cons.prems(6) by (cases fuel) auto
  have d: "unat (d ! 0) = length d" "2 \<le> length d" "d ! 1 = 0x02 \<or> d ! 1 = 0x04 \<longrightarrow> 9 \<le> length d" "d ! 1 = 0x05 \<longrightarrow> 7 \<le> length d"
    using Cons.prems(1) by (simp_all add: descr_ok_def)
  have l: "p + length d + length (concat ds) \<le> length bulk" using Cons.prems(8) by simp
  have dp: "take (length d + length (concat ds)) (drop p bulk) = d @ concat ds" using Cons.prems(2) by simp
  have td: "take n (drop p bulk) = take n d" if "n \<le> length d" for n
    using arg_cong [OF dp, of "take n"] that by simp
  have rest: "take (length (concat ds)) (drop (p + length d) bulk) = concat ds"
    using arg_cong [OF dp, of "drop (length d)"] by (simp add: drop_take add.commute)
  have nb: "bulk ! (p + i) = d ! i" if "i < length d" for i
    using arg_cong [OF td [OF order.refl], of "\<lambda>xs. xs ! i"] that l by simp
  have "d \<noteq> []" using d(2) by auto
  then have b: "bulk ! p = d ! 0" "bulk ! (p + 1) = d ! 1" using nb [of 0] nb [of 1] d(2) by simp_all
  have d0: "d ! 0 \<noteq> 0" using d(1,2) by (metis not_numeral_le_zero unsigned_0)
  have first: "\<exists>c. first_descr n bulk p old = Some c \<and> length c = length old \<and> fill n ty ds c = fill n ty (d # ds) old"
    if "d ! 1 = ty" "n \<le> length d" "n \<le> length old" "0 < n" for n ty old
    using first_descr_fill [of n old p bulk d ty ds] that d0 td l by simp
  let ?fill = "\<lambda>ds s. s\<lparr>usb10_config_descr := fill 9 0x02 ds (usb10_config_descr s),
    usb10_interface_descr := fill 9 0x04 ds (usb10_interface_descr s), usb10_endpoint_descr := fill 7 0x05 ds (usb10_endpoint_descr s)\<rparr>"
  have "\<exists>t. (if d ! 1 = 0x02 then map_option (\<lambda>d. s\<lparr>usb10_config_descr := d\<rparr>) (first_descr 9 bulk p (usb10_config_descr s))
       else if d ! 1 = 0x04 then map_option (\<lambda>d. s\<lparr>usb10_interface_descr := d\<rparr>) (first_descr 9 bulk p (usb10_interface_descr s))
       else if d ! 1 = 0x05 then map_option (\<lambda>d. s\<lparr>usb10_endpoint_descr := d\<rparr>) (first_descr 7 bulk p (usb10_endpoint_descr s))
       else Some s) = Some t \<and> 9 \<le> length (usb10_config_descr t) \<and> 9 \<le> length (usb10_interface_descr t) \<and>
       7 \<le> length (usb10_endpoint_descr t) \<and> ?fill ds t = ?fill (d # ds) s"
  proof -
    consider "d ! 1 = 0x02" | "d ! 1 = 0x04" | "d ! 1 = 0x05" | "d ! 1 \<notin> {0x02, 0x04, 0x05}" by auto
    then show ?thesis
    proof cases
      case 1
      then show ?thesis using first [OF 1, of 9 "usb10_config_descr s"] d(3) Cons.prems(3-5) by (auto simp: fill_skip)
    next
      case 2
      then show ?thesis using first [OF 2, of 9 "usb10_interface_descr s"] d(3) Cons.prems(3-5) by (auto simp: fill_skip)
    next
      case 3
      then show ?thesis using first [OF 3, of 7 "usb10_endpoint_descr s"] d(4) Cons.prems(3-5) by (auto simp: fill_skip)
    qed (use Cons.prems(3-5) in \<open>simp add: fill_skip\<close>)
  qed
  then obtain t where t: "(if d ! 1 = 0x02 then map_option (\<lambda>d. s\<lparr>usb10_config_descr := d\<rparr>) (first_descr 9 bulk p (usb10_config_descr s))
       else if d ! 1 = 0x04 then map_option (\<lambda>d. s\<lparr>usb10_interface_descr := d\<rparr>) (first_descr 9 bulk p (usb10_interface_descr s))
       else if d ! 1 = 0x05 then map_option (\<lambda>d. s\<lparr>usb10_endpoint_descr := d\<rparr>) (first_descr 7 bulk p (usb10_endpoint_descr s))
       else Some s) = Some t" "9 \<le> length (usb10_config_descr t)" "9 \<le> length (usb10_interface_descr t)"
       "7 \<le> length (usb10_endpoint_descr t)" "?fill ds t = ?fill (d # ds) s" by blast
  have "parse_loop k bulk bytes (p + length d) t = Some (?fill ds t)"
    by (rule Cons.IH) (use Cons.prems(1,7,8) rest t(2-4) k(2) in \<open>simp_all add: add.assoc\<close>)
  moreover have "\<not> bytes \<le> int p" "\<not> length bulk < p + 2" using Cons.prems(7) l d(2) by simp_all
  then have "parse_loop fuel bulk bytes p s = parse_loop k bulk bytes (p + length d) t"
    unfolding k(1) parse_loop.simps(2) Let_def b t(1) d(1) by simp
  ultimately show ?case using t(5) by simp
qed



text \<open>A descriptor of the length zero keeps the loop in its place for ever.\<close>

theorem empty_descriptor_loops:
  assumes "p + 2 \<le> length bulk" "bulk ! p = 0" "bulk ! (p + 1) \<notin> {0x02, 0x04, 0x05}" "int p < bytes"
  shows "parse_loop fuel bulk bytes p s = None"
  using assms by (induction fuel) auto

end
