(* ===== verification/UsbEnum.thy ===== *)
theory UsbEnum
  imports UsbInit
begin

text \<open>
  The start of a device by \<open>usb10_init\<close> (usb10.c): a model of a standard device at the line of \<open>UsbLine\<close>, what each stage
  of a control transfer achieves with it, and the whole enumeration.
\<close>

section \<open>A device of the standard\<close>

text \<open>What the endpoint 0 of a device waits for: nothing, the data of a setup, the end of a transfer from the device, or the IN
  tokens for the rest of the data it sends, the last stage of a transfer to the device being an empty packet; or it answers STALL
  to a request it does not know.\<close>

datatype stage = Idle | Setup | Out_status | Data_in "u8 list" bool | In_status "u8 option" | Stalled

record usb_device =
  address :: u8
  configured :: bool
  stage :: stage
  device_bytes :: "u8 list"
  config_bytes :: "u8 list"
  naks :: "nat list"

text \<open>The device takes its time: \<open>naks\<close> are the numbers of IN tokens it answers with NAK before each of its next packets.\<close>

definition due :: "usb_device \<Rightarrow> nat" where
  "due d = (case naks d of [] \<Rightarrow> 0 | n # _ \<Rightarrow> n)"

definition data_status :: "u8 \<Rightarrow> nat \<Rightarrow> u32" where
  "data_status pid n = push_bit 8 (ucast pid) OR word_of_nat (24 + 8 * n)"

definition padded :: "u8 list \<Rightarrow> u8 list" where
  "padded xs = xs @ replicate (8 - length xs) 0"

definition data_packet :: "bool \<Rightarrow> u8 list \<Rightarrow> packet" where
  "data_packet t xs = (data_status (if t then USB10_PID_DATA1 else USB10_PID_DATA0) (length xs), True, ld32 (padded xs) 0, ld32 (padded xs) 4)"

definition ack_packet :: packet where
  "ack_packet = (data_status USB10_PID_ACK 0, True, 0, 0)"

definition nak_packet :: packet where
  "nak_packet = (data_status USB10_PID_NAK 0, False, 0, 0)"

definition stall_packet :: packet where
  "stall_packet = (data_status USB10_PID_STALL 0, False, 0, 0)"

text \<open>The command that sends a packet of \<open>n + 1\<close> bits.\<close>

abbreviation (input) data_command :: "int \<Rightarrow> u8 \<Rightarrow> u32" where
  "data_command n pid \<equiv> USB10_CMD_START_BIT OR USB10_CMD_SET_LEN n OR USB10_CMD_SET_PID pid OR USB10_CMD_SEND_DATA"

text \<open>The request in the two words that were sent.\<close>

definition request :: "u32 \<Rightarrow> u32 \<Rightarrow> usb_device \<Rightarrow> usb_device" where
  "request lo hi d = (let b0 = (ucast lo :: u8); b1 = (ucast (drop_bit 8 lo) :: u8); b2 = (ucast (drop_bit 16 lo) :: u8);
       b3 = (ucast (drop_bit 24 lo) :: u8); wLength = unat (ucast (drop_bit 16 hi) :: u16) in
     if b0 = 0x80 \<and> b1 = 0x06 \<and> b3 \<in> {1, 2} then d\<lparr>stage := Data_in (take wLength (if b3 = 1 then device_bytes d else config_bytes d)) True\<rparr>
     else if b0 = 0 \<and> b1 = 0x05 then d\<lparr>stage := In_status (Some b2)\<rparr>
     else if b0 = 0 \<and> b1 = 0x09 then d\<lparr>stage := In_status None, configured := (b2 \<noteq> 0)\<rparr>
     else d\<lparr>stage := Stalled\<rparr>)"

definition command_type :: "u32 \<Rightarrow> u32" where
  "command_type c = c AND 0x0f"

text \<open>The data of a setup is a DATA0 packet of 64 bits, the end of a transfer from the device an empty DATA1 packet; the device does
  not answer to others. It may answer NAK to an IN token, but not to an OUT token.\<close>

definition device_reaction :: "usb_device reaction" where
  "device_reaction c lo hi d =
    (if command_type c = USB10_CMD_BUS_RESET then (None, d\<lparr>address := 0, configured := False, stage := Idle\<rparr>)
     else if c = long_token USB10_PID_SETUP (address d) 0 then (None, d\<lparr>stage := Setup\<rparr>)
     else if c = long_token USB10_PID_OUT (address d) 0 then (None, d\<lparr>stage := Out_status\<rparr>)
     else if c = long_token USB10_PID_IN (address d) 0 then
       (case stage d of
          Data_in xs t \<Rightarrow> if due d = 0 then (Some (data_packet t (take 8 xs)), d) else (Some nak_packet, d\<lparr>naks := (due d - 1) # tl (naks d)\<rparr>)
        | In_status _ \<Rightarrow> if due d = 0 then (Some (data_packet True []), d) else (Some nak_packet, d\<lparr>naks := (due d - 1) # tl (naks d)\<rparr>)
        | Stalled \<Rightarrow> (Some stall_packet, d) | _ \<Rightarrow> (None, d))
     else if command_type c = USB10_CMD_SEND_DATA then
       (case stage d of
          Setup \<Rightarrow> if c = data_command (8 * 8 - 1) USB10_PID_DATA0 then (Some ack_packet, request lo hi d) else (None, d)
        | Out_status \<Rightarrow> if c = data_command (-1) USB10_PID_DATA1 then (Some ack_packet, d\<lparr>stage := Idle\<rparr>) else (None, d)
        | _ \<Rightarrow> (None, d))
     else if c = ack_token then
       (None, (case stage d of Data_in xs t \<Rightarrow> d\<lparr>stage := Data_in (drop 8 xs) (\<not> t)\<rparr>
         | In_status (Some a) \<Rightarrow> d\<lparr>stage := Idle, address := a\<rparr> | In_status None \<Rightarrow> d\<lparr>stage := Idle\<rparr> | _ \<Rightarrow> d)\<lparr>naks := tl (naks d)\<rparr>)
     else (None, d))"

lemma types: "command_type (long_token pid a e) = USB10_CMD_SEND_LONG_TOKEN" "command_type ack_token = USB10_CMD_SEND_SHORT_TOKEN"
    "command_type (USB10_CMD_START_BIT OR USB10_CMD_SET_LEN n OR USB10_CMD_SET_PID p OR USB10_CMD_SEND_DATA) = USB10_CMD_SEND_DATA"
  unfolding command_type_def by (rule long_token_type, rule ack_token_type, rule data_command_type)

lemma type_differs: "command_type c \<noteq> command_type d \<Longrightarrow> c \<noteq> d"
  by auto

text \<open>The device at the commands of the driver.\<close>

lemma at_reset: "command device_reaction (USB10_CMD_START_BIT OR USB10_CMD_BUS_RESET) l =
    l\<lparr>device := (device l)\<lparr>address := 0, configured := False, stage := Idle\<rparr>, reply := None\<rparr>"
  by (simp add: command_def device_reaction_def command_type_def)

lemma at_setup: "command device_reaction (long_token USB10_PID_SETUP (address (device l)) 0) l = l\<lparr>device := (device l)\<lparr>stage := Setup\<rparr>, reply := None\<rparr>"
  by (simp add: command_def device_reaction_def types long_token_type)

lemma at_out: "command device_reaction (long_token USB10_PID_OUT (address (device l)) 0) l = l\<lparr>device := (device l)\<lparr>stage := Out_status\<rparr>, reply := None\<rparr>"
  by (simp add: command_def device_reaction_def types long_token_type tokens_differ tokens_differ [THEN not_sym])

lemma at_in: "stage (device l) = Data_in xs t \<or> (\<exists>a. stage (device l) = In_status a) \<and> t \<and> xs = [] \<Longrightarrow>
    command device_reaction (long_token USB10_PID_IN (address (device l)) 0) l =
    (if due (device l) = 0 then l\<lparr>reply := Some (data_packet t (take 8 xs))\<rparr>
     else l\<lparr>device := (device l)\<lparr>naks := (due (device l) - 1) # tl (naks (device l))\<rparr>, reply := Some nak_packet\<rparr>)"
  by (auto simp: command_def device_reaction_def types long_token_type tokens_differ tokens_differ [THEN not_sym])

lemma data_is_no_token:
  "USB10_CMD_START_BIT OR USB10_CMD_SET_LEN n OR USB10_CMD_SET_PID p OR USB10_CMD_SEND_DATA \<noteq> long_token pid a e"
  "ack_token \<noteq> long_token pid a e"
  by (rule type_differs, simp only: types, simp)+

lemma at_data:
  "stage (device l) = Setup \<Longrightarrow> command device_reaction (data_command (8 * 8 - 1) USB10_PID_DATA0) l =
    l\<lparr>device := request (out_low l) (out_high l) (device l), reply := Some ack_packet\<rparr>"
  "stage (device l) = Out_status \<Longrightarrow> command device_reaction (data_command (-1) USB10_PID_DATA1) l =
    l\<lparr>device := (device l)\<lparr>stage := Idle\<rparr>, reply := Some ack_packet\<rparr>"
  unfolding command_def device_reaction_def types data_command_type
  by (simp_all only: data_is_no_token if_False) simp_all

lemma at_ack: "command device_reaction ack_token l = l\<lparr>device := ((case stage (device l) of Data_in xs t \<Rightarrow> (device l)\<lparr>stage := Data_in (drop 8 xs) (\<not> t)\<rparr>
    | In_status (Some a) \<Rightarrow> (device l)\<lparr>stage := Idle, address := a\<rparr> | In_status None \<Rightarrow> (device l)\<lparr>stage := Idle\<rparr> | _ \<Rightarrow> device l)\<lparr>naks := tl (naks (device l))\<rparr>)\<rparr>"
  unfolding command_def device_reaction_def types ack_token_type
  by (simp only: data_is_no_token if_False) (simp split: stage.split)

lemma pids_after: "same_but_bus (set_pids a 0 p s) t \<Longrightarrow> pids_ok s \<Longrightarrow> unat a < 4 \<Longrightarrow> pids a 0 t = Some p \<and> pids_ok t"
  using pids_same(1) [of "set_pids a 0 p s" t a 0] pids_ok_same [of "set_pids a 0 p s" t] by (simp add: pids_set pids_ok_set)

lemma status_fields: "n \<le> 8 \<Longrightarrow> pid \<in> {USB10_PID_DATA0, USB10_PID_DATA1, USB10_PID_ACK, USB10_PID_NAK} \<Longrightarrow>
    USB10_RX_STATUS_PID (data_status pid n) = pid \<and> USB10_RX_STATUS_LEN (data_status pid n) = word_of_nat (24 + 8 * n)"
proof -
  assume *: "n \<le> 8" "pid \<in> {USB10_PID_DATA0, USB10_PID_DATA1, USB10_PID_ACK, USB10_PID_NAK}"
  then have "n \<in> {0, 1, 2, 3, 4, 5, 6, 7, 8}" by auto
  with *(2) show ?thesis
    by (elim insertE emptyE; simp add: USB10_RX_STATUS_PID_def USB10_RX_STATUS_LEN_def data_status_def)
qed

section \<open>The stages of a transfer\<close>

text \<open>A packet is sent and acknowledged: the commands for the token and for the data, and the answer.\<close>

lemma setup_stage_line:
  assumes ob: "obeys P view lag device_reaction" and "unat a < 4" "pids_ok s" "pids a 0 s = Some (USB10_PID_DATA1, recv)"
    "address (device (view (bus s))) = a" "length req = 8"
  obtains t where "setup_stage (Suc k) P a 0 req s = Some (0, t)" "lag (bus t) \<le> 1000" "pids a 0 t = Some (USB10_PID_DATA0, recv)" "pids_ok t"
    "device (view (bus t)) = request (ld32 req 0) (ld32 req 4) ((device (view (bus s)))\<lparr>stage := Setup\<rparr>)"
proof -
  have g: "get_word 0 req = Some (ld32 req 0)" "get_word 4 req = Some (ld32 req 4)" using assms(6) by (simp_all add: get_word_def)
  let ?d = "device (view (bus s))"
  let ?s1 = "usb10_write_reg P SEND_DATA_HIGH (ld32 req 4) (usb10_write_reg P SEND_DATA_LOW (ld32 req 0) s)"
  let ?s2 = "usb10_write_reg P COMMAND (long_token USB10_PID_SETUP a 0) ?s1"
  have v1: "view (bus ?s1) = (view (bus s))\<lparr>out_low := ld32 req 0, out_high := ld32 req 4\<rparr>" using write_data [OF ob] by simp
  have v2: "view (bus ?s2) = (view (bus ?s1))\<lparr>device := ?d\<lparr>stage := Setup\<rparr>, reply := None\<rparr>" "lag (bus ?s2) \<le> 1000" "same_but_bus s ?s2"
    using write_command [OF ob] at_setup [of "view (bus ?s1)"] v1 assms(5) by simp_all
  obtain m s3 where s3: "usb10_wait_cmd_complete P 20000 ?s2 = (m, s3)" "0 < m" "view (bus s3) = view (bus ?s2)"
    "lag (bus s3) \<le> lag (bus ?s2)" "same_but_bus ?s2 s3" by (rule wait_cmd_complete_line [OF ob, of ?s2 20000]) (use v2(2) in auto)
  let ?c = "USB10_CMD_START_BIT OR USB10_CMD_SET_LEN (8 * 8 - 1) OR USB10_CMD_SET_PID USB10_PID_DATA0 OR USB10_CMD_SEND_DATA"
  let ?s4 = "usb10_write_reg P COMMAND ?c s3"
  have v4: "device (view (bus ?s4)) = request (ld32 req 0) (ld32 req 4) (?d\<lparr>stage := Setup\<rparr>)" "reply (view (bus ?s4)) = Some ack_packet"
    "lag (bus ?s4) \<le> 1000" "same_but_bus s ?s4"
    using write_command [OF ob] at_data(1) [of "view (bus s3)"] s3(3) v2(1) v1 same_but_bus_trans [OF v2(3) s3(5)] by simp_all
  obtain m' s5 where s5: "usb10_wait_cmd_complete P 5000 ?s4 = (m', s5)" "0 < m'" "view (bus s5) = view (bus ?s4)"
    "lag (bus s5) \<le> lag (bus ?s4)" "same_but_bus ?s4 s5" by (rule wait_cmd_complete_line [OF ob, of ?s4 5000]) (use v4(3) in auto)
  obtain r s6 where s6: "wait_until P received 2500 s5 = (r, s6)" by (cases "wait_until P received 2500 s5")
  note k6 = wait_keeps [OF ob s6]
  have v6: "view (bus s6) = view (bus ?s4)" "lag (bus s6) \<le> 1000" using k6(1,2) s5(3,4) v4(3) by simp_all
  have n6: "(r = None) = False" using wait_received(1) [OF ob s6] s5(3,4) v4(2,3) by simp
  have sb6: "same_but_bus s s6" by (rule same_but_bus_trans [OF same_but_bus_trans [OF v4(4) s5(5)] k6(3)])
  let ?s7 = "set_pids a 0 (USB10_PID_DATA0, recv) s6"
  obtain v s8 where s8: "usb10_read_reg P RX_STATUS ?s7 = (v, s8)" by (cases "usb10_read_reg P RX_STATUS ?s7")
  have v8: "view (bus s8) = view (bus ?s4)" "lag (bus s8) \<le> 1000" "v = data_status USB10_PID_ACK 0" "same_but_bus ?s7 s8"
    using read_other [OF ob s8] v6(1,2) v4(2) by (auto simp: ack_packet_def)
  have p6: "pids a 0 s6 = Some (USB10_PID_DATA1, recv)" "pids_ok s6" using pids_same(1) [OF sb6] pids_ok_same [OF sb6] assms(3,4) by simp_all
  have pid: "USB10_RX_STATUS_PID v = USB10_PID_ACK" using status_fields [of 0 USB10_PID_ACK] v8(3) by simp
  have f: "(m = 0) = False" "(m' = 0) = False" "(USB10_PID_DATA1 = USB10_PID_DATA0) = False"
    using s3(2) s5(2) by simp_all
  have "setup_stage (Suc k) P a 0 req s = Some (0, s8)"
    by (simp only: setup_stage.simps(2) g assms(4) bind.bind_lunit prod.case Let_def s3(1) s5(1) s6 s8 f n6 if_False p6(1) pid simp_thms)
  then show ?thesis using that v8(1,2) v4(1) pids_after [OF v8(4) p6(2) assms(2)] by simp
qed

text \<open>What a stage relies on and leaves behind: the toggles of the endpoint 0 and the device at the other end, which answers NAK
  at most four times before a packet.\<close>

definition linked :: "('p \<Rightarrow> usb_device line) \<Rightarrow> ('p \<Rightarrow> nat) \<Rightarrow> u8 \<Rightarrow> u8 \<times> u8 \<Rightarrow> usb_device \<Rightarrow> 'p usb \<Rightarrow> bool" where
  "linked view lag a p d s \<longleftrightarrow> unat a < 4 \<and> pids_ok s \<and> lag (bus s) \<le> 1000 \<and> pids a 0 s = Some p \<and>
     (\<exists>ns. device (view (bus s)) = d\<lparr>naks := ns\<rparr> \<and> (\<forall>n \<in> set ns. n \<le> 4))"

lemma linked_mie [simp]: "linked view lag a p d (s\<lparr>MIE := x\<rparr>) = linked view lag a p d s"
  by (simp add: linked_def pids_ok_def pids_def)

lemma linked_same: "linked view lag a p d s \<Longrightarrow> same_but_bus s t \<Longrightarrow> view (bus t) = view (bus s) \<Longrightarrow> lag (bus t) \<le> lag (bus s) \<Longrightarrow>
    linked view lag a p d t"
  using pids_same(1) [of s t a 0] pids_ok_same [of s t] by (simp add: linked_def)

lemma linked_set: "linked view lag a p d s \<Longrightarrow> linked view lag a q d (set_pids a 0 q s)"
  by (simp add: linked_def pids_set pids_ok_set)

lemma naks_last: "d\<lparr>naks := ns, stage := x\<rparr> = d\<lparr>stage := x, naks := ns\<rparr>" "d\<lparr>naks := ns, address := a\<rparr> = d\<lparr>address := a, naks := ns\<rparr>"
  "d\<lparr>naks := ns, configured := c\<rparr> = d\<lparr>configured := c, naks := ns\<rparr>"
  by simp_all

lemma request_naks: "request lo hi (d\<lparr>naks := ns\<rparr>) = (request lo hi d)\<lparr>naks := ns\<rparr>"
  by (simp add: request_def Let_def)

lemma setup_linked:
  assumes ob: "obeys P view lag device_reaction" and "linked view lag a (USB10_PID_DATA1, recv) d s" "address d = a" "length req = 8"
  obtains t where "setup_stage (Suc k) P a 0 req s = Some (0, t)"
    "linked view lag a (USB10_PID_DATA0, recv) (request (ld32 req 0) (ld32 req 4) (d\<lparr>stage := Setup\<rparr>)) t"
proof -
  obtain ns where s: "device (view (bus s)) = d\<lparr>naks := ns\<rparr>" "\<forall>n \<in> set ns. n \<le> 4" "unat a < 4" "pids_ok s"
    "pids a 0 s = Some (USB10_PID_DATA1, recv)" using assms(2) by (auto simp: linked_def)
  have ad: "address (device (view (bus s))) = a" using s(1) assms(3) by simp
  obtain t where t: "setup_stage (Suc k) P a 0 req s = Some (0, t)" "lag (bus t) \<le> 1000" "pids a 0 t = Some (USB10_PID_DATA0, recv)" "pids_ok t"
    "device (view (bus t)) = request (ld32 req 0) (ld32 req 4) ((device (view (bus s)))\<lparr>stage := Setup\<rparr>)"
    by (rule setup_stage_line [OF ob s(3-5) ad assms(4)])
  have "device (view (bus t)) = (request (ld32 req 0) (ld32 req 4) (d\<lparr>stage := Setup\<rparr>))\<lparr>naks := ns\<rparr>"
    using t(5) s(1) by (simp add: naks_last request_naks)
  then show ?thesis using that t(1-4) s(2,3) by (auto simp: linked_def)
qed

text \<open>A data packet is taken when its PID is not the one received before.\<close>

definition data_pid :: "bool \<Rightarrow> u8" where
  "data_pid t = (if t then USB10_PID_DATA1 else USB10_PID_DATA0)"

lemma data_pid_neq: "(data_pid t = data_pid (\<not> t)) = False" "(data_pid t = 0x5a) = False" "(data_pid t = 0x1e) = False"
    "(data_pid t \<noteq> 0xc3 \<and> data_pid t \<noteq> 0x4b) = False"
  by (simp_all add: data_pid_def)

lemma data_fields: "n \<le> 8 \<Longrightarrow> USB10_RX_STATUS_PID (data_status (data_pid t) n) = data_pid t"
    "n \<le> 8 \<Longrightarrow> USB10_RX_STATUS_LEN (data_status (data_pid t) n) = word_of_nat (24 + 8 * n)"
  using status_fields [of n "data_pid t"] by (simp_all add: data_pid_def)

text \<open>The packet that a stage sends, and what the acknowledgement makes of the device.\<close>

definition sends :: "usb_device \<Rightarrow> bool \<Rightarrow> u8 list \<Rightarrow> usb_device \<Rightarrow> bool" where
  "sends d t xs e \<longleftrightarrow> (case stage d of Data_in ys u \<Rightarrow> t = u \<and> xs = take 8 ys \<and> e = d\<lparr>stage := Data_in (drop 8 ys) (\<not> t)\<rparr>
     | In_status a \<Rightarrow> t \<and> xs = [] \<and> e = (case a of None \<Rightarrow> d\<lparr>stage := Idle\<rparr> | Some a \<Rightarrow> d\<lparr>stage := Idle, address := a\<rparr>)
     | _ \<Rightarrow> False)"

lemma sends_naks: "sends d t xs e \<Longrightarrow> sends (d\<lparr>naks := ns\<rparr>) t xs (e\<lparr>naks := ns\<rparr>)"
  by (auto simp: sends_def split: stage.splits option.splits)

lemma sends_in:
  assumes "sends (device l) t xs d" "address (device l) = a"
  shows "command device_reaction (long_token USB10_PID_IN a 0) l = (if due (device l) = 0 then l\<lparr>reply := Some (data_packet t xs)\<rparr>
    else l\<lparr>device := (device l)\<lparr>naks := (due (device l) - 1) # tl (naks (device l))\<rparr>, reply := Some nak_packet\<rparr>)"
proof -
  obtain ys where "stage (device l) = Data_in ys t \<or> (\<exists>a. stage (device l) = In_status a) \<and> t \<and> ys = []" "xs = take 8 ys"
    using assms(1) by (auto simp: sends_def split: stage.splits)
  then show ?thesis using at_in [of l ys t] assms(2) by simp
qed

lemma attempt_sends:
  assumes "sends (device l) t xs d" "address (device l) = a" "due (device l) = 0"
  shows "\<exists>m. line_attempt device_reaction knows e1 e2 a 0 (data_pid (\<not> t)) l = (Got (data_status (data_pid t) (length xs)), m) \<and>
    device m = d\<lparr>naks := tl (naks (device l))\<rparr> \<and> reply m = Some (data_packet t xs)"
proof -
  have n: "length xs \<le> 8" using assms(1) by (auto simp: sends_def split: stage.splits)
  let ?l = "command device_reaction (long_token USB10_PID_IN a 0) l"
  have l: "reply ?l = Some (data_packet t xs)" "device ?l = device l"
    using sends_in [OF assms(1,2)] assms(3) by simp_all
  let ?m = "command device_reaction ack_token ?l"
  have m: "device ?m = d\<lparr>naks := tl (naks (device l))\<rparr>" "reply ?m = reply ?l"
    using assms(1) at_ack [of ?l] l(2) by (auto simp: sends_def split: stage.splits option.splits)
  have p: "data_packet t xs = (data_status (data_pid t) (length xs), True, ld32 (padded xs) 0, ld32 (padded xs) 4)"
    by (simp add: data_packet_def data_pid_def)
  have "line_attempt device_reaction knows e1 e2 a 0 (data_pid (\<not> t)) l = (Got (data_status (data_pid t) (length xs)), ?m)"
    unfolding line_attempt_def Let_def l(1) p by (simp add: data_fields n data_pid_neq)
  then show ?thesis using m l(1) by auto
qed

lemma attempt_nak:
  assumes "sends (device l) t xs d" "address (device l) = a" "due (device l) = Suc n"
  shows "line_attempt device_reaction knows e1 e2 a 0 recv l = (if knows then Stop (-8) else Again (-10),
    l\<lparr>device := (device l)\<lparr>naks := n # tl (naks (device l))\<rparr>, reply := Some nak_packet\<rparr>)"
  using sends_in [OF assms(1,2)] assms(3) status_fields [of 0 USB10_PID_NAK]
  by (simp add: line_attempt_def Let_def nak_packet_def)

lemma packet_sends:
  "sends (device l) t xs d \<Longrightarrow> address (device l) = a \<Longrightarrow> due (device l) \<le> k \<Longrightarrow>
    \<exists>m. line_packet k (line_attempt device_reaction False e1 e2 a 0 (data_pid (\<not> t))) l = (Inr (data_status (data_pid t) (length xs)), m) \<and>
      device m = d\<lparr>naks := tl (naks (device l))\<rparr> \<and> reply m = Some (data_packet t xs)"
proof (induction k arbitrary: l d)
  case 0
  then show ?case using attempt_sends [OF 0(1,2), of False e1 e2] by auto
next
  case (Suc k)
  show ?case
  proof (cases "due (device l)")
    case 0
    then show ?thesis using attempt_sends [OF Suc.prems(1,2) 0, of False e1 e2] by auto
  next
    case n: (Suc n)
    let ?l = "l\<lparr>device := (device l)\<lparr>naks := n # tl (naks (device l))\<rparr>, reply := Some nak_packet\<rparr>"
    have "sends (device ?l) t xs (d\<lparr>naks := n # tl (naks (device l))\<rparr>)" using sends_naks [OF Suc.prems(1)] by simp
    then have "\<exists>m. line_packet k (line_attempt device_reaction False e1 e2 a 0 (data_pid (\<not> t))) ?l = (Inr (data_status (data_pid t) (length xs)), m) \<and>
      device m = d\<lparr>naks := n # tl (naks (device l))\<rparr>\<lparr>naks := tl (naks (device ?l))\<rparr> \<and> reply m = Some (data_packet t xs)"
      by (rule Suc.IH) (use Suc.prems(2,3) n in \<open>simp_all add: due_def\<close>)
    then show ?thesis using attempt_nak [OF Suc.prems(1,2) n, of False e1 e2] by simp
  qed
qed

lemma due_bound: "\<forall>n \<in> set ns. n \<le> 4 \<Longrightarrow> due (d\<lparr>naks := ns\<rparr>) \<le> 4"
  by (cases ns) (simp_all add: due_def)

lemma tl_bound: "\<forall>n \<in> set ns. n \<le> b \<Longrightarrow> \<forall>n \<in> set (tl ns). n \<le> b"
  by (cases ns) simp_all

lemma taken_linked:
  assumes ob: "obeys P view lag device_reaction" and "1000 < n" "linked view lag a (sent, data_pid (\<not> t)) d s" "length xs \<le> 8"
    "line_packet 8 (line_attempt device_reaction knows e1 e2 a 0 (data_pid (\<not> t))) (view (bus s)) = (Inr (data_status (data_pid t) (length xs)), m)"
    "device m = e\<lparr>naks := ns\<rparr>" "\<forall>n \<in> set ns. n \<le> 4"
  obtains u where "recv_packet 8 (recv_attempt P n knows e1 e2 a 0) s = Some (Inr (data_status (data_pid t) (length xs)), u)"
    "linked view lag a (sent, data_pid t) e u" "view (bus u) = m"
proof -
  have s: "unat a < 4" "pids_ok s" "pids a 0 s = Some (sent, data_pid (\<not> t))" using assms(3) by (simp_all add: linked_def)
  from recv_packet_line [OF ob assms(2) s(3) assms(5)] obtain u where u: "recv_packet 8 (recv_attempt P n knows e1 e2 a 0) s =
      Some (Inr (data_status (data_pid t) (length xs)), u)" "view (bus u) = m" "lag (bus u) \<le> 1000"
    "same_but_bus (set_pids a 0 (sent, data_pid t) s) u" by (auto simp: data_fields assms(4))
  have "linked view lag a (sent, data_pid t) e u"
    using pids_after [OF u(4) s(2,1)] s(1) u(2,3) assms(6,7) by (auto simp: linked_def)
  then show ?thesis using that u(1,2) by simp
qed

lemma packet_linked:
  assumes ob: "obeys P view lag device_reaction" and "1000 < n" "linked view lag a (sent, data_pid (\<not> t)) d s" "sends d t xs e" "address d = a"
  obtains u where "recv_packet 8 (recv_attempt P n False e1 e2 a 0) s = Some (Inr (data_status (data_pid t) (length xs)), u)"
    "linked view lag a (sent, data_pid t) e u" "reply (view (bus u)) = Some (data_packet t xs)"
proof -
  have n: "length xs \<le> 8" using assms(4) by (auto simp: sends_def split: stage.splits)
  obtain ns where s: "device (view (bus s)) = d\<lparr>naks := ns\<rparr>" "\<forall>n \<in> set ns. n \<le> 4" using assms(3) by (auto simp: linked_def)
  have "sends (device (view (bus s))) t xs (e\<lparr>naks := ns\<rparr>)" "address (device (view (bus s))) = a" "due (device (view (bus s))) \<le> 8"
    using sends_naks [OF assms(4)] due_bound [OF s(2), of d] s(1) assms(5) by simp_all
  from packet_sends [OF this, of e1 e2] obtain m where m: "line_packet 8 (line_attempt device_reaction False e1 e2 a 0 (data_pid (\<not> t))) (view (bus s)) =
      (Inr (data_status (data_pid t) (length xs)), m)" "device m = e\<lparr>naks := tl ns\<rparr>" "reply m = Some (data_packet t xs)"
    using s(1) by auto
  show ?thesis by (rule taken_linked [OF ob assms(2,3) n m(1,2) tl_bound [OF s(2)]]) (use that m(3) in simp)
qed

text \<open>With \<open>usb10_in_request\<close> a NAK ends the request.\<close>

lemma answer_linked:
  assumes ob: "obeys P view lag device_reaction" and "1000 < n" "linked view lag a (sent, data_pid (\<not> t)) d s" "sends d t xs e" "address d = a"
  obtains (nak) u k where "recv_packet 8 (recv_attempt P n True e1 e2 a 0) s = Some (Inl (-8), u)" "due (device (view (bus s))) = Suc k"
      "linked view lag a (sent, data_pid (\<not> t)) d u" "due (device (view (bus u))) = k"
    | (packet) u where "recv_packet 8 (recv_attempt P n True e1 e2 a 0) s = Some (Inr (data_status (data_pid t) (length xs)), u)"
      "linked view lag a (sent, data_pid t) e u"
proof -
  have n: "length xs \<le> 8" using assms(4) by (auto simp: sends_def split: stage.splits)
  obtain ns where s: "device (view (bus s)) = d\<lparr>naks := ns\<rparr>" "\<forall>n \<in> set ns. n \<le> 4" "unat a < 4" "pids_ok s" "pids a 0 s = Some (sent, data_pid (\<not> t))"
    using assms(3) by (auto simp: linked_def)
  have sd: "sends (device (view (bus s))) t xs (e\<lparr>naks := ns\<rparr>)" "address (device (view (bus s))) = a"
    using sends_naks [OF assms(4)] s(1) assms(5) by simp_all
  have p8: "line_packet 8 f l = (case f l of (Again e, m) \<Rightarrow> line_packet 7 f m | (Stop e, m) \<Rightarrow> (Inl e, m) | (Got rx, m) \<Rightarrow> (Inr rx, m))"
    for f :: "usb_device line \<Rightarrow> attempt \<times> usb_device line" and l
    by (simp add: eval_nat_numeral split: prod.split attempt.split)
  show ?thesis
  proof (cases "due (device (view (bus s)))")
    case 0
    from attempt_sends [OF sd 0, of True e1 e2] obtain m where m: "line_packet 8 (line_attempt device_reaction True e1 e2 a 0 (data_pid (\<not> t))) (view (bus s)) =
        (Inr (data_status (data_pid t) (length xs)), m)" "device m = e\<lparr>naks := tl ns\<rparr>" "reply m = Some (data_packet t xs)"
      using s(1) by (auto simp: p8)
    show ?thesis by (rule taken_linked [OF ob assms(2,3) n m(1,2) tl_bound [OF s(2)]]) (rule packet)
  next
    case (Suc k)
    let ?m = "(view (bus s))\<lparr>device := (device (view (bus s)))\<lparr>naks := k # tl (naks (device (view (bus s))))\<rparr>, reply := Some nak_packet\<rparr>"
    have "line_packet 8 (line_attempt device_reaction True e1 e2 a 0 (data_pid (\<not> t))) (view (bus s)) = (Inl (-8), ?m)"
      using attempt_nak [OF sd Suc, of True e1 e2] by (simp add: p8)
    from recv_packet_line [OF ob assms(2) s(5) this] obtain u where u: "recv_packet 8 (recv_attempt P n True e1 e2 a 0) s = Some (Inl (-8), u)"
      "view (bus u) = ?m" "lag (bus u) \<le> 1000" "same_but_bus s u" by auto
    have "linked view lag a (sent, data_pid (\<not> t)) d u"
      using pids_same(1) [OF u(4)] pids_ok_same [OF u(4)] s u(2,3) tl_bound [OF s(2)] due_bound [OF s(2), of d] Suc
      by (auto simp: linked_def intro!: exI [of _ "k # tl ns"])
    moreover have "due (device (view (bus u))) = k" using u(2) by (simp add: due_def)
    ultimately show ?thesis using nak [OF u(1) Suc] by blast
  qed
qed

section \<open>The data of a response\<close>

lemma ld32_bytes: "(ucast (ld32 p i) :: u8) = p ! i" "(ucast (drop_bit 8 (ld32 p i)) :: u8) = p ! (i + 1)"
    "(ucast (drop_bit 16 (ld32 p i)) :: u8) = p ! (i + 2)" "(ucast (drop_bit 24 (ld32 p i)) :: u8) = p ! (i + 3)"
  by (rule bit_word_eqI; auto simp: ld32_def bit_simps dest: bit_imp_le_length)+

lemma st32_packet:
  assumes "length p = 8" "j + 8 \<le> length b"
  shows "st32 (st32 b j (ld32 p 0)) (j + 4) (ld32 p 4) = take j b @ p @ drop (j + 8) b"
proof (rule nth_equalityI)
  fix m assume "m < length (st32 (st32 b j (ld32 p 0)) (j + 4) (ld32 p 4))"
  then have m: "m < length b" by simp
  consider "m < j" | "j + 8 \<le> m" | "m \<in> {j, j + 1, j + 2, j + 3, j + 4, j + 5, j + 6, j + 7}" by force
  then show "st32 (st32 b j (ld32 p 0)) (j + 4) (ld32 p 4) ! m = (take j b @ p @ drop (j + 8) b) ! m"
  proof cases
    case 3
    then show ?thesis using assms m
      by (elim insertE emptyE; simp add: st32_def nth_list_update nth_append ld32_bytes numeral_2_eq_2)
  qed (use assms m in \<open>auto simp: nth_append\<close>)
qed (use assms in simp)

lemma packet_count: "n \<le> 8 \<Longrightarrow> (word_of_nat (24 + 8 * n) - 8 - 16) div 8 = (word_of_nat n :: u32)"
proof -
  assume "n \<le> 8"
  then have "n \<in> {0, 1, 2, 3, 4, 5, 6, 7, 8}" by auto
  then show ?thesis by (elim insertE emptyE; simp)
qed

lemma sint_count: "m \<le> 255 \<Longrightarrow> sint (word_of_nat m :: u32) = int m"
  by (simp add: signed_of_nat signed_take_bit_int_eq_self)

lemma length_padded: "length xs \<le> 8 \<Longrightarrow> length (padded xs) = 8"
  by (simp add: padded_def)

text \<open>One packet: its bytes in the response, and the number of bits that the loop compares.\<close>

lemma recv_loop_packet:
  assumes ob: "obeys P view lag device_reaction" and "1000 < n" "linked view lag a (sent, data_pid (\<not> t)) (d\<lparr>stage := Data_in ys t\<rparr>) s"
    "address d = a" "i * 8 + 8 \<le> length b" "asked \<noteq> 0"
  obtains u where "recv_loop (Suc k) P (recv_attempt P n False e1 e2 a 0) i asked bytes (Some b) s =
      (let c = take (i * 8) b @ padded (take 8 ys) @ drop (i * 8 + 8) b; m = min 8 (length ys) in
       if packet_bytes i asked \<noteq> m then Some (sint (bytes + word_of_nat m), Some c, u)
       else recv_loop k P (recv_attempt P n False e1 e2 a 0) (i + 1) asked (bytes + word_of_nat m) (Some c) u)"
    "linked view lag a (sent, data_pid t) (d\<lparr>stage := Data_in (drop 8 ys) (\<not> t)\<rparr>) u"
proof -
  let ?d = "d\<lparr>stage := Data_in ys t\<rparr>" and ?m = "min 8 (length ys)" and ?f = "recv_attempt P n False e1 e2 a 0"
  have "sends ?d t (take 8 ys) (d\<lparr>stage := Data_in (drop 8 ys) (\<not> t)\<rparr>)" by (simp add: sends_def)
  then obtain u where u: "recv_packet 8 ?f s = Some (Inr (data_status (data_pid t) (length (take 8 ys))), u)"
    "linked view lag a (sent, data_pid t) (d\<lparr>stage := Data_in (drop 8 ys) (\<not> t)\<rparr>) u" "reply (view (bus u)) = Some (data_packet t (take 8 ys))"
    by (rule packet_linked [OF ob assms(2,3)]) (simp add: assms(4))
  have p: "length (padded (take 8 ys)) = 8" by (simp add: length_padded)
  obtain v where v: "collect P i asked (Some b) u = Some (Some (st32 (st32 b (i * 8) (ld32 (padded (take 8 ys)) 0)) (i * 8 + 4) (ld32 (padded (take 8 ys)) 4)), v)"
    "view (bus v) = view (bus u)" "lag (bus v) \<le> lag (bus u)" "same_but_bus u v"
    by (rule collect_line [OF ob, of u "fst (data_packet t (take 8 ys))" True]) (use u(3) assms(5,6) in \<open>auto simp: data_packet_def\<close>)
  have len: "USB10_RX_STATUS_LEN (data_status (data_pid t) (length (take 8 ys))) = word_of_nat (24 + 8 * ?m)"
    using data_fields(2) [of "length (take 8 ys)" t] by (simp add: min.commute)
  have pb: "packet_bytes i asked \<le> 8" by (simp add: packet_bytes_def)
  have "(word_of_nat (24 + 8 * ?m) = (word_of_nat (packet_bytes i asked * 8 + 8 + 16) :: u32)) = (packet_bytes i asked = ?m)"
  proof
    assume "word_of_nat (24 + 8 * ?m) = (word_of_nat (packet_bytes i asked * 8 + 8 + 16) :: u32)"
    from arg_cong [OF this, of unat] show "packet_bytes i asked = ?m" using pb by (simp only: unat_of_nat) (auto simp: min_def)
  qed simp
  then have c: "(word_of_nat (24 + 8 * ?m) \<noteq> (word_of_nat (packet_bytes i asked * 8 + 8 + 16) :: u32)) = (packet_bytes i asked \<noteq> ?m)" by simp
  have cnt: "(word_of_nat (24 + 8 * ?m) - 8 - 16) div 8 = (word_of_nat ?m :: u32)" by (rule packet_count) simp
  have "recv_loop (Suc k) P ?f i asked bytes (Some b) s =
      (let c = take (i * 8) b @ padded (take 8 ys) @ drop (i * 8 + 8) b; m = ?m in
       if packet_bytes i asked \<noteq> m then Some (sint (bytes + word_of_nat m), Some c, v)
       else recv_loop k P ?f (i + 1) asked (bytes + word_of_nat m) (Some c) v)"
    unfolding recv_loop.simps(2) u(1) bind.bind_lunit prod.case sum.case v(1) st32_packet [OF p assms(5)] Let_def len c cnt ..
  then show ?thesis using that linked_same [OF u(2) v(4,2,3)] by blast
qed

text \<open>The loop takes everything the device sends, whether it ends with a short packet or with the last one asked for.\<close>

lemma recv_loop_data:
  assumes ob: "obeys P view lag device_reaction" and "1000 < n" "address d = a" "asked \<le> 255" "asked \<noteq> 0"
  shows "linked view lag a (sent, data_pid (\<not> t)) (d\<lparr>stage := Data_in ys t\<rparr>) s \<Longrightarrow> i * 8 + length ys \<le> asked \<Longrightarrow>
      i + k = num_of_data_packets asked \<Longrightarrow> i * 8 + 8 * (length ys div 8 + 1) \<le> length b \<Longrightarrow>
    \<exists>c u zs t'. recv_loop k P (recv_attempt P n False e1 e2 a 0) i asked (word_of_nat (i * 8)) (Some b) s = Some (int (i * 8 + length ys), Some c, u) \<and>
      linked view lag a (sent, data_pid (\<not> t')) (d\<lparr>stage := Data_in zs t'\<rparr>) u \<and> length c = length b \<and>
      take (i * 8 + length ys) c = take (i * 8) b @ ys"
proof (induction k arbitrary: i ys t b s)
  case 0
  have "asked \<le> i * 8" using 0(3) by (auto simp: num_of_data_packets_def split: if_splits)
  then have "length ys = 0" "i * 8 \<le> 255" using 0(2) assms(4) by linarith+
  then have ys: "ys = []" "i * 8 \<le> 255" by simp_all
  have "sint (word_of_nat (i * 8) :: u32) = int (i * 8)" by (rule sint_count [OF ys(2)])
  then show ?case using 0(1) ys(1) by auto
next
  case (Suc k)
  let ?f = "recv_attempt P n False e1 e2 a 0"
  have l: "i * 8 + 8 \<le> length b" using Suc.prems(4) by simp
  define c where "c = take (i * 8) b @ padded (take 8 ys) @ drop (i * 8 + 8) b"
  have lc: "length c = length b" using l length_padded [of "take 8 ys"] by (simp add: c_def)
  obtain u where u: "recv_loop (Suc k) P ?f i asked (word_of_nat (i * 8)) (Some b) s =
      (if packet_bytes i asked \<noteq> min 8 (length ys) then Some (sint (word_of_nat (i * 8) + word_of_nat (min 8 (length ys)) :: u32), Some c, u)
       else recv_loop k P ?f (i + 1) asked (word_of_nat (i * 8) + word_of_nat (min 8 (length ys))) (Some c) u)"
    "linked view lag a (sent, data_pid t) (d\<lparr>stage := Data_in (drop 8 ys) (\<not> t)\<rparr>) u"
    unfolding c_def
    by (rule recv_loop_packet [OF ob assms(2) Suc.prems(1) assms(3) l assms(5), where ?e1.0 = e1 and ?e2.0 = e2 and k = k
          and bytes = "word_of_nat (i * 8)"]) (simp add: Let_def)
  have sum: "word_of_nat (i * 8) + word_of_nat m = (word_of_nat (i * 8 + m) :: u32)" for m by simp
  have next_i: "(i + 1) * 8 \<le> asked \<or> k = 0 \<and> asked - i * 8 = asked mod 8"
  proof (cases "(i + 1) * 8 \<le> asked")
    case False
    then have "asked div 8 \<le> i" by auto
    then have "i = asked div 8" "k = 0" using Suc.prems(3) by (auto simp: num_of_data_packets_def split: if_splits)
    then show ?thesis by (simp add: modulo_nat_def mult.commute)
  qed simp
  show ?case
  proof (cases "8 \<le> length ys")
    case True
    then have m: "min 8 (length ys) = 8" "(i + 1) * 8 \<le> asked" using Suc.prems(2) by auto
    then have run: "recv_loop (Suc k) P ?f i asked (word_of_nat (i * 8)) (Some b) s = recv_loop k P ?f (i + 1) asked (word_of_nat ((i + 1) * 8)) (Some c) u"
      unfolding u(1) sum by (simp add: packet_bytes_def add.commute)
    have "\<exists>e v zs t'. recv_loop k P ?f (i + 1) asked (word_of_nat ((i + 1) * 8)) (Some c) u =
        Some (int ((i + 1) * 8 + length (drop 8 ys)), Some e, v) \<and>
      linked view lag a (sent, data_pid (\<not> t')) (d\<lparr>stage := Data_in zs t'\<rparr>) v \<and> length e = length c \<and>
      take ((i + 1) * 8 + length (drop 8 ys)) e = take ((i + 1) * 8) c @ drop 8 ys"
    proof (rule Suc.IH)
      show "linked view lag a (sent, data_pid (\<not> \<not> t)) (d\<lparr>stage := Data_in (drop 8 ys) (\<not> t)\<rparr>) u" using u(2) by simp
      show "(i + 1) * 8 + 8 * (length (drop 8 ys) div 8 + 1) \<le> length c" using Suc.prems(4) le_div_geq [OF _ True] lc by simp
    qed (use Suc.prems(2,3) True in simp_all)
    then obtain e v zs t' where v: "recv_loop k P ?f (i + 1) asked (word_of_nat ((i + 1) * 8)) (Some c) u =
        Some (int ((i + 1) * 8 + length (drop 8 ys)), Some e, v)"
      "linked view lag a (sent, data_pid (\<not> t')) (d\<lparr>stage := Data_in zs t'\<rparr>) v" "length e = length c"
      "take ((i + 1) * 8 + length (drop 8 ys)) e = take ((i + 1) * 8) c @ drop 8 ys" by blast
    have "(i + 1) * 8 + length (drop 8 ys) = i * 8 + length ys" using True by simp
    moreover have "take ((i + 1) * 8) c @ drop 8 ys = take (i * 8) b @ ys"
      using l True length_padded [of "take 8 ys"] by (simp add: c_def padded_def min_def)
    ultimately show ?thesis using v lc unfolding run by auto
  next
    case False
    then have m: "min 8 (length ys) = length ys" by simp
    have "packet_bytes i asked = length ys \<Longrightarrow> k = 0"
      using next_i False by (auto simp: packet_bytes_def split: if_splits)
    then have run: "recv_loop (Suc k) P ?f i asked (word_of_nat (i * 8)) (Some b) s =
        Some (sint (word_of_nat (i * 8 + length ys) :: u32), Some c, u)"
      unfolding u(1) sum m by (cases "packet_bytes i asked = length ys") auto
    have "sint (word_of_nat (i * 8 + length ys) :: u32) = int (i * 8 + length ys)"
      by (rule sint_count) (use Suc.prems(2) assms(4) in linarith)
    moreover have "take (i * 8 + length ys) c = take (i * 8) b @ ys"
      using l False by (simp add: c_def padded_def)
    ultimately show ?thesis using run u(2) lc by (intro exI [of _ c] exI [of _ u] exI [of _ "drop 8 ys"] exI [of _ "\<not> t"]) simp
  qed
qed

section \<open>Requests to the device\<close>

lemma setup_request_linked:
  assumes ob: "obeys P view lag device_reaction" and "linked view lag a p d s" "address d = a" "length req = 8"
  obtains u where "\<And>r n. usb10_setup_request P a 0 req r n s = do {
      (ret, r, s) \<leftarrow> recv_loop (num_of_data_packets n) P (recv_attempt P 2500 False (-8) (-9) a 0) 0 n 0 r u; Some (ret, r, s\<lparr>MIE := True\<rparr>) }"
    "linked view lag a (USB10_PID_DATA0, data_pid False) (request (ld32 req 0) (ld32 req 4) (d\<lparr>stage := Setup\<rparr>)) u"
proof -
  have a: "\<not> 4 \<le> unat a" "lag (bus s) \<le> 1000" using assms(2) by (simp_all add: linked_def)
  obtain m t where t: "usb10_wait_while_busy P 10000 s = (m, t)" "0 < m" "view (bus t) = view (bus s)" "lag (bus t) \<le> lag (bus s)" "same_but_bus s t"
    by (rule wait_while_busy_line [OF ob, of s 10000]) (use a(2) in auto)
  let ?t = "set_pids a 0 (USB10_PID_DATA1, USB10_PID_DATA0) (t\<lparr>MIE := False\<rparr>)"
  have lt: "linked view lag a p d t" by (rule linked_same [OF assms(2) t(5,3,4)])
  have l: "linked view lag a (USB10_PID_DATA1, USB10_PID_DATA0) d ?t" by (rule linked_set [of _ _ _ p]) (simp add: lt)
  obtain u where u: "setup_stage (Suc 2) P a 0 req ?t = Some (0, u)"
    "linked view lag a (USB10_PID_DATA0, USB10_PID_DATA0) (request (ld32 req 0) (ld32 req 4) (d\<lparr>stage := Setup\<rparr>)) u"
    by (rule setup_linked [OF ob l assms(3,4)])
  have "pids a 0 t = Some p" "(m = 0) = False" using lt t(2) by (simp_all add: linked_def)
  then have "usb10_setup_request P a 0 req r n s = do {
      (ret, r, s) \<leftarrow> recv_loop (num_of_data_packets n) P (recv_attempt P 2500 False (-8) (-9) a 0) 0 n 0 r u; Some (ret, r, s\<lparr>MIE := True\<rparr>) }" for r n
    using u(1) by (simp add: usb10_setup_request_def a(1) t(1) numeral_3_eq_3 numeral_2_eq_2 del: setup_stage.simps)
  then show ?thesis by (rule that) (use u(2) in \<open>simp add: data_pid_def\<close>)
qed

text \<open>The stage that ends a transfer from the device.\<close>

lemma out_request_linked:
  assumes ob: "obeys P view lag device_reaction" and "linked view lag a (USB10_PID_DATA0, recv) d s" "address d = a"
  obtains u where "usb10_out_request P a 0 None 0 s = Some (0, u)" "linked view lag a (USB10_PID_DATA1, recv) (d\<lparr>stage := Idle\<rparr>) u"
proof -
  have a: "\<not> 4 \<le> unat a" "lag (bus s) \<le> 1000" using assms(2) by (simp_all add: linked_def)
  obtain m t where t: "usb10_wait_while_busy P 10000 s = (m, t)" "0 < m" "view (bus t) = view (bus s)" "lag (bus t) \<le> lag (bus s)" "same_but_bus s t"
    by (rule wait_while_busy_line [OF ob, of s 10000]) (use a(2) in auto)
  let ?t = "t\<lparr>MIE := False\<rparr>"
  have lt: "linked view lag a (USB10_PID_DATA0, recv) d ?t" using linked_same [OF assms(2) t(5,3,4)] by simp
  then obtain ns where dt: "device (view (bus ?t)) = d\<lparr>naks := ns\<rparr>" "pids a 0 ?t = Some (USB10_PID_DATA0, recv)" "\<forall>n \<in> set ns. n \<le> 4"
    by (auto simp: linked_def)
  let ?s2 = "usb10_write_reg P COMMAND (long_token USB10_PID_OUT a 0) ?t"
  have v2: "device (view (bus ?s2)) = d\<lparr>naks := ns, stage := Out_status\<rparr>" "lag (bus ?s2) \<le> 1000" "same_but_bus ?t ?s2"
    using write_command [OF ob] at_out [of "view (bus ?t)"] dt assms(3) by simp_all
  obtain m1 s3 where s3: "usb10_wait_cmd_complete P 20000 ?s2 = (m1, s3)" "0 < m1" "view (bus s3) = view (bus ?s2)"
    "lag (bus s3) \<le> lag (bus ?s2)" "same_but_bus ?s2 s3" by (rule wait_cmd_complete_line [OF ob, of ?s2 20000]) (use v2(2) in auto)
  let ?c = "USB10_CMD_START_BIT OR USB10_CMD_SET_LEN (-1) OR USB10_CMD_SET_PID USB10_PID_DATA1 OR USB10_CMD_SEND_DATA"
  let ?s4 = "usb10_write_reg P COMMAND ?c s3"
  have v4: "device (view (bus ?s4)) = d\<lparr>naks := ns, stage := Idle\<rparr>" "reply (view (bus ?s4)) = Some ack_packet" "lag (bus ?s4) \<le> 1000" "same_but_bus ?t ?s4"
    using write_command [OF ob] at_data(2) [of "view (bus s3)"] s3(3) v2(1) same_but_bus_trans [OF v2(3) s3(5)] by simp_all
  obtain m2 s5 where s5: "usb10_wait_cmd_complete P 5000 ?s4 = (m2, s5)" "0 < m2" "view (bus s5) = view (bus ?s4)"
    "lag (bus s5) \<le> lag (bus ?s4)" "same_but_bus ?s4 s5" by (rule wait_cmd_complete_line [OF ob, of ?s4 5000]) (use v4(3) in auto)
  obtain r s6 where s6: "wait_until P received 2500 s5 = (r, s6)" by (cases "wait_until P received 2500 s5")
  note k6 = wait_keeps [OF ob s6]
  have v6: "view (bus s6) = view (bus ?s4)" "lag (bus s6) \<le> 1000" using k6(1,2) s5(3,4) v4(3) by simp_all
  have n6: "(r = None) = False" using wait_received(1) [OF ob s6] s5(3,4) v4(2,3) by simp
  have sb6: "same_but_bus ?t s6" by (rule same_but_bus_trans [OF same_but_bus_trans [OF v4(4) s5(5)] k6(3)])
  obtain v s7 where s7: "usb10_read_reg P RX_STATUS s6 = (v, s7)" by (cases "usb10_read_reg P RX_STATUS s6")
  have v7: "view (bus s7) = view (bus ?s4)" "lag (bus s7) \<le> 1000" "v = data_status USB10_PID_ACK 0"
    using read_other [OF ob s7] v6 v4(2) by (auto simp: ack_packet_def)
  have sb7: "same_but_bus ?t s7" by (rule same_but_bus_trans [OF sb6 read_other(3) [OF ob s7]]) simp
  have pid: "USB10_RX_STATUS_PID v = USB10_PID_ACK" using status_fields [of 0 USB10_PID_ACK] v7(3) by simp
  have p7: "pids a 0 s7 = Some (USB10_PID_DATA0, recv)" using pids_same(1) [OF sb7] dt(2) by simp
  have l7: "linked view lag a (USB10_PID_DATA0, recv) (d\<lparr>stage := Idle\<rparr>) s7"
    using lt pids_ok_same [OF sb7] p7 v7(1,2) v4(1) dt(3) by (auto simp: linked_def naks_last)
  let ?u = "set_pids a 0 (USB10_PID_DATA1, recv) s7"
  have f: "(m1 = 0) = False" "(m2 = 0) = False" using s3(2) s5(2) by simp_all
  have "out_attempt P a 0 None 0 (-1) USB10_PID_DATA1 ?t = Some (Got v, ?u)"
    unfolding out_attempt_def option.case bind.bind_lunit Let_def s3(1) prod.case f if_False s5(1) s6 n6 s7 pid p7 by simp
  then have "recv_packet 8 (out_attempt P a 0 None 0 (-1) USB10_PID_DATA1) ?t = Some (Inr v, ?u)" by (simp add: eval_nat_numeral)
  then have "usb10_out_request P a 0 None 0 s = Some (0, ?u\<lparr>MIE := True\<rparr>)"
    using a(1) t(1,2) dt(2) by (simp add: usb10_out_request_def packet_bytes_def)
  then show ?thesis using that linked_set [OF l7] by simp
qed

text \<open>The stage that ends a transfer to the device.\<close>

lemma in_request_linked:
  assumes ob: "obeys P view lag device_reaction" and "linked view lag a (sent, data_pid False) d s" "sends d True [] e" "address d = a"
  obtains (nak) u k where "usb10_in_request P a 0 None 0 s = Some (-8, None, u)" "due (device (view (bus s))) = Suc k"
      "linked view lag a (sent, data_pid False) d u" "due (device (view (bus u))) = k"
    | (ok) u where "usb10_in_request P a 0 None 0 s = Some (0, None, u)" "linked view lag a (sent, data_pid True) e u"
proof -
  have a: "\<not> 4 \<le> unat a" "lag (bus s) \<le> 1000" using assms(2) by (simp_all add: linked_def)
  obtain m t where t: "usb10_wait_while_busy P 10000 s = (m, t)" "0 < m" "view (bus t) = view (bus s)" "lag (bus t) \<le> lag (bus s)" "same_but_bus s t"
    by (rule wait_while_busy_line [OF ob, of s 10000]) (use a(2) in auto)
  have l: "linked view lag a (sent, data_pid (\<not> True)) d (t\<lparr>MIE := False\<rparr>)" using linked_same [OF assms(2) t(5,3,4)] by simp
  have len: "USB10_RX_STATUS_LEN (data_status (data_pid True) (length ([] :: u8 list))) = 24" using data_fields(2) [of 0 True] by simp
  show ?thesis
  proof (rule answer_linked [OF ob _ l assms(3,4), of 25000 "-9" "-10"])
    fix u k assume u: "recv_packet 8 (recv_attempt P 25000 True (- 9) (- 10) a 0) (t\<lparr>MIE := False\<rparr>) = Some (Inl (- 8), u)"
      "due (device (view (bus (t\<lparr>MIE := False\<rparr>)))) = Suc k" "linked view lag a (sent, data_pid (\<not> True)) d u" "due (device (view (bus u))) = k"
    have "usb10_in_request P a 0 None 0 s = Some (-8, None, u\<lparr>MIE := True\<rparr>)"
      using a(1) t(1,2) u(1) by (simp add: usb10_in_request_def)
    then show ?thesis using nak u(2-4) t(3) by simp
  next
    fix u assume u: "recv_packet 8 (recv_attempt P 25000 True (- 9) (- 10) a 0) (t\<lparr>MIE := False\<rparr>) = Some (Inr (data_status (data_pid True) (length ([] :: u8 list))), u)"
      "linked view lag a (sent, data_pid True) e u"
    have "usb10_in_request P a 0 None 0 s = Some (0, None, u\<lparr>MIE := True\<rparr>)"
      using a(1) t(1,2) u(1) len by (simp add: usb10_in_request_def collect_def packet_bytes_def Let_def)
    then show ?thesis using ok u(2) by simp
  qed simp
qed

text \<open>The status stage asks again after a NAK, five times in all.\<close>

lemma status_stage_linked:
  assumes ob: "obeys P view lag device_reaction" and "sends d True [] e" "address d = a"
  shows "linked view lag a (sent, data_pid False) d s \<Longrightarrow> due (device (view (bus s))) < n \<Longrightarrow>
    \<exists>u. status_stage n P a 0 ret s = Some (0, u) \<and> linked view lag a (sent, data_pid True) e u"
proof (induction n arbitrary: ret s)
  case (Suc n)
  show ?case
    by (rule in_request_linked [OF ob Suc.prems(1) assms(2,3)]) (use Suc.prems(2) Suc.IH in simp_all)
qed simp

text \<open>What the bytes of a request ask for.\<close>

lemma request_bytes:
  "request (ld32 (setup_bytes ty rq wv ix len) 0) (ld32 (setup_bytes ty rq wv ix len) 4) d =
    (if ty = 0x80 \<and> rq = 0x06 \<and> (ucast (drop_bit 8 wv) :: u8) \<in> {1, 2} then d\<lparr>stage := Data_in (take (unat len) (if (ucast (drop_bit 8 wv) :: u8) = 1 then device_bytes d
       else config_bytes d)) True\<rparr>
     else if ty = 0 \<and> rq = 0x05 then d\<lparr>stage := In_status (Some (ucast wv))\<rparr>
     else if ty = 0 \<and> rq = 0x09 then d\<lparr>stage := In_status None, configured := ((ucast wv :: u8) \<noteq> 0)\<rparr> else d\<lparr>stage := Stalled\<rparr>)"
proof -
  have len: "(ucast (drop_bit 16 (ld32 (setup_bytes ty rq wv ix len) 4)) :: u16) = len"
  proof -
    have "ld32 (setup_bytes ty rq wv ix len) 4 = ucast (ucast ix :: u8) OR push_bit 8 (ucast (ucast (drop_bit 8 ix) :: u8)) OR
        push_bit 16 (ucast (ucast len :: u8)) OR push_bit 24 (ucast (ucast (drop_bit 8 len) :: u8))"
      by (simp add: ld32_def setup_bytes_def half_bytes_def)
    then show ?thesis by (simp only:) (rule bit_word_eqI, auto simp: bit_simps)
  qed
  have b: "setup_bytes ty rq wv ix len ! 0 = ty" "setup_bytes ty rq wv ix len ! (0 + 1) = rq" "setup_bytes ty rq wv ix len ! (0 + 2) = ucast wv"
    "setup_bytes ty rq wv ix len ! (0 + 3) = ucast (drop_bit 8 wv)" by (simp_all add: setup_bytes_def half_bytes_def eval_nat_numeral)
  show ?thesis unfolding request_def Let_def ld32_bytes len b ..
qed

lemma length_setup_bytes [simp]: "length (setup_bytes ty rq wv ix len) = 8"
  by (simp add: setup_bytes_def half_bytes_def)

text \<open>The descriptor arrives, with up to 255 bytes.\<close>

lemma get_descriptor_linked:
  assumes ob: "obeys P view lag device_reaction" and "linked view lag a p d s" "address d = a"
    "xs = (if ty = 1 then device_bytes d else config_bytes d)" "ty \<in> {1, 2}"
    "length xs \<le> unat len" "unat len \<le> 255" "len \<noteq> 0" "8 * (length xs div 8 + 1) \<le> length b"
  obtains c u recv where "usb10_get_device_descriptor P a 0 ty item len b s = Some (int (length xs), c, u)"
    "linked view lag a (USB10_PID_DATA1, recv) (d\<lparr>stage := Idle\<rparr>) u" "length c = length b" "take (length xs) c = xs"
proof -
  let ?wv = "push_bit 8 (ucast ty) OR ucast item :: u16"
  let ?req = "setup_bytes 0x80 0x06 ?wv 0 len"
  have hi: "(ucast (drop_bit 8 ?wv) :: u8) = ty"
    by (rule bit_word_eqI) (auto simp: bit_simps dest: bit_imp_le_length)
  obtain t where t: "\<And>r n. usb10_setup_request P a 0 ?req r n s = do {
      (ret, r, s) \<leftarrow> recv_loop (num_of_data_packets n) P (recv_attempt P 2500 False (-8) (-9) a 0) 0 n 0 r t; Some (ret, r, s\<lparr>MIE := True\<rparr>) }"
    "linked view lag a (USB10_PID_DATA0, data_pid False) (request (ld32 ?req 0) (ld32 ?req 4) (d\<lparr>stage := Setup\<rparr>)) t"
    by (rule setup_request_linked [OF ob assms(2,3), of ?req]) auto
  have "request (ld32 ?req 0) (ld32 ?req 4) (d\<lparr>stage := Setup\<rparr>) = d\<lparr>stage := Data_in xs True\<rparr>"
    unfolding request_bytes hi using assms(4-6) by auto
  then have l: "linked view lag a (USB10_PID_DATA0, data_pid (\<not> True)) (d\<lparr>stage := Data_in xs True\<rparr>) t" using t(2) by simp
  have n0: "unat len \<noteq> 0" using assms(8) by (simp add: unat_eq_0)
  obtain c v zs t' where v: "recv_loop (num_of_data_packets (unat len)) P (recv_attempt P 2500 False (-8) (-9) a 0) 0 (unat len) 0 (Some b) t =
      Some (int (length xs), Some c, v)" "linked view lag a (USB10_PID_DATA0, data_pid (\<not> t')) (d\<lparr>stage := Data_in zs t'\<rparr>) v"
    "length c = length b" "take (length xs) c = xs"
    using recv_loop_data [OF ob _ assms(3,7) n0 l, of 2500 0 "num_of_data_packets (unat len)" b "-8" "-9"] assms(6,9) by auto
  have v': "linked view lag a (USB10_PID_DATA0, data_pid (\<not> t')) (d\<lparr>stage := Data_in zs t'\<rparr>) (v\<lparr>MIE := True\<rparr>)" using v(2) by simp
  obtain u where u: "usb10_out_request P a 0 None 0 (v\<lparr>MIE := True\<rparr>) = Some (0, u)"
    "linked view lag a (USB10_PID_DATA1, data_pid (\<not> t')) (d\<lparr>stage := Data_in zs t', stage := Idle\<rparr>) u"
    by (rule out_request_linked [OF ob v']) (use assms(3) in simp_all)
  have "usb10_get_device_descriptor P a 0 ty item len b s = Some (int (length xs), c, u)"
    unfolding usb10_get_device_descriptor_def t(1) v(1) by (simp add: u(1))
  then show ?thesis using that u(2) v(3,4) by simp
qed

text \<open>A value is set without a response.\<close>

lemma set_value_linked:
  assumes ob: "obeys P view lag device_reaction" and "linked view lag a p d s" "address d = a"
    "sends (request (ld32 (setup_bytes ty rq wv (ucast ix) 0) 0) (ld32 (setup_bytes ty rq wv (ucast ix) 0) 4) (d\<lparr>stage := Setup\<rparr>)) True [] e"
    "address (request (ld32 (setup_bytes ty rq wv (ucast ix) 0) 0) (ld32 (setup_bytes ty rq wv (ucast ix) 0) 4) (d\<lparr>stage := Setup\<rparr>)) = a"
  obtains u where "usb10_set_value P a 0 ty rq wv ix 0 s = Some (0, u)" "linked view lag a (USB10_PID_DATA0, data_pid True) e u"
proof -
  let ?req = "setup_bytes ty rq wv (ucast ix) 0"
  obtain t where t: "\<And>r n. usb10_setup_request P a 0 ?req r n s = do {
      (ret, r, s) \<leftarrow> recv_loop (num_of_data_packets n) P (recv_attempt P 2500 False (-8) (-9) a 0) 0 n 0 r t; Some (ret, r, s\<lparr>MIE := True\<rparr>) }"
    "linked view lag a (USB10_PID_DATA0, data_pid False) (request (ld32 ?req 0) (ld32 ?req 4) (d\<lparr>stage := Setup\<rparr>)) t"
    by (rule setup_request_linked [OF ob assms(2,3), of ?req]) auto
  have l: "linked view lag a (USB10_PID_DATA0, data_pid False) (request (ld32 ?req 0) (ld32 ?req 4) (d\<lparr>stage := Setup\<rparr>)) (t\<lparr>MIE := True\<rparr>)"
    using t(2) by simp
  obtain ns where "device (view (bus (t\<lparr>MIE := True\<rparr>))) =
      (request (ld32 ?req 0) (ld32 ?req 4) (d\<lparr>stage := Setup\<rparr>))\<lparr>naks := ns\<rparr>" "\<forall>n \<in> set ns. n \<le> 4"
    using l by (auto simp: linked_def)
  then have "due (device (view (bus (t\<lparr>MIE := True\<rparr>)))) < 5" using due_bound [of ns "request (ld32 ?req 0) (ld32 ?req 4) (d\<lparr>stage := Setup\<rparr>)"] by simp
  then obtain u where u: "status_stage 5 P a 0 0 (t\<lparr>MIE := True\<rparr>) = Some (0, u)" "linked view lag a (USB10_PID_DATA0, data_pid True) e u"
    using status_stage_linked [OF ob assms(4,5) l] by blast
  have "num_of_data_packets 0 = 0" by (simp add: num_of_data_packets_def)
  then have "usb10_set_value P a 0 ty rq wv ix 0 s = Some (0, u)"
    using u(1) unfolding usb10_set_value_def t(1) by simp
  then show ?thesis using that u(2) by blast
qed

section \<open>What else the requests change\<close>

lemma get_descriptor_same:
  assumes "usb10_get_device_descriptor P a 0 ty item len b s = Some (ret, c, t)" "MIE s" "num_of_data_packets (unat len) * 8 \<le> length b"
  shows "same_driver s t"
proof -
  let ?req = "setup_bytes 0x80 0x06 (push_bit 8 (ucast ty) OR ucast item) 0 len"
  obtain r q u where u: "usb10_setup_request P a 0 ?req (Some b) (unat len) s = Some (r, q, u)" "same_driver s u"
    using setup_request_ok [of s 0 ?req "Some b" "unat len" P a] assms(2,3) by auto
  have "MIE u" using u(2) assms(2) by (simp add: same_driver_def)
  then obtain o' v where v: "usb10_out_request P a 0 None 0 u = Some (o', v)" "same_driver u v"
    using out_request_ok [of u None 0 P a 0] by auto
  show ?thesis using assms(1) u v same_driver_trans [OF u(2) v(2)]
    by (auto simp: usb10_get_device_descriptor_def Let_def split: if_splits)
qed

lemma status_stage_same: "MIE s \<Longrightarrow> status_stage n P a e ret s = Some (r, t) \<Longrightarrow> same_driver s t"
proof (induction n arbitrary: ret s)
  case (Suc n)
  obtain x q u where u: "usb10_in_request P a e None 0 s = Some (x, q, u)" "same_driver s u"
    using in_request_ok [OF Suc.prems(1), of e None 0 P a] by auto
  have "MIE u" using u(2) Suc.prems(1) by (simp add: same_driver_def)
  then show ?case using Suc.IH [of u] Suc.prems(2) u same_driver_trans [OF u(2)] by (auto split: if_splits)
qed simp

lemma set_value_same:
  assumes "usb10_set_value P a 0 ty rq wv ix len s = Some (ret, t)" "MIE s"
  shows "same_driver s t"
proof -
  let ?req = "setup_bytes ty rq wv (ucast ix) len"
  obtain r q u where u: "usb10_setup_request P a 0 ?req None 0 s = Some (r, q, u)" "same_driver s u"
    using setup_request_ok [of s 0 ?req None 0 P a] assms(2) by auto
  have "MIE u" using u(2) assms(2) by (simp add: same_driver_def)
  then have "same_driver s t" if "status_stage 5 P a 0 r u = Some (ret, t)"
    using status_stage_same [OF _ that] same_driver_trans [OF u(2)] by blast
  then show ?thesis using assms(1) u by (auto simp: usb10_set_value_def split: if_splits)
qed

lemma bus_reset_linked:
  assumes ob: "obeys P view lag device_reaction" and "device (view (bus s)) = d\<lparr>naks := ns\<rparr>" "\<forall>n \<in> set ns. n \<le> 4"
  obtains t where "usb10_bus_reset P us s = (0, t)" "same_driver s t"
    "linked view lag 0 (USB10_PID_DATA1, USB10_PID_DATA0) (d\<lparr>address := 0, configured := False, stage := Idle\<rparr>) t"
proof -
  obtain st s1 where s1: "usb10_read_reg P STATUS s = (st, s1)" by (cases "usb10_read_reg P STATUS s")
  note r1 = read_status [OF ob s1]
  let ?s2 = "usb10_write_reg P COMMAND (USB10_CMD_START_BIT OR USB10_CMD_BUS_RESET) s1"
  have v2: "device (view (bus ?s2)) = d\<lparr>naks := ns, address := 0, configured := False, stage := Idle\<rparr>" "lag (bus ?s2) \<le> 1000"
    using write_command [OF ob] at_reset [of "view (bus s1)"] r1(1) assms(2) by simp_all
  obtain m s3 where s3: "usb10_wait_cmd_complete P 600000 ?s2 = (m, s3)" "0 < m" "view (bus s3) = view (bus ?s2)"
    "lag (bus s3) \<le> lag (bus ?s2)" "same_but_bus ?s2 s3" by (rule wait_cmd_complete_line [OF ob, of ?s2 600000]) (use v2(2) in auto)
  let ?s4 = "s3\<lparr>last_data_pid := replicate 4 (replicate 4 (USB10_PID_DATA1, USB10_PID_DATA0))\<rparr>"
  let ?t = "if us \<noteq> 0 then delay_us P us ?s4 else ?s4"
  have e: "usb10_bus_reset P us s = (0, ?t)" using s1 r1(3) s3(1,2) by (simp add: usb10_bus_reset_def status_ok_def Let_def)
  have "same_but_bus s s3" using same_but_bus_trans [OF r1(4)] s3(5) by (simp add: same_but_bus_iff usb10_write_reg_def)
  then have "same_driver s ?s4" by (auto simp: same_but_bus_iff same_driver_def pids_ok_def)
  moreover have "linked view lag 0 (USB10_PID_DATA1, USB10_PID_DATA0) (d\<lparr>address := 0, configured := False, stage := Idle\<rparr>) ?s4"
    using s3(3,4) v2 assms(3) by (auto simp: linked_def pids_ok_def pids_def naks_last)
  then have "linked view lag 0 (USB10_PID_DATA1, USB10_PID_DATA0) (d\<lparr>address := 0, configured := False, stage := Idle\<rparr>) ?t"
    using linked_same [of view lag 0 _ _ ?s4 "delay_us P us ?s4"] delay_line [OF ob, of us ?s4] by simp
  ultimately show ?thesis using that [OF e] by simp
qed

lemma linked_address: "linked view lag a p d s \<Longrightarrow> unat b < 4 \<Longrightarrow> \<exists>q. linked view lag b q d s"
  by (simp add: linked_def pids_def)

section \<open>Enumeration\<close>

text \<open>What is kept of a descriptor: the first one of its type, or the old one, marked as obsolete.\<close>

definition kept :: "nat \<Rightarrow> u8 \<Rightarrow> u8 list list \<Rightarrow> u8 list \<Rightarrow> u8 list" where
  "kept n ty ds old = (case find (\<lambda>d. d ! 1 = ty) ds of Some d \<Rightarrow> take n d @ drop n old | None \<Rightarrow> obsolete old)"

lemma fill_obsolete: "0 < n \<Longrightarrow> old \<noteq> [] \<Longrightarrow> fill n ty ds (obsolete old) = kept n ty ds old"
  by (simp add: fill_def kept_def obsolete_def split: option.split)

lemma linked_descr [simp]: "linked view lag a p d (s\<lparr>usb10_config_descr := x, usb10_interface_descr := y, usb10_endpoint_descr := z\<rparr>) =
    linked view lag a p d s"
  by (simp add: linked_def pids_ok_def pids_def)

text \<open>The second half: the configuration is read, its descriptors are kept, and it is chosen.\<close>

lemma configure_linked:
  assumes ob: "obeys P view lag device_reaction" and "linked view lag A q d s" "address d = A" "stage d = Idle" "MIE s"
    "config_bytes d = concat ds" "\<forall>x \<in> set ds. descr_ok x" "length (concat ds) \<le> 255"
    "9 \<le> length (usb10_config_descr s)" "9 \<le> length (usb10_interface_descr s)" "7 \<le> length (usb10_endpoint_descr s)" "length bulk = 256"
  obtains c t u v where "usb10_get_device_descriptor P A 0 2 0 255 bulk s = Some (int (length (concat ds)), c, t)"
    "parse_loop (length ds + 1) c (int (length (concat ds))) 0 (t\<lparr>usb10_config_descr := obsolete (usb10_config_descr t),
      usb10_interface_descr := obsolete (usb10_interface_descr t), usb10_endpoint_descr := obsolete (usb10_endpoint_descr t)\<rparr>) = Some u"
    "usb10_set_value P A 0 0 0x09 1 0 0 u = Some (0, v)" "\<exists>ns. device (view (bus v)) = d\<lparr>configured := True, naks := ns\<rparr>"
    "usb10_device_descr v = usb10_device_descr s" "usb10_config_descr v = kept 9 0x02 ds (usb10_config_descr s)"
    "usb10_interface_descr v = kept 9 0x04 ds (usb10_interface_descr s)" "usb10_endpoint_descr v = kept 7 0x05 ds (usb10_endpoint_descr s)"
proof -
  have idle: "d\<lparr>stage := Idle\<rparr> = d" using assms(4) by (intro usb_device.equality) simp_all
  obtain c t r where t: "usb10_get_device_descriptor P A 0 2 0 255 bulk s = Some (int (length (concat ds)), c, t)"
    "linked view lag A (USB10_PID_DATA1, r) (d\<lparr>stage := Idle\<rparr>) t" "length c = length bulk" "take (length (concat ds)) c = concat ds"
    by (rule get_descriptor_linked [OF ob assms(2,3), of "concat ds" 2 255 bulk 0]) (use assms(6,8,12) in auto)
  have k: "same_driver s t" by (rule get_descriptor_same [OF t(1) assms(5)]) (simp add: num_of_data_packets_def assms(12))
  have same: "usb10_device_descr t = usb10_device_descr s" "usb10_config_descr t = usb10_config_descr s"
    "usb10_interface_descr t = usb10_interface_descr s" "usb10_endpoint_descr t = usb10_endpoint_descr s" "MIE t"
    using k assms(5) by (simp_all add: same_driver_def)
  let ?t = "t\<lparr>usb10_config_descr := obsolete (usb10_config_descr t), usb10_interface_descr := obsolete (usb10_interface_descr t),
    usb10_endpoint_descr := obsolete (usb10_endpoint_descr t)\<rparr>"
  let ?u = "t\<lparr>usb10_config_descr := kept 9 0x02 ds (usb10_config_descr s), usb10_interface_descr := kept 9 0x04 ds (usb10_interface_descr s),
    usb10_endpoint_descr := kept 7 0x05 ds (usb10_endpoint_descr s)\<rparr>"
  have ne: "usb10_config_descr s \<noteq> []" "usb10_interface_descr s \<noteq> []" "usb10_endpoint_descr s \<noteq> []" using assms(9-11) by auto
  have u: "parse_loop (length ds + 1) c (int (length (concat ds))) 0 ?t = Some ?u"
    using parse_loop_fills [of ds 0 c ?t "length ds + 1" "int (length (concat ds))"] assms(7-12) t(3,4) same(2-4)
    by (simp add: obsolete_def fill_obsolete [unfolded obsolete_def] ne)
  have lu: "linked view lag A (USB10_PID_DATA1, r) d ?u" using t(2) by (simp add: idle)
  obtain v where v: "usb10_set_value P A 0 0 0x09 1 0 0 ?u = Some (0, v)"
    "linked view lag A (USB10_PID_DATA0, data_pid True) (d\<lparr>configured := True, stage := Idle\<rparr>) v"
    by (rule set_value_linked [OF ob lu assms(3), of 0 "0x09" 1 0]) (use assms(3) in \<open>auto simp: request_bytes sends_def\<close>)
  have kv: "same_driver ?u v" by (rule set_value_same [OF v(1)]) (simp add: same(5))
  have "d\<lparr>configured := True, stage := Idle\<rparr> = d\<lparr>configured := True\<rparr>" using assms(4) by (intro usb_device.equality) simp_all
  moreover obtain ns where "device (view (bus v)) = d\<lparr>configured := True, stage := Idle\<rparr>\<lparr>naks := ns\<rparr>" using v(2) by (auto simp: linked_def)
  ultimately have "\<exists>ns. device (view (bus v)) = d\<lparr>configured := True, naks := ns\<rparr>" by auto
  then show ?thesis using that [OF t(1) u v(1)] kv same(1) by (simp add: same_driver_def)
qed


definition keyboard_device :: usb_device where
  "keyboard_device = \<lparr>address = 3, configured = True, stage = Out_status, device_bytes = 18 # 1 # replicate 16 7,
     config_bytes = [9, 2, 18, 0, 1, 1, 0, 160, 50, 9, 4, 0, 0, 1, 3, 1, 1, 0], naks = [2, 0, 4, 1]\<rparr>"


end
